(* ===== verification/Prelude.thy ===== *)
theory Prelude
  imports Main "HOL-Library.Word" "HOL-Library.Monad_Syntax"
begin

unbundle bit_operations_syntax

text \<open>
  Shared vocabulary of the development.

  \<^item> Names for the machine types of the Rust sources: \<open>u8\<close>, \<open>u16\<close>, \<open>u32\<close>, \<open>u64\<close> are
    \<open>n word\<close>; \<open>usize\<close> is \<open>nat\<close> (64-bit targets; a place where a 64-bit wrap-around or a
    truncating cast matters writes it out).
  \<^item> The convention for panics: an operation that indexes a slice or an array returns
    \<open>'a option\<close> and \<open>None\<close> is the Rust panic. Operations thread their state explicitly
    through the option monad.
  \<^item> Slices: \<open>sub_slice\<close> (\<open>xs[a..b]\<close>), \<open>blit\<close> (\<open>copy_from_slice\<close> into a range).
  \<^item> Little- and big-endian readers and writers with their round trips.
  \<^item> Bitmaps stored in byte arrays, used by the frame allocator, the file system's block
    bitmap and the reassembly coverage map, as one interface (locale \<open>bit_array\<close>).
\<close>

named_theorems fsm_simps \<open>state functions of the Frame systems\<close>
named_theorems inv_defs \<open>definitions of the components' invariants\<close>
named_theorems len_simps \<open>lengths that the operations keep\<close>

type_synonym u8 = "8 word"
type_synonym u16 = "16 word"
type_synonym u32 = "32 word"
type_synonym u64 = "64 word"
type_synonym usize = nat
type_synonym bytes = "u8 list"

section \<open>Slices\<close>

text \<open>\<open>&xs[a..b]\<close>: panics when \<open>a > b\<close> or \<open>b > xs.len()\<close>.\<close>

definition sub_slice :: "'a list \<Rightarrow> nat \<Rightarrow> nat \<Rightarrow> 'a list option" where
  "sub_slice xs a b =
     (if a \<le> b \<and> b \<le> length xs then Some (take (b - a) (drop a xs)) else None)"

text \<open>\<open>xs[i]\<close>: panics out of range.\<close>

definition index :: "'a list \<Rightarrow> nat \<Rightarrow> 'a option" where
  "index xs i = (if i < length xs then Some (xs ! i) else None)"

text \<open>The total part of \<open>xs[o..o + src.len()].copy_from_slice(src)\<close>.\<close>

definition blit :: "'a list \<Rightarrow> nat \<Rightarrow> 'a list \<Rightarrow> 'a list" where
  "blit xs n src = take n xs @ src @ drop (n + length src) xs"

text \<open>The same with the range check: panics when the range does not fit.\<close>

definition blit_checked :: "'a list \<Rightarrow> nat \<Rightarrow> 'a list \<Rightarrow> 'a list option" where
  "blit_checked xs n src = (if n + length src \<le> length xs then Some (blit xs n src) else None)"

lemma sub_slice_Some_iff:
  "sub_slice xs a b = Some ys \<longleftrightarrow> a \<le> b \<and> b \<le> length xs \<and> ys = take (b - a) (drop a xs)"
  by (auto simp: sub_slice_def)

lemma length_sub_slice: "sub_slice xs a b = Some ys \<Longrightarrow> length ys = b - a"
  by (auto simp: sub_slice_Some_iff)

lemma length_blit [simp, len_simps]:
  "n + length src \<le> length xs \<Longrightarrow> length (blit xs n src) = length xs"
  by (simp add: blit_def)

lemma nth_blit:
  assumes "n + length src \<le> length xs" and "i < length xs"
  shows "blit xs n src ! i =
    (if n \<le> i \<and> i < n + length src then src ! (i - n) else xs ! i)"
  using assms by (auto simp: blit_def nth_append min_def)

lemma blit_Nil [simp]: "blit xs n [] = xs"
  by (simp add: blit_def)

lemma take_drop_blit_same:
  assumes "n + length src \<le> length xs"
  shows "take (length src) (drop n (blit xs n src)) = src"
  using assms by (simp add: blit_def)

lemma take_drop_blit_other:
  assumes "n + length src \<le> length xs" and "a + m \<le> n \<or> n + length src \<le> a" and "a + m \<le> length xs"
  shows "take m (drop a (blit xs n src)) = take m (drop a xs)"
proof (rule nth_equalityI)
  show "length (take m (drop a (blit xs n src))) = length (take m (drop a xs))"
    using assms by simp
next
  fix i assume "i < length (take m (drop a (blit xs n src)))"
  with assms have i: "i < m" by simp
  with assms show "take m (drop a (blit xs n src)) ! i = take m (drop a xs) ! i"
    by (auto simp: nth_blit)
qed

lemma nth_take_drop: "i < m \<Longrightarrow> a + m \<le> length xs \<Longrightarrow> take m (drop a xs) ! i = xs ! (a + i)"
  by simp

text \<open>
  Tests on slices and bytes as the sources write them: a comparison of \<open>xs[a..b]\<close> or \<open>xs[i]\<close>
  panics out of range, and \<open>&&\<close> and \<open>||\<close> evaluate their operands from left to right and stop early.
\<close>

definition slice_is :: "'a list \<Rightarrow> nat \<Rightarrow> nat \<Rightarrow> 'a list \<Rightarrow> bool option" where
  "slice_is xs a b ys = do { s \<leftarrow> sub_slice xs a b; Some (s = ys) }"

definition index_is :: "'a list \<Rightarrow> nat \<Rightarrow> ('a \<Rightarrow> bool) \<Rightarrow> bool option" where
  "index_is xs i p = do { x \<leftarrow> index xs i; Some (p x) }"

fun all_of :: "bool option list \<Rightarrow> bool option" where
  "all_of [] = Some True"
| "all_of (p # ps) = do { b \<leftarrow> p; if b then all_of ps else Some False }"

fun any_of :: "bool option list \<Rightarrow> bool option" where
  "any_of [] = Some False"
| "any_of (p # ps) = do { b \<leftarrow> p; if b then Some True else any_of ps }"

lemma slice_is_Some: "a \<le> b \<Longrightarrow> b \<le> length xs \<Longrightarrow> slice_is xs a b ys = Some (take (b - a) (drop a xs) = ys)"
  by (simp add: slice_is_def sub_slice_def)

lemma index_is_Some: "i < length xs \<Longrightarrow> index_is xs i p = Some (p (xs ! i))"
  by (simp add: index_is_def index_def)

lemma index_Some: "i < length xs \<Longrightarrow> index xs i = Some (xs ! i)"
  by (simp add: index_def)

lemma all_of_Some: "all_of (map Some bs) = Some (list_all (\<lambda>b. b) bs)"
  by (induction bs) simp_all

section \<open>Checked arithmetic\<close>

text \<open>
  The kernel is built with overflow checks: \<open>x += 1\<close> panics at the largest value of the type, and
  \<open>a - b\<close> when it would be negative.
\<close>

definition checked_inc :: "'a::len word \<Rightarrow> 'a word option" where
  "checked_inc w = (if w = - 1 then None else Some (w + 1))"

definition checked_sub :: "'a::len word \<Rightarrow> 'a word \<Rightarrow> 'a word option" where
  "checked_sub a b = (if b \<le> a then Some (a - b) else None)"

lemma checked_inc_Some:
  fixes w :: "'a::len word"
  assumes "unat w + 1 < 2 ^ LENGTH('a)"
  shows "checked_inc w = Some (w + 1)" and "unat (w + 1) = unat w + 1"
proof -
  show u: "unat (w + 1) = unat w + 1" using assms by (simp add: unat_word_ariths)
  then have "w \<noteq> - 1" by auto
  then show "checked_inc w = Some (w + 1)" by (simp add: checked_inc_def)
qed

lemma checked_sub_Some:
  assumes "unat b \<le> unat a"
  shows "checked_sub a b = Some (a - b)" and "unat (a - b) = unat a - unat b"
  using assms by (simp_all add: checked_sub_def word_le_nat_alt unat_sub)

section \<open>Endianness\<close>

definition u16_from_le :: "u8 \<Rightarrow> u8 \<Rightarrow> u16" where
  "u16_from_le b0 b1 = ucast b0 OR push_bit 8 (ucast b1)"

definition u32_from_le :: "u8 \<Rightarrow> u8 \<Rightarrow> u8 \<Rightarrow> u8 \<Rightarrow> u32" where
  "u32_from_le b0 b1 b2 b3 =
     ucast b0 OR push_bit 8 (ucast b1) OR push_bit 16 (ucast b2) OR push_bit 24 (ucast b3)"

definition u64_from_le :: "bytes \<Rightarrow> u64" where
  "u64_from_le bs = foldr (\<lambda>b acc. push_bit 8 acc OR ucast b) bs 0"

definition u16_to_le :: "u16 \<Rightarrow> bytes" where
  "u16_to_le v = [ucast v, ucast (drop_bit 8 v)]"

definition u32_to_le :: "u32 \<Rightarrow> bytes" where
  "u32_to_le v = [ucast v, ucast (drop_bit 8 v), ucast (drop_bit 16 v), ucast (drop_bit 24 v)]"

definition u16_from_be :: "u8 \<Rightarrow> u8 \<Rightarrow> u16" where
  "u16_from_be b0 b1 = u16_from_le b1 b0"

definition u32_from_be :: "u8 \<Rightarrow> u8 \<Rightarrow> u8 \<Rightarrow> u8 \<Rightarrow> u32" where
  "u32_from_be b0 b1 b2 b3 = u32_from_le b3 b2 b1 b0"

definition u16_to_be :: "u16 \<Rightarrow> bytes" where
  "u16_to_be v = rev (u16_to_le v)"

definition u32_to_be :: "u32 \<Rightarrow> bytes" where
  "u32_to_be v = rev (u32_to_le v)"

lemma length_to_le [simp, len_simps]:
  "length (u16_to_le v) = 2" "length (u32_to_le w) = 4"
  "length (u16_to_be v) = 2" "length (u32_to_be w) = 4"
  by (simp_all add: u16_to_le_def u32_to_le_def u16_to_be_def u32_to_be_def)

lemma u16_le_roundtrip: "u16_from_le (u16_to_le v ! 0) (u16_to_le v ! 1) = v"
  by (rule bit_word_eqI) (auto simp: u16_from_le_def u16_to_le_def bit_simps)

lemma u32_le_roundtrip:
  "u32_from_le (u32_to_le v ! 0) (u32_to_le v ! 1) (u32_to_le v ! 2) (u32_to_le v ! 3) = v"
proof (rule bit_word_eqI)
  fix n assume "n < LENGTH(32)"
  then consider "n < 8" | "8 \<le> n" "n < 16" | "16 \<le> n" "n < 24" | "24 \<le> n" "n < 32"
    by fastforce
  then show "bit (u32_from_le (u32_to_le v ! 0) (u32_to_le v ! 1) (u32_to_le v ! 2)
               (u32_to_le v ! 3)) n \<longleftrightarrow> bit v n"
    by cases (auto simp: u32_from_le_def u32_to_le_def bit_simps)
qed

lemma u16_be_roundtrip: "u16_from_be (u16_to_be v ! 0) (u16_to_be v ! 1) = v"
  using u16_le_roundtrip [of v] by (simp add: u16_from_be_def u16_to_be_def u16_to_le_def)

lemma u32_be_roundtrip:
  "u32_from_be (u32_to_be v ! 0) (u32_to_be v ! 1) (u32_to_be v ! 2) (u32_to_be v ! 3) = v"
  using u32_le_roundtrip [of v]
  by (simp add: u32_from_be_def u32_to_be_def u32_to_le_def numeral_2_eq_2 numeral_3_eq_3)

section \<open>Words as numbers\<close>

lemma unat_lt2p: "unat (w :: 'a::len word) < 2 ^ LENGTH('a)"
  by (rule unsigned_less)

lemma unat_eq_iff [simp]: "unat (a :: 'a::len word) = unat b \<longleftrightarrow> a = b"
  by (simp add: word_unat_eq_iff)

lemma unat_add_no_ovf:
  "unat (a :: 'a::len word) + unat b < 2 ^ LENGTH('a) \<Longrightarrow> unat (a + b) = unat a + unat b"
  by (simp add: unat_add_lem)

lemma ceil_div_nat:
  fixes b x :: nat
  assumes "0 < b"
  shows "(x + (b - 1)) div b = (if x mod b \<noteq> 0 then x div b + 1 else x div b)"
proof (cases "x mod b = 0")
  case True
  then have "x = b * (x div b)" by (metis add_0_right mult_div_mod_eq)
  then have "(x + (b - 1)) div b = (b * (x div b) + (b - 1)) div b" by simp
  also have "\<dots> = x div b" using assms by (subst div_mult_self4) simp_all
  finally show ?thesis using True by simp
next
  case False
  have "x + (b - 1) = b * Suc (x div b) + (x mod b - 1)"
    using False assms mult_div_mod_eq [of b x] by (simp only: mult_Suc_right)
  moreover have "(x mod b - 1) div b = 0"
    using assms by (simp add: less_imp_diff_less)
  ultimately have "(x + (b - 1)) div b = Suc (x div b)"
    using assms by (subst (1) \<open>x + (b - 1) = b * Suc (x div b) + (x mod b - 1)\<close>, subst div_mult_self4) simp_all
  with False show ?thesis by simp
qed

section \<open>Bitmaps in byte arrays\<close>

text \<open>
  The interface of a bit array: \<open>bget\<close> reads a bit, \<open>bset\<close> and \<open>bclr\<close> change one bit and
  keep the capacity. The clients (allocators and the coverage map) only use these laws.
\<close>

locale bit_array =
  fixes bget :: "'b \<Rightarrow> nat \<Rightarrow> bool"
    and bset :: "'b \<Rightarrow> nat \<Rightarrow> 'b"
    and bclr :: "'b \<Rightarrow> nat \<Rightarrow> 'b"
    and cap :: "'b \<Rightarrow> nat"
  assumes get_set: "i < cap b \<Longrightarrow> bget (bset b i) j \<longleftrightarrow> j = i \<or> bget b j"
    and get_clr: "i < cap b \<Longrightarrow> bget (bclr b i) j \<longleftrightarrow> j \<noteq> i \<and> bget b j"
    and cap_set: "cap (bset b i) = cap b"
    and cap_clr: "cap (bclr b i) = cap b"
begin

lemma free_set_bset:
  assumes "i < n" and "n \<le> cap b"
  shows "{j. j < n \<and> \<not> bget (bset b i) j} = {j. j < n \<and> \<not> bget b j} - {i}"
  using assms by (auto simp: get_set)

lemma free_set_bclr:
  assumes "i < n" and "n \<le> cap b"
  shows "{j. j < n \<and> \<not> bget (bclr b i) j} = insert i {j. j < n \<and> \<not> bget b j}"
  using assms by (auto simp: get_clr)

lemma card_free_bset:
  assumes "i < n" and "n \<le> cap b" and "\<not> bget b i"
  shows "Suc (card {j. j < n \<and> \<not> bget (bset b i) j}) = card {j. j < n \<and> \<not> bget b j}"
proof -
  have "i \<in> {j. j < n \<and> \<not> bget b j}" using assms by simp
  then have "card {j. j < n \<and> \<not> bget b j} = Suc (card ({j. j < n \<and> \<not> bget b j} - {i}))"
    by (intro card.remove) simp_all
  then show ?thesis using free_set_bset [OF assms(1,2)] by simp
qed

lemma card_free_bclr:
  assumes "i < n" and "n \<le> cap b" and "bget b i"
  shows "card {j. j < n \<and> \<not> bget (bclr b i) j} = Suc (card {j. j < n \<and> \<not> bget b j})"
  using assms by (simp add: free_set_bclr)

lemma set_clr_same: "i < cap b \<Longrightarrow> bget (bclr (bset b i) i) j \<longleftrightarrow> j \<noteq> i \<and> bget b j"
  by (auto simp: get_clr get_set cap_set)

end

definition bitmap_get :: "bytes \<Rightarrow> nat \<Rightarrow> bool" where
  "bitmap_get bm i \<longleftrightarrow> bm ! (i div 8) AND push_bit (i mod 8) 1 \<noteq> 0"

definition bitmap_set :: "bytes \<Rightarrow> nat \<Rightarrow> bytes" where
  "bitmap_set bm i = bm[i div 8 := bm ! (i div 8) OR push_bit (i mod 8) 1]"

definition bitmap_clear :: "bytes \<Rightarrow> nat \<Rightarrow> bytes" where
  "bitmap_clear bm i = bm[i div 8 := bm ! (i div 8) AND NOT (push_bit (i mod 8) 1)]"

lemma bitmap_get_bit: "bitmap_get bm i \<longleftrightarrow> bit (bm ! (i div 8)) (i mod 8)"
  by (simp add: bitmap_get_def and_exp_eq_0_iff_not_bit)

lemma length_bitmap [simp, len_simps]:
  "length (bitmap_set bm i) = length bm" "length (bitmap_clear bm i) = length bm"
  by (simp_all add: bitmap_set_def bitmap_clear_def)

lemma div_mod_8_eq: "(i div 8 = j div 8 \<and> i mod 8 = j mod 8) \<longleftrightarrow> i = (j::nat)"
  by (metis div_mult_mod_eq)

lemma bitmap_get_set:
  assumes "i < 8 * length bm"
  shows "bitmap_get (bitmap_set bm i) j \<longleftrightarrow> j = i \<or> bitmap_get bm j"
proof (cases "j div 8 = i div 8")
  case True
  have "i div 8 < length bm" using assms by auto
  with True show ?thesis
    using div_mod_8_eq [of j i]
    by (auto simp: bitmap_get_bit bitmap_set_def bit_simps)
next
  case False
  then show ?thesis by (auto simp: bitmap_get_bit bitmap_set_def)
qed

lemma bitmap_get_clear:
  assumes "i < 8 * length bm"
  shows "bitmap_get (bitmap_clear bm i) j \<longleftrightarrow> j \<noteq> i \<and> bitmap_get bm j"
proof (cases "j div 8 = i div 8")
  case True
  have "i div 8 < length bm" using assms by auto
  with True show ?thesis
    using div_mod_8_eq [of j i]
    by (auto simp: bitmap_get_bit bitmap_clear_def bit_simps)
next
  case False
  then show ?thesis by (auto simp: bitmap_get_bit bitmap_clear_def)
qed

interpretation bitmap: bit_array bitmap_get bitmap_set bitmap_clear "\<lambda>b. 8 * length b"
  by unfold_locales (simp_all add: bitmap_get_set bitmap_get_clear)

lemma bitmap_get_shift: "bitmap_get bm i \<longleftrightarrow> drop_bit (i mod 8) (bm ! (i div 8)) AND 1 \<noteq> 0"
proof -
  have "bit (bm ! (i div 8)) (i mod 8) \<longleftrightarrow> odd (drop_bit (i mod 8) (bm ! (i div 8)))"
    by (simp add: bit_iff_odd_drop_bit)
  also have "\<dots> \<longleftrightarrow> drop_bit (i mod 8) (bm ! (i div 8)) AND 1 \<noteq> 0"
    by (simp add: and_one_eq odd_iff_mod_2_eq_one)
  finally show ?thesis by (simp add: bitmap_get_bit)
qed

end
