(* ===== verification/Fifo.thy ===== *)
theory Fifo
  imports Prelude
begin

text \<open>
  The interface of a bounded byte queue, as the pipe layer uses it, and what follows from it
  for every interleaving of writes and reads. \<open>enq src q\<close> appends as much of \<open>src\<close> as fits
  and returns how much that was; \<open>deq n q\<close> removes up to \<open>n\<close> bytes from the front. \<open>None\<close>
  is a panic.
\<close>

datatype fifo_op = Put bytes | Get nat

text \<open>
  Run a sequence of operations. The result is the concatenation of what the writes accepted,
  the concatenation of what the reads delivered, and the final queue.
\<close>

fun fifo_run ::
  "(bytes \<Rightarrow> 'q \<Rightarrow> (nat \<times> 'q) option) \<Rightarrow> (nat \<Rightarrow> 'q \<Rightarrow> (bytes \<times> 'q) option) \<Rightarrow>
   fifo_op list \<Rightarrow> 'q \<Rightarrow> (bytes \<times> bytes \<times> 'q) option" where
  "fifo_run enq deq [] q = Some ([], [], q)"
| "fifo_run enq deq (Put src # ops) q =
     do { (n, q) \<leftarrow> enq src q;
          (ins, outs, q) \<leftarrow> fifo_run enq deq ops q;
          Some (take n src @ ins, outs, q) }"
| "fifo_run enq deq (Get n # ops) q =
     do { (bs, q) \<leftarrow> deq n q;
          (ins, outs, q) \<leftarrow> fifo_run enq deq ops q;
          Some (ins, bs @ outs, q) }"

locale byte_fifo =
  fixes enq :: "bytes \<Rightarrow> 'q \<Rightarrow> (nat \<times> 'q) option"
    and deq :: "nat \<Rightarrow> 'q \<Rightarrow> (bytes \<times> 'q) option"
    and content :: "'q \<Rightarrow> bytes"
    and invar :: "'q \<Rightarrow> bool"
    and capacity :: nat
  assumes enq_ok: "invar q \<Longrightarrow>
      \<exists>q'. enq src q = Some (min (length src) (capacity - length (content q)), q') \<and> invar q'
         \<and> content q' = content q @ take (capacity - length (content q)) src"
    and deq_ok: "invar q \<Longrightarrow>
      \<exists>q'. deq n q = Some (take n (content q), q') \<and> invar q' \<and> content q' = drop n (content q)"
    and within: "invar q \<Longrightarrow> length (content q) \<le> capacity"
begin

text \<open>No operation sequence panics, and reads deliver exactly the accepted bytes in order.\<close>

lemma run_fifo:
  assumes "invar q"
  shows "\<exists>ins outs q'. fifo_run enq deq ops q = Some (ins, outs, q') \<and> invar q'
           \<and> content q @ ins = outs @ content q'"
  using assms
proof (induction ops arbitrary: q)
  case Nil
  then show ?case by simp
next
  case (Cons x ops)
  show ?case
  proof (cases x)
    case (Put src)
    let ?k = "capacity - length (content q)"
    obtain q1 where q1: "enq src q = Some (min (length src) ?k, q1)" "invar q1"
        "content q1 = content q @ take ?k src"
      using enq_ok [OF Cons.prems] by blast
    obtain ins outs q2 where run: "fifo_run enq deq ops q1 = Some (ins, outs, q2)" "invar q2"
        "content q1 @ ins = outs @ content q2"
      using Cons.IH [OF q1(2)] by blast
    have "take (min (length src) ?k) src = take ?k src" by (simp add: min_def)
    with Put q1 run show ?thesis by auto
  next
    case (Get n)
    obtain q1 where q1: "deq n q = Some (take n (content q), q1)" "invar q1"
        "content q1 = drop n (content q)"
      using deq_ok [OF Cons.prems] by blast
    obtain ins outs q2 where run: "fifo_run enq deq ops q1 = Some (ins, outs, q2)" "invar q2"
        "content q1 @ ins = outs @ content q2"
      using Cons.IH [OF q1(2)] by blast
    have "content q @ ins = take n (content q) @ (drop n (content q) @ ins)"
      by (simp flip: append_assoc)
    with Get q1 run show ?thesis by auto
  qed
qed

end

end
