(* ===== verification/Pipe.thy ===== *)
theory Pipe
  imports Fifo
begin

text \<open>
  Anonymous pipes: the lifecycle state machine \<open>frame/pipe.frs\<close> and the ring buffers and the
  pool of \<open>kernel/src/pipe.rs\<close>. The ring buffer implements the byte queue of \<open>Fifo\<close>
  (interpretation \<open>ring\<close>); the pool operations index the pool and lift it.
\<close>

section \<open>The Pipe Frame system\<close>

datatype pipe_state = Writable | Drained

text \<open>
  The domain counters are \<open>i32\<close> in the source. They count open descriptors, of which the
  system has at most \<open>MAX_PROCS * MAX_OPEN = 256\<close> (proved for the descriptor tables in
  \<open>Vfs\<close>), so they are kept as \<open>int\<close>.
\<close>

record pipe_fsm =
  pstate :: pipe_state
  readers :: int
  writers :: int

definition Pipe_create :: pipe_fsm where
  "Pipe_create = \<lparr>pstate = Writable, readers = 1, writers = 1\<rparr>"

definition reader_opened :: "pipe_fsm \<Rightarrow> pipe_fsm" where
  "reader_opened f = (case pstate f of
     Writable \<Rightarrow> f\<lparr>readers := readers f + 1\<rparr>
   | Drained \<Rightarrow> f\<lparr>readers := readers f + 1\<rparr>)"

definition writer_opened :: "pipe_fsm \<Rightarrow> pipe_fsm" where
  "writer_opened f = (case pstate f of
     Writable \<Rightarrow> f\<lparr>writers := writers f + 1\<rparr>
   | Drained \<Rightarrow> f\<lparr>writers := writers f + 1, pstate := Writable\<rparr>)"

definition reader_closed :: "pipe_fsm \<Rightarrow> pipe_fsm" where
  "reader_closed f = (case pstate f of
     Writable \<Rightarrow> f\<lparr>readers := readers f - 1\<rparr>
   | Drained \<Rightarrow> f\<lparr>readers := readers f - 1\<rparr>)"

definition writer_closed :: "pipe_fsm \<Rightarrow> pipe_fsm" where
  "writer_closed f = (case pstate f of
     Writable \<Rightarrow>
       (let f = f\<lparr>writers := writers f - 1\<rparr>
        in if writers f \<le> 0 then f\<lparr>pstate := Drained\<rparr> else f)
   | Drained \<Rightarrow> f)"

definition fsm_has_writers :: "pipe_fsm \<Rightarrow> bool" where
  "fsm_has_writers f = (case pstate f of Writable \<Rightarrow> True | Drained \<Rightarrow> False)"

definition is_free :: "pipe_fsm \<Rightarrow> bool" where
  "is_free f \<longleftrightarrow> readers f \<le> 0 \<and> writers f \<le> 0"

lemmas pipe_fsm_defs [fsm_simps] =
  Pipe_create_def reader_opened_def writer_opened_def reader_closed_def writer_closed_def
  fsm_has_writers_def is_free_def

text \<open>The state is the presence of writers: what a reader asks before it blocks.\<close>

definition pipe_fsm_ok :: "pipe_fsm \<Rightarrow> bool" where
  "pipe_fsm_ok f \<longleftrightarrow> 0 \<le> writers f \<and> (pstate f = Writable \<longleftrightarrow> 0 < writers f)"

lemma pipe_fsm_ok_create: "pipe_fsm_ok Pipe_create"
  by (simp add: pipe_fsm_ok_def fsm_simps)

lemma pipe_fsm_ok_step:
  assumes "pipe_fsm_ok f"
  shows "pipe_fsm_ok (reader_opened f)" "pipe_fsm_ok (writer_opened f)"
    "pipe_fsm_ok (reader_closed f)" "pipe_fsm_ok (writer_closed f)"
  using assms by (auto simp: pipe_fsm_ok_def fsm_simps Let_def split: pipe_state.split)

lemma pipe_counts [simp]:
  "readers (reader_opened f) = readers f + 1" "writers (reader_opened f) = writers f"
  "readers (writer_opened f) = readers f" "writers (writer_opened f) = writers f + 1"
  "readers (reader_closed f) = readers f - 1" "writers (reader_closed f) = writers f"
  "readers (writer_closed f) = readers f"
  by (auto simp: fsm_simps Let_def split: pipe_state.split)

lemma writers_writer_closed:
  "pipe_fsm_ok f \<Longrightarrow> 0 < writers f \<Longrightarrow> writers (writer_closed f) = writers f - 1"
  by (auto simp: pipe_fsm_ok_def writer_closed_def Let_def split: pipe_state.split)

section \<open>The ring buffer\<close>

definition PIPE_CAP :: nat where "PIPE_CAP = 64 * 1024"
definition MAX_PIPES :: nat where "MAX_PIPES = 8"

lemma PIPE_CAP_pos [simp]: "0 < PIPE_CAP"
  by (simp add: PIPE_CAP_def)

record pipe_buf =
  buf :: bytes
  head :: usize
  tail :: usize
  len :: usize
  fsm :: "pipe_fsm option"

definition PipeBuf_empty :: pipe_buf where
  "PipeBuf_empty = \<lparr>buf = replicate PIPE_CAP 0, head = 0, tail = 0, len = 0, fsm = None\<rparr>"

text \<open>The copy loop of \<open>read\<close>: \<open>n\<close> bytes from the tail.\<close>

fun ring_read_loop :: "nat \<Rightarrow> pipe_buf \<Rightarrow> (bytes \<times> pipe_buf) option" where
  "ring_read_loop 0 p = Some ([], p)"
| "ring_read_loop (Suc n) p =
     do { b \<leftarrow> index (buf p) (tail p);
          (bs, p) \<leftarrow> ring_read_loop n (p\<lparr>tail := (tail p + 1) mod PIPE_CAP\<rparr>);
          Some (b # bs, p) }"

definition ring_read :: "nat \<Rightarrow> pipe_buf \<Rightarrow> (bytes \<times> pipe_buf) option" where
  "ring_read dst_len p =
     (let n = min dst_len (len p)
      in do { (bs, p) \<leftarrow> ring_read_loop n p;
              Some (bs, p\<lparr>len := len p - n\<rparr>) })"

text \<open>The copy loop of \<open>write\<close>.\<close>

fun ring_write_loop :: "bytes \<Rightarrow> pipe_buf \<Rightarrow> pipe_buf option" where
  "ring_write_loop [] p = Some p"
| "ring_write_loop (b # bs) p =
     (if head p < length (buf p)
      then ring_write_loop bs
             (p\<lparr>buf := (buf p)[head p := b], head := (head p + 1) mod PIPE_CAP\<rparr>)
      else None)"

text \<open>
  \<open>PIPE_CAP - p.len\<close> cannot underflow where the invariant \<open>ring_ok\<close> holds, which every
  operation keeps.
\<close>

definition ring_write :: "bytes \<Rightarrow> pipe_buf \<Rightarrow> (nat \<times> pipe_buf) option" where
  "ring_write src p =
     (let free = PIPE_CAP - len p; n = min (length src) free
      in do { p \<leftarrow> ring_write_loop (take n src) p;
              Some (n, p\<lparr>len := len p + n\<rparr>) })"

text \<open>The bytes a ring holds, oldest first, and the relation between its cursors.\<close>

definition contents :: "pipe_buf \<Rightarrow> bytes" where
  "contents p = map (\<lambda>i. buf p ! ((tail p + i) mod PIPE_CAP)) [0..<len p]"

definition ring_ok :: "pipe_buf \<Rightarrow> bool" where
  [inv_defs]: "ring_ok p \<longleftrightarrow> length (buf p) = PIPE_CAP \<and> tail p < PIPE_CAP \<and> len p \<le> PIPE_CAP
     \<and> head p = (tail p + len p) mod PIPE_CAP"

lemma length_contents [simp, len_simps]: "length (contents p) = len p"
  by (simp add: contents_def)

lemma ring_ok_empty: "ring_ok PipeBuf_empty"
  by (simp add: ring_ok_def PipeBuf_empty_def)

lemma ring_ok_fsm [simp]: "ring_ok (p\<lparr>fsm := f\<rparr>) = ring_ok p"
  by (simp add: ring_ok_def)

lemma contents_fsm [simp]: "contents (p\<lparr>fsm := f\<rparr>) = contents p"
  by (simp add: contents_def)

lemma ring_read_loop_eq:
  assumes "length (buf p) = PIPE_CAP" and "tail p < PIPE_CAP"
  shows "ring_read_loop n p =
    Some (map (\<lambda>i. buf p ! ((tail p + i) mod PIPE_CAP)) [0..<n],
          p\<lparr>tail := (tail p + n) mod PIPE_CAP\<rparr>)"
  using assms
proof (induction n arbitrary: p)
  case 0
  then show ?case by simp
next
  case (Suc n)
  let ?p = "p\<lparr>tail := (tail p + 1) mod PIPE_CAP\<rparr>"
  have "ring_read_loop n ?p =
      Some (map (\<lambda>i. buf p ! ((tail p + Suc i) mod PIPE_CAP)) [0..<n],
            ?p\<lparr>tail := (tail p + Suc n) mod PIPE_CAP\<rparr>)"
    using Suc.IH [of ?p] Suc.prems by (simp add: mod_add_left_eq mod_Suc_eq)
  moreover have "[0..<Suc n] = 0 # map Suc [0..<n]"
    by (simp add: upt_conv_Cons map_Suc_upt del: upt_Suc)
  ultimately show ?case
    using Suc.prems by (simp add: index_def comp_def del: upt_Suc)
qed

lemma ring_read_ok:
  assumes "ring_ok p"
  shows "\<exists>p'. ring_read n p = Some (take n (contents p), p') \<and> ring_ok p'
           \<and> contents p' = drop n (contents p) \<and> fsm p' = fsm p"
proof -
  let ?n = "min n (len p)"
  let ?p = "p\<lparr>tail := (tail p + ?n) mod PIPE_CAP, len := len p - ?n\<rparr>"
  from assms have ok: "length (buf p) = PIPE_CAP" "tail p < PIPE_CAP" "len p \<le> PIPE_CAP"
      "head p = (tail p + len p) mod PIPE_CAP"
    by (simp_all add: ring_ok_def)
  have "take n (contents p) = map (\<lambda>i. buf p ! ((tail p + i) mod PIPE_CAP)) [0..<?n]"
    by (simp add: contents_def take_map min_def)
  then have "ring_read n p = Some (take n (contents p), ?p)"
    by (simp add: ring_read_def ring_read_loop_eq [OF ok(1,2)] Let_def)
  moreover have "contents ?p = drop n (contents p)"
    by (rule nth_equalityI)
      (auto simp: contents_def mod_add_left_eq min_def add.assoc)
  moreover have "((tail p + ?n) mod PIPE_CAP + (len p - ?n)) mod PIPE_CAP = head p"
    using ok(4) by (subst mod_add_left_eq) simp
  then have "ring_ok ?p"
    using ok(1,3) by (auto simp: ring_ok_def min_def)
  ultimately show ?thesis by (intro exI [of _ ?p]) simp
qed

lemma len_update_commute:
  "p\<lparr>len := k, buf := c, head := h\<rparr> = p\<lparr>buf := c, head := h, len := k\<rparr>"
  by (cases p) simp

lemma ring_write_loop_len:
  "ring_write_loop bs (p\<lparr>len := k\<rparr>) = map_option (\<lambda>q. q\<lparr>len := k\<rparr>) (ring_write_loop bs p)"
proof (induction bs arbitrary: p)
  case (Cons b bs)
  show ?case
    using Cons.IH [of "p\<lparr>buf := (buf p)[head p := b], head := (head p + 1) mod PIPE_CAP\<rparr>"]
    by (simp add: len_update_commute)
qed simp

text \<open>One byte written: the ring with its length advanced holds one more byte.\<close>

lemma ring_push:
  fixes b :: u8
  assumes "ring_ok p" and "len p < PIPE_CAP"
  defines "q \<equiv> p\<lparr>buf := (buf p)[head p := b], head := (head p + 1) mod PIPE_CAP, len := Suc (len p)\<rparr>"
  shows "ring_ok q" and "contents q = contents p @ [b]"
proof -
  from assms(1) have ok: "length (buf p) = PIPE_CAP" "tail p < PIPE_CAP"
      "head p = (tail p + len p) mod PIPE_CAP"
    by (simp_all add: ring_ok_def)
  show "ring_ok q"
    using assms(2) ok by (simp add: q_def ring_ok_def mod_Suc_eq)
  show "contents q = contents p @ [b]"
  proof (rule nth_equalityI)
    fix i assume "i < length (contents q)"
    then have i: "i < Suc (len p)" by (simp add: q_def)
    show "contents q ! i = (contents p @ [b]) ! i"
    proof (cases "i < len p")
      case True
      have "(tail p + i) mod PIPE_CAP \<noteq> (tail p + len p) mod PIPE_CAP"
      proof
        assume eq: "(tail p + i) mod PIPE_CAP = (tail p + len p) mod PIPE_CAP"
        then have "PIPE_CAP dvd (tail p + len p) - (tail p + i)"
          using True by (subst (asm) eq_commute) (simp add: mod_eq_dvd_iff_nat)
        then have "PIPE_CAP dvd len p - i" by simp
        then have "PIPE_CAP \<le> len p - i" using True by (intro dvd_imp_le) auto
        then show False using assms(2) by simp
      qed
      with True i show ?thesis
        using ok by (simp add: q_def contents_def nth_append del: upt_Suc)
    next
      case False
      with i have "i = len p" by simp
      then show ?thesis
        using ok by (simp add: q_def contents_def nth_append del: upt_Suc)
    qed
  qed (simp add: q_def)
qed

lemma ring_write_loop_ok:
  assumes "ring_ok p" and "len p + length bs \<le> PIPE_CAP"
  shows "\<exists>p'. ring_write_loop bs p = Some p' \<and> len p' = len p \<and> fsm p' = fsm p
     \<and> ring_ok (p'\<lparr>len := len p + length bs\<rparr>)
     \<and> contents (p'\<lparr>len := len p + length bs\<rparr>) = contents p @ bs"
  using assms
proof (induction bs arbitrary: p)
  case Nil
  then show ?case by simp
next
  case (Cons b bs)
  let ?p = "p\<lparr>buf := (buf p)[head p := b], head := (head p + 1) mod PIPE_CAP\<rparr>"
  let ?q = "?p\<lparr>len := Suc (len p)\<rparr>"
  have lt: "len p < PIPE_CAP" using Cons.prems by simp
  note push = ring_push [OF Cons.prems(1) lt, of b]
  obtain q' where q': "ring_write_loop bs ?q = Some q'" "len q' = Suc (len p)" "fsm q' = fsm p"
      "ring_ok (q'\<lparr>len := Suc (len p) + length bs\<rparr>)"
      "contents (q'\<lparr>len := Suc (len p) + length bs\<rparr>) = (contents p @ [b]) @ bs"
    using Cons.IH [of ?q] Cons.prems(2) push by auto
  from q'(1) ring_write_loop_len [where bs = bs and p = ?p and k = "Suc (len p)"] obtain p'
    where p': "ring_write_loop bs ?p = Some p'" "q' = p'\<lparr>len := Suc (len p)\<rparr>"
    by (cases "ring_write_loop bs ?p") auto
  from p'(1) ring_write_loop_len [where bs = bs and p = ?p and k = "len p"] have "p' = p'\<lparr>len := len p\<rparr>"
    by simp
  then have "len p' = len p" by (metis pipe_buf.select_convs(4) pipe_buf.surjective pipe_buf.update_convs(4))
  moreover have "head p < length (buf p)"
    using Cons.prems(1) by (simp add: ring_ok_def)
  ultimately show ?case using q' p' by simp
qed

lemma ring_write_ok:
  assumes "ring_ok p"
  shows "\<exists>p'. ring_write src p = Some (min (length src) (PIPE_CAP - len p), p') \<and> ring_ok p'
     \<and> contents p' = contents p @ take (PIPE_CAP - len p) src \<and> fsm p' = fsm p"
proof -
  let ?n = "min (length src) (PIPE_CAP - len p)"
  have "len p \<le> PIPE_CAP" using assms by (simp add: ring_ok_def)
  then have "len p + length (take ?n src) \<le> PIPE_CAP" by simp
  from ring_write_loop_ok [OF assms this] obtain p'
    where "ring_write_loop (take ?n src) p = Some p'" "len p' = len p" "fsm p' = fsm p"
      "ring_ok (p'\<lparr>len := len p + ?n\<rparr>)" "contents (p'\<lparr>len := len p + ?n\<rparr>) = contents p @ take ?n src"
    by auto
  moreover have "take ?n src = take (PIPE_CAP - len p) src" by (simp add: min_def)
  ultimately show ?thesis by (auto simp: ring_write_def Let_def)
qed

interpretation ring: byte_fifo ring_write ring_read contents ring_ok PIPE_CAP
proof (unfold_locales, goal_cases)
  case (1 q src)
  then show ?case using ring_write_ok [of q src] by auto
next
  case (2 q n)
  then show ?case using ring_read_ok [of q n] by auto
next
  case (3 q)
  then show ?case by (simp add: ring_ok_def)
qed

section \<open>The pool\<close>

type_synonym pipe_pool = "pipe_buf list"

definition POOL_init :: pipe_pool where
  "POOL_init = replicate MAX_PIPES PipeBuf_empty"

fun pipe_alloc_scan :: "nat \<Rightarrow> pipe_pool \<Rightarrow> nat option \<times> pipe_pool" where
  "pipe_alloc_scan i [] = (None, [])"
| "pipe_alloc_scan i (p # ps) =
     (if fsm p = None
      then (Some i, p\<lparr>head := 0, tail := 0, len := 0, fsm := Some Pipe_create\<rparr> # ps)
      else (let (r, ps') = pipe_alloc_scan (Suc i) ps in (r, p # ps')))"

definition pipe_alloc :: "pipe_pool \<Rightarrow> nat option \<times> pipe_pool" where
  "pipe_alloc pool = pipe_alloc_scan 0 pool"

text \<open>\<open>read\<close> fills the front of the destination buffer and returns the byte count.\<close>

definition pipe_read :: "nat \<Rightarrow> bytes \<Rightarrow> pipe_pool \<Rightarrow> (nat \<times> bytes \<times> pipe_pool) option" where
  "pipe_read i dst pool =
     do { p \<leftarrow> index pool i;
          (bs, p) \<leftarrow> ring_read (length dst) p;
          Some (length bs, blit dst 0 bs, pool[i := p]) }"

definition pipe_write :: "nat \<Rightarrow> bytes \<Rightarrow> pipe_pool \<Rightarrow> (nat \<times> pipe_pool) option" where
  "pipe_write i src pool =
     do { p \<leftarrow> index pool i;
          (n, p) \<leftarrow> ring_write src p;
          Some (n, pool[i := p]) }"

definition has_writers :: "nat \<Rightarrow> pipe_pool \<Rightarrow> bool option" where
  "has_writers i pool =
     do { p \<leftarrow> index pool i;
          Some (case fsm p of None \<Rightarrow> False | Some f \<Rightarrow> fsm_has_writers f) }"

definition inc_reader :: "nat \<Rightarrow> pipe_pool \<Rightarrow> pipe_pool option" where
  "inc_reader i pool =
     do { p \<leftarrow> index pool i;
          Some (pool[i := p\<lparr>fsm := map_option reader_opened (fsm p)\<rparr>]) }"

definition inc_writer :: "nat \<Rightarrow> pipe_pool \<Rightarrow> pipe_pool option" where
  "inc_writer i pool =
     do { p \<leftarrow> index pool i;
          Some (pool[i := p\<lparr>fsm := map_option writer_opened (fsm p)\<rparr>]) }"

definition free_if_idle :: "nat \<Rightarrow> pipe_pool \<Rightarrow> pipe_pool option" where
  "free_if_idle i pool =
     do { p \<leftarrow> index pool i;
          (let free = (case fsm p of None \<Rightarrow> True | Some f \<Rightarrow> is_free f)
           in Some (if free
                    then pool[i := p\<lparr>fsm := None, len := 0, head := 0, tail := 0\<rparr>]
                    else pool)) }"

definition dec_reader :: "nat \<Rightarrow> pipe_pool \<Rightarrow> pipe_pool option" where
  "dec_reader i pool =
     do { p \<leftarrow> index pool i;
          free_if_idle i (pool[i := p\<lparr>fsm := map_option reader_closed (fsm p)\<rparr>]) }"

definition dec_writer :: "nat \<Rightarrow> pipe_pool \<Rightarrow> pipe_pool option" where
  "dec_writer i pool =
     do { p \<leftarrow> index pool i;
          free_if_idle i (pool[i := p\<lparr>fsm := map_option writer_closed (fsm p)\<rparr>]) }"

subsection \<open>The pool's invariant\<close>

definition pipe_ok :: "pipe_buf \<Rightarrow> bool" where
  [inv_defs]: "pipe_ok p \<longleftrightarrow> ring_ok p \<and> (\<forall>f. fsm p = Some f \<longrightarrow> pipe_fsm_ok f)"

definition pool_ok :: "pipe_pool \<Rightarrow> bool" where
  [inv_defs]: "pool_ok pool \<longleftrightarrow> length pool = MAX_PIPES \<and> (\<forall>p \<in> set pool. pipe_ok p)"

lemma pool_ok_init: "pool_ok POOL_init"
  by (simp add: pool_ok_def POOL_init_def pipe_ok_def ring_ok_empty) (simp add: PipeBuf_empty_def)

lemma pool_ok_nth: "pool_ok pool \<Longrightarrow> i < MAX_PIPES \<Longrightarrow> pipe_ok (pool ! i)"
  by (simp add: pool_ok_def)

lemma pool_ok_update: "pool_ok pool \<Longrightarrow> pipe_ok p \<Longrightarrow> pool_ok (pool[i := p])"
  by (auto simp: pool_ok_def dest: set_update_subset_insert [THEN subsetD])

lemma pipe_ok_reset: "pipe_ok p \<Longrightarrow> pipe_fsm_ok f \<Longrightarrow>
    pipe_ok (p\<lparr>head := 0, tail := 0, len := 0, fsm := Some f\<rparr>)"
  by (simp add: pipe_ok_def ring_ok_def)

lemma pipe_ok_release: "pipe_ok p \<Longrightarrow> pipe_ok (p\<lparr>fsm := None, len := 0, head := 0, tail := 0\<rparr>)"
  by (simp add: pipe_ok_def ring_ok_def)

text \<open>What an allocation does: it takes the first free slot, or the pool is full.\<close>

lemma pipe_alloc_scan_eq:
  "pipe_alloc_scan k pool =
     (if \<exists>p \<in> set pool. fsm p = None
      then (let j = length (takeWhile (\<lambda>p. fsm p \<noteq> None) pool)
            in (Some (k + j),
                pool[j := (pool ! j)\<lparr>head := 0, tail := 0, len := 0, fsm := Some Pipe_create\<rparr>]))
      else (None, pool))"
  by (induction pool arbitrary: k) (auto simp: Let_def)

lemma pipe_alloc_cases:
  obtains (full) "pipe_alloc pool = (None, pool)" "\<forall>p \<in> set pool. fsm p \<noteq> None"
  | (slot) j where "j < length pool" "fsm (pool ! j) = None" "\<forall>i < j. fsm (pool ! i) \<noteq> None"
      "pipe_alloc pool =
         (Some j, pool[j := (pool ! j)\<lparr>head := 0, tail := 0, len := 0, fsm := Some Pipe_create\<rparr>])"
proof (cases "\<exists>p \<in> set pool. fsm p = None")
  case True
  let ?j = "length (takeWhile (\<lambda>p. fsm p \<noteq> None) pool)"
  from True have j: "?j < length pool"
    by (metis (mono_tags, lifting) length_takeWhile_le nat_less_le takeWhile_eq_all_conv
        takeWhile_eq_take take_all)
  then have "fsm (pool ! ?j) = None"
    using nth_length_takeWhile by blast
  moreover have "\<forall>i < ?j. fsm (pool ! i) \<noteq> None"
    by (metis (mono_tags, lifting) nth_mem set_takeWhileD takeWhile_nth)
  ultimately show ?thesis
    using slot [of ?j] j True by (simp add: pipe_alloc_def pipe_alloc_scan_eq Let_def)
next
  case False
  then show ?thesis using full by (simp add: pipe_alloc_def pipe_alloc_scan_eq)
qed

text \<open>The descriptor counts of slot \<open>i\<close>: \<open>(0, 0)\<close> for a free slot.\<close>

definition pipe_refs :: "pipe_pool \<Rightarrow> nat \<Rightarrow> int \<times> int" where
  "pipe_refs pool i =
     (case fsm (pool ! i) of None \<Rightarrow> (0, 0) | Some f \<Rightarrow> (readers f, writers f))"

section \<open>Properties\<close>

text \<open>
  C30: a pipe is a FIFO of bytes. From any ring in a valid state (a fresh one, or one reused
  with stale bytes in its buffer), every sequence of reads and writes runs without a panic,
  and the bytes the reads deliver followed by the bytes still buffered are the old content
  followed by the bytes the writes accepted, in order; at most \<open>PIPE_CAP\<close> stay buffered.
\<close>

theorem pipe_fifo:
  assumes "ring_ok p"
  shows "\<exists>ins outs p'. fifo_run ring_write ring_read ops p = Some (ins, outs, p')
           \<and> contents p @ ins = outs @ contents p' \<and> length (contents p') \<le> PIPE_CAP"
  using ring.run_fifo [OF assms, of ops] ring.within by blast

theorem pipe_fifo_witness:
  "\<exists>ins outs p'. fifo_run ring_write ring_read [Put [1, 2, 3], Get 2, Put [4], Get 9] PipeBuf_empty
       = Some (ins, outs, p')
     \<and> contents PipeBuf_empty @ ins = outs @ contents p' \<and> length (contents p') \<le> PIPE_CAP"
  by (rule pipe_fifo [OF ring_ok_empty])

end
