(* ===== verification/FsFormat.thy ===== *)
theory FsFormat
  imports Prelude
begin

text \<open>
  The on-disk format of \<open>shared/src/fs.rs\<close>: the block layout, the superblock, inodes and
  directory entries, with their parsers and writers. A parser or writer that indexes outside
  its block panics (\<open>None\<close>). The lemmas are the round trips, the frame properties of the
  writers, and the geometry of the layout (the regions are disjoint and every inode and every
  bitmap bit has its own place).
\<close>

definition BLOCK_SIZE :: nat where "BLOCK_SIZE = 512"
definition MAGIC :: u32 where "MAGIC = 0xF5A50F50"
definition SB_BLOCK :: u32 where "SB_BLOCK = 0"
definition BITMAP_START :: u32 where "BITMAP_START = 1"
definition BITS_PER_BLOCK :: u32 where "BITS_PER_BLOCK = of_nat (BLOCK_SIZE * 8)"
definition PTRS_PER_BLOCK :: nat where "PTRS_PER_BLOCK = BLOCK_SIZE div 4"
definition INODE_SIZE :: nat where "INODE_SIZE = 128"
definition INODES_PER_BLOCK :: nat where "INODES_PER_BLOCK = BLOCK_SIZE div INODE_SIZE"
definition INODE_BLOCKS :: u32 where "INODE_BLOCKS = 32"
definition INODE_COUNT :: u32 where "INODE_COUNT = INODE_BLOCKS * of_nat INODES_PER_BLOCK"
definition NDIRECT :: nat where "NDIRECT = 28"
definition NAME_LEN :: nat where "NAME_LEN = 28"
definition DIRENT_SIZE :: nat where "DIRENT_SIZE = 32"
definition ROOT_INODE :: u32 where "ROOT_INODE = 1"
definition T_FREE :: u16 where "T_FREE = 0"
definition T_FILE :: u16 where "T_FILE = 1"
definition T_DIR :: u16 where "T_DIR = 2"

lemmas fs_consts =
  BLOCK_SIZE_def SB_BLOCK_def BITMAP_START_def BITS_PER_BLOCK_def PTRS_PER_BLOCK_def
  INODE_SIZE_def INODES_PER_BLOCK_def INODE_BLOCKS_def INODE_COUNT_def NDIRECT_def
  NAME_LEN_def DIRENT_SIZE_def ROOT_INODE_def T_FREE_def T_FILE_def T_DIR_def

section \<open>Layout\<close>

record layout =
  total_blocks :: u32
  bitmap_blocks :: u32
  inode_start :: u32
  data_start :: u32

text \<open>Rust's \<open>u32::div_ceil\<close>.\<close>

definition div_ceil :: "u32 \<Rightarrow> u32 \<Rightarrow> u32" where
  "div_ceil a b = (if a mod b \<noteq> 0 then a div b + 1 else a div b)"

definition for_total :: "u32 \<Rightarrow> layout" where
  "for_total tb =
     (let bitmap = div_ceil tb BITS_PER_BLOCK;
          istart = BITMAP_START + bitmap;
          dstart = istart + INODE_BLOCKS
      in \<lparr>total_blocks = tb, bitmap_blocks = bitmap, inode_start = istart, data_start = dstart\<rparr>)"

definition inode_loc :: "layout \<Rightarrow> u32 \<Rightarrow> u32 \<times> usize" where
  "inode_loc l ino =
     (inode_start l + ino div of_nat INODES_PER_BLOCK, (unat ino mod INODES_PER_BLOCK) * INODE_SIZE)"

text \<open>The bitmap block of a disk block, and the byte and the bit in it.\<close>

definition bitmap_loc :: "layout \<Rightarrow> u32 \<Rightarrow> u32 \<times> usize \<times> nat" where
  "bitmap_loc l block =
     (let bm_block = BITMAP_START + block div BITS_PER_BLOCK;
          within = block mod BITS_PER_BLOCK
      in (bm_block, unat (within div 8), unat (within mod 8)))"

section \<open>Little-endian fields\<close>

definition rd_u16 :: "bytes \<Rightarrow> nat \<Rightarrow> u16 option" where
  "rd_u16 b i =
     do { b0 \<leftarrow> index b i; b1 \<leftarrow> index b (i + 1); Some (u16_from_le b0 b1) }"

definition rd_u32 :: "bytes \<Rightarrow> nat \<Rightarrow> u32 option" where
  "rd_u32 b i =
     do { b0 \<leftarrow> index b i; b1 \<leftarrow> index b (i + 1); b2 \<leftarrow> index b (i + 2); b3 \<leftarrow> index b (i + 3);
          Some (u32_from_le b0 b1 b2 b3) }"

definition wr_u16 :: "bytes \<Rightarrow> nat \<Rightarrow> u16 \<Rightarrow> bytes option" where
  "wr_u16 b i v = blit_checked b i (u16_to_le v)"

definition wr_u32 :: "bytes \<Rightarrow> nat \<Rightarrow> u32 \<Rightarrow> bytes option" where
  "wr_u32 b i v = blit_checked b i (u32_to_le v)"

section \<open>Superblock\<close>

record superblock =
  magic :: u32
  sb_total_blocks :: u32

definition Superblock_parse :: "bytes \<Rightarrow> superblock option" where
  "Superblock_parse block =
     do { m \<leftarrow> rd_u32 block 0; t \<leftarrow> rd_u32 block 4;
          Some \<lparr>magic = m, sb_total_blocks = t\<rparr> }"

definition Superblock_write :: "superblock \<Rightarrow> bytes \<Rightarrow> bytes option" where
  "Superblock_write sb block =
     do { block \<leftarrow> wr_u32 block 0 (magic sb); wr_u32 block 4 (sb_total_blocks sb) }"

section \<open>Inodes\<close>

record inode =
  kind :: u16
  nlink :: u16
  fsize :: u32
  direct :: "u32 list"
  indirect :: u32
  double_indirect :: u32

definition Inode_empty :: inode where
  "Inode_empty = \<lparr>kind = T_FREE, nlink = 0, fsize = 0, direct = replicate NDIRECT 0,
     indirect = 0, double_indirect = 0\<rparr>"

definition Inode_parse :: "bytes \<Rightarrow> nat \<Rightarrow> inode option" where
  "Inode_parse block off =
     do { ds \<leftarrow> those (map (\<lambda>i. rd_u32 block (off + 8 + i * 4)) [0..<NDIRECT]);
          k \<leftarrow> rd_u16 block off;
          nl \<leftarrow> rd_u16 block (off + 2);
          sz \<leftarrow> rd_u32 block (off + 4);
          ind \<leftarrow> rd_u32 block (off + 8 + NDIRECT * 4);
          dbl \<leftarrow> rd_u32 block (off + 12 + NDIRECT * 4);
          Some \<lparr>kind = k, nlink = nl, fsize = sz, direct = ds, indirect = ind,
                double_indirect = dbl\<rparr> }"

text \<open>The loop of \<open>Inode::write\<close> over the direct pointers.\<close>

fun wr_u32s :: "bytes \<Rightarrow> nat \<Rightarrow> u32 list \<Rightarrow> bytes option" where
  "wr_u32s block off [] = Some block"
| "wr_u32s block off (d # ds) = do { block \<leftarrow> wr_u32 block off d; wr_u32s block (off + 4) ds }"

definition Inode_write :: "inode \<Rightarrow> bytes \<Rightarrow> nat \<Rightarrow> bytes option" where
  "Inode_write n block off =
     do { block \<leftarrow> wr_u16 block off (kind n);
          block \<leftarrow> wr_u16 block (off + 2) (nlink n);
          block \<leftarrow> wr_u32 block (off + 4) (fsize n);
          block \<leftarrow> wr_u32s block (off + 8) (direct n);
          block \<leftarrow> wr_u32 block (off + 8 + NDIRECT * 4) (indirect n);
          wr_u32 block (off + 12 + NDIRECT * 4) (double_indirect n) }"

definition nblocks :: "inode \<Rightarrow> nat" where
  "nblocks n = (unat (fsize n) + BLOCK_SIZE - 1) div BLOCK_SIZE"

section \<open>Directory entries\<close>

definition read_dirent :: "bytes \<Rightarrow> nat \<Rightarrow> (bytes \<times> u32) option" where
  "read_dirent block off =
     do { name \<leftarrow> sub_slice block off (off + NAME_LEN);
          ino \<leftarrow> rd_u32 block (off + NAME_LEN);
          Some (name, ino) }"

definition write_dirent :: "bytes \<Rightarrow> nat \<Rightarrow> bytes \<Rightarrow> u32 \<Rightarrow> bytes option" where
  "write_dirent block off name ino =
     (let n = min (length name) NAME_LEN;
          buf = blit (replicate NAME_LEN 0) 0 (take n name)
      in do { block \<leftarrow> blit_checked block off buf;
              wr_u32 block (off + NAME_LEN) ino })"

text \<open>The comparison of a NUL-padded entry name with a path component.\<close>

definition name_eq :: "bytes \<Rightarrow> bytes \<Rightarrow> bool" where
  "name_eq dname name =
     (let n = min (length name) NAME_LEN
      in if n < NAME_LEN \<and> dname ! n \<noteq> 0 then False
         else take n dname = name \<and> (n = NAME_LEN \<or> dname ! n = 0))"

section \<open>Fields: reading what was written\<close>

lemma index_append_right [simp]: "index (a @ b) (length a + k) = index b k"
  by (simp add: index_def)

lemma index_blit_in:
  assumes "n + length src \<le> length xs" and "k < length src"
  shows "index (blit xs n src) (n + k) = index src k"
  using assms by (simp add: index_def nth_blit)

lemma index_blit_out:
  assumes "n + length src \<le> length xs" and "i < n \<or> n + length src \<le> i"
  shows "index (blit xs n src) i = index xs i"
  using assms by (auto simp: index_def nth_blit)

lemma rd_u32_cong:
  assumes "\<And>k. k < 4 \<Longrightarrow> index a (i + k) = index b (j + k)"
  shows "rd_u32 a i = rd_u32 b j"
  using assms [of 0] assms [of 1] assms [of 2] assms [of 3]
  by (simp add: rd_u32_def)

lemma rd_u16_cong:
  assumes "\<And>k. k < 2 \<Longrightarrow> index a (i + k) = index b (j + k)"
  shows "rd_u16 a i = rd_u16 b j"
  using assms [of 0] assms [of 1] by (simp add: rd_u16_def)

lemma rd_u32_blit_in:
  assumes "n + length src \<le> length xs" and "k + 4 \<le> length src"
  shows "rd_u32 (blit xs n src) (n + k) = rd_u32 src k"
  by (rule rd_u32_cong) (use assms in \<open>simp add: index_blit_in add.assoc\<close>)

lemma rd_u16_blit_in:
  assumes "n + length src \<le> length xs" and "k + 2 \<le> length src"
  shows "rd_u16 (blit xs n src) (n + k) = rd_u16 src k"
  by (rule rd_u16_cong) (use assms in \<open>simp add: index_blit_in add.assoc\<close>)

lemma rd_u32_blit_out:
  assumes "n + length src \<le> length xs" and "i + 4 \<le> n \<or> n + length src \<le> i"
  shows "rd_u32 (blit xs n src) i = rd_u32 xs i"
  by (rule rd_u32_cong) (use assms in \<open>auto simp: index_blit_out\<close>)

lemma rd_u16_blit_out:
  assumes "n + length src \<le> length xs" and "i + 2 \<le> n \<or> n + length src \<le> i"
  shows "rd_u16 (blit xs n src) i = rd_u16 xs i"
  by (rule rd_u16_cong) (use assms in \<open>auto simp: index_blit_out\<close>)

lemma rd_u32_append: "rd_u32 (a @ b) (length a + k) = rd_u32 b k"
  by (rule rd_u32_cong) (simp add: add.assoc)

lemma rd_u16_append: "rd_u16 (a @ b) (length a + k) = rd_u16 b k"
  by (rule rd_u16_cong) (simp add: add.assoc)

lemma rd_u32_to_le [simp]: "rd_u32 (u32_to_le v @ rest) 0 = Some v"
  using u32_le_roundtrip [of v]
  by (simp add: rd_u32_def index_def u32_to_le_def nth_append)

lemma rd_u16_to_le [simp]: "rd_u16 (u16_to_le v @ rest) 0 = Some v"
  using u16_le_roundtrip [of v]
  by (simp add: rd_u16_def index_def u16_to_le_def nth_append)

lemma rd_u32_in_range: "i + 4 \<le> length b \<Longrightarrow> \<exists>v. rd_u32 b i = Some v"
  by (simp add: rd_u32_def index_def)

lemma blit_append:
  assumes "n + length a + length b \<le> length xs"
  shows "blit (blit xs n a) (n + length a) b = blit xs n (a @ b)"
  using assms by (cases a) (auto simp: blit_def min_def ac_simps)

section \<open>Round trips\<close>

lemma Superblock_roundtrip:
  assumes "8 \<le> length block"
  shows "\<exists>block'. Superblock_write sb block = Some block' \<and> length block' = length block
           \<and> Superblock_parse block' = Some sb"
proof -
  have "Superblock_write sb block = Some (blit block 0 (u32_to_le (magic sb) @ u32_to_le (sb_total_blocks sb)))"
    using assms blit_append [of 0 "u32_to_le (magic sb)" "u32_to_le (sb_total_blocks sb)" block]
    by (simp add: Superblock_write_def wr_u32_def blit_checked_def)
  moreover have "rd_u32 (blit block 0 (u32_to_le (magic sb) @ u32_to_le (sb_total_blocks sb))) 0 = Some (magic sb)"
    using assms rd_u32_blit_in [of 0 "u32_to_le (magic sb) @ u32_to_le (sb_total_blocks sb)" block 0] by simp
  moreover have "rd_u32 (blit block 0 (u32_to_le (magic sb) @ u32_to_le (sb_total_blocks sb))) 4
      = Some (sb_total_blocks sb)"
    using assms rd_u32_blit_in [of 0 "u32_to_le (magic sb) @ u32_to_le (sb_total_blocks sb)" block 4]
      rd_u32_append [of "u32_to_le (magic sb)" "u32_to_le (sb_total_blocks sb)" 0]
      rd_u32_to_le [of "sb_total_blocks sb" "[]"] by simp
  ultimately show ?thesis using assms by (simp add: Superblock_parse_def)
qed

text \<open>The bytes of an inode; \<open>Inode::write\<close> puts exactly these at its offset.\<close>

definition inode_bytes :: "inode \<Rightarrow> bytes" where
  "inode_bytes n = u16_to_le (kind n) @ u16_to_le (nlink n) @ u32_to_le (fsize n)
     @ concat (map u32_to_le (direct n)) @ u32_to_le (indirect n) @ u32_to_le (double_indirect n)"

lemma length_concat_u32_to_le [simp]: "length (concat (map u32_to_le ds)) = 4 * length ds"
  by (induction ds) auto

definition inode_ok :: "inode \<Rightarrow> bool" where
  [inv_defs]: "inode_ok n \<longleftrightarrow> length (direct n) = NDIRECT"

lemma length_inode_bytes [simp]: "inode_ok n \<Longrightarrow> length (inode_bytes n) = INODE_SIZE"
  by (simp add: inode_bytes_def inode_ok_def NDIRECT_def INODE_SIZE_def)

lemma wr_u32s_blit:
  assumes "off + 4 * length ds \<le> length block"
  shows "wr_u32s block off ds = Some (blit block off (concat (map u32_to_le ds)))"
  using assms
proof (induction ds arbitrary: block off)
  case (Cons d ds)
  have "wr_u32 block off d = Some (blit block off (u32_to_le d))"
    using Cons.prems by (simp add: wr_u32_def blit_checked_def)
  moreover have "wr_u32s (blit block off (u32_to_le d)) (off + 4) ds
      = Some (blit (blit block off (u32_to_le d)) (off + 4) (concat (map u32_to_le ds)))"
    using Cons.IH [of "off + 4" "blit block off (u32_to_le d)"] Cons.prems by simp
  moreover have "blit (blit block off (u32_to_le d)) (off + 4) (concat (map u32_to_le ds))
      = blit block off (concat (map u32_to_le (d # ds)))"
    using blit_append [of off "u32_to_le d" "concat (map u32_to_le ds)" block] Cons.prems by simp
  ultimately show ?case by simp
qed simp

lemma Inode_write_blit:
  assumes "inode_ok n" and "off + INODE_SIZE \<le> length block"
  shows "Inode_write n block off = Some (blit block off (inode_bytes n))"
proof -
  let ?a = "u16_to_le (kind n)" and ?b = "u16_to_le (nlink n)" and ?c = "u32_to_le (fsize n)"
  let ?d = "concat (map u32_to_le (direct n))"
  let ?e = "u32_to_le (indirect n)" and ?f = "u32_to_le (double_indirect n)"
  have len: "length (direct n) = 28" using assms(1) by (simp add: inode_ok_def NDIRECT_def)
  have r: "off + 128 \<le> length block" using assms(2) by (simp add: INODE_SIZE_def)
  have "blit (blit block off ?a) (off + 2) ?b = blit block off (?a @ ?b)"
    using blit_append [of off ?a ?b block] r by simp
  moreover have "blit (blit block off (?a @ ?b)) (off + 4) ?c = blit block off (?a @ ?b @ ?c)"
    using blit_append [of off "?a @ ?b" ?c block] r by simp
  moreover have "blit (blit block off (?a @ ?b @ ?c)) (off + 8) ?d = blit block off (?a @ ?b @ ?c @ ?d)"
    using blit_append [of off "?a @ ?b @ ?c" ?d block] r len by simp
  moreover have "blit (blit block off (?a @ ?b @ ?c @ ?d)) (off + 120) ?e
      = blit block off (?a @ ?b @ ?c @ ?d @ ?e)"
    using blit_append [of off "?a @ ?b @ ?c @ ?d" ?e block] r len by (simp add: algebra_simps)
  moreover have "blit (blit block off (?a @ ?b @ ?c @ ?d @ ?e)) (off + 124) ?f
      = blit block off (inode_bytes n)"
    using blit_append [of off "?a @ ?b @ ?c @ ?d @ ?e" ?f block] r len
    by (simp add: algebra_simps inode_bytes_def)
  ultimately show ?thesis
    using r len
    by (simp add: Inode_write_def wr_u16_def wr_u32_def blit_checked_def wr_u32s_blit NDIRECT_def
        algebra_simps)
qed

lemma rd_u32_concat:
  assumes "i < length ds"
  shows "rd_u32 (concat (map u32_to_le ds) @ rest) (4 * i) = Some (ds ! i)"
  using assms
proof (induction ds arbitrary: i)
  case (Cons d ds)
  show ?case
  proof (cases i)
    case (Suc j)
    then have "rd_u32 (u32_to_le d @ (concat (map u32_to_le ds) @ rest)) (length (u32_to_le d) + 4 * j)
        = Some (ds ! j)"
      using Cons by (simp only: rd_u32_append) simp
    with Suc show ?thesis by (simp add: algebra_simps)
  qed simp
qed simp

lemma those_map_Some: "(\<And>x. x \<in> set xs \<Longrightarrow> f x = Some (g x)) \<Longrightarrow> those (map f xs) = Some (map g xs)"
  by (induction xs) auto

lemma Inode_parse_bytes:
  assumes "inode_ok n"
  shows "Inode_parse (inode_bytes n) 0 = Some n"
proof -
  let ?a = "u16_to_le (kind n)" and ?b = "u16_to_le (nlink n)" and ?c = "u32_to_le (fsize n)"
  let ?d = "concat (map u32_to_le (direct n))"
  let ?e = "u32_to_le (indirect n)" and ?f = "u32_to_le (double_indirect n)"
  have len: "length (direct n) = 28" using assms by (simp add: inode_ok_def NDIRECT_def)
  have ds: "rd_u32 (inode_bytes n) (8 + i * 4) = Some (direct n ! i)" if "i < 28" for i
    using rd_u32_append [of "?a @ ?b @ ?c" "?d @ ?e @ ?f" "4 * i"]
      rd_u32_concat [of i "direct n" "?e @ ?f"] that len
    by (simp add: inode_bytes_def algebra_simps)
  have "those (map (\<lambda>i. rd_u32 (inode_bytes n) (8 + i * 4)) [0..<28]) = Some (map ((!) (direct n)) [0..<28])"
    by (rule those_map_Some) (simp add: ds)
  moreover have "map ((!) (direct n)) [0..<28] = direct n"
    using map_nth [of "direct n"] len by simp
  moreover have "rd_u16 (inode_bytes n) 2 = Some (nlink n)"
    using rd_u16_append [of ?a "?b @ ?c @ ?d @ ?e @ ?f" 0] by (simp add: inode_bytes_def)
  moreover have "rd_u32 (inode_bytes n) 4 = Some (fsize n)"
    using rd_u32_append [of "?a @ ?b" "?c @ ?d @ ?e @ ?f" 0] by (simp add: inode_bytes_def)
  moreover have "rd_u32 (inode_bytes n) 120 = Some (indirect n)"
    using rd_u32_append [of "?a @ ?b @ ?c @ ?d" "?e @ ?f" 0] len by (simp add: inode_bytes_def)
  moreover have "rd_u32 (inode_bytes n) 124 = Some (double_indirect n)"
    using rd_u32_append [of "?a @ ?b @ ?c @ ?d @ ?e" ?f 0] rd_u32_to_le [of _ "[]"] len
    by (simp add: inode_bytes_def)
  moreover have "rd_u16 (inode_bytes n) 0 = Some (kind n)"
    by (simp add: inode_bytes_def)
  ultimately show ?thesis
    by (simp add: Inode_parse_def NDIRECT_def numeral_2_eq_2 del: upt_Suc)
qed

text \<open>Parsing depends on the 128 bytes at the offset only.\<close>

lemma Inode_parse_cong:
  assumes "\<And>k. k < INODE_SIZE \<Longrightarrow> index a (i + k) = index b (j + k)"
  shows "Inode_parse a i = Inode_parse b j"
proof -
  have r32: "rd_u32 a (i + m) = rd_u32 b (j + m)" if "m + 4 \<le> 128" for m
    by (rule rd_u32_cong) (use assms that in \<open>simp add: INODE_SIZE_def add.assoc\<close>)
  have r16: "rd_u16 a (i + m) = rd_u16 b (j + m)" if "m + 2 \<le> 128" for m
    by (rule rd_u16_cong) (use assms that in \<open>simp add: INODE_SIZE_def add.assoc\<close>)
  have "those (map (\<lambda>k. rd_u32 a (i + (8 + k * 4))) [0..<28])
      = those (map (\<lambda>k. rd_u32 b (j + (8 + k * 4))) [0..<28])"
    using r32 by (intro arg_cong [where f = those] map_cong) auto
  with r16 [of 0] show ?thesis
    using r16 [of 2] r32 [of 4] r32 [of 120] r32 [of 124]
    by (simp add: Inode_parse_def NDIRECT_def add.assoc del: upt_Suc)
qed

lemma Inode_parse_blit_same:
  assumes "inode_ok n" and "off + INODE_SIZE \<le> length block"
  shows "Inode_parse (blit block off (inode_bytes n)) off = Some n"
proof -
  have "Inode_parse (blit block off (inode_bytes n)) off = Inode_parse (inode_bytes n) 0"
    by (rule Inode_parse_cong) (use assms in \<open>simp add: index_blit_in\<close>)
  with Inode_parse_bytes [OF assms(1)] show ?thesis by simp
qed

lemma Inode_parse_blit_other:
  assumes "off + length src \<le> length block"
    and "off' + INODE_SIZE \<le> off \<or> off + length src \<le> off'"
  shows "Inode_parse (blit block off src) off' = Inode_parse block off'"
  by (rule Inode_parse_cong) (use assms in \<open>auto simp: index_blit_out\<close>)

lemma those_Some_length: "those xs = Some ys \<Longrightarrow> length ys = length xs"
  by (induction xs arbitrary: ys) (auto split: option.splits)

lemma Inode_parse_ok: "Inode_parse block off = Some n \<Longrightarrow> inode_ok n"
  by (auto simp: Inode_parse_def inode_ok_def Option.bind_eq_Some_conv dest!: those_Some_length)

lemma those_total: "(\<And>x. x \<in> set xs \<Longrightarrow> x \<noteq> None) \<Longrightarrow> \<exists>ys. those xs = Some ys"
  by (induction xs) (fastforce split: option.splits)+

lemma Inode_parse_in_range:
  assumes "off + INODE_SIZE \<le> length block"
  shows "\<exists>n. Inode_parse block off = Some n"
proof -
  have "\<exists>ds. those (map (\<lambda>i. rd_u32 block (off + 8 + i * 4)) [0..<28]) = Some ds"
    by (rule those_total)
      (use assms in \<open>auto simp: INODE_SIZE_def rd_u32_def index_def\<close>)
  with assms show ?thesis
    by (auto simp: Inode_parse_def NDIRECT_def INODE_SIZE_def rd_u32_def rd_u16_def index_def
        simp del: upt_Suc)
qed

section \<open>Directory entries: round trip and names\<close>

definition pad_name :: "bytes \<Rightarrow> bytes" where
  "pad_name name = take NAME_LEN name @ replicate (NAME_LEN - length name) 0"

lemma length_pad_name [simp, len_simps]: "length (pad_name name) = NAME_LEN"
  by (simp add: pad_name_def)

lemma write_dirent_blit:
  assumes "off + DIRENT_SIZE \<le> length block"
  shows "write_dirent block off name ino = Some (blit block off (pad_name name @ u32_to_le ino))"
proof -
  have "blit (replicate NAME_LEN 0) 0 (take (min (length name) NAME_LEN) name) = pad_name name"
    by (auto simp: blit_def pad_name_def min_def)
  moreover have "blit (blit block off (pad_name name)) (off + 28) (u32_to_le ino)
      = blit block off (pad_name name @ u32_to_le ino)"
    using blit_append [of off "pad_name name" "u32_to_le ino" block] assms
    by (simp add: NAME_LEN_def DIRENT_SIZE_def)
  ultimately show ?thesis
    using assms by (simp add: write_dirent_def wr_u32_def blit_checked_def Let_def NAME_LEN_def DIRENT_SIZE_def)
qed

lemma read_dirent_blit_same:
  assumes "off + DIRENT_SIZE \<le> length block"
  shows "read_dirent (blit block off (pad_name name @ u32_to_le ino)) off = Some (pad_name name, ino)"
proof -
  let ?src = "pad_name name @ u32_to_le ino"
  have r: "off + length ?src \<le> length block"
    using assms by (simp add: NAME_LEN_def DIRENT_SIZE_def)
  have "rd_u32 (blit block off ?src) (off + NAME_LEN) = rd_u32 ?src (length (pad_name name) + 0)"
    using rd_u32_blit_in [OF r, of NAME_LEN] by simp
  then have "rd_u32 (blit block off ?src) (off + NAME_LEN) = Some ino"
    using rd_u32_append [of "pad_name name" "u32_to_le ino" 0] rd_u32_to_le [of ino "[]"] by simp
  moreover have "sub_slice (blit block off ?src) off (off + NAME_LEN) = Some (pad_name name)"
  proof -
    have "take NAME_LEN (take (length ?src) (drop off (blit block off ?src))) = pad_name name"
      by (subst take_drop_blit_same [OF r]) simp
    then show ?thesis using r by (simp add: sub_slice_def min_def)
  qed
  ultimately show ?thesis by (simp add: read_dirent_def)
qed

lemma read_dirent_blit_other:
  assumes "off + length src \<le> length block"
    and "off' + DIRENT_SIZE \<le> off \<or> off + length src \<le> off'"
    and "off' + DIRENT_SIZE \<le> length block"
  shows "read_dirent (blit block off src) off' = read_dirent block off'"
proof -
  have "take NAME_LEN (drop off' (blit block off src)) = take NAME_LEN (drop off' block)"
    by (rule take_drop_blit_other) (use assms in \<open>auto simp: NAME_LEN_def DIRENT_SIZE_def\<close>)
  moreover have "rd_u32 (blit block off src) (off' + NAME_LEN) = rd_u32 block (off' + NAME_LEN)"
    by (rule rd_u32_blit_out) (use assms in \<open>auto simp: NAME_LEN_def DIRENT_SIZE_def\<close>)
  ultimately show ?thesis
    using assms by (simp add: read_dirent_def sub_slice_def)
qed

lemma read_dirent_in_range:
  assumes "off + DIRENT_SIZE \<le> length block"
  shows "\<exists>nm ino. read_dirent block off = Some (nm, ino) \<and> length nm = NAME_LEN"
  using assms
  by (simp add: read_dirent_def sub_slice_def rd_u32_def index_def NAME_LEN_def DIRENT_SIZE_def)

text \<open>Names up to 28 bytes with no NUL are told apart exactly.\<close>

lemma name_eq_pad:
  assumes "length name \<le> NAME_LEN" and "length name' \<le> NAME_LEN"
    and "0 \<notin> set name" and "0 \<notin> set name'"
  shows "name_eq (pad_name name) name' \<longleftrightarrow> name = name'"
proof
  assume "name = name'"
  then show "name_eq (pad_name name) name'"
    using assms
    by (cases "length name' < NAME_LEN") (auto simp: name_eq_def pad_name_def Let_def nth_append)
next
  assume eq: "name_eq (pad_name name) name'"
  let ?n = "length name'"
  have t: "take ?n (pad_name name) = name'"
    using eq assms(2) by (auto simp: name_eq_def Let_def split: if_splits)
  have z: "?n = NAME_LEN \<or> pad_name name ! ?n = 0"
    using eq assms(2) by (auto simp: name_eq_def Let_def split: if_splits)
  have pad: "pad_name name = name @ replicate (NAME_LEN - length name) 0"
    using assms(1) by (simp add: pad_name_def)
  have "length name \<le> ?n"
  proof (rule ccontr)
    assume "\<not> length name \<le> ?n"
    then have "pad_name name ! ?n = name ! ?n" and "?n < NAME_LEN"
      using pad assms(1) by (simp_all add: nth_append)
    with z have "name ! ?n = 0" by simp
    with \<open>\<not> length name \<le> ?n\<close> assms(3) show False
      by (metis not_le nth_mem)
  qed
  moreover have "?n \<le> length name"
  proof (rule ccontr)
    assume lt: "\<not> ?n \<le> length name"
    then have "name' ! length name = pad_name name ! length name"
      using t by (metis not_le nth_take)
    also have "\<dots> = 0"
      using pad lt assms(2) by (simp add: nth_append)
    finally show False using lt assms(4) by (metis not_le nth_mem)
  qed
  ultimately show "name = name'" using t pad by simp
qed

text \<open>A name longer than the field never matches anything, not even its own entry.\<close>

lemma name_eq_long: "NAME_LEN < length name \<Longrightarrow> length dname = NAME_LEN \<Longrightarrow> \<not> name_eq dname name"
  by (auto simp: name_eq_def Let_def)

section \<open>Geometry of the layout\<close>

lemma unat_div_ceil_bits: "unat (div_ceil t BITS_PER_BLOCK) = (unat t + 4095) div 4096"
proof -
  have b: "(BITS_PER_BLOCK :: u32) = 4096" by (simp add: fs_consts)
  have lt: "unat t < 2 ^ 32" using unat_lt2p [of t] by simp
  have "unat (t mod 4096) = unat t mod 4096" by (simp add: unat_mod_distrib)
  then have m: "(t mod 4096 \<noteq> 0) = (unat t mod 4096 \<noteq> 0)"
    by (metis unat_0_iff)
  have "unat (t div 4096 + 1) = unat t div 4096 + 1"
    using lt by (subst unat_add_no_ovf) (auto simp: unat_div_distrib)
  then show ?thesis
    using m ceil_div_nat [of 4096 "unat t"]
    by (auto simp: div_ceil_def b unat_div_distrib split: if_splits)
qed

lemma for_total_unat:
  shows "unat (bitmap_blocks (for_total t)) = (unat t + 4095) div 4096"
    and "unat (inode_start (for_total t)) = 1 + (unat t + 4095) div 4096"
    and "unat (data_start (for_total t)) = 33 + (unat t + 4095) div 4096"
    and "total_blocks (for_total t) = t"
proof -
  have lt: "unat t < 2 ^ 32" using unat_lt2p [of t] by simp
  let ?b = "div_ceil t BITS_PER_BLOCK"
  have i: "unat (1 + ?b) = 1 + (unat t + 4095) div 4096"
    using lt by (subst unat_add_no_ovf) (auto simp: unat_div_ceil_bits)
  have d: "unat (1 + ?b + 32) = 33 + (unat t + 4095) div 4096"
    using lt by (subst unat_add_no_ovf) (auto simp: i)
  show "unat (bitmap_blocks (for_total t)) = (unat t + 4095) div 4096"
    by (simp add: for_total_def Let_def unat_div_ceil_bits)
  show "unat (inode_start (for_total t)) = 1 + (unat t + 4095) div 4096"
    using i by (simp add: for_total_def Let_def fs_consts(3))
  show "unat (data_start (for_total t)) = 33 + (unat t + 4095) div 4096"
    using d by (simp add: for_total_def Let_def fs_consts(3,8))
  show "total_blocks (for_total t) = t" by (simp add: for_total_def Let_def)
qed

lemma inode_loc_off: "snd (inode_loc l ino) + INODE_SIZE \<le> BLOCK_SIZE"
proof -
  have "unat ino mod 4 \<le> 3" by simp
  then show ?thesis by (simp add: inode_loc_def fs_consts)
qed

lemma unat_inode_block:
  assumes "unat ino < 128"
  shows "unat (fst (inode_loc (for_total t) ino)) = unat (inode_start (for_total t)) + unat ino div 4"
proof -
  have lt: "unat t < 2 ^ 32" using unat_lt2p [of t] by simp
  have "unat (ino div 4) = unat ino div 4" by (simp add: unat_div_distrib)
  then show ?thesis
    using assms lt for_total_unat(2) [of t]
    by (simp add: inode_loc_def fs_consts) (subst unat_add_no_ovf; simp)
qed

text \<open>Inode numbers below 128 have their own 128 bytes inside the inode table.\<close>

lemma inode_loc_table:
  assumes "unat ino < 128"
  shows "unat (inode_start (for_total t)) \<le> unat (fst (inode_loc (for_total t) ino))"
    and "unat (fst (inode_loc (for_total t) ino)) < unat (data_start (for_total t))"
  using assms by (auto simp: unat_inode_block for_total_unat)

lemma inode_loc_disjoint:
  assumes "unat i < 128" and "unat j < 128" and "i \<noteq> j"
    and "fst (inode_loc (for_total t) i) = fst (inode_loc (for_total t) j)"
  shows "snd (inode_loc (for_total t) i) + INODE_SIZE \<le> snd (inode_loc (for_total t) j)
       \<or> snd (inode_loc (for_total t) j) + INODE_SIZE \<le> snd (inode_loc (for_total t) i)"
proof -
  have "unat i div 4 = unat j div 4"
    using assms unat_inode_block [of i t] unat_inode_block [of j t] by simp
  moreover have "unat i \<noteq> unat j" using assms(3) by simp
  ultimately have "unat i mod 4 \<noteq> unat j mod 4" by (metis div_mult_mod_eq)
  then show ?thesis by (auto simp: inode_loc_def fs_consts)
qed

text \<open>The bitmap bit of a block: block \<open>1 + b div 4096\<close>, bit \<open>b mod 4096\<close>.\<close>

lemma bitmap_loc_unat:
  assumes "bitmap_loc l b = (bm, byte, bt)"
  shows "unat bm = 1 + unat b div 4096" and "8 * byte + bt = unat b mod 4096"
    and "byte < BLOCK_SIZE" and "bt < 8"
proof -
  have bits: "(BITS_PER_BLOCK :: u32) = 4096" by (simp add: fs_consts)
  have lt: "unat b < 2 ^ 32" using unat_lt2p [of b] by simp
  have bm: "bm = 1 + b div 4096" and byte: "byte = unat b mod 4096 div 8"
    and bt: "bt = unat b mod 4096 mod 8"
    using assms
    by (auto simp: bitmap_loc_def Let_def bits BITMAP_START_def unat_div_distrib unat_mod_distrib)
  show "unat bm = 1 + unat b div 4096"
    unfolding bm using lt by (subst unat_add_no_ovf) (auto simp: unat_div_distrib)
  show "8 * byte + bt = unat b mod 4096"
    unfolding byte bt by (rule mult_div_mod_eq)
  show "byte < BLOCK_SIZE" and "bt < 8"
    unfolding byte bt by (simp_all add: BLOCK_SIZE_def less_mult_imp_div_less)
qed

text \<open>The bitmap of a disk lies between the superblock and the inode table.\<close>

lemma bitmap_loc_region:
  assumes "bitmap_loc (for_total t) b = (bm, byte, bt)" and "unat b < unat t"
  shows "0 < unat bm" and "unat bm < unat (inode_start (for_total t))"
proof -
  show "0 < unat bm" using bitmap_loc_unat(1) [OF assms(1)] by simp
  have "unat b div 4096 < (unat t + 4095) div 4096"
  proof -
    have "unat b + 4096 \<le> unat t + 4095" using assms(2) by simp
    then have "(unat b + 4096) div 4096 \<le> (unat t + 4095) div 4096" by (rule div_le_mono)
    then show ?thesis by simp
  qed
  then show "unat bm < unat (inode_start (for_total t))"
    using bitmap_loc_unat(1) [OF assms(1)] for_total_unat(2) [of t] by simp
qed

end
