(* ===== verification/BlockCache.thy ===== *)
theory BlockCache
  imports FsFormat
begin

text \<open>
  The block layer below the file system: the RAM-disk backend (\<open>kernel/src/ramdisk.rs\<close>), the
  sector transfer with its \<open>BlockRequest\<close> state machine (\<open>kernel/src/virtio_blk.rs\<close>,
  \<open>frame/block_request.frs\<close>) and the write-through, direct-mapped buffer cache
  (\<open>kernel/src/fs.rs\<close>). The result is that the cache is transparent: reads and writes
  through it are reads and writes of a plain array of blocks (locale \<open>block_store\<close>).

  The transfers are modelled in the boot and non-process context, where \<open>acquire_disk\<close> and
  \<open>release_disk\<close> return at once; the admission of processes to request slots is the subject
  of \<open>IoSched\<close> and carries no data.
\<close>

section \<open>The RAM disk\<close>

definition SECTOR_SIZE :: nat where "SECTOR_SIZE = 512"
definition DISK_SECTORS :: nat where "DISK_SECTORS = 16384"
definition DISK_BYTES :: nat where "DISK_BYTES = DISK_SECTORS * SECTOR_SIZE"

text \<open>
  The flat byte array is kept by its sectors: sector \<open>b\<close> is \<open>DISK[b * 512 .. b * 512 + 512]\<close>.
  Every access of the source is one aligned sector.
\<close>

record ramdisk =
  loaded :: bool
  sectors :: "nat \<Rightarrow> bytes"

definition ramdisk_read_sector :: "nat \<Rightarrow> bytes \<Rightarrow> ramdisk \<Rightarrow> bool \<times> bytes" where
  "ramdisk_read_sector block out d =
     (let start = block * SECTOR_SIZE; end = start + SECTOR_SIZE
      in if end > DISK_BYTES then (False, out) else (True, sectors d block))"

definition ramdisk_write_sector :: "nat \<Rightarrow> bytes \<Rightarrow> ramdisk \<Rightarrow> bool \<times> ramdisk" where
  "ramdisk_write_sector block data d =
     (let start = block * SECTOR_SIZE; end = start + SECTOR_SIZE
      in if end > DISK_BYTES then (False, d)
         else (True, d\<lparr>sectors := (sectors d)(block := data)\<rparr>))"

section \<open>The BlockRequest Frame system\<close>

datatype block_request = Queued | InFlight | Complete | Error

definition br_submit :: "block_request \<Rightarrow> block_request" where
  "br_submit r = (case r of Queued \<Rightarrow> InFlight | _ \<Rightarrow> r)"

definition br_complete :: "block_request \<Rightarrow> block_request" where
  "br_complete r = (case r of InFlight \<Rightarrow> Complete | _ \<Rightarrow> r)"

definition br_fail :: "block_request \<Rightarrow> block_request" where
  "br_fail r = (case r of InFlight \<Rightarrow> Error | _ \<Rightarrow> r)"

definition br_is_complete :: "block_request \<Rightarrow> bool" where
  "br_is_complete r = (case r of Complete \<Rightarrow> True | _ \<Rightarrow> False)"

lemmas br_defs [fsm_simps] = br_submit_def br_complete_def br_fail_def br_is_complete_def

section \<open>Sector transfers\<close>

definition read_sector :: "nat \<Rightarrow> bytes \<Rightarrow> ramdisk \<Rightarrow> bool \<times> bytes" where
  "read_sector sector out d =
     (if \<not> loaded d then (False, out)
      else (let br = br_submit Queued;
                (ok, out) = ramdisk_read_sector sector out d;
                br = (if ok then br_complete br else br_fail br)
            in (br_is_complete br, out)))"

definition write_sector :: "nat \<Rightarrow> bytes \<Rightarrow> ramdisk \<Rightarrow> bool \<times> ramdisk" where
  "write_sector sector data d =
     (if \<not> loaded d then (False, d)
      else (let br = br_submit Queued;
                (ok, d) = ramdisk_write_sector sector data d;
                br = (if ok then br_complete br else br_fail br)
            in (br_is_complete br, d)))"

section \<open>The buffer cache\<close>

definition CACHE_SLOTS :: nat where "CACHE_SLOTS = 16"

record cache_slot =
  cblock :: u32
  valid :: bool
  cdata :: bytes

text \<open>The file system's statics: the disk below, \<open>CACHE\<close> and \<open>LAYOUT\<close>.\<close>

record fs =
  disk :: ramdisk
  cache :: "cache_slot list"
  lay :: layout

definition zero_block :: bytes where "zero_block = replicate BLOCK_SIZE 0"

definition CACHE_init :: "cache_slot list" where
  "CACHE_init = replicate CACHE_SLOTS \<lparr>cblock = 0, valid = False, cdata = zero_block\<rparr>"

definition read_block :: "u32 \<Rightarrow> fs \<Rightarrow> bytes \<times> fs" where
  "read_block b s =
     (let slot = unat b mod CACHE_SLOTS; c = cache s ! slot
      in if valid c \<and> cblock c = b then (cdata c, s)
         else (let (_, buf) = read_sector (unat b) zero_block (disk s)
               in (buf, s\<lparr>cache := (cache s)[slot := \<lparr>cblock = b, valid = True, cdata = buf\<rparr>]\<rparr>)))"

definition write_block :: "u32 \<Rightarrow> bytes \<Rightarrow> fs \<Rightarrow> fs" where
  "write_block b data s =
     (let (_, d) = write_sector (unat b) data (disk s);
          slot = unat b mod CACHE_SLOTS
      in s\<lparr>disk := d, cache := (cache s)[slot := \<lparr>cblock = b, valid = True, cdata = data\<rparr>]\<rparr>)"

section \<open>Transparency of the cache\<close>

text \<open>
  A program of reads and writes, run through a store and on a plain array of blocks (the
  uncached reference): the list of what the reads return, and the final state.
\<close>

datatype 'a block_op = Rd 'a | Wr 'a bytes

fun run_store ::
  "('a \<Rightarrow> 's \<Rightarrow> bytes \<times> 's) \<Rightarrow> ('a \<Rightarrow> bytes \<Rightarrow> 's \<Rightarrow> 's) \<Rightarrow> 'a block_op list \<Rightarrow> 's \<Rightarrow> bytes list \<times> 's" where
  "run_store rd wr [] s = ([], s)"
| "run_store rd wr (Rd b # ops) s =
     (let (d, s) = rd b s; (rs, s) = run_store rd wr ops s in (d # rs, s))"
| "run_store rd wr (Wr b d # ops) s = run_store rd wr ops (wr b d s)"

fun run_plain :: "'a block_op list \<Rightarrow> ('a \<Rightarrow> bytes) \<Rightarrow> bytes list \<times> ('a \<Rightarrow> bytes)" where
  "run_plain [] f = ([], f)"
| "run_plain (Rd b # ops) f = (let (rs, g) = run_plain ops f in (f b # rs, g))"
| "run_plain (Wr b d # ops) f = run_plain ops (f(b := d))"

fun block_op_ok :: "('a \<Rightarrow> bool) \<Rightarrow> 'a block_op \<Rightarrow> bool" where
  "block_op_ok in_range (Rd b) \<longleftrightarrow> in_range b"
| "block_op_ok in_range (Wr b d) \<longleftrightarrow> in_range b \<and> length d = BLOCK_SIZE"

text \<open>
  The interface the file system relies on: a store of blocks with a read and a write, where a
  read returns the current block and a write replaces it.
\<close>

locale block_store =
  fixes rd :: "'a \<Rightarrow> 's \<Rightarrow> bytes \<times> 's"
    and wr :: "'a \<Rightarrow> bytes \<Rightarrow> 's \<Rightarrow> 's"
    and blocks :: "'s \<Rightarrow> 'a \<Rightarrow> bytes"
    and invar :: "'s \<Rightarrow> bool"
    and in_range :: "'a \<Rightarrow> bool"
  assumes rd_val: "invar s \<Longrightarrow> in_range b \<Longrightarrow> fst (rd b s) = blocks s b"
    and rd_blocks: "invar s \<Longrightarrow> blocks (snd (rd b s)) = blocks s"
    and rd_invar: "invar s \<Longrightarrow> invar (snd (rd b s))"
    and wr_blocks: "invar s \<Longrightarrow> in_range b \<Longrightarrow> length d = BLOCK_SIZE \<Longrightarrow>
        blocks (wr b d s) = (blocks s)(b := d)"
    and wr_invar: "invar s \<Longrightarrow> in_range b \<Longrightarrow> length d = BLOCK_SIZE \<Longrightarrow> invar (wr b d s)"
begin

lemma read_after_write:
  assumes "invar s" and "in_range b" and "in_range b'" and "length d = BLOCK_SIZE"
  shows "fst (rd b' (wr b d s)) = (if b' = b then d else fst (rd b' s))"
  using assms by (simp add: rd_val wr_blocks wr_invar)

lemma run_store_plain:
  assumes "invar s" and "list_all (block_op_ok in_range) ops"
  shows "fst (run_store rd wr ops s) = fst (run_plain ops (blocks s))"
    and "blocks (snd (run_store rd wr ops s)) = snd (run_plain ops (blocks s))"
    and "invar (snd (run_store rd wr ops s))"
proof -
  have "fst (run_store rd wr ops s) = fst (run_plain ops (blocks s))
      \<and> blocks (snd (run_store rd wr ops s)) = snd (run_plain ops (blocks s))
      \<and> invar (snd (run_store rd wr ops s))"
    using assms
  proof (induction ops arbitrary: s)
    case (Cons x ops)
    show ?case
    proof (cases x)
      case (Rd b)
      then show ?thesis
        using Cons.IH [of "snd (rd b s)"] Cons.prems
        by (simp add: rd_val rd_blocks rd_invar split: prod.splits)
          (metis fst_conv rd_val snd_conv)
    next
      case (Wr b d)
      then show ?thesis
        using Cons.IH [of "wr b d s"] Cons.prems by (simp add: wr_blocks wr_invar fun_upd_def)
    qed
  qed simp
  then show "fst (run_store rd wr ops s) = fst (run_plain ops (blocks s))"
    and "blocks (snd (run_store rd wr ops s)) = snd (run_plain ops (blocks s))"
    and "invar (snd (run_store rd wr ops s))" by simp_all
qed

end

text \<open>
  The cache's invariant: the disk is loaded, every sector is a block, and a valid slot for a
  block of the disk holds that block, in the slot its number selects.
\<close>

definition disk_block :: "u32 \<Rightarrow> bool" where
  "disk_block b \<longleftrightarrow> unat b < DISK_SECTORS"

definition blocks :: "fs \<Rightarrow> u32 \<Rightarrow> bytes" where
  "blocks s b = sectors (disk s) (unat b)"

definition cache_ok :: "fs \<Rightarrow> bool" where
  [inv_defs]: "cache_ok s \<longleftrightarrow> loaded (disk s) \<and> (\<forall>b. length (sectors (disk s) b) = BLOCK_SIZE)
     \<and> length (cache s) = CACHE_SLOTS
     \<and> (\<forall>i < CACHE_SLOTS. valid (cache s ! i) \<longrightarrow> disk_block (cblock (cache s ! i)) \<longrightarrow>
          cdata (cache s ! i) = blocks s (cblock (cache s ! i))
          \<and> unat (cblock (cache s ! i)) mod CACHE_SLOTS = i)"

lemma slot_lt [simp]: "unat b mod CACHE_SLOTS < CACHE_SLOTS"
  by (simp add: CACHE_SLOTS_def)

lemma read_sector_ok:
  "loaded d \<Longrightarrow> b < DISK_SECTORS \<Longrightarrow> read_sector b out d = (True, sectors d b)"
  by (simp add: read_sector_def ramdisk_read_sector_def fsm_simps DISK_BYTES_def SECTOR_SIZE_def)

lemma write_sector_ok:
  "loaded d \<Longrightarrow> b < DISK_SECTORS \<Longrightarrow>
     write_sector b data d = (True, d\<lparr>sectors := (sectors d)(b := data)\<rparr>)"
  by (simp add: write_sector_def ramdisk_write_sector_def fsm_simps DISK_BYTES_def SECTOR_SIZE_def)

lemma read_block_disk [simp]: "disk (snd (read_block b s)) = disk s"
  by (simp add: read_block_def Let_def split: prod.split)

lemma read_block_lay [simp]: "lay (snd (read_block b s)) = lay s"
  by (simp add: read_block_def Let_def split: prod.split)

lemma write_block_lay [simp]: "lay (write_block b d s) = lay s"
  by (simp add: write_block_def Let_def split: prod.split)

lemma read_block_blocks: "blocks (snd (read_block b s)) = blocks s"
  by (rule ext) (simp add: blocks_def)

lemma read_block_val:
  assumes "cache_ok s" and "disk_block b"
  shows "fst (read_block b s) = blocks s b"
  using assms slot_lt [of b]
  by (auto simp: read_block_def Let_def cache_ok_def disk_block_def blocks_def read_sector_ok
      split: prod.split)

lemma cache_ok_fill:
  assumes "cache_ok s" and "disk_block b \<Longrightarrow> d = blocks s b"
  shows "cache_ok (s\<lparr>cache := (cache s)[unat b mod CACHE_SLOTS := \<lparr>cblock = b, valid = True, cdata = d\<rparr>]\<rparr>)"
  using assms by (auto simp: cache_ok_def blocks_def nth_list_update)

lemma read_block_invar:
  assumes "cache_ok s"
  shows "cache_ok (snd (read_block b s))"
proof (cases "valid (cache s ! (unat b mod CACHE_SLOTS)) \<and> cblock (cache s ! (unat b mod CACHE_SLOTS)) = b")
  case True
  then show ?thesis using assms by (simp add: read_block_def Let_def)
next
  case False
  let ?d = "snd (read_sector (unat b) zero_block (disk s))"
  have "disk_block b \<Longrightarrow> ?d = blocks s b"
    using assms by (simp add: cache_ok_def disk_block_def blocks_def read_sector_ok)
  then show ?thesis
    using False cache_ok_fill [OF assms, of b ?d]
    by (auto simp: read_block_def Let_def split: prod.split)
qed

lemma write_block_blocks:
  assumes "cache_ok s" and "disk_block b"
  shows "blocks (write_block b d s) = (blocks s)(b := d)"
proof (rule ext)
  fix c
  show "blocks (write_block b d s) c = ((blocks s)(b := d)) c"
    using assms by (simp add: write_block_def cache_ok_def disk_block_def write_sector_ok blocks_def)
qed

lemma write_block_invar:
  assumes "cache_ok s" and "disk_block b" and "length d = BLOCK_SIZE"
  shows "cache_ok (write_block b d s)"
proof -
  let ?s = "s\<lparr>disk := (disk s)\<lparr>sectors := (sectors (disk s))(unat b := d)\<rparr>\<rparr>"
  let ?i = "unat b mod CACHE_SLOTS"
  have w: "write_block b d s = ?s\<lparr>cache := (cache s)[?i := \<lparr>cblock = b, valid = True, cdata = d\<rparr>]\<rparr>"
    using assms by (simp add: write_block_def cache_ok_def disk_block_def write_sector_ok)
  have "cdata (cache s ! i) = blocks ?s (cblock (cache s ! i))"
    if "i < CACHE_SLOTS" "i \<noteq> ?i" "valid (cache s ! i)" "disk_block (cblock (cache s ! i))" for i
  proof -
    have "unat (cblock (cache s ! i)) mod CACHE_SLOTS = i"
      using assms(1) that by (auto simp: cache_ok_def)
    then have "unat (cblock (cache s ! i)) \<noteq> unat b" using that(2) by auto
    then show ?thesis using assms(1) that by (simp add: cache_ok_def blocks_def)
  qed
  then show ?thesis
    unfolding w using assms
    by (auto simp: cache_ok_def nth_list_update) (auto simp: blocks_def)
qed

interpretation cached: block_store read_block write_block blocks cache_ok disk_block
  by unfold_locales
    (simp_all add: read_block_val read_block_blocks read_block_invar write_block_blocks write_block_invar)

lemma length_blocks [simp, len_simps]: "cache_ok s \<Longrightarrow> length (blocks s b) = BLOCK_SIZE"
  by (simp add: cache_ok_def blocks_def)

section \<open>Properties\<close>

definition blank_fs :: "u32 \<Rightarrow> fs" where
  "blank_fs t = \<lparr>disk = \<lparr>loaded = True, sectors = (\<lambda>_. zero_block)\<rparr>, cache = CACHE_init,
                 lay = for_total t\<rparr>"

lemma blank_cache_ok: "cache_ok (blank_fs t)"
  by (simp add: cache_ok_def blank_fs_def CACHE_init_def zero_block_def)

text \<open>
  C22: the buffer cache is transparent. Every sequence of block reads and writes on the
  disk, run through the direct-mapped write-through cache, returns what the same sequence
  returns on a plain array of blocks, and leaves the disk with that array's final content.
\<close>

theorem cache_transparent:
  assumes "cache_ok s" and "list_all (block_op_ok disk_block) ops"
  shows "fst (run_store read_block write_block ops s) = fst (run_plain ops (blocks s))
       \<and> blocks (snd (run_store read_block write_block ops s)) = snd (run_plain ops (blocks s))"
  using cached.run_store_plain [OF assms] by blast

theorem cache_transparent_witness:
  "fst (run_store read_block write_block [Wr 3 zero_block, Rd 19, Rd 3] (blank_fs 64))
     = fst (run_plain [Wr 3 zero_block, Rd 19, Rd 3] (blocks (blank_fs 64)))
   \<and> blocks (snd (run_store read_block write_block [Wr 3 zero_block, Rd 19, Rd 3] (blank_fs 64)))
     = snd (run_plain [Wr 3 zero_block, Rd 19, Rd 3] (blocks (blank_fs 64)))"
  by (rule cache_transparent [OF blank_cache_ok]) (simp add: disk_block_def DISK_SECTORS_def zero_block_def)

end
