(* ===== verification/FsCore.thy ===== *)
theory FsCore
  imports BlockCache
begin

text \<open>
  The core of \<open>kernel/src/fs.rs\<close>: inodes, the free-block bitmap and the block map of a file
  (28 direct pointers, one single-indirect block and one double-indirect block). Every
  operation threads the file-system state; \<open>None\<close> at the outside is a panic, and an inner
  \<open>option\<close> is the source's \<open>Option\<close> result.
\<close>

section \<open>Inodes\<close>

definition read_inode :: "u32 \<Rightarrow> fs \<Rightarrow> (inode \<times> fs) option" where
  "read_inode ino s =
     (let (blk, off) = inode_loc (lay s) ino; (b, s) = read_block blk s
      in do { n \<leftarrow> Inode_parse b off; Some (n, s) })"

definition write_inode :: "u32 \<Rightarrow> inode \<Rightarrow> fs \<Rightarrow> fs option" where
  "write_inode ino node s =
     (let (blk, off) = inode_loc (lay s) ino; (b, s) = read_block blk s
      in do { b \<leftarrow> Inode_write node b off; Some (write_block blk b s) })"

section \<open>The free-block bitmap\<close>

text \<open>The loop of \<open>alloc_block\<close> over the candidates \<open>i..<n\<close>.\<close>

function alloc_block_from :: "nat \<Rightarrow> nat \<Rightarrow> fs \<Rightarrow> (u32 option \<times> fs) option" where
  "alloc_block_from i n s =
     (if i < n
      then (let b = of_nat i;
                (bm_block, byte, bt) = bitmap_loc (lay s) b;
                (bm, s) = read_block bm_block s
            in do { v \<leftarrow> index bm byte;
                    if v AND push_bit bt 1 = 0
                    then (let s = write_block bm_block (bm[byte := v OR push_bit bt 1]) s;
                              s = write_block b zero_block s
                          in Some (Some b, s))
                    else alloc_block_from (Suc i) n s })
      else Some (None, s))"
  by pat_completeness auto
termination
  by (relation "measure (\<lambda>(i, n, s). n - i)") auto

declare alloc_block_from.simps [simp del]

definition alloc_block :: "fs \<Rightarrow> (u32 option \<times> fs) option" where
  "alloc_block s = alloc_block_from (unat (data_start (lay s))) (unat (total_blocks (lay s))) s"

definition free_block :: "u32 \<Rightarrow> fs \<Rightarrow> fs option" where
  "free_block b s =
     (let (bm_block, byte, bt) = bitmap_loc (lay s) b; (bm, s) = read_block bm_block s
      in do { v \<leftarrow> index bm byte;
              Some (write_block bm_block (bm[byte := v AND NOT (push_bit bt 1)]) s) })"

text \<open>The search of \<open>alloc_inode\<close> over the inode numbers \<open>i..<n\<close>.\<close>

function alloc_inode_from :: "nat \<Rightarrow> nat \<Rightarrow> fs \<Rightarrow> (u32 option \<times> fs) option" where
  "alloc_inode_from i n s =
     (if i < n
      then do { (node, s) \<leftarrow> read_inode (of_nat i) s;
                if kind node = T_FREE then Some (Some (of_nat i), s)
                else alloc_inode_from (Suc i) n s }
      else Some (None, s))"
  by pat_completeness auto
termination
  by (relation "measure (\<lambda>(i, n, s). n - i)") auto

declare alloc_inode_from.simps [simp del]

definition alloc_inode :: "fs \<Rightarrow> (u32 option \<times> fs) option" where
  "alloc_inode s = alloc_inode_from 2 (unat INODE_COUNT) s"

section \<open>The block map\<close>

definition indirect_slot :: "u32 \<Rightarrow> nat \<Rightarrow> bool \<Rightarrow> fs \<Rightarrow> (u32 option \<times> fs) option" where
  "indirect_slot iblk slot alloc s =
     (let (blk, s) = read_block iblk s; off = slot * 4
      in do { cur \<leftarrow> rd_u32 blk off;
              if cur \<noteq> 0 then Some (Some cur, s)
              else if \<not> alloc then Some (None, s)
              else do { (new, s) \<leftarrow> alloc_block s;
                        case new of
                          None \<Rightarrow> Some (None, s)
                        | Some nb \<Rightarrow>
                            do { blk \<leftarrow> wr_u32 blk off nb;
                                 Some (Some nb, write_block iblk blk s) } } })"

definition block_for :: "inode \<Rightarrow> nat \<Rightarrow> bool \<Rightarrow> fs \<Rightarrow> (u32 option \<times> inode \<times> fs) option" where
  "block_for node bi alloc s =
     (let ptrs = PTRS_PER_BLOCK in
      if bi < NDIRECT then
        do { d \<leftarrow> index (direct node) bi;
             if d = 0 then
               (if \<not> alloc then Some (None, node, s)
                else do { (new, s) \<leftarrow> alloc_block s;
                          case new of
                            None \<Rightarrow> Some (None, node, s)
                          | Some b \<Rightarrow> Some (Some b, node\<lparr>direct := (direct node)[bi := b]\<rparr>, s) })
             else Some (Some d, node, s) }
      else
        let bi = bi - NDIRECT in
        if bi < ptrs then
          do { (ok, node, s) \<leftarrow>
                 (if indirect node = 0 then
                    (if \<not> alloc then Some (False, node, s)
                     else do { (new, s) \<leftarrow> alloc_block s;
                               case new of
                                 None \<Rightarrow> Some (False, node, s)
                               | Some b \<Rightarrow> Some (True, node\<lparr>indirect := b\<rparr>, s) })
                  else Some (True, node, s));
               if \<not> ok then Some (None, node, s)
               else do { (r, s) \<leftarrow> indirect_slot (indirect node) bi alloc s; Some (r, node, s) } }
        else
          let bi = bi - ptrs in
          if bi \<ge> ptrs * ptrs then Some (None, node, s)
          else
            do { (ok, node, s) \<leftarrow>
                   (if double_indirect node = 0 then
                      (if \<not> alloc then Some (False, node, s)
                       else do { (new, s) \<leftarrow> alloc_block s;
                                 case new of
                                   None \<Rightarrow> Some (False, node, s)
                                 | Some b \<Rightarrow> Some (True, node\<lparr>double_indirect := b\<rparr>, s) })
                    else Some (True, node, s));
                 if \<not> ok then Some (None, node, s)
                 else do { (mid, s) \<leftarrow> indirect_slot (double_indirect node) (bi div ptrs) alloc s;
                           case mid of
                             None \<Rightarrow> Some (None, node, s)
                           | Some m \<Rightarrow>
                               do { (r, s) \<leftarrow> indirect_slot m (bi mod ptrs) alloc s;
                                    Some (r, node, s) } } })"

section \<open>Freeing a file's blocks\<close>

fun free_ptrs :: "bytes \<Rightarrow> nat list \<Rightarrow> fs \<Rightarrow> fs option" where
  "free_ptrs blk [] s = Some s"
| "free_ptrs blk (slot # slots) s =
     do { d \<leftarrow> rd_u32 blk (slot * 4);
          s \<leftarrow> (if d \<noteq> 0 then free_block d s else Some s);
          free_ptrs blk slots s }"

definition free_indirect :: "u32 \<Rightarrow> fs \<Rightarrow> fs option" where
  "free_indirect iblk s =
     (let (blk, s) = read_block iblk s
      in do { s \<leftarrow> free_ptrs blk [0..<PTRS_PER_BLOCK] s; free_block iblk s })"

fun free_direct :: "u32 list \<Rightarrow> fs \<Rightarrow> fs option" where
  "free_direct [] s = Some s"
| "free_direct (b # bs) s =
     do { s \<leftarrow> (if b \<noteq> 0 then free_block b s else Some s); free_direct bs s }"

fun free_mids :: "bytes \<Rightarrow> nat list \<Rightarrow> fs \<Rightarrow> fs option" where
  "free_mids blk [] s = Some s"
| "free_mids blk (slot # slots) s =
     do { mid \<leftarrow> rd_u32 blk (slot * 4);
          s \<leftarrow> (if mid \<noteq> 0 then free_indirect mid s else Some s);
          free_mids blk slots s }"

definition free_all_blocks :: "inode \<Rightarrow> fs \<Rightarrow> fs option" where
  "free_all_blocks node s =
     do { s \<leftarrow> free_direct (direct node) s;
          s \<leftarrow> (if indirect node \<noteq> 0 then free_indirect (indirect node) s else Some s);
          if double_indirect node \<noteq> 0
          then (let (blk, s) = read_block (double_indirect node) s
                in do { s \<leftarrow> free_mids blk [0..<PTRS_PER_BLOCK] s;
                        free_block (double_indirect node) s })
          else Some s }"

section \<open>Mounting\<close>

definition check_superblock :: "fs \<Rightarrow> (bool \<times> fs) option" where
  "check_superblock s =
     (let (b, s) = read_block SB_BLOCK s
      in do { sb \<leftarrow> Superblock_parse b;
              if magic sb \<noteq> MAGIC then Some (False, s)
              else Some (True, s\<lparr>lay := for_total (sb_total_blocks sb)\<rparr>) })"

text \<open>The \<open>Mount\<close> Frame system (\<open>frame/mount.frs\<close>).\<close>

datatype mount_state = Unmounted | Mounting | Mounted | Unmounting

definition begin_mount :: "mount_state \<Rightarrow> mount_state" where
  "begin_mount m = (case m of Unmounted \<Rightarrow> Mounting | _ \<Rightarrow> m)"

definition mounted_ok :: "mount_state \<Rightarrow> mount_state" where
  "mounted_ok m = (case m of Mounting \<Rightarrow> Mounted | _ \<Rightarrow> m)"

definition mount_failed :: "mount_state \<Rightarrow> mount_state" where
  "mount_failed m = (case m of Mounting \<Rightarrow> Unmounted | _ \<Rightarrow> m)"

definition begin_unmount :: "mount_state \<Rightarrow> mount_state" where
  "begin_unmount m = (case m of Mounted \<Rightarrow> Unmounting | _ \<Rightarrow> m)"

definition unmounted :: "mount_state \<Rightarrow> mount_state" where
  "unmounted m = (case m of Unmounting \<Rightarrow> Unmounted | _ \<Rightarrow> m)"

definition is_mounted :: "mount_state \<Rightarrow> bool" where
  "is_mounted m = (case m of Mounted \<Rightarrow> True | _ \<Rightarrow> False)"

lemmas mount_defs [fsm_simps] =
  begin_mount_def mounted_ok_def mount_failed_def begin_unmount_def unmounted_def is_mounted_def

definition mount :: "fs \<Rightarrow> (bool \<times> fs) option" where
  "mount s =
     (let m = begin_mount Unmounted
      in do { (ok, s) \<leftarrow> check_superblock s;
              if ok then (let m = mounted_ok m in Some (is_mounted m, s))
              else (let m = mount_failed m in Some (False, s)) })"

end
