(* ===== verification/FsFile.thy ===== *)
theory FsFile
  imports FsCore
begin

text \<open>
  File contents in \<open>kernel/src/fs.rs\<close>: \<open>read_at\<close>, \<open>write_at\<close>, \<open>truncate\<close> and their
  wrappers. Offsets are \<open>usize\<close>; the inode's \<open>size\<close> field is \<open>u32\<close> and the cast
  \<open>new_end as u32\<close> truncates, which \<open>of_nat\<close> does here.
\<close>

text \<open>The loop of \<open>read_at\<close>; \<open>out\<close> is the caller's buffer.\<close>

function read_loop ::
  "inode \<Rightarrow> nat \<Rightarrow> nat \<Rightarrow> nat \<Rightarrow> bytes \<Rightarrow> fs \<Rightarrow> (nat \<times> bytes \<times> fs) option" where
  "read_loop node offset want dn out s =
     (if dn < want then
        (let pos = offset + dn; bi = pos div BLOCK_SIZE
         in do { (ob, node, s) \<leftarrow> block_for node bi False s;
                 case ob of
                   None \<Rightarrow> Some (dn, out, s)
                 | Some blk \<Rightarrow>
                     (let within = pos mod BLOCK_SIZE;
                          (block, s) = read_block blk s;
                          n = min (want - dn) (BLOCK_SIZE - within)
                      in do { chunk \<leftarrow> sub_slice block within (within + n);
                              out \<leftarrow> blit_checked out dn chunk;
                              read_loop node offset want (dn + n) out s }) })
      else Some (dn, out, s))"
  by pat_completeness auto
termination
  by (relation "measure (\<lambda>(node, offset, want, dn, out, s). want - dn)")
    (auto simp: BLOCK_SIZE_def)

declare read_loop.simps [simp del]

definition read_at :: "u32 \<Rightarrow> nat \<Rightarrow> bytes \<Rightarrow> fs \<Rightarrow> (nat \<times> bytes \<times> fs) option" where
  "read_at ino offset out s =
     do { (node, s) \<leftarrow> read_inode ino s;
          let sz = unat (fsize node)
          in if offset \<ge> sz then Some (0, out, s)
             else (let want = min (sz - offset) (length out)
                   in read_loop node offset want 0 out s) }"

definition read_file :: "u32 \<Rightarrow> bytes \<Rightarrow> fs \<Rightarrow> (nat \<times> bytes \<times> fs) option" where
  "read_file ino out s = read_at ino 0 out s"

text \<open>The loop of \<open>write_at\<close>: the inode gains blocks as the loop allocates them.\<close>

function write_loop ::
  "inode \<Rightarrow> nat \<Rightarrow> bytes \<Rightarrow> nat \<Rightarrow> fs \<Rightarrow> (nat \<times> inode \<times> fs) option" where
  "write_loop node offset data dn s =
     (if dn < length data then
        (let pos = offset + dn; bi = pos div BLOCK_SIZE
         in do { (ob, node, s) \<leftarrow> block_for node bi True s;
                 case ob of
                   None \<Rightarrow> Some (dn, node, s)
                 | Some blk \<Rightarrow>
                     (let within = pos mod BLOCK_SIZE;
                          (block, s) = read_block blk s;
                          n = min (length data - dn) (BLOCK_SIZE - within)
                      in do { chunk \<leftarrow> sub_slice data dn (dn + n);
                              block \<leftarrow> blit_checked block within chunk;
                              write_loop node offset data (dn + n) (write_block blk block s) }) })
      else Some (dn, node, s))"
  by pat_completeness auto
termination
  by (relation "measure (\<lambda>(node, offset, data, dn, s). length data - dn)")
    (auto simp: BLOCK_SIZE_def)

declare write_loop.simps [simp del]

definition write_at :: "u32 \<Rightarrow> nat \<Rightarrow> bytes \<Rightarrow> fs \<Rightarrow> (nat \<times> fs) option" where
  "write_at ino offset data s =
     do { (node, s) \<leftarrow> read_inode ino s;
          (dn, node, s) \<leftarrow> write_loop node offset data 0 s;
          let new_end = offset + dn;
              node = (if new_end > unat (fsize node) then node\<lparr>fsize := of_nat new_end\<rparr> else node)
          in do { s \<leftarrow> write_inode ino node s; Some (dn, s) } }"

definition size_of :: "u32 \<Rightarrow> fs \<Rightarrow> (nat \<times> fs) option" where
  "size_of ino s = do { (node, s) \<leftarrow> read_inode ino s; Some (unat (fsize node), s) }"

definition truncate :: "u32 \<Rightarrow> fs \<Rightarrow> fs option" where
  "truncate ino s =
     do { (node, s) \<leftarrow> read_inode ino s; write_inode ino (node\<lparr>fsize := 0\<rparr>) s }"

definition write_file :: "u32 \<Rightarrow> bytes \<Rightarrow> fs \<Rightarrow> (bool \<times> fs) option" where
  "write_file ino data s =
     do { s \<leftarrow> truncate ino s; (n, s) \<leftarrow> write_at ino 0 data s; Some (n = length data, s) }"

definition is_file :: "u32 \<Rightarrow> fs \<Rightarrow> (bool \<times> fs) option" where
  "is_file ino s = do { (node, s) \<leftarrow> read_inode ino s; Some (kind node = T_FILE, s) }"

definition is_dir :: "u32 \<Rightarrow> fs \<Rightarrow> (bool \<times> fs) option" where
  "is_dir ino s = do { (node, s) \<leftarrow> read_inode ino s; Some (kind node = T_DIR, s) }"

end
