(* ===== verification/FsDir.thy ===== *)
theory FsDir
  imports FsFile
begin

text \<open>
  Directories and paths in \<open>kernel/src/fs.rs\<close>: entry lookup and update, path walking, and
  the operations that create, rename and remove names. Path strings are byte lists.
\<close>

definition SLASH :: u8 where "SLASH = 0x2F"

text \<open>Rust's \<open>split\<close> on one byte: \<open>n\<close> separators give \<open>n + 1\<close> pieces.\<close>

fun split_on :: "'a \<Rightarrow> 'a list \<Rightarrow> 'a list list" where
  "split_on c [] = [[]]"
| "split_on c (x # xs) =
     (if x = c then [] # split_on c xs
      else (case split_on c xs of [] \<Rightarrow> [[x]] | p # ps \<Rightarrow> (x # p) # ps))"

section \<open>Scanning a directory\<close>

text \<open>
  \<open>dir_lookup\<close>, \<open>clear_dirent\<close>, \<open>dir_is_empty\<close> and \<open>list_dir\<close> share their shape: a loop
  over the direct blocks, skipping null pointers, and in each block a loop over the entries
  while \<open>off + DIRENT_SIZE \<le> BLOCK_SIZE\<close> and \<open>seen < entries\<close>.
\<close>

function lookup_block :: "bytes \<Rightarrow> bytes \<Rightarrow> nat \<Rightarrow> nat \<Rightarrow> nat \<Rightarrow> (u32 option \<times> nat) option" where
  "lookup_block name data off seen entries =
     (if off + DIRENT_SIZE \<le> BLOCK_SIZE \<and> seen < entries then
        do { (dname, ino) \<leftarrow> read_dirent data off;
             if ino \<noteq> 0 \<and> name_eq dname name then Some (Some ino, Suc seen)
             else lookup_block name data (off + DIRENT_SIZE) (Suc seen) entries }
      else Some (None, seen))"
  by pat_completeness auto
termination
  by (relation "measure (\<lambda>(name, data, off, seen, entries). entries - seen)") auto

declare lookup_block.simps [simp del]

fun lookup_blocks :: "bytes \<Rightarrow> u32 list \<Rightarrow> nat \<Rightarrow> nat \<Rightarrow> fs \<Rightarrow> (u32 option \<times> fs) option" where
  "lookup_blocks name [] seen entries s = Some (None, s)"
| "lookup_blocks name (blk # blks) seen entries s =
     (if blk = 0 then lookup_blocks name blks seen entries s
      else (let (data, s) = read_block blk s
            in do { (r, seen) \<leftarrow> lookup_block name data 0 seen entries;
                    case r of
                      Some ino \<Rightarrow> Some (Some ino, s)
                    | None \<Rightarrow> lookup_blocks name blks seen entries s }))"

definition dir_lookup :: "u32 \<Rightarrow> bytes \<Rightarrow> fs \<Rightarrow> (u32 option \<times> fs) option" where
  "dir_lookup dir_ino name s =
     do { (dir, s) \<leftarrow> read_inode dir_ino s;
          if kind dir \<noteq> T_DIR then Some (None, s)
          else lookup_blocks name (direct dir) 0 (unat (fsize dir) div DIRENT_SIZE) s }"

definition lookup :: "bytes \<Rightarrow> fs \<Rightarrow> (u32 option \<times> fs) option" where
  "lookup name s = dir_lookup ROOT_INODE name s"

fun walk :: "u32 \<Rightarrow> bytes list \<Rightarrow> fs \<Rightarrow> (u32 option \<times> fs) option" where
  "walk ino [] s = Some (Some ino, s)"
| "walk ino (c # comps) s =
     (if c = [] then walk ino comps s
      else do { (r, s) \<leftarrow> dir_lookup ino c s;
                case r of None \<Rightarrow> Some (None, s) | Some ino \<Rightarrow> walk ino comps s })"

definition namei :: "bytes \<Rightarrow> fs \<Rightarrow> (u32 option \<times> fs) option" where
  "namei path s = walk ROOT_INODE (split_on SLASH path) s"

text \<open>
  \<open>list_dir\<close>: names separated by NUL into the caller's buffer \<open>out\<close>, \<open>w\<close> bytes so far.
  The flag says that the buffer filled and the listing stopped.
\<close>

definition name_len :: "bytes \<Rightarrow> nat" where
  "name_len dname = length (takeWhile (\<lambda>c. c \<noteq> 0) dname)"

function list_block ::
  "bytes \<Rightarrow> nat \<Rightarrow> nat \<Rightarrow> nat \<Rightarrow> nat \<Rightarrow> bytes \<Rightarrow> (bool \<times> nat \<times> nat \<times> bytes) option" where
  "list_block data off seen entries w out =
     (if off + DIRENT_SIZE \<le> BLOCK_SIZE \<and> seen < entries then
        do { (dname, dino) \<leftarrow> read_dirent data off;
             if dino = 0 then list_block data (off + DIRENT_SIZE) (Suc seen) entries w out
             else
               (let nlen = name_len dname
                in if w + nlen + 1 > length out then Some (True, Suc seen, w, out)
                   else do { out \<leftarrow> blit_checked out w (take nlen dname);
                             out \<leftarrow> blit_checked out (w + nlen) [0];
                             list_block data (off + DIRENT_SIZE) (Suc seen) entries (w + nlen + 1) out }) }
      else Some (False, seen, w, out))"
  by pat_completeness auto
termination
  by (relation "measure (\<lambda>(data, off, seen, entries, w, out). entries - seen)") auto

declare list_block.simps [simp del]

fun list_blocks :: "u32 list \<Rightarrow> nat \<Rightarrow> nat \<Rightarrow> nat \<Rightarrow> bytes \<Rightarrow> fs \<Rightarrow> (nat \<times> bytes \<times> fs) option" where
  "list_blocks [] seen entries w out s = Some (w, out, s)"
| "list_blocks (blk # blks) seen entries w out s =
     (if blk = 0 then list_blocks blks seen entries w out s
      else (let (data, s) = read_block blk s
            in do { (full, seen, w, out) \<leftarrow> list_block data 0 seen entries w out;
                    if full then Some (w, out, s) else list_blocks blks seen entries w out s }))"

definition list_dir :: "bytes \<Rightarrow> bytes \<Rightarrow> fs \<Rightarrow> (nat option \<times> bytes \<times> fs) option" where
  "list_dir path out s =
     do { (r, s) \<leftarrow> namei path s;
          case r of
            None \<Rightarrow> Some (None, out, s)
          | Some ino \<Rightarrow>
              do { (dir, s) \<leftarrow> read_inode ino s;
                   if kind dir \<noteq> T_DIR then Some (None, out, s)
                   else do { (w, out, s) \<leftarrow>
                               list_blocks (direct dir) 0 (unat (fsize dir) div DIRENT_SIZE) 0 out s;
                             Some (Some w, out, s) } } }"

section \<open>Changing a directory\<close>

definition dir_link :: "u32 \<Rightarrow> bytes \<Rightarrow> u32 \<Rightarrow> fs \<Rightarrow> (bool \<times> fs) option" where
  "dir_link pino name ino s =
     do { (dir, s) \<leftarrow> read_inode pino s;
          let off = unat (fsize dir); bi = off div BLOCK_SIZE
          in if bi \<ge> NDIRECT then Some (False, s)
             else (let within = off mod BLOCK_SIZE
                   in do { (ob, dir, s) \<leftarrow> block_for dir bi True s;
                           case ob of
                             None \<Rightarrow> Some (False, s)
                           | Some dblk \<Rightarrow>
                               (let (data, s) = read_block dblk s
                                in do { data \<leftarrow> write_dirent data within name ino;
                                        let s = write_block dblk data s;
                                            dir = dir\<lparr>fsize := fsize dir + of_nat DIRENT_SIZE\<rparr>
                                        in do { s \<leftarrow> write_inode pino dir s; Some (True, s) } }) }) }"

text \<open>\<open>rposition\<close> of the last slash splits a path into its parent and its final component.\<close>

definition split_last :: "bytes \<Rightarrow> bytes \<times> bytes" where
  "split_last path =
     (if SLASH \<in> set path
      then (butlast (rev (dropWhile (\<lambda>c. c \<noteq> SLASH) (rev path))),
            rev (takeWhile (\<lambda>c. c \<noteq> SLASH) (rev path)))
      else ([], path))"

definition split_parent :: "bytes \<Rightarrow> fs \<Rightarrow> ((u32 \<times> bytes) option \<times> fs) option" where
  "split_parent path s =
     (let (parent_path, name) = split_last path
      in do { (p, s) \<leftarrow> (if parent_path = [] then Some (Some ROOT_INODE, s) else namei parent_path s);
              case p of
                None \<Rightarrow> Some (None, s)
              | Some pino \<Rightarrow>
                  do { (d, s) \<leftarrow> is_dir pino s;
                       Some (if \<not> d then None else Some (pino, name), s) } })"

function clear_block :: "u32 \<Rightarrow> bytes \<Rightarrow> bytes \<Rightarrow> nat \<Rightarrow> nat \<Rightarrow> nat \<Rightarrow> (bytes option \<times> nat) option" where
  "clear_block ino name data off seen entries =
     (if off + DIRENT_SIZE \<le> BLOCK_SIZE \<and> seen < entries then
        do { (dname, dino) \<leftarrow> read_dirent data off;
             if dino = ino \<and> name_eq dname name
             then do { data \<leftarrow> write_dirent data off [] 0; Some (Some data, Suc seen) }
             else clear_block ino name data (off + DIRENT_SIZE) (Suc seen) entries }
      else Some (None, seen))"
  by pat_completeness auto
termination
  by (relation "measure (\<lambda>(ino, name, data, off, seen, entries). entries - seen)") auto

declare clear_block.simps [simp del]

fun clear_blocks :: "u32 \<Rightarrow> bytes \<Rightarrow> u32 list \<Rightarrow> nat \<Rightarrow> nat \<Rightarrow> fs \<Rightarrow> (bool \<times> fs) option" where
  "clear_blocks ino name [] seen entries s = Some (False, s)"
| "clear_blocks ino name (blk # blks) seen entries s =
     (if blk = 0 then clear_blocks ino name blks seen entries s
      else (let (data, s) = read_block blk s
            in do { (r, seen) \<leftarrow> clear_block ino name data 0 seen entries;
                    case r of
                      Some data \<Rightarrow> Some (True, write_block blk data s)
                    | None \<Rightarrow> clear_blocks ino name blks seen entries s }))"

definition clear_dirent :: "u32 \<Rightarrow> u32 \<Rightarrow> bytes \<Rightarrow> fs \<Rightarrow> (bool \<times> fs) option" where
  "clear_dirent pino ino name s =
     do { (parent, s) \<leftarrow> read_inode pino s;
          clear_blocks ino name (direct parent) 0 (unat (fsize parent) div DIRENT_SIZE) s }"

function empty_block :: "bytes \<Rightarrow> nat \<Rightarrow> nat \<Rightarrow> nat \<Rightarrow> (bool \<times> nat) option" where
  "empty_block data off seen entries =
     (if off + DIRENT_SIZE \<le> BLOCK_SIZE \<and> seen < entries then
        do { (dname, dino) \<leftarrow> read_dirent data off;
             if dino \<noteq> 0 then Some (False, Suc seen)
             else empty_block data (off + DIRENT_SIZE) (Suc seen) entries }
      else Some (True, seen))"
  by pat_completeness auto
termination
  by (relation "measure (\<lambda>(data, off, seen, entries). entries - seen)") auto

declare empty_block.simps [simp del]

fun empty_blocks :: "u32 list \<Rightarrow> nat \<Rightarrow> nat \<Rightarrow> fs \<Rightarrow> (bool \<times> fs) option" where
  "empty_blocks [] seen entries s = Some (True, s)"
| "empty_blocks (blk # blks) seen entries s =
     (if blk = 0 then empty_blocks blks seen entries s
      else (let (data, s) = read_block blk s
            in do { (e, seen) \<leftarrow> empty_block data 0 seen entries;
                    if \<not> e then Some (False, s) else empty_blocks blks seen entries s }))"

definition dir_is_empty :: "u32 \<Rightarrow> fs \<Rightarrow> (bool \<times> fs) option" where
  "dir_is_empty ino s =
     do { (dir, s) \<leftarrow> read_inode ino s;
          empty_blocks (direct dir) 0 (unat (fsize dir) div DIRENT_SIZE) s }"

section \<open>The operations on names\<close>

definition alloc_node :: "u16 \<Rightarrow> fs \<Rightarrow> (u32 option \<times> fs) option" where
  "alloc_node k s =
     do { (r, s) \<leftarrow> alloc_inode s;
          case r of
            None \<Rightarrow> Some (None, s)
          | Some ino \<Rightarrow>
              do { s \<leftarrow> write_inode ino (Inode_empty\<lparr>kind := k, nlink := 1\<rparr>) s;
                   Some (Some ino, s) } }"

definition create :: "bytes \<Rightarrow> fs \<Rightarrow> (u32 option \<times> fs) option" where
  "create name s =
     do { (r, s) \<leftarrow> lookup name s;
          case r of
            Some _ \<Rightarrow> Some (None, s)
          | None \<Rightarrow>
              do { (a, s) \<leftarrow> alloc_node T_FILE s;
                   case a of
                     None \<Rightarrow> Some (None, s)
                   | Some ino \<Rightarrow>
                       do { (ok, s) \<leftarrow> dir_link ROOT_INODE name ino s;
                            if \<not> ok
                            then do { s \<leftarrow> write_inode ino Inode_empty s; Some (None, s) }
                            else Some (Some ino, s) } } }"

definition mkdir :: "bytes \<Rightarrow> fs \<Rightarrow> (bool \<times> fs) option" where
  "mkdir path s =
     do { (sp, s) \<leftarrow> split_parent path s;
          case sp of
            None \<Rightarrow> Some (False, s)
          | Some (pino, name) \<Rightarrow>
              (if name = [] then Some (False, s)
               else do { (r, s) \<leftarrow> dir_lookup pino name s;
                         if r \<noteq> None then Some (False, s)
                         else do { (a, s) \<leftarrow> alloc_node T_DIR s;
                                   case a of
                                     None \<Rightarrow> Some (False, s)
                                   | Some ino \<Rightarrow>
                                       do { (ok, s) \<leftarrow> dir_link pino name ino s;
                                            if \<not> ok
                                            then do { s \<leftarrow> write_inode ino Inode_empty s; Some (False, s) }
                                            else Some (True, s) } } }) }"

definition rmdir :: "bytes \<Rightarrow> fs \<Rightarrow> (bool \<times> fs) option" where
  "rmdir path s =
     do { (r, s) \<leftarrow> namei path s;
          case r of
            None \<Rightarrow> Some (False, s)
          | Some ino \<Rightarrow>
              (if ino = ROOT_INODE then Some (False, s)
               else do { (d, s) \<leftarrow> is_dir ino s;
                         if \<not> d then Some (False, s)
                         else do { (e, s) \<leftarrow> dir_is_empty ino s;
                                   if \<not> e then Some (False, s)
                                   else do { (sp, s) \<leftarrow> split_parent path s;
                                             case sp of
                                               None \<Rightarrow> Some (False, s)
                                             | Some (pino, name) \<Rightarrow>
                                                 (if name = [] then Some (False, s)
                                                  else do { (node, s) \<leftarrow> read_inode ino s;
                                                            s \<leftarrow> free_all_blocks node s;
                                                            s \<leftarrow> write_inode ino Inode_empty s;
                                                            clear_dirent pino ino name s }) } } }) }"

text \<open>The part of \<open>rename\<close> that drops an existing destination; the flag is "go on".\<close>

datatype rename_dst = GoOn | Finished bool

definition rename_drop_dst :: "u32 \<Rightarrow> bytes \<Rightarrow> u32 \<Rightarrow> fs \<Rightarrow> (rename_dst \<times> fs) option" where
  "rename_drop_dst dp_ino dname ino s =
     do { (r, s) \<leftarrow> dir_lookup dp_ino dname s;
          case r of
            None \<Rightarrow> Some (GoOn, s)
          | Some dino \<Rightarrow>
              (if dino = ino then Some (Finished True, s)
               else do { (dnode, s) \<leftarrow> read_inode dino s;
                         if kind dnode \<noteq> T_FILE then Some (Finished False, s)
                         else do { s \<leftarrow> free_all_blocks dnode s;
                                   s \<leftarrow> write_inode dino Inode_empty s;
                                   (_, s) \<leftarrow> clear_dirent dp_ino dino dname s;
                                   Some (GoOn, s) } }) }"

definition rename :: "bytes \<Rightarrow> bytes \<Rightarrow> fs \<Rightarrow> (bool \<times> fs) option" where
  "rename src dst s =
     do { (sp, s) \<leftarrow> split_parent src s;
          case sp of
            None \<Rightarrow> Some (False, s)
          | Some (sp_ino, sname) \<Rightarrow>
              (if sname = [] then Some (False, s)
               else do { (r, s) \<leftarrow> dir_lookup sp_ino sname s;
                         case r of
                           None \<Rightarrow> Some (False, s)
                         | Some ino \<Rightarrow>
                             do { (dp, s) \<leftarrow> split_parent dst s;
                                  case dp of
                                    None \<Rightarrow> Some (False, s)
                                  | Some (dp_ino, dname) \<Rightarrow>
                                      (if dname = [] then Some (False, s)
                                       else do { (x, s) \<leftarrow> rename_drop_dst dp_ino dname ino s;
                                                 case x of
                                                   Finished b \<Rightarrow> Some (b, s)
                                                 | GoOn \<Rightarrow>
                                                     do { (ok, s) \<leftarrow> dir_link dp_ino dname ino s;
                                                          if \<not> ok then Some (False, s)
                                                          else clear_dirent sp_ino ino sname s } }) } }) }"

text \<open>
  \<open>delete\<close> of a name in the root directory. Its loop over the root's first block has no
  \<open>off + DIRENT_SIZE \<le> BLOCK_SIZE\<close> guard: an entry past the block is a panic.
\<close>

function delete_scan :: "u32 \<Rightarrow> bytes \<Rightarrow> bytes \<Rightarrow> nat \<Rightarrow> nat \<Rightarrow> bytes option option" where
  "delete_scan ino name data i entries =
     (if i < entries then
        do { (dname, dino) \<leftarrow> read_dirent data (i * DIRENT_SIZE);
             if dino = ino \<and> name_eq dname name
             then do { data \<leftarrow> write_dirent data (i * DIRENT_SIZE) [] 0; Some (Some data) }
             else delete_scan ino name data (Suc i) entries }
      else Some None)"
  by pat_completeness auto
termination
  by (relation "measure (\<lambda>(ino, name, data, i, entries). entries - i)") auto

declare delete_scan.simps [simp del]

definition delete :: "bytes \<Rightarrow> fs \<Rightarrow> (bool \<times> fs) option" where
  "delete name s =
     do { (r, s) \<leftarrow> lookup name s;
          case r of
            None \<Rightarrow> Some (False, s)
          | Some ino \<Rightarrow>
              do { (node, s) \<leftarrow> read_inode ino s;
                   s \<leftarrow> free_all_blocks node s;
                   s \<leftarrow> write_inode ino Inode_empty s;
                   (root, s) \<leftarrow> read_inode ROOT_INODE s;
                   dblk \<leftarrow> index (direct root) 0;
                   let (data, s) = read_block dblk s
                   in do { x \<leftarrow> delete_scan ino name data 0 (unat (fsize root) div DIRENT_SIZE);
                           case x of
                             Some data \<Rightarrow> Some (True, write_block dblk data s)
                           | None \<Rightarrow> Some (True, s) } } }"

definition unlink :: "bytes \<Rightarrow> fs \<Rightarrow> (bool \<times> fs) option" where
  "unlink path s =
     do { (sp, s) \<leftarrow> split_parent path s;
          case sp of
            None \<Rightarrow> Some (False, s)
          | Some (parent_ino, name) \<Rightarrow>
              (if name = [] then Some (False, s)
               else do { (r, s) \<leftarrow> dir_lookup parent_ino name s;
                         case r of
                           None \<Rightarrow> Some (False, s)
                         | Some ino \<Rightarrow>
                             do { (node, s) \<leftarrow> read_inode ino s;
                                  if kind node \<noteq> T_FILE then Some (False, s)
                                  else do { s \<leftarrow> free_all_blocks node s;
                                            s \<leftarrow> write_inode ino Inode_empty s;
                                            clear_dirent parent_ino ino name s } } }) }"

end
