(* ===== verification/FsPath.thy ===== *)
theory FsPath
  imports FsDir
begin

text \<open>
  \<open>fs::resolve\<close>: a possibly relative path is made absolute and canonical in a
  caller-supplied buffer, with a stack of at most 64 component ends. The abstract
  specification \<open>canonical\<close> keeps a stack of components instead of offsets, and
  \<open>resolve_spec\<close> shows that the buffer arithmetic implements it exactly, with no panic.
\<close>

definition DOT :: u8 where "DOT = 0x2E"

definition MAX_DEPTH :: nat where "MAX_DEPTH = 64"

text \<open>The locals of \<open>resolve\<close>: bytes used, component ends, depth, and the output buffer.\<close>

record rpath =
  rlen :: nat
  rends :: "nat list"
  rdepth :: nat
  rout :: bytes

text \<open>
  One turn of the inner loop. The flag is false when the source returns \<open>None\<close> there;
  an outer \<open>None\<close> would be an out-of-range index, that is, a panic.
\<close>

definition resolve_comp :: "bytes \<Rightarrow> rpath \<Rightarrow> (bool \<times> rpath) option" where
  "resolve_comp c r =
     (if c = [] \<or> c = [DOT] then Some (True, r)
      else if c = [DOT, DOT] then
        (if rdepth r > 0 then
           (let d = rdepth r - 1
            in do { l \<leftarrow> (if d > 0 then index (rends r) (d - 1) else Some 0);
                    Some (True, r\<lparr>rdepth := d, rlen := l\<rparr>) })
         else Some (True, r))
      else if rdepth r \<ge> length (rends r) \<or> rlen r + 1 + length c > length (rout r)
      then Some (False, r)
      else do { out \<leftarrow> blit_checked (rout r) (rlen r) [SLASH];
                let l = rlen r + 1 in
                do { out \<leftarrow> blit_checked out l c;
                     let l = l + length c in
                     if rdepth r < length (rends r)
                     then Some (True, r\<lparr>rout := out, rlen := l,
                                        rends := (rends r)[rdepth r := l],
                                        rdepth := rdepth r + 1\<rparr>)
                     else None } })"

fun resolve_comps :: "bytes list \<Rightarrow> rpath \<Rightarrow> (bool \<times> rpath) option" where
  "resolve_comps [] r = Some (True, r)"
| "resolve_comps (c # cs) r =
     do { (ok, r) \<leftarrow> resolve_comp c r;
          if ok then resolve_comps cs r else Some (False, r) }"

definition is_absolute :: "bytes \<Rightarrow> bool" where
  "is_absolute path = (case path of [] \<Rightarrow> False | c # _ \<Rightarrow> c = SLASH)"

definition resolve :: "bytes \<Rightarrow> bytes \<Rightarrow> bytes \<Rightarrow> (nat option \<times> bytes) option" where
  "resolve cwd path out =
     (let first = (if is_absolute path then [] else cwd);
          r = \<lparr>rlen = 0, rends = replicate MAX_DEPTH 0, rdepth = 0, rout = out\<rparr>
      in do { (ok, r) \<leftarrow> resolve_comps (split_on SLASH first @ split_on SLASH path) r;
              if \<not> ok then Some (None, rout r)
              else if rlen r = 0 then
                (if rout r = [] then Some (None, rout r)
                 else Some (Some 1, (rout r)[0 := SLASH]))
              else Some (Some (rlen r), rout r) })"

section \<open>The abstract specification\<close>

definition render :: "bytes list \<Rightarrow> bytes" where
  "render st = concat (map (\<lambda>c. SLASH # c) st)"

definition abs_path :: "bytes list \<Rightarrow> bytes" where
  "abs_path st = (if st = [] then [SLASH] else render st)"

definition norm_comp :: "bytes \<Rightarrow> bytes list \<Rightarrow> bytes list" where
  "norm_comp c st =
     (if c = [] \<or> c = [DOT] then st else if c = [DOT, DOT] then butlast st else st @ [c])"

text \<open>Canonicalisation with the capacity check after every component.\<close>

fun norm_comps :: "nat \<Rightarrow> bytes list \<Rightarrow> bytes list \<Rightarrow> bytes list option" where
  "norm_comps cap [] st = Some st"
| "norm_comps cap (c # cs) st =
     (let st' = norm_comp c st
      in if length st' \<le> MAX_DEPTH \<and> length (render st') \<le> cap then norm_comps cap cs st'
         else None)"

definition path_comps :: "bytes \<Rightarrow> bytes \<Rightarrow> bytes list" where
  "path_comps cwd path =
     split_on SLASH (if is_absolute path then [] else cwd) @ split_on SLASH path"

definition canonical :: "nat \<Rightarrow> bytes \<Rightarrow> bytes \<Rightarrow> bytes list option" where
  "canonical cap cwd path = norm_comps cap (path_comps cwd path) []"

definition plain_comp :: "bytes \<Rightarrow> bool" where
  "plain_comp c \<longleftrightarrow> c \<noteq> [] \<and> c \<noteq> [DOT] \<and> c \<noteq> [DOT, DOT] \<and> SLASH \<notin> set c"

section \<open>Refinement\<close>

definition rpath_abs :: "nat \<Rightarrow> bytes list \<Rightarrow> rpath \<Rightarrow> bool" where
  "rpath_abs cap st r \<longleftrightarrow>
     length (rout r) = cap \<and> length (rends r) = MAX_DEPTH \<and> rdepth r = length st \<and>
     length st \<le> MAX_DEPTH \<and> rlen r = length (render st) \<and> length (render st) \<le> cap \<and>
     take (length (render st)) (rout r) = render st \<and>
     (\<forall>i < length st. rends r ! i = length (render (take (Suc i) st)))"

lemma render_simps [simp]:
  "render [] = []" "render (st @ [c]) = render st @ SLASH # c"
  "render (c # st) = SLASH # c @ render st"
  by (simp_all add: render_def)

lemma render_take_le: "length (render (take n st)) \<le> length (render st)"
proof -
  have "render st = render (take n st) @ render (drop n st)"
    unfolding render_def by (metis append_take_drop_id concat_append map_append)
  then show ?thesis by simp
qed

lemma render_eq_Nil [simp]: "render st = [] \<longleftrightarrow> st = []"
  by (cases st) simp_all

lemma take_render_take: 
  "take (length (render (take n st))) (render st) = render (take n st)"
proof -
  have "render st = render (take n st) @ render (drop n st)"
    unfolding render_def by (metis append_take_drop_id concat_append map_append)
  then show ?thesis by (metis append_eq_conv_conj)
qed

text \<open>Popping the stack: \<open>ends[depth - 1]\<close> is the length of the parent's path.\<close>

lemma resolve_comp_pop:
  assumes "rpath_abs cap st r"
  shows "\<exists>r'. resolve_comp [DOT, DOT] r = Some (True, r') \<and> rpath_abs cap (butlast st) r'"
proof (cases "length st \<le> 1")
  case True
  with assms show ?thesis
    by (cases st) (auto simp: resolve_comp_def rpath_abs_def Let_def DOT_def)
next
  case False
  let ?n = "length st - 1"
  let ?l = "length (render (take ?n st))"
  have n: "0 < ?n" "?n \<le> MAX_DEPTH" using False assms by (auto simp: rpath_abs_def)
  then have "Suc (?n - 1) = ?n" "?n - 1 < length st" by simp_all
  moreover have "\<forall>i < length st. rends r ! i = length (render (take (Suc i) st))"
    using assms by (simp add: rpath_abs_def)
  ultimately have e: "rends r ! (?n - 1) = ?l" by metis
  have step: "resolve_comp [DOT, DOT] r = Some (True, r\<lparr>rdepth := ?n, rlen := ?l\<rparr>)"
  proof -
    have "rdepth r = length st" "length (rends r) = MAX_DEPTH" using assms by (auto simp: rpath_abs_def)
    moreover from this n e have "index (rends r) (?n - 1) = Some ?l" by (simp add: index_def)
    ultimately show ?thesis
      using n False by (auto simp: resolve_comp_def Let_def DOT_def del: One_nat_def)
  qed
  have "take ?l (rout r) = take ?l (take (length (render st)) (rout r))"
    using render_take_le [of ?n st] by (simp add: min_def)
  also have "\<dots> = render (take ?n st)"
    using assms take_render_take [of ?n st] by (simp add: rpath_abs_def)
  finally have "rpath_abs cap (take ?n st) (r\<lparr>rdepth := ?n, rlen := ?l\<rparr>)"
    using assms False render_take_le [of ?n st] by (auto simp: rpath_abs_def min_def)
  with step show ?thesis by (auto simp: butlast_conv_take)
qed

lemma take_blit_snoc:
  assumes "n + length ys \<le> length xs"
  shows "take (n + length ys) (blit xs n ys) = take n xs @ ys"
  using assms by (simp add: blit_def)

lemma resolve_comp_push:
  assumes r: "rpath_abs cap st r" and c: "c \<noteq> []" "c \<noteq> [DOT]" "c \<noteq> [DOT, DOT]"
    and fit: "length (st @ [c]) \<le> MAX_DEPTH" "length (render (st @ [c])) \<le> cap"
  shows "\<exists>r'. resolve_comp c r = Some (True, r') \<and> rpath_abs cap (st @ [c]) r'"
proof -
  let ?l = "rlen r + 1 + length c"
  let ?o = "blit (blit (rout r) (rlen r) [SLASH]) (rlen r + 1) c"
  let ?r = "r\<lparr>rout := ?o, rlen := ?l, rends := (rends r)[rdepth r := ?l], rdepth := rdepth r + 1\<rparr>"
  have step: "resolve_comp c r = Some (True, ?r)"
    using assms by (auto simp: resolve_comp_def rpath_abs_def blit_checked_def Let_def)
  have len: "rlen r + 1 + length c \<le> length (rout r)" using r fit by (simp add: rpath_abs_def)
  have "take (rlen r + 1) (blit (rout r) (rlen r) [SLASH]) = take (rlen r) (rout r) @ [SLASH]"
    using take_blit_snoc [of "rlen r" "[SLASH]" "rout r"] len by simp
  then have "take ?l ?o = render (st @ [c])"
    using take_blit_snoc [of "rlen r + 1" c "blit (rout r) (rlen r) [SLASH]"] len r
    by (simp add: rpath_abs_def)
  moreover have "\<forall>i < length (st @ [c]). rends ?r ! i = length (render (take (Suc i) (st @ [c])))"
    using r fit by (auto simp: rpath_abs_def nth_list_update less_Suc_eq)
  ultimately have "rpath_abs cap (st @ [c]) ?r"
    using r fit by (simp add: rpath_abs_def)
  with step show ?thesis by blast
qed

lemma resolve_comp_refines:
  assumes r: "rpath_abs cap st r"
  shows "\<exists>ok r'. resolve_comp c r = Some (ok, r') \<and> length (rout r') = cap \<and>
           (ok \<longleftrightarrow> length (norm_comp c st) \<le> MAX_DEPTH \<and> length (render (norm_comp c st)) \<le> cap) \<and>
           (ok \<longrightarrow> rpath_abs cap (norm_comp c st) r')"
proof -
  consider "c = [] \<or> c = [DOT]" | "c = [DOT, DOT]" | "c \<noteq> []" "c \<noteq> [DOT]" "c \<noteq> [DOT, DOT]"
    by blast
  then show ?thesis
  proof cases
    case 1
    then have "resolve_comp c r = Some (True, r)" "norm_comp c st = st"
      by (auto simp: resolve_comp_def norm_comp_def)
    with r show ?thesis by (auto simp: rpath_abs_def)
  next
    case 2
    from resolve_comp_pop [OF r] obtain r' where
      "resolve_comp c r = Some (True, r')" "rpath_abs cap (butlast st) r'" using 2 by blast
    moreover have "norm_comp c st = butlast st" using 2 by (simp add: norm_comp_def)
    ultimately show ?thesis by (auto simp: rpath_abs_def)
  next
    case 3
    then have n: "norm_comp c st = st @ [c]" by (simp add: norm_comp_def)
    show ?thesis
    proof (cases "length (st @ [c]) \<le> MAX_DEPTH \<and> length (render (st @ [c])) \<le> cap")
      case True
      with resolve_comp_push [OF r 3] obtain r' where
        "resolve_comp c r = Some (True, r')" "rpath_abs cap (st @ [c]) r'" by blast
      with True n show ?thesis by (auto simp: rpath_abs_def)
    next
      case False
      with r 3 have "resolve_comp c r = Some (False, r)"
        by (auto simp: resolve_comp_def rpath_abs_def)
      with False n r show ?thesis by (auto simp: rpath_abs_def)
    qed
  qed
qed

lemma resolve_comps_refines:
  assumes "rpath_abs cap st r"
  shows "\<exists>ok r'. resolve_comps cs r = Some (ok, r') \<and> length (rout r') = cap \<and>
           (case norm_comps cap cs st of
              None \<Rightarrow> \<not> ok
            | Some st' \<Rightarrow> ok \<and> rpath_abs cap st' r')"
  using assms
proof (induction cs arbitrary: st r)
  case Nil
  then show ?case by (auto simp: rpath_abs_def)
next
  case (Cons c cs)
  from resolve_comp_refines [OF Cons.prems, of c] obtain ok r' where
    s: "resolve_comp c r = Some (ok, r')" "length (rout r') = cap"
       "ok \<longleftrightarrow> length (norm_comp c st) \<le> MAX_DEPTH \<and> length (render (norm_comp c st)) \<le> cap"
       "ok \<longrightarrow> rpath_abs cap (norm_comp c st) r'"
    by blast
  show ?case
  proof (cases ok)
    case True
    with s Cons.IH [of "norm_comp c st" r'] show ?thesis by (simp add: Let_def)
  next
    case False
    with s show ?thesis by (auto simp: Let_def)
  qed
qed

lemma canonical_plain_aux:
  assumes "norm_comps cap cs st = Some st'" "list_all plain_comp st"
    "\<forall>c \<in> set cs. SLASH \<notin> set c"
  shows "list_all plain_comp st'"
  using assms
proof (induction cs arbitrary: st)
  case (Cons c cs)
  have "list_all plain_comp (norm_comp c st)"
    using Cons.prems by (auto simp: norm_comp_def plain_comp_def list_all_iff dest: in_set_butlastD)
  with Cons show ?case by (auto simp: Let_def split: if_splits)
qed simp

lemma split_on_nonempty [simp]: "split_on c xs \<noteq> []"
  by (cases xs) (auto split: list.splits)

lemma split_on_no_sep: "p \<in> set (split_on c xs) \<Longrightarrow> c \<notin> set p"
proof (induction xs arbitrary: p)
  case (Cons x xs)
  then show ?case by (cases "split_on c xs") (auto split: if_splits)
qed simp

lemma split_on_append: "c \<notin> set xs \<Longrightarrow> split_on c (xs @ c # ys) = xs # split_on c ys"
  by (induction xs) auto

lemma split_on_plain: "c \<notin> set xs \<Longrightarrow> split_on c xs = [xs]"
  by (induction xs) auto

lemma split_on_render:
  "list_all (\<lambda>c. SLASH \<notin> set c) st \<Longrightarrow> split_on SLASH (render st) = [] # st"
proof (induction st)
  case (Cons c st)
  have "split_on SLASH (c @ render st) = c # st"
  proof (cases st)
    case Nil
    with Cons.prems show ?thesis by (simp add: split_on_plain)
  next
    case (Cons d st')
    then show ?thesis
      using split_on_append [of SLASH c "d @ render st'"] Cons.IH Cons.prems by simp
  qed
  then show ?case by simp
qed simp

lemma canonical_plain: "canonical cap cwd path = Some st \<Longrightarrow> list_all plain_comp st"
  unfolding canonical_def path_comps_def
  by (erule canonical_plain_aux) (auto simp: split_on_no_sep)

lemma norm_comps_plain:
  assumes "list_all plain_comp cs" "length (st @ cs) \<le> MAX_DEPTH" "length (render (st @ cs)) \<le> cap"
  shows "norm_comps cap cs st = Some (st @ cs)"
  using assms
proof (induction cs arbitrary: st)
  case (Cons c cs)
  have "norm_comp c st = st @ [c]" using Cons.prems by (simp add: norm_comp_def plain_comp_def)
  moreover have "length (render (st @ [c])) \<le> cap"
    using Cons.prems(3) render_take_le [of "Suc (length st)" "st @ c # cs"] by simp
  ultimately show ?case using Cons by (simp add: Let_def)
qed simp

lemma norm_comps_bounds:
  "norm_comps cap cs st = Some st' \<Longrightarrow> length st \<le> MAX_DEPTH \<and> length (render st) \<le> cap \<Longrightarrow>
   length st' \<le> MAX_DEPTH \<and> length (render st') \<le> cap"
  by (induction cs arbitrary: st) (auto simp: Let_def split: if_splits)

lemma abs_path_absolute [simp]: "is_absolute (abs_path st)"
  by (cases st) (auto simp: abs_path_def is_absolute_def)

lemma canonical_abs_path:
  assumes "list_all plain_comp st" "length st \<le> MAX_DEPTH" "length (render st) \<le> cap"
  shows "canonical cap cwd (abs_path st) = Some st"
proof (cases "st = []")
  case True
  then show ?thesis
    by (simp add: canonical_def path_comps_def abs_path_def is_absolute_def norm_comp_def Let_def)
next
  case False
  have "split_on SLASH (render st) = [] # st"
    using assms(1) by (intro split_on_render) (auto simp: list_all_iff plain_comp_def)
  with False show ?thesis
    using norm_comps_plain [of st "[]"] assms abs_path_absolute [of st]
    by (simp add: canonical_def path_comps_def abs_path_def norm_comp_def Let_def)
qed

text \<open>
  Resolving a canonical path again, against any working directory, gives the same path.
\<close>

lemma canonical_idem:
  assumes "canonical cap cwd path = Some st"
  shows "canonical cap cwd' (abs_path st) = Some st"
  using assms canonical_plain [OF assms] canonical_abs_path
    norm_comps_bounds [of cap "path_comps cwd path" "[]" st]
  by (simp add: canonical_def)

lemma resolve_refines:
  "\<exists>r out'. resolve cwd path out = Some (r, out') \<and> length out' = length out \<and>
     (case canonical (length out) cwd path of
        None \<Rightarrow> r = None
      | Some st \<Rightarrow> if length (abs_path st) \<le> length out
                  then r = Some (length (abs_path st)) \<and>
                       take (length (abs_path st)) out' = abs_path st
                  else r = None)"
proof -
  let ?r = "\<lparr>rlen = 0, rends = replicate MAX_DEPTH 0, rdepth = 0, rout = out\<rparr>"
  have "rpath_abs (length out) [] ?r" by (simp add: rpath_abs_def)
  from resolve_comps_refines [OF this, of "path_comps cwd path"] obtain ok r' where
    s: "resolve_comps (path_comps cwd path) ?r = Some (ok, r')" "length (rout r') = length out"
    and c: "case canonical (length out) cwd path of
              None \<Rightarrow> \<not> ok | Some st' \<Rightarrow> ok \<and> rpath_abs (length out) st' r'"
    by (auto simp: canonical_def)
  show ?thesis
  proof (cases "canonical (length out) cwd path")
    case None
    with s c show ?thesis by (simp add: resolve_def path_comps_def [symmetric] Let_def)
  next
    case (Some st)
    with c have a: "ok" "rpath_abs (length out) st r'" by simp_all
    then have rl: "rlen r' = 0 \<longleftrightarrow> st = []" by (simp add: rpath_abs_def)
    have o: "Suc 0 \<le> length out" if "out \<noteq> []" using that by (cases out) simp_all
    have t: "take 1 ((rout r')[0 := SLASH]) = [SLASH]" if "rout r' \<noteq> []"
      using that by (cases "rout r'") simp_all
    show ?thesis
      using a s Some rl t o
      by (cases "st = []"; cases "out = []")
         (auto simp: resolve_def path_comps_def [symmetric] Let_def abs_path_def rpath_abs_def)
  qed
qed

section \<open>Properties\<close>

text \<open>
  C25: \<open>resolve\<close> never panics, and the bytes it leaves in the buffer are the canonical
  absolute path of the component stack specification; it returns \<open>None\<close> exactly when an
  intermediate path has more than 64 components or does not fit the buffer.
\<close>

theorem resolve_spec:
  "\<exists>r out'. resolve cwd path out = Some (r, out') \<and> length out' = length out \<and>
     (case canonical (length out) cwd path of
        None \<Rightarrow> r = None
      | Some st \<Rightarrow> if length (abs_path st) \<le> length out
                  then r = Some (length (abs_path st)) \<and>
                       take (length (abs_path st)) out' = abs_path st
                  else r = None)"
  by (rule resolve_refines)

text \<open>
  A resolved path is canonical. It is a list of components, none empty, none \<open>.\<close> or
  \<open>..\<close>, none containing a slash, and resolving it again, against any working directory and
  into a buffer of the same size, succeeds and gives the same bytes.
\<close>

theorem resolve_idempotent:
  assumes "resolve cwd path out = Some (Some n, out')" and "length out2 = length out"
  shows "\<exists>st out2'. take n out' = abs_path st \<and> list_all plain_comp st \<and> length st \<le> MAX_DEPTH
           \<and> resolve cwd2 (take n out') out2 = Some (Some n, out2') \<and> take n out2' = take n out'"
proof -
  from resolve_refines [of cwd path out] assms(1) obtain st where
    st: "canonical (length out) cwd path = Some st" "length (abs_path st) \<le> length out"
      "n = length (abs_path st)" "take n out' = abs_path st"
    by (auto split: option.splits if_splits)
  have "canonical (length out2) cwd2 (abs_path st) = Some st"
    using canonical_idem [OF st(1)] assms(2) by simp
  with resolve_refines [of cwd2 "abs_path st" out2] obtain out2' where
    "resolve cwd2 (abs_path st) out2 = Some (Some n, out2')" "take n out2' = abs_path st"
    using st assms(2) by auto
  moreover have "length st \<le> MAX_DEPTH"
    using norm_comps_bounds [of "length out" "path_comps cwd path" "[]" st] st(1)
    by (simp add: canonical_def)
  ultimately show ?thesis using st canonical_plain [OF st(1)] by auto
qed

theorem resolve_idempotent_witness:
  "\<exists>st out2'. take 2 [SLASH, 0x61, 0x62, 0] = abs_path st \<and> list_all plain_comp st
     \<and> length st \<le> MAX_DEPTH
     \<and> resolve [SLASH] (take 2 [SLASH, 0x61, 0x62, 0]) [0, 0, 0, 0] = Some (Some 2, out2')
     \<and> take 2 out2' = take 2 [SLASH, 0x61, 0x62, 0]"
  by (rule resolve_idempotent [of "[SLASH]" "[0x2E, SLASH, 0x61]" "[0, 0, 0x62, 0]"])
    (simp_all add: resolve_def resolve_comp_def blit_checked_def blit_def MAX_DEPTH_def
      SLASH_def DOT_def is_absolute_def Let_def)

end
