(* ===== verification/Vfs.thy ===== *)
theory Vfs
  imports Pipe FsPath
begin

text \<open>
  The descriptor layer \<open>kernel/src/vfs.rs\<close>: one table of descriptors per process, the
  \<open>OpenFile\<close> gate of each file descriptor (\<open>frame/open_file.frs\<close>), and the pipe pool whose
  reference counts the tables keep. The current process (\<open>sched::current_slot()\<close>) is the
  argument \<open>cur\<close>; the serial console is the list of bytes written to it.
\<close>

section \<open>The OpenFile Frame system\<close>

datatype open_file = FOpen | FReading | FWriting | FClosed

definition of_open_read :: "open_file \<Rightarrow> open_file" where
  "of_open_read f = (case f of FOpen \<Rightarrow> FReading | _ \<Rightarrow> f)"

definition of_open_write :: "open_file \<Rightarrow> open_file" where
  "of_open_write f = (case f of FOpen \<Rightarrow> FWriting | _ \<Rightarrow> f)"

definition of_read :: "open_file \<Rightarrow> open_file" where
  "of_read f = (case f of FReading \<Rightarrow> FReading | _ \<Rightarrow> f)"

definition of_write :: "open_file \<Rightarrow> open_file" where
  "of_write f = (case f of FWriting \<Rightarrow> FWriting | _ \<Rightarrow> f)"

definition of_close :: "open_file \<Rightarrow> open_file" where
  "of_close f = (case f of FOpen \<Rightarrow> FClosed | FReading \<Rightarrow> FClosed | FWriting \<Rightarrow> FClosed | FClosed \<Rightarrow> FClosed)"

definition of_is_reading :: "open_file \<Rightarrow> bool" where
  "of_is_reading f = (case f of FReading \<Rightarrow> True | _ \<Rightarrow> False)"

definition of_is_writing :: "open_file \<Rightarrow> bool" where
  "of_is_writing f = (case f of FWriting \<Rightarrow> True | _ \<Rightarrow> False)"

lemmas open_file_defs [fsm_simps] =
  of_open_read_def of_open_write_def of_read_def of_write_def of_close_def of_is_reading_def
  of_is_writing_def

section \<open>Tables\<close>

definition MAX_OPEN :: nat where "MAX_OPEN = 32"
definition MAX_PROCS :: nat where "MAX_PROCS = 8"

datatype slot =
    ConsoleIn
  | ConsoleOut
  | File (s_inode: u32) (s_offset: nat) (s_writable: bool) (s_file: open_file)
  | PipeEnd (s_id: nat) (s_write_end: bool)

type_synonym fd_table = "slot option list"

record vfs =
  tables :: "fd_table list"
  pipes :: pipe_pool
  vfs_fs :: fs
  console :: bytes

text \<open>\<open>table().get(fd)\<close>, and the assignment of one entry.\<close>

definition get_fd :: "fd_table \<Rightarrow> nat \<Rightarrow> slot option" where
  "get_fd t fd = (if fd < length t then t ! fd else None)"

definition put_fd :: "nat \<Rightarrow> nat \<Rightarrow> slot option \<Rightarrow> vfs \<Rightarrow> vfs" where
  "put_fd cur fd x v = v\<lparr>tables := (tables v)[cur := (tables v ! cur)[fd := x]]\<rparr>"

text \<open>The search for a free entry in \<open>open_read\<close>, \<open>open_write\<close> and \<open>dup\<close>.\<close>

fun free_fd :: "nat \<Rightarrow> fd_table \<Rightarrow> nat option" where
  "free_fd k [] = None"
| "free_fd k (s # ss) = (if s = None then Some k else free_fd (Suc k) ss)"

definition inc_end :: "nat \<Rightarrow> bool \<Rightarrow> pipe_pool \<Rightarrow> pipe_pool option" where
  "inc_end i w pool = (if w then inc_writer i pool else inc_reader i pool)"

definition dec_end :: "nat \<Rightarrow> bool \<Rightarrow> pipe_pool \<Rightarrow> pipe_pool option" where
  "dec_end i w pool = (if w then dec_writer i pool else dec_reader i pool)"

definition clone_slot :: "slot \<Rightarrow> pipe_pool \<Rightarrow> (slot \<times> pipe_pool) option" where
  "clone_slot s pool =
     (case s of
        ConsoleIn \<Rightarrow> Some (ConsoleIn, pool)
      | ConsoleOut \<Rightarrow> Some (ConsoleOut, pool)
      | File ino off w _ \<Rightarrow>
          Some (File ino off w (if w then of_open_write FOpen else of_open_read FOpen), pool)
      | PipeEnd i w \<Rightarrow> do { pool \<leftarrow> inc_end i w pool; Some (PipeEnd i w, pool) })"

section \<open>Opening\<close>

definition open_read :: "nat \<Rightarrow> bytes \<Rightarrow> vfs \<Rightarrow> (nat option \<times> vfs) option" where
  "open_read cur path v =
     do { (r, s) \<leftarrow> namei path (vfs_fs v);
          let v = v\<lparr>vfs_fs := s\<rparr> in
          case r of
            None \<Rightarrow> Some (None, v)
          | Some ino \<Rightarrow>
              do { (isf, s) \<leftarrow> is_file ino (vfs_fs v);
                   let v = v\<lparr>vfs_fs := s\<rparr> in
                   if \<not> isf then Some (None, v)
                   else do { t \<leftarrow> index (tables v) cur;
                             case free_fd 0 t of
                               None \<Rightarrow> Some (None, v)
                             | Some fd \<Rightarrow>
                                 Some (Some fd, put_fd cur fd (Some (File ino 0 False (of_open_read FOpen))) v) } } }"

definition open_write_ino :: "bytes \<Rightarrow> bool \<Rightarrow> fs \<Rightarrow> (u32 option \<times> fs) option" where
  "open_write_ino path app s =
     do { (r, s) \<leftarrow> namei path s;
          case r of
            Some i \<Rightarrow>
              do { (isf, s) \<leftarrow> is_file i s;
                   if \<not> isf then Some (None, s)
                   else if \<not> app then do { s \<leftarrow> FsFile.truncate i s; Some (Some i, s) }
                   else Some (Some i, s) }
          | None \<Rightarrow>
              (if \<not> is_absolute path then Some (None, s)
               else (let name = drop 1 path
                     in if name = [] \<or> SLASH \<in> set name then Some (None, s)
                        else create name s)) }"

definition open_write :: "nat \<Rightarrow> bytes \<Rightarrow> bool \<Rightarrow> vfs \<Rightarrow> (nat option \<times> vfs) option" where
  "open_write cur path app v =
     do { (r, s) \<leftarrow> open_write_ino path app (vfs_fs v);
          let v = v\<lparr>vfs_fs := s\<rparr> in
          case r of
            None \<Rightarrow> Some (None, v)
          | Some ino \<Rightarrow>
              do { (offset, s) \<leftarrow> (if app then size_of ino (vfs_fs v) else Some (0, vfs_fs v));
                   let v = v\<lparr>vfs_fs := s\<rparr> in
                   do { t \<leftarrow> index (tables v) cur;
                        case free_fd 0 t of
                          None \<Rightarrow> Some (None, v)
                        | Some fd \<Rightarrow>
                            Some (Some fd, put_fd cur fd (Some (File ino offset True (of_open_write FOpen))) v) } } }"

section \<open>Reading, writing and seeking\<close>

definition vfs_write :: "nat \<Rightarrow> nat \<Rightarrow> bytes \<Rightarrow> vfs \<Rightarrow> (nat \<times> vfs) option" where
  "vfs_write cur fd data v =
     do { t \<leftarrow> index (tables v) cur;
          case get_fd t fd of
            Some ConsoleOut \<Rightarrow> Some (length data, v\<lparr>console := console v @ data\<rparr>)
          | Some (File ino off w f) \<Rightarrow>
              (let f = of_write f;
                   v = put_fd cur fd (Some (File ino off w f)) v
               in if \<not> of_is_writing f then Some (0, v)
                  else do { (n, s) \<leftarrow> write_at ino off data (vfs_fs v);
                            Some (n, put_fd cur fd (Some (File ino (off + n) w f)) (v\<lparr>vfs_fs := s\<rparr>)) })
          | Some (PipeEnd i True) \<Rightarrow>
              do { (n, pool) \<leftarrow> pipe_write i data (pipes v); Some (n, v\<lparr>pipes := pool\<rparr>) }
          | _ \<Rightarrow> Some (0, v) }"

definition vfs_read :: "nat \<Rightarrow> nat \<Rightarrow> bytes \<Rightarrow> vfs \<Rightarrow> (nat \<times> bytes \<times> vfs) option" where
  "vfs_read cur fd data v =
     do { t \<leftarrow> index (tables v) cur;
          case get_fd t fd of
            Some (File ino off w f) \<Rightarrow>
              (let f = of_read f;
                   v = put_fd cur fd (Some (File ino off w f)) v
               in if \<not> of_is_reading f then Some (0, data, v)
                  else do { (n, data, s) \<leftarrow> read_at ino off data (vfs_fs v);
                            Some (n, data, put_fd cur fd (Some (File ino (off + n) w f)) (v\<lparr>vfs_fs := s\<rparr>)) })
          | Some (PipeEnd i False) \<Rightarrow>
              do { (n, data, pool) \<leftarrow> pipe_read i data (pipes v); Some (n, data, v\<lparr>pipes := pool\<rparr>) }
          | _ \<Rightarrow> Some (0, data, v) }"

text \<open>\<open>as i64\<close> reinterprets the 64 bits; \<open>checked_add\<close> fails outside the \<open>i64\<close> range.\<close>

definition as_i64 :: "nat \<Rightarrow> int" where
  "as_i64 n = sint (of_nat n :: 64 word)"

definition checked_add_i64 :: "int \<Rightarrow> int \<Rightarrow> int option" where
  "checked_add_i64 a b = (let c = a + b in if - (2 ^ 63) \<le> c \<and> c < 2 ^ 63 then Some c else None)"

definition seek :: "nat \<Rightarrow> nat \<Rightarrow> int \<Rightarrow> u32 \<Rightarrow> vfs \<Rightarrow> (nat option \<times> vfs) option" where
  "seek cur fd offset whence v =
     do { t \<leftarrow> index (tables v) cur;
          case get_fd t fd of
            Some (File ino off w f) \<Rightarrow>
              do { (base, s) \<leftarrow> (if whence = 0 then Some (Some 0, vfs_fs v)
                                 else if whence = 1 then Some (Some (as_i64 off), vfs_fs v)
                                 else if whence = 2
                                 then do { (n, s) \<leftarrow> size_of ino (vfs_fs v); Some (Some (as_i64 n), s) }
                                 else Some (None, vfs_fs v));
                   let v = v\<lparr>vfs_fs := s\<rparr> in
                   case base of
                     None \<Rightarrow> Some (None, v)
                   | Some base \<Rightarrow>
                       (case checked_add_i64 base offset of
                          None \<Rightarrow> Some (None, v)
                        | Some new \<Rightarrow>
                            if new < 0 then Some (None, v)
                            else Some (Some (nat new), put_fd cur fd (Some (File ino (nat new) w f)) v)) }
          | _ \<Rightarrow> Some (None, v) }"

definition fstat_size :: "nat \<Rightarrow> nat \<Rightarrow> vfs \<Rightarrow> (nat option \<times> vfs) option" where
  "fstat_size cur fd v =
     do { t \<leftarrow> index (tables v) cur;
          case get_fd t fd of
            Some (File ino off w f) \<Rightarrow>
              do { (n, s) \<leftarrow> size_of ino (vfs_fs v); Some (Some n, v\<lparr>vfs_fs := s\<rparr>) }
          | _ \<Rightarrow> Some (None, v) }"

section \<open>Duplicating and closing\<close>

definition vfs_dup :: "nat \<Rightarrow> nat \<Rightarrow> vfs \<Rightarrow> (nat option \<times> vfs) option" where
  "vfs_dup cur fd v =
     do { t \<leftarrow> index (tables v) cur;
          case get_fd t fd of
            None \<Rightarrow> Some (None, v)
          | Some s \<Rightarrow>
              do { (c, pool) \<leftarrow> clone_slot s (pipes v);
                   let v = v\<lparr>pipes := pool\<rparr> in
                   case free_fd 0 t of
                     None \<Rightarrow> Some (None, v)
                   | Some nfd \<Rightarrow> Some (Some nfd, put_fd cur nfd (Some c) v) } }"

definition vfs_close :: "nat \<Rightarrow> nat \<Rightarrow> vfs \<Rightarrow> vfs option" where
  "vfs_close cur fd v =
     do { t \<leftarrow> index (tables v) cur;
          v \<leftarrow> (case get_fd t fd of
                  Some (File ino off w f) \<Rightarrow> Some (put_fd cur fd (Some (File ino off w (of_close f))) v)
                | Some (PipeEnd i w) \<Rightarrow> do { pool \<leftarrow> dec_end i w (pipes v); Some (v\<lparr>pipes := pool\<rparr>) }
                | _ \<Rightarrow> Some v);
          Some (if fd < length t then put_fd cur fd None v else v) }"

definition vfs_dup2 :: "nat \<Rightarrow> nat \<Rightarrow> nat \<Rightarrow> vfs \<Rightarrow> (nat option \<times> vfs) option" where
  "vfs_dup2 cur oldfd newfd v =
     (if newfd \<ge> MAX_OPEN then Some (None, v)
      else do { t \<leftarrow> index (tables v) cur;
                if oldfd = newfd then Some (map_option (\<lambda>_. newfd) (get_fd t oldfd), v)
                else (case get_fd t oldfd of
                        None \<Rightarrow> Some (None, v)
                      | Some s \<Rightarrow>
                          do { (c, pool) \<leftarrow> clone_slot s (pipes v);
                               v \<leftarrow> vfs_close cur newfd (v\<lparr>pipes := pool\<rparr>);
                               Some (Some newfd, put_fd cur newfd (Some c) v) }) })"

definition vfs_is_open :: "nat \<Rightarrow> nat \<Rightarrow> vfs \<Rightarrow> bool option" where
  "vfs_is_open cur fd v = do { t \<leftarrow> index (tables v) cur; Some (get_fd t fd \<noteq> None) }"

section \<open>Pipes\<close>

text \<open>The loop of \<open>make_pipe\<close> that installs the two ends; \<open>ends\<close> are the descriptors so far.\<close>

fun install_ends :: "nat \<Rightarrow> nat \<Rightarrow> nat list \<Rightarrow> fd_table \<Rightarrow> nat list \<times> fd_table" where
  "install_ends i fd ends [] = (ends, [])"
| "install_ends i fd ends (s # ss) =
     (if s = None
      then (let s' = Some (PipeEnd i (length ends = 1)); ends = ends @ [fd]
            in if length ends = 2 then (ends, s' # ss)
               else (let (ends, ss) = install_ends i (Suc fd) ends ss in (ends, s' # ss)))
      else (let (ends, ss) = install_ends i (Suc fd) ends ss in (ends, s # ss)))"

definition make_pipe :: "nat \<Rightarrow> vfs \<Rightarrow> ((nat \<times> nat) option \<times> vfs) option" where
  "make_pipe cur v =
     (case pipe_alloc (pipes v) of
        (None, pool) \<Rightarrow> Some (None, v\<lparr>pipes := pool\<rparr>)
      | (Some i, pool) \<Rightarrow>
          do { t \<leftarrow> index (tables v) cur;
               let (ends, t) = install_ends i 0 [] t in
               case ends of
                 [r, w] \<Rightarrow> Some (Some (r, w), v\<lparr>pipes := pool, tables := (tables v)[cur := t]\<rparr>)
               | _ \<Rightarrow>
                   (let t = (case ends of [] \<Rightarrow> t | r # _ \<Rightarrow> t[r := None])
                    in do { pool \<leftarrow> dec_reader i pool;
                            pool \<leftarrow> dec_writer i pool;
                            Some (None, v\<lparr>pipes := pool, tables := (tables v)[cur := t]\<rparr>) }) })"

definition is_pipe_read :: "nat \<Rightarrow> nat \<Rightarrow> vfs \<Rightarrow> bool option" where
  "is_pipe_read cur fd v =
     do { t \<leftarrow> index (tables v) cur;
          Some (case get_fd t fd of Some (PipeEnd _ False) \<Rightarrow> True | _ \<Rightarrow> False) }"

definition pipe_writers_open :: "nat \<Rightarrow> nat \<Rightarrow> vfs \<Rightarrow> bool option" where
  "pipe_writers_open cur fd v =
     do { t \<leftarrow> index (tables v) cur;
          case get_fd t fd of
            Some (PipeEnd i False) \<Rightarrow> has_writers i (pipes v)
          | _ \<Rightarrow> Some False }"

section \<open>Process life cycle\<close>

fun clear_table :: "fd_table \<Rightarrow> pipe_pool \<Rightarrow> (fd_table \<times> pipe_pool) option" where
  "clear_table [] pool = Some ([], pool)"
| "clear_table (s # ss) pool =
     do { pool \<leftarrow> (case s of Some (PipeEnd i w) \<Rightarrow> dec_end i w pool | _ \<Rightarrow> Some pool);
          (ss, pool) \<leftarrow> clear_table ss pool;
          Some (None # ss, pool) }"

definition clear_fds :: "nat \<Rightarrow> vfs \<Rightarrow> vfs option" where
  "clear_fds p v =
     do { t \<leftarrow> index (tables v) p;
          (t, pool) \<leftarrow> clear_table t (pipes v);
          Some (v\<lparr>tables := (tables v)[p := t], pipes := pool\<rparr>) }"

definition init_console_fds :: "nat \<Rightarrow> vfs \<Rightarrow> vfs option" where
  "init_console_fds p v =
     do { v \<leftarrow> clear_fds p v;
          Some (put_fd p 2 (Some ConsoleOut) (put_fd p 1 (Some ConsoleOut) (put_fd p 0 (Some ConsoleIn) v))) }"

fun clone_loop :: "nat list \<Rightarrow> nat \<Rightarrow> nat \<Rightarrow> vfs \<Rightarrow> vfs option" where
  "clone_loop [] dst src v = Some v"
| "clone_loop (fd # fds) dst src v =
     do { t \<leftarrow> index (tables v) src;
          s \<leftarrow> index t fd;
          (c, pool) \<leftarrow> (case s of
                          None \<Rightarrow> Some (None, pipes v)
                        | Some s \<Rightarrow> do { (c, pool) \<leftarrow> clone_slot s (pipes v); Some (Some c, pool) });
          clone_loop fds dst src (put_fd dst fd c (v\<lparr>pipes := pool\<rparr>)) }"

definition clone_fds :: "nat \<Rightarrow> nat \<Rightarrow> vfs \<Rightarrow> vfs option" where
  "clone_fds dst src v =
     do { v \<leftarrow> clear_fds dst v; clone_loop [0..<MAX_OPEN] dst src v }"

definition VFS_init :: "fs \<Rightarrow> vfs" where
  "VFS_init s = \<lparr>tables = replicate MAX_PROCS (replicate MAX_OPEN None), pipes = POOL_init,
                 vfs_fs = s, console = []\<rparr>"

end
