(* ===== verification/VfsInv.thy ===== *)
theory VfsInv
  imports Vfs
begin

text \<open>
  The invariant of the descriptor layer: the reference counts of every pipe are the numbers
  of descriptors on its ends in all tables, plus the references that \<open>dup\<close> leaked on a full table.
  So a pipe that was never leaked is in use exactly while a descriptor refers to it, and a reader's
  end-of-file test is right. Every operation keeps it.
\<close>

section \<open>Counting descriptors\<close>

definition delta :: "slot option \<Rightarrow> nat \<Rightarrow> bool \<Rightarrow> int" where
  "delta s i w = of_bool (s = Some (PipeEnd i w))"

definition tcnt :: "fd_table \<Rightarrow> nat \<Rightarrow> bool \<Rightarrow> int" where
  "tcnt t i w = (\<Sum>s\<leftarrow>t. delta s i w)"

definition cnt :: "fd_table list \<Rightarrow> nat \<Rightarrow> bool \<Rightarrow> int" where
  "cnt ts i w = (\<Sum>t\<leftarrow>ts. tcnt t i w)"

lemma delta_simps [simp]:
  "delta None i w = 0" "delta (Some ConsoleIn) i w = 0" "delta (Some ConsoleOut) i w = 0"
  "delta (Some (File a b c d)) i w = 0"
  "delta (Some (PipeEnd j x)) i w = of_bool (j = i \<and> x = w)"
  by (simp_all add: delta_def)

lemma delta_nonneg [simp]: "0 \<le> delta s i w"
  by (simp add: delta_def)

lemma tcnt_simps [simp]:
  "tcnt [] i w = 0" "tcnt (s # ss) i w = delta s i w + tcnt ss i w"
  by (simp_all add: tcnt_def)

lemma tcnt_nonneg [simp]: "0 \<le> tcnt t i w"
  by (induction t) simp_all

lemma cnt_simps [simp]: "cnt [] i w = 0" "cnt (t # ts) i w = tcnt t i w + cnt ts i w"
  by (simp_all add: cnt_def)

lemma cnt_nonneg [simp]: "0 \<le> cnt ts i w"
  by (induction ts) simp_all

lemma tcnt_update:
  "k < length t \<Longrightarrow> tcnt (t[k := x]) i w = tcnt t i w - delta (t ! k) i w + delta x i w"
  by (induction t arbitrary: k) (auto split: nat.split)

lemma cnt_update:
  "p < length ts \<Longrightarrow> cnt (ts[p := t]) i w = cnt ts i w - tcnt (ts ! p) i w + tcnt t i w"
  by (induction ts arbitrary: p) (auto split: nat.split)

lemma delta_le_tcnt: "k < length t \<Longrightarrow> delta (t ! k) i w \<le> tcnt t i w"
  by (induction t arbitrary: k) (auto simp: nth_Cons add_increasing add_increasing2 split: nat.split)

lemma tcnt_le_cnt: "p < length ts \<Longrightarrow> tcnt (ts ! p) i w \<le> cnt ts i w"
  by (induction ts arbitrary: p) (auto simp: nth_Cons add_increasing add_increasing2 split: nat.split)

lemma tcnt_replicate_None [simp]: "tcnt (replicate n None) i w = 0"
  by (induction n) simp_all

lemma tcnt_le_length: "tcnt t i w \<le> int (length t)"
  by (induction t) (auto simp: delta_def)

section \<open>The pool against expected counts\<close>

definition pipe_counted :: "pipe_buf \<Rightarrow> int \<Rightarrow> int \<Rightarrow> bool" where
  "pipe_counted p r w \<longleftrightarrow>
     (case fsm p of
        None \<Rightarrow> r = 0 \<and> w = 0
      | Some f \<Rightarrow> readers f = r \<and> writers f = w \<and> 0 \<le> r \<and> 0 \<le> w \<and> 0 < r + w)"

definition pool_inv :: "pipe_pool \<Rightarrow> (nat \<Rightarrow> bool \<Rightarrow> int) \<Rightarrow> bool" where
  [inv_defs]: "pool_inv pool c \<longleftrightarrow>
     pool_ok pool \<and> (\<forall>i < MAX_PIPES. pipe_counted (pool ! i) (c i False) (c i True))"

lemma pool_inv_cong: "pool_inv pool c \<Longrightarrow> (\<And>i w. c i w = c' i w) \<Longrightarrow> pool_inv pool c'"
  by (simp add: pool_inv_def)

lemma pool_inv_update:
  assumes "pool_inv pool c" and "i < MAX_PIPES" and "pipe_ok p"
    and "pipe_counted p (c' i False) (c' i True)"
    and "\<And>j w. j \<noteq> i \<Longrightarrow> c' j w = c j w"
  shows "pool_inv (pool[i := p]) c'"
  using assms pool_ok_update [of pool p i]
  by (auto simp: pool_inv_def nth_list_update pool_ok_def)

lemma pool_inv_length [simp]: "pool_inv pool c \<Longrightarrow> length pool = MAX_PIPES"
  by (simp add: pool_inv_def pool_ok_def)

lemma index_pool: "pool_inv pool c \<Longrightarrow> i < MAX_PIPES \<Longrightarrow> index pool i = Some (pool ! i)"
  by (simp add: index_def)

lemma pipe_ok_fsm: "pipe_ok p \<Longrightarrow> (\<And>f'. f = Some f' \<Longrightarrow> pipe_fsm_ok f') \<Longrightarrow> pipe_ok (p\<lparr>fsm := f\<rparr>)"
  by (simp add: pipe_ok_def)

lemma counted_live:
  assumes "pool_inv pool c" and "i < MAX_PIPES" and "0 < c i w"
  obtains f where "fsm (pool ! i) = Some f" "pipe_fsm_ok f" "readers f = c i False" "writers f = c i True"
    "0 \<le> c i False" "0 \<le> c i True"
  using assms pool_ok_nth [of pool i]
  by (cases w; cases "fsm (pool ! i)") (auto simp: pool_inv_def pipe_counted_def pipe_ok_def)

lemma inc_end_inv:
  assumes inv: "pool_inv pool c" and i: "i < MAX_PIPES" and pos: "0 < c i w"
  shows "\<exists>pool'. inc_end i w pool = Some pool' \<and>
           pool_inv pool' (\<lambda>j x. c j x + delta (Some (PipeEnd i w)) j x)"
proof -
  obtain f where f: "fsm (pool ! i) = Some f" "pipe_fsm_ok f" "readers f = c i False"
      "writers f = c i True" "0 \<le> c i False" "0 \<le> c i True"
    using counted_live [where w = w, OF inv i pos] by blast
  let ?g = "if w then writer_opened f else reader_opened f"
  let ?p = "(pool ! i)\<lparr>fsm := Some ?g\<rparr>"
  have "inc_end i w pool = Some (pool[i := ?p])"
    using index_pool [OF inv i] f by (simp add: inc_end_def inc_writer_def inc_reader_def)
  moreover have "pool_inv (pool[i := ?p]) (\<lambda>j x. c j x + delta (Some (PipeEnd i w)) j x)"
  proof (rule pool_inv_update [OF inv i])
    show "pipe_ok ?p" using inv i pipe_fsm_ok_step [OF f(2)]
      by (intro pipe_ok_fsm) (auto simp: pool_inv_def pool_ok_nth)
    show "pipe_counted ?p (c i False + delta (Some (PipeEnd i w)) i False)
            (c i True + delta (Some (PipeEnd i w)) i True)"
      using f pos by (cases w) (simp_all add: pipe_counted_def)
  qed simp
  ultimately show ?thesis by blast
qed

lemma free_if_idle_inv:
  assumes inv: "pool_ok pool" and i: "i < MAX_PIPES" and f: "fsm (pool ! i) = Some f"
    and r: "0 \<le> readers f" "0 \<le> writers f"
    and others: "\<And>j. j < MAX_PIPES \<Longrightarrow> j \<noteq> i \<Longrightarrow> pipe_counted (pool ! j) (c j False) (c j True)"
    and own: "c i False = readers f" "c i True = writers f"
  shows "\<exists>pool'. free_if_idle i pool = Some pool' \<and> pool_inv pool' c"
proof -
  have len: "length pool = MAX_PIPES" using inv by (simp add: pool_ok_def)
  show ?thesis
  proof (cases "is_free f")
    case True
    let ?p = "(pool ! i)\<lparr>fsm := None, len := 0, head := 0, tail := 0\<rparr>"
    have "free_if_idle i pool = Some (pool[i := ?p])"
      using True f len i by (simp add: free_if_idle_def index_def)
    moreover have "pipe_counted (pool[i := ?p] ! j) (c j False) (c j True)" if "j < MAX_PIPES" for j
      using others [OF that] own True r len that
      by (cases "j = i") (auto simp: pipe_counted_def is_free_def)
    then have "pool_inv (pool[i := ?p]) c"
      using pool_ok_update [OF inv pipe_ok_release [OF pool_ok_nth [OF inv i]], of i]
      by (simp add: pool_inv_def)
    ultimately show ?thesis by blast
  next
    case False
    then have "free_if_idle i pool = Some pool"
      using f len i by (simp add: free_if_idle_def index_def)
    moreover have "pipe_counted (pool ! i) (c i False) (c i True)"
      using False f own r by (auto simp: pipe_counted_def is_free_def)
    with others have "pool_inv pool c" using inv by (auto simp: pool_inv_def)
    ultimately show ?thesis by blast
  qed
qed

lemma dec_end_inv:
  assumes inv: "pool_inv pool c" and i: "i < MAX_PIPES" and pos: "0 < c i w"
  shows "\<exists>pool'. dec_end i w pool = Some pool' \<and>
           pool_inv pool' (\<lambda>j x. c j x - delta (Some (PipeEnd i w)) j x)"
proof -
  obtain f where f: "fsm (pool ! i) = Some f" "pipe_fsm_ok f" "readers f = c i False"
      "writers f = c i True" "0 \<le> c i False" "0 \<le> c i True"
    using counted_live [where w = w, OF inv i pos] by blast
  let ?g = "if w then writer_closed f else reader_closed f"
  let ?pool = "pool[i := (pool ! i)\<lparr>fsm := Some ?g\<rparr>]"
  have g: "readers ?g = c i False - of_bool (\<not> w)" "writers ?g = c i True - of_bool w"
    using f pos writers_writer_closed [OF f(2)] by (cases w; simp)+
  have e: "dec_end i w pool = free_if_idle i ?pool"
    using index_pool [OF inv i] f by (simp add: dec_end_def dec_writer_def dec_reader_def)
  have ok: "pool_ok ?pool"
    using inv i pipe_fsm_ok_step [OF f(2)]
    by (intro pool_ok_update) (auto simp: pool_inv_def pool_ok_nth intro!: pipe_ok_fsm)
  have "\<exists>pool'. free_if_idle i ?pool = Some pool' \<and>
           pool_inv pool' (\<lambda>j x. c j x - delta (Some (PipeEnd i w)) j x)"
  proof (rule free_if_idle_inv [OF ok i])
    show "fsm (?pool ! i) = Some ?g" using inv i by simp
    show "0 \<le> readers ?g" "0 \<le> writers ?g" using g f pos by (cases w; simp)+
    show "pipe_counted (?pool ! j) (c j False - delta (Some (PipeEnd i w)) j False)
            (c j True - delta (Some (PipeEnd i w)) j True)" if "j < MAX_PIPES" "j \<noteq> i" for j
      using that inv by (simp add: pool_inv_def)
    show "c i False - delta (Some (PipeEnd i w)) i False = readers ?g"
      "c i True - delta (Some (PipeEnd i w)) i True = writers ?g"
      using g by (cases w; simp)+
  qed
  with e show ?thesis by simp
qed

section \<open>The invariant\<close>

definition slot_ok :: "slot \<Rightarrow> bool" where
  "slot_ok s = (case s of
     File ino off w f \<Rightarrow> f = (if w then FWriting else FReading)
   | PipeEnd i w \<Rightarrow> i < MAX_PIPES
   | _ \<Rightarrow> True)"

definition table_ok :: "fd_table \<Rightarrow> bool" where
  "table_ok t \<longleftrightarrow> length t = MAX_OPEN \<and> (\<forall>s. Some s \<in> set t \<longrightarrow> slot_ok s)"

definition tables_ok :: "fd_table list \<Rightarrow> bool" where
  "tables_ok ts \<longleftrightarrow> length ts = MAX_PROCS \<and> (\<forall>t \<in> set ts. table_ok t)"

text \<open>
  A pipe counts the descriptors that refer to its ends and the references \<open>L\<close> that \<open>dup\<close> took on a
  full table and never gave back. \<open>vfs_inv L\<close> is the invariant for a given \<open>L\<close>, and \<open>vfs_ok\<close> leaves it open.
\<close>

type_synonym leaks = "nat \<Rightarrow> bool \<Rightarrow> int"

definition no_leaks :: leaks where "no_leaks i w = 0"

definition refs :: "leaks \<Rightarrow> fd_table list \<Rightarrow> nat \<Rightarrow> bool \<Rightarrow> int" where
  "refs L ts i w = cnt ts i w + L i w"

definition leaks_ok :: "leaks \<Rightarrow> bool" where
  "leaks_ok L \<longleftrightarrow> (\<forall>i w. 0 \<le> L i w)"

definition vfs_inv :: "leaks \<Rightarrow> vfs \<Rightarrow> bool" where
  [inv_defs]: "vfs_inv L v \<longleftrightarrow> tables_ok (tables v) \<and> leaks_ok L \<and> pool_inv (pipes v) (refs L (tables v))"

definition vfs_ok :: "vfs \<Rightarrow> bool" where
  "vfs_ok v \<longleftrightarrow> (\<exists>L. vfs_inv L v)"

lemma slot_ok_simps [simp]:
  "slot_ok ConsoleIn" "slot_ok ConsoleOut"
  "slot_ok (File ino off w f) \<longleftrightarrow> f = (if w then FWriting else FReading)"
  "slot_ok (PipeEnd i w) \<longleftrightarrow> i < MAX_PIPES"
  by (simp_all add: slot_ok_def)

lemma tables_ok_nth: "tables_ok ts \<Longrightarrow> p < MAX_PROCS \<Longrightarrow> table_ok (ts ! p)"
  by (simp add: tables_ok_def)

lemma table_ok_nth: "table_ok t \<Longrightarrow> fd < MAX_OPEN \<Longrightarrow> t ! fd = Some s \<Longrightarrow> slot_ok s"
  by (metis nth_mem table_ok_def)

lemma table_ok_get: "table_ok t \<Longrightarrow> get_fd t fd = Some s \<Longrightarrow> fd < MAX_OPEN \<and> t ! fd = Some s \<and> slot_ok s"
  by (metis get_fd_def option.distinct(1) table_ok_def table_ok_nth)

lemma table_ok_update: "table_ok t \<Longrightarrow> (\<And>s. x = Some s \<Longrightarrow> slot_ok s) \<Longrightarrow> table_ok (t[k := x])"
  by (auto simp: table_ok_def dest!: set_update_subset_insert [THEN subsetD])

lemma tables_ok_update: "tables_ok ts \<Longrightarrow> table_ok t \<Longrightarrow> tables_ok (ts[p := t])"
  by (auto simp: tables_ok_def dest!: set_update_subset_insert [THEN subsetD])

lemma index_tables: "tables_ok ts \<Longrightarrow> p < MAX_PROCS \<Longrightarrow> index ts p = Some (ts ! p)"
  by (simp add: index_def tables_ok_def)

lemma put_fd_tables [simp]:
  "tables (put_fd cur fd x v) = (tables v)[cur := (tables v ! cur)[fd := x]]"
  "pipes (put_fd cur fd x v) = pipes v" "vfs_fs (put_fd cur fd x v) = vfs_fs v"
  by (simp_all add: put_fd_def)

lemma put_fd_ok:
  assumes "tables_ok (tables v)" and "cur < MAX_PROCS" and "\<And>s. x = Some s \<Longrightarrow> slot_ok s"
  shows "tables_ok (tables (put_fd cur fd x v))"
  using assms by (simp add: tables_ok_update table_ok_update tables_ok_nth)

lemma cnt_put_fd:
  assumes "tables_ok (tables v)" and "cur < MAX_PROCS" and "fd < MAX_OPEN"
  shows "refs L (tables (put_fd cur fd x v)) i w
       = refs L (tables v) i w - delta (tables v ! cur ! fd) i w + delta x i w"
  using assms tables_ok_nth [OF assms(1,2)]
  by (simp add: refs_def cnt_update tcnt_update tables_ok_def table_ok_def)

lemma cnt_le_refs: "leaks_ok L \<Longrightarrow> cnt ts i w \<le> refs L ts i w"
  by (simp add: leaks_ok_def refs_def)

lemma tcnt_le_refs: "leaks_ok L \<Longrightarrow> p < length ts \<Longrightarrow> tcnt (ts ! p) i w \<le> refs L ts i w"
  using tcnt_le_cnt cnt_le_refs order_trans by blast

lemma refs_no_leaks [simp]: "refs no_leaks ts = cnt ts" and leaks_ok_no_leaks [simp]: "leaks_ok no_leaks"
  by (simp_all add: refs_def no_leaks_def leaks_ok_def fun_eq_iff)

lemma cnt_entry:
  assumes "leaks_ok L" and "tables_ok (tables v)" and "cur < MAX_PROCS" and "fd < MAX_OPEN"
    and "tables v ! cur ! fd = Some (PipeEnd i w)"
  shows "0 < refs L (tables v) i w"
proof -
  have "delta (tables v ! cur ! fd) i w \<le> tcnt (tables v ! cur) i w"
    using tables_ok_nth [OF assms(2,3)] assms(4) by (intro delta_le_tcnt) (simp add: table_ok_def)
  also have "\<dots> \<le> refs L (tables v) i w"
    using assms(1-3) by (intro tcnt_le_refs) (simp_all add: tables_ok_def)
  finally show ?thesis using assms(5) by simp
qed

lemma vfs_inv_init: "vfs_inv no_leaks (VFS_init s)"
proof -
  have "cnt (replicate n (replicate m None)) i w = 0" for n m i w
    by (induction n) simp_all
  then have "pool_inv POOL_init (cnt (replicate MAX_PROCS (replicate MAX_OPEN None)))"
    using pool_ok_init by (simp add: pool_inv_def pipe_counted_def POOL_init_def PipeBuf_empty_def)
  then show ?thesis
    by (simp add: vfs_inv_def VFS_init_def tables_ok_def table_ok_def)
qed

text \<open>A descriptor entry is dropped, and an entry is cloned, against expected counts \<open>c\<close>.\<close>

lemma drop_slot_inv:
  assumes "pool_inv pool c" and "\<And>s'. s = Some s' \<Longrightarrow> slot_ok s'"
    and "\<And>i w. s = Some (PipeEnd i w) \<Longrightarrow> 0 < c i w"
  shows "\<exists>pool'. (case s of Some (PipeEnd i w) \<Rightarrow> dec_end i w pool | _ \<Rightarrow> Some pool) = Some pool'
           \<and> pool_inv pool' (\<lambda>j x. c j x - delta s j x)"
proof (cases s)
  case (Some s')
  then show ?thesis using assms dec_end_inv [OF assms(1)] by (cases s') auto
qed (use assms in simp)

lemma clone_slot_inv:
  assumes "pool_inv pool c" and "slot_ok s" and "\<And>i w. s = PipeEnd i w \<Longrightarrow> 0 < c i w"
  shows "\<exists>pool'. clone_slot s pool = Some (s, pool')
           \<and> pool_inv pool' (\<lambda>j x. c j x + delta (Some s) j x)"
proof (cases s)
  case (PipeEnd i w)
  then show ?thesis using assms inc_end_inv [OF assms(1), of i w] by (auto simp: clone_slot_def)
qed (use assms in \<open>auto simp: clone_slot_def fsm_simps\<close>)

lemma clear_table_inv:
  assumes "pool_inv pool c" and "\<And>s. Some s \<in> set t \<Longrightarrow> slot_ok s" and "\<And>i w. tcnt t i w \<le> c i w"
  shows "\<exists>pool'. clear_table t pool = Some (replicate (length t) None, pool')
           \<and> pool_inv pool' (\<lambda>j x. c j x - tcnt t j x)"
  using assms
proof (induction t arbitrary: pool c)
  case Nil
  then show ?case by simp
next
  case (Cons s t)
  have pos: "0 < c i w" if "s = Some (PipeEnd i w)" for i w
  proof -
    have "1 + tcnt t i w \<le> c i w" using Cons.prems(3) [of i w] that by simp
    then show ?thesis using tcnt_nonneg [of t i w] by linarith
  qed
  obtain pool1 where p1: "(case s of Some (PipeEnd i w) \<Rightarrow> dec_end i w pool | _ \<Rightarrow> Some pool) = Some pool1"
      "pool_inv pool1 (\<lambda>j x. c j x - delta s j x)"
    using drop_slot_inv [OF Cons.prems(1), of s] Cons.prems(2) pos by auto
  obtain pool2 where p2: "clear_table t pool1 = Some (replicate (length t) None, pool2)"
      "pool_inv pool2 (\<lambda>j x. c j x - delta s j x - tcnt t j x)"
    using Cons.IH [OF p1(2)] Cons.prems(2,3) by (auto simp: algebra_simps)
  have "pool_inv pool2 (\<lambda>j x. c j x - tcnt (s # t) j x)"
    by (rule pool_inv_cong [OF p2(2)]) simp
  with p1(1) p2(1) show ?case by simp
qed

section \<open>Every operation keeps the invariant\<close>

text \<open>\<open>close\<close> inside \<open>dup2\<close> runs while the pool already counts the clone, hence the bound \<open>c\<close>.\<close>

lemma vfs_close_inv:
  assumes t: "tables_ok (tables v)" and inv: "pool_inv (pipes v) c" and cur: "cur < MAX_PROCS"
    and le: "\<And>i w. cnt (tables v) i w \<le> c i w"
  shows "\<exists>v'. vfs_close cur fd v = Some v'
     \<and> tables v' = (if fd < MAX_OPEN then (tables v)[cur := (tables v ! cur)[fd := None]] else tables v)
     \<and> vfs_fs v' = vfs_fs v
     \<and> pool_inv (pipes v') (\<lambda>j x. c j x - delta (get_fd (tables v ! cur) fd) j x)"
proof -
  let ?t = "tables v ! cur"
  let ?s = "get_fd ?t fd"
  have tab: "table_ok ?t" using tables_ok_nth [OF t cur] .
  then have len: "length ?t = MAX_OPEN" by (simp add: table_ok_def)
  have pos: "0 < c i w" if "?s = Some (PipeEnd i w)" for i w
    using that table_ok_get [OF tab that] cnt_entry [OF leaks_ok_no_leaks t cur, of fd i w] le [of i w] by force
  obtain pool where pool: "(case ?s of Some (PipeEnd i w) \<Rightarrow> dec_end i w (pipes v) | _ \<Rightarrow> Some (pipes v)) = Some pool"
      "pool_inv pool (\<lambda>j x. c j x - delta ?s j x)"
    using drop_slot_inv [OF inv, of ?s] pos table_ok_get [OF tab] by blast
  note ix = index_tables [OF t cur]
  have cl: "cur < length (tables v)" using t cur by (simp add: tables_ok_def)
  show ?thesis
  proof (cases ?s)
    case None
    then show ?thesis using pool ix len by (auto simp: vfs_close_def)
  next
    case (Some s)
    then have "fd < MAX_OPEN" using table_ok_get [OF tab] by blast
    then show ?thesis
      using Some pool ix len cl by (cases s) (auto simp: vfs_close_def put_fd_def)
  qed
qed

lemma vfs_close_keeps:
  assumes "vfs_inv L v" and "cur < MAX_PROCS"
  shows "\<exists>v'. vfs_close cur fd v = Some v' \<and> vfs_inv L v'
     \<and> tables v' = (if fd < MAX_OPEN then (tables v)[cur := (tables v ! cur)[fd := None]] else tables v)"
proof -
  have t: "tables_ok (tables v)" and lk: "leaks_ok L" and p: "pool_inv (pipes v) (refs L (tables v))"
    using assms(1) by (simp_all add: vfs_inv_def)
  obtain v' where v': "vfs_close cur fd v = Some v'"
      "tables v' = (if fd < MAX_OPEN then (tables v)[cur := (tables v ! cur)[fd := None]] else tables v)"
      "pool_inv (pipes v') (\<lambda>j x. refs L (tables v) j x - delta (get_fd (tables v ! cur) fd) j x)"
    using vfs_close_inv [OF t p assms(2) cnt_le_refs [OF lk]] by blast
  have len: "length (tables v ! cur) = MAX_OPEN"
    using tables_ok_nth [OF t assms(2)] by (simp add: table_ok_def)
  have "refs L (tables v') i w = refs L (tables v) i w - delta (get_fd (tables v ! cur) fd) i w" for i w
    using v'(2) cnt_put_fd [OF t assms(2), of fd L None i w] len by (simp add: get_fd_def)
  then have "pool_inv (pipes v') (refs L (tables v'))"
    by (intro pool_inv_cong [OF v'(3)]) simp
  moreover have "tables_ok (tables v')"
    using v'(2) put_fd_ok [OF t assms(2), of None fd] t by simp
  ultimately show ?thesis using v' lk by (auto simp: vfs_inv_def)
qed

lemma free_fd_Some:
  "free_fd k t = Some fd \<Longrightarrow> k \<le> fd \<and> fd - k < length t \<and> t ! (fd - k) = None"
proof (induction t arbitrary: k)
  case (Cons s t)
  show ?case
  proof (cases "s = None")
    case False
    with Cons.prems Cons.IH [of "Suc k"] have "Suc k \<le> fd" "fd - Suc k < length t" "t ! (fd - Suc k) = None"
      by simp_all
    moreover from this(1) have "fd - k = Suc (fd - Suc k)" by simp
    ultimately show ?thesis by simp
  qed (use Cons.prems in simp)
qed simp

lemma free_fd_table:
  assumes "table_ok t" and "free_fd 0 t = Some fd"
  shows "fd < MAX_OPEN" and "t ! fd = None"
  using free_fd_Some [OF assms(2)] assms(1) by (simp_all add: table_ok_def)

lemma vfs_inv_fs [simp]: "vfs_inv L (v\<lparr>vfs_fs := s\<rparr>) = vfs_inv L v" "vfs_inv L (v\<lparr>console := b\<rparr>) = vfs_inv L v"
  by (simp_all add: vfs_inv_def)

text \<open>A new file descriptor, and a file descriptor whose offset changes.\<close>

lemma put_file_keeps:
  assumes "vfs_inv L v" and "cur < MAX_PROCS" and "fd < MAX_OPEN"
    and "\<And>i w. delta (tables v ! cur ! fd) i w = 0" and "slot_ok s" and "\<And>i w. s \<noteq> PipeEnd i w"
  shows "vfs_inv L (put_fd cur fd (Some s) v)"
proof -
  have t: "tables_ok (tables v)" using assms(1) by (simp add: vfs_inv_def)
  have "delta (Some s) i w = 0" for i w using assms(6) by (simp add: delta_def)
  then have "refs L (tables (put_fd cur fd (Some s) v)) i w = refs L (tables v) i w" for i w
    using cnt_put_fd [OF t assms(2,3)] assms(4) by simp
  then show ?thesis
    using assms(1) put_fd_ok [OF t assms(2), of "Some s" fd] assms(5)
    by (auto simp: vfs_inv_def simp del: put_fd_tables(1) intro: pool_inv_cong)
qed

lemma vfs_dup2_keeps:
  assumes ok: "vfs_inv L v" and cur: "cur < MAX_PROCS"
  shows "\<exists>r v'. vfs_dup2 cur oldfd newfd v = Some (r, v') \<and> vfs_inv L v'
     \<and> (r = (if newfd < MAX_OPEN \<and> get_fd (tables v ! cur) oldfd \<noteq> None then Some newfd else None))
     \<and> tables v' = (if r = None then tables v
                    else (tables v)[cur := (tables v ! cur)[newfd := get_fd (tables v ! cur) oldfd]])"
proof -
  let ?t = "tables v ! cur"
  have t: "tables_ok (tables v)" and lk: "leaks_ok L" and p: "pool_inv (pipes v) (refs L (tables v))"
    using ok by (simp_all add: vfs_inv_def)
  have tab: "table_ok ?t" using tables_ok_nth [OF t cur] .
  then have len: "length ?t = MAX_OPEN" by (simp add: table_ok_def)
  note ix = index_tables [OF t cur]
  consider "\<not> newfd < MAX_OPEN" | "newfd < MAX_OPEN" "get_fd ?t oldfd = None"
    | "newfd < MAX_OPEN" "oldfd = newfd" "get_fd ?t oldfd \<noteq> None"
    | s where "newfd < MAX_OPEN" "oldfd \<noteq> newfd" "get_fd ?t oldfd = Some s"
    by fastforce
  then show ?thesis
  proof cases
    case 1
    then show ?thesis using ok by (simp add: vfs_dup2_def)
  next
    case 2
    then show ?thesis using ok ix by (auto simp: vfs_dup2_def)
  next
    case 3
    then have "(tables v)[cur := ?t[newfd := get_fd ?t oldfd]] = tables v"
      using len by (simp add: get_fd_def)
    with 3 show ?thesis using ok ix by (simp add: vfs_dup2_def)
  next
    case 4
    have s: "slot_ok s" "oldfd < MAX_OPEN" "?t ! oldfd = Some s" using table_ok_get [OF tab 4(3)] by simp_all
    obtain pool where pool: "clone_slot s (pipes v) = Some (s, pool)"
        "pool_inv pool (\<lambda>j x. refs L (tables v) j x + delta (Some s) j x)"
      using clone_slot_inv [OF p s(1)] cnt_entry [OF lk t cur s(2)] s(3) by auto
    obtain v1 where v1: "vfs_close cur newfd (v\<lparr>pipes := pool\<rparr>) = Some v1"
        "tables v1 = (tables v)[cur := ?t[newfd := None]]"
        "pool_inv (pipes v1) (\<lambda>j x. refs L (tables v) j x + delta (Some s) j x - delta (get_fd ?t newfd) j x)"
      using vfs_close_inv [of "v\<lparr>pipes := pool\<rparr>" "\<lambda>j x. refs L (tables v) j x + delta (Some s) j x" cur newfd]
        t pool(2) 4(1) cur cnt_le_refs [OF lk, of "tables v"] by (auto simp: add_increasing2)
    let ?v = "put_fd cur newfd (Some s) v1"
    have tabs: "tables ?v = tables (put_fd cur newfd (Some s) v)"
      using v1(2) cur t by (simp add: tables_ok_def)
    have "pool_inv (pipes v1) (refs L (tables ?v))"
      unfolding tabs using cnt_put_fd [OF t cur 4(1), of L "Some s"] 4(1) len
      by (intro pool_inv_cong [OF v1(3)]) (simp add: get_fd_def del: put_fd_tables(1))
    moreover have "tables_ok (tables ?v)"
      unfolding tabs using s(1) by (intro put_fd_ok [OF t cur]) simp
    ultimately have "vfs_inv L ?v" using lk by (simp add: vfs_inv_def)
    moreover have "vfs_dup2 cur oldfd newfd v = Some (Some newfd, ?v)"
      using 4 ix pool(1) v1(1) by (simp add: vfs_dup2_def)
    ultimately show ?thesis using 4 tabs by simp
  qed
qed

lemma vfs_dup_keeps:
  assumes ok: "vfs_inv L v" and cur: "cur < MAX_PROCS" and room: "free_fd 0 (tables v ! cur) = Some nfd"
  shows "\<exists>r v'. vfs_dup cur fd v = Some (r, v') \<and> vfs_inv L v'
     \<and> (case get_fd (tables v ! cur) fd of
          None \<Rightarrow> r = None \<and> v' = v
        | Some s \<Rightarrow> r = Some nfd \<and> tables v' = (tables v)[cur := (tables v ! cur)[nfd := Some s]])"
proof -
  let ?t = "tables v ! cur"
  have t: "tables_ok (tables v)" and lk: "leaks_ok L" and p: "pool_inv (pipes v) (refs L (tables v))"
    using ok by (simp_all add: vfs_inv_def)
  have tab: "table_ok ?t" using tables_ok_nth [OF t cur] .
  note ix = index_tables [OF t cur] and nfd = free_fd_table [OF tab room]
  show ?thesis
  proof (cases "get_fd ?t fd")
    case None
    then show ?thesis using ok ix by (simp add: vfs_dup_def)
  next
    case (Some s)
    have s: "slot_ok s" "fd < MAX_OPEN" "?t ! fd = Some s" using table_ok_get [OF tab Some] by simp_all
    obtain pool where pool: "clone_slot s (pipes v) = Some (s, pool)"
        "pool_inv pool (\<lambda>j x. refs L (tables v) j x + delta (Some s) j x)"
      using clone_slot_inv [OF p s(1)] cnt_entry [OF lk t cur s(2)] s(3) by auto
    let ?v = "put_fd cur nfd (Some s) (v\<lparr>pipes := pool\<rparr>)"
    have tabs: "tables ?v = tables (put_fd cur nfd (Some s) v)" by simp
    have "pool_inv pool (refs L (tables ?v))"
      unfolding tabs using cnt_put_fd [OF t cur nfd(1), of L "Some s"] nfd(2)
      by (intro pool_inv_cong [OF pool(2)]) (simp del: put_fd_tables(1))
    moreover have "tables_ok (tables ?v)"
      unfolding tabs using s(1) by (intro put_fd_ok [OF t cur]) simp
    ultimately have "vfs_inv L ?v" using lk by (simp add: vfs_inv_def)
    with Some pool(1) ix room show ?thesis by (simp add: vfs_dup_def)
  qed
qed

text \<open>\<open>make_pipe\<close>: the ends go to the two lowest free entries, or the partial install is undone.\<close>

lemma install_second:
  "install_ends i k [r] t =
     (case free_fd k t of None \<Rightarrow> ([r], t) | Some w \<Rightarrow> ([r, w], t[w - k := Some (PipeEnd i True)]))"
proof (induction t arbitrary: k)
  case (Cons s t)
  have "fd - k = Suc (fd - Suc k)" if "free_fd (Suc k) t = Some fd" for fd
    using free_fd_Some [OF that] by auto
  with Cons show ?case by (auto split: option.split)
qed simp

lemma install_ends_cases:
  obtains (two) r w where "install_ends i k [] t =
        ([r, w], t[r - k := Some (PipeEnd i False), w - k := Some (PipeEnd i True)])"
      "k \<le> r" "r < w" "w - k < length t" "t ! (r - k) = None" "t ! (w - k) = None"
  | (one) r where "install_ends i k [] t = ([r], t[r - k := Some (PipeEnd i False)])"
      "k \<le> r" "r - k < length t" "t ! (r - k) = None"
  | (none) "install_ends i k [] t = ([], t)"
proof -
  have "(\<exists>r w. install_ends i k [] t =
           ([r, w], t[r - k := Some (PipeEnd i False), w - k := Some (PipeEnd i True)])
         \<and> k \<le> r \<and> r < w \<and> w - k < length t \<and> t ! (r - k) = None \<and> t ! (w - k) = None)
      \<or> (\<exists>r. install_ends i k [] t = ([r], t[r - k := Some (PipeEnd i False)])
         \<and> k \<le> r \<and> r - k < length t \<and> t ! (r - k) = None)
      \<or> install_ends i k [] t = ([], t)"
  proof (induction t arbitrary: k)
    case (Cons s t)
    show ?case
    proof (cases s)
      case None
      note True = this
      show ?thesis
      proof (cases "free_fd (Suc k) t")
        case None
        with True show ?thesis by (intro disjI2 disjI1 exI [of _ k]) (simp add: install_second)
      next
        case (Some w)
        note fd = free_fd_Some [OF Some]
        then have "w - k = Suc (w - Suc k)" by auto
        with True Some fd show ?thesis
          by (intro disjI1 exI [of _ k] exI [of _ w]) (simp add: install_second)
      qed
    next
      case (Some y)
      note False = this
      have sh: "n - k = Suc (n - Suc k)" if "Suc k \<le> n" for n using that by simp
      show ?thesis
        using Cons.IH [of "Suc k"]
      proof (elim disjE exE conjE)
        fix r w assume a: "install_ends i (Suc k) [] t =
            ([r, w], t[r - Suc k := Some (PipeEnd i False), w - Suc k := Some (PipeEnd i True)])"
          "Suc k \<le> r" "r < w" "w - Suc k < length t" "t ! (r - Suc k) = None" "t ! (w - Suc k) = None"
        then show ?thesis using False sh [of r] sh [of w]
          by (intro disjI1 exI [of _ r] exI [of _ w]) simp
      next
        fix r assume "install_ends i (Suc k) [] t = ([r], t[r - Suc k := Some (PipeEnd i False)])"
          "Suc k \<le> r" "r - Suc k < length t" "t ! (r - Suc k) = None"
        then show ?thesis using False sh [of r] by (intro disjI2 disjI1 exI [of _ r]) simp
      next
        assume "install_ends i (Suc k) [] t = ([], t)"
        then show ?thesis using False by simp
      qed
    qed
  qed simp
  then show ?thesis using two one none by blast
qed

lemma pipe_alloc_inv:
  assumes inv: "pool_inv pool c" and a: "pipe_alloc pool = (Some i, pool')"
  shows "i < MAX_PIPES" and "c i False = 0" "c i True = 0"
    and "pool_inv pool' (\<lambda>j x. c j x + of_bool (j = i))"
proof -
  from a have i: "i < length pool" "fsm (pool ! i) = None"
      "pool' = pool[i := (pool ! i)\<lparr>head := 0, tail := 0, len := 0, fsm := Some Pipe_create\<rparr>]"
    by (cases rule: pipe_alloc_cases [of pool]; simp)+
  with inv show lt: "i < MAX_PIPES" by simp
  have c0: "c i False = 0" "c i True = 0"
    using inv i(2) lt by (auto simp: pool_inv_def pipe_counted_def split: option.splits)
  then show "c i False = 0" "c i True = 0" by auto
  have "pipe_ok ((pool ! i)\<lparr>head := 0, tail := 0, len := 0, fsm := Some Pipe_create\<rparr>)"
    using inv lt by (intro pipe_ok_reset pipe_fsm_ok_create) (simp add: pool_inv_def pool_ok_nth)
  then show "pool_inv pool' (\<lambda>j x. c j x + of_bool (j = i))"
    unfolding i(3) by (intro pool_inv_update [OF inv lt]) (simp_all add: pipe_counted_def c0 Pipe_create_def)
qed

lemma make_pipe_keeps:
  assumes ok: "vfs_inv L v" and cur: "cur < MAX_PROCS"
  shows "\<exists>r v'. make_pipe cur v = Some (r, v') \<and> vfs_inv L v'
     \<and> (case r of
          None \<Rightarrow> tables v' = tables v
        | Some (rd, wr) \<Rightarrow> \<exists>i < MAX_PIPES. rd < wr \<and> wr < MAX_OPEN
            \<and> (tables v ! cur) ! rd = None \<and> (tables v ! cur) ! wr = None
            \<and> cnt (tables v) i False = 0 \<and> cnt (tables v) i True = 0 \<and> L i False = 0 \<and> L i True = 0
            \<and> tables v' = (tables v)[cur := (tables v ! cur)[rd := Some (PipeEnd i False), wr := Some (PipeEnd i True)]])"
proof -
  let ?t = "tables v ! cur"
  have t: "tables_ok (tables v)" and lk: "leaks_ok L" and p: "pool_inv (pipes v) (refs L (tables v))"
    using ok by (simp_all add: vfs_inv_def)
  have tab: "table_ok ?t" and cl: "cur < length (tables v)"
    using tables_ok_nth [OF t cur] t cur by (simp_all add: tables_ok_def)
  then have len: "length ?t = MAX_OPEN" by (simp add: table_ok_def)
  note ix = index_tables [OF t cur]
  show ?thesis
  proof (cases "fst (pipe_alloc (pipes v))")
    case None
    then have "pipe_alloc (pipes v) = (None, pipes v)"
      by (cases rule: pipe_alloc_cases [of "pipes v"]) simp_all
    then show ?thesis using ok by (simp add: make_pipe_def)
  next
    case (Some i)
    obtain pool where al: "pipe_alloc (pipes v) = (Some i, pool)" using Some by (metis prod.collapse)
    note i = pipe_alloc_inv [OF p al]
    have "\<exists>pool2 pool3. dec_reader i pool = Some pool2 \<and> dec_writer i pool2 = Some pool3
        \<and> pool_inv pool3 (refs L (tables v))"
    proof -
      obtain pool2 where p2: "dec_end i False pool = Some pool2"
          "pool_inv pool2 (\<lambda>j x. refs L (tables v) j x + of_bool (j = i) - delta (Some (PipeEnd i False)) j x)"
        using dec_end_inv [OF i(4,1), of False] i(2) by auto
      obtain pool3 where "dec_end i True pool2 = Some pool3"
          "pool_inv pool3 (\<lambda>j x. refs L (tables v) j x + of_bool (j = i) - delta (Some (PipeEnd i False)) j x
                                - delta (Some (PipeEnd i True)) j x)"
        using dec_end_inv [OF p2(2) i(1), of True] i(3) by auto
      moreover from this(2) have "pool_inv pool3 (refs L (tables v))"
        by (rule pool_inv_cong) auto
      ultimately show ?thesis using p2(1) by (auto simp: dec_end_def)
    qed
    then obtain pool2 pool3 where undo: "dec_reader i pool = Some pool2" "dec_writer i pool2 = Some pool3"
      "pool_inv pool3 (refs L (tables v))" by blast
    show ?thesis
    proof (cases rule: install_ends_cases [of i 0 ?t])
      case (two r w)
      let ?t' = "?t[r := Some (PipeEnd i False), w := Some (PipeEnd i True)]"
      let ?v = "v\<lparr>pipes := pool, tables := (tables v)[cur := ?t']\<rparr>"
      have step: "make_pipe cur v = Some (Some (r, w), ?v)"
        using al ix two by (simp add: make_pipe_def)
      have rw: "r < length ?t" "w < length ?t" "r \<noteq> w" using two by simp_all
      have "tcnt ?t' j x = tcnt ?t j x + of_bool (j = i)" for j x
        using two(5,6) rw by (cases x) (auto simp: tcnt_update)
      then have "refs L (tables ?v) j x = refs L (tables v) j x + of_bool (j = i)" for j x
        using cl by (simp add: refs_def cnt_update)
      then have "pool_inv pool (refs L (tables ?v))"
        by (intro pool_inv_cong [OF i(4)]) simp
      moreover have "tables_ok (tables ?v)"
        using i(1) by (auto intro!: tables_ok_update [OF t] table_ok_update tab)
      ultimately have "vfs_inv L ?v" using lk by (simp add: vfs_inv_def)
      moreover have "cnt (tables v) i x = 0 \<and> L i x = 0" for x
      proof -
        have "refs L (tables v) i x = 0" "0 \<le> L i x" using i(2,3) lk by (cases x; simp add: leaks_ok_def)+
        with cnt_nonneg [of "tables v" i x] show ?thesis unfolding refs_def by linarith
      qed
      ultimately show ?thesis using step two len i(1) by auto
    next
      case (one r)
      have "?t[r := None] = ?t" using one by (metis diff_zero list_update_id)
      then have "make_pipe cur v = Some (None, v\<lparr>pipes := pool3, tables := tables v\<rparr>)"
        using al ix one undo cl by (simp add: make_pipe_def)
      then show ?thesis using t lk undo by (simp add: vfs_inv_def)
    next
      case none
      then have "make_pipe cur v = Some (None, v\<lparr>pipes := pool3, tables := tables v\<rparr>)"
        using al ix undo cl by (simp add: make_pipe_def)
      then show ?thesis using t lk undo by (simp add: vfs_inv_def)
    qed
  qed
qed

lemma clear_fds_keeps:
  assumes ok: "vfs_inv L v" and p: "p < MAX_PROCS"
  shows "\<exists>v'. clear_fds p v = Some v' \<and> vfs_inv L v' \<and> vfs_fs v' = vfs_fs v
           \<and> tables v' = (tables v)[p := replicate MAX_OPEN None]"
proof -
  let ?t = "tables v ! p"
  have t: "tables_ok (tables v)" and lk: "leaks_ok L" and inv: "pool_inv (pipes v) (refs L (tables v))"
    using ok by (simp_all add: vfs_inv_def)
  have tab: "table_ok ?t" and pl: "p < length (tables v)"
    using tables_ok_nth [OF t p] t p by (simp_all add: tables_ok_def)
  obtain pool where pool: "clear_table ?t (pipes v) = Some (replicate (length ?t) None, pool)"
      "pool_inv pool (\<lambda>j x. refs L (tables v) j x - tcnt ?t j x)"
    using clear_table_inv [OF inv, of ?t] tab tcnt_le_refs [OF lk pl] by (auto simp: table_ok_def)
  let ?v = "v\<lparr>tables := (tables v)[p := replicate MAX_OPEN None], pipes := pool\<rparr>"
  have "clear_fds p v = Some ?v"
    using pool(1) tab index_tables [OF t p] by (simp add: clear_fds_def table_ok_def)
  moreover have "table_ok (replicate MAX_OPEN None)" by (simp add: table_ok_def)
  then have "tables_ok (tables ?v)" using t by (simp add: tables_ok_update)
  moreover have "pool_inv pool (refs L (tables ?v))"
    using pl by (intro pool_inv_cong [OF pool(2)]) (simp add: refs_def cnt_update)
  ultimately show ?thesis using lk by (simp add: vfs_inv_def)
qed

lemma init_console_fds_keeps:
  assumes ok: "vfs_inv L v" and p: "p < MAX_PROCS"
  shows "\<exists>v'. init_console_fds p v = Some v' \<and> vfs_inv L v'
     \<and> tables v' = (tables v)[p := [Some ConsoleIn, Some ConsoleOut, Some ConsoleOut]
                                     @ replicate (MAX_OPEN - 3) None]"
proof -
  obtain v1 where v1: "clear_fds p v = Some v1" "vfs_inv L v1" "tables v1 = (tables v)[p := replicate MAX_OPEN None]"
    using clear_fds_keeps [OF assms] by blast
  have pl: "p < length (tables v)" using ok p by (simp add: vfs_inv_def tables_ok_def)
  have rep: "replicate MAX_OPEN None = None # None # None # replicate (MAX_OPEN - 3) (None :: slot option)"
    by (simp add: MAX_OPEN_def numeral_eq_Suc)
  let ?a = "put_fd p 0 (Some ConsoleIn) v1"
  let ?b = "put_fd p 1 (Some ConsoleOut) ?a"
  have a: "vfs_inv L ?a"
    using v1 pl p by (intro put_file_keeps) (auto simp: rep, simp add: MAX_OPEN_def)
  have b: "vfs_inv L ?b"
    using v1 pl p by (intro put_file_keeps [OF a]) (auto simp: rep, simp add: MAX_OPEN_def)
  have "vfs_inv L (put_fd p 2 (Some ConsoleOut) ?b)"
    using v1 pl p by (intro put_file_keeps [OF b]) (auto simp: rep, simp add: MAX_OPEN_def)
  then show ?thesis using v1 pl by (simp add: init_console_fds_def rep numeral_2_eq_2)
qed

lemma clone_loop_keeps:
  assumes "vfs_inv L v" and "dst < MAX_PROCS" and "src < MAX_PROCS" and "dst \<noteq> src"
    and "distinct fds" and "\<forall>fd \<in> set fds. fd < MAX_OPEN \<and> tables v ! dst ! fd = None"
  shows "\<exists>v'. clone_loop fds dst src v = Some v' \<and> vfs_inv L v' \<and> vfs_fs v' = vfs_fs v
     \<and> (\<forall>p < MAX_PROCS. p \<noteq> dst \<longrightarrow> tables v' ! p = tables v ! p)
     \<and> (\<forall>fd < MAX_OPEN. tables v' ! dst ! fd =
          (if fd \<in> set fds then tables v ! src ! fd else tables v ! dst ! fd))"
  using assms
proof (induction fds arbitrary: v)
  case (Cons fd fds)
  let ?s = "tables v ! src ! fd"
  have t: "tables_ok (tables v)" and lk: "leaks_ok L" and inv: "pool_inv (pipes v) (refs L (tables v))"
    using Cons.prems(1) by (simp_all add: vfs_inv_def)
  have tab: "table_ok (tables v ! src)" "table_ok (tables v ! dst)" using tables_ok_nth [OF t] Cons.prems by simp_all
  have fd: "fd < MAX_OPEN" "tables v ! dst ! fd = None" using Cons.prems(6) by simp_all
  have lens: "length (tables v) = MAX_PROCS" "length (tables v ! dst) = MAX_OPEN" "length (tables v ! src) = MAX_OPEN"
    using t tab by (simp_all add: tables_ok_def table_ok_def)
  have slot: "slot_ok s" if "?s = Some s" for s using table_ok_nth [OF tab(1) fd(1) that] .
  obtain pool where pool: "(case ?s of None \<Rightarrow> Some (None, pipes v)
        | Some s \<Rightarrow> do { (c, pool) \<leftarrow> clone_slot s (pipes v); Some (Some c, pool) }) = Some (?s, pool)"
      "pool_inv pool (\<lambda>j x. refs L (tables v) j x + delta ?s j x)"
  proof (cases ?s)
    case None
    then show ?thesis using that inv by simp
  next
    case (Some s)
    then show ?thesis
      using that clone_slot_inv [OF inv slot [OF Some]] cnt_entry [OF lk t Cons.prems(3) fd(1)] by auto
  qed
  let ?v = "put_fd dst fd ?s (v\<lparr>pipes := pool\<rparr>)"
  have tabs: "tables ?v = tables (put_fd dst fd ?s v)" by simp
  have "pool_inv pool (refs L (tables ?v))"
    unfolding tabs using cnt_put_fd [OF t Cons.prems(2) fd(1), of L ?s] fd(2)
    by (intro pool_inv_cong [OF pool(2)]) (simp del: put_fd_tables(1))
  moreover have "tables_ok (tables ?v)"
    unfolding tabs using slot by (intro put_fd_ok [OF t Cons.prems(2)])
  ultimately have ok: "vfs_inv L ?v" using lk by (simp add: vfs_inv_def)
  have free: "\<forall>k \<in> set fds. k < MAX_OPEN \<and> tables ?v ! dst ! k = None"
    using Cons.prems lens by (auto simp: nth_list_update)
  obtain v' where v': "clone_loop fds dst src ?v = Some v'" "vfs_inv L v'" "vfs_fs v' = vfs_fs v"
      "\<forall>p < MAX_PROCS. p \<noteq> dst \<longrightarrow> tables v' ! p = tables ?v ! p"
      "\<forall>k < MAX_OPEN. tables v' ! dst ! k = (if k \<in> set fds then tables ?v ! src ! k else tables ?v ! dst ! k)"
    using Cons.IH [OF ok Cons.prems(2-4) _ free] Cons.prems(5) by auto
  have "clone_loop (fd # fds) dst src v = Some v'"
    using v'(1) pool(1) index_tables [OF t Cons.prems(3)] fd lens
    by (simp add: index_def split: option.splits)
  then show ?case using v' Cons.prems(2-5) lens fd by (intro exI [of _ v']) (auto simp: nth_list_update)
qed simp

text \<open>A forked child inherits every descriptor of its parent.\<close>

lemma clone_fds_keeps:
  assumes ok: "vfs_inv L v" and p: "dst < MAX_PROCS" "src < MAX_PROCS" "dst \<noteq> src"
  shows "\<exists>v'. clone_fds dst src v = Some v' \<and> vfs_inv L v' \<and> tables v' = (tables v)[dst := tables v ! src]"
proof -
  obtain v1 where v1: "clear_fds dst v = Some v1" "vfs_inv L v1" "tables v1 = (tables v)[dst := replicate MAX_OPEN None]"
    using clear_fds_keeps [OF ok p(1)] by blast
  have lens: "length (tables v) = MAX_PROCS" using ok by (simp add: vfs_inv_def tables_ok_def)
  have "\<forall>fd \<in> set [0..<MAX_OPEN]. fd < MAX_OPEN \<and> tables v1 ! dst ! fd = None"
    using v1(3) lens p by simp
  from clone_loop_keeps [OF v1(2) p distinct_upt this] obtain v' where v':
      "clone_loop [0..<MAX_OPEN] dst src v1 = Some v'" "vfs_inv L v'"
      "\<forall>q < MAX_PROCS. q \<noteq> dst \<longrightarrow> tables v' ! q = tables v1 ! q"
      "\<forall>fd < MAX_OPEN. tables v' ! dst ! fd = tables v1 ! src ! fd"
    by auto
  have t': "tables_ok (tables v')" "tables_ok (tables v)" using v'(2) ok by (simp_all add: vfs_inv_def)
  have "tables v' ! q = ((tables v)[dst := tables v ! src]) ! q" if "q < MAX_PROCS" for q
  proof (cases "q = dst")
    case True
    have "tables v' ! dst = tables v ! src"
      using v'(4) v1(3) p lens tables_ok_nth [OF t'(1) p(1)] tables_ok_nth [OF t'(2) p(2)]
      by (intro nth_equalityI) (auto simp: table_ok_def)
    with True lens p show ?thesis by simp
  next
    case False
    then show ?thesis using v'(3) v1(3) that by simp
  qed
  then have "tables v' = (tables v)[dst := tables v ! src]"
    using t'(1) lens by (intro nth_equalityI) (auto simp: tables_ok_def)
  with v1 v' show ?thesis by (auto simp: clone_fds_def)
qed

text \<open>Pipe I/O changes no count, and cannot panic.\<close>

lemma pool_inv_ring:
  assumes inv: "pool_inv pool c" and i: "i < MAX_PIPES" and p: "ring_ok p" "fsm p = fsm (pool ! i)"
  shows "pool_inv (pool[i := p]) c"
proof (rule pool_inv_update [OF inv i])
  have "pipe_ok (pool ! i)" using inv i by (simp add: pool_inv_def pool_ok_nth)
  then show "pipe_ok p" using p by (simp add: pipe_ok_def)
  show "pipe_counted p (c i False) (c i True)"
    using inv i p(2) by (simp add: pool_inv_def pipe_counted_def)
qed simp

lemma pipe_io_ok:
  assumes inv: "pool_inv pool c" and i: "i < MAX_PIPES"
  shows "\<exists>pool'. pipe_write i src pool = Some (min (length src) (PIPE_CAP - len (pool ! i)), pool')
           \<and> pool_inv pool' c
           \<and> contents (pool' ! i) = contents (pool ! i) @ take (PIPE_CAP - len (pool ! i)) src"
    and "\<exists>pool'. pipe_read i dst pool = Some (min (length dst) (len (pool ! i)),
             blit dst 0 (take (length dst) (contents (pool ! i))), pool')
           \<and> pool_inv pool' c \<and> contents (pool' ! i) = drop (length dst) (contents (pool ! i))"
proof -
  have ok: "ring_ok (pool ! i)" using inv i pool_ok_nth [of pool i] by (simp add: pool_inv_def pipe_ok_def)
  obtain p where p: "ring_write src (pool ! i) = Some (min (length src) (PIPE_CAP - len (pool ! i)), p)"
      "ring_ok p" "contents p = contents (pool ! i) @ take (PIPE_CAP - len (pool ! i)) src" "fsm p = fsm (pool ! i)"
    using ring_write_ok [OF ok] by blast
  with index_pool [OF inv i] pool_inv_ring [OF inv i, of p] inv i
  show "\<exists>pool'. pipe_write i src pool = Some (min (length src) (PIPE_CAP - len (pool ! i)), pool')
           \<and> pool_inv pool' c
           \<and> contents (pool' ! i) = contents (pool ! i) @ take (PIPE_CAP - len (pool ! i)) src"
    by (simp add: pipe_write_def)
  obtain q where q: "ring_read (length dst) (pool ! i) = Some (take (length dst) (contents (pool ! i)), q)"
      "ring_ok q" "contents q = drop (length dst) (contents (pool ! i))" "fsm q = fsm (pool ! i)"
    using ring_read_ok [OF ok] by blast
  with index_pool [OF inv i] pool_inv_ring [OF inv i, of q] inv i
  show "\<exists>pool'. pipe_read i dst pool = Some (min (length dst) (len (pool ! i)),
             blit dst 0 (take (length dst) (contents (pool ! i))), pool')
           \<and> pool_inv pool' c \<and> contents (pool' ! i) = drop (length dst) (contents (pool ! i))"
    by (simp add: pipe_read_def min.commute)
qed

lemma file_entry:
  assumes "vfs_inv L v" and "cur < MAX_PROCS" and "get_fd (tables v ! cur) fd = Some (File ino off w f)"
  shows "fd < MAX_OPEN" and "f = (if w then FWriting else FReading)"
    and "vfs_inv L (put_fd cur fd (Some (File ino off' w f)) v)"
    and "(tables v)[cur := (tables v ! cur)[fd := Some (File ino off w f)]] = tables v"
proof -
  have tab: "table_ok (tables v ! cur)" using assms(1,2) by (simp add: vfs_inv_def tables_ok_nth)
  note s = table_ok_get [OF tab assms(3)]
  then show "fd < MAX_OPEN" "f = (if w then FWriting else FReading)" by simp_all
  show "vfs_inv L (put_fd cur fd (Some (File ino off' w f)) v)"
    using s by (intro put_file_keeps [OF assms(1,2)]) simp_all
  show "(tables v)[cur := (tables v ! cur)[fd := Some (File ino off w f)]] = tables v"
    using s by (metis list_update_id)
qed

lemma put_fd_same:
  assumes "vfs_inv L v" and "cur < MAX_PROCS" and "get_fd (tables v ! cur) fd = Some (File ino off w f)"
  shows "put_fd cur fd (Some (File ino off w f)) v = v"
  using file_entry(4) [OF assms] by (simp add: put_fd_def)

text \<open>What \<open>write\<close> and \<open>read\<close> do to a file descriptor, by its access mode.\<close>

lemma vfs_write_file:
  assumes "vfs_inv L v" and "cur < MAX_PROCS" and "get_fd (tables v ! cur) fd = Some (File ino off w f)"
  shows "vfs_write cur fd data v =
     (if w then do { (n, s) \<leftarrow> write_at ino off data (vfs_fs v);
                     Some (n, put_fd cur fd (Some (File ino (off + n) w f)) (v\<lparr>vfs_fs := s\<rparr>)) }
      else Some (0, v))"
proof -
  have ix: "index (tables v) cur = Some (tables v ! cur)" using assms by (simp add: vfs_inv_def index_tables)
  note f = file_entry(2) [OF assms] and same = put_fd_same [OF assms]
  show ?thesis
    using assms(3) same unfolding f by (cases w) (simp_all add: vfs_write_def ix fsm_simps)
qed

lemma vfs_read_file:
  assumes "vfs_inv L v" and "cur < MAX_PROCS" and "get_fd (tables v ! cur) fd = Some (File ino off w f)"
  shows "vfs_read cur fd data v =
     (if w then Some (0, data, v)
      else do { (n, data, s) \<leftarrow> read_at ino off data (vfs_fs v);
                Some (n, data, put_fd cur fd (Some (File ino (off + n) w f)) (v\<lparr>vfs_fs := s\<rparr>)) })"
proof -
  have ix: "index (tables v) cur = Some (tables v ! cur)" using assms by (simp add: vfs_inv_def index_tables)
  note f = file_entry(2) [OF assms] and same = put_fd_same [OF assms]
  show ?thesis
    using assms(3) same unfolding f by (cases w) (simp_all add: vfs_read_def ix fsm_simps)
qed

lemma put_file_fs_keeps:
  assumes "vfs_inv L v" and "cur < MAX_PROCS" and "get_fd (tables v ! cur) fd = Some (File ino off w f)"
  shows "vfs_inv L (put_fd cur fd (Some (File ino off' w f)) (v\<lparr>vfs_fs := s\<rparr>))"
  using file_entry(3) [of L "v\<lparr>vfs_fs := s\<rparr>" cur fd ino off w f off'] assms by simp

lemma vfs_write_keeps:
  assumes "vfs_inv L v" and "cur < MAX_PROCS" and "vfs_write cur fd data v = Some (n, v')"
  shows "vfs_inv L v'"
proof (cases "get_fd (tables v ! cur) fd")
  case None
  then show ?thesis
    using assms by (simp add: vfs_write_def vfs_inv_def index_tables)
next
  case (Some s)
  have ix: "index (tables v) cur = Some (tables v ! cur)" using assms by (simp add: vfs_inv_def index_tables)
  show ?thesis
  proof (cases s)
    case (File ino off w f)
    with Some have g: "get_fd (tables v ! cur) fd = Some (File ino off w f)" by simp
    show ?thesis
      using assms(3) put_file_fs_keeps [OF assms(1,2) g] assms(1)
      by (auto simp: vfs_write_file [OF assms(1,2) g] bind_eq_Some_conv split: if_splits)
  next
    case (PipeEnd i w)
    have i: "i < MAX_PIPES"
      using table_ok_get [of "tables v ! cur" fd] Some PipeEnd assms by (auto simp: vfs_inv_def tables_ok_nth)
    have inv: "pool_inv (pipes v) (refs L (tables v))" using assms(1) by (simp add: vfs_inv_def)
    show ?thesis
      using assms Some PipeEnd ix pipe_io_ok(1) [OF inv i, of data]
      by (cases w) (auto simp: vfs_write_def vfs_inv_def)
  qed (use assms ix Some in \<open>auto simp: vfs_write_def\<close>)
qed

lemma vfs_read_keeps:
  assumes "vfs_inv L v" and "cur < MAX_PROCS" and "vfs_read cur fd data v = Some (n, data', v')"
  shows "vfs_inv L v'"
proof (cases "get_fd (tables v ! cur) fd")
  case None
  then show ?thesis
    using assms by (simp add: vfs_read_def vfs_inv_def index_tables)
next
  case (Some s)
  have ix: "index (tables v) cur = Some (tables v ! cur)" using assms by (simp add: vfs_inv_def index_tables)
  show ?thesis
  proof (cases s)
    case (File ino off w f)
    with Some have g: "get_fd (tables v ! cur) fd = Some (File ino off w f)" by simp
    show ?thesis
      using assms(3) put_file_fs_keeps [OF assms(1,2) g] assms(1)
      by (auto simp: vfs_read_file [OF assms(1,2) g] bind_eq_Some_conv split: if_splits)
  next
    case (PipeEnd i w)
    have i: "i < MAX_PIPES"
      using table_ok_get [of "tables v ! cur" fd] Some PipeEnd assms by (auto simp: vfs_inv_def tables_ok_nth)
    have inv: "pool_inv (pipes v) (refs L (tables v))" using assms(1) by (simp add: vfs_inv_def)
    show ?thesis
      using assms Some PipeEnd ix pipe_io_ok(2) [OF inv i, of data]
      by (cases w) (auto simp: vfs_read_def vfs_inv_def)
  qed (use assms ix Some in \<open>auto simp: vfs_read_def\<close>)
qed

lemma install_file_keeps:
  assumes "vfs_inv L v" and "cur < MAX_PROCS" and "free_fd 0 (tables v ! cur) = Some fd"
  shows "vfs_inv L (put_fd cur fd (Some (File ino off w (if w then FWriting else FReading))) v)"
proof -
  have tab: "table_ok (tables v ! cur)" using assms(1,2) by (simp add: vfs_inv_def tables_ok_nth)
  show ?thesis
    using free_fd_table [OF tab assms(3)] by (intro put_file_keeps [OF assms(1,2)]) simp_all
qed

lemma open_read_keeps:
  assumes "vfs_inv L v" and "cur < MAX_PROCS" and "open_read cur path v = Some (r, v')"
  shows "vfs_inv L v'"
proof -
  have ix: "index (tables v) cur = Some (tables v ! cur)" using assms by (simp add: vfs_inv_def index_tables)
  have "vfs_inv L (put_fd cur fd (Some (File ino 0 False FReading)) (v\<lparr>vfs_fs := s\<rparr>))"
    if "free_fd 0 (tables v ! cur) = Some fd" for fd ino s
    using install_file_keeps [of L "v\<lparr>vfs_fs := s\<rparr>" cur fd ino 0 False] that assms(1,2) by simp
  with assms(1,3) ix show ?thesis
    by (auto simp: open_read_def fsm_simps Let_def
        split: Option.bind_split_asm option.split_asm if_split_asm)
qed

lemma open_write_keeps:
  assumes "vfs_inv L v" and "cur < MAX_PROCS" and "open_write cur path app v = Some (r, v')"
  shows "vfs_inv L v'"
proof -
  have ix: "index (tables v) cur = Some (tables v ! cur)" using assms by (simp add: vfs_inv_def index_tables)
  have "vfs_inv L (put_fd cur fd (Some (File ino off True FWriting)) (v\<lparr>vfs_fs := s\<rparr>))"
    if "free_fd 0 (tables v ! cur) = Some fd" for fd ino off s
    using install_file_keeps [of L "v\<lparr>vfs_fs := s\<rparr>" cur fd ino off True] that assms(1,2) by simp
  with assms(1,3) ix show ?thesis
    by (auto simp: open_write_def fsm_simps Let_def
        split: Option.bind_split_asm option.split_asm if_split_asm)
qed

lemma seek_keeps:
  assumes "vfs_inv L v" and "cur < MAX_PROCS" and "seek cur fd offset whence v = Some (r, v')"
  shows "vfs_inv L v'"
proof -
  have ix: "index (tables v) cur = Some (tables v ! cur)" using assms by (simp add: vfs_inv_def index_tables)
  have "vfs_inv L (put_fd cur fd (Some (File ino off' w f)) (v\<lparr>vfs_fs := s\<rparr>))"
    if "get_fd (tables v ! cur) fd = Some (File ino off w f)" for ino off off' w f s
    using put_file_fs_keeps [OF assms(1,2) that] .
  moreover have "vfs_inv L (put_fd cur fd (Some (File ino off' w f)) v)"
    if "get_fd (tables v ! cur) fd = Some (File ino off w f)" for ino off off' w f
    using file_entry(3) [OF assms(1,2) that] .
  ultimately show ?thesis
    using assms(1,3) ix
    by (auto simp: seek_def Let_def
        split: Option.bind_split_asm option.split_asm slot.split_asm if_split_asm)
qed

section \<open>Without the leaks\<close>

lemma vfs_okI: "vfs_inv L v \<Longrightarrow> vfs_ok v"
  by (auto simp: vfs_ok_def)

lemma vfs_ok_init: "vfs_ok (VFS_init s)"
  by (rule vfs_okI [OF vfs_inv_init])

lemma vfs_ok_fs [simp]: "vfs_ok (v\<lparr>vfs_fs := s\<rparr>) = vfs_ok v" "vfs_ok (v\<lparr>console := b\<rparr>) = vfs_ok v"
  by (simp_all add: vfs_ok_def)

lemma vfs_ok_tables: "vfs_ok v \<Longrightarrow> tables_ok (tables v)"
  by (auto simp: vfs_ok_def vfs_inv_def)

lemma vfs_close_ok:
  "vfs_ok v \<Longrightarrow> cur < MAX_PROCS \<Longrightarrow> \<exists>v'. vfs_close cur fd v = Some v' \<and> vfs_ok v'
     \<and> tables v' = (if fd < MAX_OPEN then (tables v)[cur := (tables v ! cur)[fd := None]] else tables v)"
  unfolding vfs_ok_def using vfs_close_keeps by metis

lemma vfs_dup2_ok:
  "vfs_ok v \<Longrightarrow> cur < MAX_PROCS \<Longrightarrow> \<exists>r v'. vfs_dup2 cur oldfd newfd v = Some (r, v') \<and> vfs_ok v'
     \<and> (r = (if newfd < MAX_OPEN \<and> get_fd (tables v ! cur) oldfd \<noteq> None then Some newfd else None))
     \<and> tables v' = (if r = None then tables v
                    else (tables v)[cur := (tables v ! cur)[newfd := get_fd (tables v ! cur) oldfd]])"
  unfolding vfs_ok_def using vfs_dup2_keeps by metis

lemma clear_fds_ok:
  "vfs_ok v \<Longrightarrow> p < MAX_PROCS \<Longrightarrow> \<exists>v'. clear_fds p v = Some v' \<and> vfs_ok v' \<and> vfs_fs v' = vfs_fs v
     \<and> tables v' = (tables v)[p := replicate MAX_OPEN None]"
  unfolding vfs_ok_def using clear_fds_keeps by metis

lemma init_console_fds_ok:
  "vfs_ok v \<Longrightarrow> p < MAX_PROCS \<Longrightarrow> \<exists>v'. init_console_fds p v = Some v' \<and> vfs_ok v'
     \<and> tables v' = (tables v)[p := [Some ConsoleIn, Some ConsoleOut, Some ConsoleOut] @ replicate (MAX_OPEN - 3) None]"
  unfolding vfs_ok_def using init_console_fds_keeps by metis

lemma clone_fds_ok:
  "vfs_ok v \<Longrightarrow> dst < MAX_PROCS \<Longrightarrow> src < MAX_PROCS \<Longrightarrow> dst \<noteq> src \<Longrightarrow>
     \<exists>v'. clone_fds dst src v = Some v' \<and> vfs_ok v' \<and> tables v' = (tables v)[dst := tables v ! src]"
  unfolding vfs_ok_def using clone_fds_keeps by metis

lemma vfs_step_oks:
  "vfs_ok v \<Longrightarrow> cur < MAX_PROCS \<Longrightarrow> make_pipe cur v = Some (e, v') \<Longrightarrow> vfs_ok v'"
  "vfs_ok v \<Longrightarrow> cur < MAX_PROCS \<Longrightarrow> vfs_write cur fd data v = Some (n, v') \<Longrightarrow> vfs_ok v'"
  "vfs_ok v \<Longrightarrow> cur < MAX_PROCS \<Longrightarrow> vfs_read cur fd data v = Some (n, data', v') \<Longrightarrow> vfs_ok v'"
  "vfs_ok v \<Longrightarrow> cur < MAX_PROCS \<Longrightarrow> open_read cur path v = Some (r, v') \<Longrightarrow> vfs_ok v'"
  "vfs_ok v \<Longrightarrow> cur < MAX_PROCS \<Longrightarrow> open_write cur path app v = Some (r, v') \<Longrightarrow> vfs_ok v'"
  "vfs_ok v \<Longrightarrow> cur < MAX_PROCS \<Longrightarrow> seek cur fd offset whence v = Some (q, v') \<Longrightarrow> vfs_ok v'"
  unfolding vfs_ok_def
  using make_pipe_keeps vfs_write_keeps vfs_read_keeps open_read_keeps open_write_keeps seek_keeps
  by (metis option.inject prod.inject)+

lemmas vfs_write_ok = vfs_step_oks(2) and vfs_read_ok = vfs_step_oks(3) and open_read_ok = vfs_step_oks(4)
  and open_write_ok = vfs_step_oks(5) and seek_ok = vfs_step_oks(6)

section \<open>Reachable states\<close>

text \<open>
  \<open>dup\<close> on a full table has already taken a reference when it finds no free entry: what it adds
  to the leaks.
\<close>

definition dup_leaks :: "nat \<Rightarrow> nat \<Rightarrow> vfs \<Rightarrow> leaks \<Rightarrow> leaks" where
  "dup_leaks cur fd v L =
     (case (free_fd 0 (tables v ! cur), get_fd (tables v ! cur) fd) of
        (None, Some s) \<Rightarrow> (\<lambda>i w. L i w + delta (Some s) i w)
      | _ \<Rightarrow> L)"

lemma vfs_dup_full:
  assumes ok: "vfs_inv L v" and cur: "cur < MAX_PROCS" and full: "free_fd 0 (tables v ! cur) = None"
  shows "\<exists>v'. vfs_dup cur fd v = Some (None, v') \<and> tables v' = tables v \<and> vfs_inv (dup_leaks cur fd v L) v'"
proof (cases "get_fd (tables v ! cur) fd")
  case None
  then show ?thesis using ok cur by (auto simp: vfs_dup_def vfs_inv_def index_tables dup_leaks_def full)
next
  case (Some s)
  have t: "tables_ok (tables v)" and lk: "leaks_ok L" and p: "pool_inv (pipes v) (refs L (tables v))"
    using ok by (simp_all add: vfs_inv_def)
  have s: "slot_ok s" "fd < MAX_OPEN" "tables v ! cur ! fd = Some s"
    using table_ok_get [OF tables_ok_nth [OF t cur] Some] by simp_all
  obtain pool where pool: "clone_slot s (pipes v) = Some (s, pool)"
      "pool_inv pool (\<lambda>j x. refs L (tables v) j x + delta (Some s) j x)"
    using clone_slot_inv [OF p s(1)] cnt_entry [OF lk t cur s(2)] s(3) by auto
  have "pool_inv pool (refs (dup_leaks cur fd v L) (tables v))"
    by (rule pool_inv_cong [OF pool(2)]) (simp add: dup_leaks_def full Some refs_def)
  moreover have "leaks_ok (dup_leaks cur fd v L)" using lk by (simp add: leaks_ok_def dup_leaks_def full Some)
  ultimately show ?thesis
    using t pool(1) Some full index_tables [OF t cur] by (simp add: vfs_dup_def vfs_inv_def)
qed

lemma vfs_dup_step:
  assumes "vfs_inv L v" and "cur < MAX_PROCS"
  shows "\<exists>r v'. vfs_dup cur fd v = Some (r, v') \<and> vfs_inv (dup_leaks cur fd v L) v'"
proof (cases "free_fd 0 (tables v ! cur)")
  case None
  then show ?thesis using vfs_dup_full [OF assms, of fd] by blast
next
  case (Some k)
  then have "dup_leaks cur fd v L = L" by (simp add: dup_leaks_def)
  then show ?thesis using vfs_dup_keeps [OF assms Some, of fd] by auto
qed

lemma vfs_dup_ok: "vfs_ok v \<Longrightarrow> cur < MAX_PROCS \<Longrightarrow> vfs_dup cur fd v = Some (r, v') \<Longrightarrow> vfs_ok v'"
  unfolding vfs_ok_def using vfs_dup_step by (metis option.inject prod.inject)

text \<open>
  The steps of the descriptor layer: a system call of a process, or a life-cycle action of the
  scheduler. A fork copies into another slot. The second component of a state counts the references
  that \<open>dup\<close> has leaked.
\<close>

inductive vfs_step :: "vfs \<times> leaks \<Rightarrow> vfs \<times> leaks \<Rightarrow> bool" where
  st_open_read: "cur < MAX_PROCS \<Longrightarrow> open_read cur path v = Some (r, v') \<Longrightarrow> vfs_step (v, L) (v', L)"
| st_open_write: "cur < MAX_PROCS \<Longrightarrow> open_write cur path app v = Some (r, v') \<Longrightarrow> vfs_step (v, L) (v', L)"
| st_read: "cur < MAX_PROCS \<Longrightarrow> vfs_read cur fd data v = Some (n, data', v') \<Longrightarrow> vfs_step (v, L) (v', L)"
| st_write: "cur < MAX_PROCS \<Longrightarrow> vfs_write cur fd data v = Some (n, v') \<Longrightarrow> vfs_step (v, L) (v', L)"
| st_seek: "cur < MAX_PROCS \<Longrightarrow> seek cur fd off whence v = Some (q, v') \<Longrightarrow> vfs_step (v, L) (v', L)"
| st_dup: "cur < MAX_PROCS \<Longrightarrow> vfs_dup cur fd v = Some (r, v') \<Longrightarrow> vfs_step (v, L) (v', dup_leaks cur fd v L)"
| st_dup2: "cur < MAX_PROCS \<Longrightarrow> vfs_dup2 cur fd fd' v = Some (r, v') \<Longrightarrow> vfs_step (v, L) (v', L)"
| st_close: "cur < MAX_PROCS \<Longrightarrow> vfs_close cur fd v = Some v' \<Longrightarrow> vfs_step (v, L) (v', L)"
| st_pipe: "cur < MAX_PROCS \<Longrightarrow> make_pipe cur v = Some (e, v') \<Longrightarrow> vfs_step (v, L) (v', L)"
| st_spawn: "p < MAX_PROCS \<Longrightarrow> init_console_fds p v = Some v' \<Longrightarrow> vfs_step (v, L) (v', L)"
| st_fork: "dst < MAX_PROCS \<Longrightarrow> src < MAX_PROCS \<Longrightarrow> dst \<noteq> src \<Longrightarrow>
    clone_fds dst src v = Some v' \<Longrightarrow> vfs_step (v, L) (v', L)"
| st_reap: "p < MAX_PROCS \<Longrightarrow> clear_fds p v = Some v' \<Longrightarrow> vfs_step (v, L) (v', L)"

inductive vfs_reach :: "vfs \<times> leaks \<Rightarrow> bool" where
  reach_init: "vfs_reach (VFS_init s, no_leaks)"
| reach_step: "vfs_reach x \<Longrightarrow> vfs_step x y \<Longrightarrow> vfs_reach y"

lemma vfs_step_keeps:
  assumes "vfs_step x y" and "vfs_inv (snd x) (fst x)"
  shows "vfs_inv (snd y) (fst y)"
  using assms
proof (induction rule: vfs_step.induct)
  case (st_dup cur fd v r v' L)
  then show ?case using vfs_dup_step [of L v cur fd] by auto
next
  case (st_dup2 cur fd fd' v r v' L)
  then show ?case using vfs_dup2_keeps [of L v cur fd fd'] by auto
next
  case (st_close cur fd v v' L)
  then show ?case using vfs_close_keeps [of L v cur fd] by auto
next
  case (st_pipe cur v e v' L)
  then show ?case using make_pipe_keeps [of L v cur] by auto
next
  case (st_spawn p v v' L)
  then show ?case using init_console_fds_keeps [of L v p] by auto
next
  case (st_fork dst src v v' L)
  then show ?case using clone_fds_keeps [of L v dst src] by auto
next
  case (st_reap p v v' L)
  then show ?case using clear_fds_keeps [of L v p] by auto
qed (auto intro: open_read_keeps open_write_keeps vfs_read_keeps vfs_write_keeps seek_keeps)

lemma vfs_step_ok:
  assumes "vfs_step x y" and "vfs_ok (fst x)"
  shows "vfs_ok (fst y)"
proof -
  obtain L where "vfs_inv L (fst x)" using assms(2) by (auto simp: vfs_ok_def)
  moreover have "vfs_step (fst x, L) (fst y, L) \<or> (\<exists>cur fd. vfs_step (fst x, L) (fst y, dup_leaks cur fd (fst x) L))"
    using assms(1) by (induction rule: vfs_step.induct) (auto intro: vfs_step.intros)
  ultimately show ?thesis using vfs_step_keeps by (metis fst_conv snd_conv vfs_okI)
qed

lemma vfs_reach_inv: "vfs_reach x \<Longrightarrow> vfs_inv (snd x) (fst x)"
  by (induction rule: vfs_reach.induct) (auto simp: vfs_inv_init intro: vfs_step_keeps)

lemma cnt_bound:
  assumes "tables_ok ts"
  shows "cnt ts i w \<le> 256"
proof -
  have "cnt ts i w \<le> int (32 * length ts)" if "\<forall>t \<in> set ts. table_ok t" for ts
    using that
  proof (induction ts)
    case (Cons t ts)
    have "tcnt t i w \<le> 32" using Cons.prems tcnt_le_length [of t i w] by (simp add: table_ok_def MAX_OPEN_def)
    with Cons show ?case by simp
  qed simp
  from this [of ts] assms show ?thesis by (simp add: tables_ok_def MAX_PROCS_def)
qed

lemma cnt_pos_iff: "0 < cnt ts i w \<longleftrightarrow> (\<exists>t \<in> set ts. Some (PipeEnd i w) \<in> set t)"
proof -
  have t: "0 < tcnt t i w \<longleftrightarrow> Some (PipeEnd i w) \<in> set t" for t
  proof (induction t)
    case (Cons s t)
    have "0 < delta s i w \<longleftrightarrow> s = Some (PipeEnd i w)" by (simp add: delta_def)
    with Cons show ?case
      using tcnt_nonneg [of t i w] delta_nonneg [of s i w]
      by (metis add_nonneg_pos add_pos_nonneg add.right_neutral linorder_not_less list.set_intros(1)
          list.set_intros(2) order_le_imp_less_or_eq set_ConsD tcnt_simps(2) order_less_irrefl add.left_neutral)
  qed simp
  show ?thesis
  proof (induction ts)
    case (Cons a ts)
    have "0 < tcnt a i w + cnt ts i w \<longleftrightarrow> 0 < tcnt a i w \<or> 0 < cnt ts i w"
      using tcnt_nonneg [of a i w] cnt_nonneg [of ts i w] by linarith
    with Cons t show ?case by auto
  qed simp
qed

section \<open>Properties\<close>

definition one_pipe :: vfs where
  "one_pipe = snd (the (make_pipe 0 (VFS_init (blank_fs 64))))"

lemma one_pipe_eq: "make_pipe 0 (VFS_init (blank_fs 64)) = Some (Some (0, 1), one_pipe)"
  "tables one_pipe = (Some (PipeEnd 0 False) # Some (PipeEnd 0 True) # replicate 30 None) # replicate 7 (replicate 32 None)"
proof -
  let ?v = "VFS_init (blank_fs 64)"
  have a: "pipe_alloc (pipes ?v) =
      (Some 0, (pipes ?v)[0 := (pipes ?v ! 0)\<lparr>head := 0, tail := 0, len := 0, fsm := Some Pipe_create\<rparr>])"
    by (simp add: VFS_init_def POOL_init_def MAX_PIPES_def pipe_alloc_def numeral_eq_Suc PipeBuf_empty_def)
  have "\<exists>v. make_pipe 0 ?v = Some (Some (0, 1), v)
      \<and> tables v = (Some (PipeEnd 0 False) # Some (PipeEnd 0 True) # replicate 30 None) # replicate 7 (replicate 32 None)"
    using a by (simp add: make_pipe_def) (simp add: VFS_init_def MAX_PROCS_def MAX_OPEN_def index_def numeral_eq_Suc)
  then show "make_pipe 0 ?v = Some (Some (0, 1), one_pipe)"
    "tables one_pipe = (Some (PipeEnd 0 False) # Some (PipeEnd 0 True) # replicate 30 None) # replicate 7 (replicate 32 None)"
    by (auto simp: one_pipe_def)
qed

lemma one_pipe_reach: "vfs_reach (one_pipe, no_leaks)" "tables one_pipe ! 0 ! 0 = Some (PipeEnd 0 False)"
  "length (tables one_pipe ! 0) = MAX_OPEN"
  using reach_step [OF reach_init st_pipe [OF _ one_pipe_eq(1)]] by (simp_all add: one_pipe_eq(2) MAX_PROCS_def MAX_OPEN_def)

text \<open>
  C4: pipe reference counts. In every reachable state of the descriptor layer, whatever the
  interleaving of opens, duplications, forks, closes and exits over the eight processes, the reader
  and writer counts of each pipe are the numbers of descriptors that refer to its ends plus the
  number of references leaked by \<open>dup\<close> calls on that end that found the caller's table full (the
  defect reported for \<open>dup\<close>); as long as no such call happens the counts are exact. A pipe buffer
  is free exactly when no descriptor refers to it and no reference of it was leaked, and at most 256
  descriptors refer to an end.
\<close>

theorem vfs_refcounts:
  assumes "vfs_reach (v, L)" and "i < MAX_PIPES"
  shows "pipe_refs (pipes v) i = (cnt (tables v) i False + L i False, cnt (tables v) i True + L i True)
     \<and> 0 \<le> L i False \<and> 0 \<le> L i True
     \<and> (fsm (pipes v ! i) = None \<longleftrightarrow>
          L i False = 0 \<and> L i True = 0 \<and> (\<forall>t \<in> set (tables v). \<forall>w. Some (PipeEnd i w) \<notin> set t))
     \<and> cnt (tables v) i False \<le> 256 \<and> cnt (tables v) i True \<le> 256"
proof -
  have ok: "vfs_inv L v" using vfs_reach_inv [OF assms(1)] by simp
  then have c: "pipe_counted (pipes v ! i) (refs L (tables v) i False) (refs L (tables v) i True)"
    using assms(2) by (simp add: vfs_inv_def pool_inv_def)
  have L: "0 \<le> L i w" for w using ok by (simp add: vfs_inv_def leaks_ok_def)
  have "fsm (pipes v ! i) = None \<longleftrightarrow> (\<forall>w. \<not> 0 < refs L (tables v) i w)"
    using c by (auto simp: pipe_counted_def all_bool_eq split: option.splits)
  also have "\<dots> \<longleftrightarrow> (\<forall>w. L i w = 0 \<and> \<not> 0 < cnt (tables v) i w)"
  proof -
    have "\<not> 0 < refs L (tables v) i w \<longleftrightarrow> L i w = 0 \<and> \<not> 0 < cnt (tables v) i w" for w
      using L [of w] cnt_nonneg [of "tables v" i w] unfolding refs_def by linarith
    then show ?thesis by simp
  qed
  finally have "fsm (pipes v ! i) = None \<longleftrightarrow>
      L i False = 0 \<and> L i True = 0 \<and> (\<forall>t \<in> set (tables v). \<forall>w. Some (PipeEnd i w) \<notin> set t)"
    unfolding cnt_pos_iff by (auto simp: all_bool_eq)
  moreover have "pipe_refs (pipes v) i = (cnt (tables v) i False + L i False, cnt (tables v) i True + L i True)"
    using c by (auto simp: pipe_refs_def pipe_counted_def refs_def split: option.splits)
  ultimately show ?thesis using ok cnt_bound L by (simp add: vfs_inv_def)
qed

text \<open>A pipe whose process has forked: each end is held twice.\<close>

theorem vfs_refcounts_witness: "\<exists>v. clone_fds 1 0 one_pipe = Some v \<and> pipe_refs (pipes v) 0 = (2, 2)"
proof -
  have ok: "vfs_inv no_leaks one_pipe" using vfs_reach_inv [OF one_pipe_reach(1)] by simp
  obtain v where v: "clone_fds 1 0 one_pipe = Some v" "tables v = (tables one_pipe)[1 := tables one_pipe ! 0]"
    using clone_fds_keeps [OF ok, of 1 0] by (auto simp: MAX_PROCS_def)
  have "vfs_reach (v, no_leaks)" using reach_step [OF one_pipe_reach(1) st_fork [OF _ _ _ v(1)]] by (simp add: MAX_PROCS_def)
  from vfs_refcounts [OF this, of 0] have "pipe_refs (pipes v) 0 = (cnt (tables v) 0 False, cnt (tables v) 0 True)"
    by (simp add: MAX_PIPES_def no_leaks_def)
  moreover have "cnt (tables v) 0 w = 2" for w
    unfolding v(2) by (cases w) (simp_all add: one_pipe_eq(2) cnt_update numeral_eq_Suc)
  ultimately show ?thesis using v(1) by simp
qed

text \<open>
  What a reader's end-of-file test answers. On the read end of a pipe, \<open>pipe_writers_open\<close>
  answers whether some process still holds a write end of that pipe or a reference to the write end
  was leaked by \<open>dup\<close> on a full table. So a reader never sees the end of file early, and misses
  it only after such a leak.
\<close>

theorem pipe_eof_exact:
  assumes "vfs_reach (v, L)" and "cur < MAX_PROCS" and "get_fd (tables v ! cur) fd = Some (PipeEnd i False)"
  shows "pipe_writers_open cur fd v = Some ((\<exists>t \<in> set (tables v). Some (PipeEnd i True) \<in> set t) \<or> 0 < L i True)"
proof -
  have ok: "vfs_inv L v" using vfs_reach_inv [OF assms(1)] by simp
  then have t: "tables_ok (tables v)" and lk: "leaks_ok L" and inv: "pool_inv (pipes v) (refs L (tables v))"
    by (simp_all add: vfs_inv_def)
  have e: "fd < MAX_OPEN" "tables v ! cur ! fd = Some (PipeEnd i False)" "i < MAX_PIPES"
    using table_ok_get [OF tables_ok_nth [OF t assms(2)] assms(3)] by simp_all
  obtain f where f: "fsm (pipes v ! i) = Some f" "pipe_fsm_ok f" "writers f = refs L (tables v) i True"
    using counted_live [OF inv e(3), of False] cnt_entry [OF lk t assms(2) e(1,2)] by blast
  have "fsm_has_writers f \<longleftrightarrow> 0 < refs L (tables v) i True"
    using f by (auto simp: pipe_fsm_ok_def fsm_has_writers_def split: pipe_state.split)
  moreover have "0 < refs L (tables v) i True \<longleftrightarrow> 0 < cnt (tables v) i True \<or> 0 < L i True"
    using lk [unfolded leaks_ok_def, rule_format, of i True] cnt_nonneg [of "tables v" i True] unfolding refs_def by linarith
  ultimately show ?thesis
    using index_tables [OF t assms(2)] assms(3) index_pool [OF inv e(3)] f(1)
    by (simp add: pipe_writers_open_def has_writers_def cnt_pos_iff)
qed

text \<open>After the only write end is closed, the reader sees the end of file.\<close>

theorem pipe_eof_exact_witness:
  "\<exists>v. vfs_close 0 1 one_pipe = Some v \<and> pipe_writers_open 0 0 one_pipe = Some True \<and> pipe_writers_open 0 0 v = Some False"
proof -
  have ok: "vfs_inv no_leaks one_pipe" using vfs_reach_inv [OF one_pipe_reach(1)] by simp
  obtain v where v: "vfs_close 0 1 one_pipe = Some v" "tables v = (tables one_pipe)[0 := (tables one_pipe ! 0)[1 := None]]"
    using vfs_close_keeps [OF ok, of 0 1] by (auto simp: MAX_PROCS_def MAX_OPEN_def)
  have "vfs_reach (v, no_leaks)" using reach_step [OF one_pipe_reach(1) st_close [OF _ v(1)]] by (simp add: MAX_PROCS_def)
  then have "pipe_writers_open 0 0 v = Some ((\<exists>t \<in> set (tables v). Some (PipeEnd 0 True) \<in> set t) \<or> 0 < no_leaks 0 True)"
    by (rule pipe_eof_exact) (simp_all add: v(2) one_pipe_eq(2) get_fd_def MAX_PROCS_def)
  moreover have "pipe_writers_open 0 0 one_pipe = Some ((\<exists>t \<in> set (tables one_pipe). Some (PipeEnd 0 True) \<in> set t) \<or> 0 < no_leaks 0 True)"
    using one_pipe_reach by (intro pipe_eof_exact) (simp_all add: get_fd_def MAX_PROCS_def MAX_OPEN_def)
  ultimately show ?thesis using v(1) by (auto simp: v(2) one_pipe_eq(2) no_leaks_def)
qed

text \<open>
  The access mode chosen at open time is enforced for the life of a descriptor. A read on
  a descriptor opened for writing, and a write on one opened for reading, transfer nothing and
  change nothing; the permitted direction reaches the file at the descriptor's offset and
  advances it by what was transferred.
\<close>

theorem access_mode_enforced:
  assumes "vfs_inv L v" and "cur < MAX_PROCS" and "get_fd (tables v ! cur) fd = Some (File ino off w f)"
  shows "(if w
          then vfs_read cur fd data v = Some (0, data, v)
             \<and> vfs_write cur fd data v =
                 do { (n, s) \<leftarrow> write_at ino off data (vfs_fs v);
                      Some (n, put_fd cur fd (Some (File ino (off + n) w f)) (v\<lparr>vfs_fs := s\<rparr>)) }
          else vfs_write cur fd data v = Some (0, v)
             \<and> vfs_read cur fd data v =
                 do { (n, data', s) \<leftarrow> read_at ino off data (vfs_fs v);
                      Some (n, data', put_fd cur fd (Some (File ino (off + n) w f)) (v\<lparr>vfs_fs := s\<rparr>)) })"
  using vfs_write_file [OF assms] vfs_read_file [OF assms] by simp

definition one_file :: vfs where
  "one_file = put_fd 0 0 (Some (File 2 0 False FReading)) (VFS_init (blank_fs 64))"

lemma one_file_ok: "vfs_inv no_leaks one_file" "get_fd (tables one_file ! 0) 0 = Some (File 2 0 False FReading)"
proof -
  show "vfs_inv no_leaks one_file"
    unfolding one_file_def
    by (rule put_file_keeps [OF vfs_inv_init]) (simp_all add: VFS_init_def MAX_PROCS_def MAX_OPEN_def)
  show "get_fd (tables one_file ! 0) 0 = Some (File 2 0 False FReading)"
    by (simp add: one_file_def VFS_init_def MAX_PROCS_def MAX_OPEN_def get_fd_def)
qed

theorem access_mode_enforced_witness:
  "(if False
    then vfs_read 0 0 [7] one_file = Some (0, [7], one_file)
       \<and> vfs_write 0 0 [7] one_file =
           do { (n, s) \<leftarrow> write_at 2 0 [7] (vfs_fs one_file);
                Some (n, put_fd 0 0 (Some (File 2 (0 + n) False FReading)) (one_file\<lparr>vfs_fs := s\<rparr>)) }
    else vfs_write 0 0 [7] one_file = Some (0, one_file)
       \<and> vfs_read 0 0 [7] one_file =
           do { (n, data', s) \<leftarrow> read_at 2 0 [7] (vfs_fs one_file);
                Some (n, data', put_fd 0 0 (Some (File 2 (0 + n) False FReading)) (one_file\<lparr>vfs_fs := s\<rparr>)) })"
  by (rule access_mode_enforced [OF one_file_ok(1) _ one_file_ok(2)]) (simp add: MAX_PROCS_def)

text \<open>
  \<open>dup2\<close> cannot panic, and it makes the new descriptor a copy of the old one (closing
  what the new one was) exactly when the old one is open and the new one is in range; every
  other descriptor of every process is unchanged, and the reference counts stay exact.
\<close>

theorem dup2_spec:
  assumes "vfs_reach (v, L)" and "cur < MAX_PROCS"
  shows "\<exists>r v'. vfs_dup2 cur oldfd newfd v = Some (r, v') \<and> vfs_inv L v'
     \<and> (r = (if newfd < MAX_OPEN \<and> get_fd (tables v ! cur) oldfd \<noteq> None then Some newfd else None))
     \<and> tables v' = (if r = None then tables v
                    else (tables v)[cur := (tables v ! cur)[newfd := get_fd (tables v ! cur) oldfd]])"
  using vfs_dup2_keeps [OF _ assms(2)] vfs_reach_inv [OF assms(1)] by simp

theorem dup2_spec_witness:
  "\<exists>r v'. vfs_dup2 0 0 5 one_pipe = Some (r, v') \<and> vfs_inv no_leaks v'
     \<and> (r = (if 5 < MAX_OPEN \<and> get_fd (tables one_pipe ! 0) 0 \<noteq> None then Some 5 else None))
     \<and> tables v' = (if r = None then tables one_pipe
                    else (tables one_pipe)[0 := (tables one_pipe ! 0)[5 := get_fd (tables one_pipe ! 0) 0]])"
  by (rule dup2_spec [OF one_pipe_reach(1)]) (simp add: MAX_PROCS_def)

text \<open>
  A fork gives the child a copy of the parent's whole descriptor table, after releasing
  whatever a former process left in the child's slot, and keeps every count exact.
\<close>

theorem fork_inherits_fds:
  assumes "vfs_reach (v, L)" and "dst < MAX_PROCS" and "src < MAX_PROCS" and "dst \<noteq> src"
  shows "\<exists>v'. clone_fds dst src v = Some v' \<and> vfs_inv L v' \<and> tables v' = (tables v)[dst := tables v ! src]"
  using clone_fds_keeps [OF _ assms(2-4)] vfs_reach_inv [OF assms(1)] by simp

theorem fork_inherits_fds_witness:
  "\<exists>v'. clone_fds 1 0 one_pipe = Some v' \<and> vfs_inv no_leaks v'
     \<and> tables v' = (tables one_pipe)[1 := tables one_pipe ! 0]"
  by (rule fork_inherits_fds [OF one_pipe_reach(1)]) (simp_all add: MAX_PROCS_def)

text \<open>
  \<open>dup\<close> on a full table leaks a pipe reference. It fails and installs no descriptor, but
  the pipe's count has already been raised.
\<close>

theorem dup_full_leaks:
  assumes "vfs_inv L v" and "cur < MAX_PROCS" and "free_fd 0 (tables v ! cur) = None"
    and "get_fd (tables v ! cur) fd = Some (PipeEnd i w)"
  shows "\<exists>v'. vfs_dup cur fd v = Some (None, v') \<and> tables v' = tables v
     \<and> pipe_refs (pipes v') i = (refs L (tables v) i False + of_bool (\<not> w), refs L (tables v) i True + of_bool w)"
proof -
  obtain v' where v': "vfs_dup cur fd v = Some (None, v')" "tables v' = tables v" "vfs_inv (dup_leaks cur fd v L) v'"
    using vfs_dup_full [OF assms(1-3)] by blast
  have i: "i < MAX_PIPES" using table_ok_get [OF tables_ok_nth assms(4)] assms(1,2) by (auto simp: vfs_inv_def)
  then have "pipe_counted (pipes v' ! i) (refs (dup_leaks cur fd v L) (tables v) i False) (refs (dup_leaks cur fd v L) (tables v) i True)"
    using v'(2,3) by (simp add: vfs_inv_def pool_inv_def)
  then have "pipe_refs (pipes v') i = (refs (dup_leaks cur fd v L) (tables v) i False, refs (dup_leaks cur fd v L) (tables v) i True)"
    by (auto simp: pipe_refs_def pipe_counted_def split: option.splits)
  then show ?thesis using v' assms(3,4) by (simp add: refs_def dup_leaks_def)
qed

end
