(* ===== verification/FsInv.thy ===== *)
theory FsInv
  imports FsCore
begin

text \<open>
  The state of a mounted file system seen through its blocks: where the inodes and the bitmap
  bits live, and what each operation of \<open>FsCore\<close> changes. The cache disappears here: every
  lemma speaks about \<open>blocks\<close>, the content of the disk.
\<close>

section \<open>Mounted states\<close>

definition fs_ok :: "fs \<Rightarrow> bool" where
  [inv_defs]: "fs_ok s \<longleftrightarrow> cache_ok s \<and> lay s = for_total (total_blocks (lay s))
     \<and> unat (data_start (lay s)) \<le> unat (total_blocks (lay s))
     \<and> unat (total_blocks (lay s)) \<le> DISK_SECTORS"

definition data_block :: "fs \<Rightarrow> u32 \<Rightarrow> bool" where
  "data_block s b \<longleftrightarrow> unat (data_start (lay s)) \<le> unat b \<and> unat b < unat (total_blocks (lay s))"

definition inode_block :: "fs \<Rightarrow> u32 \<Rightarrow> u32" where
  "inode_block s ino = fst (inode_loc (lay s) ino)"

definition inode_at :: "fs \<Rightarrow> u32 \<Rightarrow> inode" where
  "inode_at s ino = the (Inode_parse (blocks s (inode_block s ino)) (snd (inode_loc (lay s) ino)))"

definition bm_block :: "u32 \<Rightarrow> u32" where
  "bm_block b = BITMAP_START + b div BITS_PER_BLOCK"

definition bm_bit :: "u32 \<Rightarrow> nat" where
  "bm_bit b = unat b mod 4096"

definition block_used :: "fs \<Rightarrow> u32 \<Rightarrow> bool" where
  "block_used s b \<longleftrightarrow> bitmap_get (blocks s (bm_block b)) (bm_bit b)"

text \<open>States that differ in the cache only.\<close>

definition same_fs :: "fs \<Rightarrow> fs \<Rightarrow> bool" where
  "same_fs s s' \<longleftrightarrow> blocks s' = blocks s \<and> lay s' = lay s"

lemma same_fs_refl [simp]: "same_fs s s"
  by (simp add: same_fs_def)

lemma same_fs_trans: "same_fs s s' \<Longrightarrow> same_fs s' s'' \<Longrightarrow> same_fs s s''"
  by (simp add: same_fs_def)

lemma same_fs_observe:
  assumes "same_fs s s'"
  shows "blocks s' = blocks s" "lay s' = lay s" "inode_at s' = inode_at s"
    "inode_block s' = inode_block s" "block_used s' = block_used s" "data_block s' = data_block s"
  using assms
  by (auto simp: same_fs_def inode_at_def inode_block_def block_used_def data_block_def fun_eq_iff)

lemma bitmap_loc_eq: "bitmap_loc l b = (bm_block b, bm_bit b div 8, bm_bit b mod 8)"
  by (simp add: bitmap_loc_def bm_block_def bm_bit_def Let_def fs_consts unat_div_distrib unat_mod_distrib)

lemma bm_bit_lt [simp]: "bm_bit b < 8 * BLOCK_SIZE"
  by (simp add: bm_bit_def BLOCK_SIZE_def)

lemma unat_bm_block: "unat (bm_block b) = 1 + unat b div 4096"
  using bitmap_loc_unat(1) [of undefined b] by (simp add: bitmap_loc_eq)

lemma bm_place_inj: "bm_block a = bm_block b \<Longrightarrow> bm_bit a = bm_bit b \<Longrightarrow> a = b"
  using unat_bm_block [of a] unat_bm_block [of b]
  by (simp add: bm_bit_def) (metis div_mult_mod_eq unat_eq_iff)

section \<open>The regions\<close>

lemma region_total: "fs_ok s \<Longrightarrow> unat b < unat (total_blocks (lay s)) \<Longrightarrow> disk_block b"
  by (simp add: fs_ok_def disk_block_def)

lemma region_bitmap:
  assumes "fs_ok s" and "unat b < unat (total_blocks (lay s))"
  shows "0 < unat (bm_block b)" and "unat (bm_block b) < unat (inode_start (lay s))"
  using bitmap_loc_region [OF bitmap_loc_eq, of b "total_blocks (lay s)"] assms
  by (simp_all add: fs_ok_def)

lemma region_inode:
  assumes "fs_ok s" and "unat ino < 128"
  shows "unat (inode_start (lay s)) \<le> unat (inode_block s ino)"
    and "unat (inode_block s ino) < unat (data_start (lay s))"
proof -
  let ?t = "total_blocks (lay s)"
  have l: "for_total ?t = lay s" using assms(1) by (simp add: fs_ok_def)
  show "unat (inode_start (lay s)) \<le> unat (inode_block s ino)"
    using inode_loc_table(1) [OF assms(2), of ?t] by (simp only: l inode_block_def)
  show "unat (inode_block s ino) < unat (data_start (lay s))"
    using inode_loc_table(2) [OF assms(2), of ?t] by (simp only: l inode_block_def)
qed

lemma region_disk:
  assumes "fs_ok s"
  shows "unat ino < 128 \<Longrightarrow> disk_block (inode_block s ino)"
    and "unat b < unat (total_blocks (lay s)) \<Longrightarrow> disk_block (bm_block b)"
    and "data_block s b \<Longrightarrow> disk_block b"
  using assms region_inode [OF assms, of ino] region_bitmap [OF assms, of b]
    region_inode [OF assms, of 0]
  by (auto simp: fs_ok_def disk_block_def data_block_def)

lemma region_apart:
  assumes "fs_ok s"
  shows "unat ino < 128 \<Longrightarrow> unat b < unat (total_blocks (lay s)) \<Longrightarrow> inode_block s ino \<noteq> bm_block b"
    and "unat ino < 128 \<Longrightarrow> data_block s b \<Longrightarrow> inode_block s ino \<noteq> b"
    and "unat c < unat (total_blocks (lay s)) \<Longrightarrow> data_block s b \<Longrightarrow> bm_block c \<noteq> b"
  using assms region_inode [OF assms, of ino] region_bitmap [OF assms, of b]
    region_bitmap [OF assms, of c] region_inode [OF assms, of 0]
  by (auto simp: data_block_def)

lemma read_block_fs:
  assumes "fs_ok s" and "disk_block b"
  obtains s' where "read_block b s = (blocks s b, s')" "fs_ok s'" "same_fs s s'"
proof
  show "read_block b s = (blocks s b, snd (read_block b s))"
    using assms read_block_val [of s b] by (simp add: fs_ok_def prod_eq_iff)
  show "fs_ok (snd (read_block b s))"
    using assms read_block_invar [of s b] by (simp add: fs_ok_def)
  show "same_fs s (snd (read_block b s))"
    by (simp add: same_fs_def read_block_blocks)
qed

lemma write_block_fs:
  assumes "fs_ok s" and "disk_block b" and "length d = BLOCK_SIZE"
  shows "fs_ok (write_block b d s)" and "blocks (write_block b d s) = (blocks s)(b := d)"
    and "lay (write_block b d s) = lay s"
  using assms by (simp_all add: fs_ok_def write_block_invar write_block_blocks)

lemma length_blocks_fs [simp]: "fs_ok s \<Longrightarrow> length (blocks s b) = BLOCK_SIZE"
  by (simp add: fs_ok_def)

section \<open>Inodes\<close>

lemma inode_at_parse:
  assumes "fs_ok s"
  shows "Inode_parse (blocks s (inode_block s ino)) (snd (inode_loc (lay s) ino)) = Some (inode_at s ino)"
  using Inode_parse_in_range [of "snd (inode_loc (lay s) ino)" "blocks s (inode_block s ino)"]
    inode_loc_off [of "lay s" ino] assms by (auto simp: inode_at_def)

lemma inode_at_ok: "fs_ok s \<Longrightarrow> inode_ok (inode_at s ino)"
  using inode_at_parse Inode_parse_ok by blast

lemma read_inode_fs:
  assumes "fs_ok s" and "unat ino < 128"
  obtains s' where "read_inode ino s = Some (inode_at s ino, s')" "fs_ok s'" "same_fs s s'"
proof -
  obtain s' where "read_block (inode_block s ino) s = (blocks s (inode_block s ino), s')"
      "fs_ok s'" "same_fs s s'"
    using read_block_fs [OF assms(1) region_disk(1) [OF assms]] by blast
  then show ?thesis
    using that [of s'] inode_at_parse [OF assms(1), of ino]
    by (simp add: read_inode_def inode_block_def Let_def case_prod_unfold)
qed

text \<open>Writing an inode changes that inode and nothing else.\<close>

lemma write_inode_fs:
  assumes ok: "fs_ok s" and ino: "unat ino < 128" and n: "inode_ok n"
  obtains s' where "write_inode ino n s = Some s'" "fs_ok s'" "lay s' = lay s"
    "inode_at s' ino = n"
    "\<And>j. unat j < 128 \<Longrightarrow> j \<noteq> ino \<Longrightarrow> inode_at s' j = inode_at s j"
    "\<And>b. b \<noteq> inode_block s ino \<Longrightarrow> blocks s' b = blocks s b"
proof -
  let ?b = "inode_block s ino" and ?o = "snd (inode_loc (lay s) ino)"
  let ?d = "blit (blocks s ?b) ?o (inode_bytes n)"
  obtain s1 where s1: "read_block ?b s = (blocks s ?b, s1)" "fs_ok s1" "same_fs s s1"
    using read_block_fs [OF ok region_disk(1) [OF ok ino]] by blast
  define s' where "s' = write_block ?b ?d s1"
  have off: "?o + INODE_SIZE \<le> length (blocks s ?b)"
    using ok inode_loc_off [of "lay s" ino] by simp
  have w: "Inode_write n (blocks s ?b) ?o = Some ?d"
    using Inode_write_blit [OF n off] .
  have len: "length ?d = BLOCK_SIZE" using ok off n by simp
  have s': "fs_ok s'" "blocks s' = (blocks s)(?b := ?d)" "lay s' = lay s"
    unfolding s'_def using write_block_fs [OF s1(2) region_disk(1) [OF ok ino] len]
      same_fs_observe [OF s1(3)] by simp_all
  then have ib: "inode_block s' = inode_block s" by (simp add: inode_block_def fun_eq_iff)
  have "write_inode ino n s = Some s'"
    using s1 w by (simp add: write_inode_def s'_def inode_block_def Let_def case_prod_unfold)
  moreover have "inode_at s' ino = n"
    using s' ib Inode_parse_blit_same [OF n off] by (simp add: inode_at_def)
  moreover have "inode_at s' j = inode_at s j" if j: "unat j < 128" "j \<noteq> ino" for j
  proof (cases "inode_block s j = ?b")
    case True
    have l: "lay s = for_total (total_blocks (lay s))" using ok by (simp add: fs_ok_def)
    from True have "fst (inode_loc (lay s) j) = fst (inode_loc (lay s) ino)" by (simp add: inode_block_def)
    then have "snd (inode_loc (lay s) j) + INODE_SIZE \<le> ?o \<or> ?o + INODE_SIZE \<le> snd (inode_loc (lay s) j)"
      using inode_loc_disjoint [OF j(1) ino j(2), of "total_blocks (lay s)"] l by metis
    then have "Inode_parse ?d (snd (inode_loc (lay s) j)) = Inode_parse (blocks s ?b) (snd (inode_loc (lay s) j))"
      using off n by (intro Inode_parse_blit_other) simp_all
    with True s' ib show ?thesis by (simp add: inode_at_def)
  next
    case False
    with s' ib show ?thesis by (simp add: inode_at_def)
  qed
  ultimately show ?thesis using that [of s'] s' by simp
qed

section \<open>The block allocator\<close>

definition claimed :: "fs \<Rightarrow> u32 \<Rightarrow> u32 \<Rightarrow> bytes" where
  "claimed s b = ((blocks s)(bm_block b := bitmap_set (blocks s (bm_block b)) (bm_bit b)))
                   (b := zero_block)"

lemma length_zero_block [simp]: "length zero_block = BLOCK_SIZE"
  by (simp add: zero_block_def)

lemma alloc_block_from_fs:
  assumes "fs_ok s" and "unat (data_start (lay s)) \<le> i" and "n = unat (total_blocks (lay s))"
  shows "(\<exists>s'. alloc_block_from i n s = Some (None, s') \<and> fs_ok s' \<and> same_fs s s'
            \<and> (\<forall>b. i \<le> unat b \<and> unat b < n \<longrightarrow> block_used s b))
       \<or> (\<exists>b s'. alloc_block_from i n s = Some (Some b, s') \<and> fs_ok s' \<and> lay s' = lay s
            \<and> i \<le> unat b \<and> unat b < n \<and> \<not> block_used s b \<and> blocks s' = claimed s b
            \<and> (\<forall>c. i \<le> unat c \<and> unat c < unat b \<longrightarrow> block_used s c))"
  using assms
proof (induction "n - i" arbitrary: i s)
  case 0
  then have "alloc_block_from i n s = Some (None, s)" by (subst alloc_block_from.simps) simp
  with 0 show ?case by (intro disjI1 exI [of _ s]) auto
next
  case (Suc k)
  let ?b = "of_nat i :: u32"
  have lt: "i < n" using Suc.hyps(2) by simp
  have n32: "n < 2 ^ 32" using Suc.prems(3) unat_lt2p [of "total_blocks (lay s)"] by simp
  have ub: "unat ?b = i" using lt n32 by (simp add: unat_of_nat take_bit_nat_eq_self)
  have btot: "unat ?b < unat (total_blocks (lay s))" using lt ub Suc.prems(3) by simp
  have data: "data_block s ?b" using Suc.prems ub lt by (simp add: data_block_def)
  note dbm = region_disk(2) [OF Suc.prems(1) btot]
  obtain s1 where s1: "read_block (bm_block ?b) s = (blocks s (bm_block ?b), s1)" "fs_ok s1" "same_fs s s1"
    using read_block_fs [OF Suc.prems(1) dbm] by blast
  note obs = same_fs_observe [OF s1(3)]
  let ?bm = "blocks s (bm_block ?b)"
  have idx: "index ?bm (bm_bit ?b div 8) = Some (?bm ! (bm_bit ?b div 8))"
    using Suc.prems(1) bm_bit_lt [of ?b] by (simp add: index_def less_mult_imp_div_less mult.commute)
  show ?case
  proof (cases "block_used s ?b")
    case True
    then have step: "alloc_block_from i n s = alloc_block_from (Suc i) n s1"
      using lt s1 idx
      by (subst alloc_block_from.simps)
        (simp add: bitmap_loc_eq Let_def block_used_def bitmap_get_def)
    have cover: "block_used s c" if "i \<le> unat c" "\<not> Suc i \<le> unat c" for c
    proof -
      have "unat c = unat ?b" using that ub by simp
      then show ?thesis using True by simp
    qed
    have "k = n - Suc i" "unat (data_start (lay s1)) \<le> Suc i" "n = unat (total_blocks (lay s1))"
      using Suc obs by simp_all
    from Suc.hyps(1) [OF this(1) s1(2) this(2,3)]
    consider (full) s' where "alloc_block_from (Suc i) n s1 = Some (None, s')" "fs_ok s'" "same_fs s1 s'"
          "\<forall>b. Suc i \<le> unat b \<and> unat b < n \<longrightarrow> block_used s1 b"
      | (got) b s' where "alloc_block_from (Suc i) n s1 = Some (Some b, s')" "fs_ok s'" "lay s' = lay s1"
          "Suc i \<le> unat b" "unat b < n" "\<not> block_used s1 b" "blocks s' = claimed s1 b"
          "\<forall>c. Suc i \<le> unat c \<and> unat c < unat b \<longrightarrow> block_used s1 c"
      by blast
    then show ?thesis
    proof cases
      case full
      then show ?thesis using step cover obs same_fs_trans [OF s1(3)] by metis
    next
      case got
      have "claimed s1 b = claimed s b" by (simp add: claimed_def obs)
      with got show ?thesis using step cover obs by (metis Suc_leD)
    qed
  next
    case False
    let ?s2 = "write_block (bm_block ?b) (bitmap_set ?bm (bm_bit ?b)) s1"
    let ?s3 = "write_block ?b zero_block ?s2"
    have step: "alloc_block_from i n s = Some (Some ?b, ?s3)"
      using lt s1 idx False
      by (subst alloc_block_from.simps)
        (simp add: bitmap_loc_eq Let_def block_used_def bitmap_get_def bitmap_set_def)
    have w2: "fs_ok ?s2" "blocks ?s2 = (blocks s)(bm_block ?b := bitmap_set ?bm (bm_bit ?b))" "lay ?s2 = lay s"
      using write_block_fs [OF s1(2) dbm, of "bitmap_set ?bm (bm_bit ?b)"] Suc.prems(1) obs by simp_all
    have w3: "fs_ok ?s3" "blocks ?s3 = claimed s ?b" "lay ?s3 = lay s"
      using write_block_fs [OF w2(1) region_disk(3) [OF Suc.prems(1) data], of zero_block] w2
      by (simp_all add: claimed_def)
    show ?thesis using step w3 False ub lt by (intro disjI2 exI [of _ ?b] exI [of _ ?s3]) auto
  qed
qed

text \<open>
  What an allocation changes: the block's own bit, and its content, which is zeroed.
\<close>

lemma claimed_facts:
  assumes ok: "fs_ok s" and b: "data_block s b" and s': "blocks s' = claimed s b" "lay s' = lay s"
  shows "blocks s' b = zero_block"
    and "unat c < unat (total_blocks (lay s)) \<Longrightarrow> block_used s' c \<longleftrightarrow> c = b \<or> block_used s c"
    and "data_block s c \<Longrightarrow> c \<noteq> b \<Longrightarrow> blocks s' c = blocks s c"
    and "unat ino < 128 \<Longrightarrow> inode_at s' ino = inode_at s ino"
proof -
  have bt: "unat b < unat (total_blocks (lay s))" using b by (simp add: data_block_def)
  show "blocks s' b = zero_block" using s' by (simp add: claimed_def)
  show "data_block s c \<Longrightarrow> c \<noteq> b \<Longrightarrow> blocks s' c = blocks s c"
    using s' region_apart(3) [OF ok bt, of c] by (simp add: claimed_def)
  show "inode_at s' ino = inode_at s ino" if "unat ino < 128"
    using s' region_apart(1) [OF ok that bt] region_apart(2) [OF ok that b]
    by (simp add: inode_at_def inode_block_def claimed_def)
  show "block_used s' c \<longleftrightarrow> c = b \<or> block_used s c" if c: "unat c < unat (total_blocks (lay s))"
    using s' region_apart(3) [OF ok c b] bm_place_inj [of c b] ok
    by (auto simp: block_used_def claimed_def bitmap_get_set)
qed

lemma free_block_fs:
  assumes ok: "fs_ok s" and b: "data_block s b"
  obtains s' where "free_block b s = Some s'" "fs_ok s'" "lay s' = lay s"
    "\<And>c. unat c < unat (total_blocks (lay s)) \<Longrightarrow> block_used s' c \<longleftrightarrow> c \<noteq> b \<and> block_used s c"
    "\<And>c. c \<noteq> bm_block b \<Longrightarrow> blocks s' c = blocks s c"
    "\<And>ino. unat ino < 128 \<Longrightarrow> inode_at s' ino = inode_at s ino"
proof -
  have bt: "unat b < unat (total_blocks (lay s))" using b by (simp add: data_block_def)
  note dbm = region_disk(2) [OF ok bt]
  let ?bm = "blocks s (bm_block b)"
  obtain s1 where s1: "read_block (bm_block b) s = (?bm, s1)" "fs_ok s1" "same_fs s s1"
    using read_block_fs [OF ok dbm] by blast
  define s' where "s' = write_block (bm_block b) (bitmap_clear ?bm (bm_bit b)) s1"
  have idx: "index ?bm (bm_bit b div 8) = Some (?bm ! (bm_bit b div 8))"
    using ok bm_bit_lt [of b] by (simp add: index_def less_mult_imp_div_less mult.commute)
  have "free_block b s = Some s'"
    using s1 idx by (simp add: free_block_def bitmap_loc_eq Let_def s'_def bitmap_clear_def)
  moreover have w: "fs_ok s'" "blocks s' = (blocks s)(bm_block b := bitmap_clear ?bm (bm_bit b))" "lay s' = lay s"
    using write_block_fs [OF s1(2) dbm, of "bitmap_clear ?bm (bm_bit b)"] ok same_fs_observe [OF s1(3)]
    by (simp_all add: s'_def)
  moreover have "block_used s' c \<longleftrightarrow> c \<noteq> b \<and> block_used s c" for c
    using w(2) bm_place_inj [of c b] ok by (auto simp: block_used_def bitmap_get_clear)
  moreover have "inode_at s' ino = inode_at s ino" if "unat ino < 128" for ino
    using w region_apart(1) [OF ok that bt] by (simp add: inode_at_def inode_block_def)
  ultimately show ?thesis using that [of s'] by simp
qed

lemma alloc_block_fs:
  assumes "fs_ok s"
  obtains (full) s' where "alloc_block s = Some (None, s')" "fs_ok s'" "same_fs s s'"
      "\<And>b. data_block s b \<Longrightarrow> block_used s b"
    | (got) b s' where "alloc_block s = Some (Some b, s')" "fs_ok s'" "lay s' = lay s"
      "data_block s b" "\<not> block_used s b" "blocks s' = claimed s b"
      "\<And>c. data_block s c \<Longrightarrow> unat c < unat b \<Longrightarrow> block_used s c"
  using alloc_block_from_fs [OF assms le_refl refl] full got
  unfolding alloc_block_def data_block_def by blast

section \<open>Properties\<close>

lemma INODE_COUNT_less: "ino < INODE_COUNT \<longleftrightarrow> unat ino < 128"
  by (simp add: word_less_nat_alt fs_consts)

lemma blank_fs_ok: "fs_ok (blank_fs 1024)"
  using blank_cache_ok [of 1024] for_total_unat [of 1024]
  by (simp add: fs_ok_def blank_fs_def DISK_SECTORS_def)

text \<open>
  Mounting a disk whose superblock carries the magic number and a size that fits the
  device establishes the file system's invariant, changes no block, and leaves the geometry
  of that size; a disk with another magic number is refused and the layout is kept.
\<close>

theorem mount_spec:
  assumes "cache_ok s" and "Superblock_parse (blocks s SB_BLOCK) = Some sb"
  shows "\<exists>s'. mount s = Some (magic sb = MAGIC, s') \<and> blocks s' = blocks s
     \<and> (if magic sb = MAGIC
        then lay s' = for_total (sb_total_blocks sb)
             \<and> (fs_ok s' \<longleftrightarrow> unat (data_start (for_total (sb_total_blocks sb))) \<le> unat (sb_total_blocks sb)
                           \<and> unat (sb_total_blocks sb) \<le> DISK_SECTORS)
        else lay s' = lay s)"
proof -
  let ?s1 = "snd (read_block SB_BLOCK s)"
  have r: "read_block SB_BLOCK s = (blocks s SB_BLOCK, ?s1)"
    using read_block_val [OF assms(1), of SB_BLOCK]
    by (simp add: prod_eq_iff disk_block_def SB_BLOCK_def DISK_SECTORS_def)
  have k: "blocks ?s1 = blocks s" "cache_ok ?s1"
    using read_block_blocks read_block_invar [OF assms(1)] by simp_all
  have c: "cache_ok (?s1\<lparr>lay := l\<rparr>)" for l
    using k(2) by (simp add: cache_ok_def blocks_def)
  have tb: "total_blocks (for_total t) = t" for t by (rule for_total_unat(4))
  have l: "lay ?s1 = lay s" by simp
  have e: "mount s = Some (magic sb = MAGIC,
      if magic sb = MAGIC then ?s1\<lparr>lay := for_total (sb_total_blocks sb)\<rparr> else ?s1)"
    by (subst mount_def, subst check_superblock_def, subst r) (simp add: assms(2) fsm_simps)
  have "blocks (?s1\<lparr>lay := l\<rparr>) = blocks s" for l
    using k(1) by (simp add: blocks_def fun_eq_iff)
  then show ?thesis
    using k c tb l e by (cases "magic sb = MAGIC") (simp_all add: fs_ok_def)
qed

theorem mount_spec_witness:
  "\<exists>s'. mount (blank_fs 64) = Some (magic \<lparr>magic = 0, sb_total_blocks = 0\<rparr> = MAGIC, s')
     \<and> blocks s' = blocks (blank_fs 64)
     \<and> (if magic \<lparr>magic = 0, sb_total_blocks = 0\<rparr> = MAGIC
        then lay s' = for_total (sb_total_blocks \<lparr>magic = 0, sb_total_blocks = 0\<rparr>)
             \<and> (fs_ok s' \<longleftrightarrow> unat (data_start (for_total (sb_total_blocks \<lparr>magic = 0, sb_total_blocks = 0\<rparr>)))
                                 \<le> unat (sb_total_blocks \<lparr>magic = 0, sb_total_blocks = 0\<rparr>)
                           \<and> unat (sb_total_blocks \<lparr>magic = 0, sb_total_blocks = 0\<rparr>) \<le> DISK_SECTORS)
        else lay s' = lay (blank_fs 64))"
  by (rule mount_spec [OF blank_cache_ok])
    (simp add: Superblock_parse_def blank_fs_def blocks_def zero_block_def BLOCK_SIZE_def rd_u32_def
      index_def u32_from_le_def)

text \<open>
  An inode written is the inode read back, and every other inode of the table reads as
  before: the 128-byte slots do not overlap, whatever the block size and the cache do.
\<close>

theorem inode_write_read:
  assumes "fs_ok s" and "ino < INODE_COUNT" and "inode_ok n" and "j < INODE_COUNT"
  shows "\<exists>s' s1 s2 m. write_inode ino n s = Some s' \<and> fs_ok s'
     \<and> read_inode j s = Some (m, s1) \<and> read_inode j s' = Some (if j = ino then n else m, s2)"
proof -
  have lt: "unat ino < 128" "unat j < 128" using assms by (simp_all add: INODE_COUNT_less)
  obtain s' where s': "write_inode ino n s = Some s'" "fs_ok s'" "inode_at s' ino = n"
      "\<And>j. unat j < 128 \<Longrightarrow> j \<noteq> ino \<Longrightarrow> inode_at s' j = inode_at s j"
    using write_inode_fs [OF assms(1) lt(1) assms(3)] by blast
  obtain s1 where "read_inode j s = Some (inode_at s j, s1)" using read_inode_fs [OF assms(1) lt(2)] by blast
  moreover obtain s2 where "read_inode j s' = Some (inode_at s' j, s2)" using read_inode_fs [OF s'(2) lt(2)] by blast
  ultimately show ?thesis using s' lt by (cases "j = ino") auto
qed

theorem inode_write_read_witness:
  "\<exists>s' s1 s2 m. write_inode 5 Inode_empty (blank_fs 1024) = Some s' \<and> fs_ok s'
     \<and> read_inode 6 (blank_fs 1024) = Some (m, s1)
     \<and> read_inode 6 s' = Some (if (6::u32) = 5 then Inode_empty else m, s2)"
  by (rule inode_write_read [OF blank_fs_ok])
    (simp_all add: INODE_COUNT_less inode_ok_def Inode_empty_def NDIRECT_def)

text \<open>
  C1: \<open>alloc_block\<close> never panics on a mounted file system. It returns the first free block
  of the data region, which was not in use, marks exactly that block used, zeroes it, and
  changes no other data block and no inode; it returns no block only when every data block
  is in use.
\<close>

theorem alloc_block_safe:
  assumes "fs_ok s"
  shows "\<exists>r s'. alloc_block s = Some (r, s') \<and> fs_ok s' \<and>
     (case r of
        None \<Rightarrow> blocks s' = blocks s \<and> (\<forall>b. data_block s b \<longrightarrow> block_used s b)
      | Some b \<Rightarrow> data_block s b \<and> \<not> block_used s b \<and> blocks s' b = zero_block
          \<and> (\<forall>c. data_block s c \<longrightarrow> block_used s' c = (c = b \<or> block_used s c)
                                  \<and> (c \<noteq> b \<longrightarrow> blocks s' c = blocks s c)
                                  \<and> (c < b \<longrightarrow> block_used s c))
          \<and> (\<forall>ino. ino < INODE_COUNT \<longrightarrow> inode_at s' ino = inode_at s ino))"
proof (cases rule: alloc_block_fs [OF assms])
  case (1 s')
  then show ?thesis by (auto simp: same_fs_def)
next
  case (2 b s')
  then show ?thesis
    using claimed_facts [OF assms 2(4) 2(6) 2(3)]
    by (auto simp: INODE_COUNT_less data_block_def word_less_nat_alt [of _ b])
qed

theorem alloc_block_safe_witness:
  "\<exists>r s'. alloc_block (blank_fs 1024) = Some (r, s') \<and> fs_ok s' \<and>
     (case r of
        None \<Rightarrow> blocks s' = blocks (blank_fs 1024)
                 \<and> (\<forall>b. data_block (blank_fs 1024) b \<longrightarrow> block_used (blank_fs 1024) b)
      | Some b \<Rightarrow> data_block (blank_fs 1024) b \<and> \<not> block_used (blank_fs 1024) b
          \<and> blocks s' b = zero_block
          \<and> (\<forall>c. data_block (blank_fs 1024) c \<longrightarrow>
                   block_used s' c = (c = b \<or> block_used (blank_fs 1024) c)
                   \<and> (c \<noteq> b \<longrightarrow> blocks s' c = blocks (blank_fs 1024) c)
                   \<and> (c < b \<longrightarrow> block_used (blank_fs 1024) c))
          \<and> (\<forall>ino. ino < INODE_COUNT \<longrightarrow> inode_at s' ino = inode_at (blank_fs 1024) ino))"
  by (rule alloc_block_safe [OF blank_fs_ok])

end
