(* ===== verification/FsMap.thy ===== *)
theory FsMap
  imports FsInv FsFile
begin

text \<open>
  The block map of a file. The references of an inode to its blocks form a tree of three tiers; a file is
  well formed when no two references meet and every block is allocated. \<open>block_for\<close> of
  \<open>kernel/src/fs.rs\<close> finds the block of a position, and growing a file takes blocks that were free and
  keeps all that was there.
\<close>

section \<open>The references of a file\<close>

datatype ref = Dir nat | Ind | Sgl nat | Dbl | Mid nat | Leaf nat nat

definition ptr :: "fs \<Rightarrow> u32 \<Rightarrow> nat \<Rightarrow> u32" where
  "ptr s b i = (if b = 0 \<or> PTRS_PER_BLOCK \<le> i then 0 else the (rd_u32 (blocks s b) (i * 4)))"

fun val :: "fs \<Rightarrow> inode \<Rightarrow> ref \<Rightarrow> u32" where
  "val s n (Dir i) = (if i < NDIRECT then direct n ! i else 0)"
| "val s n Ind = indirect n"
| "val s n (Sgl i) = ptr s (indirect n) i"
| "val s n Dbl = double_indirect n"
| "val s n (Mid i) = ptr s (double_indirect n) i"
| "val s n (Leaf i j) = ptr s (ptr s (double_indirect n) i) j"

text \<open>The reference to block number \<open>bi\<close> of the file.\<close>

definition data_ref :: "nat \<Rightarrow> ref" where
  "data_ref bi =
     (if bi < NDIRECT then Dir bi
      else if bi - NDIRECT < PTRS_PER_BLOCK then Sgl (bi - NDIRECT)
      else let k = bi - NDIRECT - PTRS_PER_BLOCK in Leaf (k div PTRS_PER_BLOCK) (k mod PTRS_PER_BLOCK))"

definition MAX_BLOCKS :: nat where
  "MAX_BLOCKS = NDIRECT + PTRS_PER_BLOCK + PTRS_PER_BLOCK * PTRS_PER_BLOCK"

definition is_meta :: "ref \<Rightarrow> bool" where
  "is_meta r \<longleftrightarrow> (case r of Ind \<Rightarrow> True | Dbl \<Rightarrow> True | Mid _ \<Rightarrow> True | _ \<Rightarrow> False)"

fun child_ref :: "ref \<Rightarrow> nat \<Rightarrow> ref" where
  "child_ref Ind i = Sgl i"
| "child_ref Dbl i = Mid i"
| "child_ref (Mid i) j = Leaf i j"
| "child_ref r i = r"

definition file_ok :: "fs \<Rightarrow> inode \<Rightarrow> bool" where
  [inv_defs]: "file_ok s n \<longleftrightarrow> inode_ok n
     \<and> (\<forall>r. val s n r \<noteq> 0 \<longrightarrow> data_block s (val s n r) \<and> block_used s (val s n r))
     \<and> (\<forall>r r'. val s n r = val s n r' \<longrightarrow> val s n r \<noteq> 0 \<longrightarrow> r = r')"

definition owns :: "fs \<Rightarrow> inode \<Rightarrow> u32 \<Rightarrow> bool" where
  "owns s n b \<longleftrightarrow> b \<noteq> 0 \<and> (\<exists>r. val s n r = b)"

text \<open>A byte of the file; a hole reads as zero.\<close>

definition byte_of :: "fs \<Rightarrow> inode \<Rightarrow> nat \<Rightarrow> u8" where
  "byte_of s n pos = (let b = val s n (data_ref (pos div BLOCK_SIZE)) in if b = 0 then 0 else blocks s b ! (pos mod BLOCK_SIZE))"

fun ref_pos :: "ref \<Rightarrow> nat" where
  "ref_pos (Dir i) = i"
| "ref_pos (Sgl i) = NDIRECT + i"
| "ref_pos (Leaf i j) = NDIRECT + PTRS_PER_BLOCK + (i * PTRS_PER_BLOCK + j)"
| "ref_pos _ = 0"

lemma ref_pos_data_ref [simp]: "ref_pos (data_ref bi) = bi"
  unfolding data_ref_def Let_def by (auto simp: div_mult_mod_eq)

lemma data_ref_inj: "data_ref a = data_ref b \<Longrightarrow> a = b"
  by (metis ref_pos_data_ref)

lemma data_ref_not_meta [simp]: "\<not> is_meta (data_ref bi)"
  by (simp add: is_meta_def data_ref_def Let_def)

lemma ptr_zero [simp]: "ptr s 0 i = 0"
  by (simp add: ptr_def)

lemma ptr_cong: "blocks s' b = blocks s b \<Longrightarrow> ptr s' b i = ptr s b i"
  by (simp add: ptr_def)

lemma rd_ptr:
  assumes "fs_ok s" "b \<noteq> 0" "i < PTRS_PER_BLOCK"
  shows "rd_u32 (blocks s b) (i * 4) = Some (ptr s b i)"
proof -
  have "i * 4 + 4 \<le> length (blocks s b)" using assms by (simp add: fs_consts)
  then show ?thesis using rd_u32_in_range [of "i * 4" "blocks s b"] assms by (auto simp: ptr_def)
qed

lemma ptr_zero_block: "blocks s b = zero_block \<Longrightarrow> ptr s b i = 0"
  by (simp add: ptr_def rd_u32_def index_def zero_block_def fs_consts u32_from_le_def)

lemma val_child: "is_meta p \<Longrightarrow> val s n (child_ref p i) = ptr s (val s n p) i"
  by (cases p) (simp_all add: is_meta_def)

lemma data_block_nonzero: "fs_ok s \<Longrightarrow> data_block s b \<Longrightarrow> b \<noteq> 0"
  using region_inode [of s 0] by (auto simp: data_block_def)

lemma file_okD:
  assumes "file_ok s n"
  shows "inode_ok n" "val s n r \<noteq> 0 \<Longrightarrow> data_block s (val s n r)" "val s n r \<noteq> 0 \<Longrightarrow> block_used s (val s n r)"
    "val s n r = val s n r' \<Longrightarrow> val s n r \<noteq> 0 \<Longrightarrow> r = r'"
  using assms by (auto simp: file_ok_def)

text \<open>The blocks that hold pointers decide the references.\<close>

lemma val_cong:
  assumes "direct n' = direct n" "indirect n' = indirect n" "double_indirect n' = double_indirect n"
    and "\<And>p. is_meta p \<Longrightarrow> val s n p \<noteq> 0 \<Longrightarrow> blocks s' (val s n p) = blocks s (val s n p)"
  shows "val s' n' = val s n"
proof
  fix r
  have "ptr s' (indirect n) i = ptr s (indirect n) i" for i
    using assms(4) [of Ind] by (cases "indirect n = 0") (auto simp: is_meta_def intro: ptr_cong)
  moreover have m: "ptr s' (double_indirect n) i = ptr s (double_indirect n) i" for i
    using assms(4) [of Dbl] by (cases "double_indirect n = 0") (auto simp: is_meta_def intro: ptr_cong)
  moreover have "ptr s' (ptr s (double_indirect n) i) j = ptr s (ptr s (double_indirect n) i) j" for i j
    using assms(4) [of "Mid i"] by (cases "ptr s (double_indirect n) i = 0") (auto simp: is_meta_def intro: ptr_cong)
  ultimately show "val s' n' r = val s n r" using assms(1-3) by (cases r) simp_all
qed

section \<open>How a file grows\<close>

lemma data_block_lay: "lay s' = lay s \<Longrightarrow> data_block s' = data_block s"
  by (simp add: data_block_def fun_eq_iff)

text \<open>
  One file keeps its references and gains blocks that were free; nothing that belongs to others changes,
  and every block that is taken belongs to the file.
\<close>

definition keeps_files :: "fs \<Rightarrow> inode \<Rightarrow> fs \<Rightarrow> inode \<Rightarrow> bool" where
  "keeps_files s n s' n' \<longleftrightarrow> fs_ok s' \<and> lay s' = lay s \<and> file_ok s' n' \<and> kind n' = kind n \<and> nlink n' = nlink n \<and> fsize n' = fsize n
     \<and> (\<forall>b. data_block s b \<longrightarrow> block_used s b \<longrightarrow> block_used s' b)
     \<and> (\<forall>b. data_block s b \<longrightarrow> block_used s' b \<longrightarrow> block_used s b \<or> owns s' n' b)
     \<and> (\<forall>r. val s n r \<noteq> 0 \<longrightarrow> val s' n' r = val s n r)
     \<and> (\<forall>b. owns s' n' b \<longrightarrow> owns s n b \<or> \<not> block_used s b)
     \<and> (\<forall>b. data_block s b \<longrightarrow> block_used s b \<longrightarrow> \<not> owns s n b \<longrightarrow> blocks s' b = blocks s b)
     \<and> (\<forall>ino. unat ino < 128 \<longrightarrow> inode_at s' ino = inode_at s ino)"

lemma owns_data: "file_ok s n \<Longrightarrow> owns s n b \<Longrightarrow> data_block s b \<and> block_used s b \<and> b \<noteq> 0"
  by (auto simp: owns_def file_ok_def)

lemma keeps_files_refl: "fs_ok s \<Longrightarrow> file_ok s n \<Longrightarrow> keeps_files s n s n"
  by (simp add: keeps_files_def)

lemma keeps_owns: "keeps_files s n s' n' \<Longrightarrow> owns s n b \<Longrightarrow> owns s' n' b"
  unfolding keeps_files_def owns_def by metis

lemma keepsD:
  assumes "keeps_files s n s' n'"
  shows "fs_ok s'" "lay s' = lay s" "file_ok s' n'" "kind n' = kind n" "nlink n' = nlink n" "fsize n' = fsize n"
    "data_block s b \<Longrightarrow> block_used s b \<Longrightarrow> block_used s' b"
    "data_block s b \<Longrightarrow> block_used s' b \<Longrightarrow> block_used s b \<or> owns s' n' b"
    "val s n r \<noteq> 0 \<Longrightarrow> val s' n' r = val s n r" "owns s' n' b \<Longrightarrow> owns s n b \<or> \<not> block_used s b"
    "data_block s b \<Longrightarrow> block_used s b \<Longrightarrow> \<not> owns s n b \<Longrightarrow> blocks s' b = blocks s b"
    "unat ino < 128 \<Longrightarrow> inode_at s' ino = inode_at s ino"
  using assms by (auto simp: keeps_files_def)

lemma keeps_files_trans:
  assumes "keeps_files s n s1 n1" "keeps_files s1 n1 s2 n2"
  shows "keeps_files s n s2 n2"
proof -
  note A = keepsD [OF assms(1)] and B = keepsD [OF assms(2)]
  have d: "data_block s1 = data_block s" "data_block s2 = data_block s" using data_block_lay [OF A(2)] data_block_lay [OF B(2)] by simp_all
  have "owns s n c \<or> \<not> block_used s c" if "owns s2 n2 c" for c
    using B(10) [OF that] A(10) [of c] A(7) [of c] owns_data [OF B(3) that] d by auto
  moreover have "blocks s2 c = blocks s c" if "data_block s c" "block_used s c" "\<not> owns s n c" for c
  proof -
    have "\<not> owns s1 n1 c" using A(10) [of c] that by blast
    then show ?thesis using A(11) [OF that] A(7) [OF that(1,2)] B(11) [of c] that d by simp
  qed
  moreover have "block_used s c \<or> owns s2 n2 c" if "data_block s c" "block_used s2 c" for c
    using A(8) [of c] B(8) [of c] that d keeps_owns [OF assms(2), of c] by auto
  moreover have "val s2 n2 r = val s n r" if "val s n r \<noteq> 0" for r using A(9) [OF that] B(9) [of r] that by simp
  ultimately show ?thesis unfolding keeps_files_def using A B d by simp
qed

lemma keeps_same:
  assumes "fs_ok s'" "same_fs s s'" "file_ok s n"
  shows "keeps_files s n s' n" "byte_of s' n = byte_of s n" "val s' n = val s n"
proof -
  note o = same_fs_observe [OF assms(2)]
  show v: "val s' n = val s n" by (rule val_cong) (simp_all add: o)
  then show "byte_of s' n = byte_of s n" by (intro ext) (simp add: byte_of_def o Let_def)
  show "keeps_files s n s' n" using assms v by (simp add: keeps_files_def file_ok_def owns_def o)
qed

text \<open>One reference is set to a fresh block.\<close>

lemma keeps_set:
  assumes ok: "fs_ok s" "file_ok s n" "fs_ok s'" "lay s' = lay s" and n': "inode_ok n'" "kind n' = kind n" "nlink n' = nlink n" "fsize n' = fsize n"
    and b: "data_block s b" "\<not> block_used s b" "blocks s' b = zero_block"
    and used: "\<And>c. data_block s c \<Longrightarrow> block_used s' c \<longleftrightarrow> c = b \<or> block_used s c"
    and v: "val s' n' = (val s n)(r := b)" "val s n r = 0"
    and other: "\<And>c. data_block s c \<Longrightarrow> c \<noteq> b \<Longrightarrow> (\<And>p. is_meta p \<Longrightarrow> val s n p \<noteq> c) \<Longrightarrow> blocks s' c = blocks s c"
    and inodes: "\<And>ino. unat ino < 128 \<Longrightarrow> inode_at s' ino = inode_at s ino"
  shows "keeps_files s n s' n'" "byte_of s' n' = byte_of s n"
proof -
  note F = file_okD [OF ok(2)]
  have d: "data_block s' = data_block s" using ok(4) by (rule data_block_lay)
  have b0: "b \<noteq> 0" using data_block_nonzero ok(1) b(1) by blast
  have fresh: "val s n q \<noteq> b" for q using F(3) [of q] b(2) b0 by metis
  have "file_ok s' n'"
    unfolding file_ok_def v d using n'(1) F b used fresh v(2) by (auto simp: fun_upd_apply split: if_splits)
  moreover have "owns s n c \<or> c = b" if "owns s' n' c" for c
    using that by (auto simp: owns_def v split: if_splits)
  moreover have "owns s' n' b" using b0 by (auto simp: owns_def v intro: exI [of _ r])
  moreover have "blocks s' c = blocks s c" if "data_block s c" "block_used s c" "\<not> owns s n c" for c
    by (rule other) (use that b(2) data_block_nonzero [OF ok(1) that(1)] in \<open>auto simp: owns_def\<close>)
  ultimately show "keeps_files s n s' n'"
    unfolding keeps_files_def using ok n' used b v inodes by auto
  show "byte_of s' n' = byte_of s n"
  proof
    fix pos
    let ?q = "data_ref (pos div BLOCK_SIZE)"
    have "blocks s' (val s n ?q) = blocks s (val s n ?q)" if "val s n ?q \<noteq> 0"
      by (rule other) (use F that fresh data_ref_not_meta in \<open>metis+\<close>)
    then show "byte_of s' n' pos = byte_of s n pos"
      using b0 b(3) v(2) by (auto simp: byte_of_def v Let_def zero_block_def BLOCK_SIZE_def)
  qed
qed

text \<open>A reference in the inode is set.\<close>

lemma keeps_root:
  assumes ok: "fs_ok s" "file_ok s n" "fs_ok s'" "lay s' = lay s" and b: "data_block s b" "\<not> block_used s b" "blocks s' = claimed s b"
    and z: "val s n r = 0"
    and r: "(\<exists>i < NDIRECT. r = Dir i \<and> n' = n\<lparr>direct := (direct n)[i := b]\<rparr>) \<or> (r = Ind \<and> n' = n\<lparr>indirect := b\<rparr>) \<or> (r = Dbl \<and> n' = n\<lparr>double_indirect := b\<rparr>)"
  shows "keeps_files s n s' n'" "byte_of s' n' = byte_of s n" "val s' n' r = b"
proof -
  note F = file_okD [OF ok(2)] and C = claimed_facts [OF ok(1) b(1) b(3) ok(4)]
  have n: "length (direct n) = NDIRECT" using F(1) by (simp add: inode_ok_def)
  have "val s' n = val s n" by (rule val_cong) (use F b(2) C(3) in \<open>metis+\<close>)
  then have e: "val s' n q = val s n q" for q by simp
  have p: "ptr s' (indirect n) = ptr s (indirect n)" "ptr s' (double_indirect n) = ptr s (double_indirect n)"
    using e [of "Sgl _"] e [of "Mid _"] by auto
  have p': "ptr s' (ptr s (double_indirect n) i) = ptr s (ptr s (double_indirect n) i)" for i using e [of "Leaf i _"] by (auto simp: p)
  have v: "val s' n' = (val s n)(r := b)"
  proof
    fix q show "val s' n' q = ((val s n)(r := b)) q"
      using r z ptr_zero_block [OF C(1)] n by (cases q) (auto simp: p p' nth_list_update split: if_splits)
  qed
  have "inode_ok n'" "kind n' = kind n" "nlink n' = nlink n" "fsize n' = fsize n" using r n by (auto simp: inode_ok_def)
  note K = keeps_set [OF ok this b(1,2) C(1) _ v z]
  show "keeps_files s n s' n'" "byte_of s' n' = byte_of s n" by (rule K; use C in \<open>auto simp: data_block_def\<close>)+
  show "val s' n' r = b" by (simp add: v)
qed

text \<open>A reference in a block of pointers is set.\<close>

lemma child_ref_eq: "is_meta p \<Longrightarrow> is_meta q \<Longrightarrow> child_ref p i = child_ref q j \<longleftrightarrow> p = q \<and> i = j"
  by (cases p; cases q) (auto simp: is_meta_def)

lemma ptr_write:
  assumes "fs_ok s" "b \<noteq> 0" "i < PTRS_PER_BLOCK" "blocks s' b = blit (blocks s b) (i * 4) (u32_to_le v)"
  shows "ptr s' b j = (if j = i then v else ptr s b j)"
proof (cases "j < PTRS_PER_BLOCK")
  case True
  have l: "i * 4 + 4 \<le> length (blocks s b)" using assms by (simp add: fs_consts)
  show ?thesis
  proof (cases "j = i")
    case True
    then show ?thesis using assms l rd_u32_blit_in [of "i * 4" "u32_to_le v" "blocks s b" 0] rd_u32_to_le [of v "[]"]
      by (simp add: ptr_def)
  next
    case False
    then have "j * 4 + 4 \<le> i * 4 \<or> i * 4 + 4 \<le> j * 4" by linarith
    then show ?thesis using False assms l rd_u32_blit_out [of "i * 4" "u32_to_le v" "blocks s b" "j * 4"]
      by (simp add: ptr_def)
  qed
next
  case False
  then show ?thesis using assms(3) by (simp add: ptr_def)
qed

lemma keeps_slot:
  assumes ok: "fs_ok s" "file_ok s n" "fs_ok s'" "lay s' = lay s" and b: "data_block s b" "\<not> block_used s b"
    and p: "is_meta p" "val s n p \<noteq> 0" "i < PTRS_PER_BLOCK" "val s n (child_ref p i) = 0"
    and bl: "blocks s' = (claimed s b)(val s n p := blit (blocks s (val s n p)) (i * 4) (u32_to_le b))"
  shows "keeps_files s n s' n" "byte_of s' n = byte_of s n" "val s' n (child_ref p i) = b"
proof -
  note F = file_okD [OF ok(2)]
  let ?x = "val s n p"
  have x: "data_block s ?x" "block_used s ?x" "?x \<noteq> b" "b \<noteq> 0" using F p(2) b data_block_nonzero [OF ok(1)] by auto
  have bt: "unat b < unat (total_blocks (lay s))" using b by (simp add: data_block_def)
  have zb: "blocks s' b = zero_block" using bl x by (simp add: claimed_def)
  have same: "blocks s' c = blocks s c" if "data_block s c" "c \<noteq> b" "c \<noteq> ?x" for c
    using that bl region_apart(3) [OF ok(1) bt that(1)] by (simp add: claimed_def)
  have px: "ptr s' ?x j = (if j = i then b else ptr s ?x j)" for j
    by (rule ptr_write [OF ok(1) p(2,3)]) (simp add: bl)
  let ?V = "(val s n)(child_ref p i := b)"
  have step: "val s' n (child_ref q j) = ?V (child_ref q j)" if q: "is_meta q" "val s' n q = ?V q" for q j
  proof -
    consider "q = child_ref p i" | "q = p" "q \<noteq> child_ref p i" | "val s n q = 0" "q \<noteq> p" "q \<noteq> child_ref p i" | "val s n q \<noteq> 0" "q \<noteq> p" "q \<noteq> child_ref p i" by blast
    then show ?thesis
    proof cases
      case 1
      then have "child_ref q j \<noteq> child_ref p i" using p(1) q(1) by (cases p) (auto simp: is_meta_def)
      then show ?thesis using 1 q p(4) ptr_zero_block [OF zb] by (simp add: val_child)
    next
      case 2
      then show ?thesis using q px p(1) by (simp add: val_child child_ref_eq)
    next
      case 3
      then show ?thesis using q p(1) by (simp add: val_child child_ref_eq)
    next
      case 4
      have "val s n q \<noteq> ?x" using F(4) [of q p] 4 by blast
      moreover have "val s n q \<noteq> b" using F(3) [of q] 4 b by metis
      ultimately have "blocks s' (val s n q) = blocks s (val s n q)" using same F(2) 4 by blast
      then have "ptr s' (val s n q) j = ptr s (val s n q) j" by (rule ptr_cong)
      then show ?thesis using 4 q p(1) by (simp add: val_child child_ref_eq)
    qed
  qed
  have top: "val s' n q = ?V q" if "q = Ind \<or> q = Dbl \<or> (\<exists>j. q = Dir j)" for q using that p(1) by (cases p) (auto simp: is_meta_def)
  have mid: "val s' n (Mid j) = ?V (Mid j)" for j using step [of Dbl j] top [of Dbl] by (simp add: is_meta_def)
  have v: "val s' n = ?V"
  proof
    fix q
    have s1: "val s' n (Sgl j) = ?V (Sgl j)" for j using step [of Ind j, OF _ top] by (simp only: child_ref.simps is_meta_def ref.simps simp_thms)
    have s2: "val s' n (Leaf j l) = ?V (Leaf j l)" for j l using step [of "Mid j" l, OF _ mid] by (simp only: child_ref.simps is_meta_def ref.simps simp_thms)
    show "val s' n q = ?V q"
    proof (cases q)
      case (Sgl j) then show ?thesis by (simp only: s1)
    next
      case (Mid j) then show ?thesis by (simp only: mid)
    next
      case (Leaf j l) then show ?thesis by (simp only: s2)
    qed (rule top, blast)+
  qed
  have u: "block_used s' c \<longleftrightarrow> c = b \<or> block_used s c" if "data_block s c" for c
  proof -
    have ct: "unat c < unat (total_blocks (lay s))" using that by (simp add: data_block_def)
    have "bm_block c \<noteq> ?x" by (rule region_apart(3) [OF ok(1) ct x(1)])
    then show ?thesis using bl region_apart(3) [OF ok(1) ct b(1)] bm_place_inj [of c b] ok(1) by (auto simp: block_used_def claimed_def bitmap_get_set)
  qed
  have ia: "inode_at s' ino = inode_at s ino" if "unat ino < 128" for ino
    using bl ok(4) region_apart(1) [OF ok(1) that bt] region_apart(2) [OF ok(1) that b(1)] region_apart(2) [OF ok(1) that x(1)]
    by (simp add: inode_at_def inode_block_def claimed_def)
  note K = keeps_set [OF ok F(1) refl refl refl b zb u v p(4) _ ia]
  have o: "blocks s' c = blocks s c" if "data_block s c" "c \<noteq> b" "\<And>q. is_meta q \<Longrightarrow> val s n q \<noteq> c" for c
    using same [OF that(1,2)] that(3) [OF p(1)] by blast
  show "keeps_files s n s' n" "byte_of s' n = byte_of s n" by (rule K; use o in blast)+
  show "val s' n (child_ref p i) = b" by (simp add: v)
qed

section \<open>The block map\<close>

definition disk_full :: "fs \<Rightarrow> bool" where
  "disk_full s \<longleftrightarrow> (\<forall>b. data_block s b \<longrightarrow> block_used s b)"

lemma same_full: "same_fs s s' \<Longrightarrow> disk_full s' \<longleftrightarrow> disk_full s"
  by (simp add: disk_full_def same_fs_observe)

text \<open>A file may grow to give a block number to a reference.\<close>

definition grown :: "fs \<Rightarrow> inode \<Rightarrow> ref \<Rightarrow> u32 option \<Rightarrow> inode \<Rightarrow> fs \<Rightarrow> bool" where
  "grown s n r ob n' s' \<longleftrightarrow> keeps_files s n s' n' \<and> byte_of s' n' = byte_of s n
     \<and> (case ob of None \<Rightarrow> disk_full s' | Some b \<Rightarrow> b \<noteq> 0 \<and> val s' n' r = b)"

lemma grown_trans: "keeps_files s n s1 n1 \<Longrightarrow> byte_of s1 n1 = byte_of s n \<Longrightarrow> grown s1 n1 r ob n' s' \<Longrightarrow> grown s n r ob n' s'"
  using keeps_files_trans by (auto simp: grown_def)

lemma grown_same: "fs_ok s \<Longrightarrow> file_ok s n \<Longrightarrow> val s n r \<noteq> 0 \<Longrightarrow> grown s n r (Some (val s n r)) n s"
  by (simp add: grown_def keeps_files_refl)

lemma indirect_slot_fs:
  assumes ok: "fs_ok s" "file_ok s n" and p: "is_meta p" "val s n p \<noteq> 0" "i < PTRS_PER_BLOCK"
  shows "\<exists>s'. indirect_slot (val s n p) i False s = Some (if val s n (child_ref p i) = 0 then None else Some (val s n (child_ref p i)), s') \<and> fs_ok s' \<and> same_fs s s'"
    and "\<exists>ob s'. indirect_slot (val s n p) i True s = Some (ob, s') \<and> grown s n (child_ref p i) ob n s'"
proof -
  let ?x = "val s n p" and ?v = "val s n (child_ref p i)"
  have dx: "disk_block ?x" "data_block s ?x" "block_used s ?x" using file_okD [OF ok(2)] p(2) region_disk(3) [OF ok(1)] by blast+
  obtain s1 where s1: "read_block ?x s = (blocks s ?x, s1)" "fs_ok s1" "same_fs s s1" using read_block_fs [OF ok(1) dx(1)] by blast
  have rd: "rd_u32 (blocks s ?x) (i * 4) = Some ?v" using rd_ptr [OF ok(1) p(2,3)] val_child [OF p(1)] by simp
  show "\<exists>s'. indirect_slot ?x i False s = Some (if ?v = 0 then None else Some ?v, s') \<and> fs_ok s' \<and> same_fs s s'"
    using s1 rd by (simp add: indirect_slot_def)
  note S = keeps_same [OF s1(2,3) ok(2)] and O = same_fs_observe [OF s1(3)]
  have ok1: "file_ok s1 n" using S(1) by (simp add: keeps_files_def)
  show "\<exists>ob s'. indirect_slot ?x i True s = Some (ob, s') \<and> grown s n (child_ref p i) ob n s'"
  proof (cases "?v = 0")
    case False
    then show ?thesis using s1 rd S by (auto simp: indirect_slot_def grown_def)
  next
    case True
    show ?thesis
    proof (cases rule: alloc_block_fs [OF s1(2)])
      case (1 s')
      then have "grown s1 n (child_ref p i) None n s'"
        using keeps_same [OF 1(2,3) ok1] same_full [OF 1(3)] by (simp add: grown_def disk_full_def)
      then show ?thesis using s1 rd True 1(1) grown_trans [OF S(1,2)] by (auto simp: indirect_slot_def)
    next
      case (2 b s2)
      let ?d = "blit (blocks s ?x) (i * 4) (u32_to_le b)"
      let ?s' = "write_block ?x ?d s2"
      have l: "i * 4 + 4 \<le> length (blocks s ?x)" using ok(1) p(3) by (simp add: fs_consts)
      have w: "fs_ok ?s'" "blocks ?s' = (claimed s1 b)(?x := ?d)" "lay ?s' = lay s1"
        using write_block_fs [OF 2(2) dx(1), of ?d] l ok(1) 2 by simp_all
      have "grown s1 n (child_ref p i) (Some b) n ?s'"
        using keeps_slot [OF s1(2) ok1 w(1,3) 2(4,5) p(1) _ p(3)] w(2) True p(2) data_block_nonzero [OF s1(2) 2(4)]
        by (simp add: grown_def S(3) O(1))
      moreover have "indirect_slot ?x i True s = Some (Some b, ?s')"
        using s1 rd True 2(1) l by (simp add: indirect_slot_def wr_u32_def blit_checked_def)
      ultimately show ?thesis using grown_trans [OF S(1,2)] by blast
    qed
  qed
qed

lemma alloc_root:
  assumes ok: "fs_ok s" "file_ok s n" and z: "val s n r = 0"
    and r: "\<And>b. (\<exists>i < NDIRECT. r = Dir i \<and> put b = n\<lparr>direct := (direct n)[i := b]\<rparr>) \<or> (r = Ind \<and> put b = n\<lparr>indirect := b\<rparr>) \<or> (r = Dbl \<and> put b = n\<lparr>double_indirect := b\<rparr>)"
  shows "\<exists>ob s'. alloc_block s = Some (ob, s') \<and> grown s n r ob (case ob of None \<Rightarrow> n | Some b \<Rightarrow> put b) s'"
proof (cases rule: alloc_block_fs [OF ok(1)])
  case (1 s')
  then show ?thesis using keeps_same [OF 1(2,3) ok(2)] same_full [OF 1(3)] by (auto simp: grown_def disk_full_def)
next
  case (2 b s')
  then show ?thesis using keeps_root [OF ok 2(2,3,4,5,6) z r] data_block_nonzero [OF ok(1) 2(4)] by (auto simp: grown_def)
qed

lemma ensure_root:
  assumes ok: "fs_ok s" "file_ok s n" and r: "(r = Ind \<and> put = (\<lambda>b. n\<lparr>indirect := b\<rparr>)) \<or> (r = Dbl \<and> put = (\<lambda>b. n\<lparr>double_indirect := b\<rparr>))"
  obtains t n' s' where
    "(if val s n r = 0 then (if \<not> True then Some (False, n, s) else do { (new, s) \<leftarrow> alloc_block s; case new of None \<Rightarrow> Some (False, n, s) | Some b \<Rightarrow> Some (True, put b, s) })
      else Some (True, n, s)) = Some (t, n', s')"
    "grown s n r (if t then Some (val s' n' r) else None) n' s'"
proof (cases "val s n r = 0")
  case True
  obtain ob s' where a: "alloc_block s = Some (ob, s')" "grown s n r ob (case ob of None \<Rightarrow> n | Some b \<Rightarrow> put b) s'"
    using alloc_root [OF ok True, of put] r by auto
  show ?thesis
  proof (cases ob)
    case None
    then show ?thesis using that [of False n s'] a True by simp
  next
    case (Some b)
    then have "val s' (put b) r = b" using a(2) by (simp add: grown_def)
    then show ?thesis using that [of True "put b" s'] a True Some by simp
  qed
next
  case False
  then show ?thesis using that [of True n s] grown_same [OF ok False] by simp
qed

lemma grownD:
  assumes "grown s n r ob n' s'"
  shows "keeps_files s n s' n'" "byte_of s' n' = byte_of s n" "fs_ok s'" "file_ok s' n'" "ob = None \<Longrightarrow> disk_full s'"
    "ob = Some b \<Longrightarrow> val s' n' r = b" "ob = Some b \<Longrightarrow> b \<noteq> 0"
  using assms by (auto simp: grown_def keeps_files_def)

lemma grown_none: "grown s n r None n' s' \<Longrightarrow> grown s n q None n' s'"
  by (simp add: grown_def)

text \<open>The three tiers of \<open>block_for\<close>.\<close>

lemma block_for_direct:
  assumes ok: "fs_ok s" "file_ok s n" and bi: "bi < NDIRECT"
  shows "\<exists>ob n' s'. block_for n bi True s = Some (ob, n', s') \<and> grown s n (Dir bi) ob n' s'"
proof -
  have d: "index (direct n) bi = Some (val s n (Dir bi))" using bi file_okD(1) [OF ok(2)] by (simp add: index_def inode_ok_def)
  show ?thesis
  proof (cases "val s n (Dir bi) = 0")
    case True
    obtain ob s' where "alloc_block s = Some (ob, s')"
        "grown s n (Dir bi) ob (case ob of None \<Rightarrow> n | Some b \<Rightarrow> n\<lparr>direct := (direct n)[bi := b]\<rparr>) s'"
      using alloc_root [OF ok True, of "\<lambda>b. n\<lparr>direct := (direct n)[bi := b]\<rparr>"] bi by auto
    then show ?thesis using bi d True by (cases ob) (simp_all add: block_for_def)
  next
    case False
    then show ?thesis using bi d grown_same [OF ok False] by (simp add: block_for_def)
  qed
qed

lemma block_for_single:
  assumes ok: "fs_ok s" "file_ok s n" and bi: "\<not> bi < NDIRECT" "bi - NDIRECT < PTRS_PER_BLOCK"
  shows "\<exists>ob n' s'. block_for n bi True s = Some (ob, n', s') \<and> grown s n (child_ref Ind (bi - NDIRECT)) ob n' s'"
proof -
  obtain t n1 s1 where e: "(if indirect n = 0 then (if \<not> True then Some (False, n, s) else do { (new, s) \<leftarrow> alloc_block s; case new of None \<Rightarrow> Some (False, n, s) | Some b \<Rightarrow> Some (True, n\<lparr>indirect := b\<rparr>, s) })
        else Some (True, n, s)) = Some (t, n1, s1)"
      and g: "grown s n Ind (if t then Some (indirect n1) else None) n1 s1"
    by (rule ensure_root [OF ok, of Ind "\<lambda>b. n\<lparr>indirect := b\<rparr>", unfolded val.simps]) (simp, rule that)
  have eq: "block_for n bi True s = (if \<not> t then Some (None, n1, s1) else do { (r, s) \<leftarrow> indirect_slot (indirect n1) (bi - NDIRECT) True s1; Some (r, n1, s) })"
    unfolding block_for_def Let_def if_not_P [OF bi(1)] if_P [OF bi(2)] e by simp
  note G = grownD [OF g]
  show ?thesis
  proof (cases t)
    case False
    then show ?thesis using eq g by (auto intro: grown_none)
  next
    case True
    have "is_meta Ind" "val s1 n1 Ind \<noteq> 0" using G(7) True by (simp_all add: is_meta_def)
    from indirect_slot_fs(2) [OF G(3,4) this bi(2)] obtain ob s' where "indirect_slot (indirect n1) (bi - NDIRECT) True s1 = Some (ob, s')"
      "grown s1 n1 (child_ref Ind (bi - NDIRECT)) ob n1 s'" by auto
    then show ?thesis using eq True grown_trans [OF G(1,2)] by auto
  qed
qed

lemma block_for_double:
  assumes ok: "fs_ok s" "file_ok s n" and bi: "\<not> bi < NDIRECT" "\<not> bi - NDIRECT < PTRS_PER_BLOCK"
    and k: "k = bi - NDIRECT - PTRS_PER_BLOCK" "k < PTRS_PER_BLOCK * PTRS_PER_BLOCK"
  shows "\<exists>ob n' s'. block_for n bi True s = Some (ob, n', s') \<and> grown s n (child_ref (Mid (k div PTRS_PER_BLOCK)) (k mod PTRS_PER_BLOCK)) ob n' s'"
proof -
  let ?i = "k div PTRS_PER_BLOCK" and ?j = "k mod PTRS_PER_BLOCK"
  have ij: "?i < PTRS_PER_BLOCK" "?j < PTRS_PER_BLOCK" "\<not> PTRS_PER_BLOCK * PTRS_PER_BLOCK \<le> k" using k(2) by (simp_all add: less_mult_imp_div_less fs_consts)
  obtain t n1 s1 where e: "(if double_indirect n = 0 then (if \<not> True then Some (False, n, s) else do { (new, s) \<leftarrow> alloc_block s; case new of None \<Rightarrow> Some (False, n, s) | Some b \<Rightarrow> Some (True, n\<lparr>double_indirect := b\<rparr>, s) })
        else Some (True, n, s)) = Some (t, n1, s1)"
      and g: "grown s n Dbl (if t then Some (double_indirect n1) else None) n1 s1"
    by (rule ensure_root [OF ok, of Dbl "\<lambda>b. n\<lparr>double_indirect := b\<rparr>", unfolded val.simps]) (simp, rule that)
  have eq: "block_for n bi True s = (if \<not> t then Some (None, n1, s1) else do { (mid, s) \<leftarrow> indirect_slot (double_indirect n1) ?i True s1;
      case mid of None \<Rightarrow> Some (None, n1, s) | Some m \<Rightarrow> do { (r, s) \<leftarrow> indirect_slot m ?j True s; Some (r, n1, s) } })"
    unfolding block_for_def Let_def if_not_P [OF bi(1)] if_not_P [OF bi(2)] k(1) [symmetric] if_not_P [OF ij(3)] e by simp
  note G = grownD [OF g]
  show ?thesis
  proof (cases t)
    case False
    then show ?thesis using eq g by (auto intro: grown_none)
  next
    case True
    have "is_meta Dbl" "val s1 n1 Dbl \<noteq> 0" using G(7) True by (simp_all add: is_meta_def)
    from indirect_slot_fs(2) [OF G(3,4) this ij(1)] obtain om s2 where i: "indirect_slot (double_indirect n1) ?i True s1 = Some (om, s2)"
      "grown s1 n1 (Mid ?i) om n1 s2" by auto
    note g2 = grown_trans [OF G(1,2) i(2)]
    note G2 = grownD [OF g2]
    show ?thesis
    proof (cases om)
      case None
      then show ?thesis using eq True i g2 by (auto intro: grown_none)
    next
      case (Some b)
      have "is_meta (Mid ?i)" "val s2 n1 (Mid ?i) \<noteq> 0" using G2(6,7) Some by (auto simp: is_meta_def simp del: val.simps)
      from indirect_slot_fs(2) [OF G2(3,4) this ij(2)] obtain ob s' where "indirect_slot b ?j True s2 = Some (ob, s')"
        "grown s2 n1 (child_ref (Mid ?i) ?j) ob n1 s'" using G2(6) Some by auto
      then show ?thesis using eq True i Some grown_trans [OF G2(1,2)] by auto
    qed
  qed
qed

lemma block_for_fs:
  assumes ok: "fs_ok s" "file_ok s n"
  shows "\<exists>ob n' s'. block_for n bi True s = Some (ob, n', s') \<and>
     (if bi < MAX_BLOCKS then grown s n (data_ref bi) ob n' s' else ob = None \<and> n' = n \<and> s' = s)"
proof -
  let ?k = "bi - NDIRECT - PTRS_PER_BLOCK"
  consider "bi < NDIRECT" | "\<not> bi < NDIRECT" "bi - NDIRECT < PTRS_PER_BLOCK"
    | "\<not> bi < NDIRECT" "\<not> bi - NDIRECT < PTRS_PER_BLOCK" "?k < PTRS_PER_BLOCK * PTRS_PER_BLOCK"
    | "\<not> bi < NDIRECT" "\<not> bi - NDIRECT < PTRS_PER_BLOCK" "\<not> ?k < PTRS_PER_BLOCK * PTRS_PER_BLOCK" by blast
  then show ?thesis
  proof cases
    case 1
    then have "bi < MAX_BLOCKS" "data_ref bi = Dir bi" by (simp_all add: MAX_BLOCKS_def data_ref_def)
    then show ?thesis using block_for_direct [OF ok 1] by simp
  next
    case 2
    then have "bi < MAX_BLOCKS" "data_ref bi = child_ref Ind (bi - NDIRECT)" by (simp_all add: MAX_BLOCKS_def data_ref_def)
    then show ?thesis using block_for_single [OF ok 2] by simp
  next
    case 3
    then have "bi < MAX_BLOCKS" "data_ref bi = child_ref (Mid (?k div PTRS_PER_BLOCK)) (?k mod PTRS_PER_BLOCK)"
      by (simp_all add: MAX_BLOCKS_def data_ref_def Let_def)
    then show ?thesis using block_for_double [OF ok 3(1,2) refl 3(3)] by simp
  next
    case 4
    then show ?thesis by (auto simp: block_for_def MAX_BLOCKS_def Let_def)
  qed
qed

lemma block_for_read:
  assumes ok: "fs_ok s" "file_ok s n"
  shows "\<exists>s'. block_for n bi False s = Some (if val s n (data_ref bi) = 0 then None else Some (val s n (data_ref bi)), n, s') \<and> fs_ok s' \<and> same_fs s s'"
proof -
  have P: "0 < PTRS_PER_BLOCK" by (simp add: fs_consts)
  let ?k = "bi - NDIRECT - PTRS_PER_BLOCK"
  let ?i = "?k div PTRS_PER_BLOCK" and ?j = "?k mod PTRS_PER_BLOCK"
  consider "bi < NDIRECT" | "\<not> bi < NDIRECT" "bi - NDIRECT < PTRS_PER_BLOCK"
    | "\<not> bi < NDIRECT" "\<not> bi - NDIRECT < PTRS_PER_BLOCK" "?k < PTRS_PER_BLOCK * PTRS_PER_BLOCK"
    | "\<not> bi < NDIRECT" "\<not> bi - NDIRECT < PTRS_PER_BLOCK" "\<not> ?k < PTRS_PER_BLOCK * PTRS_PER_BLOCK" by blast
  then show ?thesis
  proof cases
    case 1
    then have "index (direct n) bi = Some (direct n ! bi)" using file_okD(1) [OF ok(2)] by (simp add: index_def inode_ok_def)
    then show ?thesis using 1 ok by (auto simp: block_for_def data_ref_def)
  next
    case 2
    then have d: "data_ref bi = child_ref Ind (bi - NDIRECT)" by (simp add: data_ref_def)
    show ?thesis
    proof (cases "indirect n = 0")
      case False
      then show ?thesis using 2 d indirect_slot_fs(1) [OF ok, of Ind "bi - NDIRECT"] by (auto simp: block_for_def is_meta_def)
    qed (use 2 d ok in \<open>simp add: block_for_def\<close>)
  next
    case 3
    have d: "data_ref bi = child_ref (Mid ?i) ?j" "?i < PTRS_PER_BLOCK" "?j < PTRS_PER_BLOCK"
      using 3 P by (simp_all add: data_ref_def Let_def less_mult_imp_div_less)
    show ?thesis
    proof (cases "double_indirect n = 0")
      case False
      obtain s1 where s1: "indirect_slot (double_indirect n) ?i False s = Some (if val s n (Mid ?i) = 0 then None else Some (val s n (Mid ?i)), s1)" "fs_ok s1" "same_fs s s1"
        using indirect_slot_fs(1) [OF ok, of Dbl ?i] False d by (auto simp: is_meta_def)
      note S = keeps_same [OF s1(2,3) ok(2)]
      have "file_ok s1 n" using S(1) by (simp add: keeps_files_def)
      then show ?thesis using 3 d False s1 indirect_slot_fs(1) [OF s1(2), of n "Mid ?i" ?j] same_fs_trans [OF s1(3)] S(3)
        by (auto simp: block_for_def is_meta_def Let_def simp del: val.simps(5,6)) (auto simp: block_for_def)
    qed (use 3 d ok in \<open>simp add: block_for_def Let_def\<close>)
  next
    case 4
    have "PTRS_PER_BLOCK \<le> ?i" using 4 P by (simp add: less_eq_div_iff_mult_less_eq)
    then show ?thesis using 4 ok by (auto simp: block_for_def data_ref_def Let_def ptr_def)
  qed
qed

end
