(* ===== verification/FsContent.thy ===== *)
theory FsContent
  imports FsMap
begin

text \<open>
  The contents of files. A file is a sequence of bytes behind its block map, and \<open>read_at\<close>, \<open>write_at\<close>,
  \<open>write_file\<close> and \<open>free_all_blocks\<close> of \<open>kernel/src/fs.rs\<close> are operations on it: a read returns a slice, a write
  replaces one, deleting gives back exactly the blocks of the file, and none of them touches another file.
\<close>

section \<open>Reading\<close>

lemma same_block:
  assumes "i < BLOCK_SIZE - pos mod BLOCK_SIZE"
  shows "(pos + i) div BLOCK_SIZE = pos div BLOCK_SIZE" "(pos + i) mod BLOCK_SIZE = pos mod BLOCK_SIZE + i"
proof -
  have p: "pos + i = pos mod BLOCK_SIZE + i + pos div BLOCK_SIZE * BLOCK_SIZE" using div_mult_mod_eq [of pos BLOCK_SIZE] by linarith
  have lt: "pos mod BLOCK_SIZE + i < BLOCK_SIZE" using assms by linarith
  have B: "BLOCK_SIZE \<noteq> 0" by (simp add: BLOCK_SIZE_def)
  show "(pos + i) div BLOCK_SIZE = pos div BLOCK_SIZE" unfolding p div_mult_self1 [OF B] using lt by simp
  show "(pos + i) mod BLOCK_SIZE = pos mod BLOCK_SIZE + i" unfolding p mod_mult_self1 using lt by simp
qed

lemma block_slice:
  assumes "fs_ok s" "val s n (data_ref (pos div BLOCK_SIZE)) \<noteq> 0" "k \<le> BLOCK_SIZE - pos mod BLOCK_SIZE"
  shows "take k (drop (pos mod BLOCK_SIZE) (blocks s (val s n (data_ref (pos div BLOCK_SIZE))))) = map (byte_of s n) [pos..<pos + k]"
proof (rule nth_equalityI)
  show "length (take k (drop (pos mod BLOCK_SIZE) (blocks s (val s n (data_ref (pos div BLOCK_SIZE)))))) = length (map (byte_of s n) [pos..<pos + k])"
    using assms by simp
  fix i assume "i < length (take k (drop (pos mod BLOCK_SIZE) (blocks s (val s n (data_ref (pos div BLOCK_SIZE))))))"
  then have i: "i < k" "i < BLOCK_SIZE - pos mod BLOCK_SIZE" using assms by auto
  then show "take k (drop (pos mod BLOCK_SIZE) (blocks s (val s n (data_ref (pos div BLOCK_SIZE))))) ! i = map (byte_of s n) [pos..<pos + k] ! i"
    using assms same_block [OF i(2)] by (simp add: byte_of_def Let_def)
qed

lemma read_loop_step:
  assumes ok: "fs_ok s" "file_ok s n" and lt: "dn < want" "want \<le> length out"
    and b: "val s n (data_ref ((off + dn) div BLOCK_SIZE)) \<noteq> 0" and k: "k = min (want - dn) (BLOCK_SIZE - (off + dn) mod BLOCK_SIZE)"
  obtains s2 where "read_loop n off want dn out s = read_loop n off want (dn + k) (blit out dn (map (byte_of s n) [off + dn..<off + dn + k])) s2"
    "fs_ok s2" "same_fs s s2"
proof -
  let ?b = "val s n (data_ref ((off + dn) div BLOCK_SIZE))" and ?w = "(off + dn) mod BLOCK_SIZE"
  obtain s1 where s1: "block_for n ((off + dn) div BLOCK_SIZE) False s = Some (Some ?b, n, s1)" "fs_ok s1" "same_fs s s1"
    using block_for_read [OF ok, of "(off + dn) div BLOCK_SIZE"] b by auto
  have "disk_block ?b" using region_disk(3) [OF ok(1)] file_okD(2) [OF ok(2) b] .
  then obtain s2 where s2: "read_block ?b s1 = (blocks s1 ?b, s2)" "fs_ok s2" "same_fs s1 s2" using read_block_fs [OF s1(2)] by blast
  have kw: "?w + k \<le> BLOCK_SIZE" using k by (simp add: BLOCK_SIZE_def)
  have "sub_slice (blocks s1 ?b) ?w (?w + k) = Some (map (byte_of s n) [off + dn..<off + dn + k])"
    using block_slice [OF ok(1) b, of k] kw ok(1) same_fs_observe(1) [OF s1(3)] by (simp add: sub_slice_def)
  moreover have "blit_checked out dn (map (byte_of s n) [off + dn..<off + dn + k]) = Some (blit out dn (map (byte_of s n) [off + dn..<off + dn + k]))"
    using k lt by (simp add: blit_checked_def)
  ultimately have "read_loop n off want dn out s = read_loop n off want (dn + k) (blit out dn (map (byte_of s n) [off + dn..<off + dn + k])) s2"
    by (subst read_loop.simps) (use lt s1 s2 k in \<open>simp add: Let_def\<close>)
  then show ?thesis by (rule that) (use s1 s2 same_fs_trans in blast)+
qed

text \<open>The loop copies bytes up to the first hole.\<close>

lemma read_loop_fs:
  assumes "fs_ok s" "file_ok s n" "dn \<le> want" "want \<le> length out"
  shows "\<exists>m s'. read_loop n off want dn out s = Some (m, blit out dn (map (byte_of s n) [off + dn..<off + m]), s') \<and> fs_ok s' \<and> same_fs s s'
     \<and> dn \<le> m \<and> m \<le> want \<and> (m < want \<longrightarrow> val s n (data_ref ((off + m) div BLOCK_SIZE)) = 0)"
  using assms
proof (induction "want - dn" arbitrary: dn out s rule: less_induct)
  case less
  show ?case
  proof (cases "dn < want")
    case False
    then show ?thesis using less.prems by (subst read_loop.simps) auto
  next
    case lt: True
    show ?thesis
    proof (cases "val s n (data_ref ((off + dn) div BLOCK_SIZE)) = 0")
      case True
      obtain s1 where "block_for n ((off + dn) div BLOCK_SIZE) False s = Some (None, n, s1)" "fs_ok s1" "same_fs s s1"
        using block_for_read [OF less.prems(1,2), of "(off + dn) div BLOCK_SIZE"] True by auto
      then show ?thesis using True lt by (subst read_loop.simps) (auto intro!: exI [of _ dn])
    next
      case False
      define k where "k = min (want - dn) (BLOCK_SIZE - (off + dn) mod BLOCK_SIZE)"
      have k: "0 < k" "dn + k \<le> want" using lt by (auto simp: BLOCK_SIZE_def k_def)
      let ?c = "map (byte_of s n) [off + dn..<off + dn + k]"
      obtain s2 where s2: "read_loop n off want dn out s = read_loop n off want (dn + k) (blit out dn ?c) s2" "fs_ok s2" "same_fs s s2"
        by (rule read_loop_step [OF less.prems(1,2) lt less.prems(4) False k_def])
      note S = keeps_same [OF s2(2,3) less.prems(2)]
      have "file_ok s2 n" using S(1) by (simp add: keeps_files_def)
      moreover have "want - (dn + k) < want - dn" "want \<le> length (blit out dn ?c)" using lt k less.prems(4) by auto
      ultimately obtain m s' where m: "read_loop n off want (dn + k) (blit out dn ?c) s2 = Some (m, blit (blit out dn ?c) (dn + k) (map (byte_of s n) [off + (dn + k)..<off + m]), s')"
          "fs_ok s'" "same_fs s2 s'" "dn + k \<le> m" "m \<le> want" "m < want \<longrightarrow> val s n (data_ref ((off + m) div BLOCK_SIZE)) = 0"
        using less.hyps [of "dn + k" s2 "blit out dn ?c"] s2(2) k(2) unfolding S by blast
      have "[off + dn..<off + dn + k] @ [off + (dn + k)..<off + m] = [off + dn..<off + m]"
        using m(4) upt_add_eq_append [of "off + dn" "off + dn + k" "m - (dn + k)"] by (simp add: add.assoc)
      then have "blit (blit out dn ?c) (dn + k) (map (byte_of s n) [off + (dn + k)..<off + m]) = blit out dn (map (byte_of s n) [off + dn..<off + m])"
        using blit_append [of dn ?c "map (byte_of s n) [off + (dn + k)..<off + m]" out] m(4,5) less.prems(4) by (simp flip: map_append)
      then show ?thesis using s2 m same_fs_trans [OF s2(3)] by auto
    qed
  qed
qed

section \<open>Writing\<close>

lemma keeps_write:
  assumes ok: "fs_ok s" "file_ok s n" and b: "val s n (data_ref bi) \<noteq> 0" and d: "length d = BLOCK_SIZE"
    and s': "s' = write_block (val s n (data_ref bi)) d s"
  shows "keeps_files s n s' n" "val s' n = val s n"
    "byte_of s' n pos = (if pos div BLOCK_SIZE = bi then d ! (pos mod BLOCK_SIZE) else byte_of s n pos)" "disk_full s' \<longleftrightarrow> disk_full s"
proof -
  note F = file_okD [OF ok(2)]
  let ?b = "val s n (data_ref bi)"
  have db: "data_block s ?b" "disk_block ?b" using F(2) [OF b] region_disk(3) [OF ok(1)] by blast+
  have w: "fs_ok s'" "blocks s' = (blocks s)(?b := d)" "lay s' = lay s" using write_block_fs [OF ok(1) db(2) d] s' by simp_all
  have m: "val s n p \<noteq> ?b" if "is_meta p" for p using F(4) [of p "data_ref bi"] b that data_ref_not_meta by metis
  show v: "val s' n = val s n" by (rule val_cong) (use m w(2) in simp_all)
  have u: "block_used s' c = block_used s c" if "data_block s c" for c
    using w(2) region_apart(3) [OF ok(1) _ db(1), of c] that by (simp add: block_used_def data_block_def)
  have ia: "inode_at s' ino = inode_at s ino" if "unat ino < 128" for ino
    using w region_apart(2) [OF ok(1) that db(1)] by (simp add: inode_at_def inode_block_def)
  note dl = data_block_lay [OF w(3)]
  show "disk_full s' \<longleftrightarrow> disk_full s" by (auto simp: disk_full_def dl u)
  have "file_ok s' n" using ok(2) u by (simp add: file_ok_def v dl)
  moreover have "blocks s' c = blocks s c" if "\<not> owns s n c" for c using that b by (auto simp: w(2) owns_def)
  ultimately show "keeps_files s n s' n" using w u ia by (auto simp: keeps_files_def v owns_def)
  have "val s n (data_ref q) = ?b \<longleftrightarrow> q = bi" for q using F(4) [of "data_ref q" "data_ref bi"] b data_ref_inj by metis
  then show "byte_of s' n pos = (if pos div BLOCK_SIZE = bi then d ! (pos mod BLOCK_SIZE) else byte_of s n pos)"
    using b by (auto simp: byte_of_def v w(2) Let_def)
qed

text \<open>A slice inside one block is stored.\<close>

lemma keeps_store:
  assumes ok: "fs_ok s" "file_ok s n" and b: "val s n (data_ref (pos0 div BLOCK_SIZE)) = b" "b \<noteq> 0" and c: "pos0 mod BLOCK_SIZE + length c \<le> BLOCK_SIZE"
    and s': "s' = write_block b (blit (blocks s b) (pos0 mod BLOCK_SIZE) c) s"
  shows "keeps_files s n s' n" "val s' n = val s n" "disk_full s' \<longleftrightarrow> disk_full s"
    "byte_of s' n pos = (if pos0 \<le> pos \<and> pos < pos0 + length c then c ! (pos - pos0) else byte_of s n pos)"
proof -
  let ?w = "pos0 mod BLOCK_SIZE" and ?d = "blit (blocks s b) (pos0 mod BLOCK_SIZE) c"
  have d: "length ?d = BLOCK_SIZE" using c ok(1) by simp
  note W = keeps_write [OF ok, of "pos0 div BLOCK_SIZE" ?d s', unfolded b(1), OF b(2) d s']
  show "keeps_files s n s' n" "val s' n = val s n" "disk_full s' \<longleftrightarrow> disk_full s" using W by simp_all
  show "byte_of s' n pos = (if pos0 \<le> pos \<and> pos < pos0 + length c then c ! (pos - pos0) else byte_of s n pos)"
  proof (cases "pos div BLOCK_SIZE = pos0 div BLOCK_SIZE")
    case True
    have e: "pos = pos0 div BLOCK_SIZE * BLOCK_SIZE + pos mod BLOCK_SIZE" "pos0 = pos0 div BLOCK_SIZE * BLOCK_SIZE + ?w" using True div_mult_mod_eq by metis+
    have old: "byte_of s n pos = blocks s b ! (pos mod BLOCK_SIZE)" unfolding byte_of_def Let_def True b(1) using b(2) by simp
    have "?d ! (pos mod BLOCK_SIZE) = (if ?w \<le> pos mod BLOCK_SIZE \<and> pos mod BLOCK_SIZE < ?w + length c then c ! (pos mod BLOCK_SIZE - ?w) else blocks s b ! (pos mod BLOCK_SIZE))"
      using c ok(1) by (subst nth_blit) (simp_all add: BLOCK_SIZE_def)
    moreover have "pos0 \<le> pos \<longleftrightarrow> ?w \<le> pos mod BLOCK_SIZE" "pos < pos0 + length c \<longleftrightarrow> pos mod BLOCK_SIZE < ?w + length c"
        "pos - pos0 = pos mod BLOCK_SIZE - ?w" using e by linarith+
    ultimately show ?thesis unfolding W(3) if_P [OF True] old by simp
  next
    case False
    have "\<not> (pos0 \<le> pos \<and> pos < pos0 + length c)"
    proof
      assume a: "pos0 \<le> pos \<and> pos < pos0 + length c"
      then have "pos - pos0 < BLOCK_SIZE - ?w" using c by linarith
      from same_block(1) [OF this] a False show False by simp
    qed
    then show ?thesis unfolding W(3) if_not_P [OF False] by auto
  qed
qed

text \<open>One round of the loop: the block is found or allocated, and its part of the data is stored.\<close>

lemma write_loop_step:
  assumes ok: "fs_ok s" "file_ok s n" and lt: "dn < length data" and k: "k = min (length data - dn) (BLOCK_SIZE - (off + dn) mod BLOCK_SIZE)"
  obtains (stop) n' s' where "write_loop n off data dn s = Some (dn, n', s')" "keeps_files s n s' n'" "byte_of s' n' = byte_of s n"
      "disk_full s' \<or> MAX_BLOCKS \<le> (off + dn) div BLOCK_SIZE"
    | (step) n' s' where "write_loop n off data dn s = write_loop n' off data (dn + k) s'" "keeps_files s n s' n'"
      "\<And>pos. byte_of s' n' pos = (if off + dn \<le> pos \<and> pos < off + dn + k then data ! (pos - off) else byte_of s n pos)"
      "\<And>i. i < k \<Longrightarrow> val s' n' (data_ref ((off + dn + i) div BLOCK_SIZE)) \<noteq> 0"
proof -
  let ?bi = "(off + dn) div BLOCK_SIZE" and ?w = "(off + dn) mod BLOCK_SIZE"
  obtain ob n1 s1 where bf: "block_for n ?bi True s = Some (ob, n1, s1)"
      and g: "if ?bi < MAX_BLOCKS then grown s n (data_ref ?bi) ob n1 s1 else ob = None \<and> n1 = n \<and> s1 = s"
    using block_for_fs [OF ok, of ?bi] by blast
  show ?thesis
  proof (cases ob)
    case None
    have "write_loop n off data dn s = Some (dn, n1, s1)" by (subst write_loop.simps) (use lt bf None in simp)
    then show ?thesis by (rule stop) (use g None keeps_files_refl [OF ok] in \<open>auto simp: grown_def split: if_splits\<close>)
  next
    case (Some b)
    then have g: "grown s n (data_ref ?bi) (Some b) n1 s1" using g by (auto split: if_splits)
    note G = grownD [OF g]
    have b: "val s1 n1 (data_ref ?bi) = b" "b \<noteq> 0" using G(6,7) by simp_all
    have db: "disk_block b" using region_disk(3) [OF G(3)] file_okD(2) [OF G(4), of "data_ref ?bi"] b by simp
    obtain s2 where s2: "read_block b s1 = (blocks s1 b, s2)" "fs_ok s2" "same_fs s1 s2" using read_block_fs [OF G(3) db] by blast
    note S = keeps_same [OF s2(2,3) G(4)]
    have f2: "file_ok s2 n1" using S(1) by (simp add: keeps_files_def)
    have kw: "?w + k \<le> BLOCK_SIZE" "dn + k \<le> length data" using k lt by (auto simp: BLOCK_SIZE_def)
    let ?c = "take k (drop dn data)"
    let ?d = "blit (blocks s1 b) ?w ?c"
    have c: "length ?c = k" using kw by simp
    have "sub_slice data dn (dn + k) = Some ?c" using kw by (simp add: sub_slice_def)
    moreover have "blit_checked (blocks s1 b) ?w ?c = Some ?d" using c kw G(3) by (simp add: blit_checked_def)
    ultimately have st: "write_loop n off data dn s = write_loop n1 off data (dn + k) (write_block b ?d s2)"
      by (subst write_loop.simps) (use lt bf Some s2 k in \<open>simp add: Let_def\<close>)
    have b2: "val s2 n1 (data_ref ?bi) = b" using b S(3) by simp
    have sd: "write_block b ?d s2 = write_block b (blit (blocks s2 b) ?w ?c) s2" by (simp add: same_fs_observe(1) [OF s2(3)])
    note W = keeps_store [OF s2(2) f2 b2 b(2) _ sd]
    have wc: "?w + length ?c \<le> BLOCK_SIZE" using c kw by simp
    have K: "keeps_files s n (write_block b ?d s2) n1" using keeps_files_trans [OF keeps_files_trans [OF G(1) S(1)] W(1) [OF wc]] .
    have bo: "byte_of (write_block b ?d s2) n1 pos = (if off + dn \<le> pos \<and> pos < off + dn + k then data ! (pos - off) else byte_of s n pos)" for pos
      unfolding W(4) [OF wc] S(2) G(2) c using kw(2) by auto
    show ?thesis by (rule step [OF st K bo]) (use same_block k b2 W(2) [OF wc] b in simp_all)
  qed
qed

text \<open>
  The whole loop stores a prefix of the data, and the rest only fails when the disk is full or the
  file has its largest size.
\<close>

lemma write_loop_fs:
  assumes "fs_ok s" "file_ok s n" "dn \<le> length data"
  shows "\<exists>m n' s'. write_loop n off data dn s = Some (m, n', s') \<and> keeps_files s n s' n' \<and> dn \<le> m \<and> m \<le> length data
     \<and> (m < length data \<longrightarrow> disk_full s' \<or> MAX_BLOCKS \<le> (off + m) div BLOCK_SIZE)
     \<and> (\<forall>pos. byte_of s' n' pos = (if off + dn \<le> pos \<and> pos < off + m then data ! (pos - off) else byte_of s n pos))
     \<and> (\<forall>pos. off + dn \<le> pos \<and> pos < off + m \<longrightarrow> val s' n' (data_ref (pos div BLOCK_SIZE)) \<noteq> 0)"
  using assms
proof (induction "length data - dn" arbitrary: dn n s rule: less_induct)
  case less
  show ?case
  proof (cases "dn < length data")
    case False
    then show ?thesis using less.prems keeps_files_refl [OF less.prems(1,2)] by (subst write_loop.simps) auto
  next
    case lt: True
    define k where "k = min (length data - dn) (BLOCK_SIZE - (off + dn) mod BLOCK_SIZE)"
    have k: "0 < k" "dn + k \<le> length data" using lt by (auto simp: BLOCK_SIZE_def k_def)
    show ?thesis
    proof (cases rule: write_loop_step [OF less.prems(1,2) lt k_def])
      case (1 n' s')
      then show ?thesis using lt by (intro exI [of _ dn] exI [of _ n'] exI [of _ s']) auto
    next
      case (2 n1 s1)
      note K = keepsD [OF 2(2)]
      have "length data - (dn + k) < length data - dn" using lt k by simp
      from less.hyps [OF this K(1,3) k(2)]
      obtain m n' s' where m: "write_loop n1 off data (dn + k) s1 = Some (m, n', s')" "keeps_files s1 n1 s' n'" "dn + k \<le> m" "m \<le> length data"
          "m < length data \<longrightarrow> disk_full s' \<or> MAX_BLOCKS \<le> (off + m) div BLOCK_SIZE"
        and by1: "\<And>pos. byte_of s' n' pos = (if off + (dn + k) \<le> pos \<and> pos < off + m then data ! (pos - off) else byte_of s1 n1 pos)"
        and nz: "\<And>pos. off + (dn + k) \<le> pos \<Longrightarrow> pos < off + m \<Longrightarrow> val s' n' (data_ref (pos div BLOCK_SIZE)) \<noteq> 0" by blast
      have "byte_of s' n' pos = (if off + dn \<le> pos \<and> pos < off + m then data ! (pos - off) else byte_of s n pos)" for pos
        using m(3) by (auto simp: by1 2(3))
      moreover have "val s' n' (data_ref (pos div BLOCK_SIZE)) \<noteq> 0" if p: "off + dn \<le> pos" "pos < off + m" for pos
      proof (cases "pos < off + (dn + k)")
        case True
        then have "val s1 n1 (data_ref (pos div BLOCK_SIZE)) \<noteq> 0" using 2(4) [of "pos - (off + dn)"] p by simp
        then show ?thesis using keepsD(9) [OF m(2)] by metis
      qed (use nz p in auto)
      ultimately show ?thesis using 2(1) m keeps_files_trans [OF 2(2) m(2)] by (intro exI [of _ m] exI [of _ n'] exI [of _ s']) auto
    qed
  qed
qed

section \<open>All files\<close>

definition file_len :: "fs \<Rightarrow> u32 \<Rightarrow> nat" where
  "file_len s ino = unat (fsize (inode_at s ino))"

definition content :: "fs \<Rightarrow> u32 \<Rightarrow> bytes" where
  "content s ino = map (byte_of s (inode_at s ino)) [0..<file_len s ino]"

text \<open>A file without holes.\<close>

definition solid :: "fs \<Rightarrow> u32 \<Rightarrow> bool" where
  "solid s ino \<longleftrightarrow> (\<forall>pos < file_len s ino. val s (inode_at s ino) (data_ref (pos div BLOCK_SIZE)) \<noteq> 0)"

definition files_ok :: "fs \<Rightarrow> bool" where
  [inv_defs]: "files_ok s \<longleftrightarrow> fs_ok s \<and> (\<forall>ino. unat ino < 128 \<longrightarrow> file_ok s (inode_at s ino))
     \<and> (\<forall>i j b. unat i < 128 \<longrightarrow> unat j < 128 \<longrightarrow> i \<noteq> j \<longrightarrow> owns s (inode_at s i) b \<longrightarrow> \<not> owns s (inode_at s j) b)"

lemma length_content [simp]: "length (content s ino) = file_len s ino"
  by (simp add: content_def)

lemma files_okD:
  assumes "files_ok s"
  shows "fs_ok s" "unat ino < 128 \<Longrightarrow> file_ok s (inode_at s ino)"
    "unat i < 128 \<Longrightarrow> unat j < 128 \<Longrightarrow> i \<noteq> j \<Longrightarrow> owns s (inode_at s i) b \<Longrightarrow> \<not> owns s (inode_at s j) b"
  using assms by (auto simp: files_ok_def)

lemma same_files:
  assumes "files_ok s" "fs_ok s'" "same_fs s s'"
  shows "files_ok s'" "unat ino < 128 \<Longrightarrow> content s' ino = content s ino" "unat ino < 128 \<Longrightarrow> solid s' ino \<longleftrightarrow> solid s ino" "file_len s' = file_len s"
proof -
  note F = files_okD [OF assms(1)] and O = same_fs_observe [OF assms(3)]
  have K: "val s' (inode_at s ino) = val s (inode_at s ino)" "byte_of s' (inode_at s ino) = byte_of s (inode_at s ino)" "file_ok s' (inode_at s ino)" if "unat ino < 128" for ino
    using keeps_same [OF assms(2,3) F(2) [OF that]] by (simp_all add: keeps_files_def)
  show "file_len s' = file_len s" by (simp add: file_len_def O fun_eq_iff)
  then show "unat ino < 128 \<Longrightarrow> content s' ino = content s ino" "unat ino < 128 \<Longrightarrow> solid s' ino \<longleftrightarrow> solid s ino"
    using K [of ino] by (simp_all add: content_def solid_def O)
  show "files_ok s'" using assms(2) F(3) K by (simp add: files_ok_def O owns_def)
qed

text \<open>A change of one file, seen from another.\<close>

lemma other_file:
  assumes k: "keeps_files s n s' n'" and q: "file_ok s q" "\<forall>b. owns s n b \<longrightarrow> \<not> owns s q b"
  shows "val s' q = val s q" "byte_of s' q = byte_of s q" "file_ok s' q" "owns s' n' b \<Longrightarrow> \<not> owns s' q b"
proof -
  note K = keepsD [OF k] and F = file_okD [OF q(1)]
  have bl: "blocks s' (val s q r) = blocks s (val s q r)" if "val s q r \<noteq> 0" for r
  proof (rule K(11))
    have "owns s q (val s q r)" using that by (auto simp: owns_def)
    then show "\<not> owns s n (val s q r)" using q(2) by blast
  qed (use F that in auto)
  show v: "val s' q = val s q" by (rule val_cong) (use bl in auto)
  show "byte_of s' q = byte_of s q" using bl by (intro ext) (simp add: byte_of_def v Let_def)
  show "file_ok s' q" using F K(7) data_block_lay [OF K(2)] by (simp add: file_ok_def v)
  show "\<not> owns s' q b" if "owns s' n' b" using K(10) [OF that] q(2) owns_data [OF q(1), of b] by (auto simp: owns_def v)
qed

text \<open>A change of the inode table only.\<close>

lemma val_fsize [simp]: "val s (n\<lparr>fsize := x\<rparr>) = val s n"
proof
  show "val s (n\<lparr>fsize := x\<rparr>) r = val s n r" for r by (cases r) simp_all
qed

lemma inode_only:
  assumes ok: "fs_ok s" "unat ino < 128" "file_ok s q" and l: "lay s' = lay s" and b: "\<And>b. b \<noteq> inode_block s ino \<Longrightarrow> blocks s' b = blocks s b"
  shows "val s' q = val s q" "byte_of s' q = byte_of s q" "file_ok s' q" "disk_full s' \<longleftrightarrow> disk_full s"
proof -
  note F = file_okD [OF ok(3)]
  have d: "blocks s' c = blocks s c" if "data_block s c" for c using b region_apart(2) [OF ok(1,2) that] by metis
  show v: "val s' q = val s q" by (rule val_cong) (use F d in auto)
  show "byte_of s' q = byte_of s q" using F d by (intro ext) (auto simp: byte_of_def v Let_def)
  have u: "block_used s' c = block_used s c" if "data_block s c" for c
    using b region_apart(1) [OF ok(1,2), of c] that by (auto simp: block_used_def data_block_def)
  show "file_ok s' q" using F u data_block_lay [OF l] by (simp add: file_ok_def v)
  show "disk_full s' \<longleftrightarrow> disk_full s" using u by (auto simp: disk_full_def data_block_lay [OF l])
qed

text \<open>A file that has grown gets its inode, with a new size.\<close>

lemma commit_node_fs:
  assumes ok: "files_ok s" and ino: "unat ino < 128" and k: "keeps_files s (inode_at s ino) s1 n1" and n2: "n2 = n1\<lparr>fsize := x\<rparr>"
  obtains s2 where "write_inode ino n2 s1 = Some s2" "files_ok s2" "inode_at s2 ino = n2" "val s2 n2 = val s1 n1" "byte_of s2 n2 = byte_of s1 n1"
    "lay s2 = lay s" "disk_full s2 \<longleftrightarrow> disk_full s1"
    "\<And>b. data_block s b \<Longrightarrow> blocks s2 b = blocks s1 b"
    "\<And>j. unat j < 128 \<Longrightarrow> j \<noteq> ino \<Longrightarrow> inode_at s2 j = inode_at s j \<and> content s2 j = content s j \<and> (solid s2 j \<longleftrightarrow> solid s j)"
proof -
  note F = files_okD [OF ok] and K = keepsD [OF k]
  define n where "n = inode_at s ino"
  have i2: "inode_ok n2" using file_okD(1) [OF K(3)] by (simp add: n2 inode_ok_def)
  obtain s2 where s2: "write_inode ino n2 s1 = Some s2" "fs_ok s2" "lay s2 = lay s1" "inode_at s2 ino = n2"
      "\<And>j. unat j < 128 \<Longrightarrow> j \<noteq> ino \<Longrightarrow> inode_at s2 j = inode_at s1 j" "\<And>b. b \<noteq> inode_block s1 ino \<Longrightarrow> blocks s2 b = blocks s1 b"
    using write_inode_fs [OF K(1) ino i2] by blast
  note I = inode_only [OF K(1) ino _ s2(3,6)]
  have b2: "byte_of s n2 = byte_of s n1" "owns s n2 = owns s n1" for s by (auto simp: byte_of_def owns_def fun_eq_iff n2)
  have f2: "file_ok s2 n2" using I(3) [OF K(3)] i2 by (simp add: file_ok_def n2)
  have oth: "inode_at s2 j = inode_at s j" "val s2 (inode_at s j) = val s (inode_at s j)" "byte_of s2 (inode_at s j) = byte_of s (inode_at s j)"
      "file_ok s2 (inode_at s j)" "owns s2 n2 b \<Longrightarrow> \<not> owns s2 (inode_at s j) b" if j: "unat j < 128" "j \<noteq> ino" for j b
  proof -
    have d: "\<forall>b. owns s n b \<longrightarrow> \<not> owns s (inode_at s j) b" using F(3) [OF ino j(1)] j(2) by (auto simp: n_def)
    note O = other_file [OF k [folded n_def] F(2) [OF j(1)] d]
    note I2 = I [OF O(3)] and I1 = I [OF K(3)]
    show "inode_at s2 j = inode_at s j" using s2(5) j K(12) by simp
    show "val s2 (inode_at s j) = val s (inode_at s j)" "byte_of s2 (inode_at s j) = byte_of s (inode_at s j)" "file_ok s2 (inode_at s j)"
      using I2 O by simp_all
    show "\<not> owns s2 (inode_at s j) b" if "owns s2 n2 b" using that O(4) [of b] by (simp add: b2 owns_def I1(1) I2(1))
  qed
  have "files_ok s2"
    unfolding files_ok_def
  proof (intro conjI allI impI)
    show "file_ok s2 (inode_at s2 i)" if "unat i < 128" for i using oth(1,4) [OF that] f2 s2(4) by (cases "i = ino") simp_all
    show "\<not> owns s2 (inode_at s2 j) b" if "unat i < 128" "unat j < 128" "i \<noteq> j" "owns s2 (inode_at s2 i) b" for i j b
      using that oth F(3) [OF that(1,2,3), of b] s2(4) by (cases "i = ino"; cases "j = ino") (auto simp: owns_def)
  qed (rule s2(2))
  moreover have "inode_at s2 j = inode_at s j \<and> content s2 j = content s j \<and> (solid s2 j \<longleftrightarrow> solid s j)" if "unat j < 128" "j \<noteq> ino" for j
    using oth [OF that] by (simp add: content_def solid_def file_len_def)
  moreover have "blocks s2 b = blocks s1 b" if "data_block s b" for b
    using s2(6) region_apart(2) [OF K(1) ino, of b] that data_block_lay [OF K(2)] by metis
  moreover have "byte_of s2 n2 = byte_of s1 n1" using I(2) [OF K(3)] by (simp add: b2)
  moreover have "val s2 n2 = val s1 n1" "disk_full s2 \<longleftrightarrow> disk_full s1" using I(1,4) [OF K(3)] by (simp_all add: n2)
  ultimately show ?thesis using that s2(1,4) s2(3) K(2) by simp
qed

lemma write_at_fs:
  assumes ok: "files_ok s" and ino: "unat ino < 128" and small: "off + length data < 2 ^ 32"
  obtains m s' where "write_at ino off data s = Some (m, s')" "files_ok s'" "m \<le> length data"
    "m < length data \<Longrightarrow> disk_full s' \<or> MAX_BLOCKS \<le> (off + m) div BLOCK_SIZE"
    "file_len s' ino = max (file_len s ino) (off + m)"
    "\<And>pos. byte_of s' (inode_at s' ino) pos = (if off \<le> pos \<and> pos < off + m then data ! (pos - off) else byte_of s (inode_at s ino) pos)"
    "\<And>pos. off \<le> pos \<Longrightarrow> pos < off + m \<Longrightarrow> val s' (inode_at s' ino) (data_ref (pos div BLOCK_SIZE)) \<noteq> 0"
    "\<And>r. val s (inode_at s ino) r \<noteq> 0 \<Longrightarrow> val s' (inode_at s' ino) r = val s (inode_at s ino) r"
    "\<And>j. unat j < 128 \<Longrightarrow> j \<noteq> ino \<Longrightarrow> content s' j = content s j \<and> (solid s' j \<longleftrightarrow> solid s j)"
proof -
  note F = files_okD [OF ok]
  define n where "n = inode_at s ino"
  have fn: "file_ok s n" using F(2) [OF ino] by (simp add: n_def)
  obtain s0 where s0: "read_inode ino s = Some (n, s0)" "fs_ok s0" "same_fs s s0" unfolding n_def by (rule read_inode_fs [OF F(1) ino])
  note S0 = keeps_same [OF s0(2,3) fn]
  have f0: "file_ok s0 n" using S0(1) by (simp add: keeps_files_def)
  obtain m n' s1 where w: "write_loop n off data 0 s0 = Some (m, n', s1)" "keeps_files s0 n s1 n'" "m \<le> length data"
      "m < length data \<longrightarrow> disk_full s1 \<or> MAX_BLOCKS \<le> (off + m) div BLOCK_SIZE"
    and wb: "\<And>pos. byte_of s1 n' pos = (if off \<le> pos \<and> pos < off + m then data ! (pos - off) else byte_of s n pos)"
    and wv: "\<And>pos. off \<le> pos \<Longrightarrow> pos < off + m \<Longrightarrow> val s1 n' (data_ref (pos div BLOCK_SIZE)) \<noteq> 0"
    using write_loop_fs [OF s0(2) f0, of 0 data off] S0(2) by auto
  have k: "keeps_files s n s1 n'" by (rule keeps_files_trans [OF S0(1) w(2)])
  note K = keepsD [OF k]
  define n2 where "n2 = n'\<lparr>fsize := (if unat (fsize n') < off + m then of_nat (off + m) else fsize n')\<rparr>"
  have sz: "unat (fsize n2) = max (file_len s ino) (off + m)"
    using K(6) small w(3) by (auto simp: n2_def file_len_def n_def unat_of_nat take_bit_nat_eq_self simp del: of_nat_add)
  obtain s2 where s2: "write_inode ino n2 s1 = Some s2" "files_ok s2" "inode_at s2 ino = n2" "val s2 n2 = val s1 n'" "byte_of s2 n2 = byte_of s1 n'"
      "disk_full s2 \<longleftrightarrow> disk_full s1"
      "\<And>j. unat j < 128 \<Longrightarrow> j \<noteq> ino \<Longrightarrow> inode_at s2 j = inode_at s j \<and> content s2 j = content s j \<and> (solid s2 j \<longleftrightarrow> solid s j)"
    using commit_node_fs [OF ok ino k [unfolded n_def] n2_def] by blast
  have "write_at ino off data s = Some (m, s2)" using s0(1) w(1) s2(1) by (cases "unat (fsize n') < off + m") (simp_all add: write_at_def n2_def Let_def)
  then show ?thesis using that [of m s2] w wb wv K(9) sz s2 by (simp add: file_len_def n_def)
qed

lemma files_okI_write:
  assumes "files_ok s" "unat ino < 128" "off \<le> file_len s ino" "off + length data < 2 ^ 32"
  obtains m s' where "write_at ino off data s = Some (m, s')" "files_ok s'" "m \<le> length data"
    "m < length data \<Longrightarrow> disk_full s' \<or> MAX_BLOCKS \<le> (off + m) div BLOCK_SIZE"
    "content s' ino = take off (content s ino) @ take m data @ drop (off + m) (content s ino)"
    "solid s ino \<Longrightarrow> solid s' ino"
    "\<And>j. unat j < 128 \<Longrightarrow> j \<noteq> ino \<Longrightarrow> content s' j = content s j \<and> (solid s' j \<longleftrightarrow> solid s j)"
proof -
  obtain m s' where w: "write_at ino off data s = Some (m, s')" "files_ok s'" "m \<le> length data"
    "m < length data \<Longrightarrow> disk_full s' \<or> MAX_BLOCKS \<le> (off + m) div BLOCK_SIZE"
    "file_len s' ino = max (file_len s ino) (off + m)"
    "\<And>pos. byte_of s' (inode_at s' ino) pos = (if off \<le> pos \<and> pos < off + m then data ! (pos - off) else byte_of s (inode_at s ino) pos)"
    "\<And>pos. off \<le> pos \<Longrightarrow> pos < off + m \<Longrightarrow> val s' (inode_at s' ino) (data_ref (pos div BLOCK_SIZE)) \<noteq> 0"
    "\<And>r. val s (inode_at s ino) r \<noteq> 0 \<Longrightarrow> val s' (inode_at s' ino) r = val s (inode_at s ino) r"
    "\<And>j. unat j < 128 \<Longrightarrow> j \<noteq> ino \<Longrightarrow> content s' j = content s j \<and> (solid s' j \<longleftrightarrow> solid s j)"
    using write_at_fs [OF assms(1,2,4)] by blast
  have "content s' ino = take off (content s ino) @ take m data @ drop (off + m) (content s ino)"
  proof (rule nth_equalityI)
    show "length (content s' ino) = length (take off (content s ino) @ take m data @ drop (off + m) (content s ino))"
      using w(3,5) assms(3) by auto
    fix i assume "i < length (content s' ino)"
    then have "i < max (file_len s ino) (off + m)" using w(5) by simp
    then show "content s' ino ! i = (take off (content s ino) @ take m data @ drop (off + m) (content s ino)) ! i"
      using w(3,5,6) assms(3) by (auto simp: content_def nth_append min_def)
  qed
  moreover have "solid s' ino" if "solid s ino"
    unfolding solid_def w(5)
  proof (intro allI impI)
    fix pos assume p: "pos < max (file_len s ino) (off + m)"
    show "val s' (inode_at s' ino) (data_ref (pos div BLOCK_SIZE)) \<noteq> 0"
    proof (cases "off \<le> pos \<and> pos < off + m")
      case False
      then have "val s (inode_at s ino) (data_ref (pos div BLOCK_SIZE)) \<noteq> 0" using that p assms(3) by (auto simp: solid_def)
      then show ?thesis using w(8) by metis
    qed (use w(7) in blast)
  qed
  ultimately show ?thesis using that w(1-4,9) by blast
qed

lemma read_at_fs:
  assumes ok: "files_ok s" and ino: "unat ino < 128" and sol: "solid s ino"
  obtains s' where "read_at ino off out s = Some (min (file_len s ino - off) (length out), blit out 0 (take (length out) (drop off (content s ino))), s')"
    "files_ok s'" "same_fs s s'"
proof -
  note F = files_okD [OF ok]
  let ?n = "inode_at s ino"
  obtain s0 where s0: "read_inode ino s = Some (?n, s0)" "fs_ok s0" "same_fs s s0" by (rule read_inode_fs [OF F(1) ino])
  note S0 = keeps_same [OF s0(2,3) F(2) [OF ino]]
  have f0: "file_ok s0 ?n" using S0(1) by (simp add: keeps_files_def)
  let ?w = "min (file_len s ino - off) (length out)"
  show ?thesis
  proof (cases "file_len s ino \<le> off")
    case True
    then show ?thesis using that [of s0] s0 same_files(1) [OF ok s0(2,3)] by (simp add: read_at_def file_len_def)
  next
    case False
    obtain m s' where m: "read_loop ?n off ?w 0 out s0 = Some (m, blit out 0 (map (byte_of s ?n) [off..<off + m]), s')" "fs_ok s'" "same_fs s0 s'"
        "m \<le> ?w" "m < ?w \<longrightarrow> val s ?n (data_ref ((off + m) div BLOCK_SIZE)) = 0"
      using read_loop_fs [OF s0(2) f0, of 0 ?w out off] S0 by auto
    have "m = ?w"
    proof (rule ccontr)
      assume "m \<noteq> ?w"
      then have "m < ?w" using m(4) by linarith
      moreover then have "off + m < file_len s ino" by linarith
      ultimately show False using m(5) sol by (auto simp: solid_def)
    qed
    moreover have "map (byte_of s ?n) [off..<off + ?w] = take (length out) (drop off (content s ino))"
      by (rule nth_equalityI) (use False in \<open>auto simp: content_def\<close>)
    ultimately have "read_at ino off out s = Some (?w, blit out 0 (take (length out) (drop off (content s ino))), s')"
      using s0(1) m(1) False by (simp add: read_at_def file_len_def Let_def)
    then show ?thesis using that same_files(1) [OF ok m(2)] same_fs_trans [OF s0(3) m(3)] by blast
  qed
qed

lemma truncate_fs:
  assumes ok: "files_ok s" and ino: "unat ino < 128"
  obtains s' where "truncate ino s = Some s'" "files_ok s'" "content s' ino = []" "solid s' ino"
    "\<And>j. unat j < 128 \<Longrightarrow> j \<noteq> ino \<Longrightarrow> content s' j = content s j \<and> (solid s' j \<longleftrightarrow> solid s j)"
proof -
  note F = files_okD [OF ok]
  let ?n = "inode_at s ino"
  obtain s0 where s0: "read_inode ino s = Some (?n, s0)" "fs_ok s0" "same_fs s s0" by (rule read_inode_fs [OF F(1) ino])
  note O = same_fs_observe [OF s0(3)] and S = same_files [OF ok s0(2,3)]
  have n: "inode_ok (?n\<lparr>fsize := 0\<rparr>)" using file_okD(1) [OF F(2) [OF ino]] by (simp add: inode_ok_def)
  obtain s1 where s1: "write_inode ino (?n\<lparr>fsize := 0\<rparr>) s0 = Some s1" "fs_ok s1" "lay s1 = lay s0" "inode_at s1 ino = ?n\<lparr>fsize := 0\<rparr>"
      "\<And>j. unat j < 128 \<Longrightarrow> j \<noteq> ino \<Longrightarrow> inode_at s1 j = inode_at s j" "\<And>b. b \<noteq> inode_block s0 ino \<Longrightarrow> blocks s1 b = blocks s0 b"
    using write_inode_fs [OF s0(2) ino n] O(3) by metis
  have I: "val s1 (inode_at s j) = val s0 (inode_at s j)" "byte_of s1 (inode_at s j) = byte_of s0 (inode_at s j)" "file_ok s1 (inode_at s j)" if "unat j < 128" for j
    using inode_only [OF s0(2) ino _ s1(3,6)] files_okD(2) [OF S(1) that] O(3) by simp_all
  have v: "val s1 (inode_at s1 j) = val s0 (inode_at s j)" "file_ok s1 (inode_at s1 j)" if "unat j < 128" for j
    using I [OF that] s1(4) s1(5) [OF that] by (cases "j = ino"; simp add: file_ok_def inode_ok_def)+
  have "files_ok s1" using files_okD(3) [OF S(1)] s1(2) v by (simp add: files_ok_def owns_def O(3))
  moreover have "content s1 j = content s j \<and> (solid s1 j \<longleftrightarrow> solid s j)" if "unat j < 128" "j \<noteq> ino" for j
    using I [OF that(1)] s1(5) [OF that] S(2,3,4) that O(3) by (simp add: content_def solid_def file_len_def)
  moreover have "truncate ino s = Some s1" using s0(1) s1(1) by (simp add: truncate_def)
  ultimately show ?thesis using that s1(4) by (simp add: content_def solid_def file_len_def)
qed

text \<open>An empty disk.\<close>

lemma blank_inode: "val (blank_fs 1024) (inode_at (blank_fs 1024) ino) r = 0" "file_len (blank_fs 1024) ino = 0"
proof -
  have b: "blocks (blank_fs 1024) b = zero_block" for b by (simp add: blank_fs_def blocks_def)
  have z: "rd_u32 zero_block i = Some 0" if "i + 4 \<le> BLOCK_SIZE" for i
    using that by (simp add: rd_u32_def index_def zero_block_def u32_from_le_def)
  have o: "snd (inode_loc (lay (blank_fs 1024)) ino) + INODE_SIZE \<le> BLOCK_SIZE" using inode_loc_off by simp
  have p: "Inode_parse zero_block (snd (inode_loc (lay (blank_fs 1024)) ino)) = Some (inode_at (blank_fs 1024) ino)"
    using inode_at_parse [OF blank_fs_ok, of ino] by (simp add: b)
  have "those (map (\<lambda>i. rd_u32 zero_block (snd (inode_loc (lay (blank_fs 1024)) ino) + 8 + i * 4)) [0..<NDIRECT]) = Some (map (\<lambda>_. 0) [0..<NDIRECT])"
    by (rule those_map_Some) (use o in \<open>auto intro!: z simp: fs_consts\<close>)
  with p o obtain k l where "\<lparr>kind = k, nlink = l, fsize = 0, direct = map (\<lambda>_. 0) [0..<NDIRECT], indirect = 0, double_indirect = 0\<rparr> = inode_at (blank_fs 1024) ino"
    by (auto simp: Inode_parse_def z fs_consts bind_eq_Some_conv)
  note n = this [symmetric]
  show "val (blank_fs 1024) (inode_at (blank_fs 1024) ino) r = 0" unfolding n by (cases r) simp_all
  show "file_len (blank_fs 1024) ino = 0" unfolding file_len_def n by simp
qed

lemma blank_files: "files_ok (blank_fs 1024)" "content (blank_fs 1024) ino = []" "solid (blank_fs 1024) ino"
  using blank_fs_ok blank_inode inode_at_ok [OF blank_fs_ok]
  by (simp_all add: files_ok_def file_ok_def owns_def content_def solid_def)

section \<open>Deleting\<close>

text \<open>A set of data blocks is given back; nothing else changes.\<close>

definition freed :: "fs \<Rightarrow> u32 set \<Rightarrow> fs \<Rightarrow> bool" where
  "freed s B s' \<longleftrightarrow> fs_ok s' \<and> lay s' = lay s \<and> (\<forall>c. data_block s c \<longrightarrow> block_used s' c = (block_used s c \<and> c \<notin> B) \<and> blocks s' c = blocks s c)
     \<and> (\<forall>ino. unat ino < 128 \<longrightarrow> inode_at s' ino = inode_at s ino)"

lemma freed_refl: "fs_ok s \<Longrightarrow> freed s {} s"
  by (simp add: freed_def)

lemma freed_trans: "freed s A s1 \<Longrightarrow> freed s1 B s2 \<Longrightarrow> freed s (A \<union> B) s2"
  using data_block_lay [of s1 s] by (auto simp: freed_def)

lemma freedD: "freed s B s' \<Longrightarrow> fs_ok s'" "freed s B s' \<Longrightarrow> data_block s' = data_block s" "freed s B s' \<Longrightarrow> data_block s c \<Longrightarrow> blocks s' c = blocks s c"
  using data_block_lay [of s' s] by (auto simp: freed_def)

lemma free_block_freed:
  assumes "fs_ok s" "data_block s b"
  shows "\<exists>s'. free_block b s = Some s' \<and> freed s {b} s'"
proof -
  have bt: "unat b < unat (total_blocks (lay s))" using assms(2) by (simp add: data_block_def)
  obtain s' where "free_block b s = Some s'" "fs_ok s'" "lay s' = lay s"
    "\<And>c. unat c < unat (total_blocks (lay s)) \<Longrightarrow> block_used s' c \<longleftrightarrow> c \<noteq> b \<and> block_used s c"
    "\<And>c. c \<noteq> bm_block b \<Longrightarrow> blocks s' c = blocks s c" "\<And>ino. unat ino < 128 \<Longrightarrow> inode_at s' ino = inode_at s ino"
    using free_block_fs [OF assms] by blast
  then show ?thesis using region_apart(3) [OF assms(1) bt] by (fastforce simp: freed_def data_block_def)
qed

lemma free_direct_freed:
  assumes "fs_ok s" "\<And>b. b \<in> set bs \<Longrightarrow> b \<noteq> 0 \<Longrightarrow> data_block s b"
  shows "\<exists>s'. free_direct bs s = Some s' \<and> freed s (set bs - {0}) s'"
  using assms
proof (induction bs arbitrary: s)
  case Nil
  then show ?case using freed_refl by simp
next
  case (Cons b bs)
  obtain s1 where s1: "(if b \<noteq> 0 then free_block b s else Some s) = Some s1" "freed s ({b} - {0}) s1"
    using free_block_freed [OF Cons.prems(1), of b] Cons.prems freed_refl by (cases "b = 0") auto
  obtain s2 where "free_direct bs s1 = Some s2" "freed s1 (set bs - {0}) s2"
    using Cons.IH [of s1] Cons.prems(2) freedD [OF s1(2)] by auto
  then have "free_direct (b # bs) s = Some s2" "freed s (({b} - {0}) \<union> (set bs - {0})) s2" using s1 freed_trans by auto
  moreover have "({b} - {0}) \<union> (set bs - {0}) = set (b # bs) - {0}" by auto
  ultimately show ?case by metis
qed

lemma free_ptrs_direct:
  assumes "\<And>i. i \<in> set is \<Longrightarrow> rd_u32 blk (i * 4) = Some (f i)"
  shows "free_ptrs blk is = free_direct (map f is)"
  using assms by (induction "is") (auto intro!: ext)

text \<open>The pointers of a block.\<close>

definition ptrs_of :: "fs \<Rightarrow> u32 \<Rightarrow> u32 set" where
  "ptrs_of s b = {ptr s b i | i. ptr s b i \<noteq> 0}"

lemma ptrs_of_range: "ptrs_of s b = set (map (ptr s b) [0..<PTRS_PER_BLOCK]) - {0}"
  by (auto simp: ptrs_of_def ptr_def split: if_splits) (metis not_less)

lemma free_indirect_freed:
  assumes ok: "fs_ok s" and b: "data_block s b" "\<And>c. c \<in> ptrs_of s b \<Longrightarrow> data_block s c"
  shows "\<exists>s'. free_indirect b s = Some s' \<and> freed s (insert b (ptrs_of s b)) s'"
proof -
  have b0: "b \<noteq> 0" using data_block_nonzero [OF ok b(1)] .
  obtain s1 where s1: "read_block b s = (blocks s b, s1)" "fs_ok s1" "same_fs s s1" using read_block_fs [OF ok region_disk(3) [OF ok b(1)]] by blast
  note O = same_fs_observe [OF s1(3)]
  have f1: "freed s {} s1" using s1(2) by (simp add: freed_def O)
  have p: "free_ptrs (blocks s b) [0..<PTRS_PER_BLOCK] = free_direct (map (ptr s b) [0..<PTRS_PER_BLOCK])"
    by (rule free_ptrs_direct) (use rd_ptr [OF ok b0] in simp)
  obtain s2 where s2: "free_direct (map (ptr s b) [0..<PTRS_PER_BLOCK]) s1 = Some s2" "freed s1 (ptrs_of s b) s2"
    using free_direct_freed [OF s1(2), of "map (ptr s b) [0..<PTRS_PER_BLOCK]"] b(2) unfolding ptrs_of_range O(6) by auto
  obtain s3 where s3: "free_block b s2 = Some s3" "freed s2 {b} s3" using free_block_freed [of s2 b] freedD [OF s2(2)] b(1) O(6) by auto
  have "freed s ({} \<union> ptrs_of s b \<union> {b}) s3" using freed_trans [OF freed_trans [OF f1 s2(2)] s3(2)] .
  then show ?thesis using s1(1) p s2(1) s3(1) by (simp add: free_indirect_def)
qed

lemma ptrs_of_freed: "freed s B s' \<Longrightarrow> data_block s b \<Longrightarrow> ptrs_of s' b = ptrs_of s b"
  using freedD(3) ptr_cong unfolding ptrs_of_def by metis

lemma free_mids_freed:
  assumes "fs_ok s" "\<And>i. i \<in> set is \<Longrightarrow> rd_u32 blk (i * 4) = Some (f i)" "\<And>i. i \<in> set is \<Longrightarrow> f i \<noteq> 0 \<Longrightarrow> data_block s (f i)"
    "\<And>i c. i \<in> set is \<Longrightarrow> c \<in> ptrs_of s (f i) \<Longrightarrow> data_block s c"
  shows "\<exists>s'. free_mids blk is s = Some s' \<and> freed s (\<Union>m \<in> f ` set is - {0}. insert m (ptrs_of s m)) s'"
  using assms
proof (induction "is" arbitrary: s)
  case Nil
  then show ?case using freed_refl by simp
next
  case (Cons i "is")
  have p0: "ptrs_of s 0 = {}" by (simp add: ptrs_of_def)
  obtain s1 where s1: "(if f i \<noteq> 0 then free_indirect (f i) s else Some s) = Some s1" "freed s (\<Union>m \<in> {f i} - {0}. insert m (ptrs_of s m)) s1"
  proof (cases "f i = 0")
    case False
    obtain s1 where "free_indirect (f i) s = Some s1" "freed s (insert (f i) (ptrs_of s (f i))) s1"
      using free_indirect_freed [OF Cons.prems(1), of "f i"] Cons.prems(3,4) [of i] False by auto
    then show ?thesis using that [of s1] False by simp
  qed (use that [of s] Cons.prems(1) freed_refl in simp)
  note D = freedD [OF s1(2)]
  have pq: "ptrs_of s1 (f j) = ptrs_of s (f j)" if "j \<in> set is" for j
    using ptrs_of_freed [OF s1(2)] Cons.prems(3) [of j] that by (cases "f j = 0") (auto simp: ptrs_of_def)
  obtain s2 where s2: "free_mids blk is s1 = Some s2" "freed s1 (\<Union>m \<in> f ` set is - {0}. insert m (ptrs_of s1 m)) s2"
  proof -
    have "\<exists>s2. free_mids blk is s1 = Some s2 \<and> freed s1 (\<Union>m \<in> f ` set is - {0}. insert m (ptrs_of s1 m)) s2"
    proof (rule Cons.IH [OF D(1)])
      fix j c assume j: "j \<in> set is"
      show "rd_u32 blk (j * 4) = Some (f j)" "f j \<noteq> 0 \<Longrightarrow> data_block s1 (f j)" using Cons.prems(2,3) [of j] D(2) j by simp_all
      show "c \<in> ptrs_of s1 (f j) \<Longrightarrow> data_block s1 c" using Cons.prems(4) [of j c] D(2) pq [OF j] j by simp
    qed
    then show ?thesis using that by blast
  qed
  have "(\<Union>m \<in> f ` set is - {0}. insert m (ptrs_of s1 m)) = (\<Union>m \<in> f ` set is - {0}. insert m (ptrs_of s m))" using pq by auto
  then have "freed s ((\<Union>m \<in> {f i} - {0}. insert m (ptrs_of s m)) \<union> (\<Union>m \<in> f ` set is - {0}. insert m (ptrs_of s m))) s2"
    using freed_trans [OF s1(2) s2(2)] by simp
  moreover have "(\<Union>m \<in> {f i} - {0}. insert m (ptrs_of s m)) \<union> (\<Union>m \<in> f ` set is - {0}. insert m (ptrs_of s m))
      = (\<Union>m \<in> f ` set (i # is) - {0}. insert m (ptrs_of s m))" by auto
  ultimately show ?case using s1(1) s2(1) Cons.prems(2) [of i] by auto
qed

text \<open>The blocks of a file, tier by tier.\<close>

definition direct_blocks :: "inode \<Rightarrow> u32 set" where
  "direct_blocks n = set (direct n) - {0}"

definition single_blocks :: "fs \<Rightarrow> inode \<Rightarrow> u32 set" where
  "single_blocks s n = (if indirect n = 0 then {} else insert (indirect n) (ptrs_of s (indirect n)))"

definition double_blocks :: "fs \<Rightarrow> inode \<Rightarrow> u32 set" where
  "double_blocks s n = (if double_indirect n = 0 then {} else insert (double_indirect n) (\<Union>m \<in> ptrs_of s (double_indirect n). insert m (ptrs_of s m)))"

lemma owns_tiers:
  assumes "inode_ok n"
  shows "owns s n b \<longleftrightarrow> b \<in> direct_blocks n \<union> single_blocks s n \<union> double_blocks s n"
proof -
  have "(\<exists>i. b = (if i < NDIRECT then direct n ! i else 0)) \<and> b \<noteq> 0 \<longleftrightarrow> b \<in> direct_blocks n"
    using assms by (auto simp: direct_blocks_def inode_ok_def in_set_conv_nth split: if_splits)
  moreover have "owns s n b \<longleftrightarrow> b \<noteq> 0 \<and> ((\<exists>i. b = (if i < NDIRECT then direct n ! i else 0)) \<or> b = indirect n \<or> (\<exists>i. b = ptr s (indirect n) i)
      \<or> b = double_indirect n \<or> (\<exists>i. b = ptr s (double_indirect n) i) \<or> (\<exists>i j. b = ptr s (ptr s (double_indirect n) i) j))"
  proof -
    have "(\<exists>r. val s n r = b) \<longleftrightarrow> (\<exists>i. b = val s n (Dir i)) \<or> b = val s n Ind \<or> (\<exists>i. b = val s n (Sgl i)) \<or> b = val s n Dbl
        \<or> (\<exists>i. b = val s n (Mid i)) \<or> (\<exists>i j. b = val s n (Leaf i j))" (is "?L \<longleftrightarrow> ?R")
    proof
      assume ?L
      then obtain r where "val s n r = b" by blast
      then show ?R by (cases r) (auto simp del: val.simps)
    qed blast
    then show ?thesis by (simp add: owns_def)
  qed
  moreover have "b \<noteq> 0 \<and> (b = indirect n \<or> (\<exists>i. b = ptr s (indirect n) i)) \<longleftrightarrow> b \<in> single_blocks s n"
    by (auto simp: single_blocks_def ptrs_of_def)
  moreover have "b \<noteq> 0 \<and> (b = double_indirect n \<or> (\<exists>i. b = ptr s (double_indirect n) i) \<or> (\<exists>i j. b = ptr s (ptr s (double_indirect n) i) j)) \<longleftrightarrow> b \<in> double_blocks s n"
    by (auto simp: double_blocks_def ptrs_of_def) (metis ptr_zero)+
  ultimately show ?thesis by blast
qed

lemma free_double_freed:
  assumes ok: "fs_ok s" and d: "data_block s b" "\<And>m. m \<in> ptrs_of s b \<Longrightarrow> data_block s m" "\<And>m c. m \<in> ptrs_of s b \<Longrightarrow> c \<in> ptrs_of s m \<Longrightarrow> data_block s c"
  shows "\<exists>s'. (let (blk, s) = read_block b s in do { s \<leftarrow> free_mids blk [0..<PTRS_PER_BLOCK] s; free_block b s }) = Some s'
     \<and> freed s (insert b (\<Union>m \<in> ptrs_of s b. insert m (ptrs_of s m))) s'"
proof -
  have b0: "b \<noteq> 0" using data_block_nonzero [OF ok d(1)] .
  obtain s3 where s3: "read_block b s = (blocks s b, s3)" "fs_ok s3" "same_fs s s3" using read_block_fs [OF ok region_disk(3) [OF ok d(1)]] by blast
  note O = same_fs_observe [OF s3(3)]
  have f3: "freed s {} s3" using s3(2) by (simp add: freed_def O)
  have m: "ptr s b ` set [0..<PTRS_PER_BLOCK] - {0} = ptrs_of s b" by (simp add: ptrs_of_range)
  have pm: "ptrs_of s3 = ptrs_of s" by (auto simp: ptrs_of_def ptr_def O fun_eq_iff)
  have "\<exists>s4. free_mids (blocks s b) [0..<PTRS_PER_BLOCK] s3 = Some s4 \<and> freed s3 (\<Union>m \<in> ptr s b ` set [0..<PTRS_PER_BLOCK] - {0}. insert m (ptrs_of s3 m)) s4"
  proof (rule free_mids_freed [OF s3(2)])
    fix i assume i: "i \<in> set [0..<PTRS_PER_BLOCK]"
    then show "rd_u32 (blocks s b) (i * 4) = Some (ptr s b i)" using rd_ptr [OF ok b0] by simp
    show "data_block s3 (ptr s b i)" if "ptr s b i \<noteq> 0" using d(2) [of "ptr s b i"] that O by (auto simp: ptrs_of_def)
    show "data_block s3 c" if "c \<in> ptrs_of s3 (ptr s b i)" for c
    proof -
      have "ptr s b i \<noteq> 0" using that by (auto simp: ptrs_of_def)
      then have "ptr s b i \<in> ptrs_of s b" by (auto simp: ptrs_of_def)
      then show ?thesis using d(3) that by (simp add: pm O)
    qed
  qed
  then obtain s4 where s4: "free_mids (blocks s b) [0..<PTRS_PER_BLOCK] s3 = Some s4" "freed s3 (\<Union>m \<in> ptrs_of s b. insert m (ptrs_of s m)) s4"
    unfolding m pm by auto
  obtain s5 where s5: "free_block b s4 = Some s5" "freed s4 {b} s5" using free_block_freed [of s4 b] freedD [OF s4(2)] O d(1) by auto
  have "freed s ({} \<union> (\<Union>m \<in> ptrs_of s b. insert m (ptrs_of s m)) \<union> {b}) s5" by (rule freed_trans [OF freed_trans [OF f3 s4(2)] s5(2)])
  then show ?thesis using s3(1) s4(1) s5(1) by simp
qed

lemma free_all_freed:
  assumes ok: "fs_ok s" "file_ok s n"
  shows "\<exists>s'. free_all_blocks n s = Some s' \<and> freed s {b. owns s n b} s'"
proof -
  note F = file_okD [OF ok(2)]
  have own: "data_block s b" if "b \<in> direct_blocks n \<union> single_blocks s n \<union> double_blocks s n" for b
    using owns_tiers [OF F(1)] owns_data [OF ok(2)] that by blast
  obtain s1 where s1: "free_direct (direct n) s = Some s1" "freed s (direct_blocks n) s1"
    using free_direct_freed [OF ok(1), of "direct n"] own by (auto simp: direct_blocks_def)
  note D1 = freedD [OF s1(2)]
  obtain s2 where s2: "(if indirect n \<noteq> 0 then free_indirect (indirect n) s1 else Some s1) = Some s2" "freed s1 (single_blocks s n) s2"
  proof (cases "indirect n = 0")
    case False
    then have d: "data_block s (indirect n)" "\<And>c. c \<in> ptrs_of s (indirect n) \<Longrightarrow> data_block s c" using own by (auto simp: single_blocks_def)
    show ?thesis using that False free_indirect_freed [OF D1(1), of "indirect n"] d ptrs_of_freed [OF s1(2) d(1)] D1(2) by (auto simp: single_blocks_def)
  qed (use that [of s1] freed_refl [OF D1(1)] in \<open>simp add: single_blocks_def\<close>)
  have f2: "freed s (direct_blocks n \<union> single_blocks s n) s2" by (rule freed_trans [OF s1(2) s2(2)])
  note D2 = freedD [OF f2]
  obtain s3 where s3: "(if double_indirect n \<noteq> 0 then let (blk, s) = read_block (double_indirect n) s2 in do { s \<leftarrow> free_mids blk [0..<PTRS_PER_BLOCK] s; free_block (double_indirect n) s } else Some s2) = Some s3"
      "freed s2 (double_blocks s n) s3"
  proof (cases "double_indirect n = 0")
    case False
    let ?d = "double_indirect n"
    have d: "data_block s ?d" "\<And>m. m \<in> ptrs_of s ?d \<Longrightarrow> data_block s m" "\<And>m c. m \<in> ptrs_of s ?d \<Longrightarrow> c \<in> ptrs_of s m \<Longrightarrow> data_block s c"
      using own False by (auto simp: double_blocks_def)
    have p: "ptrs_of s2 ?d = ptrs_of s ?d" "\<And>m. m \<in> ptrs_of s ?d \<Longrightarrow> ptrs_of s2 m = ptrs_of s m" using ptrs_of_freed [OF f2] d(1,2) by blast+
    have "\<exists>s'. (let (blk, s) = read_block ?d s2 in do { s \<leftarrow> free_mids blk [0..<PTRS_PER_BLOCK] s; free_block ?d s }) = Some s'
        \<and> freed s2 (insert ?d (\<Union>m \<in> ptrs_of s2 ?d. insert m (ptrs_of s2 m))) s'"
      by (rule free_double_freed [OF D2(1)]) (use d p D2(2) in auto)
    moreover have "insert ?d (\<Union>m \<in> ptrs_of s2 ?d. insert m (ptrs_of s2 m)) = double_blocks s n" using p False by (auto simp: double_blocks_def)
    ultimately show ?thesis using that False by auto
  qed (use that [of s2] freed_refl [OF D2(1)] in \<open>simp add: double_blocks_def\<close>)
  have "{b. owns s n b} = direct_blocks n \<union> single_blocks s n \<union> double_blocks s n" using owns_tiers [OF F(1)] by auto
  then have "freed s {b. owns s n b} s3" using freed_trans [OF f2 s3(2)] by simp
  then show ?thesis using s1(1) s2(1) s3(1) by (simp add: free_all_blocks_def)
qed

lemma freed_file:
  assumes "freed s B s'" "file_ok s q" "\<And>b. b \<in> B \<Longrightarrow> \<not> owns s q b"
  shows "val s' q = val s q" "byte_of s' q = byte_of s q" "file_ok s' q"
proof -
  note F = file_okD [OF assms(2)] and D = freedD [OF assms(1)]
  have bl: "blocks s' (val s q r) = blocks s (val s q r)" if "val s q r \<noteq> 0" for r using D(3) F(2) [OF that] by blast
  show v: "val s' q = val s q" by (rule val_cong) (use bl in auto)
  show "byte_of s' q = byte_of s q" using bl by (intro ext) (simp add: byte_of_def v Let_def)
  have "block_used s' (val s q r)" if "val s q r \<noteq> 0" for r
  proof -
    have "val s q r \<notin> B" using assms(3) [of "val s q r"] that by (auto simp: owns_def)
    then show ?thesis using assms(1) F(2,3) [OF that] by (simp add: freed_def)
  qed
  then show "file_ok s' q" using F D(2) by (simp add: file_ok_def v)
qed

lemma val_empty [simp]: "val s Inode_empty r = 0"
  by (cases r) (simp_all add: Inode_empty_def)

lemma content_empty: "inode_at s ino = Inode_empty \<Longrightarrow> content s ino = []"
  by (simp add: content_def file_len_def Inode_empty_def)

lemma drop_node_fs:
  assumes ok: "files_ok s" and ino: "unat ino < 128"
  obtains s1 s2 where "free_all_blocks (inode_at s ino) s = Some s1" "write_inode ino Inode_empty s1 = Some s2" "files_ok s2" "lay s2 = lay s" "inode_at s2 ino = Inode_empty"
    "\<And>b. data_block s b \<Longrightarrow> block_used s2 b \<longleftrightarrow> block_used s b \<and> \<not> owns s (inode_at s ino) b"
    "\<And>j. unat j < 128 \<Longrightarrow> j \<noteq> ino \<Longrightarrow> inode_at s2 j = inode_at s j \<and> content s2 j = content s j \<and> (solid s2 j \<longleftrightarrow> solid s j)"
proof -
  note F = files_okD [OF ok]
  obtain s1 where s1: "free_all_blocks (inode_at s ino) s = Some s1" "freed s {b. owns s (inode_at s ino) b} s1" using free_all_freed [OF F(1) F(2) [OF ino]] by blast
  note D = freedD [OF s1(2)]
  have ie: "inode_ok Inode_empty" by (simp add: inode_ok_def Inode_empty_def)
  obtain s2 where s2: "write_inode ino Inode_empty s1 = Some s2" "fs_ok s2" "lay s2 = lay s1" "inode_at s2 ino = Inode_empty"
      "\<And>j. unat j < 128 \<Longrightarrow> j \<noteq> ino \<Longrightarrow> inode_at s2 j = inode_at s1 j" "\<And>b. b \<noteq> inode_block s1 ino \<Longrightarrow> blocks s2 b = blocks s1 b"
    using write_inode_fs [OF D(1) ino ie] by blast
  have Q: "inode_at s2 j = inode_at s j" "val s2 (inode_at s j) = val s (inode_at s j)" "byte_of s2 (inode_at s j) = byte_of s (inode_at s j)" "file_ok s2 (inode_at s j)"
    if j: "unat j < 128" "j \<noteq> ino" for j
  proof -
    have d: "\<not> owns s (inode_at s j) b" if "b \<in> {b. owns s (inode_at s ino) b}" for b using F(3) [OF ino j(1)] j(2) that by auto
    note Z = freed_file [OF s1(2) F(2) [OF j(1)], OF d, simplified]
    note I = inode_only [OF D(1) ino Z(3) s2(3,6)]
    show "inode_at s2 j = inode_at s j" using s2(5) [OF j] s1(2) j(1) by (simp add: freed_def)
    show "val s2 (inode_at s j) = val s (inode_at s j)" "byte_of s2 (inode_at s j) = byte_of s (inode_at s j)" "file_ok s2 (inode_at s j)" using I Z by simp_all
  qed
  have u: "block_used s2 b \<longleftrightarrow> block_used s b \<and> \<not> owns s (inode_at s ino) b" if b: "data_block s b" for b
    using s2(6) [of "bm_block b"] region_apart(1) [OF D(1) ino, of b] s1(2) b D(2) by (auto simp: block_used_def freed_def data_block_def)
  have "files_ok s2"
    unfolding files_ok_def
  proof (intro conjI allI impI)
    show "file_ok s2 (inode_at s2 i)" if "unat i < 128" for i
      using Q(1,4) [OF that] s2(4) by (cases "i = ino") (simp_all add: file_ok_def ie)
    show "\<not> owns s2 (inode_at s2 j) b" if "unat i < 128" "unat j < 128" "i \<noteq> j" "owns s2 (inode_at s2 i) b" for i j b
      using that Q F(3) [OF that(1,2,3), of b] s2(4) by (cases "i = ino"; cases "j = ino") (auto simp: owns_def)
  qed (rule s2(2))
  moreover have "content s2 j = content s j \<and> (solid s2 j \<longleftrightarrow> solid s j)" if "unat j < 128" "j \<noteq> ino" for j
    using Q [OF that] by (simp add: content_def solid_def file_len_def)
  moreover have "lay s2 = lay s" using s2(3) s1(2) by (simp add: freed_def)
  ultimately show ?thesis using that s1(1) s2(1,4) u Q(1) by blast
qed

section \<open>Properties of files\<close>

text \<open>
  C2: writing to a file replaces a slice of its contents. With the files of the disk well formed and the
  offset inside the file or at its end (and the written slice below 4 GiB), \<open>write_at\<close> never panics; it stores a prefix of the data and
  stops early only when no data block is free or the file has its largest size. The new contents are
  the old ones with the slice replaced, every other file keeps its contents, and all files stay well formed: no block
  is shared and every referenced block is marked used, through all three tiers of the block map.
\<close>

theorem file_write_spec:
  assumes "files_ok s" "ino < INODE_COUNT" "off \<le> length (content s ino)" "off + length data < 2 ^ 32"
  shows "\<exists>m s'. write_at ino off data s = Some (m, s') \<and> files_ok s' \<and> m \<le> length data
     \<and> (m < length data \<longrightarrow> (\<forall>b. data_block s' b \<longrightarrow> block_used s' b) \<or> MAX_BLOCKS \<le> (off + m) div BLOCK_SIZE)
     \<and> content s' ino = take off (content s ino) @ take m data @ drop (off + m) (content s ino) \<and> (solid s ino \<longrightarrow> solid s' ino)
     \<and> (\<forall>j. j < INODE_COUNT \<longrightarrow> j \<noteq> ino \<longrightarrow> content s' j = content s j \<and> (solid s' j \<longleftrightarrow> solid s j))"
proof -
  have "unat ino < 128" "off \<le> file_len s ino" using assms(2,3) by (simp_all add: INODE_COUNT_less)
  then show ?thesis
    by (rule files_okI_write [OF assms(1) _ _ assms(4)]) (simp add: INODE_COUNT_less disk_full_def)
qed

theorem file_write_spec_witness:
  "\<exists>m s'. write_at 2 0 [7, 8, 9] (blank_fs 1024) = Some (m, s') \<and> files_ok s' \<and> content s' 2 = take m [7, 8, 9] \<and> content s' 3 = []"
proof -
  obtain m s' where w: "write_at 2 0 [7, 8, 9] (blank_fs 1024) = Some (m, s')" "files_ok s'"
      "content s' 2 = take 0 (content (blank_fs 1024) 2) @ take m [7, 8, 9] @ drop (0 + m) (content (blank_fs 1024) 2)"
      "\<forall>j. j < INODE_COUNT \<longrightarrow> j \<noteq> 2 \<longrightarrow> content s' j = content (blank_fs 1024) j \<and> (solid s' j \<longleftrightarrow> solid (blank_fs 1024) j)"
    using file_write_spec [OF blank_files(1), of 2 0 "[7, 8, 9]"] by (auto simp: INODE_COUNT_less)
  then show ?thesis using w(4) [rule_format, of 3] by (simp add: blank_files INODE_COUNT_less)
qed

text \<open>
  C3: what is stored in a file is what is loaded from it. \<open>write_file\<close> replaces the contents of a file
  and reports whether everything fitted; if so, a later \<open>read_at\<close> at any offset, after
  another file has been written, fills the buffer with the bytes from there, as many as there are,
  leaves the rest of the buffer as it was and changes no block. (The files of the disk are well
  formed, and the data are shorter than 4 GiB.)
\<close>

theorem file_store_load:
  assumes "files_ok s" "ino < INODE_COUNT" "length data < 2 ^ 32"
    and "j < INODE_COUNT" "j \<noteq> ino" "length other < 2 ^ 32"
  shows "\<exists>ok s1 m s2 s3. write_file ino data s = Some (ok, s1) \<and> write_at j 0 other s1 = Some (m, s2)
     \<and> (ok \<longrightarrow> read_at ino off out s2 = Some (min (length data - off) (length out), take (length out) (drop off data) @ drop (length data - off) out, s3)
           \<and> blocks s3 = blocks s2)"
proof -
  have lt: "unat ino < 128" "unat j < 128" using assms(2,4) by (simp_all add: INODE_COUNT_less)
  obtain s0 where s0: "truncate ino s = Some s0" "files_ok s0" "content s0 ino = []" "solid s0 ino"
    using truncate_fs [OF assms(1) lt(1)] by blast
  have z: "file_len s0 ino = 0" using length_content [of s0 ino] s0(3) by simp
  obtain k s1 where s1: "write_at ino 0 data s0 = Some (k, s1)" "files_ok s1" "content s1 ino = take k data" "solid s1 ino" "k \<le> length data"
    by (rule files_okI_write [OF s0(2) lt(1), of 0 data]) (use assms(3) s0(3,4) z that in auto)
  obtain m s2 where s2: "write_at j 0 other s1 = Some (m, s2)" "files_ok s2" "content s2 ino = content s1 ino" "solid s2 ino"
    by (rule files_okI_write [OF s1(2) lt(2), of 0 other]) (use assms(5,6) lt(1) s1(4) that in auto)
  obtain s3 where s3: "read_at ino off out s2 = Some (min (file_len s2 ino - off) (length out), blit out 0 (take (length out) (drop off (content s2 ino))), s3)" "same_fs s2 s3"
    using read_at_fs [OF s2(2) lt(1) s2(4)] by blast
  have c: "content s2 ino = data \<and> file_len s2 ino = length data" if "k = length data"
    using that s1(3) s2(3) length_content [of s2 ino] by simp
  have "write_file ino data s = Some (k = length data, s1)" using s0(1) s1(1) by (simp add: write_file_def)
  moreover have "blit out 0 (take (length out) (drop off data)) = take (length out) (drop off data) @ drop (length data - off) out"
    by (simp add: blit_def min_def)
  ultimately show ?thesis using s2(1) s3 c by (auto simp: same_fs_def)
qed

theorem file_store_load_witness:
  "\<exists>ok s1 m s2 s3. write_file 2 [7, 8, 9] (blank_fs 1024) = Some (ok, s1) \<and> write_at 3 0 [1] s1 = Some (m, s2)
     \<and> (if ok then read_at 2 1 [0, 0, 0, 0] s2 = Some (2, [8, 9, 0, 0], s3) else True)"
proof -
  have "(2 :: u32) < INODE_COUNT" "(3 :: u32) < INODE_COUNT" by (simp_all add: INODE_COUNT_less)
  then show ?thesis using file_store_load [OF blank_files(1), of 2 "[7, 8, 9]" 3 "[1]" 1 "[0, 0, 0, 0]"] by (simp flip: numeral_2_eq_2) blast
qed

text \<open>
  C24: deleting a file gives back exactly its blocks. Freeing the blocks of an inode and clearing it, as
  \<open>unlink\<close>, \<open>rmdir\<close>, \<open>rename\<close> and \<open>delete\<close> do, never panics; afterwards a data block is marked used if and only if it was used before
  and did not belong to the file, and every other file has its inode and its contents.
\<close>

theorem file_delete_spec:
  assumes "files_ok s" "ino < INODE_COUNT"
  shows "\<exists>s1 s2. free_all_blocks (inode_at s ino) s = Some s1 \<and> write_inode ino Inode_empty s1 = Some s2 \<and> files_ok s2 \<and> content s2 ino = []
     \<and> (\<forall>b. data_block s b \<longrightarrow> block_used s2 b = (block_used s b \<and> \<not> owns s (inode_at s ino) b))
     \<and> (\<forall>j. j < INODE_COUNT \<longrightarrow> j \<noteq> ino \<longrightarrow> inode_at s2 j = inode_at s j \<and> content s2 j = content s j)"
proof -
  have "unat ino < 128" using assms(2) by (simp add: INODE_COUNT_less)
  then show ?thesis
    by (rule drop_node_fs [OF assms(1)]) (simp add: INODE_COUNT_less content_empty)
qed

theorem file_delete_spec_witness:
  "\<exists>s1 s2. free_all_blocks (inode_at (blank_fs 1024) 2) (blank_fs 1024) = Some s1 \<and> write_inode 2 Inode_empty s1 = Some s2 \<and> files_ok s2 \<and> content s2 2 = [] \<and> content s2 3 = []"
proof -
  have "(2 :: u32) < INODE_COUNT" "(3 :: u32) < INODE_COUNT" by (simp_all add: INODE_COUNT_less)
  then show ?thesis using file_delete_spec [OF blank_files(1), of 2] by (auto simp: blank_files dest: spec [of _ 3])
qed

end
