(* ===== verification/FsNames.thy ===== *)
theory FsNames
  imports FsContent FsDir
begin

text \<open>
  Directories as lists of entries. \<open>dir_lookup\<close> of \<open>kernel/src/fs.rs\<close> returns the first live entry with the name,
  \<open>dir_link\<close> appends an entry, and \<open>create\<close> makes a name refer to a fresh empty file without
  changing what any other name refers to.
\<close>

section \<open>The entries of a directory\<close>

definition DIRENTS :: nat where
  "DIRENTS = BLOCK_SIZE div DIRENT_SIZE"

lemmas dir_consts = fs_consts DIRENT_SIZE_def NAME_LEN_def DIRENTS_def

text \<open>Entry number \<open>k\<close>, through the direct blocks.\<close>

definition dirent :: "fs \<Rightarrow> inode \<Rightarrow> nat \<Rightarrow> bytes \<times> u32" where
  "dirent s n k = the (read_dirent (blocks s (direct n ! (k div DIRENTS))) (k mod DIRENTS * DIRENT_SIZE))"

definition dir_size :: "inode \<Rightarrow> nat" where
  "dir_size n = unat (fsize n) div DIRENT_SIZE"

definition dirents :: "fs \<Rightarrow> u32 \<Rightarrow> (bytes \<times> u32) list" where
  "dirents s d = map (dirent s (inode_at s d)) [0..<dir_size (inode_at s d)]"

definition matches :: "bytes \<Rightarrow> bytes \<times> u32 \<Rightarrow> bool" where
  "matches name e \<longleftrightarrow> snd e \<noteq> 0 \<and> name_eq (fst e) name"

text \<open>A directory: whole entries, in direct blocks that are there.\<close>

definition dir_node :: "inode \<Rightarrow> bool" where
  "dir_node n \<longleftrightarrow> kind n = T_DIR \<and> unat (fsize n) mod DIRENT_SIZE = 0 \<and> dir_size n \<le> NDIRECT * DIRENTS
     \<and> (\<forall>k < dir_size n. direct n ! (k div DIRENTS) \<noteq> 0)"

section \<open>Looking up a name\<close>

lemma lookup_block_spec:
  assumes "length data = BLOCK_SIZE" "j \<le> DIRENTS"
  shows "\<exists>k. lookup_block name data (j * DIRENT_SIZE) seen entries =
     Some (case find (matches name) (map (\<lambda>i. the (read_dirent data (i * DIRENT_SIZE))) [j..<min DIRENTS (j + (entries - seen))]) of
       Some e \<Rightarrow> (Some (snd e), k) | None \<Rightarrow> (None, seen + min (DIRENTS - j) (entries - seen)))"
  using assms
proof (induction "DIRENTS - j" arbitrary: j seen)
  case 0
  then have "j = DIRENTS" by simp
  then show ?case by (subst lookup_block.simps) (simp add: dir_consts)
next
  case (Suc m)
  then have j: "j < DIRENTS" "j * DIRENT_SIZE + DIRENT_SIZE \<le> BLOCK_SIZE" by (simp_all add: dir_consts)
  obtain nm i where rd: "read_dirent data (j * DIRENT_SIZE) = Some (nm, i)" using read_dirent_in_range [of "j * DIRENT_SIZE" data] Suc.prems j(2) by auto
  show ?case
  proof (cases "seen < entries")
    case False
    then show ?thesis by (subst lookup_block.simps) simp
  next
    case lt: True
    have up: "[j..<min DIRENTS (j + (entries - seen))] = j # [Suc j..<min DIRENTS (Suc j + (entries - Suc seen))]"
    proof -
      have "j + (entries - seen) = Suc j + (entries - Suc seen)" using lt by simp
      then show ?thesis using j(1) upt_conv_Cons [of j "min DIRENTS (Suc j + (entries - Suc seen))"] by simp
    qed
    have st: "lookup_block name data (j * DIRENT_SIZE) seen entries =
        (if matches name (nm, i) then Some (Some i, Suc seen) else lookup_block name data (Suc j * DIRENT_SIZE) (Suc seen) entries)"
      by (subst lookup_block.simps) (use lt j(2) rd in \<open>simp add: matches_def add.commute\<close>)
    have "m = DIRENTS - Suc j" "Suc j \<le> DIRENTS" using Suc.hyps(2) j(1) by simp_all
    from Suc.hyps(1) [OF this(1) Suc.prems(1) this(2), of "Suc seen"] show ?thesis
      unfolding up st using lt j(1) rd by (auto simp: min_def split: option.splits)
  qed
qed

lemma find_append: "find P (xs @ ys) = (case find P xs of Some x \<Rightarrow> Some x | None \<Rightarrow> find P ys)"
  by (induction xs) auto

lemma dirents_split:
  "map (dirent s n) [b * DIRENTS..<e] = map (\<lambda>i. the (read_dirent (blocks s (direct n ! b)) (i * DIRENT_SIZE))) [0..<min DIRENTS (0 + (e - min (b * DIRENTS) e))]
     @ map (dirent s n) [Suc b * DIRENTS..<e]"
proof (cases "b * DIRENTS \<le> e")
  case True
  let ?x = "min DIRENTS (e - b * DIRENTS)"
  have "[b * DIRENTS..<e] = [b * DIRENTS..<b * DIRENTS + ?x] @ [b * DIRENTS + ?x..<e]" using True upt_add_eq_append [of "b * DIRENTS" "b * DIRENTS + ?x" "e - (b * DIRENTS + ?x)"] by simp
  moreover have "[b * DIRENTS + ?x..<e] = [Suc b * DIRENTS..<e]" using True by (cases "e \<le> Suc b * DIRENTS") (simp_all add: min_def add.commute)
  moreover have "map (dirent s n) [b * DIRENTS..<b * DIRENTS + ?x] = map (\<lambda>i. the (read_dirent (blocks s (direct n ! b)) (i * DIRENT_SIZE))) [0..<?x]"
    by (rule nth_equalityI) (simp_all add: dirent_def DIRENTS_def dir_consts)
  ultimately show ?thesis using True by simp
qed simp

lemma lookup_blocks_spec:
  assumes "fs_ok s" "file_ok s n" "dir_node n" "b \<le> NDIRECT"
  shows "\<exists>s'. lookup_blocks name (drop b (direct n)) (min (b * DIRENTS) (dir_size n)) (dir_size n) s =
     Some (map_option snd (find (matches name) (map (dirent s n) [b * DIRENTS..<dir_size n])), s') \<and> fs_ok s' \<and> same_fs s s'"
  using assms
proof (induction "NDIRECT - b" arbitrary: b s)
  case 0
  then have "b = NDIRECT" "dir_size n \<le> b * DIRENTS" "length (direct n) = NDIRECT" using file_okD(1) [OF 0(3)] by (simp_all add: dir_node_def inode_ok_def)
  then show ?case using 0(2) by simp
next
  case (Suc m)
  let ?e = "dir_size n"
  have len: "length (direct n) = NDIRECT" "b < NDIRECT" using file_okD(1) [OF Suc.prems(2)] Suc.hyps(2) by (simp_all add: inode_ok_def)
  then have dr: "drop b (direct n) = direct n ! b # drop (Suc b) (direct n)" by (simp add: Cons_nth_drop_Suc)
  have D: "0 < DIRENTS" by (simp add: dir_consts)
  show ?case
  proof (cases "direct n ! b = 0")
    case True
    have "?e \<le> b * DIRENTS"
    proof (rule ccontr)
      assume "\<not> ?e \<le> b * DIRENTS"
      then have "direct n ! (b * DIRENTS div DIRENTS) \<noteq> 0" using Suc.prems(3) unfolding dir_node_def by (metis not_le)
      then show False using True D by simp
    qed
    then have e: "min (b * DIRENTS) ?e = ?e" "min (Suc b * DIRENTS) ?e = ?e" "[b * DIRENTS..<?e] = []" "[Suc b * DIRENTS..<?e] = []" by simp_all
    have "m = NDIRECT - Suc b" "Suc b \<le> NDIRECT" using Suc.hyps(2) len(2) by simp_all
    from Suc.hyps(1) [OF this(1) Suc.prems(1,2,3) this(2)] show ?thesis using True dr unfolding e by simp
  next
    case False
    have v: "val s n (Dir b) = direct n ! b" using len by simp
    have db: "disk_block (direct n ! b)" using region_disk(3) [OF Suc.prems(1)] file_okD(2) [OF Suc.prems(2), of "Dir b"] v False by metis
    obtain s1 where s1: "read_block (direct n ! b) s = (blocks s (direct n ! b), s1)" "fs_ok s1" "same_fs s s1" using read_block_fs [OF Suc.prems(1) db] by blast
    note O = same_fs_observe [OF s1(3)] and S = keeps_same [OF s1(2,3) Suc.prems(2)]
    have f1: "file_ok s1 n" using S(1) by (simp add: keeps_files_def)
    have d1: "dirent s1 n = dirent s n" by (simp add: dirent_def O fun_eq_iff)
    let ?seen = "min (b * DIRENTS) ?e"
    have rng: "map (dirent s n) [b * DIRENTS..<?e] = map (\<lambda>i. the (read_dirent (blocks s (direct n ! b)) (i * DIRENT_SIZE))) [0..<min DIRENTS (0 + (?e - ?seen))]
        @ map (dirent s n) [Suc b * DIRENTS..<?e]" by (rule dirents_split)
    obtain k where lb: "lookup_block name (blocks s (direct n ! b)) (0 * DIRENT_SIZE) ?seen ?e =
     Some (case find (matches name) (map (\<lambda>i. the (read_dirent (blocks s (direct n ! b)) (i * DIRENT_SIZE))) [0..<min DIRENTS (0 + (?e - ?seen))]) of
       Some e \<Rightarrow> (Some (snd e), k) | None \<Rightarrow> (None, ?seen + min (DIRENTS - 0) (?e - ?seen)))"
      using lookup_block_spec [of "blocks s (direct n ! b)" 0 name ?seen ?e] Suc.prems(1) by auto
    have seen: "?seen + min (DIRENTS - 0) (?e - ?seen) = min (Suc b * DIRENTS) ?e" by (auto simp: min_def)
    have "m = NDIRECT - Suc b" "Suc b \<le> NDIRECT" using Suc.hyps(2) len(2) by simp_all
    from Suc.hyps(1) [OF this(1) s1(2) f1 Suc.prems(3) this(2)]
    obtain s' where "lookup_blocks name (drop (Suc b) (direct n)) (min (Suc b * DIRENTS) ?e) ?e s1 =
        Some (map_option snd (find (matches name) (map (dirent s n) [Suc b * DIRENTS..<?e])), s')" "fs_ok s'" "same_fs s1 s'" unfolding d1 by blast
    then show ?thesis unfolding rng dr using False s1 lb [unfolded seen] same_fs_trans [OF s1(3)]
      by (auto simp: find_append split: option.splits)
  qed
qed

lemma dir_lookup_fs:
  assumes ok: "files_ok s" and d: "unat d < 128" "dir_node (inode_at s d)"
  obtains s' where "dir_lookup d name s = Some (map_option snd (find (matches name) (dirents s d)), s')" "files_ok s'" "same_fs s s'"
proof -
  note F = files_okD [OF ok]
  let ?n = "inode_at s d"
  obtain s0 where s0: "read_inode d s = Some (?n, s0)" "fs_ok s0" "same_fs s s0" by (rule read_inode_fs [OF F(1) d(1)])
  note O = same_fs_observe [OF s0(3)]
  have f0: "file_ok s0 ?n" using keeps_same(1) [OF s0(2,3) F(2) [OF d(1)]] by (simp add: keeps_files_def)
  have de: "dirent s0 ?n = dirent s ?n" by (simp add: dirent_def O fun_eq_iff)
  obtain s' where s': "lookup_blocks name (direct ?n) 0 (dir_size ?n) s0 = Some (map_option snd (find (matches name) (dirents s d)), s')" "fs_ok s'" "same_fs s0 s'"
    using lookup_blocks_spec [OF s0(2) f0 d(2), of 0 name] unfolding de by (auto simp: dirents_def)
  have "dir_lookup d name s = Some (map_option snd (find (matches name) (dirents s d)), s')"
    using s0(1) s'(1) d(2) by (simp add: dir_lookup_def dir_node_def dir_size_def)
  then show ?thesis by (rule that) (use same_files(1) [OF ok s'(2)] same_fs_trans [OF s0(3) s'(3)] in blast)+
qed

section \<open>Adding a name\<close>

text \<open>An entry depends on its 32 bytes only.\<close>

lemma read_dirent_slice:
  assumes "off + DIRENT_SIZE \<le> length data"
  shows "read_dirent data off = read_dirent (take DIRENT_SIZE (drop off data)) 0"
proof -
  have "rd_u32 data (off + NAME_LEN) = rd_u32 (take DIRENT_SIZE (drop off data)) (0 + NAME_LEN)"
    by (rule rd_u32_cong) (use assms in \<open>auto simp: index_def dir_consts add.assoc\<close>)
  then show ?thesis using assms by (simp add: read_dirent_def sub_slice_def dir_consts)
qed

lemma dirent_place:
  "k * DIRENT_SIZE div BLOCK_SIZE = k div DIRENTS" "k * DIRENT_SIZE mod BLOCK_SIZE = k mod DIRENTS * DIRENT_SIZE"
  "k mod DIRENTS * DIRENT_SIZE + DIRENT_SIZE \<le> BLOCK_SIZE"
  using div_mult_mult2 [of 32 k 16] mod_mult_mult2 [of k 32 16] by (simp_all add: dir_consts)

lemma dirent_bytes:
  assumes "fs_ok s" "k < NDIRECT * DIRENTS" "direct n ! (k div DIRENTS) \<noteq> 0"
  shows "dirent s n k = the (read_dirent (map (byte_of s n) [k * DIRENT_SIZE..<k * DIRENT_SIZE + DIRENT_SIZE]) 0)"
proof -
  have "k div DIRENTS < NDIRECT" using assms(2) by (simp add: dir_consts)
  then have v: "val s n (data_ref (k * DIRENT_SIZE div BLOCK_SIZE)) = direct n ! (k div DIRENTS)" by (simp add: data_ref_def dirent_place)
  have "take DIRENT_SIZE (drop (k mod DIRENTS * DIRENT_SIZE) (blocks s (direct n ! (k div DIRENTS)))) = map (byte_of s n) [k * DIRENT_SIZE..<k * DIRENT_SIZE + DIRENT_SIZE]"
    using block_slice [OF assms(1), of n "k * DIRENT_SIZE" DIRENT_SIZE] assms(3) dirent_place [of k] unfolding v by simp
  then show ?thesis using read_dirent_slice [of "k mod DIRENTS * DIRENT_SIZE" "blocks s (direct n ! (k div DIRENTS))"] assms(1) dirent_place(3) [of k] by (simp add: dirent_def)
qed

lemma block_for_full:
  assumes ok: "fs_ok s" "file_ok s n" and bi: "bi < NDIRECT" and r: "block_for n bi True s = Some (None, n', s')"
  shows "n' = n \<and> fs_ok s' \<and> same_fs s s'"
proof -
  have "index (direct n) bi = Some (direct n ! bi)" using bi file_okD(1) [OF ok(2)] by (simp add: index_def inode_ok_def)
  then show ?thesis using r bi by (cases rule: alloc_block_fs [OF ok(1)]) (auto simp: block_for_def split: if_splits)
qed

lemma read_new_dirent: "read_dirent (pad_name name @ u32_to_le ino) 0 = Some (pad_name name, ino)"
  using read_dirent_blit_same [of 0 "replicate DIRENT_SIZE 0" name ino] by (simp add: blit_def dir_consts)

lemma dir_link_store:
  assumes ok: "files_ok s" and d: "unat d < 128" and n: "n = inode_at s d" "dir_node n" "dir_size n < NDIRECT * DIRENTS"
    and g: "grown s n (Dir (dir_size n div DIRENTS)) (Some b) n1 s1" and s2: "fs_ok s2" "same_fs s1 s2"
    and s3: "s3 = write_block b (blit (blocks s1 b) (dir_size n mod DIRENTS * DIRENT_SIZE) (pad_name name @ u32_to_le ino)) s2"
    and n2: "n2 = n1\<lparr>fsize := fsize n1 + of_nat DIRENT_SIZE\<rparr>"
  obtains s4 where "write_inode d n2 s3 = Some s4" "files_ok s4" "dir_node (inode_at s4 d)" "dirents s4 d = dirents s d @ [(pad_name name, ino)]"
    "\<And>j. unat j < 128 \<Longrightarrow> j \<noteq> d \<Longrightarrow> inode_at s4 j = inode_at s j \<and> content s4 j = content s j \<and> (solid s4 j \<longleftrightarrow> solid s j)"
proof -
  let ?k = "dir_size n" and ?c = "pad_name name @ u32_to_le ino"
  note G = grownD [OF g] and K = keepsD [OF grownD(1) [OF g]]
  have sz: "unat (fsize n) = ?k * DIRENT_SIZE" using n(2) by (simp add: dir_node_def dir_size_def) (metis div_mult_mod_eq add_0_right)
  have kd: "?k div DIRENTS < NDIRECT" using n(3) by (simp add: dir_consts)
  note S = keeps_same [OF s2 G(4)]
  have f2: "file_ok s2 n1" using S(1) by (simp add: keeps_files_def)
  have b: "val s2 n1 (data_ref (?k * DIRENT_SIZE div BLOCK_SIZE)) = b" "b \<noteq> 0" using G(6,7) kd S(3) by (simp_all add: dirent_place data_ref_def)
  have s3': "s3 = write_block b (blit (blocks s2 b) (?k * DIRENT_SIZE mod BLOCK_SIZE) ?c) s2" by (simp add: s3 dirent_place same_fs_observe(1) [OF s2(2)])
  have c: "length ?c = DIRENT_SIZE" by (simp add: dir_consts)
  have cw: "?k * DIRENT_SIZE mod BLOCK_SIZE + length ?c \<le> BLOCK_SIZE" unfolding c dirent_place(2) by (rule dirent_place(3))
  note W = keeps_store [OF s2(1) f2 b cw s3']
  have k3: "keeps_files s n s3 n1" by (rule keeps_files_trans [OF keeps_files_trans [OF G(1) S(1)] W(1)])
  have by3: "byte_of s3 n1 pos = (if ?k * DIRENT_SIZE \<le> pos \<and> pos < ?k * DIRENT_SIZE + DIRENT_SIZE then ?c ! (pos - ?k * DIRENT_SIZE) else byte_of s n pos)" for pos
    unfolding W(4) S(2) G(2) c ..
  obtain s4 where s4: "write_inode d n2 s3 = Some s4" "files_ok s4" "inode_at s4 d = n2" "val s4 n2 = val s3 n1" "byte_of s4 n2 = byte_of s3 n1"
      "\<And>j. unat j < 128 \<Longrightarrow> j \<noteq> d \<Longrightarrow> inode_at s4 j = inode_at s j \<and> content s4 j = content s j \<and> (solid s4 j \<longleftrightarrow> solid s j)"
    using commit_node_fs [OF ok d k3 [unfolded n(1)] n2] by blast
  have sz2: "unat (fsize n2) = Suc ?k * DIRENT_SIZE"
    using K(6) sz n(3) by (simp add: n2 unat_add_no_ovf dir_consts)
  then have k2: "dir_size n2 = Suc ?k" by (simp add: dir_size_def DIRENT_SIZE_def)
  have v4: "val s4 n2 (Dir i) = val s2 n1 (Dir i)" for i using s4(4) W(2) by simp
  have nz: "direct n2 ! (i div DIRENTS) \<noteq> 0 \<and> (i < ?k \<longrightarrow> direct n ! (i div DIRENTS) \<noteq> 0)" if "i < Suc ?k" for i
  proof -
    have id: "i div DIRENTS < NDIRECT" using that n(3) by (simp add: dir_consts)
    have old: "val s n (Dir (i div DIRENTS)) \<noteq> 0" if "i < ?k" using n(2) id that by (simp add: dir_node_def)
    have "val s4 n2 (Dir (i div DIRENTS)) \<noteq> 0"
    proof (cases "i = ?k")
      case True
      then show ?thesis using b kd v4 [of "?k div DIRENTS"] by (simp add: dirent_place data_ref_def)
    next
      case False
      then have "val s1 n1 (Dir (i div DIRENTS)) \<noteq> 0" using old K(9) [of "Dir (i div DIRENTS)"] \<open>i < Suc ?k\<close> by simp
      then show ?thesis using v4 S(3) by simp
    qed
    then show ?thesis using old id by simp
  qed
  have "dir_node n2" using nz k2 sz2 n(2,3) K(4) by (simp add: dir_node_def n2)
  moreover have "dirents s4 d = dirents s d @ [(pad_name name, ino)]"
  proof -
    have e: "dirent s4 n2 i = the (read_dirent (map (byte_of s3 n1) [i * DIRENT_SIZE..<i * DIRENT_SIZE + DIRENT_SIZE]) 0)" if "i < Suc ?k" for i
      using dirent_bytes [OF files_okD(1) [OF s4(2)], of i n2] nz [OF that] that n(3) unfolding s4(5) by simp
    have "dirent s4 n2 i = dirent s n i" if "i < ?k" for i
    proof -
      have "i * DIRENT_SIZE + DIRENT_SIZE \<le> ?k * DIRENT_SIZE" using that by (simp add: DIRENT_SIZE_def)
      then have "map (byte_of s3 n1) [i * DIRENT_SIZE..<i * DIRENT_SIZE + DIRENT_SIZE] = map (byte_of s n) [i * DIRENT_SIZE..<i * DIRENT_SIZE + DIRENT_SIZE]"
        using by3 by auto
      moreover have "dirent s n i = the (read_dirent (map (byte_of s n) [i * DIRENT_SIZE..<i * DIRENT_SIZE + DIRENT_SIZE]) 0)"
        using dirent_bytes [OF files_okD(1) [OF ok], of i n] nz [of i] that n(3) by simp
      ultimately show ?thesis using e [of i] that by (simp only: less_SucI)
    qed
    moreover have "map (byte_of s3 n1) [?k * DIRENT_SIZE..<?k * DIRENT_SIZE + DIRENT_SIZE] = ?c"
      by (rule nth_equalityI) (use c by3 in auto)
    then have "dirent s4 n2 ?k = (pad_name name, ino)" using e [of ?k] read_new_dirent by simp
    ultimately show ?thesis by (simp add: dirents_def s4(3) k2 n(1))
  qed
  ultimately show ?thesis using that s4 by simp
qed

lemma dir_link_fs:
  assumes ok: "files_ok s" and d: "unat d < 128" "dir_node (inode_at s d)"
  shows "\<exists>t s'. dir_link d name ino s = Some (t, s') \<and> files_ok s'
     \<and> (\<forall>j. unat j < 128 \<longrightarrow> j \<noteq> d \<longrightarrow> inode_at s' j = inode_at s j \<and> content s' j = content s j \<and> (solid s' j \<longleftrightarrow> solid s j))
     \<and> (if t then dir_node (inode_at s' d) \<and> dirents s' d = dirents s d @ [(pad_name name, ino)]
        else same_fs s s' \<and> (NDIRECT * DIRENTS \<le> dir_size (inode_at s d) \<or> disk_full s))"
proof -
  note F = files_okD [OF ok]
  define n where "n = inode_at s d"
  have fn: "file_ok s n" "dir_node n" using F(2) [OF d(1)] d(2) by (simp_all add: n_def)
  obtain s0 where s0: "read_inode d s = Some (n, s0)" "fs_ok s0" "same_fs s s0" unfolding n_def by (rule read_inode_fs [OF F(1) d(1)])
  note S0 = keeps_same [OF s0(2,3) fn(1)]
  have f0: "file_ok s0 n" using S0(1) by (simp add: keeps_files_def)
  have other: "inode_at s' j = inode_at s j \<and> content s' j = content s j \<and> (solid s' j \<longleftrightarrow> solid s j)" if "fs_ok s'" "same_fs s s'" "unat j < 128" for s' j
    using same_files(2,3) [OF ok that] same_fs_observe(3) [OF that(2)] by simp
  let ?k = "dir_size n"
  have sz: "unat (fsize n) = ?k * DIRENT_SIZE" using fn(2) by (simp add: dir_node_def dir_size_def) (metis div_mult_mod_eq add_0_right)
  have bi: "unat (fsize n) div BLOCK_SIZE = ?k div DIRENTS" "unat (fsize n) mod BLOCK_SIZE = ?k mod DIRENTS * DIRENT_SIZE" unfolding sz by (simp_all add: dirent_place)
  show ?thesis
  proof (cases "?k div DIRENTS < NDIRECT")
    case False
    then have "dir_link d name ino s = Some (False, s0)" using s0(1) bi by (simp add: dir_link_def Let_def)
    moreover have "NDIRECT * DIRENTS \<le> dir_size (inode_at s d)" using False by (simp add: dir_consts n_def)
    ultimately show ?thesis using s0(2,3) same_files(1) [OF ok s0(2,3)] other by auto
  next
    case lt: True
    obtain ob n1 s1 where bf: "block_for n (?k div DIRENTS) True s0 = Some (ob, n1, s1)" "grown s0 n (Dir (?k div DIRENTS)) ob n1 s1"
      using block_for_direct [OF s0(2) f0 lt] by blast
    show ?thesis
    proof (cases ob)
      case None
      then have q: "n1 = n" "fs_ok s1" "same_fs s0 s1" using block_for_full [OF s0(2) f0 lt] bf(1) by auto
      have "dir_link d name ino s = Some (False, s1)" using s0(1) bi lt bf(1) None by (simp add: dir_link_def Let_def)
      moreover have "disk_full s" using grownD(5) [OF bf(2) None] same_full [OF s0(3)] same_full [OF q(3)] by simp
      ultimately show ?thesis using q same_fs_trans [OF s0(3)] same_files(1) [OF ok] other by auto
    next
      case (Some b)
      have g: "grown s n (Dir (?k div DIRENTS)) (Some b) n1 s1" using grown_trans [OF S0(1,2)] bf(2) Some by simp
      note G = grownD [OF g]
      have db: "disk_block b" using region_disk(3) [OF G(3)] file_okD(2) [OF G(4), of "Dir (?k div DIRENTS)"] G(6,7) by auto
      obtain s2 where s2: "read_block b s1 = (blocks s1 b, s2)" "fs_ok s2" "same_fs s1 s2" using read_block_fs [OF G(3) db] by blast
      have kl: "?k < NDIRECT * DIRENTS" using lt by (simp add: dir_consts)
      obtain s4 where s4: "write_inode d (n1\<lparr>fsize := fsize n1 + of_nat DIRENT_SIZE\<rparr>) (write_block b (blit (blocks s1 b) (?k mod DIRENTS * DIRENT_SIZE) (pad_name name @ u32_to_le ino)) s2) = Some s4"
          "files_ok s4" "dir_node (inode_at s4 d)" "dirents s4 d = dirents s d @ [(pad_name name, ino)]"
          "\<And>j. unat j < 128 \<Longrightarrow> j \<noteq> d \<Longrightarrow> inode_at s4 j = inode_at s j \<and> content s4 j = content s j \<and> (solid s4 j \<longleftrightarrow> solid s j)"
        using dir_link_store [OF ok d(1) n_def fn(2) kl g s2(2,3) refl refl] by blast
      have "dir_link d name ino s = Some (True, s4)"
        using s0(1) bi lt bf(1) Some s2(1) s4(1) write_dirent_blit [of "?k mod DIRENTS * DIRENT_SIZE" "blocks s1 b" name ino] dirent_place(3) [of ?k] G(3)
        by (simp add: dir_link_def Let_def)
      then show ?thesis using s4 by auto
    qed
  qed
qed

section \<open>Creating a file\<close>

text \<open>The entries of a directory are its contents, 32 bytes each.\<close>

lemma dirents_content:
  assumes "files_ok s" "dir_node (inode_at s d)"
  shows "dirents s d = map (\<lambda>k. the (read_dirent (take DIRENT_SIZE (drop (k * DIRENT_SIZE) (content s d))) 0)) [0..<dir_size (inode_at s d)]"
  unfolding dirents_def
proof (rule map_cong [OF refl])
  fix k assume "k \<in> set [0..<dir_size (inode_at s d)]"
  then have k: "k < dir_size (inode_at s d)" by simp
  let ?n = "inode_at s d"
  have sz: "file_len s d = dir_size ?n * DIRENT_SIZE"
    using assms(2) by (simp add: dir_node_def dir_size_def file_len_def) (metis div_mult_mod_eq add_0_right)
  have "k * DIRENT_SIZE + DIRENT_SIZE \<le> file_len s d" using k by (simp add: sz DIRENT_SIZE_def)
  then have "take DIRENT_SIZE (drop (k * DIRENT_SIZE) (content s d)) = map (byte_of s ?n) [k * DIRENT_SIZE..<k * DIRENT_SIZE + DIRENT_SIZE]"
    by (intro nth_equalityI) (auto simp: content_def)
  then show "dirent s ?n k = the (read_dirent (take DIRENT_SIZE (drop (k * DIRENT_SIZE) (content s d))) 0)"
    using dirent_bytes [OF files_okD(1) [OF assms(1)], of k ?n] assms(2) k by (simp add: dir_node_def)
qed

lemma dirents_same:
  assumes "files_ok s" "files_ok s'" "dir_node (inode_at s d)" "inode_at s' d = inode_at s d" "content s' d = content s d"
  shows "dirents s' d = dirents s d"
  using dirents_content [OF assms(1,3)] dirents_content [OF assms(2), of d] assms(3-5) by simp

text \<open>Writing an inode without blocks.\<close>

definition bare :: "inode \<Rightarrow> bool" where
  "bare n \<longleftrightarrow> inode_ok n \<and> fsize n = 0 \<and> (\<forall>s r. val s n r = 0)"

lemma set_node_fs:
  assumes ok: "files_ok s" and ino: "unat ino < 128" and n: "bare n"
  obtains s' where "write_inode ino n s = Some s'" "files_ok s'" "inode_at s' ino = n" "content s' ino = []" "disk_full s' \<longleftrightarrow> disk_full s"
    "\<And>j. unat j < 128 \<Longrightarrow> j \<noteq> ino \<Longrightarrow> inode_at s' j = inode_at s j \<and> content s' j = content s j"
proof -
  note F = files_okD [OF ok]
  have n': "inode_ok n" "fsize n = 0" "\<And>s r. val s n r = 0" using n by (simp_all add: bare_def)
  obtain s2 where s2: "write_inode ino n s = Some s2" "fs_ok s2" "lay s2 = lay s" "inode_at s2 ino = n"
      "\<And>j. unat j < 128 \<Longrightarrow> j \<noteq> ino \<Longrightarrow> inode_at s2 j = inode_at s j" "\<And>b. b \<noteq> inode_block s ino \<Longrightarrow> blocks s2 b = blocks s b"
    using write_inode_fs [OF F(1) ino n'(1)] by blast
  note I = inode_only [OF F(1) ino F(2) s2(3,6)]
  have "files_ok s2"
    unfolding files_ok_def
  proof (intro conjI allI impI)
    show "file_ok s2 (inode_at s2 i)" if "unat i < 128" for i
      using I(3) [OF that] s2(4,5) that n' by (cases "i = ino") (simp_all add: file_ok_def)
    show "\<not> owns s2 (inode_at s2 j) b" if "unat i < 128" "unat j < 128" "i \<noteq> j" "owns s2 (inode_at s2 i) b" for i j b
      using that I(1) F(3) [OF that(1,2,3), of b] s2(4,5) n'(3) by (cases "i = ino"; cases "j = ino") (auto simp: owns_def)
  qed (rule s2(2))
  moreover have "content s2 j = content s j" if "unat j < 128" "j \<noteq> ino" for j
    using s2(5) [OF that] I(2) [OF that(1)] by (simp add: content_def file_len_def)
  moreover have "content s2 ino = []" using s2(4) n'(2) by (simp add: content_def file_len_def)
  ultimately show ?thesis using that s2(1,4,5) I(4) [OF ino] by blast
qed

lemma alloc_inode_from_fs:
  assumes "files_ok s" "n \<le> 128"
  shows "\<exists>r s'. alloc_inode_from i n s = Some (r, s') \<and> files_ok s' \<and> same_fs s s'
     \<and> (case r of None \<Rightarrow> \<forall>k. i \<le> k \<and> k < n \<longrightarrow> kind (inode_at s (of_nat k)) \<noteq> T_FREE
        | Some ino \<Rightarrow> i \<le> unat ino \<and> unat ino < n \<and> kind (inode_at s ino) = T_FREE)"
  using assms
proof (induction i n s rule: alloc_inode_from.induct)
  case (1 i n s)
  show ?case
  proof (cases "i < n")
    case False
    then show ?thesis using 1(2) by (subst alloc_inode_from.simps) auto
  next
    case lt: True
    have u: "unat (of_nat i :: u32) = i" using lt 1(3) by (simp add: unat_of_nat take_bit_nat_eq_self)
    have l: "unat (of_nat i :: u32) < 128" using u lt 1(3) by simp
    obtain s1 where s1: "read_inode (of_nat i) s = Some (inode_at s (of_nat i), s1)" "fs_ok s1" "same_fs s s1"
      by (rule read_inode_fs [OF files_okD(1) [OF 1(2)] l])
    note S = same_files(1) [OF 1(2) s1(2,3)] same_fs_observe(3) [OF s1(3)]
    show ?thesis
    proof (cases "kind (inode_at s (of_nat i)) = T_FREE")
      case True
      then show ?thesis using lt s1 S(1) u by (subst alloc_inode_from.simps) auto
    next
      case False
      obtain r s' where r: "alloc_inode_from (Suc i) n s1 = Some (r, s')" "files_ok s'" "same_fs s1 s'"
          "case r of None \<Rightarrow> \<forall>k. Suc i \<le> k \<and> k < n \<longrightarrow> kind (inode_at s1 (of_nat k)) \<noteq> T_FREE
           | Some ino \<Rightarrow> Suc i \<le> unat ino \<and> unat ino < n \<and> kind (inode_at s1 ino) = T_FREE"
        using 1(1) [OF lt s1(1) refl False S(1) 1(3)] by blast
      have e: "alloc_inode_from i n s = Some (r, s')" using lt s1(1) False r(1) by (subst alloc_inode_from.simps) simp
      have "kind (inode_at s (of_nat k)) \<noteq> T_FREE" if "r = None" "i \<le> k" "k < n" for k
        using r(4) False that S(2) by (cases "k = i") (auto simp: Suc_le_eq)
      then show ?thesis using e r(2) same_fs_trans [OF s1(3) r(3)] r(4) S(2) by (cases r) auto
    qed
  qed
qed

text \<open>What \<open>lookup\<close> finds.\<close>

definition finds :: "fs \<Rightarrow> bytes \<Rightarrow> u32 option option" where
  "finds s name = map_option fst (lookup name s)"

lemma finds_eq:
  assumes "files_ok s" "dir_node (inode_at s ROOT_INODE)"
  shows "finds s name = Some (map_option snd (find (matches name) (dirents s ROOT_INODE)))"
proof -
  have "unat ROOT_INODE < 128" by (simp add: ROOT_INODE_def)
  from dir_lookup_fs [OF assms(1) this assms(2), of name] show ?thesis by (auto simp: finds_def lookup_def)
qed

lemma finds_same:
  assumes "files_ok s" "files_ok s'" "dir_node (inode_at s ROOT_INODE)"
    and "inode_at s' ROOT_INODE = inode_at s ROOT_INODE" "content s' ROOT_INODE = content s ROOT_INODE"
  shows "finds s' name = finds s name"
  using finds_eq [OF assms(1,3)] finds_eq [OF assms(2)] dirents_same [OF assms(1-5)] assms(3,4) by simp

lemma finds_linked:
  assumes "files_ok s" "dir_node (inode_at s ROOT_INODE)" "files_ok s'" "dir_node (inode_at s' ROOT_INODE)"
    and d: "dirents s' ROOT_INODE = dirents s ROOT_INODE @ [(pad_name name, ino)]"
    and nm: "length name \<le> NAME_LEN" "0 \<notin> set name" "0 \<notin> set name'" and i: "ino \<noteq> 0" and new: "finds s name = Some None"
  shows "finds s' name' = (if name' = name then Some (Some ino) else finds s name')"
proof -
  have m: "matches name' (pad_name name, ino) \<longleftrightarrow> name' = name"
  proof (cases "length name' \<le> NAME_LEN")
    case True
    then show ?thesis using name_eq_pad [OF nm(1) True nm(2,3)] i by (auto simp: matches_def)
  next
    case False
    then show ?thesis using name_eq_long [of name' "pad_name name"] nm(1) by (auto simp: matches_def)
  qed
  have "finds s' name' = Some (map_option snd (find (matches name') (dirents s ROOT_INODE @ [(pad_name name, ino)])))"
    using finds_eq [OF assms(3,4)] d by simp
  then show ?thesis
    using m new unfolding finds_eq [OF assms(1,2)] find_append by (auto split: option.splits)
qed

lemma bare_nodes: "bare Inode_empty" "bare (Inode_empty\<lparr>kind := k, nlink := 1\<rparr>)"
proof -
  have "val s n r = 0" if "direct n = replicate NDIRECT 0" "indirect n = 0" "double_indirect n = 0" for s n r
    using that by (cases r) (auto simp: nth_replicate)
  then show "bare Inode_empty" "bare (Inode_empty\<lparr>kind := k, nlink := 1\<rparr>)"
    by (simp_all add: bare_def inode_ok_def Inode_empty_def)
qed

text \<open>The inode that \<open>create\<close> takes for the file; the search starts at inode 2.\<close>

definition no_inode :: "fs \<Rightarrow> bool" where
  "no_inode s \<longleftrightarrow> (\<forall>i. 2 \<le> i \<longrightarrow> i < INODE_COUNT \<longrightarrow> kind (inode_at s i) \<noteq> T_FREE)"

lemma no_inodeI: "\<forall>i. 2 \<le> i \<and> i < 128 \<longrightarrow> kind (inode_at s (of_nat i)) \<noteq> T_FREE \<Longrightarrow> no_inode s"
  unfolding no_inode_def INODE_COUNT_less
proof (intro allI impI)
  fix i :: u32
  assume a: "\<forall>i. 2 \<le> i \<and> i < 128 \<longrightarrow> kind (inode_at s (of_nat i)) \<noteq> T_FREE" "2 \<le> i" "unat i < 128"
  have "2 \<le> unat i" using a(2) by (simp add: word_le_nat_alt)
  then show "kind (inode_at s i) \<noteq> T_FREE" using a(1) [rule_format, of "unat i"] a(3) by simp
qed

lemma alloc_node_fs:
  assumes ok: "files_ok s"
  shows "\<exists>a s'. alloc_node k s = Some (a, s') \<and> files_ok s'
     \<and> (case a of
          None \<Rightarrow> same_fs s s' \<and> no_inode s
        | Some ino \<Rightarrow> 2 \<le> unat ino \<and> unat ino < 128 \<and> kind (inode_at s ino) = T_FREE \<and> content s' ino = [] \<and> (disk_full s' \<longleftrightarrow> disk_full s)
            \<and> (\<forall>j. unat j < 128 \<longrightarrow> j \<noteq> ino \<longrightarrow> inode_at s' j = inode_at s j \<and> content s' j = content s j))"
proof -
  have c: "unat INODE_COUNT = 128" by (simp add: INODE_COUNT_def INODE_BLOCKS_def fs_consts)
  obtain r s1 where r: "alloc_inode s = Some (r, s1)" "files_ok s1" "same_fs s s1"
      "case r of None \<Rightarrow> \<forall>i. 2 \<le> i \<and> i < 128 \<longrightarrow> kind (inode_at s (of_nat i)) \<noteq> T_FREE
       | Some ino \<Rightarrow> 2 \<le> unat ino \<and> unat ino < 128 \<and> kind (inode_at s ino) = T_FREE"
    using alloc_inode_from_fs [OF ok, of 128 2] unfolding alloc_inode_def c by auto
  note S = same_files(2) [OF ok files_okD(1) [OF r(2)] r(3)] same_fs_observe(3) [OF r(3)]
  show ?thesis
  proof (cases r)
    case None
    then show ?thesis using r no_inodeI [of s] by (simp add: alloc_node_def)
  next
    case (Some ino)
    with r(4) have i: "2 \<le> unat ino" "unat ino < 128" "kind (inode_at s ino) = T_FREE" by simp_all
    obtain s' where s': "write_inode ino (Inode_empty\<lparr>kind := k, nlink := 1\<rparr>) s1 = Some s'" "files_ok s'" "content s' ino = []"
        "disk_full s' \<longleftrightarrow> disk_full s1" "\<And>j. unat j < 128 \<Longrightarrow> j \<noteq> ino \<Longrightarrow> inode_at s' j = inode_at s1 j \<and> content s' j = content s1 j"
      using set_node_fs [OF r(2) i(2) bare_nodes(2)] by metis
    then show ?thesis using r(1) Some i S same_full [OF r(3)] by (simp add: alloc_node_def)
  qed
qed

lemma create_fs:
  assumes "files_ok s" "dir_node (inode_at s ROOT_INODE)" "length name \<le> NAME_LEN" "0 \<notin> set name"
  shows "\<exists>r s'. create name s = Some (r, s') \<and> files_ok s' \<and> dir_node (inode_at s' ROOT_INODE)
     \<and> (\<forall>j. unat j < 128 \<longrightarrow> j \<noteq> ROOT_INODE \<longrightarrow> kind (inode_at s j) \<noteq> T_FREE \<longrightarrow> content s' j = content s j)
     \<and> (case r of
          None \<Rightarrow> (\<forall>nm. finds s' nm = finds s nm)
            \<and> (finds s name \<noteq> Some None \<or> no_inode s
               \<or> NDIRECT * DIRENTS \<le> dir_size (inode_at s ROOT_INODE) \<or> disk_full s)
        | Some ino \<Rightarrow> finds s name = Some None \<and> kind (inode_at s ino) = T_FREE \<and> content s' ino = []
            \<and> (\<forall>nm. 0 \<notin> set nm \<longrightarrow> finds s' nm = (if nm = name then Some (Some ino) else finds s nm)))"
proof -
  have root: "unat ROOT_INODE < 128" "unat ROOT_INODE = 1" by (simp_all add: ROOT_INODE_def)
  obtain s1 where s1: "lookup name s = Some (map_option snd (find (matches name) (dirents s ROOT_INODE)), s1)" "files_ok s1" "same_fs s s1"
    unfolding lookup_def by (rule dir_lookup_fs [OF assms(1) root(1) assms(2)])
  note S = same_files(2) [OF assms(1) files_okD(1) [OF s1(2)] s1(3)] same_fs_observe(3) [OF s1(3)] same_full [OF s1(3)]
  have d1: "dir_node (inode_at s1 ROOT_INODE)" using assms(2) S(2) by simp
  have f1: "finds s1 nm = finds s nm" for nm by (rule finds_same [OF assms(1) s1(2) assms(2)]) (use S root in simp_all)
  show ?thesis
  proof (cases "find (matches name) (dirents s ROOT_INODE)")
    case (Some e)
    then have "create name s = Some (None, s1)" using s1(1) by (simp add: create_def)
    moreover have "finds s name \<noteq> Some None" using finds_eq [OF assms(1,2)] Some by simp
    ultimately show ?thesis using s1(2) d1 f1 S by auto
  next
    case None
    have new: "finds s name = Some None" using finds_eq [OF assms(1,2)] None by simp
    obtain a s2 where a: "alloc_node T_FILE s1 = Some (a, s2)" "files_ok s2"
        "case a of
          None \<Rightarrow> same_fs s1 s2 \<and> no_inode s1
        | Some ino \<Rightarrow> 2 \<le> unat ino \<and> unat ino < 128 \<and> kind (inode_at s1 ino) = T_FREE \<and> content s2 ino = [] \<and> (disk_full s2 \<longleftrightarrow> disk_full s1)
            \<and> (\<forall>j. unat j < 128 \<longrightarrow> j \<noteq> ino \<longrightarrow> inode_at s2 j = inode_at s1 j \<and> content s2 j = content s1 j)"
      using alloc_node_fs [OF s1(2), of T_FILE] by blast
    show ?thesis
    proof (cases a)
      case None
      note q = same_fs_trans [OF s1(3)] same_files(2) [OF assms(1) files_okD(1) [OF a(2)]] same_fs_observe(3)
      have ss: "same_fs s s2" using a(3) None q(1) by simp
      have "create name s = Some (None, s2)" using s1(1) \<open>find _ _ = None\<close> a(1) None by (simp add: create_def)
      moreover have "finds s2 nm = finds s nm" for nm
        by (rule finds_same [OF assms(1) a(2) assms(2)]) (use q(2,3) ss root in simp_all)
      moreover have "no_inode s" using a(3) None S(2) by (simp add: no_inode_def)
      ultimately show ?thesis using a(2) q(2,3) ss assms(2) by auto
    next
      case (Some ino)
      with a(3) have i: "2 \<le> unat ino" "unat ino < 128" "kind (inode_at s ino) = T_FREE" "content s2 ino = []" "disk_full s2 \<longleftrightarrow> disk_full s"
          "\<And>j. unat j < 128 \<Longrightarrow> j \<noteq> ino \<Longrightarrow> inode_at s2 j = inode_at s j \<and> content s2 j = content s j"
        using S by simp_all
      have ir: "ino \<noteq> ROOT_INODE" "ino \<noteq> 0" using i(1) root(2) by auto
      have r2: "inode_at s2 ROOT_INODE = inode_at s ROOT_INODE" "content s2 ROOT_INODE = content s ROOT_INODE"
        using i(6) [OF root(1)] ir(1) by auto
      have d2: "dir_node (inode_at s2 ROOT_INODE)" using assms(2) r2(1) by simp
      have f2: "finds s2 nm = finds s nm" for nm by (rule finds_same [OF assms(1) a(2) assms(2) r2])
      obtain t s3 where t: "dir_link ROOT_INODE name ino s2 = Some (t, s3)" "files_ok s3"
          "\<forall>j. unat j < 128 \<longrightarrow> j \<noteq> ROOT_INODE \<longrightarrow> inode_at s3 j = inode_at s2 j \<and> content s3 j = content s2 j \<and> (solid s3 j \<longleftrightarrow> solid s2 j)"
          "if t then dir_node (inode_at s3 ROOT_INODE) \<and> dirents s3 ROOT_INODE = dirents s2 ROOT_INODE @ [(pad_name name, ino)]
           else same_fs s2 s3 \<and> (NDIRECT * DIRENTS \<le> dir_size (inode_at s2 ROOT_INODE) \<or> disk_full s2)"
        using dir_link_fs [OF a(2) root(1) d2] by blast
      have other: "content s3 j = content s j" if "unat j < 128" "j \<noteq> ROOT_INODE" "kind (inode_at s j) \<noteq> T_FREE" for j
        using t(3) i(3,6) that by auto
      show ?thesis
      proof (cases t)
        case True
        have c: "create name s = Some (Some ino, s3)" using s1(1) None a(1) Some t(1) True by (simp add: create_def)
        have "finds s3 nm = (if nm = name then Some (Some ino) else finds s nm)" if "0 \<notin> set nm" for nm
          using finds_linked [OF a(2) d2 t(2) _ _ assms(3,4) that ir(2)] t(4) True f2 new by simp
        moreover have "content s3 ino = []" using t(3) i(2,4) ir(1) by simp
        ultimately show ?thesis using c t(2,4) True other new i(3) by auto
      next
        case False
        then have ss: "same_fs s2 s3" using t(4) by simp
        obtain s4 where s4: "write_inode ino Inode_empty s3 = Some s4" "files_ok s4"
            "\<And>j. unat j < 128 \<Longrightarrow> j \<noteq> ino \<Longrightarrow> inode_at s4 j = inode_at s3 j \<and> content s4 j = content s3 j"
          using set_node_fs [OF t(2) i(2) bare_nodes(1)] by metis
        have c: "create name s = Some (None, s4)" using s1(1) None a(1) Some t(1) False s4(1) by (simp add: create_def)
        have r4: "inode_at s4 ROOT_INODE = inode_at s ROOT_INODE" "content s4 ROOT_INODE = content s ROOT_INODE"
          using s4(3) [OF root(1)] ir(1) r2 same_fs_observe(3) [OF ss] same_files(2) [OF a(2) files_okD(1) [OF t(2)] ss root(1)] by auto
        have "finds s4 nm = finds s nm" for nm by (rule finds_same [OF assms(1) s4(2) assms(2) r4])
        moreover have "content s4 j = content s j" if "unat j < 128" "j \<noteq> ROOT_INODE" "kind (inode_at s j) \<noteq> T_FREE" for j
          using s4(3) [OF that(1)] other [OF that] that(3) i(3) by auto
        ultimately show ?thesis using c s4(2) r4(1) assms(2) t(4) False r2(1) i(5) by auto
      qed
    qed
  qed
qed


text \<open>A disk with an empty root directory.\<close>

lemma blank_inode_free: "kind (inode_at (blank_fs 1024) ino) = T_FREE"
proof -
  let ?o = "snd (inode_loc (lay (blank_fs 1024)) ino)"
  have b: "blocks (blank_fs 1024) b = zero_block" for b by (simp add: blank_fs_def blocks_def)
  have "?o + INODE_SIZE \<le> BLOCK_SIZE" using inode_loc_off by simp
  then have "rd_u16 zero_block ?o = Some 0" by (simp add: rd_u16_def index_def zero_block_def u16_from_le_def fs_consts)
  then show ?thesis using inode_at_parse [OF blank_fs_ok, of ino]
    by (auto simp: b Inode_parse_def bind_eq_Some_conv T_FREE_def dest!: arg_cong [of _ _ kind])
qed

lemma blank_not_full: "\<not> disk_full (blank_fs 1024)"
proof -
  have "data_block (blank_fs 1024) 1000" by (simp add: data_block_def blank_fs_def for_total_def fs_consts div_ceil_def Let_def)
  moreover have "\<not> block_used (blank_fs 1024) 1000"
    by (simp add: block_used_def blank_fs_def blocks_def zero_block_def bitmap_get_def bm_bit_def BLOCK_SIZE_def)
  ultimately show ?thesis by (auto simp: disk_full_def)
qed

definition rooted_fs :: fs where
  "rooted_fs = the (write_inode ROOT_INODE (Inode_empty\<lparr>kind := T_DIR, nlink := 1\<rparr>) (blank_fs 1024))"

lemma rooted_fs_ok:
  "files_ok rooted_fs" "dir_node (inode_at rooted_fs ROOT_INODE)" "dir_size (inode_at rooted_fs ROOT_INODE) = 0"
  "disk_full rooted_fs \<longleftrightarrow> disk_full (blank_fs 1024)" "inode_at rooted_fs 2 = inode_at (blank_fs 1024) 2"
proof -
  have root: "unat ROOT_INODE < 128" "ROOT_INODE \<noteq> 2" by (simp_all add: ROOT_INODE_def)
  obtain s' where s': "write_inode ROOT_INODE (Inode_empty\<lparr>kind := T_DIR, nlink := 1\<rparr>) (blank_fs 1024) = Some s'" "files_ok s'"
      "inode_at s' ROOT_INODE = Inode_empty\<lparr>kind := T_DIR, nlink := 1\<rparr>" "disk_full s' \<longleftrightarrow> disk_full (blank_fs 1024)"
      "\<And>j. unat j < 128 \<Longrightarrow> j \<noteq> ROOT_INODE \<Longrightarrow> inode_at s' j = inode_at (blank_fs 1024) j"
    using set_node_fs [OF blank_files(1) root(1) bare_nodes(2)] by metis
  have e: "rooted_fs = s'" using s'(1) by (simp add: rooted_fs_def)
  show "files_ok rooted_fs" "disk_full rooted_fs \<longleftrightarrow> disk_full (blank_fs 1024)" using s' e by simp_all
  show "inode_at rooted_fs 2 = inode_at (blank_fs 1024) 2" using s'(5) [of 2] e root(2) by auto
  show "dir_size (inode_at rooted_fs ROOT_INODE) = 0" "dir_node (inode_at rooted_fs ROOT_INODE)"
    using s'(3) e by (simp_all add: dir_size_def dir_node_def Inode_empty_def)
qed


end
