(* ===== verification/IpReasm.thy ===== *)
theory IpReasm
  imports Prelude
begin

text \<open>
  IPv4 fragment reassembly: the native half \<open>kernel/src/ip_reasm.rs\<close> and the \<open>IpReassembly\<close>
  Frame system (\<open>frame/ip_reassembly.frs\<close>). The statics of the module are one record; the
  tick counter is the argument \<open>now\<close>. A completed datagram is returned to the caller, which
  hands it to \<open>net::on_reassembled_ipv4\<close>. An outer \<open>None\<close> is a panic: of an index, a slice, or the
  addition to the 32-bit fragment counter.
\<close>

definition REASM_MAX :: nat where "REASM_MAX = 8192"
definition ETH_HDR :: nat where "ETH_HDR = 14"
definition IP_HDR :: nat where "IP_HDR = 20"
definition REASM_TIMEOUT_TICKS :: nat where "REASM_TIMEOUT_TICKS = 100"

record fragment =
  offset :: nat
  flen :: nat
  more_frags :: bool
  fident :: u16

datatype reasm_state = RIdle | Reassembling | RComplete | RExpired

record reasm =
  rfsm :: reasm_state
  active :: bool
  ident :: u16
  total_known :: bool
  total_len :: nat
  covered :: nat
  frags_seen :: u32
  deadline :: nat
  rbuf :: bytes
  coverage :: bytes
  saved_hdr :: bytes
  cur_payload :: bytes

definition REASM_init :: reasm where
  "REASM_init = \<lparr>rfsm = RIdle, active = False, ident = 0, total_known = False, total_len = 0,
     covered = 0, frags_seen = 0, deadline = 0, rbuf = replicate REASM_MAX 0,
     coverage = replicate (REASM_MAX div 8) 0, saved_hdr = replicate (ETH_HDR + IP_HDR) 0,
     cur_payload = replicate REASM_MAX 0\<rparr>"

definition cov_get :: "bytes \<Rightarrow> nat \<Rightarrow> bool" where
  "cov_get m i \<longleftrightarrow> drop_bit (i mod 8) (m ! (i div 8)) AND 1 \<noteq> 0"

definition cov_set :: "bytes \<Rightarrow> nat \<Rightarrow> bytes" where
  "cov_set m i = m[i div 8 := m ! (i div 8) OR push_bit (i mod 8) 1]"

section \<open>Parsing\<close>

text \<open>The header fields both functions read: \<open>ihl\<close> and the total length, then the payload range.\<close>

definition payload_range :: "bytes \<Rightarrow> (nat \<times> nat) option" where
  "payload_range frame =
     do { v \<leftarrow> index frame 14; t0 \<leftarrow> index frame 16; t1 \<leftarrow> index frame 17;
          let ihl = unat (v AND 0x0F) * 4;
              total_ip = unat (u16_from_be t0 t1);
              pstart = ETH_HDR + ihl;
              pend = min (ETH_HDR + total_ip) (length frame)
          in Some (pstart, pend) }"

definition parse_fragment :: "bytes \<Rightarrow> fragment option option" where
  "parse_fragment frame =
     do { out \<leftarrow> any_of [Some (length frame < ETH_HDR + IP_HDR),
                         map_option Not (slice_is frame 12 14 [0x08, 0x00]),
                         index_is frame 14 (\<lambda>v. drop_bit 4 v \<noteq> 4)];
          if out then Some None
          else do { f0 \<leftarrow> index frame (14 + 6); f1 \<leftarrow> index frame (14 + 7);
                    let flags_frag = u16_from_be f0 f1;
                        mf = (flags_frag AND 0x2000 \<noteq> 0);
                        frag_off = unat (flags_frag AND 0x1FFF) * 8
                    in if \<not> mf \<and> frag_off = 0 then Some None
                       else do { (pstart, pend) \<leftarrow> payload_range frame;
                                 i0 \<leftarrow> index frame (14 + 4); i1 \<leftarrow> index frame (14 + 5);
                                 Some (Some \<lparr>offset = frag_off, flen = pend - pstart, more_frags = mf,
                                             fident = u16_from_be i0 i1\<rparr>) } } }"

section \<open>Actions of the Frame system\<close>

definition reset_inactive :: "reasm \<Rightarrow> reasm" where
  "reset_inactive r = r\<lparr>active := False\<rparr>"

definition reasm_begin :: "u16 \<Rightarrow> bytes \<Rightarrow> nat \<Rightarrow> reasm \<Rightarrow> reasm option" where
  "reasm_begin idn frame now r =
     do { hdr \<leftarrow> sub_slice frame 0 (ETH_HDR + IP_HDR);
          Some (r\<lparr>coverage := replicate (REASM_MAX div 8) 0, saved_hdr := hdr,
                  active := True, ident := idn, total_known := False, total_len := 0, covered := 0,
                  frags_seen := 0, deadline := now + REASM_TIMEOUT_TICKS, rfsm := RIdle\<rparr>) }"

text \<open>The copy loop of \<open>store\<close>, from buffer index \<open>idx\<close> on.\<close>

fun store_loop :: "bytes \<Rightarrow> nat \<Rightarrow> reasm \<Rightarrow> reasm" where
  "store_loop [] idx r = r"
| "store_loop (b # bs) idx r =
     (if idx \<ge> REASM_MAX then r
      else (let r = r\<lparr>rbuf := (rbuf r)[idx := b]\<rparr>;
                r = (if \<not> cov_get (coverage r) idx
                     then r\<lparr>coverage := cov_set (coverage r) idx, covered := covered r + 1\<rparr>
                     else r)
            in store_loop bs (Suc idx) r))"

definition store :: "fragment \<Rightarrow> reasm \<Rightarrow> reasm option" where
  "store frag r =
     do { src \<leftarrow> sub_slice (cur_payload r) 0 (flen frag);
          let r = store_loop src (offset frag) r;
              r = (if \<not> more_frags frag
                   then r\<lparr>total_known := True, total_len := offset frag + flen frag\<rparr> else r)
          in do { k \<leftarrow> checked_inc (frags_seen r); Some (r\<lparr>frags_seen := k\<rparr>) } }"

definition is_complete :: "reasm \<Rightarrow> bool" where
  "is_complete r \<longleftrightarrow> total_known r \<and> covered r = total_len r"

text \<open>The frame rebuilt from the saved header and the payload; the source then passes it on.\<close>

definition on_complete :: "reasm \<Rightarrow> (bytes \<times> reasm) option" where
  "on_complete r =
     do { payload \<leftarrow> sub_slice (rbuf r) 0 (total_len r);
          let full = saved_hdr r @ payload;
              full = blit full 16 (u16_to_be (of_nat (IP_HDR + total_len r)));
              full = full[20 := 0, 21 := 0, 24 := 0, 25 := 0]
          in Some (full, reset_inactive r) }"

definition on_expired :: "reasm \<Rightarrow> reasm" where
  "on_expired r = reset_inactive r"

section \<open>The IpReassembly Frame system\<close>

text \<open>Entering \<open>$Reassembling\<close> runs \<open>store\<close> and, when complete, moves to \<open>$Complete\<close>.\<close>

definition enter_reassembling :: "fragment \<Rightarrow> reasm \<Rightarrow> (bytes option \<times> reasm) option" where
  "enter_reassembling frag r =
     do { r \<leftarrow> store frag (r\<lparr>rfsm := Reassembling\<rparr>);
          if is_complete r
          then do { (full, r) \<leftarrow> on_complete (r\<lparr>rfsm := RComplete\<rparr>); Some (Some full, r) }
          else Some (None, r) }"

definition fsm_fragment :: "fragment \<Rightarrow> reasm \<Rightarrow> (bytes option \<times> reasm) option" where
  "fsm_fragment frag r =
     (case rfsm r of
        RIdle \<Rightarrow> enter_reassembling frag r
      | Reassembling \<Rightarrow> enter_reassembling frag r
      | RComplete \<Rightarrow> Some (None, r)
      | RExpired \<Rightarrow> Some (None, r))"

definition fsm_timeout :: "reasm \<Rightarrow> reasm" where
  "fsm_timeout r = (case rfsm r of Reassembling \<Rightarrow> on_expired (r\<lparr>rfsm := RExpired\<rparr>) | _ \<Rightarrow> r)"

section \<open>Driving it\<close>

definition on_fragment :: "bytes \<Rightarrow> nat \<Rightarrow> reasm \<Rightarrow> (bytes option \<times> reasm) option" where
  "on_fragment frame now r =
     do { p \<leftarrow> parse_fragment frame;
          case p of
            None \<Rightarrow> Some (None, r)
          | Some frag \<Rightarrow>
              do { (pstart, pend) \<leftarrow> payload_range frame;
                   let plen = pend - pstart
                   in if offset frag + plen > REASM_MAX then Some (None, reset_inactive r)
                      else do { bytes \<leftarrow> sub_slice frame pstart pend;
                                payload \<leftarrow> blit_checked (cur_payload r) 0 bytes;
                                let r = r\<lparr>cur_payload := payload\<rparr>
                                in do { r \<leftarrow> (if \<not> active r \<or> ident r \<noteq> fident frag
                                             then reasm_begin (fident frag) frame now r else Some r);
                                        fsm_fragment frag r } } } }"

definition drain_timer :: "nat \<Rightarrow> reasm \<Rightarrow> reasm" where
  "drain_timer now r = (if active r \<and> now \<ge> deadline r then fsm_timeout r else r)"

section \<open>What a fragment says\<close>

text \<open>
  The same fields read with total functions. The length test of \<open>parse_fragment\<close> keeps every
  index of the two parsers in range, so they agree with these readings.
\<close>

definition range_of :: "bytes \<Rightarrow> nat \<times> nat" where
  "range_of frame =
     (let ihl = unat ((frame ! 14) AND 0x0F) * 4;
          total_ip = unat (u16_from_be (frame ! 16) (frame ! 17));
          pstart = ETH_HDR + ihl;
          pend = min (ETH_HDR + total_ip) (length frame)
      in (pstart, pend))"

definition frag_of :: "bytes \<Rightarrow> fragment option" where
  "frag_of frame =
     (if length frame < ETH_HDR + IP_HDR \<or> take 2 (drop 12 frame) \<noteq> [0x08, 0x00]
         \<or> drop_bit 4 (frame ! 14) \<noteq> 4
      then None
      else (let flags_frag = u16_from_be (frame ! 20) (frame ! 21);
                mf = (flags_frag AND 0x2000 \<noteq> 0);
                frag_off = unat (flags_frag AND 0x1FFF) * 8
            in if \<not> mf \<and> frag_off = 0 then None
               else (let (pstart, pend) = range_of frame
                     in Some \<lparr>offset = frag_off, flen = pend - pstart, more_frags = mf,
                              fident = u16_from_be (frame ! 18) (frame ! 19)\<rparr>)))"

definition begun :: "u16 \<Rightarrow> bytes \<Rightarrow> nat \<Rightarrow> reasm \<Rightarrow> reasm" where
  "begun idn frame now r =
     r\<lparr>coverage := replicate (REASM_MAX div 8) 0, saved_hdr := take (ETH_HDR + IP_HDR) frame,
       active := True, ident := idn, total_known := False, total_len := 0, covered := 0,
       frags_seen := 0, deadline := now + REASM_TIMEOUT_TICKS, rfsm := RIdle\<rparr>"

lemma payload_range_Some: "18 \<le> length frame \<Longrightarrow> payload_range frame = Some (range_of frame)"
  by (simp add: payload_range_def range_of_def index_def Let_def)

lemma parse_fragment_eq: "parse_fragment frame = Some (frag_of frame)"
proof (cases "length frame < 34")
  case True
  then show ?thesis by (simp add: parse_fragment_def frag_of_def ETH_HDR_def IP_HDR_def)
next
  case False
  then show ?thesis
    by (simp add: parse_fragment_def frag_of_def ETH_HDR_def IP_HDR_def slice_is_Some index_is_Some index_Some
        payload_range_Some Let_def split: prod.split)
qed

lemma frag_of_len: "frag_of frame = Some frag \<Longrightarrow> 34 \<le> length frame"
  by (auto simp: frag_of_def ETH_HDR_def IP_HDR_def split: if_splits)

lemma reasm_begin_eq: "34 \<le> length frame \<Longrightarrow> reasm_begin idn frame now r = Some (begun idn frame now r)"
  by (simp add: reasm_begin_def begun_def sub_slice_def ETH_HDR_def IP_HDR_def)

text \<open>The outcome of \<open>on_fragment\<close> up to the dispatch to the Frame system.\<close>

lemma on_fragment_None: "frag_of frame = None \<Longrightarrow> on_fragment frame now r = Some (None, r)"
  by (simp add: on_fragment_def parse_fragment_eq)

lemma on_fragment_eq:
  assumes "frag_of frame = Some frag" and "range_of frame = (a, b)"
  shows "on_fragment frame now r =
     (if offset frag + (b - a) > REASM_MAX then Some (None, reset_inactive r)
      else do { bytes \<leftarrow> sub_slice frame a b;
                payload \<leftarrow> blit_checked (cur_payload r) 0 bytes;
                let r = r\<lparr>cur_payload := payload\<rparr>
                in fsm_fragment frag (if \<not> active r \<or> ident r \<noteq> fident frag then begun (fident frag) frame now r else r) })"
  using frag_of_len [OF assms(1)] assms
  by (cases "active r \<longrightarrow> ident r \<noteq> fident frag")
    (simp_all add: on_fragment_def parse_fragment_eq payload_range_Some reasm_begin_eq Let_def)

section \<open>The buffer and its coverage\<close>

lemma cov_get_bitmap: "cov_get m i = bitmap_get m i"
  by (simp add: cov_get_def bitmap_get_shift)

lemma cov_set_bitmap: "cov_set m i = bitmap_set m i"
  by (simp add: cov_set_def bitmap_set_def)

interpretation cov: bit_array cov_get cov_set bitmap_clear "\<lambda>m. 8 * length m"
  by unfold_locales (simp_all add: cov_get_bitmap cov_set_bitmap bitmap_get_set bitmap_get_clear)

definition covset :: "reasm \<Rightarrow> nat set" where
  "covset r = {i. i < REASM_MAX \<and> cov_get (coverage r) i}"

definition reasm_shape :: "reasm \<Rightarrow> bool" where
  [inv_defs]: "reasm_shape r \<longleftrightarrow> length (rbuf r) = REASM_MAX \<and> length (coverage r) = REASM_MAX div 8
     \<and> length (saved_hdr r) = ETH_HDR + IP_HDR \<and> length (cur_payload r) = REASM_MAX"

lemma finite_covset [simp]: "finite (covset r)"
  by (simp add: covset_def)

lemma cov_cap: "reasm_shape r \<Longrightarrow> 8 * length (coverage r) = REASM_MAX"
  by (simp add: reasm_shape_def REASM_MAX_def)

lemma cov_get_empty: "i < REASM_MAX \<Longrightarrow> \<not> cov_get (replicate (REASM_MAX div 8) 0) i"
  by (simp add: cov_get_def REASM_MAX_def)

lemma store_loop_keeps:
  "total_known (store_loop bs idx r) = total_known r" "total_len (store_loop bs idx r) = total_len r"
  "saved_hdr (store_loop bs idx r) = saved_hdr r" "cur_payload (store_loop bs idx r) = cur_payload r"
  "rfsm (store_loop bs idx r) = rfsm r" "active (store_loop bs idx r) = active r"
  "ident (store_loop bs idx r) = ident r" "frags_seen (store_loop bs idx r) = frags_seen r"
  by (induction bs idx r rule: store_loop.induct) (simp_all add: Let_def)

lemma blit_Cons:
  assumes "idx + Suc (length bs) \<le> length xs"
  shows "blit (xs[idx := b]) (Suc idx) bs = blit xs idx (b # bs)"
proof (rule nth_equalityI)
  fix i assume "i < length (blit (xs[idx := b]) (Suc idx) bs)"
  then show "blit (xs[idx := b]) (Suc idx) bs ! i = blit xs idx (b # bs) ! i"
    using assms by (auto simp: nth_blit nth_list_update nth_Cons' not_less)
qed (use assms in simp)

lemma store_loop_spec:
  assumes "reasm_shape r" and "idx + length bs \<le> REASM_MAX" and "covered r = card (covset r)"
  shows "reasm_shape (store_loop bs idx r)
     \<and> rbuf (store_loop bs idx r) = blit (rbuf r) idx bs
     \<and> covset (store_loop bs idx r) = covset r \<union> {idx..<idx + length bs}
     \<and> covered (store_loop bs idx r) = card (covset (store_loop bs idx r))"
  using assms
proof (induction bs arbitrary: idx r)
  case (Cons b bs)
  define q where "q = (if \<not> cov_get (coverage r) idx
      then r\<lparr>rbuf := (rbuf r)[idx := b], coverage := cov_set (coverage r) idx, covered := covered r + 1\<rparr>
      else r\<lparr>rbuf := (rbuf r)[idx := b]\<rparr>)"
  have lt: "idx < REASM_MAX" using Cons.prems by simp
  have step: "store_loop (b # bs) idx r = store_loop bs (Suc idx) q"
    using lt by (simp add: Let_def q_def)
  have sh: "reasm_shape q"
    using Cons.prems(1) by (simp add: q_def reasm_shape_def cov_set_def)
  have "cov_get (coverage q) i \<longleftrightarrow> i = idx \<or> cov_get (coverage r) i" for i
    using lt cov_cap [OF Cons.prems(1)] by (auto simp: q_def cov.get_set)
  then have cs: "covset q = insert idx (covset r)" using lt by (auto simp: covset_def)
  have cv: "covered q = card (covset q)"
  proof (cases "idx \<in> covset r")
    case True
    then show ?thesis using cs Cons.prems(3) lt by (simp add: covset_def q_def insert_absorb)
  next
    case False
    then have "\<not> cov_get (coverage r) idx" using lt by (simp add: covset_def)
    moreover have "card (insert idx (covset r)) = Suc (card (covset r))" using False by simp
    ultimately show ?thesis unfolding cs using Cons.prems(3) by (simp add: q_def)
  qed
  have "idx + Suc (length bs) \<le> length (rbuf r)" using Cons.prems by (simp add: reasm_shape_def)
  from blit_Cons [OF this] have bl: "blit (rbuf q) (Suc idx) bs = blit (rbuf r) idx (b # bs)"
    by (simp add: q_def)
  have "Suc idx + length bs \<le> REASM_MAX" using Cons.prems by simp
  note IH = Cons.IH [OF sh this cv]
  have "insert idx (covset r) \<union> {Suc idx..<Suc idx + length bs} = covset r \<union> {idx..<idx + length (b # bs)}"
    by auto
  with IH bl cs show ?case unfolding step by simp
qed auto

section \<open>Fragments of one datagram\<close>

text \<open>
  \<open>frag_frame P i frame\<close>: the frame carries a fragment of the payload \<open>P\<close> with identification
  \<open>i\<close>. \<open>reasm_inv P r\<close>: the bytes received so far are bytes of \<open>P\<close>.
\<close>

definition frag_frame :: "bytes \<Rightarrow> bytes \<Rightarrow> bool" where
  "frag_frame P frame \<longleftrightarrow>
     (\<exists>frag. frag_of frame = Some frag
        \<and> fst (range_of frame) \<le> snd (range_of frame)
        \<and> sub_slice frame (fst (range_of frame)) (snd (range_of frame))
            = Some (take (flen frag) (drop (offset frag) P))
        \<and> offset frag + flen frag \<le> length P
        \<and> (more_frags frag \<longleftrightarrow> offset frag + flen frag < length P))"

definition reasm_inv :: "bytes \<Rightarrow> reasm \<Rightarrow> bool" where
  [inv_defs]: "reasm_inv P r \<longleftrightarrow> reasm_shape r \<and> length P \<le> REASM_MAX \<and> covset r \<subseteq> {..<length P}
     \<and> (\<forall>i \<in> covset r. rbuf r ! i = P ! i) \<and> covered r = card (covset r)
     \<and> (total_known r \<longrightarrow> total_len r = length P)"

definition frag_bytes :: "bytes \<Rightarrow> nat set" where
  "frag_bytes frame =
     (case frag_of frame of None \<Rightarrow> {} | Some f \<Rightarrow> {offset f..<offset f + flen f})"

definition last_frag :: "bytes \<Rightarrow> bool" where
  "last_frag frame = (case frag_of frame of None \<Rightarrow> False | Some f \<Rightarrow> \<not> more_frags f)"

lemma take_blit_0:
  "length src \<le> length xs \<Longrightarrow> take (length src) (blit xs 0 src) = src"
  by (simp add: blit_def)

lemma store_inv:
  assumes inv: "reasm_inv P r" and pay: "take (flen frag) (cur_payload r) = take (flen frag) (drop (offset frag) P)"
    and fit: "offset frag + flen frag \<le> length P" "more_frags frag \<longleftrightarrow> offset frag + flen frag < length P"
    and room: "unat (frags_seen r) + 1 < 2 ^ 32"
  shows "\<exists>r'. store frag r = Some r' \<and> reasm_inv P r' \<and> unat (frags_seen r') = unat (frags_seen r) + 1
     \<and> covset r' = covset r \<union> {offset frag..<offset frag + flen frag}
     \<and> (total_known r' \<longleftrightarrow> total_known r \<or> \<not> more_frags frag)
     \<and> saved_hdr r' = saved_hdr r \<and> rfsm r' = rfsm r \<and> active r' = active r \<and> ident r' = ident r"
proof -
  define bs where "bs = take (flen frag) (drop (offset frag) P)"
  define q where "q = store_loop bs (offset frag) r"
  have sh: "reasm_shape r" "length P \<le> REASM_MAX" "covered r = card (covset r)" "covset r \<subseteq> {..<length P}"
      "\<And>i. i \<in> covset r \<Longrightarrow> rbuf r ! i = P ! i" "total_known r \<Longrightarrow> total_len r = length P"
    using inv by (auto simp: reasm_inv_def)
  have len: "length bs = flen frag" using fit(1) by (simp add: bs_def)
  have bnd: "offset frag + length bs \<le> REASM_MAX" using fit(1) sh(2) len by simp
  have src: "sub_slice (cur_payload r) 0 (flen frag) = Some bs"
    using pay fit(1) sh(1,2) by (simp add: sub_slice_def reasm_shape_def bs_def)
  have s: "reasm_shape q" "rbuf q = blit (rbuf r) (offset frag) bs"
      "covset q = covset r \<union> {offset frag..<offset frag + flen frag}" "covered q = card (covset q)"
    using store_loop_spec [OF sh(1) bnd sh(3)] len by (simp_all add: q_def)
  have l: "offset frag + length bs \<le> length (rbuf r)" using bnd sh(1) by (simp add: reasm_shape_def)
  have rb: "rbuf q ! i = P ! i" if "i \<in> covset q" for i
  proof (cases "offset frag \<le> i \<and> i < offset frag + flen frag")
    case True
    then have "rbuf q ! i = bs ! (i - offset frag)" using s(2) l len by (simp add: nth_blit)
    moreover have "i - offset frag < flen frag" "offset frag + (i - offset frag) = i" using True by auto
    ultimately show ?thesis using fit(1) by (simp add: bs_def)
  next
    case False
    then have "i \<in> covset r" using that s(3) by auto
    moreover from this have "i < length (rbuf r)" using sh(1) by (simp add: covset_def reasm_shape_def)
    ultimately show ?thesis using False s(2) l len sh(5) by (auto simp: nth_blit)
  qed
  have keep: "total_known q = total_known r" "total_len q = total_len r" "saved_hdr q = saved_hdr r"
      "rfsm q = rfsm r" "active q = active r" "ident q = ident r" "frags_seen q = frags_seen r"
    by (simp_all add: q_def store_loop_keeps)
  let ?r' = "(if \<not> more_frags frag then q\<lparr>total_known := True, total_len := offset frag + flen frag\<rparr> else q)"
  let ?r'' = "?r'\<lparr>frags_seen := frags_seen r + 1\<rparr>"
  note inc = checked_inc_Some [of "frags_seen r"]
  have c: "covset ?r'' = covset q" by (simp add: covset_def)
  have "store frag r = Some ?r''"
    using src inc(1) room keep(7) unfolding store_def Let_def by (simp add: q_def [symmetric])
  moreover have "reasm_inv P ?r''"
    unfolding reasm_inv_def c
  proof (intro conjI)
    show "reasm_shape ?r''" using s(1) by (simp add: reasm_shape_def)
    show "covset q \<subseteq> {..<length P}" using s(3) sh(4) fit(1) by auto
    show "\<forall>i \<in> covset q. rbuf ?r'' ! i = P ! i" using rb by simp
    show "covered ?r'' = card (covset q)" using s(4) by simp
    show "total_known ?r'' \<longrightarrow> total_len ?r'' = length P" using fit sh(6) keep by auto
  qed (rule sh(2))
  moreover have "unat (frags_seen ?r'') = unat (frags_seen r) + 1" using inc(2) room by simp
  ultimately show ?thesis using s(3) c keep by auto
qed

lemma rfsm_irrelevant [simp]:
  "covset (r\<lparr>rfsm := x\<rparr>) = covset r" "reasm_inv P (r\<lparr>rfsm := x\<rparr>) = reasm_inv P r"
  "is_complete (r\<lparr>rfsm := x\<rparr>) = is_complete r"
  by (simp_all add: reasm_inv_def reasm_shape_def covset_def is_complete_def)

text \<open>When the guard holds, the buffer is the whole payload.\<close>

lemma complete_payload:
  assumes inv: "reasm_inv P r" and c: "is_complete r"
  shows "total_len r = length P" and "take (total_len r) (rbuf r) = P" and "covset r = {..<length P}"
proof -
  have sh: "length (rbuf r) = REASM_MAX" "length P \<le> REASM_MAX" using inv by (auto simp: reasm_inv_def reasm_shape_def)
  show t: "total_len r = length P" using inv c by (simp add: reasm_inv_def is_complete_def)
  have "card (covset r) = card {..<length P}" using inv c t by (simp add: reasm_inv_def is_complete_def)
  moreover have "covset r \<subseteq> {..<length P}" using inv by (simp add: reasm_inv_def)
  ultimately show cs: "covset r = {..<length P}" by (intro card_subset_eq) simp_all
  show "take (total_len r) (rbuf r) = P"
    using inv cs t sh by (intro nth_equalityI) (auto simp: reasm_inv_def)
qed

lemma full_coverage_complete:
  assumes "reasm_inv P r" and "total_known r" and "covset r = {..<length P}"
  shows "is_complete r"
  using assms by (simp add: reasm_inv_def is_complete_def)

section \<open>Event sequences\<close>

text \<open>
  A run of the receiver: frames and timer ticks in any order; the datagrams it delivers.
  \<open>D\<close> gives the payload of each identification in flight.
\<close>

datatype reasm_event = RxFragment bytes nat | Tick nat

fun reasm_run :: "reasm_event list \<Rightarrow> reasm \<Rightarrow> (bytes list \<times> reasm) option" where
  "reasm_run [] r = Some ([], r)"
| "reasm_run (RxFragment frame now # es) r =
     do { (d, r) \<leftarrow> on_fragment frame now r;
          (ds, r) \<leftarrow> reasm_run es r;
          Some (case d of None \<Rightarrow> ds | Some f \<Rightarrow> f # ds, r) }"
| "reasm_run (Tick now # es) r = reasm_run es (drain_timer now r)"

definition frame_ident :: "bytes \<Rightarrow> u16" where
  "frame_ident frame = u16_from_be (frame ! 18) (frame ! 19)"

fun event_ok :: "(u16 \<Rightarrow> bytes) \<Rightarrow> reasm_event \<Rightarrow> bool" where
  "event_ok D (Tick now) \<longleftrightarrow> True"
| "event_ok D (RxFragment frame now) \<longleftrightarrow>
     frag_of frame = None \<or> frag_frame (D (frame_ident frame)) frame"

definition run_inv :: "(u16 \<Rightarrow> bytes) \<Rightarrow> reasm \<Rightarrow> bool" where
  [inv_defs]: "run_inv D r \<longleftrightarrow> reasm_shape r \<and>
     (active r \<longrightarrow> reasm_inv (D (ident r)) r \<and> frame_ident (saved_hdr r) = ident r \<and> \<not> is_complete r
                   \<and> (rfsm r = RIdle \<or> rfsm r = Reassembling))"

text \<open>A delivered frame: the payload of its identification, a length field to match, no fragment bits.\<close>

definition delivered :: "(u16 \<Rightarrow> bytes) \<Rightarrow> bytes \<Rightarrow> bool" where
  "delivered D full \<longleftrightarrow> drop 34 full = D (frame_ident full)
     \<and> take 2 (drop 16 full) = u16_to_be (of_nat (20 + length (D (frame_ident full))))
     \<and> full ! 20 = 0 \<and> full ! 21 = 0"

lemma frag_of_fields:
  assumes "frag_of frame = Some frag"
  shows "fident frag = frame_ident frame"
    and "flen frag = snd (range_of frame) - fst (range_of frame)"
  using assms by (auto simp: frag_of_def frame_ident_def Let_def split: if_splits prod.splits)

lemma on_complete_delivered:
  assumes inv: "reasm_inv (D i) r" and c: "is_complete r" and h: "frame_ident (saved_hdr r) = i"
  shows "\<exists>full. on_complete r = Some (full, reset_inactive r) \<and> delivered D full \<and> frame_ident full = i"
proof -
  note p = complete_payload [OF inv c]
  have sh: "length (saved_hdr r) = 34" "length (rbuf r) = REASM_MAX" "length (D i) \<le> REASM_MAX"
    using inv by (auto simp: reasm_inv_def reasm_shape_def ETH_HDR_def IP_HDR_def)
  have sl: "sub_slice (rbuf r) 0 (total_len r) = Some (D i)"
    using p(1,2) sh by (simp add: sub_slice_def)
  define w where "w = u16_to_be (of_nat (20 + length (D i)))"
  have wl: "length w = 2" by (simp add: w_def u16_to_be_def u16_to_le_def)
  define full where "full = (blit (saved_hdr r @ D i) 16 w)[20 := 0, 21 := 0, 24 := 0, 25 := 0]"
  have oc: "on_complete r = Some (full, reset_inactive r)"
    using sl p(1) by (simp add: on_complete_def full_def w_def IP_HDR_def Let_def)
  have lf: "length full = 34 + length (D i)" using sh wl by (simp add: full_def)
  have nth: "full ! k = (if k = 20 \<or> k = 21 \<or> k = 24 \<or> k = 25 then 0
                         else if 16 \<le> k \<and> k < 18 then w ! (k - 16) else (saved_hdr r @ D i) ! k)"
    if "k < 34 + length (D i)" for k
    using that sh wl by (auto simp: full_def nth_list_update nth_blit)
  have "frame_ident full = i" using nth [of 18] nth [of 19] sh h by (simp add: frame_ident_def nth_append)
  moreover have "drop 34 full = D i"
    using lf sh by (intro nth_equalityI) (auto simp: nth nth_append)
  moreover have "take 2 (drop 16 full) = w"
    using lf wl by (intro nth_equalityI) (auto simp: nth less_2_cases_iff)
  moreover have "full ! 20 = 0" "full ! 21 = 0" using nth [of 20] nth [of 21] by simp_all
  ultimately show ?thesis using oc by (auto simp: delivered_def w_def)
qed

text \<open>What was received of the datagram in progress; nothing when none is active.\<close>

definition progress :: "u16 \<Rightarrow> reasm \<Rightarrow> nat set" where
  "progress i r = (if active r \<and> ident r = i then covset r else {})"

definition end_seen :: "u16 \<Rightarrow> reasm \<Rightarrow> bool" where
  "end_seen i r \<longleftrightarrow> active r \<and> ident r = i \<and> total_known r"

text \<open>The state in which the Frame system receives the fragment.\<close>

lemma on_fragment_stage:
  assumes J: "run_inv D r" and f: "frag_frame (D i) frame" "frame_ident frame = i"
    and bound: "length (D i) \<le> REASM_MAX"
  obtains frag r0 where "frag_of frame = Some frag"
    "on_fragment frame now r = fsm_fragment frag r0"
    "reasm_inv (D i) r0" "active r0" "ident r0 = i" "frame_ident (saved_hdr r0) = i"
    "rfsm r0 = RIdle \<or> rfsm r0 = Reassembling"
    "covset r0 = progress i r" "total_known r0 = end_seen i r"
    "take (flen frag) (cur_payload r0) = take (flen frag) (drop (offset frag) (D i))"
    "offset frag + flen frag \<le> length (D i)"
    "more_frags frag \<longleftrightarrow> offset frag + flen frag < length (D i)"
    "unat (frags_seen r0) \<le> unat (frags_seen r)"
proof -
  from f(1) obtain frag where frag: "frag_of frame = Some frag"
      "fst (range_of frame) \<le> snd (range_of frame)"
      "sub_slice frame (fst (range_of frame)) (snd (range_of frame))
         = Some (take (flen frag) (drop (offset frag) (D i)))"
      "offset frag + flen frag \<le> length (D i)" "more_frags frag \<longleftrightarrow> offset frag + flen frag < length (D i)"
    by (auto simp: frag_frame_def)
  note fl = frag_of_fields [OF frag(1)]
  define bs where "bs = take (flen frag) (drop (offset frag) (D i))"
  have bl: "length bs = flen frag" using frag(4) by (simp add: bs_def)
  define q where "q = r\<lparr>cur_payload := blit (cur_payload r) 0 bs\<rparr>"
  define r0 where "r0 = (if \<not> active q \<or> ident q \<noteq> i then begun i frame now q else q)"
  have cp: "length (cur_payload r) = REASM_MAX" using J by (simp add: run_inv_def reasm_shape_def)
  have fits: "length bs \<le> length (cur_payload r)" using bl frag(4) bound cp by simp
  have bc: "blit_checked (cur_payload r) 0 bs = Some (blit (cur_payload r) 0 bs)"
    using fits by (simp add: blit_checked_def)
  have "on_fragment frame now r = fsm_fragment frag r0"
  proof -
    obtain ps pe where pr: "range_of frame = (ps, pe)" by (cases "range_of frame")
    have sl: "sub_slice frame ps pe = Some bs" using frag(3) pr by (simp add: bs_def)
    have g: "\<not> REASM_MAX < offset frag + (pe - ps)" using fl(2) pr frag(4) bound by simp
    have id: "fident frag = i" using fl(1) f(2) by simp
    show ?thesis by (simp add: on_fragment_eq [OF frag(1) pr] sl g bc id q_def r0_def)
  qed
  moreover have sh: "reasm_shape q" using J fits by (simp add: run_inv_def reasm_shape_def q_def)
  have cq: "covset q = covset r" "active q = active r" "ident q = ident r"
    by (simp_all add: q_def covset_def)
  have hl: "length (take (ETH_HDR + IP_HDR) frame) = ETH_HDR + IP_HDR"
    using frag_of_len [OF frag(1)] by (simp add: ETH_HDR_def IP_HDR_def)
  have hid: "frame_ident (take (ETH_HDR + IP_HDR) frame) = frame_ident frame"
    by (simp add: frame_ident_def ETH_HDR_def IP_HDR_def)
  have new: "reasm_inv (D i) (begun i frame now q)" "covset (begun i frame now q) = {}"
    using sh hl bound cov_get_empty
    by (auto simp: begun_def reasm_inv_def reasm_shape_def covset_def)
  have old: "reasm_inv (D i) q" if "active r" "ident r = i"
    using J that sh by (auto simp: run_inv_def reasm_inv_def cq q_def covset_def)
  have "reasm_inv (D i) r0" using new(1) old cq by (auto simp: r0_def)
  moreover have "active r0" "ident r0 = i" by (auto simp: r0_def begun_def)
  moreover have "frame_ident (saved_hdr r0) = i"
    using J hid f(2) cq by (auto simp: r0_def begun_def run_inv_def q_def)
  moreover have "rfsm r0 = RIdle \<or> rfsm r0 = Reassembling"
    using J cq by (auto simp: r0_def begun_def run_inv_def q_def)
  moreover have "covset r0 = progress i r" using new(2) cq by (auto simp: r0_def progress_def)
  moreover have "total_known r0 = end_seen i r"
    by (auto simp: r0_def begun_def end_seen_def q_def)
  moreover have "cur_payload r0 = blit (cur_payload r) 0 bs" by (simp add: r0_def begun_def q_def)
  then have "take (flen frag) (cur_payload r0) = bs" using take_blit_0 [OF fits] bl by simp
  moreover have "unat (frags_seen r0) \<le> unat (frags_seen r)" by (simp add: r0_def begun_def q_def)
  ultimately show ?thesis using that [of frag r0] frag(1,4,5) by (simp add: bs_def)
qed

lemma on_fragment_inv:
  assumes J: "run_inv D r" and f: "frag_frame (D i) frame" "frame_ident frame = i"
    and bound: "length (D i) \<le> REASM_MAX" and room: "unat (frags_seen r) + 1 < 2 ^ 32"
  shows "\<exists>d r'. on_fragment frame now r = Some (d, r') \<and> run_inv D r' \<and> unat (frags_seen r') \<le> unat (frags_seen r) + 1
     \<and> (case d of
          Some full \<Rightarrow> delivered D full \<and> frame_ident full = i
        | None \<Rightarrow> active r' \<and> ident r' = i \<and> \<not> is_complete r'
                 \<and> progress i r' = progress i r \<union> frag_bytes frame
                 \<and> (end_seen i r' \<longleftrightarrow> end_seen i r \<or> last_frag frame))"
proof -
  obtain frag r0 where st: "frag_of frame = Some frag"
      "on_fragment frame now r = fsm_fragment frag r0"
      "reasm_inv (D i) r0" "active r0" "ident r0 = i" "frame_ident (saved_hdr r0) = i"
      "rfsm r0 = RIdle \<or> rfsm r0 = Reassembling"
      "covset r0 = progress i r" "total_known r0 = end_seen i r"
      "take (flen frag) (cur_payload r0) = take (flen frag) (drop (offset frag) (D i))"
      "offset frag + flen frag \<le> length (D i)"
      "more_frags frag \<longleftrightarrow> offset frag + flen frag < length (D i)"
      "unat (frags_seen r0) \<le> unat (frags_seen r)"
    using on_fragment_stage [OF J f bound] .
  let ?q = "r0\<lparr>rfsm := Reassembling\<rparr>"
  have q: "reasm_inv (D i) ?q" "covset ?q = covset r0"
    using st(3) by simp_all
  have room0: "unat (frags_seen ?q) + 1 < 2 ^ 32" using room st(13) by simp
  obtain r1 where r1: "store frag ?q = Some r1" "reasm_inv (D i) r1"
      "covset r1 = covset r0 \<union> {offset frag..<offset frag + flen frag}"
      "total_known r1 \<longleftrightarrow> total_known r0 \<or> \<not> more_frags frag"
      "saved_hdr r1 = saved_hdr r0" "rfsm r1 = Reassembling" "active r1" "ident r1 = i"
      "unat (frags_seen r1) \<le> unat (frags_seen r) + 1"
    using store_inv [OF q(1) _ st(11,12) room0] st(4,5,10,13) q(2) by auto
  have e: "on_fragment frame now r = enter_reassembling frag r0"
    using st(2,7) by (auto simp: fsm_fragment_def)
  show ?thesis
  proof (cases "is_complete r1")
    case True
    let ?c = "r1\<lparr>rfsm := RComplete\<rparr>"
    have c: "reasm_inv (D i) ?c" "is_complete ?c" "frame_ident (saved_hdr ?c) = i"
      using r1 True st(6) by simp_all
    obtain full where full: "on_complete ?c = Some (full, reset_inactive ?c)" "delivered D full" "frame_ident full = i"
      using on_complete_delivered [of D i, OF c] by blast
    have "on_fragment frame now r = Some (Some full, reset_inactive ?c)"
      using e r1(1) True full(1) by (simp add: enter_reassembling_def)
    moreover have "run_inv D (reset_inactive ?c)"
      using c(1) by (simp add: run_inv_def reset_inactive_def reasm_inv_def reasm_shape_def)
    ultimately show ?thesis using full(2,3) r1(9) by (auto simp: reset_inactive_def)
  next
    case False
    have "on_fragment frame now r = Some (None, r1)"
      using e r1(1) False by (simp add: enter_reassembling_def)
    moreover have "run_inv D r1" using r1 st(6) False by (simp add: run_inv_def reasm_inv_def)
    ultimately show ?thesis
      using r1 False st(1,8,9)
      by (auto simp: progress_def end_seen_def frag_bytes_def last_frag_def)
  qed
qed

lemma drain_timer_inv: "run_inv D r \<Longrightarrow> run_inv D (drain_timer now r)"
  by (auto simp: drain_timer_def fsm_timeout_def on_expired_def reset_inactive_def run_inv_def reasm_shape_def
      split: reasm_state.split)

lemma drain_timer_seen [simp]: "frags_seen (drain_timer now r) = frags_seen r"
  by (simp add: drain_timer_def fsm_timeout_def on_expired_def reset_inactive_def split: reasm_state.split)

lemma reasm_run_sound:
  assumes "run_inv D r" and "list_all (event_ok D) es" and "\<And>i. length (D i) \<le> REASM_MAX"
    and "unat (frags_seen r) + length es < 2 ^ 32"
  shows "\<exists>ds r'. reasm_run es r = Some (ds, r') \<and> run_inv D r' \<and> list_all (delivered D) ds
     \<and> unat (frags_seen r') \<le> unat (frags_seen r) + length es"
  using assms(1,2,4)
proof (induction es arbitrary: r)
  case (Cons e es)
  show ?case
  proof (cases e)
    case (Tick now)
    then show ?thesis using Cons.IH [OF drain_timer_inv [OF Cons.prems(1)], of now] Cons.prems(2,3) by fastforce
  next
    case (RxFragment frame now)
    have "\<exists>d r1. on_fragment frame now r = Some (d, r1) \<and> run_inv D r1
        \<and> (\<forall>full. d = Some full \<longrightarrow> delivered D full) \<and> unat (frags_seen r1) \<le> unat (frags_seen r) + 1"
    proof (cases "frag_of frame")
      case None
      then show ?thesis using Cons.prems(1) by (simp add: on_fragment_None)
    next
      case (Some frag)
      then have "frag_frame (D (frame_ident frame)) frame" using Cons.prems(2) RxFragment by simp
      from on_fragment_inv [OF Cons.prems(1) this refl assms(3), of now] Cons.prems(3) show ?thesis
        by (auto split: option.splits)
    qed
    then obtain d r1 where d: "on_fragment frame now r = Some (d, r1)" "run_inv D r1"
        "\<forall>full. d = Some full \<longrightarrow> delivered D full" "unat (frags_seen r1) \<le> unat (frags_seen r) + 1" by blast
    obtain ds r2 where "reasm_run es r1 = Some (ds, r2)" "run_inv D r2" "list_all (delivered D) ds"
        "unat (frags_seen r2) \<le> unat (frags_seen r1) + length es"
      using Cons.IH [OF d(2)] Cons.prems(2,3) d(4) by auto
    with d RxFragment show ?thesis by (cases d) auto
  qed
qed simp

lemma reasm_run_complete:
  assumes "run_inv D r"
    and "\<forall>(frame, now) \<in> set fs. frag_frame (D i) frame \<and> frame_ident frame = i"
    and "progress i r \<union> (\<Union>(frame, now) \<in> set fs. frag_bytes frame) = {..<length (D i)}"
    and "end_seen i r \<or> (\<exists>(frame, now) \<in> set fs. last_frag frame)"
    and "unat (frags_seen r) + length fs < 2 ^ 32"
    and bound: "\<And>j. length (D j) \<le> REASM_MAX"
  shows "\<exists>ds r'. reasm_run (map (\<lambda>(frame, now). RxFragment frame now) fs) r = Some (ds, r')
     \<and> (\<exists>full \<in> set ds. delivered D full \<and> frame_ident full = i)"
  using assms(1-5)
proof (induction fs arbitrary: r)
  case Nil
  then have e: "active r" "ident r = i" "total_known r" "covset r = {..<length (D i)}"
    by (auto simp: end_seen_def progress_def)
  with Nil.prems(1) have "reasm_inv (D i) r" "\<not> is_complete r" by (simp_all add: run_inv_def)
  from full_coverage_complete [OF this(1) e(3,4)] this(2) show ?case by simp
next
  case (Cons f fs)
  obtain frame now where f: "f = (frame, now)" by (cases f)
  have fr: "frag_frame (D i) frame" "frame_ident frame = i" using Cons.prems(2) f by auto
  have rm: "unat (frags_seen r) + 1 < 2 ^ 32" using Cons.prems(5) by simp
  obtain d r1 where d: "on_fragment frame now r = Some (d, r1)" "run_inv D r1"
      "unat (frags_seen r1) \<le> unat (frags_seen r) + 1"
      "case d of Some full \<Rightarrow> delivered D full \<and> frame_ident full = i
        | None \<Rightarrow> active r1 \<and> ident r1 = i \<and> \<not> is_complete r1
                 \<and> progress i r1 = progress i r \<union> frag_bytes frame
                 \<and> (end_seen i r1 \<longleftrightarrow> end_seen i r \<or> last_frag frame)"
    using on_fragment_inv [OF Cons.prems(1) fr bound rm, of now] by blast
  have rm1: "unat (frags_seen r1) + length fs < 2 ^ 32" using d(3) Cons.prems(5) by simp
  show ?case
  proof (cases d)
    case None
    have "\<exists>ds r'. reasm_run (map (\<lambda>(frame, now). RxFragment frame now) fs) r1 = Some (ds, r')
        \<and> (\<exists>full \<in> set ds. delivered D full \<and> frame_ident full = i)"
      using d None Cons.prems(2-4) f rm1 by (intro Cons.IH) auto
    with d(1) None f show ?thesis by auto
  next
    case (Some full)
    have ok: "list_all (event_ok D) (map (\<lambda>(frame, now). RxFragment frame now) fs)"
      using Cons.prems(2) by (auto simp: list_all_iff)
    from reasm_run_sound [OF d(2) ok bound] rm1 obtain ds r' where
      "reasm_run (map (\<lambda>(frame, now). RxFragment frame now) fs) r1 = Some (ds, r')" by auto
    with d Some f show ?thesis by auto
  qed
qed

section \<open>Properties\<close>

lemma REASM_init_inv: "run_inv D REASM_init"
  by (simp add: run_inv_def REASM_init_def reasm_shape_def)

text \<open>
  C21: reassembly is sound under any interleaving. Whatever the order, duplication and loss of
  fragments of any number of datagrams (of at most 8 KiB each), with timeouts anywhere, the
  receiver does not panic (within fewer than 2^32 events, the range of its fragment counter), and
  every datagram it delivers has exactly the payload that was sent under its identification,
  with its length field set and its fragment bits cleared.
\<close>

theorem reassembly_sound:
  assumes "list_all (event_ok D) es" and "\<And>i. length (D i) \<le> REASM_MAX" and "length es < 2 ^ 32"
  shows "\<exists>ds r'. reasm_run es REASM_init = Some (ds, r')
     \<and> list_all (\<lambda>full. drop 34 full = D (frame_ident full)
          \<and> take 2 (drop 16 full) = u16_to_be (of_nat (20 + length (D (frame_ident full))))
          \<and> full ! 20 = 0 \<and> full ! 21 = 0) ds"
proof -
  have "unat (frags_seen REASM_init) + length es < 2 ^ 32" using assms(3) by (simp add: REASM_init_def)
  from reasm_run_sound [OF REASM_init_inv assms(1,2) this] show ?thesis
    by (auto simp: delivered_def list_all_iff)
qed


text \<open>A two-fragment datagram, for the witnesses: 8 bytes and then 4, identification 7.\<close>

definition demo_frag :: "u8 \<Rightarrow> u8 \<Rightarrow> u8 \<Rightarrow> bytes \<Rightarrow> bytes" where
  "demo_frag totlen flags off body =
     [0, 0, 0, 0, 0, 0, 0, 0, 0, 0, 0, 0, 0x08, 0x00, 0x45, 0, 0, totlen, 0, 7, flags, off,
      0, 0, 0, 0, 0, 0, 0, 0, 0, 0, 0, 0] @ body"

lemma demo_frags:
  "frag_of (demo_frag 28 0x20 0 [1, 2, 3, 4, 5, 6, 7, 8])
     = Some \<lparr>offset = 0, flen = 8, more_frags = True, fident = 7\<rparr>"
  "frag_of (demo_frag 24 0 1 [9, 10, 11, 12])
     = Some \<lparr>offset = 8, flen = 4, more_frags = False, fident = 7\<rparr>"
  "range_of (demo_frag 28 0x20 0 [1, 2, 3, 4, 5, 6, 7, 8]) = (34, 42)"
  "range_of (demo_frag 24 0 1 [9, 10, 11, 12]) = (34, 38)"
  "frame_ident (demo_frag t fl off body) = 7"
  by (simp_all add: demo_frag_def frag_of_def range_of_def ETH_HDR_def IP_HDR_def
      u16_from_be_def u16_from_le_def frame_ident_def)

definition demo_payload :: bytes where
  "demo_payload = [1, 2, 3, 4, 5, 6, 7, 8, 9, 10, 11, 12]"

definition demo_first :: bytes where "demo_first = demo_frag 28 0x20 0 [1, 2, 3, 4, 5, 6, 7, 8]"
definition demo_last :: bytes where "demo_last = demo_frag 24 0 1 [9, 10, 11, 12]"

lemma demo_frag_frames: "frag_frame demo_payload demo_first" "frag_frame demo_payload demo_last"
proof -
  have "sub_slice demo_first 34 42 = Some (take 8 (drop 0 demo_payload))"
    "sub_slice demo_last 34 38 = Some (take 4 (drop 8 demo_payload))"
    by (simp_all add: sub_slice_def demo_first_def demo_last_def demo_frag_def demo_payload_def)
  moreover have "length demo_payload = 12" by (simp add: demo_payload_def)
  ultimately show "frag_frame demo_payload demo_first" "frag_frame demo_payload demo_last"
    by (simp_all add: frag_frame_def demo_first_def demo_last_def demo_frags)
qed

lemma demo_bytes:
  "frag_bytes demo_first = {0..<8}" "frag_bytes demo_last = {8..<12}" "last_frag demo_last"
  by (simp_all add: frag_bytes_def last_frag_def demo_first_def demo_last_def demo_frags)

lemma demo_len: "length demo_payload = 12" "12 \<le> REASM_MAX"
  by (simp_all add: demo_payload_def REASM_MAX_def)

theorem reassembly_sound_witness:
  "\<exists>ds r'. reasm_run [RxFragment demo_last 0, RxFragment demo_first 1, Tick 200] REASM_init = Some (ds, r')
     \<and> list_all (\<lambda>full. drop 34 full = (\<lambda>_. demo_payload) (frame_ident full)
          \<and> take 2 (drop 16 full) = u16_to_be (of_nat (20 + length ((\<lambda>_. demo_payload) (frame_ident full))))
          \<and> full ! 20 = 0 \<and> full ! 21 = 0) ds"
  by (rule reassembly_sound) (simp_all add: demo_frag_frames demo_len)


text \<open>
  The completion guard counts bytes past the end of the datagram. A final fragment that
  ends at byte 16, followed by a stray fragment beyond it, completes the datagram although
  its first eight bytes never arrived, and stale buffer content is delivered in their place.
\<close>

theorem reassembly_hole:
  "\<exists>f1 f2 r1 r2 full. fsm_fragment f1 (begun 7 (demo_frag 0 0 0 []) now REASM_init) = Some (None, r1)
     \<and> fsm_fragment f2 r1 = Some (Some full, r2)
     \<and> total_len r2 = 16 \<and> filter (cov_get (coverage r2)) [0..<8] = []"
proof -
  define f1 where "f1 = \<lparr>offset = 8, flen = 8, more_frags = False, fident = 7\<rparr>"
  define f2 where "f2 = \<lparr>offset = 16, flen = 8, more_frags = True, fident = 7\<rparr>"
  define r where "r = (begun 7 (demo_frag 0 0 0 []) now REASM_init)\<lparr>rfsm := Reassembling\<rparr>"
  have r: "reasm_shape r" "covset r = {}" "covered r = 0" "cur_payload r = replicate REASM_MAX 0"
      "\<not> total_known r"
    using cov_get_empty
    by (auto simp: r_def begun_def REASM_init_def reasm_shape_def covset_def demo_frag_def
        ETH_HDR_def IP_HDR_def)
  define z where "z = replicate 8 (0 :: u8)"
  have sl: "sub_slice (replicate REASM_MAX 0) 0 8 = Some z"
    by (simp add: sub_slice_def z_def REASM_MAX_def)
  define q where "q = store_loop z 8 r"
  have q: "reasm_shape q" "covset q = {8..<16}" "covered q = 8" "cur_payload q = replicate REASM_MAX 0"
    using store_loop_spec [OF r(1), of 8 z] r
    by (auto simp: q_def z_def REASM_MAX_def store_loop_keeps)
  define r1 where "r1 = q\<lparr>total_known := True, total_len := 16, frags_seen := 1\<rparr>"
  have fq: "frags_seen q = 0" by (simp add: q_def store_loop_keeps r_def begun_def)
  have s1: "store f1 r = Some r1"
    by (simp add: store_def f1_def r(4) sl q_def [symmetric] r1_def Let_def fq checked_inc_def)
  have r1: "reasm_shape r1" "covset r1 = {8..<16}" "covered r1 = 8" "cur_payload r1 = replicate REASM_MAX 0"
      "rfsm r1 = Reassembling" "r1\<lparr>rfsm := Reassembling\<rparr> = r1" "\<not> is_complete r1"
    using q by (simp_all add: r1_def reasm_shape_def covset_def is_complete_def)
      (simp_all add: q_def store_loop_keeps r_def)
  define p where "p = store_loop z 16 r1"
  have un: "{8..<16} \<union> {16..<24} = {8..<24 :: nat}" by auto
  have p: "reasm_shape p" "covset p = {8..<24}" "covered p = 16" "total_known p" "total_len p = 16"
    using store_loop_spec [OF r1(1), of 16 z] r1(2,3) un
    by (simp_all add: p_def z_def REASM_MAX_def store_loop_keeps) (simp_all add: r1_def)
  define r2 where "r2 = p\<lparr>frags_seen := 2, rfsm := RComplete\<rparr>"
  have fp: "frags_seen p = 1" by (simp add: p_def store_loop_keeps r1_def)
  have s2: "store f2 r1 = Some (p\<lparr>frags_seen := 2\<rparr>)"
    by (simp add: store_def f2_def r1(4) sl p_def [symmetric] Let_def fp checked_inc_def)
  have "fsm_fragment f1 (begun 7 (demo_frag 0 0 0 []) now REASM_init) = Some (None, r1)"
    using s1 r1(7)
    by (simp add: fsm_fragment_def r_def) (simp add: begun_def enter_reassembling_def)
  moreover obtain full where "fsm_fragment f2 r1 = Some (Some full, reset_inactive r2)"
  proof -
    have "is_complete (p\<lparr>frags_seen := 2\<rparr>)" using p by (simp add: is_complete_def)
    moreover have "total_len r2 \<le> length (rbuf r2)" using p by (simp add: r2_def reasm_shape_def REASM_MAX_def)
    ultimately show ?thesis
      using that r1(5,6) s2
      by (simp add: fsm_fragment_def enter_reassembling_def on_complete_def sub_slice_def r2_def Let_def)
  qed
  moreover have "filter (cov_get (coverage r2)) [0..<8] = []"
  proof -
    have "\<not> cov_get (coverage r2) i" if "i < 8" for i
    proof -
      have "i \<notin> covset p" "i < REASM_MAX" using p(2) that by (simp_all add: REASM_MAX_def)
      then show ?thesis by (simp add: covset_def r2_def)
    qed
    then show ?thesis by (metis (no_types) filter_empty_conv atLeastLessThan_iff set_upt)
  qed
  moreover have "total_len (reset_inactive r2) = 16" "coverage (reset_inactive r2) = coverage r2"
    using p(5) by (simp_all add: r2_def reset_inactive_def)
  ultimately show ?thesis by metis
qed

text \<open>
  A fragment whose header length exceeds its total length panics the receiver: the slice
  of its payload starts after it ends.
\<close>

theorem fragment_header_panic:
  "on_fragment [0, 0, 0, 0, 0, 0, 0, 0, 0, 0, 0, 0, 0x08, 0x00, 0x4F, 0, 0, 20, 0, 7, 0x20, 0,
      0, 0, 0, 0, 0, 0, 0, 0, 0, 0, 0, 0] now r = None"
  by (simp add: on_fragment_def parse_fragment_eq payload_range_Some frag_of_def range_of_def sub_slice_def
      ETH_HDR_def IP_HDR_def REASM_MAX_def u16_from_be_def u16_from_le_def)

end
