(* ===== verification/Checksum.thy ===== *)
theory Checksum
  imports Prelude
begin

text \<open>
  The Internet checksum of \<open>kernel/src/net.rs\<close> (RFC 1071), and the pseudo-header sum of
  \<open>kernel/src/tcp.rs\<close> that shares its folding loop. The 32-bit accumulator wraps in the model;
  the lemmas bound the input so that it does not.
\<close>

fun sum_words :: "bytes \<Rightarrow> u32 \<Rightarrow> u32" where
  "sum_words (a # b # rest) s = sum_words rest (s + ucast (u16_from_be a b))"
| "sum_words [a] s = s + push_bit 8 (ucast a)"
| "sum_words [] s = s"

text \<open>The folding loop: \<open>while (sum >> 16) != 0\<close>.\<close>

lemma fold_step_unat:
  fixes s :: u32
  shows "unat ((s AND 0xFFFF) + drop_bit 16 s) = unat s mod 65536 + unat s div 65536"
proof -
  have a: "unat (s AND 0xFFFF) = unat s mod 65536"
  proof -
    have "s AND 0xFFFF = take_bit 16 s" by (simp add: take_bit_eq_mask mask_eq_exp_minus_1)
    then show ?thesis by (simp add: take_bit_eq_mod unat_mod_distrib)
  qed
  have d: "unat (drop_bit 16 s) = unat s div 65536"
    by (simp add: drop_bit_eq_div unat_div_distrib)
  have "unat s < 2 ^ 32" using unat_lt2p [of s] by simp
  then have "unat s div 65536 < 65536" by (simp add: less_mult_imp_div_less)
  moreover have "unat s mod 65536 < 65536" by simp
  ultimately have "unat s mod 65536 + unat s div 65536 < 2 ^ 32" by simp
  then show ?thesis by (subst unat_add_no_ovf) (simp_all add: a d)
qed

lemma fold_step_less:
  fixes s :: u32
  assumes "drop_bit 16 s \<noteq> 0"
  shows "unat ((s AND 0xFFFF) + drop_bit 16 s) < unat s"
proof -
  have "unat (drop_bit 16 s) \<noteq> 0" using assms by (simp add: unat_0_iff)
  then have pos: "0 < unat s div 65536" by (simp add: drop_bit_eq_div unat_div_distrib)
  have "unat s = 65536 * (unat s div 65536) + unat s mod 65536" by simp
  then show ?thesis using pos unfolding fold_step_unat by linarith
qed

function fold_carries :: "u32 \<Rightarrow> u32" where
  "fold_carries s =
     (if drop_bit 16 s \<noteq> 0 then fold_carries ((s AND 0xFFFF) + drop_bit 16 s) else s)"
  by pat_completeness auto
termination
  by (relation "measure unat") (auto simp: fold_step_less)

declare fold_carries.simps [simp del]

definition checksum :: "bytes \<Rightarrow> u16" where
  "checksum data = NOT (ucast (fold_carries (sum_words data 0)))"

section \<open>Reference: one's-complement sums over natural numbers\<close>

fun nat_sum :: "bytes \<Rightarrow> nat" where
  "nat_sum (a # b # rest) = unat a * 256 + unat b + nat_sum rest"
| "nat_sum [a] = unat a * 256"
| "nat_sum [] = 0"

definition fold16 :: "nat \<Rightarrow> nat" where
  "fold16 n = (if n = 0 then 0 else (n - 1) mod 65535 + 1)"

lemma unat_u8_lt: "unat (a :: u8) < 256"
  using unat_lt2p [of a] by simp

lemma unat_from_be: "unat (ucast (u16_from_be a b) :: u32) = unat a * 256 + unat b"
proof -
  have lt: "unat a * 256 + unat b < 65536" using unat_u8_lt [of a] unat_u8_lt [of b] by linarith
  have "unat (u16_from_be a b) = unat a * 256 + unat b"
  proof -
    have "u16_from_be a b = ucast b + push_bit 8 (ucast a)"
      unfolding u16_from_be_def u16_from_le_def
      by (subst disjunctive_add) (auto simp: bit_simps dest: bit_imp_le_length)
    also have "\<dots> = of_nat (unat a * 256 + unat b)" by (simp add: push_bit_eq_mult)
    finally have "u16_from_be a b = of_nat (unat a * 256 + unat b)" .
    then show ?thesis using lt by (simp only: unat_of_nat) (simp add: take_bit_nat_eq_self)
  qed
  then show ?thesis using lt by (simp add: unsigned_ucast_eq take_bit_nat_eq_self)
qed

lemma fold16_step: "65536 \<le> n \<Longrightarrow> fold16 (n mod 65536 + n div 65536) = fold16 n"
proof -
  assume n: "65536 \<le> n"
  let ?m = "n mod 65536 + n div 65536"
  have e: "n = ?m + 65535 * (n div 65536)" by (simp add: algebra_simps)
  have pos: "0 < n div 65536" using n by (simp add: div_greater_zero_iff)
  then have "n - 1 = (?m - 1) + 65535 * (n div 65536)" using e by linarith
  then have "(n - 1) mod 65535 = (?m - 1) mod 65535" by (metis mod_mult_self2)
  then show ?thesis using pos n by (auto simp: fold16_def)
qed

lemma fold16_small: "n < 65536 \<Longrightarrow> fold16 n = n"
  by (auto simp: fold16_def)

lemma fold16_lt: "fold16 n < 65536"
proof -
  have "(n - 1) mod 65535 < 65535" by simp
  then show ?thesis by (simp add: fold16_def)
qed

lemma unat_drop_16: "drop_bit 16 s = (0 :: u32) \<longleftrightarrow> unat s div 65536 = 0"
proof -
  have "drop_bit 16 s = 0 \<longleftrightarrow> unat (drop_bit 16 s) = 0" by (simp add: unat_0_iff)
  also have "unat (drop_bit 16 s) = unat s div 65536" by (simp add: drop_bit_eq_div unat_div_distrib)
  finally show ?thesis .
qed

lemma fold_carries_unat: "unat (fold_carries s) = fold16 (unat s)"
proof (induction s rule: fold_carries.induct)
  case (1 s)
  show ?case
  proof (cases "drop_bit 16 s \<noteq> 0")
    case True
    then have "unat s div 65536 \<noteq> 0" by (simp add: unat_drop_16)
    then have "65536 \<le> unat s" by (metis div_less not_le)
    with 1 [OF True] True show ?thesis
      by (subst fold_carries.simps) (simp add: fold_step_unat fold16_step)
  next
    case False
    then have "unat s div 65536 = 0" by (simp add: unat_drop_16)
    then have "unat s < 65536" by (simp add: div_eq_0_iff)
    with False show ?thesis by (subst fold_carries.simps) (simp add: fold16_small)
  qed
qed

lemma nat_sum_le: "nat_sum data \<le> 65535 * (length data + 1)"
proof (induction data rule: nat_sum.induct)
  case (1 a b rest)
  then show ?case using unat_u8_lt [of a] unat_u8_lt [of b] by simp
next
  case (2 a)
  then show ?case using unat_u8_lt [of a] by simp
qed simp

text \<open>The 32-bit accumulator computes the exact sum for any frame (up to 64 KiB).\<close>

lemma sum_words_unat:
  assumes "unat s + nat_sum data < 2 ^ 32"
  shows "unat (sum_words data s) = unat s + nat_sum data"
  using assms
proof (induction data s rule: sum_words.induct)
  case (1 a b rest s)
  have "unat (s + ucast (u16_from_be a b)) = unat s + (unat a * 256 + unat b)"
    using 1(2) by (subst unat_add_no_ovf) (simp_all add: unat_from_be)
  then show ?case using 1 by simp
next
  case (2 a s)
  have "unat (push_bit 8 (ucast a) :: u32) = unat a * 256"
  proof -
    have "push_bit 8 (ucast a) = (of_nat (unat a * 256) :: u32)" by (simp add: push_bit_eq_mult)
    then show ?thesis using unat_u8_lt [of a] by (simp only: unat_of_nat) (simp add: take_bit_nat_eq_self)
  qed
  then show ?case using 2 by (simp add: unat_add_no_ovf)
qed simp

definition csum_len_ok :: "bytes \<Rightarrow> bool" where
  "csum_len_ok data \<longleftrightarrow> length data < 65536"

lemma checksum_unat:
  assumes "csum_len_ok data"
  shows "unat (checksum data) = 65535 - fold16 (nat_sum data)"
proof -
  have "nat_sum data \<le> 65535 * 65536" using nat_sum_le [of data] assms by (auto simp: csum_len_ok_def)
  then have s: "unat (sum_words data 0) = nat_sum data" by (subst sum_words_unat) simp_all
  let ?f = "fold_carries (sum_words data 0)"
  have f: "unat ?f = fold16 (nat_sum data)" by (simp add: fold_carries_unat s)
  then have u: "unat (ucast ?f :: u16) = fold16 (nat_sum data)"
    using fold16_lt [of "nat_sum data"] by (simp add: unsigned_ucast_eq take_bit_nat_eq_self)
  have "NOT (ucast ?f :: u16) = 0xFFFF - ucast ?f" by (simp add: not_eq_complement)
  moreover have "unat (0xFFFF - (ucast ?f :: u16)) = unat (0xFFFF :: u16) - unat (ucast ?f :: u16)"
    using fold16_lt [of "nat_sum data"] by (intro unat_sub) (simp add: word_le_nat_alt u)
  ultimately show ?thesis by (simp add: checksum_def u)
qed

section \<open>A stored checksum verifies\<close>

lemma nat_sum_append: "even (length pre) \<Longrightarrow> nat_sum (pre @ rest) = nat_sum pre + nat_sum rest"
  by (induction pre rule: nat_sum.induct) auto

lemma nat_sum_be: "nat_sum (u16_to_be c @ rest) = unat c + nat_sum rest"
proof -
  have e: "u16_to_be c = [u16_to_be c ! 0, u16_to_be c ! 1]"
    by (simp add: u16_to_be_def u16_to_le_def)
  have "unat (u16_to_be c ! 0) * 256 + unat (u16_to_be c ! 1) = unat (ucast c :: u32)"
    using unat_from_be [of "u16_to_be c ! 0" "u16_to_be c ! 1"] by (simp only: u16_be_roundtrip)
  also have "\<dots> = unat c"
    using unat_lt2p [of c] by (simp add: unsigned_ucast_eq take_bit_nat_eq_self)
  finally show ?thesis by (subst e) simp
qed

lemma fold16_complement: "fold16 (n + (65535 - fold16 n)) = 65535"
proof (cases "n = 0")
  case False
  obtain q r where n: "n = 65535 * q + r + 1" "r < 65535" "fold16 n = r + 1"
  proof
    show "n = 65535 * ((n - 1) div 65535) + (n - 1) mod 65535 + 1"
      using False mult_div_mod_eq [of 65535 "n - 1"] by linarith
    show "fold16 n = (n - 1) mod 65535 + 1" using False by (simp add: fold16_def)
  qed simp
  then have "n + (65535 - fold16 n) = Suc (65534 + 65535 * q)" by simp
  moreover have "(65534 + 65535 * q) mod 65535 = 65534 mod 65535" by (rule mod_mult_self2)
  ultimately show ?thesis by (simp add: fold16_def)
qed (simp add: fold16_def)

lemma checksum_stored:
  assumes "even (length pre)" and "csum_len_ok (pre @ [0, 0] @ post)"
  shows "checksum (pre @ u16_to_be (checksum (pre @ [0, 0] @ post)) @ post) = 0"
proof -
  let ?d = "pre @ [0, 0] @ post"
  let ?c = "checksum ?d"
  have z: "nat_sum ([0, 0] @ post) = nat_sum post" by simp
  have n: "nat_sum (pre @ u16_to_be ?c @ post) = nat_sum ?d + (65535 - fold16 (nat_sum ?d))"
    using checksum_unat [OF assms(2)] z
    by (simp only: nat_sum_append [OF assms(1)] nat_sum_be)
  have "csum_len_ok (pre @ u16_to_be ?c @ post)"
    using assms(2) by (simp add: csum_len_ok_def u16_to_be_def u16_to_le_def)
  from checksum_unat [OF this] have "unat (checksum (pre @ u16_to_be ?c @ post)) = 0"
    unfolding n fold16_complement by simp
  then show ?thesis by (simp only: unat_0_iff)
qed

text \<open>
  A checksum written into its zeroed field verifies. For a header or message whose
  checksum field starts at an even offset, the checksum of the whole message with the
  computed value stored in the field is zero, which is what a receiver tests; the 32-bit
  accumulator does not overflow for any message below 64 KiB.
\<close>

theorem checksum_verifies:
  assumes "even (length pre)" and "length (pre @ [0, 0] @ post) < 65536"
  shows "checksum (pre @ u16_to_be (checksum (pre @ [0, 0] @ post)) @ post) = 0"
  using checksum_stored assms by (simp add: csum_len_ok_def)

theorem checksum_verifies_witness:
  "checksum ([0x45, 0x00] @ u16_to_be (checksum ([0x45, 0x00] @ [0, 0] @ [0x0a, 0x0f, 0x7f]))
     @ [0x0a, 0x0f, 0x7f]) = 0"
  by (rule checksum_verifies) simp_all

end
