(* ===== verification/Tcp.thy ===== *)
theory Tcp
  imports Checksum
begin

text \<open>
  TCP: the \<open>TcpConnection\<close> Frame system (\<open>frame/tcp_connection.frs\<close>) and its native half
  \<open>kernel/src/tcp.rs\<close>, with the connection table, the segment codec, the timers and the
  demultiplexer. The statics are one record; the frames handed to \<open>virtio_net::tx_frame\<close>
  are collected in \<open>tx\<close>; \<open>now\<close> is the tick counter. Reads of a received frame are checked,
  and so is the addition to the 32-bit echo counter: \<open>None\<close> is a panic.
\<close>

record tcp_segment =
  src_port :: u16
  dst_port :: u16
  seq :: u32
  ack_num :: u32
  syn :: bool
  ack :: bool
  fin :: bool
  rst :: bool
  window :: u16
  payload_off :: nat
  payload_len :: nat

definition TcpSegment_default :: tcp_segment where
  "TcpSegment_default = \<lparr>src_port = 0, dst_port = 0, seq = 0, ack_num = 0, syn = False, ack = False,
     fin = False, rst = False, window = 0, payload_off = 0, payload_len = 0\<rparr>"

definition F_FIN :: u8 where "F_FIN = 0x01"
definition F_SYN :: u8 where "F_SYN = 0x02"
definition F_RST :: u8 where "F_RST = 0x04"
definition F_ACK :: u8 where "F_ACK = 0x10"
definition LOCAL_IP :: bytes where "LOCAL_IP = [10, 0, 2, 15]"
definition RCV_WINDOW :: u16 where "RCV_WINDOW = 4096"
definition INITIAL_SND :: u32 where "INITIAL_SND = 0x1000"
definition RETRANSMIT_TICKS :: nat where "RETRANSMIT_TICKS = 100"
definition TIMEWAIT_TICKS :: nat where "TIMEWAIT_TICKS = 25"
definition MAX_PAYLOAD :: nat where "MAX_PAYLOAD = 512"
definition SERVER_SLOTS :: nat where "SERVER_SLOTS = 4"
definition CLIENT_SLOT :: nat where "CLIENT_SLOT = SERVER_SLOTS"
definition MAX_CONN :: nat where "MAX_CONN = SERVER_SLOTS + 1"
definition BASE_PORT :: u16 where "BASE_PORT = 7"

datatype tcp_state =
    TClosed | TListen | SynSent | SynReceived | Established | FinWait1 | FinWait2 | Closing
  | TimeWait | CloseWait | LastAck

text \<open>An FSM slot that is still \<open>None\<close> is created in \<open>$Closed\<close> on its first use.\<close>

record conn =
  tfsm :: tcp_state
  in_use :: bool
  listening :: bool
  local_port :: u16
  peer_mac :: bytes
  peer_ip :: bytes
  peer_port :: u16
  snd_nxt :: u32
  rcv_nxt :: u32
  retransmit_at :: nat
  timewait_at :: nat
  last_payload :: bytes
  last_payload_len :: nat
  echoes :: u32

definition CONN_INIT :: conn where
  "CONN_INIT = \<lparr>tfsm = TClosed, in_use = False, listening = False, local_port = 0,
     peer_mac = replicate 6 0, peer_ip = replicate 4 0, peer_port = 0, snd_nxt = INITIAL_SND,
     rcv_nxt = 0, retransmit_at = 0, timewait_at = 0, last_payload = replicate MAX_PAYLOAD 0,
     last_payload_len = 0, echoes = 0\<rparr>"

record tcp =
  conns :: "conn list"
  current :: nat
  saw_tcp :: bool
  nic_mac :: bytes
  tx :: "bytes list"

definition TCP_init :: "bytes \<Rightarrow> tcp" where
  "TCP_init mac = \<lparr>conns = replicate MAX_CONN CONN_INIT, current = 0, saw_tcp = False,
     nic_mac = mac, tx = []\<rparr>"

definition cur :: "tcp \<Rightarrow> conn" where
  "cur t = conns t ! current t"

definition set_current :: "nat \<Rightarrow> tcp \<Rightarrow> tcp" where
  "set_current i t = t\<lparr>current := i\<rparr>"

definition upd_slot :: "nat \<Rightarrow> (conn \<Rightarrow> conn) \<Rightarrow> tcp \<Rightarrow> tcp" where
  "upd_slot i f t = t\<lparr>conns := (conns t)[i := f (conns t ! i)]\<rparr>"

definition upd_cur :: "(conn \<Rightarrow> conn) \<Rightarrow> tcp \<Rightarrow> tcp" where
  "upd_cur f t = upd_slot (current t) f t"

section \<open>The segment codec\<close>

definition be16 :: "bytes \<Rightarrow> nat \<Rightarrow> u16 option" where
  "be16 b i = do { b0 \<leftarrow> index b i; b1 \<leftarrow> index b (i + 1); Some (u16_from_be b0 b1) }"

definition be32 :: "bytes \<Rightarrow> nat \<Rightarrow> u32 option" where
  "be32 b i =
     do { b0 \<leftarrow> index b i; b1 \<leftarrow> index b (i + 1); b2 \<leftarrow> index b (i + 2); b3 \<leftarrow> index b (i + 3);
          Some (u32_from_be b0 b1 b2 b3) }"

definition sum16 :: "bytes \<Rightarrow> u32 \<Rightarrow> u16" where
  "sum16 data s = NOT (ucast (fold_carries (sum_words data s)))"

definition tcp_parse :: "bytes \<Rightarrow> tcp_segment option" where
  "tcp_parse frame =
     (if length frame < 14 + 20 then Some TcpSegment_default
      else do {
        v \<leftarrow> index frame 14;
        let ihl = unat (v AND 0x0F) * 4; t = 14 + ihl
        in if length frame < t + 20 then Some TcpSegment_default
           else do {
             d \<leftarrow> index frame (t + 12);
             flags \<leftarrow> index frame (t + 13);
             sp \<leftarrow> be16 frame t; dp \<leftarrow> be16 frame (t + 2);
             sq \<leftarrow> be32 frame (t + 4); an \<leftarrow> be32 frame (t + 8);
             win \<leftarrow> be16 frame (t + 14);
             let data_off = unat (drop_bit 4 d AND 0x0F) * 4
             in Some \<lparr>src_port = sp, dst_port = dp, seq = sq, ack_num = an,
                  syn = (flags AND F_SYN \<noteq> 0), ack = (flags AND F_ACK \<noteq> 0),
                  fin = (flags AND F_FIN \<noteq> 0), rst = (flags AND F_RST \<noteq> 0), window = win,
                  payload_off = t + data_off, payload_len = length frame - (t + data_off)\<rparr> } })"

text \<open>
  The frame \<open>send\<close> builds, field by field in the order of the wire: each header with its
  checksum field zero, and then with the checksum stored in it.
\<close>

definition ip_header0 :: "conn \<Rightarrow> nat \<Rightarrow> bytes" where
  "ip_header0 c tcp_len =
     [0x45, 0] @ u16_to_be (of_nat (20 + tcp_len)) @ [0, 0, 0, 0] @ [64, 6] @ [0, 0] @ LOCAL_IP @ peer_ip c"

definition ip_header :: "conn \<Rightarrow> nat \<Rightarrow> bytes" where
  "ip_header c tcp_len =
     (let h = ip_header0 c tcp_len in take 10 h @ u16_to_be (sum16 h 0) @ drop 12 h)"

definition tcp_header0 :: "conn \<Rightarrow> u8 \<Rightarrow> bytes" where
  "tcp_header0 c flags =
     u16_to_be (local_port c) @ u16_to_be (peer_port c) @ u32_to_be (snd_nxt c) @ u32_to_be (rcv_nxt c)
     @ [0x50, flags] @ u16_to_be RCV_WINDOW @ [0, 0] @ [0, 0]"

definition pseudo_header :: "conn \<Rightarrow> nat \<Rightarrow> bytes" where
  "pseudo_header c tcp_len = LOCAL_IP @ peer_ip c @ [0, 6] @ u16_to_be (of_nat tcp_len)"

definition tcp_bytes :: "conn \<Rightarrow> u8 \<Rightarrow> bytes \<Rightarrow> bytes" where
  "tcp_bytes c flags payload =
     (let s = tcp_header0 c flags @ payload;
          psum = sum_words (pseudo_header c (length s)) 0
      in take 16 s @ u16_to_be (sum16 s psum) @ drop 18 s)"

definition tcp_frame :: "conn \<Rightarrow> bytes \<Rightarrow> u8 \<Rightarrow> bytes \<Rightarrow> bytes" where
  "tcp_frame c mac flags payload =
     peer_mac c @ mac @ [0x08, 0x00] @ ip_header c (20 + length payload) @ tcp_bytes c flags payload"

definition tcp_send :: "u8 \<Rightarrow> bytes \<Rightarrow> tcp \<Rightarrow> tcp" where
  "tcp_send flags payload t =
     (let c = cur t;
          f = tcp_frame c (nic_mac t) flags payload;
          n = (if flags AND (F_SYN OR F_FIN) \<noteq> 0 then snd_nxt c + 1 else snd_nxt c);
          n = n + of_nat (length payload)
      in (upd_cur (\<lambda>c. c\<lparr>snd_nxt := n\<rparr>) t)\<lparr>tx := tx t @ [f]\<rparr>)"

definition send_syn :: "tcp \<Rightarrow> tcp" where "send_syn t = tcp_send F_SYN [] t"
definition send_syn_ack :: "tcp \<Rightarrow> tcp" where "send_syn_ack t = tcp_send (F_SYN OR F_ACK) [] t"
definition send_ack :: "tcp \<Rightarrow> tcp" where "send_ack t = tcp_send F_ACK [] t"
definition send_fin :: "tcp \<Rightarrow> tcp" where "send_fin t = tcp_send (F_FIN OR F_ACK) [] t"

definition deliver_data :: "tcp \<Rightarrow> tcp option" where
  "deliver_data t =
     (let n = last_payload_len (cur t)
      in if n = 0 then Some t
         else do { buf \<leftarrow> sub_slice (last_payload (cur t)) 0 n;
                   let t = tcp_send F_ACK buf t
                   in do { e \<leftarrow> checked_inc (echoes (cur t));
                           Some (upd_cur (\<lambda>c. c\<lparr>echoes := e\<rparr>) t) } })"

definition on_reset :: "tcp \<Rightarrow> tcp" where
  "on_reset t = upd_cur (\<lambda>c. c\<lparr>retransmit_at := 0, timewait_at := 0, snd_nxt := INITIAL_SND\<rparr>) t"

definition arm_retransmit :: "nat \<Rightarrow> tcp \<Rightarrow> tcp" where
  "arm_retransmit now t = upd_cur (\<lambda>c. c\<lparr>retransmit_at := now + RETRANSMIT_TICKS\<rparr>) t"

definition cancel_retransmit :: "tcp \<Rightarrow> tcp" where
  "cancel_retransmit t = upd_cur (\<lambda>c. c\<lparr>retransmit_at := 0\<rparr>) t"

definition arm_timewait :: "nat \<Rightarrow> tcp \<Rightarrow> tcp" where
  "arm_timewait now t = upd_cur (\<lambda>c. c\<lparr>timewait_at := now + TIMEWAIT_TICKS\<rparr>) t"

section \<open>The TcpConnection Frame system\<close>

text \<open>A transition runs the exit handler of the old state and the enter handler of the new one.\<close>

definition exit_state :: "tcp_state \<Rightarrow> tcp \<Rightarrow> tcp" where
  "exit_state s t = (case s of SynSent \<Rightarrow> cancel_retransmit t | SynReceived \<Rightarrow> cancel_retransmit t | _ \<Rightarrow> t)"

definition enter_state :: "nat \<Rightarrow> tcp_state \<Rightarrow> tcp \<Rightarrow> tcp" where
  "enter_state now s t =
     (case s of SynSent \<Rightarrow> arm_retransmit now t | SynReceived \<Rightarrow> arm_retransmit now t
      | TimeWait \<Rightarrow> arm_timewait now t | _ \<Rightarrow> t)"

definition tcp_goto :: "nat \<Rightarrow> tcp_state \<Rightarrow> tcp \<Rightarrow> tcp" where
  "tcp_goto now s t =
     enter_state now s (upd_cur (\<lambda>c. c\<lparr>tfsm := s\<rparr>) (exit_state (tfsm (cur t)) t))"

definition open_passive :: "nat \<Rightarrow> tcp \<Rightarrow> tcp" where
  "open_passive now t = (case tfsm (cur t) of TClosed \<Rightarrow> tcp_goto now TListen t | _ \<Rightarrow> t)"

definition open_active :: "nat \<Rightarrow> tcp \<Rightarrow> tcp" where
  "open_active now t = (case tfsm (cur t) of TClosed \<Rightarrow> tcp_goto now SynSent (send_syn t) | _ \<Rightarrow> t)"

definition fsm_segment :: "nat \<Rightarrow> tcp_segment \<Rightarrow> tcp \<Rightarrow> tcp option" where
  "fsm_segment now seg t =
     (case tfsm (cur t) of
        TListen \<Rightarrow> Some (if syn seg then tcp_goto now SynReceived (send_syn_ack t) else t)
      | SynSent \<Rightarrow> Some (
          if syn seg \<and> ack seg then tcp_goto now Established (send_ack t)
          else if syn seg then tcp_goto now SynReceived (send_syn_ack t) else t)
      | SynReceived \<Rightarrow> Some (if ack seg then tcp_goto now Established t else t)
      | Established \<Rightarrow>
          if fin seg then Some (tcp_goto now CloseWait (send_ack t))
          else if payload_len seg > 0 then deliver_data t else Some t
      | FinWait1 \<Rightarrow> Some (
          if fin seg \<and> ack seg then tcp_goto now TimeWait (send_ack t)
          else if fin seg then tcp_goto now Closing (send_ack t)
          else if ack seg then tcp_goto now FinWait2 t else t)
      | FinWait2 \<Rightarrow> Some (if fin seg then tcp_goto now TimeWait (send_ack t) else t)
      | Closing \<Rightarrow> Some (if ack seg then tcp_goto now TimeWait t else t)
      | LastAck \<Rightarrow> Some (if ack seg then tcp_goto now TClosed t else t)
      | _ \<Rightarrow> Some t)"

definition fsm_close :: "nat \<Rightarrow> tcp \<Rightarrow> tcp" where
  "fsm_close now t =
     (case tfsm (cur t) of
        Established \<Rightarrow> tcp_goto now FinWait1 (send_fin t)
      | CloseWait \<Rightarrow> tcp_goto now LastAck (send_fin t)
      | _ \<Rightarrow> t)"

definition fsm_timeout :: "nat \<Rightarrow> tcp \<Rightarrow> tcp" where
  "fsm_timeout now t =
     (case tfsm (cur t) of
        SynSent \<Rightarrow> send_syn t
      | SynReceived \<Rightarrow> send_syn_ack t
      | TimeWait \<Rightarrow> tcp_goto now TClosed t
      | _ \<Rightarrow> t)"

definition fsm_rst :: "nat \<Rightarrow> tcp \<Rightarrow> tcp" where
  "fsm_rst now t = (case tfsm (cur t) of TClosed \<Rightarrow> t | _ \<Rightarrow> tcp_goto now TClosed (on_reset t))"

section \<open>Timers, delivery and setup\<close>

definition drain_slot :: "nat \<Rightarrow> nat \<Rightarrow> tcp \<Rightarrow> tcp" where
  "drain_slot now i t =
     (let c = conns t ! i; rt = retransmit_at c; tw = timewait_at c
      in if \<not> in_use c then t
         else (let t = (if rt \<noteq> 0 \<and> now \<ge> rt
                        then fsm_timeout now (set_current i
                               (upd_slot i (\<lambda>c. c\<lparr>retransmit_at := now + RETRANSMIT_TICKS\<rparr>) t))
                        else t)
               in if tw \<noteq> 0 \<and> now \<ge> tw
                  then fsm_timeout now (set_current i (upd_slot i (\<lambda>c. c\<lparr>timewait_at := 0\<rparr>) t))
                  else t))"

definition drain_timers :: "nat \<Rightarrow> tcp \<Rightarrow> tcp" where
  "drain_timers now t = fold (drain_slot now) [0..<MAX_CONN] t"

definition is_established :: "nat \<Rightarrow> tcp \<Rightarrow> bool" where
  "is_established i t \<longleftrightarrow> tfsm (conns t ! i) = Established"

definition is_closed :: "nat \<Rightarrow> tcp \<Rightarrow> bool" where
  "is_closed i t \<longleftrightarrow> tfsm (conns t ! i) = TClosed"

definition tcp_close :: "nat \<Rightarrow> nat \<Rightarrow> tcp \<Rightarrow> tcp" where
  "tcp_close now i t = fsm_close now (set_current i t)"

definition resolve_bound :: "bytes \<Rightarrow> tcp_segment \<Rightarrow> conn \<Rightarrow> bool" where
  "resolve_bound src_ip seg c \<longleftrightarrow>
     in_use c \<and> local_port c = dst_port seg \<and> peer_port c = src_port seg \<and> peer_ip c = src_ip"

definition tcp_resolve :: "bytes \<Rightarrow> tcp_segment \<Rightarrow> tcp \<Rightarrow> (nat option \<times> tcp) option" where
  "tcp_resolve frame seg t =
     do { src_ip \<leftarrow> sub_slice frame 26 30;
          case find (\<lambda>i. resolve_bound src_ip seg (conns t ! i)) [0..<MAX_CONN] of
            Some i \<Rightarrow> Some (Some i, t)
          | None \<Rightarrow>
              (if \<not> syn seg then Some (None, t)
               else (case find (\<lambda>i. listening (conns t ! i) \<and> local_port (conns t ! i) = dst_port seg)
                            [0..<SERVER_SLOTS] of
                       None \<Rightarrow> Some (None, t)
                     | Some i \<Rightarrow>
                         do { mac \<leftarrow> sub_slice frame 6 12;
                              Some (Some i,
                                upd_slot i (\<lambda>c. c\<lparr>listening := False, in_use := True, peer_mac := mac,
                                  peer_ip := src_ip, peer_port := src_port seg,
                                  snd_nxt := INITIAL_SND\<rparr>) t) })) }"

definition next_rcv :: "tcp_segment \<Rightarrow> u32 \<Rightarrow> u32" where
  "next_rcv seg rcv =
     (if syn seg then seq seg + 1
      else (let rcv = (if seq seg = rcv \<and> payload_len seg > 0 then rcv + of_nat (payload_len seg) else rcv)
            in if fin seg then rcv + 1 else rcv))"

definition save_payload :: "bytes \<Rightarrow> tcp_segment \<Rightarrow> tcp \<Rightarrow> tcp option" where
  "save_payload frame seg t =
     (let n = min (payload_len seg) MAX_PAYLOAD
      in if n > 0 \<and> payload_off seg + n \<le> length frame
         then do { bs \<leftarrow> sub_slice frame (payload_off seg) (payload_off seg + n);
                   p \<leftarrow> blit_checked (last_payload (cur t)) 0 bs;
                   Some (upd_cur (\<lambda>c. c\<lparr>last_payload := p, last_payload_len := n\<rparr>) t) }
         else Some (upd_cur (\<lambda>c. c\<lparr>last_payload_len := 0\<rparr>) t))"

definition on_segment :: "bytes \<Rightarrow> nat \<Rightarrow> tcp \<Rightarrow> tcp option" where
  "on_segment frame now t =
     do { seg \<leftarrow> tcp_parse frame;
          (r, t) \<leftarrow> tcp_resolve frame seg t;
          case r of
            None \<Rightarrow> Some t
          | Some i \<Rightarrow>
              (let t = (set_current i t)\<lparr>saw_tcp := True\<rparr>;
                   t = upd_cur (\<lambda>c. c\<lparr>rcv_nxt := next_rcv seg (rcv_nxt c)\<rparr>) t
               in do { t \<leftarrow> save_payload frame seg t;
                       if rst seg then Some (fsm_rst now t) else fsm_segment now seg t }) }"

definition tcp_listen :: "u16 \<Rightarrow> nat \<Rightarrow> tcp \<Rightarrow> tcp option" where
  "tcp_listen port now t =
     do { k \<leftarrow> checked_sub port BASE_PORT;
          let i = unat k;
              t = upd_slot i (\<lambda>c. c\<lparr>local_port := port, listening := True, in_use := False, peer_port := 0,
                                   snd_nxt := INITIAL_SND\<rparr>) t
          in Some (open_passive now (set_current i t)) }"

definition tcp_connect :: "bytes \<Rightarrow> bytes \<Rightarrow> u16 \<Rightarrow> u16 \<Rightarrow> nat \<Rightarrow> tcp \<Rightarrow> tcp" where
  "tcp_connect pmac pip pport lport now t =
     (let i = CLIENT_SLOT;
          t = upd_slot i (\<lambda>c. c\<lparr>in_use := True, listening := False, local_port := lport, peer_mac := pmac,
                               peer_ip := pip, peer_port := pport, snd_nxt := INITIAL_SND\<rparr>) t;
          t = set_current i t
      in open_active now (on_reset (fsm_rst now t)))"

section \<open>The scale test\<close>

text \<open>
  \<open>scale_stress\<close> drives fresh \<open>TcpConnection\<close> instances outside the table. Their actions work on
  the current slot, so an instance is modelled in that slot, whose own FSM state is put back
  when the instance is dropped. The result counts the instances that end in \<open>$Closed\<close>.
\<close>

definition scale_conn :: "nat \<Rightarrow> tcp \<Rightarrow> (bool \<times> tcp) option" where
  "scale_conn now t =
     (let own = tfsm (cur t);
          t = open_passive now (upd_cur (\<lambda>c. c\<lparr>tfsm := TClosed\<rparr>) t)
      in do { t \<leftarrow> fsm_segment now (TcpSegment_default\<lparr>syn := True\<rparr>) t;
              t \<leftarrow> fsm_segment now (TcpSegment_default\<lparr>ack := True\<rparr>) t;
              t \<leftarrow> fsm_segment now (TcpSegment_default\<lparr>ack := True, payload_len := 8\<rparr>) t;
              t \<leftarrow> fsm_segment now (TcpSegment_default\<lparr>fin := True, ack := True\<rparr>) (fsm_close now t);
              let t = fsm_timeout now t
              in Some (tfsm (cur t) = TClosed, upd_cur (\<lambda>c. c\<lparr>tfsm := own\<rparr>) t) })"

primrec scale_loop :: "nat \<Rightarrow> nat \<Rightarrow> tcp \<Rightarrow> (nat \<times> tcp) option" where
  "scale_loop 0 now t = Some (0, t)"
| "scale_loop (Suc n) now t =
     do { (fin_ok, t) \<leftarrow> scale_conn now t;
          (k, t) \<leftarrow> scale_loop n now t;
          Some (if fin_ok then k + 1 else k, t) }"

definition scale_stress :: "nat \<Rightarrow> tcp \<Rightarrow> (nat \<times> tcp) option" where
  "scale_stress now t =
     scale_loop 16 now (upd_cur (\<lambda>c. c\<lparr>last_payload_len := 0\<rparr>) (set_current CLIENT_SLOT t))"

end
