(* ===== verification/TcpInv.thy ===== *)
theory TcpInv
  imports Tcp
begin

text \<open>
  Properties of the TCP layer: frames on the wire carry valid checksums and parse back to the
  fields they were built from; every connection's timers are armed exactly in the states that
  need them; and a segment touches only the connection it belongs to.
\<close>

section \<open>Wire format\<close>

definition addrs_ok :: "conn \<Rightarrow> bool" where
  "addrs_ok c \<longleftrightarrow> length (peer_mac c) = 6 \<and> length (peer_ip c) = 4"

lemma sum_words_append: "even (length a) \<Longrightarrow> sum_words (a @ b) s = sum_words b (sum_words a s)"
  by (induction a s rule: sum_words.induct) auto

lemma sum16_checksum: "sum16 h 0 = checksum h"
  by (simp add: sum16_def checksum_def)

lemma sum16_pseudo: "even (length p) \<Longrightarrow> sum16 s (sum_words p 0) = checksum (p @ s)"
  by (simp add: sum16_def checksum_def sum_words_append)

lemma length_be [simp]: "length (u16_to_be v) = 2" "length (u32_to_be w) = 4"
  by (simp_all add: u16_to_be_def u16_to_le_def u32_to_be_def u32_to_le_def)

lemma length_LOCAL_IP [simp]: "length LOCAL_IP = 4"
  by (simp add: LOCAL_IP_def)

lemma length_headers:
  assumes "addrs_ok c"
  shows "length (ip_header0 c n) = 20" "length (ip_header c n) = 20" "length (pseudo_header c n) = 12"
    "length (tcp_header0 c fl) = 20" "length (tcp_bytes c fl p) = 20 + length p"
  using assms
  by (simp_all add: addrs_ok_def ip_header0_def ip_header_def pseudo_header_def tcp_header0_def tcp_bytes_def Let_def)

lemma ip_header_verifies:
  assumes "addrs_ok c"
  shows "checksum (ip_header c n) = 0"
proof -
  let ?pre = "[0x45, 0] @ u16_to_be (of_nat (20 + n)) @ [0, 0, 0, 0] @ [64, 6]"
  let ?post = "LOCAL_IP @ peer_ip c"
  have h: "ip_header0 c n = ?pre @ [0, 0] @ ?post" by (simp add: ip_header0_def)
  have l: "length ?pre = 10" by simp
  have "take 10 (ip_header0 c n) = ?pre" "drop 12 (ip_header0 c n) = ?post" unfolding h by simp_all
  then have "ip_header c n = ?pre @ u16_to_be (checksum (?pre @ [0, 0] @ ?post)) @ ?post"
    by (simp only: ip_header_def Let_def sum16_checksum h)
  moreover have "csum_len_ok (?pre @ [0, 0] @ ?post)"
    using assms by (simp add: csum_len_ok_def addrs_ok_def)
  ultimately show ?thesis using checksum_stored [of ?pre ?post] l by simp
qed

lemma tcp_bytes_verifies:
  assumes "addrs_ok c" and "length payload \<le> MAX_PAYLOAD"
  shows "checksum (pseudo_header c (20 + length payload) @ tcp_bytes c flags payload) = 0"
proof -
  let ?ps = "pseudo_header c (20 + length payload)"
  let ?h = "u16_to_be (local_port c) @ u16_to_be (peer_port c) @ u32_to_be (snd_nxt c) @ u32_to_be (rcv_nxt c)
     @ [0x50, flags] @ u16_to_be RCV_WINDOW"
  let ?post = "[0, 0] @ payload"
  let ?s = "tcp_header0 c flags @ payload"
  have s: "?s = ?h @ [0, 0] @ ?post" by (simp add: tcp_header0_def)
  have lh: "length ?h = 16" by simp
  have lp: "length ?ps = 12" using length_headers(3) [OF assms(1)] .
  have ls: "length ?s = 20 + length payload" using length_headers(4) [OF assms(1)] by simp
  have td: "take 16 ?s = ?h" "drop 18 ?s = ?post" unfolding s by simp_all
  have "sum16 ?s (sum_words ?ps 0) = checksum (?ps @ ?s)" using lp by (intro sum16_pseudo) simp
  then have "tcp_bytes c flags payload = ?h @ u16_to_be (checksum (?ps @ ?s)) @ ?post"
    using td ls by (simp only: tcp_bytes_def Let_def)
  then have "?ps @ tcp_bytes c flags payload
      = (?ps @ ?h) @ u16_to_be (checksum ((?ps @ ?h) @ [0, 0] @ ?post)) @ ?post"
    by (simp only: s append_assoc)
  moreover have "csum_len_ok ((?ps @ ?h) @ [0, 0] @ ?post)"
    using lp lh assms(2) by (simp add: csum_len_ok_def MAX_PAYLOAD_def)
  moreover have "even (length (?ps @ ?h))" using lp lh by simp
  ultimately show ?thesis using checksum_stored [of "?ps @ ?h" ?post] by metis
qed

text \<open>
  What a frame says, read with total functions; \<open>tcp_parse\<close> reads the same through checked
  indexing, and its length tests keep every index in range.
\<close>

definition be16_at :: "bytes \<Rightarrow> nat \<Rightarrow> u16" where
  "be16_at b i = u16_from_be (b ! i) (b ! (i + 1))"

definition be32_at :: "bytes \<Rightarrow> nat \<Rightarrow> u32" where
  "be32_at b i = u32_from_be (b ! i) (b ! (i + 1)) (b ! (i + 2)) (b ! (i + 3))"

definition seg_of :: "bytes \<Rightarrow> tcp_segment" where
  "seg_of frame =
     (let t = 14 + unat (frame ! 14 AND 0x0F) * 4; po = t + unat (drop_bit 4 (frame ! (t + 12)) AND 0x0F) * 4;
          flags = frame ! (t + 13)
      in if length frame < 34 \<or> length frame < t + 20 then TcpSegment_default
         else \<lparr>src_port = be16_at frame t, dst_port = be16_at frame (t + 2),
               seq = be32_at frame (t + 4), ack_num = be32_at frame (t + 8),
               syn = (flags AND F_SYN \<noteq> 0), ack = (flags AND F_ACK \<noteq> 0),
               fin = (flags AND F_FIN \<noteq> 0), rst = (flags AND F_RST \<noteq> 0),
               window = be16_at frame (t + 14), payload_off = po, payload_len = length frame - po\<rparr>)"

lemma be16_Some: "i + 2 \<le> length b \<Longrightarrow> be16 b i = Some (be16_at b i)"
  by (simp add: be16_def be16_at_def index_def)

lemma be32_Some: "i + 4 \<le> length b \<Longrightarrow> be32 b i = Some (be32_at b i)"
  by (simp add: be32_def be32_at_def index_def)

lemma tcp_parse_seg_of: "tcp_parse frame = Some (seg_of frame)"
proof (cases "length frame < 34 \<or> length frame < 14 + unat (frame ! 14 AND 0x0F) * 4 + 20")
  case True
  then show ?thesis by (auto simp: tcp_parse_def seg_of_def index_def Let_def)
next
  case False
  then show ?thesis
    by (simp add: tcp_parse_def seg_of_def index_def Let_def be16_Some be32_Some)
qed

lemma be16_append: "be16_at (a @ b) (length a + k) = be16_at b k"
  by (simp add: be16_at_def nth_append add.assoc)

lemma be32_append: "be32_at (a @ b) (length a + k) = be32_at b k"
  by (simp add: be32_at_def nth_append add.assoc)

lemma be16_0: "be16_at (u16_to_be v @ rest) 0 = v"
  using u16_be_roundtrip [of v] by (simp add: be16_at_def nth_append)

lemma be32_0: "be32_at (u32_to_be v @ rest) 0 = v"
  using u32_be_roundtrip [of v] by (simp add: be32_at_def nth_append numeral_2_eq_2)

lemma tcp_bytes_split:
  assumes "addrs_ok c"
  obtains csum where "tcp_bytes c flags payload =
    u16_to_be (local_port c) @ u16_to_be (peer_port c) @ u32_to_be (snd_nxt c) @ u32_to_be (rcv_nxt c)
     @ [0x50, flags] @ u16_to_be RCV_WINDOW @ csum @ [0, 0] @ payload" "length csum = 2"
  using that [of "u16_to_be (sum16 (tcp_header0 c flags @ payload)
      (sum_words (pseudo_header c (length (tcp_header0 c flags @ payload))) 0))"]
  by (simp add: tcp_bytes_def tcp_header0_def Let_def)

text \<open>A frame built by \<open>send\<close> parses to the fields of the connection that sent it.\<close>

lemma parse_tcp_frame:
  assumes c: "addrs_ok c" and m: "length mac = 6"
  shows "seg_of (tcp_frame c mac flags payload) =
    \<lparr>src_port = local_port c, dst_port = peer_port c, seq = snd_nxt c, ack_num = rcv_nxt c,
     syn = (flags AND F_SYN \<noteq> 0), ack = (flags AND F_ACK \<noteq> 0), fin = (flags AND F_FIN \<noteq> 0),
     rst = (flags AND F_RST \<noteq> 0), window = RCV_WINDOW, payload_off = 54, payload_len = length payload\<rparr>"
proof -
  obtain csum where tb: "tcp_bytes c flags payload =
      u16_to_be (local_port c) @ u16_to_be (peer_port c) @ u32_to_be (snd_nxt c) @ u32_to_be (rcv_nxt c)
       @ [0x50, flags] @ u16_to_be RCV_WINDOW @ csum @ [0, 0] @ payload" "length csum = 2"
    using tcp_bytes_split [OF c] .
  define h where "h = peer_mac c @ mac @ [0x08, 0x00]"
  define ip where "ip = ip_header c (20 + length payload)"
  let ?t = "tcp_bytes c flags payload"
  let ?f = "h @ ip @ ?t"
  have f: "tcp_frame c mac flags payload = ?f" by (simp add: tcp_frame_def h_def ip_def)
  have lh: "length h = 14" "length ip = 20" "length (h @ ip) = 34"
    using c m length_headers(2) [OF c] by (simp_all add: h_def ip_def addrs_ok_def)
  have lt: "length ?f = 54 + length payload" using lh length_headers(5) [OF c] by simp
  have "ip ! 0 = 0x45" by (simp add: ip_def ip_header_def ip_header0_def Let_def)
  then have f14: "?f ! 14 = 0x45" using lh by (simp add: nth_append)
  have at: "?f ! (34 + k) = ?t ! k" "be16_at ?f (34 + k) = be16_at ?t k" "be32_at ?f (34 + k) = be32_at ?t k" for k
    using be16_append [of "h @ ip" ?t k] be32_append [of "h @ ip" ?t k] lh
      nth_append_length_plus [of "h @ ip" ?t k] by simp_all
  have b0: "be16_at ?t 0 = local_port c" unfolding tb by (rule be16_0)
  have b2: "be16_at ?t 2 = peer_port c"
    using be16_append [of "u16_to_be (local_port c)" _ 0] be16_0 unfolding tb by simp
  have b4: "be32_at ?t 4 = snd_nxt c"
    using be32_append [of "u16_to_be (local_port c) @ u16_to_be (peer_port c)" _ 0] be32_0 unfolding tb by simp
  have b8: "be32_at ?t 8 = rcv_nxt c"
    using be32_append [of "u16_to_be (local_port c) @ u16_to_be (peer_port c) @ u32_to_be (snd_nxt c)" _ 0] be32_0
    unfolding tb by simp
  have b12: "?t ! 12 = 0x50" "?t ! 13 = flags" unfolding tb by (simp_all add: nth_append)
  have b14: "be16_at ?t 14 = RCV_WINDOW"
    using be16_append [of "u16_to_be (local_port c) @ u16_to_be (peer_port c) @ u32_to_be (snd_nxt c)
        @ u32_to_be (rcv_nxt c) @ [0x50, flags]" _ 0] be16_0 unfolding tb by simp
  have ihl: "unat (?f ! 14 AND 0x0F) * 4 = 20" unfolding f14 by simp
  show ?thesis
    unfolding f seg_of_def Let_def ihl
    using lt at(1) [of 12] at(1) [of 13] at(2) [of 0] at(2) [of 2] at(3) [of 4] at(3) [of 8] at(2) [of 14]
      b0 b2 b4 b8 b12 b14 by simp
qed

section \<open>The invariant of a connection\<close>

text \<open>
  The buffers of a slot have their sizes, and its timers are armed exactly in the states that
  need them. The second part holds of the server slots always and of the client slot unless
  \<open>scale_stress\<close> has used it: the flag of \<open>tcp_inv\<close> says that it has not.
\<close>

definition conn_shape :: "conn \<Rightarrow> bool" where
  "conn_shape c \<longleftrightarrow> addrs_ok c \<and> length (last_payload c) = MAX_PAYLOAD \<and> last_payload_len c \<le> MAX_PAYLOAD"

definition conn_timers :: "conn \<Rightarrow> bool" where
  "conn_timers c \<longleftrightarrow> (retransmit_at c \<noteq> 0 \<longleftrightarrow> tfsm c = SynSent \<or> tfsm c = SynReceived)
     \<and> (timewait_at c \<noteq> 0 \<longleftrightarrow> tfsm c = TimeWait)"

definition exact :: "bool \<Rightarrow> nat \<Rightarrow> bool" where
  "exact clean i \<longleftrightarrow> clean \<or> i < SERVER_SLOTS"

definition tcp_inv :: "bool \<Rightarrow> tcp \<Rightarrow> bool" where
  [inv_defs]: "tcp_inv b t \<longleftrightarrow> length (conns t) = MAX_CONN \<and> current t < MAX_CONN \<and> length (nic_mac t) = 6
     \<and> (\<forall>i < MAX_CONN. conn_shape (conns t ! i) \<and> (exact b i \<longrightarrow> conn_timers (conns t ! i)))"

lemmas conn_defs = conn_shape_def conn_timers_def addrs_ok_def

text \<open>What a handler that works on the current connection may change.\<close>

definition local_step :: "tcp \<Rightarrow> tcp \<Rightarrow> bool" where
  "local_step t t' \<longleftrightarrow> length (conns t') = length (conns t) \<and> current t' = current t \<and> nic_mac t' = nic_mac t
     \<and> saw_tcp t' = saw_tcp t \<and> (\<forall>i. i \<noteq> current t \<longrightarrow> conns t' ! i = conns t ! i)
     \<and> (\<exists>fs. tx t' = tx t @ fs)"

lemma local_refl [simp, intro]: "local_step t t"
  by (simp add: local_step_def)

lemma local_trans: "local_step t t' \<Longrightarrow> local_step t' t'' \<Longrightarrow> local_step t t''"
  unfolding local_step_def by (metis append_assoc)

lemma local_upd_cur [simp, intro]: "local_step t (upd_cur f t)"
  by (simp add: local_step_def upd_cur_def upd_slot_def)

lemma cur_upd_cur [simp]: "current t < length (conns t) \<Longrightarrow> cur (upd_cur f t) = f (cur t)"
  by (simp add: cur_def upd_cur_def upd_slot_def)

lemma upd_cur_keeps [simp]:
  "current (upd_cur f t) = current t" "length (conns (upd_cur f t)) = length (conns t)"
  "nic_mac (upd_cur f t) = nic_mac t" "tx (upd_cur f t) = tx t" "saw_tcp (upd_cur f t) = saw_tcp t"
  by (simp_all add: upd_cur_def upd_slot_def)

lemma local_inv:
  assumes "tcp_inv b t" and "local_step t t'" and "conn_shape (cur t')"
    and "exact b' (current t) \<Longrightarrow> conn_timers (cur t')"
    and "\<And>i. i < MAX_CONN \<Longrightarrow> i \<noteq> current t \<Longrightarrow> exact b' i \<Longrightarrow> exact b i"
  shows "tcp_inv b' t'"
proof -
  have "conn_shape (conns t' ! i) \<and> (exact b' i \<longrightarrow> conn_timers (conns t' ! i))" if "i < MAX_CONN" for i
    using assms that by (cases "i = current t") (auto simp: tcp_inv_def local_step_def cur_def)
  then show ?thesis using assms(1,2) by (simp add: tcp_inv_def local_step_def)
qed

definition advance :: "u8 \<Rightarrow> bytes \<Rightarrow> u32 \<Rightarrow> u32" where
  "advance flags payload n =
     (if flags AND (F_SYN OR F_FIN) \<noteq> 0 then n + 1 else n) + of_nat (length payload)"

lemma tcp_send_eq:
  "tcp_send flags payload t =
     (upd_cur (\<lambda>c. c\<lparr>snd_nxt := advance flags payload (snd_nxt (cur t))\<rparr>) t)
       \<lparr>tx := tx t @ [tcp_frame (cur t) (nic_mac t) flags payload]\<rparr>"
  by (simp add: tcp_send_def advance_def Let_def)

lemma tx_update_cur [simp]: "cur (t\<lparr>tx := x\<rparr>) = cur t" "conns (t\<lparr>tx := x\<rparr>) = conns t"
  by (simp_all add: cur_def)

lemma tcp_send_facts [simp]:
  "local_step t (tcp_send flags payload t)"
  "current t < length (conns t) \<Longrightarrow>
     cur (tcp_send flags payload t) = (cur t)\<lparr>snd_nxt := advance flags payload (snd_nxt (cur t))\<rparr>"
  "current (tcp_send flags payload t) = current t"
  "length (conns (tcp_send flags payload t)) = length (conns t)"
  "tx (tcp_send flags payload t) = tx t @ [tcp_frame (cur t) (nic_mac t) flags payload]"
  "nic_mac (tcp_send flags payload t) = nic_mac t"
  by (simp_all add: tcp_send_eq)
    (auto simp: local_step_def upd_cur_def upd_slot_def)

lemmas send_defs = send_syn_def send_syn_ack_def send_ack_def send_fin_def

lemma exit_local: "local_step t (exit_state s t)"
  by (simp add: exit_state_def cancel_retransmit_def split: tcp_state.split)

lemma enter_local: "local_step t (enter_state now s t)"
  by (simp add: enter_state_def arm_retransmit_def arm_timewait_def split: tcp_state.split)

lemma tcp_goto_local: "local_step t (tcp_goto now s t)"
  unfolding tcp_goto_def
  by (rule local_trans [OF local_trans [OF exit_local local_upd_cur] enter_local])

lemma tcp_goto_keeps [simp]:
  "current (tcp_goto now s t) = current t" "length (conns (tcp_goto now s t)) = length (conns t)"
  using tcp_goto_local [of t now s] by (simp_all add: local_step_def)

text \<open>The connection after a transition.\<close>

definition conn_goto :: "nat \<Rightarrow> tcp_state \<Rightarrow> conn \<Rightarrow> conn" where
  "conn_goto now s c =
     c\<lparr>tfsm := s,
       retransmit_at := (if s = SynSent \<or> s = SynReceived then now + RETRANSMIT_TICKS
                         else if tfsm c = SynSent \<or> tfsm c = SynReceived then 0 else retransmit_at c),
       timewait_at := (if s = TimeWait then now + TIMEWAIT_TICKS else timewait_at c)\<rparr>"

lemma cur_tcp_goto:
  assumes "current t < length (conns t)"
  shows "cur (tcp_goto now s t) = conn_goto now s (cur t)"
  using assms
  by (cases "tfsm (cur t)"; cases s)
    (simp_all add: tcp_goto_def exit_state_def enter_state_def cancel_retransmit_def arm_retransmit_def
      arm_timewait_def conn_goto_def)

lemma conn_goto_timers:
  assumes "conn_timers c" and "tfsm c \<noteq> TimeWait \<or> timewait_at c = 0 \<or> s = TimeWait"
  shows "conn_timers (conn_goto now s c)"
  using assms
  by (auto simp: conn_timers_def conn_goto_def RETRANSMIT_TICKS_def TIMEWAIT_TICKS_def)

lemma conn_goto_shape [simp]: "conn_shape (conn_goto now s c) = conn_shape c"
  by (simp add: conn_shape_def conn_goto_def addrs_ok_def)

lemma conn_snd [simp]:
  "conn_shape (c\<lparr>snd_nxt := n\<rparr>) = conn_shape c" "conn_timers (c\<lparr>snd_nxt := n\<rparr>) = conn_timers c"
  by (simp_all add: conn_defs)

section \<open>Every handler keeps the invariant\<close>

text \<open>The binding of a connection, which no handler of the FSM changes.\<close>

definition binding :: "conn \<Rightarrow> bool \<times> bool \<times> u16 \<times> bytes \<times> bytes \<times> u16" where
  "binding c = (in_use c, listening c, local_port c, peer_mac c, peer_ip c, peer_port c)"

definition keeps :: "tcp \<Rightarrow> tcp \<Rightarrow> bool" where
  "keeps t t' \<longleftrightarrow> local_step t t' \<and> binding (cur t') = binding (cur t)
     \<and> (conn_shape (cur t) \<longrightarrow> conn_shape (cur t')) \<and> (conn_timers (cur t) \<longrightarrow> conn_timers (cur t'))"

lemma keeps_refl [simp, intro]: "keeps t t"
  by (simp add: keeps_def)

lemma keeps_inv: "tcp_inv b t \<Longrightarrow> keeps t t' \<Longrightarrow> tcp_inv b t'"
  by (rule local_inv) (auto simp: keeps_def tcp_inv_def cur_def)

lemma keeps_trans: "keeps t t' \<Longrightarrow> keeps t' t'' \<Longrightarrow> keeps t t''"
  unfolding keeps_def using local_trans by metis

lemma keeps_send: "current t < length (conns t) \<Longrightarrow> keeps t (tcp_send fl p t)"
  by (simp add: keeps_def binding_def)

lemma keeps_goto:
  assumes "current t < length (conns t)" and "tfsm (cur t) \<noteq> TimeWait"
  shows "keeps t (tcp_goto now s t)"
  using assms conn_goto_timers
  by (auto simp: keeps_def tcp_goto_local cur_tcp_goto) (simp add: binding_def conn_goto_def)

lemma keeps_send_goto:
  assumes "current t < length (conns t)" and "tfsm (cur t) \<noteq> TimeWait"
  shows "keeps t (tcp_goto now s (tcp_send fl p t))"
  using assms by (intro keeps_trans [OF keeps_send keeps_goto]) simp_all

text \<open>The only panic of a handler is the overflow of the echo counter.\<close>

lemma deliver_data_keeps:
  assumes "current t < length (conns t)" and "conn_shape (cur t)"
  shows "case deliver_data t of None \<Rightarrow> echoes (cur t) = - 1 | Some t' \<Rightarrow> keeps t t'"
proof (cases "last_payload_len (cur t) = 0")
  case True
  then show ?thesis by (simp add: deliver_data_def)
next
  case False
  let ?buf = "take (last_payload_len (cur t)) (last_payload (cur t))"
  let ?u = "tcp_send F_ACK ?buf t"
  have s: "sub_slice (last_payload (cur t)) 0 (last_payload_len (cur t)) = Some ?buf"
    using assms(2) by (simp add: sub_slice_def conn_shape_def)
  have "keeps ?u (upd_cur (\<lambda>c. c\<lparr>echoes := e\<rparr>) ?u)" for e
    using assms(1) by (simp add: keeps_def conn_defs binding_def)
  then have "keeps t (upd_cur (\<lambda>c. c\<lparr>echoes := e\<rparr>) ?u)" for e
    using keeps_trans [OF keeps_send [OF assms(1)]] by blast
  then show ?thesis
    using False s assms(1) by (simp add: deliver_data_def Let_def checked_inc_def)
qed

lemma fsm_segment_keeps:
  assumes "current t < length (conns t)" and "conn_shape (cur t)"
  shows "case fsm_segment now seg t of None \<Rightarrow> echoes (cur t) = - 1 | Some t' \<Rightarrow> keeps t t'"
  using keeps_goto [OF assms(1)] keeps_send_goto [OF assms(1)] deliver_data_keeps [OF assms]
  by (cases "tfsm (cur t)") (simp_all add: fsm_segment_def send_defs)

lemma fsm_close_keeps: "current t < length (conns t) \<Longrightarrow> keeps t (fsm_close now t)"
  using keeps_send_goto by (cases "tfsm (cur t)") (simp_all add: fsm_close_def send_defs)

lemma open_passive_keeps: "current t < length (conns t) \<Longrightarrow> keeps t (open_passive now t)"
  using keeps_goto by (cases "tfsm (cur t)") (simp_all add: open_passive_def)

lemma open_active_keeps: "current t < length (conns t) \<Longrightarrow> keeps t (open_active now t)"
  using keeps_send_goto by (cases "tfsm (cur t)") (simp_all add: open_active_def send_defs)

lemma on_reset_facts:
  "local_step t (on_reset t)"
  "current t < length (conns t) \<Longrightarrow>
     cur (on_reset t) = (cur t)\<lparr>retransmit_at := 0, timewait_at := 0, snd_nxt := INITIAL_SND\<rparr>"
  by (simp_all add: on_reset_def)

lemma fsm_rst_spec:
  assumes "current t < length (conns t)"
  shows "keeps t (fsm_rst now t)" and "tfsm (cur (fsm_rst now t)) = TClosed"
proof -
  let ?t = "tcp_goto now TClosed (on_reset t)"
  have cl: "current (on_reset t) < length (conns (on_reset t))" using assms by (simp add: on_reset_def)
  have l: "local_step t ?t" by (rule local_trans [OF on_reset_facts(1) tcp_goto_local])
  have c: "cur ?t = conn_goto now TClosed ((cur t)\<lparr>retransmit_at := 0, timewait_at := 0, snd_nxt := INITIAL_SND\<rparr>)"
    using cur_tcp_goto [OF cl] on_reset_facts(2) [OF assms] by simp
  have "keeps t ?t"
    unfolding keeps_def c using l by (auto simp: conn_defs conn_goto_def binding_def)
  then show "keeps t (fsm_rst now t)" by (simp add: fsm_rst_def split: tcp_state.split)
  show "tfsm (cur (fsm_rst now t)) = TClosed"
    using c by (simp add: fsm_rst_def conn_goto_def split: tcp_state.split)
qed

lemma tcp_inv_slot: "tcp_inv b t \<Longrightarrow> i < MAX_CONN \<Longrightarrow> conn_shape (conns t ! i)"
  by (simp add: tcp_inv_def)

lemma tcp_inv_current: "tcp_inv b t \<Longrightarrow> current t < length (conns t)"
  by (simp add: tcp_inv_def)

lemma tcp_inv_cur: "tcp_inv b t \<Longrightarrow> conn_shape (cur t)"
  by (simp add: tcp_inv_def cur_def)

lemma tcp_inv_set_current: "tcp_inv b t \<Longrightarrow> i < MAX_CONN \<Longrightarrow> tcp_inv b (set_current i t)"
  by (simp add: tcp_inv_def set_current_def)

lemma tcp_inv_saw [simp]: "tcp_inv b (t\<lparr>saw_tcp := x\<rparr>) = tcp_inv b t"
  by (simp add: tcp_inv_def)

lemma tcp_inv_weaken: "tcp_inv b t \<Longrightarrow> tcp_inv False t"
  by (simp add: tcp_inv_def exact_def)

lemma tcp_inv_upd_slot:
  assumes "tcp_inv b t" and "conn_shape (conns t ! i) \<Longrightarrow> conn_shape (f (conns t ! i))"
    and "exact b i \<Longrightarrow> conn_timers (conns t ! i) \<Longrightarrow> conn_timers (f (conns t ! i))"
  shows "tcp_inv b (upd_slot i f t)"
proof -
  have "conn_shape (conns (upd_slot i f t) ! j) \<and> (exact b j \<longrightarrow> conn_timers (conns (upd_slot i f t) ! j))"
    if "j < MAX_CONN" for j
    using assms that by (cases "j = i") (simp_all add: tcp_inv_def upd_slot_def)
  then show ?thesis using assms(1) by (simp add: tcp_inv_def upd_slot_def)
qed

lemma upd_cur_inv:
  assumes "tcp_inv b t" and "conn_shape (cur t) \<Longrightarrow> conn_shape (f (cur t))"
    and "exact b (current t) \<Longrightarrow> conn_timers (cur t) \<Longrightarrow> conn_timers (f (cur t))"
  shows "tcp_inv b (upd_cur f t)"
  using tcp_inv_upd_slot [OF assms(1), of "current t" f] assms(2,3) by (simp add: upd_cur_def cur_def)

lemma set_current_simps [simp]:
  "conns (set_current i t) = conns t" "current (set_current i t) = i" "tx (set_current i t) = tx t"
  "cur (set_current i t) = conns t ! i" "nic_mac (set_current i t) = nic_mac t"
  by (simp_all add: set_current_def cur_def)

lemma upd_slot_simps [simp]:
  "current (upd_slot i f t) = current t" "length (conns (upd_slot i f t)) = length (conns t)"
  "tx (upd_slot i f t) = tx t" "nic_mac (upd_slot i f t) = nic_mac t"
  "i < length (conns t) \<Longrightarrow> conns (upd_slot i f t) ! i = f (conns t ! i)"
  "j \<noteq> i \<Longrightarrow> conns (upd_slot i f t) ! j = conns t ! j"
  by (simp_all add: upd_slot_def)

section \<open>The timer wheel\<close>

text \<open>Firing a slot's timer leaves the other slots alone and keeps the shape of its own.\<close>

definition slot_step :: "nat \<Rightarrow> tcp \<Rightarrow> tcp \<Rightarrow> bool" where
  "slot_step i t t' \<longleftrightarrow> length (conns t') = length (conns t) \<and> nic_mac t' = nic_mac t
     \<and> (current t' = i \<or> current t' = current t) \<and> (\<forall>j. j \<noteq> i \<longrightarrow> conns t' ! j = conns t ! j)
     \<and> (conn_shape (conns t ! i) \<longrightarrow> conn_shape (conns t' ! i))"

lemma slot_step_refl [simp]: "slot_step i t t"
  by (simp add: slot_step_def)

lemma slot_step_trans: "slot_step i t t' \<Longrightarrow> slot_step i t' t'' \<Longrightarrow> slot_step i t t''"
  unfolding slot_step_def by auto

lemma fsm_timeout_local:
  assumes "current t < length (conns t)"
  shows "local_step t (fsm_timeout now t)" and "conn_shape (cur (fsm_timeout now t)) = conn_shape (cur t)"
  using assms tcp_goto_local
  by (atomize (full), cases "tfsm (cur t)") (simp_all add: fsm_timeout_def send_defs cur_tcp_goto)

lemma fire_step:
  assumes "i < length (conns t)" and "\<And>c. conn_shape (f c) = conn_shape c"
  shows "slot_step i t (fsm_timeout now (set_current i (upd_slot i f t)))"
  using assms fsm_timeout_local [of "set_current i (upd_slot i f t)" now]
  by (simp add: slot_step_def local_step_def cur_def)

lemma drain_slot_step:
  assumes "i < length (conns t)"
  shows "slot_step i t (drain_slot now i t)"
proof -
  let ?f = "\<lambda>c. c\<lparr>retransmit_at := now + RETRANSMIT_TICKS\<rparr>" and ?g = "\<lambda>c. c\<lparr>timewait_at := 0\<rparr>"
  let ?fire = "\<lambda>f t. fsm_timeout now (set_current i (upd_slot i f t))"
  have f: "conn_shape (?f c) = conn_shape c" "conn_shape (?g c) = conn_shape c" for c by (simp_all add: conn_defs)
  note s = fire_step [OF _ f(1)] fire_step [OF _ f(2)]
  have a: "slot_step i t (?fire ?f t)" using assms by (intro s) simp
  then have "i < length (conns (?fire ?f t))" using assms by (simp add: slot_step_def)
  then have "slot_step i (?fire ?f t) (?fire ?g (?fire ?f t))" by (rule s(2))
  then have "slot_step i t (?fire ?g (?fire ?f t))" by (rule slot_step_trans [OF a])
  moreover have "slot_step i t (?fire ?g t)" using assms by (intro s) simp
  ultimately show ?thesis using a by (simp add: drain_slot_def Let_def)
qed

lemma drain_slot_loose:
  assumes "tcp_inv b t" and "i < MAX_CONN" and "\<not> exact b i"
  shows "tcp_inv b (drain_slot now i t)"
proof -
  have st: "slot_step i t (drain_slot now i t)"
    using assms(1,2) by (intro drain_slot_step) (simp add: tcp_inv_def)
  have "conn_shape (conns (drain_slot now i t) ! j) \<and> (exact b j \<longrightarrow> conn_timers (conns (drain_slot now i t) ! j))"
    if "j < MAX_CONN" for j
    using assms st that by (cases "j = i") (auto simp: tcp_inv_def slot_step_def)
  then show ?thesis using assms st by (auto simp: tcp_inv_def slot_step_def)
qed

text \<open>One slot of the wheel: what happens to it, by its state.\<close>

lemma drain_slot_spec:
  assumes ok: "tcp_inv b t" and i: "i < MAX_CONN" and ex: "exact b i"
  defines "c \<equiv> conns t ! i"
  shows "tcp_inv b (drain_slot now i t)"
    and "j \<noteq> i \<Longrightarrow> conns (drain_slot now i t) ! j = conns t ! j"
    and "in_use c \<and> tfsm c = TimeWait \<and> timewait_at c \<le> now \<Longrightarrow> tfsm (conns (drain_slot now i t) ! i) = TClosed"
    and "in_use c \<and> (tfsm c = SynSent \<or> tfsm c = SynReceived) \<and> retransmit_at c \<le> now \<Longrightarrow>
           tx (drain_slot now i t) = tx t @ [tcp_frame (c\<lparr>retransmit_at := now + RETRANSMIT_TICKS\<rparr>) (nic_mac t)
              (if tfsm c = SynSent then F_SYN else F_SYN OR F_ACK) []]"
    and "\<not> (in_use c \<and> (retransmit_at c \<noteq> 0 \<and> retransmit_at c \<le> now \<or> timewait_at c \<noteq> 0 \<and> timewait_at c \<le> now))
           \<Longrightarrow> drain_slot now i t = t"
proof -
  have cok: "conn_shape c" "conn_timers c" using ok i ex by (simp_all add: tcp_inv_def c_def)
  have il: "i < length (conns t)" using ok i by (simp add: tcp_inv_def)
  have rt: "retransmit_at c \<noteq> 0 \<longleftrightarrow> tfsm c = SynSent \<or> tfsm c = SynReceived"
    and tw: "timewait_at c \<noteq> 0 \<longleftrightarrow> tfsm c = TimeWait"
    using cok by (simp_all add: conn_timers_def)
  consider (idle) "\<not> (in_use c \<and> (retransmit_at c \<noteq> 0 \<and> retransmit_at c \<le> now
                       \<or> timewait_at c \<noteq> 0 \<and> timewait_at c \<le> now))"
    | (syn) "in_use c" "tfsm c = SynSent \<or> tfsm c = SynReceived" "retransmit_at c \<le> now"
    | (wait) "in_use c" "tfsm c = TimeWait" "timewait_at c \<le> now"
    using rt tw by blast
  then have *: "tcp_inv b (drain_slot now i t) \<and> (\<forall>j. j \<noteq> i \<longrightarrow> conns (drain_slot now i t) ! j = conns t ! j)
    \<and> (in_use c \<and> tfsm c = TimeWait \<and> timewait_at c \<le> now \<longrightarrow> tfsm (conns (drain_slot now i t) ! i) = TClosed)
    \<and> (in_use c \<and> (tfsm c = SynSent \<or> tfsm c = SynReceived) \<and> retransmit_at c \<le> now \<longrightarrow>
           tx (drain_slot now i t) = tx t @ [tcp_frame (c\<lparr>retransmit_at := now + RETRANSMIT_TICKS\<rparr>) (nic_mac t)
              (if tfsm c = SynSent then F_SYN else F_SYN OR F_ACK) []])
    \<and> (\<not> (in_use c \<and> (retransmit_at c \<noteq> 0 \<and> retransmit_at c \<le> now \<or> timewait_at c \<noteq> 0 \<and> timewait_at c \<le> now))
         \<longrightarrow> drain_slot now i t = t)"
  proof cases
    case idle
    then have "drain_slot now i t = t" by (auto simp: drain_slot_def Let_def c_def)
    then show ?thesis using ok idle rt tw by auto
  next
    case syn
    let ?u = "set_current i (upd_slot i (\<lambda>c. c\<lparr>retransmit_at := now + RETRANSMIT_TICKS\<rparr>) t)"
    have uok: "tcp_inv b ?u"
      using ok i cok syn(2)
      by (intro tcp_inv_set_current tcp_inv_upd_slot)
        (auto simp: c_def conn_defs RETRANSMIT_TICKS_def)
    have cu: "cur ?u = c\<lparr>retransmit_at := now + RETRANSMIT_TICKS\<rparr>" using il by (simp add: c_def)
    have z: "timewait_at c = 0" "retransmit_at c \<noteq> 0" using syn(2) rt tw by auto
    have d: "drain_slot now i t = tcp_send (if tfsm c = SynSent then F_SYN else F_SYN OR F_ACK) [] ?u"
      using syn z cu unfolding drain_slot_def Let_def c_def [symmetric]
      by (elim disjE) (simp_all add: fsm_timeout_def send_defs)
    have "keeps ?u (drain_slot now i t)" unfolding d using il by (intro keeps_send) simp
    then have "tcp_inv b (drain_slot now i t)" by (rule keeps_inv [OF uok])
    moreover have "conns (drain_slot now i t) ! j = conns t ! j" if "j \<noteq> i" for j
      using tcp_send_facts(1) [where t = ?u] that by (simp add: d local_step_def)
    moreover have "tfsm c \<noteq> TimeWait" "retransmit_at c \<noteq> 0" using syn(2) rt by auto
    ultimately show ?thesis using syn cu by (simp add: d)
  next
    case wait
    let ?u = "set_current i (upd_slot i (\<lambda>c. c\<lparr>timewait_at := 0\<rparr>) t)"
    have cu: "cur ?u = c\<lparr>timewait_at := 0\<rparr>" using il by (simp add: c_def)
    have ul: "current ?u < length (conns ?u)" using il by simp
    have z: "retransmit_at c = 0" using rt wait(2) by auto
    have d: "drain_slot now i t = tcp_goto now TClosed ?u"
      using wait z tw cu by (simp add: drain_slot_def Let_def c_def [symmetric] fsm_timeout_def)
    have l: "local_step ?u (drain_slot now i t)" unfolding d by (rule tcp_goto_local)
    have cd: "cur (drain_slot now i t) = conn_goto now TClosed (c\<lparr>timewait_at := 0\<rparr>)"
      unfolding d using cur_tcp_goto [OF ul] cu by simp
    have "conn_shape (conn_goto now TClosed (c\<lparr>timewait_at := 0\<rparr>))"
        "conn_timers (conn_goto now TClosed (c\<lparr>timewait_at := 0\<rparr>))"
      using cok z by (auto simp: conn_defs conn_goto_def)
    moreover have other: "conns (drain_slot now i t) ! j = conns t ! j" if "j \<noteq> i" for j
      using l that by (simp add: local_step_def)
    moreover have ci: "conns (drain_slot now i t) ! i = cur (drain_slot now i t)"
      using l by (simp add: cur_def local_step_def)
    ultimately have "conn_shape (conns (drain_slot now i t) ! j)
        \<and> (exact b j \<longrightarrow> conn_timers (conns (drain_slot now i t) ! j))" if "j < MAX_CONN" for j
      using ok that cd by (cases "j = i") (simp_all add: tcp_inv_def)
    then have "tcp_inv b (drain_slot now i t)"
      using l ok i by (simp add: tcp_inv_def local_step_def)
    then show ?thesis using other ci cd wait tw by (auto simp: conn_goto_def)
  qed
  from * show "tcp_inv b (drain_slot now i t)"
    and "j \<noteq> i \<Longrightarrow> conns (drain_slot now i t) ! j = conns t ! j"
    and "in_use c \<and> tfsm c = TimeWait \<and> timewait_at c \<le> now \<Longrightarrow> tfsm (conns (drain_slot now i t) ! i) = TClosed"
    and "in_use c \<and> (tfsm c = SynSent \<or> tfsm c = SynReceived) \<and> retransmit_at c \<le> now \<Longrightarrow>
           tx (drain_slot now i t) = tx t @ [tcp_frame (c\<lparr>retransmit_at := now + RETRANSMIT_TICKS\<rparr>) (nic_mac t)
              (if tfsm c = SynSent then F_SYN else F_SYN OR F_ACK) []]"
    and "\<not> (in_use c \<and> (retransmit_at c \<noteq> 0 \<and> retransmit_at c \<le> now \<or> timewait_at c \<noteq> 0 \<and> timewait_at c \<le> now))
           \<Longrightarrow> drain_slot now i t = t"
    by blast+
qed

lemma drain_slot_inv:
  assumes "tcp_inv b t" and "i < MAX_CONN"
  shows "tcp_inv b (drain_slot now i t)" and "j \<noteq> i \<Longrightarrow> conns (drain_slot now i t) ! j = conns t ! j"
  using drain_slot_spec(1) [OF assms] drain_slot_loose [OF assms] drain_slot_step [of i t now] assms
  by (blast, simp add: slot_step_def tcp_inv_def)

lemma fold_drain:
  assumes "tcp_inv b t" and "distinct is" and "\<forall>i \<in> set is. i < MAX_CONN"
  shows "tcp_inv b (fold (drain_slot now) is t)
     \<and> (\<forall>j. j \<notin> set is \<longrightarrow> conns (fold (drain_slot now) is t) ! j = conns t ! j)
     \<and> (\<forall>i \<in> set is. exact b i \<and> in_use (conns t ! i) \<and> tfsm (conns t ! i) = TimeWait \<and> timewait_at (conns t ! i) \<le> now
           \<longrightarrow> tfsm (conns (fold (drain_slot now) is t) ! i) = TClosed)"
  using assms
proof (induction "is" arbitrary: t)
  case (Cons i "is")
  have i: "i < MAX_CONN" using Cons.prems(3) by simp
  note d = drain_slot_inv [OF Cons.prems(1) i, where now = now]
  define u where "u = drain_slot now i t"
  have IH: "tcp_inv b (fold (drain_slot now) is u)"
      "\<And>j. j \<notin> set is \<Longrightarrow> conns (fold (drain_slot now) is u) ! j = conns u ! j"
      "\<And>k. k \<in> set is \<Longrightarrow> exact b k \<and> in_use (conns u ! k) \<and> tfsm (conns u ! k) = TimeWait
          \<and> timewait_at (conns u ! k) \<le> now \<Longrightarrow> tfsm (conns (fold (drain_slot now) is u) ! k) = TClosed"
    using Cons.IH [OF d(1)] Cons.prems(2,3) by (simp_all add: u_def)
  have e: "fold (drain_slot now) (i # is) t = fold (drain_slot now) is u" by (simp add: u_def)
  show ?case unfolding e
  proof (intro conjI allI impI ballI)
    show "tcp_inv b (fold (drain_slot now) is u)" by (rule IH(1))
  next
    fix j assume "j \<notin> set (i # is)"
    then show "conns (fold (drain_slot now) is u) ! j = conns t ! j"
      using IH(2) [of j] d(2) [of j] by (simp add: u_def)
  next
    fix k assume k: "k \<in> set (i # is)"
      and w: "exact b k \<and> in_use (conns t ! k) \<and> tfsm (conns t ! k) = TimeWait \<and> timewait_at (conns t ! k) \<le> now"
    show "tfsm (conns (fold (drain_slot now) is u) ! k) = TClosed"
    proof (cases "k = i")
      case True
      then show ?thesis
        using drain_slot_spec(3) [OF Cons.prems(1) i] w IH(2) [of i] Cons.prems(2) by (simp add: u_def)
    next
      case False
      then show ?thesis using IH(3) [of k] k w d(2) [of k] by (simp add: u_def)
    qed
  qed
qed simp

lemma drain_timers_inv: "tcp_inv b t \<Longrightarrow> tcp_inv b (drain_timers now t)"
  using fold_drain [of b t "[0..<MAX_CONN]" now] by (simp add: drain_timers_def)

section \<open>Segments and connection setup\<close>

lemma find_upt_Some:
  assumes "find P [0..<n] = Some i"
  shows "i < n" and "P i" and "\<forall>j < i. \<not> P j"
  using assms by (auto simp: find_Some_iff)

lemma find_upt_None: "find P [0..<n] = None \<longleftrightarrow> (\<forall>i < n. \<not> P i)"
  by (auto simp: find_None_iff)

text \<open>
  Which connection a segment belongs to, over the fields of the frame: the first slot in use whose
  local port, peer port and peer address are the segment's (its destination address is not
  compared), and otherwise, for a SYN, the first listener on its destination port.
\<close>

definition peer_of :: "bytes \<Rightarrow> conn \<Rightarrow> bool" where
  "peer_of frame c \<longleftrightarrow> in_use c \<and> local_port c = dst_port (seg_of frame)
     \<and> peer_port c = src_port (seg_of frame) \<and> peer_ip c = take 4 (drop 26 frame)"

definition listener_for :: "bytes \<Rightarrow> conn \<Rightarrow> bool" where
  "listener_for frame c \<longleftrightarrow> syn (seg_of frame) \<and> listening c \<and> local_port c = dst_port (seg_of frame)"

definition owner :: "bytes \<Rightarrow> tcp \<Rightarrow> nat \<Rightarrow> bool" where
  "owner frame t j \<longleftrightarrow>
     (if \<exists>i < MAX_CONN. peer_of frame (conns t ! i)
      then j < MAX_CONN \<and> peer_of frame (conns t ! j) \<and> (\<forall>i < j. \<not> peer_of frame (conns t ! i))
      else j < SERVER_SLOTS \<and> listener_for frame (conns t ! j) \<and> (\<forall>i < j. \<not> listener_for frame (conns t ! i)))"

lemma owner_lt: "owner frame t j \<Longrightarrow> j < MAX_CONN"
  by (auto simp: owner_def MAX_CONN_def split: if_splits)

lemma tcp_resolve_spec:
  assumes ok: "tcp_inv b t" and len: "30 \<le> length frame"
  shows "\<exists>r t'. tcp_resolve frame (seg_of frame) t = Some (r, t') \<and> tcp_inv b t'
     \<and> (case r of
          None \<Rightarrow> t' = t \<and> (\<forall>j. \<not> owner frame t j)
        | Some i \<Rightarrow> owner frame t i \<and> (\<forall>j. j \<noteq> i \<longrightarrow> conns t' ! j = conns t ! j)
            \<and> peer_of frame (conns t' ! i) \<and> echoes (conns t' ! i) = echoes (conns t ! i))"
proof -
  let ?ip = "take 4 (drop 26 frame)" and ?seg = "seg_of frame"
  let ?l = "\<lambda>i. listening (conns t ! i) \<and> local_port (conns t ! i) = dst_port ?seg"
  have ip: "sub_slice frame 26 30 = Some ?ip" using len by (simp add: sub_slice_def)
  have mac: "sub_slice frame 6 12 = Some (take 6 (drop 6 frame))" using len by (simp add: sub_slice_def)
  have rb: "resolve_bound ?ip ?seg = peer_of frame" by (rule ext) (simp add: resolve_bound_def peer_of_def)
  show ?thesis
  proof (cases "find (\<lambda>i. peer_of frame (conns t ! i)) [0..<MAX_CONN]")
    case (Some i)
    then show ?thesis
      using ok ip find_upt_Some [OF Some] by (auto simp: tcp_resolve_def rb owner_def)
  next
    case None
    then have no: "\<not> (\<exists>i < MAX_CONN. peer_of frame (conns t ! i))" by (simp add: find_upt_None)
    show ?thesis
    proof (cases "syn ?seg \<and> find ?l [0..<SERVER_SLOTS] \<noteq> None")
      case False
      then have "tcp_resolve frame ?seg t = Some (None, t)"
        using ip None by (auto simp: tcp_resolve_def rb)
      moreover have "\<not> owner frame t j" for j
        using False no by (auto simp: owner_def listener_for_def find_upt_None)
      ultimately show ?thesis using ok by simp
    next
      case True
      then obtain i where fi: "find ?l [0..<SERVER_SLOTS] = Some i" by blast
      note i = find_upt_Some [OF fi]
      let ?f = "\<lambda>c. c\<lparr>listening := False, in_use := True, peer_mac := take 6 (drop 6 frame),
          peer_ip := ?ip, peer_port := src_port ?seg, snd_nxt := INITIAL_SND\<rparr>"
      have "tcp_resolve frame ?seg t = Some (Some i, upd_slot i ?f t)"
        using ip mac None True fi by (simp add: tcp_resolve_def rb)
      moreover have "tcp_inv b (upd_slot i ?f t)"
        using ok len by (intro tcp_inv_upd_slot) (auto simp: conn_defs)
      moreover have "owner frame t i" unfolding owner_def if_not_P [OF no] using i True by (simp add: listener_for_def)
      moreover have "i < length (conns t)" using i(1) ok by (simp add: tcp_inv_def MAX_CONN_def)
      ultimately show ?thesis using i(2) by (auto simp: peer_of_def)
    qed
  qed
qed

lemma save_payload_spec:
  assumes "conn_shape (cur t)"
  obtains p n where "save_payload frame seg t = Some (upd_cur (\<lambda>c. c\<lparr>last_payload := p, last_payload_len := n\<rparr>) t)"
    "length p = MAX_PAYLOAD" "n \<le> MAX_PAYLOAD"
proof (cases "min (payload_len seg) MAX_PAYLOAD > 0 \<and> payload_off seg + min (payload_len seg) MAX_PAYLOAD \<le> length frame")
  case True
  define n where "n = min (payload_len seg) MAX_PAYLOAD"
  let ?bs = "take n (drop (payload_off seg) frame)"
  have b: "length ?bs = n" "n \<le> MAX_PAYLOAD" "n > 0" using True by (auto simp: n_def)
  have l: "length (last_payload (cur t)) = MAX_PAYLOAD" using assms by (simp add: conn_shape_def)
  have s: "sub_slice frame (payload_off seg) (payload_off seg + n) = Some ?bs"
    using True by (simp add: sub_slice_def n_def)
  have w: "blit_checked (last_payload (cur t)) 0 ?bs = Some (blit (last_payload (cur t)) 0 ?bs)"
    using b l by (simp add: blit_checked_def)
  show ?thesis
  proof (rule that)
    show "save_payload frame seg t =
        Some (upd_cur (\<lambda>c. c\<lparr>last_payload := blit (last_payload (cur t)) 0 ?bs, last_payload_len := n\<rparr>) t)"
      unfolding save_payload_def Let_def n_def [symmetric] using True s w by (simp add: n_def [symmetric])
  qed (use b l in simp_all)
next
  case False
  have e: "upd_cur (\<lambda>c. c\<lparr>last_payload_len := 0\<rparr>) t
      = upd_cur (\<lambda>c. c\<lparr>last_payload := last_payload (cur t), last_payload_len := 0\<rparr>) t"
    by (simp add: upd_cur_def upd_slot_def cur_def)
  have "save_payload frame seg t = Some (upd_cur (\<lambda>c. c\<lparr>last_payload_len := 0\<rparr>) t)"
    unfolding save_payload_def Let_def by (rule if_not_P) (rule False)
  then show ?thesis using that e assms by (simp add: conn_shape_def)
qed

text \<open>The part of a delivery that follows the choice of the connection.\<close>

lemma deliver_spec:
  fixes seg :: tcp_segment
  assumes t1: "tcp_inv b t1" and i: "i < MAX_CONN"
  defines "t2 \<equiv> upd_cur (\<lambda>c. c\<lparr>rcv_nxt := next_rcv seg (rcv_nxt c)\<rparr>) ((set_current i t1)\<lparr>saw_tcp := True\<rparr>)"
  shows "\<exists>t3. save_payload frame seg t2 = Some t3
     \<and> (case (if rst seg then Some (fsm_rst now t3) else fsm_segment now seg t3) of
          None \<Rightarrow> echoes (conns t1 ! i) = - 1
        | Some t4 \<Rightarrow> tcp_inv b t4 \<and> current t4 = i \<and> saw_tcp t4 \<and> binding (conns t4 ! i) = binding (conns t1 ! i)
            \<and> (\<forall>j. j \<noteq> i \<longrightarrow> conns t4 ! j = conns t1 ! j))"
proof -
  have il: "i < length (conns t1)" using t1 i by (simp add: tcp_inv_def)
  have s: "tcp_inv b ((set_current i t1)\<lparr>saw_tcp := True\<rparr>)" using tcp_inv_set_current [OF t1 i] by simp
  have t2: "tcp_inv b t2" unfolding t2_def by (rule upd_cur_inv [OF s]) (auto simp: conn_defs)
  have c2: "cur t2 = (conns t1 ! i)\<lparr>rcv_nxt := next_rcv seg (rcv_nxt (conns t1 ! i))\<rparr>" "current t2 = i" "saw_tcp t2"
    "\<And>j. j \<noteq> i \<Longrightarrow> conns t2 ! j = conns t1 ! j"
    using il by (simp_all add: t2_def cur_def upd_cur_def)  (simp_all add: upd_slot_def)
  obtain p n where g: "save_payload frame seg t2 = Some (upd_cur (\<lambda>c. c\<lparr>last_payload := p, last_payload_len := n\<rparr>) t2)"
      "length p = MAX_PAYLOAD" "n \<le> MAX_PAYLOAD"
    using save_payload_spec [OF tcp_inv_cur [OF t2]] .
  define t3 where "t3 = upd_cur (\<lambda>c. c\<lparr>last_payload := p, last_payload_len := n\<rparr>) t2"
  have t3: "tcp_inv b t3" unfolding t3_def by (rule upd_cur_inv [OF t2]) (use g in \<open>auto simp: conn_defs\<close>)
  have c3: "cur t3 = (cur t2)\<lparr>last_payload := p, last_payload_len := n\<rparr>" "current t3 = i" "saw_tcp t3"
    "\<And>j. j \<noteq> i \<Longrightarrow> conns t3 ! j = conns t1 ! j"
    using c2 tcp_inv_current [OF t2] by (simp_all add: t3_def) (simp add: upd_cur_def)
  let ?r = "if rst seg then Some (fsm_rst now t3) else fsm_segment now seg t3"
  have k: "case ?r of None \<Rightarrow> echoes (cur t3) = - 1 | Some t4 \<Rightarrow> keeps t3 t4"
    using fsm_segment_keeps [OF tcp_inv_current [OF t3] tcp_inv_cur [OF t3], of now seg]
      fsm_rst_spec(1) [OF tcp_inv_current [OF t3], of now] by (cases "rst seg") simp_all
  have b3: "binding (cur t3) = binding (conns t1 ! i)" by (simp add: c3 c2 binding_def)
  show ?thesis
  proof (cases ?r)
    case None
    then have "echoes (conns t1 ! i) = - 1" using k by (simp add: c3 c2)
    then show ?thesis using g(1) None by (simp add: t3_def [symmetric])
  next
    case (Some t4)
    then have k4: "keeps t3 t4" using k by simp
    then have "binding (conns t4 ! i) = binding (conns t1 ! i)"
      using b3 c3(2) by (auto simp: keeps_def local_step_def cur_def)
    then show ?thesis
      using g(1) Some k4 keeps_inv [OF t3 k4] c3 by (simp add: t3_def [symmetric] keeps_def local_step_def)
  qed
qed

text \<open>The whole of \<open>on_segment\<close>: the frame's owner, when there is one, is the only slot it may touch.\<close>

definition delivered :: "bytes \<Rightarrow> tcp \<Rightarrow> tcp \<Rightarrow> bool" where
  "delivered frame t t' \<longleftrightarrow>
     (if \<exists>j. owner frame t j
      then \<exists>j. owner frame t j \<and> current t' = j \<and> saw_tcp t' \<and> peer_of frame (conns t' ! j)
             \<and> (\<forall>k. k \<noteq> j \<longrightarrow> conns t' ! k = conns t ! k)
      else t' = t)"

lemma on_segment_spec:
  assumes ok: "tcp_inv b t" and len: "30 \<le> length frame"
  shows "case on_segment frame now t of
      None \<Rightarrow> \<exists>j. owner frame t j \<and> echoes (conns t ! j) = - 1
    | Some t' \<Rightarrow> tcp_inv b t' \<and> delivered frame t t'"
proof -
  let ?seg = "seg_of frame"
  obtain r t1 where r: "tcp_resolve frame ?seg t = Some (r, t1)" "tcp_inv b t1"
      "case r of None \<Rightarrow> t1 = t \<and> (\<forall>j. \<not> owner frame t j)
        | Some i \<Rightarrow> owner frame t i \<and> (\<forall>j. j \<noteq> i \<longrightarrow> conns t1 ! j = conns t ! j)
            \<and> peer_of frame (conns t1 ! i) \<and> echoes (conns t1 ! i) = echoes (conns t ! i)"
    using tcp_resolve_spec [OF ok len] by blast
  show ?thesis
  proof (cases r)
    case None
    then show ?thesis using r ok by (simp add: on_segment_def tcp_parse_seg_of delivered_def)
  next
    case (Some i)
    with r(3) have i: "owner frame t i" "\<And>j. j \<noteq> i \<Longrightarrow> conns t1 ! j = conns t ! j"
      "peer_of frame (conns t1 ! i)" "echoes (conns t1 ! i) = echoes (conns t ! i)" by simp_all
    obtain q where q: "on_segment frame now t = q"
        "case q of None \<Rightarrow> echoes (conns t1 ! i) = - 1
         | Some t4 \<Rightarrow> tcp_inv b t4 \<and> current t4 = i \<and> saw_tcp t4 \<and> binding (conns t4 ! i) = binding (conns t1 ! i)
            \<and> (\<forall>j. j \<noteq> i \<longrightarrow> conns t4 ! j = conns t1 ! j)"
      using deliver_spec [OF r(2) owner_lt [OF i(1)], of frame ?seg now] r(1) Some
      by (auto simp: on_segment_def tcp_parse_seg_of Let_def)
    show ?thesis
    proof (cases q)
      case None
      then show ?thesis using q i(1,4) by auto
    next
      case (Some t4)
      then have "peer_of frame (conns t4 ! i)" using q(2) i(3) by (simp add: binding_def peer_of_def)
      then show ?thesis using q i(1,2) Some by (auto simp: delivered_def)
    qed
  qed
qed

lemma tcp_listen_inv:
  assumes "tcp_inv b t" and "tcp_listen port now t = Some t'" and "unat (port - BASE_PORT) < SERVER_SLOTS"
  shows "tcp_inv b t'"
proof -
  let ?i = "unat (port - BASE_PORT)"
  let ?f = "\<lambda>c. c\<lparr>local_port := port, listening := True, in_use := False, peer_port := 0, snd_nxt := INITIAL_SND\<rparr>"
  have "tcp_inv b (set_current ?i (upd_slot ?i ?f t))"
    using assms by (intro tcp_inv_set_current tcp_inv_upd_slot) (auto simp: conn_defs MAX_CONN_def)
  moreover have "t' = open_passive now (set_current ?i (upd_slot ?i ?f t))"
    using assms(2) by (auto simp: tcp_listen_def checked_sub_def Let_def split: if_splits)
  ultimately show ?thesis using keeps_inv open_passive_keeps tcp_inv_current by blast
qed

lemma tcp_connect_inv:
  assumes "tcp_inv b t" and "length pmac = 6" and "length pip = 4"
  shows "tcp_inv True (tcp_connect pmac pip pport lport now t)"
    and "tfsm (conns (tcp_connect pmac pip pport lport now t) ! CLIENT_SLOT) = SynSent"
proof -
  let ?f = "\<lambda>c. c\<lparr>in_use := True, listening := False, local_port := lport, peer_mac := pmac, peer_ip := pip,
      peer_port := pport, snd_nxt := INITIAL_SND\<rparr>"
  define u where "u = set_current CLIENT_SLOT (upd_slot CLIENT_SLOT ?f t)"
  have u: "tcp_inv b u" "current u = CLIENT_SLOT"
    unfolding u_def using assms
    by (auto intro!: tcp_inv_set_current tcp_inv_upd_slot simp: conn_defs MAX_CONN_def CLIENT_SLOT_def)
  note rs = fsm_rst_spec [OF tcp_inv_current [OF u(1)], of now]
  define w where "w = fsm_rst now u"
  have w: "tcp_inv b w" "current w = CLIENT_SLOT" "tfsm (cur w) = TClosed"
    using keeps_inv [OF u(1) rs(1)] rs u(2) by (simp_all add: w_def keeps_def local_step_def)
  define x where "x = on_reset w"
  have cx: "cur x = (cur w)\<lparr>retransmit_at := 0, timewait_at := 0, snd_nxt := INITIAL_SND\<rparr>"
    using on_reset_facts(2) [OF tcp_inv_current [OF w(1)]] by (simp add: x_def)
  have x: "current x = CLIENT_SLOT" "tfsm (cur x) = TClosed" "conn_shape (cur x)" "conn_timers (cur x)"
    using w tcp_inv_cur [OF w(1)] on_reset_facts(1) [of w]
    by (simp_all add: cx) (simp_all add: x_def on_reset_def conn_defs)
  have xok: "tcp_inv True x"
    using local_inv [OF w(1), of x True] on_reset_facts(1) [of w] x w(2)
    by (simp add: x_def exact_def CLIENT_SLOT_def MAX_CONN_def)
  have e: "tcp_connect pmac pip pport lport now t = tcp_goto now SynSent (tcp_send F_SYN [] x)"
    using x(2) by (simp add: tcp_connect_def Let_def open_active_def send_defs x_def w_def u_def)
  have xl: "current x < length (conns x)" using tcp_inv_current [OF xok] .
  have k: "keeps x (tcp_goto now SynSent (tcp_send F_SYN [] x))"
    using xl x(2) by (intro keeps_send_goto) simp_all
  show "tcp_inv True (tcp_connect pmac pip pport lport now t)" unfolding e by (rule keeps_inv [OF xok k])
  have "cur (tcp_goto now SynSent (tcp_send F_SYN [] x)) = conn_goto now SynSent (cur (tcp_send F_SYN [] x))"
    using xl by (intro cur_tcp_goto) simp
  moreover have "current (tcp_goto now SynSent (tcp_send F_SYN [] x)) = CLIENT_SLOT"
    using x(1) by simp
  ultimately show "tfsm (conns (tcp_connect pmac pip pport lport now t) ! CLIENT_SLOT) = SynSent"
    unfolding e by (simp add: cur_def conn_goto_def)
qed

section \<open>The scale test\<close>

text \<open>
  Every instance closes, and the slot it borrows is left with a cancelled retransmit deadline and
  an armed TIME_WAIT deadline, whatever the state of the slot's own connection.
\<close>

lemma scale_conn_spec:
  assumes l: "current t < length (conns t)" and z: "last_payload_len (cur t) = 0"
  shows "\<exists>n t'. scale_conn now t = Some (True, t') \<and> local_step t t'
     \<and> cur t' = (cur t)\<lparr>snd_nxt := n, retransmit_at := 0, timewait_at := now + TIMEWAIT_TICKS\<rparr>"
proof -
  let ?c = "cur t"
  define u0 where "u0 = tcp_goto now TListen (upd_cur (\<lambda>c. c\<lparr>tfsm := TClosed\<rparr>) t)"
  define u1 where "u1 = tcp_goto now SynReceived (tcp_send (F_SYN OR F_ACK) [] u0)"
  define u2 where "u2 = tcp_goto now Established u1"
  define u3 where "u3 = tcp_goto now FinWait1 (tcp_send (F_FIN OR F_ACK) [] u2)"
  define u4 where "u4 = tcp_goto now TimeWait (tcp_send F_ACK [] u3)"
  define u5 where "u5 = tcp_goto now TClosed u4"
  define u6 where "u6 = upd_cur (\<lambda>c. c\<lparr>tfsm := tfsm ?c\<rparr>) u5"
  note us = u0_def u1_def u2_def u3_def u4_def u5_def u6_def
  have len: "current u0 < length (conns u0)" "current u1 < length (conns u1)" "current u2 < length (conns u2)"
    "current u3 < length (conns u3)" "current u4 < length (conns u4)" "current u5 < length (conns u5)"
    using l by (simp_all add: us)
  have c0: "cur u0 = conn_goto now TListen (?c\<lparr>tfsm := TClosed\<rparr>)"
    using l by (simp add: u0_def cur_tcp_goto)
  obtain n1 where c1: "cur u1 = conn_goto now SynReceived ((cur u0)\<lparr>snd_nxt := n1\<rparr>)"
    using len(1) by (simp add: u1_def cur_tcp_goto)
  have c2: "cur u2 = conn_goto now Established (cur u1)" using len(2) by (simp add: u2_def cur_tcp_goto)
  obtain n3 where c3: "cur u3 = conn_goto now FinWait1 ((cur u2)\<lparr>snd_nxt := n3\<rparr>)"
    using len(3) by (simp add: u3_def cur_tcp_goto)
  obtain n4 where c4: "cur u4 = conn_goto now TimeWait ((cur u3)\<lparr>snd_nxt := n4\<rparr>)"
    using len(4) by (simp add: u4_def cur_tcp_goto)
  have c5: "cur u5 = conn_goto now TClosed (cur u4)" using len(5) by (simp add: u5_def cur_tcp_goto)
  have st: "tfsm (cur u0) = TListen" "tfsm (cur u1) = SynReceived" "tfsm (cur u2) = Established"
    "tfsm (cur u3) = FinWait1" "tfsm (cur u4) = TimeWait" "tfsm (cur u5) = TClosed"
    "last_payload_len (cur u2) = 0"
    using z by (simp_all add: c0 c1 c2 c3 c4 c5 conn_goto_def)
  have a0: "open_passive now (upd_cur (\<lambda>c. c\<lparr>tfsm := TClosed\<rparr>) t) = u0"
    using l by (simp add: open_passive_def u0_def)
  have a1: "fsm_segment now (TcpSegment_default\<lparr>syn := True\<rparr>) u0 = Some u1"
    by (simp add: fsm_segment_def st u1_def send_defs)
  have a2: "fsm_segment now (TcpSegment_default\<lparr>ack := True\<rparr>) u1 = Some u2"
    by (simp add: fsm_segment_def st u2_def)
  have a3: "fsm_segment now (TcpSegment_default\<lparr>ack := True, payload_len := 8\<rparr>) u2 = Some u2"
    by (simp add: fsm_segment_def st TcpSegment_default_def deliver_data_def)
  have a4: "fsm_close now u2 = u3" by (simp add: fsm_close_def st u3_def send_defs)
  have a5: "fsm_segment now (TcpSegment_default\<lparr>fin := True, ack := True\<rparr>) u3 = Some u4"
    by (simp add: fsm_segment_def st u4_def send_defs)
  have a6: "fsm_timeout now u4 = u5" by (simp add: fsm_timeout_def st u5_def)
  have "scale_conn now t = Some (True, u6)"
    unfolding scale_conn_def Let_def a0 by (simp add: a1 a2 a3 a4 a5 a6 st u6_def)
  moreover have "local_step t u6"
    unfolding us by (intro local_trans [OF _ local_upd_cur] local_trans [OF _ tcp_goto_local]
      local_trans [OF _ tcp_send_facts(1)] local_upd_cur)
  moreover have "cur u6 = ?c\<lparr>snd_nxt := n4, retransmit_at := 0, timewait_at := now + TIMEWAIT_TICKS\<rparr>"
    using len(6) by (simp add: u6_def c5 c4 c3 c2 c1 c0 conn_goto_def)
  ultimately show ?thesis by blast
qed

lemma scale_loop_spec:
  assumes "current t < length (conns t)" and "last_payload_len (cur t) = 0"
  shows "\<exists>t'. scale_loop n now t = Some (n, t') \<and> local_step t t' \<and> (conn_shape (cur t) \<longrightarrow> conn_shape (cur t'))
     \<and> (0 < n \<longrightarrow> tfsm (cur t') = tfsm (cur t) \<and> retransmit_at (cur t') = 0 \<and> timewait_at (cur t') = now + TIMEWAIT_TICKS)"
  using assms
proof (induction n arbitrary: t)
  case (Suc n)
  obtain s u where u: "scale_conn now t = Some (True, u)" "local_step t u"
      "cur u = (cur t)\<lparr>snd_nxt := s, retransmit_at := 0, timewait_at := now + TIMEWAIT_TICKS\<rparr>"
    using scale_conn_spec [OF Suc.prems] by blast
  then have "current u < length (conns u)" "last_payload_len (cur u) = 0" "conn_shape (cur u) = conn_shape (cur t)"
    using Suc.prems by (simp_all add: local_step_def conn_defs)
  with Suc.IH [of u] obtain t' where t': "scale_loop n now u = Some (n, t')" "local_step u t'"
      "conn_shape (cur t) \<longrightarrow> conn_shape (cur t')"
      "0 < n \<longrightarrow> tfsm (cur t') = tfsm (cur u) \<and> retransmit_at (cur t') = 0 \<and> timewait_at (cur t') = now + TIMEWAIT_TICKS"
    by auto
  have "n = 0 \<Longrightarrow> t' = u" using t'(1) by simp
  then show ?case using t' u local_trans [OF u(2) t'(2)] by (cases "n = 0") auto
qed simp

lemma scale_stress_spec:
  assumes "tcp_inv b t"
  shows "\<exists>t'. scale_stress now t = Some (16, t') \<and> tcp_inv False t'
     \<and> (\<forall>i. i \<noteq> CLIENT_SLOT \<longrightarrow> conns t' ! i = conns t ! i)
     \<and> tfsm (conns t' ! CLIENT_SLOT) = tfsm (conns t ! CLIENT_SLOT)
     \<and> timewait_at (conns t' ! CLIENT_SLOT) = now + TIMEWAIT_TICKS"
proof -
  define u where "u = upd_cur (\<lambda>c. c\<lparr>last_payload_len := 0\<rparr>) (set_current CLIENT_SLOT t)"
  have cl: "CLIENT_SLOT < MAX_CONN" by (simp add: CLIENT_SLOT_def MAX_CONN_def)
  have u: "tcp_inv b u"
    unfolding u_def using tcp_inv_set_current [OF assms cl] by (rule upd_cur_inv) (auto simp: conn_defs)
  have cu: "current u = CLIENT_SLOT" "cur u = (conns t ! CLIENT_SLOT)\<lparr>last_payload_len := 0\<rparr>"
    using assms cl by (simp_all add: u_def tcp_inv_def)
  have ou: "conns u ! i = conns t ! i" if "i \<noteq> CLIENT_SLOT" for i
    using that by (simp add: u_def upd_cur_def)
  obtain t' where t': "scale_loop 16 now u = Some (16, t')" "local_step u t'" "conn_shape (cur t')"
      "tfsm (cur t') = tfsm (cur u)" "timewait_at (cur t') = now + TIMEWAIT_TICKS"
    using scale_loop_spec [OF tcp_inv_current [OF u], of 16 now] cu(2) tcp_inv_cur [OF u] by auto
  have "tcp_inv False t'"
    using local_inv [OF u t'(2,3), of False] cu(1) by (simp add: exact_def CLIENT_SLOT_def)
  moreover have "conns t' ! CLIENT_SLOT = cur t'" using t'(2) cu(1) by (simp add: cur_def local_step_def)
  ultimately show ?thesis
    using t' cu ou by (auto simp: scale_stress_def u_def [symmetric] local_step_def)
qed

section \<open>Reachable states\<close>

text \<open>
  The states between two calls of the module's interface, in any order. The flag is false from a
  \<open>scale_stress\<close> to the next \<open>connect\<close>, which clears the client slot's timers.
\<close>

inductive tcp_reach :: "bool \<Rightarrow> tcp \<Rightarrow> bool" where
  tr_init: "length mac = 6 \<Longrightarrow> tcp_reach True (TCP_init mac)"
| tr_listen: "tcp_reach b t \<Longrightarrow> unat (port - BASE_PORT) < SERVER_SLOTS \<Longrightarrow> tcp_listen port now t = Some t' \<Longrightarrow>
    tcp_reach b t'"
| tr_connect: "tcp_reach b t \<Longrightarrow> length pmac = 6 \<Longrightarrow> length pip = 4 \<Longrightarrow>
    tcp_reach True (tcp_connect pmac pip pport lport now t)"
| tr_segment: "tcp_reach b t \<Longrightarrow> 30 \<le> length frame \<Longrightarrow> on_segment frame now t = Some t' \<Longrightarrow> tcp_reach b t'"
| tr_close: "tcp_reach b t \<Longrightarrow> i < MAX_CONN \<Longrightarrow> tcp_reach b (tcp_close now i t)"
| tr_timers: "tcp_reach b t \<Longrightarrow> tcp_reach b (drain_timers now t)"
| tr_scale: "tcp_reach b t \<Longrightarrow> scale_stress now t = Some (k, t') \<Longrightarrow> tcp_reach False t'"

lemma conn_init_ok: "conn_shape CONN_INIT" "conn_timers CONN_INIT"
  by (simp_all add: CONN_INIT_def conn_defs)

lemma tcp_inv_init: "length mac = 6 \<Longrightarrow> tcp_inv b (TCP_init mac)"
proof -
  assume "length mac = 6"
  moreover have "0 < MAX_CONN" by (simp add: MAX_CONN_def)
  ultimately show ?thesis by (simp add: tcp_inv_def TCP_init_def conn_init_ok)
qed

lemma tcp_reach_inv: "tcp_reach b t \<Longrightarrow> tcp_inv b t"
proof (induction rule: tcp_reach.induct)
  case (tr_segment b t frame now t')
  then show ?case using on_segment_spec [OF tr_segment.IH tr_segment(2), of now] by simp
next
  case (tr_close b t i now)
  have "tcp_inv b (set_current i t)" using tr_close by (simp add: tcp_inv_set_current)
  then show ?case
    unfolding tcp_close_def using keeps_inv fsm_close_keeps tcp_inv_current by blast
next
  case (tr_scale b t now k t')
  then show ?case using scale_stress_spec [OF tr_scale.IH, of now] by auto
next
  case (tr_listen b t port now t')
  then show ?case using tcp_listen_inv by blast
qed (simp_all add: tcp_inv_init tcp_connect_inv drain_timers_inv)

section \<open>Properties\<close>

text \<open>
  Every segment on the wire verifies and round-trips. The frame that \<open>send\<close> builds has a
  valid IPv4 header checksum and a valid TCP checksum over the pseudo-header, and the parser
  reads from it the ports, sequence numbers, flags, window and payload that were sent.
\<close>

theorem tcp_frame_roundtrip:
  assumes "length (peer_mac c) = 6" and "length (peer_ip c) = 4" and "length mac = 6"
    and "length payload \<le> MAX_PAYLOAD"
  shows "checksum (ip_header c (20 + length payload)) = 0
     \<and> checksum (pseudo_header c (20 + length payload) @ tcp_bytes c flags payload) = 0
     \<and> tcp_parse (tcp_frame c mac flags payload) = Some
         \<lparr>src_port = local_port c, dst_port = peer_port c, seq = snd_nxt c, ack_num = rcv_nxt c,
          syn = (flags AND F_SYN \<noteq> 0), ack = (flags AND F_ACK \<noteq> 0), fin = (flags AND F_FIN \<noteq> 0),
          rst = (flags AND F_RST \<noteq> 0), window = RCV_WINDOW, payload_off = 54,
          payload_len = length payload\<rparr>
     \<and> drop 54 (tcp_frame c mac flags payload) = payload"
proof -
  have a: "addrs_ok c" using assms(1,2) by (simp add: addrs_ok_def)
  obtain csum where tb: "tcp_bytes c flags payload =
      u16_to_be (local_port c) @ u16_to_be (peer_port c) @ u32_to_be (snd_nxt c) @ u32_to_be (rcv_nxt c)
       @ [0x50, flags] @ u16_to_be RCV_WINDOW @ csum @ [0, 0] @ payload" "length csum = 2"
    using tcp_bytes_split [OF a] .
  have "drop 54 (tcp_frame c mac flags payload) = payload"
    using assms(1,3) tb length_headers(2) [OF a] by (simp add: tcp_frame_def)
  then show ?thesis
    using ip_header_verifies [OF a] tcp_bytes_verifies [OF a assms(4)] parse_tcp_frame [OF a assms(3)]
    by (simp only: tcp_parse_seg_of)
qed

theorem tcp_frame_roundtrip_witness:
  "checksum (ip_header CONN_INIT (20 + length [1, 2, 3 :: u8])) = 0
     \<and> checksum (pseudo_header CONN_INIT (20 + length [1, 2, 3 :: u8]) @ tcp_bytes CONN_INIT F_ACK [1, 2, 3]) = 0
     \<and> tcp_parse (tcp_frame CONN_INIT [2, 0, 0, 0, 0, 1] F_ACK [1, 2, 3]) = Some
         \<lparr>src_port = local_port CONN_INIT, dst_port = peer_port CONN_INIT, seq = snd_nxt CONN_INIT,
          ack_num = rcv_nxt CONN_INIT,
          syn = (F_ACK AND F_SYN \<noteq> 0), ack = (F_ACK AND F_ACK \<noteq> 0), fin = (F_ACK AND F_FIN \<noteq> 0),
          rst = (F_ACK AND F_RST \<noteq> 0), window = RCV_WINDOW, payload_off = 54,
          payload_len = length [1, 2, 3 :: u8]\<rparr>
     \<and> drop 54 (tcp_frame CONN_INIT [2, 0, 0, 0, 0, 1] F_ACK [1, 2, 3]) = [1, 2, 3]"
  by (rule tcp_frame_roundtrip) (simp_all add: CONN_INIT_def MAX_PAYLOAD_def)

text \<open>
  C12: timers are armed exactly when they are needed. After any sequence of passive and active
  opens, segments, closes, timer turns and runs of the scale test, a connection's retransmit
  deadline is set if and only if it is in \<open>$SynSent\<close> or \<open>$SynReceived\<close>, and its TIME_WAIT deadline
  if and only if it is in \<open>$TimeWait\<close>. This holds of the four server slots always, and of the
  client slot except after \<open>scale_stress\<close>, whose instances leave a TIME_WAIT deadline in it, until
  the next \<open>connect\<close> clears it (\<open>clean\<close>).
\<close>

theorem tcp_timers_exact:
  assumes "tcp_reach clean t" and "i < MAX_CONN" and "clean \<or> i < SERVER_SLOTS"
  shows "(retransmit_at (conns t ! i) \<noteq> 0 \<longleftrightarrow>
            tfsm (conns t ! i) = SynSent \<or> tfsm (conns t ! i) = SynReceived)
       \<and> (timewait_at (conns t ! i) \<noteq> 0 \<longleftrightarrow> tfsm (conns t ! i) = TimeWait)"
proof -
  have "conn_timers (conns t ! i)"
    using tcp_reach_inv [OF assms(1)] assms(2,3) by (auto simp: tcp_inv_def exact_def)
  then show ?thesis by (simp add: conn_timers_def)
qed

text \<open>The scale test, and then an active open that has sent its SYN.\<close>

definition demo_scaled :: tcp where
  "demo_scaled = snd (the (scale_stress 2 (TCP_init [2, 0, 0, 0, 0, 1])))"

definition demo_tcp :: tcp where
  "demo_tcp = tcp_connect [2, 0, 0, 0, 0, 2] [10, 0, 2, 100] 9 50000 5 demo_scaled"

lemma demo_scaled_reach: "tcp_reach False demo_scaled"
proof -
  have i: "tcp_reach True (TCP_init [2, 0, 0, 0, 0, 1])" by (rule tr_init) simp
  obtain u where u: "scale_stress 2 (TCP_init [2, 0, 0, 0, 0, 1]) = Some (16, u)"
    using scale_stress_spec [OF tcp_reach_inv [OF i], of 2] by blast
  then show ?thesis using tr_scale [OF i u] by (simp add: demo_scaled_def)
qed

lemma demo_tcp_reach: "tcp_reach True demo_tcp" and demo_tcp_state: "tfsm (conns demo_tcp ! 4) = SynSent"
  using tr_connect [OF demo_scaled_reach] tcp_connect_inv(2) [OF tcp_reach_inv [OF demo_scaled_reach]]
  by (simp_all add: demo_tcp_def CLIENT_SLOT_def SERVER_SLOTS_def)

theorem tcp_timers_exact_witness:
  "tcp_reach True demo_tcp \<and> retransmit_at (conns demo_tcp ! 4) \<noteq> 0 \<and> timewait_at (conns demo_tcp ! 4) = 0"
proof -
  have "4 < MAX_CONN" by (simp add: MAX_CONN_def SERVER_SLOTS_def)
  from tcp_timers_exact [OF demo_tcp_reach this] show ?thesis
    using demo_tcp_reach by (simp add: demo_tcp_state)
qed

text \<open>
  TIME_WAIT ends. One turn of the timer wheel closes every bound connection whose
  TIME_WAIT deadline has passed, whichever slots it and the other connections occupy.
\<close>

theorem tcp_timewait_closes:
  assumes "tcp_inv clean t" and "i < MAX_CONN" and "clean \<or> i < SERVER_SLOTS" and "in_use (conns t ! i)"
    and "tfsm (conns t ! i) = TimeWait" and "timewait_at (conns t ! i) \<le> now"
  shows "is_closed i (drain_timers now t)"
proof -
  have "i \<in> set [0..<MAX_CONN]" using assms(2) by simp
  then show ?thesis
    using fold_drain [OF assms(1), of "[0..<MAX_CONN]" now] assms(3-6)
    by (simp add: is_closed_def drain_timers_def exact_def)
qed

definition demo_slot :: "(conn \<Rightarrow> conn) \<Rightarrow> tcp" where
  "demo_slot f = upd_slot 4 f (TCP_init [2, 0, 0, 0, 0, 1])"

lemma demo_slot_ok:
  assumes "conn_shape (f CONN_INIT)" and "conn_timers (f CONN_INIT)"
  shows "tcp_inv True (demo_slot f)" and "conns (demo_slot f) ! 4 = f CONN_INIT"
proof -
  have "conns (TCP_init [2, 0, 0, 0, 0, 1]) ! 4 = CONN_INIT" by (simp add: TCP_init_def MAX_CONN_def SERVER_SLOTS_def)
  then show "tcp_inv True (demo_slot f)" and "conns (demo_slot f) ! 4 = f CONN_INIT"
    using tcp_inv_upd_slot [OF tcp_inv_init [of "[2, 0, 0, 0, 0, 1]" True], of 4 f] assms
    by (simp_all add: demo_slot_def) (simp add: TCP_init_def upd_slot_def MAX_CONN_def SERVER_SLOTS_def)
qed

theorem tcp_timewait_closes_witness:
  "is_closed 4 (drain_timers 30 (demo_slot (\<lambda>c. c\<lparr>in_use := True, tfsm := TimeWait, timewait_at := 25\<rparr>)))"
proof -
  let ?f = "\<lambda>c. c\<lparr>in_use := True, tfsm := TimeWait, timewait_at := 25\<rparr>"
  have "conn_shape (?f CONN_INIT)" "conn_timers (?f CONN_INIT)" by (simp_all add: CONN_INIT_def conn_defs)
  from demo_slot_ok [of ?f, OF this] show ?thesis
    by (intro tcp_timewait_closes [where clean = True]) (simp_all add: MAX_CONN_def SERVER_SLOTS_def)
qed

text \<open>
  C33: segments are demultiplexed exactly. A received frame of at least 30 bytes, of any content,
  panics only if the 32-bit echo counter of the connection it belongs to is at its maximum.
  Otherwise it is handled by the one connection it belongs to and changes no other: the first
  slot in use with the segment's destination port as its local port and the segment's source
  port and source address as its peer (the destination address is not compared), or, for a SYN
  with no such slot, the first listener on the destination port, which is then bound to the
  sender. A frame that belongs to no connection changes nothing.
\<close>

theorem tcp_segment_isolated:
  assumes "tcp_reach clean t" and "30 \<le> length frame"
  shows "case on_segment frame now t of
      None \<Rightarrow> \<exists>j. owner frame t j \<and> echoes (conns t ! j) = - 1
    | Some t' \<Rightarrow> tcp_inv clean t'
        \<and> (if \<exists>j. owner frame t j
           then \<exists>j. owner frame t j \<and> current t' = j \<and> saw_tcp t'
                  \<and> in_use (conns t' ! j) \<and> local_port (conns t' ! j) = dst_port (seg_of frame)
                  \<and> peer_port (conns t' ! j) = src_port (seg_of frame)
                  \<and> peer_ip (conns t' ! j) = take 4 (drop 26 frame)
                  \<and> (\<forall>k. k \<noteq> j \<longrightarrow> conns t' ! k = conns t ! k)
           else t' = t)"
  using on_segment_spec [OF tcp_reach_inv [OF assms(1)] assms(2), of now]
  by (simp only: delivered_def peer_of_def conj_assoc)

text \<open>A server that listens on port 7, and a SYN to that port from 10.0.2.2:1234.\<close>

definition demo_server :: tcp where
  "demo_server = the (tcp_listen 7 1 (TCP_init [2, 0, 0, 0, 0, 1]))"

definition demo_syn :: bytes where
  "demo_syn = [2, 0, 0, 0, 0, 1,  2, 0, 0, 0, 0, 9,  8, 0,
     0x45, 0, 0, 40, 0, 1, 0, 0, 64, 6, 0, 0, 10, 0, 2, 2, 10, 0, 2, 15,
     4, 210, 0, 7, 0, 0, 0, 5, 0, 0, 0, 0, 0x50, 2, 16, 0, 0, 0, 0, 0]"

lemma demo_server_slots:
  "conns demo_server ! 0 = CONN_INIT\<lparr>tfsm := TListen, local_port := 7, listening := True\<rparr>"
  "i < MAX_CONN \<Longrightarrow> i \<noteq> 0 \<Longrightarrow> conns demo_server ! i = CONN_INIT"
proof -
  let ?u = "set_current 0 (upd_slot 0 (\<lambda>c. c\<lparr>local_port := 7, listening := True, in_use := False, peer_port := 0,
      snd_nxt := INITIAL_SND\<rparr>) (TCP_init [2, 0, 0, 0, 0, 1]))"
  have m: "0 < MAX_CONN" by (simp add: MAX_CONN_def)
  then have ul: "current ?u < length (conns ?u)" by (simp add: TCP_init_def)
  have cu: "cur ?u = CONN_INIT\<lparr>local_port := 7, listening := True\<rparr>" using m by (simp add: TCP_init_def CONN_INIT_def)
  have d: "demo_server = tcp_goto 1 TListen ?u"
    using cu by (simp add: demo_server_def tcp_listen_def checked_sub_def BASE_PORT_def open_passive_def CONN_INIT_def)
  have "conns demo_server ! 0 = cur (tcp_goto 1 TListen ?u)" by (simp add: d cur_def)
  then show "conns demo_server ! 0 = CONN_INIT\<lparr>tfsm := TListen, local_port := 7, listening := True\<rparr>"
    using cur_tcp_goto [OF ul] cu by (simp add: conn_goto_def CONN_INIT_def)
  show "i < MAX_CONN \<Longrightarrow> i \<noteq> 0 \<Longrightarrow> conns demo_server ! i = CONN_INIT"
    using tcp_goto_local [of ?u 1 TListen] by (simp add: d local_step_def TCP_init_def)
qed

lemma demo_server_reach: "tcp_reach True demo_server"
proof -
  have "tcp_listen 7 1 (TCP_init [2, 0, 0, 0, 0, 1]) = Some demo_server"
    by (simp add: demo_server_def tcp_listen_def checked_sub_def BASE_PORT_def)
  moreover have "tcp_reach True (TCP_init [2, 0, 0, 0, 0, 1])" by (rule tr_init) simp
  ultimately show ?thesis using tr_listen [of True _ 7] by (simp add: BASE_PORT_def SERVER_SLOTS_def)
qed

lemma demo_syn_owner: "owner demo_syn demo_server j \<longleftrightarrow> j = 0"
proof -
  have s: "dst_port (seg_of demo_syn) = 7" "syn (seg_of demo_syn)"
    by (simp_all add: demo_syn_def seg_of_def be16_at_def u16_from_be_def u16_from_le_def F_SYN_def)
  have "\<not> in_use (conns demo_server ! i)" if "i < MAX_CONN" for i
    using demo_server_slots that by (cases "i = 0") (simp_all add: CONN_INIT_def)
  then have n: "\<not> (\<exists>i < MAX_CONN. peer_of demo_syn (conns demo_server ! i))" by (auto simp: peer_of_def)
  have "listener_for demo_syn (conns demo_server ! 0)" by (simp add: listener_for_def demo_server_slots s)
  moreover have "0 < SERVER_SLOTS" by (simp add: SERVER_SLOTS_def)
  ultimately show ?thesis unfolding owner_def if_not_P [OF n] by (metis gr0I not_less_zero)
qed

theorem tcp_segment_isolated_witness:
  "\<exists>t'. on_segment demo_syn 9 demo_server = Some t' \<and> tcp_inv True t' \<and> current t' = 0 \<and> saw_tcp t'
     \<and> in_use (conns t' ! 0) \<and> local_port (conns t' ! 0) = 7 \<and> peer_port (conns t' ! 0) = 1234
     \<and> peer_ip (conns t' ! 0) = [10, 0, 2, 2] \<and> conns t' ! 1 = conns demo_server ! 1"
proof -
  have s: "dst_port (seg_of demo_syn) = 7" "src_port (seg_of demo_syn) = 1234" "take 4 (drop 26 demo_syn) = [10, 0, 2, 2]"
    "30 \<le> length demo_syn"
    by (simp_all add: demo_syn_def seg_of_def be16_at_def u16_from_be_def u16_from_le_def)
  have "echoes (conns demo_server ! 0) \<noteq> - 1" by (simp add: demo_server_slots CONN_INIT_def)
  moreover have "owner demo_syn demo_server = (\<lambda>j. j = 0)" by (rule ext) (rule demo_syn_owner)
  ultimately show ?thesis
    using tcp_segment_isolated [OF demo_server_reach s(4), of 9]
    by (cases "on_segment demo_syn 9 demo_server") (auto simp: s)
qed

text \<open>
  A retransmitted SYN carries the wrong sequence number. \<open>send\<close> advances \<open>snd_nxt\<close> each
  time it sends a SYN, so the copy that the retransmit timer sends has a sequence number one
  higher than the original.
\<close>

theorem syn_retransmit_seq_shift:
  assumes "tcp_inv True t" and "i < MAX_CONN" and "in_use (conns t ! i)" and "tfsm (conns t ! i) = TClosed"
    and "0 < now"
  shows "\<exists>f1 f2. tx (open_active now (set_current i t)) = tx t @ [f1]
     \<and> tx (drain_slot (now + RETRANSMIT_TICKS) i (open_active now (set_current i t))) = tx t @ [f1, f2]
     \<and> syn (seg_of f1) \<and> syn (seg_of f2) \<and> seq (seg_of f2) = seq (seg_of f1) + 1"
proof -
  have ex: "exact True i" by (simp add: exact_def)
  define u where "u = set_current i t"
  have u: "tcp_inv True u" "cur u = conns t ! i" "current u = i" "tx u = tx t"
    using tcp_inv_set_current [OF assms(1,2)] by (simp_all add: u_def)
  have ul: "current u < length (conns u)" using tcp_inv_current [OF u(1)] .
  define w where "w = tcp_goto now SynSent (tcp_send F_SYN [] u)"
  have oa: "open_active now u = w" using u(2) assms(4) by (simp add: open_active_def w_def send_defs)
  have k: "keeps u w" unfolding w_def using ul u(2) assms(4) by (intro keeps_send_goto) simp_all
  then have wok: "tcp_inv True w" and cw: "current w = i" using keeps_inv [OF u(1)] u(3) by (auto simp: keeps_def local_step_def)
  define c where "c = conns t ! i"
  have snd: "cur w = conn_goto now SynSent (c\<lparr>snd_nxt := snd_nxt c + 1\<rparr>)"
    using ul u(2) by (simp add: w_def cur_tcp_goto c_def advance_def F_SYN_def F_FIN_def)
  then have ci: "conns w ! i = conn_goto now SynSent (c\<lparr>snd_nxt := snd_nxt c + 1\<rparr>)"
    using cw by (simp add: cur_def)
  have txw: "tx w = tx t @ [tcp_frame c (nic_mac u) F_SYN []]"
    using ul u(2,4) by (simp add: w_def c_def tcp_goto_def enter_state_def exit_state_def arm_retransmit_def
        cancel_retransmit_def split: tcp_state.split)
  define d where "d = (conn_goto now SynSent (c\<lparr>snd_nxt := snd_nxt c + 1\<rparr>))
      \<lparr>retransmit_at := now + RETRANSMIT_TICKS + RETRANSMIT_TICKS\<rparr>"
  have use: "in_use (conns w ! i)" "tfsm (conns w ! i) = SynSent" "retransmit_at (conns w ! i) \<le> now + RETRANSMIT_TICKS"
    using assms(3) by (simp_all add: ci conn_goto_def c_def)
  have mac: "nic_mac w = nic_mac u" "length (nic_mac u) = 6"
    using k u(1) by (auto simp: keeps_def local_step_def tcp_inv_def)
  have "tx (drain_slot (now + RETRANSMIT_TICKS) i w) = tx w @ [tcp_frame d (nic_mac w) F_SYN []]"
    using drain_slot_spec(4) [OF wok assms(2) ex, of "now + RETRANSMIT_TICKS"] use
    by (simp add: ci d_def conn_goto_def)
  then have tx2: "tx (drain_slot (now + RETRANSMIT_TICKS) i w)
      = tx t @ [tcp_frame c (nic_mac u) F_SYN [], tcp_frame d (nic_mac u) F_SYN []]"
    using txw mac(1) by simp
  have a: "addrs_ok c" using assms(1,2) by (simp add: c_def tcp_inv_def conn_shape_def)
  then have ad: "addrs_ok d" by (simp add: d_def conn_goto_def addrs_ok_def)
  have "snd_nxt d = snd_nxt c + 1" by (simp add: d_def conn_goto_def)
  then have "seq (seg_of (tcp_frame d (nic_mac u) F_SYN [])) = seq (seg_of (tcp_frame c (nic_mac u) F_SYN [])) + 1"
    by (simp add: parse_tcp_frame [OF a mac(2)] parse_tcp_frame [OF ad mac(2)])
  moreover have "syn (seg_of (tcp_frame c (nic_mac u) F_SYN []))" "syn (seg_of (tcp_frame d (nic_mac u) F_SYN []))"
    by (simp_all add: parse_tcp_frame [OF a mac(2)] parse_tcp_frame [OF ad mac(2)] F_SYN_def)
  ultimately show ?thesis using txw tx2 oa by (simp add: u_def)
qed

theorem syn_retransmit_seq_shift_witness:
  "\<exists>f1 f2. tx (open_active 7 (set_current 4 (demo_slot (\<lambda>c. c\<lparr>in_use := True\<rparr>))))
        = tx (demo_slot (\<lambda>c. c\<lparr>in_use := True\<rparr>)) @ [f1]
     \<and> tx (drain_slot (7 + RETRANSMIT_TICKS) 4
              (open_active 7 (set_current 4 (demo_slot (\<lambda>c. c\<lparr>in_use := True\<rparr>)))))
        = tx (demo_slot (\<lambda>c. c\<lparr>in_use := True\<rparr>)) @ [f1, f2]
     \<and> syn (seg_of f1) \<and> syn (seg_of f2) \<and> seq (seg_of f2) = seq (seg_of f1) + 1"
proof -
  have "conn_shape (CONN_INIT\<lparr>in_use := True\<rparr>)" "conn_timers (CONN_INIT\<lparr>in_use := True\<rparr>)"
    by (simp_all add: CONN_INIT_def conn_defs)
  note d = demo_slot_ok [of "\<lambda>c. c\<lparr>in_use := True\<rparr>", OF this]
  show ?thesis
    by (rule syn_retransmit_seq_shift) (simp_all add: d MAX_CONN_def SERVER_SLOTS_def CONN_INIT_def)
qed

end
