(* ===== verification/Net.thy ===== *)
theory Net
  imports IpReasm TcpInv
begin

text \<open>
  The protocol layer \<open>kernel/src/net.rs\<close>: ARP, ICMP echo, outbound IPv4 fragmentation, UDP and
  DHCP, and the receive path that classifies a frame and dispatches it, with the Frame systems
  \<open>ArpResolver\<close>, \<open>UdpSocket\<close> and \<open>RxPipeline\<close> (\<open>frame/arp_resolver.frs\<close>,
  \<open>frame/udp_socket.frs\<close>, \<open>frame/rx_pipeline.frs\<close>).

  The statics of the module are one record. The state of \<open>tcp.rs\<close> and of \<open>ip_reasm.rs\<close> are its
  fields \<open>ntcp\<close> and \<open>nreasm\<close>; the frames handed to \<open>virtio_net::tx_frame\<close> by every module are
  the list \<open>tx\<close> of the former. \<open>now\<close> is the tick counter and a received frame is an argument.
  Every read of a frame is a checked index or slice, in the order of the source, and the tests
  joined by \<open>&&\<close> and \<open>||\<close> are evaluated from the left (\<open>all_of\<close>, \<open>any_of\<close>): \<open>None\<close> is a panic.
\<close>

section \<open>State\<close>

record rx_descriptor =
  ethertype :: u16
  ip_proto :: u8

definition ETHERTYPE_ARP :: bytes where "ETHERTYPE_ARP = [0x08, 0x06]"
definition ETHERTYPE_IPV4 :: bytes where "ETHERTYPE_IPV4 = [0x08, 0x00]"
definition ARP_OPER_REQUEST :: bytes where "ARP_OPER_REQUEST = [0x00, 0x01]"
definition ARP_OPER_REPLY :: bytes where "ARP_OPER_REPLY = [0x00, 0x02]"
definition IP_PROTO_ICMP :: u8 where "IP_PROTO_ICMP = 1"
definition ICMP_ECHO_REPLY :: u8 where "ICMP_ECHO_REPLY = 0"
definition ICMP_ECHO_REQUEST :: u8 where "ICMP_ECHO_REQUEST = 8"
definition GUEST_IP :: bytes where "GUEST_IP = [10, 0, 2, 15]"
definition GATEWAY_IP :: bytes where "GATEWAY_IP = [10, 0, 2, 2]"
definition ARP_RETRANSMIT_TICKS :: nat where "ARP_RETRANSMIT_TICKS = 100"
definition DHCP_XID :: bytes where "DHCP_XID = [0x39, 0x03, 0xF3, 0x26]"
definition MAX_FRAME :: nat where "MAX_FRAME = 1514"
definition REPLY_MAX :: nat where "REPLY_MAX = 14 + 20 + 8192"
definition PING_PAYLOAD :: bytes where "PING_PAYLOAD = [102, 114, 97, 109, 101, 111, 115, 33]"
definition PING_ID :: u16 where "PING_ID = 0x1234"

datatype rx_state = RxIdle | RxClassifying | RxArp | RxIpv4 | RxIcmp | RxUdp | RxTcp
datatype arp_state = Incomplete | Resolved | Failed
datatype udp_state = Unbound | Bound

record udp_socket =
  ustate :: udp_state
  uport :: u16
  received :: u32

record arp_resolver =
  astate :: arp_state
  attempts :: nat
  max_attempts :: nat

record net =
  gateway_mac :: bytes
  arp_deadline :: nat
  arp_failed :: bool
  rx_frame :: bytes
  arp_gateway_seen :: bool
  icmp_reply_seen :: bool
  expected_ping_seq :: u16
  pipeline :: rx_state
  udp_sock :: udp_socket
  dhcp_offer_seen :: bool
  offered_ip :: bytes
  reply_buf :: bytes
  frag_out :: bytes
  ntcp :: tcp
  nreasm :: reasm

definition NET_init :: "bytes \<Rightarrow> net" where
  "NET_init mac = \<lparr>gateway_mac = replicate 6 0, arp_deadline = 0, arp_failed = False, rx_frame = [],
     arp_gateway_seen = False, icmp_reply_seen = False, expected_ping_seq = 0, pipeline = RxIdle,
     udp_sock = \<lparr>ustate = Unbound, uport = 0, received = 0\<rparr>, dhcp_offer_seen = False,
     offered_ip = replicate 4 0, reply_buf = replicate REPLY_MAX 0, frag_out = replicate MAX_FRAME 0,
     ntcp = TCP_init mac, nreasm = REASM_init\<rparr>"

definition tx_frame :: "bytes \<Rightarrow> net \<Rightarrow> net" where
  "tx_frame f n = n\<lparr>ntcp := (ntcp n)\<lparr>tx := tx (ntcp n) @ [take MAX_FRAME f]\<rparr>\<rparr>"

definition mac_addr :: "net \<Rightarrow> bytes" where
  "mac_addr n = nic_mac (ntcp n)"

section \<open>UdpSocket\<close>

definition udp_bind :: "u16 \<Rightarrow> udp_socket \<Rightarrow> udp_socket" where
  "udp_bind p s = (case ustate s of Unbound \<Rightarrow> s\<lparr>uport := p, ustate := Bound\<rparr> | Bound \<Rightarrow> s)"

definition udp_recv :: "udp_socket \<Rightarrow> udp_socket option" where
  "udp_recv s =
     (case ustate s of
        Unbound \<Rightarrow> Some s
      | Bound \<Rightarrow> do { k \<leftarrow> checked_inc (received s); Some (s\<lparr>received := k\<rparr>) })"

definition udp_close :: "udp_socket \<Rightarrow> udp_socket" where
  "udp_close s = (case ustate s of Unbound \<Rightarrow> s | Bound \<Rightarrow> s\<lparr>ustate := Unbound\<rparr>)"

definition udp_is_bound :: "udp_socket \<Rightarrow> bool" where
  "udp_is_bound s \<longleftrightarrow> ustate s = Bound"

section \<open>ARP\<close>

definition arp_request_frame :: "bytes \<Rightarrow> bytes" where
  "arp_request_frame mac =
     replicate 6 0xFF @ mac @ ETHERTYPE_ARP
     @ [0x00, 0x01] @ [0x08, 0x00] @ [6, 4] @ ARP_OPER_REQUEST
     @ mac @ GUEST_IP @ replicate 6 0 @ GATEWAY_IP"

definition arp_send_request :: "net \<Rightarrow> net" where
  "arp_send_request n = tx_frame (arp_request_frame (mac_addr n)) n"

definition arp_arm_timer :: "nat \<Rightarrow> net \<Rightarrow> net" where
  "arp_arm_timer now n = n\<lparr>arp_deadline := now + ARP_RETRANSMIT_TICKS\<rparr>"

definition arp_timer_expired :: "nat \<Rightarrow> net \<Rightarrow> bool" where
  "arp_timer_expired now n \<longleftrightarrow> now \<ge> arp_deadline n"

definition arp_on_failed :: "net \<Rightarrow> net" where
  "arp_on_failed n = n\<lparr>arp_failed := True\<rparr>"

definition is_gateway_arp_reply :: "bytes \<Rightarrow> bool option" where
  "is_gateway_arp_reply frame =
     all_of [Some (length frame \<ge> 42),
             slice_is frame 12 14 ETHERTYPE_ARP,
             slice_is frame 20 22 ARP_OPER_REPLY,
             slice_is frame 28 32 GATEWAY_IP,
             slice_is frame 38 42 GUEST_IP]"

definition store_gateway_mac :: "bytes \<Rightarrow> net \<Rightarrow> net option" where
  "store_gateway_mac frame n = do { m \<leftarrow> sub_slice frame 22 28; Some (n\<lparr>gateway_mac := m\<rparr>) }"

definition is_arp_request_for_us :: "bytes \<Rightarrow> bool option" where
  "is_arp_request_for_us frame =
     all_of [Some (length frame \<ge> 42),
             slice_is frame 12 14 ETHERTYPE_ARP,
             slice_is frame 20 22 ARP_OPER_REQUEST,
             slice_is frame 38 42 GUEST_IP]"

definition arp_reply_frame :: "bytes \<Rightarrow> bytes \<Rightarrow> bytes option" where
  "arp_reply_frame mac frame =
     do { dst \<leftarrow> sub_slice frame 6 12; tha \<leftarrow> sub_slice frame 22 28; tpa \<leftarrow> sub_slice frame 28 32;
          Some (dst @ mac @ ETHERTYPE_ARP @ [0x00, 0x01] @ ETHERTYPE_IPV4 @ [6, 4] @ ARP_OPER_REPLY
                @ mac @ GUEST_IP @ tha @ tpa) }"

definition send_arp_reply :: "bytes \<Rightarrow> net \<Rightarrow> net option" where
  "send_arp_reply frame n = do { f \<leftarrow> arp_reply_frame (mac_addr n) frame; Some (tx_frame f n) }"

text \<open>The \<open>ArpResolver\<close> Frame system; \<open>arp_create\<close> is its construction, which enters \<open>$Incomplete\<close>.\<close>

definition arp_enter :: "nat \<Rightarrow> arp_state \<Rightarrow> arp_resolver \<times> net \<Rightarrow> arp_resolver \<times> net" where
  "arp_enter now st = (\<lambda>(a, n). case st of
       Incomplete \<Rightarrow> (a\<lparr>astate := Incomplete, attempts := attempts a + 1\<rparr>,
                      arp_arm_timer now (arp_send_request n))
     | Resolved \<Rightarrow> (a\<lparr>astate := Resolved\<rparr>, n)
     | Failed \<Rightarrow> (a\<lparr>astate := Failed\<rparr>, arp_on_failed n))"

definition arp_create :: "nat \<Rightarrow> net \<Rightarrow> arp_resolver \<times> net" where
  "arp_create now n = arp_enter now Incomplete (\<lparr>astate = Incomplete, attempts = 0, max_attempts = 5\<rparr>, n)"

definition arp_reply :: "nat \<Rightarrow> arp_resolver \<times> net \<Rightarrow> arp_resolver \<times> net" where
  "arp_reply now = (\<lambda>(a, n). case astate a of Incomplete \<Rightarrow> arp_enter now Resolved (a, n) | _ \<Rightarrow> (a, n))"

definition arp_timeout :: "nat \<Rightarrow> arp_resolver \<times> net \<Rightarrow> arp_resolver \<times> net" where
  "arp_timeout now = (\<lambda>(a, n). case astate a of
       Incomplete \<Rightarrow> (if attempts a \<ge> max_attempts a then arp_enter now Failed (a, n)
                      else arp_enter now Incomplete (a, n))
     | _ \<Rightarrow> (a, n))"

section \<open>ICMP echo and outbound fragmentation\<close>

definition is_icmp_echo_request_to_us :: "bytes \<Rightarrow> bool option" where
  "is_icmp_echo_request_to_us frame =
     do { out \<leftarrow> any_of [Some (length frame < 14 + 20 + 8),
                         map_option Not (slice_is frame 12 14 ETHERTYPE_IPV4),
                         index_is frame 14 (\<lambda>v. drop_bit 4 v \<noteq> 4),
                         index_is frame (14 + 9) (\<lambda>p. p \<noteq> IP_PROTO_ICMP),
                         map_option Not (slice_is frame 30 34 GUEST_IP)];
          if out then Some False
          else do { v \<leftarrow> index frame 14;
                    let icmp = 14 + unat (v AND 0x0F) * 4
                    in all_of [Some (length frame > icmp),
                               index_is frame icmp (\<lambda>t. t = ICMP_ECHO_REQUEST)] } }"

text \<open>One iteration of the loop of \<open>tx_ipv4_fragmented\<close>: the contents of \<open>out\<close> that it sends.\<close>

definition frag_step :: "bytes \<Rightarrow> nat \<Rightarrow> nat \<Rightarrow> nat \<Rightarrow> bool \<Rightarrow> bytes \<Rightarrow> bytes \<Rightarrow> bytes option" where
  "frag_step frame ihl off chunk mf payload out =
     do { eth \<leftarrow> sub_slice frame 0 14; out \<leftarrow> blit_checked out 0 eth;
          ip \<leftarrow> sub_slice frame 14 (14 + ihl); out \<leftarrow> blit_checked out 14 ip;
          bs \<leftarrow> sub_slice payload off (off + chunk); out \<leftarrow> blit_checked out (14 + ihl) bs;
          out \<leftarrow> blit_checked out 16 (u16_to_be (of_nat (ihl + chunk)));
          out \<leftarrow> blit_checked out 20 (u16_to_be ((if mf then 0x2000 else 0) OR (of_nat (off div 8) AND 0x1FFF)));
          out \<leftarrow> blit_checked out 24 [0, 0];
          h \<leftarrow> sub_slice out 14 (14 + ihl);
          blit_checked out 24 (u16_to_be (checksum h)) }"

text \<open>
  The loop itself. The source has no test of \<open>max_chunk\<close>; it is at least 1440 there
  (\<open>ihl \<le> 60\<close>), and the guard only makes the recursion well-founded on other arguments.
\<close>

function frag_loop :: "bytes \<Rightarrow> nat \<Rightarrow> nat \<Rightarrow> bytes \<Rightarrow> nat \<Rightarrow> net \<Rightarrow> net option" where
  "frag_loop frame ihl max_chunk payload off n =
     (if off < length payload \<and> 0 < max_chunk
      then (let chunk = min (length payload - off) max_chunk;
                mf = (off + chunk < length payload)
            in do { out \<leftarrow> frag_step frame ihl off chunk mf payload (frag_out n);
                    f \<leftarrow> sub_slice out 0 (14 + ihl + chunk);
                    frag_loop frame ihl max_chunk payload (off + chunk) (tx_frame f (n\<lparr>frag_out := out\<rparr>)) })
      else Some n)"
  by pat_completeness auto
termination
  by (relation "measure (\<lambda>(frame, ihl, mc, payload, off, n). length payload - off)") auto

declare frag_loop.simps [simp del]

definition tx_ipv4_fragmented :: "bytes \<Rightarrow> net \<Rightarrow> net option" where
  "tx_ipv4_fragmented frame n =
     (if length frame \<le> MAX_FRAME then Some (tx_frame frame n)
      else do { v \<leftarrow> index frame 14;
                let ihl = unat (v AND 0x0F) * 4; payload_start = 14 + ihl
                in do { payload \<leftarrow> sub_slice frame payload_start (length frame);
                        frag_loop frame ihl (((MAX_FRAME - 14 - ihl) div 8) * 8) payload 0 n } })"

definition reply_to_echo_request :: "bytes \<Rightarrow> net \<Rightarrow> net option" where
  "reply_to_echo_request frame n =
     (let m = min (length frame) REPLY_MAX
      in do { src \<leftarrow> sub_slice frame 0 m; f \<leftarrow> blit_checked (reply_buf n) 0 src;
              old \<leftarrow> sub_slice f 6 12; f \<leftarrow> blit_checked f 0 old;
              f \<leftarrow> blit_checked f 6 (mac_addr n);
              v \<leftarrow> index f 14;
              let ihl = unat (v AND 0x0F) * 4; icmp = 14 + ihl
              in do { rip \<leftarrow> sub_slice f 26 30;
                      f \<leftarrow> blit_checked f 26 GUEST_IP; f \<leftarrow> blit_checked f 30 rip;
                      f \<leftarrow> blit_checked f 20 [0, 0]; f \<leftarrow> blit_checked f 24 [0, 0];
                      h \<leftarrow> sub_slice f 14 (14 + ihl);
                      f \<leftarrow> blit_checked f 24 (u16_to_be (checksum h));
                      f \<leftarrow> blit_checked f icmp [ICMP_ECHO_REPLY];
                      f \<leftarrow> blit_checked f (icmp + 2) [0, 0];
                      d \<leftarrow> sub_slice f icmp m;
                      f \<leftarrow> blit_checked f (icmp + 2) (u16_to_be (checksum d));
                      g \<leftarrow> sub_slice f 0 m;
                      tx_ipv4_fragmented g (n\<lparr>reply_buf := f\<rparr>) } })"

definition on_reassembled_ipv4 :: "bytes \<Rightarrow> net \<Rightarrow> net option" where
  "on_reassembled_ipv4 frame n =
     do { b \<leftarrow> is_icmp_echo_request_to_us frame;
          if b then reply_to_echo_request frame n else Some n }"

definition is_icmp_echo_reply :: "bytes \<Rightarrow> u16 \<Rightarrow> bool option" where
  "is_icmp_echo_reply frame sq =
     do { out \<leftarrow> any_of [Some (length frame < 14 + 20 + 8),
                         map_option Not (slice_is frame 12 14 ETHERTYPE_IPV4),
                         index_is frame 14 (\<lambda>v. drop_bit 4 v \<noteq> 4),
                         index_is frame (14 + 9) (\<lambda>p. p \<noteq> IP_PROTO_ICMP),
                         map_option Not (slice_is frame 26 30 GATEWAY_IP),
                         map_option Not (slice_is frame 30 34 GUEST_IP)];
          if out then Some False
          else do { v \<leftarrow> index frame 14;
                    let icmp = 14 + unat (v AND 0x0F) * 4
                    in all_of [Some (length frame \<ge> icmp + 8),
                               index_is frame icmp (\<lambda>t. t = ICMP_ECHO_REPLY),
                               slice_is frame (icmp + 4) (icmp + 6) (u16_to_be PING_ID),
                               slice_is frame (icmp + 6) (icmp + 8) (u16_to_be sq)] } }"

definition ping_ip0 :: bytes where
  "ping_ip0 = [0x45, 0] @ u16_to_be (of_nat (20 + 8 + length PING_PAYLOAD)) @ [0, 0] @ u16_to_be 0x4000
     @ [64, IP_PROTO_ICMP, 0, 0] @ GUEST_IP @ GATEWAY_IP"

definition ping_icmp0 :: "u16 \<Rightarrow> bytes" where
  "ping_icmp0 sq = [ICMP_ECHO_REQUEST, 0, 0, 0] @ u16_to_be PING_ID @ u16_to_be sq @ PING_PAYLOAD"

definition ping_frame :: "bytes \<Rightarrow> bytes \<Rightarrow> u16 \<Rightarrow> bytes" where
  "ping_frame gw mac sq =
     gw @ mac @ ETHERTYPE_IPV4
     @ blit ping_ip0 10 (u16_to_be (checksum ping_ip0))
     @ blit (ping_icmp0 sq) 2 (u16_to_be (checksum (ping_icmp0 sq)))"

definition send_ping :: "u16 \<Rightarrow> net \<Rightarrow> net" where
  "send_ping sq n = tx_frame (ping_frame (gateway_mac n) (mac_addr n) sq) n"

section \<open>The receive path\<close>

definition parse_descriptor :: "bytes \<Rightarrow> rx_descriptor option" where
  "parse_descriptor frame =
     (if length frame \<ge> 14
      then do { e0 \<leftarrow> index frame 12; e1 \<leftarrow> index frame 13;
                let e = u16_from_be e0 e1
                in if e = 0x0800 \<and> length frame \<ge> 14 + 20
                   then do { p \<leftarrow> index frame (14 + 9); Some \<lparr>ethertype = e, ip_proto = p\<rparr> }
                   else Some \<lparr>ethertype = e, ip_proto = 0\<rparr> }
      else Some \<lparr>ethertype = 0, ip_proto = 0\<rparr>)"

definition on_arp :: "rx_descriptor \<Rightarrow> net \<Rightarrow> net option" where
  "on_arp pkt n =
     do { b \<leftarrow> is_gateway_arp_reply (rx_frame n);
          if b then do { n \<leftarrow> store_gateway_mac (rx_frame n) n; Some (n\<lparr>arp_gateway_seen := True\<rparr>) }
          else do { b \<leftarrow> is_arp_request_for_us (rx_frame n);
                    if b then send_arp_reply (rx_frame n) n else Some n } }"

definition on_icmp :: "nat \<Rightarrow> rx_descriptor \<Rightarrow> net \<Rightarrow> net option" where
  "on_icmp now pkt n =
     do { p \<leftarrow> parse_fragment (rx_frame n);
          if p \<noteq> None
          then do { (d, r) \<leftarrow> on_fragment (rx_frame n) now (nreasm n);
                    case d of None \<Rightarrow> Some (n\<lparr>nreasm := r\<rparr>)
                    | Some full \<Rightarrow> on_reassembled_ipv4 full (n\<lparr>nreasm := r\<rparr>) }
          else do { b \<leftarrow> is_icmp_echo_request_to_us (rx_frame n);
                    if b then reply_to_echo_request (rx_frame n) n
                    else do { b \<leftarrow> is_icmp_echo_reply (rx_frame n) (expected_ping_seq n);
                              Some (if b then n\<lparr>icmp_reply_seen := True\<rparr> else n) } } }"

definition is_dhcp_offer :: "bytes \<Rightarrow> nat \<Rightarrow> u16 \<Rightarrow> bool option" where
  "is_dhcp_offer frame dhcp dst =
     all_of [Some (dst = 68),
             Some (length frame \<ge> dhcp + 240),
             index_is frame dhcp (\<lambda>x. x = 2),
             slice_is frame (dhcp + 4) (dhcp + 8) DHCP_XID,
             slice_is frame (dhcp + 236) (dhcp + 240) [0x63, 0x82, 0x53, 0x63]]"

definition on_udp :: "rx_descriptor \<Rightarrow> net \<Rightarrow> net option" where
  "on_udp pkt n =
     do { v \<leftarrow> index (rx_frame n) 14;
          let udp = 14 + unat (v AND 0x0F) * 4; dhcp = udp + 8
          in if length (rx_frame n) < udp + 8 then Some n
             else do { d0 \<leftarrow> index (rx_frame n) (udp + 2); d1 \<leftarrow> index (rx_frame n) (udp + 3);
                       let dst = u16_from_be d0 d1
                       in if \<not> udp_is_bound (udp_sock n) \<or> uport (udp_sock n) \<noteq> dst then Some n
                          else do { offer \<leftarrow> is_dhcp_offer (rx_frame n) dhcp dst;
                                    n \<leftarrow> (if offer
                                         then do { ip \<leftarrow> sub_slice (rx_frame n) (dhcp + 16) (dhcp + 20);
                                                   Some (n\<lparr>offered_ip := ip, dhcp_offer_seen := True\<rparr>) }
                                         else Some n);
                                    sock \<leftarrow> udp_recv (udp_sock n);
                                    Some (n\<lparr>udp_sock := sock\<rparr>) } } }"

definition on_tcp :: "nat \<Rightarrow> rx_descriptor \<Rightarrow> net \<Rightarrow> net option" where
  "on_tcp now pkt n = do { t \<leftarrow> on_segment (rx_frame n) now (ntcp n); Some (n\<lparr>ntcp := t\<rparr>) }"

text \<open>
  The \<open>RxPipeline\<close> Frame system. The descriptor is the enter parameter of every state; a leaf
  runs its native handler and returns to \<open>$Idle\<close>.
\<close>

definition rx_goto :: "rx_state \<Rightarrow> net \<Rightarrow> net" where
  "rx_goto st n = n\<lparr>pipeline := st\<rparr>"

fun rx_rank :: "rx_state \<Rightarrow> nat" where
  "rx_rank RxClassifying = 2"
| "rx_rank RxIpv4 = 1"
| "rx_rank _ = 0"

function rx_enter :: "nat \<Rightarrow> rx_state \<Rightarrow> rx_descriptor \<Rightarrow> net \<Rightarrow> net option" where
  "rx_enter now RxIdle pkt n = Some (rx_goto RxIdle n)"
| "rx_enter now RxClassifying pkt n =
     (let n = rx_goto RxClassifying n
      in if ethertype pkt = 0x0806 then rx_enter now RxArp pkt n
         else if ethertype pkt = 0x0800 then rx_enter now RxIpv4 pkt n
         else Some (rx_goto RxIdle n))"
| "rx_enter now RxIpv4 pkt n =
     (let n = rx_goto RxIpv4 n
      in if ip_proto pkt = 1 then rx_enter now RxIcmp pkt n
         else if ip_proto pkt = 6 then rx_enter now RxTcp pkt n
         else if ip_proto pkt = 17 then rx_enter now RxUdp pkt n
         else Some (rx_goto RxIdle n))"
| "rx_enter now RxArp pkt n = map_option (rx_goto RxIdle) (on_arp pkt (rx_goto RxArp n))"
| "rx_enter now RxIcmp pkt n = map_option (rx_goto RxIdle) (on_icmp now pkt (rx_goto RxIcmp n))"
| "rx_enter now RxUdp pkt n = map_option (rx_goto RxIdle) (on_udp pkt (rx_goto RxUdp n))"
| "rx_enter now RxTcp pkt n = map_option (rx_goto RxIdle) (on_tcp now pkt (rx_goto RxTcp n))"
  by pat_completeness auto
termination
  by (relation "measure (\<lambda>(now, st, pkt, n). rx_rank st)") auto

definition rx_deliver :: "nat \<Rightarrow> rx_descriptor \<Rightarrow> net \<Rightarrow> net option" where
  "rx_deliver now pkt n = (case pipeline n of RxIdle \<Rightarrow> rx_enter now RxClassifying pkt n | _ \<Rightarrow> Some n)"

text \<open>\<open>rx\<close> is what \<open>virtio_net::poll_rx\<close> returns: a frame of at most \<open>MAX_FRAME\<close> bytes, if any.\<close>

definition pump :: "nat \<Rightarrow> bytes option \<Rightarrow> net \<Rightarrow> (bool \<times> net) option" where
  "pump now rx n =
     (case rx of
        None \<Rightarrow> Some (False, n)
      | Some frame \<Rightarrow>
          (let n = n\<lparr>rx_frame := frame\<rparr>
           in do { d \<leftarrow> parse_descriptor (rx_frame n);
                   n \<leftarrow> rx_deliver now d n; Some (True, n) }))"

section \<open>DHCP and the driver loops\<close>

definition dhcp_ip0 :: bytes where
  "dhcp_ip0 = [0x45, 0] @ u16_to_be (of_nat (20 + 8 + 244)) @ [0, 0, 0, 0, 64, 17, 0, 0]
     @ [0, 0, 0, 0] @ [255, 255, 255, 255]"

definition dhcp_discover_frame :: "bytes \<Rightarrow> bytes" where
  "dhcp_discover_frame mac =
     replicate 6 0xFF @ mac @ [0x08, 0x00]
     @ blit dhcp_ip0 10 (u16_to_be (checksum dhcp_ip0))
     @ u16_to_be 68 @ u16_to_be 67 @ u16_to_be (of_nat (8 + 244)) @ [0, 0]
     @ [1, 1, 6, 0] @ DHCP_XID @ [0, 0] @ u16_to_be 0x8000 @ replicate 16 0 @ mac @ replicate 202 0
     @ [0x63, 0x82, 0x53, 0x63] @ [53, 1, 1] @ [0xFF]"

definition send_dhcp_discover :: "net \<Rightarrow> net" where
  "send_dhcp_discover n = tx_frame (dhcp_discover_frame (mac_addr n)) n"

text \<open>
  The loops of the drivers, one iteration each; an iteration is given the frame that
  \<open>poll_rx\<close> returns (if any) and the tick counter. \<open>arp_loop\<close> is the resolution loop of
  \<open>run_demo\<close>; \<open>inbound_step\<close> the body of \<open>serve_inbound\<close>.
\<close>

definition arp_loop_step :: "nat \<Rightarrow> bytes option \<Rightarrow> arp_resolver \<times> net \<Rightarrow> (arp_resolver \<times> net) option" where
  "arp_loop_step now rx = (\<lambda>(a, n).
     do { (got, n) \<leftarrow> pump now rx n;
          Some (if got then (if arp_gateway_seen n then arp_reply now (a, n) else (a, n))
                else if arp_timer_expired now n then arp_timeout now (a, n)
                else (a, n)) })"

fun arp_loop :: "nat \<Rightarrow> (nat \<times> bytes option) list \<Rightarrow> arp_resolver \<times> net \<Rightarrow> (arp_resolver \<times> net) option" where
  "arp_loop overall [] s = Some s"
| "arp_loop overall ((now, rx) # es) s =
     (if astate (fst s) \<noteq> Resolved \<and> astate (fst s) \<noteq> Failed \<and> now < overall
      then do { s \<leftarrow> arp_loop_step now rx s; arp_loop overall es s }
      else Some s)"

definition inbound_step :: "nat \<Rightarrow> bytes option \<Rightarrow> net \<Rightarrow> net option" where
  "inbound_step now rx n =
     do { (_, n) \<leftarrow> pump now rx n; Some (n\<lparr>nreasm := drain_timer now (nreasm n)\<rparr>) }"

definition ping_start :: "net \<Rightarrow> net" where
  "ping_start n = send_ping 0 (n\<lparr>expected_ping_seq := 0, icmp_reply_seen := False\<rparr>)"

definition dhcp_start :: "net \<Rightarrow> net" where
  "dhcp_start n =
     (let n = n\<lparr>udp_sock := udp_bind 68 (udp_sock n)\<rparr>
      in send_dhcp_discover (n\<lparr>dhcp_offer_seen := False\<rparr>))"

end
