(* ===== verification/NetInv.thy ===== *)
theory NetInv
  imports Net
begin

text \<open>
  Properties of the protocol layer: outbound fragments are fragments that reassembly accepts,
  echo replies mirror the request with valid checksums, the receive path cannot panic outside
  one malformed header, and address resolution gives up after its retry cap.
\<close>

section \<open>Slices of concatenations\<close>

lemma blit_at: "k = length A \<Longrightarrow> length B = length src \<Longrightarrow> blit_checked (A @ B @ C) k src = Some (A @ src @ C)"
  by (simp add: blit_checked_def blit_def)

lemma slice_at: "a = length A \<Longrightarrow> b = a + length B \<Longrightarrow> sub_slice (A @ B @ C) a b = Some B"
  by (simp add: sub_slice_def)

lemma split_at:
  assumes "k \<le> length xs"
  obtains A B where "xs = A @ B" "length A = k"
  using assms append_take_drop_id [of k xs] by (metis length_take min.absorb2)

section \<open>Fragments\<close>

lemma nibble_le: "unat (v AND 0x0F :: u8) \<le> 15"
proof -
  have "v AND 0x0F \<le> (0x0F :: u8)" by (rule word_and_le1)
  then show ?thesis by (simp add: word_le_nat_alt)
qed

definition frag_field :: "bool \<Rightarrow> nat \<Rightarrow> u16" where
  "frag_field mf k = (if mf then 0x2000 else 0) OR (of_nat k AND 0x1FFF)"

lemma frag_field_parts:
  assumes "k < 0x2000"
  shows "frag_field mf k AND 0x2000 \<noteq> 0 \<longleftrightarrow> mf" and "unat (frag_field mf k AND 0x1FFF) = k"
proof -
  have m: "(0x1FFF :: u16) = mask 13" by (simp add: mask_eq_exp_minus_1)
  have p: "(0x2000 :: u16) = 2 ^ 13" by simp
  have h: "bit (0x2000 :: u16) n \<longleftrightarrow> n = 13" for n unfolding p by (subst bit_exp_iff) auto
  have "frag_field mf k AND 0x2000 = (if mf then 0x2000 else 0)"
    unfolding frag_field_def m by (cases mf; rule bit_word_eqI) (auto simp: bit_and_iff bit_or_iff bit_mask_iff h simp del: bit_numeral_word_iff)
  then show "frag_field mf k AND 0x2000 \<noteq> 0 \<longleftrightarrow> mf" by simp
  have "frag_field mf k AND 0x1FFF = of_nat k AND 0x1FFF"
    unfolding frag_field_def m by (rule bit_word_eqI) (auto simp: bit_and_iff bit_or_iff bit_mask_iff h simp del: bit_numeral_word_iff)
  also have "\<dots> = take_bit 13 (of_nat k)" unfolding m by (simp add: take_bit_eq_mask)
  finally show "unat (frag_field mf k AND 0x1FFF) = k"
    using assms by (simp add: unsigned_take_bit_eq unsigned_of_nat take_bit_nat_eq_self)
qed

text \<open>
  A datagram split at the fields that fragmentation rewrites: \<open>E\<close> the Ethernet header, then
  version and TOS, the total length, the identification, the fragment field, TTL and protocol,
  the checksum, and \<open>R\<close> the addresses and options. \<open>frag_bytes_of\<close> is the fragment built from it.
\<close>

definition dgram_parts :: "bytes \<Rightarrow> u8 \<Rightarrow> u8 \<Rightarrow> bytes \<Rightarrow> bytes \<Rightarrow> bytes \<Rightarrow> bytes \<Rightarrow> bytes \<Rightarrow> bytes \<Rightarrow> bool" where
  "dgram_parts E v tos L ID F TP CK R \<longleftrightarrow>
     length E = 14 \<and> drop 12 E = [0x08, 0x00] \<and> length L = 2 \<and> length ID = 2 \<and> length F = 2 \<and> length TP = 2
     \<and> length CK = 2 \<and> 8 \<le> length R \<and> drop_bit 4 v = 4 \<and> unat (v AND 0x0F) * 4 = 12 + length R"

definition frag_head :: "u8 \<Rightarrow> u8 \<Rightarrow> bytes \<Rightarrow> bytes \<Rightarrow> nat \<Rightarrow> u16 \<Rightarrow> bytes" where
  "frag_head v tos ID TP n fld = [v, tos] @ u16_to_be (of_nat n) @ ID @ u16_to_be fld @ TP"

definition frag_ip :: "u8 \<Rightarrow> u8 \<Rightarrow> bytes \<Rightarrow> bytes \<Rightarrow> bytes \<Rightarrow> nat \<Rightarrow> u16 \<Rightarrow> bytes" where
  "frag_ip v tos ID TP R n fld =
     frag_head v tos ID TP n fld @ u16_to_be (checksum (frag_head v tos ID TP n fld @ [0, 0] @ R)) @ R"

lemma frag_ip_verifies:
  assumes "length ID = 2" and "length TP = 2" and "length R \<le> 60"
  shows "checksum (frag_ip v tos ID TP R n fld) = 0"
  unfolding frag_ip_def using assms
  by (intro checksum_stored) (simp_all add: frag_head_def csum_len_ok_def)

lemma frag_step_eq:
  assumes p: "dgram_parts E v tos L ID F TP CK R"
    and ihl: "ihl = 12 + length R" and c: "off + chunk \<le> length P" and o: "14 + ihl + chunk \<le> length out"
  shows "frag_step (E @ [v, tos] @ L @ ID @ F @ TP @ CK @ R @ P) ihl off chunk mf P out =
     Some (E @ frag_ip v tos ID TP R (ihl + chunk) (frag_field mf (off div 8)) @ take chunk (drop off P)
           @ drop (14 + ihl + chunk) out)"
proof -
  note l = p [unfolded dgram_parts_def]
  let ?I = "[v, tos] @ L @ ID @ F @ TP @ CK @ R"
  let ?c = "take chunk (drop off P)"
  let ?n = "u16_to_be (of_nat (ihl + chunk))"
  let ?f = "u16_to_be (frag_field mf (off div 8))"
  let ?h = "frag_head v tos ID TP (ihl + chunk) (frag_field mf (off div 8))"
  have lI: "length ?I = ihl" using l ihl by simp
  have lc: "length ?c = chunk" using c by simp
  obtain o1 t1 where o1: "out = o1 @ t1" "length o1 = 14" using o by (rule_tac split_at [of 14 out]) auto
  obtain o2 t2 where o2: "t1 = o2 @ t2" "length o2 = ihl" using o o1 by (rule_tac split_at [of ihl t1]) auto
  obtain o3 t3 where o3: "t2 = o3 @ t3" "length o3 = chunk" using o o1 o2 by (rule_tac split_at [of chunk t2]) auto
  have t3: "drop (14 + ihl + chunk) out = t3" using o1 o2 o3 by simp
  define out1 where "out1 = E @ ?I @ ?c @ t3"
  have s1: "sub_slice (E @ ?I @ P) 0 14 = Some E" "sub_slice (E @ ?I @ P) 14 (14 + ihl) = Some ?I"
    using l lI slice_at [of 14 E _ ?I P] by (simp_all add: sub_slice_def)
  have s2: "sub_slice P off (off + chunk) = Some ?c" using c by (simp add: sub_slice_def)
  have b1: "blit_checked out 0 E = Some (E @ t1)" using o1 l blit_at [of 0 "[]" o1 E t1] by simp
  have b2: "blit_checked (E @ t1) 14 ?I = Some (E @ ?I @ t2)" using o2 l lI by (simp only: o2(1)) (rule blit_at, simp_all)
  have b3: "blit_checked (E @ ?I @ t2) (14 + ihl) ?c = Some out1"
    using o3 l lI lc blit_at [of "14 + ihl" "E @ ?I" o3 ?c t3] by (simp add: out1_def)
  have b4: "blit_checked out1 16 ?n = Some (E @ [v, tos] @ ?n @ ID @ F @ TP @ CK @ R @ ?c @ t3)"
    using l blit_at [of 16 "E @ [v, tos]" L ?n] by (simp add: out1_def)
  have b5: "blit_checked (E @ [v, tos] @ ?n @ ID @ F @ TP @ CK @ R @ ?c @ t3) 20 ?f
      = Some (E @ ?h @ CK @ R @ ?c @ t3)"
    using l blit_at [of 20 "E @ [v, tos] @ ?n @ ID" F ?f] by (simp add: frag_head_def)
  have lh: "length ?h = 10" using l by (simp add: frag_head_def)
  have b6: "blit_checked (E @ ?h @ CK @ R @ ?c @ t3) 24 [0, 0] = Some (E @ ?h @ [0, 0] @ R @ ?c @ t3)"
    using l lh blit_at [of 24 "E @ ?h" CK "[0, 0]"] by simp
  have s3: "sub_slice (E @ ?h @ [0, 0] @ R @ ?c @ t3) 14 (14 + ihl) = Some (?h @ [0, 0] @ R)"
    using l lh ihl slice_at [of 14 E "14 + ihl" "?h @ [0, 0] @ R"] by simp
  have b7: "blit_checked (E @ ?h @ [0, 0] @ R @ ?c @ t3) 24 (u16_to_be (checksum (?h @ [0, 0] @ R)))
      = Some (E @ frag_ip v tos ID TP R (ihl + chunk) (frag_field mf (off div 8)) @ ?c @ t3)"
    using l lh blit_at [of 24 "E @ ?h" "[0, 0]"] by (simp add: frag_ip_def)
  have fr: "E @ [v, tos] @ L @ ID @ F @ TP @ CK @ R @ P = E @ ?I @ P" by simp
  show ?thesis
    unfolding frag_step_def fr s1 s2 t3 frag_field_def [symmetric] bind.bind_lunit b1 b2 b3 b4 b5 b6 s3 b7 ..
qed

lemma u16_be_at:
  assumes "xs = A @ u16_to_be w @ B" and "i = length A"
  shows "u16_from_be (xs ! i) (xs ! Suc i) = w"
proof -
  have "xs ! i = u16_to_be w ! 0" "xs ! Suc i = u16_to_be w ! 1"
    unfolding assms by (simp_all add: nth_append)
  then show ?thesis using u16_be_roundtrip [of w] by simp
qed

lemma parse_built_fragment:
  assumes p: "dgram_parts E v tos L ID F TP CK R"
    and ihl: "ihl = 12 + length R" and c: "off + chunk \<le> length P" and k: "length P < 0x10000"
    and a: "off mod 8 = 0" and m: "mf \<longleftrightarrow> off + chunk < length P" and nw: "mf \<or> 0 < off"
    and s: "ihl + chunk < 0x10000"
    and f: "f = E @ frag_ip v tos ID TP R (ihl + chunk) (frag_field mf (off div 8)) @ take chunk (drop off P)"
  shows "frag_of f = Some \<lparr>offset = off, flen = chunk, more_frags = mf, fident = u16_from_be (ID ! 0) (ID ! 1)\<rparr>"
    and "range_of f = (14 + ihl, 14 + ihl + chunk)" and "frag_frame P f"
    and "frame_ident f = u16_from_be (ID ! 0) (ID ! 1)" and "take ihl (drop 14 f) = frag_ip v tos ID TP R (ihl + chunk) (frag_field mf (off div 8))"
    and "length f = 14 + ihl + chunk"
proof -
  note l = p [unfolded dgram_parts_def]
  let ?h = "frag_head v tos ID TP (ihl + chunk) (frag_field mf (off div 8))"
  let ?c = "take chunk (drop off P)"
  define ck where "ck = u16_to_be (checksum (?h @ [0, 0] @ R))"
  define rest where "rest = TP @ ck @ R @ ?c"
  have lc: "length ?c = chunk" using c by simp
  have f': "f = E @ [v, tos] @ u16_to_be (of_nat (ihl + chunk)) @ ID @ u16_to_be (frag_field mf (off div 8)) @ rest"
    by (simp add: f frag_ip_def frag_head_def rest_def ck_def)
  have lr: "length rest = ihl - 8 + chunk" using l ihl lc by (simp add: rest_def ck_def)
  show len: "length f = 14 + ihl + chunk" using f' lr l ihl by simp
  have v: "f ! 14 = v" using l by (simp add: f' nth_append)
  have ln: "u16_from_be (f ! 16) (f ! 17) = of_nat (ihl + chunk)"
    using u16_be_at [of f "E @ [v, tos]" _ _ 16] l f' by simp
  have fl: "u16_from_be (f ! 20) (f ! 21) = frag_field mf (off div 8)"
    using u16_be_at [of f "E @ [v, tos] @ u16_to_be (of_nat (ihl + chunk)) @ ID" _ _ 20] l f' by simp
  have idn: "u16_from_be (f ! 18) (f ! 19) = u16_from_be (ID ! 0) (ID ! 1)"
    using l by (simp add: f' nth_append)
  then show "frame_ident f = u16_from_be (ID ! 0) (ID ! 1)" by (simp add: frame_ident_def)
  have un: "unat (of_nat (ihl + chunk) :: u16) = ihl + chunk"
    using s by (simp only: unat_of_nat) (simp add: take_bit_nat_eq_self)
  show pr: "range_of f = (14 + ihl, 14 + ihl + chunk)"
    using v ln un l ihl len by (simp add: range_of_def ETH_HDR_def)
  have et: "take 2 (drop 12 f) = [0x08, 0x00]" using l by (simp add: f')
  have k8: "off div 8 < 0x2000" using c k by simp
  have off8: "off div 8 * 8 = off" using a by auto
  note ff = frag_field_parts [OF k8, of mf]
  show pf: "frag_of f = Some \<lparr>offset = off, flen = chunk, more_frags = mf, fident = u16_from_be (ID ! 0) (ID ! 1)\<rparr>"
    using len ihl l et v idn off8 nw pr
    by (simp add: frag_of_def ETH_HDR_def IP_HDR_def Let_def fl ff(2)) (use ff(1) in auto)
  have "sub_slice f (14 + ihl) (14 + ihl + chunk) = Some ?c"
    using slice_at [of "14 + ihl" "E @ frag_ip v tos ID TP R (ihl + chunk) (frag_field mf (off div 8))" _ ?c "[]"] l ihl lc
    by (simp add: f frag_ip_def frag_head_def)
  then show "frag_frame P f" using pf pr c m by (simp add: frag_frame_def)
  show "take ihl (drop 14 f) = frag_ip v tos ID TP R (ihl + chunk) (frag_field mf (off div 8))"
  proof -
    have "length (frag_ip v tos ID TP R (ihl + chunk) (frag_field mf (off div 8))) = ihl"
      using l ihl by (simp add: frag_ip_def frag_head_def)
    then show ?thesis using l by (simp add: f)
  qed
qed

text \<open>What is sent for a datagram with payload \<open>P\<close> and header parts fixed.\<close>

definition frag_sent :: "bytes \<Rightarrow> nat \<Rightarrow> u16 \<Rightarrow> bytes \<Rightarrow> bool" where
  "frag_sent P ihl idn f \<longleftrightarrow>
     frag_frame P f \<and> frame_ident f = idn \<and> length f \<le> MAX_FRAME \<and> checksum (take ihl (drop 14 f)) = 0"

lemma tx_frame_simps [simp]:
  "tx (ntcp (tx_frame f n)) = tx (ntcp n) @ [take MAX_FRAME f]"
  "frag_out (tx_frame f n) = frag_out n" "reply_buf (tx_frame f n) = reply_buf n"
  by (simp_all add: tx_frame_def)

lemma frag_loop_spec:
  assumes p: "dgram_parts E v tos L ID F TP CK R" and ihl: "ihl = 12 + length R"
    and k: "length P < 0x10000" and mc: "mc mod 8 = 0" "0 < mc" "14 + ihl + mc \<le> MAX_FRAME" "mc < length P"
    and a: "off mod 8 = 0" and o: "length (frag_out n) = MAX_FRAME"
  shows "\<exists>fs n'. frag_loop (E @ [v, tos] @ L @ ID @ F @ TP @ CK @ R @ P) ihl mc P off n = Some n'
     \<and> tx (ntcp n') = tx (ntcp n) @ fs \<and> length (frag_out n') = MAX_FRAME
     \<and> (\<forall>f \<in> set fs. frag_sent P ihl (u16_from_be (ID ! 0) (ID ! 1)) f)
     \<and> (\<Union>f \<in> set fs. frag_bytes f) = {off..<length P}
     \<and> (off < length P \<longrightarrow> (\<exists>f \<in> set fs. last_frag f))"
  using a o
proof (induction "length P - off" arbitrary: off n rule: less_induct)
  case less
  let ?frame = "E @ [v, tos] @ L @ ID @ F @ TP @ CK @ R @ P"
  let ?idn = "u16_from_be (ID ! 0) (ID ! 1)"
  show ?case
  proof (cases "off < length P")
    case False
    then have "frag_loop ?frame ihl mc P off n = Some n" by (subst frag_loop.simps) simp
    then show ?thesis using less.prems False by (intro exI [of _ "[]"] exI [of _ n]) simp
  next
    case True
    define chunk where "chunk = min (length P - off) mc"
    define mf where "mf \<longleftrightarrow> off + chunk < length P"
    define f where "f = E @ frag_ip v tos ID TP R (ihl + chunk) (frag_field mf (off div 8)) @ take chunk (drop off P)"
    define out where "out = f @ drop (14 + ihl + chunk) (frag_out n)"
    have c: "0 < chunk" "off + chunk \<le> length P" "chunk \<le> mc" using True mc(2) by (auto simp: chunk_def)
    have fits: "14 + ihl + chunk \<le> MAX_FRAME" using c(3) mc(3) by simp
    have nw: "mf \<or> 0 < off" using mc(4) by (auto simp: mf_def chunk_def)
    have sm: "ihl + chunk < 0x10000" using fits by (simp add: MAX_FRAME_def)
    have r60: "length R \<le> 60" using nibble_le [of v] p by (simp add: dgram_parts_def)
    have pf: "frag_of f = Some \<lparr>offset = off, flen = chunk, more_frags = mf, fident = ?idn\<rparr>"
      "frag_frame P f" "frame_ident f = ?idn" "length f = 14 + ihl + chunk"
      "take ihl (drop 14 f) = frag_ip v tos ID TP R (ihl + chunk) (frag_field mf (off div 8))"
      using parse_built_fragment [OF p ihl c(2) k less.prems(1) mf_def nw sm f_def] by blast+
    have st: "frag_step ?frame ihl off chunk mf P (frag_out n) = Some out"
      using frag_step_eq [OF p ihl c(2), of "frag_out n" mf] fits less.prems(2) by (simp add: out_def f_def)
    have sl: "sub_slice out 0 (14 + ihl + chunk) = Some f" using pf(4) by (simp add: sub_slice_def out_def)
    define n1 where "n1 = tx_frame f (n\<lparr>frag_out := out\<rparr>)"
    have step: "frag_loop ?frame ihl mc P off n = frag_loop ?frame ihl mc P (off + chunk) n1"
      using True mc(2) st sl by (subst frag_loop.simps) (simp add: chunk_def [symmetric] mf_def [symmetric] n1_def Let_def)
    have o1: "length (frag_out n1) = MAX_FRAME" using pf(4) fits less.prems(2) by (simp add: n1_def out_def)
    have good: "frag_sent P ihl ?idn f"
      using pf fits frag_ip_verifies p r60 by (simp add: frag_sent_def dgram_parts_def)
    have t1: "tx (ntcp n1) = tx (ntcp n) @ [f]" using pf(4) fits by (simp add: n1_def)
    have fb: "frag_bytes f = {off..<off + chunk}" "last_frag f \<longleftrightarrow> off + chunk = length P"
      using pf(1) c(2) by (auto simp: frag_bytes_def last_frag_def mf_def)
    show ?thesis
    proof (cases "off + chunk < length P")
      case False
      then have "frag_loop ?frame ihl mc P (off + chunk) n1 = Some n1" by (subst frag_loop.simps) simp
      then show ?thesis
        using step t1 good fb False c o1 by (intro exI [of _ "[f]"] exI [of _ n1]) auto
    next
      case True
      then have "chunk = mc" by (auto simp: chunk_def)
      then have a1: "(off + chunk) mod 8 = 0" using less.prems(1) mc(1) by presburger
      have "length P - (off + chunk) < length P - off" using True c(1) by simp
      from less.hyps [OF this a1 o1] obtain fs n' where r:
        "frag_loop ?frame ihl mc P (off + chunk) n1 = Some n'" "tx (ntcp n') = tx (ntcp n1) @ fs"
        "length (frag_out n') = MAX_FRAME" "\<forall>f \<in> set fs. frag_sent P ihl ?idn f"
        "(\<Union>f \<in> set fs. frag_bytes f) = {off + chunk..<length P}" "\<exists>f \<in> set fs. last_frag f"
        using True by auto
      have "{off..<off + chunk} \<union> {off + chunk..<length P} = {off..<length P}" using True by auto
      then show ?thesis
        using step r t1 good fb(1) by (intro exI [of _ "f # fs"] exI [of _ n']) simp
    qed
  qed
qed

text \<open>\<open>ipv4_dgram\<close>: an Ethernet frame with an IPv4 header of at least 20 bytes, all present.\<close>

definition ihl_of :: "bytes \<Rightarrow> nat" where
  "ihl_of frame = unat (frame ! 14 AND 0x0F) * 4"

definition ipv4_dgram :: "bytes \<Rightarrow> bool" where
  "ipv4_dgram frame \<longleftrightarrow> take 2 (drop 12 frame) = [0x08, 0x00] \<and> drop_bit 4 (frame ! 14) = 4
     \<and> 20 \<le> ihl_of frame \<and> 14 + ihl_of frame \<le> length frame"

lemma ipv4_dgram_parts:
  assumes "ipv4_dgram frame"
  obtains E v tos L ID F TP CK R where
    "frame = E @ [v, tos] @ L @ ID @ F @ TP @ CK @ R @ drop (14 + ihl_of frame) frame"
    "dgram_parts E v tos L ID F TP CK R" "ihl_of frame = 12 + length R"
    "u16_from_be (ID ! 0) (ID ! 1) = frame_ident frame"
proof -
  let ?s = "\<lambda>a b. take b (drop a frame)"
  have i: "20 \<le> ihl_of frame" "14 + ihl_of frame \<le> length frame" using assms by (auto simp: ipv4_dgram_def)
  define m where "m = ihl_of frame - 12"
  have m: "8 \<le> m" "26 + m \<le> length frame" "ihl_of frame = 12 + m" using i by (auto simp: m_def)
  have cat: "?s a b @ ?s (a + b) c = ?s a (b + c)" for a b c by (simp add: take_add drop_drop add.commute)
  have vt: "[frame ! 14, frame ! 15] = ?s 14 2"
    using m by (auto simp: list_eq_iff_nth_eq nth_Cons less_Suc_eq numeral_2_eq_2)
  have e: "?s 0 14 @ [frame ! 14, frame ! 15] @ ?s 16 2 @ ?s 18 2 @ ?s 20 2 @ ?s 22 2 @ ?s 24 2 @ ?s 26 m
      = ?s 0 (26 + m)"
    unfolding vt using cat [of 2 24 m] cat [of 2 22 "2 + m"] cat [of 2 20 "4 + m"] cat [of 2 18 "6 + m"]
      cat [of 2 16 "8 + m"] cat [of 2 14 "10 + m"] cat [of 14 0 "12 + m"] by (simp del: add_2_eq_Suc add_2_eq_Suc')
  show ?thesis
  proof (rule that [of "?s 0 14" "frame ! 14" "frame ! 15" "?s 16 2" "?s 18 2" "?s 20 2" "?s 22 2" "?s 24 2" "?s 26 m"])
    show "frame = ?s 0 14 @ [frame ! 14, frame ! 15] @ ?s 16 2 @ ?s 18 2 @ ?s 20 2 @ ?s 22 2 @ ?s 24 2 @ ?s 26 m
        @ drop (14 + ihl_of frame) frame"
    proof -
      have "14 + ihl_of frame = 26 + m" using m by simp
      moreover have "?s 0 (26 + m) @ drop (26 + m) frame = frame" by simp
      ultimately show ?thesis unfolding e [symmetric] by (simp only: append_assoc)
    qed
    show "dgram_parts (?s 0 14) (frame ! 14) (frame ! 15) (?s 16 2) (?s 18 2) (?s 20 2) (?s 22 2) (?s 24 2) (?s 26 m)"
      using assms m by (simp add: dgram_parts_def ipv4_dgram_def ihl_of_def drop_take)
    show "ihl_of frame = 12 + length (?s 26 m)" using m by simp
    show "u16_from_be (?s 18 2 ! 0) (?s 18 2 ! 1) = frame_ident frame" using m by (simp add: frame_ident_def)
  qed
qed

lemma tx_fragmented_spec:
  assumes d: "ipv4_dgram frame" and l: "MAX_FRAME < length frame" "length frame < 0x10000"
    and o: "length (frag_out n) = MAX_FRAME"
  defines "P \<equiv> drop (14 + ihl_of frame) frame"
  shows "\<exists>fs n'. tx_ipv4_fragmented frame n = Some n'
     \<and> tx (ntcp n') = tx (ntcp n) @ fs \<and> length (frag_out n') = MAX_FRAME
     \<and> (\<forall>f \<in> set fs. frag_sent P (ihl_of frame) (frame_ident frame) f)
     \<and> (\<Union>f \<in> set fs. frag_bytes f) = {..<length P} \<and> (\<exists>f \<in> set fs. last_frag f)"
proof -
  obtain E v tos L ID F TP CK R where q:
    "frame = E @ [v, tos] @ L @ ID @ F @ TP @ CK @ R @ P"
    "dgram_parts E v tos L ID F TP CK R" "ihl_of frame = 12 + length R"
    "u16_from_be (ID ! 0) (ID ! 1) = frame_ident frame"
    using ipv4_dgram_parts [OF d] unfolding P_def .
  define mc where "mc = ((MAX_FRAME - 14 - ihl_of frame) div 8) * 8"
  have ihl: "20 \<le> ihl_of frame" "ihl_of frame \<le> 60" "14 + ihl_of frame \<le> length frame"
    using d nibble_le [of "frame ! 14"] by (auto simp: ipv4_dgram_def ihl_of_def)
  have mc: "mc mod 8 = 0" "0 < mc" "14 + ihl_of frame + mc \<le> MAX_FRAME"
    using ihl by (auto simp: mc_def MAX_FRAME_def)
  have lP: "length P = length frame - (14 + ihl_of frame)" "mc < length P"
    using l ihl mc(3) by (auto simp: P_def)
  have sl: "sub_slice frame (14 + ihl_of frame) (length frame) = Some P"
    using ihl by (simp add: sub_slice_def P_def)
  have e: "tx_ipv4_fragmented frame n = frag_loop frame (ihl_of frame) mc P 0 n"
    using l sl index_Some [of 14 frame] by (simp add: tx_ipv4_fragmented_def Let_def ihl_of_def mc_def MAX_FRAME_def)
  have "length P < 0x10000" using lP l by simp
  note fl = frag_loop_spec [OF q(2,3) this mc lP(2) _ o, of 0, folded q(1)]
  have "0 < length P" using lP by simp
  with fl show ?thesis unfolding e q(4) atLeast0LessThan by simp
qed

section \<open>Echo replies\<close>

definition icmp_reply_bytes :: "u8 \<Rightarrow> bytes \<Rightarrow> bytes" where
  "icmp_reply_bytes code body =
     [ICMP_ECHO_REPLY, code] @ u16_to_be (checksum ([ICMP_ECHO_REPLY, code] @ [0, 0] @ body)) @ body"

definition reply_ip :: "u8 \<Rightarrow> u8 \<Rightarrow> bytes \<Rightarrow> bytes \<Rightarrow> bytes \<Rightarrow> bytes \<Rightarrow> bytes" where
  "reply_ip v tos L ID TP R =
     ([v, tos] @ L @ ID @ [0, 0] @ TP) @ u16_to_be (checksum (([v, tos] @ L @ ID @ [0, 0] @ TP) @ [0, 0] @ R)) @ R"

lemma reply_steps:
  assumes f: "frame = (D @ S @ ET) @ ([v, tos] @ L @ ID @ F @ TP @ CK @ SRC @ DST @ OPT) @ ([ty, code] @ CK2 @ body)"
    and l: "length D = 6" "length S = 6" "length ET = 2" "length L = 2" "length ID = 2" "length F = 2" "length TP = 2"
      "length CK = 2" "length SRC = 4" "length DST = 4" "length CK2 = 2" "ihl_of frame = 20 + length OPT"
    and n: "length frame \<le> REPLY_MAX" "length (reply_buf n) = REPLY_MAX" "length (mac_addr n) = 6"
    and g: "g = S @ mac_addr n @ ET @ reply_ip v tos L ID TP (GUEST_IP @ SRC @ OPT) @ icmp_reply_bytes code body"
  shows "reply_to_echo_request frame n =
     tx_ipv4_fragmented g (n\<lparr>reply_buf := g @ drop (length frame) (reply_buf n)\<rparr>)"
proof -
  let ?t = "drop (length frame) (reply_buf n)"
  let ?m = "mac_addr n"
  let ?ihl = "20 + length OPT"
  define icmp where "icmp = [ty, code] @ CK2 @ body"
  define h where "h = [v, tos] @ L @ ID @ [0, 0] @ TP"
  define R where "R = GUEST_IP @ SRC @ OPT"
  have lh: "length h = 10" "length R = 8 + length OPT" "length GUEST_IP = 4"
    using l by (simp_all add: h_def R_def GUEST_IP_def)
  have mn: "min (length frame) REPLY_MAX = length frame" using n(1) by simp
  have s0: "sub_slice frame 0 (length frame) = Some frame" by (simp add: sub_slice_def)
  have b0: "blit_checked (reply_buf n) 0 frame = Some (D @ S @ ET @ [v, tos] @ L @ ID @ F @ TP @ CK @ SRC @ DST @ OPT @ icmp @ ?t)"
    using n(1,2) by (simp add: blit_checked_def blit_def) (simp add: f icmp_def)
  have s1: "sub_slice (D @ S @ ET @ X) 6 12 = Some S" for X using l slice_at [of 6 D 12 S "ET @ X"] by simp
  have b1: "blit_checked (D @ S @ ET @ X) 0 S = Some (S @ S @ ET @ X)" for X using l blit_at [of 0 "[]" D S] by simp
  have b2: "blit_checked (S @ S @ ET @ X) 6 ?m = Some (S @ ?m @ ET @ X)" for X using l n(3) blit_at [of 6 S S ?m] by simp
  have v14: "index (S @ ?m @ ET @ [v, tos] @ X) 14 = Some v" for X using l n(3) by (simp add: nth_append index_def)
  have ihl: "unat (v AND 0x0F) * 4 = ?ihl" using l by (simp add: ihl_of_def f nth_append)
  have s2: "sub_slice (S @ ?m @ ET @ [v, tos] @ L @ ID @ F @ TP @ CK @ SRC @ X) 26 30 = Some SRC" for X
    using l n(3) slice_at [of 26 "S @ ?m @ ET @ [v, tos] @ L @ ID @ F @ TP @ CK" 30 SRC X] by simp
  have b3: "blit_checked (S @ ?m @ ET @ [v, tos] @ L @ ID @ F @ TP @ CK @ SRC @ X) 26 GUEST_IP =
      Some (S @ ?m @ ET @ [v, tos] @ L @ ID @ F @ TP @ CK @ GUEST_IP @ X)" for X
    using l n(3) lh blit_at [of 26 "S @ ?m @ ET @ [v, tos] @ L @ ID @ F @ TP @ CK" SRC GUEST_IP X] by simp
  have b4: "blit_checked (S @ ?m @ ET @ [v, tos] @ L @ ID @ F @ TP @ CK @ GUEST_IP @ DST @ OPT @ X) 30 SRC =
      Some (S @ ?m @ ET @ [v, tos] @ L @ ID @ F @ TP @ CK @ R @ X)" for X
    using l n(3) lh blit_at [of 30 "S @ ?m @ ET @ [v, tos] @ L @ ID @ F @ TP @ CK @ GUEST_IP" DST SRC "OPT @ X"] by (simp add: R_def)
  have b5: "blit_checked (S @ ?m @ ET @ [v, tos] @ L @ ID @ F @ TP @ X) 20 [0, 0] = Some (S @ ?m @ ET @ h @ X)" for X
    using l n(3) blit_at [of 20 "S @ ?m @ ET @ [v, tos] @ L @ ID" F "[0, 0]" "TP @ X"] by (simp add: h_def)
  have b6: "blit_checked (S @ ?m @ ET @ h @ CK @ X) 24 [0, 0] = Some (S @ ?m @ ET @ h @ [0, 0] @ X)" for X
    using l n(3) lh blit_at [of 24 "S @ ?m @ ET @ h" CK "[0, 0]" X] by simp
  have s3: "sub_slice (S @ ?m @ ET @ h @ [0, 0] @ R @ X) 14 (14 + ?ihl) = Some (h @ [0, 0] @ R)" for X
    using l n(3) lh slice_at [of 14 "S @ ?m @ ET" "14 + ?ihl" "h @ [0, 0] @ R" X] by simp
  define ck where "ck = u16_to_be (checksum (h @ [0, 0] @ R))"
  have lck: "length ck = 2" by (simp add: ck_def)
  define A where "A = S @ ?m @ ET @ h @ ck @ R"
  have lA: "length A = 14 + ?ihl" using l n(3) lh lck by (simp add: A_def)
  have b7: "blit_checked (S @ ?m @ ET @ h @ [0, 0] @ R @ X) 24 ck = Some (A @ X)" for X
    using l n(3) lh lck blit_at [of 24 "S @ ?m @ ET @ h" "[0, 0]" ck "R @ X"] by (simp add: A_def)
  have b8: "blit_checked (A @ icmp @ X) (14 + ?ihl) [ICMP_ECHO_REPLY] = Some (A @ [ICMP_ECHO_REPLY, code] @ CK2 @ body @ X)" for X
    using lA blit_at [of "14 + ?ihl" A "[ty]" "[ICMP_ECHO_REPLY]"] by (simp add: icmp_def)
  have b9: "blit_checked (A @ [ICMP_ECHO_REPLY, code] @ CK2 @ body @ X) (14 + ?ihl + 2) [0, 0]
      = Some (A @ [ICMP_ECHO_REPLY, code] @ [0, 0] @ body @ X)" for X
    using lA l blit_at [of "14 + ?ihl + 2" "A @ [ICMP_ECHO_REPLY, code]" CK2 "[0, 0]"] by simp
  define d where "d = [ICMP_ECHO_REPLY, code] @ [0, 0] @ body"
  have lf: "length frame = 14 + ?ihl + length d" using l by (simp add: f d_def)
  have s4: "sub_slice (A @ [ICMP_ECHO_REPLY, code] @ [0, 0] @ body @ X) (14 + ?ihl) (length frame) = Some d" for X
    using lA lf slice_at [of "14 + ?ihl" A "length frame" d X] by (simp add: d_def)
  have b10: "blit_checked (A @ [ICMP_ECHO_REPLY, code] @ [0, 0] @ body @ X) (14 + ?ihl + 2) (u16_to_be (checksum d))
      = Some (g @ X)" for X
    using lA blit_at [of "14 + ?ihl + 2" "A @ [ICMP_ECHO_REPLY, code]" "[0, 0]" "u16_to_be (checksum d)" "body @ X"]
    by (simp add: g icmp_reply_bytes_def reply_ip_def A_def h_def R_def ck_def d_def)
  have lg: "length g = length frame"
    using lf l n(3) lh by (simp add: g d_def reply_ip_def icmp_reply_bytes_def)
  have s5: "sub_slice (g @ X) 0 (length frame) = Some g" for X using lg by (simp add: sub_slice_def)
  show ?thesis
    unfolding reply_to_echo_request_def Let_def mn s0 bind.bind_lunit b0 s1 b1 b2 v14 ihl s2 b3 b4 b5 b6 s3
      ck_def [symmetric] b7 b8 b9 s4 b10 s5 ..
qed

text \<open>What a reply must be, stated on the bytes of the request and of the reply.\<close>

definition mirrors :: "bytes \<Rightarrow> bytes \<Rightarrow> bytes \<Rightarrow> bool" where
  "mirrors mac req g \<longleftrightarrow>
     length g = length req \<and> take 6 g = take 6 (drop 6 req) \<and> take 6 (drop 6 g) = mac
     \<and> take 4 (drop 26 g) = GUEST_IP \<and> take 4 (drop 30 g) = take 4 (drop 26 req)
     \<and> ihl_of g = ihl_of req \<and> frame_ident g = frame_ident req \<and> ipv4_dgram g
     \<and> checksum (take (ihl_of req) (drop 14 g)) = 0
     \<and> g ! (14 + ihl_of req) = ICMP_ECHO_REPLY
     \<and> checksum (drop (14 + ihl_of req) g) = 0
     \<and> drop (14 + ihl_of req + 4) g = drop (14 + ihl_of req + 4) req"

definition net_bufs_ok :: "net \<Rightarrow> bool" where
  "net_bufs_ok n \<longleftrightarrow> length (reply_buf n) = REPLY_MAX \<and> length (frag_out n) = MAX_FRAME \<and> length (mac_addr n) = 6"

lemma reply_shape:
  assumes d: "ipv4_dgram frame" and l: "14 + ihl_of frame + 4 \<le> length frame" "length frame \<le> REPLY_MAX"
    and n: "net_bufs_ok n"
  obtains g where "mirrors (mac_addr n) frame g"
    "reply_to_echo_request frame n = tx_ipv4_fragmented g (n\<lparr>reply_buf := g @ drop (length frame) (reply_buf n)\<rparr>)"
proof -
  obtain E v tos L ID F TP CK R where q:
    "frame = E @ [v, tos] @ L @ ID @ F @ TP @ CK @ R @ drop (14 + ihl_of frame) frame"
    "dgram_parts E v tos L ID F TP CK R" "ihl_of frame = 12 + length R"
    "u16_from_be (ID ! 0) (ID ! 1) = frame_ident frame"
    using ipv4_dgram_parts [OF d] .
  define P where "P = drop (14 + ihl_of frame) frame"
  note p = q(2) [unfolded dgram_parts_def]
  obtain D E1 where D: "E = D @ E1" "length D = 6" using p by (rule_tac split_at [of 6 E]) auto
  obtain S ET where S: "E1 = S @ ET" "length S = 6" using p D by (rule_tac split_at [of 6 E1]) auto
  obtain SRC R1 where SRC: "R = SRC @ R1" "length SRC = 4" using p by (rule_tac split_at [of 4 R]) auto
  obtain DST OPT where DST: "R1 = DST @ OPT" "length DST = 4" using p SRC by (rule_tac split_at [of 4 R1]) auto
  have lP: "4 \<le> length P" using l(1) by (simp add: P_def)
  then obtain ty code c1 c2 body where P: "P = [ty, code] @ [c1, c2] @ body"
    by (cases P rule: list.exhaust; cases "tl P"; cases "tl (tl P)"; cases "tl (tl (tl P))") auto
  have ET: "length ET = 2" "ET = [0x08, 0x00]" using p D S by auto
  define IP where "IP = reply_ip v tos L ID TP (GUEST_IP @ SRC @ OPT)"
  define g where "g = S @ mac_addr n @ ET @ IP @ icmp_reply_bytes code body"
  have fr: "frame = (D @ S @ ET) @ ([v, tos] @ L @ ID @ F @ TP @ CK @ SRC @ DST @ OPT) @ ([ty, code] @ [c1, c2] @ body)"
    using q(1) unfolding P_def [symmetric] P D(1) S(1) SRC(1) DST(1) by (simp only: append_assoc)
  have io: "ihl_of frame = 20 + length OPT" using q(3) SRC DST by simp
  have gl: "length GUEST_IP = 4" by (simp add: GUEST_IP_def)
  have m6: "length (mac_addr n) = 6" using n by (simp add: net_bufs_ok_def)
  have lIP: "length IP = ihl_of frame" using p SRC DST io gl by (simp add: IP_def reply_ip_def)
  have li: "length (icmp_reply_bytes code body) = length P" by (simp add: P icmp_reply_bytes_def)
  have lf: "length frame = 14 + ihl_of frame + length P" using l(1) by (simp add: P_def)
  have st: "reply_to_echo_request frame n = tx_ipv4_fragmented g (n\<lparr>reply_buf := g @ drop (length frame) (reply_buf n)\<rparr>)"
    using reply_steps [OF fr D(2) S(2) ET(1) _ _ _ _ _ SRC(2) DST(2) _ io l(2) _ m6 g_def [unfolded IP_def]] p n
    by (simp add: net_bufs_ok_def)
  have g14: "g ! 14 = v" using S(2) m6 ET(1) by (simp add: g_def IP_def reply_ip_def nth_append)
  have f14: "frame ! 14 = v" using D S ET by (simp add: fr nth_append)
  have ckI: "checksum IP = 0"
    unfolding IP_def reply_ip_def using p io nibble_le [of v] f14
    by (intro checksum_stored) (simp_all add: csum_len_ok_def gl SRC(2) ihl_of_def)
  have ckB: "checksum (icmp_reply_bytes code body) = 0"
    unfolding icmp_reply_bytes_def using l(2) lf P
    by (intro checksum_stored) (simp_all add: csum_len_ok_def REPLY_MAX_def)
  have hd: "take (ihl_of frame) (drop 14 g) = IP" using S(2) m6 ET(1) lIP by (simp add: g_def)
  have bd: "drop (14 + ihl_of frame) g = icmp_reply_bytes code body"
  proof -
    have "g = (S @ mac_addr n @ ET @ IP) @ icmp_reply_bytes code body" by (simp add: g_def)
    moreover have "length (S @ mac_addr n @ ET @ IP) = 14 + ihl_of frame" using S(2) m6 ET(1) lIP by simp
    ultimately show ?thesis by simp
  qed
  have "mirrors (mac_addr n) frame g"
    unfolding mirrors_def
  proof (intro conjI)
    show lg: "length g = length frame" using S(2) m6 ET(1) lIP li lf by (simp add: g_def)
    show "take 6 g = take 6 (drop 6 frame)" "take 6 (drop 6 g) = mac_addr n"
      using D S m6 by (simp_all add: g_def fr)
    show "take 4 (drop 26 g) = GUEST_IP" "take 4 (drop 30 g) = take 4 (drop 26 frame)"
      using D S m6 ET(1) p gl SRC(2) by (simp_all add: g_def IP_def reply_ip_def fr)
    show ih: "ihl_of g = ihl_of frame" using g14 f14 by (simp add: ihl_of_def)
    show "frame_ident g = frame_ident frame"
      using D S m6 ET(1) p by (simp add: frame_ident_def g_def IP_def reply_ip_def fr nth_append)
    have "take 2 (drop 12 g) = [0x08, 0x00]" using S(2) m6 ET by (simp add: g_def)
    then show "ipv4_dgram g" using d ih lg g14 f14 by (simp add: ipv4_dgram_def)
    show "checksum (take (ihl_of frame) (drop 14 g)) = 0" "checksum (drop (14 + ihl_of frame) g) = 0"
      using hd bd ckI ckB by simp_all
    have "g ! (14 + ihl_of frame) = drop (14 + ihl_of frame) g ! 0"
      using lg lf lP by (intro nth_drop [symmetric, of _ _ 0, simplified]) simp
    then show "g ! (14 + ihl_of frame) = ICMP_ECHO_REPLY" unfolding bd by (simp add: icmp_reply_bytes_def)
    have "drop 4 (drop (14 + ihl_of frame) g) = drop 4 P" unfolding bd by (simp add: icmp_reply_bytes_def P)
    then show "drop (14 + ihl_of frame + 4) g = drop (14 + ihl_of frame + 4) frame"
      by (simp add: P_def drop_drop add.commute)
  qed
  then show ?thesis using that st by blast
qed

section \<open>The receive path cannot panic\<close>

lemma bind_total:
  "\<exists>y. m = Some y \<and> Q y \<Longrightarrow> (\<And>y. Q y \<Longrightarrow> \<exists>z. f y = Some z \<and> S z) \<Longrightarrow> \<exists>z. m \<bind> f = Some z \<and> S z"
  by auto

lemma frag_step_total:
  assumes "14 + ihl \<le> length frame" and "ihl \<le> 60" and "off + chunk \<le> length payload"
    and "14 + ihl + chunk \<le> length out" and "length out = MAX_FRAME"
  shows "\<exists>out'. frag_step frame ihl off chunk mf payload out = Some out' \<and> length out' = MAX_FRAME"
proof -
  have sl: "sub_slice frame 0 14 = Some (take 14 frame)" "sub_slice frame 14 (14 + ihl) = Some (take ihl (drop 14 frame))"
    "sub_slice payload off (off + chunk) = Some (take chunk (drop off payload))"
    using assms by (simp_all add: sub_slice_def)
  show ?thesis
    unfolding frag_step_def sl bind.bind_lunit
    by (rule bind_total [where Q = "\<lambda>ys. length ys = MAX_FRAME"],
        use assms in \<open>simp add: blit_checked_def MAX_FRAME_def; fail\<close>)+
       (rule bind_total [where Q = "\<lambda>h. True"],
        use assms in \<open>simp_all add: blit_checked_def sub_slice_def MAX_FRAME_def\<close>)
qed

text \<open>The steps that only send frames change the transmit list and the scratch buffers, nothing else.\<close>

definition sends :: "net \<Rightarrow> net \<Rightarrow> bool" where
  "sends n n' \<longleftrightarrow> (\<exists>fs fo rb. n' = n\<lparr>ntcp := (ntcp n)\<lparr>tx := tx (ntcp n) @ fs\<rparr>, frag_out := fo, reply_buf := rb\<rparr>
     \<and> length fo = length (frag_out n) \<and> length rb = length (reply_buf n))"

lemma sends_trans:
  assumes "sends a b" and "sends b c"
  shows "sends a c"
proof -
  obtain f1 o1 r1 where 1: "b = a\<lparr>ntcp := (ntcp a)\<lparr>tx := tx (ntcp a) @ f1\<rparr>, frag_out := o1, reply_buf := r1\<rparr>"
    "length o1 = length (frag_out a)" "length r1 = length (reply_buf a)" using assms(1) by (auto simp: sends_def)
  obtain f2 o2 r2 where 2: "c = b\<lparr>ntcp := (ntcp b)\<lparr>tx := tx (ntcp b) @ f2\<rparr>, frag_out := o2, reply_buf := r2\<rparr>"
    "length o2 = length (frag_out b)" "length r2 = length (reply_buf b)" using assms(2) by (auto simp: sends_def)
  show ?thesis
    unfolding sends_def using 1 2 by (intro exI [of _ "f1 @ f2"] exI [of _ o2] exI [of _ r2]) simp
qed

lemma sends_tx: "sends n (tx_frame f n)"
  unfolding sends_def tx_frame_def
  by (intro exI [of _ "[take MAX_FRAME f]"] exI [of _ "frag_out n"] exI [of _ "reply_buf n"]) simp

lemma sends_bufs:
  "length fo = length (frag_out n) \<Longrightarrow> sends n (n\<lparr>frag_out := fo\<rparr>)"
  "length rb = length (reply_buf n) \<Longrightarrow> sends n (n\<lparr>reply_buf := rb\<rparr>)"
  unfolding sends_def
  by (intro exI [of _ "[]"] exI [of _ fo] exI [of _ "reply_buf n"], simp)
     (intro exI [of _ "[]"] exI [of _ "frag_out n"] exI [of _ rb], simp)

lemma sends_keeps_bufs: "sends n n' \<Longrightarrow> net_bufs_ok n \<Longrightarrow> net_bufs_ok n'"
  by (auto simp: sends_def net_bufs_ok_def mac_addr_def)

lemma frag_loop_total:
  assumes "14 + ihl \<le> length frame" and "ihl \<le> 60" and "14 + ihl + mc \<le> MAX_FRAME"
    and "length (frag_out n) = MAX_FRAME"
  shows "\<exists>n'. frag_loop frame ihl mc payload off n = Some n' \<and> sends n n'"
  using assms(4)
proof (induction "length payload - off" arbitrary: off n rule: less_induct)
  case less
  have refl: "sends n n" using sends_bufs(1) [of "frag_out n" n] by simp
  show ?case
  proof (cases "off < length payload \<and> 0 < mc")
    case False
    then show ?thesis using refl by (subst frag_loop.simps) auto
  next
    case True
    define chunk where "chunk = min (length payload - off) mc"
    have c: "0 < chunk" "off + chunk \<le> length payload" "14 + ihl + chunk \<le> MAX_FRAME"
      using True assms(3) by (auto simp: chunk_def)
    obtain out where out: "frag_step frame ihl off chunk (off + chunk < length payload) payload (frag_out n) = Some out"
      "length out = MAX_FRAME"
      using frag_step_total [OF assms(1,2) c(2)] c(3) less.prems by auto
    define n1 where "n1 = tx_frame (take (14 + ihl + chunk) out) (n\<lparr>frag_out := out\<rparr>)"
    have s: "sends n n1"
      unfolding n1_def using sends_trans sends_tx sends_bufs(1) out(2) less.prems by metis
    have e: "frag_loop frame ihl mc payload off n = frag_loop frame ihl mc payload (off + chunk) n1"
      using True out c by (subst frag_loop.simps) (simp add: chunk_def [symmetric] Let_def sub_slice_def n1_def)
    have "length payload - (off + chunk) < length payload - off" using c True by simp
    from less.hyps [OF this, of n1] s less.prems obtain n' where
      "frag_loop frame ihl mc payload (off + chunk) n1 = Some n'" "sends n1 n'"
      by (auto simp: n1_def out(2))
    then show ?thesis using e s sends_trans by auto
  qed
qed

lemma tx_fragmented_total:
  assumes "net_bufs_ok n"
  shows "\<exists>n'. tx_ipv4_fragmented frame n = Some n' \<and> sends n n'"
proof (cases "length frame \<le> MAX_FRAME")
  case True
  then show ?thesis using sends_tx by (simp add: tx_ipv4_fragmented_def)
next
  case False
  let ?ihl = "unat (frame ! 14 AND 0x0F) * 4"
  have i: "?ihl \<le> 60" using nibble_le [of "frame ! 14"] by simp
  have l: "14 + ?ihl \<le> length frame" using i False by (simp add: MAX_FRAME_def)
  have "\<exists>n'. frag_loop frame ?ihl (((MAX_FRAME - 14 - ?ihl) div 8) * 8) (drop (14 + ?ihl) frame) 0 n = Some n' \<and> sends n n'"
    using assms i l by (intro frag_loop_total) (auto simp: net_bufs_ok_def MAX_FRAME_def)
  moreover have "index frame 14 = Some (frame ! 14)" using False by (simp add: index_def MAX_FRAME_def)
  ultimately show ?thesis using False l by (simp add: tx_ipv4_fragmented_def Let_def sub_slice_def)
qed

lemma reply_total:
  assumes l: "42 \<le> length frame" "14 + unat (frame ! 14 AND 0x0F) * 4 \<le> length frame" "length frame \<le> REPLY_MAX"
    and n: "net_bufs_ok n"
  shows "\<exists>n'. reply_to_echo_request frame n = Some n' \<and> sends n n'"
proof -
  define m where "m = length frame"
  define ihl where "ihl = unat (frame ! 14 AND 0x0F) * 4"
  have i: "ihl \<le> 60" "14 + ihl \<le> m" "m \<le> REPLY_MAX" "42 \<le> m"
    using nibble_le [of "frame ! 14"] l by (simp_all add: ihl_def m_def)
  have mn: "min (length frame) REPLY_MAX = m" using i by (simp add: m_def)
  have b: "length (reply_buf n) = REPLY_MAX" "length (mac_addr n) = 6" using n by (simp_all add: net_bufs_ok_def)
  let ?Q = "\<lambda>f. length f = REPLY_MAX \<and> f ! 14 = frame ! 14"
  let ?L = "\<lambda>f. length f = REPLY_MAX"
  have s0: "sub_slice frame 0 m = Some frame" by (simp add: sub_slice_def m_def)
  have b0: "\<exists>f. blit_checked (reply_buf n) 0 frame = Some f \<and> ?Q f"
    using b i by (simp add: blit_checked_def nth_blit m_def REPLY_MAX_def)
  have keep: "\<exists>g. blit_checked f k src = Some g \<and> ?Q g" if "?Q f" "k + length src \<le> 14" for f k src
    using that by (simp add: blit_checked_def nth_blit REPLY_MAX_def)
  have len: "\<exists>g. blit_checked f k src = Some g \<and> ?L g" if "?L f" "k + length src \<le> 80" for f k src
    using that by (simp add: blit_checked_def REPLY_MAX_def)
  have sl: "\<exists>x. sub_slice f a c = Some x \<and> length x = c - a" if "?L f" "a \<le> c" "c \<le> REPLY_MAX" for f a c
    using that by (simp add: sub_slice_def)
  have lG: "length GUEST_IP = 4" by (simp add: GUEST_IP_def)
  have fin: "\<exists>n'. tx_ipv4_fragmented g (n\<lparr>reply_buf := f\<rparr>) = Some n' \<and> sends n n'" if "?L f" for f g
  proof -
    have s: "sends n (n\<lparr>reply_buf := f\<rparr>)" using that b by (intro sends_bufs) simp
    then show ?thesis
      using tx_fragmented_total [OF sends_keeps_bufs [OF s n], of g] sends_trans [OF s] by blast
  qed
  show ?thesis
    unfolding reply_to_echo_request_def Let_def mn s0 bind.bind_lunit
    apply (rule bind_total [OF b0], rule bind_total [OF sl], simp, simp, simp add: REPLY_MAX_def)
    apply (rule bind_total [OF keep], simp, simp, rule bind_total [OF keep], simp, simp add: b)
    subgoal premises q for f old f1 f2
    proof -
      have v: "index f2 14 = Some (f2 ! 14)" using q by (simp add: index_def REPLY_MAX_def)
      have e: "unat (f2 ! 14 AND 0x0F) * 4 = ihl" and L: "?L f2" using q by (simp_all add: ihl_def)
      show ?thesis
        unfolding v bind.bind_lunit e
        by (rule bind_total [OF sl], use L in simp, simp, simp add: REPLY_MAX_def,
            (rule bind_total [OF len], use L i lG in simp, use i lG in simp)+,
            rule bind_total [OF sl], simp, simp, use i in \<open>simp add: REPLY_MAX_def\<close>,
            (rule bind_total [OF len], simp, use i in simp)+,
            rule bind_total [OF sl], simp, use i in simp, use i in simp,
            rule bind_total [OF len], simp, use i in simp,
            rule bind_total [OF sl], simp, simp, use i in simp, rule fin, simp)
    qed
    done
qed

definition frag_header_ok :: "bytes \<Rightarrow> bool" where
  "frag_header_ok frame \<longleftrightarrow>
     (frag_of frame \<noteq> None \<longrightarrow> fst (range_of frame) \<le> snd (range_of frame))"

definition reasm_ok :: "reasm \<Rightarrow> bool" where
  "reasm_ok r \<longleftrightarrow> reasm_shape r \<and> total_len r \<le> REASM_MAX"

lemma store_loop_shape: "reasm_shape r \<Longrightarrow> reasm_shape (store_loop bs idx r)"
  by (induction bs idx r rule: store_loop.induct) (auto simp: Let_def reasm_shape_def cov_set_def)

lemma fsm_fragment_total:
  assumes r: "reasm_ok r" and f: "offset frag + flen frag \<le> REASM_MAX" and k: "frags_seen r \<noteq> - 1"
  shows "\<exists>d r'. fsm_fragment frag r = Some (d, r') \<and> reasm_ok r' \<and> (\<forall>full. d = Some full \<longrightarrow> length full \<le> REPLY_MAX)"
proof -
  define r0 where "r0 = r\<lparr>rfsm := Reassembling\<rparr>"
  have s0: "reasm_shape r0" "total_len r0 \<le> REASM_MAX" using r by (auto simp: r0_def reasm_ok_def reasm_shape_def)
  define src where "src = take (flen frag) (cur_payload r0)"
  have sl: "sub_slice (cur_payload r0) 0 (flen frag) = Some src"
    using s0 f by (simp add: sub_slice_def src_def reasm_shape_def)
  define r1 where "r1 = store_loop src (offset frag) r0"
  define r2 where "r2 = (if \<not> more_frags frag then r1\<lparr>total_known := True, total_len := offset frag + flen frag\<rparr> else r1)"
  define r3 where "r3 = r2\<lparr>frags_seen := frags_seen r2 + 1\<rparr>"
  have "frags_seen r2 = frags_seen r" by (simp add: r2_def r1_def r0_def store_loop_keeps)
  then have st: "store frag r0 = Some r3"
    using k unfolding store_def sl bind.bind_lunit Let_def r1_def [symmetric] r2_def [symmetric]
    by (simp add: checked_inc_def r3_def)
  have ok3: "reasm_ok r3"
    using store_loop_shape [OF s0(1), of src "offset frag"] s0(2) f store_loop_keeps(2) [of src "offset frag" r0]
    by (simp add: reasm_ok_def r3_def r2_def r1_def reasm_shape_def)
  have en: "\<exists>d r'. enter_reassembling frag r = Some (d, r') \<and> reasm_ok r' \<and> (\<forall>full. d = Some full \<longrightarrow> length full \<le> REPLY_MAX)"
  proof (cases "is_complete r3")
    case False
    then show ?thesis using st ok3 by (simp add: enter_reassembling_def r0_def)
  next
    case True
    have s: "sub_slice (rbuf r3) 0 (total_len r3) = Some (take (total_len r3) (rbuf r3))"
      using ok3 by (simp add: sub_slice_def reasm_ok_def reasm_shape_def)
    have l: "length (saved_hdr r3) = 34" "length (rbuf r3) = REASM_MAX" "total_len r3 \<le> REASM_MAX"
      using ok3 by (simp_all add: reasm_ok_def reasm_shape_def ETH_HDR_def IP_HDR_def)
    have "length (blit (saved_hdr r3 @ take (total_len r3) (rbuf r3)) 16 (u16_to_be (of_nat (IP_HDR + total_len r3)))) \<le> REPLY_MAX"
      using l by (subst length_blit) (simp_all add: REPLY_MAX_def REASM_MAX_def)
    then show ?thesis
      using st True ok3 s
      by (simp add: enter_reassembling_def r0_def on_complete_def Let_def reasm_ok_def reasm_shape_def reset_inactive_def)
  qed
  then show ?thesis using r by (auto simp: fsm_fragment_def split: reasm_state.split)
qed

lemma on_fragment_total:
  assumes r: "reasm_ok r" and f: "frag_header_ok frame" and k: "frags_seen r \<noteq> - 1"
  shows "\<exists>d r'. on_fragment frame now r = Some (d, r') \<and> reasm_ok r' \<and> (\<forall>full. d = Some full \<longrightarrow> length full \<le> REPLY_MAX)"
proof (cases "frag_of frame")
  case None
  then show ?thesis using r by (simp add: on_fragment_None)
next
  case (Some frag)
  obtain a b where ab: "range_of frame = (a, b)" by fastforce
  have le: "a \<le> b" "b \<le> length frame" "34 \<le> length frame"
    using f Some ab frag_of_len [OF Some]
    by (auto simp: frag_header_ok_def range_of_def Let_def ETH_HDR_def)
  have fl: "flen frag = b - a" using Some ab by (auto simp: frag_of_def Let_def split: if_splits)
  show ?thesis
  proof (cases "offset frag + (b - a) > REASM_MAX")
    case True
    then show ?thesis
      using r by (simp add: on_fragment_eq [OF Some ab] reset_inactive_def reasm_ok_def reasm_shape_def)
  next
    case False
    define bs where "bs = take (b - a) (drop a frame)"
    have lb: "length bs = b - a" using le by (simp add: bs_def)
    have sl: "sub_slice frame a b = Some bs" using le by (simp add: sub_slice_def bs_def)
    have cp: "length (cur_payload r) = REASM_MAX" using r by (simp add: reasm_ok_def reasm_shape_def)
    have bl: "blit_checked (cur_payload r) 0 bs = Some (blit (cur_payload r) 0 bs)"
      using lb cp False by (simp add: blit_checked_def)
    define q where "q = r\<lparr>cur_payload := blit (cur_payload r) 0 bs\<rparr>"
    define r0 where "r0 = (if \<not> active q \<or> ident q \<noteq> fident frag then begun (fident frag) frame now q else q)"
    have "length (blit (cur_payload r) 0 bs) = REASM_MAX" using lb cp False by (simp add: blit_def)
    then have "reasm_ok r0"
      using r le(3) by (simp add: r0_def q_def reasm_ok_def reasm_shape_def begun_def ETH_HDR_def IP_HDR_def)
    moreover have "frags_seen r0 \<noteq> - 1" using k by (simp add: r0_def q_def begun_def)
    ultimately obtain d r' where
      "fsm_fragment frag r0 = Some (d, r')" "reasm_ok r'" "\<forall>full. d = Some full \<longrightarrow> length full \<le> REPLY_MAX"
      using fsm_fragment_total [of r0 frag] False fl by auto
    moreover have "on_fragment frame now r = fsm_fragment frag r0"
      using sl bl False by (simp add: on_fragment_eq [OF Some ab] r0_def q_def)
    ultimately show ?thesis by auto
  qed
qed

text \<open>The invariant of the module between two calls of \<open>pump\<close>.\<close>

definition net_ok :: "net \<Rightarrow> bool" where
  [inv_defs]: "net_ok n \<longleftrightarrow> net_bufs_ok n \<and> tcp_inv False (ntcp n) \<and> reasm_ok (nreasm n)
     \<and> length (gateway_mac n) = 6 \<and> length (offered_ip n) = 4"

text \<open>No 32-bit counter of the receive path is at its maximum, where the next addition panics.\<close>

definition counters_ok :: "net \<Rightarrow> bool" where
  "counters_ok n \<longleftrightarrow> (\<forall>i < MAX_CONN. echoes (conns (ntcp n) ! i) \<noteq> - 1)
     \<and> received (udp_sock n) \<noteq> - 1 \<and> frags_seen (nreasm n) \<noteq> - 1"

lemma sends_ok: "sends n n' \<Longrightarrow> net_ok n \<Longrightarrow> net_ok n'"
  using sends_keeps_bufs by (auto simp: net_ok_def sends_def tcp_inv_def)

lemma rx_goto_simps [simp]:
  "net_ok (rx_goto st n) = net_ok n" "rx_frame (rx_goto st n) = rx_frame n" "pipeline (rx_goto st n) = st"
  "counters_ok (rx_goto st n) = counters_ok n"
  by (simp_all add: rx_goto_def net_ok_def net_bufs_ok_def mac_addr_def counters_ok_def)

lemma NET_init_ok: "length mac = 6 \<Longrightarrow> net_ok (NET_init mac)" "counters_ok (NET_init mac)"
proof -
  show "net_ok (NET_init mac)" if "length mac = 6"
    using tcp_inv_init [of mac False] that
    by (simp add: net_ok_def NET_init_def net_bufs_ok_def mac_addr_def reasm_ok_def REASM_init_def reasm_shape_def
        TCP_init_def)
  show "counters_ok (NET_init mac)"
    by (simp add: counters_ok_def NET_init_def TCP_init_def CONN_INIT_def REASM_init_def)
qed

section \<open>The tests of the receive path\<close>

text \<open>
  What each test of a frame decides. The tests read in the source's order, and the length test
  that comes first keeps every later index and slice in range, so none of them panics.
\<close>

definition echo_request :: "bytes \<Rightarrow> bool" where
  "echo_request frame \<longleftrightarrow> 42 \<le> length frame \<and> take 2 (drop 12 frame) = ETHERTYPE_IPV4
     \<and> drop_bit 4 (frame ! 14) = 4 \<and> frame ! 23 = IP_PROTO_ICMP \<and> take 4 (drop 30 frame) = GUEST_IP
     \<and> 14 + unat (frame ! 14 AND 0x0F) * 4 < length frame
     \<and> frame ! (14 + unat (frame ! 14 AND 0x0F) * 4) = ICMP_ECHO_REQUEST"

lemma gateway_reply_Some: "\<exists>b. is_gateway_arp_reply frame = Some b \<and> (b \<longrightarrow> 42 \<le> length frame)"
  by (cases "42 \<le> length frame") (simp_all add: is_gateway_arp_reply_def slice_is_Some ex_bool_eq)

lemma arp_request_Some: "\<exists>b. is_arp_request_for_us frame = Some b \<and> (b \<longrightarrow> 42 \<le> length frame)"
  by (cases "42 \<le> length frame") (simp_all add: is_arp_request_for_us_def slice_is_Some ex_bool_eq)

lemma echo_request_Some: "is_icmp_echo_request_to_us frame = Some (echo_request frame)"
proof (cases "42 \<le> length frame")
  case True
  then show ?thesis
    by (cases "14 + unat (frame ! 14 AND 0x0F) * 4 < length frame")
      (simp_all add: is_icmp_echo_request_to_us_def echo_request_def slice_is_Some index_is_Some index_Some Let_def)
next
  case False
  then show ?thesis by (simp add: is_icmp_echo_request_to_us_def echo_request_def)
qed

lemma echo_reply_Some: "\<exists>b. is_icmp_echo_reply frame sq = Some b"
proof (cases "42 \<le> length frame")
  case True
  then show ?thesis
    by (cases "14 + unat (frame ! 14 AND 0x0F) * 4 + 8 \<le> length frame")
      (simp_all add: is_icmp_echo_reply_def slice_is_Some index_is_Some index_Some Let_def ex_bool_eq)
next
  case False
  then show ?thesis by (simp add: is_icmp_echo_reply_def ex_bool_eq)
qed

lemma dhcp_offer_Some: "\<exists>b. is_dhcp_offer frame dhcp dst = Some b \<and> (b \<longrightarrow> dhcp + 240 \<le> length frame)"
  by (cases "dhcp + 240 \<le> length frame") (simp_all add: is_dhcp_offer_def slice_is_Some index_is_Some ex_bool_eq)

lemma parse_descriptor_Some:
  "\<exists>d. parse_descriptor frame = Some d \<and> (ip_proto d \<noteq> 0 \<longrightarrow> 34 \<le> length frame)"
  by (auto simp: parse_descriptor_def index_def Let_def)

section \<open>The handlers\<close>

lemma on_arp_total:
  assumes "net_ok n"
  shows "\<exists>n'. on_arp pkt n = Some n' \<and> net_ok n'"
proof -
  let ?f = "rx_frame n"
  obtain b where b: "is_gateway_arp_reply ?f = Some b" "b \<longrightarrow> 42 \<le> length ?f" using gateway_reply_Some by blast
  obtain c where c: "is_arp_request_for_us ?f = Some c" "c \<longrightarrow> 42 \<le> length ?f" using arp_request_Some by blast
  have "\<exists>n'. send_arp_reply ?f n = Some n' \<and> net_ok n'" if "42 \<le> length ?f"
    using that sends_ok [OF sends_tx assms] by (simp add: send_arp_reply_def arp_reply_frame_def sub_slice_def)
  then show ?thesis
    using assms b c
    by (cases b; cases c) (auto simp: on_arp_def store_gateway_mac_def sub_slice_def net_ok_def net_bufs_ok_def mac_addr_def)
qed

lemma reply_ok:
  assumes "echo_request frame" and "length frame \<le> REPLY_MAX" and "net_ok n"
  shows "\<exists>n'. reply_to_echo_request frame n = Some n' \<and> net_ok n'"
proof -
  have "net_bufs_ok n" using assms(3) by (simp add: net_ok_def)
  then show ?thesis
    using reply_total [of frame n] assms(1,2) sends_ok [OF _ assms(3)] by (auto simp: echo_request_def)
qed

lemma on_icmp_total:
  assumes "net_ok n" and "frag_header_ok (rx_frame n)" and "length (rx_frame n) \<le> MAX_FRAME" and "counters_ok n"
  shows "\<exists>n'. on_icmp now pkt n = Some n' \<and> net_ok n'"
proof (cases "frag_of (rx_frame n)")
  case None
  have "length (rx_frame n) \<le> REPLY_MAX" using assms(3) by (simp add: MAX_FRAME_def REPLY_MAX_def)
  moreover obtain b where "is_icmp_echo_reply (rx_frame n) (expected_ping_seq n) = Some b" using echo_reply_Some by blast
  ultimately show ?thesis
    using None assms(1) reply_ok [of "rx_frame n" n]
    by (auto simp: on_icmp_def parse_fragment_eq echo_request_Some net_ok_def net_bufs_ok_def mac_addr_def)
next
  case (Some frag)
  have "frags_seen (nreasm n) \<noteq> - 1" using assms(4) by (simp add: counters_ok_def)
  then obtain d r where d: "on_fragment (rx_frame n) now (nreasm n) = Some (d, r)" "reasm_ok r"
    "\<forall>full. d = Some full \<longrightarrow> length full \<le> REPLY_MAX"
    using on_fragment_total assms(1,2) by (metis net_ok_def)
  have "net_ok (n\<lparr>nreasm := r\<rparr>)" using assms(1) d(2) by (simp add: net_ok_def net_bufs_ok_def mac_addr_def)
  then show ?thesis
    using Some d reply_ok
    by (auto simp: on_icmp_def parse_fragment_eq on_reassembled_ipv4_def echo_request_Some split: option.split)
qed

lemma on_udp_total:
  assumes "net_ok n" and "34 \<le> length (rx_frame n)" and "counters_ok n"
  shows "\<exists>n'. on_udp pkt n = Some n' \<and> net_ok n'"
proof -
  let ?f = "rx_frame n"
  let ?udp = "14 + unat (?f ! 14 AND 0x0F) * 4"
  let ?dst = "u16_from_be (?f ! (?udp + 2)) (?f ! (?udp + 3))"
  have v: "index ?f 14 = Some (?f ! 14)" using assms(2) by (simp add: index_def)
  obtain b where b: "is_dhcp_offer ?f (?udp + 8) ?dst = Some b" "b \<longrightarrow> ?udp + 248 \<le> length ?f"
    using dhcp_offer_Some [of ?f "?udp + 8" ?dst] by auto
  have r: "\<exists>k. udp_recv (udp_sock n) = Some k"
    using assms(3) by (simp add: udp_recv_def checked_inc_def counters_ok_def split: udp_state.split)
  have n: "net_ok (n\<lparr>udp_sock := k\<rparr>)" for k using assms(1) by (simp add: net_ok_def net_bufs_ok_def mac_addr_def)
  show ?thesis
  proof (cases "length ?f < ?udp + 8")
    case True
    then show ?thesis using v assms(1) by (simp add: on_udp_def Let_def)
  next
    case False
    then have i: "index ?f (?udp + 2) = Some (?f ! (?udp + 2))" "index ?f (?udp + 3) = Some (?f ! (?udp + 3))"
      by (simp_all add: index_def)
    have "sub_slice ?f (?udp + 8 + 16) (?udp + 8 + 20) = Some (take 4 (drop (?udp + 24) ?f))"
      "length (take 4 (drop (?udp + 24) ?f)) = 4" if b
      using b(2) that by (simp_all add: sub_slice_def)
    then show ?thesis
      using False v i b(1) r n assms(1) unfolding on_udp_def Let_def
      by (cases b) (auto simp: net_ok_def net_bufs_ok_def mac_addr_def)
  qed
qed

lemma on_tcp_total:
  assumes "net_ok n" and "34 \<le> length (rx_frame n)" and "counters_ok n"
  shows "\<exists>n'. on_tcp now pkt n = Some n' \<and> net_ok n'"
proof -
  have t: "tcp_inv False (ntcp n)" "30 \<le> length (rx_frame n)" using assms(1,2) by (simp_all add: net_ok_def)
  obtain t' where t': "on_segment (rx_frame n) now (ntcp n) = Some t'" "tcp_inv False t'"
    using on_segment_spec [OF t, of now] assms(3) owner_lt
    by (cases "on_segment (rx_frame n) now (ntcp n)") (auto simp: counters_ok_def)
  then show ?thesis using assms(1) by (simp add: on_tcp_def net_ok_def net_bufs_ok_def mac_addr_def tcp_inv_def)
qed

lemma idle_total:
  "\<exists>n'. m = Some n' \<and> net_ok n' \<Longrightarrow> \<exists>n'. map_option (rx_goto RxIdle) m = Some n' \<and> net_ok n' \<and> pipeline n' = RxIdle"
  by auto

lemma rx_enter_total:
  assumes "net_ok n" and "frag_header_ok (rx_frame n)" and "length (rx_frame n) \<le> MAX_FRAME" and "counters_ok n"
    and "ip_proto pkt \<noteq> 0 \<longrightarrow> 34 \<le> length (rx_frame n)"
  shows "\<exists>n'. rx_enter now RxClassifying pkt n = Some n' \<and> net_ok n' \<and> pipeline n' = RxIdle"
proof -
  have ipv4: "\<exists>n'. rx_enter now RxIpv4 pkt (rx_goto RxClassifying n) = Some n' \<and> net_ok n' \<and> pipeline n' = RxIdle"
    using assms
    by (auto simp: Let_def intro!: idle_total on_icmp_total on_tcp_total on_udp_total simp del: map_option_eq_Some)
  have arp: "\<exists>n'. rx_enter now RxArp pkt (rx_goto RxClassifying n) = Some n' \<and> net_ok n' \<and> pipeline n' = RxIdle"
    using assms(1) by (simp only: rx_enter.simps) (intro idle_total on_arp_total, simp)
  show ?thesis using ipv4 arp assms(1) by (simp add: Let_def del: rx_enter.simps(3,4))
qed

section \<open>Properties\<close>


text \<open>The frame of the witness is an echo request to us.\<close>

definition demo_ping :: bytes where
  "demo_ping = [2, 0, 0, 0, 0, 1,  2, 0, 0, 0, 0, 9,  8, 0,
     0x45, 0, 0, 30, 0, 7, 0, 0, 64, 1, 0, 0, 10, 0, 2, 2, 10, 0, 2, 15,
     8, 0, 0, 0, 0x12, 0x34, 0, 1, 0xAA, 0xBB]"

lemma demo_ping_facts:
  "echo_request demo_ping" "ihl_of demo_ping = 20" "length demo_ping = 44" "frag_of demo_ping = None"
  by (simp_all add: demo_ping_def echo_request_def ihl_of_def ETHERTYPE_IPV4_def IP_PROTO_ICMP_def
      GUEST_IP_def ICMP_ECHO_REQUEST_def frag_of_def ETH_HDR_def IP_HDR_def u16_from_be_def u16_from_le_def)


text \<open>
  Pings are answered. For an echo request to us that fits in one frame, exactly one frame
  is sent: it goes from our MAC and IP address back to the requester's, is an echo reply that
  carries the request's identifier, sequence number and data unchanged, and both its IPv4 and
  its ICMP checksum verify.
\<close>

theorem echo_reply_spec:
  assumes "is_icmp_echo_request_to_us frame = Some True" and "20 \<le> ihl_of frame" and "14 + ihl_of frame + 8 \<le> length frame"
    and "length frame \<le> MAX_FRAME" and "net_ok n"
  shows "\<exists>n' f. reply_to_echo_request frame n = Some n' \<and> tx (ntcp n') = tx (ntcp n) @ [f]
     \<and> length f = length frame \<and> take 6 f = take 6 (drop 6 frame) \<and> take 6 (drop 6 f) = nic_mac (ntcp n)
     \<and> take 4 (drop 26 f) = GUEST_IP \<and> take 4 (drop 30 f) = take 4 (drop 26 frame)
     \<and> checksum (take (ihl_of frame) (drop 14 f)) = 0
     \<and> f ! (14 + ihl_of frame) = ICMP_ECHO_REPLY \<and> checksum (drop (14 + ihl_of frame) f) = 0
     \<and> drop (14 + ihl_of frame + 4) f = drop (14 + ihl_of frame + 4) frame"
proof -
  have d: "ipv4_dgram frame"
    using assms(1-3) by (simp add: echo_request_Some echo_request_def ipv4_dgram_def ETHERTYPE_IPV4_def)
  have "length frame \<le> REPLY_MAX" using assms(4) by (simp add: MAX_FRAME_def REPLY_MAX_def)
  then obtain g where g: "mirrors (mac_addr n) frame g"
    "reply_to_echo_request frame n = tx_ipv4_fragmented g (n\<lparr>reply_buf := g @ drop (length frame) (reply_buf n)\<rparr>)"
    using reply_shape [OF d _ _] assms(3,5) by (auto simp: net_ok_def)
  then have "reply_to_echo_request frame n = Some (tx_frame g (n\<lparr>reply_buf := g @ drop (length frame) (reply_buf n)\<rparr>))"
    using assms(4) by (simp add: tx_ipv4_fragmented_def mirrors_def)
  then show ?thesis
    using g(1) assms(4) by (auto simp: mirrors_def mac_addr_def)
qed

theorem echo_reply_spec_witness:
  "\<exists>n' f. reply_to_echo_request demo_ping (NET_init [2, 0, 0, 0, 0, 1]) = Some n'
     \<and> tx (ntcp n') = tx (ntcp (NET_init [2, 0, 0, 0, 0, 1])) @ [f]
     \<and> length f = length demo_ping \<and> take 6 f = take 6 (drop 6 demo_ping)
     \<and> take 6 (drop 6 f) = nic_mac (ntcp (NET_init [2, 0, 0, 0, 0, 1]))
     \<and> take 4 (drop 26 f) = GUEST_IP \<and> take 4 (drop 30 f) = take 4 (drop 26 demo_ping)
     \<and> checksum (take (ihl_of demo_ping) (drop 14 f)) = 0
     \<and> f ! (14 + ihl_of demo_ping) = ICMP_ECHO_REPLY \<and> checksum (drop (14 + ihl_of demo_ping) f) = 0
     \<and> drop (14 + ihl_of demo_ping + 4) f = drop (14 + ihl_of demo_ping + 4) demo_ping"
  by (rule echo_reply_spec) (simp_all add: demo_ping_facts MAX_FRAME_def NET_init_ok echo_request_Some)

text \<open>The resolver after \<open>k\<close> timeouts.\<close>

definition arp_after :: "net \<Rightarrow> nat \<Rightarrow> arp_resolver \<times> net \<Rightarrow> bool" where
  "arp_after n k = (\<lambda>(a, n').
     attempts a = min 5 (k + 1) \<and> max_attempts a = 5 \<and> mac_addr n' = mac_addr n
     \<and> tx (ntcp n') = tx (ntcp n) @ replicate (min 5 (k + 1)) (take MAX_FRAME (arp_request_frame (mac_addr n)))
     \<and> (astate a = Failed \<longleftrightarrow> 5 \<le> k) \<and> (astate a = Incomplete \<longleftrightarrow> k < 5) \<and> (arp_failed n' \<longleftrightarrow> arp_failed n \<or> 5 \<le> k))"

lemmas arp_defs = arp_enter_def arp_send_request_def arp_arm_timer_def arp_on_failed_def tx_frame_def mac_addr_def

lemma arp_after_create: "arp_after n 0 (arp_create t0 n)"
  by (simp add: arp_after_def arp_create_def arp_defs)

lemma arp_after_timeout: "arp_after n k s \<Longrightarrow> arp_after n (Suc k) (arp_timeout t s)"
proof -
  assume a: "arp_after n k s"
  obtain r m where s: "s = (r, m)" by fastforce
  have rep: "replicate j x @ [x] = x # replicate j x" for j and x :: bytes by (simp add: replicate_append_same)
  consider "k < 4" | "k = 4" | "k > 4" by linarith
  then show ?thesis
    using a by cases (auto simp: s arp_after_def arp_timeout_def arp_defs rep split: arp_state.split)
qed

text \<open>
  Address resolution gives up after five requests. However many times the retransmit
  timer fires, at whatever ticks, the resolver sends one request per entry of \<open>$Incomplete\<close>
  and never more than five; it is in \<open>$Failed\<close> exactly when the timer has fired five times.
\<close>

theorem arp_retry_cap:
  "\<exists>a n'. fold arp_timeout ts (arp_create t0 n) = (a, n')
     \<and> tx (ntcp n') = tx (ntcp n) @ replicate (min 5 (length ts + 1)) (take MAX_FRAME (arp_request_frame (mac_addr n)))
     \<and> (astate a = Failed \<longleftrightarrow> 5 \<le> length ts) \<and> (astate a = Incomplete \<longleftrightarrow> length ts < 5)
     \<and> (arp_failed n' \<longleftrightarrow> arp_failed n \<or> 5 \<le> length ts)"
proof -
  have "arp_after n (length ts) (fold arp_timeout ts (arp_create t0 n))"
    by (induction ts rule: rev_induct) (simp_all add: arp_after_create arp_after_timeout)
  moreover obtain a n' where s: "fold arp_timeout ts (arp_create t0 n) = (a, n')" by fastforce
  ultimately show ?thesis by (simp add: arp_after_def)
qed

end
