(* ===== verification/Frames.thy ===== *)
theory Frames
  imports Prelude
begin

text \<open>
  The physical frame allocator \<open>kernel/src/frames.rs\<close>: a bitmap with one bit per 4 KiB frame
  (set when in use) and a running count of free frames. It is a client of the bit-array
  interface of \<open>Prelude\<close>. Frame numbers are \<open>usize\<close> values below \<open>2 ^ 20\<close>; physical addresses
  are \<open>u64\<close>; the counter is a \<open>u64\<close> that wraps, and the invariant shows it never does.
\<close>

definition FRAME_SIZE :: u64 where "FRAME_SIZE = 4096"
definition MAX_FRAMES :: nat where "MAX_FRAMES = 2 ^ 20"
definition BITMAP_BYTES :: nat where "BITMAP_BYTES = MAX_FRAMES div 8"

record frames =
  fbitmap :: bytes
  free_cnt :: u64
  hhdm :: u64

definition FRAMES_init :: frames where
  "FRAMES_init = \<lparr>fbitmap = replicate BITMAP_BYTES 0xFF, free_cnt = 0, hhdm = 0\<rparr>"

definition is_used :: "nat \<Rightarrow> frames \<Rightarrow> bool" where
  "is_used f s = bitmap_get (fbitmap s) f"

definition mark_used :: "nat \<Rightarrow> frames \<Rightarrow> frames" where
  "mark_used f s = s\<lparr>fbitmap := bitmap_set (fbitmap s) f\<rparr>"

definition mark_free :: "nat \<Rightarrow> frames \<Rightarrow> frames" where
  "mark_free f s = s\<lparr>fbitmap := bitmap_clear (fbitmap s) f\<rparr>"

definition adjust_free :: "int \<Rightarrow> frames \<Rightarrow> frames" where
  "adjust_free d s = s\<lparr>free_cnt := free_cnt s + of_int d\<rparr>"

definition free_step :: "nat \<Rightarrow> frames \<Rightarrow> frames" where
  "free_step f s = (if f < MAX_FRAMES \<and> is_used f s then adjust_free 1 (mark_free f s) else s)"

definition free_region :: "u64 \<times> u64 \<Rightarrow> frames \<Rightarrow> frames" where
  "free_region r s =
     (let (base, len) = r;
          start = unat (base div FRAME_SIZE);
          end = unat ((base + len) div FRAME_SIZE)
      in fold free_step [start..<end] s)"

definition init_from_regions :: "(u64 \<times> u64) list \<Rightarrow> u64 \<Rightarrow> frames \<Rightarrow> frames" where
  "init_from_regions usable off s =
     (let s = fold free_region usable (s\<lparr>hhdm := off\<rparr>)
      in if \<not> is_used 0 s then adjust_free (- 1) (mark_used 0 s) else s)"

text \<open>The entries of the boot loader's memory map: kind (usable or not), base and length.\<close>

definition usable_regions :: "(bool \<times> u64 \<times> u64) list \<Rightarrow> (u64 \<times> u64) list" where
  "usable_regions entries = take 64 (map snd (filter fst entries))"

definition frames_init :: "(bool \<times> u64 \<times> u64) list \<Rightarrow> u64 \<Rightarrow> frames \<Rightarrow> frames" where
  "frames_init entries off s = init_from_regions (usable_regions entries) off s"

function alloc_frame_from :: "nat \<Rightarrow> frames \<Rightarrow> u64 option \<times> frames" where
  "alloc_frame_from f s =
     (if f < MAX_FRAMES
      then (if \<not> is_used f s
            then (Some (of_nat f * FRAME_SIZE), adjust_free (- 1) (mark_used f s))
            else alloc_frame_from (Suc f) s)
      else (None, s))"
  by pat_completeness auto
termination
  by (relation "measure (\<lambda>(f, s). MAX_FRAMES - f)") auto

declare alloc_frame_from.simps [simp del]

definition alloc_frame :: "frames \<Rightarrow> u64 option \<times> frames" where
  "alloc_frame s = alloc_frame_from 1 s"

text \<open>The inner scan of \<open>alloc_contiguous\<close>: the first used frame of the candidate run.\<close>

definition first_used :: "nat \<Rightarrow> nat \<Rightarrow> frames \<Rightarrow> nat option" where
  "first_used start n s = find (\<lambda>k. is_used (start + k) s) [0..<n]"

function alloc_run_from :: "nat \<Rightarrow> nat \<Rightarrow> frames \<Rightarrow> u64 option \<times> frames" where
  "alloc_run_from start n s =
     (if start + n \<le> MAX_FRAMES
      then (case first_used start n s of
              Some k \<Rightarrow> alloc_run_from (start + (k + 1)) n s
            | None \<Rightarrow> (Some (of_nat start * FRAME_SIZE),
                       fold (\<lambda>k s. adjust_free (- 1) (mark_used (start + k) s)) [0..<n] s))
      else (None, s))"
  by pat_completeness auto
termination
  by (relation "measure (\<lambda>(start, n, s). Suc MAX_FRAMES - start)") auto

declare alloc_run_from.simps [simp del]

definition alloc_contiguous :: "nat \<Rightarrow> frames \<Rightarrow> u64 option \<times> frames" where
  "alloc_contiguous n s = (if n = 0 then (None, s) else alloc_run_from 1 n s)"

definition free_frame :: "u64 \<Rightarrow> frames \<Rightarrow> frames" where
  "free_frame phys s =
     (let frame = unat (phys div FRAME_SIZE)
      in if frame < MAX_FRAMES \<and> is_used frame s then adjust_free 1 (mark_free frame s) else s)"

definition free_count :: "frames \<Rightarrow> u64" where
  "free_count s = free_cnt s"

definition phys_to_virt :: "u64 \<Rightarrow> frames \<Rightarrow> u64" where
  "phys_to_virt phys s = phys + hhdm s"

section \<open>Invariant\<close>

definition free_frames :: "frames \<Rightarrow> nat set" where
  "free_frames s = {f. f < MAX_FRAMES \<and> \<not> is_used f s}"

definition frames_ok :: "frames \<Rightarrow> bool" where
  [inv_defs]: "frames_ok s \<longleftrightarrow> length (fbitmap s) = BITMAP_BYTES \<and> unat (free_cnt s) = card (free_frames s)"

lemma finite_free [simp]: "finite (free_frames s)"
  by (simp add: free_frames_def)

lemma card_free_le: "card (free_frames s) \<le> MAX_FRAMES"
  using card_mono [of "{..<MAX_FRAMES}" "free_frames s"] by (auto simp: free_frames_def)

lemma cap_eq: "frames_ok s \<Longrightarrow> 8 * length (fbitmap s) = MAX_FRAMES"
  by (simp add: frames_ok_def BITMAP_BYTES_def MAX_FRAMES_def)

lemma is_used_simps:
  assumes "frames_ok s" and "f < MAX_FRAMES"
  shows "is_used g (mark_used f s) \<longleftrightarrow> g = f \<or> is_used g s"
    and "is_used g (mark_free f s) \<longleftrightarrow> g \<noteq> f \<and> is_used g s"
  using assms cap_eq [OF assms(1)]
  by (simp_all add: is_used_def mark_used_def mark_free_def bitmap.get_set bitmap.get_clr)

lemma is_used_adjust [simp]: "is_used g (adjust_free d s) = is_used g s"
  by (simp add: is_used_def adjust_free_def)

text \<open>Taking a free frame and giving a used one back.\<close>

lemma take_frame:
  assumes ok: "frames_ok s" and f: "f < MAX_FRAMES" "\<not> is_used f s"
  defines "s' \<equiv> adjust_free (- 1) (mark_used f s)"
  shows "frames_ok s'" and "free_frames s' = free_frames s - {f}"
    and "is_used g s' \<longleftrightarrow> g = f \<or> is_used g s"
    and "unat (free_cnt s') + 1 = unat (free_cnt s)"
proof -
  show used: "is_used g s' \<longleftrightarrow> g = f \<or> is_used g s" for g
    by (simp add: s'_def is_used_simps [OF ok f(1)])
  show free: "free_frames s' = free_frames s - {f}"
    using used by (auto simp: free_frames_def)
  have mem: "f \<in> free_frames s" using f by (simp add: free_frames_def)
  then have "card (free_frames s') = card (free_frames s) - 1" "0 < card (free_frames s)"
    using free by (simp_all add: card_gt_0_iff) auto
  moreover have "free_cnt s' = free_cnt s - 1" by (simp add: s'_def adjust_free_def mark_used_def)
  moreover have eq: "unat (free_cnt s) = card (free_frames s)" using ok by (simp add: frames_ok_def)
  moreover from calculation(2) eq have "free_cnt s \<noteq> 0" by (metis less_numeral_extra(3) unat_0)
  ultimately have c: "unat (free_cnt s') = card (free_frames s')" "unat (free_cnt s') + 1 = unat (free_cnt s)"
    using unat_minus_one [of "free_cnt s"] by auto
  then show "unat (free_cnt s') + 1 = unat (free_cnt s)" by simp
  show "frames_ok s'"
    using ok c by (simp add: frames_ok_def s'_def adjust_free_def mark_used_def)
qed

lemma give_frame:
  assumes ok: "frames_ok s" and f: "f < MAX_FRAMES" "is_used f s"
  defines "s' \<equiv> adjust_free 1 (mark_free f s)"
  shows "frames_ok s'" and "free_frames s' = insert f (free_frames s)"
    and "is_used g s' \<longleftrightarrow> g \<noteq> f \<and> is_used g s"
    and "unat (free_cnt s') = unat (free_cnt s) + 1"
proof -
  show used: "is_used g s' \<longleftrightarrow> g \<noteq> f \<and> is_used g s" for g
    by (simp add: s'_def is_used_simps [OF ok f(1)])
  show free: "free_frames s' = insert f (free_frames s)"
    using used f by (auto simp: free_frames_def)
  have "f \<notin> free_frames s" using f by (simp add: free_frames_def)
  then have "card (free_frames s') = Suc (card (free_frames s))" using free by simp
  moreover have "free_cnt s' = free_cnt s + 1" by (simp add: s'_def adjust_free_def mark_free_def)
  moreover have eq: "unat (free_cnt s) = card (free_frames s)" using ok by (simp add: frames_ok_def)
  moreover have "unat (free_cnt s + 1) = unat (free_cnt s) + 1"
    using card_free_le [of s] eq by (subst unat_add_no_ovf) (simp_all add: MAX_FRAMES_def)
  ultimately have c: "unat (free_cnt s') = card (free_frames s')" "unat (free_cnt s') = unat (free_cnt s) + 1"
    by simp_all
  then show "unat (free_cnt s') = unat (free_cnt s) + 1" by simp
  show "frames_ok s'"
    using ok c by (simp add: frames_ok_def s'_def adjust_free_def mark_free_def)
qed

lemma unat_frame_addr:
  assumes "f < MAX_FRAMES"
  shows "unat (of_nat f * FRAME_SIZE :: u64) = f * 4096" and "unat ((of_nat f * FRAME_SIZE :: u64) div FRAME_SIZE) = f"
proof -
  have "f * 4096 < 2 ^ 64" using assms by (simp add: MAX_FRAMES_def)
  moreover have "(of_nat f * FRAME_SIZE :: u64) = of_nat (f * 4096)" by (simp add: FRAME_SIZE_def)
  ultimately show a: "unat (of_nat f * FRAME_SIZE :: u64) = f * 4096"
    by (simp only: unat_of_nat) (simp add: take_bit_nat_eq_self)
  have "unat (FRAME_SIZE :: u64) = 4096" by (simp add: FRAME_SIZE_def)
  then show "unat ((of_nat f * FRAME_SIZE :: u64) div FRAME_SIZE) = f"
    using a by (simp add: unat_div_distrib)
qed

section \<open>Allocation\<close>

lemma alloc_frame_from_cases:
  assumes "frames_ok s"
  obtains (none) "alloc_frame_from i s = (None, s)" "\<And>g. i \<le> g \<Longrightarrow> g < MAX_FRAMES \<Longrightarrow> is_used g s"
  | (some) f where "alloc_frame_from i s = (Some (of_nat f * FRAME_SIZE), adjust_free (- 1) (mark_used f s))"
      "i \<le> f" "f < MAX_FRAMES" "\<not> is_used f s" "\<And>g. i \<le> g \<Longrightarrow> g < f \<Longrightarrow> is_used g s"
proof -
  have "(alloc_frame_from i s = (None, s) \<and> (\<forall>g. i \<le> g \<and> g < MAX_FRAMES \<longrightarrow> is_used g s))
      \<or> (\<exists>f. alloc_frame_from i s = (Some (of_nat f * FRAME_SIZE), adjust_free (- 1) (mark_used f s))
          \<and> i \<le> f \<and> f < MAX_FRAMES \<and> \<not> is_used f s \<and> (\<forall>g. i \<le> g \<and> g < f \<longrightarrow> is_used g s))"
  proof (induction "MAX_FRAMES - i" arbitrary: i)
    case 0
    then have "\<not> i < MAX_FRAMES" by simp
    then show ?case by (subst alloc_frame_from.simps) auto
  next
    case (Suc k)
    then have lt: "i < MAX_FRAMES" and k: "k = MAX_FRAMES - Suc i" by simp_all
    show ?case
    proof (cases "is_used i s")
      case True
      then have e: "alloc_frame_from i s = alloc_frame_from (Suc i) s"
        using lt by (subst alloc_frame_from.simps) simp
      have u: "is_used g s" if "i \<le> g" "\<not> Suc i \<le> g" for g
        using True that by (metis le_less_Suc_eq not_le)
      show ?thesis unfolding e using Suc.hyps(1) [OF k] u by (metis Suc_leD)
    next
      case False
      then show ?thesis
        using lt by (subst alloc_frame_from.simps) (auto intro!: exI [of _ i])
    qed
  qed
  then show ?thesis using none some by blast
qed

lemma take_run:
  assumes "frames_ok s" and "\<And>k. k < n \<Longrightarrow> \<not> is_used (start + k) s" and "start + n \<le> MAX_FRAMES"
  shows "frames_ok (fold (\<lambda>k s. adjust_free (- 1) (mark_used (start + k) s)) [0..<n] s)
     \<and> (\<forall>g. is_used g (fold (\<lambda>k s. adjust_free (- 1) (mark_used (start + k) s)) [0..<n] s)
              \<longleftrightarrow> (start \<le> g \<and> g < start + n) \<or> is_used g s)
     \<and> unat (free_cnt (fold (\<lambda>k s. adjust_free (- 1) (mark_used (start + k) s)) [0..<n] s)) + n
         = unat (free_cnt s)"
  using assms
proof (induction n)
  case (Suc n)
  let ?s = "fold (\<lambda>k s. adjust_free (- 1) (mark_used (start + k) s)) [0..<n] s"
  have IH: "frames_ok ?s" "\<And>g. is_used g ?s \<longleftrightarrow> (start \<le> g \<and> g < start + n) \<or> is_used g s"
      "unat (free_cnt ?s) + n = unat (free_cnt s)"
    using Suc by simp_all
  have f: "start + n < MAX_FRAMES" "\<not> is_used (start + n) ?s" using Suc.prems IH(2) by simp_all
  note t = take_frame [OF IH(1) f]
  show ?case using t(1,3,4) IH(2,3) by (auto simp: less_Suc_eq)
qed auto

lemma first_used_None: "first_used start n s = None \<longleftrightarrow> (\<forall>k < n. \<not> is_used (start + k) s)"
  by (auto simp: first_used_def find_None_iff)

lemma first_used_Some:
  assumes "first_used start n s = Some k"
  shows "k < n" and "is_used (start + k) s"
  using assms by (auto simp: first_used_def find_Some_iff)

lemma alloc_run_from_cases:
  obtains (none) "alloc_run_from i n s = (None, s)"
      "\<And>a. i \<le> a \<Longrightarrow> a + n \<le> MAX_FRAMES \<Longrightarrow> \<exists>k < n. is_used (a + k) s"
  | (some) a where "alloc_run_from i n s = (Some (of_nat a * FRAME_SIZE),
        fold (\<lambda>k s. adjust_free (- 1) (mark_used (a + k) s)) [0..<n] s)"
      "i \<le> a" "a + n \<le> MAX_FRAMES" "\<And>k. k < n \<Longrightarrow> \<not> is_used (a + k) s"
proof -
  have "(alloc_run_from i n s = (None, s) \<and> (\<forall>a. i \<le> a \<and> a + n \<le> MAX_FRAMES \<longrightarrow> (\<exists>k < n. is_used (a + k) s)))
      \<or> (\<exists>a. alloc_run_from i n s = (Some (of_nat a * FRAME_SIZE),
              fold (\<lambda>k s. adjust_free (- 1) (mark_used (a + k) s)) [0..<n] s)
          \<and> i \<le> a \<and> a + n \<le> MAX_FRAMES \<and> (\<forall>k < n. \<not> is_used (a + k) s))"
  proof (induction "Suc MAX_FRAMES - i" arbitrary: i rule: less_induct)
    case less
    show ?case
    proof (cases "i + n \<le> MAX_FRAMES")
      case False
      then show ?thesis by (subst alloc_run_from.simps) auto
    next
      case True
      show ?thesis
      proof (cases "first_used i n s")
        case None
        then have "alloc_run_from i n s = (Some (of_nat i * FRAME_SIZE),
            fold (\<lambda>k s. adjust_free (- 1) (mark_used (i + k) s)) [0..<n] s)"
          using True by (subst alloc_run_from.simps) simp
        then show ?thesis
          using True None by (intro disjI2 exI [of _ i]) (simp add: first_used_None)
      next
        case (Some k)
        note k = first_used_Some [OF Some]
        have e: "alloc_run_from i n s = alloc_run_from (i + (k + 1)) n s"
          using True Some by (subst alloc_run_from.simps) simp
        have hit: "\<exists>j < n. is_used (a + j) s" if "i \<le> a" "\<not> i + (k + 1) \<le> a" for a
          using that k by (intro exI [of _ "i + k - a"]) simp
        have "Suc MAX_FRAMES - (i + (k + 1)) < Suc MAX_FRAMES - i" using True by simp
        from less [OF this] show ?thesis
          unfolding e using hit by (metis (no_types, lifting) add_leD1)
      qed
    qed
  qed
  then show ?thesis using none some by blast
qed

section \<open>Initialisation\<close>

lemma free_step_ok:
  assumes "frames_ok s"
  shows "frames_ok (free_step f s)"
    and "is_used g (free_step f s) \<longleftrightarrow> is_used g s \<and> \<not> (g = f \<and> f < MAX_FRAMES)"
  using give_frame [OF assms] assms by (auto simp: free_step_def)

lemma fold_free_step:
  assumes "frames_ok s"
  shows "frames_ok (fold free_step fs s)
     \<and> (\<forall>g. is_used g (fold free_step fs s) \<longleftrightarrow> is_used g s \<and> \<not> (g \<in> set fs \<and> g < MAX_FRAMES))"
  using assms by (induction fs arbitrary: s) (auto simp: free_step_ok)

definition region_frames :: "u64 \<times> u64 \<Rightarrow> nat set" where
  "region_frames r = {unat (fst r div FRAME_SIZE)..<unat ((fst r + snd r) div FRAME_SIZE)}"

lemma fold_free_region:
  assumes "frames_ok s"
  shows "frames_ok (fold free_region rs s)
     \<and> (\<forall>g. is_used g (fold free_region rs s) \<longleftrightarrow>
             is_used g s \<and> \<not> (g < MAX_FRAMES \<and> (\<exists>r \<in> set rs. g \<in> region_frames r)))"
  using assms
proof (induction rs arbitrary: s)
  case (Cons r rs)
  have "frames_ok (free_region r s)"
    "is_used g (free_region r s) \<longleftrightarrow> is_used g s \<and> \<not> (g < MAX_FRAMES \<and> g \<in> region_frames r)" for g
    using fold_free_step [OF Cons.prems] by (auto simp: free_region_def region_frames_def Let_def split: prod.splits)
  with Cons.IH [of "free_region r s"] show ?case by auto
qed simp

lemma FRAMES_init_used: "f < MAX_FRAMES \<Longrightarrow> is_used f FRAMES_init"
proof -
  assume "f < MAX_FRAMES"
  then have "f div 8 < BITMAP_BYTES" by (simp add: BITMAP_BYTES_def MAX_FRAMES_def)
  then have "fbitmap FRAMES_init ! (f div 8) = - 1" by (simp add: FRAMES_init_def)
  moreover have "f mod 8 < 8" by simp
  ultimately show ?thesis by (simp add: is_used_def bitmap_get_bit)
qed

lemma FRAMES_init_ok: "frames_ok FRAMES_init"
proof -
  have "free_frames FRAMES_init = {}" using FRAMES_init_used by (auto simp: free_frames_def)
  then show ?thesis by (simp add: frames_ok_def) (simp add: FRAMES_init_def)
qed

section \<open>Properties\<close>

text \<open>
  \<open>alloc_frame\<close> returns the lowest free frame above the null frame, as a page-aligned
  address. That frame was free and is now in use, no other frame changes, and the counter
  drops by exactly one, so no frame is handed out twice; \<open>None\<close> means that every frame
  above the null frame is in use.
\<close>

theorem alloc_frame_spec:
  assumes "frames_ok s"
  shows "\<exists>r s'. alloc_frame s = (r, s') \<and> frames_ok s' \<and>
     (case r of
        None \<Rightarrow> s' = s \<and> free_frames s \<subseteq> {0}
      | Some phys \<Rightarrow> (\<exists>f. unat phys = f * 4096 \<and> 0 < f \<and> f \<in> free_frames s
             \<and> (\<forall>g. 0 < g \<and> g < f \<longrightarrow> g \<notin> free_frames s)
             \<and> free_frames s' = free_frames s - {f} \<and> unat (free_count s') + 1 = unat (free_count s)))"
proof (cases rule: alloc_frame_from_cases [OF assms, of 1])
  case 1
  have "free_frames s \<subseteq> {0}"
  proof
    fix g assume "g \<in> free_frames s"
    then have "g < MAX_FRAMES" "\<not> is_used g s" by (simp_all add: free_frames_def)
    then show "g \<in> {0}" using 1(2) [of g] by (cases g) simp_all
  qed
  with 1 assms show ?thesis by (simp add: alloc_frame_def)
next
  case (2 f)
  note t = take_frame [OF assms 2(3,4)]
  have "\<forall>g. 0 < g \<and> g < f \<longrightarrow> g \<notin> free_frames s"
    using 2(5) by (auto simp: free_frames_def)
  with 2 t show ?thesis
    using unat_frame_addr(1) [OF 2(3)] by (auto simp: alloc_frame_def free_count_def free_frames_def)
qed

theorem alloc_frame_spec_witness:
  "\<exists>r s'. alloc_frame FRAMES_init = (r, s') \<and> frames_ok s' \<and>
     (case r of
        None \<Rightarrow> s' = FRAMES_init \<and> free_frames FRAMES_init \<subseteq> {0}
      | Some phys \<Rightarrow> (\<exists>f. unat phys = f * 4096 \<and> 0 < f \<and> f \<in> free_frames FRAMES_init
             \<and> (\<forall>g. 0 < g \<and> g < f \<longrightarrow> g \<notin> free_frames FRAMES_init)
             \<and> free_frames s' = free_frames FRAMES_init - {f}
             \<and> unat (free_count s') + 1 = unat (free_count FRAMES_init)))"
  by (rule alloc_frame_spec [OF FRAMES_init_ok])

text \<open>
  \<open>alloc_contiguous\<close> is sound and complete. A returned run of \<open>n\<close> frames was entirely
  free and is entirely in use afterwards, nothing else changes, and the counter drops by
  \<open>n\<close>; \<open>None\<close> means that no run of \<open>n\<close> free frames above the null frame exists, so skipping
  past a used frame never misses one.
\<close>

theorem alloc_contiguous_spec:
  assumes "frames_ok s" and "0 < n"
  shows "\<exists>r s'. alloc_contiguous n s = (r, s') \<and> frames_ok s' \<and>
     (case r of
        None \<Rightarrow> s' = s \<and> \<not> (\<exists>a. 1 \<le> a \<and> {a..<a + n} \<subseteq> free_frames s)
      | Some phys \<Rightarrow> (\<exists>a. unat phys = a * 4096 \<and> 1 \<le> a \<and> {a..<a + n} \<subseteq> free_frames s
             \<and> free_frames s' = free_frames s - {a..<a + n}
             \<and> unat (free_count s') + n = unat (free_count s)))"
proof (cases rule: alloc_run_from_cases [of 1 n s])
  case none
  have "\<not> {a..<a + n} \<subseteq> free_frames s" if "1 \<le> a" for a
  proof
    assume sub: "{a..<a + n} \<subseteq> free_frames s"
    then have "a + n - 1 \<in> free_frames s" using assms(2) by auto
    then have "a + n \<le> MAX_FRAMES" using assms(2) by (auto simp: free_frames_def)
    with none(2) [OF that] obtain k where "k < n" "is_used (a + k) s" by blast
    moreover from this(1) have "a + k \<in> free_frames s" using sub by auto
    ultimately show False by (simp add: free_frames_def)
  qed
  with none assms show ?thesis by (auto simp: alloc_contiguous_def)
next
  case (some a)
  define s' where "s' = fold (\<lambda>k s. adjust_free (- 1) (mark_used (a + k) s)) [0..<n] s"
  have t: "frames_ok s'" "\<And>g. is_used g s' \<longleftrightarrow> (a \<le> g \<and> g < a + n) \<or> is_used g s"
      "unat (free_cnt s') + n = unat (free_cnt s)"
    using take_run [OF assms(1) some(4,3)] unfolding s'_def by blast+
  have sub: "{a..<a + n} \<subseteq> free_frames s"
  proof
    fix g assume "g \<in> {a..<a + n}"
    then have "g - a < n" "a + (g - a) = g" "g < MAX_FRAMES" using some(3) by auto
    then show "g \<in> free_frames s" using some(4) [of "g - a"] by (simp add: free_frames_def)
  qed
  have "free_frames s' = free_frames s - {a..<a + n}"
    unfolding free_frames_def t(2) by (simp add: set_eq_iff) blast
  moreover have "unat (of_nat a * FRAME_SIZE :: u64) = a * 4096" using some(3) assms(2) by (intro unat_frame_addr) simp
  ultimately show ?thesis
    using some(1,2) [folded s'_def] t(1,3) sub assms(2) by (auto simp: alloc_contiguous_def free_count_def)
qed

theorem alloc_contiguous_spec_witness:
  "\<exists>r s'. alloc_contiguous 4 FRAMES_init = (r, s') \<and> frames_ok s' \<and>
     (case r of
        None \<Rightarrow> s' = FRAMES_init \<and> \<not> (\<exists>a. 1 \<le> a \<and> {a..<a + 4} \<subseteq> free_frames FRAMES_init)
      | Some phys \<Rightarrow> (\<exists>a. unat phys = a * 4096 \<and> 1 \<le> a \<and> {a..<a + 4} \<subseteq> free_frames FRAMES_init
             \<and> free_frames s' = free_frames FRAMES_init - {a..<a + 4}
             \<and> unat (free_count s') + 4 = unat (free_count FRAMES_init)))"
  by (rule alloc_contiguous_spec [OF FRAMES_init_ok]) simp

lemma frames_init_lemma:
  "frames_ok (init_from_regions rs off FRAMES_init)
   \<and> free_frames (init_from_regions rs off FRAMES_init)
       = {f. 0 < f \<and> f < MAX_FRAMES \<and> (\<exists>r \<in> set rs. f \<in> region_frames r)}
   \<and> unat (free_count (init_from_regions rs off FRAMES_init))
       = card (free_frames (init_from_regions rs off FRAMES_init))"
proof -
  let ?i = "FRAMES_init\<lparr>hhdm := off\<rparr>"
  let ?s = "fold free_region rs ?i"
  have u: "is_used g ?i = is_used g FRAMES_init" for g by (simp add: is_used_def)
  then have "frames_ok ?i" using FRAMES_init_ok by (simp add: frames_ok_def free_frames_def)
  from fold_free_region [OF this, of rs] have s: "frames_ok ?s"
    "\<And>g. is_used g ?s \<longleftrightarrow> is_used g FRAMES_init \<and> \<not> (g < MAX_FRAMES \<and> (\<exists>r \<in> set rs. g \<in> region_frames r))"
    by (simp_all add: u)
  have free: "free_frames ?s = {f. f < MAX_FRAMES \<and> (\<exists>r \<in> set rs. f \<in> region_frames r)}"
    using s(2) FRAMES_init_used by (auto simp: free_frames_def)
  have z: "0 < MAX_FRAMES" by (simp add: MAX_FRAMES_def)
  have "frames_ok (init_from_regions rs off FRAMES_init)
      \<and> free_frames (init_from_regions rs off FRAMES_init) = free_frames ?s - {0}"
    using s(1) take_frame(1,2) [OF s(1) z] by (auto simp: init_from_regions_def Let_def free_frames_def)
  then show ?thesis unfolding free by (auto simp: frames_ok_def free_count_def)
qed

text \<open>
  Boot initialisation frees exactly the frames inside the usable regions of the memory
  map that the bitmap can track, never the null frame, with the counter equal to their
  number, however the regions overlap.
\<close>

theorem frames_init_spec:
  "frames_ok (init_from_regions rs off FRAMES_init)
   \<and> free_frames (init_from_regions rs off FRAMES_init)
       = {f. 0 < f \<and> f < MAX_FRAMES \<and> (\<exists>r \<in> set rs. f \<in> region_frames r)}
   \<and> unat (free_count (init_from_regions rs off FRAMES_init))
       = card (free_frames (init_from_regions rs off FRAMES_init))"
  by (rule frames_init_lemma)

text \<open>
  \<open>free_frame\<close> undoes \<open>alloc_frame\<close>. Freeing the address that was just allocated gives
  back the set of free frames and the counter, and freeing it once more changes nothing.
\<close>

theorem alloc_free_inverse:
  assumes "frames_ok s" and "alloc_frame s = (Some phys, s')"
  shows "free_frames (free_frame phys s') = free_frames s
       \<and> free_count (free_frame phys s') = free_count s
       \<and> free_frame phys (free_frame phys s') = free_frame phys s'"
proof (cases rule: alloc_frame_from_cases [OF assms(1), of 1])
  case 1
  then show ?thesis using assms(2) by (simp add: alloc_frame_def)
next
  case (2 f)
  have e: "phys = of_nat f * FRAME_SIZE" "s' = adjust_free (- 1) (mark_used f s)"
    using assms(2) 2(1) by (simp_all add: alloc_frame_def)
  note t = take_frame [OF assms(1) 2(3,4), folded e(2)]
  note a = unat_frame_addr(2) [OF 2(3), folded e(1)]
  have used: "is_used f s'" using t(3) by simp
  note g = give_frame [OF t(1) 2(3) used]
  have ff: "free_frame phys s' = adjust_free 1 (mark_free f s')"
    using used 2(3) a by (simp add: free_frame_def)
  have "f \<in> free_frames s" using 2(3,4) by (simp add: free_frames_def)
  moreover have "free_frame phys (adjust_free 1 (mark_free f s')) = adjust_free 1 (mark_free f s')"
    using g(3) [of f] a by (simp add: free_frame_def)
  moreover have "free_cnt (adjust_free 1 (mark_free f s')) = free_cnt s"
    using g(4) t(4) by (metis unat_eq_iff)
  ultimately show ?thesis
    using g(2) t(2) by (auto simp: ff free_count_def)
qed

definition two_frames :: frames where
  "two_frames = init_from_regions [(0, 0x2000)] 0 FRAMES_init"

lemma two_frames_ok: "frames_ok two_frames" "free_frames two_frames = {1}"
proof -
  show "frames_ok two_frames" using frames_init_lemma by (simp add: two_frames_def)
  show "free_frames two_frames = {1}"
  proof -
    have "region_frames (0, 0x2000) = {0..<2}" by (simp add: region_frames_def FRAME_SIZE_def)
    moreover have "1 < MAX_FRAMES" by (simp add: MAX_FRAMES_def)
    ultimately show ?thesis
      using frames_init_lemma [of "[(0, 0x2000)]" 0] by (auto simp: two_frames_def)
  qed
qed

theorem alloc_free_inverse_witness:
  "\<exists>phys s'. alloc_frame two_frames = (Some phys, s')
     \<and> free_frames (free_frame phys s') = free_frames two_frames
     \<and> free_count (free_frame phys s') = free_count two_frames
     \<and> free_frame phys (free_frame phys s') = free_frame phys s'"
proof -
  have "\<not> is_used 1 two_frames" "1 < MAX_FRAMES"
    using two_frames_ok(2) by (auto simp: free_frames_def)
  then have e: "alloc_frame two_frames = (Some (of_nat 1 * FRAME_SIZE), adjust_free (- 1) (mark_used 1 two_frames))"
    unfolding alloc_frame_def by (subst alloc_frame_from.simps) simp
  show ?thesis using alloc_free_inverse [OF two_frames_ok(1) e] e by blast
qed

end
