(* ===== verification/Memory.thy ===== *)
theory Memory
  imports Prelude
begin

text \<open>
  Byte-addressed memory, shared by the page tables (physical memory) and by the C library (the
  address space of a user process): a total function from addresses to bytes. Raw pointers are
  addresses, \<open>p.add(i)\<close> is addition, and address 0 is the null pointer. The theory holds the
  little-endian 64-bit access, runs of bytes and NUL-terminated strings.
\<close>

type_synonym mem = "nat \<Rightarrow> u8"

section \<open>64-bit access\<close>

definition rd64 :: "mem \<Rightarrow> nat \<Rightarrow> u64" where
  "rd64 mem a = u64_from_le (map (\<lambda>k. mem (a + k)) [0..<8])"

definition wr64 :: "mem \<Rightarrow> nat \<Rightarrow> u64 \<Rightarrow> mem" where
  "wr64 mem a v = (\<lambda>x. if a \<le> x \<and> x < a + 8 then ucast (drop_bit (8 * (x - a)) v) else mem x)"

lemma bit_u64_from_le:
  "bit (u64_from_le bs) n \<longleftrightarrow> n < 64 \<and> n < 8 * length bs \<and> bit (bs ! (n div 8)) (n mod 8)"
proof (induction bs arbitrary: n)
  case Nil
  then show ?case by (simp add: u64_from_le_def)
next
  case (Cons b bs)
  have e: "u64_from_le (b # bs) = push_bit 8 (u64_from_le bs) OR ucast b" by (simp add: u64_from_le_def)
  show ?case
  proof (cases "n < 8")
    case True
    then show ?thesis by (simp add: e bit_simps)
  next
    case False
    then obtain m where m: "n = m + 8" by (metis add.commute le_add_diff_inverse not_less)
    have "\<not> bit (ucast b :: u64) n"
      using False bit_imp_le_length [of b n] by (auto simp: bit_ucast_iff)
    moreover have "(m + 8) div 8 - Suc 0 = m div 8" by simp
    ultimately show ?thesis using Cons.IH [of m] by (auto simp: e m bit_simps)
  qed
qed

lemma rd_wr_same: "rd64 (wr64 mem a v) a = v"
proof (rule bit_word_eqI)
  fix n assume n: "n < LENGTH(64)"
  have k: "n div 8 < 8" using n by simp
  have "bit (rd64 (wr64 mem a v) a) n \<longleftrightarrow> bit (wr64 mem a v (a + n div 8)) (n mod 8)"
    using n k by (simp add: rd64_def bit_u64_from_le)
  also have "\<dots> \<longleftrightarrow> bit v n"
    using k by (simp add: wr64_def bit_simps)
  finally show "bit (rd64 (wr64 mem a v) a) n = bit v n" .
qed

lemma rd_wr_other: "a + 8 \<le> b \<or> b + 8 \<le> a \<Longrightarrow> rd64 (wr64 mem a v) b = rd64 mem b"
  by (auto simp: rd64_def wr64_def intro!: arg_cong [of _ _ u64_from_le])

lemma rd_cong: "(\<And>k. k < 8 \<Longrightarrow> m' (a + k) = m (a + k)) \<Longrightarrow> rd64 m' a = rd64 m a"
  by (simp add: rd64_def) (intro arg_cong [of _ _ u64_from_le], simp)

lemma rd64_zero: "rd64 (\<lambda>_. 0) a = 0"
  by (rule bit_word_eqI) (simp add: rd64_def bit_u64_from_le)

section \<open>Runs of bytes\<close>

text \<open>The \<open>n\<close> bytes at \<open>a\<close> as a slice, and the memory after a slice was copied to \<open>a\<close>.\<close>

definition mbytes :: "mem \<Rightarrow> nat \<Rightarrow> nat \<Rightarrow> bytes" where
  "mbytes mem a n = map (\<lambda>k. mem (a + k)) [0..<n]"

definition mstore :: "mem \<Rightarrow> nat \<Rightarrow> bytes \<Rightarrow> mem" where
  "mstore mem a bs = (\<lambda>x. if a \<le> x \<and> x < a + length bs then bs ! (x - a) else mem x)"

lemma length_mbytes [simp]: "length (mbytes mem a n) = n"
  by (simp add: mbytes_def)

lemma nth_mbytes [simp]: "i < n \<Longrightarrow> mbytes mem a n ! i = mem (a + i)"
  by (simp add: mbytes_def)

lemma mbytes_0 [simp]: "mbytes mem a 0 = []"
  by (simp add: mbytes_def)

lemma mbytes_Suc: "mbytes mem a (Suc n) = mem a # mbytes mem (Suc a) n"
  by (rule nth_equalityI) (auto simp: nth_Cons split: nat.split)

lemma mbytes_add: "mbytes mem a (n + k) = mbytes mem a n @ mbytes mem (a + n) k"
  by (rule nth_equalityI) (auto simp: nth_append)

lemma mbytes_cong: "(\<And>i. i < n \<Longrightarrow> m' (a + i) = m (a + i)) \<Longrightarrow> mbytes m' a n = mbytes m a n"
  by (rule nth_equalityI) auto

lemma mstore_Nil [simp]: "mstore mem a [] = mem"
  by (rule ext) (auto simp: mstore_def)

lemma mstore_other: "x < a \<or> a + length bs \<le> x \<Longrightarrow> mstore mem a bs x = mem x"
  by (auto simp: mstore_def)

lemma mstore_at [simp]: "i < length bs \<Longrightarrow> mstore mem a bs (a + i) = bs ! i"
  by (simp add: mstore_def)

lemma mstore_Cons: "mstore (mem(a := b)) (Suc a) bs = mstore mem a (b # bs)"
proof
  fix x
  show "mstore (mem(a := b)) (Suc a) bs x = mstore mem a (b # bs) x"
    by (cases "x \<le> a") (auto simp: mstore_def nth_Cons' not_le)
qed

lemma mbytes_mstore [simp]: "mbytes (mstore mem a bs) a (length bs) = bs"
  by (rule nth_equalityI) auto

lemma mbytes_mstore_other:
  "a + length bs \<le> b \<or> b + n \<le> a \<Longrightarrow> mbytes (mstore mem a bs) b n = mbytes mem b n"
  by (rule mbytes_cong) (auto simp: mstore_def)

section \<open>32-bit access\<close>

definition rd32 :: "mem \<Rightarrow> nat \<Rightarrow> u32" where
  "rd32 mem a = u32_from_le (mem a) (mem (a + 1)) (mem (a + 2)) (mem (a + 3))"

definition wr32 :: "mem \<Rightarrow> nat \<Rightarrow> u32 \<Rightarrow> mem" where
  "wr32 mem a v = mstore mem a (u32_to_le v)"

lemma rd32_wr32: "rd32 (wr32 mem a v) a = v"
proof -
  have "mstore mem a (u32_to_le v) (a + i) = u32_to_le v ! i" if "i < 4" for i
    using that by (simp add: u32_to_le_def)
  from this [of 0] this [of 1] this [of 2] this [of 3] show ?thesis
    using u32_le_roundtrip [of v] by (simp add: rd32_def wr32_def u32_to_le_def)
qed

lemma wr32_other: "x < a \<or> a + 4 \<le> x \<Longrightarrow> wr32 mem a v x = mem x"
  unfolding wr32_def by (rule mstore_other) (auto simp: u32_to_le_def)

section \<open>C strings\<close>

text \<open>\<open>cstr mem a xs\<close>: the bytes at \<open>a\<close> are \<open>xs\<close>, free of NUL, and a NUL ends them.\<close>

fun cstr :: "mem \<Rightarrow> nat \<Rightarrow> bytes \<Rightarrow> bool" where
  "cstr mem a [] \<longleftrightarrow> mem a = 0"
| "cstr mem a (x # xs) \<longleftrightarrow> mem a = x \<and> x \<noteq> 0 \<and> cstr mem (Suc a) xs"

lemma cstr_iff: "cstr mem a xs \<longleftrightarrow> mbytes mem a (length xs) = xs \<and> 0 \<notin> set xs \<and> mem (a + length xs) = 0"
  by (induction xs arbitrary: a) (auto simp: mbytes_Suc)

lemma cstr_mstore: "0 \<notin> set xs \<Longrightarrow> cstr (mstore mem a (xs @ [0])) a xs"
proof -
  assume "0 \<notin> set xs"
  moreover have "mbytes (mstore mem a (xs @ [0])) a (length xs) = xs"
    by (rule nth_equalityI) (auto simp: mstore_def nth_append)
  ultimately show ?thesis by (simp add: cstr_iff mstore_def nth_append)
qed

lemma cstr_unique: "cstr mem a xs \<Longrightarrow> cstr mem a ys \<Longrightarrow> xs = ys"
  by (induction xs arbitrary: a ys) (case_tac ys; auto)+

lemma cstr_cong: "cstr mem a xs \<Longrightarrow> (\<And>i. i \<le> length xs \<Longrightarrow> m' (a + i) = mem (a + i)) \<Longrightarrow> cstr m' a xs"
  unfolding cstr_iff by (auto intro: trans [OF mbytes_cong])

lemma cstr_nth: "cstr mem a xs \<Longrightarrow> i \<le> length xs \<Longrightarrow> mem (a + i) = (if i < length xs then xs ! i else 0)"
  unfolding cstr_iff by (metis antisym_conv3 le_eq_less_or_eq less_irrefl nth_mbytes)

lemma cstr_drop: "cstr mem a xs \<Longrightarrow> i \<le> length xs \<Longrightarrow> cstr mem (a + i) (drop i xs)"
proof (induction xs arbitrary: a i)
  case (Cons x xs)
  then show ?case using Cons.IH [of "Suc a"] by (cases i) auto
qed simp

end
