(* ===== verification/Paging.thy ===== *)
theory Paging
  imports Frames Memory
begin

text \<open>
  Four-level paging, \<open>kernel/src/arch/x86_64/paging.rs\<close>, over a byte-addressed physical memory:
  the frame allocator, the memory and the register CR3 are one record. A page table is a frame
  of 512 little-endian 64-bit entries, reached in the source through the direct map
  (\<open>frames::phys_to_virt\<close>), so a table at physical address \<open>t\<close> has entry \<open>i\<close> at \<open>t + 8 * i\<close>.
  Running out of frames panics (\<open>expect\<close>) and is \<open>None\<close>. TLB flushes have no effect on this state.
\<close>

section \<open>Machine\<close>

record machine =
  fr :: frames
  pm :: "nat \<Rightarrow> u8"
  cr3 :: u64

definition PRESENT :: u64 where "PRESENT = 0x1"
definition WRITABLE :: u64 where "WRITABLE = 0x2"
definition USER :: u64 where "USER = 0x4"
definition PWT :: u64 where "PWT = 0x8"
definition PCD :: u64 where "PCD = 0x10"
definition ADDR_MASK :: u64 where "ADDR_MASK = 0x000FFFFFFFFFF000"

text \<open>\<open>hal::MapFlags\<close>: a bit set over writable, user and device.\<close>

type_synonym map_flags = u8

definition MF_WRITABLE :: map_flags where "MF_WRITABLE = 0x1"
definition MF_USER :: map_flags where "MF_USER = 0x2"
definition MF_DEVICE :: map_flags where "MF_DEVICE = 0x4"

definition mf_contains :: "map_flags \<Rightarrow> map_flags \<Rightarrow> bool" where
  "mf_contains fl x \<longleftrightarrow> fl AND x = x"

definition flags_to_pte :: "map_flags \<Rightarrow> u64" where
  "flags_to_pte fl =
     (let b = 0;
          b = (if mf_contains fl MF_WRITABLE then b OR WRITABLE else b);
          b = (if mf_contains fl MF_USER then b OR USER else b)
      in if mf_contains fl MF_DEVICE then b OR (PCD OR PWT) else b)"

section \<open>Walking and building tables\<close>

definition entry_ptr :: "u64 \<Rightarrow> u64 \<Rightarrow> nat" where
  "entry_ptr table i = unat table + 8 * unat i"

definition zero_frame :: "u64 \<Rightarrow> (nat \<Rightarrow> u8) \<Rightarrow> nat \<Rightarrow> u8" where
  "zero_frame t mem = (\<lambda>x. if unat t \<le> x \<and> x < unat t + 4096 then 0 else mem x)"

definition next_table :: "u64 \<Rightarrow> u64 \<Rightarrow> machine \<Rightarrow> (u64 \<times> machine) option" where
  "next_table table i s =
     (let e = rd64 (pm s) (entry_ptr table i)
      in if e AND PRESENT = 0
         then (case alloc_frame (fr s) of
                 (None, _) \<Rightarrow> None
               | (Some frame, fr') \<Rightarrow>
                   (let m = zero_frame frame (pm s);
                        m = wr64 m (entry_ptr table i) ((frame AND ADDR_MASK) OR PRESENT OR WRITABLE OR USER)
                    in Some (frame, s\<lparr>fr := fr', pm := m\<rparr>)))
         else Some (e AND ADDR_MASK, s))"

definition indices :: "u64 \<Rightarrow> u64 \<times> u64 \<times> u64 \<times> u64" where
  "indices virt = (drop_bit 39 virt AND 0x1FF, drop_bit 30 virt AND 0x1FF, drop_bit 21 virt AND 0x1FF,
                   drop_bit 12 virt AND 0x1FF)"

definition current_pml4 :: "machine \<Rightarrow> u64" where
  "current_pml4 s = cr3 s AND ADDR_MASK"

definition map_in_raw :: "u64 \<Rightarrow> u64 \<Rightarrow> u64 \<Rightarrow> u64 \<Rightarrow> machine \<Rightarrow> machine option" where
  "map_in_raw pml4 virt phys flags s =
     (let (i4, i3, i2, i1) = indices virt
      in do { (pdpt, s) \<leftarrow> next_table pml4 i4 s;
              (pd, s) \<leftarrow> next_table pdpt i3 s;
              (pt, s) \<leftarrow> next_table pd i2 s;
              Some (s\<lparr>pm := wr64 (pm s) (entry_ptr pt i1) ((phys AND ADDR_MASK) OR flags OR PRESENT)\<rparr>) })"

definition map_in :: "u64 \<Rightarrow> u64 \<Rightarrow> u64 \<Rightarrow> map_flags \<Rightarrow> machine \<Rightarrow> machine option" where
  "map_in space virt phys fl s = map_in_raw space virt phys (flags_to_pte fl) s"

definition unmap :: "u64 \<Rightarrow> machine \<Rightarrow> machine" where
  "unmap virt s =
     (let (i4, i3, i2, i1) = indices virt;
          e4 = rd64 (pm s) (entry_ptr (current_pml4 s) i4)
      in if e4 AND PRESENT = 0 then s
         else (let e3 = rd64 (pm s) (entry_ptr (e4 AND ADDR_MASK) i3)
               in if e3 AND PRESENT = 0 then s
                  else (let e2 = rd64 (pm s) (entry_ptr (e3 AND ADDR_MASK) i2)
                        in if e2 AND PRESENT = 0 then s
                           else s\<lparr>pm := wr64 (pm s) (entry_ptr (e2 AND ADDR_MASK) i1) 0\<rparr>)))"

definition translate :: "u64 \<Rightarrow> machine \<Rightarrow> u64 option" where
  "translate virt s =
     (let (i4, i3, i2, i1) = indices virt;
          e4 = rd64 (pm s) (entry_ptr (current_pml4 s) i4)
      in if e4 AND PRESENT = 0 then None
         else (let e3 = rd64 (pm s) (entry_ptr (e4 AND ADDR_MASK) i3)
               in if e3 AND PRESENT = 0 then None
                  else (let e2 = rd64 (pm s) (entry_ptr (e3 AND ADDR_MASK) i2)
                        in if e2 AND PRESENT = 0 then None
                           else (let e1 = rd64 (pm s) (entry_ptr (e2 AND ADDR_MASK) i1)
                                 in if e1 AND PRESENT = 0 then None
                                    else Some ((e1 AND ADDR_MASK) OR (virt AND 0xFFF))))))"

definition switch_to :: "u64 \<Rightarrow> machine \<Rightarrow> machine" where
  "switch_to pml4 s = s\<lparr>cr3 := pml4\<rparr>"

section \<open>Whole address spaces\<close>

text \<open>The two loops of \<open>new_space\<close>: clear the lower half, copy the upper half of the current PML4.\<close>

definition clear_lower :: "u64 \<Rightarrow> (nat \<Rightarrow> u8) \<Rightarrow> nat \<Rightarrow> u8" where
  "clear_lower frame m = fold (\<lambda>i m. wr64 m (unat frame + 8 * i) 0) [0..<256] m"

definition copy_upper :: "u64 \<Rightarrow> u64 \<Rightarrow> (nat \<Rightarrow> u8) \<Rightarrow> nat \<Rightarrow> u8" where
  "copy_upper cur_pml4 frame m =
     fold (\<lambda>i m. wr64 m (unat frame + 8 * i) (rd64 m (unat cur_pml4 + 8 * i))) [256..<512] m"

definition new_space :: "machine \<Rightarrow> (u64 \<times> machine) option" where
  "new_space s =
     (case alloc_frame (fr s) of
        (None, _) \<Rightarrow> None
      | (Some frame, fr') \<Rightarrow>
          Some (frame, s\<lparr>fr := fr', pm := copy_upper (current_pml4 s) frame (clear_lower frame (pm s))\<rparr>))"

definition copy_frame :: "u64 \<Rightarrow> u64 \<Rightarrow> (nat \<Rightarrow> u8) \<Rightarrow> nat \<Rightarrow> u8" where
  "copy_frame src dst mem =
     (\<lambda>x. if unat dst \<le> x \<and> x < unat dst + 4096 then mem (unat src + (x - unat dst)) else mem x)"

text \<open>
  The nested loops of \<open>fork_space\<close> and \<open>free_space\<close>. \<open>present_entries\<close> lists the entries of a
  table that the \<open>for\<close> loop of one level visits; \<open>fork_leaf\<close> is the innermost body.
\<close>

definition present :: "u64 \<Rightarrow> bool" where
  "present e \<longleftrightarrow> e AND PRESENT \<noteq> 0"

definition large :: "u64 \<Rightarrow> bool" where
  "large e \<longleftrightarrow> e AND 0x80 \<noteq> 0"

fun fold_opt :: "('a \<Rightarrow> 's \<Rightarrow> 's option) \<Rightarrow> 'a list \<Rightarrow> 's \<Rightarrow> 's option" where
  "fold_opt f [] s = Some s"
| "fold_opt f (x # xs) s = do { s \<leftarrow> f x s; fold_opt f xs s }"

definition fork_leaf :: "u64 \<Rightarrow> u64 \<Rightarrow> u64 \<Rightarrow> machine \<Rightarrow> machine option" where
  "fork_leaf child va e1 s =
     (case alloc_frame (fr s) of
        (None, _) \<Rightarrow> None
      | (Some dst, fr') \<Rightarrow>
          map_in_raw child va dst (e1 AND (WRITABLE OR USER))
            (s\<lparr>fr := fr', pm := copy_frame (e1 AND ADDR_MASK) dst (pm s)\<rparr>))"

definition fork_pt :: "u64 \<Rightarrow> nat \<Rightarrow> nat \<Rightarrow> nat \<Rightarrow> u64 \<Rightarrow> machine \<Rightarrow> machine option" where
  "fork_pt child i4 i3 i2 pt =
     fold_opt (\<lambda>i1 s. let e1 = rd64 (pm s) (unat pt + 8 * i1)
        in if \<not> present e1 then Some s
           else fork_leaf child (push_bit 39 (of_nat i4) OR push_bit 30 (of_nat i3)
                   OR push_bit 21 (of_nat i2) OR push_bit 12 (of_nat i1)) e1 s) [0..<512]"

definition fork_pd :: "u64 \<Rightarrow> nat \<Rightarrow> nat \<Rightarrow> u64 \<Rightarrow> machine \<Rightarrow> machine option" where
  "fork_pd child i4 i3 pd =
     fold_opt (\<lambda>i2 s. let e2 = rd64 (pm s) (unat pd + 8 * i2)
        in if \<not> present e2 \<or> large e2 then Some s
           else fork_pt child i4 i3 i2 (e2 AND ADDR_MASK) s) [0..<512]"

definition fork_pdpt :: "u64 \<Rightarrow> nat \<Rightarrow> u64 \<Rightarrow> machine \<Rightarrow> machine option" where
  "fork_pdpt child i4 pdpt =
     fold_opt (\<lambda>i3 s. let e3 = rd64 (pm s) (unat pdpt + 8 * i3)
        in if \<not> present e3 then Some s
           else fork_pd child i4 i3 (e3 AND ADDR_MASK) s) [0..<512]"

definition fork_space :: "u64 \<Rightarrow> machine \<Rightarrow> (u64 \<times> machine) option" where
  "fork_space parent s =
     do { (child, s) \<leftarrow> new_space s;
          s \<leftarrow> fold_opt (\<lambda>i4 s. let e4 = rd64 (pm s) (unat parent + 8 * i4)
                 in if \<not> present e4 then Some s
                    else fork_pdpt child i4 (e4 AND ADDR_MASK) s) [0..<256] s;
          Some (child, s) }"

definition release_frame :: "u64 \<Rightarrow> machine \<Rightarrow> machine" where
  "release_frame f s = s\<lparr>fr := free_frame f (fr s)\<rparr>"

definition free_pt :: "u64 \<Rightarrow> machine \<Rightarrow> machine" where
  "free_pt pt s =
     release_frame pt
       (fold (\<lambda>i1 s. let e1 = rd64 (pm s) (unat pt + 8 * i1)
           in if present e1 then release_frame (e1 AND ADDR_MASK) s else s) [0..<512] s)"

definition free_pd :: "u64 \<Rightarrow> machine \<Rightarrow> machine" where
  "free_pd pd s =
     release_frame pd
       (fold (\<lambda>i2 s. let e2 = rd64 (pm s) (unat pd + 8 * i2)
           in if \<not> present e2 \<or> large e2 then s else free_pt (e2 AND ADDR_MASK) s) [0..<512] s)"

definition free_pdpt :: "u64 \<Rightarrow> machine \<Rightarrow> machine" where
  "free_pdpt pdpt s =
     release_frame pdpt
       (fold (\<lambda>i3 s. let e3 = rd64 (pm s) (unat pdpt + 8 * i3)
           in if \<not> present e3 then s else free_pd (e3 AND ADDR_MASK) s) [0..<512] s)"

definition free_space :: "u64 \<Rightarrow> machine \<Rightarrow> machine" where
  "free_space pml4 s =
     release_frame pml4
       (fold (\<lambda>i4 s. let e4 = rd64 (pm s) (unat pml4 + 8 * i4)
           in if \<not> present e4 then s else free_pdpt (e4 AND ADDR_MASK) s) [0..<256] s)"

end
