(* ===== verification/PagingInv.thy ===== *)
theory PagingInv
  imports Paging "HOL-Library.Sublist"
begin

text \<open>
  Correctness of paging. The tables of the user half of an address space form a tree whose
  nodes are distinct allocated frames (\<open>space_ok\<close>); \<open>pte\<close> is the leaf entry of a virtual address,
  0 when no table reaches it. Against this view, mapping and unmapping are the update of one
  leaf entry, and translation reads it.
\<close>

section \<open>Frames as tables\<close>

text \<open>\<open>frame_no t\<close> is the number of the frame at address \<open>t\<close>; \<open>frame_addr t\<close> that \<open>t\<close> is the address of one.\<close>

definition frame_no :: "u64 \<Rightarrow> nat" where
  "frame_no t = unat t div 4096"

definition frame_addr :: "u64 \<Rightarrow> bool" where
  "frame_addr t \<longleftrightarrow> unat t mod 4096 = 0 \<and> 0 < frame_no t \<and> frame_no t < MAX_FRAMES"

lemma frame_addr_unat: "frame_addr t \<Longrightarrow> unat t = frame_no t * 4096"
  by (auto simp: frame_addr_def frame_no_def)

lemma frame_no_inj: "frame_addr t \<Longrightarrow> frame_addr u \<Longrightarrow> frame_no t = frame_no u \<Longrightarrow> t = u"
  using frame_addr_unat unat_eq_iff by metis

definition entry :: "machine \<Rightarrow> u64 \<Rightarrow> nat \<Rightarrow> u64" where
  "entry s t i = rd64 (pm s) (unat t + 8 * i)"

lemma bit_ADDR_MASK: "bit ADDR_MASK n \<longleftrightarrow> 12 \<le> n \<and> n < 52"
proof -
  have "ADDR_MASK = push_bit 12 (mask 40)" by (simp add: ADDR_MASK_def mask_eq_exp_minus_1 push_bit_eq_mult)
  then have "bit ADDR_MASK n \<longleftrightarrow> bit (push_bit 12 (mask 40) :: u64) n" by simp
  then show ?thesis by (auto simp: bit_push_bit_iff bit_mask_iff)
qed

lemma masked_frame: "frame_addr t \<Longrightarrow> t AND ADDR_MASK = t"
proof (rule bit_word_eqI)
  fix n assume t: "frame_addr t" and n: "n < LENGTH(64)"
  have u: "unat t = frame_no t * 4096" using t by (rule frame_addr_unat)
  have f: "frame_no t < 2 ^ 20" using t by (simp add: frame_addr_def MAX_FRAMES_def)
  have b: "bit t n \<longleftrightarrow> bit (unat t) n" by (simp add: bit_unsigned_iff)
  have "unat t = push_bit 12 (frame_no t)" using u by (simp add: push_bit_eq_mult)
  then have "bit t n \<Longrightarrow> 12 \<le> n \<and> bit (frame_no t) (n - 12)" by (simp add: b bit_simps)
  moreover have "bit (frame_no t) k \<Longrightarrow> k < 20" for k
    using bit_take_bit_iff [of 20 "frame_no t" k] take_bit_nat_eq_self [OF f] by simp
  ultimately show "bit (t AND ADDR_MASK) n = bit t n"
    by (auto simp: bit_and_iff bit_ADDR_MASK) fastforce
qed

lemma low_bits_masked:
  assumes "fl AND ADDR_MASK = 0"
  shows "((t AND ADDR_MASK) OR fl) AND ADDR_MASK = t AND ADDR_MASK"
  using assms by (simp add: bit.conj_disj_distrib2 and.assoc)

lemma PRESENT_mask: "PRESENT AND ADDR_MASK = 0" "WRITABLE AND ADDR_MASK = 0" "USER AND ADDR_MASK = 0"
  by (simp_all add: PRESENT_def WRITABLE_def USER_def ADDR_MASK_def)

lemma PRESENT_in: "present (x OR PRESENT)" "present (x OR PRESENT OR y)"
proof -
  have p: "bit PRESENT 0" by (simp add: PRESENT_def)
  have "bit ((x OR PRESENT) AND PRESENT) 0" "bit ((x OR PRESENT OR y) AND PRESENT) 0"
    using p by (simp_all add: bit_and_iff bit_or_iff)
  then show "present (x OR PRESENT)" "present (x OR PRESENT OR y)" unfolding present_def by force+
qed

section \<open>The tree of tables\<close>

definition child :: "machine \<Rightarrow> u64 \<Rightarrow> nat \<Rightarrow> u64 option" where
  "child s t i = (if present (entry s t i) then Some (entry s t i AND ADDR_MASK) else None)"

fun tab :: "machine \<Rightarrow> u64 \<Rightarrow> nat list \<Rightarrow> u64 option" where
  "tab s t [] = Some t"
| "tab s t (i # p) = (case child s t i of None \<Rightarrow> None | Some c \<Rightarrow> tab s c p)"

lemma tab_append: "tab s t (p @ q) = (case tab s t p of None \<Rightarrow> None | Some c \<Rightarrow> tab s c q)"
  by (induction p arbitrary: t) (auto split: option.split)

lemma tab_snoc: "tab s t (p @ [i]) = (case tab s t p of None \<Rightarrow> None | Some c \<Rightarrow> child s c i)"
  by (auto simp: tab_append split: option.split)

definition user_path :: "nat list \<Rightarrow> bool" where
  "user_path p \<longleftrightarrow> length p \<le> 3 \<and> (\<forall>i \<in> set p. i < 512) \<and> (p \<noteq> [] \<longrightarrow> hd p < 256)"

lemma user_path_prefix: "user_path (p @ q) \<Longrightarrow> user_path p"
  by (cases p) (auto simp: user_path_def)

definition space_ok :: "machine \<Rightarrow> u64 \<Rightarrow> bool" where
  [inv_defs]: "space_ok s root \<longleftrightarrow> frames_ok (fr s)
     \<and> (\<forall>p t. user_path p \<longrightarrow> tab s root p = Some t \<longrightarrow> frame_addr t \<and> is_used (frame_no t) (fr s))
     \<and> (\<forall>p q t. user_path p \<longrightarrow> user_path q \<longrightarrow> tab s root p = Some t \<longrightarrow> tab s root q = Some t \<longrightarrow> p = q)"

lemma space_tab:
  assumes "space_ok s root" and "user_path p" and "tab s root p = Some t"
  shows "frame_addr t" and "is_used (frame_no t) (fr s)"
  using assms by (auto simp: space_ok_def)

lemma space_inj:
  assumes "space_ok s root" and "user_path p" and "user_path q" and "tab s root p = Some t" and "tab s root q = Some t"
  shows "p = q"
  using assms unfolding space_ok_def by blast

text \<open>Entries of distinct frames, and distinct entries of one frame, do not overlap.\<close>

lemma entry_disjoint:
  assumes "frame_addr t" and "frame_addr u" and "i < 512" and "j < 512" and "t \<noteq> u \<or> i \<noteq> j"
  shows "unat t + 8 * i + 8 \<le> unat u + 8 * j \<or> unat u + 8 * j + 8 \<le> unat t + 8 * i"
proof (cases "t = u")
  case True
  then show ?thesis using assms(5) by (cases "i < j") auto
next
  case False
  then have "frame_no t \<noteq> frame_no u" using frame_no_inj assms(1,2) by blast
  moreover have "unat t = frame_no t * 4096" "unat u = frame_no u * 4096"
    using assms(1,2) frame_addr_unat by blast+
  ultimately show ?thesis using assms(3,4) by (cases "frame_no t < frame_no u") auto
qed

lemma entry_wr:
  assumes "frame_addr t" and "frame_addr u" and "i < 512" and "j < 512"
  shows "entry (s\<lparr>pm := wr64 (pm s) (unat t + 8 * i) v\<rparr>) u j = (if u = t \<and> j = i then v else entry s u j)"
  using entry_disjoint [OF assms] by (auto simp: entry_def rd_wr_same intro!: rd_wr_other)

section \<open>One level of the walk\<close>

text \<open>What an operation on the space rooted at \<open>root\<close> leaves alone: every frame that was in use and is not one of its tables.\<close>

definition table_frames :: "machine \<Rightarrow> u64 \<Rightarrow> nat set" where
  "table_frames s root = {frame_no t |p t. user_path p \<and> tab s root p = Some t}"

definition frames_kept :: "machine \<Rightarrow> u64 \<Rightarrow> machine \<Rightarrow> bool" where
  "frames_kept s root s' \<longleftrightarrow> cr3 s' = cr3 s
     \<and> (\<forall>f. is_used f (fr s) \<longrightarrow> is_used f (fr s'))
     \<and> (\<forall>f x. is_used f (fr s) \<longrightarrow> f \<notin> table_frames s root \<longrightarrow> x div 4096 = f \<longrightarrow> pm s' x = pm s x)
     \<and> table_frames s root \<subseteq> table_frames s' root
     \<and> (\<forall>f \<in> table_frames s' root. f \<in> table_frames s root \<or> \<not> is_used f (fr s))"

lemma frames_kept_refl: "frames_kept s root s"
  by (auto simp: frames_kept_def)

lemma frames_kept_trans:
  assumes a: "frames_kept s root s1" and b: "frames_kept s1 root s2"
  shows "frames_kept s root s2"
  unfolding frames_kept_def
proof (intro conjI allI impI ballI)
  show "cr3 s2 = cr3 s" "table_frames s root \<subseteq> table_frames s2 root" using a b by (auto simp: frames_kept_def)
  show "is_used f (fr s2)" if "is_used f (fr s)" for f using a b that by (auto simp: frames_kept_def)
  show "pm s2 x = pm s x" if u: "is_used f (fr s)" and t: "f \<notin> table_frames s root" and x: "x div 4096 = f" for f x
  proof -
    have "is_used f (fr s1)" "pm s1 x = pm s x" using a u t x by (auto simp: frames_kept_def)
    moreover have "f \<notin> table_frames s1 root" using a u t by (auto simp: frames_kept_def)
    ultimately show ?thesis using b x by (auto simp: frames_kept_def)
  qed
  show "f \<in> table_frames s root \<or> \<not> is_used f (fr s)" if "f \<in> table_frames s2 root" for f
    using a b that by (auto simp: frames_kept_def)
qed

lemma alloc_frame_facts:
  assumes "frames_ok s" and "alloc_frame s = (Some t, s')"
  shows "frames_ok s'" and "frame_addr t" and "\<not> is_used (frame_no t) s"
    and "is_used g s' \<longleftrightarrow> g = frame_no t \<or> is_used g s"
    and "free_frames s' = free_frames s - {frame_no t}" and "frame_no t \<in> free_frames s"
proof -
  have "frames_ok s' \<and> frame_addr t \<and> \<not> is_used (frame_no t) s \<and> (\<forall>g. is_used g s' \<longleftrightarrow> g = frame_no t \<or> is_used g s)
      \<and> free_frames s' = free_frames s - {frame_no t} \<and> frame_no t \<in> free_frames s"
  proof (cases rule: alloc_frame_from_cases [OF assms(1), of 1])
    case 1
    then show ?thesis using assms(2) by (simp add: alloc_frame_def)
  next
    case (2 f)
    have t: "t = of_nat f * FRAME_SIZE" "s' = adjust_free (- 1) (mark_used f s)"
      using 2(1) assms(2) by (simp_all add: alloc_frame_def)
    have "frame_no t = f" "frame_addr t"
      using unat_frame_addr(1) [OF 2(3)] 2(2,3) by (simp_all add: t frame_no_def frame_addr_def)
    then show ?thesis using take_frame [OF assms(1) 2(3,4)] 2(3,4) t(2) by (simp add: free_frames_def)
  qed
  then show "frames_ok s'" "frame_addr t" "\<not> is_used (frame_no t) s"
    "is_used g s' \<longleftrightarrow> g = frame_no t \<or> is_used g s" "free_frames s' = free_frames s - {frame_no t}"
    "frame_no t \<in> free_frames s" by auto
qed

text \<open>
  The effect of installing a fresh, zeroed table \<open>f\<close> at entry \<open>i\<close> of the table at path \<open>p\<close>:
  every other entry of every table keeps its value.
\<close>

lemma entry_in_frame:
  assumes "frame_addr t" and "i < 512" and "k < 8"
  shows "(unat t + 8 * i + k) div 4096 = frame_no t"
proof -
  have "unat t + 8 * i + k = frame_no t * 4096 + (8 * i + k)" using frame_addr_unat [OF assms(1)] by simp
  moreover have "8 * i + k < 4096" using assms(2,3) by linarith
  ultimately show ?thesis by simp
qed

lemma addr_in_frame:
  assumes "frame_addr t" and "i < 512" and "unat t + 8 * i \<le> x \<and> x < unat t + 8 * i + 8"
  shows "x div 4096 = frame_no t"
proof -
  have "x - (unat t + 8 * i) < 8" using assms(3) by linarith
  from entry_in_frame [OF assms(1,2) this] assms(3) show ?thesis by simp
qed

lemma zero_frame_same:
  assumes "frame_addr f" and "x div 4096 \<noteq> frame_no f"
  shows "zero_frame f mem x = mem x"
proof -
  have "\<not> (unat f \<le> x \<and> x < unat f + 4096)"
  proof
    assume "unat f \<le> x \<and> x < unat f + 4096"
    then have "frame_no f * 4096 \<le> x" "x < frame_no f * 4096 + 4096" using frame_addr_unat [OF assms(1)] by auto
    then have "x div 4096 = frame_no f" by (intro div_nat_eqI) auto
    then show False using assms(2) by simp
  qed
  then show ?thesis by (auto simp: zero_frame_def)
qed

lemma install_entry:
  assumes f: "frame_addr f" "frame_addr t" "frame_addr u" and i: "i < 512" "j < 512" and n: "t \<noteq> f"
    and s': "pm s' = wr64 (zero_frame f (pm s)) (unat t + 8 * i) v"
  shows "entry s' u j = (if u = t \<and> j = i then v else if u = f then 0 else entry s u j)"
proof -
  define z where "z = s\<lparr>pm := zero_frame f (pm s)\<rparr>"
  have z: "entry z u j = (if u = f then 0 else entry s u j)"
  proof (cases "u = f")
    case True
    have "rd64 (zero_frame f (pm s)) (unat f + 8 * j) = rd64 (\<lambda>_. 0) (unat f + 8 * j)"
      using i(2) by (intro rd_cong) (simp add: zero_frame_def)
    also have "\<dots> = 0" by (rule bit_word_eqI) (simp add: rd64_def bit_u64_from_le)
    finally show ?thesis using True by (simp add: entry_def z_def)
  next
    case False
    then have "frame_no u \<noteq> frame_no f" using frame_no_inj f(1,3) by blast
    then have "rd64 (zero_frame f (pm s)) (unat u + 8 * j) = rd64 (pm s) (unat u + 8 * j)"
      using zero_frame_same [OF f(1)] entry_in_frame [OF f(3) i(2)] by (intro rd_cong) metis
    then show ?thesis using False by (simp add: entry_def z_def)
  qed
  have "entry s' u j = entry (z\<lparr>pm := wr64 (pm z) (unat t + 8 * i) v\<rparr>) u j" by (simp add: entry_def s' z_def)
  also have "\<dots> = (if u = t \<and> j = i then v else entry z u j)" by (rule entry_wr [OF f(2,3) i])
  finally show ?thesis unfolding z .
qed

lemma install_tab:
  assumes ok: "space_ok s root" and p: "user_path (p @ [i])" "tab s root p = Some t" "child s t i = None"
    and f: "frame_addr f" "\<not> is_used (frame_no f) (fr s)"
    and e: "\<And>u j. frame_addr u \<Longrightarrow> j < 512 \<Longrightarrow>
        entry s' u j = (if u = t \<and> j = i then v else if u = f then 0 else entry s u j)"
    and v: "present v" "v AND ADDR_MASK = f"
  shows "user_path q \<Longrightarrow> tab s' root q =
    (if prefix (p @ [i]) q then (if q = p @ [i] then Some f else None) else tab s root q)"
proof (induction q rule: rev_induct)
  case Nil
  then show ?case by simp
next
  case (snoc j q)
  have uq: "user_path q" using user_path_prefix snoc.prems by blast
  have up: "user_path p" using user_path_prefix p(1) by blast
  have j: "j < 512" using snoc.prems by (simp add: user_path_def)
  have tf: "frame_addr t" "t \<noteq> f" using space_tab [OF ok up p(2)] f(2) by auto
  note IH = snoc.IH [OF uq]
  have z: "child s' f k = None" if "k < 512" for k
    using e [OF f(1) that] tf(2) by (simp add: child_def present_def)
  show ?case
  proof (cases "prefix (p @ [i]) (q @ [j])")
    case True
    then consider "q @ [j] = p @ [i]" | "prefix (p @ [i]) q" by auto
    then show ?thesis
    proof cases
      case 1
      then have q: "q = p" "j = i" by auto
      then have "tab s' root q = Some t" using IH p(2) by (auto simp: prefix_def)
      then show ?thesis using q e [OF tf(1) j] v by (simp add: tab_snoc child_def)
    next
      case 2
      then have n: "q @ [j] \<noteq> p @ [i]" by (auto simp: prefix_def)
      show ?thesis using IH 2 n True z [OF j] by (auto simp: tab_snoc)
    qed
  next
    case False
    then have nq: "\<not> prefix (p @ [i]) q" by auto
    show ?thesis
    proof (cases "tab s root q")
      case None
      then show ?thesis using IH nq False by (simp add: tab_snoc)
    next
      case (Some r)
      have r: "frame_addr r" "r \<noteq> f" using space_tab [OF ok uq Some] f(2) by auto
      have "\<not> (r = t \<and> j = i)"
        using space_inj [OF ok uq up Some] p(2) False by auto
      then have "entry s' r j = entry s r j" using e [OF r(1) j] r(2) by auto
      then show ?thesis using IH nq False Some by (auto simp: tab_snoc child_def)
    qed
  qed
qed

lemma absent_below:
  assumes "tab s root p = Some t" and "child s t i = None" and "prefix (p @ [i]) q"
  shows "tab s root q = None"
proof -
  obtain r where "q = (p @ [i]) @ r" using assms(3) by (auto simp: prefix_def)
  moreover have "tab s root (p @ [i]) = None" using assms(1,2) by (simp add: tab_snoc)
  ultimately show ?thesis by (simp only: tab_append) simp
qed

definition leaf :: "machine \<Rightarrow> u64 \<Rightarrow> nat list \<Rightarrow> u64" where
  "leaf s root q = (case tab s root (butlast q) of None \<Rightarrow> 0 | Some pt \<Rightarrow> entry s pt (last q))"

definition page_path :: "nat list \<Rightarrow> bool" where
  "page_path q \<longleftrightarrow> length q = 4 \<and> (\<forall>i \<in> set q. i < 512) \<and> hd q < 256"

lemma page_path_cases:
  assumes "page_path q"
  shows "user_path (butlast q)" "length (butlast q) = 3" "last q < 512"
proof -
  obtain a b c d where "q = [a, b, c, d]" using assms
    by (auto simp: page_path_def length_Suc_conv eval_nat_numeral)
  then show "user_path (butlast q)" "length (butlast q) = 3" "last q < 512"
    using assms by (auto simp: page_path_def user_path_def)
qed

lemma next_table_spec:
  assumes ok: "space_ok s root" and p: "user_path (p @ [i])" "tab s root p = Some t"
    and n: "next_table t (of_nat i) s = Some (c, s')"
  shows "space_ok s' root" and "tab s' root (p @ [i]) = Some c" and "frames_kept s root s'"
    and "page_path q \<Longrightarrow> leaf s' root q = leaf s root q"
    and "256 \<le> j \<Longrightarrow> j < 512 \<Longrightarrow> entry s' root j = entry s root j"
proof -
  have i: "i < 512" "length p \<le> 2" using p(1) by (auto simp: user_path_def)
  have ui: "unat (of_nat i :: u64) = i" using i by (simp add: unat_of_nat take_bit_nat_eq_self)
  have ee: "rd64 (pm s) (entry_ptr t (of_nat i)) = entry s t i" unfolding entry_def entry_ptr_def ui ..
  have up: "user_path p" using user_path_prefix p(1) by blast
  have ur: "user_path []" "tab s root [] = Some root" by (simp_all add: user_path_def)
  have "space_ok s' root \<and> tab s' root (p @ [i]) = Some c \<and> frames_kept s root s'
      \<and> (\<forall>q. page_path q \<longrightarrow> leaf s' root q = leaf s root q)
      \<and> (\<forall>j. 256 \<le> j \<longrightarrow> j < 512 \<longrightarrow> entry s' root j = entry s root j)"
  proof (cases "entry s t i AND PRESENT = 0")
    case False
    then have "s' = s" "c = entry s t i AND ADDR_MASK" using n by (auto simp: next_table_def ee Let_def)
    then show ?thesis
      using ok p(2) False frames_kept_refl by (simp add: tab_snoc child_def present_def)
  next
    case True
    have "(case alloc_frame (fr s) of (None, _) \<Rightarrow> None
        | (Some frame, fr') \<Rightarrow> Some (frame, s\<lparr>fr := fr', pm := wr64 (zero_frame frame (pm s)) (unat t + 8 * i)
            ((frame AND ADDR_MASK) OR PRESENT OR WRITABLE OR USER)\<rparr>)) = Some (c, s')"
      using n True unfolding next_table_def Let_def ee unfolding entry_ptr_def ui by simp
    then obtain fr' where al: "alloc_frame (fr s) = (Some c, fr')"
      and s': "s' = s\<lparr>fr := fr', pm := wr64 (zero_frame c (pm s)) (unat t + 8 * i)
          ((c AND ADDR_MASK) OR PRESENT OR WRITABLE OR USER)\<rparr>"
      by (auto split: prod.splits option.splits)
    have fok: "frames_ok (fr s)" using ok by (simp add: space_ok_def)
    note A = alloc_frame_facts [OF fok al]
    have t: "frame_addr t" "is_used (frame_no t) (fr s)" "t \<noteq> c" using space_tab [OF ok up p(2)] A(3) by auto
    define v where "v = (c AND ADDR_MASK) OR PRESENT OR WRITABLE OR USER"
    have v: "present v" "v AND ADDR_MASK = c"
    proof -
      show "present v" unfolding v_def by (rule PRESENT_in(2))
      have "(PRESENT OR WRITABLE OR USER) AND ADDR_MASK = 0" by (simp add: bit.conj_disj_distrib2 PRESENT_mask)
      from low_bits_masked [OF this, of c] show "v AND ADDR_MASK = c" unfolding v_def by (simp add: masked_frame [OF A(2)])
    qed
    have ab: "child s t i = None" using True by (simp add: child_def present_def)
    have e: "entry s' u j = (if u = t \<and> j = i then v else if u = c then 0 else entry s u j)"
      if "frame_addr u" "j < 512" for u j
      using install_entry [OF A(2) t(1) that(1) i(1) that(2) t(3), of s'] by (simp add: s' v_def)
    have T: "tab s' root q =
        (if prefix (p @ [i]) q then (if q = p @ [i] then Some c else None) else tab s root q)"
      if "user_path q" for q
      by (rule install_tab [OF ok p ab A(2,3) _ v that]) (rule e)
    have tabs: "tab s' root q = Some u \<Longrightarrow> user_path q \<Longrightarrow> (q = p @ [i] \<and> u = c) \<or> (tab s root q = Some u \<and> \<not> prefix (p @ [i]) q)"
      for q u using T by (auto split: if_splits)
    have old: "tab s root q = Some u \<Longrightarrow> user_path q \<Longrightarrow> tab s' root q = Some u" for q u
      using T absent_below [OF p(2) ab] by (auto split: if_splits)
    have ok': "space_ok s' root"
      unfolding space_ok_def
    proof (intro conjI allI impI)
      show "frames_ok (fr s')" using A(1) by (simp add: s')
      show "frame_addr u" "is_used (frame_no u) (fr s')" if "user_path q" "tab s' root q = Some u" for q u
        using tabs [OF that(2,1)] space_tab [OF ok that(1)] A(2,4) by (auto simp: s')
      show "q = r" if "user_path q" "user_path r" "tab s' root q = Some u" "tab s' root r = Some u" for q r u
        using tabs [OF that(3,1)] tabs [OF that(4,2)] space_inj [OF ok that(1,2)]
          space_tab(2) [OF ok that(1)] space_tab(2) [OF ok that(2)] A(3) by auto
    qed
    have tf: "table_frames s' root = insert (frame_no c) (table_frames s root)"
    proof
      show "table_frames s' root \<subseteq> insert (frame_no c) (table_frames s root)"
        using tabs unfolding table_frames_def by blast
      have "tab s' root (p @ [i]) = Some c" using T [OF p(1)] by simp
      then have "frame_no c \<in> table_frames s' root" using p(1) unfolding table_frames_def by blast
      then show "insert (frame_no c) (table_frames s root) \<subseteq> table_frames s' root"
        using old unfolding table_frames_def by blast
    qed
    have k: "frames_kept s root s'"
      unfolding frames_kept_def
    proof (intro conjI allI impI ballI)
      show "cr3 s' = cr3 s" by (simp add: s')
      show "is_used f (fr s')" if "is_used f (fr s)" for f using that A(4) by (simp add: s')
      show "pm s' x = pm s x" if u: "is_used f (fr s)" and nt: "f \<notin> table_frames s root" and x: "x div 4096 = f" for f x
      proof -
        have "f \<noteq> frame_no c" using u A(3) by auto
        then have z: "zero_frame c (pm s) x = pm s x" using x zero_frame_same [OF A(2)] by simp
        have "frame_no t \<in> table_frames s root" using p(2) up unfolding table_frames_def by blast
        then have "f \<noteq> frame_no t" using nt by auto
        then have "\<not> (unat t + 8 * i \<le> x \<and> x < unat t + 8 * i + 8)"
          using addr_in_frame [OF t(1) i(1)] x by blast
        then show ?thesis using z by (auto simp: s' wr64_def)
      qed
      show "table_frames s root \<subseteq> table_frames s' root" using tf by auto
      show "f \<in> table_frames s root \<or> \<not> is_used f (fr s)" if "f \<in> table_frames s' root" for f
        using that tf A(3) by auto
    qed
    have "leaf s' root q = leaf s root q" if q: "page_path q" for q
    proof (cases "prefix (p @ [i]) (butlast q)")
      case True
      then have "tab s root (butlast q) = None" using absent_below [OF p(2) ab] by blast
      moreover have "tab s' root (butlast q) = None \<or> tab s' root (butlast q) = Some c"
        using T [OF page_path_cases(1) [OF q]] True by auto
      moreover have "entry s' c (last q) = 0" using e [OF A(2) page_path_cases(3) [OF q]] t(3) by auto
      ultimately show ?thesis by (auto simp: leaf_def)
    next
      case False
      then have same: "tab s' root (butlast q) = tab s root (butlast q)" using T [OF page_path_cases(1) [OF q]] by simp
      show ?thesis
      proof (cases "tab s root (butlast q)")
        case None
        then show ?thesis using same by (simp add: leaf_def)
      next
        case (Some r)
        have "r \<noteq> t" using space_inj [OF ok page_path_cases(1) [OF q] up Some] p(2) page_path_cases(2) [OF q] i(2) by auto
        moreover have "frame_addr r" "r \<noteq> c" using space_tab [OF ok page_path_cases(1) [OF q] Some] A(3) by auto
        ultimately show ?thesis using same Some e page_path_cases(3) [OF q] by (simp add: leaf_def)
      qed
    qed
    moreover have "tab s' root (p @ [i]) = Some c" using T [OF p(1)] by simp
    moreover have "entry s' root j = entry s root j" if j: "256 \<le> j" "j < 512" for j
    proof -
      have r: "frame_addr root" "root \<noteq> c" using space_tab [OF ok ur] A(3) by auto
      have "\<not> (root = t \<and> j = i)"
        using space_inj [OF ok ur(1) up ur(2)] p(1,2) j(1) by (auto simp: user_path_def)
      then show ?thesis using e [OF r(1) j(2)] r(2) by auto
    qed
    ultimately show ?thesis using ok' k by blast
  qed
  then show "space_ok s' root" "tab s' root (p @ [i]) = Some c" "frames_kept s root s'"
    "page_path q \<Longrightarrow> leaf s' root q = leaf s root q"
    "256 \<le> j \<Longrightarrow> j < 512 \<Longrightarrow> entry s' root j = entry s root j" by auto
qed

section \<open>Writing a leaf entry\<close>

lemma leaf_write:
  assumes ok: "space_ok s root" and q: "page_path q" "tab s root (butlast q) = Some pt"
    and s': "s' = s\<lparr>pm := wr64 (pm s) (unat pt + 8 * last q) v\<rparr>"
  shows "space_ok s' root" and "frames_kept s root s'"
    and "page_path r \<Longrightarrow> leaf s' root r = (if r = q then v else leaf s root r)"
    and "k < 512 \<Longrightarrow> entry s' root k = entry s root k"
proof -
  note qc = page_path_cases [OF q(1)]
  have pt: "frame_addr pt" using space_tab [OF ok qc(1) q(2)] by simp
  have e: "entry s' u j = (if u = pt \<and> j = last q then v else entry s u j)" if "frame_addr u" "j < 512" for u j
    unfolding s' using entry_wr [OF pt that(1) qc(3) that(2)] .
  have T: "user_path r \<Longrightarrow> tab s' root r = tab s root r" for r
  proof (induction r rule: rev_induct)
    case Nil
    then show ?case by simp
  next
    case (snoc j r)
    have ur: "user_path r" and j: "j < 512" and lr: "length r \<le> 2"
      using user_path_prefix snoc.prems by (auto simp: user_path_def)
    show ?case
    proof (cases "tab s root r")
      case None
      then show ?thesis using snoc.IH [OF ur] by (simp add: tab_snoc)
    next
      case (Some u)
      have "u \<noteq> pt" using space_inj [OF ok ur qc(1) Some] q(2) qc(2) lr by auto
      then have "entry s' u j = entry s u j" using e space_tab(1) [OF ok ur Some] j by simp
      then show ?thesis using snoc.IH [OF ur] Some by (simp add: tab_snoc child_def)
    qed
  qed
  show "space_ok s' root"
    using ok T by (simp add: space_ok_def s')
  have ur: "user_path []" "tab s root [] = Some root" by (simp_all add: user_path_def)
  have "butlast q \<noteq> []" using qc(2) by (metis list.size(3) zero_neq_numeral)
  then have "root \<noteq> pt" using space_inj [OF ok ur(1) qc(1) ur(2)] q(2) by auto
  then show "k < 512 \<Longrightarrow> entry s' root k = entry s root k" using e space_tab(1) [OF ok ur] by simp
  have tf: "table_frames s' root = table_frames s root"
    unfolding table_frames_def by (intro Collect_cong ex_cong1 conj_cong refl) (simp add: T)
  have "frame_no pt \<in> table_frames s root" using qc(1) q(2) unfolding table_frames_def by blast
  then show "frames_kept s root s'"
    unfolding frames_kept_def tf using addr_in_frame [OF pt qc(3)] by (auto simp: s' wr64_def)
  show "leaf s' root r = (if r = q then v else leaf s root r)" if r: "page_path r"
  proof (cases "tab s root (butlast r)")
    case None
    then show ?thesis using T [OF page_path_cases(1) [OF r]] q(2) by (auto simp: leaf_def)
  next
    case (Some u)
    note rc = page_path_cases [OF r]
    have "u = pt \<and> last r = last q \<longleftrightarrow> r = q"
    proof
      assume a: "u = pt \<and> last r = last q"
      then have "butlast r = butlast q" using space_inj [OF ok rc(1) qc(1) Some] q(2) by simp
      moreover have "r \<noteq> []" "q \<noteq> []" using rc(2) qc(2) by auto
      ultimately show "r = q" using a by (metis append_butlast_last_id)
    next
      assume "r = q"
      then show "u = pt \<and> last r = last q" using Some q(2) by simp
    qed
    then show ?thesis
      using T [OF rc(1)] Some e [OF space_tab(1) [OF ok rc(1) Some] rc(3)] by (auto simp: leaf_def)
  qed
qed

section \<open>Mapping, unmapping and translating a page\<close>

definition vpath :: "u64 \<Rightarrow> nat list" where
  "vpath virt = (case indices virt of (i4, i3, i2, i1) \<Rightarrow> [unat i4, unat i3, unat i2, unat i1])"

definition user_va :: "u64 \<Rightarrow> bool" where
  "user_va virt \<longleftrightarrow> hd (vpath virt) < 256"

definition pte :: "machine \<Rightarrow> u64 \<Rightarrow> u64 \<Rightarrow> u64" where
  "pte s root virt = leaf s root (vpath virt)"

lemma index_lt: "unat (x AND 0x1FF :: u64) < 512"
proof -
  have "x AND 0x1FF \<le> (0x1FF :: u64)" by (rule word_and_le1)
  then show ?thesis by (simp add: word_le_nat_alt)
qed

lemma vpath_page: "user_va virt \<Longrightarrow> page_path (vpath virt)"
  by (auto simp: user_va_def page_path_def vpath_def indices_def index_lt)

lemma map_in_raw_spec:
  assumes ok: "space_ok s root" and u: "user_va virt" and m: "map_in_raw root virt phys flags s = Some s'"
  shows "space_ok s' root" and "frames_kept s root s'"
    and "page_path q \<Longrightarrow> leaf s' root q = (if q = vpath virt then (phys AND ADDR_MASK) OR flags OR PRESENT else leaf s root q)"
    and "256 \<le> j \<Longrightarrow> j < 512 \<Longrightarrow> entry s' root j = entry s root j"
proof -
  obtain i4 i3 i2 i1 where ix: "indices virt = (i4, i3, i2, i1)" by (cases "indices virt") auto
  have vp: "vpath virt = [unat i4, unat i3, unat i2, unat i1]" by (simp add: vpath_def ix)
  have pp: "page_path [unat i4, unat i3, unat i2, unat i1]" using vpath_page [OF u] vp by simp
  then have up: "user_path ([] @ [unat i4])" "user_path ([unat i4] @ [unat i3])" "user_path ([unat i4, unat i3] @ [unat i2])"
    by (simp_all add: page_path_def user_path_def)
  obtain pdpt s1 pd s2 pt s3 where
    n: "next_table root i4 s = Some (pdpt, s1)" "next_table pdpt i3 s1 = Some (pd, s2)" "next_table pd i2 s2 = Some (pt, s3)"
    and s': "s' = s3\<lparr>pm := wr64 (pm s3) (entry_ptr pt i1) ((phys AND ADDR_MASK) OR flags OR PRESENT)\<rparr>"
    using m by (auto simp: map_in_raw_def ix Let_def split: Option.bind_split_asm prod.splits)
  note N1 = next_table_spec [OF ok up(1), of root pdpt s1, simplified, OF n(1)]
  have t1: "tab s1 root [unat i4] = Some pdpt" using N1(2) by simp
  note N2 = next_table_spec [OF N1(1) up(2) t1, of pd s2, simplified, OF n(2)]
  have t2: "tab s2 root [unat i4, unat i3] = Some pd" using N2(2) by simp
  note N3 = next_table_spec [OF N2(1) up(3) t2, of pt s3, simplified, OF n(3)]
  have t3: "tab s3 root (butlast [unat i4, unat i3, unat i2, unat i1]) = Some pt" using N3(2) by simp
  have s3': "s' = s3\<lparr>pm := wr64 (pm s3) (unat pt + 8 * last [unat i4, unat i3, unat i2, unat i1]) ((phys AND ADDR_MASK) OR flags OR PRESENT)\<rparr>"
    using s' by (simp add: entry_ptr_def)
  note W = leaf_write [OF N3(1) pp t3 s3']
  show "space_ok s' root" by (rule W(1))
  show "frames_kept s root s'" using N1(3) N2(3) N3(3) W(2) frames_kept_trans by blast
  show "leaf s' root q = (if q = vpath virt then (phys AND ADDR_MASK) OR flags OR PRESENT else leaf s root q)"
    if "page_path q"
    using W(3) [OF that] N1(4) [OF that] N2(4) [OF that] N3(4) [OF that] by (simp add: vp)
  show "entry s' root j = entry s root j" if "256 \<le> j" "j < 512"
    using W(4) [OF that(2)] N1(5) [OF that] N2(5) [OF that] N3(5) [OF that] by simp
qed

lemma translate_pte:
  "translate virt s =
     (if present (pte s (current_pml4 s) virt)
      then Some ((pte s (current_pml4 s) virt AND ADDR_MASK) OR (virt AND 0xFFF)) else None)"
proof -
  obtain i4 i3 i2 i1 where ix: "indices virt = (i4, i3, i2, i1)" by (cases "indices virt") auto
  have z: "\<not> present 0" by (simp add: present_def)
  show ?thesis
    by (simp add: translate_def pte_def leaf_def vpath_def ix entry_ptr_def child_def entry_def present_def
        Let_def split: option.split)
qed

lemma unmap_pte:
  "unmap virt s = (case tab s (current_pml4 s) (butlast (vpath virt)) of
     None \<Rightarrow> s | Some pt \<Rightarrow> s\<lparr>pm := wr64 (pm s) (unat pt + 8 * last (vpath virt)) 0\<rparr>)"
proof -
  obtain i4 i3 i2 i1 where ix: "indices virt = (i4, i3, i2, i1)" by (cases "indices virt") auto
  show ?thesis
    by (simp add: unmap_def vpath_def ix entry_ptr_def child_def entry_def present_def Let_def split: option.split)
qed

lemma next_table_total:
  assumes ok: "frames_ok (fr s)" and f: "n + 1 \<le> card (free_frames (fr s) - {0})"
  shows "\<exists>c s'. next_table t i s = Some (c, s') \<and> frames_ok (fr s') \<and> n \<le> card (free_frames (fr s') - {0})"
proof (cases "rd64 (pm s) (entry_ptr t i) AND PRESENT = 0")
  case False
  then show ?thesis using assms by (simp add: next_table_def Let_def)
next
  case True
  have "card (free_frames (fr s) - {0}) \<noteq> 0" using f by linarith
  then have "free_frames (fr s) - {0} \<noteq> {}" by (metis card.empty)
  then have "\<not> free_frames (fr s) \<subseteq> {0}" by blast
  then obtain c fr' where al: "alloc_frame (fr s) = (Some c, fr')"
    by (cases rule: alloc_frame_from_cases [OF ok, of 1]) (force simp: alloc_frame_def free_frames_def Suc_le_eq)+
  note A = alloc_frame_facts [OF ok al]
  have "free_frames fr' - {0} = (free_frames (fr s) - {0}) - {frame_no c}" using A(5) by auto
  moreover have "card ((free_frames (fr s) - {0}) - {frame_no c}) + 1 \<ge> card (free_frames (fr s) - {0})"
    using card_Diff1_le [of "free_frames (fr s) - {0}"] card_Suc_Diff1 [of "free_frames (fr s) - {0}" "frame_no c"]
    by (cases "frame_no c \<in> free_frames (fr s) - {0}") simp_all
  ultimately have "n \<le> card (free_frames fr' - {0})" using f by simp
  then show ?thesis using True al A(1) by (simp add: next_table_def Let_def)
qed

lemma map_in_raw_free:
  assumes "frames_ok (fr s)" and "3 + n \<le> card (free_frames (fr s) - {0})"
  shows "\<exists>s'. map_in_raw root virt phys flags s = Some s' \<and> n \<le> card (free_frames (fr s') - {0})"
proof -
  obtain i4 i3 i2 i1 where ix: "indices virt = (i4, i3, i2, i1)" by (cases "indices virt") auto
  obtain a s1 where 1: "next_table root i4 s = Some (a, s1)" "frames_ok (fr s1)" "2 + n \<le> card (free_frames (fr s1) - {0})"
    using next_table_total [OF assms(1), of "2 + n"] assms(2) by fastforce
  obtain b s2 where 2: "next_table a i3 s1 = Some (b, s2)" "frames_ok (fr s2)" "1 + n \<le> card (free_frames (fr s2) - {0})"
    using next_table_total [OF 1(2), of "1 + n"] 1(3) by fastforce
  obtain c s3 where 3: "next_table b i2 s2 = Some (c, s3)" "n \<le> card (free_frames (fr s3) - {0})"
    using next_table_total [OF 2(2), of n] 2(3) by fastforce
  show ?thesis using 1(1) 2(1) 3 by (simp add: map_in_raw_def ix Let_def)
qed

lemma map_in_raw_total:
  assumes "frames_ok (fr s)" and "3 \<le> card (free_frames (fr s) - {0})"
  shows "\<exists>s'. map_in_raw root virt phys flags s = Some s'"
  using map_in_raw_free [of s 0] assms by auto

lemma flags_pte_mask: "flags_to_pte fl AND ADDR_MASK = 0"
  by (simp add: flags_to_pte_def Let_def WRITABLE_def USER_def PCD_def PWT_def ADDR_MASK_def)

lemma leaf_entry_parts:
  assumes "flags AND ADDR_MASK = 0"
  shows "present ((phys AND ADDR_MASK) OR flags OR PRESENT)"
    and "((phys AND ADDR_MASK) OR flags OR PRESENT) AND ADDR_MASK = phys AND ADDR_MASK"
proof -
  show "present ((phys AND ADDR_MASK) OR flags OR PRESENT)"
    using PRESENT_in(1) [of "(phys AND ADDR_MASK) OR flags"] by (simp add: or.assoc)
  have "(flags OR PRESENT) AND ADDR_MASK = 0" using assms by (simp add: bit.conj_disj_distrib2 PRESENT_mask)
  then show "((phys AND ADDR_MASK) OR flags OR PRESENT) AND ADDR_MASK = phys AND ADDR_MASK"
    by (rule low_bits_masked)
qed

section \<open>Properties\<close>

text \<open>
  Mapping a page is exact. In the active address space, mapping a user page succeeds when
  three frames are free (for the tables that may be missing), translates afterwards to the
  given frame with the offset of the address, and changes the translation of no other page;
  the tables stay a tree of distinct allocated frames.
\<close>

theorem map_translate:
  assumes "space_ok s (current_pml4 s)" and "user_va virt" and "3 \<le> card (free_frames (fr s) - {0})"
  shows "\<exists>s'. map_in (current_pml4 s) virt phys fl s = Some s' \<and> space_ok s' (current_pml4 s)
     \<and> current_pml4 s' = current_pml4 s
     \<and> translate virt s' = Some ((phys AND ADDR_MASK) OR (virt AND 0xFFF))
     \<and> (\<forall>v. user_va v \<and> indices v \<noteq> indices virt \<longrightarrow> translate v s' = translate v s)"
proof -
  have "frames_ok (fr s)" using assms(1) by (simp add: space_ok_def)
  then obtain s' where m: "map_in_raw (current_pml4 s) virt phys (flags_to_pte fl) s = Some s'"
    using map_in_raw_total assms(3) by blast
  note M = map_in_raw_spec [OF assms(1,2) m]
  have c: "current_pml4 s' = current_pml4 s" using M(2) by (simp add: frames_kept_def current_pml4_def)
  have i: "vpath v = vpath virt \<longleftrightarrow> indices v = indices virt" for v
    by (cases "indices v"; cases "indices virt") (simp add: vpath_def)
  have "translate virt s' = Some ((phys AND ADDR_MASK) OR (virt AND 0xFFF))"
    using M(3) [OF vpath_page [OF assms(2)]] leaf_entry_parts [OF flags_pte_mask]
    by (simp add: translate_pte c pte_def)
  moreover have "translate v s' = translate v s" if "user_va v" "indices v \<noteq> indices virt" for v
    using M(3) [OF vpath_page [OF that(1)]] that(2) i by (simp add: translate_pte c pte_def)
  ultimately show ?thesis using m M(1) c by (auto simp: map_in_def)
qed

text \<open>
  Unmapping a page removes its translation and that of no other page, and leaves the
  tables a tree of distinct allocated frames.
\<close>

theorem unmap_spec:
  assumes "space_ok s (current_pml4 s)" and "user_va virt"
  shows "space_ok (unmap virt s) (current_pml4 s) \<and> translate virt (unmap virt s) = None
     \<and> (\<forall>v. user_va v \<and> indices v \<noteq> indices virt \<longrightarrow> translate v (unmap virt s) = translate v s)"
proof (cases "tab s (current_pml4 s) (butlast (vpath virt))")
  case None
  have "\<not> present (pte s (current_pml4 s) virt)" using None by (simp add: pte_def leaf_def present_def)
  then show ?thesis using None assms(1) by (simp add: unmap_pte translate_pte)
next
  case (Some pt)
  let ?s = "s\<lparr>pm := wr64 (pm s) (unat pt + 8 * last (vpath virt)) 0\<rparr>"
  note W = leaf_write [OF assms(1) vpath_page [OF assms(2)] Some, of ?s 0, OF refl]
  have c: "current_pml4 ?s = current_pml4 s" by (simp add: current_pml4_def)
  have i: "vpath v = vpath virt \<longleftrightarrow> indices v = indices virt" for v
    by (cases "indices v"; cases "indices virt") (simp add: vpath_def)
  have u: "unmap virt s = ?s" using Some by (simp add: unmap_pte)
  have "\<not> present 0" by (simp add: present_def)
  then have "translate virt ?s = None"
    unfolding translate_pte c pte_def using W(3) [OF vpath_page [OF assms(2)]] by simp
  moreover have "translate v ?s = translate v s" if "user_va v" "indices v \<noteq> indices virt" for v
    unfolding translate_pte c pte_def using W(3) [OF vpath_page [OF that(1)]] that(2) i by simp
  ultimately show ?thesis using W(1) u by simp
qed

text \<open>A small machine for the examples: frame 1 is an empty root table, frames 2 to 5 are free.\<close>

definition demo_machine :: machine where
  "demo_machine = \<lparr>fr = fold free_step [2..<6] FRAMES_init, pm = (\<lambda>_. 0), cr3 = 0x1000\<rparr>"


lemma empty_space_ok:
  assumes "frames_ok (fr s)" and "frame_addr root" and "is_used (frame_no root) (fr s)"
    and e: "\<And>i. i < 256 \<Longrightarrow> \<not> present (entry s root i)"
  shows "space_ok s root" and "user_path p \<Longrightarrow> p \<noteq> [] \<Longrightarrow> tab s root p = None"
proof -
  have n: "tab s root p = None" if "user_path p" "p \<noteq> []" for p
    using that e by (cases p) (auto simp: user_path_def child_def)
  then show "user_path p \<Longrightarrow> p \<noteq> [] \<Longrightarrow> tab s root p = None" .
  have o: "p = [] \<and> t = root" if "user_path p" "tab s root p = Some t" for p t
    using n that by (cases "p = []") auto
  show "space_ok s root"
    unfolding space_ok_def using assms(1-3) o by blast
qed

lemma demo_machine_facts:
  "current_pml4 demo_machine = 0x1000" "frames_ok (fr demo_machine)" "free_frames (fr demo_machine) = {2, 3, 4, 5}"
  "space_ok demo_machine 0x1000"
proof -
  show "current_pml4 demo_machine = 0x1000" by (simp add: current_pml4_def demo_machine_def ADDR_MASK_def)
  have fr: "fr demo_machine = fold free_step [2..<6] FRAMES_init" by (simp only: demo_machine_def machine.select_convs)
  note F = fold_free_step [OF FRAMES_init_ok, of "[2..<6]", folded fr]
  have m: "6 < MAX_FRAMES" by (simp add: MAX_FRAMES_def)
  have "g \<in> free_frames (fr demo_machine) \<longleftrightarrow> g \<in> {2, 3, 4, 5}" for g
  proof -
    have "g \<in> free_frames (fr demo_machine) \<longleftrightarrow> g < MAX_FRAMES \<and> \<not> (is_used g FRAMES_init \<and> \<not> (g \<in> set [2..<6] \<and> g < MAX_FRAMES))"
      using F by (simp only: free_frames_def mem_Collect_eq)
    also have "\<dots> \<longleftrightarrow> g \<in> set [2..<6]" using FRAMES_init_used [of g] m by auto
    also have "\<dots> \<longleftrightarrow> g \<in> {2, 3, 4, 5}" by auto
    finally show ?thesis .
  qed
  then show f: "free_frames (fr demo_machine) = {2, 3, 4, 5}" by blast
  show ok: "frames_ok (fr demo_machine)" using F by blast
  have "1 \<notin> free_frames (fr demo_machine)" using f by simp
  then have u: "is_used 1 (fr demo_machine)" by (simp add: free_frames_def MAX_FRAMES_def)
  show "space_ok demo_machine 0x1000"
    using ok u by (intro empty_space_ok)
      (simp_all add: frame_addr_def frame_no_def MAX_FRAMES_def entry_def demo_machine_def rd64_zero present_def)
qed

lemma demo_user: "user_va 0x20000000" "indices 0x20000000 = (0, 0, 256, 0)"
  by (simp_all add: user_va_def vpath_def indices_def)

theorem map_translate_witness:
  "\<exists>s'. map_in (current_pml4 demo_machine) 0x20000000 0x5000 MF_USER demo_machine = Some s'
     \<and> space_ok s' (current_pml4 demo_machine) \<and> current_pml4 s' = current_pml4 demo_machine
     \<and> translate 0x20000000 s' = Some ((0x5000 AND ADDR_MASK) OR (0x20000000 AND 0xFFF))
     \<and> (\<forall>v. user_va v \<and> indices v \<noteq> indices 0x20000000 \<longrightarrow> translate v s' = translate v demo_machine)"
proof (rule map_translate)
  show "space_ok demo_machine (current_pml4 demo_machine)" using demo_machine_facts(1,4) by simp
  show "user_va 0x20000000" by (rule demo_user)
  show "3 \<le> card (free_frames (fr demo_machine) - {0})" using demo_machine_facts(3) by simp
qed

theorem unmap_spec_witness:
  "space_ok (unmap 0x20000000 demo_machine) (current_pml4 demo_machine)
     \<and> translate 0x20000000 (unmap 0x20000000 demo_machine) = None
     \<and> translate 0x20001000 (unmap 0x20000000 demo_machine) = translate 0x20001000 demo_machine"
proof -
  have ok: "space_ok demo_machine (current_pml4 demo_machine)" using demo_machine_facts(1,4) by simp
  have "user_va 0x20001000" "indices 0x20001000 \<noteq> indices 0x20000000"
    by (simp_all add: user_va_def vpath_def indices_def)
  then show ?thesis using unmap_spec [OF ok demo_user(1)] by blast
qed

end
