(* ===== verification/Fork.thy ===== *)
theory Fork
  imports PagingInv
begin

text \<open>
  Address-space duplication: \<open>new_space\<close> and \<open>fork_space\<close> of \<open>kernel/src/arch/x86_64/paging.rs\<close>.
  A fork gives the child its own frame for every user page of the parent, with the same
  contents and permissions, and leaves the parent as it was.
\<close>

section \<open>Changes that an address space does not see\<close>

lemma rd_same_frame:
  assumes "frame_addr t" and "i < 512" and "\<And>x. x div 4096 = frame_no t \<Longrightarrow> m' x = m x"
  shows "rd64 m' (unat t + 8 * i) = rd64 m (unat t + 8 * i)"
  using entry_in_frame [OF assms(1,2)] assms(3) by (intro rd_cong) simp

lemma tab_unseen:
  assumes ok: "space_ok s root"
    and m: "\<And>f x. f \<in> table_frames s root \<Longrightarrow> x div 4096 = f \<Longrightarrow> pm s' x = pm s x"
  shows "user_path p \<Longrightarrow> tab s' root p = tab s root p"
    and "page_path q \<Longrightarrow> leaf s' root q = leaf s root q" and "table_frames s' root = table_frames s root"
proof -
  have e: "entry s' t i = entry s t i" if "user_path p" "tab s root p = Some t" "i < 512" for p t i
  proof -
    have "frame_no t \<in> table_frames s root" using that unfolding table_frames_def by blast
    then show ?thesis
      unfolding entry_def using space_tab(1) [OF ok that(1,2)] that(3) m by (intro rd_same_frame) auto
  qed
  have T: "user_path p \<Longrightarrow> tab s' root p = tab s root p" for p
  proof (induction p rule: rev_induct)
    case (snoc i p)
    have u: "user_path p" "i < 512" using snoc.prems user_path_prefix by (auto simp: user_path_def)
    then show ?case using snoc.IH [OF u(1)] e [OF u(1) _ u(2)] by (auto simp: tab_snoc child_def split: option.split)
  qed simp
  then show "user_path p \<Longrightarrow> tab s' root p = tab s root p" .
  show "leaf s' root q = leaf s root q" if "page_path q"
    using T [OF page_path_cases(1) [OF that]] e [OF page_path_cases(1) [OF that] _ page_path_cases(3) [OF that]]
    by (auto simp: leaf_def split: option.split)
  show "table_frames s' root = table_frames s root"
    unfolding table_frames_def by (intro Collect_cong ex_cong1 conj_cong refl) (simp add: T)
qed

lemma space_unseen:
  assumes ok: "space_ok s root"
    and m: "\<And>f x. f \<in> table_frames s root \<Longrightarrow> x div 4096 = f \<Longrightarrow> pm s' x = pm s x"
    and f: "frames_ok (fr s')" "\<And>f. f \<in> table_frames s root \<Longrightarrow> is_used f (fr s')"
  shows "space_ok s' root"
  unfolding space_ok_def
proof (intro conjI allI impI)
  note T = tab_unseen(1) [OF ok m]
  show "frames_ok (fr s')" by (rule f)
  show "frame_addr t" "is_used (frame_no t) (fr s')" if "user_path p" "tab s' root p = Some t" for p t
  proof -
    have t: "tab s root p = Some t" using T that by simp
    then have "frame_no t \<in> table_frames s root" using that(1) unfolding table_frames_def by blast
    then show "frame_addr t" "is_used (frame_no t) (fr s')" using space_tab(1) [OF ok that(1) t] f(2) by auto
  qed
  show "p = q" if "user_path p" "user_path q" "tab s' root p = Some t" "tab s' root q = Some t" for p q t
    using T that space_inj [OF ok that(1,2)] by simp
qed

lemma table_used: "space_ok s root \<Longrightarrow> f \<in> table_frames s root \<Longrightarrow> is_used f (fr s)"
  using space_tab(2) unfolding table_frames_def by blast

section \<open>A new address space\<close>

lemma fold_wr_entries:
  assumes t: "frame_addr t" and u: "frame_addr u" "j < 512" and b: "b \<le> 512"
    and g: "\<And>m m' i. i < 512 \<Longrightarrow> (\<And>x. x div 4096 \<noteq> frame_no t \<Longrightarrow> m' x = m x) \<Longrightarrow> g i m' = g i m"
  shows "rd64 (fold (\<lambda>i m. wr64 m (unat t + 8 * i) (g i m)) [a..<b] m) (unat u + 8 * j) =
      (if u = t \<and> a \<le> j \<and> j < b then g j m else rd64 m (unat u + 8 * j))
    \<and> (\<forall>x. x div 4096 \<noteq> frame_no t \<longrightarrow> fold (\<lambda>i m. wr64 m (unat t + 8 * i) (g i m)) [a..<b] m x = m x)"
  using b
proof (induction b)
  case 0
  then show ?case by simp
next
  case (Suc b)
  let ?F = "\<lambda>b. fold (\<lambda>i m. wr64 m (unat t + 8 * i) (g i m)) [a..<b] m"
  show ?case
  proof (cases "a \<le> b")
    case False
    then show ?thesis by auto
  next
    case True
    have F: "?F (Suc b) = wr64 (?F b) (unat t + 8 * b) (g b (?F b))" using True by simp
    have IH: "rd64 (?F b) (unat u + 8 * j) = (if u = t \<and> a \<le> j \<and> j < b then g j m else rd64 m (unat u + 8 * j))"
      "\<And>x. x div 4096 \<noteq> frame_no t \<Longrightarrow> ?F b x = m x" using Suc by auto
    have gb: "g b (?F b) = g b m" using g [of b "?F b" m] IH(2) Suc.prems by simp
    have out: "wr64 m' (unat t + 8 * b) v x = m' x" if "x div 4096 \<noteq> frame_no t" for m' v x
      using addr_in_frame [OF t, of b x] that Suc.prems by (auto simp: wr64_def)
    have "rd64 (?F (Suc b)) (unat u + 8 * j) = (if u = t \<and> j = b then g b m else rd64 (?F b) (unat u + 8 * j))"
      unfolding F gb using entry_disjoint [OF t u(1) _ u(2), of b] Suc.prems
      by (auto simp: rd_wr_same intro!: rd_wr_other)
    then show ?thesis using IH out True unfolding F by (auto simp: less_Suc_eq)
  qed
qed

lemma new_space_spec:
  assumes f: "frames_ok (fr s)" and c: "frame_addr (current_pml4 s)" "is_used (frame_no (current_pml4 s)) (fr s)"
    and n: "new_space s = Some (root, s')"
  shows "frame_addr root" "\<not> is_used (frame_no root) (fr s)" "frames_ok (fr s')"
    and "is_used g (fr s') \<longleftrightarrow> g = frame_no root \<or> is_used g (fr s)"
    and "free_frames (fr s') = free_frames (fr s) - {frame_no root}"
    and "x div 4096 \<noteq> frame_no root \<Longrightarrow> pm s' x = pm s x" and "cr3 s' = cr3 s"
    and "j < 512 \<Longrightarrow> entry s' root j = (if j < 256 then 0 else entry s (current_pml4 s) j)"
proof -
  obtain fr' where al: "alloc_frame (fr s) = (Some root, fr')"
    and s': "s' = s\<lparr>fr := fr', pm := copy_upper (current_pml4 s) root (clear_lower root (pm s))\<rparr>"
    using n by (auto simp: new_space_def split: prod.splits option.splits)
  note A = alloc_frame_facts [OF f al]
  show "frame_addr root" "\<not> is_used (frame_no root) (fr s)" "frames_ok (fr s')" using A by (simp_all add: s')
  show "is_used g (fr s') \<longleftrightarrow> g = frame_no root \<or> is_used g (fr s)" using A(4) by (simp add: s')
  show "free_frames (fr s') = free_frames (fr s) - {frame_no root}" using A(5) by (simp add: s')
  show "cr3 s' = cr3 s" by (simp add: s')
  define m1 where "m1 = clear_lower root (pm s)"
  define m2 where "m2 = copy_upper (current_pml4 s) root m1"
  have pm': "pm s' = m2" by (simp add: s' m1_def m2_def)
  have ne: "frame_no (current_pml4 s) \<noteq> frame_no root" "current_pml4 s \<noteq> root" using c(2) A(3) by auto
  have 1: "rd64 m1 (unat u + 8 * k) = (if u = root \<and> 0 \<le> k \<and> k < 256 then 0 else rd64 (pm s) (unat u + 8 * k))
      \<and> (\<forall>x. x div 4096 \<noteq> frame_no root \<longrightarrow> m1 x = pm s x)" if "frame_addr u" "k < 512" for u k
    unfolding m1_def clear_lower_def by (rule fold_wr_entries [OF A(2) that]) simp_all
  have 2: "rd64 m2 (unat u + 8 * k) =
        (if u = root \<and> 256 \<le> k \<and> k < 512 then rd64 m1 (unat (current_pml4 s) + 8 * k) else rd64 m1 (unat u + 8 * k))
      \<and> (\<forall>x. x div 4096 \<noteq> frame_no root \<longrightarrow> m2 x = m1 x)" if "frame_addr u" "k < 512" for u k
    unfolding m2_def copy_upper_def
    by (rule fold_wr_entries [OF A(2) that], simp, rule rd_same_frame [OF c(1)]) (use ne in simp_all)
  show "x div 4096 \<noteq> frame_no root \<Longrightarrow> pm s' x = pm s x"
    using 1 [OF A(2), of 0] 2 [OF A(2), of 0] by (simp add: pm')
  show "entry s' root j = (if j < 256 then 0 else entry s (current_pml4 s) j)" if "j < 512"
    using 1 [OF A(2) that] 2 [OF A(2) that] 1 [OF c(1) that] ne that by (auto simp: entry_def pm')
qed

section \<open>Forking\<close>

lemma fold_opt_snoc: "fold_opt f (xs @ [x]) s = fold_opt f xs s \<bind> f x"
  by (induction xs arbitrary: s) (auto split: Option.bind_split)

lemma fold_opt_inv:
  assumes "I 0 s" and "\<And>i s. i < n \<Longrightarrow> I i s \<Longrightarrow> \<exists>s'. f i s = Some s' \<and> I (Suc i) s'"
  shows "\<exists>s'. fold_opt f [0..<n] s = Some s' \<and> I n s'"
  using assms(2)
proof (induction n)
  case 0
  then show ?case using assms(1) by simp
next
  case (Suc n)
  then obtain s' where s': "fold_opt f [0..<n] s = Some s'" "I n s'" by (metis less_SucI)
  then show ?case using Suc.prems [of n s'] by (simp add: fold_opt_snoc)
qed

text \<open>
  \<open>mapped\<close>: the page is mapped. \<open>leaves_ok\<close>: the mapped frames are allocated and are not
  tables. \<open>copied\<close>: the child's entry maps a private frame with the contents the parent's page
  had, and the parent's write and user bits.
\<close>

definition mapped :: "machine \<Rightarrow> u64 \<Rightarrow> nat list set" where
  "mapped s root = {q. page_path q \<and> present (leaf s root q)}"

definition leaves_ok :: "machine \<Rightarrow> u64 \<Rightarrow> bool" where
  "leaves_ok s root \<longleftrightarrow> (\<forall>q \<in> mapped s root. frame_addr (leaf s root q AND ADDR_MASK)
      \<and> is_used (frame_no (leaf s root q AND ADDR_MASK)) (fr s)
      \<and> frame_no (leaf s root q AND ADDR_MASK) \<notin> table_frames s root)"

definition no_large :: "machine \<Rightarrow> u64 \<Rightarrow> bool" where
  "no_large s root \<longleftrightarrow> (\<forall>p i t. user_path (p @ [i]) \<and> length p = 2 \<and> tab s root p = Some t \<longrightarrow> \<not> large (entry s t i))"

definition copied :: "machine \<Rightarrow> machine \<Rightarrow> u64 \<Rightarrow> u64 \<Rightarrow> u64 \<Rightarrow> bool" where
  "copied s0 s kid e e' \<longleftrightarrow> (\<exists>d. frame_addr d \<and> e' = (d AND ADDR_MASK) OR (e AND (WRITABLE OR USER)) OR PRESENT
     \<and> \<not> is_used (frame_no d) (fr s0) \<and> is_used (frame_no d) (fr s) \<and> frame_no d \<notin> table_frames s kid
     \<and> (\<forall>k < 4096. pm s (unat d + k) = pm s0 (unat (e AND ADDR_MASK) + k)))"

definition fork_inv :: "machine \<Rightarrow> u64 \<Rightarrow> u64 \<Rightarrow> nat list set \<Rightarrow> machine \<Rightarrow> bool" where
  "fork_inv s0 parent kid S s \<longleftrightarrow>
     space_ok s kid \<and> cr3 s = cr3 s0 \<and> (\<forall>f. is_used f (fr s0) \<longrightarrow> is_used f (fr s))
     \<and> (\<forall>j. 256 \<le> j \<longrightarrow> j < 512 \<longrightarrow> entry s kid j = entry s0 kid j)
     \<and> (\<forall>f \<in> table_frames s kid. is_used f (fr s0) \<longrightarrow> f = frame_no kid)
     \<and> (\<forall>x. is_used (x div 4096) (fr s0) \<longrightarrow> x div 4096 \<noteq> frame_no kid \<longrightarrow> pm s x = pm s0 x)
     \<and> (\<forall>q. page_path q \<longrightarrow> q \<in> S \<inter> mapped s0 parent \<longrightarrow> copied s0 s kid (leaf s0 parent q) (leaf s kid q))
     \<and> (\<forall>q. page_path q \<longrightarrow> q \<notin> S \<inter> mapped s0 parent \<longrightarrow> leaf s kid q = 0)
     \<and> inj_on (\<lambda>q. leaf s kid q AND ADDR_MASK) (S \<inter> mapped s0 parent)
     \<and> 4 * card (mapped s0 parent - S) \<le> card (free_frames (fr s) - {0})"

lemma finite_mapped: "finite (mapped s root)"
proof -
  have "mapped s root \<subseteq> {q. set q \<subseteq> {..<512} \<and> length q = 4}" by (auto simp: mapped_def page_path_def)
  then show ?thesis using finite_lists_length_eq [of "{..<512 :: nat}" 4] finite_subset by blast
qed

lemma fork_inv_cong: "S \<inter> mapped s0 parent = T \<inter> mapped s0 parent \<Longrightarrow> fork_inv s0 parent kid S s = fork_inv s0 parent kid T s"
proof -
  assume a: "S \<inter> mapped s0 parent = T \<inter> mapped s0 parent"
  then have "mapped s0 parent - S = mapped s0 parent - T" by blast
  then show ?thesis unfolding fork_inv_def a by simp
qed

lemma masked_flags: "(e AND (WRITABLE OR USER)) AND ADDR_MASK = 0"
  by (simp add: WRITABLE_def USER_def ADDR_MASK_def and.assoc)

lemma copy_frame_other: "frame_addr dst \<Longrightarrow> x div 4096 \<noteq> frame_no dst \<Longrightarrow> copy_frame src dst mem x = mem x"
  using zero_frame_same [of dst x mem] zero_frame_same [of dst x "\<lambda>_. 1"]
  by (auto simp: copy_frame_def zero_frame_def split: if_splits)

lemma frame_byte_no: "frame_addr d \<Longrightarrow> k < 4096 \<Longrightarrow> (unat d + k) div 4096 = frame_no d"
  using frame_addr_unat [of d] by simp

text \<open>The body of the innermost loop: one page is duplicated.\<close>

lemma fork_leaf_step:
  assumes I: "fork_inv s0 parent kid S s" and L: "leaves_ok s0 parent" "frame_addr kid"
    and c: "is_used (frame_no kid) (fr s0)" "\<And>q. q \<in> mapped s0 parent \<Longrightarrow> frame_no (leaf s0 parent q AND ADDR_MASK) \<noteq> frame_no kid"
    and q: "q \<in> mapped s0 parent" "q \<notin> S" and v: "user_va va" "vpath va = q"
  shows "\<exists>s'. fork_leaf kid va (leaf s0 parent q) s = Some s' \<and> fork_inv s0 parent kid (insert q S) s'"
proof -
  define e where "e = leaf s0 parent q"
  define M where "M = mapped s0 parent"
  note D = I [unfolded fork_inv_def, folded M_def]
  have okc: "space_ok s kid" and fok: "frames_ok (fr s)" using D by (auto simp: space_ok_def)
  have pq: "page_path q" using q(1) by (simp add: mapped_def)
  have cardq: "card (M - S) = Suc (card (M - insert q S))"
  proof -
    have e: "M - S = insert q (M - insert q S)" using q by (auto simp: M_def)
    have "finite (M - insert q S)" using finite_mapped [of s0 parent] by (simp add: M_def)
    moreover have "q \<notin> M - insert q S" by simp
    ultimately show ?thesis by (subst e) (rule card_insert_disjoint)
  qed
  then have fr4: "4 + 4 * card (M - insert q S) \<le> card (free_frames (fr s) - {0})" using D by simp
  have "free_frames (fr s) - {0} \<noteq> {}" using fr4 by (metis card.empty le_zero_eq add_is_0 zero_neq_numeral)
  then have "\<not> free_frames (fr s) \<subseteq> {0}" by blast
  then obtain dst fr1 where al: "alloc_frame (fr s) = (Some dst, fr1)"
    by (cases rule: alloc_frame_from_cases [OF fok, of 1]) (force simp: alloc_frame_def free_frames_def Suc_le_eq)+
  note A = alloc_frame_facts [OF fok al]
  define s1 where "s1 = s\<lparr>fr := fr1, pm := copy_frame (e AND ADDR_MASK) dst (pm s)\<rparr>"
  have same1: "pm s1 x = pm s x" if "x div 4096 \<noteq> frame_no dst" for x
    using copy_frame_other [OF A(2) that] by (simp add: s1_def)
  have tc: "f \<in> table_frames s kid \<Longrightarrow> f \<noteq> frame_no dst" for f using table_used [OF okc] A(3) by auto
  have ok1: "space_ok s1 kid"
    using space_unseen [OF okc, of s1] same1 tc A(1,4) table_used [OF okc] by (auto simp: s1_def)
  have leaf1: "page_path r \<Longrightarrow> leaf s1 kid r = leaf s kid r" for r
    using tab_unseen(2) [OF okc, of s1] same1 tc by auto
  have tf1: "table_frames s1 kid = table_frames s kid" using tab_unseen(3) [OF okc, of s1] same1 tc by auto
  have fr1: "3 + 4 * card (M - insert q S) \<le> card (free_frames (fr s1) - {0})"
  proof -
    have "free_frames (fr s1) - {0} = (free_frames (fr s) - {0}) - {frame_no dst}" using A(5) by (auto simp: s1_def)
    moreover have "card ((free_frames (fr s) - {0}) - {frame_no dst}) \<ge> card (free_frames (fr s) - {0}) - 1"
      by (metis card_Diff_singleton_if diff_le_self order_refl)
    ultimately show ?thesis using fr4 by simp
  qed
  have fok1: "frames_ok (fr s1)" using A(1) by (simp add: s1_def)
  obtain s2 where m: "map_in_raw kid va dst (e AND (WRITABLE OR USER)) s1 = Some s2"
      and fr2: "4 * card (M - insert q S) \<le> card (free_frames (fr s2) - {0})"
    using map_in_raw_free [OF fok1 fr1] by blast
  note R = map_in_raw_spec [OF ok1 v(1) m]
  have leaf2: "page_path r \<Longrightarrow> leaf s2 kid r = (if r = q then (dst AND ADDR_MASK) OR (e AND (WRITABLE OR USER)) OR PRESENT else leaf s kid r)" for r
    using R(3) leaf1 v(2) by simp
  have K: "is_used f (fr s1) \<Longrightarrow> f \<notin> table_frames s kid \<Longrightarrow> x div 4096 = f \<Longrightarrow> pm s2 x = pm s1 x"
    "is_used f (fr s1) \<Longrightarrow> is_used f (fr s2)"
    "f \<in> table_frames s2 kid \<Longrightarrow> f \<in> table_frames s kid \<or> \<not> is_used f (fr s1)" for f x
    using R(2) unfolding frames_kept_def tf1 by blast+
  have u1: "is_used f (fr s1) \<longleftrightarrow> f = frame_no dst \<or> is_used f (fr s)" for f using A(4) by (simp add: s1_def)
  have d0: "\<not> is_used (frame_no dst) (fr s0)" using D A(3) by auto
  have old: "pm s2 x = pm s0 x" if "is_used (x div 4096) (fr s0)" "x div 4096 \<noteq> frame_no kid" for x
  proof -
    have "x div 4096 \<notin> table_frames s kid" "is_used (x div 4096) (fr s)" "x div 4096 \<noteq> frame_no dst" "pm s x = pm s0 x"
      using D that d0 by auto
    then show ?thesis using K(1) u1 same1 by metis
  qed
  have keep: "copied s0 s kid e1 e2 \<Longrightarrow> copied s0 s2 kid e1 e2" for e1 e2
  proof -
    assume "copied s0 s kid e1 e2"
    then obtain d where d: "frame_addr d" "e2 = (d AND ADDR_MASK) OR (e1 AND (WRITABLE OR USER)) OR PRESENT"
      "\<not> is_used (frame_no d) (fr s0)" "is_used (frame_no d) (fr s)" "frame_no d \<notin> table_frames s kid"
      "\<And>k. k < 4096 \<Longrightarrow> pm s (unat d + k) = pm s0 (unat (e1 AND ADDR_MASK) + k)" unfolding copied_def by blast
    have "frame_no d \<noteq> frame_no dst" using d(4) A(3) by auto
    then have "pm s2 (unat d + k) = pm s (unat d + k)" if "k < 4096" for k
      using K(1) [OF _ d(5) frame_byte_no [OF d(1) that]] same1 frame_byte_no [OF d(1) that] u1 d(4) by simp
    moreover have "is_used (frame_no d) (fr s2)" "frame_no d \<notin> table_frames s2 kid"
      using K(2,3) d(4,5) u1 by blast+
    ultimately show ?thesis unfolding copied_def using d by (intro exI [of _ d]) simp
  qed
  have eok: "frame_addr (e AND ADDR_MASK)" "is_used (frame_no (e AND ADDR_MASK)) (fr s0)"
      "frame_no (e AND ADDR_MASK) \<noteq> frame_no kid"
    using L(1) q(1) c(2) [OF q(1)] by (auto simp: leaves_ok_def e_def)
  have new: "copied s0 s2 kid e (leaf s2 kid q)"
  proof -
    have "pm s2 (unat dst + k) = pm s0 (unat (e AND ADDR_MASK) + k)" if "k < 4096" for k
    proof -
      have "pm s2 (unat dst + k) = pm s1 (unat dst + k)"
        using K(1) [OF _ _ frame_byte_no [OF A(2) that]] tc u1 by blast
      also have "\<dots> = pm s (unat (e AND ADDR_MASK) + k)" using that by (simp add: s1_def copy_frame_def)
      also have "\<dots> = pm s0 (unat (e AND ADDR_MASK) + k)"
        using D eok frame_byte_no [OF eok(1) that] by metis
      finally show ?thesis .
    qed
    moreover have "is_used (frame_no dst) (fr s2)" "frame_no dst \<notin> table_frames s2 kid" using K(2,3) u1 tc by blast+
    ultimately show ?thesis unfolding copied_def using A(2) d0 leaf2 [OF pq] by (intro exI [of _ dst]) simp
  qed
  have dm: "leaf s2 kid q AND ADDR_MASK = dst"
    using leaf2 [OF pq] leaf_entry_parts(2) [OF masked_flags, of dst e] masked_frame [OF A(2)] by (metis (full_types))
  have lm: "leaf s2 kid r = leaf s kid r \<and> frame_no (leaf s kid r AND ADDR_MASK) \<noteq> frame_no dst"
    if r: "r \<in> S \<inter> M" for r
  proof -
    have pr: "page_path r" "r \<noteq> q" using r q(2) by (auto simp: M_def mapped_def)
    then have "copied s0 s kid (leaf s0 parent r) (leaf s kid r)" using D r by blast
    then obtain d where d: "frame_addr d" "leaf s kid r = (d AND ADDR_MASK) OR (leaf s0 parent r AND (WRITABLE OR USER)) OR PRESENT"
      "is_used (frame_no d) (fr s)" unfolding copied_def by blast
    have "leaf s kid r AND ADDR_MASK = d" unfolding d(2) leaf_entry_parts(2) [OF masked_flags] by (rule masked_frame [OF d(1)])
    then show ?thesis using leaf2 [OF pr(1)] pr(2) d(3) A(3) by auto
  qed
  have inj: "inj_on (\<lambda>r. leaf s2 kid r AND ADDR_MASK) (insert q S \<inter> M)"
  proof -
    have "inj_on (\<lambda>r. leaf s kid r AND ADDR_MASK) (S \<inter> M)" using D by blast
    then have "inj_on (\<lambda>r. leaf s2 kid r AND ADDR_MASK) (S \<inter> M)" using lm by (simp add: inj_on_def)
    moreover have "dst \<notin> (\<lambda>r. leaf s2 kid r AND ADDR_MASK) ` (S \<inter> M)" using lm by force
    moreover have "insert q S \<inter> M = insert q (S \<inter> M)" using q(1) by (auto simp: M_def)
    ultimately show ?thesis using dm q(2) by (simp add: inj_on_insert) 
  qed
  have "fork_inv s0 parent kid (insert q S) s2"
    unfolding fork_inv_def M_def [symmetric]
  proof (intro conjI allI impI ballI)
    show "space_ok s2 kid" by (rule R(1))
    show "cr3 s2 = cr3 s0" using R(2) D by (simp add: frames_kept_def s1_def)
    show "is_used f (fr s2)" if "is_used f (fr s0)" for f using that D K(2) u1 by blast
    show "entry s2 kid j = entry s0 kid j" if j: "256 \<le> j" "j < 512" for j
    proof -
      have "frame_no kid \<in> table_frames s kid" unfolding table_frames_def by (auto simp: user_path_def intro!: exI [of _ "[]"])
      then have "entry s1 kid j = entry s kid j"
        unfolding entry_def using L(2) j(2) same1 tc by (intro rd_same_frame) auto
      then show ?thesis using R(4) [OF j] D j by simp
    qed
    show "f = frame_no kid" if "f \<in> table_frames s2 kid" "is_used f (fr s0)" for f
      using K(3) [OF that(1)] that(2) D u1 by blast
    show "pm s2 x = pm s0 x" if "is_used (x div 4096) (fr s0)" "x div 4096 \<noteq> frame_no kid" for x
      by (rule old [OF that])
    show "copied s0 s2 kid (leaf s0 parent r) (leaf s2 kid r)" if "page_path r" "r \<in> insert q S \<inter> M" for r
      using that new keep lm D by (cases "r = q") (auto simp: e_def)
    show "leaf s2 kid r = 0" if "page_path r" "r \<notin> insert q S \<inter> M" for r
      using that D leaf2 q(1) by (auto simp: M_def)
    show "inj_on (\<lambda>r. leaf s2 kid r AND ADDR_MASK) (insert q S \<inter> M)" by (rule inj)
    show "4 * card (M - insert q S) \<le> card (free_frames (fr s2) - {0})" by (rule fr2)
  qed
  moreover have "fork_leaf kid va e s = Some s2" using al m by (simp add: fork_leaf_def s1_def)
  ultimately show ?thesis unfolding e_def by blast
qed

section \<open>The nested loops\<close>

text \<open>\<open>below p\<close>: the pages under the table path \<open>p\<close>; the loop over the entries of that table handles them in order.\<close>

definition below :: "nat list \<Rightarrow> nat list set" where
  "below p = {q. page_path q \<and> take (length p) q = p}"

definition below_lt :: "nat list \<Rightarrow> nat \<Rightarrow> nat list set" where
  "below_lt p i = {q \<in> below p. q ! length p < i}"

lemma below_lt_0: "below_lt p 0 = {}"
  by (simp add: below_lt_def)

lemma below_snoc: "length p < 4 \<Longrightarrow> below (p @ [i]) = {q \<in> below p. q ! length p = i}"
  by (auto simp: below_def page_path_def take_Suc_conv_app_nth)

lemma below_lt_Suc: "length p < 4 \<Longrightarrow> below_lt p (Suc i) = below_lt p i \<union> below (p @ [i])"
  by (auto simp: below_lt_def below_snoc less_Suc_eq)

lemma below_lt_disjoint: "length p < 4 \<Longrightarrow> below (p @ [i]) \<inter> below_lt p i = {}"
  by (auto simp: below_lt_def below_snoc)

lemma below_lt_all: "length p < 4 \<Longrightarrow> below_lt p 512 = below p"
  by (auto simp: below_lt_def below_def page_path_def)

lemma below_root: "below_lt [] 256 = {q. page_path q}"
proof -
  have "hd q = q ! 0" if "length q = 4" for q :: "nat list" using that by (cases q) auto
  then show ?thesis by (auto simp: below_lt_def below_def page_path_def)
qed

lemma below_leaf: "length p = 4 \<Longrightarrow> page_path p \<Longrightarrow> below p = {p}"
  by (auto simp: below_def page_path_def)

lemma absent_unmapped:
  assumes "tab s root p = Some t" and "\<not> present (entry s t i)" and "length p < 3"
  shows "below (p @ [i]) \<inter> mapped s root = {}"
proof -
  have "leaf s root q = 0" if q: "q \<in> below (p @ [i])" for q
  proof -
    have l: "length q = 4" "take (Suc (length p)) q = p @ [i]" using q by (auto simp: below_def page_path_def)
    then have "take (Suc (length p)) (butlast q) = p @ [i]" using assms(3) by (simp add: butlast_conv_take)
    then have "prefix (p @ [i]) (butlast q)" by (metis take_is_prefix)
    moreover have "child s t i = None" using assms(2) by (simp add: child_def)
    ultimately have "tab s root (butlast q) = None" using absent_below [OF assms(1)] by blast
    then show ?thesis by (simp add: leaf_def)
  qed
  then show ?thesis by (auto simp: mapped_def present_def)
qed

text \<open>The situation in which the loops start: \<open>kid\<close> is the fresh root of the child.\<close>

definition fork_ready :: "machine \<Rightarrow> u64 \<Rightarrow> u64 \<Rightarrow> bool" where
  "fork_ready s0 parent kid \<longleftrightarrow> space_ok s0 parent \<and> leaves_ok s0 parent \<and> no_large s0 parent
     \<and> frame_addr kid \<and> is_used (frame_no kid) (fr s0) \<and> frame_no kid \<notin> table_frames s0 parent
     \<and> (\<forall>q \<in> mapped s0 parent. frame_no (leaf s0 parent q AND ADDR_MASK) \<noteq> frame_no kid)"

lemma parent_entry:
  assumes R: "fork_ready s0 parent kid" and I: "fork_inv s0 parent kid S s"
    and t: "user_path p" "tab s0 parent p = Some t" "i < 512"
  shows "rd64 (pm s) (unat t + 8 * i) = entry s0 t i"
proof -
  have ok: "space_ok s0 parent" using R by (simp add: fork_ready_def)
  have "frame_no t \<in> table_frames s0 parent" using t(1,2) unfolding table_frames_def by blast
  then have "frame_no t \<noteq> frame_no kid" using R by (auto simp: fork_ready_def)
  then show ?thesis
    unfolding entry_def using space_tab [OF ok t(1,2)] I t(3)
    by (intro rd_same_frame) (auto simp: fork_inv_def)
qed

definition va_of :: "nat \<Rightarrow> nat \<Rightarrow> nat \<Rightarrow> nat \<Rightarrow> u64" where
  "va_of i4 i3 i2 i1 = push_bit 39 (of_nat i4) OR push_bit 30 (of_nat i3)
     OR push_bit 21 (of_nat i2) OR push_bit 12 (of_nat i1)"

lemma bit_index: "k < 512 \<Longrightarrow> bit (of_nat k :: u64) n \<Longrightarrow> n < 9"
proof -
  assume k: "k < 512" and b: "bit (of_nat k :: u64) n"
  have "bit k n" using b by (simp add: bit_of_nat_iff)
  moreover have "take_bit 9 k = k" using k by (intro take_bit_nat_eq_self) simp
  ultimately show "n < 9" by (metis bit_take_bit_iff)
qed

lemma index_word: "unat ((x :: u64) AND 0x1FF) = k" if "\<And>n. n < 9 \<Longrightarrow> bit x n \<longleftrightarrow> bit (of_nat k :: u64) n" "k < 512"
proof -
  have m: "(0x1FF :: u64) = mask 9" by (simp add: mask_eq_exp_minus_1)
  have "x AND 0x1FF = of_nat k"
    unfolding m using that bit_index by (intro bit_word_eqI) (auto simp: bit_and_iff bit_mask_iff)
  then show ?thesis using that(2) by (simp add: unat_of_nat take_bit_nat_eq_self)
qed

lemma vpath_va_of:
  assumes "i4 < 512" "i3 < 512" "i2 < 512" "i1 < 512"
  shows "vpath (va_of i4 i3 i2 i1) = [i4, i3, i2, i1]"
proof -
  have n: "\<not> bit (of_nat k :: u64) m" if "k < 512" "9 \<le> m" for k m using bit_index [OF that(1)] that(2) by fastforce
  have b: "bit (drop_bit d (va_of i4 i3 i2 i1)) m \<longleftrightarrow> d + m < 64 \<and>
      (39 \<le> d + m \<and> bit (of_nat i4 :: u64) (d + m - 39) \<or> 30 \<le> d + m \<and> bit (of_nat i3 :: u64) (d + m - 30)
      \<or> 21 \<le> d + m \<and> bit (of_nat i2 :: u64) (d + m - 21) \<or> 12 \<le> d + m \<and> bit (of_nat i1 :: u64) (d + m - 12))" for d m
    by (auto simp: va_of_def bit_simps)
  have "unat (drop_bit 39 (va_of i4 i3 i2 i1) AND 0x1FF) = i4"
    using assms n by (intro index_word) (auto simp: b)
  moreover have "unat (drop_bit 30 (va_of i4 i3 i2 i1) AND 0x1FF) = i3"
    using assms n by (intro index_word) (auto simp: b)
  moreover have "unat (drop_bit 21 (va_of i4 i3 i2 i1) AND 0x1FF) = i2"
    using assms n by (intro index_word) (auto simp: b)
  moreover have "unat (drop_bit 12 (va_of i4 i3 i2 i1) AND 0x1FF) = i1"
    using assms n by (intro index_word) (auto simp: b)
  ultimately show ?thesis by (simp add: vpath_def indices_def)
qed

text \<open>One level of the loops: the entries of the table at \<open>p\<close>, each handled by \<open>f\<close> when present.\<close>

lemma fork_level:
  assumes R: "fork_ready s0 parent kid" and I: "fork_inv s0 parent kid S s" and p: "user_path p" "tab s0 parent p = Some t"
    and n: "n \<le> 512" "p = [] \<Longrightarrow> n \<le> 256" and d: "below p \<inter> S = {}"
    and body: "\<And>i s S. i < n \<Longrightarrow> fork_inv s0 parent kid S s \<Longrightarrow> below (p @ [i]) \<inter> S = {} \<Longrightarrow> rd64 (pm s) (unat t + 8 * i) = entry s0 t i \<Longrightarrow>
        \<exists>s'. f i s = Some s' \<and> fork_inv s0 parent kid (S \<union> below (p @ [i])) s'"
  shows "\<exists>s'. fold_opt f [0..<n] s = Some s' \<and> fork_inv s0 parent kid (S \<union> below_lt p n) s'"
proof (rule fold_opt_inv [where I = "\<lambda>i. fork_inv s0 parent kid (S \<union> below_lt p i)"])
  show "fork_inv s0 parent kid (S \<union> below_lt p 0) s" using I by (simp add: below_lt_0)
next
  fix i s assume i: "i < n" and J: "fork_inv s0 parent kid (S \<union> below_lt p i) s"
  have l: "length p < 4" using p(1) by (simp add: user_path_def)
  have "below (p @ [i]) \<inter> (S \<union> below_lt p i) = {}"
    using d below_lt_disjoint [OF l] below_snoc [OF l] by blast
  from body [OF i J this parent_entry [OF R J p]] show "\<exists>s'. f i s = Some s' \<and> fork_inv s0 parent kid (S \<union> below_lt p (Suc i)) s'"
    using i n(1) by (simp add: below_lt_Suc [OF l] Un_assoc)
qed

lemma fork_skip:
  assumes "fork_inv s0 parent kid S s" and "T \<inter> mapped s0 parent = {}"
  shows "fork_inv s0 parent kid (S \<union> T) s"
  using assms fork_inv_cong [of S s0 parent "S \<union> T"] by blast

lemma fork_pt_spec:
  assumes R: "fork_ready s0 parent kid" and I: "fork_inv s0 parent kid S s"
    and p: "user_path [i4, i3, i2]" "tab s0 parent [i4, i3, i2] = Some pt" and d: "below [i4, i3, i2] \<inter> S = {}"
  shows "\<exists>s'. fork_pt kid i4 i3 i2 pt s = Some s' \<and> fork_inv s0 parent kid (S \<union> below [i4, i3, i2]) s'"
proof -
  have "\<exists>s'. fork_pt kid i4 i3 i2 pt s = Some s' \<and> fork_inv s0 parent kid (S \<union> below_lt [i4, i3, i2] 512) s'"
    unfolding fork_pt_def
  proof (rule fork_level [OF R I p])
    fix i1 s S assume i: "i1 < 512" and J: "fork_inv s0 parent kid S s" and D: "below ([i4, i3, i2] @ [i1]) \<inter> S = {}"
      and e: "rd64 (pm s) (unat pt + 8 * i1) = entry s0 pt i1"
    define q where "q = [i4, i3, i2, i1]"
    have pq: "page_path q" using p(1) i by (simp add: q_def page_path_def user_path_def)
    have lq: "leaf s0 parent q = entry s0 pt i1" using p(2) by (simp add: q_def leaf_def)
    have bq: "below ([i4, i3, i2] @ [i1]) = {q}" using below_leaf [of q] pq by (simp add: q_def)
    show "\<exists>s'. (let e1 = rd64 (pm s) (unat pt + 8 * i1) in if \<not> present e1 then Some s
           else fork_leaf kid (push_bit 39 (of_nat i4) OR push_bit 30 (of_nat i3)
                   OR push_bit 21 (of_nat i2) OR push_bit 12 (of_nat i1)) e1 s) = Some s'
        \<and> fork_inv s0 parent kid (S \<union> below ([i4, i3, i2] @ [i1])) s'"
    proof (cases "present (entry s0 pt i1)")
      case False
      then have "{q} \<inter> mapped s0 parent = {}" using lq by (simp add: mapped_def)
      from fork_skip [OF J this] show ?thesis using False e unfolding bq by simp
    next
      case True
      have m: "q \<in> mapped s0 parent" using True pq lq by (simp add: mapped_def)
      have v: "vpath (va_of i4 i3 i2 i1) = q"
        using vpath_va_of p(1) i by (simp add: q_def user_path_def)
      then have u: "user_va (va_of i4 i3 i2 i1)" using pq by (simp add: user_va_def page_path_def)
      obtain s' where s': "fork_leaf kid (va_of i4 i3 i2 i1) (leaf s0 parent q) s = Some s'"
        "fork_inv s0 parent kid (insert q S) s'"
        using fork_leaf_step [OF J, of q "va_of i4 i3 i2 i1"] R m D u v unfolding bq by (auto simp: fork_ready_def)
      have "S \<union> below ([i4, i3, i2] @ [i1]) = insert q S" unfolding bq by simp
      then show ?thesis using s' True unfolding e lq by (simp add: Let_def va_of_def)
    qed
  qed (use d in simp_all)
  then show ?thesis by (simp add: below_lt_all)
qed

lemma fork_pd_spec:
  assumes R: "fork_ready s0 parent kid" and I: "fork_inv s0 parent kid S s"
    and p: "user_path [i4, i3]" "tab s0 parent [i4, i3] = Some pd" and d: "below [i4, i3] \<inter> S = {}"
  shows "\<exists>s'. fork_pd kid i4 i3 pd s = Some s' \<and> fork_inv s0 parent kid (S \<union> below [i4, i3]) s'"
proof -
  have "\<exists>s'. fork_pd kid i4 i3 pd s = Some s' \<and> fork_inv s0 parent kid (S \<union> below_lt [i4, i3] 512) s'"
    unfolding fork_pd_def
  proof (rule fork_level [OF R I p])
    fix i s S assume i: "i < 512" and J: "fork_inv s0 parent kid S s" and D: "below ([i4, i3] @ [i]) \<inter> S = {}"
      and e: "rd64 (pm s) (unat pd + 8 * i) = entry s0 pd i"
    have u: "user_path ([i4, i3] @ [i])" using p(1) i by (simp add: user_path_def)
    have nl: "\<not> large (entry s0 pd i)" using R u p(2) unfolding fork_ready_def no_large_def by fastforce
    show "\<exists>s'. (let e2 = rd64 (pm s) (unat pd + 8 * i) in if \<not> present e2 \<or> large e2 then Some s
           else fork_pt kid i4 i3 i (e2 AND ADDR_MASK) s) = Some s'
        \<and> fork_inv s0 parent kid (S \<union> below ([i4, i3] @ [i])) s'"
    proof (cases "present (entry s0 pd i)")
      case False
      from fork_skip [OF J absent_unmapped [OF p(2) False]] show ?thesis using False e by simp
    next
      case True
      then have "tab s0 parent [i4, i3, i] = Some (entry s0 pd i AND ADDR_MASK)"
        using p(2) tab_snoc [of s0 parent "[i4, i3]" i] by (simp add: child_def)
      from fork_pt_spec [OF R J _ this] show ?thesis using u D True nl e by simp
    qed
  qed (use d in simp_all)
  then show ?thesis by (simp add: below_lt_all)
qed

lemma fork_pdpt_spec:
  assumes R: "fork_ready s0 parent kid" and I: "fork_inv s0 parent kid S s"
    and p: "user_path [i4]" "tab s0 parent [i4] = Some pdpt" and d: "below [i4] \<inter> S = {}"
  shows "\<exists>s'. fork_pdpt kid i4 pdpt s = Some s' \<and> fork_inv s0 parent kid (S \<union> below [i4]) s'"
proof -
  have "\<exists>s'. fork_pdpt kid i4 pdpt s = Some s' \<and> fork_inv s0 parent kid (S \<union> below_lt [i4] 512) s'"
    unfolding fork_pdpt_def
  proof (rule fork_level [OF R I p])
    fix i s S assume i: "i < 512" and J: "fork_inv s0 parent kid S s" and D: "below ([i4] @ [i]) \<inter> S = {}"
      and e: "rd64 (pm s) (unat pdpt + 8 * i) = entry s0 pdpt i"
    have u: "user_path ([i4] @ [i])" using p(1) i by (simp add: user_path_def)
    show "\<exists>s'. (let e3 = rd64 (pm s) (unat pdpt + 8 * i) in if \<not> present e3 then Some s
           else fork_pd kid i4 i (e3 AND ADDR_MASK) s) = Some s'
        \<and> fork_inv s0 parent kid (S \<union> below ([i4] @ [i])) s'"
    proof (cases "present (entry s0 pdpt i)")
      case False
      from fork_skip [OF J absent_unmapped [OF p(2) False]] show ?thesis using False e by simp
    next
      case True
      then have "tab s0 parent [i4, i] = Some (entry s0 pdpt i AND ADDR_MASK)"
        using p(2) tab_snoc [of s0 parent "[i4]" i] by (simp add: child_def)
      from fork_pd_spec [OF R J _ this] show ?thesis using u D True e by simp
    qed
  qed (use d in simp_all)
  then show ?thesis by (simp add: below_lt_all)
qed

lemma fork_root_spec:
  assumes R: "fork_ready s0 parent kid" and I: "fork_inv s0 parent kid {} s"
  shows "\<exists>s'. fold_opt (\<lambda>i4 s. let e4 = rd64 (pm s) (unat parent + 8 * i4)
                 in if \<not> present e4 then Some s else fork_pdpt kid i4 (e4 AND ADDR_MASK) s) [0..<256] s = Some s'
      \<and> fork_inv s0 parent kid {q. page_path q} s'"
proof -
  have p: "user_path []" "tab s0 parent [] = Some parent" by (simp_all add: user_path_def)
  have "\<exists>s'. fold_opt (\<lambda>i4 s. let e4 = rd64 (pm s) (unat parent + 8 * i4)
                 in if \<not> present e4 then Some s else fork_pdpt kid i4 (e4 AND ADDR_MASK) s) [0..<256] s = Some s'
      \<and> fork_inv s0 parent kid ({} \<union> below_lt [] 256) s'"
  proof (rule fork_level [OF R I p])
    fix i s S assume i: "i < 256" and J: "fork_inv s0 parent kid S s" and D: "below ([] @ [i]) \<inter> S = {}"
      and e: "rd64 (pm s) (unat parent + 8 * i) = entry s0 parent i"
    have u: "user_path [i]" using i by (simp add: user_path_def)
    show "\<exists>s'. (let e4 = rd64 (pm s) (unat parent + 8 * i) in if \<not> present e4 then Some s
           else fork_pdpt kid i (e4 AND ADDR_MASK) s) = Some s'
        \<and> fork_inv s0 parent kid (S \<union> below ([] @ [i])) s'"
    proof (cases "present (entry s0 parent i)")
      case False
      from fork_skip [OF J absent_unmapped [OF p(2) False]] show ?thesis using False e by simp
    next
      case True
      then have "tab s0 parent [i] = Some (entry s0 parent i AND ADDR_MASK)" by (simp add: child_def)
      from fork_pdpt_spec [OF R J u this] show ?thesis using D True e by simp
    qed
  qed simp_all
  then show ?thesis by (simp add: below_root)
qed

section \<open>Properties\<close>

text \<open>What a program sees: the byte at a virtual address, when its page is mapped.\<close>

definition vread :: "machine \<Rightarrow> u64 \<Rightarrow> u64 \<Rightarrow> u8 option" where
  "vread s root v =
     (if present (pte s root v) then Some (pm s (unat (pte s root v AND ADDR_MASK) + unat (v AND 0xFFF))) else None)"

lemma low_lt: "unat (v AND 0xFFF :: u64) < 4096"
proof -
  have "v AND 0xFFF \<le> (0xFFF :: u64)" by (rule word_and_le1)
  then show ?thesis by (simp add: word_le_nat_alt)
qed

lemma new_space_total:
  assumes "frames_ok (fr s)" and "1 \<le> card (free_frames (fr s) - {0})"
  shows "\<exists>root s'. new_space s = Some (root, s')"
proof -
  have "card (free_frames (fr s) - {0}) \<noteq> 0" using assms(2) by linarith
  then have "free_frames (fr s) - {0} \<noteq> {}" by (metis card.empty)
  then have "\<not> free_frames (fr s) \<subseteq> {0}" by blast
  then obtain c fr' where "alloc_frame (fr s) = (Some c, fr')"
    by (cases rule: alloc_frame_from_cases [OF assms(1), of 1]) (force simp: alloc_frame_def free_frames_def Suc_le_eq)+
  then show ?thesis by (simp add: new_space_def)
qed

lemma fork_start:
  assumes ok: "space_ok s (current_pml4 s)" and L: "leaves_ok s (current_pml4 s)" and N: "no_large s (current_pml4 s)"
    and f: "4 * card (mapped s (current_pml4 s)) + 1 \<le> card (free_frames (fr s) - {0})"
    and n: "new_space s = Some (kid, s0)"
  shows "fork_ready s0 (current_pml4 s) kid" and "fork_inv s0 (current_pml4 s) kid {} s0"
    and "page_path q \<Longrightarrow> leaf s0 (current_pml4 s) q = leaf s (current_pml4 s) q"
proof -
  define par where "par = current_pml4 s"
  have ur: "user_path []" "tab s par [] = Some par" by (simp_all add: user_path_def)
  have pf: "frame_addr par" "is_used (frame_no par) (fr s)" using space_tab [OF ok [folded par_def] ur] by auto
  have fok: "frames_ok (fr s)" using ok by (simp add: space_ok_def)
  note S = new_space_spec [OF fok pf [unfolded par_def] n, folded par_def]
  have tf: "frame_no kid \<notin> table_frames s par" using table_used [OF ok [folded par_def]] S(2) by auto
  have same: "f \<in> table_frames s par \<Longrightarrow> x div 4096 = f \<Longrightarrow> pm s0 x = pm s x" for f x using S(6) tf by metis
  have T: "user_path p \<Longrightarrow> tab s0 par p = tab s par p" "page_path q \<Longrightarrow> leaf s0 par q = leaf s par q"
    "table_frames s0 par = table_frames s par" for p q
    by (rule tab_unseen [OF ok [folded par_def]]; (rule same)?; assumption)+
  have okp: "space_ok s0 par"
    by (rule space_unseen [OF ok [folded par_def] _ S(3)], rule same)
       (use S(4) table_used [OF ok [folded par_def]] in auto)
  have M: "mapped s0 par = mapped s par" using T(2) by (auto simp: mapped_def)
  have lf: "q \<in> mapped s par \<Longrightarrow> leaf s0 par q = leaf s par q" for q using T(2) by (auto simp: mapped_def)
  have L0: "leaves_ok s0 par" using L T(3) lf S(4) unfolding leaves_ok_def M par_def [symmetric] by simp
  have N0: "no_large s0 par"
    unfolding no_large_def
  proof (intro allI impI)
    fix p i t assume a: "user_path (p @ [i]) \<and> length p = 2 \<and> tab s0 par p = Some t"
    then have u: "user_path p" "i < 512" using user_path_prefix by (auto simp: user_path_def)
    then have t: "tab s par p = Some t" using T(1) a by simp
    then have ft: "frame_no t \<in> table_frames s par" using u unfolding table_frames_def by blast
    have "entry s0 t i = entry s t i"
      unfolding entry_def using space_tab(1) [OF ok [folded par_def] u(1) t] u(2) same [OF ft] by (intro rd_same_frame) auto
    then show "\<not> large (entry s0 t i)" using N a t unfolding no_large_def par_def [symmetric] by metis
  qed
  have kn: "frame_no (leaf s0 par q AND ADDR_MASK) \<noteq> frame_no kid" if "q \<in> mapped s0 par" for q
    using L that lf S(2) unfolding leaves_ok_def M par_def [symmetric] by auto
  have ku: "is_used (frame_no kid) (fr s0)" using S(4) by simp
  show "fork_ready s0 (current_pml4 s) kid"
    unfolding fork_ready_def par_def [symmetric] using okp L0 N0 S(1) ku tf T(3) kn by simp
  have e0: "\<not> present (entry s0 kid i)" if "i < 256" for i using S(8) [of i] that by (simp add: present_def)
  have E: "space_ok s0 kid" "\<And>p. user_path p \<Longrightarrow> p \<noteq> [] \<Longrightarrow> tab s0 kid p = None"
    using empty_space_ok [OF S(3,1) ku] e0 by blast+
  have ek: "table_frames s0 kid = {frame_no kid}"
  proof
    show "table_frames s0 kid \<subseteq> {frame_no kid}"
      unfolding table_frames_def using E(2) by (auto) (metis (full_types) option.distinct(1) option.inject tab.simps(1))
    show "{frame_no kid} \<subseteq> table_frames s0 kid" using ur(1) unfolding table_frames_def by (auto intro!: exI [of _ "[]"])
  qed
  have lk: "leaf s0 kid q = 0" if "page_path q" for q
  proof -
    have "butlast q \<noteq> []" using page_path_cases(2) [OF that] by (metis list.size(3) zero_neq_numeral)
    then show ?thesis using E(2) [OF page_path_cases(1) [OF that]] by (simp add: leaf_def)
  qed
  have "free_frames (fr s0) - {0} = (free_frames (fr s) - {0}) - {frame_no kid}" using S(5) by auto
  moreover have "card ((free_frames (fr s) - {0}) - {frame_no kid}) + 1 \<ge> card (free_frames (fr s) - {0})"
    using card_Suc_Diff1 [of "free_frames (fr s) - {0}" "frame_no kid"]
    by (cases "frame_no kid \<in> free_frames (fr s) - {0}") simp_all
  ultimately have "4 * card (mapped s par) \<le> card (free_frames (fr s0) - {0})" using f by (simp add: par_def)
  then show "fork_inv s0 (current_pml4 s) kid {} s0"
    unfolding fork_inv_def par_def [symmetric] M using E(1) ek lk by simp
  show "page_path q \<Longrightarrow> leaf s0 (current_pml4 s) q = leaf s (current_pml4 s) q" using T(2) by (simp add: par_def)
qed

lemma copied_entry:
  assumes "copied s0 s kid e e'"
  shows "present e'" and "e' AND (WRITABLE OR USER) = e AND (WRITABLE OR USER)" and "frame_addr (e' AND ADDR_MASK)"
    and "\<not> is_used (frame_no (e' AND ADDR_MASK)) (fr s0)"
    and "k < 4096 \<Longrightarrow> pm s (unat (e' AND ADDR_MASK) + k) = pm s0 (unat (e AND ADDR_MASK) + k)"
proof -
  obtain d where d: "frame_addr d" "e' = (d AND ADDR_MASK) OR (e AND (WRITABLE OR USER)) OR PRESENT"
     "\<not> is_used (frame_no d) (fr s0)"
     "\<forall>k < 4096. pm s (unat d + k) = pm s0 (unat (e AND ADDR_MASK) + k)"
    using assms unfolding copied_def by blast
  have m: "e' AND ADDR_MASK = d" unfolding d(2) leaf_entry_parts(2) [OF masked_flags] by (rule masked_frame [OF d(1)])
  show "present e'" unfolding d(2) by (rule leaf_entry_parts(1) [OF masked_flags])
  have "ADDR_MASK AND (WRITABLE OR USER) = 0" "PRESENT AND (WRITABLE OR USER) = 0"
    by (simp_all add: ADDR_MASK_def WRITABLE_def USER_def PRESENT_def)
  then show "e' AND (WRITABLE OR USER) = e AND (WRITABLE OR USER)"
    unfolding d(2) by (simp add: bit.conj_disj_distrib2 and.assoc)
  show "frame_addr (e' AND ADDR_MASK)" "\<not> is_used (frame_no (e' AND ADDR_MASK)) (fr s0)"
    "k < 4096 \<Longrightarrow> pm s (unat (e' AND ADDR_MASK) + k) = pm s0 (unat (e AND ADDR_MASK) + k)"
    unfolding m using d by auto
qed

lemma fork_result:
  assumes R: "fork_ready s0 par kid" and I: "fork_inv s0 par kid {q. page_path q} s'" and u: "user_va v"
  shows "vread s' kid v = vread s0 par v" and "vread s' par v = vread s0 par v"
    and "present (pte s' kid v) \<Longrightarrow> \<not> is_used (frame_no (pte s' kid v AND ADDR_MASK)) (fr s0)
          \<and> pte s' kid v AND (WRITABLE OR USER) = pte s0 par v AND (WRITABLE OR USER)"
    and "user_va w \<Longrightarrow> present (pte s' kid v) \<Longrightarrow> pte s' kid v AND ADDR_MASK = pte s' kid w AND ADDR_MASK \<Longrightarrow>
          present (pte s' kid w) \<Longrightarrow> indices v = indices w"
    and "space_ok s' par"
proof -
  let ?q = "vpath v"
  have pq: "page_path ?q" by (rule vpath_page [OF u])
  have okp: "space_ok s0 par" and L: "leaves_ok s0 par" using R by (auto simp: fork_ready_def)
  have used: "is_used f (fr s0) \<and> f \<noteq> frame_no kid" if "f \<in> table_frames s0 par" for f
    using that table_used [OF okp] R by (auto simp: fork_ready_def)
  have mem: "pm s' x = pm s0 x" if "is_used (x div 4096) (fr s0)" "x div 4096 \<noteq> frame_no kid" for x
    using I that by (simp add: fork_inv_def)
  have same: "f \<in> table_frames s0 par \<Longrightarrow> x div 4096 = f \<Longrightarrow> pm s' x = pm s0 x" for f x using used mem by blast
  have fok: "frames_ok (fr s')" using I by (simp add: fork_inv_def space_ok_def)
  show "space_ok s' par"
  proof (rule space_unseen [OF okp _ fok])
    show "f \<in> table_frames s0 par \<Longrightarrow> x div 4096 = f \<Longrightarrow> pm s' x = pm s0 x" for f x by (rule same)
    show "f \<in> table_frames s0 par \<Longrightarrow> is_used f (fr s')" for f using used [of f] I by (simp add: fork_inv_def)
  qed
  have lp: "pte s' par v = pte s0 par v"
    unfolding pte_def by (rule tab_unseen(2) [OF okp _ pq]) (rule same)
  have C: "copied s0 s' kid (leaf s0 par q) (leaf s' kid q)" if "q \<in> mapped s0 par" for q
    using I that by (simp add: fork_inv_def mapped_def)
  have Z: "leaf s' kid q = 0" if "page_path q" "q \<notin> mapped s0 par" for q using I that by (simp add: fork_inv_def)
  have np: "\<not> present 0" by (simp add: present_def)
  have mq: "vpath x \<in> mapped s0 par" if "user_va x" "present (pte s' kid x)" for x
    using that Z [OF vpath_page [OF that(1)]] np unfolding pte_def by metis
  have pm_eq: "present (pte s0 par v) \<longleftrightarrow> ?q \<in> mapped s0 par" using pq by (simp add: mapped_def pte_def)
  show "vread s' kid v = vread s0 par v"
  proof (cases "?q \<in> mapped s0 par")
    case True
    note c = copied_entry [OF C [OF True]]
    show ?thesis using c(1) c(5) [OF low_lt] True pm_eq by (simp add: vread_def pte_def)
  next
    case False
    then show ?thesis using Z [OF pq] np pm_eq by (simp add: vread_def pte_def)
  qed
  show "vread s' par v = vread s0 par v"
  proof (cases "?q \<in> mapped s0 par")
    case True
    let ?a = "pte s0 par v AND ADDR_MASK"
    have a: "frame_addr ?a" "is_used (frame_no ?a) (fr s0)" "frame_no ?a \<noteq> frame_no kid"
      using L R True by (auto simp: leaves_ok_def fork_ready_def pte_def)
    have "pm s' (unat ?a + unat (v AND 0xFFF)) = pm s0 (unat ?a + unat (v AND 0xFFF))"
      using mem a frame_byte_no [OF a(1) low_lt] by simp
    then show ?thesis by (simp add: vread_def lp)
  next
    case False
    then show ?thesis using pm_eq by (simp add: vread_def lp)
  qed
  show "\<not> is_used (frame_no (pte s' kid v AND ADDR_MASK)) (fr s0)
      \<and> pte s' kid v AND (WRITABLE OR USER) = pte s0 par v AND (WRITABLE OR USER)" if "present (pte s' kid v)"
    using copied_entry [OF C [OF mq [OF u that]]] by (simp add: pte_def)
  show "indices v = indices w" if "user_va w" "present (pte s' kid v)"
      "pte s' kid v AND ADDR_MASK = pte s' kid w AND ADDR_MASK" "present (pte s' kid w)"
  proof -
    have "inj_on (\<lambda>q. leaf s' kid q AND ADDR_MASK) ({q. page_path q} \<inter> mapped s0 par)" using I by (simp add: fork_inv_def)
    then have "vpath v = vpath w"
      using mq [OF u that(2)] mq [OF that(1,4)] that(3) pq vpath_page [OF that(1)] by (auto simp: inj_on_def pte_def)
    then show ?thesis by (cases "indices v"; cases "indices w") (simp add: vpath_def)
  qed
qed

text \<open>
  C20: fork duplicates the address space. With one free frame for the new root and four for each
  mapped page, \<open>fork_space\<close> on the active space succeeds; then parent and child read the same
  byte at every user address (or have no page there), namely the byte the parent had before;
  the child's pages are in frames that were free before and different for different pages, with
  the parent's write and user bits; and the kernel half of the child is the parent's.
\<close>

theorem fork_space_spec:
  assumes "space_ok s (current_pml4 s)" and "leaves_ok s (current_pml4 s)" and "no_large s (current_pml4 s)"
    and "4 * card (mapped s (current_pml4 s)) + 1 \<le> card (free_frames (fr s) - {0})"
  shows "\<exists>kid s'. fork_space (current_pml4 s) s = Some (kid, s')
     \<and> space_ok s' kid \<and> space_ok s' (current_pml4 s) \<and> current_pml4 s' = current_pml4 s
     \<and> (\<forall>v. user_va v \<longrightarrow> vread s' kid v = vread s (current_pml4 s) v
                         \<and> vread s' (current_pml4 s) v = vread s (current_pml4 s) v)
     \<and> (\<forall>v. user_va v \<and> present (pte s' kid v) \<longrightarrow> \<not> is_used (frame_no (pte s' kid v AND ADDR_MASK)) (fr s)
            \<and> pte s' kid v AND (WRITABLE OR USER) = pte s (current_pml4 s) v AND (WRITABLE OR USER))
     \<and> (\<forall>v w. user_va v \<and> user_va w \<and> present (pte s' kid v) \<and> present (pte s' kid w)
            \<and> pte s' kid v AND ADDR_MASK = pte s' kid w AND ADDR_MASK \<longrightarrow> indices v = indices w)
     \<and> (\<forall>j. 256 \<le> j \<and> j < 512 \<longrightarrow> entry s' kid j = entry s (current_pml4 s) j)"
proof -
  define par where "par = current_pml4 s"
  have fok: "frames_ok (fr s)" using assms(1) by (simp add: space_ok_def)
  then obtain kid s0 where n: "new_space s = Some (kid, s0)" using new_space_total assms(4) by fastforce
  note F = fork_start [OF assms n, folded par_def]
  have ur: "user_path []" "tab s par [] = Some par" by (simp_all add: user_path_def)
  have pf: "frame_addr par" "is_used (frame_no par) (fr s)" using space_tab [OF assms(1) [folded par_def] ur] by auto
  note N = new_space_spec [OF fok pf [unfolded par_def] n, folded par_def]
  obtain s' where s': "fork_space par s = Some (kid, s')" "fork_inv s0 par kid {q. page_path q} s'"
    using fork_root_spec [OF F(1,2)] n by (auto simp: fork_space_def)
  note R = fork_result [OF F(1) s'(2)]
  have pte0: "pte s0 par v = pte s par v" if "user_va v" for v using F(3) [OF vpath_page [OF that]] by (simp add: pte_def)
  have "vread s0 par v = vread s par v" if "user_va v" for v
  proof (cases "present (pte s par v)")
    case False
    then show ?thesis using pte0 [OF that] by (simp add: vread_def)
  next
    case True
    let ?a = "pte s par v AND ADDR_MASK"
    have "vpath v \<in> mapped s par" using True vpath_page [OF that] by (simp add: mapped_def pte_def)
    then have a: "frame_addr ?a" "is_used (frame_no ?a) (fr s)"
      using assms(2) by (auto simp: leaves_ok_def par_def pte_def)
    then have "pm s0 (unat ?a + unat (v AND 0xFFF)) = pm s (unat ?a + unat (v AND 0xFFF))"
      using N(2) N(6) frame_byte_no [OF a(1) low_lt] by metis
    then show ?thesis using pte0 [OF that] by (simp add: vread_def)
  qed
  moreover have "current_pml4 s' = par" using s'(2) N(7) by (simp add: fork_inv_def current_pml4_def par_def)
  moreover have "space_ok s' kid" using s'(2) by (simp add: fork_inv_def)
  moreover have "space_ok s' par" using R(5) demo_user(1) by blast
  moreover have "entry s' kid j = entry s par j" if "256 \<le> j \<and> j < 512" for j
    using s'(2) N(8) [of j] that by (simp add: fork_inv_def)
  moreover have "\<not> is_used (frame_no (pte s' kid v AND ADDR_MASK)) (fr s)
      \<and> pte s' kid v AND (WRITABLE OR USER) = pte s par v AND (WRITABLE OR USER)" if "user_va v \<and> present (pte s' kid v)" for v
    using R(3) [of v] that N(4) pte0 by auto
  moreover have "indices v = indices w" if "user_va v \<and> user_va w \<and> present (pte s' kid v) \<and> present (pte s' kid w)
            \<and> pte s' kid v AND ADDR_MASK = pte s' kid w AND ADDR_MASK" for v w
    using R(4) [of v w] that by blast
  ultimately show ?thesis
    unfolding par_def [symmetric] using s'(1) R(1,2) by (intro exI [of _ kid] exI [of _ s'] conjI allI impI) simp_all
qed

text \<open>
  A machine with one mapped page for the example: frames 1 to 4 are the tables of the path
  0, 0, 0 and the page at address 0 is in frame 5; frames 6 to 15 are free.
\<close>

definition demo_tables :: machine where
  "demo_tables = \<lparr>fr = fold free_step [6..<16] FRAMES_init,
     pm = wr64 (wr64 (wr64 (wr64 (\<lambda>_. 0) 0x1000 0x2007) 0x2000 0x3007) 0x3000 0x4007) 0x4000 0x5007,
     cr3 = 0x1000\<rparr>"

lemma demo_frame_addr: "frame_addr 0x1000" "frame_addr 0x2000" "frame_addr 0x3000" "frame_addr 0x4000" "frame_addr 0x5000"
  by (simp_all add: frame_addr_def frame_no_def MAX_FRAMES_def)

lemma demo_tables_entry:
  assumes "frame_addr u" and "j < 512"
  shows "entry demo_tables u j =
    (if j = 0 \<and> u = 0x4000 then 0x5007 else if j = 0 \<and> u = 0x3000 then 0x4007
     else if j = 0 \<and> u = 0x2000 then 0x3007 else if j = 0 \<and> u = 0x1000 then 0x2007 else 0)"
proof -
  define s0 where "s0 = demo_tables\<lparr>pm := (\<lambda>_. 0)\<rparr>"
  define s1 where "s1 = s0\<lparr>pm := wr64 (pm s0) (unat (0x1000 :: u64) + 8 * 0) 0x2007\<rparr>"
  define s2 where "s2 = s1\<lparr>pm := wr64 (pm s1) (unat (0x2000 :: u64) + 8 * 0) 0x3007\<rparr>"
  define s3 where "s3 = s2\<lparr>pm := wr64 (pm s2) (unat (0x3000 :: u64) + 8 * 0) 0x4007\<rparr>"
  define s4 where "s4 = s3\<lparr>pm := wr64 (pm s3) (unat (0x4000 :: u64) + 8 * 0) 0x5007\<rparr>"
  have z: "entry s0 u j = 0" by (simp add: s0_def entry_def rd64_zero)
  have "entry s1 u j = (if u = 0x1000 \<and> j = 0 then 0x2007 else entry s0 u j)"
    unfolding s1_def by (rule entry_wr) (use assms demo_frame_addr in simp_all)
  moreover have "entry s2 u j = (if u = 0x2000 \<and> j = 0 then 0x3007 else entry s1 u j)"
    unfolding s2_def by (rule entry_wr) (use assms demo_frame_addr in simp_all)
  moreover have "entry s3 u j = (if u = 0x3000 \<and> j = 0 then 0x4007 else entry s2 u j)"
    unfolding s3_def by (rule entry_wr) (use assms demo_frame_addr in simp_all)
  moreover have "entry s4 u j = (if u = 0x4000 \<and> j = 0 then 0x5007 else entry s3 u j)"
    unfolding s4_def by (rule entry_wr) (use assms demo_frame_addr in simp_all)
  moreover have "entry demo_tables u j = entry s4 u j"
    by (simp add: entry_def s4_def s3_def s2_def s1_def s0_def demo_tables_def)
  ultimately show ?thesis using z by auto
qed

lemma demo_tables_child:
  assumes "frame_addr u" and "j < 512"
  shows "child demo_tables u j =
    (if j \<noteq> 0 then None else if u = 0x1000 then Some 0x2000 else if u = 0x2000 then Some 0x3000
     else if u = 0x3000 then Some 0x4000 else if u = 0x4000 then Some 0x5000 else None)"
  unfolding child_def demo_tables_entry [OF assms] by (simp add: present_def PRESENT_def ADDR_MASK_def)

lemma demo_tables_tab:
  assumes "user_path p"
  shows "tab demo_tables 0x1000 p =
    (if p = [] then Some 0x1000 else if p = [0] then Some 0x2000 else if p = [0, 0] then Some 0x3000
     else if p = [0, 0, 0] then Some 0x4000 else None)"
proof -
  have l: "length p \<le> 3" and b: "\<forall>i \<in> set p. i < 512" using assms by (auto simp: user_path_def)
  have step: "child demo_tables 0x1000 i = (if i = 0 then Some 0x2000 else None)"
      "child demo_tables 0x2000 i = (if i = 0 then Some 0x3000 else None)"
      "child demo_tables 0x3000 i = (if i = 0 then Some 0x4000 else None)" if "i < 512" for i
    using that by (simp_all add: demo_tables_child demo_frame_addr)
  show ?thesis
  proof (cases p)
    case p1: (Cons a p')
    have a: "a < 512" using b p1 by simp
    show ?thesis
    proof (cases p')
      case Nil
      then show ?thesis using step(1) [OF a] p1 by simp
    next
      case p2: (Cons b' q')
      have b': "b' < 512" using b p1 p2 by simp
      show ?thesis
      proof (cases q')
        case Nil
        then show ?thesis using step(1) [OF a] step(2) [OF b'] p1 p2 by (auto split: if_splits)
      next
        case p3: (Cons c r')
        have c: "c < 512" and r: "r' = []" using b l p1 p2 p3 by simp_all
        show ?thesis using step(1) [OF a] step(2) [OF b'] step(3) [OF c] p1 p2 p3 r by (auto split: if_splits)
      qed
    qed
  qed simp
qed

lemma demo_tables_fr:
  "frames_ok (fr demo_tables)" "is_used g (fr demo_tables) \<longleftrightarrow> is_used g FRAMES_init \<and> \<not> (6 \<le> g \<and> g < 16)"
proof -
  have fr: "fr demo_tables = fold free_step [6..<16] FRAMES_init" by (simp only: demo_tables_def machine.select_convs)
  note F = fold_free_step [OF FRAMES_init_ok, of "[6..<16]", folded fr]
  show "frames_ok (fr demo_tables)" using F by blast
  have "is_used g (fr demo_tables) \<longleftrightarrow> is_used g FRAMES_init \<and> \<not> (g \<in> set [6..<16] \<and> g < MAX_FRAMES)"
    using F by blast
  moreover have "g \<in> set [6..<16] \<and> g < MAX_FRAMES \<longleftrightarrow> 6 \<le> g \<and> g < 16"
    unfolding set_upt atLeastLessThan_iff by (auto simp: MAX_FRAMES_def)
  ultimately show "is_used g (fr demo_tables) \<longleftrightarrow> is_used g FRAMES_init \<and> \<not> (6 \<le> g \<and> g < 16)" by blast
qed

lemma demo_tables_facts:
  shows "space_ok demo_tables 0x1000" and "no_large demo_tables 0x1000" and "mapped demo_tables 0x1000 = {[0, 0, 0, 0]}"
    and "leaves_ok demo_tables 0x1000" and "5 \<le> card (free_frames (fr demo_tables) - {0})"
proof -
  have used: "is_used g (fr demo_tables)" if "g < 6" for g
    using demo_tables_fr(2) that FRAMES_init_used [of g] by (simp add: MAX_FRAMES_def)
  show "space_ok demo_tables 0x1000"
    unfolding space_ok_def
  proof (intro conjI allI impI)
    show "frames_ok (fr demo_tables)" by (rule demo_tables_fr)
    show "frame_addr t" "is_used (frame_no t) (fr demo_tables)" if "user_path p" "tab demo_tables 0x1000 p = Some t" for p t
      using that demo_frame_addr used by (auto simp: demo_tables_tab frame_no_def split: if_splits)
    show "p = q" if "user_path p" "user_path q" "tab demo_tables 0x1000 p = Some t" "tab demo_tables 0x1000 q = Some t" for p q t
      using that by (auto simp: demo_tables_tab split: if_splits)
  qed
  show "no_large demo_tables 0x1000"
    unfolding no_large_def
  proof (intro allI impI)
    fix p i t assume a: "user_path (p @ [i]) \<and> length p = 2 \<and> tab demo_tables 0x1000 p = Some t"
    then have "t = 0x3000" "i < 512" using demo_tables_tab [of p] user_path_prefix [of p "[i]"]
      by (auto simp: user_path_def split: if_splits)
    then show "\<not> large (entry demo_tables t i)" using demo_tables_entry [of t i] demo_frame_addr by (simp add: large_def)
  qed
  have lf: "leaf demo_tables 0x1000 q = (if q = [0, 0, 0, 0] then 0x5007 else 0)" if q: "page_path q" for q
  proof -
    note c = page_path_cases [OF q]
    obtain a b c' d where e: "q = [a, b, c', d]" using q
      by (auto simp: page_path_def length_Suc_conv eval_nat_numeral)
    show ?thesis
      using demo_tables_tab [OF c(1)] demo_tables_entry [OF demo_frame_addr(4) c(3)]
      unfolding leaf_def e by (auto split: if_splits)
  qed
  have z: "page_path [0, 0, 0, 0]" by (simp add: page_path_def)
  have pr: "present 0x5007" "\<not> present 0" by (simp_all add: present_def PRESENT_def)
  show m: "mapped demo_tables 0x1000 = {[0, 0, 0, 0]}"
    unfolding mapped_def using lf z pr by (auto split: if_splits)
  have t: "table_frames demo_tables 0x1000 \<subseteq> {1, 2, 3, 4}"
    unfolding table_frames_def by (auto simp: demo_tables_tab frame_no_def split: if_splits)
  have "(0x5007 AND ADDR_MASK :: u64) = 0x5000" by (simp add: ADDR_MASK_def)
  moreover have "frame_no 0x5000 = 5" by (simp add: frame_no_def)
  ultimately show "leaves_ok demo_tables 0x1000"
    unfolding leaves_ok_def m using lf [OF z] demo_frame_addr(5) used [of 5] t by auto
  have "{6..<11} \<subseteq> free_frames (fr demo_tables) - {0}"
    using demo_tables_fr(2) by (auto simp: free_frames_def MAX_FRAMES_def)
  from card_mono [OF _ this] show "5 \<le> card (free_frames (fr demo_tables) - {0})" by simp
qed

theorem fork_space_spec_witness:
  "\<exists>kid s'. fork_space (current_pml4 demo_tables) demo_tables = Some (kid, s')
     \<and> space_ok s' kid \<and> space_ok s' (current_pml4 demo_tables) \<and> current_pml4 s' = current_pml4 demo_tables
     \<and> (\<forall>v. user_va v \<longrightarrow> vread s' kid v = vread demo_tables (current_pml4 demo_tables) v
                         \<and> vread s' (current_pml4 demo_tables) v = vread demo_tables (current_pml4 demo_tables) v)
     \<and> (\<forall>v. user_va v \<and> present (pte s' kid v) \<longrightarrow>
            \<not> is_used (frame_no (pte s' kid v AND ADDR_MASK)) (fr demo_tables)
            \<and> pte s' kid v AND (WRITABLE OR USER) = pte demo_tables (current_pml4 demo_tables) v AND (WRITABLE OR USER))
     \<and> (\<forall>v w. user_va v \<and> user_va w \<and> present (pte s' kid v) \<and> present (pte s' kid w)
            \<and> pte s' kid v AND ADDR_MASK = pte s' kid w AND ADDR_MASK \<longrightarrow> indices v = indices w)
     \<and> (\<forall>j. 256 \<le> j \<and> j < 512 \<longrightarrow> entry s' kid j = entry demo_tables (current_pml4 demo_tables) j)"
proof -
  have c: "current_pml4 demo_tables = 0x1000" by (simp add: current_pml4_def demo_tables_def ADDR_MASK_def)
  show ?thesis
    by (rule fork_space_spec) (use demo_tables_facts in \<open>simp_all add: c\<close>)
qed

end
