(* ===== verification/CString.thy ===== *)
theory CString
  imports Memory "HOL-Library.Sublist"
begin

text \<open>
  The string functions of the C library, \<open>libc/src/cstring.rs\<close> (and \<open>strlen\<close> of
  \<open>libc/src/lib.rs\<close>), over the memory of the calling process. A scan that runs until a NUL byte
  never returns on an unterminated string: these loops are partial functions, with \<open>None\<close> for not
  returning, and each specification states that the call returns. \<open>c_char\<close> is read as an unsigned
  byte; the source casts to \<open>u8\<close> wherever the sign matters. \<open>i32\<close> values are 32-bit words.
\<close>

type_synonym i32 = "32 word"

section \<open>Operations\<close>

partial_function (option) cstr_len_from :: "mem \<Rightarrow> nat \<Rightarrow> nat \<Rightarrow> nat option" where
  "cstr_len_from mem s n = (if mem s \<noteq> 0 then cstr_len_from mem (s + 1) (n + 1) else Some n)"

definition cstr_len :: "mem \<Rightarrow> nat \<Rightarrow> nat option" where
  "cstr_len mem s = cstr_len_from mem s 0"

partial_function (option) strlen_from :: "mem \<Rightarrow> nat \<Rightarrow> nat \<Rightarrow> nat option" where
  "strlen_from mem s n = (if mem (s + n) \<noteq> 0 then strlen_from mem s (n + 1) else Some n)"

definition strlen :: "mem \<Rightarrow> nat \<Rightarrow> nat option" where
  "strlen mem s = strlen_from mem s 0"

partial_function (option) strcmp_from :: "mem \<Rightarrow> nat \<Rightarrow> nat \<Rightarrow> nat \<Rightarrow> i32 option" where
  "strcmp_from mem a b i =
     (let ca = mem (a + i); cb = mem (b + i)
      in if ca \<noteq> cb then Some (ucast ca - ucast cb)
         else if ca = 0 then Some 0
         else strcmp_from mem a b (i + 1))"

definition strcmp :: "mem \<Rightarrow> nat \<Rightarrow> nat \<Rightarrow> i32 option" where
  "strcmp mem a b = strcmp_from mem a b 0"

function strncmp_from :: "mem \<Rightarrow> nat \<Rightarrow> nat \<Rightarrow> nat \<Rightarrow> nat \<Rightarrow> i32" where
  "strncmp_from mem a b n i =
     (if i < n then
        (let ca = mem (a + i); cb = mem (b + i)
         in if ca \<noteq> cb then ucast ca - ucast cb
            else if ca = 0 then 0
            else strncmp_from mem a b n (i + 1))
      else 0)"
  by pat_completeness auto
termination by (relation "measure (\<lambda>(mem, a, b, n, i). n - i)") auto

definition strncmp :: "mem \<Rightarrow> nat \<Rightarrow> nat \<Rightarrow> nat \<Rightarrow> i32" where
  "strncmp mem a b n = strncmp_from mem a b n 0"

partial_function (option) strcpy_from :: "mem \<Rightarrow> nat \<Rightarrow> nat \<Rightarrow> nat \<Rightarrow> mem option" where
  "strcpy_from mem dst src i =
     (let c = mem (src + i); mem' = mem(dst + i := c)
      in if c = 0 then Some mem' else strcpy_from mem' dst src (i + 1))"

definition strcpy :: "mem \<Rightarrow> nat \<Rightarrow> nat \<Rightarrow> (nat \<times> mem) option" where
  "strcpy mem dst src = do { mem' \<leftarrow> strcpy_from mem dst src 0; Some (dst, mem') }"

function strncpy_copy :: "mem \<Rightarrow> nat \<Rightarrow> nat \<Rightarrow> nat \<Rightarrow> nat \<Rightarrow> nat \<times> mem" where
  "strncpy_copy mem dst src n i =
     (if i < n \<and> mem (src + i) \<noteq> 0 then strncpy_copy (mem(dst + i := mem (src + i))) dst src n (i + 1)
      else (i, mem))"
  by pat_completeness auto
termination by (relation "measure (\<lambda>(mem, dst, src, n, i). n - i)") auto

function strncpy_pad :: "mem \<Rightarrow> nat \<Rightarrow> nat \<Rightarrow> nat \<Rightarrow> mem" where
  "strncpy_pad mem dst n i = (if i < n then strncpy_pad (mem(dst + i := 0)) dst n (i + 1) else mem)"
  by pat_completeness auto
termination by (relation "measure (\<lambda>(mem, dst, n, i). n - i)") auto

definition strncpy :: "mem \<Rightarrow> nat \<Rightarrow> nat \<Rightarrow> nat \<Rightarrow> nat \<times> mem" where
  "strncpy mem dst src n = (let (i, mem') = strncpy_copy mem dst src n 0 in (dst, strncpy_pad mem' dst n i))"

definition strcat :: "mem \<Rightarrow> nat \<Rightarrow> nat \<Rightarrow> (nat \<times> mem) option" where
  "strcat mem dst src = do {
     end_off \<leftarrow> cstr_len mem dst;
     (_, mem') \<leftarrow> strcpy mem (dst + end_off) src;
     Some (dst, mem') }"

partial_function (option) strchr_from :: "mem \<Rightarrow> nat \<Rightarrow> u8 \<Rightarrow> nat \<Rightarrow> nat option" where
  "strchr_from mem s target i =
     (let cur = mem (s + i)
      in if cur = target then Some (s + i)
         else if cur = 0 then Some 0
         else strchr_from mem s target (i + 1))"

definition strchr :: "mem \<Rightarrow> nat \<Rightarrow> i32 \<Rightarrow> nat option" where
  "strchr mem s c = strchr_from mem s (ucast c) 0"

partial_function (option) strrchr_from :: "mem \<Rightarrow> nat \<Rightarrow> u8 \<Rightarrow> nat \<Rightarrow> nat \<Rightarrow> nat option" where
  "strrchr_from mem s target found i =
     (let cur = mem (s + i); found' = (if cur = target then s + i else found)
      in if cur = 0 then Some found' else strrchr_from mem s target found' (i + 1))"

definition strrchr :: "mem \<Rightarrow> nat \<Rightarrow> i32 \<Rightarrow> nat option" where
  "strrchr mem s c = strrchr_from mem s (ucast c) 0 0"

function strstr_match :: "mem \<Rightarrow> nat \<Rightarrow> nat \<Rightarrow> nat \<Rightarrow> nat \<Rightarrow> nat" where
  "strstr_match mem hay needle nlen j =
     (if j < nlen \<and> mem (hay + j) = mem (needle + j) then strstr_match mem hay needle nlen (j + 1) else j)"
  by pat_completeness auto
termination by (relation "measure (\<lambda>(mem, hay, needle, nlen, j). nlen - j)") auto

function strstr_from :: "mem \<Rightarrow> nat \<Rightarrow> nat \<Rightarrow> nat \<Rightarrow> nat \<Rightarrow> nat \<Rightarrow> nat" where
  "strstr_from mem hay needle hlen nlen i =
     (if i + nlen \<le> hlen then
        (if strstr_match mem (hay + i) needle nlen 0 = nlen then hay + i
         else strstr_from mem hay needle hlen nlen (i + 1))
      else 0)"
  by pat_completeness auto
termination by (relation "measure (\<lambda>(mem, hay, needle, hlen, nlen, i). Suc hlen - i)") auto

definition strstr :: "mem \<Rightarrow> nat \<Rightarrow> nat \<Rightarrow> nat option" where
  "strstr mem hay needle = do {
     nlen \<leftarrow> cstr_len mem needle;
     if nlen = 0 then Some hay
     else do {
       hlen \<leftarrow> cstr_len mem hay;
       if nlen > hlen then Some 0 else Some (strstr_from mem hay needle hlen nlen 0) } }"

declare strncmp_from.simps [simp del] strncpy_copy.simps [simp del] strncpy_pad.simps [simp del]
  strstr_match.simps [simp del] strstr_from.simps [simp del]

section \<open>Length\<close>

lemma cstr_len_from_spec: "cstr mem s xs \<Longrightarrow> cstr_len_from mem s n = Some (n + length xs)"
  by (induction xs arbitrary: s n; subst cstr_len_from.simps) simp_all

lemma cstr_len_spec: "cstr mem s xs \<Longrightarrow> cstr_len mem s = Some (length xs)"
  by (simp add: cstr_len_def cstr_len_from_spec)

lemma strlen_from_spec: "cstr mem (s + n) xs \<Longrightarrow> strlen_from mem s n = Some (n + length xs)"
  by (induction xs arbitrary: n; subst strlen_from.simps) simp_all

lemma strlen_spec: "cstr mem s xs \<Longrightarrow> strlen mem s = Some (length xs)"
  by (simp add: strlen_def strlen_from_spec)

section \<open>Comparison\<close>

text \<open>
  The order the C standard asks for: byte strings compared lexicographically as unsigned bytes, a
  proper prefix first. \<open>str_diff\<close> is the value the loops return.
\<close>

fun str_diff :: "bytes \<Rightarrow> bytes \<Rightarrow> i32" where
  "str_diff [] [] = 0"
| "str_diff (x # xs) [] = ucast x"
| "str_diff [] (y # ys) = - ucast y"
| "str_diff (x # xs) (y # ys) = (if x = y then str_diff xs ys else ucast x - ucast y)"

definition byte_less :: "(u8 \<times> u8) set" where
  "byte_less = {(a, b). a < b}"

lemma sint_byte_diff: "sint (ucast (a :: u8) - ucast (b :: u8) :: i32) = uint a - uint b"
proof -
  have b: "0 \<le> uint x \<and> uint x < 256" for x :: u8 using uint_bounded [of x] by simp
  have t: "signed_take_bit 31 k = k" if "-256 < k" "k < 256" for k :: int
    by (rule signed_take_bit_int_eq_self) (use that in simp_all)
  have "sint (ucast x :: i32) = uint x" for x :: u8
  proof -
    have "-256 < uint x" using b [of x] by linarith
    then have "signed_take_bit 31 (uint x) = uint x" by (rule t) (use b [of x] in simp)
    then show ?thesis using b [of x] by (simp add: sint_uint unsigned_ucast_eq take_bit_int_eq_self)
  qed
  moreover have "signed_take_bit 31 (uint a - uint b) = uint a - uint b"
    by (rule t) (use b [of a] b [of b] in linarith)+
  ultimately show ?thesis by (simp add: sint_word_diff)
qed

lemma uint_byte_pos: "(x :: u8) \<noteq> 0 \<Longrightarrow> 0 < uint x"
  by (metis uint_0_iff uint_ge_0 order_le_less)

lemma str_diff_sign:
  "0 \<notin> set xs \<Longrightarrow> 0 \<notin> set ys \<Longrightarrow>
     (str_diff xs ys = 0 \<longleftrightarrow> xs = ys) \<and> (sint (str_diff xs ys) < 0 \<longleftrightarrow> (xs, ys) \<in> lexord byte_less)"
proof (induction xs ys rule: str_diff.induct)
  case (2 x xs)
  have "x \<noteq> 0" using "2.prems" by auto
  then have "0 < sint (ucast x - ucast (0 :: u8) :: i32)" unfolding sint_byte_diff by (simp add: uint_byte_pos)
  then show ?case by auto
next
  case (3 y ys)
  have "y \<noteq> 0" using "3.prems" by auto
  then have "sint (ucast (0 :: u8) - ucast y :: i32) < 0" unfolding sint_byte_diff by (simp add: uint_byte_pos)
  then show ?case by auto
next
  case (4 x xs y ys)
  show ?case
  proof (cases "x = y")
    case True
    then show ?thesis using 4 by (simp add: byte_less_def)
  next
    case False
    then have "sint (ucast x - ucast y :: i32) \<noteq> 0" unfolding sint_byte_diff by (simp add: word_uint_eq_iff)
    then have "str_diff (x # xs) (y # ys) \<noteq> 0" using False by auto
    moreover have "sint (str_diff (x # xs) (y # ys)) < 0 \<longleftrightarrow> x < y"
      using False by (simp add: sint_byte_diff word_less_def)
    ultimately show ?thesis using False by (simp add: byte_less_def)
  qed
qed simp

lemma strcmp_from_diff:
  "cstr mem (a + i) xs \<Longrightarrow> cstr mem (b + i) ys \<Longrightarrow> strcmp_from mem a b i = Some (str_diff xs ys)"
  by (induction xs ys arbitrary: i rule: str_diff.induct; subst strcmp_from.simps)
    (auto simp: Let_def)

lemma strncmp_from_diff:
  "cstr mem (a + i) xs \<Longrightarrow> cstr mem (b + i) ys \<Longrightarrow>
     strncmp_from mem a b n i = str_diff (take (n - i) xs) (take (n - i) ys)"
proof (induction xs ys arbitrary: i rule: str_diff.induct)
  case (2 x xs)
  then show ?case by (subst strncmp_from.simps) (cases "n - i"; auto simp: Let_def)
next
  case (3 y ys)
  then show ?case by (subst strncmp_from.simps) (cases "n - i"; auto simp: Let_def)
next
  case (4 x xs y ys)
  show ?case
  proof (cases "i < n")
    case True
    then obtain k where "n - i = Suc k" "n - (i + 1) = k" by (metis Suc_diff_Suc Suc_eq_plus1)
    with 4 True show ?thesis by (subst strncmp_from.simps) (auto simp: Let_def)
  qed (simp add: strncmp_from.simps [of mem a b n i])
qed (subst strncmp_from.simps; simp)+

text \<open>
  \<open>strcmp\<close> returns on any two terminated strings: 0 exactly for equal strings, and a negative
  value exactly when the first string is before the second in the lexicographic order of unsigned
  bytes; \<open>strncmp\<close> decides the same for the prefixes of at most \<open>n\<close> bytes.
\<close>

theorem strcmp_spec:
  assumes "cstr mem a xs" and "cstr mem b ys"
  shows "(\<exists>r. strcmp mem a b = Some r \<and> (r = 0 \<longleftrightarrow> xs = ys) \<and> (sint r < 0 \<longleftrightarrow> (xs, ys) \<in> lexord byte_less))
     \<and> (strncmp mem a b n = 0 \<longleftrightarrow> take n xs = take n ys)
     \<and> (sint (strncmp mem a b n) < 0 \<longleftrightarrow> (take n xs, take n ys) \<in> lexord byte_less)"
proof -
  have nz: "0 \<notin> set xs" "0 \<notin> set ys" using assms by (auto simp: cstr_iff)
  then have tz: "0 \<notin> set (take n xs)" "0 \<notin> set (take n ys)" by (auto dest: in_set_takeD)
  have "strcmp mem a b = Some (str_diff xs ys)"
    using assms strcmp_from_diff [of mem a 0 xs b ys] by (simp add: strcmp_def)
  moreover have "strncmp mem a b n = str_diff (take n xs) (take n ys)"
    using assms strncmp_from_diff [of mem a 0 xs b ys n] by (simp add: strncmp_def)
  ultimately show ?thesis using str_diff_sign [OF nz] str_diff_sign [OF tz] by simp
qed

text \<open>Two strings in memory for the examples: \<open>abc\<close> at 16 and \<open>b\<close> at 32.\<close>

definition two_strings :: mem where
  "two_strings = mstore (mstore (\<lambda>_. 1) 16 [97, 98, 99, 0]) 32 [98, 0]"

lemma two_strings_cstr: "cstr two_strings 16 [97, 98, 99]" "cstr two_strings 32 [98]"
  by (simp_all add: two_strings_def mstore_def)

theorem strcmp_spec_witness:
  "(\<exists>r. strcmp two_strings 16 32 = Some r \<and> (r = 0 \<longleftrightarrow> [97, 98, 99 :: u8] = [98]) \<and> (sint r < 0 \<longleftrightarrow> ([97, 98, 99], [98]) \<in> lexord byte_less))
   \<and> (strncmp two_strings 16 32 1 = 0 \<longleftrightarrow> take 1 [97, 98, 99 :: u8] = take 1 [98])
   \<and> (sint (strncmp two_strings 16 32 1) < 0 \<longleftrightarrow> (take 1 [97, 98, 99], take 1 [98]) \<in> lexord byte_less)"
  by (rule strcmp_spec [OF two_strings_cstr])

section \<open>Copying\<close>

lemma strcpy_from_spec:
  assumes "cstr mem (src + i) xs" and "dst \<le> src \<or> src + length xs < dst"
  shows "strcpy_from mem dst src i = Some (mstore mem (dst + i) (xs @ [0]))"
  using assms
proof (induction xs arbitrary: mem i)
  case Nil
  have "mem(dst + i := 0) = mstore mem (dst + i) [0]" using mstore_Cons [of mem "dst + i" 0 "[]"] by simp
  then show ?case using Nil by (subst strcpy_from.simps) simp
next
  case (Cons x xs)
  let ?m = "mem(dst + i := x)"
  have "cstr ?m (src + Suc i) xs"
    by (rule cstr_cong [of mem]) (use Cons.prems in auto)
  then have c: "cstr ?m (src + (i + 1)) xs" by simp
  have "strcpy_from ?m dst src (i + 1) = Some (mstore ?m (dst + (i + 1)) (xs @ [0]))"
    by (rule Cons.IH [OF c]) (use Cons.prems(2) in auto)
  then show ?case using Cons.prems(1) mstore_Cons [of mem "dst + i" x "xs @ [0]"]
    by (subst strcpy_from.simps) simp
qed

lemma strcpy_spec:
  assumes "cstr mem src xs" and "dst \<le> src \<or> src + length xs < dst"
  shows "strcpy mem dst src = Some (dst, mstore mem dst (xs @ [0]))"
  using strcpy_from_spec [of mem src 0 xs dst] assms by (simp add: strcpy_def)

text \<open>
  \<open>strcat\<close> returns its destination, which then holds the concatenation of both strings, and
  touches no byte outside the run of the appended string and its NUL, provided the source does not
  run into the end of the destination.
\<close>

theorem strcat_spec:
  assumes d: "cstr mem dst xs" and s: "cstr mem src ys"
    and sep: "dst + length xs \<le> src \<or> src + length ys < dst + length xs"
  shows "\<exists>mem'. strcat mem dst src = Some (dst, mem') \<and> cstr mem' dst (xs @ ys)
     \<and> (\<forall>x. x < dst + length xs \<or> dst + length xs + length ys < x \<longrightarrow> mem' x = mem x)"
proof -
  let ?m = "mstore mem (dst + length xs) (ys @ [0])"
  have r: "strcat mem dst src = Some (dst, ?m)"
    using strcpy_spec [OF s sep] by (simp add: strcat_def cstr_len_spec [OF d])
  have "mbytes ?m dst (length xs) = xs"
    using d mbytes_mstore_other [of "dst + length xs" "ys @ [0]" dst "length xs" mem] by (simp add: cstr_iff)
  moreover have "mbytes ?m (dst + length xs) (length ys) = ys"
    by (rule nth_equalityI) (auto simp: mstore_def nth_append)
  ultimately have "cstr ?m dst (xs @ ys)"
    using d s by (simp add: cstr_iff mbytes_add mstore_def nth_append)
  moreover have "?m x = mem x" if "x < dst + length xs \<or> dst + length xs + length ys < x" for x
    using that by (intro mstore_other) auto
  ultimately show ?thesis using r by blast
qed

theorem strcat_spec_witness:
  "\<exists>mem'. strcat two_strings 16 32 = Some (16, mem') \<and> cstr mem' 16 ([97, 98, 99] @ [98])
     \<and> (\<forall>x. x < 16 + length [97, 98, 99 :: u8] \<or> 16 + length [97, 98, 99 :: u8] + length [98 :: u8] < x \<longrightarrow> mem' x = two_strings x)"
  by (rule strcat_spec [OF two_strings_cstr]) simp

lemma strncpy_copy_spec:
  assumes "cstr mem (src + i) xs" and "dst \<le> src \<or> src + length xs < dst" and "i \<le> n"
  shows "strncpy_copy mem dst src n i = (i + length (take (n - i) xs), mstore mem (dst + i) (take (n - i) xs))"
  using assms
proof (induction xs arbitrary: mem i)
  case Nil
  then show ?case by (subst strncpy_copy.simps) simp
next
  case (Cons x xs)
  show ?case
  proof (cases "i < n")
    case True
    let ?m = "mem(dst + i := x)"
    have "cstr ?m (src + Suc i) xs" by (rule cstr_cong [of mem]) (use Cons.prems in auto)
    then have c: "cstr ?m (src + (i + 1)) xs" by simp
    have "strncpy_copy ?m dst src n (i + 1) =
        (i + 1 + length (take (n - (i + 1)) xs), mstore ?m (dst + (i + 1)) (take (n - (i + 1)) xs))"
      by (rule Cons.IH [OF c]) (use Cons.prems True in auto)
    moreover obtain k where "n - i = Suc k" "n - (i + 1) = k" using True by (metis Suc_diff_Suc Suc_eq_plus1)
    ultimately show ?thesis
      using Cons.prems(1) True mstore_Cons [of mem "dst + i" x "take k xs"] by (subst strncpy_copy.simps) simp
  next
    case False
    then show ?thesis using Cons.prems(3) by (subst strncpy_copy.simps) simp
  qed
qed

lemma strncpy_pad_spec: "i \<le> n \<Longrightarrow> strncpy_pad mem dst n i = mstore mem (dst + i) (replicate (n - i) 0)"
proof (induction mem dst n i rule: strncpy_pad.induct)
  case (1 mem dst n i)
  show ?case
  proof (cases "i < n")
    case True
    then obtain k where "n - i = Suc k" "n - (i + 1) = k" by (metis Suc_diff_Suc Suc_eq_plus1)
    moreover have "strncpy_pad (mem(dst + i := 0)) dst n (i + 1) = mstore (mem(dst + i := 0)) (dst + (i + 1)) (replicate (n - (i + 1)) 0)"
      by (rule "1.IH") (use True in simp_all)
    ultimately show ?thesis using True mstore_Cons [of mem "dst + i" 0 "replicate k 0"]
      by (subst strncpy_pad.simps) simp
  next
    case False
    then show ?thesis using "1.prems" by (subst strncpy_pad.simps) simp
  qed
qed

lemma mstore_append: "mstore (mstore mem a xs) (a + length xs) ys = mstore mem a (xs @ ys)"
  by (rule ext) (auto simp: mstore_def nth_append)

lemma strncpy_spec:
  assumes "cstr mem src xs" and "dst \<le> src \<or> src + length xs < dst"
  shows "strncpy mem dst src n = (dst, mstore mem dst (take n (xs @ replicate n 0)))"
proof -
  have "strncpy_copy mem dst src n 0 = (length (take n xs), mstore mem dst (take n xs))"
    using strncpy_copy_spec [of mem src 0 xs dst n] assms by simp
  moreover have "take n xs @ replicate (n - length (take n xs)) 0 = take n (xs @ replicate n 0)"
    by (auto simp: min_def)
  ultimately show ?thesis
    using mstore_append [of mem dst "take n xs" "replicate (n - length (take n xs)) 0"]
    by (simp add: strncpy_def strncpy_pad_spec)
qed

section \<open>Searching\<close>

text \<open>\<open>strchr\<close> finds the first occurrence, and the terminating NUL counts as part of the string.\<close>

lemma strchr_from_spec:
  "cstr mem (s + i) xs \<Longrightarrow>
     strchr_from mem s c i = Some (if c \<in> set (xs @ [0]) then s + i + length (takeWhile (\<lambda>x. x \<noteq> c) xs) else 0)"
  by (induction xs arbitrary: i; subst strchr_from.simps) (auto simp: Let_def)

lemma strchr_spec:
  "cstr mem s xs \<Longrightarrow>
     strchr mem s c = Some (if ucast c \<in> set (xs @ [0]) then s + length (takeWhile (\<lambda>x. x \<noteq> ucast c) xs) else 0)"
  by (simp add: strchr_def strchr_from_spec)

text \<open>\<open>strrchr\<close> finds the last occurrence: the bytes after the result are not \<open>c\<close>.\<close>

lemma strrchr_from_spec:
  "cstr mem (s + i) xs \<Longrightarrow> \<exists>r. strrchr_from mem s c found i = Some r \<and>
     (if c \<in> set (xs @ [0]) then \<exists>k \<le> length xs. r = s + i + k \<and> (xs @ [0]) ! k = c \<and> c \<notin> set (drop (Suc k) (xs @ [0]))
      else r = found)"
proof (induction xs arbitrary: i found)
  case Nil
  then show ?case by (subst strrchr_from.simps) auto
next
  case (Cons x xs)
  let ?f = "if x = c then s + i else found"
  have c: "cstr mem (s + (i + 1)) xs" using Cons.prems by simp
  obtain r where r: "strrchr_from mem s c ?f (i + 1) = Some r"
    and h: "if c \<in> set (xs @ [0]) then \<exists>k \<le> length xs. r = s + (i + 1) + k \<and> (xs @ [0]) ! k = c \<and> c \<notin> set (drop (Suc k) (xs @ [0]))
      else r = ?f"
    using Cons.IH [OF c] by blast
  have e: "strrchr_from mem s c found i = Some r" using r Cons.prems by (subst strrchr_from.simps) (simp add: Let_def)
  show ?case
  proof (cases "c \<in> set (xs @ [0])")
    case True
    then obtain k where "k \<le> length xs" "r = s + (i + 1) + k" "(xs @ [0]) ! k = c" "c \<notin> set (drop (Suc k) (xs @ [0]))"
      using h by auto
    then show ?thesis using e True by (auto intro!: exI [of _ "Suc k"])
  next
    case False
    then show ?thesis using e h by (auto intro!: exI [of _ 0])
  qed
qed

lemma strrchr_spec:
  assumes "cstr mem s xs"
  shows "\<exists>r. strrchr mem s c = Some r \<and>
     (if ucast c \<in> set (xs @ [0]) then \<exists>k \<le> length xs. r = s + k \<and> (xs @ [0]) ! k = ucast c \<and> ucast c \<notin> set (drop (Suc k) (xs @ [0]))
      else r = 0)"
  using strrchr_from_spec [of mem s 0 xs "ucast c" 0] assms unfolding strrchr_def add_0_right by blast

lemma strstr_match_iff:
  "j \<le> nlen \<Longrightarrow> strstr_match mem hay needle nlen j = nlen \<longleftrightarrow> (\<forall>k. j \<le> k \<and> k < nlen \<longrightarrow> mem (hay + k) = mem (needle + k))"
proof (induction mem hay needle nlen j rule: strstr_match.induct)
  case (1 mem hay needle nlen j)
  show ?case
  proof (cases "j < nlen \<and> mem (hay + j) = mem (needle + j)")
    case True
    then have "strstr_match mem hay needle nlen j = strstr_match mem hay needle nlen (j + 1)"
      by (subst strstr_match.simps) simp
    moreover have "j \<le> k \<longleftrightarrow> k = j \<or> j + 1 \<le> k" for k by auto
    moreover have "j + 1 \<le> nlen" using True by simp
    ultimately show ?thesis using "1.IH" [OF True] True by (metis (no_types))
  next
    case False
    then have "strstr_match mem hay needle nlen j = j" by (subst strstr_match.simps) auto
    then show ?thesis using False "1.prems" by auto
  qed
qed

lemma strstr_from_spec:
  "(\<exists>k \<ge> i. k + nlen \<le> hlen \<and> strstr_match mem (hay + k) needle nlen 0 = nlen
      \<and> strstr_from mem hay needle hlen nlen i = hay + k
      \<and> (\<forall>j. i \<le> j \<and> j < k \<longrightarrow> strstr_match mem (hay + j) needle nlen 0 \<noteq> nlen))
   \<or> (\<forall>k \<ge> i. k + nlen \<le> hlen \<longrightarrow> strstr_match mem (hay + k) needle nlen 0 \<noteq> nlen)
      \<and> strstr_from mem hay needle hlen nlen i = 0"
proof (induction mem hay needle hlen nlen i rule: strstr_from.induct)
  case (1 mem hay needle hlen nlen i)
  consider "\<not> i + nlen \<le> hlen" | "i + nlen \<le> hlen" "strstr_match mem (hay + i) needle nlen 0 = nlen"
    | "i + nlen \<le> hlen" "strstr_match mem (hay + i) needle nlen 0 \<noteq> nlen" by blast
  then show ?case
  proof cases
    case 1
    then have "strstr_from mem hay needle hlen nlen i = 0" by (subst strstr_from.simps) simp
    with 1 show ?thesis by auto
  next
    case 2
    then have "strstr_from mem hay needle hlen nlen i = hay + i" by (subst strstr_from.simps) simp
    with 2 show ?thesis by (intro disjI1 exI [of _ i]) simp
  next
    case 3
    then have "strstr_from mem hay needle hlen nlen i = strstr_from mem hay needle hlen nlen (i + 1)"
      by (subst strstr_from.simps) simp
    moreover have "i \<le> j \<longleftrightarrow> j = i \<or> i + 1 \<le> j" for j by auto
    ultimately show ?thesis using "1.IH" [OF 3] 3 by (elim disjE exE conjE) (metis (no_types))+
  qed
qed

lemma match_prefix:
  assumes "cstr mem hay xs" and "cstr mem needle ys" and "j + length ys \<le> length xs"
  shows "strstr_match mem (hay + j) needle (length ys) 0 = length ys \<longleftrightarrow> prefix ys (drop j xs)"
proof -
  have h: "mem (hay + j + k) = xs ! (j + k)" and n: "mem (needle + k) = ys ! k" if "k < length ys" for k
    using cstr_nth [OF assms(1), of "j + k"] cstr_nth [OF assms(2), of k] that assms(3) by (simp_all add: add.assoc)
  have "prefix ys (drop j xs) \<longleftrightarrow> take (length ys) (drop j xs) = ys"
    by (metis append_eq_conv_conj append_take_drop_id prefix_def)
  also have "\<dots> \<longleftrightarrow> (\<forall>k < length ys. xs ! (j + k) = ys ! k)"
    using assms(3) by (auto simp: list_eq_iff_nth_eq)
  also have "\<dots> \<longleftrightarrow> strstr_match mem (hay + j) needle (length ys) 0 = length ys"
    using h n by (auto simp: strstr_match_iff)
  finally show ?thesis by blast
qed

text \<open>
  \<open>strstr\<close> returns on any two terminated strings: the address of the first occurrence of the
  needle when it occurs in the haystack (for the empty needle the haystack itself), and NULL
  otherwise.
\<close>

theorem strstr_spec:
  assumes h: "cstr mem hay xs" and n: "cstr mem needle ys"
  shows "\<exists>r. strstr mem hay needle = Some r \<and>
     (if sublist ys xs then \<exists>k. r = hay + k \<and> prefix ys (drop k xs) \<and> (\<forall>j < k. \<not> prefix ys (drop j xs)) else r = 0)"
proof -
  have sub: "sublist ys xs \<longleftrightarrow> (\<exists>k. prefix ys (drop k xs))"
    by (metis append_eq_conv_conj append_take_drop_id prefix_def sublist_def)
  have fit: "k + length ys \<le> length xs" if "prefix ys (drop k xs)" "ys \<noteq> []" for k
    using prefix_length_le [OF that(1)] that(2) by (cases "k \<le> length xs") auto
  let ?r = "strstr_from mem hay needle (length xs) (length ys) 0"
  consider (empty) "ys = []" | (long) "ys \<noteq> []" "length xs < length ys" | (scan) "ys \<noteq> []" "length ys \<le> length xs"
    by linarith
  then show ?thesis
  proof cases
    case empty
    then show ?thesis by (simp add: strstr_def cstr_len_spec [OF n])
  next
    case long
    then have "\<not> sublist ys xs" using sublist_length_le [of ys xs] by auto
    then show ?thesis using long by (simp add: strstr_def cstr_len_spec [OF n] cstr_len_spec [OF h])
  next
    case scan
    have r: "strstr mem hay needle = Some ?r"
      using scan by (simp add: strstr_def cstr_len_spec [OF n] cstr_len_spec [OF h])
    from strstr_from_spec [of 0 "length ys" "length xs" mem hay needle] show ?thesis
    proof (elim disjE exE conjE)
      fix k assume k: "k + length ys \<le> length xs" "strstr_match mem (hay + k) needle (length ys) 0 = length ys" "?r = hay + k"
        and first: "\<forall>j. 0 \<le> j \<and> j < k \<longrightarrow> strstr_match mem (hay + j) needle (length ys) 0 \<noteq> length ys"
      have "prefix ys (drop k xs)" using match_prefix [OF h n k(1)] k(2) by blast
      moreover have "\<not> prefix ys (drop j xs)" if "j < k" for j
        using match_prefix [OF h n, of j] first that k(1) by simp
      ultimately show ?thesis using r k(3) sub by auto
    next
      assume none: "\<forall>k \<ge> 0. k + length ys \<le> length xs \<longrightarrow> strstr_match mem (hay + k) needle (length ys) 0 \<noteq> length ys"
        and z: "?r = 0"
      have "\<not> prefix ys (drop k xs)" for k
        using none fit [of k] match_prefix [OF h n, of k] scan(1) by blast
      then show ?thesis using r z sub by auto
    qed
  qed
qed

theorem strstr_spec_witness:
  "\<exists>r. strstr two_strings 16 32 = Some r \<and>
     (if sublist [98] [97, 98, 99 :: u8] then \<exists>k. r = 16 + k \<and> prefix [98] (drop k [97, 98, 99 :: u8]) \<and> (\<forall>j < k. \<not> prefix [98] (drop j [97, 98, 99 :: u8])) else r = 0)"
  by (rule strstr_spec [OF two_strings_cstr])

end
