(* ===== verification/Qsort.thy ===== *)
theory Qsort
  imports CString "HOL-Library.Multiset"
begin

text \<open>
  \<open>qsort\<close> of \<open>libc/src/cstdlib.rs\<close>: Shellsort with fixed gaps over an array of fixed-size elements
  in memory, swapping elements byte by byte. The comparison function is the caller's: an argument
  of the model that reads memory at two addresses. The inner loop moves down by \<open>gap\<close> and is a
  partial function; that it returns is part of the specification.
\<close>

type_synonym cmp_fn = "mem \<Rightarrow> nat \<Rightarrow> nat \<Rightarrow> i32"

section \<open>Operations\<close>

definition qs_elem :: "nat \<Rightarrow> nat \<Rightarrow> nat \<Rightarrow> nat" where
  "qs_elem base esize i = base + i * esize"

definition swap_byte :: "nat \<Rightarrow> nat \<Rightarrow> nat \<Rightarrow> mem \<Rightarrow> mem" where
  "swap_byte a b k mem = mem(a + k := mem (b + k), b + k := mem (a + k))"

definition qs_swap :: "nat \<Rightarrow> nat \<Rightarrow> nat \<Rightarrow> nat \<Rightarrow> mem \<Rightarrow> mem" where
  "qs_swap base esize i j mem =
     (let a = qs_elem base esize i; b = qs_elem base esize j in fold (swap_byte a b) [0..<esize] mem)"

definition GAPS :: "nat list" where
  "GAPS = [701, 301, 132, 57, 23, 10, 4, 1]"

partial_function (option) qs_sift :: "nat \<Rightarrow> nat \<Rightarrow> cmp_fn \<Rightarrow> nat \<Rightarrow> nat \<Rightarrow> mem \<Rightarrow> mem option" where
  "qs_sift base esize cmp gap j mem =
     (if j \<ge> gap \<and> 0 < sint (cmp mem (qs_elem base esize (j - gap)) (qs_elem base esize j))
      then qs_sift base esize cmp gap (j - gap) (qs_swap base esize (j - gap) j mem)
      else Some mem)"

partial_function (option) qs_pass :: "nat \<Rightarrow> nat \<Rightarrow> nat \<Rightarrow> cmp_fn \<Rightarrow> nat \<Rightarrow> nat \<Rightarrow> mem \<Rightarrow> mem option" where
  "qs_pass base n esize cmp gap i mem =
     (if i < n then do { mem' \<leftarrow> qs_sift base esize cmp gap i mem; qs_pass base n esize cmp gap (i + 1) mem' }
      else Some mem)"

fun qs_gaps :: "nat \<Rightarrow> nat \<Rightarrow> nat \<Rightarrow> cmp_fn \<Rightarrow> nat list \<Rightarrow> mem \<Rightarrow> mem option" where
  "qs_gaps base n esize cmp [] mem = Some mem"
| "qs_gaps base n esize cmp (gap # gaps) mem =
     (if gap \<ge> n then qs_gaps base n esize cmp gaps mem
      else do { mem' \<leftarrow> qs_pass base n esize cmp gap gap mem; qs_gaps base n esize cmp gaps mem' })"

definition qsort :: "mem \<Rightarrow> nat \<Rightarrow> nat \<Rightarrow> nat \<Rightarrow> cmp_fn \<Rightarrow> mem option" where
  "qsort mem base n esize cmp =
     (if n < 2 \<or> esize = 0 then Some mem else qs_gaps base n esize cmp GAPS mem)"

section \<open>The array as a list of elements\<close>

definition elems :: "mem \<Rightarrow> nat \<Rightarrow> nat \<Rightarrow> nat \<Rightarrow> bytes list" where
  "elems mem base n esize = map (\<lambda>i. mbytes mem (qs_elem base esize i) esize) [0..<n]"

definition swap_list :: "'a list \<Rightarrow> nat \<Rightarrow> nat \<Rightarrow> 'a list" where
  "swap_list xs i j = xs[i := xs ! j, j := xs ! i]"

lemma length_elems [simp]: "length (elems mem base n esize) = n"
  by (simp add: elems_def)

lemma nth_elems [simp]: "i < n \<Longrightarrow> elems mem base n esize ! i = mbytes mem (qs_elem base esize i) esize"
  by (simp add: elems_def)

lemma length_swap_list [simp]: "length (swap_list xs i j) = length xs"
  by (simp add: swap_list_def)

lemma mset_swap_list: "i < length xs \<Longrightarrow> j < length xs \<Longrightarrow> mset (swap_list xs i j) = mset xs"
  unfolding swap_list_def by (rule mset_swap)

lemma nth_swap_list:
  "i < length xs \<Longrightarrow> j < length xs \<Longrightarrow> k < length xs \<Longrightarrow>
     swap_list xs i j ! k = (if k = j then xs ! i else if k = i then xs ! j else xs ! k)"
  by (simp add: swap_list_def nth_list_update)

lemma fold_swap_byte:
  assumes "a + m \<le> b \<or> b + m \<le> a"
  shows "fold (swap_byte a b) [0..<m] mem x =
    (if a \<le> x \<and> x < a + m then mem (b + (x - a)) else if b \<le> x \<and> x < b + m then mem (a + (x - b)) else mem x)"
  using assms
proof (induction m arbitrary: x)
  case (Suc m)
  define f where "f = fold (swap_byte a b) [0..<m] mem"
  have IH: "f x = (if a \<le> x \<and> x < a + m then mem (b + (x - a)) else if b \<le> x \<and> x < b + m then mem (a + (x - b)) else mem x)" for x
    unfolding f_def by (rule Suc.IH) (use Suc.prems in auto)
  have s: "fold (swap_byte a b) [0..<Suc m] mem x = swap_byte a b m f x" by (simp add: f_def)
  have "f (a + m) = mem (a + m)" "f (b + m) = mem (b + m)" using IH Suc.prems by auto
  then show ?case
    unfolding s using IH [of x] Suc.prems by (auto simp: swap_byte_def less_Suc_eq)
qed auto

lemma elem_disjoint: "i < j \<Longrightarrow> qs_elem base esize i + esize \<le> qs_elem base esize j"
proof -
  assume "i < j"
  then have "Suc i * esize \<le> j * esize" by (intro mult_le_mono1) simp
  then show ?thesis by (simp add: qs_elem_def)
qed

lemma elem_end: "i < n \<Longrightarrow> qs_elem base esize i + esize \<le> base + n * esize"
  using elem_disjoint [of i n base esize] by (simp add: qs_elem_def)

lemma qs_swap_elems:
  assumes "i < j" and "j < n"
  shows "elems (qs_swap base esize i j mem) base n esize = swap_list (elems mem base n esize) i j"
    and "x < base \<or> base + n * esize \<le> x \<Longrightarrow> qs_swap base esize i j mem x = mem x"
proof -
  let ?e = "qs_elem base esize"
  note d = elem_disjoint [of _ _ base esize]
  have sw: "qs_swap base esize i j mem x =
      (if ?e i \<le> x \<and> x < ?e i + esize then mem (?e j + (x - ?e i))
       else if ?e j \<le> x \<and> x < ?e j + esize then mem (?e i + (x - ?e j)) else mem x)" for x
    unfolding qs_swap_def Let_def using d [OF assms(1)] by (intro fold_swap_byte) simp
  show "elems (qs_swap base esize i j mem) base n esize = swap_list (elems mem base n esize) i j"
  proof (rule nth_equalityI)
    fix k assume "k < length (elems (qs_swap base esize i j mem) base n esize)"
    then have k: "k < n" by simp
    have "mbytes (qs_swap base esize i j mem) (?e k) esize =
      (if k = j then mbytes mem (?e i) esize else if k = i then mbytes mem (?e j) esize else mbytes mem (?e k) esize)"
    proof (rule nth_equalityI)
      fix l assume "l < length (mbytes (qs_swap base esize i j mem) (?e k) esize)"
      then have l: "l < esize" by simp
      have "k \<noteq> i \<Longrightarrow> \<not> (?e i \<le> ?e k + l \<and> ?e k + l < ?e i + esize)"
        using d [of k i] d [of i k] l by (cases k i rule: linorder_cases) auto
      moreover have "k \<noteq> j \<Longrightarrow> \<not> (?e j \<le> ?e k + l \<and> ?e k + l < ?e j + esize)"
        using d [of k j] d [of j k] l by (cases k j rule: linorder_cases) auto
      ultimately show "mbytes (qs_swap base esize i j mem) (?e k) esize ! l =
        (if k = j then mbytes mem (?e i) esize else if k = i then mbytes mem (?e j) esize else mbytes mem (?e k) esize) ! l"
        using l assms(1) sw [of "?e k + l"] by auto
    qed auto
    then show "elems (qs_swap base esize i j mem) base n esize ! k = swap_list (elems mem base n esize) i j ! k"
      using k assms by (simp add: nth_swap_list)
  qed simp
  assume x: "x < base \<or> base + n * esize \<le> x"
  have "base \<le> ?e i" "base \<le> ?e j" by (simp_all add: qs_elem_def)
  then show "qs_swap base esize i j mem x = mem x"
    using x elem_end [of i n base esize] elem_end [of j n base esize] assms by (subst sw) auto
qed

section \<open>The passes\<close>

text \<open>
  What C asks of the comparison function: its sign depends on the two elements only, and "not
  greater" is a total preorder \<open>le\<close> on elements.
\<close>

definition comparator :: "cmp_fn \<Rightarrow> nat \<Rightarrow> (bytes \<Rightarrow> bytes \<Rightarrow> bool) \<Rightarrow> bool" where
  "comparator cmp esize le \<longleftrightarrow>
     (\<forall>mem a b. 0 < sint (cmp mem a b) \<longleftrightarrow> \<not> le (mbytes mem a esize) (mbytes mem b esize))
     \<and> (\<forall>x y. le x y \<or> le y x) \<and> (\<forall>x y z. le x y \<longrightarrow> le y z \<longrightarrow> le x z)"

text \<open>\<open>kept\<close>: the same elements in some order, and no byte outside the array changed.\<close>

definition kept :: "nat \<Rightarrow> nat \<Rightarrow> nat \<Rightarrow> mem \<Rightarrow> mem \<Rightarrow> bool" where
  "kept base n esize mem mem' \<longleftrightarrow>
     mset (elems mem' base n esize) = mset (elems mem base n esize)
     \<and> (\<forall>x. x < base \<or> base + n * esize \<le> x \<longrightarrow> mem' x = mem x)"

lemma kept_refl: "kept base n esize mem mem"
  by (simp add: kept_def)

lemma kept_trans: "kept base n esize m1 m2 \<Longrightarrow> kept base n esize m2 m3 \<Longrightarrow> kept base n esize m1 m3"
  by (simp add: kept_def)

lemma kept_swap: "i < j \<Longrightarrow> j < n \<Longrightarrow> kept base n esize mem (qs_swap base esize i j mem)"
  by (simp add: kept_def qs_swap_elems mset_swap_list)

text \<open>In the last pass, with gap 1, every pair up to \<open>i\<close> is in order except those ending at \<open>j\<close>.\<close>

definition sorted_but :: "('a \<Rightarrow> 'a \<Rightarrow> bool) \<Rightarrow> 'a list \<Rightarrow> nat \<Rightarrow> nat \<Rightarrow> bool" where
  "sorted_but le xs i j \<longleftrightarrow> (\<forall>a b. a < b \<and> b \<le> i \<and> b \<noteq> j \<longrightarrow> le (xs ! a) (xs ! b))"

lemma sorted_but_swap:
  assumes "sorted_but le xs i (Suc j)" and "Suc j \<le> i" and "i < length xs" and "le (xs ! Suc j) (xs ! j)"
  shows "sorted_but le (swap_list xs j (Suc j)) i j"
proof -
  have "le (swap_list xs j (Suc j) ! a) (swap_list xs j (Suc j) ! b)" if ab: "a < b" "b \<le> i" "b \<noteq> j" for a b
  proof -
    have n: "swap_list xs j (Suc j) ! c = (if c = Suc j then xs ! j else if c = j then xs ! Suc j else xs ! c)" if "c \<le> i" for c
      using assms(2,3) that by (intro nth_swap_list) auto
    have P: "le (xs ! c) (xs ! d)" if "c < d" "d \<le> i" "d \<noteq> Suc j" for c d
      using assms(1) that unfolding sorted_but_def by blast
    consider "b = Suc j" "a = j" | "b = Suc j" "a < j" | "b \<noteq> Suc j" "a = Suc j" | "b \<noteq> Suc j" "a = j" | "b \<noteq> Suc j" "a \<noteq> j" "a \<noteq> Suc j"
      using ab by linarith
    then show ?thesis
      by cases (use n [of a] n [of b] P [of a j] P [of j b] P [of "Suc j" b] P [of a b] ab assms(2,4) in auto)
  qed
  then show ?thesis unfolding sorted_but_def by blast
qed

lemma sorted_but_done:
  assumes "sorted_but le xs i j" and "j = 0 \<or> le (xs ! (j - 1)) (xs ! j)" and "j \<le> i"
    and "\<And>x y z. le x y \<Longrightarrow> le y z \<Longrightarrow> le x z" and "a < b" and "b \<le> i"
  shows "le (xs ! a) (xs ! b)"
proof (cases "b = j")
  case True
  then have j: "0 < j" "le (xs ! (j - 1)) (xs ! j)" using assms(2,5) by auto
  show ?thesis
  proof (cases "a = j - 1")
    case False
    then have "a < j - 1" "j - 1 \<le> i" "j - 1 \<noteq> j" using assms(3,5) True j(1) by simp_all
    then have "le (xs ! a) (xs ! (j - 1))" using assms(1) unfolding sorted_but_def by blast
    then show ?thesis using assms(4) j(2) True by blast
  qed (use j True in simp)
qed (use assms in \<open>auto simp: sorted_but_def\<close>)

lemma qs_sift_kept:
  "0 < gap \<Longrightarrow> j < n \<Longrightarrow> \<exists>mem'. qs_sift base esize cmp gap j mem = Some mem' \<and> kept base n esize mem mem'"
proof (induction j arbitrary: mem rule: less_induct)
  case (less j)
  show ?case
  proof (cases "j \<ge> gap \<and> 0 < sint (cmp mem (qs_elem base esize (j - gap)) (qs_elem base esize j))")
    case True
    let ?m = "qs_swap base esize (j - gap) j mem"
    have lt: "j - gap < j" using True less.prems by simp
    obtain mem' where "qs_sift base esize cmp gap (j - gap) ?m = Some mem'" "kept base n esize ?m mem'"
      using less.IH [OF lt] less.prems lt by fastforce
    moreover have "kept base n esize mem ?m" using lt less.prems by (intro kept_swap)
    ultimately show ?thesis using True kept_trans by (subst qs_sift.simps) auto
  qed (subst qs_sift.simps, auto simp: kept_refl)
qed

lemma qs_sift_sorts:
  assumes c: "comparator cmp esize le"
  shows "sorted_but le (elems mem base n esize) i j \<Longrightarrow> j \<le> i \<Longrightarrow> i < n \<Longrightarrow>
    \<exists>mem'. qs_sift base esize cmp 1 j mem = Some mem' \<and>
      (\<forall>a b. a < b \<and> b \<le> i \<longrightarrow> le (elems mem' base n esize ! a) (elems mem' base n esize ! b))"
proof (induction j arbitrary: mem)
  case 0
  have "qs_sift base esize cmp 1 0 mem = Some mem" by (subst qs_sift.simps) simp
  then show ?case using 0 by (auto simp: sorted_but_def)
next
  case (Suc j)
  let ?xs = "elems mem base n esize"
  have tr: "\<And>x y z. le x y \<Longrightarrow> le y z \<Longrightarrow> le x z" and tot: "\<And>x y. le x y \<or> le y x"
    using c unfolding comparator_def by blast+
  have gt: "0 < sint (cmp mem (qs_elem base esize j) (qs_elem base esize (Suc j))) \<longleftrightarrow> \<not> le (?xs ! j) (?xs ! Suc j)"
    using c Suc.prems unfolding comparator_def by simp
  show ?case
  proof (cases "le (?xs ! j) (?xs ! Suc j)")
    case True
    then have "qs_sift base esize cmp 1 (Suc j) mem = Some mem" using gt by (subst qs_sift.simps) simp
    moreover have "le (?xs ! a) (?xs ! b)" if "a < b" "b \<le> i" for a b
      by (rule sorted_but_done [OF Suc.prems(1) _ Suc.prems(2) _ that]) (use True tr in auto)
    ultimately show ?thesis by blast
  next
    case False
    let ?m = "qs_swap base esize j (Suc j) mem"
    have "sorted_but le (elems ?m base n esize) i j"
      using sorted_but_swap [OF Suc.prems(1,2)] Suc.prems False tot [of "?xs ! j" "?xs ! Suc j"] by (simp add: qs_swap_elems(1))
    from Suc.IH [OF this] Suc.prems obtain mem' where "qs_sift base esize cmp 1 j ?m = Some mem'"
      "\<forall>a b. a < b \<and> b \<le> i \<longrightarrow> le (elems mem' base n esize ! a) (elems mem' base n esize ! b)" by auto
    moreover have "qs_sift base esize cmp 1 (Suc j) mem = qs_sift base esize cmp 1 j ?m"
      using gt False by (subst qs_sift.simps) simp
    ultimately show ?thesis by auto
  qed
qed

lemma qs_pass_kept:
  assumes "0 < gap"
  shows "\<exists>mem'. qs_pass base n esize cmp gap i mem = Some mem' \<and> kept base n esize mem mem'"
proof (induction "n - i" arbitrary: i mem)
  case 0
  then show ?case by (subst qs_pass.simps) (simp add: kept_refl)
next
  case (Suc d)
  then have i: "i < n" by simp
  obtain m1 where m1: "qs_sift base esize cmp gap i mem = Some m1" "kept base n esize mem m1"
    using qs_sift_kept [OF assms i] by blast
  obtain m2 where "qs_pass base n esize cmp gap (i + 1) m1 = Some m2" "kept base n esize m1 m2"
    using Suc.hyps(1) [of "i + 1" m1] Suc.hyps(2) by fastforce
  then show ?case using i m1 kept_trans by (subst qs_pass.simps) auto
qed

lemma qs_pass_sorts:
  assumes c: "comparator cmp esize le"
  shows "\<forall>a b. a < b \<and> b < i \<longrightarrow> le (elems mem base n esize ! a) (elems mem base n esize ! b) \<Longrightarrow> i \<le> n \<Longrightarrow>
    \<exists>mem'. qs_pass base n esize cmp 1 i mem = Some mem' \<and>
      (\<forall>a b. a < b \<and> b < n \<longrightarrow> le (elems mem' base n esize ! a) (elems mem' base n esize ! b))"
proof (induction "n - i" arbitrary: i mem)
  case 0
  then show ?case by (subst qs_pass.simps) auto
next
  case (Suc d)
  then have i: "i < n" by simp
  have sb: "sorted_but le (elems mem base n esize) i i" using Suc.prems(1) unfolding sorted_but_def by auto
  obtain m1 where m1: "qs_sift base esize cmp 1 i mem = Some m1"
      "\<forall>a b. a < b \<and> b \<le> i \<longrightarrow> le (elems m1 base n esize ! a) (elems m1 base n esize ! b)"
    using qs_sift_sorts [OF c sb _ i] by blast
  have "d = n - (i + 1)" using Suc.hyps(2) by simp
  moreover have "\<forall>a b. a < b \<and> b < i + 1 \<longrightarrow> le (elems m1 base n esize ! a) (elems m1 base n esize ! b)" using m1(2) by simp
  ultimately obtain m2 where "qs_pass base n esize cmp 1 (i + 1) m1 = Some m2"
      "\<forall>a b. a < b \<and> b < n \<longrightarrow> le (elems m2 base n esize ! a) (elems m2 base n esize ! b)"
    using Suc.hyps(1) [of "i + 1" m1] i by auto
  then show ?case using i m1 by (subst qs_pass.simps) auto
qed

lemma qs_gaps_kept:
  "0 \<notin> set gaps \<Longrightarrow> \<exists>mem'. qs_gaps base n esize cmp gaps mem = Some mem' \<and> kept base n esize mem mem'"
proof (induction gaps arbitrary: mem)
  case (Cons gap gaps)
  show ?case
  proof (cases "gap \<ge> n")
    case False
    have "0 < gap" using Cons.prems by auto
    then obtain m1 where "qs_pass base n esize cmp gap gap mem = Some m1" "kept base n esize mem m1"
      using qs_pass_kept by blast
    moreover obtain m2 where "qs_gaps base n esize cmp gaps m1 = Some m2" "kept base n esize m1 m2"
      using Cons by auto
    ultimately show ?thesis using False kept_trans by auto
  qed (use Cons in auto)
qed (simp add: kept_refl)

lemma qs_gaps_append:
  "qs_gaps base n esize cmp (gs @ hs) mem =
     do { mem' \<leftarrow> qs_gaps base n esize cmp gs mem; qs_gaps base n esize cmp hs mem' }"
  by (induction gs arbitrary: mem) (auto split: Option.bind_split)

text \<open>
  C34: \<open>qsort\<close> returns for every array and every comparison function that orders the elements by a
  total preorder: afterwards the elements are in order, they are the same elements with the same
  multiplicities, and no byte outside the array has changed.
\<close>

theorem qsort_spec:
  assumes c: "comparator cmp esize le"
  shows "\<exists>mem'. qsort mem base n esize cmp = Some mem'
     \<and> sorted_wrt le (elems mem' base n esize)
     \<and> mset (elems mem' base n esize) = mset (elems mem base n esize)
     \<and> (\<forall>x. x < base \<or> base + n * esize \<le> x \<longrightarrow> mem' x = mem x)"
proof (cases "n < 2 \<or> esize = 0")
  case True
  have "le [] []" using c unfolding comparator_def by blast
  then have "sorted_wrt le (elems mem base n esize)"
    using True by (auto simp: sorted_wrt_iff_nth_less)
  then show ?thesis using True by (simp add: qsort_def)
next
  case False
  have nz: "0 \<notin> set (butlast GAPS)" by (simp add: GAPS_def)
  obtain m1 where m1: "qs_gaps base n esize cmp (butlast GAPS) mem = Some m1" "kept base n esize mem m1"
    using qs_gaps_kept [OF nz] by blast
  have "\<forall>a b. a < b \<and> b < (1 :: nat) \<longrightarrow> le (elems m1 base n esize ! a) (elems m1 base n esize ! b)" by simp
  from qs_pass_sorts [OF c this] False obtain m2 where m2: "qs_pass base n esize cmp 1 1 m1 = Some m2"
      "\<forall>a b. a < b \<and> b < n \<longrightarrow> le (elems m2 base n esize ! a) (elems m2 base n esize ! b)" by auto
  have "kept base n esize m1 m2" using qs_pass_kept [of 1 base n esize cmp 1 m1] m2(1) by auto
  then have k: "kept base n esize mem m2" by (rule kept_trans [OF m1(2)])
  have "GAPS = butlast GAPS @ [1]" by (simp add: GAPS_def)
  then have "qs_gaps base n esize cmp GAPS mem = qs_gaps base n esize cmp [1] m1"
    using m1(1) qs_gaps_append [of base n esize cmp "butlast GAPS" "[1]" mem] by simp
  also have "\<dots> = Some m2" using m2(1) False by simp
  finally have "qsort mem base n esize cmp = Some m2" using False by (simp add: qsort_def)
  moreover have "sorted_wrt le (elems m2 base n esize)" using m2(2) by (simp add: sorted_wrt_iff_nth_less)
  ultimately show ?thesis using k unfolding kept_def by blast
qed

text \<open>Single bytes by value, compared as C programs do by subtraction.\<close>

definition byte_cmp :: cmp_fn where
  "byte_cmp mem a b = ucast (mem a) - ucast (mem b)"

definition byte_le :: "bytes \<Rightarrow> bytes \<Rightarrow> bool" where
  "byte_le xs ys \<longleftrightarrow> xs ! 0 \<le> ys ! 0"

lemma byte_cmp_comparator: "comparator byte_cmp 1 byte_le"
  unfolding comparator_def byte_cmp_def byte_le_def
  by (auto simp: sint_byte_diff word_le_def mbytes_def)

theorem qsort_spec_witness:
  "\<exists>mem'. qsort two_strings 16 3 1 byte_cmp = Some mem'
     \<and> sorted_wrt byte_le (elems mem' 16 3 1)
     \<and> mset (elems mem' 16 3 1) = mset (elems two_strings 16 3 1)
     \<and> (\<forall>x. x < 16 \<or> 16 + 3 * 1 \<le> x \<longrightarrow> mem' x = two_strings x)"
  by (rule qsort_spec [OF byte_cmp_comparator])

end
