(* ===== verification/CStdlib.thy ===== *)
theory CStdlib
  imports CString
begin

text \<open>
  Number parsing of the C library, \<open>libc/src/cstdlib.rs\<close>: \<open>strtol\<close>, \<open>strtoul\<close>, \<open>strtoull\<close>,
  \<open>atoi\<close>, and the scanner behind \<open>sscanf\<close>. The values are 64-bit words and wrap as the source's
  \<open>wrapping_mul\<close> and \<open>wrapping_add\<close> do. Loops over the input are partial functions; on terminated
  strings they return.
\<close>

type_synonym i64 = "64 word"

section \<open>Integer parsing\<close>

definition byte_at :: "mem \<Rightarrow> nat \<Rightarrow> nat \<Rightarrow> u8" where
  "byte_at mem s i = mem (s + i)"

definition is_space :: "u8 \<Rightarrow> bool" where
  "is_space b \<longleftrightarrow> b = 0x20 \<or> b = 0x09 \<or> b = 0x0A \<or> b = 0x0D \<or> b = 11 \<or> b = 12"

definition digit_val :: "u8 \<Rightarrow> u32 option" where
  "digit_val b =
     (if 0x30 \<le> b \<and> b \<le> 0x39 then Some (ucast (b - 0x30))
      else if 0x61 \<le> b \<and> b \<le> 0x7A then Some (ucast (b - 0x61 + 10))
      else if 0x41 \<le> b \<and> b \<le> 0x5A then Some (ucast (b - 0x41 + 10))
      else None)"

partial_function (option) skip_ws :: "mem \<Rightarrow> nat \<Rightarrow> nat \<Rightarrow> nat option" where
  "skip_ws mem s i = (if is_space (byte_at mem s i) then skip_ws mem s (i + 1) else Some i)"

partial_function (option) parse_digits :: "mem \<Rightarrow> nat \<Rightarrow> i32 \<Rightarrow> nat \<Rightarrow> u64 \<Rightarrow> bool \<Rightarrow> (u64 \<times> bool \<times> nat) option" where
  "parse_digits mem s base i val any =
     (case digit_val (byte_at mem s i) of
        Some d \<Rightarrow> (if sint d < sint base then parse_digits mem s base (i + 1) (val * scast base + ucast d) True
                  else Some (val, any, i))
      | None \<Rightarrow> Some (val, any, i))"

definition parse_sign :: "mem \<Rightarrow> nat \<Rightarrow> nat \<Rightarrow> bool \<times> nat" where
  "parse_sign mem s i =
     (if byte_at mem s i = 0x2B then (False, i + 1)
      else if byte_at mem s i = 0x2D then (True, i + 1)
      else (False, i))"

definition parse_base :: "mem \<Rightarrow> nat \<Rightarrow> i32 \<Rightarrow> nat \<Rightarrow> i32 \<times> nat" where
  "parse_base mem s base i =
     (if (base = 0 \<or> base = 16) \<and> byte_at mem s i = 0x30
         \<and> (byte_at mem s (i + 1) = 0x78 \<or> byte_at mem s (i + 1) = 0x58) then (16, i + 2)
      else if base = 0 \<and> byte_at mem s i = 0x30 then (8, i + 1)
      else if base = 0 then (10, i)
      else (base, i))"

definition parse_uint :: "mem \<Rightarrow> nat \<Rightarrow> nat \<Rightarrow> i32 \<Rightarrow> (u64 \<times> bool \<times> mem) option" where
  "parse_uint mem s endp base = do {
     i \<leftarrow> skip_ws mem s 0;
     let (neg, i) = parse_sign mem s i;
     let (base, i) = parse_base mem s base i;
     (val, any, i) \<leftarrow> parse_digits mem s base i 0 False;
     let consumed = (if any then i else 0);
     Some (val, neg, if endp \<noteq> 0 then wr64 mem endp (of_nat (s + consumed)) else mem) }"

definition strtoull :: "mem \<Rightarrow> nat \<Rightarrow> nat \<Rightarrow> i32 \<Rightarrow> (u64 \<times> mem) option" where
  "strtoull mem s endp base = do {
     (v, neg, mem') \<leftarrow> parse_uint mem s endp base;
     Some (if neg then NOT v + 1 else v, mem') }"

definition strtoul :: "mem \<Rightarrow> nat \<Rightarrow> nat \<Rightarrow> i32 \<Rightarrow> (u64 \<times> mem) option" where
  "strtoul mem s endp base = strtoull mem s endp base"

definition strtol :: "mem \<Rightarrow> nat \<Rightarrow> nat \<Rightarrow> i32 \<Rightarrow> (i64 \<times> mem) option" where
  "strtol mem s endp base = do {
     (v, neg, mem') \<leftarrow> parse_uint mem s endp base;
     Some (if neg then - v else v, mem') }"

definition atoi :: "mem \<Rightarrow> nat \<Rightarrow> i32 option" where
  "atoi mem s = do { (v, _) \<leftarrow> strtol mem s 0 10; Some (ucast v) }"

section \<open>sscanf\<close>

text \<open>
  All arguments of \<open>sscanf\<close> are pointers: four spilled registers at \<open>gp\<close>, then the stack at
  \<open>ov\<close>. The scanner's cursors and the memory it stores through are one record; a step returns
  whether the loop goes on.
\<close>

record arg_ptrs =
  ap_gp :: nat
  ap_gp_idx :: nat
  ap_gp_max :: nat
  ap_ov :: nat
  ap_ov_idx :: nat

definition arg_next :: "mem \<Rightarrow> arg_ptrs \<Rightarrow> nat \<times> arg_ptrs" where
  "arg_next mem a =
     (if ap_gp_idx a < ap_gp_max a then (unat (rd64 mem (ap_gp a + 8 * ap_gp_idx a)), a\<lparr>ap_gp_idx := ap_gp_idx a + 1\<rparr>)
      else (unat (rd64 mem (ap_ov a + 8 * ap_ov_idx a)), a\<lparr>ap_ov_idx := ap_ov_idx a + 1\<rparr>))"

record scan_state =
  sc_mem :: mem
  sc_args :: arg_ptrs
  sc_count :: i32
  sc_si :: nat
  sc_fi :: nat

definition scan_int :: "nat \<Rightarrow> u8 \<Rightarrow> scan_state \<Rightarrow> (bool \<times> scan_state) option" where
  "scan_int s conv st = do {
     si \<leftarrow> skip_ws (sc_mem st) s (sc_si st);
     let base = (if conv = 0x78 then 16 else 10);
     let c = byte_at (sc_mem st) s si;
     let (neg, si) = (if conv = 0x64 \<and> (c = 0x2B \<or> c = 0x2D) then (c = 0x2D, si + 1) else (False, si));
     (val, any, si) \<leftarrow> parse_digits (sc_mem st) s base si 0 False;
     if \<not> any then Some (False, st\<lparr>sc_si := si\<rparr>)
     else let (p, a) = arg_next (sc_mem st) (sc_args st)
          in Some (True, st\<lparr>sc_si := si, sc_args := a, sc_mem := wr32 (sc_mem st) p (ucast (if neg then - val else val)),
                            sc_count := sc_count st + 1\<rparr>) }"

definition scan_char :: "nat \<Rightarrow> scan_state \<Rightarrow> bool \<times> scan_state" where
  "scan_char s st =
     (let c = byte_at (sc_mem st) s (sc_si st)
      in if c = 0 then (False, st)
         else let (p, a) = arg_next (sc_mem st) (sc_args st)
              in (True, st\<lparr>sc_si := sc_si st + 1, sc_args := a, sc_mem := (sc_mem st)(p := c), sc_count := sc_count st + 1\<rparr>))"

partial_function (option) scan_word :: "nat \<Rightarrow> nat \<Rightarrow> mem \<Rightarrow> nat \<Rightarrow> nat \<Rightarrow> (mem \<times> nat \<times> nat) option" where
  "scan_word s p mem si j =
     (let c = byte_at mem s si
      in if c = 0 \<or> is_space c then Some (mem, si, j) else scan_word s p (mem(p + j := c)) (si + 1) (j + 1))"

definition scan_str :: "nat \<Rightarrow> scan_state \<Rightarrow> (bool \<times> scan_state) option" where
  "scan_str s st = do {
     si \<leftarrow> skip_ws (sc_mem st) s (sc_si st);
     let (p, a) = arg_next (sc_mem st) (sc_args st);
     (mem, si, j) \<leftarrow> scan_word s p (sc_mem st) si 0;
     let st = st\<lparr>sc_mem := mem, sc_si := si, sc_args := a\<rparr>;
     if j = 0 then Some (False, st) else Some (True, st\<lparr>sc_mem := mem(p + j := 0), sc_count := sc_count st + 1\<rparr>) }"

definition scan_conv :: "nat \<Rightarrow> u8 \<Rightarrow> scan_state \<Rightarrow> (bool \<times> scan_state) option" where
  "scan_conv s conv st =
     (if conv = 0x64 \<or> conv = 0x75 \<or> conv = 0x78 then scan_int s conv st
      else if conv = 0x63 then Some (scan_char s st)
      else if conv = 0x73 then scan_str s st
      else if conv = 0x25 then
        (if byte_at (sc_mem st) s (sc_si st) \<noteq> 0x25 then Some (False, st) else Some (True, st\<lparr>sc_si := sc_si st + 1\<rparr>))
      else Some (False, st))"

definition scan_step :: "nat \<Rightarrow> nat \<Rightarrow> scan_state \<Rightarrow> (bool \<times> scan_state) option" where
  "scan_step s fmt st =
     (let fc = byte_at (sc_mem st) fmt (sc_fi st)
      in if fc = 0 then Some (False, st)
         else if is_space fc then do { si \<leftarrow> skip_ws (sc_mem st) s (sc_si st); Some (True, st\<lparr>sc_fi := sc_fi st + 1, sc_si := si\<rparr>) }
         else if fc \<noteq> 0x25 then
           (if byte_at (sc_mem st) s (sc_si st) \<noteq> fc then Some (False, st)
            else Some (True, st\<lparr>sc_si := sc_si st + 1, sc_fi := sc_fi st + 1\<rparr>))
         else scan_conv s (byte_at (sc_mem st) fmt (sc_fi st + 1)) (st\<lparr>sc_fi := sc_fi st + 2\<rparr>))"

partial_function (option) scan_loop :: "nat \<Rightarrow> nat \<Rightarrow> scan_state \<Rightarrow> scan_state option" where
  "scan_loop s fmt st = do { (go, st') \<leftarrow> scan_step s fmt st; if go then scan_loop s fmt st' else Some st' }"

definition vsscanf_impl :: "mem \<Rightarrow> nat \<Rightarrow> nat \<Rightarrow> nat \<Rightarrow> nat \<Rightarrow> (i32 \<times> mem) option" where
  "vsscanf_impl mem s fmt gp ov = do {
     st \<leftarrow> scan_loop s fmt \<lparr>sc_mem = mem,
        sc_args = \<lparr>ap_gp = gp, ap_gp_idx = 0, ap_gp_max = 4, ap_ov = ov, ap_ov_idx = 0\<rparr>,
        sc_count = 0, sc_si = 0, sc_fi = 0\<rparr>;
     Some (sc_count st, sc_mem st) }"

section \<open>Digit strings\<close>

definition digit_of :: "i32 \<Rightarrow> u8 \<Rightarrow> bool" where
  "digit_of base b \<longleftrightarrow> (case digit_val b of Some d \<Rightarrow> sint d < sint base | None \<Rightarrow> False)"

definition dv :: "u8 \<Rightarrow> nat" where
  "dv b = (case digit_val b of Some d \<Rightarrow> unat d | None \<Rightarrow> 0)"

text \<open>The number a digit string stands for, most significant digit first.\<close>

definition num :: "nat \<Rightarrow> bytes \<Rightarrow> nat" where
  "num base ds = foldl (\<lambda>acc b. acc * base + dv b) 0 ds"

lemma num_snoc [simp]: "num base (ds @ [d]) = num base ds * base + dv d"
  by (simp add: num_def)

lemma num_Nil [simp]: "num base [] = 0"
  by (simp add: num_def)

lemma foldl_digits:
  "foldl (\<lambda>v b. v * of_nat base + of_nat (dv b)) (of_nat a :: u64) ds = of_nat (foldl (\<lambda>acc b. acc * base + dv b) a ds)"
proof (induction ds arbitrary: a)
  case (Cons d ds)
  show ?case using Cons.IH [of "a * base + dv d"] by simp
qed simp

lemma zero_byte [simp]: "digit_val 0 = None" "\<not> is_space 0"
  by (simp_all add: digit_val_def is_space_def)

lemma digit_not_blank: "digit_of base b \<Longrightarrow> \<not> is_space b \<and> b \<noteq> 0x2B \<and> b \<noteq> 0x2D \<and> b \<noteq> 0"
  by (auto simp: digit_of_def digit_val_def is_space_def split: if_splits)

lemma skip_ws_spec:
  "cstr mem (s + i) xs \<Longrightarrow> skip_ws mem s i = Some (i + length (takeWhile is_space xs))"
  by (induction xs arbitrary: i; subst skip_ws.simps) (auto simp: byte_at_def)

lemma parse_digits_spec:
  assumes "cstr mem (s + i) xs" and "scast base = (of_nat b :: u64)"
  shows "parse_digits mem s base i val any =
    Some (foldl (\<lambda>v d. v * of_nat b + of_nat (dv d)) val (takeWhile (digit_of base) xs),
          any \<or> takeWhile (digit_of base) xs \<noteq> [], i + length (takeWhile (digit_of base) xs))"
  using assms(1)
proof (induction xs arbitrary: i val any)
  case Nil
  then show ?case by (subst parse_digits.simps) (simp add: byte_at_def)
next
  case (Cons x xs)
  have c: "cstr mem (s + (i + 1)) xs" and x: "byte_at mem s i = x" using Cons.prems by (simp_all add: byte_at_def)
  show ?case
  proof (cases "digit_of base x")
    case True
    then obtain d where d: "digit_val x = Some d" "sint d < sint base" by (auto simp: digit_of_def split: option.splits)
    then have "(ucast d :: u64) = of_nat (dv x)" by (simp add: dv_def)
    then show ?thesis using Cons.IH [OF c] True d x assms(2) by (subst parse_digits.simps) simp
  next
    case False
    then show ?thesis using x by (subst parse_digits.simps) (auto simp: digit_of_def split: option.splits)
  qed
qed

lemma takeWhile_digits:
  assumes "\<forall>d \<in> set ds. P d" and "rest = [] \<or> \<not> P (hd rest)"
  shows "takeWhile P (ds @ rest) = ds"
  using assms by (cases rest) (auto simp: takeWhile_append)

text \<open>The parser on white space, a sign, a base prefix and digits.\<close>

lemma parse_uint_steps:
  assumes c: "cstr mem s (ws @ sg @ pre @ ds @ rest)"
    and ws: "\<forall>w \<in> set ws. is_space w" and sg: "sg = [] \<or> sg = [0x2B] \<or> sg = [0x2D]"
    and body: "pre @ ds \<noteq> []" "\<not> is_space (hd (pre @ ds))" "hd (pre @ ds) \<noteq> 0x2B" "hd (pre @ ds) \<noteq> 0x2D"
    and base: "parse_base mem s base (length ws + length sg) = (base', length ws + length sg + length pre)"
    and b: "scast base' = (of_nat b :: u64)"
    and ds: "\<forall>d \<in> set ds. digit_of base' d" "rest = [] \<or> \<not> digit_of base' (hd rest)"
  shows "parse_uint mem s endp base =
    Some (of_nat (num b ds), sg = [0x2D],
      if endp \<noteq> 0 then wr64 mem endp (of_nat (s + (if ds = [] then 0 else length ws + length sg + length pre + length ds)))
      else mem)"
proof -
  let ?xs = "ws @ sg @ pre @ ds @ rest"
  obtain h t where h: "pre @ ds = h # t" using body(1) by (cases "pre @ ds") auto
  have sp: "takeWhile is_space ?xs = ws"
  proof (rule takeWhile_digits [OF ws])
    show "sg @ pre @ ds @ rest = [] \<or> \<not> is_space (hd (sg @ pre @ ds @ rest))"
      using sg body h by (auto simp: is_space_def append_eq_Cons_conv)
  qed
  have i: "skip_ws mem s 0 = Some (length ws)" using skip_ws_spec [of mem s 0 ?xs] c sp by simp
  have at: "byte_at mem s (length ws) = hd (sg @ pre @ ds)"
  proof -
    have ne: "sg @ pre @ ds \<noteq> []" using body(1) by simp
    then have "?xs ! length ws = hd (sg @ pre @ ds @ rest)" using ne by (simp add: nth_append hd_conv_nth)
    also have "\<dots> = hd (sg @ pre @ ds)" using ne by (metis append.assoc hd_append2)
    finally show ?thesis using cstr_nth [OF c, of "length ws"] ne by (auto simp: byte_at_def)
  qed
  have sign: "parse_sign mem s (length ws) = (sg = [0x2D], length ws + length sg)"
    using sg body at by (auto simp: parse_sign_def)
  have "cstr mem (s + (length ws + length sg + length pre)) (ds @ rest)"
    using cstr_drop [OF c, of "length ws + length sg + length pre"] by (simp add: add.assoc)
  from parse_digits_spec [OF this b, of 0 False] have
    "parse_digits mem s base' (length ws + length sg + length pre) 0 False =
       Some (of_nat (num b ds), ds \<noteq> [], length ws + length sg + length pre + length ds)"
    using takeWhile_digits [OF ds] foldl_digits [of b 0 ds] by (simp add: num_def)
  then show ?thesis by (simp add: parse_uint_def i sign base)
qed

lemma hex_letter_no_digit: "\<not> digit_of 16 0x78" "\<not> digit_of 16 0x58"
  by (simp_all add: digit_of_def digit_val_def)

lemma parse_base_plain:
  assumes c: "cstr mem s (pre @ ds @ rest)" and ds: "ds \<noteq> []" "\<forall>d \<in> set ds. digit_of base d" and nz: "base \<noteq> 0"
    and nx: "\<not> (base = 16 \<and> ds = [0x30] \<and> rest \<noteq> [] \<and> (hd rest = 0x78 \<or> hd rest = 0x58))"
  shows "parse_base mem s base (length pre) = (base, length pre)"
proof -
  have "False" if x: "base = 16" "byte_at mem s (length pre) = 0x30"
      "byte_at mem s (length pre + 1) = 0x78 \<or> byte_at mem s (length pre + 1) = 0x58"
  proof -
    have d: "cstr mem (s + length pre) (ds @ rest)" using cstr_drop [OF c, of "length pre"] by simp
    obtain e es where e: "ds = e # es" using ds(1) by (cases ds) auto
    have "mem (s + length pre) = e" using d e by simp
    then have e0: "e = 0x30" using x(2) by (simp add: byte_at_def)
    show False
    proof (cases es)
      case Nil
      then show False using d e e0 x nx by (cases rest) (auto simp: byte_at_def)
    next
      case (Cons y ys)
      then have "mem (s + length pre + 1) = y" "digit_of 16 y" using d e ds(2) x(1) by simp_all
      then show False using x(3) hex_letter_no_digit by (auto simp: byte_at_def add.assoc)
    qed
  qed
  then show ?thesis using nz by (auto simp: parse_base_def)
qed

text \<open>
  \<open>strtol\<close> returns on white space, an optional sign and a non-empty run of digits of the base
  (2 to 36) followed by something that is no digit: the result is the signed number the digits
  stand for, reduced modulo \<open>2^64\<close>, and the end pointer, when there is one, is set just behind the
  last digit.
\<close>

theorem strtol_spec:
  assumes c: "cstr mem s (ws @ sg @ ds @ rest)"
    and ws: "\<forall>w \<in> set ws. is_space w" and sg: "sg = [] \<or> sg = [0x2B] \<or> sg = [0x2D]"
    and ds: "ds \<noteq> []" "\<forall>d \<in> set ds. digit_of base d" "rest = [] \<or> \<not> digit_of base (hd rest)"
    and base: "2 \<le> sint base" "sint base \<le> 36"
    and nx: "\<not> (base = 16 \<and> ds = [0x30] \<and> rest \<noteq> [] \<and> (hd rest = 0x78 \<or> hd rest = 0x58))"
  shows "strtol mem s endp base =
    Some (of_int ((if sg = [0x2D] then -1 else 1) * int (num (nat (sint base)) ds)),
      if endp \<noteq> 0 then wr64 mem endp (of_nat (s + length (ws @ sg @ ds))) else mem)"
proof -
  have d0: "digit_of base (hd ds)" using ds by simp
  have "base \<noteq> 0" using base by auto
  then have b: "parse_base mem s base (length ws + length sg) = (base, length ws + length sg + length ([] :: bytes))"
    using parse_base_plain [of mem s "ws @ sg" ds rest base] c ds nx by simp
  have sc: "scast base = (of_nat (nat (sint base)) :: u64)" using base by simp
  have "parse_uint mem s endp base =
    Some (of_nat (num (nat (sint base)) ds), sg = [0x2D],
      if endp \<noteq> 0 then wr64 mem endp (of_nat (s + (if ds = [] then 0 else length ws + length sg + length ([] :: bytes) + length ds))) else mem)"
    by (rule parse_uint_steps [of mem s ws sg "[]" ds rest base base])
      (use c ws sg ds digit_not_blank [OF d0] b sc in auto)
  then show ?thesis using ds(1) by (simp add: strtol_def add.assoc)
qed

lemma ucast_of_int: "ucast (word_of_int k :: u64) = (word_of_int k :: u32)"
  by (rule bit_word_eqI) (simp add: bit_simps)

lemma atoi_spec:
  assumes "cstr mem s (ws @ sg @ ds @ rest)"
    and "\<forall>w \<in> set ws. is_space w" and "sg = [] \<or> sg = [0x2B] \<or> sg = [0x2D]"
    and "ds \<noteq> []" and "\<forall>d \<in> set ds. digit_of 10 d" and "rest = [] \<or> \<not> digit_of 10 (hd rest)"
  shows "atoi mem s = Some (of_int ((if sg = [0x2D] then -1 else 1) * int (num 10 ds)))"
proof -
  have "nat (sint (10 :: i32)) = 10" by simp
  then have "strtol mem s 0 10 = Some (of_int ((if sg = [0x2D] then -1 else 1) * int (num 10 ds)), mem)"
    using strtol_spec [of mem s ws sg ds rest 10 0] assms by simp
  then show ?thesis by (simp only: atoi_def bind.bind_lunit split ucast_of_int)
qed

text \<open>The text \<open>" -42;"\<close> at address 16.\<close>

definition num_text :: mem where
  "num_text = mstore (\<lambda>_. 0) 16 [0x20, 0x2D, 0x34, 0x32, 0x3B, 0]"

theorem strtol_spec_witness:
  "strtol num_text 16 64 10 =
    Some (of_int ((if [0x2D :: u8] = [0x2D] then -1 else 1) * int (num (nat (sint (10 :: i32))) [0x34, 0x32])),
      if (64 :: nat) \<noteq> 0 then wr64 num_text 64 (of_nat (16 + length ([0x20 :: u8] @ [0x2D] @ [0x34, 0x32]))) else num_text)"
proof -
  have c: "cstr num_text 16 ([0x20] @ [0x2D] @ [0x34, 0x32] @ [0x3B])" by (simp add: num_text_def mstore_def)
  show ?thesis
    by (rule strtol_spec [OF c]) (simp_all add: is_space_def digit_of_def digit_val_def)
qed

end
