(* ===== verification/Printf.thy ===== *)
theory Printf
  imports CStdlib
begin

text \<open>
  Formatted output of the C library: the \<open>PrintfScan\<close> Frame system (\<open>libc/frame/printf_scan.frs\<close>,
  with \<open>PfDir\<close>, \<open>is_conv\<close> and \<open>is_length_mod\<close> of \<open>libc/src/frame_systems.rs\<close>) that turns a format
  string into directives, and the engine of \<open>libc/src/printf.rs\<close> that renders them. A Rust \<open>char\<close>
  is its code point, a 32-bit word. User programs are release builds, so the scanner's width and
  precision wrap. Floating-point rendering (\<open>cfloat.rs\<close>) is a parameter \<open>ff\<close> of the engine: it maps
  the conversion character, the bits of the argument and the precision to bytes. Indexing or slicing
  outside a buffer is \<open>None\<close>; the vectors of the output grow without bound, since the exhaustion of
  the heap is not modelled here.
\<close>

type_synonym rchar = u32

section \<open>The scanner\<close>

record conv_spec =
  cs_zero :: bool
  cs_left :: bool
  cs_width :: u32
  cs_prec :: i32
  cs_long_arg :: bool
  cs_star_width :: bool
  cs_star_prec :: bool
  cs_conv :: rchar

datatype pf_dir = Lit rchar | Conv conv_spec

definition is_conv :: "rchar \<Rightarrow> bool" where
  "is_conv c \<longleftrightarrow> c \<in> set [0x64, 0x69, 0x75, 0x78, 0x58, 0x6F, 0x66, 0x46, 0x65, 0x45, 0x67, 0x47, 0x63, 0x73, 0x70]"

definition is_length_mod :: "rchar \<Rightarrow> bool" where
  "is_length_mod c \<longleftrightarrow> c \<in> set [0x6C, 0x68, 0x7A, 0x6A, 0x74, 0x4C]"

definition is_ascii_digit :: "rchar \<Rightarrow> bool" where
  "is_ascii_digit c \<longleftrightarrow> 0x30 \<le> c \<and> c \<le> 0x39"

datatype pf_state = PfLiteral | PfPercent | PfWidth | PfPrecision | PfDone

record printf_scan =
  pf_st :: pf_state
  pf_dirs :: "pf_dir list"
  f_zero :: bool
  f_left :: bool
  pf_width :: u32
  pf_prec :: i32
  pf_long_arg :: bool
  pf_star_width :: bool
  pf_star_prec :: bool

definition pf_create :: printf_scan where
  "pf_create = \<lparr>pf_st = PfLiteral, pf_dirs = [], f_zero = False, f_left = False, pf_width = 0, pf_prec = -1,
     pf_long_arg = False, pf_star_width = False, pf_star_prec = False\<rparr>"

definition pf_push :: "pf_dir list \<Rightarrow> printf_scan \<Rightarrow> printf_scan" where
  "pf_push ds s = s\<lparr>pf_dirs := pf_dirs s @ ds\<rparr>"

definition pf_spec :: "rchar \<Rightarrow> printf_scan \<Rightarrow> conv_spec" where
  "pf_spec c s = \<lparr>cs_zero = f_zero s, cs_left = f_left s, cs_width = pf_width s, cs_prec = pf_prec s,
     cs_long_arg = pf_long_arg s, cs_star_width = pf_star_width s, cs_star_prec = pf_star_prec s, cs_conv = c\<rparr>"

definition pf_emit :: "rchar \<Rightarrow> printf_scan \<Rightarrow> printf_scan" where
  "pf_emit c s = (pf_push [Conv (pf_spec c s)] s)\<lparr>pf_st := PfLiteral\<rparr>"

definition pf_length_mod :: "rchar \<Rightarrow> printf_scan \<Rightarrow> printf_scan" where
  "pf_length_mod c s = (if c = 0x6C then s\<lparr>pf_long_arg := True\<rparr> else s)"

definition consume_literal :: "rchar \<Rightarrow> printf_scan \<Rightarrow> printf_scan" where
  "consume_literal c s =
     (if c = 0x25 then s\<lparr>f_zero := False, f_left := False, pf_width := 0, pf_prec := -1, pf_long_arg := False,
        pf_star_width := False, pf_star_prec := False, pf_st := PfPercent\<rparr>
      else pf_push [Lit c] s)"

definition consume_percent :: "rchar \<Rightarrow> printf_scan \<Rightarrow> printf_scan" where
  "consume_percent c s =
     (if c = 0x25 then (pf_push [Lit 0x25] s)\<lparr>pf_st := PfLiteral\<rparr>
      else if c = 0x30 then s\<lparr>f_zero := True, pf_st := PfWidth\<rparr>
      else if c = 0x2D then s\<lparr>f_left := True, pf_st := PfWidth\<rparr>
      else if c = 0x2B \<or> c = 0x20 \<or> c = 0x23 then s\<lparr>pf_st := PfWidth\<rparr>
      else if c = 0x2E then s\<lparr>pf_prec := 0, pf_st := PfPrecision\<rparr>
      else if c = 0x2A then s\<lparr>pf_star_width := True, pf_st := PfWidth\<rparr>
      else if is_length_mod c then pf_length_mod c s
      else if is_ascii_digit c then s\<lparr>pf_width := c - 0x30, pf_st := PfWidth\<rparr>
      else if is_conv c then pf_emit c s
      else (pf_push [Lit 0x25, Lit c] s)\<lparr>pf_st := PfLiteral\<rparr>)"

definition consume_width :: "rchar \<Rightarrow> printf_scan \<Rightarrow> printf_scan" where
  "consume_width c s =
     (if is_ascii_digit c then s\<lparr>pf_width := pf_width s * 10 + (c - 0x30)\<rparr>
      else if c = 0x2D then s\<lparr>f_left := True\<rparr>
      else if c = 0x2E then s\<lparr>pf_prec := 0, pf_st := PfPrecision\<rparr>
      else if is_length_mod c then pf_length_mod c s
      else if is_conv c then pf_emit c s
      else (pf_push [Lit c] s)\<lparr>pf_st := PfLiteral\<rparr>)"

definition consume_precision :: "rchar \<Rightarrow> printf_scan \<Rightarrow> printf_scan" where
  "consume_precision c s =
     (if is_ascii_digit c then s\<lparr>pf_prec := pf_prec s * 10 + (c - 0x30)\<rparr>
      else if c = 0x2A then s\<lparr>pf_star_prec := True\<rparr>
      else if is_length_mod c then pf_length_mod c s
      else if is_conv c then pf_emit c s
      else (pf_push [Lit c] s)\<lparr>pf_st := PfLiteral\<rparr>)"

definition pf_consume :: "rchar \<Rightarrow> printf_scan \<Rightarrow> printf_scan" where
  "pf_consume c s = (case pf_st s of
       PfLiteral \<Rightarrow> consume_literal c s
     | PfPercent \<Rightarrow> consume_percent c s
     | PfWidth \<Rightarrow> consume_width c s
     | PfPrecision \<Rightarrow> consume_precision c s
     | PfDone \<Rightarrow> s)"

definition pf_finalize :: "printf_scan \<Rightarrow> printf_scan" where
  "pf_finalize s = (if pf_st s = PfDone then s else s\<lparr>pf_st := PfDone\<rparr>)"

section \<open>Rendering\<close>

datatype arg = AInt i64 | AUInt u64 | AFloat u64 | AStr nat | AChar u8 | APtr nat

text \<open>\<open>char::encode_utf8\<close>.\<close>

definition push_char :: "rchar \<Rightarrow> bytes" where
  "push_char c =
     (if c < 0x80 then [ucast c]
      else if c < 0x800 then [ucast (drop_bit 6 c) OR 0xC0, ucast (c AND 0x3F) OR 0x80]
      else if c < 0x10000 then [ucast (drop_bit 12 c) OR 0xE0, ucast (drop_bit 6 c AND 0x3F) OR 0x80, ucast (c AND 0x3F) OR 0x80]
      else [ucast (drop_bit 18 c) OR 0xF0, ucast (drop_bit 12 c AND 0x3F) OR 0x80, ucast (drop_bit 6 c AND 0x3F) OR 0x80, ucast (c AND 0x3F) OR 0x80])"

definition uint_of :: "arg option \<Rightarrow> u64" where
  "uint_of a = (case a of Some (AUInt n) \<Rightarrow> n | Some (AInt n) \<Rightarrow> n | Some (APtr p) \<Rightarrow> of_nat p | _ \<Rightarrow> 0)"

definition float_of :: "arg option \<Rightarrow> u64" where
  "float_of a = (case a of Some (AFloat f) \<Rightarrow> f | _ \<Rightarrow> 0)"

definition LOWER :: bytes where
  "LOWER = [0x30, 0x31, 0x32, 0x33, 0x34, 0x35, 0x36, 0x37, 0x38, 0x39, 0x61, 0x62, 0x63, 0x64, 0x65, 0x66]"

definition UPPER :: bytes where
  "UPPER = [0x30, 0x31, 0x32, 0x33, 0x34, 0x35, 0x36, 0x37, 0x38, 0x39, 0x41, 0x42, 0x43, 0x44, 0x45, 0x46]"

text \<open>The digit loops write a buffer from the right; \<open>i\<close> is the index of the last byte written.\<close>

fun fmt_loop :: "(u64 \<Rightarrow> u8 option) \<Rightarrow> u64 \<Rightarrow> u64 \<Rightarrow> bytes \<Rightarrow> nat \<Rightarrow> (nat \<times> bytes) option" where
  "fmt_loop digit base v out 0 = (if v > 0 then None else Some (0, out))"
| "fmt_loop digit base v out (Suc i) =
     (if v > 0 then do { d \<leftarrow> digit (v mod base); fmt_loop digit base (v div base) (out[i := d]) i } else Some (Suc i, out))"

definition put_left :: "u8 \<Rightarrow> nat \<times> bytes \<Rightarrow> (nat \<times> bytes) option" where
  "put_left b st = (case st of (0, out) \<Rightarrow> None | (Suc i, out) \<Rightarrow> Some (i, out[i := b]))"

definition fmt_uint :: "u64 \<Rightarrow> u64 \<Rightarrow> bool \<Rightarrow> bytes \<Rightarrow> (nat \<times> bytes) option" where
  "fmt_uint v base upper out =
     (let digits = (if upper then UPPER else LOWER); i = length out
      in if v = 0 then put_left 0x30 (i, out) else fmt_loop (\<lambda>d. index digits (unat d)) base v out i)"

definition unsigned_abs :: "i64 \<Rightarrow> u64" where
  "unsigned_abs v = (if sint v < 0 then - v else v)"

definition fmt_int :: "i64 \<Rightarrow> bytes \<Rightarrow> (nat \<times> bytes) option" where
  "fmt_int v out = do {
     let m = unsigned_abs v;
     let i = length out;
     st \<leftarrow> (if m = 0 then put_left 0x30 (i, out) else fmt_loop (\<lambda>d. Some (0x30 + ucast d)) 10 m out i);
     if sint v < 0 then put_left 0x2D st else Some st }"

definition pad_and_emit :: "bytes \<Rightarrow> bool \<Rightarrow> bool \<Rightarrow> nat \<Rightarrow> bytes" where
  "pad_and_emit body left zero width =
     (let pad = width - length body
      in if pad = 0 then body
         else if left then body @ replicate pad 0x20
         else if zero then
           (if body \<noteq> [] \<and> hd body = 0x2D then [0x2D] @ replicate pad 0x30 @ tl body else replicate pad 0x30 @ body)
         else replicate pad 0x20 @ body)"

text \<open>\<open>Vec::resize\<close> sets the length of the whole vector.\<close>

definition vec_resize :: "nat \<Rightarrow> 'a \<Rightarrow> 'a list \<Rightarrow> 'a list" where
  "vec_resize n x xs = take n xs @ replicate (n - length xs) x"

definition apply_int_prec :: "bytes \<Rightarrow> i32 \<Rightarrow> bytes \<Rightarrow> bytes" where
  "apply_int_prec digits prec dst =
     (let p = (if sint prec < 0 then 0 else unat prec);
          dst = (if length digits < p then vec_resize (p - length digits) 0x30 dst else dst)
      in dst @ digits)"

type_synonym float_fmt = "rchar \<Rightarrow> u64 \<Rightarrow> i32 \<Rightarrow> bytes"

definition render_int :: "bool \<Rightarrow> bool \<Rightarrow> nat \<Rightarrow> i32 \<Rightarrow> arg option \<Rightarrow> bytes option" where
  "render_int zero left width prec a = do {
     let v = (case a of Some (AInt n) \<Rightarrow> n | Some (AUInt n) \<Rightarrow> n | _ \<Rightarrow> 0);
     (i, tmp) \<leftarrow> fmt_int v (replicate 32 0);
     if sint prec < 0 then do { ds \<leftarrow> sub_slice tmp i (length tmp); Some (pad_and_emit ds left zero width) }
     else do {
       body \<leftarrow> (if sint v < 0 then do { ds \<leftarrow> sub_slice tmp (i + 1) (length tmp); Some (apply_int_prec ds prec [0x2D]) }
               else do { ds \<leftarrow> sub_slice tmp i (length tmp); Some (apply_int_prec ds prec []) });
       Some (pad_and_emit body left False width) } }"

definition render_uint :: "rchar \<Rightarrow> bool \<Rightarrow> bool \<Rightarrow> nat \<Rightarrow> i32 \<Rightarrow> arg option \<Rightarrow> bytes option" where
  "render_uint conv zero left width prec a = do {
     let base = (if conv = 0x6F then 8 else if conv = 0x75 then 10 else 16);
     (i, tmp) \<leftarrow> fmt_uint (uint_of a) base (conv = 0x58) (replicate 32 0);
     ds \<leftarrow> sub_slice tmp i (length tmp);
     if sint prec < 0 then Some (pad_and_emit ds left zero width)
     else Some (pad_and_emit (apply_int_prec ds prec []) left False width) }"

definition render_str :: "mem \<Rightarrow> bool \<Rightarrow> nat \<Rightarrow> i32 \<Rightarrow> arg option \<Rightarrow> bytes option" where
  "render_str mem left width prec a = do {
     let p = (case a of Some (AStr p) \<Rightarrow> p | _ \<Rightarrow> 0);
     s \<leftarrow> (if p = 0 then Some [0x28, 0x6E, 0x75, 0x6C, 0x6C, 0x29]
           else do { n \<leftarrow> strlen mem p; Some (mbytes mem p n) });
     s \<leftarrow> (if 0 \<le> sint prec \<and> unat prec < length s then sub_slice s 0 (unat prec) else Some s);
     Some (pad_and_emit s left False width) }"

definition render_conv :: "float_fmt \<Rightarrow> mem \<Rightarrow> rchar \<Rightarrow> bool \<Rightarrow> bool \<Rightarrow> nat \<Rightarrow> i32 \<Rightarrow> arg option \<Rightarrow> bytes option" where
  "render_conv ff mem conv zero left width prec a =
     (let zero = (zero \<and> sint prec < 0)
      in if conv = 0x64 \<or> conv = 0x69 then render_int zero left width prec a
         else if conv = 0x75 \<or> conv = 0x78 \<or> conv = 0x58 \<or> conv = 0x6F then render_uint conv zero left width prec a
         else if conv = 0x70 then do {
           (i, tmp) \<leftarrow> fmt_uint (uint_of a) 16 False (replicate 32 0);
           ds \<leftarrow> sub_slice tmp i (length tmp);
           Some ([0x30, 0x78] @ ds) }
         else if conv \<in> set [0x66, 0x46, 0x65, 0x45, 0x67, 0x47] then
           Some (pad_and_emit (ff conv (float_of a) prec) left zero width)
         else if conv = 0x63 then
           (let b = (case a of Some (AChar b) \<Rightarrow> b | Some (AInt n) \<Rightarrow> ucast n | _ \<Rightarrow> 0) in Some (pad_and_emit [b] left False width))
         else if conv = 0x73 then render_str mem left width prec a
         else Some [])"

section \<open>Front ends\<close>

text \<open>\<open>vformat\<close> takes its arguments from a slice.\<close>

fun vformat_dirs :: "float_fmt \<Rightarrow> mem \<Rightarrow> arg list \<Rightarrow> pf_dir list \<Rightarrow> nat \<Rightarrow> bytes option" where
  "vformat_dirs ff mem args [] ai = Some []"
| "vformat_dirs ff mem args (Lit c # ds) ai = do { r \<leftarrow> vformat_dirs ff mem args ds ai; Some (push_char c @ r) }"
| "vformat_dirs ff mem args (Conv cs # ds) ai = do {
     b \<leftarrow> render_conv ff mem (cs_conv cs) (cs_zero cs) (cs_left cs) (unat (cs_width cs)) (cs_prec cs) (if ai < length args then Some (args ! ai) else None);
     r \<leftarrow> vformat_dirs ff mem args ds (ai + 1);
     Some (b @ r) }"

definition vformat :: "float_fmt \<Rightarrow> mem \<Rightarrow> rchar list \<Rightarrow> arg list \<Rightarrow> bytes option" where
  "vformat ff mem fmt args = vformat_dirs ff mem args (pf_dirs (pf_finalize (fold pf_consume fmt pf_create))) 0"

text \<open>\<open>VaArgs\<close>: the general-purpose and SSE save areas and the stack overflow area, by address.\<close>

record va_args =
  va_gp :: nat
  va_gp_off :: nat
  va_gp_max :: nat
  va_fp :: nat
  va_fp_off :: nat
  va_fp_max :: nat
  va_ov :: nat
  va_ov_off :: nat

definition from_spill :: "nat \<Rightarrow> nat \<Rightarrow> nat \<Rightarrow> nat \<Rightarrow> va_args" where
  "from_spill gp ngp fp ov = \<lparr>va_gp = gp, va_gp_off = 0, va_gp_max = ngp * 8, va_fp = fp, va_fp_off = 0, va_fp_max = 8 * 16,
     va_ov = ov, va_ov_off = 0\<rparr>"

definition from_valist :: "nat \<Rightarrow> nat \<Rightarrow> nat \<Rightarrow> nat \<Rightarrow> va_args" where
  "from_valist reg_save gp_offset fp_offset ov = \<lparr>va_gp = reg_save, va_gp_off = gp_offset, va_gp_max = 48, va_fp = reg_save,
     va_fp_off = fp_offset, va_fp_max = 176, va_ov = ov, va_ov_off = 0\<rparr>"

definition next_gp :: "mem \<Rightarrow> va_args \<Rightarrow> u64 \<times> va_args" where
  "next_gp mem va =
     (if va_gp_off va < va_gp_max va then (rd64 mem (va_gp va + va_gp_off va), va\<lparr>va_gp_off := va_gp_off va + 8\<rparr>)
      else (rd64 mem (va_ov va + va_ov_off va), va\<lparr>va_ov_off := va_ov_off va + 8\<rparr>))"

definition next_fp :: "mem \<Rightarrow> va_args \<Rightarrow> u64 \<times> va_args" where
  "next_fp mem va =
     (if va_fp_off va < va_fp_max va then (rd64 mem (va_fp va + va_fp_off va), va\<lparr>va_fp_off := va_fp_off va + 16\<rparr>)
      else (rd64 mem (va_ov va + va_ov_off va), va\<lparr>va_ov_off := va_ov_off va + 8\<rparr>))"

definition va_value :: "mem \<Rightarrow> conv_spec \<Rightarrow> va_args \<Rightarrow> (arg \<times> va_args) option" where
  "va_value mem cs va =
     (let conv = cs_conv cs; (g, va') = next_gp mem va
      in if conv = 0x64 \<or> conv = 0x69 then Some (AInt (if cs_long_arg cs then g else scast (ucast g :: u32)), va')
         else if conv = 0x75 \<or> conv = 0x78 \<or> conv = 0x58 \<or> conv = 0x6F then Some (AUInt (if cs_long_arg cs then g else ucast (ucast g :: u32)), va')
         else if conv \<in> set [0x66, 0x46, 0x65, 0x45, 0x67, 0x47] then (let (f, va') = next_fp mem va in Some (AFloat f, va'))
         else if conv = 0x63 then Some (AChar (ucast g), va')
         else if conv = 0x73 then Some (AStr (unat g), va')
         else if conv = 0x70 then Some (APtr (unat g), va')
         else None)"

definition va_width :: "mem \<Rightarrow> conv_spec \<Rightarrow> va_args \<Rightarrow> bool \<times> nat \<times> va_args" where
  "va_width mem cs va =
     (if cs_star_width cs then
        (let (g, va) = next_gp mem va; w = (ucast g :: i32)
         in if sint w < 0 then (True, unat (- w), va) else (cs_left cs, unat w, va))
      else (cs_left cs, unat (cs_width cs), va))"

definition va_prec :: "mem \<Rightarrow> conv_spec \<Rightarrow> va_args \<Rightarrow> i32 \<times> va_args" where
  "va_prec mem cs va =
     (if cs_star_prec cs then (let (g, va) = next_gp mem va; p = (ucast g :: i32) in (if sint p < 0 then -1 else p, va))
      else (cs_prec cs, va))"

fun vformat_va_dirs :: "float_fmt \<Rightarrow> mem \<Rightarrow> pf_dir list \<Rightarrow> va_args \<Rightarrow> (bytes \<times> va_args) option" where
  "vformat_va_dirs ff mem [] va = Some ([], va)"
| "vformat_va_dirs ff mem (Lit c # ds) va = do { (r, va) \<leftarrow> vformat_va_dirs ff mem ds va; Some (push_char c @ r, va) }"
| "vformat_va_dirs ff mem (Conv cs # ds) va = do {
     let (left, width, va) = va_width mem cs va;
     let (prec, va) = va_prec mem cs va;
     (case va_value mem cs va of
        None \<Rightarrow> vformat_va_dirs ff mem ds va
      | Some (a, va) \<Rightarrow> do {
          b \<leftarrow> render_conv ff mem (cs_conv cs) (cs_zero cs) left width prec (Some a);
          (r, va) \<leftarrow> vformat_va_dirs ff mem ds va;
          Some (b @ r, va) }) }"

partial_function (option) scan_fmt :: "mem \<Rightarrow> nat \<Rightarrow> printf_scan \<Rightarrow> printf_scan option" where
  "scan_fmt mem p sc = (if mem p \<noteq> 0 then scan_fmt mem (p + 1) (pf_consume (ucast (mem p)) sc) else Some sc)"

definition vformat_va :: "float_fmt \<Rightarrow> mem \<Rightarrow> nat \<Rightarrow> va_args \<Rightarrow> (bytes \<times> va_args) option" where
  "vformat_va ff mem fmt va = do {
     sc \<leftarrow> scan_fmt mem fmt pf_create;
     vformat_va_dirs ff mem (pf_dirs (pf_finalize sc)) va }"

definition emit_to_buf :: "mem \<Rightarrow> nat \<Rightarrow> nat \<Rightarrow> bytes \<Rightarrow> i32 \<times> mem" where
  "emit_to_buf mem out n bs =
     (let mem' = (if out \<noteq> 0 \<and> 0 < n then
                    (let t = min (length bs) (n - 1) in (mstore mem out (take t bs))(out + t := 0))
                  else mem)
      in (of_nat (length bs), mem'))"

text \<open>The targets of the variadic trampolines; \<open>printf\<close> also returns the bytes it wrote to descriptor 1.\<close>

definition vprintf_impl :: "float_fmt \<Rightarrow> mem \<Rightarrow> nat \<Rightarrow> nat \<Rightarrow> nat \<Rightarrow> nat \<Rightarrow> (i32 \<times> bytes) option" where
  "vprintf_impl ff mem fmt gp fp ov = do {
     (bs, _) \<leftarrow> vformat_va ff mem fmt (from_spill gp 5 fp ov);
     Some (of_nat (length bs), bs) }"

definition vsnprintf_impl :: "float_fmt \<Rightarrow> mem \<Rightarrow> nat \<Rightarrow> nat \<Rightarrow> nat \<Rightarrow> nat \<Rightarrow> nat \<Rightarrow> nat \<Rightarrow> (i32 \<times> mem) option" where
  "vsnprintf_impl ff mem out n fmt gp fp ov = do {
     (bs, _) \<leftarrow> vformat_va ff mem fmt (from_spill gp 3 fp ov);
     Some (emit_to_buf mem out n bs) }"

definition vsprintf_impl :: "float_fmt \<Rightarrow> mem \<Rightarrow> nat \<Rightarrow> nat \<Rightarrow> nat \<Rightarrow> nat \<Rightarrow> nat \<Rightarrow> (i32 \<times> mem) option" where
  "vsprintf_impl ff mem out fmt gp fp ov = do {
     (bs, _) \<leftarrow> vformat_va ff mem fmt (from_spill gp 4 fp ov);
     Some (emit_to_buf mem out (2 ^ 64 - 1) bs) }"

text \<open>\<open>vsnprintf\<close> reads the caller's \<open>va_list\<close>: two 32-bit offsets and two pointers.\<close>

definition vsnprintf :: "float_fmt \<Rightarrow> mem \<Rightarrow> nat \<Rightarrow> nat \<Rightarrow> nat \<Rightarrow> nat \<Rightarrow> (i32 \<times> mem) option" where
  "vsnprintf ff mem out n fmt ap =
     (if ap = 0 then Some (emit_to_buf mem out n [])
      else do {
        let va = from_valist (unat (rd64 mem (ap + 16))) (unat (rd32 mem ap)) (unat (rd32 mem (ap + 4))) (unat (rd64 mem (ap + 8)));
        (bs, _) \<leftarrow> vformat_va ff mem fmt va;
        Some (emit_to_buf mem out n bs) })"

end
