(* ===== verification/PrintfInv.thy ===== *)
theory PrintfInv
  imports Printf
begin

text \<open>
  Correctness of formatted output: the digit loops produce the positional notation of their
  argument and never overrun their buffer, formatting returns for every format, \<open>snprintf\<close> stays
  inside its buffer, and what it prints is read back by \<open>strtol\<close> and \<open>sscanf\<close>.
\<close>

section \<open>Positional notation\<close>

function digs :: "nat \<Rightarrow> nat \<Rightarrow> nat list" where
  "digs b n = (if n = 0 \<or> b < 2 then [] else digs b (n div b) @ [n mod b])"
  by pat_completeness auto
termination by (relation "measure snd") auto

declare digs.simps [simp del]

lemma digs_bound: "2 \<le> b \<Longrightarrow> d \<in> set (digs b n) \<Longrightarrow> d < b"
  by (induction b n rule: digs.induct) (subst (asm) (2) digs.simps, auto split: if_splits)

lemma length_digs: "n < b ^ k \<Longrightarrow> length (digs b n) \<le> k"
proof (induction k arbitrary: n)
  case 0
  then show ?case by (subst digs.simps) simp
next
  case (Suc k)
  have "length (digs b (n div b)) \<le> k" if "2 \<le> b"
    using Suc.prems that by (intro Suc.IH) (simp add: less_mult_imp_div_less mult.commute)
  then show ?case by (subst digs.simps) simp
qed

lemma digs_Nil_iff: "2 \<le> b \<Longrightarrow> digs b n = [] \<longleftrightarrow> n = 0"
  by (subst digs.simps) simp

lemma num_digs:
  assumes "2 \<le> b" and "\<And>d. d < b \<Longrightarrow> dv (dg d) = d"
  shows "num b (map dg (digs b n)) = n"
proof (induction n rule: less_induct)
  case (less n)
  show ?case
  proof (cases "n = 0")
    case False
    then have "num b (map dg (digs b (n div b))) = n div b" using assms(1) by (intro less.IH) simp
    moreover have "dv (dg (n mod b)) = n mod b" using assms by simp
    ultimately show ?thesis using False assms(1) by (subst digs.simps) simp
  qed (subst digs.simps, simp)
qed

section \<open>The digit loops\<close>

lemma fmt_loop_spec:
  assumes base: "2 \<le> unat base" and dig: "\<And>d. unat d < unat base \<Longrightarrow> digit d = Some (dg (unat d))"
  shows "length (digs (unat base) (unat v)) \<le> i \<Longrightarrow> i \<le> length out \<Longrightarrow>
    \<exists>out'. fmt_loop digit base v out i = Some (i - length (digs (unat base) (unat v)), out')
      \<and> drop (i - length (digs (unat base) (unat v))) out' = map dg (digs (unat base) (unat v)) @ drop i out
      \<and> length out' = length out"
proof (induction i arbitrary: v out)
  case 0
  then have "unat v = 0" using digs_Nil_iff [OF base, of "unat v"] by simp
  then have v: "v = 0" by (simp add: unat_eq_zero)
  then show ?case by (simp add: digs.simps [of _ 0])
next
  case (Suc i)
  show ?case
  proof (cases "v = 0")
    case True
    then show ?thesis by (simp add: digs.simps [of _ 0])
  next
    case False
    then have pos: "v > 0" "unat v \<noteq> 0" by (simp_all add: word_gt_0 unat_eq_zero)
    have d: "unat (v div base) = unat v div unat base" "unat (v mod base) = unat v mod unat base"
      by (simp_all add: unat_div_distrib unat_mod_distrib)
    have e: "digs (unat base) (unat v) = digs (unat base) (unat (v div base)) @ [unat (v mod base)]"
      using pos(2) base d by (subst digs.simps) simp
    have m: "unat (v mod base) < unat base" using d(2) base by simp
    let ?out = "out[i := dg (unat (v mod base))]"
    obtain out' where o': "fmt_loop digit base (v div base) ?out i = Some (i - length (digs (unat base) (unat (v div base))), out')"
        "drop (i - length (digs (unat base) (unat (v div base)))) out' = map dg (digs (unat base) (unat (v div base))) @ drop i ?out"
        "length out' = length out"
      using Suc.IH [of "v div base" ?out] Suc.prems e by auto
    have "drop i ?out = dg (unat (v mod base)) # drop (Suc i) out"
      using Suc.prems(2) by (simp add: Cons_nth_drop_Suc [symmetric])
    then show ?thesis using o' pos(1) dig [OF m] e by auto
  qed
qed

text \<open>The text of a number: the digits most significant first, \<open>0\<close> for zero, a sign in front.\<close>

definition uint_text :: "(nat \<Rightarrow> u8) \<Rightarrow> nat \<Rightarrow> u64 \<Rightarrow> bytes" where
  "uint_text dg b v = (if v = 0 then [0x30] else map dg (digs b (unat v)))"

definition dec_digit :: "nat \<Rightarrow> u8" where
  "dec_digit d = 0x30 + of_nat d"

definition int_text :: "i64 \<Rightarrow> bytes" where
  "int_text v = (if sint v < 0 then [0x2D] else []) @ uint_text dec_digit 10 (unsigned_abs v)"

lemma put_left_spec:
  "0 < i \<Longrightarrow> i \<le> length out \<Longrightarrow> put_left b (i, out) = Some (i - 1, out[i - 1 := b]) \<and> drop (i - 1) (out[i - 1 := b]) = b # drop i out"
  by (cases i) (simp_all add: put_left_def Cons_nth_drop_Suc [symmetric])

lemma digs_64: "8 \<le> b \<Longrightarrow> length (digs b (unat (v :: u64))) \<le> 22"
proof (rule length_digs)
  assume "8 \<le> b"
  have "unat v < 2 ^ 64" using unsigned_less [of v] by simp
  also have "(2 :: nat) ^ 64 \<le> 8 ^ 22" by simp
  also have "(8 :: nat) ^ 22 \<le> b ^ 22" using \<open>8 \<le> b\<close> by (intro power_mono) simp_all
  finally show "unat v < b ^ 22" .
qed

lemma digits_spec:
  assumes b: "8 \<le> unat base" and dig: "\<And>d. unat d < unat base \<Longrightarrow> digit d = Some (dg (unat d))"
  shows "\<exists>i tmp. (if v = 0 then put_left 0x30 (32, replicate 32 0) else fmt_loop digit base v (replicate 32 0) 32) = Some (i, tmp)
    \<and> drop i tmp = uint_text dg (unat base) v \<and> 0 < i \<and> i \<le> length tmp \<and> length tmp = 32"
proof (cases "v = 0")
  case True
  then show ?thesis using put_left_spec [of 32 "replicate 32 0" "0x30"] by (auto simp: uint_text_def)
next
  case False
  have l: "length (digs (unat base) (unat v)) \<le> 22" by (rule digs_64 [OF b])
  obtain tmp where "fmt_loop digit base v (replicate 32 0) 32 = Some (32 - length (digs (unat base) (unat v)), tmp)"
      "drop (32 - length (digs (unat base) (unat v))) tmp = map dg (digs (unat base) (unat v)) @ drop 32 (replicate 32 0)"
      "length tmp = length (replicate 32 (0 :: u8))"
    using fmt_loop_spec [of base digit dg v 32 "replicate 32 0"] b dig l by auto
  then show ?thesis using False l by (auto simp: uint_text_def)
qed

lemma sub_slice_from: "drop i xs = ys \<Longrightarrow> ys \<noteq> [] \<Longrightarrow>
    sub_slice xs i (length xs) = Some ys \<and> sub_slice xs (i + 1) (length xs) = Some (tl ys)"
  by (auto simp: sub_slice_def drop_Suc tl_drop)

lemma uint_text_nonempty: "uint_text dg b v \<noteq> []" if "2 \<le> b"
  using that by (auto simp: uint_text_def, subst (asm) digs.simps) (auto simp: unat_eq_zero split: if_splits)

lemma fmt_int_drop:
  "\<exists>i tmp. fmt_int v (replicate 32 0) = Some (i, tmp) \<and> drop i tmp = int_text v"
proof -
  have "unat (10 :: u64) = 10" by simp
  moreover have "(0x30 + ucast d :: u8) = dec_digit (unat d)" for d :: u64
    by (simp add: dec_digit_def)
  ultimately obtain i tmp where i: "(if unsigned_abs v = 0 then put_left 0x30 (32, replicate 32 0)
        else fmt_loop (\<lambda>d. Some (0x30 + ucast d)) 10 (unsigned_abs v) (replicate 32 0) 32) = Some (i, tmp)"
      "drop i tmp = uint_text dec_digit 10 (unsigned_abs v)" "0 < i" "i \<le> length tmp" "length tmp = 32"
    using digits_spec [of 10 "\<lambda>d. Some (0x30 + ucast d)" dec_digit "unsigned_abs v"] by auto
  show ?thesis
  proof (cases "sint v < 0")
    case True
    let ?out = "tmp[i - 1 := 0x2D]"
    have p: "put_left 0x2D (i, tmp) = Some (i - 1, ?out)" "drop (i - 1) ?out = 0x2D # drop i tmp"
      using put_left_spec [OF i(3,4)] by auto
    have "drop (i - 1) ?out = int_text v" using p(2) i(2) True by (simp add: int_text_def)
    then show ?thesis using i(1,5) p(1) True by (simp add: fmt_int_def)
  next
    case False
    then show ?thesis using i(1,2,5) by (auto simp: fmt_int_def int_text_def)
  qed
qed

lemma fmt_int_spec:
  "\<exists>i tmp. fmt_int v (replicate 32 0) = Some (i, tmp) \<and> sub_slice tmp i (length tmp) = Some (int_text v)
     \<and> sub_slice tmp (i + 1) (length tmp) = Some (tl (int_text v))"
proof -
  have "int_text v \<noteq> []" using uint_text_nonempty [of 10 dec_digit "unsigned_abs v"] by (simp add: int_text_def)
  then show ?thesis using fmt_int_drop [of v] sub_slice_from by blast
qed

definition table_digit :: "bool \<Rightarrow> nat \<Rightarrow> u8" where
  "table_digit upper d = (if upper then UPPER else LOWER) ! d"

lemma fmt_uint_spec:
  assumes "base = 8 \<or> base = 10 \<or> base = 16"
  shows "\<exists>i tmp. fmt_uint v base upper (replicate 32 0) = Some (i, tmp)
     \<and> sub_slice tmp i (length tmp) = Some (uint_text (table_digit upper) (unat base) v)"
proof -
  have b: "8 \<le> unat base" "unat base \<le> 16" using assms by auto
  have "length (if upper then UPPER else LOWER) = 16" by (simp add: UPPER_def LOWER_def)
  then have d: "index (if upper then UPPER else LOWER) (unat d) = Some (table_digit upper (unat d))" if "unat d < unat base" for d :: u64
    using that b(2) by (simp add: index_def table_digit_def)
  have "\<exists>i tmp. (if v = 0 then put_left 0x30 (32, replicate 32 0)
        else fmt_loop (\<lambda>d. index (if upper then UPPER else LOWER) (unat d)) base v (replicate 32 0) 32) = Some (i, tmp)
    \<and> drop i tmp = uint_text (table_digit upper) (unat base) v \<and> 0 < i \<and> i \<le> length tmp \<and> length tmp = 32"
    by (rule digits_spec [OF b(1)]) (rule d)
  moreover have "uint_text (table_digit upper) (unat base) v \<noteq> []" using b(1) by (intro uint_text_nonempty) simp
  ultimately show ?thesis unfolding fmt_uint_def Let_def length_replicate using sub_slice_from by blast
qed

section \<open>Formatting returns\<close>

lemma render_conv_total:
  assumes "\<And>p. \<exists>xs. cstr mem p xs"
  shows "\<exists>bs. render_conv ff mem conv zero left width prec a = Some bs"
proof -
  have u: "\<exists>i tmp ds. fmt_uint v base up (replicate 32 0) = Some (i, tmp) \<and> sub_slice tmp i (length tmp) = Some ds"
    if "base = 8 \<or> base = 10 \<or> base = 16" for v base up
    using fmt_uint_spec [OF that, of v up] by blast
  have s: "\<exists>n. strlen mem p = Some n" for p using assms [of p] strlen_spec by blast
  have "\<exists>bs. render_int z left width prec a = Some bs" for z
    using fmt_int_spec [of "case a of Some (AInt n) \<Rightarrow> n | Some (AUInt n) \<Rightarrow> n | _ \<Rightarrow> 0"]
    unfolding render_int_def Let_def by (elim exE) simp
  moreover have "\<exists>bs. render_uint conv z left width prec a = Some bs" for z
    using u [of "if conv = 0x6F then 8 else if conv = 0x75 then 10 else 16" "uint_of a" "conv = 0x58"]
    unfolding render_uint_def Let_def by (auto split: if_split)
  moreover have "\<exists>bs. render_str mem left width prec a = Some bs"
    using s [of "case a of Some (AStr p) \<Rightarrow> p | _ \<Rightarrow> 0"] by (auto simp: render_str_def Let_def sub_slice_def)
  moreover have "\<exists>i tmp ds. fmt_uint (uint_of a) 16 False (replicate 32 0) = Some (i, tmp)
      \<and> sub_slice tmp i (length tmp) = Some ds" by (rule u) simp
  ultimately show ?thesis unfolding render_conv_def Let_def by auto
qed

lemma vformat_va_dirs_total:
  assumes "\<And>p. \<exists>xs. cstr mem p xs"
  shows "\<exists>bs va'. vformat_va_dirs ff mem ds va = Some (bs, va')"
proof (induction ds arbitrary: va)
  case (Cons d ds)
  show ?case
  proof (cases d)
    case (Lit c)
    then show ?thesis using Cons.IH [of va] by auto
  next
    case (Conv cs)
    obtain left width va1 where w: "va_width mem cs va = (left, width, va1)" by (metis prod_cases3)
    obtain prec va2 where p: "va_prec mem cs va1 = (prec, va2)" by fastforce
    show ?thesis
    proof (cases "va_value mem cs va2")
      case None
      then show ?thesis using Cons.IH [of va2] by (simp add: Conv w p)
    next
      case (Some av)
      obtain a va3 where av: "av = (a, va3)" by fastforce
      obtain b where "render_conv ff mem (cs_conv cs) (cs_zero cs) left width prec (Some a) = Some b"
        using render_conv_total assms by blast
      then show ?thesis using Cons.IH [of va3] Some by (auto simp: Conv w p av)
    qed
  qed
qed simp

lemma scan_fmt_spec: "cstr mem p xs \<Longrightarrow> scan_fmt mem p sc = Some (fold (\<lambda>b. pf_consume (ucast b)) xs sc)"
  by (induction xs arbitrary: p sc; subst scan_fmt.simps) auto

lemma vformat_va_eq:
  "cstr mem fmt xs \<Longrightarrow> vformat_va ff mem fmt va =
     vformat_va_dirs ff mem (pf_dirs (fold (\<lambda>b. pf_consume (ucast b)) xs pf_create)) va"
  by (simp add: vformat_va_def scan_fmt_spec pf_finalize_def)

lemma nul_cstr:
  assumes "\<exists>b \<ge> a. mem b = (0 :: u8)"
  shows "\<exists>xs. cstr mem a xs"
proof -
  define n where "n = (LEAST n. mem (a + n) = 0)"
  have ex: "\<exists>n. mem (a + n) = 0" using assms by (metis le_Suc_ex)
  then have "mem (a + n) = 0" unfolding n_def by (rule LeastI_ex)
  moreover have "0 \<notin> set (mbytes mem a n)"
    using not_less_Least [of _ "\<lambda>n. mem (a + n) = 0"] by (auto simp: mbytes_def n_def)
  ultimately show ?thesis by (intro exI [of _ "mbytes mem a n"]) (simp add: cstr_iff)
qed

text \<open>
  Formatting reads nothing out of range and ends, for every format string, every argument
  area and every floating-point renderer, in a memory where every address has a NUL byte
  somewhere behind it: the scanner reaches the end of the format, the digit loops fit their
  32-byte buffer, and the slices of that buffer and of a string cut to its precision are in
  range. The heap is taken to hold the output; a width larger than the heap makes the real
  allocation fail.
\<close>

theorem printf_returns:
  assumes "\<And>a. \<exists>b \<ge> a. mem b = 0"
  shows "\<exists>bs va'. vformat_va ff mem fmt va = Some (bs, va')"
proof -
  have c: "\<exists>xs. cstr mem p xs" for p by (rule nul_cstr [OF assms])
  then obtain xs where "cstr mem fmt xs" by blast
  then show ?thesis using vformat_va_dirs_total [OF c] by (simp add: vformat_va_eq)
qed

theorem printf_returns_witness:
  "\<exists>bs va'. vformat_va (\<lambda>c f p. []) num_text 16 (from_spill 64 3 128 256) = Some (bs, va')"
proof (rule printf_returns)
  show "\<exists>b \<ge> a. num_text b = 0" for a
    by (rule exI [of _ "a + 32"]) (simp add: num_text_def mstore_def)
qed

section \<open>Bounds\<close>

lemma emit_to_buf_spec:
  assumes "emit_to_buf mem out n bs = (r, mem')"
  shows "r = of_nat (length bs)" and "x < out \<or> out + n \<le> x \<Longrightarrow> mem' x = mem x"
    and "out \<noteq> 0 \<Longrightarrow> 0 < n \<Longrightarrow> mbytes mem' out (min (length bs) (n - 1)) = take (n - 1) bs \<and> mem' (out + min (length bs) (n - 1)) = 0"
proof -
  show "r = of_nat (length bs)" using assms by (simp add: emit_to_buf_def)
  let ?t = "min (length bs) (n - 1)"
  have m: "mem' = (mstore mem out (take ?t bs))(out + ?t := 0)" if "out \<noteq> 0" "0 < n"
    using assms that by (simp add: emit_to_buf_def Let_def)
  show "mem' x = mem x" if x: "x < out \<or> out + n \<le> x"
  proof (cases "out \<noteq> 0 \<and> 0 < n")
    case True
    then have "x < out \<or> out + ?t < x" using x by auto
    then show ?thesis using True m mstore_other [of x out "take ?t bs" mem] by auto
  qed (use assms in \<open>auto simp: emit_to_buf_def\<close>)
  assume z: "out \<noteq> 0" "0 < n"
  note m = m [OF z]
  have "mbytes mem' out ?t = take ?t bs"
    by (rule nth_equalityI) (auto simp: m mstore_def)
  moreover have "take ?t bs = take (n - 1) bs" by (simp add: min_def)
  ultimately show "mbytes mem' out ?t = take (n - 1) bs \<and> mem' (out + ?t) = 0" by (simp add: m)
qed

text \<open>
  C36: \<open>snprintf\<close> with a buffer of \<open>n\<close> bytes returns the length of the whole formatted text, changes
  no byte outside the buffer, stores the text cut to \<open>n - 1\<close> bytes and ends it with a NUL, in any
  memory where strings are terminated; with \<open>n = 0\<close> it stores nothing. No slice of a rendered
  number or string is out of range. (The heap is assumed to hold the formatted text.)
\<close>

theorem snprintf_bounds:
  assumes "\<And>a. \<exists>b \<ge> a. mem b = 0" and "out \<noteq> 0"
  shows "\<exists>bs va' mem'. vformat_va ff mem fmt (from_spill gp 3 fp ov) = Some (bs, va')
     \<and> vsnprintf_impl ff mem out n fmt gp fp ov = Some (of_nat (length bs), mem')
     \<and> (\<forall>x. x < out \<or> out + n \<le> x \<longrightarrow> mem' x = mem x)
     \<and> (0 < n \<longrightarrow> mbytes mem' out (min (length bs) (n - 1)) = take (n - 1) bs \<and> mem' (out + min (length bs) (n - 1)) = 0)"
proof -
  have "\<exists>xs. cstr mem p xs" for p by (rule nul_cstr [OF assms(1)])
  then obtain xs where "cstr mem fmt xs" by blast
  then obtain bs va' where f: "vformat_va ff mem fmt (from_spill gp 3 fp ov) = Some (bs, va')"
    using vformat_va_dirs_total [OF \<open>\<And>p. \<exists>xs. cstr mem p xs\<close>] by (fastforce simp: vformat_va_eq)
  obtain r mem' where e: "emit_to_buf mem out n bs = (r, mem')" by fastforce
  have "vsnprintf_impl ff mem out n fmt gp fp ov = Some (r, mem')" by (simp add: vsnprintf_impl_def f e)
  then show ?thesis using f emit_to_buf_spec [OF e] assms(2) by blast
qed

theorem snprintf_bounds_witness:
  "\<exists>bs va' mem'. vformat_va (\<lambda>c f p. []) num_text 16 (from_spill 64 3 128 256) = Some (bs, va')
     \<and> vsnprintf_impl (\<lambda>c f p. []) num_text 512 3 16 64 128 256 = Some (of_nat (length bs), mem')
     \<and> (\<forall>x. x < 512 \<or> 512 + 3 \<le> x \<longrightarrow> mem' x = num_text x)
     \<and> (0 < (3 :: nat) \<longrightarrow> mbytes mem' 512 (min (length bs) (3 - 1)) = take (3 - 1) bs \<and> mem' (512 + min (length bs) (3 - 1)) = 0)"
proof (rule snprintf_bounds)
  show "\<exists>b \<ge> a. num_text b = 0" for a
    by (rule exI [of _ "a + 32"]) (simp add: num_text_def mstore_def)
qed simp

section \<open>Round trips\<close>

lemma dec_digit_facts:
  assumes "d < 10"
  shows "digit_val (dec_digit d) = Some (of_nat d)" and "digit_of 10 (dec_digit d)" and "dv (dec_digit d) = d"
proof -
  have "d \<in> {0, 1, 2, 3, 4, 5, 6, 7, 8, 9}" using assms by auto
  then show v: "digit_val (dec_digit d) = Some (of_nat d)" by (auto simp: dec_digit_def digit_val_def)
  show "digit_of 10 (dec_digit d)"
    using \<open>d \<in> _\<close> by (auto simp: digit_of_def v)
  show "dv (dec_digit d) = d"
    using \<open>d \<in> _\<close> by (auto simp: dv_def v)
qed

lemma dec_text_facts:
  fixes v :: u64
  shows "uint_text dec_digit 10 v \<noteq> []" and "\<forall>d \<in> set (uint_text dec_digit 10 v). digit_of 10 d"
    and "num 10 (uint_text dec_digit 10 v) = unat v" and "length (uint_text dec_digit 10 v) \<le> 22"
proof -
  have z: "dec_digit 0 = 0x30" by (simp add: dec_digit_def)
  show "uint_text dec_digit 10 v \<noteq> []" by (simp add: uint_text_def digs_Nil_iff unat_eq_zero)
  show "\<forall>d \<in> set (uint_text dec_digit 10 v). digit_of 10 d"
    using digs_bound [of 10 _ "unat v"] dec_digit_facts(2) dec_digit_facts(2) [of 0] z by (auto simp: uint_text_def)
  have "num 10 [0x30] = 0" using dec_digit_facts(3) [of 0] z num_snoc [of 10 "[]"] by simp
  then show "num 10 (uint_text dec_digit 10 v) = unat v"
    using num_digs [of 10 dec_digit "unat v"] dec_digit_facts(3) by (simp add: uint_text_def)
  show "length (uint_text dec_digit 10 v) \<le> 22" using digs_64 [of 10 v] by (simp add: uint_text_def)
qed

lemma int_text_no_nul: "0 \<notin> set (int_text v)"
  using dec_text_facts(2) [of "unsigned_abs v"] digit_not_blank by (auto simp: int_text_def)

lemma length_int_text: "length (int_text v) \<le> 23"
  using dec_text_facts(4) [of "unsigned_abs v"] by (simp add: int_text_def)

lemma sign_abs: "(word_of_int ((if sint v < 0 then -1 else 1) * int (unat (unsigned_abs v))) :: i64) = v"
  by (simp add: unsigned_abs_def)

lemma strtol_int_text:
  assumes "cstr mem s (int_text v)"
  shows "strtol mem s 0 10 = Some (v, mem)"
proof -
  let ?sg = "if sint v < 0 then [0x2D] else [] :: bytes" and ?ds = "uint_text dec_digit 10 (unsigned_abs v)"
  have c: "cstr mem s ([] @ ?sg @ ?ds @ [])" using assms by (simp add: int_text_def)
  have "strtol mem s 0 10 = Some (of_int ((if ?sg = [0x2D] then -1 else 1) * int (num (nat (sint (10 :: i32))) ?ds)),
      if (0 :: nat) \<noteq> 0 then wr64 mem 0 (of_nat (s + length ([] @ ?sg @ ?ds))) else mem)"
    by (rule strtol_spec [OF c]) (use dec_text_facts [of "unsigned_abs v"] in auto)
  moreover have "(?sg = [0x2D]) = (sint v < 0)" by simp
  moreover have "nat (sint (10 :: i32)) = 10" by simp
  ultimately show ?thesis using dec_text_facts(3) [of "unsigned_abs v"] sign_abs [of v] by (simp only: simp_thms if_False)
qed

lemma pad_none: "pad_and_emit body left zero 0 = body"
  by (simp add: pad_and_emit_def)

lemma render_plain_int: "render_int zero left 0 (-1) (Some (AInt v)) = Some (int_text v)"
  using fmt_int_spec [of v] by (auto simp: render_int_def pad_none)

lemma format_ld:
  assumes "cstr mem fmt [0x25, 0x6C, 0x64]" and "0 < ngp"
  shows "\<exists>va'. vformat_va ff mem fmt (from_spill gp ngp fp ov) = Some (int_text (rd64 mem gp), va')"
proof -
  have "pf_dirs (fold (\<lambda>b. pf_consume (ucast b)) [0x25, 0x6C, 0x64 :: u8] pf_create) =
      [Conv \<lparr>cs_zero = False, cs_left = False, cs_width = 0, cs_prec = -1, cs_long_arg = True,
        cs_star_width = False, cs_star_prec = False, cs_conv = 0x64\<rparr>]"
    by (simp add: pf_consume_def consume_literal_def consume_percent_def pf_create_def is_length_mod_def pf_length_mod_def
        is_ascii_digit_def is_conv_def pf_emit_def pf_push_def pf_spec_def)
  then show ?thesis using assms(2)
    by (simp add: vformat_va_eq [OF assms(1)] va_width_def va_prec_def va_value_def next_gp_def from_spill_def
        render_conv_def render_plain_int)
qed

lemma format_d:
  assumes "cstr mem fmt [0x25, 0x64]" and "0 < ngp"
  shows "\<exists>va'. vformat_va ff mem fmt (from_spill gp ngp fp ov) = Some (int_text (scast (ucast (rd64 mem gp) :: i32)), va')"
proof -
  have "pf_dirs (fold (\<lambda>b. pf_consume (ucast b)) [0x25, 0x64 :: u8] pf_create) =
      [Conv \<lparr>cs_zero = False, cs_left = False, cs_width = 0, cs_prec = -1, cs_long_arg = False,
        cs_star_width = False, cs_star_prec = False, cs_conv = 0x64\<rparr>]"
    by (simp add: pf_consume_def consume_literal_def consume_percent_def pf_create_def is_length_mod_def
        is_ascii_digit_def is_conv_def pf_emit_def pf_push_def pf_spec_def)
  then show ?thesis using assms(2)
    by (simp add: vformat_va_eq [OF assms(1)] va_width_def va_prec_def va_value_def next_gp_def from_spill_def
        render_conv_def render_plain_int)
qed

lemma emit_int_text:
  assumes "emit_to_buf mem out n (int_text v) = (r, mem')" and "out \<noteq> 0" and "24 \<le> n"
  shows "cstr mem' out (int_text v)"
  using emit_to_buf_spec(3) [OF assms(1,2)] assms(3) length_int_text [of v] int_text_no_nul [of v]
  by (simp add: cstr_iff)

text \<open>
  C35: every 64-bit value that \<open>snprintf\<close> prints with \<open>%ld\<close> into a buffer of at least 24 bytes is read
  back unchanged by \<open>strtol\<close> in base 10.
\<close>

theorem snprintf_strtol_roundtrip:
  assumes "cstr mem fmt [0x25, 0x6C, 0x64]" and "out \<noteq> 0" and "24 \<le> n"
  shows "\<exists>len mem'. vsnprintf_impl ff mem out n fmt gp fp ov = Some (len, mem')
     \<and> strtol mem' out 0 10 = Some (rd64 mem gp, mem')"
proof -
  obtain va' where f: "vformat_va ff mem fmt (from_spill gp 3 fp ov) = Some (int_text (rd64 mem gp), va')"
    using format_ld [OF assms(1)] by fastforce
  obtain r mem' where e: "emit_to_buf mem out n (int_text (rd64 mem gp)) = (r, mem')" by fastforce
  have "vsnprintf_impl ff mem out n fmt gp fp ov = Some (r, mem')" by (simp add: vsnprintf_impl_def f e)
  then show ?thesis using strtol_int_text [OF emit_int_text [OF e assms(2,3)]] by blast
qed

text \<open>The format \<open>"%ld"\<close> at address 16 and the format \<open>"%d"\<close> at address 32.\<close>

definition fmt_text :: mem where
  "fmt_text = mstore (mstore (\<lambda>_. 0) 16 [0x25, 0x6C, 0x64, 0]) 32 [0x25, 0x64, 0]"

lemma fmt_text_cstr: "cstr fmt_text 16 [0x25, 0x6C, 0x64]" "cstr fmt_text 32 [0x25, 0x64]"
  by (simp_all add: fmt_text_def mstore_def)

theorem snprintf_strtol_roundtrip_witness:
  "\<exists>len mem'. vsnprintf_impl (\<lambda>c f p. []) fmt_text 512 24 16 64 128 256 = Some (len, mem')
     \<and> strtol mem' 512 0 10 = Some (rd64 fmt_text 64, mem')"
  by (rule snprintf_strtol_roundtrip [OF fmt_text_cstr(1)]) simp_all

lemma scan_step_end: "byte_at (sc_mem st) fmt (sc_fi st) = 0 \<Longrightarrow> scan_step s fmt st = Some (False, st)"
  by (simp add: scan_step_def)

text \<open>One \<open>%d\<close> conversion of the text of a 32-bit integer stores that integer and counts it.\<close>

lemma scan_int_text:
  assumes c: "cstr mem s (int_text (scast (w :: i32)))" and p: "rd64 mem gp = of_nat p" "p < 2 ^ 64"
  shows "scan_int s 0x64 \<lparr>sc_mem = mem, sc_args = \<lparr>ap_gp = gp, ap_gp_idx = 0, ap_gp_max = 4, ap_ov = ov, ap_ov_idx = 0\<rparr>,
      sc_count = 0, sc_si = 0, sc_fi = fi\<rparr>
    = Some (True, \<lparr>sc_mem = wr32 mem p w, sc_args = \<lparr>ap_gp = gp, ap_gp_idx = 1, ap_gp_max = 4, ap_ov = ov, ap_ov_idx = 0\<rparr>,
      sc_count = 1, sc_si = length (int_text (scast w)), sc_fi = fi\<rparr>)"
proof -
  let ?v = "scast w :: i64"
  let ?sg = "if sint ?v < 0 then [0x2D] else [] :: bytes" and ?ds = "uint_text dec_digit 10 (unsigned_abs ?v)"
  note T = dec_text_facts [of "unsigned_abs ?v"]
  have t: "int_text ?v = ?sg @ ?ds" by (simp add: int_text_def)
  have d0: "digit_of 10 (hd ?ds)" using T(1,2) by simp
  note nb = digit_not_blank [OF d0]
  have "takeWhile is_space (int_text ?v) = []"
    using T(1) nb unfolding t by (cases ?ds) (auto simp: is_space_def)
  then have ws: "skip_ws mem s 0 = Some 0" using skip_ws_spec [of mem s 0 "int_text ?v"] c by simp
  have at: "byte_at mem s 0 = (if sint ?v < 0 then 0x2D else hd ?ds)"
    using c T(1) unfolding t by (cases ?ds) (auto simp: byte_at_def)
  have cd: "cstr mem (s + length ?sg) ?ds" using cstr_drop [OF c, of "length ?sg"] unfolding t by simp
  have b: "scast (10 :: i32) = (of_nat 10 :: u64)" by simp
  have tw: "takeWhile (digit_of 10) ?ds = ?ds" using T(2) by (simp add: takeWhile_eq_all_conv)
  have pd: "parse_digits mem s 10 (length ?sg) 0 False = Some (unsigned_abs ?v, True, length ?sg + length ?ds)"
    using parse_digits_spec [OF cd b, of 0 False, unfolded tw] foldl_digits [of 10 0 ?ds] T(1,3) by (simp add: num_def)
  have "ucast (if sint ?v < 0 then - unsigned_abs ?v else unsigned_abs ?v) = w"
    by (rule bit_word_eqI) (simp add: unsigned_abs_def bit_simps)
  moreover have "unat (of_nat p :: u64) = p" using p(2) by (simp add: unat_of_nat take_bit_nat_eq_self)
  moreover have "length (int_text ?v) = length ?sg + length ?ds" by (simp add: t)
  ultimately show ?thesis
    using ws at pd p(1) nb by (auto simp: scan_int_def arg_next_def Let_def split: if_splits)
qed

lemma scanf_reads_int:
  assumes c: "cstr mem s (int_text (scast (w :: i32)))" and f: "cstr mem fmt [0x25, 0x64]"
    and p: "rd64 mem gp = of_nat p" "p < 2 ^ 64" and sep: "p + 4 \<le> fmt \<or> fmt + 3 \<le> p"
  shows "vsscanf_impl mem s fmt gp ov = Some (1, wr32 mem p w)"
proof -
  let ?st = "\<lparr>sc_mem = mem, sc_args = \<lparr>ap_gp = gp, ap_gp_idx = 0, ap_gp_max = 4, ap_ov = ov, ap_ov_idx = 0\<rparr>,
      sc_count = 0, sc_si = 0, sc_fi = 0\<rparr>"
  let ?st' = "\<lparr>sc_mem = wr32 mem p w, sc_args = \<lparr>ap_gp = gp, ap_gp_idx = 1, ap_gp_max = 4, ap_ov = ov, ap_ov_idx = 0\<rparr>,
      sc_count = 1, sc_si = length (int_text (scast w)), sc_fi = Suc (Suc 0)\<rparr>"
  have b: "mem fmt = 0x25" "mem (fmt + 1) = 0x64" "mem (fmt + 2) = 0" using f by (auto simp: numeral_2_eq_2)
  have "scan_step s fmt ?st = Some (True, ?st')"
    using scan_int_text [OF c p, of ov "Suc (Suc 0)"] b by (simp add: scan_step_def byte_at_def is_space_def scan_conv_def)
  moreover have "wr32 mem p w (fmt + Suc (Suc 0)) = 0" using b(3) sep by (subst wr32_other) auto
  then have "scan_step s fmt ?st' = Some (False, ?st')" by (intro scan_step_end) (simp add: byte_at_def)
  then have "scan_loop s fmt ?st' = Some ?st'" by (subst scan_loop.simps) simp
  ultimately have "scan_loop s fmt ?st = Some ?st'" by (subst scan_loop.simps) simp
  then show ?thesis by (simp add: vsscanf_impl_def)
qed

text \<open>
  An \<open>int\<close> that \<open>snprintf\<close> prints with \<open>%d\<close> into a buffer of at least 24 bytes is read back by
  \<open>sscanf\<close> with \<open>%d\<close>, which reports one conversion and stores the same 32-bit value through its
  pointer, as long as the buffer overlaps neither the format nor the argument area and the
  destination does not overlap the format.
\<close>

theorem snprintf_sscanf_roundtrip:
  assumes f: "cstr mem fmt [0x25, 0x64]" and o: "out \<noteq> 0" "24 \<le> n"
    and p: "rd64 mem gp2 = of_nat p" "p < 2 ^ 64" and sep: "p + 4 \<le> fmt \<or> fmt + 3 \<le> p"
    and away: "fmt + 3 \<le> out \<or> out + n \<le> fmt" "gp2 + 8 \<le> out \<or> out + n \<le> gp2"
  shows "\<exists>len mem' mem''. vsnprintf_impl ff mem out n fmt gp fp ov = Some (len, mem')
     \<and> vsscanf_impl mem' out fmt gp2 ov2 = Some (1, mem'') \<and> rd32 mem'' p = ucast (rd64 mem gp)"
proof -
  let ?w = "ucast (rd64 mem gp) :: i32"
  obtain va' where f': "vformat_va ff mem fmt (from_spill gp 3 fp ov) = Some (int_text (scast ?w), va')"
    using format_d [OF f] by fastforce
  obtain r mem' where e: "emit_to_buf mem out n (int_text (scast ?w)) = (r, mem')" by fastforce
  have same: "mem' x = mem x" if "x < out \<or> out + n \<le> x" for x using emit_to_buf_spec(2) [OF e that] .
  have "cstr mem' fmt [0x25, 0x64]" by (rule cstr_cong [OF f], rule same) (use away(1) in auto)
  moreover have "rd64 mem' gp2 = of_nat p" unfolding p(1) [symmetric] by (rule rd_cong, rule same) (use away(2) in auto)
  ultimately have "vsscanf_impl mem' out fmt gp2 ov2 = Some (1, wr32 mem' p ?w)"
    using scanf_reads_int [OF emit_int_text [OF e o]] p(2) sep by blast
  moreover have "vsnprintf_impl ff mem out n fmt gp fp ov = Some (r, mem')" by (simp add: vsnprintf_impl_def f' e)
  ultimately show ?thesis using rd32_wr32 by blast
qed

theorem snprintf_sscanf_roundtrip_witness:
  "\<exists>len mem' mem''. vsnprintf_impl (\<lambda>c f p. []) fmt_text 512 24 32 64 128 256 = Some (len, mem')
     \<and> vsscanf_impl mem' 512 32 72 256 = Some (1, mem'') \<and> rd32 mem'' 0 = ucast (rd64 fmt_text 64)"
proof (rule snprintf_sscanf_roundtrip [OF fmt_text_cstr(2)])
  have "rd64 fmt_text 72 = rd64 (\<lambda>_. 0) 72" by (rule rd_cong) (simp add: fmt_text_def mstore_def)
  then show "rd64 fmt_text 72 = of_nat 0" by (simp add: rd64_zero)
qed simp_all

section \<open>Width, precision and literals\<close>

lemma length_pad_and_emit: "length (pad_and_emit body left zero width) = max width (length body)"
  by (cases body) (auto simp: pad_and_emit_def Let_def max_def)

lemma apply_int_prec_eq:
  "0 \<le> sint prec \<Longrightarrow> apply_int_prec ds prec dst =
     (if length ds < unat prec then vec_resize (unat prec - length ds) 0x30 dst else dst) @ ds"
  by (simp add: apply_int_prec_def Let_def)

text \<open>A precision gives a non-negative number at least that many digits.\<close>

lemma precision_nonneg:
  assumes "0 \<le> sint v" and "0 \<le> sint prec"
  shows "render_int zero left 0 prec (Some (AInt v)) = Some (replicate (unat prec - length (int_text v)) 0x30 @ int_text v)"
proof -
  obtain i tmp where "fmt_int v (replicate 32 0) = Some (i, tmp)" "sub_slice tmp i (length tmp) = Some (int_text v)"
    using fmt_int_spec [of v] by blast
  then have "render_int zero left 0 prec (Some (AInt v)) = Some (apply_int_prec (int_text v) prec [])"
    using assms by (simp add: render_int_def pad_none)
  then show ?thesis using assms(2) by (simp add: apply_int_prec_eq vec_resize_def)
qed

text \<open>
  The precision of a negative number is one digit short. When the number has fewer digits than
  the precision asks for, the zeros in front of them fill up to the precision only together with
  the minus sign, since \<open>resize\<close> counts the sign already in the vector: \<open>%.5d\<close> prints \<open>-0042\<close> for
  -42, where C prints \<open>-00042\<close>.
\<close>

theorem precision_negative_short:
  assumes neg: "sint v < 0" and p: "0 \<le> sint prec"
    and short: "length (uint_text dec_digit 10 (unsigned_abs v)) < unat prec"
  shows "\<exists>bs. render_int zero left 0 prec (Some (AInt v)) = Some (0x2D # bs) \<and> length bs = unat prec - 1
     \<and> num 10 bs = unat (unsigned_abs v)"
proof -
  let ?ds = "uint_text dec_digit 10 (unsigned_abs v)"
  obtain i tmp where f: "fmt_int v (replicate 32 0) = Some (i, tmp)" "sub_slice tmp (i + 1) (length tmp) = Some (tl (int_text v))"
    using fmt_int_spec [of v] by blast
  have tl: "tl (int_text v) = ?ds" using neg by (simp add: int_text_def)
  define k where "k = unat prec - length ?ds - 1"
  have k: "unat prec - length ?ds = Suc k" using short by (simp add: k_def)
  have "render_int zero left 0 prec (Some (AInt v)) = Some (apply_int_prec ?ds prec [0x2D])"
    using f neg p tl by (simp add: render_int_def pad_none)
  then have "render_int zero left 0 prec (Some (AInt v)) = Some ((0x2D # replicate k 0x30) @ ?ds)"
    using p short by (simp add: apply_int_prec_eq vec_resize_def k)
  moreover have "num 10 (replicate k 0x30 @ ?ds) = num 10 ?ds"
  proof (induction k)
    case (Suc k)
    have "dv 0x30 = 0" using dec_digit_facts(3) [of 0] by (simp add: dec_digit_def)
    then show ?case using Suc by (simp add: num_def)
  qed simp
  ultimately show ?thesis using short dec_text_facts(3) [of "unsigned_abs v"] by (simp add: k_def)
qed

lemma digs_42: "digs 10 42 = [4, 2]"
  by (simp add: digs.simps)

theorem precision_negative_short_witness:
  "\<exists>bs. render_int False False 0 5 (Some (AInt (-42))) = Some (0x2D # bs) \<and> length bs = unat (5 :: i32) - 1
     \<and> num 10 bs = unat (unsigned_abs (-42))"
  by (rule precision_negative_short) (simp_all add: unsigned_abs_def uint_text_def digs_42)

text \<open>
  A format without \<open>%\<close> is printed as it is, as long as it is ASCII; a byte above 127 is taken for
  the Latin-1 character and printed as its two-byte UTF-8 form.
\<close>

lemma fold_consume_literal:
  "0x25 \<notin> set xs \<Longrightarrow> pf_st sc = PfLiteral \<Longrightarrow>
     fold (\<lambda>b. pf_consume (ucast b)) xs sc = sc\<lparr>pf_dirs := pf_dirs sc @ map (\<lambda>b :: u8. Lit (ucast b)) xs\<rparr>"
proof (induction xs arbitrary: sc)
  case (Cons x xs)
  have "ucast (ucast x :: u32) = x" by (rule bit_word_eqI) (auto simp: bit_simps)
  then have "(ucast x :: u32) \<noteq> 0x25" using Cons.prems(1) by auto
  then show ?case using Cons by (simp add: pf_consume_def consume_literal_def pf_push_def)
qed simp

lemma lits_out: "vformat_va_dirs ff mem (map Lit cs) va = Some (concat (map push_char cs), va)"
  by (induction cs) auto

lemma printf_literal:
  assumes "cstr mem fmt xs" and "0x25 \<notin> set xs"
  shows "vformat_va ff mem fmt va = Some (concat (map (\<lambda>b. push_char (ucast b)) xs), va)"
proof -
  have "pf_dirs (fold (\<lambda>b. pf_consume (ucast b)) xs pf_create) = map Lit (map ucast xs)"
    using fold_consume_literal [OF assms(2), of pf_create] by (simp add: pf_create_def comp_def)
  then show ?thesis
    using lits_out [of ff mem "map ucast xs" va] by (simp add: vformat_va_eq [OF assms(1)] comp_def)
qed

lemma push_char_byte: "push_char (ucast (b :: u8)) = (if b < 0x80 then [b] else [0xC0 OR ucast (drop_bit 6 (ucast b :: u32)), 0x80 OR (b AND 0x3F)])"
proof -
  have u: "ucast (ucast b :: u32) = b" by (rule bit_word_eqI) (auto simp: bit_simps)
  have "unat (ucast b :: u32) = unat b" by (simp add: unsigned_ucast_eq take_bit_nat_eq_self less_trans [OF unsigned_less])
  moreover have "unat b < 256" using unsigned_less [of b] by simp
  ultimately have "(ucast b :: u32) < 0x80 \<longleftrightarrow> b < 0x80" "(ucast b :: u32) < 0x800" by (simp_all add: word_less_nat_alt)
  moreover have "ucast ((ucast b :: u32) AND 0x3F) = b AND 0x3F"
  proof -
    have "(ucast b :: u32) AND 0x3F = take_bit 6 (ucast b)" "b AND 0x3F = take_bit 6 b"
      by (simp_all add: take_bit_eq_mask mask_eq_exp_minus_1)
    moreover have "ucast (take_bit 6 (ucast b :: u32)) = take_bit 6 b" by (rule bit_word_eqI) (auto simp: bit_simps)
    ultimately show ?thesis by simp
  qed
  ultimately show ?thesis by (simp add: push_char_def u or.commute)
qed

end
