(* ===== verification/IoSched.thy ===== *)
theory IoSched
  imports Prelude
begin

text \<open>
  The disk-slot supervisor, the Frame system \<open>IoScheduler\<close> of \<open>frame/io_scheduler.frs\<close>: a pool of
  request slots, granted to processes by pid and queued first come first served when the pool is
  empty. The deques are lists, the owner table is a map. \<open>i32\<close> results are integers, with -1 for
  "queued".
\<close>

section \<open>The Frame system\<close>

datatype io_state = HasFreeSlots | IoFull

record io_sched =
  io_st :: io_state
  io_free :: "u32 list"
  io_owners :: "u32 \<rightharpoonup> u32"
  io_wait :: "u32 list"
  io_slots :: u32

definition io_create :: "u32 \<Rightarrow> io_sched" where
  "io_create slots = \<lparr>io_st = HasFreeSlots, io_free = map of_nat [0..<unat slots], io_owners = Map.empty, io_wait = [], io_slots = slots\<rparr>"

definition io_assign :: "u32 \<Rightarrow> io_sched \<Rightarrow> int \<times> io_sched" where
  "io_assign pid s = (case io_free s of
       x # rest \<Rightarrow> (sint x, s\<lparr>io_free := rest, io_owners := (io_owners s)(pid \<mapsto> x)\<rparr>)
     | [] \<Rightarrow> (-1, s))"

definition io_do_release :: "u32 \<Rightarrow> io_sched \<Rightarrow> u32 \<times> io_sched" where
  "io_do_release pid s = (case io_owners s pid of
       None \<Rightarrow> (0, s)
     | Some x \<Rightarrow>
         (let s = s\<lparr>io_owners := (io_owners s)(pid := None)\<rparr>
          in case io_wait s of
               nxt # rest \<Rightarrow> (nxt, s\<lparr>io_wait := rest, io_owners := (io_owners s)(nxt \<mapsto> x)\<rparr>)
             | [] \<Rightarrow> (0, s\<lparr>io_free := io_free s @ [x]\<rparr>)))"

definition io_slot_for :: "u32 \<Rightarrow> io_sched \<Rightarrow> int" where
  "io_slot_for pid s = (case io_owners s pid of Some x \<Rightarrow> sint x | None \<Rightarrow> -1)"

definition io_acquire :: "u32 \<Rightarrow> io_sched \<Rightarrow> int \<times> io_sched" where
  "io_acquire pid s = (case io_st s of
       HasFreeSlots \<Rightarrow> (let (r, s) = io_assign pid s in (r, if io_free s = [] then s\<lparr>io_st := IoFull\<rparr> else s))
     | IoFull \<Rightarrow> (-1, s\<lparr>io_wait := io_wait s @ [pid]\<rparr>))"

definition io_release :: "u32 \<Rightarrow> io_sched \<Rightarrow> u32 \<times> io_sched" where
  "io_release pid s = (case io_st s of
       HasFreeSlots \<Rightarrow> io_do_release pid s
     | IoFull \<Rightarrow> (let (r, s) = io_do_release pid s in (r, if io_free s \<noteq> [] then s\<lparr>io_st := HasFreeSlots\<rparr> else s)))"

definition io_is_full :: "io_sched \<Rightarrow> bool" where
  "io_is_full s \<longleftrightarrow> io_st s = IoFull"

section \<open>Invariant\<close>

text \<open>
  Every slot is either free or owned by exactly one process, a slot is free only when nobody waits,
  and a process waits at most once and holds nothing meanwhile.
\<close>

definition io_ok :: "io_sched \<Rightarrow> bool" where
  [inv_defs]: "io_ok s \<longleftrightarrow> distinct (io_free s) \<and> inj_on (io_owners s) (dom (io_owners s))
     \<and> ran (io_owners s) \<inter> set (io_free s) = {} \<and> ran (io_owners s) \<union> set (io_free s) = {x. unat x < unat (io_slots s)}
     \<and> (io_st s = IoFull \<longleftrightarrow> io_free s = []) \<and> (io_free s \<noteq> [] \<longrightarrow> io_wait s = [])
     \<and> distinct (io_wait s) \<and> set (io_wait s) \<inter> dom (io_owners s) = {}"

lemma io_create_ok: "0 < unat slots \<Longrightarrow> io_ok (io_create slots)"
proof -
  assume pos: "0 < unat slots"
  have "unat slots < 2 ^ LENGTH(32)" by (rule unsigned_less)
  then have b: "n < 2 ^ 32" if "n < unat slots" for n using that by simp
  have u: "unat (of_nat n :: u32) = n" if "n < unat slots" for n
    using b [OF that] by (simp add: unat_of_nat take_bit_nat_eq_self)
  have "inj_on (of_nat :: nat \<Rightarrow> u32) {0..<unat slots}" by (rule inj_onI) (metis u atLeastLessThan_iff)
  moreover have "of_nat ` {0..<unat slots} = {x :: u32. unat x < unat slots}"
  proof (intro set_eqI iffI)
    fix x :: u32 assume "x \<in> {x. unat x < unat slots}"
    then show "x \<in> of_nat ` {0..<unat slots}" by (intro image_eqI [of _ _ "unat x"]) simp_all
  qed (use u in auto)
  ultimately show ?thesis using pos by (simp add: io_ok_def io_create_def distinct_map)
qed

lemma io_acquire_cases:
  assumes "io_ok s"
  obtains (grant) x rest where "io_free s = x # rest"
      "io_acquire pid s = (sint x, s\<lparr>io_free := rest, io_owners := (io_owners s)(pid \<mapsto> x), io_st := (if rest = [] then IoFull else HasFreeSlots)\<rparr>)"
    | (queued) "io_free s = []" "io_acquire pid s = (-1, s\<lparr>io_wait := io_wait s @ [pid]\<rparr>)"
proof (cases "io_free s")
  case Nil
  then have "io_st s = IoFull" using assms by (simp add: io_ok_def)
  then show ?thesis using that(2) Nil by (simp add: io_acquire_def)
next
  case (Cons x rest)
  then have "io_st s = HasFreeSlots" using assms by (cases "io_st s") (auto simp: io_ok_def)
  then show ?thesis using that(1) Cons by (auto simp: io_acquire_def io_assign_def)
qed

lemma io_release_cases:
  assumes "io_ok s" and "io_owners s pid = Some x"
  obtains (hand) nxt rest where "io_wait s = nxt # rest"
      "io_release pid s = (nxt, s\<lparr>io_wait := rest, io_owners := (io_owners s)(pid := None, nxt \<mapsto> x)\<rparr>)"
    | (giveback) "io_wait s = []"
      "io_release pid s = (0, s\<lparr>io_owners := (io_owners s)(pid := None), io_free := io_free s @ [x], io_st := HasFreeSlots\<rparr>)"
proof (cases "io_wait s")
  case Nil
  then show ?thesis using that(2) assms by (cases "io_st s") (auto simp: io_release_def io_do_release_def)
next
  case (Cons nxt rest)
  then have "io_free s = []" "io_st s = IoFull" using assms(1) by (auto simp: io_ok_def)
  then show ?thesis using that(1) assms(2) Cons by (simp add: io_release_def io_do_release_def)
qed

lemma ran_upd_new: "pid \<notin> dom f \<Longrightarrow> ran (f(pid \<mapsto> x)) = insert x (ran f)"
  by (simp add: domIff)

lemma ran_remove:
  assumes "inj_on f (dom f)" and "f pid = Some x"
  shows "ran (f(pid := None)) = ran f - {x}"
proof -
  have "p = pid" if "f p = Some x" for p
  proof (rule inj_onD [OF assms(1)])
    show "f p = f pid" using assms(2) that by simp
  qed (use assms(2) that in \<open>simp_all add: domIff\<close>)
  then have "(\<exists>p. p \<noteq> pid \<and> f p = Some y) \<longleftrightarrow> (\<exists>p. f p = Some y) \<and> y \<noteq> x" for y
    using assms(2) by (metis option.inject)
  moreover have "y \<in> ran (f(pid := None)) \<longleftrightarrow> (\<exists>p. p \<noteq> pid \<and> f p = Some y)" for y by (auto simp: ran_def)
  ultimately show ?thesis by (auto simp: ran_def)
qed

lemma inj_upd_new: "inj_on f (dom f) \<Longrightarrow> x \<notin> ran f \<Longrightarrow> inj_on (f(pid \<mapsto> x)) (dom (f(pid \<mapsto> x)))"
  unfolding inj_on_def by (auto simp: ran_def dom_def)

lemma inj_remove: "inj_on f (dom f) \<Longrightarrow> inj_on (f(pid := None)) (dom (f(pid := None)))"
  by (auto simp: inj_on_def)

lemma io_acquire_ok:
  assumes ok: "io_ok s" and new: "pid \<notin> dom (io_owners s)" "pid \<notin> set (io_wait s)"
  shows "io_ok (snd (io_acquire pid s))"
proof (cases rule: io_acquire_cases [OF ok, of pid])
  case (1 x rest)
  have x: "x \<notin> ran (io_owners s)" "x \<notin> set rest" "distinct rest" using ok 1(1) by (auto simp: io_ok_def)
  show ?thesis
    using ok 1 new x ran_upd_new [OF new(1), of x] inj_upd_new [OF _ x(1), of pid]
    by (auto simp: io_ok_def)
next
  case 2
  then show ?thesis using ok new by (auto simp: io_ok_def)
qed

lemma io_release_ok:
  assumes ok: "io_ok s" and own: "io_owners s pid = Some x"
  shows "io_ok (snd (io_release pid s))"
proof -
  have inj: "inj_on (io_owners s) (dom (io_owners s))" using ok by (simp add: io_ok_def)
  note R = ran_remove [OF inj own] and I = inj_remove [OF inj, of pid]
  have x: "x \<in> ran (io_owners s)" using own by (auto simp: ran_def)
  show ?thesis
  proof (cases rule: io_release_cases [OF ok own])
    case (1 nxt rest)
    have n: "nxt \<notin> dom ((io_owners s)(pid := None))" using ok 1(1) by (auto simp: io_ok_def)
    have xr: "x \<notin> ran ((io_owners s)(pid := None))" using R by simp
    have e: "ran ((io_owners s)(pid := None, nxt \<mapsto> x)) = ran (io_owners s)"
      using ran_upd_new [OF n, of x] R x by auto
    have d: "set rest \<inter> dom ((io_owners s)(pid := None, nxt \<mapsto> x)) = {}" using ok 1(1) by (auto simp: io_ok_def)
    show ?thesis using ok 1 e d inj_upd_new [OF I xr, of nxt] by (auto simp: io_ok_def)
  next
    case 2
    have "x \<notin> set (io_free s)" using ok x by (auto simp: io_ok_def)
    then show ?thesis using ok 2 R I x by (auto simp: io_ok_def)
  qed
qed

section \<open>Runs of the supervisor\<close>

text \<open>The supervisor is used in two ways: a process that neither holds nor awaits a slot asks for one, and a holder gives its slot back.\<close>

datatype io_op = Acq u32 | Rel u32

definition io_do :: "io_op \<Rightarrow> io_sched \<Rightarrow> io_sched" where
  "io_do c s = (case c of Acq pid \<Rightarrow> snd (io_acquire pid s) | Rel pid \<Rightarrow> snd (io_release pid s))"

definition io_can :: "io_op \<Rightarrow> io_sched \<Rightarrow> bool" where
  "io_can c s \<longleftrightarrow> (case c of Acq pid \<Rightarrow> io_owners s pid = None \<and> pid \<notin> set (io_wait s) | Rel pid \<Rightarrow> io_owners s pid \<noteq> None)"

fun io_valid :: "io_op list \<Rightarrow> io_sched \<Rightarrow> bool" where
  "io_valid [] s \<longleftrightarrow> True"
| "io_valid (c # cs) s \<longleftrightarrow> io_can c s \<and> io_valid cs (io_do c s)"

abbreviation io_run :: "io_op list \<Rightarrow> io_sched \<Rightarrow> io_sched" where
  "io_run cs s \<equiv> fold io_do cs s"

definition releases :: "io_op list \<Rightarrow> nat" where
  "releases cs = length (filter (\<lambda>c. case c of Rel _ \<Rightarrow> True | Acq _ \<Rightarrow> False) cs)"

lemma io_do_ok: "io_ok s \<Longrightarrow> io_can c s \<Longrightarrow> io_ok (io_do c s)"
  by (cases c) (auto simp: io_do_def io_can_def domIff intro: io_acquire_ok io_release_ok)

lemma io_run_ok: "io_ok s \<Longrightarrow> io_valid cs s \<Longrightarrow> io_ok (io_run cs s)"
  by (induction cs arbitrary: s) (auto simp: io_do_ok)

lemma io_wait_moves:
  assumes ok: "io_ok s" and can: "io_can c s" and p: "i < length (io_wait s)" "io_wait s ! i = p"
  shows "case c of
      Acq _ \<Rightarrow> i < length (io_wait (io_do c s)) \<and> io_wait (io_do c s) ! i = p
    | Rel _ \<Rightarrow> (if i = 0 then io_owners (io_do c s) p \<noteq> None
               else i - 1 < length (io_wait (io_do c s)) \<and> io_wait (io_do c s) ! (i - 1) = p)"
proof (cases c)
  case (Acq pid)
  have "io_free s = []" using ok p(1) by (auto simp: io_ok_def)
  then show ?thesis using Acq p by (cases rule: io_acquire_cases [OF ok, of pid]) (auto simp: io_do_def nth_append)
next
  case (Rel pid)
  then obtain x where x: "io_owners s pid = Some x" using can by (auto simp: io_can_def)
  show ?thesis using Rel p
    by (cases rule: io_release_cases [OF ok x]) (auto simp: io_do_def nth_Cons split: nat.splits)
qed

text \<open>
  C27: in every run from a pool of \<open>n > 0\<close> slots no two processes ever hold the same slot, whoever
  holds one holds a slot of the pool, a process waits only while all \<open>n\<close> slots are held, and a
  waiting process at position \<open>i\<close> of the queue has been given a slot by the time of the
  \<open>i + 1\<close>-st release, whatever else is requested meanwhile.
\<close>

theorem io_slots_exclusive_fair:
  assumes n: "0 < unat n" and v: "io_valid cs (io_create n)" and s: "s = io_run cs (io_create n)"
  shows "(io_owners s p = Some x \<and> io_owners s q = Some x \<longrightarrow> p = q)
     \<and> (io_owners s p = Some x \<longrightarrow> unat x < unat n)
     \<and> (io_wait s \<noteq> [] \<longrightarrow> ran (io_owners s) = {x. unat x < unat n})
     \<and> (i < length (io_wait s) \<and> io_wait s ! i = w \<and> io_valid ds s \<and> releases ds = Suc i
          \<longrightarrow> (\<exists>k \<le> length ds. io_owners (io_run (take k ds) s) w \<noteq> None))"
proof -
  have ok: "io_ok s" unfolding s using io_run_ok [OF io_create_ok [OF n] v] .
  have sl: "io_slots s = n"
  proof -
    have "io_slots (io_do c t) = io_slots t" for c t
      by (auto simp: io_do_def io_acquire_def io_assign_def io_release_def io_do_release_def Let_def
          split: io_op.splits io_state.splits list.splits option.splits)
    then have "io_slots (io_run cs t) = io_slots t" for t by (induction cs arbitrary: t) auto
    then show ?thesis by (simp add: s io_create_def)
  qed
  have "p = q" if "io_owners s p = Some x" "io_owners s q = Some x" for p q x
    by (rule inj_onD [of "io_owners s" "dom (io_owners s)"]) (use ok that in \<open>auto simp: io_ok_def\<close>)
  moreover have "unat x < unat n" if "io_owners s p = Some x" for p x
  proof -
    have "x \<in> ran (io_owners s)" using that by (auto simp: ran_def)
    then show ?thesis using ok sl by (auto simp: io_ok_def)
  qed
  moreover have "ran (io_owners s) = {x. unat x < unat n}" if "io_wait s \<noteq> []"
  proof -
    have "io_free s = []" using ok that by (auto simp: io_ok_def)
    then show ?thesis using ok sl by (simp add: io_ok_def)
  qed
  moreover have "\<exists>k \<le> length ds. io_owners (io_run (take k ds) s) w \<noteq> None"
    if "i < length (io_wait s)" "io_wait s ! i = w" "io_valid ds s" "releases ds = Suc i" for i w ds
    using ok that
  proof (induction ds arbitrary: s i)
    case Nil
    then show ?case by (simp add: releases_def)
  next
    case (Cons c ds)
    note m = io_wait_moves [OF Cons.prems(1) _ Cons.prems(2,3), of c]
    have can: "io_can c s" and v': "io_valid ds (io_do c s)" using Cons.prems by simp_all
    have ok': "io_ok (io_do c s)" using io_do_ok [OF Cons.prems(1) can] .
    have lift: "\<exists>k \<le> length (c # ds). io_owners (io_run (take k (c # ds)) s) w \<noteq> None"
      if "\<exists>k \<le> length ds. io_owners (io_run (take k ds) (io_do c s)) w \<noteq> None"
      using that by (metis (no_types, opaque_lifting) Suc_le_mono fold_simps(2) length_Cons take_Suc_Cons)
    show ?case
    proof (cases c)
      case (Acq pid)
      then have "i < length (io_wait (io_do c s))" "io_wait (io_do c s) ! i = w" "releases ds = Suc i"
        using m [OF can] Cons.prems(5) by (simp_all add: releases_def)
      then show ?thesis using Cons.IH [OF ok' _ _ v'] lift by blast
    next
      case (Rel pid)
      show ?thesis
      proof (cases i)
        case 0
        then have "io_owners (io_do c s) w \<noteq> None" using m [OF can] Rel by simp
        then show ?thesis by (intro lift exI [of _ 0]) simp
      next
        case (Suc j)
        then have "j < length (io_wait (io_do c s))" "io_wait (io_do c s) ! j = w" "releases ds = Suc j"
          using m [OF can] Cons.prems(5) Rel by (simp_all add: releases_def)
        then show ?thesis using Cons.IH [OF ok' _ _ v'] lift by blast
      qed
    qed
  qed
  ultimately show ?thesis by blast
qed

theorem io_slots_exclusive_fair_witness:
  "\<exists>s k. s = io_run [Acq 5, Acq 6] (io_create 1) \<and> io_owners s 5 = Some 0 \<and> io_wait s = [6]
     \<and> k \<le> length [Rel 5] \<and> io_owners (io_run (take k [Rel 5]) s) 6 \<noteq> None"
proof -
  let ?s = "io_run [Acq 5, Acq 6] (io_create 1)"
  have e: "?s = \<lparr>io_st = IoFull, io_free = [], io_owners = [5 \<mapsto> 0], io_wait = [6], io_slots = 1\<rparr>"
    by (simp add: io_do_def io_create_def io_acquire_def io_assign_def)
  have v: "io_valid [Acq 5, Acq 6] (io_create 1)"
    by (simp add: io_can_def io_do_def io_create_def io_acquire_def io_assign_def)
  have "\<exists>k \<le> length [Rel 5]. io_owners (io_run (take k [Rel 5]) ?s) 6 \<noteq> None"
    using io_slots_exclusive_fair [of 1 "[Acq 5, Acq 6]" ?s 5 0 5 0 6 "[Rel 5]"] v
    unfolding e by (simp add: io_can_def releases_def)
  then obtain k where "k \<le> length [Rel 5]" "io_owners (io_run (take k [Rel 5]) ?s) 6 \<noteq> None" by blast
  then show ?thesis using e by (intro exI [of _ ?s] exI [of _ k]) simp
qed

end
