(* ===== verification/Sched.thy ===== *)
theory Sched
  imports Vfs Memory IoSched
begin

text \<open>
  The preemptive scheduler, \<open>kernel/src/sched.rs\<close>, with the Frame system \<open>Scheduler\<close>
  (\<open>frame/scheduler.frs\<close>): the table of thread control blocks, slot allocation, the round-robin
  choice of the timer interrupt, blocking and waking, per-process break and working directory,
  signal state, and the reaping of children. The statics of the module are one record; it also holds
  what the operations write besides: the kernel stacks (\<open>kmem\<close>), the user memory of each address
  space (\<open>umem\<close>, by root table), the floating-point registers and their save areas, CR3, the ring-0
  stack pointer of the TSS, and the descriptor tables of \<open>vfs.rs\<close>. Messages on the serial line are
  left out. A table is indexed by raw pointers in the source; the invariant keeps the indices inside.
\<close>

section \<open>The Frame system Scheduler\<close>

datatype sched_state = SIdle | SActive

record sched_fsm =
  sf_st :: sched_state
  sf_runnable :: u32

definition sched_create :: sched_fsm where
  "sched_create = \<lparr>sf_st = SIdle, sf_runnable = 0\<rparr>"

definition task_ready :: "sched_fsm \<Rightarrow> sched_fsm" where
  "task_ready s = s\<lparr>sf_runnable := sf_runnable s + 1, sf_st := SActive\<rparr>"

definition task_unready :: "sched_fsm \<Rightarrow> sched_fsm" where
  "task_unready s = (case sf_st s of
       SIdle \<Rightarrow> s
     | SActive \<Rightarrow> (let r = sf_runnable s - 1 in s\<lparr>sf_runnable := r, sf_st := (if r = 0 then SIdle else SActive)\<rparr>))"

definition is_idle :: "sched_fsm \<Rightarrow> bool" where
  "is_idle s \<longleftrightarrow> sf_st s = SIdle"

section \<open>Thread control blocks\<close>

definition MAX_THREADS :: nat where "MAX_THREADS = 8"
definition STACK_SIZE :: nat where "STACK_SIZE = 16 * 1024"
definition CWD_MAX :: nat where "CWD_MAX = 256"
definition NSIG :: nat where "NSIG = 32"
definition SIG_IGN :: u64 where "SIG_IGN = 1"
definition USER_HEAP_BASE :: u64 where "USER_HEAP_BASE = 0x30000000"
definition SIGKILL_NUM :: u32 where "SIGKILL_NUM = 9"
definition SIGSTOP_NUM :: u32 where "SIGSTOP_NUM = 19"
definition SIGCONT_NUM :: u32 where "SIGCONT_NUM = 18"

datatype run_state = RFree | Runnable | RBlocked | RStopped | RDead

record tcb =
  t_rsp :: u64
  t_state :: run_state
  t_pml4 :: u64
  t_kstack_top :: u64
  t_pid :: u32
  t_parent_pid :: u32
  t_heap_brk :: u64
  t_cwd :: bytes
  t_cwd_len :: nat
  t_sig_pending :: u32
  t_sig_blocked :: u32
  t_sig_handlers :: "u64 list"
  t_sig_restorer :: u64

definition TCB_INIT :: tcb where
  "TCB_INIT = \<lparr>t_rsp = 0, t_state = RFree, t_pml4 = 0, t_kstack_top = 0, t_pid = 0, t_parent_pid = 0, t_heap_brk = 0,
     t_cwd = replicate CWD_MAX 0, t_cwd_len = 0, t_sig_pending = 0, t_sig_blocked = 0, t_sig_handlers = replicate NSIG 0,
     t_sig_restorer = 0\<rparr>"

record sched =
  tcbs :: "tcb list"
  s_n :: nat
  s_current :: nat
  s_active :: bool
  kernel_pml4 :: u64
  last_pml4 :: u64
  current_kstack :: u64
  s_rsp0 :: u64
  s_cr3 :: u64
  kstacks_base :: u64
  kmem :: mem
  umem :: "u64 \<Rightarrow> mem"
  fpu_areas :: "bytes list"
  fpu_live :: bytes
  fpu_clean :: bytes
  s_fsm :: sched_fsm
  s_io :: io_sched
  s_vfs :: vfs
  s_ticks :: nat
  disk_in_flight :: u32
  disk_in_flight_peak :: u32

abbreviation tcb_at :: "sched \<Rightarrow> nat \<Rightarrow> tcb" where
  "tcb_at s i \<equiv> tcbs s ! i"

abbreviation cur_tcb :: "sched \<Rightarrow> tcb" where
  "cur_tcb s \<equiv> tcb_at s (s_current s)"

definition upd_tcb :: "nat \<Rightarrow> (tcb \<Rightarrow> tcb) \<Rightarrow> sched \<Rightarrow> sched" where
  "upd_tcb i f s = s\<lparr>tcbs := (tcbs s)[i := f (tcb_at s i)]\<rparr>"

definition set_fpu :: "nat \<Rightarrow> bytes \<Rightarrow> sched \<Rightarrow> sched" where
  "set_fpu i x s = s\<lparr>fpu_areas := (fpu_areas s)[i := x]\<rparr>"

definition current_pid :: "sched \<Rightarrow> u32" where
  "current_pid s = t_pid (cur_tcb s)"

definition init_boot :: "sched \<Rightarrow> sched" where
  "init_boot s =
     (let k = s_cr3 s
      in (set_fpu 0 (fpu_clean s) s)\<lparr>tcbs := (replicate MAX_THREADS TCB_INIT)[0 := TCB_INIT\<lparr>t_state := Runnable\<rparr>],
           s_n := 1, s_current := 0, kernel_pml4 := k, last_pml4 := k\<rparr>)"

section \<open>Slots and threads\<close>

fun find_slot :: "(tcb \<Rightarrow> bool) \<Rightarrow> nat list \<Rightarrow> tcb list \<Rightarrow> nat option" where
  "find_slot P [] ts = None"
| "find_slot P (i # is) ts = (if P (ts ! i) then Some i else find_slot P is ts)"

definition alloc_slot :: "sched \<Rightarrow> (nat \<times> sched) option" where
  "alloc_slot s =
     (case find_slot (\<lambda>t. t_state t = RFree) [1..<s_n s] (tcbs s) of
        Some i \<Rightarrow> Some (i, s)
      | None \<Rightarrow> if s_n s + 1 < MAX_THREADS then Some (s_n s, s\<lparr>s_n := s_n s + 1\<rparr>) else None)"

definition slot_of_pid :: "u32 \<Rightarrow> sched \<Rightarrow> nat option" where
  "slot_of_pid pid s = find_slot (\<lambda>t. t_pid t = pid \<and> t_state t \<noteq> RFree) [0..<s_n s] (tcbs s)"

definition store_words :: "nat \<Rightarrow> u64 list \<Rightarrow> mem \<Rightarrow> mem" where
  "store_words a ws m = fold (\<lambda>(k, w) m. wr64 m (a + 8 * k) w) (enumerate 0 ws) m"

text \<open>
  \<open>init_thread\<close> and \<open>init_user_frame\<close>: fifteen zero registers, then RIP, CS, RFLAGS, RSP and SS.
  The selectors are those of \<open>gdt.rs\<close>.
\<close>

definition init_thread :: "u64 \<Rightarrow> u64 \<Rightarrow> u16 \<Rightarrow> u16 \<Rightarrow> mem \<Rightarrow> u64 \<times> mem" where
  "init_thread stack_top entry cs ss m =
     (let top = stack_top AND NOT 0xF; saved = top - 160
      in (saved, store_words (unat saved) (replicate 15 0 @ [entry, ucast cs, 0x202, top - 8, ucast ss]) m))"

definition USER_CS :: u64 where "USER_CS = 0x23"
definition USER_SS :: u64 where "USER_SS = 0x1B"

definition init_user_frame :: "u64 \<Rightarrow> u64 \<Rightarrow> u64 \<Rightarrow> mem \<Rightarrow> u64 \<times> mem" where
  "init_user_frame kstack_top entry user_rsp m =
     (let top = kstack_top AND NOT 0xF; saved = top - 160
      in (saved, store_words (unat saved) (replicate 15 0 @ [entry, USER_CS, 0x202, user_rsp, USER_SS]) m))"

definition kstack_top_of :: "nat \<Rightarrow> sched \<Rightarrow> u64" where
  "kstack_top_of n s = (kstacks_base s + of_nat ((n + 1) * STACK_SIZE)) AND NOT 0xF"

definition spawn :: "u64 \<Rightarrow> u64 \<Rightarrow> u16 \<Rightarrow> u16 \<Rightarrow> sched \<Rightarrow> sched option" where
  "spawn stack_top entry cs ss s = do {
     let (rsp, m) = init_thread stack_top entry cs ss (kmem s);
     (n, s) \<leftarrow> alloc_slot (s\<lparr>kmem := m\<rparr>);
     let s = upd_tcb n (\<lambda>t. t\<lparr>t_rsp := rsp, t_state := Runnable\<rparr>) s;
     let s = set_fpu n (fpu_clean s) s;
     Some (s\<lparr>s_fsm := task_ready (s_fsm s)\<rparr>) }"

definition set_slot_cwd :: "nat \<Rightarrow> bytes \<Rightarrow> sched \<Rightarrow> sched" where
  "set_slot_cwd n path s =
     (let len = min (length path) CWD_MAX
      in upd_tcb n (\<lambda>t. t\<lparr>t_cwd := blit (t_cwd t) 0 (take len path), t_cwd_len := len\<rparr>) s)"

definition spawn_user :: "u64 \<Rightarrow> u64 \<Rightarrow> u64 \<Rightarrow> u32 \<Rightarrow> sched \<Rightarrow> sched option" where
  "spawn_user pml4 entry user_rsp pid s = do {
     (n, s) \<leftarrow> alloc_slot s;
     let kstack_top = kstack_top_of n s;
     let (rsp, m) = init_user_frame kstack_top entry user_rsp (kmem s);
     let s = upd_tcb n (\<lambda>t. t\<lparr>t_rsp := rsp, t_state := Runnable, t_pml4 := pml4, t_kstack_top := kstack_top, t_pid := pid,
                              t_heap_brk := USER_HEAP_BASE\<rparr>) (s\<lparr>kmem := m\<rparr>);
     let s = set_slot_cwd n [SLASH] s;
     v \<leftarrow> init_console_fds n (s_vfs s);
     let s = set_fpu n (fpu_clean s) (s\<lparr>s_vfs := v\<rparr>);
     Some (s\<lparr>s_fsm := task_ready (s_fsm s)\<rparr>) }"

definition brk_of_pid :: "u32 \<Rightarrow> sched \<Rightarrow> u64 option" where
  "brk_of_pid pid s = map_option (\<lambda>i. t_heap_brk (tcb_at s i)) (slot_of_pid pid s)"

definition cwd_of_slot :: "tcb \<Rightarrow> nat \<Rightarrow> bytes" where
  "cwd_of_slot t cap = take (min (t_cwd_len t) cap) (t_cwd t)"

definition cwd_of_pid :: "u32 \<Rightarrow> sched \<Rightarrow> bytes" where
  "cwd_of_pid pid s = (case slot_of_pid pid s of Some i \<Rightarrow> cwd_of_slot (tcb_at s i) CWD_MAX | None \<Rightarrow> [])"

text \<open>\<open>fork\<close>: the frame is the parent's, twenty words with \<open>rax\<close> already 0.\<close>

definition spawn_user_from_frame :: "u64 \<Rightarrow> u64 list \<Rightarrow> u32 \<Rightarrow> u32 \<Rightarrow> sched \<Rightarrow> sched option" where
  "spawn_user_from_frame pml4 frame pid parent_pid s = do {
     (n, s) \<leftarrow> alloc_slot s;
     let kstack_top = kstack_top_of n s;
     let saved = kstack_top - 160;
     let s = s\<lparr>kmem := store_words (unat saved) frame (kmem s)\<rparr>;
     let s = upd_tcb n (\<lambda>t. t\<lparr>t_rsp := saved, t_state := Runnable, t_pml4 := pml4, t_kstack_top := kstack_top, t_pid := pid,
                              t_parent_pid := parent_pid\<rparr>) s;
     let s = upd_tcb n (\<lambda>t. t\<lparr>t_heap_brk := (case brk_of_pid parent_pid s of Some b \<Rightarrow> b | None \<Rightarrow> USER_HEAP_BASE)\<rparr>) s;
     let pcwd = cwd_of_pid parent_pid s;
     let s = set_slot_cwd n (if pcwd \<noteq> [] then pcwd else [SLASH]) s;
     v \<leftarrow> (case slot_of_pid parent_pid s of Some ps \<Rightarrow> clone_fds n ps (s_vfs s) | None \<Rightarrow> init_console_fds n (s_vfs s));
     let s = set_fpu n (fpu_live s) (s\<lparr>s_vfs := v\<rparr>);
     let s = (case slot_of_pid parent_pid s of
                Some ps \<Rightarrow> upd_tcb n (\<lambda>t. t\<lparr>t_sig_handlers := t_sig_handlers (tcb_at s ps), t_sig_blocked := t_sig_blocked (tcb_at s ps)\<rparr>) s
              | None \<Rightarrow> s);
     Some (s\<lparr>s_fsm := task_ready (s_fsm s)\<rparr>) }"

section \<open>Blocking and waking\<close>

text \<open>
  One round of the loop of \<open>block_current_until\<close>: with interrupts off the condition is tested and,
  if it fails, the caller marked Blocked. The caller tests again after every wake-up.
\<close>

definition block_current_until :: "(sched \<Rightarrow> bool) \<Rightarrow> sched \<Rightarrow> bool \<times> sched" where
  "block_current_until ready s =
     (if ready s then (True, s) else (False, upd_tcb (s_current s) (\<lambda>t. t\<lparr>t_state := RBlocked\<rparr>) s))"

definition wake_pid :: "u32 \<Rightarrow> sched \<Rightarrow> sched" where
  "wake_pid pid s =
     (case find_slot (\<lambda>t. t_pid t = pid \<and> t_state t = RBlocked) [0..<s_n s] (tcbs s) of
        Some i \<Rightarrow> upd_tcb i (\<lambda>t. t\<lparr>t_state := Runnable\<rparr>) s
      | None \<Rightarrow> s)"

definition parent_of :: "u32 \<Rightarrow> sched \<Rightarrow> u32 option" where
  "parent_of pid s = map_option (\<lambda>i. t_parent_pid (tcb_at s i)) (slot_of_pid pid s)"

definition state_code :: "run_state \<Rightarrow> nat" where
  "state_code r = (case r of Runnable \<Rightarrow> 1 | RBlocked \<Rightarrow> 2 | RDead \<Rightarrow> 3 | RStopped \<Rightarrow> 4 | RFree \<Rightarrow> 0)"

definition live_procs :: "nat \<Rightarrow> sched \<Rightarrow> (u32 \<times> u32 \<times> nat) list" where
  "live_procs cap s =
     take cap (map (\<lambda>t. (t_pid t, t_parent_pid t, state_code (t_state t)))
       (filter (\<lambda>t. t_pid t \<noteq> 0 \<and> t_state t \<noteq> RFree) (take (s_n s) (tcbs s))))"

definition exit_current :: "sched \<Rightarrow> sched" where
  "exit_current s =
     (let s = upd_tcb (s_current s) (\<lambda>t. t\<lparr>t_state := RDead\<rparr>) s;
          s = s\<lparr>s_fsm := task_unready (s_fsm s)\<rparr>;
          parent = t_parent_pid (cur_tcb s)
      in if parent \<noteq> 0 then wake_pid parent s else s)"

section \<open>Disk slots\<close>

text \<open>\<open>acquire_disk\<close>: \<open>None\<close> in the first component means that the caller must wait for a slot.\<close>

definition is_preemption_active :: "sched \<Rightarrow> bool" where
  "is_preemption_active s = s_active s"

definition count_disk :: "sched \<Rightarrow> sched" where
  "count_disk s = (let n = disk_in_flight s + 1
     in s\<lparr>disk_in_flight := n, disk_in_flight_peak := max (disk_in_flight_peak s) n\<rparr>)"

definition acquire_disk :: "sched \<Rightarrow> int option \<times> sched" where
  "acquire_disk s =
     (let pid = current_pid s
      in if \<not> is_preemption_active s \<or> pid = 0 then (Some 0, s)
         else let (slot, io) = io_acquire pid (s_io s); s = s\<lparr>s_io := io\<rparr>
              in if slot < 0 then (None, snd (block_current_until (\<lambda>s. 0 \<le> io_slot_for pid (s_io s)) s))
                 else (let s = count_disk s in (Some (io_slot_for pid (s_io s)), s)))"

text \<open>The caller was woken: it waits on, or has its slot.\<close>

definition acquire_disk_resume :: "sched \<Rightarrow> int option \<times> sched" where
  "acquire_disk_resume s =
     (let pid = current_pid s; (go, s) = block_current_until (\<lambda>s. 0 \<le> io_slot_for pid (s_io s)) s
      in if go then (let s = count_disk s in (Some (io_slot_for pid (s_io s)), s)) else (None, s))"

definition release_disk :: "sched \<Rightarrow> sched" where
  "release_disk s =
     (let pid = current_pid s
      in if \<not> is_preemption_active s \<or> pid = 0 then s
         else let (nxt, io) = io_release pid (s_io s); s = s\<lparr>s_io := io, disk_in_flight := disk_in_flight s - 1\<rparr>
              in if nxt \<noteq> 0 then wake_pid nxt s else s)"

section \<open>Signals\<close>

definition sig_bit :: "u32 \<Rightarrow> u32" where
  "sig_bit sig = push_bit (unat sig) 1"

definition signal_exists :: "u32 \<Rightarrow> sched \<Rightarrow> bool" where
  "signal_exists pid s \<longleftrightarrow> slot_of_pid pid s \<noteq> None"

definition send_signal :: "u32 \<Rightarrow> u32 \<Rightarrow> sched \<Rightarrow> bool \<times> sched" where
  "send_signal pid sig s =
     (if sig = 0 \<or> unat sig \<ge> NSIG then (signal_exists pid s, s)
      else case slot_of_pid pid s of
        None \<Rightarrow> (False, s)
      | Some i \<Rightarrow>
          (True, upd_tcb i (\<lambda>t. let t = t\<lparr>t_sig_pending := t_sig_pending t OR sig_bit sig\<rparr>
             in if t_state t = RBlocked then t\<lparr>t_state := Runnable\<rparr>
                else if t_state t = RStopped \<and> (sig = SIGCONT_NUM \<or> sig = SIGKILL_NUM) then t\<lparr>t_state := Runnable\<rparr>
                else t) s))"

definition mark_current_stopped :: "sched \<Rightarrow> sched" where
  "mark_current_stopped s = upd_tcb (s_current s) (\<lambda>t. t\<lparr>t_state := RStopped\<rparr>) s"

definition trailing_zeros :: "u32 \<Rightarrow> nat" where
  "trailing_zeros w = length (takeWhile (\<lambda>n. \<not> bit w n) [0..<32])"

definition take_deliverable_signal :: "sched \<Rightarrow> u32 \<times> sched" where
  "take_deliverable_signal s =
     (let d = t_sig_pending (cur_tcb s) AND NOT (t_sig_blocked (cur_tcb s))
      in if d = 0 then (0, s)
         else let sig = of_nat (trailing_zeros d)
              in (sig, upd_tcb (s_current s) (\<lambda>t. t\<lparr>t_sig_pending := t_sig_pending t AND NOT (sig_bit sig)\<rparr>) s))"

definition signal_handler :: "u32 \<Rightarrow> sched \<Rightarrow> u64" where
  "signal_handler sig s = (if unat sig \<ge> NSIG then 0 else t_sig_handlers (cur_tcb s) ! unat sig)"

definition set_signal_handler :: "u32 \<Rightarrow> u64 \<Rightarrow> sched \<Rightarrow> u64 \<times> sched" where
  "set_signal_handler sig handler s =
     (if unat sig \<ge> NSIG then (0, s)
      else (t_sig_handlers (cur_tcb s) ! unat sig,
            upd_tcb (s_current s) (\<lambda>t. t\<lparr>t_sig_handlers := (t_sig_handlers t)[unat sig := handler]\<rparr>) s))"

definition signal_restorer :: "sched \<Rightarrow> u64" where
  "signal_restorer s = t_sig_restorer (cur_tcb s)"

definition set_signal_restorer :: "u64 \<Rightarrow> sched \<Rightarrow> sched" where
  "set_signal_restorer r s = (if r = 0 then s else upd_tcb (s_current s) (\<lambda>t. t\<lparr>t_sig_restorer := r\<rparr>) s)"

definition set_signal_mask :: "u32 \<Rightarrow> u32 \<Rightarrow> sched \<Rightarrow> u32 \<times> sched" where
  "set_signal_mask how msk s =
     (let prev = t_sig_blocked (cur_tcb s);
          nxt = (if how = 1 then prev OR msk else if how = 2 then prev AND NOT msk else msk);
          nxt = nxt AND NOT (sig_bit SIGKILL_NUM OR sig_bit SIGSTOP_NUM)
      in (prev, upd_tcb (s_current s) (\<lambda>t. t\<lparr>t_sig_blocked := nxt\<rparr>) s))"

section \<open>Children\<close>

definition reap_slot :: "nat option \<Rightarrow> sched \<Rightarrow> ((u32 \<times> u64) option \<times> sched) option" where
  "reap_slot r s =
     (case r of
        None \<Rightarrow> Some (None, s)
      | Some i \<Rightarrow> do {
          v \<leftarrow> clear_fds i (s_vfs s);
          Some (Some (t_pid (tcb_at s i), t_pml4 (tcb_at s i)), upd_tcb i (\<lambda>_. TCB_INIT) (s\<lparr>s_vfs := v\<rparr>)) })"

definition reap_dead_child :: "u32 \<Rightarrow> sched \<Rightarrow> ((u32 \<times> u64) option \<times> sched) option" where
  "reap_dead_child parent s =
     reap_slot (find_slot (\<lambda>t. t_parent_pid t = parent \<and> t_state t = RDead) [1..<s_n s] (tcbs s)) s"

definition reap_dead_pid :: "u32 \<Rightarrow> u32 \<Rightarrow> sched \<Rightarrow> ((u32 \<times> u64) option \<times> sched) option" where
  "reap_dead_pid parent target s =
     reap_slot (find_slot (\<lambda>t. t_parent_pid t = parent \<and> t_pid t = target \<and> t_state t = RDead) [1..<s_n s] (tcbs s)) s"

definition has_children :: "u32 \<Rightarrow> sched \<Rightarrow> bool" where
  "has_children parent s \<longleftrightarrow> find_slot (\<lambda>t. t_parent_pid t = parent \<and> t_state t \<noteq> RFree) [1..<s_n s] (tcbs s) \<noteq> None"

definition has_child :: "u32 \<Rightarrow> u32 \<Rightarrow> sched \<Rightarrow> bool" where
  "has_child parent kid s \<longleftrightarrow>
     find_slot (\<lambda>t. t_parent_pid t = parent \<and> t_pid t = kid \<and> t_state t \<noteq> RFree) [1..<s_n s] (tcbs s) \<noteq> None"

definition child_reapable :: "u32 \<Rightarrow> u32 \<Rightarrow> sched \<Rightarrow> bool" where
  "child_reapable parent target s \<longleftrightarrow>
     find_slot (\<lambda>t. t_parent_pid t = parent \<and> t_state t = RDead \<and> (target = 0 \<or> t_pid t = target)) [1..<s_n s] (tcbs s) \<noteq> None"

definition child_stopped :: "u32 \<Rightarrow> u32 \<Rightarrow> sched \<Rightarrow> bool" where
  "child_stopped parent target s \<longleftrightarrow>
     find_slot (\<lambda>t. t_parent_pid t = parent \<and> t_state t = RStopped \<and> (target = 0 \<or> t_pid t = target)) [1..<s_n s] (tcbs s) \<noteq> None"

section \<open>Break, working directory, exec\<close>

definition exec_into :: "u64 \<Rightarrow> sched \<Rightarrow> sched" where
  "exec_into new_pml4 s =
     (let s = upd_tcb (s_current s) (\<lambda>t. t\<lparr>t_pml4 := new_pml4, t_heap_brk := USER_HEAP_BASE, t_sig_handlers := replicate NSIG 0\<rparr>) s;
          s = set_fpu (s_current s) (fpu_clean s) s
      in s\<lparr>fpu_live := fpu_areas s ! s_current s, s_cr3 := new_pml4, last_pml4 := new_pml4\<rparr>)"

definition current_heap_brk :: "sched \<Rightarrow> u64" where
  "current_heap_brk s = t_heap_brk (cur_tcb s)"

definition set_current_heap_brk :: "u64 \<Rightarrow> sched \<Rightarrow> sched" where
  "set_current_heap_brk b s = upd_tcb (s_current s) (\<lambda>t. t\<lparr>t_heap_brk := b\<rparr>) s"

definition cwd_current :: "nat \<Rightarrow> sched \<Rightarrow> bytes" where
  "cwd_current cap s = cwd_of_slot (cur_tcb s) cap"

definition set_cwd_current :: "bytes \<Rightarrow> sched \<Rightarrow> bool \<times> sched" where
  "set_cwd_current path s = (if length path > CWD_MAX then (False, s) else (True, set_slot_cwd (s_current s) path s))"

definition sched_init :: "u32 \<Rightarrow> sched \<Rightarrow> sched" where
  "sched_init n_slots s = init_boot (s\<lparr>s_fsm := sched_create, s_io := io_create n_slots\<rparr>)"

end
