(* ===== verification/Signals.thy ===== *)
theory Signals
  imports Sched
begin

text \<open>
  Signal delivery and the timer interrupt: \<open>TrapFrame\<close>, \<open>setup_signal_frame\<close>, \<open>sys_sigreturn\<close>,
  \<open>maybe_deliver_signal\<close> and \<open>deliver_on_preempt\<close> of \<open>kernel/src/usermode.rs\<close>, and \<open>schedule\<close> of
  \<open>kernel/src/sched.rs\<close>, which calls them. A trap frame is twenty 64-bit words; in memory they are
  in the order of the record. User addresses are read and written in the address space that is
  loaded (\<open>last_pml4\<close>).
\<close>

section \<open>Trap frames\<close>

record trap_frame =
  f_r15 :: u64
  f_r14 :: u64
  f_r13 :: u64
  f_r12 :: u64
  f_r11 :: u64
  f_r10 :: u64
  f_r9 :: u64
  f_r8 :: u64
  f_rbp :: u64
  f_rdi :: u64
  f_rsi :: u64
  f_rdx :: u64
  f_rcx :: u64
  f_rbx :: u64
  f_rax :: u64
  f_rip :: u64
  f_cs :: u64
  f_rflags :: u64
  f_rsp :: u64
  f_ss :: u64

definition frame_words :: "trap_frame \<Rightarrow> u64 list" where
  "frame_words f = [f_r15 f, f_r14 f, f_r13 f, f_r12 f, f_r11 f, f_r10 f, f_r9 f, f_r8 f, f_rbp f, f_rdi f, f_rsi f, f_rdx f,
     f_rcx f, f_rbx f, f_rax f, f_rip f, f_cs f, f_rflags f, f_rsp f, f_ss f]"

definition load_frame :: "mem \<Rightarrow> nat \<Rightarrow> trap_frame" where
  "load_frame m a = \<lparr>f_r15 = rd64 m a, f_r14 = rd64 m (a + 8), f_r13 = rd64 m (a + 16), f_r12 = rd64 m (a + 24),
     f_r11 = rd64 m (a + 32), f_r10 = rd64 m (a + 40), f_r9 = rd64 m (a + 48), f_r8 = rd64 m (a + 56),
     f_rbp = rd64 m (a + 64), f_rdi = rd64 m (a + 72), f_rsi = rd64 m (a + 80), f_rdx = rd64 m (a + 88),
     f_rcx = rd64 m (a + 96), f_rbx = rd64 m (a + 104), f_rax = rd64 m (a + 112), f_rip = rd64 m (a + 120),
     f_cs = rd64 m (a + 128), f_rflags = rd64 m (a + 136), f_rsp = rd64 m (a + 144), f_ss = rd64 m (a + 152)\<rparr>"

definition frame_is_user :: "trap_frame \<Rightarrow> bool" where
  "frame_is_user f \<longleftrightarrow> f_cs f AND 3 = 3"

definition SIGTRAMP_VA :: u64 where "SIGTRAMP_VA = 0x40000000"
definition SIGCHLD :: u32 where "SIGCHLD = 17"
definition SIGCONT :: u32 where "SIGCONT = 18"
definition SIGSTOP :: u32 where "SIGSTOP = 19"
definition SIGTSTP :: u32 where "SIGTSTP = 20"

section \<open>Delivery\<close>

definition upd_umem :: "(mem \<Rightarrow> mem) \<Rightarrow> sched \<Rightarrow> sched" where
  "upd_umem f s = s\<lparr>umem := (umem s)(last_pml4 s := f (umem s (last_pml4 s)))\<rparr>"

text \<open>
  The stack pointer is the user's, and the kernel subtracts from it with overflow checks on: \<open>None\<close> is
  the panic when it is too small.
\<close>

definition setup_signal_frame :: "u32 \<Rightarrow> u64 \<Rightarrow> u64 \<Rightarrow> trap_frame \<Rightarrow> sched \<Rightarrow> (trap_frame \<times> sched) option" where
  "setup_signal_frame sig handler restorer f s =
     do { a \<leftarrow> checked_sub (f_rsp f) 128;
          b \<leftarrow> checked_sub a 160;
          let slot = b AND NOT 0xF;
          let s = upd_umem (store_words (unat slot) (frame_words f)) s;
          new_rsp \<leftarrow> checked_sub slot 8;
          let s = upd_umem (\<lambda>m. wr64 m (unat new_rsp) restorer) s;
          Some (f\<lparr>f_rsp := new_rsp, f_rip := handler, f_rdi := ucast sig\<rparr>, s) }"

definition sys_sigreturn :: "trap_frame \<Rightarrow> sched \<Rightarrow> trap_frame" where
  "sys_sigreturn f s = load_frame (umem s (last_pml4 s)) (unat (f_rsp f))"

text \<open>
  What a pending signal does: \<open>Ignored\<close> and default-ignored signals are dropped, a handler with a
  restorer is entered, and the default actions stop or terminate.
\<close>

datatype sig_action = DropSignal | RunHandler u64 u64 | StopProcess | Terminate

definition action_of :: "u32 \<Rightarrow> sched \<Rightarrow> sig_action" where
  "action_of sig s =
     (let h = signal_handler sig s
      in if h = SIG_IGN then DropSignal
         else if h \<noteq> 0 \<and> signal_restorer s \<noteq> 0 then RunHandler h (signal_restorer s)
         else if sig = SIGCHLD \<or> sig = SIGCONT then DropSignal
         else if sig = SIGSTOP \<or> sig = SIGTSTP then StopProcess
         else Terminate)"

definition notify_parent :: "sched \<Rightarrow> sched" where
  "notify_parent s =
     (case parent_of (current_pid s) s of
        Some p \<Rightarrow> if p \<noteq> 0 then snd (send_signal p SIGCHLD s) else s
      | None \<Rightarrow> s)"

lemma trailing_zeros_bit:
  assumes "w \<noteq> 0"
  shows "bit w (trailing_zeros w)" and "trailing_zeros w < 32" and "n < trailing_zeros w \<Longrightarrow> \<not> bit w n"
proof -
  obtain k where k: "bit w k" using assms by (auto simp: bit_eq_iff)
  then have "k < 32" using bit_imp_le_length [of w k] by simp
  then have ex: "\<exists>n \<in> set [0..<32]. \<not> \<not> bit w n" using k by auto
  let ?P = "\<lambda>n. \<not> bit w n"
  have "takeWhile ?P [0..<32] \<noteq> [0..<32]" using ex by (metis takeWhile_eq_all_conv)
  then have l: "length (takeWhile ?P [0..<32]) < length [0..<32]"
    by (metis length_takeWhile_le order_le_neq_trans take_all_iff takeWhile_eq_take order_refl)
  show "trailing_zeros w < 32" using l by (simp add: trailing_zeros_def)
  show "bit w (trailing_zeros w)"
    using nth_length_takeWhile [OF l] l by (simp add: trailing_zeros_def)
  show "\<not> bit w n" if "n < trailing_zeros w"
    using takeWhile_nth [of n ?P "[0..<32]"] set_takeWhileD [of n ?P "[0..<32]"] that l
    by (metis (no_types, lifting) add_0 diff_zero length_upt nth_mem nth_upt order_less_trans trailing_zeros_def)
qed

lemma clear_bit_less:
  fixes w :: u32
  assumes "bit w n"
  shows "unat (w AND NOT (push_bit n 1)) < unat w"
proof -
  have n: "n < 32" using bit_imp_le_length [OF assms] by simp
  have "w AND NOT (push_bit n 1) \<le> w" by (metis and.commute word_and_le1)
  moreover have "w AND NOT (push_bit n 1) \<noteq> w"
  proof
    assume "w AND NOT (push_bit n 1) = w"
    then have "bit (w AND NOT (push_bit n 1)) n" using assms by simp
    then show False using n by (simp add: bit_simps)
  qed
  ultimately show ?thesis by (simp add: word_le_nat_alt word_less_nat_alt order_le_neq_trans)
qed

text \<open>
  Both delivery loops take deliverable signals until one has an effect. They may not return on a
  table the current index points out of, so they are partial functions; the value \<open>None\<close> is also the
  panic of \<open>setup_signal_frame\<close>.
\<close>

partial_function (option) deliver_on_preempt :: "trap_frame \<Rightarrow> sched \<Rightarrow> (bool \<times> trap_frame \<times> sched) option" where
  "deliver_on_preempt f s =
     (let (sig, s) = take_deliverable_signal s
      in if sig = 0 then Some (False, f, s)
         else case action_of sig s of
           DropSignal \<Rightarrow> deliver_on_preempt f s
         | RunHandler h r \<Rightarrow> do { (f, s) \<leftarrow> setup_signal_frame sig h r f s; Some (False, f, s) }
         | StopProcess \<Rightarrow> Some (True, f, mark_current_stopped (notify_parent s))
         | Terminate \<Rightarrow> Some (False, f\<lparr>f_rip := SIGTRAMP_VA, f_rdi := 128 + ucast sig\<rparr>, s))"

text \<open>
  At the return of a system call the process resumes with its frame, exits, or is parked as
  stopped; once resumed the loop goes on from there.
\<close>

datatype delivery = Resume trap_frame | ExitWith u32 | Park trap_frame

partial_function (option) maybe_deliver_signal :: "trap_frame \<Rightarrow> sched \<Rightarrow> (delivery \<times> sched) option" where
  "maybe_deliver_signal f s =
     (let (sig, s) = take_deliverable_signal s
      in if sig = 0 then Some (Resume f, s)
         else case action_of sig s of
           DropSignal \<Rightarrow> maybe_deliver_signal f s
         | RunHandler h r \<Rightarrow> do { (f, s) \<leftarrow> setup_signal_frame sig h r f s; Some (Resume f, s) }
         | StopProcess \<Rightarrow> Some (Park f, mark_current_stopped (notify_parent s))
         | Terminate \<Rightarrow> Some (ExitWith (128 + sig), s))"

section \<open>The timer interrupt\<close>

fun pick_from :: "nat \<Rightarrow> nat \<Rightarrow> nat list \<Rightarrow> tcb list \<Rightarrow> nat" where
  "pick_from cur n [] ts = 0"
| "pick_from cur n (k # ks) ts =
     (let cand = (cur + k) mod n
      in if cand \<noteq> 0 \<and> t_state (ts ! cand) = Runnable then cand else pick_from cur n ks ts)"

definition pick_next :: "sched \<Rightarrow> nat" where
  "pick_next s = pick_from (s_current s) (s_n s) [1..<s_n s + 1] (tcbs s)"

definition preempt_signal :: "u64 \<Rightarrow> sched \<Rightarrow> sched option" where
  "preempt_signal rsp s =
     (let t = cur_tcb s
      in if t_pid t \<noteq> 0 \<and> t_pml4 t \<noteq> 0 \<and> t_sig_pending t AND NOT (t_sig_blocked t) \<noteq> 0
            \<and> frame_is_user (load_frame (kmem s) (unat rsp))
         then do {
           (_, f, s) \<leftarrow> deliver_on_preempt (load_frame (kmem s) (unat rsp)) s;
           Some (s\<lparr>kmem := store_words (unat rsp) (frame_words f) (kmem s)\<rparr>) }
         else Some s)"

definition context_switch :: "nat \<Rightarrow> sched \<Rightarrow> sched" where
  "context_switch nxt s =
     (let cur = s_current s;
          s = (if nxt \<noteq> cur then set_fpu cur (fpu_live s) s else s);
          s = s\<lparr>s_current := nxt\<rparr>;
          np = t_pml4 (tcb_at s nxt);
          target = (if np \<noteq> 0 then np else kernel_pml4 s);
          s = (if target \<noteq> 0 \<and> target \<noteq> last_pml4 s then s\<lparr>s_cr3 := target, last_pml4 := target\<rparr> else s);
          s = (if np \<noteq> 0 then s\<lparr>s_rsp0 := t_kstack_top (tcb_at s nxt), current_kstack := t_kstack_top (tcb_at s nxt)\<rparr> else s)
      in if nxt \<noteq> cur then s\<lparr>fpu_live := fpu_areas s ! nxt\<rparr> else s)"

definition schedule :: "u64 \<Rightarrow> sched \<Rightarrow> (u64 \<times> sched) option" where
  "schedule current_rsp s =
     (let s = s\<lparr>s_ticks := s_ticks s + 1\<rparr>
      in if \<not> s_active s then Some (current_rsp, s)
         else do {
           let s = upd_tcb (s_current s) (\<lambda>t. t\<lparr>t_rsp := current_rsp\<rparr>) s;
           s \<leftarrow> preempt_signal current_rsp s;
           let nxt = pick_next s;
           let s = context_switch nxt s;
           Some (t_rsp (tcb_at s nxt), s) })"

end
