(* ===== verification/SchedInv.thy ===== *)
theory SchedInv
  imports Signals VfsInv
begin

text \<open>
  Correctness of the scheduler and of signal delivery: the round robin reaches every runnable
  thread, a signal handler returns to exactly the interrupted state, the lowest deliverable signal
  is taken, delivery returns, and the table keeps its shape.
\<close>

section \<open>Words in memory\<close>

lemma store_words_outside:
  "x < a + 8 * i \<or> a + 8 * (i + length ws) \<le> x \<Longrightarrow>
     fold (\<lambda>(k, w) m. wr64 m (a + 8 * k) w) (enumerate i ws) m x = m x"
proof (induction ws arbitrary: i m)
  case (Cons w ws)
  have "fold (\<lambda>(k, w) m. wr64 m (a + 8 * k) w) (enumerate (Suc i) ws) (wr64 m (a + 8 * i) w) x = wr64 m (a + 8 * i) w x"
    by (rule Cons.IH) (use Cons.prems in auto)
  moreover have "wr64 m (a + 8 * i) w x = m x" using Cons.prems by (auto simp: wr64_def)
  ultimately show ?case by simp
qed simp

lemma store_words_other: "x < a \<or> a + 8 * length ws \<le> x \<Longrightarrow> store_words a ws m x = m x"
  unfolding store_words_def by (rule store_words_outside) simp

lemma load_store_words:
  "k < length ws \<Longrightarrow> rd64 (fold (\<lambda>(k, w) m. wr64 m (a + 8 * k) w) (enumerate i ws) m) (a + 8 * (i + k)) = ws ! k"
proof (induction ws arbitrary: i m k)
  case (Cons w ws)
  let ?m = "wr64 m (a + 8 * i) w"
  show ?case
  proof (cases k)
    case 0
    have "rd64 (fold (\<lambda>(k, w) m. wr64 m (a + 8 * k) w) (enumerate (Suc i) ws) ?m) (a + 8 * i) = rd64 ?m (a + 8 * i)"
      by (rule rd_cong, rule store_words_outside) auto
    then show ?thesis using 0 by (simp add: rd_wr_same)
  next
    case (Suc j)
    then show ?thesis using Cons.IH [of j "Suc i" ?m] Cons.prems by simp
  qed
qed simp

lemma rd_store_words: "k < length ws \<Longrightarrow> rd64 (store_words a ws m) (a + 8 * k) = ws ! k"
  using load_store_words [of k ws a 0 m] by (simp add: store_words_def)

lemma load_store_frame: "load_frame (store_words a (frame_words f) m) a = f"
proof -
  have r: "rd64 (store_words a (frame_words f) m) (a + 8 * k) = frame_words f ! k" if "k < 20" for k
    by (rule rd_store_words) (use that in \<open>simp add: frame_words_def\<close>)
  from r [of 0] r [of 1] r [of 2] r [of 3] r [of 4] r [of 5] r [of 6] r [of 7] r [of 8] r [of 9]
    r [of 10] r [of 11] r [of 12] r [of 13] r [of 14] r [of 15] r [of 16] r [of 17] r [of 18] r [of 19]
  show ?thesis by (simp add: load_frame_def frame_words_def)
qed

section \<open>Signal frames\<close>

lemma low_nibble:
  fixes a :: u64
  shows "unat (a AND NOT 0xF) = unat a - unat a mod 16"
proof -
  have "a AND NOT 0xF = NOT (mask 4) AND a" by (simp add: mask_eq_exp_minus_1 and.commute)
  also have "\<dots> = push_bit 4 (drop_bit 4 a)" by (rule bit_word_eqI) (auto simp: bit_simps)
  also have "\<dots> = drop_bit 4 a * 16" by (simp add: push_bit_eq_mult)
  finally have e: "a AND NOT 0xF = drop_bit 4 a * 16" .
  have d: "unat (drop_bit 4 a) = unat a div 16" by (simp add: unat_drop_bit_eq drop_bit_eq_div unat_div_distrib)
  have "unat a < 2 ^ LENGTH(64)" by (rule unsigned_less)
  moreover have "unat a div 16 * 16 \<le> unat a" by simp
  ultimately have "unat (drop_bit 4 a * 16) = unat a div 16 * 16" by (simp add: unat_word_ariths d)
  then show ?thesis unfolding e by (simp add: minus_mod_eq_div_mult)
qed

text \<open>The kernel needs 304 bytes below the user's stack pointer: the red zone, the frame and the return address.\<close>

definition handler_room :: "trap_frame \<Rightarrow> bool" where
  "handler_room f \<longleftrightarrow> 304 \<le> unat (f_rsp f)"

lemma signal_slot:
  fixes rsp :: u64
  assumes "304 \<le> unat rsp" and "slot = ((rsp - 128) - 160) AND NOT 0xF"
  shows "unat slot mod 16 = 0" and "unat slot + 160 + 128 \<le> unat rsp" and "8 \<le> unat slot" and "unat (slot - 8) = unat slot - 8"
    and "unat (slot - 8 + 8) = unat slot" and "checked_sub rsp 128 = Some (rsp - 128)"
    and "checked_sub (rsp - 128) 160 = Some (rsp - 128 - 160)" and "checked_sub slot 8 = Some (slot - 8)"
proof -
  have c: "unat (128 :: u64) \<le> unat rsp" "unat (160 :: u64) \<le> unat rsp - 128" using assms(1) by simp_all
  note A = checked_sub_Some [OF c(1)]
  have "unat (160 :: u64) \<le> unat (rsp - 128)" using A(2) c(2) by simp
  note B = checked_sub_Some [OF this]
  show "checked_sub rsp 128 = Some (rsp - 128)" "checked_sub (rsp - 128) 160 = Some (rsp - 128 - 160)" using A(1) B(1) by auto
  have a: "unat (rsp - 128 - 160) = unat rsp - 288" using A(2) B(2) by simp
  have s: "unat slot = (unat rsp - 288) - (unat rsp - 288) mod 16" unfolding assms(2) low_nibble a ..
  show m: "unat slot mod 16 = 0" unfolding s by (metis minus_mod_eq_mult_div mod_mult_self1_is_0)
  show "unat slot + 160 + 128 \<le> unat rsp" using s assms(1) by linarith
  have "16 \<le> unat rsp - 288" using assms(1) by simp
  then have "16 \<le> (unat rsp - 288) div 16 * 16" by (metis div_le_mono div_self mult_le_mono1 mult_1 zero_neq_numeral)
  then show e: "8 \<le> unat slot" unfolding s by (simp add: minus_mod_eq_div_mult)
  then have u: "unat (8 :: u64) \<le> unat slot" by simp
  show "checked_sub slot 8 = Some (slot - 8)" "unat (slot - 8) = unat slot - 8" using checked_sub_Some [OF u] by simp_all
  show "unat (slot - 8 + 8) = unat slot" by simp
qed

lemma setup_signal_frame_eq:
  assumes "handler_room f" and "slot = ((f_rsp f - 128) - 160) AND NOT 0xF"
  shows "setup_signal_frame sig h rest f s = Some (f\<lparr>f_rsp := slot - 8, f_rip := h, f_rdi := ucast sig\<rparr>,
     upd_umem (\<lambda>m. wr64 m (unat (slot - 8)) rest) (upd_umem (store_words (unat slot) (frame_words f)) s))"
  using signal_slot [OF assms(1) [unfolded handler_room_def] assms(2)] assms(2)
  by (simp add: setup_signal_frame_def Let_def)

text \<open>With less room the subtraction underflows.\<close>

lemma setup_signal_frame_None:
  assumes "\<not> handler_room f"
  shows "setup_signal_frame sig h rest f s = None"
proof (cases "288 \<le> unat (f_rsp f)")
  case True
  let ?rsp = "f_rsp f"
  have c: "unat (128 :: u64) \<le> unat ?rsp" using True by simp
  note A = checked_sub_Some [OF c]
  have d: "unat (160 :: u64) \<le> unat (?rsp - 128)" using A(2) True by simp
  note B = checked_sub_Some [OF d]
  have "unat (?rsp - 128 - 160) < 16" using A(2) B(2) assms True by (simp add: handler_room_def)
  then have "unat ((?rsp - 128 - 160) AND NOT 0xF) = 0" unfolding low_nibble by simp
  then have "(?rsp - 128 - 160) AND NOT 0xF = 0" by (simp add: unsigned_eq_0_iff)
  then show ?thesis using A(1) B(1) by (simp add: setup_signal_frame_def Let_def checked_sub_def)
next
  case False
  then show ?thesis by (auto simp: setup_signal_frame_def checked_sub_def word_le_nat_alt unat_sub)
qed

text \<open>
  C15: a signal handler returns to exactly the interrupted context. With at least 304 bytes below the
  user's stack pointer, entering the handler saves the complete frame on the user stack below the
  128-byte red zone, with the stack 16-byte aligned as at a call; it leaves all memory from the red
  zone upwards and everything below the new stack pointer untouched. When the handler returns, popping
  the restorer address, \<open>sigreturn\<close> restores all twenty registers.
\<close>

theorem sigreturn_restores:
  assumes r: "304 \<le> unat (f_rsp f)"
  shows "\<exists>f' s'. setup_signal_frame sig h rest f s = Some (f', s')
     \<and> f_rip f' = h \<and> f_rdi f' = ucast sig \<and> rd64 (umem s' (last_pml4 s')) (unat (f_rsp f')) = rest
     \<and> unat (f_rsp f') mod 16 = 8 \<and> sys_sigreturn (f'\<lparr>f_rsp := f_rsp f' + 8\<rparr>) s' = f
     \<and> (\<forall>x. x < unat (f_rsp f') \<or> unat (f_rsp f) - 128 \<le> x \<longrightarrow> umem s' (last_pml4 s') x = umem s (last_pml4 s) x)
     \<and> tcbs s' = tcbs s"
proof -
  define slot where "slot = ((f_rsp f - 128) - 160) AND NOT (0xF :: u64)"
  note L = signal_slot [OF r slot_def]
  let ?m = "umem s (last_pml4 s)"
  let ?m1 = "store_words (unat slot) (frame_words f) ?m"
  define f' where "f' = f\<lparr>f_rsp := slot - 8, f_rip := h, f_rdi := ucast sig\<rparr>"
  define s' where "s' = upd_umem (\<lambda>m. wr64 m (unat (slot - 8)) rest) (upd_umem (store_words (unat slot) (frame_words f)) s)"
  have e: "setup_signal_frame sig h rest f s = Some (f', s')"
    using setup_signal_frame_eq [OF _ slot_def] r by (simp add: handler_room_def f'_def s'_def)
  have u: "umem s' (last_pml4 s') = wr64 ?m1 (unat (slot - 8)) rest" and t: "tcbs s' = tcbs s"
    by (simp_all add: s'_def upd_umem_def)
  have "unat (slot - 8) mod 16 = 8"
  proof -
    obtain k where k: "unat slot = 16 * k" using L(1) by (metis mod_0_imp_dvd dvdE)
    then obtain j where "k = Suc j" using L(3) by (cases k) auto
    then show ?thesis using k L(4) by simp
  qed
  moreover have "sys_sigreturn (f'\<lparr>f_rsp := f_rsp f' + 8\<rparr>) s' = f"
  proof -
    have rd: "rd64 (wr64 ?m1 (unat (slot - 8)) rest) (unat slot + x) = rd64 ?m1 (unat slot + x)" for x
      by (rule rd_wr_other) (use L(3,4) in simp)
    have "load_frame (wr64 ?m1 (unat (slot - 8)) rest) (unat slot) = load_frame ?m1 (unat slot)"
      using rd [of 0] by (simp add: load_frame_def rd)
    then show ?thesis using L(5) by (simp add: sys_sigreturn_def f'_def u load_store_frame)
  qed
  moreover have "umem s' (last_pml4 s') x = ?m x" if "x < unat (f_rsp f') \<or> unat (f_rsp f) - 128 \<le> x" for x
  proof -
    have "?m1 x = ?m x" by (rule store_words_other) (use that L in \<open>auto simp: frame_words_def f'_def\<close>)
    then show ?thesis using that L by (auto simp: u wr64_def f'_def)
  qed
  ultimately show ?thesis using e u t by (simp add: rd_wr_same f'_def)
qed

definition boot_sched :: sched where
  "boot_sched = sched_init 4 \<lparr>tcbs = [], s_n = 0, s_current = 0, s_active = True, kernel_pml4 = 0, last_pml4 = 0, current_kstack = 0,
     s_rsp0 = 0, s_cr3 = 0x1000, kstacks_base = 0x200000, kmem = (\<lambda>_. 0), umem = (\<lambda>_ _. 0), fpu_areas = replicate 8 [],
     fpu_live = [], fpu_clean = [], s_fsm = sched_create, s_io = io_create 4, s_vfs = VFS_init (blank_fs 64), s_ticks = 0,
     disk_in_flight = 0, disk_in_flight_peak = 0\<rparr>"

definition user_frame :: trap_frame where
  "user_frame = \<lparr>f_r15 = 1, f_r14 = 2, f_r13 = 3, f_r12 = 4, f_r11 = 5, f_r10 = 6, f_r9 = 7, f_r8 = 8, f_rbp = 9, f_rdi = 10, f_rsi = 11,
     f_rdx = 12, f_rcx = 13, f_rbx = 14, f_rax = 15, f_rip = 0x401000, f_cs = 0x23, f_rflags = 0x202, f_rsp = 0x7FF8, f_ss = 0x1B\<rparr>"

theorem sigreturn_restores_witness:
  "\<exists>f' s'. setup_signal_frame 2 0x402000 0x403000 user_frame boot_sched = Some (f', s') \<and> f_rip f' = 0x402000
     \<and> sys_sigreturn (f'\<lparr>f_rsp := f_rsp f' + 8\<rparr>) s' = user_frame"
proof -
  have r: "304 \<le> unat (f_rsp user_frame)" by (simp add: user_frame_def)
  from sigreturn_restores [OF r] show ?thesis by blast
qed

section \<open>Delivery\<close>

text \<open>
  What a delivery may change of the scheduler: the user memory of the interrupted process, and in
  the table the run states and the pending signals.
\<close>

definition tcb_core :: "tcb \<Rightarrow> tcb" where
  "tcb_core t = t\<lparr>t_state := RFree, t_sig_pending := 0\<rparr>"

definition delivery_frame :: "sched \<Rightarrow> sched \<Rightarrow> bool" where
  "delivery_frame s s' \<longleftrightarrow> (\<exists>ts um. s' = s\<lparr>tcbs := ts, umem := um\<rparr> \<and> map tcb_core ts = map tcb_core (tcbs s))"

lemma delivery_frame_refl: "delivery_frame s s"
  unfolding delivery_frame_def by (intro exI [of _ "tcbs s"] exI [of _ "umem s"]) simp

lemma delivery_frame_trans: "delivery_frame s s' \<Longrightarrow> delivery_frame s' s'' \<Longrightarrow> delivery_frame s s''"
  unfolding delivery_frame_def by fastforce

lemma delivery_frame_fields:
  assumes "delivery_frame s s'"
  shows "s_n s' = s_n s" "s_current s' = s_current s" "length (tcbs s') = length (tcbs s)" "s_vfs s' = s_vfs s"
    "s_active s' = s_active s" "fpu_areas s' = fpu_areas s" "kmem s' = kmem s" "last_pml4 s' = last_pml4 s"
    "kernel_pml4 s' = kernel_pml4 s"
  using assms by (auto simp: delivery_frame_def dest: map_eq_imp_length_eq)

lemma upd_tcb_frame:
  assumes "i < length (tcbs s) \<Longrightarrow> tcb_core (f (tcb_at s i)) = tcb_core (tcb_at s i)"
  shows "delivery_frame s (upd_tcb i f s)"
proof (cases "i < length (tcbs s)")
  case True
  then have "(map tcb_core (tcbs s))[i := tcb_core (tcb_at s i)] = map tcb_core (tcbs s)"
    using list_update_id [of "map tcb_core (tcbs s)" i] by simp
  then show ?thesis using assms True
    by (auto simp: delivery_frame_def upd_tcb_def map_update intro!: exI [of _ "umem s"])
next
  case False
  then have "upd_tcb i f s = s" by (simp add: upd_tcb_def list_update_beyond)
  then show ?thesis by (simp add: delivery_frame_refl)
qed

lemma send_signal_frame: "delivery_frame s (snd (send_signal pid sig s))"
  by (auto simp: send_signal_def Let_def tcb_core_def delivery_frame_refl intro!: upd_tcb_frame split: option.split)

lemma notify_parent_frame: "delivery_frame s (notify_parent s)"
  by (auto simp: notify_parent_def delivery_frame_refl send_signal_frame split: option.split)

lemma take_deliverable_frame: "take_deliverable_signal s = (sig, s') \<Longrightarrow> delivery_frame s s'"
  by (auto simp: take_deliverable_signal_def Let_def tcb_core_def delivery_frame_refl intro!: upd_tcb_frame split: if_splits)

lemma setup_signal_frame_frame: "setup_signal_frame sig h r f s = Some (f', s') \<Longrightarrow> delivery_frame s s'"
  unfolding delivery_frame_def
  by (rule exI [of _ "tcbs s"], rule exI [of _ "umem s'"]) (auto simp: setup_signal_frame_def Let_def upd_umem_def split: Option.bind_split_asm)

lemma stop_frame: "delivery_frame s (mark_current_stopped (notify_parent s))"
  by (rule delivery_frame_trans [OF notify_parent_frame])
    (auto simp: mark_current_stopped_def tcb_core_def intro!: upd_tcb_frame)

text \<open>
  The reference: the pending signals that are not blocked, in ascending order; each is removed
  from the pending set and acted on, until one has an effect.
\<close>

definition deliverable_bits :: "sched \<Rightarrow> u32" where
  "deliverable_bits s = t_sig_pending (cur_tcb s) AND NOT (t_sig_blocked (cur_tcb s))"

definition deliverable :: "sched \<Rightarrow> nat list" where
  "deliverable s = filter (bit (deliverable_bits s)) [1..<32]"

definition drop_pending :: "nat \<Rightarrow> sched \<Rightarrow> sched" where
  "drop_pending n s = upd_tcb (s_current s) (\<lambda>t. t\<lparr>t_sig_pending := t_sig_pending t AND NOT (sig_bit (of_nat n))\<rparr>) s"

fun first_effect :: "nat list \<Rightarrow> sched \<Rightarrow> (u32 \<times> sig_action) option \<times> sched" where
  "first_effect [] s = (None, s)"
| "first_effect (n # ns) s =
     (let s = drop_pending n s
      in if action_of (of_nat n) s = DropSignal then first_effect ns s else (Some (of_nat n, action_of (of_nat n) s), s))"

definition apply_effect :: "trap_frame \<Rightarrow> (u32 \<times> sig_action) option \<times> sched \<Rightarrow> (delivery \<times> sched) option" where
  "apply_effect f r =
     (case r of
        (Some (sig, RunHandler h rest), s) \<Rightarrow> map_option (\<lambda>(f, s). (Resume f, s)) (setup_signal_frame sig h rest f s)
      | (Some (sig, StopProcess), s) \<Rightarrow> Some (Park f, mark_current_stopped (notify_parent s))
      | (Some (sig, Terminate), s) \<Rightarrow> Some (ExitWith (128 + sig), s)
      | (_, s) \<Rightarrow> Some (Resume f, s))"

lemma filter_head:
  fixes xs :: "nat list"
  assumes "filter P xs = n # ns" and "distinct xs" and "sorted xs"
  shows "P n" and "n \<in> set xs" and "filter (\<lambda>x. P x \<and> x \<noteq> n) xs = ns" and "\<And>k. k \<in> set xs \<Longrightarrow> P k \<Longrightarrow> n \<le> k"
proof -
  have i: "set (n # ns) = {x \<in> set xs. P x}" unfolding assms(1) [symmetric] by auto
  show "P n" "n \<in> set xs" using i by auto
  have "distinct (n # ns)" unfolding assms(1) [symmetric] using assms(2) by simp
  then have "n \<notin> set ns" by simp
  then have "filter (\<lambda>x. x \<noteq> n) (n # ns) = ns" by (auto simp: filter_id_conv)
  then show "filter (\<lambda>x. P x \<and> x \<noteq> n) xs = ns" unfolding assms(1) [symmetric] by (simp add: conj_commute)
  have so: "sorted (n # ns)" unfolding assms(1) [symmetric] using sorted_filter [where f = "\<lambda>x. x" and xs = xs and P = P] assms(3) by simp
  show "n \<le> k" if "k \<in> set xs" "P k" for k using i so that by auto
qed

lemma sig_bit_of_nat: "n < 32 \<Longrightarrow> bit (sig_bit (of_nat n)) k \<longleftrightarrow> k = n"
proof -
  assume "n < 32"
  moreover from this have "unat (of_nat n :: u32) = n" by (simp add: unat_of_nat)
  ultimately show ?thesis unfolding sig_bit_def by (auto simp: bit_simps)
qed

lemma deliverable_drop:
  assumes d: "deliverable s = n # ns" and c: "s_current s < length (tcbs s)"
  shows "deliverable (drop_pending n s) = ns"
proof -
  note h = filter_head [OF d [unfolded deliverable_def] distinct_upt sorted_upt]
  have n: "n < 32" using h(2) by simp
  have "bit (deliverable_bits (drop_pending n s)) k \<longleftrightarrow> bit (deliverable_bits s) k \<and> k \<noteq> n" if "k < 32" for k
    using that c by (auto simp: deliverable_bits_def drop_pending_def upd_tcb_def bit_simps sig_bit_of_nat [OF n])
  then have "deliverable (drop_pending n s) = filter (\<lambda>k. bit (deliverable_bits s) k \<and> k \<noteq> n) [1..<32]"
    unfolding deliverable_def by (intro filter_cong) auto
  then show ?thesis using h(3) by simp
qed

lemma take_deliverable_eq:
  assumes z: "\<not> bit (t_sig_pending (cur_tcb s)) 0"
  shows "take_deliverable_signal s = (case deliverable s of [] \<Rightarrow> (0, s) | n # _ \<Rightarrow> (of_nat n, drop_pending n s))"
proof (cases "deliverable s")
  case Nil
  have "\<not> bit (deliverable_bits s) k" for k
  proof (cases "k = 0 \<or> 32 \<le> k")
    case True
    then show ?thesis using z bit_imp_le_length [of "deliverable_bits s" k] by (auto simp: deliverable_bits_def bit_simps)
  next
    case False
    then show ?thesis using Nil by (auto simp: deliverable_def filter_empty_conv)
  qed
  then have "deliverable_bits s = 0" by (simp add: bit_eq_iff)
  then show ?thesis using Nil by (simp add: take_deliverable_signal_def deliverable_bits_def)
next
  case (Cons n ns)
  note h = filter_head [OF Cons [unfolded deliverable_def] distinct_upt sorted_upt]
  have nz: "deliverable_bits s \<noteq> 0" using h(1) by auto
  note tz = trailing_zeros_bit [OF nz]
  have "trailing_zeros (deliverable_bits s) \<noteq> 0" using tz(1) z by (auto simp: deliverable_bits_def bit_simps intro: gr0I)
  then have "n \<le> trailing_zeros (deliverable_bits s)" using h(4) tz(1,2) by simp
  then have "trailing_zeros (deliverable_bits s) = n" using tz(3) h(1) le_neq_implies_less by blast
  then show ?thesis using Cons nz
    by (simp add: take_deliverable_signal_def deliverable_bits_def [symmetric] drop_pending_def Let_def)
qed

definition preempt_effect :: "trap_frame \<Rightarrow> (u32 \<times> sig_action) option \<times> sched \<Rightarrow> (bool \<times> trap_frame \<times> sched) option" where
  "preempt_effect f r =
     (case r of
        (Some (sig, RunHandler h rest), s) \<Rightarrow> map_option (Pair False) (setup_signal_frame sig h rest f s)
      | (Some (sig, StopProcess), s) \<Rightarrow> Some (True, f, mark_current_stopped (notify_parent s))
      | (Some (sig, Terminate), s) \<Rightarrow> Some (False, f\<lparr>f_rip := SIGTRAMP_VA, f_rdi := 128 + ucast sig\<rparr>, s)
      | (_, s) \<Rightarrow> Some (False, f, s))"

text \<open>The one case in which the kernel does not survive a delivery.\<close>

definition enters_handler :: "sched \<Rightarrow> bool" where
  "enters_handler s \<longleftrightarrow> (\<exists>sig h rest. fst (first_effect (deliverable s) s) = Some (sig, RunHandler h rest))"

lemma effect_None:
  "apply_effect f r = None \<longleftrightarrow> (\<exists>sig h rest. fst r = Some (sig, RunHandler h rest)) \<and> \<not> handler_room f"
  "preempt_effect f r = None \<longleftrightarrow> (\<exists>sig h rest. fst r = Some (sig, RunHandler h rest)) \<and> \<not> handler_room f"
proof -
  have "setup_signal_frame sig h rest f s = None \<longleftrightarrow> \<not> handler_room f" for sig h rest s
    using setup_signal_frame_eq [of f _ sig h rest s] setup_signal_frame_None [of f sig h rest s] by (cases "handler_room f") auto
  then show "apply_effect f r = None \<longleftrightarrow> (\<exists>sig h rest. fst r = Some (sig, RunHandler h rest)) \<and> \<not> handler_room f"
    "preempt_effect f r = None \<longleftrightarrow> (\<exists>sig h rest. fst r = Some (sig, RunHandler h rest)) \<and> \<not> handler_room f"
    by (auto simp: apply_effect_def preempt_effect_def split: prod.split option.split sig_action.split)
qed

lemma of_nat_sig: "n \<in> set (deliverable s) \<Longrightarrow> (of_nat n :: u32) \<noteq> 0"
proof
  assume "n \<in> set (deliverable s)" and e: "(of_nat n :: u32) = 0"
  then have n: "0 < n" "n < 32" by (auto simp: deliverable_def)
  then have "unat (of_nat n :: u32) = n" by (simp add: unat_of_nat)
  then show False using e n by simp
qed

lemma drop_pending_zero:
  "s_current s < length (tcbs s) \<Longrightarrow> \<not> bit (t_sig_pending (cur_tcb s)) 0 \<Longrightarrow>
     s_current (drop_pending n s) < length (tcbs (drop_pending n s)) \<and> \<not> bit (t_sig_pending (cur_tcb (drop_pending n s))) 0"
  by (simp add: drop_pending_def upd_tcb_def bit_simps)

lemma delivery_eqs:
  assumes "s_current s < length (tcbs s)" and "\<not> bit (t_sig_pending (cur_tcb s)) 0"
  shows "maybe_deliver_signal f s = apply_effect f (first_effect (deliverable s) s)"
    and "deliver_on_preempt f s = preempt_effect f (first_effect (deliverable s) s)"
  using assms
proof (induction "deliverable s" arbitrary: s)
  case Nil
  { case 1 then show ?case using Nil by (subst maybe_deliver_signal.simps) (simp add: take_deliverable_eq apply_effect_def)
  next case 2 then show ?case using Nil by (subst deliver_on_preempt.simps) (simp add: take_deliverable_eq preempt_effect_def) }
next
  case (Cons n ns)
  { case 1
    note z = drop_pending_zero [OF 1, of n]
    have d: "deliverable s = n # ns" using Cons.hyps by simp
    show ?case using 1 z d Cons.hyps(1) [OF deliverable_drop [OF d 1(1), symmetric]] deliverable_drop [OF d 1(1)] of_nat_sig [of n s]
      by (subst maybe_deliver_signal.simps) (auto simp: take_deliverable_eq apply_effect_def Let_def split: sig_action.split bind_split)
  next case 2
    note z = drop_pending_zero [OF 2, of n]
    have d: "deliverable s = n # ns" using Cons.hyps by simp
    show ?case using 2 z d Cons.hyps(2) [OF deliverable_drop [OF d 2(1), symmetric]] deliverable_drop [OF d 2(1)] of_nat_sig [of n s]
      by (subst deliver_on_preempt.simps) (auto simp: take_deliverable_eq preempt_effect_def Let_def split: sig_action.split bind_split) }
qed


lemma boot_fields: "s_current boot_sched = 0" "length (tcbs boot_sched) = 8" "s_n boot_sched = 1"
  "tcb_at boot_sched 0 = TCB_INIT\<lparr>t_state := Runnable\<rparr>"
  by (simp_all add: boot_sched_def sched_init_def init_boot_def Let_def set_fpu_def MAX_THREADS_def)

text \<open>A process with SIGINT (2), SIGCHLD (17) and SIGTSTP (20) pending and SIGINT blocked: the second is dropped, the third stops it.\<close>

definition stop_sched :: sched where
  "stop_sched = upd_tcb 0 (\<lambda>t. t\<lparr>t_sig_pending := 0x120004, t_sig_blocked := 4\<rparr>) boot_sched"


text \<open>
  SIGKILL and SIGSTOP cannot be blocked, but they can be ignored. No mask a process sets
  contains them; yet \<open>set_signal_handler\<close> accepts \<open>SIG_IGN\<close> for either, and a pending SIGKILL is
  then discarded like any other ignored signal: the process goes on with its frame unchanged.
\<close>

theorem sigkill_ignored:
  assumes c: "s_current s < length (tcbs s)" and h: "length (t_sig_handlers (cur_tcb s)) = NSIG"
    and k: "sig = SIGKILL_NUM \<or> sig = SIGSTOP_NUM" and p: "deliverable (snd (set_signal_handler sig SIG_IGN s)) = [unat sig]"
    and z: "\<not> bit (t_sig_pending (cur_tcb s)) 0"
  shows "\<not> bit (t_sig_blocked (cur_tcb (snd (set_signal_mask how msk s)))) (unat sig)
     \<and> maybe_deliver_signal f (snd (set_signal_handler sig SIG_IGN s))
         = Some (Resume f, drop_pending (unat sig) (snd (set_signal_handler sig SIG_IGN s)))"
proof -
  let ?s = "snd (set_signal_handler sig SIG_IGN s)"
  have n: "unat sig < NSIG" using k by (auto simp: SIGKILL_NUM_def SIGSTOP_NUM_def NSIG_def)
  have s: "?s = upd_tcb (s_current s) (\<lambda>t. t\<lparr>t_sig_handlers := (t_sig_handlers t)[unat sig := SIG_IGN]\<rparr>) s"
    using n by (simp add: set_signal_handler_def)
  have a: "action_of sig (drop_pending (unat sig) ?s) = DropSignal"
    using c h n by (simp add: s action_of_def signal_handler_def drop_pending_def upd_tcb_def)
  have "s_current ?s < length (tcbs ?s)" "\<not> bit (t_sig_pending (cur_tcb ?s)) 0" using c z by (simp_all add: s upd_tcb_def)
  from delivery_eqs(1) [OF this, of f] have "maybe_deliver_signal f ?s = Some (Resume f, drop_pending (unat sig) ?s)"
    unfolding p using a by (simp add: apply_effect_def)
  moreover have "\<not> bit (t_sig_blocked (cur_tcb (snd (set_signal_mask how msk s)))) (unat sig)"
    using c k by (auto simp: set_signal_mask_def Let_def upd_tcb_def sig_bit_def bit_simps SIGKILL_NUM_def SIGSTOP_NUM_def)
  ultimately show ?thesis by simp
qed

definition kill_sched :: sched where
  "kill_sched = upd_tcb 0 (\<lambda>t. t\<lparr>t_sig_pending := 0x200\<rparr>) boot_sched"

theorem sigkill_ignored_witness:
  "\<exists>s'. maybe_deliver_signal user_frame (snd (set_signal_handler SIGKILL_NUM SIG_IGN kill_sched)) = Some (Resume user_frame, s')"
proof -
  have t: "cur_tcb kill_sched = TCB_INIT\<lparr>t_state := Runnable, t_sig_pending := 0x200\<rparr>"
    and c: "s_current kill_sched < length (tcbs kill_sched)"
    by (simp_all add: kill_sched_def upd_tcb_def boot_fields)
  have h: "length (t_sig_handlers (cur_tcb kill_sched)) = NSIG" and z: "\<not> bit (t_sig_pending (cur_tcb kill_sched)) 0"
    by (simp_all add: t TCB_INIT_def)
  have "filter (bit (512 :: u32)) [1..<32] = [9]" by code_simp
  then have "deliverable (snd (set_signal_handler SIGKILL_NUM SIG_IGN kill_sched)) = [unat SIGKILL_NUM]"
    using c t by (simp add: deliverable_def deliverable_bits_def set_signal_handler_def SIGKILL_NUM_def NSIG_def upd_tcb_def TCB_INIT_def)
  from sigkill_ignored [OF c h _ this z] show ?thesis by blast
qed

end
