(* ===== verification/SchedReach.thy ===== *)
theory SchedReach
  imports SchedInv
begin

text \<open>
  The scheduler over time: the invariant of the thread table under every operation of
  \<open>kernel/src/sched.rs\<close> and the timer interrupt, the fairness of the round robin, what a fork
  hands to the child, and the exit and reaping of a child.
\<close>

section \<open>The invariant\<close>

definition tcb_ok :: "tcb \<Rightarrow> bool" where
  "tcb_ok t \<longleftrightarrow> length (t_cwd t) = CWD_MAX \<and> t_cwd_len t \<le> CWD_MAX \<and> length (t_sig_handlers t) = NSIG
     \<and> \<not> bit (t_sig_pending t) 0 \<and> \<not> bit (t_sig_blocked t) (unat SIGKILL_NUM) \<and> \<not> bit (t_sig_blocked t) (unat SIGSTOP_NUM)
     \<and> (t_state t = RFree \<longrightarrow> t = TCB_INIT)"

definition sched_ok :: "sched \<Rightarrow> bool" where
  "sched_ok s \<longleftrightarrow> length (tcbs s) = MAX_THREADS \<and> length (fpu_areas s) = MAX_THREADS \<and> s_n s < MAX_THREADS
     \<and> s_current s < s_n s \<and> (\<forall>t \<in> set (tcbs s). tcb_ok t) \<and> (\<forall>i < MAX_THREADS. s_n s \<le> i \<longrightarrow> tcb_at s i = TCB_INIT)
     \<and> t_state (cur_tcb s) \<noteq> RFree \<and> t_state (tcb_at s 0) \<noteq> RFree \<and> vfs_ok (s_vfs s)"

lemma tcb_ok_init: "tcb_ok TCB_INIT"
  by (simp add: tcb_ok_def TCB_INIT_def)

lemma sched_ok_upd:
  assumes s: "sched_ok s" and i: "i < s_n s" and f: "tcb_ok (tcb_at s i) \<Longrightarrow> tcb_ok (f (tcb_at s i))"
    and r: "t_state (f (tcb_at s i)) = RFree \<Longrightarrow> i \<noteq> s_current s \<and> i \<noteq> 0"
  shows "sched_ok (upd_tcb i f s)"
proof -
  have l: "i < length (tcbs s)" using s i by (simp add: sched_ok_def)
  then have "tcb_ok (f (tcb_at s i))" using s f by (simp add: sched_ok_def)
  then have "\<forall>t \<in> set (tcbs (upd_tcb i f s)). tcb_ok t"
    using s by (auto simp: sched_ok_def upd_tcb_def dest: set_update_subset_insert [THEN subsetD])
  then show ?thesis using s i r l by (auto simp: sched_ok_def upd_tcb_def nth_list_update)
qed

lemma sched_ok_cur:
  assumes "sched_ok s" and "tcb_ok (cur_tcb s) \<Longrightarrow> tcb_ok (f (cur_tcb s))" and "t_state (f (cur_tcb s)) \<noteq> RFree"
  shows "sched_ok (upd_tcb (s_current s) f s)"
  using assms by (intro sched_ok_upd) (auto simp: sched_ok_def)

text \<open>Fields outside the invariant.\<close>

lemma sched_ok_other [simp]:
  "sched_ok (s\<lparr>kmem := a\<rparr>) = sched_ok s" "sched_ok (s\<lparr>umem := b\<rparr>) = sched_ok s" "sched_ok (s\<lparr>s_fsm := c\<rparr>) = sched_ok s"
  "sched_ok (s\<lparr>s_io := d\<rparr>) = sched_ok s" "sched_ok (s\<lparr>s_ticks := e\<rparr>) = sched_ok s" "sched_ok (s\<lparr>fpu_live := g\<rparr>) = sched_ok s"
  "sched_ok (s\<lparr>s_cr3 := h\<rparr>) = sched_ok s" "sched_ok (s\<lparr>last_pml4 := j\<rparr>) = sched_ok s" "sched_ok (s\<lparr>s_rsp0 := k\<rparr>) = sched_ok s"
  "sched_ok (s\<lparr>current_kstack := k\<rparr>) = sched_ok s" "sched_ok (s\<lparr>disk_in_flight := m\<rparr>) = sched_ok s"
  "sched_ok (s\<lparr>disk_in_flight_peak := m\<rparr>) = sched_ok s" "sched_ok (set_fpu q x s) = sched_ok s"
  by (simp_all add: sched_ok_def set_fpu_def)

lemma find_slot_Some: "find_slot P is ts = Some i \<Longrightarrow> i \<in> set is \<and> P (ts ! i)"
  by (induction "is") (auto split: if_splits)

lemma find_slot_None: "find_slot P is ts = None \<longleftrightarrow> (\<forall>i \<in> set is. \<not> P (ts ! i))"
  by (induction "is") auto

lemma find_slot_unique: "i \<in> set is \<Longrightarrow> P (ts ! i) \<Longrightarrow> (\<And>j. j \<in> set is \<Longrightarrow> P (ts ! j) \<Longrightarrow> j = i) \<Longrightarrow> find_slot P is ts = Some i"
  by (metis find_slot_None find_slot_Some not_Some_eq)

lemma tcb_at_ok: "sched_ok s \<Longrightarrow> i < MAX_THREADS \<Longrightarrow> tcb_ok (tcb_at s i)"
  by (auto simp: sched_ok_def)

text \<open>A slot that is handed out is a fresh one.\<close>

lemma alloc_slot_ok:
  assumes s: "sched_ok s" and a: "alloc_slot s = Some (n, s')"
  shows "sched_ok s' \<and> 0 < n \<and> n < s_n s' \<and> n \<noteq> s_current s' \<and> tcb_at s' n = TCB_INIT
     \<and> s' = s\<lparr>s_n := s_n s'\<rparr> \<and> s_n s \<le> s_n s'"
proof (cases "find_slot (\<lambda>t. t_state t = RFree) [1..<s_n s] (tcbs s)")
  case None
  then have "s' = s\<lparr>s_n := s_n s + 1\<rparr>" "n = s_n s" "s_n s + 1 < MAX_THREADS" using a by (auto simp: alloc_slot_def split: if_splits)
  then show ?thesis using s by (auto simp: sched_ok_def)
next
  case (Some i)
  then have e: "s' = s" "n = i" using a by (auto simp: alloc_slot_def)
  have i: "0 < i" "i < s_n s" "t_state (tcb_at s i) = RFree" using find_slot_Some [OF Some] by auto
  then have "tcb_ok (tcb_at s i)" using s by (auto simp: sched_ok_def)
  then have "tcb_at s i = TCB_INIT" using i(3) by (simp add: tcb_ok_def)
  then show ?thesis using e i s by (auto simp: sched_ok_def)
qed

lemma set_slot_cwd_eq: "set_slot_cwd n path s = upd_tcb n
    (\<lambda>t. t\<lparr>t_cwd := blit (t_cwd t) 0 (take CWD_MAX path), t_cwd_len := min (length path) CWD_MAX\<rparr>) s"
proof -
  have "take (min (length path) CWD_MAX) path = take CWD_MAX path" by (simp add: min_def)
  then show ?thesis by (simp add: set_slot_cwd_def)
qed

lemma set_slot_cwd_ok:
  assumes "sched_ok s" and "n < s_n s" and "t_state (tcb_at s n) \<noteq> RFree"
  shows "sched_ok (set_slot_cwd n path s)"
  unfolding set_slot_cwd_eq using assms by (intro sched_ok_upd) (auto simp: tcb_ok_def)

section \<open>The operations keep the invariant\<close>

lemma sched_ok_vfs: "sched_ok s \<Longrightarrow> vfs_ok v \<Longrightarrow> sched_ok (s\<lparr>s_vfs := v\<rparr>)"
  by (simp add: sched_ok_def)

lemma upd_tcb_fields [simp]:
  "s_n (upd_tcb i f s) = s_n s" "s_current (upd_tcb i f s) = s_current s" "s_vfs (upd_tcb i f s) = s_vfs s"
  "length (tcbs (upd_tcb i f s)) = length (tcbs s)" "kmem (upd_tcb i f s) = kmem s" "fpu_clean (upd_tcb i f s) = fpu_clean s"
  "fpu_areas (upd_tcb i f s) = fpu_areas s" "fpu_live (upd_tcb i f s) = fpu_live s" "last_pml4 (upd_tcb i f s) = last_pml4 s"
  "kernel_pml4 (upd_tcb i f s) = kernel_pml4 s" "s_io (upd_tcb i f s) = s_io s" "s_fsm (upd_tcb i f s) = s_fsm s"
  "s_active (upd_tcb i f s) = s_active s"
  by (simp_all add: upd_tcb_def)

lemma tcb_at_upd: "i < length (tcbs s) \<Longrightarrow> tcb_at (upd_tcb i f s) j = (if j = i then f (tcb_at s i) else tcb_at s j)"
  by (auto simp: upd_tcb_def nth_list_update)

lemma sched_ok_bounds:
  assumes "sched_ok s"
  shows "s_current s < length (tcbs s)" "s_current s < s_n s" "s_n s < MAX_THREADS" "length (tcbs s) = MAX_THREADS" "vfs_ok (s_vfs s)"
    "0 < s_n s" "t_state (cur_tcb s) \<noteq> RFree"
  using assms by (auto simp: sched_ok_def)

lemma max_threads_procs: "MAX_THREADS = MAX_PROCS" by (simp add: MAX_THREADS_def MAX_PROCS_def)

lemma wake_pid_ok:
  assumes s: "sched_ok s" shows "sched_ok (wake_pid pid s)"
proof (cases "find_slot (\<lambda>t. t_pid t = pid \<and> t_state t = RBlocked) [0..<s_n s] (tcbs s)")
  case (Some i)
  then show ?thesis using s find_slot_Some [OF Some] by (auto simp: wake_pid_def tcb_ok_def intro!: sched_ok_upd)
qed (use s in \<open>simp add: wake_pid_def\<close>)

lemma send_signal_ok:
  assumes s: "sched_ok s" shows "sched_ok (snd (send_signal pid sig s))"
proof (cases "sig = 0 \<or> unat sig \<ge> NSIG \<or> slot_of_pid pid s = None")
  case True
  then show ?thesis using s by (auto simp: send_signal_def)
next
  case False
  then obtain i where i: "slot_of_pid pid s = Some i" and g: "sig \<noteq> 0" "unat sig < NSIG" by auto
  have n: "i < s_n s" "t_state (tcb_at s i) \<noteq> RFree" using find_slot_Some [OF i [unfolded slot_of_pid_def]] by auto
  have "unat sig \<noteq> 0" using g by (simp add: unat_eq_0)
  then have "\<not> bit (sig_bit sig) 0" unfolding sig_bit_def by (simp add: bit_simps)
  then show ?thesis using s i g n by (auto simp: send_signal_def Let_def tcb_ok_def bit_simps split: if_splits intro!: sched_ok_upd)
qed

lemma mark_current_stopped_ok: "sched_ok s \<Longrightarrow> sched_ok (mark_current_stopped s)"
  unfolding mark_current_stopped_def by (rule sched_ok_cur) (auto simp: tcb_ok_def)

lemma block_current_until_ok: "sched_ok s \<Longrightarrow> sched_ok (snd (block_current_until ready s))"
  by (auto simp: block_current_until_def tcb_ok_def intro!: sched_ok_cur)

lemma exit_current_ok: "sched_ok s \<Longrightarrow> sched_ok (exit_current s)"
  by (auto simp: exit_current_def Let_def tcb_ok_def intro!: wake_pid_ok sched_ok_cur)

lemma acquire_disk_ok: "sched_ok s \<Longrightarrow> sched_ok (snd (acquire_disk s))"
  by (auto simp: acquire_disk_def count_disk_def Let_def split: prod.split intro!: block_current_until_ok)

lemma acquire_disk_resume_ok: "sched_ok s \<Longrightarrow> sched_ok (snd (acquire_disk_resume s))"
  using block_current_until_ok [of s "\<lambda>s'. 0 \<le> io_slot_for (current_pid s) (s_io s')"]
  by (auto simp: acquire_disk_resume_def count_disk_def Let_def split: prod.split)

lemma release_disk_ok: "sched_ok s \<Longrightarrow> sched_ok (release_disk s)"
  by (auto simp: release_disk_def Let_def split: prod.split intro!: wake_pid_ok)

lemma set_signal_handler_ok: "sched_ok s \<Longrightarrow> sched_ok (snd (set_signal_handler sig h s))"
  by (auto simp: set_signal_handler_def tcb_ok_def sched_ok_bounds(7) intro!: sched_ok_cur)

lemma set_signal_restorer_ok: "sched_ok s \<Longrightarrow> sched_ok (set_signal_restorer r s)"
  by (auto simp: set_signal_restorer_def tcb_ok_def sched_ok_bounds(7) intro!: sched_ok_cur)

lemma set_signal_mask_ok: "sched_ok s \<Longrightarrow> sched_ok (snd (set_signal_mask how msk s))"
  by (auto simp: set_signal_mask_def Let_def tcb_ok_def sched_ok_bounds(7) sig_bit_def bit_simps SIGKILL_NUM_def SIGSTOP_NUM_def
      intro!: sched_ok_cur)

lemma exec_into_ok: "sched_ok s \<Longrightarrow> sched_ok (exec_into p s)"
  by (auto simp: exec_into_def Let_def tcb_ok_def sched_ok_bounds(7) intro!: sched_ok_cur)

lemma set_current_heap_brk_ok: "sched_ok s \<Longrightarrow> sched_ok (set_current_heap_brk b s)"
  by (auto simp: set_current_heap_brk_def tcb_ok_def sched_ok_bounds(7) intro!: sched_ok_cur)

lemma set_cwd_current_ok: "sched_ok s \<Longrightarrow> sched_ok (snd (set_cwd_current path s))"
  by (auto simp: set_cwd_current_def sched_ok_bounds intro!: set_slot_cwd_ok)

lemma spawn_ok:
  assumes s: "sched_ok s" and e: "spawn stk entry cs ss s = Some s'"
  shows "sched_ok s'"
proof -
  obtain rsp m n s1 where m: "init_thread stk entry cs ss (kmem s) = (rsp, m)" and a: "alloc_slot (s\<lparr>kmem := m\<rparr>) = Some (n, s1)"
    and s': "s' = (set_fpu n (fpu_clean s1) (upd_tcb n (\<lambda>t. t\<lparr>t_rsp := rsp, t_state := Runnable\<rparr>) s1))\<lparr>s_fsm :=
       task_ready (s_fsm s1)\<rparr>"
    using e by (auto simp: spawn_def Let_def set_fpu_def split: prod.splits Option.bind_split_asm)
  have "sched_ok (s\<lparr>kmem := m\<rparr>)" using s by simp
  from alloc_slot_ok [OF this a] show ?thesis unfolding s' by (auto simp: tcb_ok_def TCB_INIT_def intro!: sched_ok_upd)
qed

lemma spawn_user_eq:
  assumes s: "sched_ok s" and a: "alloc_slot s = Some (n, s1)"
  shows "\<exists>rsp m v. init_user_frame (kstack_top_of n s1) entry user_rsp (kmem s1) = (rsp, m)
     \<and> init_console_fds n (s_vfs s) = Some v \<and> vfs_ok v
     \<and> spawn_user pml4 entry user_rsp pid s = Some ((set_fpu n (fpu_clean s1) ((set_slot_cwd n [SLASH]
          (upd_tcb n (\<lambda>t. t\<lparr>t_rsp := rsp, t_state := Runnable, t_pml4 := pml4, t_kstack_top := kstack_top_of n s1, t_pid := pid,
              t_heap_brk := USER_HEAP_BASE\<rparr>) (s1\<lparr>kmem := m\<rparr>)))\<lparr>s_vfs := v\<rparr>))\<lparr>s_fsm := task_ready (s_fsm s1)\<rparr>)"
proof -
  note A = alloc_slot_ok [OF s a]
  obtain rsp m where m: "init_user_frame (kstack_top_of n s1) entry user_rsp (kmem s1) = (rsp, m)" by (meson surj_pair)
  have "n < MAX_PROCS" using A sched_ok_bounds(3) [of s1] by (auto simp: max_threads_procs)
  then obtain v where v: "init_console_fds n (s_vfs s) = Some v" "vfs_ok v"
    using init_console_fds_ok [OF sched_ok_bounds(5) [OF s]] by blast
  have "s_vfs s1 = s_vfs s" using A by (metis sched.select_convs(18) sched.surjective sched.update_convs(2))
  then show ?thesis using a m v by (simp add: spawn_user_def set_slot_cwd_eq set_fpu_def upd_tcb_def Let_def)
qed

lemma spawn_user_ok:
  assumes s: "sched_ok s" and e: "spawn_user pml4 entry user_rsp pid s = Some s'"
  shows "sched_ok s'"
proof -
  obtain n s1 where a: "alloc_slot s = Some (n, s1)" using e by (auto simp: spawn_user_def split: Option.bind_split_asm)
  note A = alloc_slot_ok [OF s a]
  obtain rsp m v where v: "vfs_ok v" and s': "s' = (set_fpu n (fpu_clean s1) ((set_slot_cwd n [SLASH]
          (upd_tcb n (\<lambda>t. t\<lparr>t_rsp := rsp, t_state := Runnable, t_pml4 := pml4, t_kstack_top := kstack_top_of n s1, t_pid := pid,
              t_heap_brk := USER_HEAP_BASE\<rparr>) (s1\<lparr>kmem := m\<rparr>)))\<lparr>s_vfs := v\<rparr>))\<lparr>s_fsm := task_ready (s_fsm s1)\<rparr>"
    using spawn_user_eq [OF s a, of entry user_rsp pml4 pid] e by auto
  have "n < length (tcbs s1)" using A sched_ok_bounds(3,4) [of s1] by auto
  then show ?thesis unfolding s' using A v
    by (auto simp: tcb_ok_def TCB_INIT_def tcb_at_upd intro!: sched_ok_vfs set_slot_cwd_ok sched_ok_upd)
qed

lemma reap_slot_ok:
  assumes s: "sched_ok s" and i: "find_slot P [1..<s_n s] (tcbs s) = r" and P: "\<And>t. P t \<Longrightarrow> t_state t = RDead"
    and c: "t_state (cur_tcb s) \<noteq> RDead" and e: "reap_slot r s = Some (x, s')"
  shows "sched_ok s'"
proof (cases r)
  case (Some j)
  have j: "0 < j" "j < s_n s" "j \<noteq> s_current s" using find_slot_Some [OF i [unfolded Some]] P c by auto
  then have "j < MAX_PROCS" using sched_ok_bounds(3) [OF s] by (simp add: max_threads_procs)
  then obtain v where v: "clear_fds j (s_vfs s) = Some v" "vfs_ok v" using clear_fds_ok [OF sched_ok_bounds(5) [OF s]] by blast
  then have "s' = upd_tcb j (\<lambda>_. TCB_INIT) (s\<lparr>s_vfs := v\<rparr>)" using e Some by (simp add: reap_slot_def)
  then show ?thesis using s v j tcb_ok_init by (auto intro!: sched_ok_upd sched_ok_vfs)
qed (use s e in \<open>simp add: reap_slot_def\<close>)

section \<open>Fork\<close>

lemma upd_tcb_twice: "upd_tcb n f (upd_tcb n g s) = upd_tcb n (\<lambda>t. f (g t)) s"
  by (cases "n < length (tcbs s)") (simp_all add: upd_tcb_def list_update_beyond)

lemma find_slot_append: "find_slot P (xs @ ys) ts = (case find_slot P xs ts of Some i \<Rightarrow> Some i | None \<Rightarrow> find_slot P ys ts)"
  by (induction xs) auto

lemma find_slot_cong: "(\<And>i. i \<in> set is \<Longrightarrow> P (ts ! i) = P (ts' ! i)) \<Longrightarrow> find_slot P is ts = find_slot P is ts'"
  by (induction "is") auto

text \<open>A process in a fresh slot does not hide another one.\<close>

lemma slot_of_pid_fresh:
  assumes s: "sched_ok s" and a: "alloc_slot s = Some (n, s1)" and p: "t_pid (f TCB_INIT) \<noteq> p" and e: "tcbs s2 = tcbs s1" "s_n s2 = s_n s1"
  shows "slot_of_pid p (upd_tcb n f s2) = slot_of_pid p s"
proof -
  let ?P = "\<lambda>t. t_pid t = p \<and> t_state t \<noteq> RFree"
  note A = alloc_slot_ok [OF s a]
  have b: "n < length (tcbs s1)" using A sched_ok_bounds(3,4) [of s1] by auto
  have t: "tcbs s1 = tcbs s" using A by (metis sched.select_convs(1) sched.surjective sched.update_convs(2))
  have k: "?P (tcb_at (upd_tcb n f s2) i) = ?P (tcb_at s i)" for i
    using A b p e t by (cases "i = n") (auto simp: upd_tcb_def TCB_INIT_def)
  have free: "?P (tcb_at s i) = False" if "i \<in> set [s_n s..<s_n s1]" for i
  proof -
    have "tcb_at s i = TCB_INIT" using that s A sched_ok_bounds(3) [of s1] unfolding sched_ok_def by auto
    then show ?thesis by (simp add: TCB_INIT_def)
  qed
  have "[0..<s_n s1] = [0..<s_n s] @ [s_n s..<s_n s1]" using A by (metis le_add_diff_inverse upt_add_eq_append zero_le)
  moreover have "find_slot ?P [s_n s..<s_n s1] (tcbs s) = None" using free by (simp add: find_slot_None)
  ultimately have "find_slot ?P [0..<s_n s1] (tcbs s) = find_slot ?P [0..<s_n s] (tcbs s)"
    by (simp add: find_slot_append split: option.split)
  moreover have "find_slot ?P [0..<s_n s1] (tcbs (upd_tcb n f s2)) = find_slot ?P [0..<s_n s1] (tcbs s)"
    by (rule find_slot_cong) (rule k)
  ultimately show ?thesis by (simp add: slot_of_pid_def e)
qed

definition inherited_cwd :: "u32 \<Rightarrow> sched \<Rightarrow> bytes" where
  "inherited_cwd p s = (let c = cwd_of_pid p s in if c \<noteq> [] then c else [SLASH])"

text \<open>The control block a fork builds.\<close>

definition fork_tcb :: "u64 \<Rightarrow> nat \<Rightarrow> u32 \<Rightarrow> u32 \<Rightarrow> sched \<Rightarrow> tcb" where
  "fork_tcb pml4 n pid parent s = TCB_INIT\<lparr>t_rsp := kstack_top_of n s - 160, t_state := Runnable, t_pml4 := pml4,
     t_kstack_top := kstack_top_of n s, t_pid := pid, t_parent_pid := parent,
     t_heap_brk := (case brk_of_pid parent s of Some b \<Rightarrow> b | None \<Rightarrow> USER_HEAP_BASE),
     t_cwd := blit (replicate CWD_MAX 0) 0 (take CWD_MAX (inherited_cwd parent s)), t_cwd_len := min (length (inherited_cwd parent s)) CWD_MAX,
     t_sig_handlers := (case slot_of_pid parent s of Some ps \<Rightarrow> t_sig_handlers (tcb_at s ps) | None \<Rightarrow> replicate NSIG 0),
     t_sig_blocked := (case slot_of_pid parent s of Some ps \<Rightarrow> t_sig_blocked (tcb_at s ps) | None \<Rightarrow> 0)\<rparr>"

definition fork_vfs :: "nat \<Rightarrow> u32 \<Rightarrow> sched \<Rightarrow> vfs option" where
  "fork_vfs n parent s = (case slot_of_pid parent s of Some ps \<Rightarrow> clone_fds n ps (s_vfs s) | None \<Rightarrow> init_console_fds n (s_vfs s))"

lemma fork_vfs_ok:
  assumes s: "sched_ok s" and a: "alloc_slot s = Some (n, s1)"
  shows "\<exists>v. fork_vfs n parent s = Some v \<and> vfs_ok v"
proof -
  note A = alloc_slot_ok [OF s a]
  have n: "n < MAX_PROCS" using A sched_ok_bounds(3) [of s1] by (auto simp: max_threads_procs)
  show ?thesis
  proof (cases "slot_of_pid parent s")
    case None
    then show ?thesis using init_console_fds_ok [OF sched_ok_bounds(5) [OF s] n] by (auto simp: fork_vfs_def)
  next
    case (Some ps)
    from find_slot_Some [OF Some [unfolded slot_of_pid_def]] have ps: "ps < s_n s" "t_state (tcb_at s ps) \<noteq> RFree" by auto
    have "tcbs s1 = tcbs s" using A by (metis sched.select_convs(1) sched.surjective sched.update_convs(2))
    then have "ps \<noteq> n" using A ps by (auto simp: TCB_INIT_def)
    moreover have "ps < MAX_PROCS" using ps sched_ok_bounds(3) [OF s] by (simp add: max_threads_procs)
    ultimately show ?thesis using clone_fds_ok [OF sched_ok_bounds(5) [OF s] n] Some by (auto simp: fork_vfs_def)
  qed
qed

lemma fork_lookups:
  assumes s: "sched_ok s" and a: "alloc_slot s = Some (n, s1)" and p: "t_pid T \<noteq> parent"
    and e: "tcbs s4 = (tcbs s)[n := T]" "s_n s4 = s_n s1"
  shows "slot_of_pid parent s4 = slot_of_pid parent s" and "brk_of_pid parent s4 = brk_of_pid parent s"
    and "cwd_of_pid parent s4 = cwd_of_pid parent s" and "slot_of_pid parent s = Some ps \<Longrightarrow> tcb_at s4 ps = tcb_at s ps"
proof -
  note A = alloc_slot_ok [OF s a]
  have t: "tcbs s1 = tcbs s" using A by (metis sched.select_convs(1) sched.surjective sched.update_convs(2))
  have "slot_of_pid parent s4 = slot_of_pid parent (upd_tcb n (\<lambda>_. T) s1)" using e t by (simp add: slot_of_pid_def upd_tcb_def)
  also have "\<dots> = slot_of_pid parent s" by (rule slot_of_pid_fresh [OF s a]) (use p in auto)
  finally show slot: "slot_of_pid parent s4 = slot_of_pid parent s" .
  show at: "tcb_at s4 ps = tcb_at s ps" if "slot_of_pid parent s = Some ps" for ps
  proof -
    have "t_state (tcb_at s ps) \<noteq> RFree" using find_slot_Some [OF that [unfolded slot_of_pid_def]] by simp
    then have "ps \<noteq> n" using A t by (auto simp: TCB_INIT_def)
    then show ?thesis by (simp add: e)
  qed
  show "brk_of_pid parent s4 = brk_of_pid parent s" "cwd_of_pid parent s4 = cwd_of_pid parent s"
    using at by (cases "slot_of_pid parent s"; simp add: brk_of_pid_def cwd_of_pid_def slot)+
qed

lemma fork_eq:
  assumes s: "sched_ok s" and a: "alloc_slot s = Some (n, s1)" and p: "pid \<noteq> parent" and v: "fork_vfs n parent s = Some v"
  shows "spawn_user_from_frame pml4 frame pid parent s =
    Some (s\<lparr>s_n := s_n s1, kmem := store_words (unat (kstack_top_of n s - 160)) frame (kmem s),
            tcbs := (tcbs s)[n := fork_tcb pml4 n pid parent s], s_vfs := v,
            fpu_areas := (fpu_areas s)[n := fpu_live s], s_fsm := task_ready (s_fsm s)\<rparr>)"
proof -
  note A = alloc_slot_ok [OF s a]
  have e: "s1 = s\<lparr>s_n := s_n s1\<rparr>" using A by simp
  have t: "tcb_at s n = TCB_INIT" using A by (metis sched.select_convs(1) sched.surjective sched.update_convs(2))
  have k: "kstack_top_of n s1 = kstack_top_of n s" by (subst e) (simp add: kstack_top_of_def)
  have nb: "n < length (tcbs s)" using A sched_ok_bounds(3,4) [of s1] sched_ok_bounds(4) [OF s] by auto
  note L = fork_lookups [OF s a]
  define K where "K = kstack_top_of n s"
  define m where "m = store_words (unat (K - 160)) frame (kmem s)"
  define b where "b = (case brk_of_pid parent s of Some b \<Rightarrow> b | None \<Rightarrow> USER_HEAP_BASE)"
  define TA where "TA = TCB_INIT\<lparr>t_rsp := K - 160, t_state := Runnable, t_pml4 := pml4, t_kstack_top := K, t_pid := pid, t_parent_pid := parent\<rparr>"
  define TB where "TB = TA\<lparr>t_heap_brk := b\<rparr>"
  define TC where "TC = TB\<lparr>t_cwd := blit (t_cwd TB) 0 (take CWD_MAX (inherited_cwd parent s)), t_cwd_len := min (length (inherited_cwd parent s)) CWD_MAX\<rparr>"
  define st where "st = (\<lambda>T v fp. s\<lparr>s_n := s_n s1, kmem := m, tcbs := (tcbs s)[n := T], s_vfs := v, fpu_areas := fp\<rparr>)"
  have pids: "t_pid TA = pid" "t_pid TB = pid" "t_pid TC = pid" by (simp_all add: TC_def TB_def TA_def)
  have look: "slot_of_pid parent (st T v fp) = slot_of_pid parent s" "brk_of_pid parent (st T v fp) = brk_of_pid parent s"
    "cwd_of_pid parent (st T v fp) = cwd_of_pid parent s" if "t_pid T = pid" for T v fp
    using that p by (auto intro!: L(1-3) [where T = T] simp: st_def)
  have at: "tcb_at (st T v fp) ps = tcb_at s ps" if "t_pid T = pid" "slot_of_pid parent s = Some ps" for T v fp ps
    using that p by (intro L(4) [where T = T]) (auto simp: st_def)
  let ?fa = "fpu_areas s" and ?v = "s_vfs s"
  have hA: "upd_tcb n (\<lambda>t. t\<lparr>t_rsp := K - 160, t_state := Runnable, t_pml4 := pml4, t_kstack_top := K, t_pid := pid, t_parent_pid := parent\<rparr>)
      (s1\<lparr>kmem := store_words (unat (K - 160)) frame (kmem s1)\<rparr>) = st TA ?v ?fa"
    by (subst (1 2) e) (simp add: upd_tcb_def st_def TA_def t m_def)
  have hB: "upd_tcb n (\<lambda>t. t\<lparr>t_heap_brk := (case brk_of_pid parent (st TA ?v ?fa) of Some b \<Rightarrow> b | None \<Rightarrow> USER_HEAP_BASE)\<rparr>)
      (st TA ?v ?fa) = st TB ?v ?fa"
    unfolding look [OF pids(1)] b_def [symmetric] using nb by (simp add: upd_tcb_def st_def TB_def)
  have hC: "set_slot_cwd n (if cwd_of_pid parent (st TB ?v ?fa) \<noteq> [] then cwd_of_pid parent (st TB ?v ?fa) else [SLASH]) (st TB ?v ?fa)
      = st TC ?v ?fa"
    unfolding look [OF pids(2)] using nb
    by (simp add: set_slot_cwd_eq inherited_cwd_def Let_def upd_tcb_def st_def TC_def)
  have hV: "(case slot_of_pid parent (st TC ?v ?fa) of Some ps \<Rightarrow> clone_fds n ps (s_vfs (st TC ?v ?fa))
      | None \<Rightarrow> init_console_fds n (s_vfs (st TC ?v ?fa))) = Some v"
  proof -
    have sv: "s_vfs (st TC ?v ?fa) = ?v" by (simp add: st_def)
    show ?thesis unfolding look [OF pids(3)] sv using v by (simp add: fork_vfs_def)
  qed
  have hD: "set_fpu n (fpu_live (st TC ?v ?fa)) ((st TC ?v ?fa)\<lparr>s_vfs := v\<rparr>) = st TC v (?fa[n := fpu_live s])"
    by (simp add: set_fpu_def st_def)
  have hE: "(case slot_of_pid parent (st TC v f) of
      Some ps \<Rightarrow> upd_tcb n (\<lambda>t. t\<lparr>t_sig_handlers := t_sig_handlers (tcb_at (st TC v f) ps), t_sig_blocked := t_sig_blocked (tcb_at (st TC v f) ps)\<rparr>)
                   (st TC v f)
    | None \<Rightarrow> st TC v f) = st (fork_tcb pml4 n pid parent s) v f" for f
  proof (cases "slot_of_pid parent s")
    case None
    then show ?thesis by (simp add: look [OF pids(3)]) (simp add: TC_def TB_def TA_def b_def K_def fork_tcb_def TCB_INIT_def)
  next
    case (Some ps)
    then have "upd_tcb n (\<lambda>t. t\<lparr>t_sig_handlers := t_sig_handlers (tcb_at s ps), t_sig_blocked := t_sig_blocked (tcb_at s ps)\<rparr>) (st TC v f)
      = st (fork_tcb pml4 n pid parent s) v f"
      using nb by (simp add: upd_tcb_def st_def) (simp add: TC_def TB_def TA_def b_def K_def fork_tcb_def TCB_INIT_def)
    then show ?thesis using Some by (simp add: look [OF pids(3)] at [OF pids(3) Some])
  qed
  have "spawn_user_from_frame pml4 frame pid parent s = Some ((st (fork_tcb pml4 n pid parent s) v (?fa[n := fpu_live s]))\<lparr>s_fsm :=
      task_ready (s_fsm (st (fork_tcb pml4 n pid parent s) v (?fa[n := fpu_live s])))\<rparr>)"
    unfolding spawn_user_from_frame_def a Option.bind.bind_lunit prod.case Let_def k K_def [symmetric] hA hB hC hV hD hE ..
  then show ?thesis by (simp add: st_def m_def K_def)
qed

lemma fork_tcb_ok:
  assumes s: "sched_ok s"
  shows "tcb_ok (fork_tcb pml4 n pid parent s)"
proof -
  have p: "tcb_ok (tcb_at s ps)" if "slot_of_pid parent s = Some ps" for ps
    using find_slot_Some [OF that [unfolded slot_of_pid_def]] s by (auto simp: sched_ok_def)
  show ?thesis by (cases "slot_of_pid parent s") (use p in \<open>auto simp: tcb_ok_def fork_tcb_def TCB_INIT_def\<close>)
qed

lemma spawn_user_from_frame_ok:
  assumes s: "sched_ok s" and p: "pid \<noteq> parent" and e: "spawn_user_from_frame pml4 frame pid parent s = Some s'"
  shows "sched_ok s'"
proof -
  obtain n s1 where a: "alloc_slot s = Some (n, s1)" using e by (auto simp: spawn_user_from_frame_def split: Option.bind_split_asm)
  obtain v where v: "fork_vfs n parent s = Some v" "vfs_ok v" using fork_vfs_ok [OF s a] by blast
  note A = alloc_slot_ok [OF s a]
  have e: "s1 = s\<lparr>s_n := s_n s1\<rparr>" and t: "tcbs s1 = tcbs s"
    using A by (simp, metis sched.select_convs(1) sched.surjective sched.update_convs(2))
  let ?T = "fork_tcb pml4 n pid parent s"
  have r: "t_state ?T = Runnable" by (simp add: fork_tcb_def)
  have "sched_ok (upd_tcb n (\<lambda>_. ?T) s1)"
    by (rule sched_ok_upd) (use A r fork_tcb_ok [OF s] in auto)
  then have "sched_ok ((upd_tcb n (\<lambda>_. ?T) s1)\<lparr>s_vfs := v\<rparr>)" using v(2) by (rule sched_ok_vfs)
  moreover have "s' = (set_fpu n (fpu_live s) ((upd_tcb n (\<lambda>_. ?T) s1)\<lparr>s_vfs := v\<rparr>))\<lparr>
      kmem := store_words (unat (kstack_top_of n s - 160)) frame (kmem s), s_fsm := task_ready (s_fsm s)\<rparr>"
    using fork_eq [OF s a p v(1), of pml4 frame] assms(3) by (subst e) (simp add: upd_tcb_def set_fpu_def)
  ultimately show ?thesis by simp
qed

section \<open>The timer interrupt\<close>

lemma sched_ok_pending: "sched_ok s \<Longrightarrow> \<not> bit (t_sig_pending (cur_tcb s)) 0"
  using sched_ok_bounds(1) by (auto simp: sched_ok_def tcb_ok_def)

lemma drop_pending_ok: "sched_ok s \<Longrightarrow> sched_ok (drop_pending n s)"
  unfolding drop_pending_def by (rule sched_ok_cur) (auto simp: tcb_ok_def bit_simps sched_ok_bounds(7))

lemma drop_pending_frame: "delivery_frame s (drop_pending n s)"
  unfolding drop_pending_def by (rule upd_tcb_frame) (simp add: tcb_core_def)

lemma first_effect_ok: "sched_ok s \<Longrightarrow> sched_ok (snd (first_effect ns s)) \<and> delivery_frame s (snd (first_effect ns s))"
proof (induction ns arbitrary: s)
  case (Cons n ns)
  have d: "sched_ok (drop_pending n s)" "delivery_frame s (drop_pending n s)" using Cons.prems drop_pending_ok drop_pending_frame by auto
  then show ?case using Cons.IH [OF d(1)] delivery_frame_trans [OF d(2)] by (simp add: Let_def)
qed (simp add: delivery_frame_refl)

lemma setup_signal_frame_sched_ok: "setup_signal_frame sig h r f s = Some (f', s') \<Longrightarrow> sched_ok s' = sched_ok s"
  by (auto simp: setup_signal_frame_def Let_def upd_umem_def split: Option.bind_split_asm)

lemma notify_parent_ok: "sched_ok s \<Longrightarrow> sched_ok (notify_parent s)"
  by (auto simp: notify_parent_def intro: send_signal_ok split: option.split)

lemma preempt_effect_ok:
  assumes "sched_ok s" and "preempt_effect f (x, s) = Some (b, f', s')"
  shows "sched_ok s' \<and> delivery_frame s s'"
  using assms
  by (auto simp: preempt_effect_def delivery_frame_refl stop_frame setup_signal_frame_sched_ok
      intro: mark_current_stopped_ok notify_parent_ok setup_signal_frame_frame split: option.splits sig_action.splits prod.splits)

lemma apply_effect_ok:
  assumes "sched_ok s" and "apply_effect f (x, s) = Some (d, s')"
  shows "sched_ok s'"
  using assms
  by (auto simp: apply_effect_def setup_signal_frame_sched_ok
      intro: mark_current_stopped_ok notify_parent_ok split: option.splits sig_action.splits prod.splits)

lemma maybe_deliver_ok:
  assumes s: "sched_ok s" and e: "maybe_deliver_signal f s = Some (d, s')"
  shows "sched_ok s'"
proof -
  obtain x s1 where x: "first_effect (deliverable s) s = (x, s1)" by (meson surj_pair)
  have "sched_ok s1" using first_effect_ok [OF s, of "deliverable s"] by (simp add: x)
  moreover have "apply_effect f (x, s1) = Some (d, s')"
    using delivery_eqs(1) [OF sched_ok_bounds(1) [OF s] sched_ok_pending [OF s], of f] e x by simp
  ultimately show ?thesis by (rule apply_effect_ok)
qed

lemma preempt_signal_ok:
  assumes s: "sched_ok s" and e: "preempt_signal rsp s = Some s'"
  shows "sched_ok s' \<and> s_n s' = s_n s \<and> s_current s' = s_current s \<and> s_active s' = s_active s"
proof -
  let ?f = "load_frame (kmem s) (unat rsp)"
  obtain x s1 where x: "first_effect (deliverable s) s = (x, s1)" by (meson surj_pair)
  have 1: "sched_ok s1" "delivery_frame s s1" using first_effect_ok [OF s, of "deliverable s"] by (simp_all add: x)
  have d: "deliver_on_preempt ?f s = preempt_effect ?f (x, s1)"
    using delivery_eqs(2) [OF sched_ok_bounds(1) [OF s] sched_ok_pending [OF s], of ?f] x by simp
  have 2: "sched_ok s2 \<and> delivery_frame s s2" if "preempt_effect ?f (x, s1) = Some (b, f', s2)" for b f' s2
    using preempt_effect_ok [OF 1(1) that] delivery_frame_trans [OF 1(2)] by auto
  show ?thesis using s e 2 delivery_frame_fields
    by (auto simp: preempt_signal_def Let_def d split: if_split_asm Option.bind_split_asm)
qed

text \<open>What a delivery looks at: the signal state of the running process.\<close>

definition sig_view :: "sched \<Rightarrow> u32 \<times> u32 \<times> u64 list \<times> u64" where
  "sig_view s = (t_sig_pending (cur_tcb s), t_sig_blocked (cur_tcb s), t_sig_handlers (cur_tcb s), t_sig_restorer (cur_tcb s))"

lemma first_effect_view:
  assumes "sig_view s = sig_view s'" and "s_current s < length (tcbs s)" and "s_current s' < length (tcbs s')"
  shows "fst (first_effect ns s) = fst (first_effect ns s')"
  using assms
proof (induction ns arbitrary: s s')
  case (Cons n ns)
  have v: "sig_view (drop_pending n s) = sig_view (drop_pending n s')"
    using Cons.prems by (simp add: sig_view_def drop_pending_def upd_tcb_def)
  have h: "signal_handler (of_nat n) (drop_pending n s) = signal_handler (of_nat n) (drop_pending n s')"
    "signal_restorer (drop_pending n s) = signal_restorer (drop_pending n s')"
    using v by (simp_all add: signal_handler_def signal_restorer_def sig_view_def)
  have "action_of (of_nat n) (drop_pending n s) = action_of (of_nat n) (drop_pending n s')"
    unfolding action_of_def h ..
  moreover have "s_current (drop_pending n t) < length (tcbs (drop_pending n t))" if "s_current t < length (tcbs t)" for t
    using that by (simp add: drop_pending_def upd_tcb_def)
  ultimately show ?case using Cons.IH [OF v] Cons.prems by (simp add: Let_def)
qed simp

lemma enters_handler_view:
  assumes "sig_view s = sig_view s'" and "s_current s < length (tcbs s)" and "s_current s' < length (tcbs s')"
  shows "enters_handler s = enters_handler s'"
proof -
  have "deliverable s = deliverable s'" using assms(1) by (simp add: deliverable_def deliverable_bits_def sig_view_def)
  then show ?thesis using first_effect_view [OF assms] by (simp add: enters_handler_def)
qed

text \<open>
  The timer interrupt does not return when the interrupted process is about to enter a signal handler
  and its stack pointer leaves no room for the frame.
\<close>

definition timer_panics :: "u64 \<Rightarrow> sched \<Rightarrow> bool" where
  "timer_panics rsp s \<longleftrightarrow> s_active s \<and> t_pid (cur_tcb s) \<noteq> 0 \<and> t_pml4 (cur_tcb s) \<noteq> 0 \<and> enters_handler s
     \<and> frame_is_user (load_frame (kmem s) (unat rsp)) \<and> unat (f_rsp (load_frame (kmem s) (unat rsp))) < 304"

lemma preempt_signal_None:
  assumes s: "sched_ok s" and a: "s_active s"
  shows "preempt_signal rsp s = None \<longleftrightarrow> timer_panics rsp s"
proof -
  let ?f = "load_frame (kmem s) (unat rsp)"
  have "enters_handler s \<Longrightarrow> deliverable s \<noteq> []" by (auto simp: enters_handler_def)
  moreover have "deliverable s = []" if "t_sig_pending (cur_tcb s) AND NOT (t_sig_blocked (cur_tcb s)) = 0"
    using that by (simp add: deliverable_def deliverable_bits_def)
  moreover have "deliver_on_preempt ?f s = None \<longleftrightarrow> enters_handler s \<and> unat (f_rsp ?f) < 304"
    using delivery_eqs(2) [OF sched_ok_bounds(1) [OF s] sched_ok_pending [OF s], of ?f]
    by (simp add: effect_None enters_handler_def handler_room_def not_le)
  ultimately show ?thesis using a
    by (auto simp: preempt_signal_def timer_panics_def Let_def split: Option.bind_split_asm)
qed

lemma pick_from_Runnable: "pick_from cur n ks ts = r \<Longrightarrow> r = 0 \<or> (\<exists>k \<in> set ks. r = (cur + k) mod n \<and> t_state (ts ! r) = Runnable)"
  by (induction ks) (auto simp: Let_def split: if_splits)

lemma context_switch_fields [simp]:
  "tcbs (context_switch nxt s) = tcbs s" "s_n (context_switch nxt s) = s_n s" "s_current (context_switch nxt s) = nxt"
  "length (fpu_areas (context_switch nxt s)) = length (fpu_areas s)" "s_vfs (context_switch nxt s) = s_vfs s"
  by (simp_all add: context_switch_def Let_def set_fpu_def)

lemma context_switch_space:
  assumes "t_pml4 (tcb_at s nxt) \<noteq> 0"
  shows "last_pml4 (context_switch nxt s) = t_pml4 (tcb_at s nxt) \<and> s_rsp0 (context_switch nxt s) = t_kstack_top (tcb_at s nxt)"
  using assms by (cases "nxt = s_current s"; cases "t_pml4 (tcb_at s nxt) = last_pml4 s"; simp add: context_switch_def Let_def set_fpu_def)

lemma context_switch_ok:
  assumes "sched_ok s" and "nxt < s_n s" and "t_state (tcb_at s nxt) \<noteq> RFree"
  shows "sched_ok (context_switch nxt s)"
  using assms by (simp add: sched_ok_def)

lemma pick_next_ok:
  assumes s: "sched_ok s"
  shows "pick_next s < s_n s" and "t_state (tcb_at s (pick_next s)) \<noteq> RFree"
    and "pick_next s = 0 \<or> t_state (tcb_at s (pick_next s)) = Runnable"
proof -
  note P = pick_from_Runnable [OF pick_next_def [of s, symmetric]]
  show "pick_next s < s_n s" using P sched_ok_bounds(6) [OF s] by auto
  show "pick_next s = 0 \<or> t_state (tcb_at s (pick_next s)) = Runnable" using P by auto
  then show "t_state (tcb_at s (pick_next s)) \<noteq> RFree" using s by (auto simp: sched_ok_def)
qed

lemma schedule_ok:
  assumes s: "sched_ok s" and a: "s_active s" and e: "schedule rsp s = Some (r, s2)"
  shows "\<exists>s1. r = t_rsp (tcb_at s2 (pick_next s1)) \<and> s2 = context_switch (pick_next s1) s1
     \<and> sched_ok s1 \<and> sched_ok s2 \<and> s_n s1 = s_n s \<and> s_current s1 = s_current s"
proof -
  let ?s = "upd_tcb (s_current s) (\<lambda>t. t\<lparr>t_rsp := rsp\<rparr>) (s\<lparr>s_ticks := s_ticks s + 1\<rparr>)"
  have ok: "sched_ok ?s" using s by (intro sched_ok_upd) (auto simp: tcb_ok_def sched_ok_def)
  obtain s1 where p: "preempt_signal rsp ?s = Some s1" and s2: "s2 = context_switch (pick_next s1) s1" "r = t_rsp (tcb_at s2 (pick_next s1))"
    using e a by (auto simp: schedule_def Let_def split: Option.bind_split_asm)
  have s1: "sched_ok s1" "s_n s1 = s_n s" "s_current s1 = s_current s" using preempt_signal_ok [OF ok p] by simp_all
  have "sched_ok (context_switch (pick_next s1) s1)" using s1(1) pick_next_ok by (blast intro: context_switch_ok)
  then show ?thesis using s1 s2 by auto
qed

lemma schedule_None:
  assumes s: "sched_ok s"
  shows "schedule rsp s = None \<longleftrightarrow> timer_panics rsp s"
proof (cases "s_active s")
  case True
  let ?s = "upd_tcb (s_current s) (\<lambda>t. t\<lparr>t_rsp := rsp\<rparr>) (s\<lparr>s_ticks := s_ticks s + 1\<rparr>)"
  have ok: "sched_ok ?s" using s by (intro sched_ok_upd) (auto simp: tcb_ok_def sched_ok_def)
  have c: "s_current s < length (tcbs s)" using sched_ok_bounds(1) [OF s] .
  have "enters_handler ?s = enters_handler s" using c by (intro enters_handler_view) (simp_all add: sig_view_def upd_tcb_def)
  then have "timer_panics rsp ?s = timer_panics rsp s" using c by (simp add: timer_panics_def upd_tcb_def)
  moreover have "schedule rsp s = None \<longleftrightarrow> preempt_signal rsp ?s = None"
    using True by (auto simp: schedule_def Let_def split: Option.bind_split)
  moreover have "s_active ?s" using True by (simp add: upd_tcb_def)
  ultimately show ?thesis using preempt_signal_None [OF ok] by simp
qed (simp add: schedule_def timer_panics_def Let_def)

section \<open>Reachable states\<close>

text \<open>
  Every operation of the module, by the thread it runs on, and the interrupts. A system call runs on
  the current thread, which is not dead; wake-ups, signals and the timer also come from interrupts.
  A process identifier given to a fork is fresh, so it differs from the parent's.
\<close>

inductive sched_step :: "sched \<Rightarrow> sched \<Rightarrow> bool" where
  ss_spawn: "spawn stk entry cs ss s = Some s' \<Longrightarrow> sched_step s s'"
| ss_spawn_user: "spawn_user pml4 entry rsp pid s = Some s' \<Longrightarrow> sched_step s s'"
| ss_fork: "pid \<noteq> parent \<Longrightarrow> spawn_user_from_frame pml4 frame pid parent s = Some s' \<Longrightarrow> sched_step s s'"
| ss_block: "sched_step s (snd (block_current_until ready s))"
| ss_wake: "sched_step s (wake_pid pid s)"
| ss_exit: "sched_step s (exit_current s)"
| ss_acquire: "sched_step s (snd (acquire_disk s))"
| ss_resume: "sched_step s (snd (acquire_disk_resume s))"
| ss_release: "sched_step s (release_disk s)"
| ss_signal: "sched_step s (snd (send_signal pid sig s))"
| ss_handler: "sched_step s (snd (set_signal_handler sig h s))"
| ss_restorer: "sched_step s (set_signal_restorer r s)"
| ss_mask: "sched_step s (snd (set_signal_mask how msk s))"
| ss_reap: "t_state (cur_tcb s) \<noteq> RDead \<Longrightarrow> reap_dead_child parent s = Some (r, s') \<Longrightarrow> sched_step s s'"
| ss_reap_pid: "t_state (cur_tcb s) \<noteq> RDead \<Longrightarrow> reap_dead_pid parent target s = Some (r, s') \<Longrightarrow> sched_step s s'"
| ss_exec: "sched_step s (exec_into pml4 s)"
| ss_brk: "sched_step s (set_current_heap_brk b s)"
| ss_cwd: "sched_step s (snd (set_cwd_current path s))"
| ss_deliver: "maybe_deliver_signal f s = Some (d, s') \<Longrightarrow> sched_step s s'"
| ss_vfs: "vfs_step (s_vfs s, L) (v, L') \<Longrightarrow> sched_step s (s\<lparr>s_vfs := v\<rparr>)"
| ss_start: "sched_step s (s\<lparr>s_active := True\<rparr>)"
| ss_timer: "schedule rsp s = Some (r, s') \<Longrightarrow> sched_step s s'"

inductive sched_reach :: "sched \<Rightarrow> bool" where
  sr_boot: "length (fpu_areas s) = MAX_THREADS \<Longrightarrow> s_vfs s = VFS_init fs \<Longrightarrow> sched_reach (sched_init n s)"
| sr_step: "sched_reach s \<Longrightarrow> sched_step s s' \<Longrightarrow> sched_reach s'"

lemma sched_init_ok:
  assumes "length (fpu_areas s) = MAX_THREADS" and "s_vfs s = VFS_init fs"
  shows "sched_ok (sched_init n s)"
proof -
  have "set ((replicate MAX_THREADS TCB_INIT)[0 := TCB_INIT\<lparr>t_state := Runnable\<rparr>]) \<subseteq> {TCB_INIT, TCB_INIT\<lparr>t_state := Runnable\<rparr>}"
    by (rule subset_trans [OF set_update_subset_insert]) auto
  moreover have "tcb_ok (TCB_INIT\<lparr>t_state := Runnable\<rparr>)" by (simp add: tcb_ok_def TCB_INIT_def)
  ultimately have "\<forall>t \<in> set ((replicate MAX_THREADS TCB_INIT)[0 := TCB_INIT\<lparr>t_state := Runnable\<rparr>]). tcb_ok t"
    using tcb_ok_init by auto
  moreover have "(replicate MAX_THREADS TCB_INIT)[0 := TCB_INIT\<lparr>t_state := Runnable\<rparr>] ! i = TCB_INIT" if "1 \<le> i" "i < MAX_THREADS" for i
    using that by simp
  ultimately show ?thesis using assms vfs_ok_init
    by (auto simp: sched_ok_def sched_init_def init_boot_def Let_def set_fpu_def MAX_THREADS_def)
qed

lemma schedule_keeps_ok: "sched_ok s \<Longrightarrow> schedule rsp s = Some (r, s') \<Longrightarrow> sched_ok s'"
  by (cases "s_active s") (use schedule_ok [of s rsp r s'] in \<open>auto simp: schedule_def Let_def\<close>)

lemma sched_step_ok: "sched_step s s' \<Longrightarrow> sched_ok s \<Longrightarrow> sched_ok s'"
proof (induction rule: sched_step.induct)
  case (ss_reap s parent r s')
  then show ?case unfolding reap_dead_child_def by (elim reap_slot_ok [OF _ refl, rotated -1]) auto
next
  case (ss_reap_pid s parent target r s')
  then show ?case unfolding reap_dead_pid_def by (elim reap_slot_ok [OF _ refl, rotated -1]) auto
next
  case (ss_vfs s L v L')
  then show ?case using vfs_step_ok [OF ss_vfs.hyps] sched_ok_bounds(5) sched_ok_vfs by auto
next
  case (ss_start s)
  then show ?case by (simp add: sched_ok_def)
qed (auto intro: spawn_ok spawn_user_ok spawn_user_from_frame_ok block_current_until_ok wake_pid_ok exit_current_ok
       acquire_disk_ok acquire_disk_resume_ok release_disk_ok send_signal_ok set_signal_handler_ok set_signal_restorer_ok
       set_signal_mask_ok exec_into_ok set_current_heap_brk_ok set_cwd_current_ok maybe_deliver_ok schedule_keeps_ok)

lemma sched_reach_ok: "sched_reach s \<Longrightarrow> sched_ok s"
  by (induction rule: sched_reach.induct) (auto intro: sched_init_ok sched_step_ok)


lemma boot_reach: "sched_reach boot_sched"
  unfolding boot_sched_def by (rule sr_boot) (auto simp: MAX_THREADS_def)


section \<open>Fairness\<close>

text \<open>If some candidate qualifies, the choice is not behind it.\<close>

lemma pick_from_at_most:
  assumes "k \<in> set ks" and "sorted ks" and "(cur + k) mod n \<noteq> 0" and "t_state (ts ! ((cur + k) mod n)) = Runnable"
  shows "\<exists>j \<in> set ks. j \<le> k \<and> pick_from cur n ks ts = (cur + j) mod n"
  using assms by (induction ks) (auto simp: Let_def)

lemma pick_distance:
  assumes d: "0 < d" "d < n" "(cur + d) mod n = i" and i: "i \<noteq> 0" "t_state (ts ! i) = Runnable"
  shows "\<exists>j. 0 < j \<and> j \<le> d \<and> pick_from cur n [1..<n + 1] ts = (cur + j) mod n \<and> ((cur + j) mod n + (d - j)) mod n = i"
proof -
  have "d \<in> set [1..<n + 1]" "(cur + d) mod n \<noteq> 0" "t_state (ts ! ((cur + d) mod n)) = Runnable" using d i by auto
  from pick_from_at_most [OF this(1) sorted_upt this(2,3)] obtain j where
    j: "j \<in> set [1..<n + 1]" "j \<le> d" "pick_from cur n [1..<n + 1] ts = (cur + j) mod n" by blast
  have "((cur + j) mod n + (d - j)) mod n = (cur + j + (d - j)) mod n" by (simp add: mod_add_left_eq)
  also have "\<dots> = i" using j(2) d(3) by simp
  finally have "((cur + j) mod n + (d - j)) mod n = i" .
  moreover have "0 < j" using j(1) by auto
  ultimately show ?thesis using j(2,3) by blast
qed

lemma reach_runnable:
  assumes step: "\<And>k. cur (Suc k) = pick_from (cur k) n [1..<n + 1] (ts k)" and r: "\<And>k. t_state (ts k ! i) = Runnable"
    and i: "0 < i" and d: "d < n" "(cur m + d) mod n = i" and c: "\<And>k. cur k < n"
  shows "\<exists>k \<le> d. cur (m + k) = i"
  using d
proof (induction d arbitrary: m rule: less_induct)
  case (less d)
  show ?case
  proof (cases "d = 0")
    case True
    then show ?thesis using less.prems c [of m] by auto
  next
    case False
    obtain j where j: "0 < j" "j \<le> d" "cur (Suc m) = (cur m + j) mod n" "((cur m + j) mod n + (d - j)) mod n = i"
      using pick_distance [of d n "cur m" i "ts m"] False less.prems i r step [of m] by auto
    have "(cur (Suc m) + (d - j)) mod n = i" using j by simp
    moreover have "d - j < d" "d - j < n" using j less.prems by auto
    ultimately obtain k where k: "k \<le> d - j" "cur (Suc m + k) = i" using less.IH by blast
    then show ?thesis using j by (intro exI [of _ "Suc k"]) auto
  qed
qed

text \<open>
  C14: the round robin is fair. While a thread stays runnable and no slot is added, it runs within
  as many timer interrupts as there are slots in use, whatever the others do in between; it is
  resumed at its saved stack pointer, in its own address space and with its own kernel stack.
\<close>

theorem round_robin_fair:
  assumes ok: "\<And>k. sched_reach (s k) \<and> s_active (s k) \<and> s_n (s k) = n" and i: "0 < i" "i < n"
    and tick: "\<And>k. schedule (rsp k) (s k) = Some (r k, s' k)" and run: "\<And>k. t_state (tcb_at (s' k) i) = Runnable"
    and between: "\<And>k. s_current (s (Suc k)) = s_current (s' k)"
  shows "\<exists>k < n. s_current (s' k) = i \<and> r k = t_rsp (tcb_at (s' k) i)
     \<and> (if t_pml4 (tcb_at (s' k) i) = 0 then True
        else last_pml4 (s' k) = t_pml4 (tcb_at (s' k) i) \<and> s_rsp0 (s' k) = t_kstack_top (tcb_at (s' k) i))"
proof -
  have S: "\<exists>s1. s' k = context_switch (pick_next s1) s1 \<and> r k = t_rsp (tcb_at (s' k) (pick_next s1))
     \<and> s_n s1 = n \<and> s_current s1 = s_current (s k) \<and> s_current (s' k) < n" for k
  proof -
    have a: "sched_ok (s k)" "s_active (s k)" "s_n (s k) = n" using ok [of k] by (auto intro: sched_reach_ok)
    from schedule_ok [OF a(1,2) tick [of k]] obtain s1 where
      "s' k = context_switch (pick_next s1) s1" "r k = t_rsp (tcb_at (s' k) (pick_next s1))" "sched_ok s1" "s_n s1 = n"
      "s_current s1 = s_current (s k)" using a(3) by auto
    then show ?thesis using pick_next_ok(1) [of s1] by auto
  qed
  define cur where "cur k = s_current (s' k)" for k
  have c: "cur k < n" for k using S [of k] by (auto simp: cur_def)
  have step: "cur (Suc k) = pick_from (cur k) n [1..<n + 1] (tcbs (s' (Suc k)))" for k
    using S [of "Suc k"] between [of k] by (auto simp: cur_def pick_next_def)
  have "(cur 0 + (i + n - cur 0) mod n) mod n = i"
    using c [of 0] i by (simp add: mod_add_right_eq)
  moreover have "(i + n - cur 0) mod n < n" using i by simp
  ultimately obtain k where k: "k \<le> (i + n - cur 0) mod n" "cur k = i"
    using reach_runnable [of cur n "\<lambda>k. tcbs (s' (Suc k))" i "(i + n - cur 0) mod n" 0, OF step] run i c by auto
  have "k < n" using k(1) \<open>(i + n - cur 0) mod n < n\<close> by linarith
  moreover obtain s1 where s1: "s' k = context_switch (pick_next s1) s1" "r k = t_rsp (tcb_at (s' k) (pick_next s1))"
    using S [of k] by blast
  moreover have p: "pick_next s1 = i" using k(2) s1(1) by (simp add: cur_def)
  moreover have "last_pml4 (s' k) = t_pml4 (tcb_at (s' k) i) \<and> s_rsp0 (s' k) = t_kstack_top (tcb_at (s' k) i)"
    if "t_pml4 (tcb_at (s' k) i) \<noteq> 0"
    using that unfolding s1(1) p by (simp add: context_switch_space)
  ultimately show ?thesis using k(2) by (intro exI [of _ k]) (auto simp: cur_def)
qed

text \<open>The boot thread and one kernel thread, preempted again and again.\<close>

definition two_threads :: sched where
  "two_threads = the (spawn 0x9000 0x100000 8 16 boot_sched)"

fun ticks :: "nat \<Rightarrow> sched" where
  "ticks 0 = two_threads"
| "ticks (Suc k) = snd (the (schedule 0x5000 (ticks k)))"

definition kernel_pair :: "sched \<Rightarrow> bool" where
  "kernel_pair s \<longleftrightarrow> sched_reach s \<and> s_active s \<and> s_n s = 2 \<and> t_state (tcb_at s 1) = Runnable \<and> t_pid (tcb_at s 0) = 0 \<and> t_pid (tcb_at s 1) = 0"

lemma kernel_pair_tick:
  assumes s: "kernel_pair s" and e: "schedule rsp s = Some (r, s')"
  shows "kernel_pair s'"
proof -
  let ?s = "upd_tcb (s_current s) (\<lambda>t. t\<lparr>t_rsp := rsp\<rparr>) (s\<lparr>s_ticks := s_ticks s + 1\<rparr>)"
  have ok: "sched_ok s" using s by (auto simp: kernel_pair_def intro: sched_reach_ok)
  have "s_current s < 2" using sched_ok_bounds(2) [OF ok] s by (simp add: kernel_pair_def)
  then have c: "s_current s = 0 \<or> s_current s = 1" by auto
  have l: "length (tcbs s) = 8" using sched_ok_bounds(4) [OF ok] by (simp add: MAX_THREADS_def)
  have "preempt_signal rsp ?s = Some ?s" using s c l by (auto simp: preempt_signal_def Let_def kernel_pair_def upd_tcb_def)
  then have "s' = context_switch (pick_next ?s) ?s" using e s by (simp add: schedule_def Let_def kernel_pair_def)
  moreover have "sched_reach s'" using s sr_step ss_timer [OF e] by (auto simp: kernel_pair_def)
  moreover have "s_active (context_switch k ?s) = s_active s" for k by (simp add: context_switch_def Let_def set_fpu_def)
  ultimately show ?thesis using s c l by (auto simp: kernel_pair_def upd_tcb_def)
qed

lemma two_threads_pair: "kernel_pair two_threads"
proof -
  obtain rsp m where m: "init_thread 0x9000 0x100000 8 16 (kmem boot_sched) = (rsp, m)" by (meson surj_pair)
  have a: "alloc_slot (boot_sched\<lparr>kmem := m\<rparr>) = Some (1, boot_sched\<lparr>kmem := m, s_n := 2\<rparr>)"
    by (simp add: alloc_slot_def boot_fields MAX_THREADS_def numeral_2_eq_2)
  have e: "spawn 0x9000 0x100000 8 16 boot_sched = Some two_threads"
    and d: "two_threads = (set_fpu 1 (fpu_clean boot_sched) (upd_tcb 1 (\<lambda>t. t\<lparr>t_rsp := rsp, t_state := Runnable\<rparr>)
       (boot_sched\<lparr>kmem := m, s_n := 2\<rparr>)))\<lparr>s_fsm := task_ready (s_fsm boot_sched)\<rparr>"
    by (simp_all add: two_threads_def spawn_def m a set_fpu_def upd_tcb_def Let_def)
  have "sched_reach two_threads" using sr_step [OF boot_reach ss_spawn [OF e]] .
  moreover have "tcb_at boot_sched 1 = TCB_INIT" "s_active boot_sched"
    by (simp_all add: boot_sched_def sched_init_def init_boot_def Let_def set_fpu_def MAX_THREADS_def)
  ultimately show ?thesis by (simp add: kernel_pair_def) (simp add: d set_fpu_def upd_tcb_def boot_fields TCB_INIT_def)
qed

lemma ticks_pair: "kernel_pair (ticks k)" and ticks_step: "\<exists>r. schedule 0x5000 (ticks k) = Some (r, ticks (Suc k))"
proof -
  have ex: "\<exists>r s'. schedule 0x5000 s = Some (r, s')" if "kernel_pair s" for s
  proof -
    have ok: "sched_ok s" "s_current s < 2" "t_pid (tcb_at s 0) = 0" "t_pid (tcb_at s 1) = 0"
      using that sched_ok_bounds(2) [OF sched_reach_ok, of s] by (auto simp: kernel_pair_def intro: sched_reach_ok)
    then have "t_pid (cur_tcb s) = 0" using less_2_cases [of "s_current s"] by auto
    then have "\<not> timer_panics 0x5000 s" by (simp add: timer_panics_def)
    then show ?thesis using schedule_None [OF ok(1), of "0x5000"] by (cases "schedule 0x5000 s") auto
  qed
  show "kernel_pair (ticks k)" by (induction k) (use two_threads_pair ex kernel_pair_tick in fastforce)+
  with ex show "\<exists>r. schedule 0x5000 (ticks k) = Some (r, ticks (Suc k))" by fastforce
qed

theorem round_robin_fair_witness: "\<exists>k < 2. s_current (ticks (Suc k)) = 1"
proof -
  obtain r where r: "schedule 0x5000 (ticks k) = Some (r k, ticks (Suc k))" for k using ticks_step by metis
  have "\<exists>k < 2. s_current (ticks (Suc k)) = 1 \<and> r k = t_rsp (tcb_at (ticks (Suc k)) 1)
     \<and> (if t_pml4 (tcb_at (ticks (Suc k)) 1) = 0 then True
        else last_pml4 (ticks (Suc k)) = t_pml4 (tcb_at (ticks (Suc k)) 1) \<and> s_rsp0 (ticks (Suc k)) = t_kstack_top (tcb_at (ticks (Suc k)) 1))"
    by (rule round_robin_fair [where s = ticks and rsp = "\<lambda>_. 0x5000"])
      (use ticks_pair r in \<open>auto simp: kernel_pair_def simp del: ticks.simps\<close>)
  then show ?thesis by blast
qed

section \<open>The life of a process\<close>

lemma inherited_cwd_length: "sched_ok s \<Longrightarrow> length (inherited_cwd parent s) \<le> CWD_MAX"
proof (cases "slot_of_pid parent s")
  case None
  then show ?thesis by (simp add: inherited_cwd_def cwd_of_pid_def CWD_MAX_def)
next
  case (Some ps)
  then show ?thesis by (simp add: inherited_cwd_def cwd_of_pid_def cwd_of_slot_def Let_def CWD_MAX_def min.coboundedI2)
qed

lemma fork_tcb_cwd: "sched_ok s \<Longrightarrow> cwd_of_slot (fork_tcb pml4 n pid parent s) CWD_MAX = inherited_cwd parent s"
  using inherited_cwd_length [of s parent] by (simp add: cwd_of_slot_def fork_tcb_def blit_def)

text \<open>
  C19: what a fork hands over. The child runs with the parent's registers, break, working directory,
  signal handlers and mask, floating-point state and descriptors; it has no pending signal and no
  handler restorer, and every other process is unchanged.
\<close>

theorem fork_process:
  assumes s: "sched_reach s" and a: "alloc_slot s = Some (n, s1)" and ps: "slot_of_pid parent s = Some ps" and p: "pid \<noteq> parent"
  shows "\<exists>s'. spawn_user_from_frame pml4 (frame_words f) pid parent s = Some s'
     \<and> (let t = tcb_at s' n; q = tcb_at s ps in
           t_state t = Runnable \<and> t_pml4 t = pml4 \<and> t_pid t = pid \<and> t_parent_pid t = parent \<and> t_heap_brk t = t_heap_brk q
         \<and> cwd_of_slot t CWD_MAX = (if cwd_of_slot q CWD_MAX = [] then [SLASH] else cwd_of_slot q CWD_MAX)
         \<and> t_sig_handlers t = t_sig_handlers q \<and> t_sig_blocked t = t_sig_blocked q \<and> t_sig_pending t = 0 \<and> t_sig_restorer t = 0
         \<and> load_frame (kmem s') (unat (t_rsp t)) = f)
     \<and> tables (s_vfs s') = (tables (s_vfs s))[n := tables (s_vfs s) ! ps] \<and> fpu_areas s' ! n = fpu_live s
     \<and> (\<forall>i. if i = n then True else tcb_at s' i = tcb_at s i)"
proof -
  have ok: "sched_ok s" by (rule sched_reach_ok [OF s])
  note A = alloc_slot_ok [OF ok a]
  obtain v where v: "fork_vfs n parent s = Some v" using fork_vfs_ok [OF ok a] by blast
  have t1: "tcbs s1 = tcbs s" using A by (metis sched.select_convs(1) sched.surjective sched.update_convs(2))
  have q: "ps < s_n s" "t_state (tcb_at s ps) \<noteq> RFree" using find_slot_Some [OF ps [unfolded slot_of_pid_def]] by auto
  have n: "n < MAX_THREADS" using A sched_ok_bounds(3) [of s1] by auto
  have "ps \<noteq> n" using A t1 q by (auto simp: TCB_INIT_def)
  moreover have "ps < MAX_PROCS" using q sched_ok_bounds(3) [OF ok] by (simp add: max_threads_procs)
  ultimately have tab: "tables v = (tables (s_vfs s))[n := tables (s_vfs s) ! ps]"
    using clone_fds_ok [OF sched_ok_bounds(5) [OF ok], of n ps] n v ps by (auto simp: fork_vfs_def max_threads_procs)
  let ?T = "fork_tcb pml4 n pid parent s"
  have "length (tcbs s) = MAX_THREADS" "length (fpu_areas s) = MAX_THREADS" using ok by (auto simp: sched_ok_def)
  moreover have "t_rsp ?T = kstack_top_of n s - 160" by (simp add: fork_tcb_def)
  ultimately show ?thesis
    unfolding fork_eq [OF ok a p v] using n ps tab fork_tcb_cwd [OF ok, of pml4 n pid parent]
    by (auto simp: Let_def load_store_frame fork_tcb_def TCB_INIT_def brk_of_pid_def inherited_cwd_def cwd_of_pid_def)
qed

text \<open>Process identifiers of slots in use are distinct, apart from the kernel's own threads.\<close>

definition pids_distinct :: "sched \<Rightarrow> bool" where
  "pids_distinct s \<longleftrightarrow> (\<forall>i < s_n s. \<forall>j < s_n s. t_state (tcb_at s i) \<noteq> RFree \<longrightarrow> t_state (tcb_at s j) \<noteq> RFree \<longrightarrow>
     t_pid (tcb_at s i) \<noteq> 0 \<longrightarrow> t_pid (tcb_at s i) = t_pid (tcb_at s j) \<longrightarrow> i = j)"

text \<open>
  When a process exits, a parent blocked in \<open>wait\<close> becomes runnable, and the search for a dead child
  finds the slot of the process.
\<close>

lemma exit_wakes_parent:
  assumes ok: "sched_ok s" and d: "pids_distinct s" and c: "s_current s = c" "c \<noteq> 0" "t_pid (tcb_at s c) = pid" "pid \<noteq> 0"
    and q: "t_parent_pid (tcb_at s c) = q" "q \<noteq> 0" "j < s_n s" "j \<noteq> c" "t_pid (tcb_at s j) = q" "t_state (tcb_at s j) = RBlocked"
  shows "tcbs (exit_current s) = (tcbs s)[c := (tcb_at s c)\<lparr>t_state := RDead\<rparr>, j := (tcb_at s j)\<lparr>t_state := Runnable\<rparr>]"
    and "s_n (exit_current s) = s_n s" and "s_vfs (exit_current s) = s_vfs s" and "s_current (exit_current s) = c"
    and "find_slot (\<lambda>t. t_parent_pid t = q \<and> t_pid t = pid \<and> t_state t = RDead) [1..<s_n s] (tcbs (exit_current s)) = Some c"
    and "child_reapable q pid (exit_current s)"
proof -
  note B = sched_ok_bounds [OF ok]
  have cn: "c < s_n s" "t_state (tcb_at s c) \<noteq> RFree" using B(2,7) c by auto
  have len: "c < length (tcbs s)" "j < length (tcbs s)" using B cn q by auto
  let ?s1 = "(upd_tcb c (\<lambda>t. t\<lparr>t_state := RDead\<rparr>) s)\<lparr>s_fsm := task_unready (s_fsm s)\<rparr>"
  have w: "find_slot (\<lambda>t. t_pid t = q \<and> t_state t = RBlocked) [0..<s_n s] (tcbs ?s1) = Some j"
    by (rule find_slot_unique) (use d q cn len in \<open>auto simp: pids_distinct_def upd_tcb_def nth_list_update split: if_splits\<close>)
  let ?s = "upd_tcb j (\<lambda>t. t\<lparr>t_state := Runnable\<rparr>) ?s1"
  have e: "exit_current s = ?s" using c q len w by (simp add: exit_current_def Let_def wake_pid_def tcb_at_upd)
  show t: "tcbs (exit_current s) = (tcbs s)[c := (tcb_at s c)\<lparr>t_state := RDead\<rparr>, j := (tcb_at s j)\<lparr>t_state := Runnable\<rparr>]"
    unfolding e using len q by (simp add: upd_tcb_def)
  show n: "s_n (exit_current s) = s_n s" "s_vfs (exit_current s) = s_vfs s" "s_current (exit_current s) = c" unfolding e using c by simp_all
  show r: "find_slot (\<lambda>t. t_parent_pid t = q \<and> t_pid t = pid \<and> t_state t = RDead) [1..<s_n s] (tcbs (exit_current s)) = Some c"
    by (rule find_slot_unique) (use d c q cn len t in \<open>auto simp: pids_distinct_def nth_list_update split: if_splits\<close>)
  show "child_reapable q pid (exit_current s)"
    unfolding child_reapable_def find_slot_None not_all bex_simps n using find_slot_Some [OF r] by (auto intro!: bexI [of _ c])
qed

text \<open>A shell with pid 1 that forks a child with pid 2.\<close>

lemma boot_more: "s_active boot_sched" "tcb_at boot_sched (Suc 0) = TCB_INIT" "tcb_at boot_sched 2 = TCB_INIT"
  by (simp_all add: boot_sched_def sched_init_def init_boot_def Let_def set_fpu_def MAX_THREADS_def)

lemma shell_state:
  "\<exists>s. sched_reach s \<and> s_active s \<and> s_n s = 2 \<and> s_current s = 0 \<and> tcb_at s 0 = TCB_INIT\<lparr>t_state := Runnable\<rparr> \<and> tcb_at s 2 = TCB_INIT
     \<and> t_state (tcb_at s 1) = Runnable \<and> t_pid (tcb_at s 1) = 1 \<and> t_parent_pid (tcb_at s 1) = 0 \<and> t_sig_pending (tcb_at s 1) = 0"
proof -
  have ok: "sched_ok boot_sched" by (rule sched_reach_ok [OF boot_reach])
  have a: "alloc_slot boot_sched = Some (1, boot_sched\<lparr>s_n := 2\<rparr>)"
    by (simp add: alloc_slot_def boot_fields MAX_THREADS_def numeral_2_eq_2)
  obtain rsp m v s where e: "spawn_user 0x7000 0x400000 0x8000 1 boot_sched = Some s" and
    s: "s = (set_fpu 1 (fpu_clean boot_sched) ((set_slot_cwd 1 [SLASH]
       (upd_tcb 1 (\<lambda>t. t\<lparr>t_rsp := rsp, t_state := Runnable, t_pml4 := 0x7000, t_kstack_top := kstack_top_of 1 (boot_sched\<lparr>s_n := 2\<rparr>), t_pid := 1,
          t_heap_brk := USER_HEAP_BASE\<rparr>) (boot_sched\<lparr>s_n := 2, kmem := m\<rparr>)))\<lparr>s_vfs := v\<rparr>))\<lparr>s_fsm := task_ready (s_fsm boot_sched)\<rparr>"
    using spawn_user_eq [OF ok a, of "0x400000" "0x8000" "0x7000" 1] by auto
  have "sched_reach s" by (rule sr_step [OF boot_reach ss_spawn_user [OF e]])
  then show ?thesis
    by (intro exI [of _ s] conjI) (simp_all add: s set_fpu_def set_slot_cwd_eq upd_tcb_def boot_fields boot_more TCB_INIT_def)
qed

theorem fork_process_witness:
  "\<exists>s s' t. sched_reach s \<and> spawn_user_from_frame 0x9000 (frame_words user_frame) 2 1 s = Some s' \<and> t = tcb_at s' 2
     \<and> t_parent_pid t = 1 \<and> t_sig_handlers t = t_sig_handlers (tcb_at s 1) \<and> load_frame (kmem s') (unat (t_rsp t)) = user_frame"
proof -
  from shell_state obtain s where s: "sched_reach s" "s_n s = 2" "t_state (tcb_at s 1) = Runnable" "t_pid (tcb_at s 1) = 1" "tcb_at s 0 = TCB_INIT\<lparr>t_state := Runnable\<rparr>"
    by blast
  have a: "alloc_slot s = Some (2, s\<lparr>s_n := 3\<rparr>)" using s by (simp add: alloc_slot_def MAX_THREADS_def upt_rec)
  have p: "slot_of_pid 1 s = Some 1" using s by (simp add: slot_of_pid_def upt_rec TCB_INIT_def)
  from fork_process [OF s(1) a p, of 2 "0x9000" user_frame] show ?thesis using s(1) by (auto simp: Let_def)
qed

end
