(* ===== verification/ProcTable.thy ===== *)
theory ProcTable
  imports Prelude
begin

text \<open>
  The process life cycle: the Frame systems \<open>Process\<close> (\<open>frame/process.frs\<close>) and \<open>ProcessTable\<close>
  (\<open>frame/process_table.frs\<close>). An event that a state does not handle is ignored; \<open>kill\<close> is handled
  by the parent state of the three live states. Pids are 32-bit words given out in order.
\<close>

type_synonym i32 = "32 word"

section \<open>Process\<close>

datatype proc_state = PCreated | PReady | PBlocked | PZombie | PReaped

record process =
  p_st :: proc_state
  p_pid :: u32
  p_exit_code :: i32

definition process_create :: "u32 \<Rightarrow> process" where
  "process_create pid = \<lparr>p_st = PCreated, p_pid = pid, p_exit_code = 0\<rparr>"

definition make_ready :: "process \<Rightarrow> process" where
  "make_ready p = (if p_st p = PCreated then p\<lparr>p_st := PReady\<rparr> else p)"

definition proc_block :: "process \<Rightarrow> process" where
  "proc_block p = (if p_st p = PReady then p\<lparr>p_st := PBlocked\<rparr> else p)"

definition proc_unblock :: "process \<Rightarrow> process" where
  "proc_unblock p = (if p_st p = PBlocked then p\<lparr>p_st := PReady\<rparr> else p)"

definition proc_exit :: "i32 \<Rightarrow> process \<Rightarrow> process" where
  "proc_exit code p = (if p_st p = PReady then p\<lparr>p_exit_code := code, p_st := PZombie\<rparr> else p)"

definition proc_kill :: "process \<Rightarrow> process" where
  "proc_kill p = (if p_st p \<in> {PCreated, PReady, PBlocked} then p\<lparr>p_exit_code := -1, p_st := PZombie\<rparr> else p)"

definition proc_reap :: "process \<Rightarrow> i32 \<times> process" where
  "proc_reap p = (p_exit_code p, if p_st p = PZombie then p\<lparr>p_st := PReaped\<rparr> else p)"

definition is_zombie :: "process \<Rightarrow> bool" where
  "is_zombie p \<longleftrightarrow> p_st p = PZombie"

definition state_name :: "process \<Rightarrow> string" where
  "state_name p = (case p_st p of
     PCreated \<Rightarrow> ''Created'' | PReady \<Rightarrow> ''Ready'' | PBlocked \<Rightarrow> ''Blocked'' | PZombie \<Rightarrow> ''Zombie'' | PReaped \<Rightarrow> ''Reaped'')"

section \<open>Process table\<close>

datatype table_state = HasCapacity | TableFull

record proc_table =
  pt_st :: table_state
  procs :: "process list"
  next_pid :: u32
  capacity :: u32

definition pt_create :: "u32 \<Rightarrow> proc_table" where
  "pt_create cap = \<lparr>pt_st = HasCapacity, procs = [], next_pid = 1, capacity = cap\<rparr>"

definition pt_spawn :: "proc_table \<Rightarrow> u32 \<times> proc_table" where
  "pt_spawn t = (case pt_st t of
       HasCapacity \<Rightarrow>
         (let pid = next_pid t;
              t = t\<lparr>procs := procs t @ [make_ready (process_create pid)], next_pid := next_pid t + 1\<rparr>
          in (pid, if of_nat (length (procs t)) \<ge> capacity t then t\<lparr>pt_st := TableFull\<rparr> else t))
     | TableFull \<Rightarrow> (0, t))"

text \<open>The searches stop at the first process with the pid.\<close>

fun on_pid :: "u32 \<Rightarrow> (process \<Rightarrow> process) \<Rightarrow> process list \<Rightarrow> process list" where
  "on_pid pid f [] = []"
| "on_pid pid f (p # ps) = (if p_pid p = pid then f p # ps else p # on_pid pid f ps)"

definition block_pid :: "u32 \<Rightarrow> proc_table \<Rightarrow> proc_table" where
  "block_pid pid t = t\<lparr>procs := on_pid pid proc_block (procs t)\<rparr>"

definition unblock_pid :: "u32 \<Rightarrow> proc_table \<Rightarrow> proc_table" where
  "unblock_pid pid t = t\<lparr>procs := on_pid pid proc_unblock (procs t)\<rparr>"

definition exit_pid :: "u32 \<Rightarrow> i32 \<Rightarrow> proc_table \<Rightarrow> proc_table" where
  "exit_pid pid code t = t\<lparr>procs := on_pid pid (proc_exit code) (procs t)\<rparr>"

definition kill_pid :: "u32 \<Rightarrow> proc_table \<Rightarrow> proc_table" where
  "kill_pid pid t = t\<lparr>procs := on_pid pid proc_kill (procs t)\<rparr>"

fun find_zombie :: "u32 \<Rightarrow> nat \<Rightarrow> process list \<Rightarrow> nat option" where
  "find_zombie pid i [] = None"
| "find_zombie pid i (p # ps) = (if p_pid p = pid \<and> is_zombie p then Some i else find_zombie pid (Suc i) ps)"

definition reap_and_free :: "u32 \<Rightarrow> proc_table \<Rightarrow> i32 \<times> proc_table" where
  "reap_and_free pid t = (case find_zombie pid 0 (procs t) of
       Some i \<Rightarrow> (fst (proc_reap (procs t ! i)), t\<lparr>procs := take i (procs t) @ drop (Suc i) (procs t)\<rparr>)
     | None \<Rightarrow> (-1, t))"

definition reap_pid :: "u32 \<Rightarrow> proc_table \<Rightarrow> i32 \<times> proc_table" where
  "reap_pid pid t = (case pt_st t of
       HasCapacity \<Rightarrow> reap_and_free pid t
     | TableFull \<Rightarrow>
         (let (code, t) = reap_and_free pid t
          in (code, if of_nat (length (procs t)) < capacity t then t\<lparr>pt_st := HasCapacity\<rparr> else t)))"

definition pt_count :: "proc_table \<Rightarrow> u32" where
  "pt_count t = of_nat (length (procs t))"

definition pid_state :: "u32 \<Rightarrow> proc_table \<Rightarrow> string" where
  "pid_state pid t = (case find (\<lambda>p. p_pid p = pid) (procs t) of Some p \<Rightarrow> state_name p | None \<Rightarrow> ''None'')"

section \<open>The table as a map\<close>

text \<open>
  What the table promises: a map from pids to the state and exit code of their processes. The
  invariant makes the list represent such a map.
\<close>

definition pmap :: "proc_table \<Rightarrow> u32 \<rightharpoonup> (proc_state \<times> i32)" where
  "pmap t = map_of (map (\<lambda>p. (p_pid p, p_st p, p_exit_code p)) (procs t))"

definition pt_ok :: "proc_table \<Rightarrow> bool" where
  [inv_defs]: "pt_ok t \<longleftrightarrow> distinct (map p_pid (procs t)) \<and> length (procs t) \<le> unat (capacity t)
     \<and> (\<forall>p \<in> set (procs t). 0 < unat (p_pid p) \<and> unat (p_pid p) < unat (next_pid t) \<and> p_st p \<in> {PReady, PBlocked, PZombie})
     \<and> (pt_st t = TableFull \<longleftrightarrow> length (procs t) = unat (capacity t))"

lemma pmap_on_pid:
  assumes "\<And>p. p_pid (f p) = p_pid p"
  shows "map_of (map (\<lambda>p. (p_pid p, p_st p, p_exit_code p)) (on_pid pid f ps)) =
    (case find (\<lambda>p. p_pid p = pid) ps of
       None \<Rightarrow> map_of (map (\<lambda>p. (p_pid p, p_st p, p_exit_code p)) ps)
     | Some p \<Rightarrow> (map_of (map (\<lambda>p. (p_pid p, p_st p, p_exit_code p)) ps))(pid \<mapsto> (p_st (f p), p_exit_code (f p))))"
  using assms by (induction ps) (auto simp: fun_eq_iff split: option.split)

lemma find_pmap: "find (\<lambda>p. p_pid p = pid) ps = Some p \<Longrightarrow>
    map_of (map (\<lambda>p. (p_pid p, p_st p, p_exit_code p)) ps) pid = Some (p_st p, p_exit_code p)"
  by (induction ps) (auto split: if_splits)

lemma find_pmap_None: "find (\<lambda>p. p_pid p = pid) ps = None \<longleftrightarrow>
    map_of (map (\<lambda>p. (p_pid p, p_st p, p_exit_code p)) ps) pid = None"
  by (induction ps) auto

lemma on_pid_facts:
  assumes "\<And>p. p_pid (f p) = p_pid p"
  shows "map p_pid (on_pid pid f ps) = map p_pid ps" and "length (on_pid pid f ps) = length ps"
    and "q \<in> set (on_pid pid f ps) \<Longrightarrow> q \<in> set ps \<or> (\<exists>p \<in> set ps. q = f p)"
  using assms by (induction ps) (auto split: if_splits)

lemma on_pid_ok:
  assumes ok: "pt_ok t" and f: "\<And>p. p_pid (f p) = p_pid p"
    and st: "\<And>p. p_st p \<in> {PReady, PBlocked, PZombie} \<Longrightarrow> p_st (f p) \<in> {PReady, PBlocked, PZombie}"
  shows "pt_ok (t\<lparr>procs := on_pid pid f (procs t)\<rparr>)"
  using ok on_pid_facts [where f=f and pid=pid and ps="procs t", OF f] f st unfolding pt_ok_def by fastforce

lemma find_zombie_spec:
  "find_zombie pid k ps = (case find_zombie pid 0 ps of None \<Rightarrow> None | Some i \<Rightarrow> Some (k + i))"
proof (induction ps arbitrary: k)
  case (Cons p ps)
  show ?case using Cons.IH [of "Suc k"] Cons.IH [of "Suc 0"] by (auto split: option.split)
qed simp

lemma find_zombie_Some:
  "find_zombie pid 0 ps = Some i \<Longrightarrow> i < length ps \<and> p_pid (ps ! i) = pid \<and> is_zombie (ps ! i)"
proof (induction ps arbitrary: i)
  case (Cons p ps)
  then show ?case using find_zombie_spec [of pid "Suc 0" ps] by (auto split: if_splits option.splits)
qed simp

lemma find_zombie_None: "find_zombie pid 0 ps = None \<longleftrightarrow> (\<forall>p \<in> set ps. \<not> (p_pid p = pid \<and> is_zombie p))"
proof (induction ps)
  case (Cons p ps)
  then show ?case using find_zombie_spec [of pid "Suc 0" ps] by (auto split: option.split)
qed simp

definition spec_upd :: "u32 \<Rightarrow> proc_state set \<Rightarrow> (i32 \<Rightarrow> proc_state \<times> i32) \<Rightarrow> (u32 \<rightharpoonup> proc_state \<times> i32) \<Rightarrow> u32 \<rightharpoonup> proc_state \<times> i32" where
  "spec_upd pid from new m = (case m pid of Some (st, c) \<Rightarrow> if st \<in> from then m(pid \<mapsto> new c) else m | None \<Rightarrow> m)"

definition spec_reap :: "u32 \<Rightarrow> (u32 \<rightharpoonup> proc_state \<times> i32) \<Rightarrow> i32 \<times> (u32 \<rightharpoonup> proc_state \<times> i32)" where
  "spec_reap pid m = (case m pid of Some (PZombie, c) \<Rightarrow> (c, m(pid := None)) | _ \<Rightarrow> (-1, m))"

lemma pmap_step:
  assumes f: "\<And>p. p_pid (f p) = p_pid p"
    and g: "\<And>p. (p_st (f p), p_exit_code (f p)) = (if p_st p \<in> from then new (p_exit_code p) else (p_st p, p_exit_code p))"
  shows "pmap (t\<lparr>procs := on_pid pid f (procs t)\<rparr>) = spec_upd pid from new (pmap t)"
proof (cases "find (\<lambda>p. p_pid p = pid) (procs t)")
  case None
  then have "pmap t pid = None" by (simp add: pmap_def find_pmap_None [symmetric])
  then show ?thesis using pmap_on_pid [of f pid "procs t", OF f] None by (simp add: pmap_def spec_upd_def)
next
  case (Some p)
  then have m: "pmap t pid = Some (p_st p, p_exit_code p)" by (simp add: pmap_def find_pmap)
  have "pmap (t\<lparr>procs := on_pid pid f (procs t)\<rparr>) = (pmap t)(pid \<mapsto> (p_st (f p), p_exit_code (f p)))"
    using pmap_on_pid [of f pid "procs t", OF f] Some by (simp add: pmap_def)
  also have "\<dots> = spec_upd pid from new (pmap t)"
    unfolding g using m by (auto simp: spec_upd_def map_upd_triv)
  finally show ?thesis .
qed

lemma pmap_remove:
  assumes "distinct (map p_pid ps)" and "i < length ps"
  shows "map_of (map (\<lambda>p. (p_pid p, p_st p, p_exit_code p)) (take i ps @ drop (Suc i) ps)) =
    (map_of (map (\<lambda>p. (p_pid p, p_st p, p_exit_code p)) ps))(p_pid (ps ! i) := None)"
  using assms
proof (induction ps arbitrary: i)
  case (Cons p ps)
  let ?m = "map_of (map (\<lambda>p. (p_pid p, p_st p, p_exit_code p)) ps)"
  show ?case
  proof (cases i)
    case 0
    have "?m (p_pid p) = None" using Cons.prems(1) by (auto simp: map_of_eq_None_iff image_iff)
    then show ?thesis using 0 by (auto simp: fun_eq_iff)
  next
    case (Suc j)
    have j: "j < length ps" using Cons.prems(2) Suc by simp
    then have "p_pid (ps ! j) \<noteq> p_pid p" using Cons.prems(1) by (auto simp: image_iff) (metis nth_mem)
    then show ?thesis using Cons.IH [OF _ j] Cons.prems(1) Suc by (auto simp: fun_eq_iff)
  qed
qed simp

lemma pmap_nth: "distinct (map p_pid ps) \<Longrightarrow> i < length ps \<Longrightarrow>
    map_of (map (\<lambda>p. (p_pid p, p_st p, p_exit_code p)) ps) (p_pid (ps ! i)) = Some (p_st (ps ! i), p_exit_code (ps ! i))"
  by (rule map_of_is_SomeI) (auto simp: comp_def image_iff)

lemma count_word: "pt_ok t \<Longrightarrow> unat (of_nat (length (procs t)) :: u32) = length (procs t)"
proof -
  assume "pt_ok t"
  then have "length (procs t) \<le> unat (capacity t)" by (simp add: pt_ok_def)
  also have "unat (capacity t) < 2 ^ LENGTH(32)" by (rule unsigned_less)
  finally show ?thesis by (simp add: unat_of_nat take_bit_nat_eq_self)
qed

lemma reap_refines:
  assumes ok: "pt_ok t"
  shows "pt_ok (snd (reap_pid pid t)) \<and> (fst (reap_pid pid t), pmap (snd (reap_pid pid t))) = spec_reap pid (pmap t)"
proof (cases "find_zombie pid 0 (procs t)")
  case None
  have "spec_reap pid (pmap t) = (-1, pmap t)"
  proof (cases "find (\<lambda>p. p_pid p = pid) (procs t)")
    case (Some p)
    then have "p \<in> set (procs t)" "p_pid p = pid" by (auto simp: find_Some_iff)
    then have "p_st p \<noteq> PZombie" using None by (auto simp: find_zombie_None is_zombie_def)
    then show ?thesis using find_pmap [OF Some] by (auto simp: spec_reap_def pmap_def split: proc_state.split)
  qed (simp add: spec_reap_def pmap_def find_pmap_None)
  moreover have "reap_pid pid t = (-1, t)"
  proof (cases "pt_st t")
    case TableFull
    then have "\<not> of_nat (length (procs t)) < capacity t" using ok count_word [OF ok] by (simp add: pt_ok_def word_less_nat_alt)
    then show ?thesis using None TableFull by (simp add: reap_pid_def reap_and_free_def)
  qed (simp add: reap_pid_def reap_and_free_def None)
  ultimately show ?thesis using ok by simp
next
  case (Some i)
  note z = find_zombie_Some [OF Some]
  let ?ps = "take i (procs t) @ drop (Suc i) (procs t)"
  have d: "distinct (map p_pid (procs t))" and l: "length (procs t) \<le> unat (capacity t)" using ok by (simp_all add: pt_ok_def)
  have len: "length ?ps = length (procs t) - 1" "0 < length (procs t)" using z by auto
  have m: "pmap t pid = Some (PZombie, p_exit_code (procs t ! i))"
    using pmap_nth [OF d] z by (auto simp: pmap_def is_zombie_def)
  have c: "(of_nat (length ?ps) :: u32) < capacity t"
  proof -
    have "length ?ps < unat (capacity t)" using len l by linarith
    moreover have "unat (capacity t) < 2 ^ LENGTH(32)" by (rule unsigned_less)
    ultimately show ?thesis by (simp add: word_less_nat_alt unat_of_nat take_bit_nat_eq_self del: length_append)
  qed
  have r: "reap_pid pid t = (p_exit_code (procs t ! i), t\<lparr>procs := ?ps, pt_st := HasCapacity\<rparr>)"
    using Some c by (cases "pt_st t") (auto simp: reap_pid_def reap_and_free_def proc_reap_def)
  have sub: "set ?ps \<subseteq> set (procs t)" by (auto dest: in_set_takeD in_set_dropD)
  have dist: "distinct (map p_pid ?ps)"
  proof -
    have "procs t = take i (procs t) @ procs t ! i # drop (Suc i) (procs t)" using z by (simp add: id_take_nth_drop)
    then have "distinct (map p_pid (take i (procs t) @ procs t ! i # drop (Suc i) (procs t)))" using d by simp
    then show ?thesis by auto
  qed
  have "pt_ok (t\<lparr>procs := ?ps, pt_st := HasCapacity\<rparr>)"
    using ok dist sub len l unfolding pt_ok_def by (auto simp del: length_append)
  moreover have "pmap (t\<lparr>procs := ?ps, pt_st := HasCapacity\<rparr>) = (pmap t)(pid := None)"
    using pmap_remove [OF d, of i] z by (simp add: pmap_def)
  ultimately show ?thesis unfolding r using m by (simp add: spec_reap_def)
qed

lemma spawn_refines:
  assumes ok: "pt_ok t" and w: "next_pid t \<noteq> 0" "next_pid t \<noteq> -1"
  shows "pt_ok (snd (pt_spawn t)) \<and>
    (if length (procs t) < unat (capacity t)
     then fst (pt_spawn t) = next_pid t \<and> pmap t (next_pid t) = None \<and> pmap (snd (pt_spawn t)) = (pmap t)(next_pid t \<mapsto> (PReady, 0))
     else pt_spawn t = (0, t))"
proof (cases "length (procs t) < unat (capacity t)")
  case False
  then have "pt_st t = TableFull" using ok by (simp add: pt_ok_def)
  then show ?thesis using ok False by (simp add: pt_spawn_def)
next
  case True
  then have st: "pt_st t = HasCapacity" using ok by (cases "pt_st t") (auto simp: pt_ok_def)
  have n: "unat (next_pid t + 1) = unat (next_pid t) + 1" using w(2) unatSuc [of "next_pid t"] by (metis add.commute add_eq_0_iff Suc_eq_plus1)
  have fresh: "p_pid p \<noteq> next_pid t" if "p \<in> set (procs t)" for p using ok that by (auto simp: pt_ok_def)
  let ?p = "\<lparr>p_st = PReady, p_pid = next_pid t, p_exit_code = 0\<rparr>"
  let ?t = "t\<lparr>procs := procs t @ [?p], next_pid := next_pid t + 1\<rparr>"
  have u: "unat (of_nat (Suc (length (procs t))) :: u32) = Suc (length (procs t))"
  proof -
    have "Suc (length (procs t)) \<le> unat (capacity t)" using True by simp
    also have "unat (capacity t) < 2 ^ LENGTH(32)" by (rule unsigned_less)
    finally show ?thesis by (simp add: unat_of_nat take_bit_nat_eq_self del: of_nat_Suc)
  qed
  have r: "pt_spawn t = (next_pid t, if Suc (length (procs t)) = unat (capacity t) then ?t\<lparr>pt_st := TableFull\<rparr> else ?t)"
    using st True u by (auto simp: pt_spawn_def Let_def make_ready_def process_create_def word_le_nat_alt simp del: of_nat_Suc)
  have "pmap t (next_pid t) = None" by (auto simp: pmap_def map_of_eq_None_iff dest: fresh)
  moreover from this have "pmap (snd (pt_spawn t)) = (pmap t)(next_pid t \<mapsto> (PReady, 0))"
    unfolding r by (auto simp: pmap_def map_add_def fun_eq_iff split: option.split)
  moreover have "pt_ok (snd (pt_spawn t))"
    unfolding r using ok True st fresh n w(1) by (auto simp: pt_ok_def unat_gt_0)
  ultimately show ?thesis using True r by simp
qed

text \<open>
  C26: the process table implements a map from pids to process states: \<open>spawn\<close> adds a fresh pid in
  state Ready unless the table is full (then it returns 0 and changes nothing), \<open>exit\<close> turns a
  Ready process into a zombie with its code, \<open>kill\<close> any live one with code -1, \<open>block\<close> and
  \<open>unblock\<close> move between Ready and Blocked, and \<open>reap\<close> removes a zombie and returns its code, or
  returns -1 and changes nothing. Each operation keeps the invariant: pids are distinct and the
  table never exceeds its capacity. The pid counter must not have run through all 32-bit values.
\<close>

theorem process_table_refines:
  assumes ok: "pt_ok t" and w: "next_pid t \<noteq> 0" "next_pid t \<noteq> -1"
  shows "pt_ok (snd (pt_spawn t)) \<and> pt_ok (exit_pid pid code t) \<and> pt_ok (kill_pid pid t) \<and> pt_ok (block_pid pid t)
     \<and> pt_ok (unblock_pid pid t) \<and> pt_ok (snd (reap_pid pid t))
     \<and> (if length (procs t) < unat (capacity t)
        then fst (pt_spawn t) = next_pid t \<and> pmap t (next_pid t) = None \<and> pmap (snd (pt_spawn t)) = (pmap t)(next_pid t \<mapsto> (PReady, 0))
        else pt_spawn t = (0, t))
     \<and> pmap (exit_pid pid code t) = spec_upd pid {PReady} (\<lambda>_. (PZombie, code)) (pmap t)
     \<and> pmap (kill_pid pid t) = spec_upd pid {PCreated, PReady, PBlocked} (\<lambda>_. (PZombie, -1)) (pmap t)
     \<and> pmap (block_pid pid t) = spec_upd pid {PReady} (\<lambda>c. (PBlocked, c)) (pmap t)
     \<and> pmap (unblock_pid pid t) = spec_upd pid {PBlocked} (\<lambda>c. (PReady, c)) (pmap t)
     \<and> (fst (reap_pid pid t), pmap (snd (reap_pid pid t))) = spec_reap pid (pmap t)"
proof -
  have "pt_ok (exit_pid pid code t)" "pt_ok (kill_pid pid t)" "pt_ok (block_pid pid t)" "pt_ok (unblock_pid pid t)"
    unfolding exit_pid_def kill_pid_def block_pid_def unblock_pid_def
    by (rule on_pid_ok [OF ok]; auto simp: proc_exit_def proc_kill_def proc_block_def proc_unblock_def)+
  moreover have "pmap (exit_pid pid code t) = spec_upd pid {PReady} (\<lambda>_. (PZombie, code)) (pmap t)"
    unfolding exit_pid_def by (rule pmap_step) (simp_all add: proc_exit_def)
  moreover have "pmap (kill_pid pid t) = spec_upd pid {PCreated, PReady, PBlocked} (\<lambda>_. (PZombie, -1)) (pmap t)"
    unfolding kill_pid_def by (rule pmap_step) (auto simp: proc_kill_def)
  moreover have "pmap (block_pid pid t) = spec_upd pid {PReady} (\<lambda>c. (PBlocked, c)) (pmap t)"
    unfolding block_pid_def by (rule pmap_step) (simp_all add: proc_block_def)
  moreover have "pmap (unblock_pid pid t) = spec_upd pid {PBlocked} (\<lambda>c. (PReady, c)) (pmap t)"
    unfolding unblock_pid_def by (rule pmap_step) (simp_all add: proc_unblock_def)
  ultimately show ?thesis using spawn_refines [OF ok w] reap_refines [OF ok, of pid] by blast
qed

text \<open>One process, spawned into an empty table of two.\<close>

theorem process_table_refines_witness:
  "pmap (snd (pt_spawn (pt_create 2))) = [1 \<mapsto> (PReady, 0)]
     \<and> pmap (exit_pid 1 42 (pt_create 2)) = spec_upd 1 {PReady} (\<lambda>_. (PZombie, 42)) (pmap (pt_create 2))
     \<and> (fst (reap_pid 1 (pt_create 2)), pmap (snd (reap_pid 1 (pt_create 2)))) = spec_reap 1 (pmap (pt_create 2))"
proof -
  have "pt_ok (pt_create 2)" by (simp add: pt_ok_def pt_create_def)
  moreover have "next_pid (pt_create 2) = 1" "procs (pt_create 2) = []" "capacity (pt_create 2) = 2" "pmap (pt_create 2) = Map.empty"
    by (simp_all add: pt_create_def pmap_def)
  ultimately show ?thesis using process_table_refines [of "pt_create 2" 1 42] by simp
qed

lemma exit_then_reap:
  assumes "pt_ok t" and "next_pid t \<noteq> 0" and "next_pid t \<noteq> -1" and "pmap t pid = Some (PReady, c)"
  shows "fst (reap_pid pid (exit_pid pid code t)) = code \<and> pmap (snd (reap_pid pid (exit_pid pid code t))) = (pmap t)(pid := None)"
proof -
  have ok: "pt_ok (exit_pid pid code t)"
    unfolding exit_pid_def by (rule on_pid_ok [OF assms(1)]) (auto simp: proc_exit_def)
  have "pmap (exit_pid pid code t) = spec_upd pid {PReady} (\<lambda>_. (PZombie, code)) (pmap t)"
    unfolding exit_pid_def by (rule pmap_step) (simp_all add: proc_exit_def)
  then have "pmap (exit_pid pid code t) = (pmap t)(pid \<mapsto> (PZombie, code))" using assms(4) by (simp add: spec_upd_def)
  then show ?thesis using reap_refines [OF ok, of pid] by (simp add: spec_reap_def)
qed

end
