(* ===== verification/Clock.thy ===== *)
theory Clock
  imports Prelude
begin

text \<open>
  Wall-clock time from the CMOS registers to the C library: \<open>kernel/src/arch/x86_64/rtc.rs\<close>
  (register reads, BCD and 12-hour decoding, days since 1970) and the broken-down time of
  \<open>libc/src/posix.rs\<close>. The chip is a function from the number of port reads so far to its
  register file, so a reading may change between two reads. Kernel arithmetic is on 64-bit words; that
  of the library is on \<open>i64\<close> values that cannot overflow, kept as \<open>int\<close> with Rust's truncating
  division written out, and its stores into \<open>i32\<close> fields wrap.
\<close>

section \<open>The CMOS clock\<close>

definition REG_SECONDS :: u8 where "REG_SECONDS = 0x00"
definition REG_MINUTES :: u8 where "REG_MINUTES = 0x02"
definition REG_HOURS :: u8 where "REG_HOURS = 0x04"
definition REG_DAY :: u8 where "REG_DAY = 0x07"
definition REG_MONTH :: u8 where "REG_MONTH = 0x08"
definition REG_YEAR :: u8 where "REG_YEAR = 0x09"
definition REG_STATUS_A :: u8 where "REG_STATUS_A = 0x0A"
definition REG_STATUS_B :: u8 where "REG_STATUS_B = 0x0B"
definition STATUS_A_UIP :: u8 where "STATUS_A_UIP = 0x80"
definition STATUS_B_24H :: u8 where "STATUS_B_24H = 0x02"
definition STATUS_B_BIN :: u8 where "STATUS_B_BIN = 0x04"

type_synonym cmos = "nat \<Rightarrow> u8 \<Rightarrow> u8"

record raw_time =
  r_sec :: u8
  r_min :: u8
  r_hour :: u8
  r_day :: u8
  r_mon :: u8
  r_year :: u8

definition read_reg :: "cmos \<Rightarrow> u8 \<Rightarrow> nat \<Rightarrow> u8 \<times> nat" where
  "read_reg c reg t = (c t reg, t + 1)"

definition update_in_progress :: "cmos \<Rightarrow> nat \<Rightarrow> bool \<times> nat" where
  "update_in_progress c t = (let (v, t) = read_reg c REG_STATUS_A t in (v AND STATUS_A_UIP \<noteq> 0, t))"

partial_function (option) wait_stable :: "cmos \<Rightarrow> nat \<Rightarrow> nat option" where
  "wait_stable c t = (let (busy, t) = update_in_progress c t in if busy then wait_stable c t else Some t)"

definition read_raw :: "cmos \<Rightarrow> nat \<Rightarrow> (raw_time \<times> nat) option" where
  "read_raw c t = do {
     t \<leftarrow> wait_stable c t;
     let (s, t) = read_reg c REG_SECONDS t;
     let (m, t) = read_reg c REG_MINUTES t;
     let (h, t) = read_reg c REG_HOURS t;
     let (d, t) = read_reg c REG_DAY t;
     let (mo, t) = read_reg c REG_MONTH t;
     let (y, t) = read_reg c REG_YEAR t;
     Some (\<lparr>r_sec = s, r_min = m, r_hour = h, r_day = d, r_mon = mo, r_year = y\<rparr>, t) }"

definition bcd_to_bin :: "u8 \<Rightarrow> u8" where
  "bcd_to_bin v = (v AND 0x0F) + (drop_bit 4 v) * 10"

definition days_from_civil :: "u64 \<Rightarrow> u64 \<Rightarrow> u64 \<Rightarrow> u64" where
  "days_from_civil y m d =
     (let y = (if m \<le> 2 then y - 1 else y);
          era = y div 400;
          yoe = y - era * 400;
          mp = (if m > 2 then m - 3 else m + 9);
          doy = (153 * mp + 2) div 5 + d - 1;
          doe = yoe * 365 + yoe div 4 - yoe div 100 + doy
      in era * 146097 + doe - 719468)"

text \<open>The loop of \<open>epoch_secs\<close>: read until two consecutive readings agree.\<close>

partial_function (option) read_agree :: "cmos \<Rightarrow> raw_time \<Rightarrow> nat \<Rightarrow> (raw_time \<times> nat) option" where
  "read_agree c a t = do { (b, t) \<leftarrow> read_raw c t; if a = b then Some (a, t) else read_agree c b t }"

definition decode_time :: "u8 \<Rightarrow> raw_time \<Rightarrow> u64" where
  "decode_time status_b a =
     (let is_bin = (status_b AND STATUS_B_BIN \<noteq> 0);
          is_24h = (status_b AND STATUS_B_24H \<noteq> 0);
          conv = (\<lambda>v. if is_bin then v else bcd_to_bin v);
          sec = ucast (conv (r_sec a)); minute = ucast (conv (r_min a));
          pm = (\<not> is_24h \<and> r_hour a AND 0x80 \<noteq> 0);
          hour = (ucast (conv (r_hour a AND 0x7F)) :: u64);
          hour = (if is_24h then hour
                  else if pm then (if hour \<noteq> 12 then hour + 12 else hour)
                  else if hour = 12 then 0 else hour);
          day = ucast (conv (r_day a)); mon = ucast (conv (r_mon a)); year = 2000 + ucast (conv (r_year a))
      in days_from_civil year mon day * 86400 + hour * 3600 + minute * 60 + sec)"

definition epoch_secs :: "cmos \<Rightarrow> nat \<Rightarrow> (u64 \<times> nat) option" where
  "epoch_secs c t = do {
     (a, t) \<leftarrow> read_raw c t;
     (a, t) \<leftarrow> read_agree c a t;
     let (status_b, t) = read_reg c REG_STATUS_B t;
     Some (decode_time status_b a, t) }"

section \<open>Broken-down time\<close>

text \<open>Rust's \<open>/\<close> on signed integers truncates towards zero.\<close>

definition quot :: "int \<Rightarrow> int \<Rightarrow> int" where
  "quot a b = sgn a * sgn b * (\<bar>a\<bar> div \<bar>b\<bar>)"

definition as_i32 :: "int \<Rightarrow> int" where
  "as_i32 x = signed_take_bit 31 x"

definition civil_from_days :: "int \<Rightarrow> int \<times> int \<times> int" where
  "civil_from_days z =
     (let z = z + 719468;
          era = quot (if z \<ge> 0 then z else z - 146096) 146097;
          doe = z - era * 146097;
          yoe = quot (doe - quot doe 1460 + quot doe 36524 - quot doe 146096) 365;
          y = yoe + era * 400;
          doy = doe - (365 * yoe + quot yoe 4 - quot yoe 100);
          mp = quot (5 * doy + 2) 153;
          d = doy - quot (153 * mp + 2) 5 + 1;
          m = (if mp < 10 then mp + 3 else mp - 9)
      in (if m \<le> 2 then y + 1 else y, m, d))"

definition libc_days_from_civil :: "int \<Rightarrow> int \<Rightarrow> int \<Rightarrow> int" where
  "libc_days_from_civil y m d =
     (let y = (if m \<le> 2 then y - 1 else y);
          era = quot (if y \<ge> 0 then y else y - 399) 400;
          yoe = y - era * 400;
          mp = (if m > 2 then m - 3 else m + 9);
          doy = quot (153 * mp + 2) 5 + d - 1;
          doe = yoe * 365 + quot yoe 4 - quot yoe 100 + doy
      in era * 146097 + doe - 719468)"

record tm =
  tm_sec :: int
  tm_min :: int
  tm_hour :: int
  tm_mday :: int
  tm_mon :: int
  tm_year :: int
  tm_wday :: int
  tm_yday :: int
  tm_isdst :: int

text \<open>\<open>localtime\<close>: \<open>div\<close> and \<open>mod\<close> of HOL are \<open>div_euclid\<close> and \<open>rem_euclid\<close> for a positive divisor; a null pointer reads as 0.\<close>

definition localtime :: "int option \<Rightarrow> tm" where
  "localtime t =
     (let secs = (case t of None \<Rightarrow> 0 | Some s \<Rightarrow> s);
          days = secs div 86400;
          rest = secs mod 86400;
          (year, mon, mday) = civil_from_days days;
          yday = days - libc_days_from_civil year 1 1;
          wday = (days + 4) mod 7
      in \<lparr>tm_sec = as_i32 (rest mod 60), tm_min = as_i32 (rest div 60 mod 60), tm_hour = as_i32 (rest div 3600),
          tm_mday = as_i32 mday, tm_mon = as_i32 (mon - 1), tm_year = as_i32 (year - 1900), tm_wday = as_i32 wday,
          tm_yday = as_i32 yday, tm_isdst = 0\<rparr>)"

section \<open>The calendar\<close>

text \<open>
  The reference calendar: the Gregorian leap rule and the lengths of the months. \<open>month_start\<close> is the
  number of days from 1 March to the start of a month, counted from March.
\<close>

definition leap :: "int \<Rightarrow> bool" where
  "leap y \<longleftrightarrow> y mod 4 = 0 \<and> (y mod 100 \<noteq> 0 \<or> y mod 400 = 0)"

definition month_days :: "int \<Rightarrow> int \<Rightarrow> int" where
  "month_days y m = (if m = 2 then (if leap y then 29 else 28) else if m = 4 \<or> m = 6 \<or> m = 9 \<or> m = 11 then 30 else 31)"

definition valid_date :: "int \<Rightarrow> int \<Rightarrow> int \<Rightarrow> bool" where
  "valid_date y m d \<longleftrightarrow> 1 \<le> m \<and> m \<le> 12 \<and> 1 \<le> d \<and> d \<le> month_days y m"

lemma quot_pos: "0 \<le> a \<Longrightarrow> 0 < b \<Longrightarrow> quot a b = a div b"
  by (cases "a = 0") (simp_all add: quot_def)

text \<open>The adjusted truncating division of both programs is floor division.\<close>

lemma quot_floor:
  assumes b: "0 < b"
  shows "quot (if 0 \<le> a then a else a - (b - 1)) b = a div b"
proof (cases "0 \<le> a")
  case False
  let ?k = "- a - 1"
  have k: "0 \<le> ?k" using False by simp
  have "quot (a - (b - 1)) b = - ((b + ?k) div b)" using False b by (simp add: quot_def algebra_simps)
  also have "(b + ?k) div b = 1 + ?k div b" by (subst div_add_self1) (use b in auto)
  also have "- (1 + ?k div b) = a div b"
  proof -
    have "?k = b * (?k div b) + ?k mod b" by simp
    then have "a = b * (- (1 + ?k div b)) + (b - 1 - ?k mod b)" by (simp add: algebra_simps)
    moreover have "0 \<le> b - 1 - ?k mod b" "b - 1 - ?k mod b < b"
      using pos_mod_bound [OF b, of ?k] pos_mod_sign [OF b, of ?k] by linarith+
    ultimately show ?thesis by (metis div_pos_pos_trivial div_mult_self2 b add.commute add_0 mult.commute order_less_irrefl)
  qed
  finally show ?thesis using False by simp
qed (use b in \<open>simp add: quot_pos\<close>)

text \<open>Days before a year of a 400-year era, counted from March, and the day number with its leap corrections removed.\<close>

definition year_base :: "int \<Rightarrow> int" where
  "year_base y = 365 * y + y div 4 - y div 100"

definition year_end :: "int \<Rightarrow> int" where
  "year_end y = (if y = 399 then 146097 else year_base (y + 1))"

definition flat_day :: "int \<Rightarrow> int" where
  "flat_day x = x - x div 1460 + x div 36524 - x div 146096"

lemma div_unique: "(0 :: int) < n \<Longrightarrow> n * k \<le> x \<Longrightarrow> x < n * (k + 1) \<Longrightarrow> x div n = k"
  by (rule int_div_pos_eq [of x n k "x - n * k"]) (auto simp: algebra_simps)

lemma era_year:
  fixes y :: int
  assumes "0 \<le> y" and "y \<le> 399"
  obtains c s r where "y = 100 * c + 4 * s + r" "0 \<le> c" "c \<le> 3" "0 \<le> s" "s \<le> 24" "0 \<le> r" "r \<le> 3"
proof
  let ?m = "y mod 100"
  show "y = 100 * (y div 100) + 4 * (?m div 4) + ?m mod 4" by (simp add: add.assoc)
  have "y = 100 * (y div 100) + ?m" "0 \<le> ?m" "?m < 100" by simp_all
  then show "0 \<le> y div 100" "y div 100 \<le> 3" using assms by linarith+
  have "?m = 4 * (?m div 4) + ?m mod 4" "0 \<le> ?m mod 4" "?m mod 4 < 4" by simp_all
  then show "0 \<le> ?m div 4" "?m div 4 \<le> 24" "0 \<le> ?m mod 4" "?m mod 4 \<le> 3" using \<open>0 \<le> ?m\<close> \<open>?m < 100\<close> by linarith+
qed

lemma year_parts:
  assumes y: "y = 100 * c + 4 * s + r" "0 \<le> c" "c \<le> 3" "0 \<le> s" "s \<le> 24" "0 \<le> r" "r \<le> 3"
  shows "year_base y = 36524 * c + 1461 * s + 365 * r"
    and "year_end y = year_base y + 365 + (if r = 3 \<and> (s < 24 \<or> c = 3) then 1 else 0)"
    and "leap (y + 1) \<longleftrightarrow> r = 3 \<and> (s < 24 \<or> c = 3)"
proof -
  have 1: "y div 4 = 25 * c + s" "y div 100 = c" by (rule div_unique; use y in simp)+
  have 2: "(y + 1) div 4 = 25 * c + s + (if r = 3 then 1 else 0)" "(y + 1) div 100 = c + (if r = 3 \<and> s = 24 then 1 else 0)"
    by (rule div_unique; use y in auto)+
  show b: "year_base y = 36524 * c + 1461 * s + 365 * r" unfolding year_base_def 1 by (simp add: y(1))
  have "y = 399 \<longleftrightarrow> c = 3 \<and> s = 24 \<and> r = 3"
  proof
    assume "y = 399"
    with y have "c = 3" by linarith
    with y \<open>y = 399\<close> have "s = 24" by linarith
    with y \<open>y = 399\<close> \<open>c = 3\<close> show "c = 3 \<and> s = 24 \<and> r = 3" by linarith
  qed (use y in simp)
  moreover have "year_base (y + 1) = 365 * (y + 1) + (25 * c + s + (if r = 3 then 1 else 0)) - (c + (if r = 3 \<and> s = 24 then 1 else 0))"
    unfolding year_base_def 2 ..
  ultimately show "year_end y = year_base y + 365 + (if r = 3 \<and> (s < 24 \<or> c = 3) then 1 else 0)"
    using y unfolding year_end_def b by auto
  have "(y + 1) div 400 = (if r = 3 \<and> s = 24 \<and> c = 3 then 1 else 0)" by (rule div_unique; use y in auto)
  then have "(y + 1) mod 4 = 0 \<longleftrightarrow> r = 3" "(y + 1) mod 100 = 0 \<longleftrightarrow> r = 3 \<and> s = 24" "(y + 1) mod 400 = 0 \<longleftrightarrow> r = 3 \<and> s = 24 \<and> c = 3"
    using y 2 by (auto simp: minus_div_mult_eq_mod [symmetric] split: if_splits)
  then show "leap (y + 1) \<longleftrightarrow> r = 3 \<and> (s < 24 \<or> c = 3)" unfolding leap_def using y by auto
qed

text \<open>The year of the era that the library's formula computes.\<close>

lemma flat_day_year:
  assumes y: "0 \<le> y" "y \<le> 399" and d: "0 \<le> doy" "year_base y + doy < year_end y"
  shows "flat_day (year_base y + doy) div 365 = y"
proof -
  obtain c s r where p: "y = 100 * c + 4 * s + r" "0 \<le> c" "c \<le> 3" "0 \<le> s" "s \<le> 24" "0 \<le> r" "r \<le> 3" by (rule era_year [OF y])
  note P = year_parts [OF p]
  have d': "doy \<le> 364 \<or> doy = 365 \<and> r = 3 \<and> (s < 24 \<or> c = 3)" using d P(2) by (auto split: if_splits)
  let ?x = "year_base y + doy"
  have century: "?x div 36524 - ?x div 146096 = c"
  proof (cases "c = 3 \<and> s = 24 \<and> r = 3 \<and> doy = 365")
    case True
    then show ?thesis using P(1) by simp
  next
    case False
    have "?x div 36524 = c" by (rule div_unique) (use P(1) p d' d(1) False in auto)
    moreover have "?x div 146096 = 0" by (rule div_unique) (use P(1) p d' d(1) False in auto)
    ultimately show ?thesis by simp
  qed
  let ?e = "365 * r + 24 * c + s + doy"
  have "?x = 1460 * (25 * c + s) + ?e" using P(1) by simp
  then have "?x div 1460 = 25 * c + s + ?e div 1460" by simp
  moreover have "?e div 1460 = (if 1460 \<le> ?e then 1 else 0)"
    by (rule div_unique) (use p d' d(1) in auto)
  ultimately have "flat_day ?x = 365 * y + (doy - (if 1460 \<le> ?e then 1 else 0))"
    using century P(1) p(1) by (simp add: flat_day_def)
  then show ?thesis by (intro div_unique) (use p d' d(1) in \<open>auto split: if_splits\<close>)
qed

lemma quot_era: "quot (if 0 \<le> a then a else a - 146096) 146097 = a div 146097" "quot (if 0 \<le> b then b else b - 399) 400 = b div 400"
  using quot_floor [of 146097 a] quot_floor [of 400 b] by (simp_all split: if_splits)

text \<open>Months counted from March.\<close>

definition march_month :: "int \<Rightarrow> int" where
  "march_month m = (if m > 2 then m - 3 else m + 9)"

definition month_base :: "int \<Rightarrow> int" where
  "month_base mp = (153 * mp + 2) div 5"

lemma month_cases: "1 \<le> m \<Longrightarrow> m \<le> 12 \<Longrightarrow> m = 1 \<or> m = 2 \<or> m = 3 \<or> m = 4 \<or> m = 5 \<or> m = 6 \<or> m = 7 \<or> m = 8 \<or> m = 9 \<or> m = 10 \<or> m = 11 \<or> m = (12 :: int)"
  by presburger

lemma month_of_day:
  assumes "valid_date y m d"
  shows "(5 * (month_base (march_month m) + d - 1) + 2) div 153 = march_month m"
proof -
  have d: "1 \<le> m" "m \<le> 12" "1 \<le> d" "d \<le> month_days y m" using assms by (auto simp: valid_date_def)
  show ?thesis by (rule div_unique)
      (use month_cases [OF d(1,2)] d(3,4) in \<open>auto simp: march_month_def month_base_def month_days_def split: if_splits\<close>)
qed

text \<open>The day of the year, counted from 1 March, lies in that year.\<close>

lemma day_in_year:
  assumes v: "valid_date y m d" and y': "y' = (if m \<le> 2 then y - 1 else y)"
  shows "0 \<le> month_base (march_month m) + d - 1"
    and "year_base (y' mod 400) + (month_base (march_month m) + d - 1) < year_end (y' mod 400)"
proof -
  have d: "1 \<le> m" "m \<le> 12" "1 \<le> d" "d \<le> month_days y m" using v by (auto simp: valid_date_def)
  have b: "0 \<le> y' mod 400" "y' mod 400 \<le> 399" using pos_mod_bound [of 400 y'] by simp_all
  obtain c s r where p: "y' mod 400 = 100 * c + 4 * s + r" "0 \<le> c" "c \<le> 3" "0 \<le> s" "s \<le> 24" "0 \<le> r" "r \<le> 3" by (rule era_year [OF b])
  have l: "leap (y' + 1) \<longleftrightarrow> leap (y' mod 400 + 1)"
  proof -
    have "(y' mod 400 + 1) mod 400 = (y' + 1) mod 400" by (simp add: mod_add_left_eq)
    moreover have "x mod 4 = x mod 400 mod 4" "x mod 100 = x mod 400 mod 100" for x :: int by (simp_all add: mod_mod_cancel)
    ultimately show ?thesis unfolding leap_def by metis
  qed
  show "0 \<le> month_base (march_month m) + d - 1"
    using month_cases [OF d(1,2)] d(3) by (auto simp: march_month_def month_base_def)
  have "month_base (march_month m) + d - 1 < 365 + (if leap (y' + 1) then 1 else 0)"
    using month_cases [OF d(1,2)] d(3,4) y' by (auto simp: march_month_def month_base_def month_days_def split: if_splits)
  then show "year_base (y' mod 400) + (month_base (march_month m) + d - 1) < year_end (y' mod 400)"
    using year_parts(2,3) [OF p] l by (auto split: if_splits)
qed

lemma year_end_le: "0 \<le> y \<Longrightarrow> y \<le> 399 \<Longrightarrow> 0 \<le> year_base y \<and> year_end y \<le> 146097"
proof -
  assume y: "0 \<le> y" "y \<le> 399"
  obtain c s r where p: "y = 100 * c + 4 * s + r" "0 \<le> c" "c \<le> 3" "0 \<le> s" "s \<le> 24" "0 \<le> r" "r \<le> 3" by (rule era_year [OF y])
  then show ?thesis using year_parts(1,2) [OF p] by (auto split: if_splits)
qed

text \<open>A day number taken apart into era, year of the era and day of the year.\<close>

lemma civil_from_parts:
  assumes y: "0 \<le> yoe" "yoe \<le> 399" and d: "0 \<le> doy" "year_base yoe + doy < year_end yoe" and mp: "mp = (5 * doy + 2) div 153"
    and m: "m = (if mp < 10 then mp + 3 else mp - 9)" and z: "z = era * 146097 + (year_base yoe + doy) - 719468"
  shows "civil_from_days z = (yoe + era * 400 + (if m \<le> 2 then 1 else 0), m, doy - month_base mp + 1)"
proof -
  let ?doe = "year_base yoe + doy"
  have b: "0 \<le> ?doe" "?doe < 146097" using year_end_le [OF y] d by auto
  have era: "quot (if z + 719468 \<ge> 0 then z + 719468 else z + 719468 - 146096) 146097 = era"
    unfolding quot_era(1) z using b by (simp add: div_pos_pos_trivial)
  have doe: "z + 719468 - era * 146097 = ?doe" by (simp add: z)
  have q: "quot ?doe 1460 = ?doe div 1460" "quot ?doe 36524 = ?doe div 36524" "quot ?doe 146096 = ?doe div 146096"
    using b(1) by (simp_all add: quot_pos)
  have f: "0 \<le> flat_day ?doe"
  proof -
    have "flat_day ?doe div 365 = yoe" by (rule flat_day_year [OF y d])
    then show ?thesis using y(1) by (metis pos_imp_zdiv_neg_iff not_le zero_less_numeral)
  qed
  have yoe: "quot (?doe - quot ?doe 1460 + quot ?doe 36524 - quot ?doe 146096) 365 = yoe"
    using flat_day_year [OF y d] f unfolding q flat_day_def by (simp add: quot_pos)
  have doy: "?doe - (365 * yoe + quot yoe 4 - quot yoe 100) = doy" using y by (simp add: quot_pos year_base_def)
  have mp0: "0 \<le> mp" using d(1) by (simp add: mp pos_imp_zdiv_nonneg_iff)
  show ?thesis unfolding civil_from_days_def Let_def era doe yoe doy
    using d(1) mp0 by (simp add: quot_pos mp [symmetric] month_base_def m)
qed

lemma libc_days_parts:
  assumes v: "valid_date y m d" and y': "y' = (if m \<le> 2 then y - 1 else y)"
  shows "libc_days_from_civil y m d = (y' div 400) * 146097 + (year_base (y' mod 400) + (month_base (march_month m) + d - 1)) - 719468"
proof -
  have m: "1 \<le> m" "m \<le> 12" using v by (auto simp: valid_date_def)
  have "0 \<le> march_month m" using m by (auto simp: march_month_def)
  then have "quot (153 * march_month m + 2) 5 = month_base (march_month m)" by (simp add: quot_pos month_base_def)
  moreover have "quot (y' mod 400) 4 = y' mod 400 div 4" "quot (y' mod 400) 100 = y' mod 400 div 100" by (simp_all add: quot_pos)
  moreover have "y' - y' div 400 * 400 = y' mod 400" by (simp add: minus_div_mult_eq_mod)
  ultimately show ?thesis
    unfolding libc_days_from_civil_def Let_def y' [symmetric] quot_era(2) march_month_def [symmetric] by (simp add: year_base_def)
qed

lemma civil_days_inverse:
  assumes v: "valid_date y m d"
  shows "civil_from_days (libc_days_from_civil y m d) = (y, m, d)"
proof -
  define y' where "y' = (if m \<le> 2 then y - 1 else y)"
  have m: "1 \<le> m" "m \<le> 12" using v by (auto simp: valid_date_def)
  have b: "0 \<le> y' mod 400" "y' mod 400 \<le> 399" using pos_mod_bound [of 400 y'] by simp_all
  have e: "m = (if march_month m < 10 then march_month m + 3 else march_month m - 9)" using m by (auto simp: march_month_def)
  note D = day_in_year [OF v y'_def]
  have "civil_from_days (libc_days_from_civil y m d) = (y' mod 400 + y' div 400 * 400 + (if m \<le> 2 then 1 else 0), m,
      month_base (march_month m) + d - 1 - month_base (march_month m) + 1)"
    by (rule civil_from_parts [OF b D month_of_day [OF v, symmetric] e libc_days_parts [OF v y'_def]])
  then show ?thesis by (auto simp: y'_def)
qed

section \<open>The kernel's arithmetic\<close>

lemma uint_small: "0 \<le> a \<Longrightarrow> a < 2 ^ 64 \<Longrightarrow> uint (of_int a :: u64) = a"
  by (simp add: take_bit_int_eq_self unsigned_of_int)

lemma word_div_small:
  "0 \<le> a \<Longrightarrow> a < 2 ^ 64 \<Longrightarrow> 0 \<le> b \<Longrightarrow> b < 2 ^ 64 \<Longrightarrow> (of_int a :: u64) div of_int b = of_int (a div b)"
  unfolding word_div_def by (simp only: uint_small)

lemma word_le_small: "0 \<le> a \<Longrightarrow> a < 2 ^ 64 \<Longrightarrow> 0 \<le> b \<Longrightarrow> b < 2 ^ 64 \<Longrightarrow> (of_int a :: u64) \<le> of_int b \<longleftrightarrow> a \<le> b"
  by (simp add: word_le_def uint_small)

lemma kernel_days:
  assumes v: "valid_date y m d" and y: "2000 \<le> y" "y \<le> 3000"
  shows "days_from_civil (of_int y) (of_int m) (of_int d) = of_int (libc_days_from_civil y m d)"
    and "0 \<le> libc_days_from_civil y m d" and "libc_days_from_civil y m d < 1000000"
proof -
  have md: "1 \<le> m" "m \<le> 12" "1 \<le> d" "d \<le> 31" using v by (auto simp: valid_date_def month_days_def split: if_splits)
  define y' where "y' = (if m \<le> 2 then y - 1 else y)"
  have y': "1999 \<le> y'" "y' \<le> 3000" using y by (auto simp: y'_def)
  let ?mp = "march_month m"
  have mp: "0 \<le> ?mp" "?mp \<le> 11" using md by (auto simp: march_month_def)
  have le: "(of_int m :: u64) \<le> 2 \<longleftrightarrow> m \<le> 2" using word_le_small [of m 2] md by simp
  have 1: "(if (of_int m :: u64) \<le> 2 then of_int y - 1 else of_int y) = (of_int y' :: u64)" unfolding le by (simp add: y'_def)
  have 2: "(if (of_int m :: u64) > 2 then of_int m - 3 else of_int m + 9) = (of_int ?mp :: u64)"
    unfolding not_le [symmetric] le by (simp add: march_month_def)
  have 3: "(of_int y' :: u64) div 400 = of_int (y' div 400)" using word_div_small [of y' 400] y' by simp
  have yoe: "(of_int y' :: u64) - of_int (y' div 400) * 400 = of_int (y' mod 400)"
  proof -
    have "(of_int y' :: u64) - of_int (y' div 400) * 400 = of_int (y' - y' div 400 * 400)" by simp
    then show ?thesis by (simp only: minus_div_mult_eq_mod)
  qed
  have b: "0 \<le> y' mod 400" "y' mod 400 \<le> 399" using pos_mod_bound [of 400 y'] by simp_all
  have 4: "(of_int (y' mod 400) :: u64) div 4 = of_int (y' mod 400 div 4)" "(of_int (y' mod 400) :: u64) div 100 = of_int (y' mod 400 div 100)"
    using word_div_small [of "y' mod 400" 4] word_div_small [of "y' mod 400" 100] b by simp_all
  have 5: "(153 * of_int ?mp + 2 :: u64) div 5 = of_int (month_base ?mp)"
    using word_div_small [of "153 * ?mp + 2" 5] mp by (simp add: month_base_def)
  show e: "days_from_civil (of_int y) (of_int m) (of_int d) = of_int (libc_days_from_civil y m d)"
    unfolding days_from_civil_def Let_def 1 2 3 yoe 4 5 libc_days_parts [OF v y'_def] by (simp add: year_base_def algebra_simps)
  note D = day_in_year [OF v y'_def]
  have "libc_days_from_civil y m d = (y' div 400) * 146097 + (year_base (y' mod 400) + (month_base ?mp + d - 1)) - 719468"
    by (rule libc_days_parts [OF v y'_def])
  moreover have "4 \<le> y' div 400" "y' div 400 \<le> 7" using y' by linarith+
  moreover have "y' div 400 = 4 \<Longrightarrow> 399 \<le> y' mod 400"
    using y' mult_div_mod_eq [of 400 y'] by linarith
  moreover have "365 * 399 + 89 \<le> year_base (y' mod 400)" if "399 \<le> y' mod 400"
  proof -
    have "92 \<le> y' mod 400 div 4" using that by linarith
    moreover have "y' mod 400 div 100 = 3" by (rule div_unique) (use that b(2) in auto)
    ultimately show ?thesis using that by (simp add: year_base_def)
  qed
  ultimately show "0 \<le> libc_days_from_civil y m d" "libc_days_from_civil y m d < 1000000"
    using D year_end_le [OF b] by (cases "y' div 400 = 4"; simp)+
qed

section \<open>From the chip to the broken-down time\<close>

text \<open>
  How the chip presents a time, by the mode bits of status register B: packed BCD or binary, and
  24-hour or 12-hour with bit 7 of the hour for the afternoon.
\<close>

definition chip_field :: "u8 \<Rightarrow> nat \<Rightarrow> u8" where
  "chip_field sb n = (if sb AND STATUS_B_BIN \<noteq> 0 then of_nat n else of_nat (16 * (n div 10) + n mod 10))"

definition chip_hour :: "u8 \<Rightarrow> nat \<Rightarrow> u8" where
  "chip_hour sb h =
     (if sb AND STATUS_B_24H \<noteq> 0 then chip_field sb h
      else (let h12 = (if h mod 12 = 0 then 12 else h mod 12)
            in if h < 12 then chip_field sb h12 else chip_field sb h12 OR 0x80))"

definition chip_regs :: "u8 \<Rightarrow> nat \<Rightarrow> nat \<Rightarrow> nat \<Rightarrow> nat \<Rightarrow> nat \<Rightarrow> nat \<Rightarrow> u8 \<Rightarrow> u8" where
  "chip_regs sb yy mo d h mi s reg =
     (if reg = REG_SECONDS then chip_field sb s else if reg = REG_MINUTES then chip_field sb mi
      else if reg = REG_HOURS then chip_hour sb h else if reg = REG_DAY then chip_field sb d
      else if reg = REG_MONTH then chip_field sb mo else if reg = REG_YEAR then chip_field sb yy
      else if reg = REG_STATUS_B then sb else 0)"

lemmas cmos_regs = REG_SECONDS_def REG_MINUTES_def REG_HOURS_def REG_DAY_def REG_MONTH_def REG_YEAR_def REG_STATUS_A_def REG_STATUS_B_def

definition conv_field :: "u8 \<Rightarrow> u8 \<Rightarrow> u8" where
  "conv_field sb v = (if sb AND STATUS_B_BIN \<noteq> 0 then v else bcd_to_bin v)"

lemma and_low: fixes v :: u8 shows "unat (v AND 0x0F) = unat v mod 16" "unat (drop_bit 4 v) = unat v div 16"
proof -
  have "v AND 0x0F = take_bit 4 v" by (simp add: take_bit_eq_mask mask_eq_exp_minus_1)
  then have "v AND 0x0F = v mod 16" by (simp add: take_bit_eq_mod)
  then show "unat (v AND 0x0F) = unat v mod 16" by (simp add: unat_mod_distrib)
  show "unat (drop_bit 4 v) = unat v div 16" by (simp add: drop_bit_eq_div unat_div_distrib)
qed

lemma unat_byte: "n < 256 \<Longrightarrow> unat (of_nat n :: u8) = n"
  by (simp add: unat_of_nat)

lemma conv_chip_field:
  assumes "n < 100"
  shows "conv_field sb (chip_field sb n) = of_nat n" and "unat (chip_field sb n) < 160"
proof -
  let ?k = "16 * (n div 10) + n mod 10"
  have "n div 10 \<le> 9" "n mod 10 < 10" using assms by auto
  then have k: "?k < 160" "?k div 16 = n div 10" "?k mod 16 = n mod 10" by (linarith, simp_all)
  have u: "unat (of_nat ?k :: u8) = ?k" by (rule unat_byte) (use k(1) in simp)
  have "unat (bcd_to_bin (of_nat ?k)) = n"
  proof -
    have "unat (drop_bit 4 (of_nat ?k :: u8)) = n div 10" "unat ((of_nat ?k :: u8) AND 0x0F) = n mod 10" using and_low [of "of_nat ?k"] u k by (simp_all del: of_nat_add of_nat_mult)
    then show ?thesis using assms by (simp add: bcd_to_bin_def unat_word_ariths)
  qed
  then have "bcd_to_bin (of_nat ?k) = of_nat n" using unat_byte [of n] assms by (intro unat_eq_iff [THEN iffD1]) simp
  then show "conv_field sb (chip_field sb n) = of_nat n" by (simp add: conv_field_def chip_field_def)
  show "unat (chip_field sb n) < 160" using u k(1) unat_byte [of n] assms by (simp add: chip_field_def del: of_nat_add of_nat_mult)
qed

lemma byte_top_bit:
  fixes v :: u8
  assumes "unat v < 128"
  shows "v AND 0x7F = v" and "v AND 0x80 = 0" and "(v OR 0x80) AND 0x7F = v" and "(v OR 0x80) AND 0x80 \<noteq> 0"
proof -
  have "\<not> bit (unat v) 7" using assms by (simp add: bit_iff_odd)
  then have b: "\<not> bit v 7" by (simp add: bit_unsigned_iff)
  have c: "bit (0x7F :: u8) n \<longleftrightarrow> n < 7" "bit (0x80 :: u8) n \<longleftrightarrow> n = 7" if "n < 8" for n
  proof -
    have "(0x7F :: u8) = mask 7" "(0x80 :: u8) = push_bit 7 1" by (simp_all add: mask_eq_exp_minus_1)
    then show "bit (0x7F :: u8) n \<longleftrightarrow> n < 7" "bit (0x80 :: u8) n \<longleftrightarrow> n = 7" using that by (simp_all only: bit_mask_iff bit_push_bit_iff bit_1_iff) auto
  qed
  have "bit (v AND 0x7F) n = bit v n \<and> bit (v AND 0x80) n = bit (0 :: u8) n \<and> bit ((v OR 0x80) AND 0x7F) n = bit v n" if "n < 8" for n
    using b c [OF that] that by (cases "n = 7") (auto simp: bit_and_iff bit_or_iff)
  then show "v AND 0x7F = v" "v AND 0x80 = 0" "(v OR 0x80) AND 0x7F = v" by (auto intro!: bit_word_eqI simp del: bit_and_iff bit_or_iff)
  have "bit ((v OR 0x80) AND 0x80) 7" using c(2) [of 7] by (simp only: bit_and_iff bit_or_iff) simp
  then show "(v OR 0x80) AND 0x80 \<noteq> 0" by auto
qed

text \<open>The hour as \<open>decode_time\<close> computes it.\<close>

definition hour_of :: "u8 \<Rightarrow> u8 \<Rightarrow> u64" where
  "hour_of sb v =
     (let hour = ucast (conv_field sb (v AND 0x7F))
      in if sb AND STATUS_B_24H \<noteq> 0 then hour
         else if v AND 0x80 \<noteq> 0 then (if hour \<noteq> 12 then hour + 12 else hour)
         else if hour = 12 then 0 else hour)"

lemma ucast_field: "n < 100 \<Longrightarrow> ucast (conv_field sb (chip_field sb n)) = (of_nat n :: u64)"
  by (simp add: conv_chip_field unsigned_of_nat take_bit_nat_eq_self)

lemma chip_field_low: "n \<le> 24 \<Longrightarrow> unat (chip_field sb n) < 128"
proof -
  assume "n \<le> 24"
  then have "n div 10 \<le> 2" "n mod 10 < 10" by auto
  then have "16 * (n div 10) + n mod 10 < 128" by linarith
  then show ?thesis using \<open>n \<le> 24\<close> unat_byte [of n] unat_byte [of "16 * (n div 10) + n mod 10"]
    by (simp add: chip_field_def del: of_nat_add of_nat_mult)
qed

lemma hour_of_chip:
  assumes h: "h < 24"
  shows "hour_of sb (chip_hour sb h) = of_nat h"
proof (cases "sb AND STATUS_B_24H \<noteq> 0")
  case True
  have "unat (chip_field sb h) < 128" using h by (intro chip_field_low) simp
  then show ?thesis using True h by (simp add: hour_of_def chip_hour_def byte_top_bit ucast_field)
next
  case False
  define k where "k = (if h mod 12 = 0 then 12 else h mod 12)"
  have k: "1 \<le> k" "k \<le> 12" using mod_less_divisor [of 12 h] by (auto simp: k_def)
  have v: "unat (chip_field sb k) < 128" using k by (intro chip_field_low) simp
  have u: "ucast (conv_field sb (chip_field sb k)) = (of_nat k :: u64)" using k by (intro ucast_field) simp
  have e: "(of_nat k :: u64) = 12 \<longleftrightarrow> k = 12"
    using k by (auto dest!: arg_cong [where f = unat] simp: unat_of_nat)
  show ?thesis
  proof (cases "h < 12")
    case True
    then have "chip_hour sb h = chip_field sb k" using False by (simp add: chip_hour_def k_def)
    moreover have "(if k = 12 then 0 else (of_nat k :: u64)) = of_nat h" using True by (auto simp: k_def)
    ultimately show ?thesis using False by (simp add: hour_of_def Let_def byte_top_bit [OF v] u e)
  next
    case pm: False
    then have "chip_hour sb h = chip_field sb k OR 0x80" using False by (simp add: chip_hour_def k_def)
    moreover have "h = (if k = 12 then k else k + 12)" using pm h by (auto simp: k_def mod_if split: if_splits)
    ultimately show ?thesis using False by (auto simp: hour_of_def Let_def byte_top_bit [OF v] u e split: if_splits)
  qed
qed

lemma decode_time_eq:
  "decode_time sb a = days_from_civil (2000 + ucast (conv_field sb (r_year a))) (ucast (conv_field sb (r_mon a))) (ucast (conv_field sb (r_day a))) * 86400
     + hour_of sb (r_hour a) * 3600 + ucast (conv_field sb (r_min a)) * 60 + ucast (conv_field sb (r_sec a))"
  unfolding decode_time_def hour_of_def conv_field_def Let_def by simp

text \<open>With stable registers a reading and its repetition agree at once.\<close>

definition chip_raw :: "u8 \<Rightarrow> nat \<Rightarrow> nat \<Rightarrow> nat \<Rightarrow> nat \<Rightarrow> nat \<Rightarrow> nat \<Rightarrow> raw_time" where
  "chip_raw sb yy mo d h mi s = \<lparr>r_sec = chip_field sb s, r_min = chip_field sb mi, r_hour = chip_hour sb h, r_day = chip_field sb d,
     r_mon = chip_field sb mo, r_year = chip_field sb yy\<rparr>"

lemma epoch_stable:
  assumes c: "\<And>k. c k = chip_regs sb yy mo d h mi s"
  shows "\<exists>t'. epoch_secs c t = Some (decode_time sb (chip_raw sb yy mo d h mi s), t')"
proof -
  have "wait_stable c t = Some (t + 1)" for t
    by (subst wait_stable.simps) (simp add: update_in_progress_def read_reg_def c chip_regs_def cmos_regs)
  then have r: "read_raw c t = Some (chip_raw sb yy mo d h mi s, t + 7)" for t
    by (simp add: read_raw_def read_reg_def c chip_regs_def chip_raw_def cmos_regs)
  have "read_agree c (chip_raw sb yy mo d h mi s) t = Some (chip_raw sb yy mo d h mi s, t + 7)" for t
    by (subst read_agree.simps) (simp add: r)
  then show ?thesis by (simp add: epoch_secs_def r read_reg_def c chip_regs_def cmos_regs)
qed

lemma as_i32_small: "- (2 ^ 31) \<le> x \<Longrightarrow> x < 2 ^ 31 \<Longrightarrow> as_i32 x = x"
  unfolding as_i32_def by (rule signed_take_bit_int_eq_self) auto

lemma sint_small: "0 \<le> x \<Longrightarrow> x < 2 ^ 63 \<Longrightarrow> sint (of_int x :: u64) = x"
proof -
  assume "0 \<le> x" "x < 2 ^ 63"
  then have "signed_take_bit 63 x = x" by (intro signed_take_bit_int_eq_self) auto
  then show ?thesis by (simp add: signed_of_int)
qed

text \<open>The seconds of a day, taken apart.\<close>

lemma day_seconds:
  assumes "0 \<le> h" "h < 24" "0 \<le> mi" "mi < 60" "0 \<le> s" "s < (60 :: int)"
  shows "(D * 86400 + (h * 3600 + mi * 60 + s)) div 86400 = D" and "(D * 86400 + (h * 3600 + mi * 60 + s)) mod 86400 = h * 3600 + mi * 60 + s"
    and "(h * 3600 + mi * 60 + s) div 3600 = h" and "(h * 3600 + mi * 60 + s) div 60 mod 60 = mi" and "(h * 3600 + mi * 60 + s) mod 60 = s"
proof -
  have b: "0 \<le> h * 3600 + mi * 60 + s" "h * 3600 + mi * 60 + s < 86400" using assms by linarith+
  show "(D * 86400 + (h * 3600 + mi * 60 + s)) div 86400 = D" by (rule div_unique) (use b in auto)
  show "(D * 86400 + (h * 3600 + mi * 60 + s)) mod 86400 = h * 3600 + mi * 60 + s"
    using b by (simp add: mod_pos_pos_trivial)
  show "(h * 3600 + mi * 60 + s) div 3600 = h" by (rule div_unique) (use assms in auto)
  have "(h * 3600 + mi * 60 + s) div 60 = h * 60 + mi" by (rule div_unique) (use assms in auto)
  moreover have "(h * 60 + mi) mod 60 = mi" using assms by (simp add: mod_pos_pos_trivial)
  ultimately show "(h * 3600 + mi * 60 + s) div 60 mod 60 = mi" by simp
  have "h * 3600 + mi * 60 + s = s + 60 * (h * 60 + mi)" by simp
  then have "(h * 3600 + mi * 60 + s) mod 60 = s mod 60" by (simp only: mod_mult_self2)
  then show "(h * 3600 + mi * 60 + s) mod 60 = s" using assms by (simp add: mod_pos_pos_trivial)
qed

text \<open>
  C31: the time a C program sees is the time on the chip. For every valid date and time of this
  century, in each of the four register encodings (BCD or binary, 24-hour or 12-hour), the kernel's
  reading returns, and \<open>localtime\<close> of its seconds since 1970 gives back the fields of the chip.
\<close>

theorem rtc_localtime_roundtrip:
  assumes c: "\<And>k. c k = chip_regs sb yy mo d h mi s" and v: "valid_date (2000 + int yy) (int mo) (int d)"
    and r: "yy < 100" "h < 24" "mi < 60" "s < 60"
  shows "\<exists>e t' tm. epoch_secs c t = Some (e, t') \<and> tm = localtime (Some (sint e)) \<and> tm_sec tm = int s \<and> tm_min tm = int mi
     \<and> tm_hour tm = int h \<and> tm_mday tm = int d \<and> tm_mon tm = int mo - 1 \<and> tm_year tm = 100 + int yy"
proof -
  let ?y = "2000 + int yy"
  define D where "D = libc_days_from_civil ?y (int mo) (int d)"
  define S where "S = int h * 3600 + int mi * 60 + int s"
  note K = kernel_days [OF v, folded D_def]
  have md: "mo \<le> 12" "d \<le> 31" using v by (auto simp: valid_date_def month_days_def split: if_splits)
  have D: "0 \<le> D" "D < 1000000" using K(2,3) r by auto
  have S: "0 \<le> S" "S < 86400" using r unfolding S_def by linarith+
  obtain t' where t': "epoch_secs c t = Some (decode_time sb (chip_raw sb yy mo d h mi s), t')" using epoch_stable [where c = c and t = t, OF c] by blast
  have "decode_time sb (chip_raw sb yy mo d h mi s) = of_int (D * 86400 + S)"
  proof -
    have "days_from_civil (2000 + of_nat yy) (of_nat mo) (of_nat d) = of_int D" using K(1) r by simp
    then show ?thesis using r md by (simp add: decode_time_eq chip_raw_def ucast_field hour_of_chip S_def)
  qed
  moreover have "sint (of_int (D * 86400 + S) :: u64) = D * 86400 + S"
    by (rule sint_small) (use D S in auto)
  moreover
  have cv: "civil_from_days D = (?y, int mo, int d)" unfolding D_def by (rule civil_days_inverse [OF v])
  have p: "(D * 86400 + S) div 86400 = D" "(D * 86400 + S) mod 86400 = S" "S div 3600 = int h" "S div 60 mod 60 = int mi" "S mod 60 = int s"
    unfolding S_def using r by (intro day_seconds; simp)+
  have L: "localtime (Some (D * 86400 + S)) = \<lparr>tm_sec = as_i32 (int s), tm_min = as_i32 (int mi), tm_hour = as_i32 (int h), tm_mday = as_i32 (int d),
      tm_mon = as_i32 (int mo - 1), tm_year = as_i32 (?y - 1900), tm_wday = as_i32 ((D + 4) mod 7), tm_yday = as_i32 (D - libc_days_from_civil ?y 1 1),
      tm_isdst = 0\<rparr>"
    by (simp only: localtime_def Let_def option.case p cv prod.case)
  have "as_i32 (int s) = int s" "as_i32 (int mi) = int mi" "as_i32 (int h) = int h" "as_i32 (int d) = int d" "as_i32 (int mo - 1) = int mo - 1"
    "as_i32 (?y - 1900) = 100 + int yy" using r md by (simp_all add: as_i32_small)
  ultimately show ?thesis using t' by (auto simp: L)
qed

theorem rtc_localtime_roundtrip_witness:
  "\<exists>e t' tm. epoch_secs (\<lambda>_. chip_regs 0 24 2 29 23 59 58) 0 = Some (e, t') \<and> tm = localtime (Some (sint e)) \<and> tm_sec tm = 58 \<and> tm_min tm = 59
     \<and> tm_hour tm = 23 \<and> tm_mday tm = 29 \<and> tm_mon tm = 1 \<and> tm_year tm = 124"
proof -
  have "valid_date (2000 + int 24) (int 2) (int 29)" by (simp add: valid_date_def month_days_def leap_def)
  from rtc_localtime_roundtrip [OF refl this, of 23 59 58 0 0] show ?thesis by simp
qed

end
