(* ===== verification/Console.thy ===== *)
theory Console
  imports Sched
begin

text \<open>
  The line discipline of the interactive console, \<open>kernel/src/console.rs\<close>: the receive interrupt
  feeds bytes through the edit line into a ring of committed bytes, from which the \<open>read_line\<close> system
  call takes whole lines. The record also collects what is echoed to the serial line, and holds the
  foreground process of \<open>usermode.rs\<close> that receives the terminal signals.
\<close>

section \<open>The console\<close>

definition LINE_CAP :: nat where "LINE_CAP = 256"
definition RING_CAP :: nat where "RING_CAP = 1024"
definition SIGINT :: u32 where "SIGINT = 2"

record cons =
  c_cur :: bytes
  c_cur_len :: nat
  c_ring :: bytes
  c_head :: nat
  c_tail :: nat
  c_len :: nat
  c_echo :: bytes
  c_foreground :: u32

definition Console_new :: cons where
  "Console_new = \<lparr>c_cur = replicate LINE_CAP 0, c_cur_len = 0, c_ring = replicate RING_CAP 0, c_head = 0, c_tail = 0, c_len = 0,
     c_echo = [], c_foreground = 0\<rparr>"

definition ring_push :: "u8 \<Rightarrow> cons \<Rightarrow> cons" where
  "ring_push b c =
     (if c_len c = RING_CAP then c
      else c\<lparr>c_ring := (c_ring c)[c_tail c := b], c_tail := (c_tail c + 1) mod RING_CAP, c_len := c_len c + 1\<rparr>)"

definition echo :: "bytes \<Rightarrow> cons \<Rightarrow> cons" where
  "echo bs c = c\<lparr>c_echo := c_echo c @ bs\<rparr>"

definition commit_line :: "cons \<Rightarrow> cons" where
  "commit_line c = (ring_push 10 (fold ring_push (take (c_cur_len c) (c_cur c)) c))\<lparr>c_cur_len := 0\<rparr>"

text \<open>The bytes: CR and LF end the line, \<open>^C\<close> and \<open>^Z\<close> signal, BS and DEL erase, printable bytes and TAB are typed.\<close>

definition feed :: "u8 \<Rightarrow> cons \<times> sched \<Rightarrow> cons \<times> sched" where
  "feed b = (\<lambda>(c, s).
     if b = 13 \<or> b = 10 then (commit_line (echo [13, 10] c), s)
     else if b = 3 \<or> b = 26
       then (let (sig, label) = (if b = 3 then (SIGINT, [94, 67, 13, 10]) else (20, [94, 90, 13, 10]))
             in ((echo label c)\<lparr>c_cur_len := 0\<rparr>, if c_foreground c \<noteq> 0 then snd (send_signal (c_foreground c) sig s) else s))
     else if (b = 8 \<or> b = 127) \<and> c_cur_len c > 0 then (echo [8, 32, 8] (c\<lparr>c_cur_len := c_cur_len c - 1\<rparr>), s)
     else if (32 \<le> b \<and> b \<le> 126 \<or> b = 9) \<and> c_cur_len c < LINE_CAP
       then (echo [b] (c\<lparr>c_cur := (c_cur c)[c_cur_len c := b], c_cur_len := c_cur_len c + 1\<rparr>), s)
     else (c, s))"

text \<open>\<open>take_line\<close>: the search for a newline among the committed bytes, and the copy into the destination.\<close>

fun find_newline :: "cons \<Rightarrow> nat list \<Rightarrow> nat option" where
  "find_newline c [] = None"
| "find_newline c (i # is) = (if c_ring c ! ((c_head c + i) mod RING_CAP) = 10 then Some i else find_newline c is)"

fun copy_line :: "cons \<Rightarrow> nat list \<Rightarrow> nat \<Rightarrow> bytes \<Rightarrow> nat \<times> bytes" where
  "copy_line c [] out dst = (out, dst)"
| "copy_line c (j # js) out dst =
     (let byte = c_ring c ! ((c_head c + j) mod RING_CAP)
      in if out < length dst then copy_line c js (out + 1) (dst[out := byte]) else copy_line c js out dst)"

definition take_line :: "bytes \<Rightarrow> cons \<Rightarrow> nat option \<times> bytes \<times> cons" where
  "take_line dst c =
     (case find_newline c [0..<c_len c] of
        None \<Rightarrow> (None, dst, c)
      | Some nl \<Rightarrow>
          (let (out, dst) = copy_line c [0..<nl] 0 dst
           in (Some out, dst, c\<lparr>c_head := (c_head c + nl + 1) mod RING_CAP, c_len := c_len c - (nl + 1)\<rparr>)))"

section \<open>Refinement to an edit line and a queue of bytes\<close>

definition edit_line :: "cons \<Rightarrow> bytes" where
  "edit_line c = take (c_cur_len c) (c_cur c)"

definition committed :: "cons \<Rightarrow> bytes" where
  "committed c = map (\<lambda>i. c_ring c ! ((c_head c + i) mod RING_CAP)) [0..<c_len c]"

definition cons_ok :: "cons \<Rightarrow> bool" where
  "cons_ok c \<longleftrightarrow> length (c_cur c) = LINE_CAP \<and> c_cur_len c \<le> LINE_CAP \<and> length (c_ring c) = RING_CAP \<and> c_head c < RING_CAP
     \<and> c_len c \<le> RING_CAP \<and> c_tail c = (c_head c + c_len c) mod RING_CAP"

lemma RING_CAP_pos [simp]: "0 < RING_CAP" by (simp add: RING_CAP_def)

lemma length_committed [simp]: "length (committed c) = c_len c" by (simp add: committed_def)

lemma ring_slot_inj: "i < n \<Longrightarrow> j < n \<Longrightarrow> (a + i) mod n = (a + j) mod n \<Longrightarrow> i = (j :: nat)"
proof -
  assume h: "i < n" "j < n" "(a + i) mod n = (a + j) mod n"
  have "i = j" if "i \<le> j" "j < n" "(a + i) mod n = (a + j) mod n" for i j
  proof -
    have "n dvd (a + j) - (a + i)" using that(3) by (metis mod_eq_dvd_iff_nat add_left_mono that(1))
    then have "n dvd j - i" by simp
    then show ?thesis using that by (metis diff_is_0_eq dvd_imp_le le_antisym le_diff_conv less_imp_diff_less not_le zero_less_diff)
  qed
  then show ?thesis using h by (metis nat_le_linear)
qed

lemma ring_push_spec:
  assumes "cons_ok c"
  shows "cons_ok (ring_push b c)" and "committed (ring_push b c) = (if c_len c = RING_CAP then committed c else committed c @ [b])"
    and "edit_line (ring_push b c) = edit_line c" and "c_cur_len (ring_push b c) = c_cur_len c" and "c_cur (ring_push b c) = c_cur c"
proof -
  show "cons_ok (ring_push b c)" using assms by (auto simp: cons_ok_def ring_push_def mod_Suc_eq)
  show "edit_line (ring_push b c) = edit_line c" "c_cur_len (ring_push b c) = c_cur_len c" "c_cur (ring_push b c) = c_cur c"
    by (simp_all add: ring_push_def edit_line_def)
  have "c_ring (ring_push b c) ! ((c_head c + i) mod RING_CAP) = (committed c @ [b]) ! i" if "i < Suc (c_len c)" "c_len c < RING_CAP" for i
    using that assms ring_slot_inj [of i RING_CAP "c_len c" "c_head c"]
    by (cases "i = c_len c") (auto simp: ring_push_def cons_ok_def nth_list_update nth_append committed_def)
  then have "committed (ring_push b c) = committed c @ [b]" if "c_len c < RING_CAP"
    using that by (intro nth_equalityI) (simp_all add: committed_def [of "ring_push b c"] del: upt_Suc, simp_all add: ring_push_def del: upt_Suc)
  then show "committed (ring_push b c) = (if c_len c = RING_CAP then committed c else committed c @ [b])"
    using assms by (auto simp: cons_ok_def ring_push_def)
qed

lemma pushes_spec:
  assumes "cons_ok c"
  shows "cons_ok (fold ring_push bs c) \<and> committed (fold ring_push bs c) = committed c @ take (RING_CAP - c_len c) bs
     \<and> c_cur (fold ring_push bs c) = c_cur c \<and> c_cur_len (fold ring_push bs c) = c_cur_len c"
  using assms
proof (induction bs arbitrary: c)
  case (Cons b bs)
  note P = ring_push_spec [OF Cons.prems, of b]
  have l: "c_len (ring_push b c) = (if c_len c = RING_CAP then c_len c else c_len c + 1)" by (simp add: ring_push_def)
  show ?case
  proof (cases "c_len c = RING_CAP")
    case False
    then have "RING_CAP - c_len c = Suc (RING_CAP - Suc (c_len c))" using Cons.prems by (auto simp: cons_ok_def)
    then show ?thesis using Cons.IH [OF P(1)] P l False by auto
  qed (use Cons.IH [OF P(1)] P l in auto)
qed simp

lemma echo_simps [simp]: "cons_ok (echo bs c) = cons_ok c" "committed (echo bs c) = committed c" "edit_line (echo bs c) = edit_line c"
  "c_cur_len (echo bs c) = c_cur_len c" "c_len (echo bs c) = c_len c" "c_foreground (echo bs c) = c_foreground c"
  by (simp_all add: echo_def cons_ok_def committed_def edit_line_def)

lemma clear_line_simps [simp]: "committed (c\<lparr>c_cur_len := k\<rparr>) = committed c" "edit_line (c\<lparr>c_cur_len := 0\<rparr>) = []"
  by (simp_all add: committed_def edit_line_def)

lemma clear_line_ok: "cons_ok c \<Longrightarrow> cons_ok (c\<lparr>c_cur_len := 0\<rparr>)"
  by (simp add: cons_ok_def)

lemma commit_line_spec:
  assumes c: "cons_ok c"
  shows "cons_ok (commit_line c)" and "committed (commit_line c) = committed c @ take (RING_CAP - c_len c) (edit_line c @ [10])"
    and "edit_line (commit_line c) = []"
proof -
  have e: "commit_line c = (fold ring_push (edit_line c @ [10]) c)\<lparr>c_cur_len := 0\<rparr>" by (simp add: commit_line_def edit_line_def)
  note P = pushes_spec [OF c, of "edit_line c @ [10]"]
  show "cons_ok (commit_line c)" using P unfolding e by (blast intro: clear_line_ok)
  show "committed (commit_line c) = committed c @ take (RING_CAP - c_len c) (edit_line c @ [10])" using P unfolding e by simp
  show "edit_line (commit_line c) = []" unfolding e by simp
qed

text \<open>The abstract line discipline on an edit line and a queue of committed bytes.\<close>

definition abs_feed :: "u8 \<Rightarrow> bytes \<times> bytes \<Rightarrow> bytes \<times> bytes" where
  "abs_feed b = (\<lambda>(line, q).
     if b = 13 \<or> b = 10 then ([], q @ take (RING_CAP - length q) (line @ [10]))
     else if b = 3 \<or> b = 26 then ([], q)
     else if b = 8 \<or> b = 127 then (butlast line, q)
     else if (32 \<le> b \<and> b \<le> 126 \<or> b = 9) \<and> length line < LINE_CAP then (line @ [b], q)
     else (line, q))"

definition abs_take :: "bytes \<times> bytes \<Rightarrow> bytes option \<times> (bytes \<times> bytes)" where
  "abs_take = (\<lambda>(line, q). if 10 \<in> set q then (Some (takeWhile (\<lambda>b. b \<noteq> 10) q), (line, tl (dropWhile (\<lambda>b. b \<noteq> 10) q))) else (None, (line, q)))"

abbreviation cons_abs :: "cons \<Rightarrow> bytes \<times> bytes" where
  "cons_abs c \<equiv> (edit_line c, committed c)"

lemma length_edit_line: "cons_ok c \<Longrightarrow> length (edit_line c) = c_cur_len c"
  by (simp add: edit_line_def cons_ok_def)

lemma feed_refines:
  assumes c: "cons_ok c" and f: "feed b (c, s) = (c', s')"
  shows "cons_ok c' \<and> cons_abs c' = abs_feed b (cons_abs c)
     \<and> s' = (if (b = 3 \<or> b = 26) \<and> c_foreground c \<noteq> 0 then snd (send_signal (c_foreground c) (if b = 3 then SIGINT else 20) s) else s)"
proof -
  consider (nl) "b = 13 \<or> b = 10" | (ctl) "b = 3 \<or> b = 26" | (del) "b = 8 \<or> b = 127" | (typed) "b \<notin> {13, 10, 3, 26, 8, 127}" by auto
  then show ?thesis
  proof cases
    case nl
    then show ?thesis using c f commit_line_spec [of "echo [13, 10] c"] by (auto simp: feed_def abs_feed_def)
  next
    case ctl
    moreover have "cons_ok ((echo l c)\<lparr>c_cur_len := 0\<rparr>)" for l using c by (simp add: cons_ok_def echo_def)
    ultimately show ?thesis using f by (auto simp: feed_def abs_feed_def)
  next
    case del
    have "edit_line (c\<lparr>c_cur_len := c_cur_len c - 1\<rparr>) = butlast (edit_line c)"
      using c by (cases "c_cur_len c = 0") (auto simp: edit_line_def cons_ok_def butlast_take)
    moreover have "cons_ok (c\<lparr>c_cur_len := c_cur_len c - 1\<rparr>)" using c by (auto simp: cons_ok_def)
    moreover have "c_cur_len c = 0 \<Longrightarrow> butlast (edit_line c) = edit_line c" by (simp add: edit_line_def)
    ultimately show ?thesis using c f del by (auto simp: feed_def abs_feed_def split: if_splits)
  next
    case typed
    have "edit_line (c\<lparr>c_cur := (c_cur c)[c_cur_len c := b], c_cur_len := Suc (c_cur_len c)\<rparr>) = edit_line c @ [b]" if "c_cur_len c < LINE_CAP"
      using c that by (simp add: edit_line_def cons_ok_def take_Suc_conv_app_nth)
    moreover have "cons_ok (c\<lparr>c_cur := (c_cur c)[c_cur_len c := b], c_cur_len := Suc (c_cur_len c)\<rparr>)" if "c_cur_len c < LINE_CAP"
      using c that by (simp add: cons_ok_def)
    moreover have "committed (c\<lparr>c_cur := x, c_cur_len := k\<rparr>) = committed c" for x k by (simp add: committed_def)
    ultimately show ?thesis using c f typed length_edit_line [OF c] by (auto simp: feed_def abs_feed_def split: if_splits)
  qed
qed

lemma find_newline_spec: "find_newline c is = (if \<exists>i \<in> set is. c_ring c ! ((c_head c + i) mod RING_CAP) = 10
    then Some (hd (filter (\<lambda>i. c_ring c ! ((c_head c + i) mod RING_CAP) = 10) is)) else None)"
  by (induction "is") auto

lemma copy_line_spec:
  "copy_line c js out dst = (let bs = take (length dst - out) (map (\<lambda>i. c_ring c ! ((c_head c + i) mod RING_CAP)) js)
     in (out + length bs, blit dst out bs))" if "out \<le> length dst"
  using that
proof (induction js arbitrary: out dst)
  case (Cons j js)
  let ?f = "\<lambda>i. c_ring c ! ((c_head c + i) mod RING_CAP)"
  show ?case
  proof (cases "out < length dst")
    case True
    have "blit (dst[out := ?f j]) (Suc out) bs = blit dst out (?f j # bs)" for bs
      using True by (simp add: blit_def take_Suc_conv_app_nth drop_update_cancel)
    moreover have "length dst - out = Suc (length dst - Suc out)" using True by simp
    ultimately show ?thesis using Cons.IH [of "Suc out" "dst[out := ?f j]"] True by (simp add: Let_def)
  next
    case False
    then show ?thesis using Cons.IH [of out dst] Cons.prems by (simp add: Let_def)
  qed
qed (simp add: blit_def)

lemma split_newline:
  assumes "10 \<in> set (map f [0..<n])"
  obtains k where "k < n" "f k = (10 :: u8)" "takeWhile (\<lambda>b. b \<noteq> 10) (map f [0..<n]) = map f [0..<k]"
    "tl (dropWhile (\<lambda>b. b \<noteq> 10) (map f [0..<n])) = map f [Suc k..<n]" "\<And>i. i < k \<Longrightarrow> f i \<noteq> 10"
proof -
  define k where "k = (LEAST k. k < n \<and> f k = 10)"
  obtain j where "j < n \<and> f j = 10" using assms by auto
  then have k: "k < n" "f k = 10" unfolding k_def by (metis (mono_tags, lifting) LeastI)+
  have m: "f i \<noteq> 10" if "i < k" for i using not_less_Least [of i "\<lambda>k. k < n \<and> f k = 10"] that k unfolding k_def by auto
  have "map f [0..<n] = map f [0..<k] @ f k # map f [Suc k..<n]"
    using k by (metis le_add_diff_inverse less_imp_le_nat list.simps(9) map_append upt_add_eq_append upt_conv_Cons zero_le)
  moreover have "takeWhile (\<lambda>b. b \<noteq> 10) (map f [0..<k] @ 10 # ys) = map f [0..<k]"
    "dropWhile (\<lambda>b. b \<noteq> 10) (map f [0..<k] @ 10 # ys) = 10 # ys" for ys
    using m by (simp_all add: takeWhile_append dropWhile_append)
  ultimately show ?thesis using k m that [of k] by simp
qed

lemma take_line_refines:
  assumes c: "cons_ok c" and t: "take_line dst c = (r, dst', c')"
  shows "cons_ok c' \<and> (case abs_take (cons_abs c) of
       (None, a) \<Rightarrow> r = None \<and> dst' = dst \<and> c' = c
     | (Some l, a) \<Rightarrow> r = Some (min (length l) (length dst)) \<and> dst' = blit dst 0 (take (length dst) l) \<and> cons_abs c' = a)"
proof -
  let ?f = "\<lambda>i. c_ring c ! ((c_head c + i) mod RING_CAP)"
  have q: "committed c = map ?f [0..<c_len c]" by (simp add: committed_def)
  show ?thesis
  proof (cases "10 \<in> set (committed c)")
    case False
    then have "find_newline c [0..<c_len c] = None" by (auto simp: find_newline_spec q)
    then show ?thesis using c t False by (simp add: take_line_def abs_take_def)
  next
    case True
    obtain k where k: "k < c_len c" "?f k = 10" "takeWhile (\<lambda>b. b \<noteq> 10) (committed c) = map ?f [0..<k]"
      "tl (dropWhile (\<lambda>b. b \<noteq> 10) (committed c)) = map ?f [Suc k..<c_len c]" "\<And>i. i < k \<Longrightarrow> ?f i \<noteq> 10"
      using split_newline [OF True [unfolded q]] unfolding q by blast
    have "[0..<c_len c] = [0..<k] @ k # [Suc k..<c_len c]"
      using k(1) by (metis le_add_diff_inverse less_imp_le_nat upt_add_eq_append upt_conv_Cons zero_le)
    then have "filter (\<lambda>i. ?f i = 10) [0..<c_len c] = k # filter (\<lambda>i. ?f i = 10) [Suc k..<c_len c]"
      using k(2,5) by (auto simp: filter_empty_conv)
    then have fn: "find_newline c [0..<c_len c] = Some k" using k(1,2) by (auto simp: find_newline_spec)
    have cp: "copy_line c [0..<k] 0 dst = (min k (length dst), blit dst 0 (take (length dst) (map ?f [0..<k])))"
      by (subst copy_line_spec) (simp_all add: Let_def min.commute)
    let ?c = "c\<lparr>c_head := (c_head c + k + 1) mod RING_CAP, c_len := c_len c - (k + 1)\<rparr>"
    have e: "r = Some (min k (length dst))" "dst' = blit dst 0 (take (length dst) (map ?f [0..<k]))" "c' = ?c"
      using t fn cp by (auto simp: take_line_def)
    have "committed ?c = map ?f [Suc k..<c_len c]"
    proof (rule nth_equalityI)
      show "committed ?c ! i = map ?f [Suc k..<c_len c] ! i" if "i < length (committed ?c)" for i
        using that by (simp add: committed_def mod_add_left_eq mod_Suc_eq add.assoc)
    qed simp
    moreover have "cons_ok ?c"
    proof -
      have "((c_head c + k + 1) mod RING_CAP + (c_len c - (k + 1))) mod RING_CAP = (c_head c + k + 1 + (c_len c - (k + 1))) mod RING_CAP"
        by (rule mod_add_left_eq)
      then have "(c_head c + c_len c) mod RING_CAP = ((c_head c + k + 1) mod RING_CAP + (c_len c - (k + 1))) mod RING_CAP"
        using k(1) by simp
      then show ?thesis using c k(1) by (auto simp: cons_ok_def)
    qed
    ultimately show ?thesis using e k True by (simp add: abs_take_def edit_line_def)
  qed
qed

section \<open>Lines typed are lines read\<close>

fun feed_all :: "bytes \<Rightarrow> cons \<times> sched \<Rightarrow> cons \<times> sched" where
  "feed_all [] x = x"
| "feed_all (b # bs) x = feed_all bs (feed b x)"

text \<open>Take lines as the \<open>read_line\<close> system call does, into a buffer of \<open>n\<close> bytes, until none is left.\<close>

fun take_lines :: "nat \<Rightarrow> nat \<Rightarrow> cons \<Rightarrow> bytes list \<times> cons" where
  "take_lines 0 n c = ([], c)"
| "take_lines (Suc k) n c =
     (case take_line (replicate n 0) c of
        (None, _, c) \<Rightarrow> ([], c)
      | (Some m, dst, c) \<Rightarrow> (let (ls, c) = take_lines k n c in (take m dst # ls, c)))"

definition printable :: "u8 \<Rightarrow> bool" where
  "printable b \<longleftrightarrow> 32 \<le> b \<and> b \<le> 126 \<or> b = 9"

definition typed_lines :: "bytes list \<Rightarrow> bytes" where
  "typed_lines ls = concat (map (\<lambda>l. l @ [13]) ls)"

definition queued_lines :: "bytes list \<Rightarrow> bytes" where
  "queued_lines ls = concat (map (\<lambda>l. l @ [10]) ls)"

lemma printable_plain: "printable b \<Longrightarrow> b \<notin> {13, 10, 3, 26, 8, 127}"
  by (auto simp: printable_def word_le_nat_alt)

lemma feed_all_append: "feed_all (xs @ ys) x = feed_all ys (feed_all xs x)"
  by (induction xs arbitrary: x) auto

lemma feed_line:
  assumes c: "cons_ok c" and e: "edit_line c = p" and l: "\<forall>b \<in> set l. printable b" and len: "length p + length l \<le> LINE_CAP"
  shows "\<exists>c'. feed_all l (c, s) = (c', s) \<and> cons_ok c' \<and> cons_abs c' = (p @ l, committed c)"
  using assms
proof (induction l arbitrary: c p)
  case (Cons b l)
  obtain c1 s1 where f: "feed b (c, s) = (c1, s1)" by (meson surj_pair)
  have b: "printable b" "b \<notin> {13, 10, 3, 26, 8, 127}" using Cons.prems printable_plain by auto
  have "cons_ok c1 \<and> cons_abs c1 = (p @ [b], committed c) \<and> s1 = s"
    using feed_refines [OF Cons.prems(1) f] b Cons.prems(2,4) by (auto simp: abs_feed_def printable_def)
  then show ?case using Cons.IH [of c1 "p @ [b]"] Cons.prems f by auto
qed auto

lemma feed_lines:
  assumes c: "cons_ok c" and e: "edit_line c = []" and l: "\<forall>l \<in> set ls. length l \<le> LINE_CAP \<and> (\<forall>b \<in> set l. printable b)"
    and len: "length (committed c) + length (queued_lines ls) \<le> RING_CAP"
  shows "\<exists>c'. feed_all (typed_lines ls) (c, s) = (c', s) \<and> cons_ok c' \<and> cons_abs c' = ([], committed c @ queued_lines ls)"
  using assms
proof (induction ls arbitrary: c)
  case (Cons l ls)
  obtain c1 where c1: "feed_all l (c, s) = (c1, s)" "cons_ok c1" "cons_abs c1 = (l, committed c)"
    using feed_line [of c "[]" l s] Cons.prems by auto
  obtain c2 s2 where f: "feed 13 (c1, s) = (c2, s2)" by (meson surj_pair)
  have "cons_ok c2 \<and> cons_abs c2 = ([], committed c @ l @ [10]) \<and> s2 = s"
    using feed_refines [OF c1(2) f] c1(3) Cons.prems(4) by (auto simp: abs_feed_def queued_lines_def)
  then show ?case using Cons.IH [of c2] Cons.prems c1 f by (auto simp: feed_all_append typed_lines_def queued_lines_def)
qed (simp add: typed_lines_def queued_lines_def)

lemma take_queued:
  assumes c: "cons_ok c" and q: "committed c = queued_lines ls" and l: "\<forall>l \<in> set ls. length l \<le> n \<and> 10 \<notin> set l"
  shows "\<exists>c'. take_lines (length ls) n c = (ls, c') \<and> committed c' = []"
  using assms
proof (induction ls arbitrary: c)
  case (Cons l ls)
  obtain r dst c1 where t: "take_line (replicate n 0) c = (r, dst, c1)" by (metis prod_cases3)
  have "abs_take (cons_abs c) = (Some l, (edit_line c, queued_lines ls))"
  proof -
    have "takeWhile (\<lambda>b. b \<noteq> 10) (l @ 10 # ys) = l" "dropWhile (\<lambda>b. b \<noteq> 10) (l @ 10 # ys) = 10 # ys" for ys
      using Cons.prems(3) by (auto simp: takeWhile_append dropWhile_append)
    then show ?thesis using Cons.prems(2) by (simp add: abs_take_def queued_lines_def)
  qed
  then have h: "cons_ok c1" "r = Some (length l)" "dst = blit (replicate n 0) 0 l" "committed c1 = queued_lines ls"
    using take_line_refines [OF Cons.prems(1) t] Cons.prems(3) by auto
  then show ?case using Cons.IH [of c1] Cons.prems t by (auto simp: blit_def)
qed (simp add: queued_lines_def)

text \<open>
  C29: lines typed at the console arrive one by one, complete and in order. However many lines are
  typed ahead of the reader, reading gives back exactly the typed lines without their terminators,
  and leaves nothing behind, and the scheduler is not touched, provided that every line consists of
  printable characters, has at most 256 of them (the size of the edit buffer, which drops the rest of
  a longer line) and fits into the reader's buffer, and all lines together fit into the ring.
\<close>

theorem console_lines:
  assumes "cons_ok c" and "edit_line c = []" and "committed c = []"
    and "\<forall>l \<in> set ls. length l \<le> n \<and> length l \<le> LINE_CAP \<and> (\<forall>b \<in> set l. printable b)" and "length (typed_lines ls) \<le> RING_CAP"
  shows "\<exists>c1 c2. feed_all (typed_lines ls) (c, s) = (c1, s) \<and> take_lines (length ls) n c1 = (ls, c2) \<and> committed c2 = []"
proof -
  have "length (queued_lines ls) = length (typed_lines ls)" by (simp add: queued_lines_def typed_lines_def length_concat comp_def)
  then obtain c1 where c1: "feed_all (typed_lines ls) (c, s) = (c1, s)" "cons_ok c1" "committed c1 = queued_lines ls"
    using feed_lines [of c ls s] assms by auto
  have "\<forall>l \<in> set ls. length l \<le> n \<and> 10 \<notin> set l" using assms(4) printable_plain by fastforce
  with take_queued [OF c1(2,3)] c1(1) show ?thesis by blast
qed

theorem console_lines_witness:
  "\<forall>s. \<exists>c1 c2. feed_all (typed_lines [[108, 115], []]) (Console_new, s) = (c1, s)
     \<and> take_lines (length [[108, 115], [] :: bytes]) 64 c1 = ([[108, 115], []], c2) \<and> committed c2 = []"
  by (intro allI console_lines)
    (simp_all add: cons_ok_def Console_new_def edit_line_def committed_def printable_def typed_lines_def LINE_CAP_def RING_CAP_def)

end
