(* ===== verification/UserPages.thy ===== *)
theory UserPages
  imports Fork
begin

text \<open>
  The pages of one address space as a program sees them. \<open>pages_ok\<close> says that the tables form a
  tree, that every mapped frame is allocated and no table, and that no frame is mapped twice; under
  it, mapping a freshly allocated frame and unmapping a page are exact in terms of \<open>vread\<close>, and an
  address space with frames of its own does not notice. The program loader and the program break
  rest on these lemmas.
\<close>

section \<open>Well-formed pages\<close>

abbreviation page_frame :: "machine \<Rightarrow> u64 \<Rightarrow> nat list \<Rightarrow> u64" where
  "page_frame s root q \<equiv> leaf s root q AND ADDR_MASK"

definition pages_ok :: "machine \<Rightarrow> u64 \<Rightarrow> bool" where
  "pages_ok s root \<longleftrightarrow> space_ok s root \<and> leaves_ok s root \<and> inj_on (page_frame s root) (mapped s root)"

text \<open>The frames of an address space: its tables and the pages it maps. Two spaces that share none do not interfere.\<close>

definition space_frames :: "machine \<Rightarrow> u64 \<Rightarrow> nat set" where
  "space_frames s root = table_frames s root \<union> (\<lambda>q. frame_no (page_frame s root q)) ` mapped s root"

lemma pages_okD:
  assumes "pages_ok s root"
  shows "space_ok s root" and "leaves_ok s root" and "frames_ok (fr s)" and "inj_on (page_frame s root) (mapped s root)"
  using assms by (auto simp: pages_ok_def space_ok_def)

lemma page_frameD:
  assumes "pages_ok s root" and "q \<in> mapped s root"
  shows "frame_addr (page_frame s root q)" and "is_used (frame_no (page_frame s root q)) (fr s)"
    and "frame_no (page_frame s root q) \<notin> table_frames s root"
  using assms by (auto simp: pages_ok_def leaves_ok_def)

lemma space_frames_used: "pages_ok s root \<Longrightarrow> f \<in> space_frames s root \<Longrightarrow> is_used f (fr s)"
  using table_used page_frameD(2) by (auto simp: space_frames_def pages_ok_def)

lemma mapped_vpath: "user_va v \<Longrightarrow> vpath v \<in> mapped s root \<longleftrightarrow> present (pte s root v)"
  using vpath_page by (auto simp: mapped_def pte_def)

lemma vpath_indices: "vpath v = vpath w \<longleftrightarrow> indices v = indices w"
  by (cases "indices v"; cases "indices w") (simp add: vpath_def)

text \<open>A change outside the frames of a space leaves the space as it was.\<close>

lemma pages_unseen:
  assumes P: "pages_ok s root" and f: "frames_ok (fr s')"
    and m: "\<And>x. x div 4096 \<in> space_frames s root \<Longrightarrow> pm s' x = pm s x"
    and u: "\<And>g. g \<in> space_frames s root \<Longrightarrow> is_used g (fr s')"
  shows "pages_ok s' root" and "user_va v \<Longrightarrow> vread s' root v = vread s root v"
    and "user_va v \<Longrightarrow> pte s' root v = pte s root v" and "space_frames s' root = space_frames s root"
proof -
  note D = pages_okD [OF P]
  have mt: "g \<in> table_frames s root \<Longrightarrow> x div 4096 = g \<Longrightarrow> pm s' x = pm s x" for g x using m by (auto simp: space_frames_def)
  have T: "page_path q \<Longrightarrow> leaf s' root q = leaf s root q" "table_frames s' root = table_frames s root" for q
    using tab_unseen(2,3) [OF D(1), of s'] mt by blast+
  have ok: "space_ok s' root" using space_unseen [OF D(1) mt f] u by (auto simp: space_frames_def)
  have l: "page_path q \<Longrightarrow> leaf s' root q = leaf s root q" for q by (rule T(1))
  have t: "table_frames s' root = table_frames s root" by (rule T(2))
  have M: "mapped s' root = mapped s root" using l by (auto simp: mapped_def)
  have lm: "q \<in> mapped s root \<Longrightarrow> leaf s' root q = leaf s root q" for q using l by (auto simp: mapped_def)
  have "is_used (frame_no (page_frame s root q)) (fr s')" if "q \<in> mapped s root" for q using u that by (auto simp: space_frames_def)
  then have "leaves_ok s' root" using D(2) lm by (auto simp: leaves_ok_def M t)
  moreover have "inj_on (page_frame s' root) (mapped s' root)" using D(4) lm by (auto simp: M inj_on_def)
  ultimately show "pages_ok s' root" using ok by (simp add: pages_ok_def)
  show pt: "user_va v \<Longrightarrow> pte s' root v = pte s root v" for v using l vpath_page by (simp add: pte_def)
  show "vread s' root v = vread s root v" if v: "user_va v"
  proof (cases "present (pte s root v)")
    case True
    then have q: "vpath v \<in> mapped s root" using mapped_vpath [OF v] by blast
    let ?a = "pte s root v AND ADDR_MASK"
    have "frame_addr ?a" using page_frameD(1) [OF P q] by (simp add: pte_def)
    then have "(unat ?a + unat (v AND 0xFFF)) div 4096 = frame_no ?a" using frame_byte_no [OF _ low_lt] by blast
    moreover have "frame_no ?a \<in> space_frames s root" using q by (auto simp: space_frames_def pte_def)
    ultimately have "pm s' (unat ?a + unat (v AND 0xFFF)) = pm s (unat ?a + unat (v AND 0xFFF))" using m by simp
    then show ?thesis using pt [OF v] by (simp add: vread_def)
  qed (simp add: vread_def pt [OF v])
  have "(\<lambda>q. frame_no (page_frame s' root q)) ` mapped s root = (\<lambda>q. frame_no (page_frame s root q)) ` mapped s root"
    using lm by (intro image_cong) auto
  then show "space_frames s' root = space_frames s root" by (simp add: space_frames_def M t)
qed

section \<open>Mapping a fresh frame\<close>

lemma map_fresh:
  assumes P: "pages_ok s root" and al: "alloc_frame (fr s) = (Some f, fr1)" and s1: "s1 = s\<lparr>fr := fr1, pm := m1\<rparr>"
    and m1: "\<forall>x. x div 4096 \<noteq> frame_no f \<longrightarrow> m1 x = pm s x" and u: "user_va va" and fl: "flags AND ADDR_MASK = 0"
    and m: "map_in_raw root va f flags s1 = Some s2"
  shows "pages_ok s2 root"
    and "user_va w \<Longrightarrow> vread s2 root w = (if indices w = indices va then Some (m1 (unat f + unat (w AND 0xFFF))) else vread s root w)"
    and "user_va w \<Longrightarrow> pte s2 root w = (if indices w = indices va then f OR flags OR PRESENT else pte s root w)"
    and "is_used g (fr s) \<Longrightarrow> g \<notin> table_frames s root \<Longrightarrow> x div 4096 = g \<Longrightarrow> pm s2 x = pm s x"
    and "is_used g (fr s) \<Longrightarrow> is_used g (fr s2)" and "g \<in> space_frames s2 root \<Longrightarrow> g \<in> space_frames s root \<or> \<not> is_used g (fr s)"
    and "cr3 s2 = cr3 s"
proof -
  note D = pages_okD [OF P]
  note A = alloc_frame_facts [OF D(3) al]
  have tn: "g \<in> table_frames s root \<Longrightarrow> g \<noteq> frame_no f" for g using table_used [OF D(1)] A(3) by auto
  have same: "x div 4096 \<noteq> frame_no f \<Longrightarrow> pm s1 x = pm s x" for x using m1 by (simp add: s1)
  have mt: "g \<in> table_frames s root \<Longrightarrow> x div 4096 = g \<Longrightarrow> pm s1 x = pm s x" for g x using same tn by blast
  have u1: "is_used g (fr s1) \<longleftrightarrow> g = frame_no f \<or> is_used g (fr s)" for g using A(4) by (simp add: s1)
  have ok1: "space_ok s1 root"
    by (rule space_unseen [OF D(1) mt]) (use A(1) u1 table_used [OF D(1)] in \<open>auto simp: s1\<close>)
  have T: "page_path q \<Longrightarrow> leaf s1 root q = leaf s root q" "table_frames s1 root = table_frames s root" for q
    using tab_unseen(2,3) [OF D(1), of s1] mt by blast+
  note R = map_in_raw_spec [OF ok1 u m]
  have K: "is_used g (fr s1) \<Longrightarrow> g \<notin> table_frames s root \<Longrightarrow> x div 4096 = g \<Longrightarrow> pm s2 x = pm s1 x"
    "is_used g (fr s1) \<Longrightarrow> is_used g (fr s2)"
    "g \<in> table_frames s2 root \<Longrightarrow> g \<in> table_frames s root \<or> \<not> is_used g (fr s1)" for g x
    using R(2) unfolding frames_kept_def T(2) by blast+
  define e where "e = (f AND ADDR_MASK) OR flags OR PRESENT"
  have e: "present e" "e AND ADDR_MASK = f" using leaf_entry_parts [OF fl, of f] masked_frame [OF A(2)] by (simp_all add: e_def)
  have l2: "page_path q \<Longrightarrow> leaf s2 root q = (if q = vpath va then e else leaf s root q)" for q using R(3) T(1) by (simp add: e_def)
  have M: "mapped s2 root = insert (vpath va) (mapped s root)" using l2 e(1) vpath_page [OF u] by (auto simp: mapped_def)
  have pf: "page_frame s2 root q = (if q = vpath va then f else page_frame s root q)" if "q \<in> mapped s2 root" for q
    using l2 that e(2) by (auto simp: mapped_def)
  have old: "frame_no (page_frame s root q) \<noteq> frame_no f" if "q \<in> mapped s root" for q using page_frameD(2) [OF P that] A(3) by auto
  have f2: "is_used (frame_no f) (fr s2)" "frame_no f \<notin> table_frames s2 root" using K(2,3) u1 tn by blast+
  have q2: "is_used (frame_no (page_frame s root q)) (fr s2)" "frame_no (page_frame s root q) \<notin> table_frames s2 root" if "q \<in> mapped s root" for q
    using page_frameD [OF P that] K(2,3) u1 by blast+
  have "leaves_ok s2 root"
    unfolding leaves_ok_def
  proof (intro ballI)
    fix q assume q: "q \<in> mapped s2 root"
    show "frame_addr (page_frame s2 root q) \<and> is_used (frame_no (page_frame s2 root q)) (fr s2)
        \<and> frame_no (page_frame s2 root q) \<notin> table_frames s2 root"
    proof (cases "q = vpath va")
      case True
      then show ?thesis using pf [OF q] A(2) f2 by simp
    next
      case False
      then have "q \<in> mapped s root" using q M by blast
      then show ?thesis using False pf [OF q] page_frameD(1) [OF P] q2 by auto
    qed
  qed
  moreover have "inj_on (page_frame s2 root) (mapped s2 root)"
  proof (rule inj_onI)
    fix q r assume h: "q \<in> mapped s2 root" "r \<in> mapped s2 root" "page_frame s2 root q = page_frame s2 root r"
    have e: "(if q = vpath va then f else page_frame s root q) = (if r = vpath va then f else page_frame s root r)"
      using h(3) unfolding pf [OF h(1)] pf [OF h(2)] .
    have "q \<noteq> vpath va \<Longrightarrow> q \<in> mapped s root" "r \<noteq> vpath va \<Longrightarrow> r \<in> mapped s root" using h(1,2) M by auto
    then show "q = r" using e old [of q] old [of r] inj_onD [OF D(4), of q r] by (auto split: if_splits)
  qed
  ultimately show "pages_ok s2 root" using R(1) by (simp add: pages_ok_def)
  show pte2: "pte s2 root w = (if indices w = indices va then f OR flags OR PRESENT else pte s root w)" if "user_va w" for w
    using l2 [OF vpath_page [OF that]] masked_frame [OF A(2)] by (simp add: pte_def vpath_indices e_def)
  show mem: "pm s2 x = pm s x" if "is_used g (fr s)" "g \<notin> table_frames s root" "x div 4096 = g" for g x
  proof -
    have "g \<noteq> frame_no f" using that(1) A(3) by auto
    then show ?thesis using K(1) [of g x] same [of x] that u1 by auto
  qed
  show "vread s2 root w = (if indices w = indices va then Some (m1 (unat f + unat (w AND 0xFFF))) else vread s root w)" if w: "user_va w" for w
  proof (cases "indices w = indices va")
    case True
    then have p: "pte s2 root w = e" using pte2 [OF w] masked_frame [OF A(2)] by (simp add: e_def)
    have "(unat f + unat (w AND 0xFFF)) div 4096 = frame_no f" using frame_byte_no [OF A(2) low_lt] .
    then have "pm s2 (unat f + unat (w AND 0xFFF)) = m1 (unat f + unat (w AND 0xFFF))" using K(1) u1 tn by (simp add: s1) blast
    then show ?thesis using True p e by (simp add: vread_def)
  next
    case False
    then have p: "pte s2 root w = pte s root w" using pte2 [OF w] by simp
    show ?thesis
    proof (cases "present (pte s root w)")
      case True
      then have q: "vpath w \<in> mapped s root" using mapped_vpath [OF w] by blast
      note F = page_frameD [OF P q, folded pte_def]
      have "pm s2 (unat (pte s root w AND ADDR_MASK) + unat (w AND 0xFFF)) = pm s (unat (pte s root w AND ADDR_MASK) + unat (w AND 0xFFF))"
        using mem [OF F(2,3) frame_byte_no [OF F(1) low_lt]] .
      then show ?thesis using False p by (simp add: vread_def)
    qed (use False p in \<open>simp add: vread_def\<close>)
  qed
  show "is_used g (fr s2)" if "is_used g (fr s)" for g using K(2) u1 that by blast
  show "g \<in> space_frames s root \<or> \<not> is_used g (fr s)" if g: "g \<in> space_frames s2 root" for g
  proof (cases "g \<in> table_frames s2 root")
    case True
    then show ?thesis using K(3) u1 by (auto simp: space_frames_def)
  next
    case False
    then obtain q where q: "q \<in> mapped s2 root" "g = frame_no (page_frame s2 root q)" using g by (auto simp: space_frames_def)
    then show ?thesis using pf [OF q(1)] M A(3) by (auto simp: space_frames_def split: if_splits)
  qed
  show "cr3 s2 = cr3 s" using R(2) by (simp add: frames_kept_def s1)
qed

section \<open>Unmapping a page and freeing its frame\<close>

lemma free_frame_facts:
  assumes "frames_ok s" and "frame_addr t" and "is_used (frame_no t) s"
  shows "frames_ok (free_frame t s)" and "is_used g (free_frame t s) \<longleftrightarrow> g \<noteq> frame_no t \<and> is_used g s"
    and "free_frames (free_frame t s) = insert (frame_no t) (free_frames s)"
proof -
  have f: "frame_no t < MAX_FRAMES" using assms(2) by (simp add: frame_addr_def)
  have "free_frame t s = adjust_free 1 (mark_free (frame_no t) s)"
    using assms f by (simp add: free_frame_def Let_def frame_addr_def frame_no_def FRAME_SIZE_def unat_div word_le_nat_alt word_less_nat_alt)
  then show "frames_ok (free_frame t s)" "is_used g (free_frame t s) \<longleftrightarrow> g \<noteq> frame_no t \<and> is_used g s"
    "free_frames (free_frame t s) = insert (frame_no t) (free_frames s)"
    using give_frame [OF assms(1) f assms(3)] by simp_all
qed

lemma or_page_offset: "va AND 0xFFF = 0 \<Longrightarrow> x OR (va AND 0xFFF :: u64) = x"
  by simp

lemma unmap_free:
  assumes P: "pages_ok s root" and c: "root = current_pml4 s" and u: "user_va va" "va AND 0xFFF = 0" and t: "translate va s = Some phys"
  defines "s' \<equiv> release_frame phys (unmap va s)"
  shows "pages_ok s' root"
    and "user_va w \<Longrightarrow> vread s' root w = (if indices w = indices va then None else vread s root w)"
    and "user_va w \<Longrightarrow> pte s' root w = (if indices w = indices va then 0 else pte s root w)"
    and "is_used g (fr s) \<Longrightarrow> g \<notin> table_frames s root \<Longrightarrow> x div 4096 = g \<Longrightarrow> pm s' x = pm s x"
    and "is_used g (fr s') \<longleftrightarrow> g \<noteq> frame_no phys \<and> is_used g (fr s)" and "frame_no phys \<in> space_frames s root"
    and "cr3 s' = cr3 s" and "phys = page_frame s root (vpath va)" and "free_frames (fr s') = insert (frame_no phys) (free_frames (fr s))"
    and "space_frames s' root \<subseteq> space_frames s root"
proof -
  note D = pages_okD [OF P]
  have pr: "present (pte s root va)" and ph: "phys = pte s root va AND ADDR_MASK"
    using t u(2) unfolding translate_pte c by (auto split: if_splits)
  have q: "vpath va \<in> mapped s root" using mapped_vpath [OF u(1)] pr by blast
  note F = page_frameD [OF P q, folded pte_def, folded ph]
  obtain pt where pt: "tab s root (butlast (vpath va)) = Some pt"
    using pr by (auto simp: pte_def leaf_def present_def split: option.splits)
  define s1 where "s1 = s\<lparr>pm := wr64 (pm s) (unat pt + 8 * last (vpath va)) 0\<rparr>"
  have un: "unmap va s = s1" using pt by (simp add: unmap_pte c s1_def)
  note W = leaf_write [OF D(1) vpath_page [OF u(1)] pt s1_def]
  have K: "is_used g (fr s) \<Longrightarrow> g \<notin> table_frames s root \<Longrightarrow> x div 4096 = g \<Longrightarrow> pm s1 x = pm s x" for g x
    using W(2) unfolding frames_kept_def by blast
  have T1: "table_frames s1 root = table_frames s root"
  proof -
    have "table_frames s1 root \<subseteq> table_frames s root"
    proof
      fix g assume g: "g \<in> table_frames s1 root"
      then have "is_used g (fr s)" using table_used [OF W(1)] by (simp add: s1_def)
      then show "g \<in> table_frames s root" using W(2) g unfolding frames_kept_def by blast
    qed
    then show ?thesis using W(2) unfolding frames_kept_def by blast
  qed
  have l1: "page_path r \<Longrightarrow> leaf s1 root r = (if r = vpath va then 0 else leaf s root r)" for r by (rule W(3))
  note FF = free_frame_facts [OF D(3) F(1,2)]
  have s': "s' = s1\<lparr>fr := free_frame phys (fr s)\<rparr>" by (simp add: s'_def un release_frame_def s1_def)
  have ok: "space_ok s' root"
  proof (rule space_unseen [OF W(1)])
    show "is_used g (fr s')" if "g \<in> table_frames s1 root" for g
      using that F(3) T1 table_used [OF D(1)] FF(2) by (auto simp: s')
  qed (use FF(1) in \<open>simp_all add: s'\<close>)
  have T: "table_frames s' root = table_frames s root" "\<And>r. page_path r \<Longrightarrow> leaf s' root r = leaf s1 root r"
    using tab_unseen(2,3) [OF W(1), of s'] T1 by (simp_all add: s')
  have l: "page_path r \<Longrightarrow> leaf s' root r = (if r = vpath va then 0 else leaf s root r)" for r using T(2) l1 by simp
  have M: "mapped s' root = mapped s root - {vpath va}" using l by (auto simp: mapped_def present_def split: if_splits)
  have lm: "r \<in> mapped s' root \<Longrightarrow> leaf s' root r = leaf s root r" for r using l M by (auto simp: mapped_def)
  have nf: "frame_no (page_frame s root r) \<noteq> frame_no phys" if "r \<in> mapped s root" "r \<noteq> vpath va" for r
  proof
    assume "frame_no (page_frame s root r) = frame_no phys"
    then have "page_frame s root r = page_frame s root (vpath va)"
      using frame_no_inj page_frameD(1) [OF P that(1)] F(1) ph unfolding pte_def by blast
    then show False using inj_onD [OF D(4) _ that(1) q] that(2) by blast
  qed
  have "leaves_ok s' root"
    unfolding leaves_ok_def T(1) using lm M page_frameD [OF P] nf FF(2) by (auto simp: s')
  moreover have "inj_on (page_frame s' root) (mapped s' root)" using D(4) lm M by (auto simp: inj_on_def)
  ultimately show "pages_ok s' root" using ok by (simp add: pages_ok_def)
  show p': "user_va w \<Longrightarrow> pte s' root w = (if indices w = indices va then 0 else pte s root w)" for w
    using l [OF vpath_page] by (simp add: pte_def vpath_indices)
  show mem: "is_used g (fr s) \<Longrightarrow> g \<notin> table_frames s root \<Longrightarrow> x div 4096 = g \<Longrightarrow> pm s' x = pm s x" for g x using K by (simp add: s')
  show "vread s' root w = (if indices w = indices va then None else vread s root w)" if w: "user_va w" for w
  proof (cases "present (pte s root w)")
    case True
    then have qw: "vpath w \<in> mapped s root" using mapped_vpath [OF w] by blast
    note Fw = page_frameD [OF P qw, folded pte_def]
    have "pm s' (unat (pte s root w AND ADDR_MASK) + unat (w AND 0xFFF)) = pm s (unat (pte s root w AND ADDR_MASK) + unat (w AND 0xFFF))"
      using mem [OF Fw(2,3) frame_byte_no [OF Fw(1) low_lt]] .
    then show ?thesis using p' [OF w] by (simp add: vread_def present_def)
  qed (use p' [OF w] in \<open>simp add: vread_def present_def\<close>)
  show "is_used g (fr s') \<longleftrightarrow> g \<noteq> frame_no phys \<and> is_used g (fr s)" using FF(2) by (simp add: s')
  show "frame_no phys \<in> space_frames s root" using q ph by (auto simp: space_frames_def pte_def)
  show "cr3 s' = cr3 s" by (simp add: s' s1_def)
  show "phys = page_frame s root (vpath va)" using ph by (simp add: pte_def)
  show "free_frames (fr s') = insert (frame_no phys) (free_frames (fr s))" using FF(3) by (simp add: s')
  show "space_frames s' root \<subseteq> space_frames s root" using lm M T(1) by (auto simp: space_frames_def)
qed

text \<open>A page that is not mapped is left alone by \<open>unmap\<close>.\<close>

lemma unmap_absent:
  assumes "pages_ok s root" and "root = current_pml4 s" and "user_va va" and "translate va s = None"
  shows "vread s root va = None"
  using assms by (auto simp: translate_pte vread_def)

end
