(* ===== verification/Elf.thy ===== *)
theory Elf
  imports UserPages Signals
begin

text \<open>
  The program loader: parsing and mapping of ELF images, \<open>kernel/src/elf.rs\<close>, and the Frame system
  \<open>ElfLoader\<close> (\<open>frame/elf_loader.frs\<close>) that runs its phases. The kernel is built with overflow
  checks, so an addition that leaves 64 bits panics (\<open>None\<close>). The static \<open>ELF\<close> is the record
  \<open>elf_state\<close>; its array of tracked pages is the list of its used entries.
\<close>

section \<open>Image and headers\<close>

definition PAGE :: u64 where "PAGE = 4096"
definition USER_STACK_VA :: u64 where "USER_STACK_VA = 0x20000000"
definition USER_STACK_PAGES :: nat where "USER_STACK_PAGES = 32"
definition MAX_TRACKED :: nat where "MAX_TRACKED = 512"
definition SIGTRAMP_CODE :: bytes where "SIGTRAMP_CODE = [0xB8, 0x01, 0x00, 0x00, 0x00, 0x0F, 0x05, 0x0F, 0x0B]"

definition checked_add :: "u64 \<Rightarrow> u64 \<Rightarrow> u64 option" where
  "checked_add a b = (if unat a + unat b < 2 ^ 64 then Some (a + b) else None)"

record elf_header =
  h_phoff :: u64
  h_phentsize :: u16
  h_phnum :: u16

record elf_state =
  el_bytes :: bytes
  el_pml4 :: u64
  el_entry :: u64
  el_stack_top :: u64
  el_mapped :: "(u64 \<times> u64) list"

lemma unat_add_checked: "unat a + unat b < 2 ^ 64 \<Longrightarrow> unat (a + b :: u64) = unat a + unat b"
  by (simp add: unat_word_ariths)

lemma checked_add_Some: "checked_add a b = Some c \<longleftrightarrow> unat a + unat b < 2 ^ 64 \<and> c = a + b"
  by (auto simp: checked_add_def)

text \<open>The bounds-checked readers; the range \<open>off..off + n\<close> is formed before it is tried.\<close>

definition get_range :: "bytes \<Rightarrow> u64 \<Rightarrow> u64 \<Rightarrow> bytes option option" where
  "get_range b off n = do { e \<leftarrow> checked_add off n; Some (sub_slice b (unat off) (unat e)) }"

definition rd_u16 :: "bytes \<Rightarrow> u64 \<Rightarrow> u16 option option" where
  "rd_u16 b off = map_option (map_option (\<lambda>s. u16_from_le (s ! 0) (s ! 1))) (get_range b off 2)"

definition rd_u32 :: "bytes \<Rightarrow> u64 \<Rightarrow> u32 option option" where
  "rd_u32 b off = map_option (map_option (\<lambda>s. u32_from_le (s ! 0) (s ! 1) (s ! 2) (s ! 3))) (get_range b off 4)"

definition rd_u64 :: "bytes \<Rightarrow> u64 \<Rightarrow> u64 option option" where
  "rd_u64 b off = map_option (map_option u64_from_le) (get_range b off 8)"

definition prepare :: "bytes \<Rightarrow> u64 \<Rightarrow> elf_state \<Rightarrow> elf_state" where
  "prepare bs pml4 e = e\<lparr>el_bytes := bs, el_pml4 := pml4, el_entry := 0, el_stack_top := 0, el_mapped := []\<rparr>"

definition read_header :: "elf_state \<Rightarrow> (elf_header option \<times> elf_state) option" where
  "read_header e = do {
     let b = el_bytes e;
     en \<leftarrow> rd_u64 b 24; phoff \<leftarrow> rd_u64 b 32; phentsize \<leftarrow> rd_u16 b 54; phnum \<leftarrow> rd_u16 b 56;
     Some (case (en, phoff, phentsize, phnum) of
        (Some en, Some phoff, Some phentsize, Some phnum) \<Rightarrow>
          (Some \<lparr>h_phoff = phoff, h_phentsize = phentsize, h_phnum = phnum\<rparr>, e\<lparr>el_entry := en\<rparr>)
      | _ \<Rightarrow> (None, e)) }"

definition validate_header :: "elf_header \<Rightarrow> elf_state \<Rightarrow> bool option" where
  "validate_header hdr e = (let b = el_bytes e in
     if length b < 64 \<or> take 4 b \<noteq> [0x7F, 0x45, 0x4C, 0x46] then Some False
     else if b ! 4 \<noteq> 2 \<or> b ! 5 \<noteq> 1 then Some False
     else do {
       et \<leftarrow> rd_u16 b 16; em \<leftarrow> rd_u16 b 18;
       if et \<noteq> Some 2 \<or> em \<noteq> Some 0x3E then Some False
       else do {
         ph_end \<leftarrow> checked_add (h_phoff hdr) (ucast (h_phnum hdr) * ucast (h_phentsize hdr));
         Some (unat ph_end \<le> length b \<and> 56 \<le> h_phentsize hdr) } })"

section \<open>Mapping segments\<close>

record phdr =
  p_type :: u32
  p_flags :: u32
  p_offset :: u64
  p_vaddr :: u64
  p_filesz :: u64
  p_memsz :: u64

definition read_phdr :: "bytes \<Rightarrow> u64 \<Rightarrow> phdr option option" where
  "read_phdr b off = do {
     t \<leftarrow> rd_u32 b off;
     a \<leftarrow> checked_add off 4; fl \<leftarrow> rd_u32 b a;
     a \<leftarrow> checked_add off 8; po \<leftarrow> rd_u64 b a;
     a \<leftarrow> checked_add off 16; va \<leftarrow> rd_u64 b a;
     a \<leftarrow> checked_add off 32; fs \<leftarrow> rd_u64 b a;
     a \<leftarrow> checked_add off 40; ms \<leftarrow> rd_u64 b a;
     Some (case (t, fl, po, va, fs, ms) of
        (Some t, Some fl, Some po, Some va, Some fs, Some ms) \<Rightarrow>
          Some \<lparr>p_type = t, p_flags = fl, p_offset = po, p_vaddr = va, p_filesz = fs, p_memsz = ms\<rparr>
      | _ \<Rightarrow> None) }"

definition track :: "u64 \<Rightarrow> u64 \<Rightarrow> elf_state \<Rightarrow> elf_state" where
  "track va frame e = (if length (el_mapped e) < MAX_TRACKED then e\<lparr>el_mapped := el_mapped e @ [(va, frame)]\<rparr> else e)"

text \<open>
  One page of a segment: the frame is zeroed and receives the file bytes that overlap the page.
  The inner \<open>None\<close> is a range outside the file.
\<close>

definition page_content :: "phdr \<Rightarrow> u64 \<Rightarrow> u64 \<Rightarrow> bytes \<Rightarrow> u64 \<Rightarrow> mem \<Rightarrow> mem option option" where
  "page_content ph file_end va b frame m = do {
     let m = zero_frame frame m;
     page_end \<leftarrow> checked_add va PAGE;
     let content_start = max va (p_vaddr ph);
     let content_end = min page_end file_end;
     if content_start < content_end
     then do {
       let dst_in_page = unat (content_start - va);
       src_off \<leftarrow> checked_add (p_offset ph) (content_start - p_vaddr ph);
       src \<leftarrow> get_range b src_off (content_end - content_start);
       Some (map_option (mstore m (unat frame + dst_in_page)) src) }
     else Some (Some m) }"

function map_pages :: "phdr \<Rightarrow> u64 \<Rightarrow> u64 \<Rightarrow> map_flags \<Rightarrow> u64 \<Rightarrow> elf_state \<Rightarrow> machine \<Rightarrow> (bool \<times> elf_state \<times> machine) option" where
  "map_pages ph file_end seg_end fl va e s =
     (if va < seg_end
      then (case alloc_frame (fr s) of
          (None, fr') \<Rightarrow> Some (False, e, s\<lparr>fr := fr'\<rparr>)
        | (Some frame, fr') \<Rightarrow>
            (case page_content ph file_end va (el_bytes e) frame (pm s) of
               None \<Rightarrow> None
             | Some None \<Rightarrow> Some (False, e, s\<lparr>fr := free_frame frame fr', pm := zero_frame frame (pm s)\<rparr>)
             | Some (Some m) \<Rightarrow>
                 (case map_in (el_pml4 e) va frame fl (s\<lparr>fr := fr', pm := m\<rparr>) of
                    None \<Rightarrow> None
                  | Some s \<Rightarrow> if unat va + 4096 < 2 ^ 64 then map_pages ph file_end seg_end fl (va + PAGE) (track va frame e) s else None)))
      else Some (True, e, s))"
  by auto
termination
proof (relation "measure (\<lambda>(ph, file_end, seg_end, fl, va, e, s). 2 ^ 64 - unat va)", goal_cases)
  case 2
  then show ?case using unat_add_checked [of _ PAGE] by (simp add: PAGE_def)
qed simp

declare map_pages.simps [simp del]

definition map_one_segment :: "phdr \<Rightarrow> map_flags \<Rightarrow> elf_state \<Rightarrow> machine \<Rightarrow> (bool \<times> elf_state \<times> machine) option" where
  "map_one_segment ph fl e s = do {
     seg_end \<leftarrow> checked_add (p_vaddr ph) (p_memsz ph);
     file_end \<leftarrow> checked_add (p_vaddr ph) (p_filesz ph);
     map_pages ph file_end seg_end fl (p_vaddr ph AND NOT (PAGE - 1)) e s }"

definition seg_flags :: "phdr \<Rightarrow> map_flags" where
  "seg_flags ph = (if p_flags ph AND 2 \<noteq> 0 then MF_USER OR MF_WRITABLE else MF_USER)"

fun map_headers :: "elf_header \<Rightarrow> nat list \<Rightarrow> elf_state \<Rightarrow> machine \<Rightarrow> (bool \<times> elf_state \<times> machine) option" where
  "map_headers hdr [] e s = Some (True, e, s)"
| "map_headers hdr (i # is) e s = do {
     off \<leftarrow> checked_add (h_phoff hdr) (of_nat i * ucast (h_phentsize hdr));
     r \<leftarrow> read_phdr (el_bytes e) off;
     case r of
       None \<Rightarrow> Some (False, e, s)
     | Some ph \<Rightarrow>
         if p_type ph \<noteq> 1 then map_headers hdr is e s
         else do {
           (ok, e, s) \<leftarrow> map_one_segment ph (seg_flags ph) e s;
           if \<not> ok then Some (False, e, s) else map_headers hdr is e s } }"

definition map_segments :: "elf_header \<Rightarrow> elf_state \<Rightarrow> machine \<Rightarrow> (bool \<times> elf_state \<times> machine) option" where
  "map_segments hdr = map_headers hdr [0..<unat (h_phnum hdr)]"

section \<open>Stack, trampoline, roll-back\<close>

fun stack_pages :: "nat list \<Rightarrow> elf_state \<Rightarrow> machine \<Rightarrow> (bool \<times> elf_state \<times> machine) option" where
  "stack_pages [] e s = Some (True, e, s)"
| "stack_pages (i # is) e s =
     (let va = USER_STACK_VA + of_nat i * PAGE
      in case alloc_frame (fr s) of
           (None, fr') \<Rightarrow> Some (False, e, s\<lparr>fr := fr'\<rparr>)
         | (Some frame, fr') \<Rightarrow> do {
             s \<leftarrow> map_in (el_pml4 e) va frame (MF_USER OR MF_WRITABLE) (s\<lparr>fr := fr', pm := zero_frame frame (pm s)\<rparr>);
             stack_pages is (track va frame e) s })"

definition build_stack :: "elf_state \<Rightarrow> machine \<Rightarrow> (bool \<times> elf_state \<times> machine) option" where
  "build_stack e s = do {
     (ok, e, s) \<leftarrow> stack_pages [0..<USER_STACK_PAGES] e s;
     if \<not> ok then Some (False, e, s)
     else let e = e\<lparr>el_stack_top := USER_STACK_VA + of_nat USER_STACK_PAGES * PAGE - 16\<rparr>
          in case alloc_frame (fr s) of
               (None, fr') \<Rightarrow> Some (False, e, s\<lparr>fr := fr'\<rparr>)
             | (Some tramp, fr') \<Rightarrow> do {
                 s \<leftarrow> map_in (el_pml4 e) SIGTRAMP_VA tramp MF_USER
                        (s\<lparr>fr := fr', pm := mstore (zero_frame tramp (pm s)) (unat tramp) SIGTRAMP_CODE\<rparr>);
                 Some (True, track SIGTRAMP_VA tramp e, s) } }"

definition entry_va :: "elf_state \<Rightarrow> u64" where
  "entry_va e = el_entry e"

definition stack_top :: "elf_state \<Rightarrow> u64" where
  "stack_top e = el_stack_top e"

text \<open>\<open>cleanup\<close> unmaps in the address space that is active, as \<open>mmu().unmap\<close> does.\<close>

definition cleanup :: "elf_state \<Rightarrow> machine \<Rightarrow> elf_state \<times> machine" where
  "cleanup e s = (e\<lparr>el_mapped := []\<rparr>, fold (\<lambda>(va, frame) s. release_frame frame (unmap va s)) (el_mapped e) s)"

section \<open>The Frame system ElfLoader\<close>

text \<open>The states in which a load settles; every other state leaves itself on entry.\<close>

datatype elf_loader = LDone | LFailed (el_error: string)

definition is_done :: "elf_loader \<Rightarrow> bool" where "is_done l \<longleftrightarrow> l = LDone"
definition is_failed :: "elf_loader \<Rightarrow> bool" where "is_failed l \<longleftrightarrow> l \<noteq> LDone"

definition enter_failed :: "string \<Rightarrow> elf_state \<Rightarrow> machine \<Rightarrow> elf_loader \<times> elf_state \<times> machine" where
  "enter_failed err e s = (LFailed err, cleanup e s)"

definition enter_building :: "elf_state \<Rightarrow> machine \<Rightarrow> (elf_loader \<times> elf_state \<times> machine) option" where
  "enter_building e s = do {
     (ok, e, s) \<leftarrow> build_stack e s;
     Some (if ok then (LDone, e, s) else enter_failed ''user stack setup failed'' e s) }"

definition enter_mapping :: "elf_header \<Rightarrow> elf_state \<Rightarrow> machine \<Rightarrow> (elf_loader \<times> elf_state \<times> machine) option" where
  "enter_mapping hdr e s = do {
     (ok, e, s) \<leftarrow> map_segments hdr e s;
     if ok then enter_building e s else Some (enter_failed ''segment mapping failed'' e s) }"

definition enter_validating :: "elf_header \<Rightarrow> elf_state \<Rightarrow> machine \<Rightarrow> (elf_loader \<times> elf_state \<times> machine) option" where
  "enter_validating hdr e s = do {
     ok \<leftarrow> validate_header hdr e;
     if ok then enter_mapping hdr e s else Some (enter_failed ''not a valid x86-64 executable'' e s) }"

definition ElfLoader_create :: "elf_state \<Rightarrow> machine \<Rightarrow> (elf_loader \<times> elf_state \<times> machine) option" where
  "ElfLoader_create e s = do {
     (hdr, e) \<leftarrow> read_header e;
     case hdr of
       Some hdr \<Rightarrow> enter_validating hdr e s
     | None \<Rightarrow> Some (enter_failed ''truncated ELF header'' e s) }"

end
