(* ===== verification/ElfInv.thy ===== *)
theory ElfInv
  imports Elf
begin

text \<open>
  Correctness of the program loader: a program that loads finds its image, its stack and the
  signal trampoline in its address space and nothing else, and the address space of the caller is
  not touched; and what goes wrong when a load fails half way.
\<close>

section \<open>Pages as numbers\<close>

definition low :: "u64 \<Rightarrow> bool" where
  "low v \<longleftrightarrow> unat v < 2 ^ 47"

lemma unat_index: "unat (drop_bit k v AND 0x1FF :: u64) = unat v div 2 ^ k mod 512"
proof -
  have "drop_bit k v AND 0x1FF = take_bit 9 (drop_bit k v)" by (simp add: take_bit_eq_mask mask_eq_exp_minus_1)
  then have "unat (drop_bit k v AND 0x1FF) = take_bit 9 (unat (drop_bit k v))" by (simp add: unsigned_take_bit_eq)
  moreover have "unat (drop_bit k v) = unat v div 2 ^ k" unfolding drop_bit_eq_div [symmetric] by (rule unat_drop_bit_eq)
  ultimately show ?thesis unfolding take_bit_eq_mod by simp
qed

lemma low_user: "low v \<Longrightarrow> user_va v"
proof -
  assume "low v"
  then have "unat v div 2 ^ 39 < 256" by (simp add: low_def div_less_iff_less_mult)
  then show ?thesis by (simp add: user_va_def vpath_def indices_def unat_index)
qed

lemma indices_nat:
  "indices v = indices w \<longleftrightarrow> (\<forall>k \<in> {39, 30, 21, 12}. unat v div 2 ^ k mod 512 = unat w div 2 ^ k mod 512)"
  unfolding indices_def prod.inject word_unat_eq_iff unat_index by simp

lemma digits_512: "n < 512 * 512 * 512 * 512 \<Longrightarrow> n = n mod 512 + 512 * (n div 512 mod 512 + 512 * (n div 512 div 512 mod 512 + 512 * (n div 512 div 512 div 512)))" for n :: nat
  by (metis add.commute div_mult_mod_eq mult.commute)

lemma low_indices:
  assumes "low v" and "low w"
  shows "indices v = indices w \<longleftrightarrow> unat v div 4096 = unat w div 4096"
proof
  assume i: "indices v = indices w"
  define a b where "a = unat v div 4096" and "b = unat w div 4096"
  have e: "unat x div 2 ^ 12 = unat x div 4096" "unat x div 2 ^ 21 = unat x div 4096 div 512" "unat x div 2 ^ 30 = unat x div 4096 div 512 div 512"
    "unat x div 2 ^ 39 = unat x div 4096 div 512 div 512 div 512" for x :: u64
    by (simp_all add: div_mult2_eq [symmetric])
  have i': "a mod 512 = b mod 512" "a div 512 mod 512 = b div 512 mod 512" "a div 512 div 512 mod 512 = b div 512 div 512 mod 512"
    "a div 512 div 512 div 512 mod 512 = b div 512 div 512 div 512 mod 512"
    using i unfolding indices_nat a_def b_def by (simp_all only: ball_simps insert_iff e simp_thms)
  have l: "a < 512 * 512 * 512 * 256" "b < 512 * 512 * 512 * 256"
    using assms by (simp_all add: a_def b_def low_def div_less_iff_less_mult)
  then have "a div 512 div 512 div 512 < 512" "b div 512 div 512 div 512 < 512" by (simp_all add: div_less_iff_less_mult)
  then have t: "a div 512 div 512 div 512 = b div 512 div 512 div 512" using i'(4) by simp
  have "a = b" using digits_512 [of a] digits_512 [of b] i'(1,2,3) t l by simp
  then show "unat v div 4096 = unat w div 4096" by (simp add: a_def b_def)
next
  assume p: "unat v div 4096 = unat w div 4096"
  have "unat v div 2 ^ k = unat w div 2 ^ k" if "k \<in> {39, 30, 21, 12}" for k
  proof -
    have "(2 :: nat) ^ k = 4096 * 2 ^ (k - 12)" using that by auto
    then show ?thesis using p by (simp add: div_mult2_eq)
  qed
  then show "indices v = indices w" by (simp add: indices_nat)
qed

lemma unat_low12: "unat (v AND 0xFFF :: u64) = unat v mod 4096"
proof -
  have "v AND 0xFFF = take_bit 12 v" by (simp add: take_bit_eq_mask mask_eq_exp_minus_1)
  then have "unat (v AND 0xFFF) = take_bit 12 (unat v)" by (simp add: unsigned_take_bit_eq)
  then show ?thesis by (simp add: take_bit_eq_mod)
qed

lemma unat_page_start: "unat (v AND NOT (PAGE - 1)) = unat v div 4096 * 4096"
proof -
  have "v AND NOT (PAGE - 1) = push_bit 12 (drop_bit 12 v)"
  proof (rule bit_word_eqI)
    have "PAGE - 1 = mask 12" by (simp add: PAGE_def mask_eq_exp_minus_1)
    then show "bit (v AND NOT (PAGE - 1)) n = bit (push_bit 12 (drop_bit 12 v)) n" if "n < LENGTH(64)" for n
      using that by (auto simp: bit_simps)
  qed
  moreover have "unat (push_bit 12 (drop_bit 12 v)) = unat v div 4096 * 4096"
  proof -
    have "unat v div 4096 * 4096 < 2 ^ 64" using unat_lt2p [of v] by (auto intro: order_le_less_trans [OF div_times_less_eq_dividend])
    then show ?thesis
      by (simp add: push_bit_eq_mult unat_word_ariths unsigned_drop_bit_eq drop_bit_eq_div take_bit_nat_eq_self mult.commute)
  qed
  ultimately show ?thesis by simp
qed

section \<open>The invariant of a load\<close>

text \<open>
  \<open>s0\<close> is the machine right after the new root table was made, \<open>img\<close> what the new space shows so
  far. Frames that were in use before are kept, and the pages tracked for the roll-back are new.
\<close>

definition load_inv :: "machine \<Rightarrow> u64 \<Rightarrow> (nat \<Rightarrow> u8 option) \<Rightarrow> elf_state \<Rightarrow> machine \<Rightarrow> bool" where
  "load_inv s0 root img e s \<longleftrightarrow>
     pages_ok s root \<and> el_pml4 e = root \<and> cr3 s = cr3 s0 \<and> (\<forall>v. low v \<longrightarrow> vread s root v = img (unat v))
     \<and> (\<forall>g. is_used g (fr s0) \<longrightarrow> is_used g (fr s))
     \<and> (\<forall>x. is_used (x div 4096) (fr s0) \<longrightarrow> x div 4096 \<noteq> frame_no root \<longrightarrow> pm s x = pm s0 x)
     \<and> (\<forall>g \<in> space_frames s root. is_used g (fr s0) \<longrightarrow> g = frame_no root)
     \<and> (\<forall>(va, f) \<in> set (el_mapped e). low va \<and> \<not> is_used (frame_no f) (fr s0))"

definition free_left :: "machine \<Rightarrow> nat" where
  "free_left s = card (free_frames (fr s) - {0})"

text \<open>One fresh page.\<close>

lemma load_step:
  assumes I: "load_inv s0 root img e s" and al: "alloc_frame (fr s) = (Some f, fr1)" and l: "low va"
    and m1: "\<forall>x. x div 4096 \<noteq> frame_no f \<longrightarrow> m1 x = pm s x" and m: "map_in root va f fl (s\<lparr>fr := fr1, pm := m1\<rparr>) = Some s2"
  shows "load_inv s0 root (\<lambda>x. if x div 4096 = unat va div 4096 then Some (m1 (unat f + x mod 4096)) else img x) (track va f e) s2"
proof -
  have P: "pages_ok s root" using I by (simp add: load_inv_def)
  note F = map_fresh [OF P al refl m1 low_user [OF l] flags_pte_mask m [unfolded map_in_def]]
  note A = alloc_frame_facts [OF pages_okD(3) [OF P] al]
  have v: "vread s2 root w = (if unat w div 4096 = unat va div 4096 then Some (m1 (unat f + unat w mod 4096)) else img (unat w))" if "low w" for w
    using F(2) [OF low_user [OF that]] low_indices [OF that l] unat_low12 [of w] I that by (simp add: load_inv_def)
  have t: "g \<notin> table_frames s root" if "is_used g (fr s0)" "g \<noteq> frame_no root" for g
    using I that by (auto simp: load_inv_def space_frames_def)
  have mem: "pm s2 x = pm s0 x" if "is_used (x div 4096) (fr s0)" "x div 4096 \<noteq> frame_no root" for x
    using F(4) [OF _ t [OF that] refl] I that by (auto simp: load_inv_def)
  have tr: "\<forall>(va, f) \<in> set (el_mapped (track va f e)). low va \<and> \<not> is_used (frame_no f) (fr s0)" "el_pml4 (track va f e) = root"
    using I l A(3) by (auto simp: track_def load_inv_def)
  have fresh: "g = frame_no root" if "g \<in> space_frames s2 root" "is_used g (fr s0)" for g
    using F(6) [OF that(1)] I that(2) unfolding load_inv_def by blast
  have "cr3 s2 = cr3 s0" "\<And>g. is_used g (fr s0) \<Longrightarrow> is_used g (fr s2)" using F(5,7) I unfolding load_inv_def by auto
  then show ?thesis unfolding load_inv_def using F(1) v mem tr fresh by blast
qed

text \<open>Room for a page: one frame for it and three for tables.\<close>

lemma load_room:
  assumes I: "load_inv s0 root img e s" and n: "4 + n \<le> free_left s"
  obtains f fr1 where "alloc_frame (fr s) = (Some f, fr1)" and "frame_addr f"
    and "\<And>m1 va fl. \<exists>s2. map_in root va f fl (s\<lparr>fr := fr1, pm := m1\<rparr>) = Some s2 \<and> n \<le> free_left s2"
proof -
  have fok: "frames_ok (fr s)" using I by (simp add: load_inv_def pages_ok_def space_ok_def)
  have "card (free_frames (fr s) - {0}) \<noteq> 0" using n unfolding free_left_def by linarith
  then have "free_frames (fr s) - {0} \<noteq> {}" by (metis card.empty)
  then have "\<not> free_frames (fr s) \<subseteq> {0}" by blast
  then obtain f fr1 where al: "alloc_frame (fr s) = (Some f, fr1)"
    by (cases rule: alloc_frame_from_cases [OF fok, of 1]) (force simp: alloc_frame_def free_frames_def Suc_le_eq)+
  note A = alloc_frame_facts [OF fok al]
  have "free_frames fr1 - {0} = (free_frames (fr s) - {0}) - {frame_no f}" using A(5) by auto
  moreover have "card (free_frames (fr s) - {0}) \<le> card ((free_frames (fr s) - {0}) - {frame_no f}) + 1"
    using card_Suc_Diff1 [of "free_frames (fr s) - {0}" "frame_no f"]
    by (cases "frame_no f \<in> free_frames (fr s) - {0}") simp_all
  ultimately have c: "3 + n \<le> card (free_frames fr1 - {0})" using n by (simp add: free_left_def)
  have "\<exists>s2. map_in root va f fl (s\<lparr>fr := fr1, pm := m1\<rparr>) = Some s2 \<and> n \<le> free_left s2" for m1 va fl
    using map_in_raw_free [of "s\<lparr>fr := fr1, pm := m1\<rparr>" n root va f "flags_to_pte fl"] A(1) c by (auto simp: map_in_def free_left_def)
  then show ?thesis using that al A(2) by blast
qed

lemma load_inv_states:
  assumes "load_inv s0 root img e s"
  shows "load_inv s0 root img (e\<lparr>el_stack_top := t\<rparr>) s" and "load_inv s0 root img (e\<lparr>el_entry := t\<rparr>) s"
  using assms by (simp_all add: load_inv_def)

lemma track_keeps [simp]:
  "el_bytes (track va f e) = el_bytes e" "el_pml4 (track va f e) = el_pml4 e" "el_entry (track va f e) = el_entry e"
  "el_stack_top (track va f e) = el_stack_top e"
  by (simp_all add: track_def)

section \<open>The contents of a page\<close>

definition seg_byte :: "bytes \<Rightarrow> phdr \<Rightarrow> nat \<Rightarrow> u8" where
  "seg_byte b ph x = (if unat (p_vaddr ph) \<le> x \<and> x < unat (p_vaddr ph) + unat (p_filesz ph)
     then b ! (unat (p_offset ph) + (x - unat (p_vaddr ph))) else 0)"

definition covers :: "phdr \<Rightarrow> nat \<Rightarrow> bool" where
  "covers ph x \<longleftrightarrow> unat (p_vaddr ph) div 4096 \<le> x div 4096 \<and> x div 4096 * 4096 < unat (p_vaddr ph) + unat (p_memsz ph)"

definition seg_low :: "phdr \<Rightarrow> bool" where
  "seg_low ph \<longleftrightarrow> unat (p_vaddr ph) + unat (p_memsz ph) \<le> 2 ^ 47"

definition seg_ok :: "bytes \<Rightarrow> phdr \<Rightarrow> bool" where
  "seg_ok b ph \<longleftrightarrow> seg_low ph \<and> unat (p_vaddr ph) + unat (p_filesz ph) < 2 ^ 64
     \<and> unat (p_offset ph) + unat (p_filesz ph) \<le> length b \<and> length b < 2 ^ 64"

lemma get_range_nat:
  "get_range b off n = (if unat off + unat n < 2 ^ 64
     then Some (if unat off + unat n \<le> length b then Some (take (unat n) (drop (unat off) b)) else None) else None)"
  by (simp add: get_range_def checked_add_def sub_slice_def unat_add_checked)

lemma page_content_nat:
  fixes ph va fe b
  defines "pv \<equiv> unat (p_vaddr ph)" and "A \<equiv> max (unat va) (unat (p_vaddr ph))" and "Z \<equiv> min (unat va + 4096) (unat fe)"
  assumes v: "unat va + 4096 < 2 ^ 64"
  shows "page_content ph fe va b f m =
    (if A < Z
     then (if unat (p_offset ph) + (Z - pv) < 2 ^ 64
           then Some (if unat (p_offset ph) + (Z - pv) \<le> length b
                      then Some (mstore (zero_frame f m) (unat f + (A - unat va)) (take (Z - A) (drop (unat (p_offset ph) + (A - pv)) b)))
                      else None)
           else None)
     else Some (Some (zero_frame f m)))"
proof -
  define a z where "a = max va (p_vaddr ph)" and "z = min (va + PAGE) fe"
  have pe: "unat (va + PAGE) = unat va + 4096" using v unat_add_checked [of va PAGE] by (simp add: PAGE_def)
  have u: "unat a = A" "unat z = Z" using pe by (auto simp: a_def z_def A_def Z_def max_def min_def word_le_nat_alt)
  have "va \<le> a" "p_vaddr ph \<le> a" by (simp_all add: a_def)
  then have d: "unat (a - va) = A - unat va" "unat (a - p_vaddr ph) = A - pv" using u by (simp_all add: unat_sub pv_def)
  have dz: "unat (z - a) = Z - A" if "A < Z" using that u by (simp add: unat_sub word_le_nat_alt)
  have le: "pv \<le> A" by (simp add: pv_def A_def)
  have c: "checked_add va PAGE = Some (va + PAGE)" using v by (simp add: checked_add_def PAGE_def)
  have az: "a < z \<longleftrightarrow> A < Z" using u by (simp add: word_less_nat_alt)
  have sum: "unat (p_offset ph) + (A - pv) + (Z - A) = unat (p_offset ph) + (Z - pv)" if "A < Z" using that le by simp
  show ?thesis
  proof (cases "A < Z")
    case False
    then show ?thesis
      by (simp only: page_content_def c Option.bind_lunit Let_def a_def [symmetric] z_def [symmetric] az if_False)
  next
    case True
    have o: "unat (p_offset ph + (a - p_vaddr ph)) = unat (p_offset ph) + (A - pv)" if "unat (p_offset ph) + (A - pv) < 2 ^ 64"
      using unat_add_checked [of "p_offset ph" "a - p_vaddr ph"] that d by simp
    have n: "\<not> unat (p_offset ph) + (Z - pv) < 2 ^ 64" if "\<not> unat (p_offset ph) + (A - pv) < 2 ^ 64" using that True by linarith
    show ?thesis
      using True o n sum [OF True] dz [OF True] d
      by (simp only: page_content_def c Option.bind_lunit Let_def a_def [symmetric] z_def [symmetric] az if_True)
        (simp add: checked_add_def get_range_nat)
  qed
qed

lemma page_content_overflow: "\<not> unat va + 4096 < 2 ^ 64 \<Longrightarrow> page_content ph fe va b f m = None"
  by (simp add: page_content_def checked_add_def PAGE_def)

lemma page_content_outside:
  assumes c: "page_content ph fe va b f m = Some (Some m1)" and f: "frame_addr f" and x: "x div 4096 \<noteq> frame_no f"
  shows "m1 x = m x"
proof -
  have v: "unat va + 4096 < 2 ^ 64" using c page_content_overflow by fastforce
  have z: "zero_frame f m x = m x" using zero_frame_same [OF f x] .
  have "\<not> (unat f \<le> x \<and> x < unat f + 4096)"
  proof
    assume h: "unat f \<le> x \<and> x < unat f + 4096"
    have "x div 4096 = frame_no f" by (rule div_nat_eqI) (use h frame_addr_unat [OF f] in auto)
    then show False using x by simp
  qed
  then have "mstore m' (unat f + k) bs x = m' x" if "k + length bs \<le> 4096" for m' k bs
    using that mstore_other [of x "unat f + k" bs m'] by linarith
  note M = this
  define A Z where "A = max (unat va) (unat (p_vaddr ph))" and "Z = min (unat va + 4096) (unat fe)"
  have "A - unat va + length (take (Z - A) bs) \<le> 4096" if "A < Z" for bs :: bytes
  proof -
    have "unat va \<le> A" "Z \<le> unat va + 4096" by (simp_all add: A_def Z_def)
    then show ?thesis using that by simp
  qed
  then have "mstore m' (unat f + (A - unat va)) (take (Z - A) bs) x = m' x" if "A < Z" for m' bs using M that by blast
  then show ?thesis using c z unfolding page_content_nat [OF v] A_def [symmetric] Z_def [symmetric] by (auto split: if_splits)
qed

lemma page_content_byte:
  assumes c: "page_content ph fe va b f m = Some (Some m1)" and fe: "unat fe = unat (p_vaddr ph) + unat (p_filesz ph)"
    and p: "unat va mod 4096 = 0" "x div 4096 = unat va div 4096"
  shows "m1 (unat f + x mod 4096) = seg_byte b ph x"
proof -
  have v: "unat va + 4096 < 2 ^ 64" using c page_content_overflow by fastforce
  have xv: "x = unat va + x mod 4096" using p by (metis add.right_neutral div_mult_mod_eq)
  have r: "x mod 4096 < 4096" by simp
  have z: "zero_frame f m (unat f + x mod 4096) = 0" using r by (simp add: zero_frame_def)
  define A Z where "A = max (unat va) (unat (p_vaddr ph))" and "Z = min (unat va + 4096) (unat fe)"
  have "unat (p_vaddr ph) \<le> x \<and> x < unat (p_vaddr ph) + unat (p_filesz ph) \<longleftrightarrow> A \<le> x \<and> x < Z"
    using xv r fe by (auto simp: A_def Z_def)
  then have sb: "seg_byte b ph x = (if A \<le> x \<and> x < Z then b ! (unat (p_offset ph) + (x - unat (p_vaddr ph))) else 0)"
    by (simp add: seg_byte_def)
  have av: "unat va \<le> A" "unat (p_vaddr ph) \<le> A" by (simp_all add: A_def)
  show ?thesis
  proof (cases "A < Z")
    case False
    then show ?thesis using c z sb unfolding page_content_nat [OF v] A_def [symmetric] Z_def [symmetric] by auto
  next
    case True
    then have m: "m1 = mstore (zero_frame f m) (unat f + (A - unat va)) (take (Z - A) (drop (unat (p_offset ph) + (A - unat (p_vaddr ph))) b))"
      and l: "unat (p_offset ph) + (Z - unat (p_vaddr ph)) \<le> length b"
      using c unfolding page_content_nat [OF v] A_def [symmetric] Z_def [symmetric] by (auto split: if_splits)
    have len: "length (take (Z - A) (drop (unat (p_offset ph) + (A - unat (p_vaddr ph))) b)) = Z - A" using l True av by simp
    show ?thesis
    proof (cases "A \<le> x \<and> x < Z")
      case x: True
      have e: "unat f + x mod 4096 = unat f + (A - unat va) + (x - A)" using xv x av by linarith
      have "m1 (unat f + x mod 4096) = take (Z - A) (drop (unat (p_offset ph) + (A - unat (p_vaddr ph))) b) ! (x - A)"
        unfolding m e by (rule mstore_at) (use x len in linarith)
      also have "\<dots> = b ! (unat (p_offset ph) + (A - unat (p_vaddr ph)) + (x - A))"
        using x l av by (intro nth_take_drop) auto
      finally show ?thesis using x sb av by simp
    next
      case False
      then have "unat f + x mod 4096 < unat f + (A - unat va) \<or> unat f + (A - unat va) + (Z - A) \<le> unat f + x mod 4096"
        using xv av True by linarith
      then show ?thesis using z sb False mstore_other len unfolding m by metis
    qed
  qed
qed

section \<open>Segments\<close>

lemma alloc_None: "frames_ok s \<Longrightarrow> alloc_frame s = (None, s') \<Longrightarrow> s' = s"
  by (cases rule: alloc_frame_from_cases [of s 1]) (auto simp: alloc_frame_def)

lemma load_undo:
  assumes I: "load_inv s0 root img e s" and al: "alloc_frame (fr s) = (Some f, fr1)"
  shows "load_inv s0 root img e (s\<lparr>fr := free_frame f fr1, pm := zero_frame f (pm s)\<rparr>)" (is "load_inv _ _ _ _ ?s")
proof -
  have P: "pages_ok s root" using I by (simp add: load_inv_def)
  note A = alloc_frame_facts [OF pages_okD(3) [OF P] al]
  have "is_used (frame_no f) fr1" using A(4) by blast
  note F = free_frame_facts [OF A(1,2) this]
  have u: "is_used g (free_frame f fr1) \<longleftrightarrow> is_used g (fr s)" for g using F(2) A(3,4) by blast
  have n: "frame_no f \<notin> space_frames s root" using space_frames_used [OF P] A(3) by blast
  have z: "zero_frame f (pm s) x = pm s x" if "x div 4096 \<noteq> frame_no f" for x using zero_frame_same [OF A(2) that] .
  have m: "x div 4096 \<in> space_frames s root \<Longrightarrow> pm ?s x = pm s x" for x using z [of x] n by (cases "x div 4096 = frame_no f") simp_all
  have us: "g \<in> space_frames s root \<Longrightarrow> is_used g (fr ?s)" for g using space_frames_used [OF P] u by simp
  have fo: "frames_ok (fr ?s)" using F(1) by simp
  have "pages_ok ?s root" by (rule pages_unseen(1) [OF P fo]) (use m us in auto)
  moreover have "user_va v \<Longrightarrow> vread ?s root v = vread s root v" for v by (rule pages_unseen(2) [OF P fo]) (use m us in auto)
  moreover have "space_frames ?s root = space_frames s root" by (rule pages_unseen(4) [OF P fo]) (use m us in auto)
  moreover have "zero_frame f (pm s) x = pm s x" if "is_used (x div 4096) (fr s0)" for x
    using z I A(3) that unfolding load_inv_def by metis
  ultimately show ?thesis using I u low_user unfolding load_inv_def by simp
qed

definition seg_image :: "bytes \<Rightarrow> phdr \<Rightarrow> nat \<Rightarrow> nat \<Rightarrow> (nat \<Rightarrow> u8 option) \<Rightarrow> nat \<Rightarrow> u8 option" where
  "seg_image b ph a z img x = (if a div 4096 \<le> x div 4096 \<and> x div 4096 * 4096 < z then Some (seg_byte b ph x) else img x)"

lemma seg_image_step:
  assumes "a mod 4096 = 0" and "a < n"
  shows "seg_image b ph a n img = seg_image b ph (a + 4096) n (\<lambda>x. if x div 4096 = a div 4096 then Some (seg_byte b ph x) else img x)"
proof
  fix x
  have "a div 4096 * 4096 = a" using assms(1) by (metis add.right_neutral div_mult_mod_eq)
  then show "seg_image b ph a n img x = seg_image b ph (a + 4096) n (\<lambda>x. if x div 4096 = a div 4096 then Some (seg_byte b ph x) else img x) x"
    using assms(2) by (auto simp: seg_image_def)
qed

lemma seg_image_none: "a mod 4096 = 0 \<Longrightarrow> n \<le> a \<Longrightarrow> seg_image b ph a n img = img"
proof
  fix x assume h: "a mod 4096 = 0" "n \<le> a"
  then have "a div 4096 * 4096 = a" by (metis add.right_neutral div_mult_mod_eq)
  then have "a div 4096 \<le> x div 4096 \<Longrightarrow> n \<le> x div 4096 * 4096" using h(2) by (metis le_trans mult_le_mono1)
  then show "seg_image b ph a n img x = img x" by (auto simp: seg_image_def)
qed

lemma map_pages_inv:
  assumes "map_pages ph fe se fl va e s = Some (ok, e', s')" and "load_inv s0 root img e s" and "unat se \<le> 2 ^ 47"
    and "unat va mod 4096 = 0" and "unat fe = unat (p_vaddr ph) + unat (p_filesz ph)"
  shows "\<exists>img'. load_inv s0 root img' e' s' \<and> el_bytes e' = el_bytes e \<and> el_entry e' = el_entry e
     \<and> set (el_mapped e) \<subseteq> set (el_mapped e') \<and> (ok \<longrightarrow> img' = seg_image (el_bytes e) ph (unat va) (unat se) img)"
  using assms
proof (induction ph fe se fl va e s arbitrary: img rule: map_pages.induct)
  case (1 ph fe se fl va e s)
  note I = "1.prems"(2)
  have fok: "frames_ok (fr s)" using I by (simp add: load_inv_def pages_ok_def space_ok_def)
  show ?case
  proof (cases "va < se")
    case False
    have "seg_image (el_bytes e) ph (unat va) (unat se) img = img"
      by (rule seg_image_none) (use False "1.prems"(4) in \<open>auto simp: word_less_nat_alt\<close>)
    then show ?thesis using False "1.prems"(1) I by (subst (asm) map_pages.simps) auto
  next
    case True
    obtain r fr1 where al: "alloc_frame (fr s) = (r, fr1)" by (meson surj_pair)
    show ?thesis
    proof (cases r)
      case None
      then have "ok = False" "e' = e" "s' = s" using "1.prems"(1) True al alloc_None [OF fok] by (subst (asm) map_pages.simps, auto)+
      then show ?thesis using I by auto
    next
      case (Some f)
      note al = al [unfolded Some]
      note A = alloc_frame_facts [OF fok al]
      have root: "el_pml4 e = root" using I by (simp add: load_inv_def)
      show ?thesis
      proof (cases "page_content ph fe va (el_bytes e) f (pm s)")
        case None
        then show ?thesis using "1.prems"(1) True al by (subst (asm) map_pages.simps) simp
      next
        case (Some c)
        show ?thesis
        proof (cases c)
          case None
          then have "ok = False" "e' = e" "s' = s\<lparr>fr := free_frame f fr1, pm := zero_frame f (pm s)\<rparr>"
            using "1.prems"(1) True al Some by (subst (asm) map_pages.simps, simp)+
          then show ?thesis using load_undo [OF I al] by auto
        next
          case c: (Some m1)
          note pc = Some [unfolded c]
          obtain s2 where m: "map_in (el_pml4 e) va f fl (s\<lparr>fr := fr1, pm := m1\<rparr>) = Some s2" and o: "unat va + 4096 < 2 ^ 64"
            and rec: "map_pages ph fe se fl (va + PAGE) (track va f e) s2 = Some (ok, e', s')"
            using "1.prems"(1) True al pc by (subst (asm) map_pages.simps) (auto split: option.splits if_splits)
          have l: "low va" using True "1.prems"(3) by (simp add: low_def word_less_nat_alt)
          have same: "\<forall>x. x div 4096 \<noteq> frame_no f \<longrightarrow> m1 x = pm s x" using page_content_outside [OF pc A(2)] by blast
          note S = load_step [OF I al l same m [unfolded root]]
          have img: "(\<lambda>x. if x div 4096 = unat va div 4096 then Some (m1 (unat f + x mod 4096)) else img x)
              = (\<lambda>x. if x div 4096 = unat va div 4096 then Some (seg_byte (el_bytes e) ph x) else img x)"
            using page_content_byte [OF pc "1.prems"(5,4)] by auto
          have va': "unat (va + PAGE) = unat va + 4096" using o unat_add_checked [of va PAGE] by (simp add: PAGE_def)
          have a': "unat (va + PAGE) mod 4096 = 0" using va' "1.prems"(4) by simp
          have si: "seg_image (el_bytes e) ph (unat va) (unat se) img
              = seg_image (el_bytes e) ph (unat (va + PAGE)) (unat se) (\<lambda>x. if x div 4096 = unat va div 4096 then Some (seg_byte (el_bytes e) ph x) else img x)"
            unfolding va' by (rule seg_image_step) (use "1.prems"(4) True in \<open>auto simp: word_less_nat_alt\<close>)
          have "set (el_mapped e) \<subseteq> set (el_mapped (track va f e))" by (auto simp: track_def)
          then show ?thesis
            using "1.IH" [OF True al [symmetric] refl pc refl m o rec S "1.prems"(3) a' "1.prems"(5)] si img by fastforce
        qed
      qed
    qed
  qed
qed

lemma map_pages_total:
  assumes "load_inv s0 root img e s" and "seg_ok (el_bytes e) ph" and "unat se \<le> 2 ^ 47" and "unat va mod 4096 = 0"
    and "unat fe = unat (p_vaddr ph) + unat (p_filesz ph)" and "unat se \<le> unat va + 4096 * k" and "4 * k + n \<le> free_left s"
  shows "\<exists>e' s'. map_pages ph fe se fl va e s = Some (True, e', s') \<and> n \<le> free_left s'"
  using assms
proof (induction k arbitrary: va e s img)
  case 0
  then have "\<not> va < se" by (simp add: word_less_nat_alt)
  then show ?case using "0.prems"(7) by (subst map_pages.simps) simp
next
  case (Suc k)
  show ?case
  proof (cases "va < se")
    case False
    then show ?thesis using Suc.prems(7) by (subst map_pages.simps) simp
  next
    case True
    have l: "low va" using True Suc.prems(3) by (simp add: low_def word_less_nat_alt)
    then have o: "unat va + 4096 < 2 ^ 64" by (simp add: low_def)
    have root: "el_pml4 e = root" using Suc.prems(1) by (simp add: load_inv_def)
    obtain f fr1 where al: "alloc_frame (fr s) = (Some f, fr1)" "frame_addr f"
      and mp: "\<And>m1 va fl. \<exists>s2. map_in root va f fl (s\<lparr>fr := fr1, pm := m1\<rparr>) = Some s2 \<and> 4 * k + n \<le> free_left s2"
      using load_room [OF Suc.prems(1), of "4 * k + n"] Suc.prems(7) by auto
    have "unat (p_offset ph) + (min (unat va + 4096) (unat fe) - unat (p_vaddr ph)) \<le> unat (p_offset ph) + unat (p_filesz ph)"
      using Suc.prems(5) by simp
    then obtain m1 where pc: "page_content ph fe va (el_bytes e) f (pm s) = Some (Some m1)"
      using Suc.prems(2) unfolding page_content_nat [OF o] seg_ok_def by force
    obtain s2 where m: "map_in root va f fl (s\<lparr>fr := fr1, pm := m1\<rparr>) = Some s2" "4 * k + n \<le> free_left s2" using mp by blast
    have same: "\<forall>x. x div 4096 \<noteq> frame_no f \<longrightarrow> m1 x = pm s x" using page_content_outside [OF pc al(2)] by blast
    have va': "unat (va + PAGE) = unat va + 4096" using o unat_add_checked [of va PAGE] by (simp add: PAGE_def)
    have "\<exists>e' s'. map_pages ph fe se fl (va + PAGE) (track va f e) s2 = Some (True, e', s') \<and> n \<le> free_left s'"
      using Suc.IH [OF load_step [OF Suc.prems(1) al(1) l same m(1)]] Suc.prems m(2) va' by simp
    then show ?thesis using True al pc m(1) o root by (subst map_pages.simps) simp
  qed
qed

lemma page_round: "c \<le> 4096 * ((c + 4095) div 4096)" for c :: nat
  using div_mult_mod_eq [of "c + 4095" 4096] mod_less_divisor [of 4096 "c + 4095"] by linarith

text \<open>The pages of a segment.\<close>

definition seg_pages :: "phdr \<Rightarrow> nat" where
  "seg_pages ph = (unat (p_vaddr ph) mod 4096 + unat (p_memsz ph) + 4095) div 4096"

lemma page_start_aligned: "unat (v AND NOT (PAGE - 1)) mod 4096 = 0" "unat (v AND NOT (PAGE - 1)) div 4096 = unat v div 4096"
  by (simp_all add: unat_page_start)

lemma map_one_segment_inv:
  assumes m: "map_one_segment ph fl e s = Some (ok, e', s')" and I: "load_inv s0 root img e s" and l: "seg_low ph"
  shows "\<exists>img'. load_inv s0 root img' e' s' \<and> el_bytes e' = el_bytes e \<and> el_entry e' = el_entry e
     \<and> set (el_mapped e) \<subseteq> set (el_mapped e')
     \<and> (ok \<longrightarrow> img' = seg_image (el_bytes e) ph (unat (p_vaddr ph)) (unat (p_vaddr ph) + unat (p_memsz ph)) img)"
proof -
  obtain c: "unat (p_vaddr ph) + unat (p_memsz ph) < 2 ^ 64" "unat (p_vaddr ph) + unat (p_filesz ph) < 2 ^ 64"
    and mp: "map_pages ph (p_vaddr ph + p_filesz ph) (p_vaddr ph + p_memsz ph) fl (p_vaddr ph AND NOT (PAGE - 1)) e s = Some (ok, e', s')"
    using m by (auto simp: map_one_segment_def checked_add_def split: if_splits)
  have u: "unat (p_vaddr ph + p_memsz ph) = unat (p_vaddr ph) + unat (p_memsz ph)" "unat (p_vaddr ph + p_filesz ph) = unat (p_vaddr ph) + unat (p_filesz ph)"
    using c unat_add_checked by blast+
  have "seg_image b ph (unat (p_vaddr ph AND NOT (PAGE - 1))) z i = seg_image b ph (unat (p_vaddr ph)) z i" for b z i
    by (auto simp: seg_image_def fun_eq_iff page_start_aligned)
  then show ?thesis using map_pages_inv [OF mp I _ page_start_aligned(1) u(2)] l u(1) unfolding seg_low_def by simp
qed

lemma map_one_segment_total:
  assumes I: "load_inv s0 root img e s" and ok: "seg_ok (el_bytes e) ph" and n: "4 * seg_pages ph + n \<le> free_left s"
  shows "\<exists>e' s'. map_one_segment ph fl e s = Some (True, e', s') \<and> n \<le> free_left s'"
proof -
  have c: "unat (p_vaddr ph) + unat (p_memsz ph) < 2 ^ 64" "unat (p_vaddr ph) + unat (p_filesz ph) < 2 ^ 64"
    and l: "unat (p_vaddr ph) + unat (p_memsz ph) \<le> 2 ^ 47" using ok by (auto simp: seg_ok_def seg_low_def)
  have u: "unat (p_vaddr ph + p_memsz ph) = unat (p_vaddr ph) + unat (p_memsz ph)" "unat (p_vaddr ph + p_filesz ph) = unat (p_vaddr ph) + unat (p_filesz ph)"
    using c unat_add_checked by blast+
  have "a + b \<le> a div 4096 * 4096 + 4096 * ((a mod 4096 + b + 4095) div 4096)" for a b :: nat
    using div_mult_mod_eq [of a 4096] page_round [of "a mod 4096 + b"] by linarith
  then have k: "unat (p_vaddr ph + p_memsz ph) \<le> unat (p_vaddr ph AND NOT (PAGE - 1)) + 4096 * seg_pages ph"
    unfolding u(1) unat_page_start seg_pages_def .
  show ?thesis
    using map_pages_total [OF I ok _ page_start_aligned(1) u(2) k n] l u(1) c by (simp add: map_one_segment_def checked_add_def)
qed

text \<open>The program headers: the segments that are loaded, and the image they make, in the order of the table.\<close>

definition phdr_at :: "bytes \<Rightarrow> elf_header \<Rightarrow> nat \<Rightarrow> phdr option" where
  "phdr_at b hdr i = do { off \<leftarrow> checked_add (h_phoff hdr) (of_nat i * ucast (h_phentsize hdr)); r \<leftarrow> read_phdr b off; r }"

definition loads :: "bytes \<Rightarrow> elf_header \<Rightarrow> nat list \<Rightarrow> phdr list" where
  "loads b hdr is = filter (\<lambda>ph. p_type ph = 1) (List.map_filter (phdr_at b hdr) is)"

definition image :: "bytes \<Rightarrow> phdr list \<Rightarrow> (nat \<Rightarrow> u8 option) \<Rightarrow> nat \<Rightarrow> u8 option" where
  "image b = fold (\<lambda>ph. seg_image b ph (unat (p_vaddr ph)) (unat (p_vaddr ph) + unat (p_memsz ph)))"

lemma loads_Cons:
  "loads b hdr (i # is) = (case phdr_at b hdr i of Some ph \<Rightarrow> (if p_type ph = 1 then ph # loads b hdr is else loads b hdr is) | None \<Rightarrow> loads b hdr is)"
  by (simp add: loads_def map_filter_simps split: option.split)

lemma map_headers_inv:
  assumes "map_headers hdr is e s = Some (ok, e', s')" and "load_inv s0 root img e s" and "\<forall>ph \<in> set (loads (el_bytes e) hdr is). seg_low ph"
  shows "\<exists>img'. load_inv s0 root img' e' s' \<and> el_bytes e' = el_bytes e \<and> el_entry e' = el_entry e
     \<and> set (el_mapped e) \<subseteq> set (el_mapped e') \<and> (ok \<longrightarrow> img' = image (el_bytes e) (loads (el_bytes e) hdr is) img)"
  using assms
proof (induction "is" arbitrary: e s img)
  case Nil
  then show ?case by (auto simp: image_def loads_def map_filter_simps)
next
  case (Cons i "is")
  obtain off r where o: "checked_add (h_phoff hdr) (of_nat i * ucast (h_phentsize hdr)) = Some off" and r: "read_phdr (el_bytes e) off = Some r"
    using Cons.prems(1) by (auto split: Option.bind_splits)
  have pa: "phdr_at (el_bytes e) hdr i = r" using o r by (simp add: phdr_at_def)
  show ?case
  proof (cases r)
    case None
    then show ?thesis using Cons.prems(1,2) o r by auto
  next
    case (Some ph)
    note L = loads_Cons [of "el_bytes e" hdr i "is"]
    show ?thesis
    proof (cases "p_type ph = 1")
      case False
      then show ?thesis using Cons.IH [of e s img] Cons.prems o r Some pa L by simp
    next
      case True
      obtain ok1 e1 s1 where m: "map_one_segment ph (seg_flags ph) e s = Some (ok1, e1, s1)"
        and rest: "(if \<not> ok1 then Some (False, e1, s1) else map_headers hdr is e1 s1) = Some (ok, e', s')"
        using Cons.prems(1) o r Some True by (auto split: Option.bind_splits)
      have ls: "loads (el_bytes e) hdr (i # is) = ph # loads (el_bytes e) hdr is" using L pa Some True by simp
      obtain img1 where I1: "load_inv s0 root img1 e1 s1" "el_bytes e1 = el_bytes e" "el_entry e1 = el_entry e" "set (el_mapped e) \<subseteq> set (el_mapped e1)"
        "ok1 \<Longrightarrow> img1 = seg_image (el_bytes e) ph (unat (p_vaddr ph)) (unat (p_vaddr ph) + unat (p_memsz ph)) img"
        using map_one_segment_inv [OF m Cons.prems(2)] Cons.prems(3) ls by auto
      show ?thesis
      proof (cases ok1)
        case False
        then show ?thesis using rest I1 by auto
      next
        case ok1: True
        then have "map_headers hdr is e1 s1 = Some (ok, e', s')" using rest by simp
        from Cons.IH [OF this I1(1)] show ?thesis using Cons.prems(3) I1(2,3,4,5) ls ok1 by (auto simp: image_def)
      qed
    qed
  qed
qed

lemma map_headers_total:
  assumes "load_inv s0 root img e s" and "\<forall>i \<in> set is. phdr_at (el_bytes e) hdr i \<noteq> None" and "\<forall>ph \<in> set (loads (el_bytes e) hdr is). seg_ok (el_bytes e) ph"
    and "4 * sum_list (map seg_pages (loads (el_bytes e) hdr is)) + n \<le> free_left s"
  shows "\<exists>e' s'. map_headers hdr is e s = Some (True, e', s') \<and> n \<le> free_left s'"
  using assms
proof (induction "is" arbitrary: e s img)
  case Nil
  then show ?case by (simp add: loads_def map_filter_simps)
next
  case (Cons i "is")
  obtain off ph where o: "checked_add (h_phoff hdr) (of_nat i * ucast (h_phentsize hdr)) = Some off"
    and r: "read_phdr (el_bytes e) off = Some (Some ph)" and pa: "phdr_at (el_bytes e) hdr i = Some ph"
    using Cons.prems(2) by (auto simp: phdr_at_def split: Option.bind_splits)
  show ?case
  proof (cases "p_type ph = 1")
    case False
    then show ?thesis using Cons.IH [of img e s] Cons.prems o r pa by (simp add: loads_Cons)
  next
    case True
    have ls: "loads (el_bytes e) hdr (i # is) = ph # loads (el_bytes e) hdr is" using pa True by (simp add: loads_Cons)
    have okp: "seg_ok (el_bytes e) ph" using Cons.prems(3) ls by simp
    obtain e1 s1 where m: "map_one_segment ph (seg_flags ph) e s = Some (True, e1, s1)"
        "4 * sum_list (map seg_pages (loads (el_bytes e) hdr is)) + n \<le> free_left s1"
      using map_one_segment_total [OF Cons.prems(1) okp, of "4 * sum_list (map seg_pages (loads (el_bytes e) hdr is)) + n" "seg_flags ph"] Cons.prems(4) ls
      by (auto simp: algebra_simps)
    obtain img1 where "load_inv s0 root img1 e1 s1" "el_bytes e1 = el_bytes e"
      using map_one_segment_inv [OF m(1) Cons.prems(1)] okp by (auto simp: seg_ok_def)
    then show ?thesis using Cons.IH [of img1 e1 s1] Cons.prems ls m o r True by simp
  qed
qed

section \<open>Stack and trampoline\<close>

definition stack_image :: "nat set \<Rightarrow> (nat \<Rightarrow> u8 option) \<Rightarrow> nat \<Rightarrow> u8 option" where
  "stack_image is img x = (if \<exists>i \<in> is. x div 4096 = 0x20000 + i then Some 0 else img x)"

definition tramp_image :: "(nat \<Rightarrow> u8 option) \<Rightarrow> nat \<Rightarrow> u8 option" where
  "tramp_image img x = (if x div 4096 = 0x40000 then Some (if x mod 4096 < 9 then SIGTRAMP_CODE ! (x mod 4096) else 0) else img x)"

lemma stack_va:
  assumes "i < 32"
  shows "unat (USER_STACK_VA + of_nat i * PAGE) = (0x20000 + i) * 4096" and "low (USER_STACK_VA + of_nat i * PAGE)"
proof -
  have i: "unat (of_nat i :: u64) = i" using assms by (simp add: unat_of_nat take_bit_nat_eq_self)
  have m: "unat (of_nat i * PAGE) = i * 4096" using assms i by (simp add: PAGE_def unat_word_ariths)
  have "unat (USER_STACK_VA + of_nat i * PAGE) = unat USER_STACK_VA + unat (of_nat i * PAGE)"
    by (rule unat_add_checked) (use assms m in \<open>simp add: USER_STACK_VA_def\<close>)
  then show "unat (USER_STACK_VA + of_nat i * PAGE) = (0x20000 + i) * 4096" using m by (simp add: USER_STACK_VA_def)
  then show "low (USER_STACK_VA + of_nat i * PAGE)" using assms by (simp add: low_def)
qed

lemma zero_fresh:
  assumes "frame_addr f"
  shows "\<forall>x. x div 4096 \<noteq> frame_no f \<longrightarrow> zero_frame f m x = m x" and "zero_frame f m (unat f + x mod 4096) = 0"
  using zero_frame_same [OF assms] by (simp_all add: zero_frame_def)

lemma stack_pages_inv:
  assumes "stack_pages is e s = Some (ok, e', s')" and "load_inv s0 root img e s" and "\<forall>i \<in> set is. i < 32"
  shows "\<exists>img'. load_inv s0 root img' e' s' \<and> el_bytes e' = el_bytes e \<and> el_entry e' = el_entry e
     \<and> set (el_mapped e) \<subseteq> set (el_mapped e') \<and> (ok \<longrightarrow> img' = stack_image (set is) img)"
  using assms
proof (induction "is" arbitrary: e s img)
  case Nil
  then show ?case by (auto simp: stack_image_def)
next
  case (Cons i "is")
  let ?va = "USER_STACK_VA + of_nat i * PAGE"
  have fok: "frames_ok (fr s)" and root: "el_pml4 e = root" using Cons.prems(2) by (auto simp: load_inv_def pages_ok_def space_ok_def)
  obtain r fr1 where al: "alloc_frame (fr s) = (r, fr1)" by (meson surj_pair)
  show ?case
  proof (cases r)
    case None
    then have "ok = False" "e' = e" "s' = s" using Cons.prems(1) al alloc_None [OF fok] by (auto simp: Let_def)
    then show ?thesis using Cons.prems(2) by auto
  next
    case (Some f)
    note al = al [unfolded Some]
    note A = alloc_frame_facts [OF fok al]
    obtain s2 where m: "map_in root ?va f (MF_USER OR MF_WRITABLE) (s\<lparr>fr := fr1, pm := zero_frame f (pm s)\<rparr>) = Some s2"
      and rec: "stack_pages is (track ?va f e) s2 = Some (ok, e', s')"
      using Cons.prems(1) al root by (auto simp: Let_def split: Option.bind_splits)
    have i: "i < 32" using Cons.prems(3) by simp
    note S = load_step [OF Cons.prems(2) al stack_va(2) [OF i] zero_fresh(1) [OF A(2)] m]
    have "(\<lambda>x. if x div 4096 = unat ?va div 4096 then Some (zero_frame f (pm s) (unat f + x mod 4096)) else img x) = stack_image {i} img"
      using zero_fresh(2) [OF A(2)] stack_va(1) [OF i] by (auto simp: stack_image_def)
    moreover have "stack_image (set is) (stack_image {i} img) = stack_image (set (i # is)) img" by (auto simp: stack_image_def fun_eq_iff)
    moreover have "set (el_mapped e) \<subseteq> set (el_mapped (track ?va f e))" by (auto simp: track_def)
    ultimately show ?thesis using Cons.IH [OF rec S] Cons.prems(3) by fastforce
  qed
qed

lemma stack_pages_total:
  assumes "load_inv s0 root img e s" and "\<forall>i \<in> set is. i < 32" and "4 * length is + n \<le> free_left s"
  shows "\<exists>e' s'. stack_pages is e s = Some (True, e', s') \<and> n \<le> free_left s'"
  using assms
proof (induction "is" arbitrary: e s img)
  case (Cons i "is")
  let ?va = "USER_STACK_VA + of_nat i * PAGE"
  have root: "el_pml4 e = root" using Cons.prems(1) by (simp add: load_inv_def)
  obtain f fr1 where al: "alloc_frame (fr s) = (Some f, fr1)" "frame_addr f"
    and mp: "\<And>m1 va fl. \<exists>s2. map_in root va f fl (s\<lparr>fr := fr1, pm := m1\<rparr>) = Some s2 \<and> 4 * length is + n \<le> free_left s2"
    using load_room [OF Cons.prems(1), of "4 * length is + n"] Cons.prems(3) by auto
  obtain s2 where m: "map_in root ?va f (MF_USER OR MF_WRITABLE) (s\<lparr>fr := fr1, pm := zero_frame f (pm s)\<rparr>) = Some s2"
    "4 * length is + n \<le> free_left s2" using mp by blast
  have i: "i < 32" using Cons.prems(2) by simp
  show ?case
    using Cons.IH [OF load_step [OF Cons.prems(1) al(1) stack_va(2) [OF i] zero_fresh(1) [OF al(2)] m(1)] _ m(2)] Cons.prems(2) al m(1) root
    by (simp add: Let_def)
qed simp

lemma tramp_content:
  fixes m :: mem
  assumes f: "frame_addr f"
  defines "m1 \<equiv> mstore (zero_frame f m) (unat f) SIGTRAMP_CODE"
  shows "\<forall>x. x div 4096 \<noteq> frame_no f \<longrightarrow> m1 x = m x"
    and "m1 (unat f + x mod 4096) = (if x mod 4096 < 9 then SIGTRAMP_CODE ! (x mod 4096) else 0)"
proof -
  have l: "length SIGTRAMP_CODE = 9" by (simp add: SIGTRAMP_CODE_def)
  show "m1 (unat f + x mod 4096) = (if x mod 4096 < 9 then SIGTRAMP_CODE ! (x mod 4096) else 0)"
    using zero_fresh(2) [OF f] by (simp add: m1_def mstore_def l)
  have "x < unat f \<or> unat f + 9 \<le> x" if "x div 4096 \<noteq> frame_no f" for x
  proof (rule ccontr)
    assume "\<not> (x < unat f \<or> unat f + 9 \<le> x)"
    then have "x div 4096 = frame_no f" using frame_addr_unat [OF f] by (intro div_nat_eqI) auto
    then show False using that by simp
  qed
  then show "\<forall>x. x div 4096 \<noteq> frame_no f \<longrightarrow> m1 x = m x" using zero_fresh(1) [OF f] l mstore_other unfolding m1_def by metis
qed

lemma build_stack_inv:
  assumes b: "build_stack e s = Some (ok, e', s')" and I: "load_inv s0 root img e s"
  shows "\<exists>img'. load_inv s0 root img' e' s' \<and> el_bytes e' = el_bytes e \<and> el_entry e' = el_entry e \<and> set (el_mapped e) \<subseteq> set (el_mapped e')
     \<and> (ok \<longrightarrow> img' = tramp_image (stack_image {0..<32} img) \<and> el_stack_top e' = 0x2001FFF0)"
proof -
  obtain ok1 e1 s1 where sp: "stack_pages [0..<USER_STACK_PAGES] e s = Some (ok1, e1, s1)"
    using b by (auto simp: build_stack_def split: Option.bind_splits)
  obtain img1 where I1: "load_inv s0 root img1 e1 s1" "el_bytes e1 = el_bytes e" "el_entry e1 = el_entry e" "set (el_mapped e) \<subseteq> set (el_mapped e1)"
      "ok1 \<Longrightarrow> img1 = stack_image {0..<32} img"
    using stack_pages_inv [OF sp I] by (auto simp: USER_STACK_PAGES_def)
  show ?thesis
  proof (cases ok1)
    case False
    then show ?thesis using b sp I1 by (auto simp: build_stack_def)
  next
    case True
    define e2 where "e2 = e1\<lparr>el_stack_top := USER_STACK_VA + of_nat USER_STACK_PAGES * PAGE - 16\<rparr>"
    have I2: "load_inv s0 root img1 e2 s1" using I1(1) by (simp add: e2_def load_inv_def)
    have fok: "frames_ok (fr s1)" and root: "el_pml4 e2 = root" using I2 by (auto simp: load_inv_def pages_ok_def space_ok_def)
    obtain r fr1 where al: "alloc_frame (fr s1) = (r, fr1)" by (meson surj_pair)
    have B: "build_stack e s = (case r of None \<Rightarrow> Some (False, e2, s1\<lparr>fr := fr1\<rparr>) | Some f \<Rightarrow>
        (case map_in root SIGTRAMP_VA f MF_USER (s1\<lparr>fr := fr1, pm := mstore (zero_frame f (pm s1)) (unat f) SIGTRAMP_CODE\<rparr>) of
          None \<Rightarrow> None | Some s2 \<Rightarrow> Some (True, track SIGTRAMP_VA f e2, s2)))"
      using sp True al root by (simp add: build_stack_def Let_def e2_def split: option.splits Option.bind_splits)
    show ?thesis
    proof (cases r)
      case None
      then have "ok = False" "e' = e2" "s' = s1" using b B al alloc_None [OF fok] by auto
      then show ?thesis using I2 I1 by (auto simp: e2_def)
    next
      case (Some f)
      note al = al [unfolded Some]
      note A = alloc_frame_facts [OF fok al]
      obtain s2 where m: "map_in root SIGTRAMP_VA f MF_USER (s1\<lparr>fr := fr1, pm := mstore (zero_frame f (pm s1)) (unat f) SIGTRAMP_CODE\<rparr>) = Some s2"
        and e: "ok = True" "e' = track SIGTRAMP_VA f e2" "s' = s2" using b B Some by (auto split: option.splits)
      have lt: "low SIGTRAMP_VA" by (simp add: low_def SIGTRAMP_VA_def)
      note S = load_step [OF I2 al lt tramp_content(1) [OF A(2)] m]
      have "(\<lambda>x. if x div 4096 = unat SIGTRAMP_VA div 4096 then Some (mstore (zero_frame f (pm s1)) (unat f) SIGTRAMP_CODE (unat f + x mod 4096)) else img1 x)
          = tramp_image img1" using tramp_content(2) [OF A(2)] by (auto simp: tramp_image_def SIGTRAMP_VA_def)
      moreover have "set (el_mapped e) \<subseteq> set (el_mapped e')" using I1(4) e(2) by (auto simp: track_def e2_def)
      moreover have "el_stack_top e' = 0x2001FFF0" using e(2) by (simp add: e2_def USER_STACK_VA_def USER_STACK_PAGES_def PAGE_def)
      moreover have "el_bytes e' = el_bytes e" "el_entry e' = el_entry e" using e(2) I1(2,3) by (simp_all add: e2_def)
      ultimately show ?thesis using S I1(5) [OF True] e by auto
    qed
  qed
qed

lemma build_stack_total:
  assumes I: "load_inv s0 root img e s" and n: "132 \<le> free_left s"
  shows "\<exists>e' s'. build_stack e s = Some (True, e', s')"
proof -
  obtain e1 s1 where sp: "stack_pages [0..<USER_STACK_PAGES] e s = Some (True, e1, s1)" "4 \<le> free_left s1"
    using stack_pages_total [OF I, of "[0..<USER_STACK_PAGES]" 4] n by (auto simp: USER_STACK_PAGES_def)
  obtain img1 where I1: "load_inv s0 root img1 e1 s1" using stack_pages_inv [OF sp(1) I] by (auto simp: USER_STACK_PAGES_def)
  obtain f fr1 where al: "alloc_frame (fr s1) = (Some f, fr1)" "frame_addr f"
    and mp: "\<And>m1 va fl. \<exists>s2. map_in root va f fl (s1\<lparr>fr := fr1, pm := m1\<rparr>) = Some s2 \<and> 0 \<le> free_left s2"
    by (rule load_room [OF I1, of 0], use sp(2) in simp, blast)
  have root: "el_pml4 e1 = root" using I1 by (simp add: load_inv_def)
  obtain s2 where "map_in root SIGTRAMP_VA f MF_USER (s1\<lparr>fr := fr1, pm := mstore (zero_frame f (pm s1)) (unat f) SIGTRAMP_CODE\<rparr>) = Some s2"
    using mp by blast
  then show ?thesis using sp(1) al(1) root by (simp add: build_stack_def Let_def)
qed

section \<open>A whole load\<close>

lemma new_space_load_inv:
  assumes P: "pages_ok s (current_pml4 s)" and n: "new_space s = Some (root, s0)" and e: "el_pml4 e = root" "el_mapped e = []"
  shows "load_inv s0 root (\<lambda>_. None) e s0" and "pages_ok s0 (current_pml4 s)" and "current_pml4 s0 = current_pml4 s"
    and "user_va v \<Longrightarrow> vread s0 (current_pml4 s) v = vread s (current_pml4 s) v"
    and "user_va v \<Longrightarrow> pte s0 (current_pml4 s) v = pte s (current_pml4 s) v"
    and "space_frames s0 (current_pml4 s) = space_frames s (current_pml4 s)" and "frame_no root \<notin> space_frames s (current_pml4 s)"
    and "free_left s \<le> free_left s0 + 1"
proof -
  define cur where "cur = current_pml4 s"
  note P' = P [folded cur_def]
  note D = pages_okD [OF P']
  have ur: "user_path []" "tab s cur [] = Some cur" by (simp_all add: user_path_def)
  note C = space_tab [OF D(1) ur]
  note S = new_space_spec [OF D(3) C [unfolded cur_def] n, folded cur_def]
  show nr: "frame_no root \<notin> space_frames s (current_pml4 s)" using space_frames_used [OF P] S(2) by blast
  have m: "x div 4096 \<in> space_frames s cur \<Longrightarrow> pm s0 x = pm s x" for x using S(6) nr by (metis cur_def)
  have us: "g \<in> space_frames s cur \<Longrightarrow> is_used g (fr s0)" for g using space_frames_used [OF P'] S(4) by blast
  show "pages_ok s0 (current_pml4 s)" unfolding cur_def [symmetric] by (rule pages_unseen(1) [OF P' S(3) m us])
  show "vread s0 (current_pml4 s) v = vread s (current_pml4 s) v" if "user_va v"
    unfolding cur_def [symmetric] by (rule pages_unseen(2) [OF P' S(3) m us that])
  show "pte s0 (current_pml4 s) v = pte s (current_pml4 s) v" if "user_va v"
    unfolding cur_def [symmetric] by (rule pages_unseen(3) [OF P' S(3) m us that])
  show "space_frames s0 (current_pml4 s) = space_frames s (current_pml4 s)"
    unfolding cur_def [symmetric] by (rule pages_unseen(4) [OF P' S(3) m us])
  show "current_pml4 s0 = current_pml4 s" using S(7) by (simp add: current_pml4_def)
  have e0: "\<not> present (entry s0 root i)" if "i < 256" for i using S(8) [of i] that by (simp add: present_def)
  have ku: "is_used (frame_no root) (fr s0)" using S(4) by blast
  note E = empty_space_ok [OF S(3,1) ku e0]
  have lk: "leaf s0 root q = 0" if "page_path q" for q
  proof -
    have "butlast q \<noteq> []" using page_path_cases(2) [OF that] by (metis list.size(3) zero_neq_numeral)
    then show ?thesis using E(2) [OF _ page_path_cases(1) [OF that]] by (simp add: leaf_def)
  qed
  then have M: "mapped s0 root = {}" by (auto simp: mapped_def present_def)
  have T: "table_frames s0 root \<subseteq> {frame_no root}"
  proof
    fix g assume "g \<in> table_frames s0 root"
    then obtain p t where "g = frame_no t" "user_path p" "tab s0 root p = Some t" unfolding table_frames_def by blast
    then show "g \<in> {frame_no root}" using E(2) [of p] by (cases "p = []") auto
  qed
  have "vread s0 root v = None" if "low v" for v using lk [OF vpath_page [OF low_user [OF that]]] by (simp add: vread_def pte_def present_def)
  moreover have "pages_ok s0 root" using E(1) M by (simp add: pages_ok_def leaves_ok_def)
  ultimately show "load_inv s0 root (\<lambda>_. None) e s0" unfolding load_inv_def space_frames_def M using e T by auto
  have "free_frames (fr s0) - {0} = (free_frames (fr s) - {0}) - {frame_no root}" using S(5) by auto
  moreover have "card (free_frames (fr s) - {0}) \<le> card ((free_frames (fr s) - {0}) - {frame_no root}) + 1"
    using card_Suc_Diff1 [of "free_frames (fr s) - {0}" "frame_no root"]
    by (cases "frame_no root \<in> free_frames (fr s) - {0}") simp_all
  ultimately show "free_left s \<le> free_left s0 + 1" by (simp add: free_left_def)
qed

text \<open>The space that was active during the load does not notice it.\<close>

lemma load_caller:
  assumes I: "load_inv s0 root img e s" and P: "pages_ok s0 cur" and n: "frame_no root \<notin> space_frames s0 cur"
  shows "pages_ok s cur" and "user_va v \<Longrightarrow> vread s cur v = vread s0 cur v" and "user_va v \<Longrightarrow> pte s cur v = pte s0 cur v"
    and "space_frames s cur = space_frames s0 cur"
proof -
  have f: "frames_ok (fr s)" using I by (simp add: load_inv_def pages_ok_def space_ok_def)
  have m: "x div 4096 \<in> space_frames s0 cur \<Longrightarrow> pm s x = pm s0 x" for x
    using I space_frames_used [OF P] n unfolding load_inv_def by metis
  have us: "g \<in> space_frames s0 cur \<Longrightarrow> is_used g (fr s)" for g using I space_frames_used [OF P] unfolding load_inv_def by blast
  show "pages_ok s cur" by (rule pages_unseen(1) [OF P f m us])
  show "user_va v \<Longrightarrow> vread s cur v = vread s0 cur v" by (rule pages_unseen(2) [OF P f m us])
  show "user_va v \<Longrightarrow> pte s cur v = pte s0 cur v" by (rule pages_unseen(3) [OF P f m us])
  show "space_frames s cur = space_frames s0 cur" by (rule pages_unseen(4) [OF P f m us])
qed

text \<open>
  An executable: the header is complete and valid, every program header can be read, and the
  segments lie in the lower half and inside the file.
\<close>

definition exec_header :: "bytes \<Rightarrow> elf_header option" where
  "exec_header b = (case read_header \<lparr>el_bytes = b, el_pml4 = 0, el_entry = 0, el_stack_top = 0, el_mapped = []\<rparr> of Some (h, _) \<Rightarrow> h | None \<Rightarrow> None)"

definition valid_elf :: "bytes \<Rightarrow> elf_header \<Rightarrow> bool" where
  "valid_elf b hdr \<longleftrightarrow> exec_header b = Some hdr
     \<and> validate_header hdr \<lparr>el_bytes = b, el_pml4 = 0, el_entry = 0, el_stack_top = 0, el_mapped = []\<rparr> = Some True
     \<and> (\<forall>i < unat (h_phnum hdr). phdr_at b hdr i \<noteq> None) \<and> (\<forall>ph \<in> set (loads b hdr [0..<unat (h_phnum hdr)]). seg_ok b ph)"

definition program_image :: "bytes \<Rightarrow> elf_header \<Rightarrow> nat \<Rightarrow> u8 option" where
  "program_image b hdr = tramp_image (stack_image {0..<32} (image b (loads b hdr [0..<unat (h_phnum hdr)]) (\<lambda>_. None)))"

lemma read_header_fields:
  assumes "exec_header b = Some hdr" and "el_bytes e = b"
  shows "\<exists>en. rd_u64 b 24 = Some (Some en) \<and> read_header e = Some (Some hdr, e\<lparr>el_entry := en\<rparr>)"
  using assms by (auto simp: exec_header_def read_header_def Let_def split: Option.bind_splits option.splits)

lemma validate_bytes: "el_bytes e = el_bytes e' \<Longrightarrow> validate_header hdr e = validate_header hdr e'"
  by (simp add: validate_header_def)

lemma elf_load_spec:
  assumes "pages_ok s (current_pml4 s)" and "valid_elf b hdr"
    and "4 * (sum_list (map seg_pages (loads b hdr [0..<unat (h_phnum hdr)])) + 33) + 1 \<le> free_left s"
  shows "\<exists>root s0 e' s'. new_space s = Some (root, s0) \<and> ElfLoader_create (prepare b root e) s0 = Some (LDone, e', s')
     \<and> rd_u64 b 24 = Some (Some (entry_va e')) \<and> stack_top e' = 0x2001FFF0
     \<and> pages_ok s' root \<and> pages_ok s' (current_pml4 s) \<and> current_pml4 s' = current_pml4 s
     \<and> (\<forall>v. low v \<longrightarrow> vread s' root v = program_image b hdr (unat v))
     \<and> (\<forall>v. user_va v \<longrightarrow> vread s' (current_pml4 s) v = vread s (current_pml4 s) v)"
proof -
  have "frames_ok (fr s)" using assms(1) by (simp add: pages_ok_def space_ok_def)
  then obtain root s0 where n: "new_space s = Some (root, s0)" using new_space_total assms(3) by (fastforce simp: free_left_def)
  obtain en where en: "rd_u64 b 24 = Some (Some en)" and rh: "read_header (prepare b root e) = Some (Some hdr, (prepare b root e)\<lparr>el_entry := en\<rparr>)"
    using read_header_fields [of b hdr "prepare b root e"] assms(2) by (auto simp: valid_elf_def prepare_def)
  define e1 where "e1 = (prepare b root e)\<lparr>el_entry := en\<rparr>"
  have e1: "el_bytes e1 = b" "el_pml4 e1 = root" "el_mapped e1 = []" "el_entry e1 = en" by (simp_all add: e1_def prepare_def)
  note N = new_space_load_inv [OF assms(1) n e1(2,3)]
  have va: "validate_header hdr e1 = Some True" using assms(2) validate_bytes [of e1 "\<lparr>el_bytes = b, el_pml4 = 0, el_entry = 0, el_stack_top = 0, el_mapped = []\<rparr>"] e1(1) by (simp add: valid_elf_def)
  let ?ls = "loads b hdr [0..<unat (h_phnum hdr)]"
  have room: "4 * sum_list (map seg_pages ?ls) + 132 \<le> free_left s0" using N(8) assms(3) by simp
  have V: "\<forall>i \<in> set [0..<unat (h_phnum hdr)]. phdr_at b hdr i \<noteq> None" "\<forall>ph \<in> set ?ls. seg_ok b ph"
    using assms(2) by (auto simp: valid_elf_def)
  obtain e2 s2 where m: "map_segments hdr e1 s0 = Some (True, e2, s2)" "132 \<le> free_left s2"
    using map_headers_total [OF N(1), of "[0..<unat (h_phnum hdr)]" hdr 132] V room e1(1) by (auto simp: map_segments_def)
  have I2: "load_inv s0 root (image b ?ls (\<lambda>_. None)) e2 s2" "el_entry e2 = en"
    using map_headers_inv [OF m(1) [unfolded map_segments_def] N(1)] V(2) e1 by (auto simp: seg_ok_def)
  obtain e3 s3 where bs: "build_stack e2 s2 = Some (True, e3, s3)" using build_stack_total [OF I2(1) m(2)] by blast
  have I3: "load_inv s0 root (program_image b hdr) e3 s3" "el_entry e3 = en" "el_stack_top e3 = 0x2001FFF0"
    using build_stack_inv [OF bs I2(1)] I2(2) by (auto simp: program_image_def)
  have "ElfLoader_create (prepare b root e) s0 = Some (LDone, e3, s3)"
    using rh va m(1) bs by (simp add: ElfLoader_create_def enter_validating_def enter_mapping_def enter_building_def e1_def [symmetric])
  moreover note L = load_caller [OF I3(1) N(2)]
  have "current_pml4 s3 = current_pml4 s0" using I3(1) by (simp add: load_inv_def current_pml4_def)
  ultimately show ?thesis
    using n en I3 N(3,4,6,7) L(1,2) by (intro exI [of _ root] exI [of _ s0] exI [of _ e3] exI [of _ s3])
      (auto simp: entry_va_def stack_top_def load_inv_def)
qed

text \<open>
  C6: a valid program loads, and is all its address space shows. With one free frame for the root,
  and four for each page of the segments, of the stack and for the trampoline, making a new space and
  running the loader ends in \<open>$Done\<close>; every address of the lower half then reads as the byte of the
  last segment whose pages contain it (from the file inside the file part of the segment, 0
  outside), as 0 on the 32 stack pages, as the exit stub on the trampoline page, and is
  unmapped elsewhere. Entry point and stack top are those of the file and of the stack region,
  and the address space that was active reads as before.
\<close>

theorem elf_load_image:
  assumes "pages_ok s (current_pml4 s)" and "valid_elf b hdr"
    and "4 * (sum_list (map seg_pages (loads b hdr [0..<unat (h_phnum hdr)])) + 33) + 1 \<le> free_left s"
  shows "\<exists>root s0 e' s'. new_space s = Some (root, s0) \<and> ElfLoader_create (prepare b root e) s0 = Some (LDone, e', s')
     \<and> rd_u64 b 24 = Some (Some (entry_va e')) \<and> stack_top e' = 0x2001FFF0
     \<and> pages_ok s' root \<and> pages_ok s' (current_pml4 s) \<and> current_pml4 s' = current_pml4 s
     \<and> (\<forall>v. low v \<longrightarrow> vread s' root v = program_image b hdr (unat v))
     \<and> (\<forall>v. user_va v \<longrightarrow> vread s' (current_pml4 s) v = vread s (current_pml4 s) v)"
  using assms by (rule elf_load_spec)

section \<open>A failed load\<close>

lemma free_frame_mono:
  assumes "frames_ok s"
  shows "frames_ok (free_frame t s)" and "is_used g s \<Longrightarrow> g \<noteq> frame_no t \<Longrightarrow> is_used g (free_frame t s)"
proof -
  have "frames_ok (free_frame t s) \<and> (is_used g s \<longrightarrow> g \<noteq> frame_no t \<longrightarrow> is_used g (free_frame t s))"
  proof (cases "frame_no t < MAX_FRAMES \<and> is_used (frame_no t) s")
    case True
    then show ?thesis using give_frame [OF assms, of "frame_no t"] by (simp add: free_frame_def Let_def frame_no_def FRAME_SIZE_def unat_div)
  next
    case False
    then show ?thesis using assms by (auto simp: free_frame_def Let_def frame_no_def FRAME_SIZE_def unat_div)
  qed
  then show "frames_ok (free_frame t s)" "is_used g s \<Longrightarrow> g \<noteq> frame_no t \<Longrightarrow> is_used g (free_frame t s)" by auto
qed

lemma unmap_release:
  assumes ok: "space_ok s cur" and c: "current_pml4 s = cur" and v: "low va" and f: "frame_no f \<notin> table_frames s cur"
  defines "s' \<equiv> release_frame f (unmap va s)"
  shows "space_ok s' cur" and "current_pml4 s' = cur" and "table_frames s' cur = table_frames s cur" and "translate va s' = None"
    and "user_va w \<Longrightarrow> translate w s = None \<Longrightarrow> translate w s' = None" and "is_used g (fr s) \<Longrightarrow> g \<noteq> frame_no f \<Longrightarrow> is_used g (fr s')"
proof -
  note uv = low_user [OF v]
  define s1 where "s1 = unmap va s"
  have U: "space_ok s1 cur" "translate va s1 = None" "user_va w \<Longrightarrow> indices w \<noteq> indices va \<Longrightarrow> translate w s1 = translate w s" for w
    using unmap_spec [of s va] ok c uv by (auto simp: s1_def)
  have same: "fr s1 = fr s" "cr3 s1 = cr3 s" by (simp_all add: s1_def unmap_pte split: option.split)
  have T1: "table_frames s1 cur = table_frames s cur"
  proof (cases "tab s cur (butlast (vpath va))")
    case None
    then show ?thesis by (simp add: s1_def unmap_pte c)
  next
    case (Some pt)
    then have "s1 = s\<lparr>pm := wr64 (pm s) (unat pt + 8 * last (vpath va)) 0\<rparr>" by (simp add: s1_def unmap_pte c)
    note W = leaf_write [OF ok vpath_page [OF uv] Some this]
    have "table_frames s1 cur \<subseteq> table_frames s cur"
    proof
      fix h assume h: "h \<in> table_frames s1 cur"
      then have "is_used h (fr s)" using table_used [OF U(1)] same by simp
      then show "h \<in> table_frames s cur" using W(2) h unfolding frames_kept_def by blast
    qed
    then show ?thesis using W(2) unfolding frames_kept_def by blast
  qed
  have fok: "frames_ok (fr s1)" using U(1) by (simp add: space_ok_def)
  have pm': "pm s' = pm s1" "cr3 s' = cr3 s1" "fr s' = free_frame f (fr s1)" by (simp_all add: s'_def release_frame_def s1_def)
  show "space_ok s' cur"
  proof (rule space_unseen [OF U(1)])
    show "is_used h (fr s')" if h: "h \<in> table_frames s1 cur" for h
      using free_frame_mono(2) [OF fok table_used [OF U(1) h], of f] h T1 f pm' by metis
  qed (use free_frame_mono(1) [OF fok] pm' in auto)
  show "current_pml4 s' = cur" using c same pm' by (simp add: current_pml4_def)
  show "table_frames s' cur = table_frames s cur" using tab_unseen(3) [OF U(1), of s'] pm' T1 by simp
  have tr: "translate w s' = translate w s1" for w unfolding translate_def current_pml4_def pm' ..
  show "translate va s' = None" using U(2) tr by simp
  show "translate w s' = None" if "user_va w" "translate w s = None"
  proof (cases "indices w = indices va")
    case True
    then have "vpath w = vpath va" by (simp add: vpath_indices)
    then have "translate w s1 = None" using U(2) by (simp add: translate_pte pte_def split: if_splits)
    then show ?thesis by (simp add: tr)
  qed (use U(3) that tr in simp)
  show "is_used g (fr s) \<Longrightarrow> g \<noteq> frame_no f \<Longrightarrow> is_used g (fr s')" using free_frame_mono(2) [OF fok] pm' same by simp
qed

lemma cleanup_spec:
  assumes "space_ok s cur" and "current_pml4 s = cur" and "\<forall>(va, f) \<in> set xs. low va \<and> frame_no f \<notin> U" and "table_frames s cur \<subseteq> U"
    and "\<forall>g \<in> U. is_used g (fr s)"
  defines "s' \<equiv> fold (\<lambda>(va, frame) s. release_frame frame (unmap va s)) xs s"
  shows "\<forall>g \<in> U. is_used g (fr s')" and "(va, f) \<in> set xs \<Longrightarrow> translate va s' = None"
    and "user_va w \<Longrightarrow> translate w s = None \<Longrightarrow> translate w s' = None"
proof -
  have "(\<forall>g \<in> U. is_used g (fr s')) \<and> (\<forall>va f. (va, f) \<in> set xs \<longrightarrow> translate va s' = None)
      \<and> (\<forall>w. user_va w \<longrightarrow> translate w s = None \<longrightarrow> translate w s' = None)"
    using assms(1-5) unfolding s'_def
  proof (induction xs arbitrary: s)
    case (Cons x xs)
    obtain va f where x: "x = (va, f)" by (cases x)
    define s1 where "s1 = release_frame f (unmap va s)"
    have h: "low va" "frame_no f \<notin> U" using Cons.prems(3) x by auto
    then have "frame_no f \<notin> table_frames s cur" using Cons.prems(4) by blast
    note R = unmap_release [OF Cons.prems(1,2) h(1) this, folded s1_def]
    have IH: "(\<forall>g \<in> U. is_used g (fr (fold (\<lambda>(va, frame) s. release_frame frame (unmap va s)) xs s1)))
        \<and> (\<forall>va f. (va, f) \<in> set xs \<longrightarrow> translate va (fold (\<lambda>(va, frame) s. release_frame frame (unmap va s)) xs s1) = None)
        \<and> (\<forall>w. user_va w \<longrightarrow> translate w s1 = None \<longrightarrow> translate w (fold (\<lambda>(va, frame) s. release_frame frame (unmap va s)) xs s1) = None)"
    proof (rule Cons.IH)
      show "\<forall>g \<in> U. is_used g (fr s1)" using R(6) Cons.prems(5) h(2) by metis
    qed (use R(1,2,3) Cons.prems(3,4) in auto)
    have "user_va va" by (rule low_user [OF h(1)])
    then show ?case using IH R(4,5) x by (simp add: s1_def [symmetric])
  qed simp
  then show "\<forall>g \<in> U. is_used g (fr s')" "(va, f) \<in> set xs \<Longrightarrow> translate va s' = None"
    "user_va w \<Longrightarrow> translate w s = None \<Longrightarrow> translate w s' = None" by blast+
qed

text \<open>
  C39: a load that fails damages the caller. The roll-back of the loader unmaps the pages it had
  mapped so far, but in the address space that is active, the caller's, and not in the new one: when
  mapping the segments fails, every address that was tracked is unmapped for the process that
  called \<open>exec\<close>, although that process is meant to keep running; the root table of the new space
  is not given back.
\<close>

theorem failed_load_unmaps_caller:
  assumes "pages_ok s (current_pml4 s)" and "new_space s = Some (root, s0)"
    and "read_header (prepare b root e) = Some (Some hdr, e1)" and "validate_header hdr e1 = Some True"
    and "\<forall>ph \<in> set (loads b hdr [0..<unat (h_phnum hdr)]). seg_low ph"
    and "map_segments hdr e1 s0 = Some (False, e2, s2)" and "(va, f) \<in> set (el_mapped e2)"
  shows "\<exists>e' s'. ElfLoader_create (prepare b root e) s0 = Some (LFailed ''segment mapping failed'', e', s')
     \<and> current_pml4 s' = current_pml4 s \<and> translate va s' = None \<and> is_used (frame_no root) (fr s')"
proof -
  have e1: "el_bytes e1 = b" "el_pml4 e1 = root" "el_mapped e1 = []"
    using assms(3) by (auto simp: read_header_def prepare_def Let_def split: Option.bind_splits option.splits)
  note N = new_space_load_inv [OF assms(1,2) e1(2,3)]
  obtain img where I: "load_inv s0 root img e2 s2"
    using map_headers_inv [OF assms(6) [unfolded map_segments_def] N(1)] assms(5) e1(1) by auto
  define cur where "cur = current_pml4 s"
  have c2: "current_pml4 s2 = cur" using I N(3) by (simp add: load_inv_def current_pml4_def cur_def)
  have nr: "frame_no root \<notin> space_frames s0 cur" using N(6,7) by (simp add: cur_def)
  note L = load_caller [OF I N(2) [folded cur_def] nr]
  have ok2: "space_ok s2 cur" using L(1) by (simp add: pages_ok_def)
  define U where "U = {g. is_used g (fr s0)}"
  have "table_frames s2 cur \<subseteq> space_frames s0 cur" using L(4) by (auto simp: space_frames_def)
  then have tU: "table_frames s2 cur \<subseteq> U" using space_frames_used [OF N(2) [folded cur_def]] unfolding U_def by blast
  have xs: "\<forall>(va, f) \<in> set (el_mapped e2). low va \<and> frame_no f \<notin> U" "\<forall>g \<in> U. is_used g (fr s2)"
    using I by (auto simp: load_inv_def U_def)
  note C = cleanup_spec [OF ok2 c2 xs(1) tU xs(2)]
  have fok: "frames_ok (fr s)" using assms(1) by (simp add: pages_ok_def space_ok_def)
  have ur: "user_path []" "tab s (current_pml4 s) [] = Some (current_pml4 s)" by (simp_all add: user_path_def)
  have "frame_no root \<in> U" unfolding U_def
    using new_space_spec(4) [OF fok space_tab [OF pages_okD(1) [OF assms(1)] ur] assms(2)] by blast
  moreover have "cr3 (fold (\<lambda>(va, frame) s. release_frame frame (unmap va s)) xs t) = cr3 t" for xs t
    by (induction xs arbitrary: t) (auto simp: release_frame_def unmap_pte split: option.split)
  ultimately show ?thesis
    using C(1) C(2) [OF assms(7)] assms(3,4,6) c2
    by (auto simp: ElfLoader_create_def enter_validating_def enter_mapping_def enter_failed_def cleanup_def current_pml4_def cur_def)
qed

section \<open>Examples\<close>

text \<open>
  A program of one segment with two bytes, and one whose second segment lies outside the file. A
  machine with an empty root table in frame 1 and the frames 2 to 199 free.
\<close>

definition tiny_elf :: bytes where
  "tiny_elf =
    [127, 69, 76, 70, 2, 1, 1, 0, 0, 0, 0, 0, 0, 0, 0, 0, 2, 0, 62, 0, 0, 0, 0, 0, 0, 0, 0, 16, 0, 0, 0, 0, 64, 0,
     0, 0, 0, 0, 0, 0, 0, 0, 0, 0, 0, 0, 0, 0, 0, 0, 0, 0, 0, 0, 56, 0, 1, 0, 0, 0, 0, 0, 0, 0, 1, 0, 0, 0, 5, 0,
     0, 0, 120, 0, 0, 0, 0, 0, 0, 0, 0, 0, 0, 16, 0, 0, 0, 0, 0, 0, 0, 16, 0, 0, 0, 0, 2, 0, 0, 0, 0, 0, 0, 0, 2,
     0, 0, 0, 0, 0, 0, 0, 0, 16, 0, 0, 0, 0, 0, 0, 15, 11]"

definition broken_elf :: bytes where
  "broken_elf =
    [127, 69, 76, 70, 2, 1, 1, 0, 0, 0, 0, 0, 0, 0, 0, 0, 2, 0, 62, 0, 0, 0, 0, 0, 0, 0, 0, 0, 0, 0, 0, 0, 64, 0,
     0, 0, 0, 0, 0, 0, 0, 0, 0, 0, 0, 0, 0, 0, 0, 0, 0, 0, 0, 0, 56, 0, 2, 0, 0, 0, 0, 0, 0, 0, 1, 0, 0, 0, 5, 0,
     0, 0, 176, 0, 0, 0, 0, 0, 0, 0, 0, 0, 0, 0, 0, 0, 0, 0, 0, 0, 0, 0, 0, 0, 0, 0, 1, 0, 0, 0, 0, 0, 0, 0, 1, 0,
     0, 0, 0, 0, 0, 0, 0, 16, 0, 0, 0, 0, 0, 0, 1, 0, 0, 0, 5, 0, 0, 0, 0, 16, 0, 0, 0, 0, 0, 0, 0, 16, 0, 0, 0, 0,
     0, 0, 0, 16, 0, 0, 0, 0, 0, 0, 1, 0, 0, 0, 0, 0, 0, 0, 1, 0, 0, 0, 0, 0, 0, 0, 0, 16, 0, 0, 0, 0, 0, 0, 144]"

definition tiny_header :: elf_header where
  "tiny_header = \<lparr>h_phoff = 64, h_phentsize = 56, h_phnum = 1\<rparr>"

definition broken_header :: elf_header where
  "broken_header = \<lparr>h_phoff = 64, h_phentsize = 56, h_phnum = 2\<rparr>"

lemmas elf_eval = get_range_nat rd_u16_def rd_u32_def rd_u64_def checked_add_def u16_from_le_def u32_from_le_def u64_from_le_def

lemma tiny_elf_header: "exec_header tiny_elf = Some tiny_header"
  by (simp add: exec_header_def read_header_def elf_eval tiny_header_def tiny_elf_def)

lemma tiny_phdr: "phdr_at tiny_elf tiny_header 0 = Some \<lparr>p_type = 1, p_flags = 5, p_offset = 120, p_vaddr = 0x10000000, p_filesz = 2, p_memsz = 2\<rparr>"
  by (simp add: phdr_at_def read_phdr_def elf_eval tiny_header_def tiny_elf_def)

lemma tiny_valid: "validate_header tiny_header \<lparr>el_bytes = tiny_elf, el_pml4 = 0, el_entry = 0, el_stack_top = 0, el_mapped = []\<rparr> = Some True"
  by (simp add: validate_header_def elf_eval tiny_header_def tiny_elf_def)

lemma tiny_loads: "loads tiny_elf tiny_header [0..<unat (h_phnum tiny_header)] =
    [\<lparr>p_type = 1, p_flags = 5, p_offset = 120, p_vaddr = 0x10000000, p_filesz = 2, p_memsz = 2\<rparr>]"
proof -
  have "[0..<unat (h_phnum tiny_header)] = [0]" by (simp add: tiny_header_def upt_rec)
  then show ?thesis by (simp add: loads_Cons tiny_phdr) (simp add: loads_def map_filter_simps)
qed

lemma tiny_valid_elf: "valid_elf tiny_elf tiny_header"
proof -
  have "unat (h_phnum tiny_header) = 1" by (simp add: tiny_header_def)
  moreover have "length tiny_elf = 122" by (simp add: tiny_elf_def)
  ultimately show ?thesis
    unfolding valid_elf_def tiny_loads by (simp add: tiny_elf_header tiny_valid tiny_phdr seg_ok_def seg_low_def)
qed

definition room_machine :: machine where
  "room_machine = \<lparr>fr = fold free_step [2..<200] FRAMES_init, pm = (\<lambda>_. 0), cr3 = 0x1000\<rparr>"

lemma room_machine_facts: "current_pml4 room_machine = 0x1000" "pages_ok room_machine 0x1000" "198 \<le> free_left room_machine"
proof -
  show "current_pml4 room_machine = 0x1000" by (simp add: current_pml4_def room_machine_def ADDR_MASK_def)
  have fr: "fr room_machine = fold free_step [2..<200] FRAMES_init" by (simp only: room_machine_def machine.select_convs)
  note F = fold_free_step [OF FRAMES_init_ok, of "[2..<200]", folded fr]
  have m: "200 < MAX_FRAMES" by (simp add: MAX_FRAMES_def)
  have ok: "frames_ok (fr room_machine)" using F by blast
  have used: "is_used g (fr room_machine) \<longleftrightarrow> is_used g FRAMES_init \<and> \<not> (2 \<le> g \<and> g < 200)" for g
  proof -
    have "is_used g (fr room_machine) \<longleftrightarrow> is_used g FRAMES_init \<and> \<not> (g \<in> set [2..<200] \<and> g < MAX_FRAMES)" using F by blast
    also have "g \<in> set [2..<200] \<and> g < MAX_FRAMES \<longleftrightarrow> 2 \<le> g \<and> g < 200"
      unfolding set_upt atLeastLessThan_iff using m by linarith
    finally show ?thesis .
  qed
  have "is_used 1 (fr room_machine)" using used [of 1] FRAMES_init_used [of 1] m by simp
  then have sp: "space_ok room_machine 0x1000"
    using ok by (intro empty_space_ok) (simp_all add: frame_addr_def frame_no_def MAX_FRAMES_def entry_def room_machine_def rd64_zero present_def)
  have e: "entry room_machine t i = 0" for t i by (simp add: entry_def room_machine_def rd64_zero)
  have "leaf room_machine 0x1000 q = 0" for q by (simp add: leaf_def e split: option.split)
  then have "mapped room_machine 0x1000 = {}" by (simp add: mapped_def present_def)
  then show "pages_ok room_machine 0x1000" using sp by (simp add: pages_ok_def leaves_ok_def)
  have "{2..<200} \<subseteq> free_frames (fr room_machine) - {0}" 
  proof
    fix g :: nat assume "g \<in> {2..<200}"
    then have "2 \<le> g" "g < 200" unfolding atLeastLessThan_iff by auto
    then show "g \<in> free_frames (fr room_machine) - {0}" using used [of g] m unfolding free_frames_def by simp
  qed
  from card_mono [OF _ this] show "198 \<le> free_left room_machine" by (simp add: free_left_def free_frames_def)
qed

theorem elf_load_image_witness:
  "\<exists>root s0 e' s'. new_space room_machine = Some (root, s0)
     \<and> ElfLoader_create (prepare tiny_elf root \<lparr>el_bytes = [], el_pml4 = 0, el_entry = 0, el_stack_top = 0, el_mapped = []\<rparr>) s0 = Some (LDone, e', s')
     \<and> vread s' root 0x10000001 = program_image tiny_elf tiny_header 0x10000001"
proof -
  have r: "4 * (sum_list (map seg_pages (loads tiny_elf tiny_header [0..<unat (h_phnum tiny_header)])) + 33) + 1 \<le> free_left room_machine"
    using room_machine_facts(3) by (simp add: tiny_loads seg_pages_def)
  have l: "low 0x10000001" "unat (0x10000001 :: u64) = 0x10000001" by (simp_all add: low_def)
  have p: "pages_ok room_machine (current_pml4 room_machine)" using room_machine_facts(1,2) by simp
  let ?e = "\<lparr>el_bytes = [], el_pml4 = 0, el_entry = 0, el_stack_top = 0, el_mapped = []\<rparr>"
  obtain root s0 e' s' where x: "new_space room_machine = Some (root, s0)" "ElfLoader_create (prepare tiny_elf root ?e) s0 = Some (LDone, e', s')"
    "\<forall>v. low v \<longrightarrow> vread s' root v = program_image tiny_elf tiny_header (unat v)"
    using elf_load_image [OF p tiny_valid_elf r, of ?e] by blast
  have "vread s' root 0x10000001 = program_image tiny_elf tiny_header 0x10000001" using x(3) l by fastforce
  then show ?thesis using x(1,2) by blast
qed

lemma map_pages_tracks:
  assumes m: "map_pages ph fe se fl va e s = Some (True, e', s')" and I: "load_inv s0 root img e s" and se: "unat se \<le> 2 ^ 47"
    and va: "unat va mod 4096 = 0" and fe: "unat fe = unat (p_vaddr ph) + unat (p_filesz ph)" and v: "va < se" "el_mapped e = []"
  shows "\<exists>f. (va, f) \<in> set (el_mapped e')"
proof -
  have fok: "frames_ok (fr s)" and root: "el_pml4 e = root" using I by (auto simp: load_inv_def pages_ok_def space_ok_def)
  obtain f fr1 m1 s2 where al: "alloc_frame (fr s) = (Some f, fr1)" and pc: "page_content ph fe va (el_bytes e) f (pm s) = Some (Some m1)"
    and mp: "map_in (el_pml4 e) va f fl (s\<lparr>fr := fr1, pm := m1\<rparr>) = Some s2" and o: "unat va + 4096 < 2 ^ 64"
    and rec: "map_pages ph fe se fl (va + PAGE) (track va f e) s2 = Some (True, e', s')"
    using m v(1) by (subst (asm) map_pages.simps) (auto split: option.splits prod.splits if_splits)
  note A = alloc_frame_facts [OF fok al]
  have l: "low va" using v(1) se by (simp add: low_def word_less_nat_alt)
  have same: "\<forall>x. x div 4096 \<noteq> frame_no f \<longrightarrow> m1 x = pm s x" using page_content_outside [OF pc A(2)] by blast
  note S = load_step [OF I al l same mp [unfolded root]]
  have "unat (va + PAGE) = unat va + 4096" using o unat_add_checked [of va PAGE] by (simp add: PAGE_def)
  then have "set (el_mapped (track va f e)) \<subseteq> set (el_mapped e')" using map_pages_inv [OF rec S se _ fe] va by fastforce
  moreover have "(va, f) \<in> set (el_mapped (track va f e))" using v(2) by (simp add: track_def MAX_TRACKED_def)
  ultimately show ?thesis by blast
qed

lemma broken_phdrs:
  "phdr_at broken_elf broken_header 0 = Some \<lparr>p_type = 1, p_flags = 5, p_offset = 176, p_vaddr = 0, p_filesz = 1, p_memsz = 1\<rparr>"
  "phdr_at broken_elf broken_header 1 = Some \<lparr>p_type = 1, p_flags = 5, p_offset = 0x1000, p_vaddr = 0x1000, p_filesz = 1, p_memsz = 1\<rparr>"
  "exec_header broken_elf = Some broken_header" "length broken_elf = 177"
  "validate_header broken_header \<lparr>el_bytes = broken_elf, el_pml4 = 0, el_entry = 0, el_stack_top = 0, el_mapped = []\<rparr> = Some True"
  by (simp_all add: phdr_at_def read_phdr_def exec_header_def read_header_def validate_header_def elf_eval broken_header_def broken_elf_def)

lemma broken_loads: "loads broken_elf broken_header [0..<unat (h_phnum broken_header)] =
    [\<lparr>p_type = 1, p_flags = 5, p_offset = 176, p_vaddr = 0, p_filesz = 1, p_memsz = 1\<rparr>,
     \<lparr>p_type = 1, p_flags = 5, p_offset = 0x1000, p_vaddr = 0x1000, p_filesz = 1, p_memsz = 1\<rparr>]"
proof -
  have "[0..<unat (h_phnum broken_header)] = [0, 1]" by (simp add: broken_header_def upt_rec)
  then show ?thesis using broken_phdrs(1,2) by (simp add: loads_Cons) (simp add: loads_def map_filter_simps)
qed

lemma bad_segment_fails:
  assumes b: "length (el_bytes e) \<le> 0x1000" and I: "load_inv s0 root img e s"
    and ph: "p_offset ph = 0x1000" "p_vaddr ph = 0x1000" "p_filesz ph = 1" "p_memsz ph = 1"
  shows "\<exists>s'. map_one_segment ph fl e s = Some (False, e, s')"
proof -
  have al: "(0x1000 :: u64) AND NOT (PAGE - 1) = 0x1000" by (simp add: PAGE_def)
  have v: "unat (0x1000 :: u64) + 4096 < 2 ^ 64" by simp
  have c: "page_content ph 0x1001 0x1000 (el_bytes e) f (pm s) = Some None" for f
    unfolding page_content_nat [OF v] using b ph by simp
  obtain r fr1 where "alloc_frame (fr s) = (r, fr1)" by (meson surj_pair)
  then have "\<exists>s'. map_pages ph 0x1001 0x1001 fl 0x1000 e s = Some (False, e, s')"
    by (subst map_pages.simps, cases r) (simp_all add: c)
  then show ?thesis using ph al by (simp add: map_one_segment_def checked_add_def)
qed

lemma demo_tables_pages: "pages_ok demo_tables (current_pml4 demo_tables)" "4 < free_left demo_tables" "translate 0 demo_tables = Some 0x5000"
proof -
  have c: "current_pml4 demo_tables = 0x1000" by (simp add: current_pml4_def demo_tables_def ADDR_MASK_def)
  show "pages_ok demo_tables (current_pml4 demo_tables)" "4 < free_left demo_tables"
    using demo_tables_facts by (simp_all add: pages_ok_def c free_left_def)
  have "tab demo_tables 0x1000 [0, 0, 0] = Some 0x4000" using demo_tables_tab [of "[0, 0, 0]"] by (simp add: user_path_def)
  then have "pte demo_tables 0x1000 0 = 0x5007"
    using demo_tables_entry [OF demo_frame_addr(4), of 0] by (simp add: pte_def leaf_def vpath_def indices_def)
  then show "translate 0 demo_tables = Some 0x5000" by (simp add: translate_pte c present_def PRESENT_def ADDR_MASK_def)
qed

theorem failed_load_unmaps_caller_witness:
  "\<exists>root s0 e' s'. translate 0 demo_tables = Some 0x5000 \<and> new_space demo_tables = Some (root, s0)
     \<and> ElfLoader_create (prepare broken_elf root \<lparr>el_bytes = [], el_pml4 = 0, el_entry = 0, el_stack_top = 0, el_mapped = []\<rparr>) s0
         = Some (LFailed ''segment mapping failed'', e', s')
     \<and> current_pml4 s' = current_pml4 demo_tables \<and> translate 0 s' = None"
proof -
  let ?e = "\<lparr>el_bytes = [], el_pml4 = 0, el_entry = 0, el_stack_top = 0, el_mapped = []\<rparr>"
  note P = demo_tables_pages(1)
  obtain root s0 where n: "new_space demo_tables = Some (root, s0)"
    using new_space_total [of demo_tables] P demo_tables_pages(2) by (auto simp: pages_ok_def space_ok_def free_left_def)
  obtain en where rh: "read_header (prepare broken_elf root ?e) = Some (Some broken_header, (prepare broken_elf root ?e)\<lparr>el_entry := en\<rparr>)"
    using read_header_fields [OF broken_phdrs(3), of "prepare broken_elf root ?e"] by (auto simp: prepare_def)
  define e1 where "e1 = (prepare broken_elf root ?e)\<lparr>el_entry := en\<rparr>"
  have e1: "el_bytes e1 = broken_elf" "el_pml4 e1 = root" "el_mapped e1 = []" by (simp_all add: e1_def prepare_def)
  note N = new_space_load_inv [OF P n e1(2,3)]
  have va: "validate_header broken_header e1 = Some True" using broken_phdrs(5) validate_bytes [of e1 "?e\<lparr>el_bytes := broken_elf\<rparr>"] e1(1) by simp
  define p1 where "p1 = \<lparr>p_type = 1, p_flags = 5, p_offset = 176, p_vaddr = 0, p_filesz = 1, p_memsz = 1\<rparr>"
  define p2 where "p2 = \<lparr>p_type = 1, p_flags = 5, p_offset = 0x1000, p_vaddr = 0x1000, p_filesz = 1, p_memsz = 1\<rparr>"
  have ok1: "seg_ok (el_bytes e1) p1" using broken_phdrs(4) e1(1) by (simp add: seg_ok_def seg_low_def p1_def)
  obtain e2 s2 where m1: "map_one_segment p1 (seg_flags p1) e1 s0 = Some (True, e2, s2)"
    using map_one_segment_total [OF N(1) ok1, of 0 "seg_flags p1"] N(8) demo_tables_pages(2) by (auto simp: seg_pages_def p1_def)
  have I2: "\<exists>img. load_inv s0 root img e2 s2" "el_bytes e2 = broken_elf"
    using map_one_segment_inv [OF m1 N(1)] ok1 e1(1) by (auto simp: seg_ok_def)
  have "map_pages p1 1 1 (seg_flags p1) 0 e1 s0 = Some (True, e2, s2)" using m1 by (simp add: map_one_segment_def p1_def checked_add_def)
  then obtain f where f: "(0, f) \<in> set (el_mapped e2)"
    using map_pages_tracks [OF _ N(1) _ _ _ _ e1(3)] by (fastforce simp: p1_def)
  obtain s3 where m2: "map_one_segment p2 (seg_flags p2) e2 s2 = Some (False, e2, s3)"
    using bad_segment_fails [of e2 s0 root _ s2 p2] I2 broken_phdrs(4) by (auto simp: p2_def)
  have "phdr_at broken_elf broken_header 0 = Some p1" "phdr_at broken_elf broken_header 1 = Some p2"
    using broken_phdrs(1,2) unfolding p1_def p2_def by blast+
  moreover have "[0..<unat (h_phnum broken_header)] = [0, 1]" by (simp add: broken_header_def upt_rec)
  ultimately have m: "map_segments broken_header e1 s0 = Some (False, e2, s3)"
    using m1 m2 e1(1) I2(2) by (auto simp: map_segments_def phdr_at_def p1_def p2_def split: Option.bind_splits)
  have "\<forall>ph \<in> set (loads broken_elf broken_header [0..<unat (h_phnum broken_header)]). seg_low ph"
    unfolding broken_loads by (simp add: seg_low_def)
  from failed_load_unmaps_caller [OF P n rh [folded e1_def] va this m f] show ?thesis
    using n demo_tables_pages(3) by blast
qed

end
