(* ===== verification/ShellParse.thy ===== *)
theory ShellParse
  imports Prelude
begin

text \<open>
  The command line of the shell: \<open>frame/parser.frs\<close> (characters to tokens) and \<open>frame/pipeline.frs\<close>
  (tokens to a pipeline of commands), the two Frame systems that the interactive shell runs on every
  line. A Rust \<open>String\<close> is the list of its characters, a \<open>char\<close> its code point.

  The scanner accepts exactly the spelled token lists, the grammar exactly the token lists that a
  reference description of stages gives, and a pipeline that is written as a line is read back.
\<close>

section \<open>Characters\<close>

type_synonym ch = u32
type_synonym chars = "ch list"

text \<open>A literal of the source, as characters or as bytes.\<close>

definition lit :: "string \<Rightarrow> 'a::len word list" where
  "lit s = map of_char s"

text \<open>\<open>char::is_whitespace\<close>: the Unicode property White\_Space.\<close>

definition is_whitespace :: "ch \<Rightarrow> bool" where
  "is_whitespace c \<longleftrightarrow> (9 \<le> c \<and> c \<le> 13) \<or> c = 0x20 \<or> c = 0x85 \<or> c = 0xA0 \<or> c = 0x1680
     \<or> (0x2000 \<le> c \<and> c \<le> 0x200A) \<or> c = 0x2028 \<or> c = 0x2029 \<or> c = 0x202F \<or> c = 0x205F \<or> c = 0x3000"

text \<open>\<open>str::trim\<close>.\<close>

definition trim :: "chars \<Rightarrow> chars" where
  "trim s = rev (dropWhile is_whitespace (rev (dropWhile is_whitespace s)))"

section \<open>Tokens\<close>

datatype token = TWord (tok_text: chars) | TPipe | TRedirIn | TRedirOut | TRedirAppend | TAmp

definition classify_word :: "chars \<Rightarrow> token" where
  "classify_word s =
     (if s = lit ''|'' then TPipe
      else if s = lit ''<'' then TRedirIn
      else if s = lit ''>'' then TRedirOut
      else if s = lit ''>>'' then TRedirAppend
      else if s = lit ''&'' then TAmp
      else TWord s)"

fun token_literal :: "token \<Rightarrow> chars" where
  "token_literal (TWord s) = s"
| "token_literal TPipe = lit ''|''"
| "token_literal TRedirIn = lit ''<''"
| "token_literal TRedirOut = lit ''>''"
| "token_literal TRedirAppend = lit ''>>''"
| "token_literal TAmp = lit ''&''"

section \<open>The scanner\<close>

datatype parser_state = ReadingWord | InWord | InQuotedString | ScanDone | ScanFailed

record parser =
  p_state :: parser_state
  p_tokens :: "token list"
  p_current :: chars
  p_quote :: ch
  p_error :: chars

definition Parser_create :: parser where
  "Parser_create = \<lparr>p_state = ReadingWord, p_tokens = [], p_current = [], p_quote = 0, p_error = []\<rparr>"

definition p_push :: "token \<Rightarrow> parser \<Rightarrow> parser" where
  "p_push t p = p\<lparr>p_tokens := p_tokens p @ [t], p_current := []\<rparr>"

definition p_consume :: "ch \<Rightarrow> parser \<Rightarrow> parser" where
  "p_consume c p = (case p_state p of
       ReadingWord \<Rightarrow>
         if c = 0x22 \<or> c = 0x27 then p\<lparr>p_quote := c, p_state := InQuotedString\<rparr>
         else if is_whitespace c then p
         else p\<lparr>p_current := p_current p @ [c], p_state := InWord\<rparr>
     | InWord \<Rightarrow>
         if is_whitespace c then (p_push (classify_word (p_current p)) p)\<lparr>p_state := ReadingWord\<rparr>
         else p\<lparr>p_current := p_current p @ [c]\<rparr>
     | InQuotedString \<Rightarrow>
         if c = p_quote p then (p_push (TWord (p_current p)) p)\<lparr>p_quote := 0, p_state := ReadingWord\<rparr>
         else p\<lparr>p_current := p_current p @ [c]\<rparr>
     | ScanDone \<Rightarrow> p
     | ScanFailed \<Rightarrow> p)"

definition p_finalize :: "parser \<Rightarrow> parser" where
  "p_finalize p = (case p_state p of
       ReadingWord \<Rightarrow> p\<lparr>p_state := ScanDone\<rparr>
     | InWord \<Rightarrow> (p_push (classify_word (p_current p)) p)\<lparr>p_state := ScanDone\<rparr>
     | InQuotedString \<Rightarrow> p\<lparr>p_error := lit ''unterminated quoted string: missing closing '' @ [p_quote p], p_state := ScanFailed\<rparr>
     | ScanDone \<Rightarrow> p
     | ScanFailed \<Rightarrow> p)"

definition p_is_complete :: "parser \<Rightarrow> bool" where
  "p_is_complete p \<longleftrightarrow> p_state p = ScanDone \<or> p_state p = ScanFailed"

text \<open>The scan of a whole line, as \<open>$Parsing\<close> of the shell runs it.\<close>

definition scan_line :: "chars \<Rightarrow> parser" where
  "scan_line s = p_finalize (fold p_consume s Parser_create)"

section \<open>The grammar\<close>

datatype token_kind = KWord | KPipe | KRedirIn | KRedirOut | KRedirAppend | KAmp

fun token_split :: "token \<Rightarrow> token_kind \<times> chars" where
  "token_split (TWord w) = (KWord, w)"
| "token_split TPipe = (KPipe, [])"
| "token_split TRedirIn = (KRedirIn, [])"
| "token_split TRedirOut = (KRedirOut, [])"
| "token_split TRedirAppend = (KRedirAppend, [])"
| "token_split TAmp = (KAmp, [])"

record command =
  c_words :: "chars list"
  c_in :: "chars option"
  c_out :: "chars option"
  c_append :: bool

definition Command_default :: command where
  "Command_default = \<lparr>c_words = [], c_in = None, c_out = None, c_append = False\<rparr>"

datatype pl_state = ReadingCommand | ExpectingTarget | TrailingAmp | PlDone | PlError

record pipeline =
  pl_state :: pl_state
  pl_commands :: "command list"
  pl_current :: command
  pl_background :: bool
  pl_pending_input :: bool
  pl_error :: chars

definition Pipeline_create :: pipeline where
  "Pipeline_create = \<lparr>pl_state = ReadingCommand, pl_commands = [], pl_current = Command_default,
     pl_background = False, pl_pending_input = False, pl_error = []\<rparr>"

definition commit_command :: "pipeline \<Rightarrow> pipeline" where
  "commit_command l = l\<lparr>pl_commands := pl_commands l @ [pl_current l], pl_current := Command_default\<rparr>"

definition pl_fail :: "chars \<Rightarrow> pipeline \<Rightarrow> pipeline" where
  "pl_fail e l = l\<lparr>pl_error := e, pl_state := PlError\<rparr>"

definition near_pipe :: chars where
  "near_pipe = lit ''syntax error near '' @ [0x27, 0x7C, 0x27]"

definition pl_read :: "token_kind \<Rightarrow> chars \<Rightarrow> pipeline \<Rightarrow> pipeline" where
  "pl_read k w l = (let c = pl_current l in case k of
       KWord \<Rightarrow> l\<lparr>pl_current := c\<lparr>c_words := c_words c @ [w]\<rparr>\<rparr>
     | KRedirIn \<Rightarrow> l\<lparr>pl_pending_input := True, pl_state := ExpectingTarget\<rparr>
     | KRedirOut \<Rightarrow> l\<lparr>pl_current := c\<lparr>c_append := False\<rparr>, pl_pending_input := False, pl_state := ExpectingTarget\<rparr>
     | KRedirAppend \<Rightarrow> l\<lparr>pl_current := c\<lparr>c_append := True\<rparr>, pl_pending_input := False, pl_state := ExpectingTarget\<rparr>
     | KPipe \<Rightarrow> if c_words c = [] then pl_fail near_pipe l else commit_command l
     | KAmp \<Rightarrow> l\<lparr>pl_background := True, pl_state := TrailingAmp\<rparr>)"

definition pl_target :: "token_kind \<Rightarrow> chars \<Rightarrow> pipeline \<Rightarrow> pipeline" where
  "pl_target k w l = (let c = pl_current l in
     if k = KWord
     then l\<lparr>pl_current := (if pl_pending_input l then c\<lparr>c_in := Some w\<rparr> else c\<lparr>c_out := Some w\<rparr>), pl_state := ReadingCommand\<rparr>
     else pl_fail (lit ''expected filename after redirection operator'') l)"

definition pl_consume :: "token_kind \<Rightarrow> chars \<Rightarrow> pipeline \<Rightarrow> pipeline" where
  "pl_consume k w l = (case pl_state l of
       ReadingCommand \<Rightarrow> pl_read k w l
     | ExpectingTarget \<Rightarrow> pl_target k w l
     | TrailingAmp \<Rightarrow> pl_fail (lit ''unexpected token after '' @ [0x27, 0x26, 0x27]) l
     | PlDone \<Rightarrow> l
     | PlError \<Rightarrow> l)"

definition pl_finalize :: "pipeline \<Rightarrow> pipeline" where
  "pl_finalize l = (case pl_state l of
       ReadingCommand \<Rightarrow>
         if c_words (pl_current l) = []
         then if pl_commands l = [] then l\<lparr>pl_state := PlDone\<rparr> else pl_fail near_pipe l
         else (commit_command l)\<lparr>pl_state := PlDone\<rparr>
     | ExpectingTarget \<Rightarrow> pl_fail (lit ''missing redirection target'') l
     | TrailingAmp \<Rightarrow> (if c_words (pl_current l) = [] then l else commit_command l)\<lparr>pl_state := PlDone\<rparr>
     | PlDone \<Rightarrow> l
     | PlError \<Rightarrow> l)"

text \<open>The second stage of \<open>$Parsing\<close>: all tokens, then the end.\<close>

definition fold_tokens :: "token list \<Rightarrow> pipeline" where
  "fold_tokens ts = pl_finalize (fold (\<lambda>t. case token_split t of (k, w) \<Rightarrow> pl_consume k w) ts Pipeline_create)"

section \<open>What the scanner accepts\<close>

text \<open>
  The spelling of token lists: an unquoted word is a run without white space that does not start with
  a quote and is classified; a quoted word ends at the next quote of the same kind. White space
  must follow an unquoted word unless the line ends, and is optional elsewhere.
\<close>

definition bare :: "chars \<Rightarrow> bool" where
  "bare w \<longleftrightarrow> w \<noteq> [] \<and> hd w \<noteq> 0x22 \<and> hd w \<noteq> 0x27 \<and> (\<forall>c\<in>set w. \<not> is_whitespace c)"

inductive spelled :: "token list \<Rightarrow> chars \<Rightarrow> bool" where
  sp_nil: "spelled [] []"
| sp_white: "is_whitespace c \<Longrightarrow> spelled ts s \<Longrightarrow> spelled ts (c # s)"
| sp_last: "bare w \<Longrightarrow> spelled [classify_word w] w"
| sp_bare: "bare w \<Longrightarrow> is_whitespace c \<Longrightarrow> spelled ts s \<Longrightarrow> spelled (classify_word w # ts) (w @ c # s)"
| sp_quoted: "q = 0x22 \<or> q = 0x27 \<Longrightarrow> q \<notin> set w \<Longrightarrow> spelled ts s \<Longrightarrow> spelled (TWord w # ts) (q # w @ q # s)"

lemma not_white_quote [simp]: "\<not> is_whitespace 0x22" "\<not> is_whitespace 0x27"
  by (simp_all add: is_whitespace_def)

lemma white_space [simp]: "is_whitespace 0x20"
  by (simp add: is_whitespace_def)

lemma consume_word:
  assumes "p_state p = InWord" "\<forall>c\<in>set w. \<not> is_whitespace c"
  shows "fold p_consume w p = p\<lparr>p_current := p_current p @ w\<rparr>"
  using assms by (induction w arbitrary: p) (auto simp: p_consume_def)

lemma consume_quoted:
  assumes "p_state p = InQuotedString" "p_quote p \<notin> set w"
  shows "fold p_consume w p = p\<lparr>p_current := p_current p @ w\<rparr>"
  using assms by (induction w arbitrary: p) (auto simp: p_consume_def)

definition ready :: "token list \<Rightarrow> parser" where
  "ready ts = \<lparr>p_state = ReadingWord, p_tokens = ts, p_current = [], p_quote = 0, p_error = []\<rparr>"

lemma consume_bare:
  assumes "bare w"
  shows "fold p_consume w (ready ts) = (ready ts)\<lparr>p_current := w, p_state := InWord\<rparr>"
proof -
  obtain c v where "w = c # v" using assms by (cases w) (auto simp: bare_def)
  then show ?thesis using assms by (auto simp: bare_def ready_def p_consume_def consume_word)
qed

lemma consume_open_quote:
  assumes "q = 0x22 \<or> q = 0x27" "q \<notin> set w"
  shows "fold p_consume (q # w) (ready ts) = (ready ts)\<lparr>p_quote := q, p_state := InQuotedString, p_current := w\<rparr>"
  using assms consume_quoted [of "(ready ts)\<lparr>p_quote := q, p_state := InQuotedString\<rparr>" w]
  by (auto simp: ready_def p_consume_def)

lemma spelled_scan:
  "spelled ts s \<Longrightarrow> p_finalize (fold p_consume s (ready us)) = (ready (us @ ts))\<lparr>p_state := ScanDone\<rparr>"
proof (induction arbitrary: us rule: spelled.induct)
  case sp_nil
  then show ?case by (simp add: p_finalize_def ready_def)
next
  case (sp_white c ts s)
  then have "p_consume c (ready us) = ready us" by (auto simp: p_consume_def ready_def)
  then show ?case using sp_white.IH by simp
next
  case (sp_last w)
  then show ?case by (simp add: consume_bare p_finalize_def) (simp add: ready_def p_push_def)
next
  case (sp_bare w c ts s)
  have "fold p_consume (w @ [c]) (ready us) = ready (us @ [classify_word w])"
    using sp_bare.hyps by (simp add: consume_bare p_consume_def) (simp add: ready_def p_push_def)
  then show ?case using sp_bare.IH [of "us @ [classify_word w]"] by simp
next
  case (sp_quoted q w ts s)
  have "fold p_consume ((q # w) @ [q]) (ready us) = ready (us @ [TWord w])"
    unfolding fold_append comp_def consume_open_quote [OF sp_quoted.hyps(1,2)]
    by (simp add: p_consume_def ready_def p_push_def)
  then show ?case using sp_quoted.IH [of "us @ [TWord w]"] by simp
qed

lemma scan_line_ready: "scan_line s = p_finalize (fold p_consume s (ready []))"
  by (simp add: scan_line_def Parser_create_def ready_def)

text \<open>Every line is spelled or leaves a quote open.\<close>

lemma spelled_or_open:
  "(\<exists>ts. spelled ts s) \<or> (\<forall>us. p_state (p_finalize (fold p_consume s (ready us))) = ScanFailed)"
proof (induction "length s" arbitrary: s rule: less_induct)
  case less
  show ?case
  proof (cases s)
    case Nil
    then show ?thesis using sp_nil by blast
  next
    case (Cons c r)
    consider (q) "c = 0x22 \<or> c = 0x27" | (w) "is_whitespace c" "\<not> (c = 0x22 \<or> c = 0x27)" | (b) "\<not> is_whitespace c" "\<not> (c = 0x22 \<or> c = 0x27)" by blast
    then show ?thesis
    proof cases
      case w
      have "p_consume c (ready us) = ready us" for us using w by (auto simp: p_consume_def ready_def)
      then show ?thesis using less [of r] Cons sp_white [OF w(1)] by (metis fold_simps(2) length_Cons lessI)
    next
      case b
      let ?w = "c # takeWhile (\<lambda>x. \<not> is_whitespace x) r"
      have bw: "bare ?w" using b by (auto simp: bare_def dest: set_takeWhileD)
      show ?thesis
      proof (cases "dropWhile (\<lambda>x. \<not> is_whitespace x) r")
        case Nil
        then have "s = ?w" using Cons by (metis append_Nil2 takeWhile_dropWhile_id)
        then show ?thesis using sp_last [OF bw] by metis
      next
        case (Cons d t)
        then have st: "s = ?w @ d # t" using \<open>s = c # r\<close> by (metis append_Cons takeWhile_dropWhile_id)
        have d: "is_whitespace d" using Cons by (simp add: dropWhile_eq_Cons_conv)
        have step: "fold p_consume s (ready us) = fold p_consume t (ready (us @ [classify_word ?w]))" for us
          unfolding st fold_append comp_def consume_bare [OF bw] using d by (simp add: p_consume_def) (simp add: ready_def p_push_def)
        have "(\<exists>ts. spelled ts t) \<or> (\<forall>us. p_state (p_finalize (fold p_consume t (ready us))) = ScanFailed)"
          using less [of t] st by simp
        then show ?thesis unfolding step using sp_bare [OF bw d] unfolding st by blast
      qed
    next
      case q
      show ?thesis
      proof (cases "c \<in> set r")
        case False
        then show ?thesis using consume_open_quote [OF q False] Cons by (simp del: fold.simps add: p_finalize_def)
      next
        case True
        then obtain w t where r: "r = w @ c # t" "c \<notin> set w" using split_list_first by metis
        have step: "fold p_consume s (ready us) = fold p_consume t (ready (us @ [TWord w]))" for us
        proof -
          have "s = (c # w) @ c # t" using Cons r by simp
          then have "fold p_consume s (ready us) = fold p_consume (c # t) (fold p_consume (c # w) (ready us))"
            by (simp only: fold_append comp_def)
          then show ?thesis unfolding consume_open_quote [OF q r(2)] by (simp add: p_consume_def ready_def p_push_def)
        qed
        have "(\<exists>ts. spelled ts t) \<or> (\<forall>us. p_state (p_finalize (fold p_consume t (ready us))) = ScanFailed)"
          using less [of t] Cons r by simp
        then show ?thesis unfolding step using sp_quoted [OF q r(2)] unfolding Cons r(1) by blast
      qed
    qed
  qed
qed

lemma scan_accepts:
  "(p_state (scan_line s) = ScanDone \<and> p_tokens (scan_line s) = ts) = spelled ts s"
  "p_state (scan_line s) = ScanFailed \<longleftrightarrow> (\<nexists>ts. spelled ts s)"
proof -
  show "p_state (scan_line s) = ScanFailed \<longleftrightarrow> (\<nexists>ts. spelled ts s)"
    using spelled_or_open [of s] spelled_scan [of _ s "[]"] by (auto simp: scan_line_ready)
  show "(p_state (scan_line s) = ScanDone \<and> p_tokens (scan_line s) = ts) = spelled ts s"
  proof
    assume d: "p_state (scan_line s) = ScanDone \<and> p_tokens (scan_line s) = ts"
    then obtain us where "spelled us s" using spelled_or_open [of s] by (auto simp: scan_line_ready)
    with d show "spelled ts s" using spelled_scan [of us s "[]"] by (auto simp: scan_line_ready ready_def)
  qed (use spelled_scan [of ts s "[]"] in \<open>auto simp: scan_line_ready ready_def\<close>)
qed

section \<open>What the grammar accepts\<close>

text \<open>A stage of a pipeline as the sequence of its words and redirections.\<close>

datatype item = IWord chars | IIn chars | IOut bool chars

fun item_tokens :: "item \<Rightarrow> token list" where
  "item_tokens (IWord w) = [TWord w]"
| "item_tokens (IIn f) = [TRedirIn, TWord f]"
| "item_tokens (IOut a f) = [if a then TRedirAppend else TRedirOut, TWord f]"

fun add_item :: "item \<Rightarrow> command \<Rightarrow> command" where
  "add_item (IWord w) c = c\<lparr>c_words := c_words c @ [w]\<rparr>"
| "add_item (IIn f) c = c\<lparr>c_in := Some f\<rparr>"
| "add_item (IOut a f) c = c\<lparr>c_append := a, c_out := Some f\<rparr>"

definition stage :: "item list \<Rightarrow> command" where
  "stage s = fold add_item s Command_default"

fun stages_tokens :: "item list \<Rightarrow> item list list \<Rightarrow> bool \<Rightarrow> token list" where
  "stages_tokens s [] b = concat (map item_tokens s) @ (if b then [TAmp] else [])"
| "stages_tokens s (s' # ss) b = concat (map item_tokens s) @ TPipe # stages_tokens s' ss b"

text \<open>A reference parser by recursive descent.\<close>

fun parse_stages :: "token list \<Rightarrow> (item list \<times> item list list \<times> bool) option" where
  "parse_stages [] = Some ([], [], False)"
| "parse_stages [TAmp] = Some ([], [], True)"
| "parse_stages (TWord w # ts) = map_option (\<lambda>(s, ss, b). (IWord w # s, ss, b)) (parse_stages ts)"
| "parse_stages (TRedirIn # TWord f # ts) = map_option (\<lambda>(s, ss, b). (IIn f # s, ss, b)) (parse_stages ts)"
| "parse_stages (TRedirOut # TWord f # ts) = map_option (\<lambda>(s, ss, b). (IOut False f # s, ss, b)) (parse_stages ts)"
| "parse_stages (TRedirAppend # TWord f # ts) = map_option (\<lambda>(s, ss, b). (IOut True f # s, ss, b)) (parse_stages ts)"
| "parse_stages (TPipe # ts) = map_option (\<lambda>(s, ss, b). ([], s # ss, b)) (parse_stages ts)"
| "parse_stages _ = None"

lemma parse_item: "parse_stages (item_tokens i @ ts) = map_option (\<lambda>(s, ss, b). (i # s, ss, b)) (parse_stages ts)"
  by (cases i) auto

lemma parse_stage:
  "parse_stages (concat (map item_tokens s) @ ts) = map_option (\<lambda>(s', ss, b). (s @ s', ss, b)) (parse_stages ts)"
  by (cases "parse_stages ts"; induction s) (auto simp: parse_item)

lemma parse_tokens: "parse_stages (stages_tokens s ss b) = Some (s, ss, b)"
proof (induction s ss b rule: stages_tokens.induct)
  case (1 s b)
  show ?case by (cases b) (use parse_stage [of s "[]"] parse_stage [of s "[TAmp]"] in simp_all)
qed (simp add: parse_stage)

lemma parse_stages_tokens: "parse_stages ts = Some (s, ss, b) \<Longrightarrow> ts = stages_tokens s ss b"
proof (induction ts arbitrary: s ss b rule: parse_stages.induct)
  case (3 w ts)
  then show ?case by (cases ss) auto
next
  case (4 f ts)
  then show ?case by (cases ss) auto
next
  case (5 f ts)
  then show ?case by (cases ss) auto
next
  case (6 f ts)
  then show ?case by (cases ss) auto
qed auto

text \<open>The commands of a list of stages; every stage but the last needs a word.\<close>

fun run_stages :: "command list \<Rightarrow> command \<Rightarrow> item list list \<Rightarrow> bool \<Rightarrow> command list option" where
  "run_stages cs c [] b = (if c_words c \<noteq> [] then Some (cs @ [c]) else if b \<or> cs = [] then Some cs else None)"
| "run_stages cs c (s # ss) b = (if c_words c = [] then None else run_stages (cs @ [c]) (stage s) ss b)"

definition pl_result :: "pipeline \<Rightarrow> (command list \<times> bool) option" where
  "pl_result l = (if pl_state l = PlDone then Some (pl_commands l, pl_background l) else None)"

abbreviation feed_tokens :: "token list \<Rightarrow> pipeline \<Rightarrow> pipeline" where
  "feed_tokens \<equiv> fold (\<lambda>t. case token_split t of (k, w) \<Rightarrow> pl_consume k w)"

lemma feed_error: "pl_state l = PlError \<Longrightarrow> pl_state (pl_finalize (feed_tokens ts l)) = PlError"
  by (induction ts arbitrary: l) (auto simp: pl_finalize_def pl_consume_def split: prod.splits)

lemma feed_error_result [simp]: "pl_state l = PlError \<Longrightarrow> pl_result (pl_finalize (feed_tokens ts l)) = None"
  by (simp add: pl_result_def feed_error)

lemma feed_step:
  "feed_tokens (t # ts) l = feed_tokens ts (pl_consume (fst (token_split t)) (snd (token_split t)) l)"
  by (simp add: case_prod_beta)

lemma pl_fail_state [simp]: "pl_state (pl_fail e l) = PlError"
  by (simp add: pl_fail_def)

lemma target_error:
  assumes "pl_state l = ExpectingTarget" "\<And>w us. ts \<noteq> TWord w # us"
  shows "pl_result (pl_finalize (feed_tokens ts l)) = None"
proof (cases ts)
  case Nil
  then show ?thesis using assms(1) by (simp add: pl_finalize_def pl_result_def)
next
  case (Cons t us)
  then have "pl_state (pl_consume (fst (token_split t)) (snd (token_split t)) l) = PlError"
    using assms by (cases t) (auto simp: pl_consume_def pl_target_def Let_def)
  then show ?thesis unfolding Cons feed_step by (rule feed_error_result)
qed

lemma amp_error:
  assumes "pl_state l = TrailingAmp"
  shows "pl_result (pl_finalize (feed_tokens (t # us) l)) = None"
  unfolding feed_step by (rule feed_error_result) (use assms in \<open>simp add: pl_consume_def\<close>)

lemma redir_error:
  assumes "pl_state l = ReadingCommand" "t = TRedirIn \<or> t = TRedirOut \<or> t = TRedirAppend" "\<And>w us. ts \<noteq> TWord w # us"
  shows "pl_result (pl_finalize (feed_tokens (t # ts) l)) = None"
  unfolding feed_step by (rule target_error) (use assms in \<open>auto simp: pl_consume_def pl_read_def Let_def\<close>)

lemma after_amp_error:
  assumes "pl_state l = ReadingCommand"
  shows "pl_result (pl_finalize (feed_tokens (TAmp # t # us) l)) = None"
  unfolding feed_step [of TAmp] by (rule amp_error) (use assms in \<open>simp add: pl_consume_def pl_read_def\<close>)

lemma feed_run:
  assumes "pl_state l = ReadingCommand" "\<not> pl_background l"
  shows "pl_result (pl_finalize (feed_tokens ts l)) = (case parse_stages ts of None \<Rightarrow> None
     | Some (s, ss, b) \<Rightarrow> map_option (\<lambda>cs. (cs, b)) (run_stages (pl_commands l) (fold add_item s (pl_current l)) ss b))"
  using assms
proof (induction ts arbitrary: l rule: parse_stages.induct)
  case 1
  then show ?case by (simp add: pl_finalize_def pl_result_def commit_command_def)
next
  case 2
  then show ?case by (simp add: pl_finalize_def pl_result_def commit_command_def pl_consume_def pl_read_def)
next
  case (3 w ts)
  then show ?case unfolding feed_step
    by (subst "3.IH") (auto simp: pl_consume_def pl_read_def Let_def split: option.splits)
next
  case (4 f ts)
  then show ?case unfolding feed_step
    by (subst "4.IH") (auto simp: pl_consume_def pl_read_def pl_target_def Let_def split: option.splits)
next
  case (5 f ts)
  then show ?case unfolding feed_step
    by (subst "5.IH") (auto simp: pl_consume_def pl_read_def pl_target_def Let_def split: option.splits)
next
  case (6 f ts)
  then show ?case unfolding feed_step
    by (subst "6.IH") (auto simp: pl_consume_def pl_read_def pl_target_def Let_def split: option.splits)
next
  case (7 ts)
  show ?case
  proof (cases "c_words (pl_current l) = []")
    case True
    then show ?thesis using 7 unfolding feed_step by (auto simp: pl_consume_def pl_read_def split: option.splits)
  next
    case False
    then show ?thesis using 7 unfolding feed_step
      by (subst "7.IH") (auto simp: pl_consume_def pl_read_def commit_command_def stage_def split: option.splits)
  qed
qed (simp only: parse_stages.simps option.case, (rule redir_error after_amp_error; simp))+

lemma Pipeline_create_sel:
  "pl_state Pipeline_create = ReadingCommand" "pl_commands Pipeline_create = []"
  "pl_current Pipeline_create = Command_default" "pl_background Pipeline_create = False"
  by (simp_all add: Pipeline_create_def)

lemma pipeline_accepts:
  "pl_result (fold_tokens ts) = Some (cs, b) \<longleftrightarrow>
     (\<exists>s ss. ts = stages_tokens s ss b \<and> run_stages [] (stage s) ss b = Some cs)"
proof -
  have r: "pl_result (fold_tokens ts) = (case parse_stages ts of None \<Rightarrow> None
     | Some (s, ss, b) \<Rightarrow> map_option (\<lambda>cs. (cs, b)) (run_stages [] (stage s) ss b))"
    unfolding fold_tokens_def stage_def using feed_run [of Pipeline_create ts] unfolding Pipeline_create_sel by simp
  show ?thesis
  proof
    assume "pl_result (fold_tokens ts) = Some (cs, b)"
    then show "\<exists>s ss. ts = stages_tokens s ss b \<and> run_stages [] (stage s) ss b = Some cs"
      unfolding r by (auto split: option.splits dest: parse_stages_tokens)
  qed (auto simp: r parse_tokens)
qed

section \<open>A whole line\<close>

text \<open>Both stages with the messages that \<open>$Parsing\<close> prints for their errors.\<close>

definition parse_line :: "chars \<Rightarrow> chars + command list \<times> bool" where
  "parse_line s =
     (let p = scan_line s in
      if p_error p \<noteq> [] then Inl (lit ''parse error: '' @ p_error p)
      else let l = fold_tokens (p_tokens p) in
        if pl_error l \<noteq> [] then Inl (lit ''frame-os: '' @ pl_error l)
        else Inr (pl_commands l, pl_background l))"

lemma consume_error [simp]: "p_error (fold p_consume s p) = p_error p"
proof (induction s arbitrary: p)
  case (Cons c s)
  have "p_error (p_consume c p) = p_error p" by (simp add: p_consume_def p_push_def split: parser_state.split)
  then show ?case using Cons by simp
qed simp

lemma scan_error: "p_error (scan_line s) \<noteq> [] \<longleftrightarrow> (\<nexists>ts. spelled ts s)"
proof -
  let ?p = "fold p_consume s (ready [])"
  have "p_error (scan_line s) \<noteq> [] \<longleftrightarrow> p_state (scan_line s) = ScanFailed" if "p_state ?p \<noteq> ScanFailed"
    unfolding scan_line_ready using that consume_error [of s "ready []"]
    by (simp add: p_finalize_def p_push_def ready_def split: parser_state.split)
  moreover have "p_state (fold p_consume s p) \<noteq> ScanFailed" if "p_state p \<noteq> ScanFailed" for p
    using that by (induction s arbitrary: p) (auto simp: p_consume_def p_push_def split: parser_state.split)
  ultimately show ?thesis using scan_accepts(2) by (simp add: ready_def)
qed

lemma feed_errors:
  assumes "(pl_error l \<noteq> []) = (pl_state l = PlError)" "pl_state l \<noteq> PlDone"
  shows "(pl_error (pl_finalize (feed_tokens ts l)) \<noteq> []) = (pl_state (pl_finalize (feed_tokens ts l)) = PlError)
    \<and> pl_state (pl_finalize (feed_tokens ts l)) \<in> {PlDone, PlError}"
  using assms
proof (induction ts arbitrary: l)
  case Nil
  then show ?case by (cases "pl_state l") (auto simp: pl_finalize_def pl_fail_def commit_command_def near_pipe_def lit_def)
next
  case (Cons t ts)
  obtain k w where tk: "token_split t = (k, w)" by fastforce
  have "(pl_error (pl_consume k w l) \<noteq> []) = (pl_state (pl_consume k w l) = PlError) \<and> pl_state (pl_consume k w l) \<noteq> PlDone"
    using Cons.prems
    by (cases "pl_state l"; cases k)
       (auto simp: pl_consume_def pl_read_def pl_target_def pl_fail_def commit_command_def near_pipe_def lit_def Let_def)
  then show ?case using Cons.IH tk by simp
qed

lemma parse_line_Inr:
  "parse_line s = Inr (cs, b) \<longleftrightarrow> (\<exists>ts. spelled ts s \<and> pl_result (fold_tokens ts) = Some (cs, b))"
proof -
  have e: "(pl_error (fold_tokens ts) \<noteq> []) = (pl_state (fold_tokens ts) = PlError) \<and> pl_state (fold_tokens ts) \<in> {PlDone, PlError}" for ts
    unfolding fold_tokens_def by (rule feed_errors) (simp_all add: Pipeline_create_def)
  have u: "p_tokens (scan_line s) = ts" if "spelled ts s" for ts using that scan_accepts(1) [of s ts] by simp
  show ?thesis
  proof (cases "\<exists>ts. spelled ts s")
    case True
    then obtain ts where ts: "spelled ts s" by blast
    then have "p_error (scan_line s) = []" using scan_error by blast
    moreover have "spelled us s \<longleftrightarrow> us = ts" for us using u ts by metis
    ultimately show ?thesis using u [OF ts] e [of ts] by (auto simp: parse_line_def pl_result_def Let_def)
  qed (simp add: parse_line_def scan_error)
qed

lemma parse_line_iff:
  "parse_line s = Inr (cs, b) \<longleftrightarrow>
     (\<exists>st ss. spelled (stages_tokens st ss b) s \<and> run_stages [] (stage st) ss b = Some cs)"
  unfolding parse_line_Inr pipeline_accepts by blast

text \<open>
  C28: the shell reads a line as a pipeline exactly when the line spells, with words bare or in quotes
  and white space between them, the tokens of a sequence of stages joined by pipes and an optional
  background mark, every stage before the last has a word, and the last has one too unless the mark
  is set or it is the only stage; the commands are those of the stages that have words.
\<close>

theorem command_line_grammar:
  "parse_line s = Inr (cs, b) \<longleftrightarrow>
     (\<exists>st ss. spelled (stages_tokens st ss b) s \<and> run_stages [] (stage st) ss b = Some cs)"
  by (rule parse_line_iff)

text \<open>Two lines that are accepted although a command is missing.\<close>

lemma pipe_without_command:
  "parse_line (lit ''a | &'') = Inr ([\<lparr>c_words = [lit ''a''], c_in = None, c_out = None, c_append = False\<rparr>], True)"
  "parse_line (lit ''> f'') = Inr ([], False)"
  by (simp_all add: parse_line_def scan_line_def Parser_create_def p_consume_def p_finalize_def p_push_def lit_def
        is_whitespace_def classify_word_def fold_tokens_def Pipeline_create_def pl_consume_def pl_read_def pl_target_def
        pl_finalize_def commit_command_def Command_default_def Let_def)

text \<open>Writing a pipeline as a line: every word in quotes it does not contain.\<close>

definition quote_word :: "chars \<Rightarrow> chars" where
  "quote_word w = (let q = if 0x22 \<in> set w then 0x27 else 0x22 in q # w @ [q])"

definition write_tokens :: "token list \<Rightarrow> chars" where
  "write_tokens ts = concat (map (\<lambda>t. (case t of TWord w \<Rightarrow> quote_word w | _ \<Rightarrow> token_literal t) @ [0x20]) ts)"

definition command_items :: "command \<Rightarrow> item list" where
  "command_items c = map IWord (c_words c) @ map IIn (case c_in c of Some f \<Rightarrow> [f] | None \<Rightarrow> [])
     @ map (IOut (c_append c)) (case c_out c of Some f \<Rightarrow> [f] | None \<Rightarrow> [])"

definition write_line :: "command list \<Rightarrow> bool \<Rightarrow> chars" where
  "write_line cs b = write_tokens (stages_tokens (command_items (hd cs)) (map command_items (tl cs)) b)"

definition quotable :: "chars \<Rightarrow> bool" where
  "quotable w \<longleftrightarrow> 0x22 \<notin> set w \<or> 0x27 \<notin> set w"

definition writable :: "command \<Rightarrow> bool" where
  "writable c \<longleftrightarrow> c_words c \<noteq> [] \<and> list_all quotable (c_words c) \<and> (case c_in c of Some f \<Rightarrow> quotable f | None \<Rightarrow> True)
     \<and> (case c_out c of Some f \<Rightarrow> quotable f | None \<Rightarrow> \<not> c_append c)"

lemma spelled_write: "(\<forall>w. TWord w \<in> set ts \<longrightarrow> quotable w) \<Longrightarrow> spelled ts (write_tokens ts)"
proof (induction ts)
  case Nil
  then show ?case by (simp add: write_tokens_def sp_nil)
next
  case (Cons t ts)
  then have s: "spelled ts (write_tokens ts)" by auto
  have op: "spelled (t # ts) (write_tokens (t # ts))" if "\<forall>w. t \<noteq> TWord w"
  proof -
    have "bare (token_literal t)" "classify_word (token_literal t) = t"
      using that by (cases t; simp add: bare_def lit_def is_whitespace_def classify_word_def)+
    then show ?thesis using sp_bare [OF _ white_space s, of "token_literal t"] that
      by (cases t) (simp_all add: write_tokens_def)
  qed
  show ?case
  proof (cases t)
    case (TWord w)
    let ?q = "if 0x22 \<in> set w then 0x27 else 0x22 :: ch"
    have "?q \<notin> set w" using Cons.prems TWord by (auto simp: quotable_def)
    then have "spelled (TWord w # ts) (?q # w @ ?q # 0x20 # write_tokens ts)"
      by (intro sp_quoted sp_white s) auto
    then show ?thesis using TWord by (simp add: write_tokens_def quote_word_def Let_def)
  qed (use op in auto)
qed

lemma stage_items: "c_out c \<noteq> None \<or> \<not> c_append c \<Longrightarrow> stage (command_items c) = c"
proof -
  have w: "fold add_item (map IWord ws) c = c\<lparr>c_words := c_words c @ ws\<rparr>" for ws c
    by (induction ws arbitrary: c) simp_all
  assume "c_out c \<noteq> None \<or> \<not> c_append c"
  then show ?thesis
    by (cases c) (auto simp: stage_def command_items_def w Command_default_def split: option.split)
qed

lemma run_stages_commands:
  assumes "c_words c \<noteq> []" "\<forall>c\<in>set cs. c_words c \<noteq> [] \<and> stage (command_items c) = c"
  shows "run_stages ds c (map command_items cs) b = Some (ds @ c # cs)"
  using assms by (induction cs arbitrary: ds c) auto

lemma item_words:
  "TWord w \<in> set (concat (map item_tokens s)) \<Longrightarrow> \<exists>i\<in>set s. i = IWord w \<or> i = IIn w \<or> (\<exists>a. i = IOut a w)"
proof (induction s)
  case (Cons i s)
  then show ?case by (cases i) (auto split: if_splits)
qed simp

lemma stages_words:
  "TWord w \<in> set (stages_tokens s ss b) \<Longrightarrow> \<exists>t\<in>set (s # ss). TWord w \<in> set (concat (map item_tokens t))"
  by (induction s ss b rule: stages_tokens.induct) (auto split: if_splits)

lemma writable_items:
  assumes "writable c" "TWord w \<in> set (concat (map item_tokens (command_items c)))"
  shows "quotable w"
  using item_words [OF assms(2)] assms(1)
  by (auto simp: command_items_def writable_def list_all_iff split: option.splits)

text \<open>
  C17: a pipeline of commands that is written as a line, with every word in quotes, is read back
  exactly by scanner and grammar: the commands with their words and redirections and the background mark.
\<close>

theorem command_line_roundtrip:
  assumes "cs \<noteq> []" "list_all writable cs"
  shows "parse_line (write_line cs b) = Inr (cs, b)"
proof -
  obtain c ds where cs: "cs = c # ds" using assms(1) by (cases cs) auto
  let ?ts = "stages_tokens (command_items c) (map command_items ds) b"
  have "quotable w" if "TWord w \<in> set ?ts" for w
    using stages_words [OF that] writable_items assms(2) unfolding cs list_all_iff by auto
  then have sp: "spelled ?ts (write_line cs b)" using spelled_write by (auto simp: write_line_def cs)
  have st: "stage (command_items d) = d" if "d \<in> set cs" for d
    by (rule stage_items) (use that assms(2) in \<open>auto simp: list_all_iff writable_def split: option.splits\<close>)
  have "run_stages [] (stage (command_items c)) (map command_items ds) b = Some cs"
    using run_stages_commands [of c ds "[]" b] st assms(2) unfolding cs list_all_iff by (auto simp: writable_def)
  then show ?thesis unfolding parse_line_iff using sp by blast
qed

theorem command_line_roundtrip_witness:
  "parse_line (write_line [\<lparr>c_words = [lit ''ls'', [0x22]], c_in = None, c_out = None, c_append = False\<rparr>,
     \<lparr>c_words = [lit ''wc''], c_in = None, c_out = Some (lit ''a b''), c_append = True\<rparr>] True)
   = Inr ([\<lparr>c_words = [lit ''ls'', [0x22]], c_in = None, c_out = None, c_append = False\<rparr>,
     \<lparr>c_words = [lit ''wc''], c_in = None, c_out = Some (lit ''a b''), c_append = True\<rparr>], True)"
  by (rule command_line_roundtrip) (simp_all add: writable_def quotable_def lit_def)

end
