(* ===== verification/Ish.thy ===== *)
theory Ish
  imports ShellParse
begin

text \<open>
  The interactive shell (\<open>user/src/ish.rs\<close>) with the Frame systems it runs: \<open>Job\<close> and \<open>JobControl\<close>
  (\<open>frame/job.frs\<close>, \<open>frame/job_control.frs\<close>) over its system-call backend, and \<open>Shell\<close>
  (\<open>frame/shell.frs\<close>) over its environment.

  The kernel is a parameter: a function that takes a call and the state of the world to the reply
  (the result and the bytes written to the buffer of the caller), or to nothing when the call does
  not return. A program is a function of the world. It returns a value, or it is gone (it has exited or
  its image was replaced), or it never returns, which is the outer \<open>None\<close>: a panic, as the handler
  spins, or a loop without end. After \<open>fork\<close> the two processes are the two replies of the call.
\<close>

section \<open>Programs and system calls\<close>

datatype call = CWriteChar u8 | CExit u64 | CFork | CWait u64 | COpen bytes u64 | CRead u64 nat | CClose u64
  | CReadLine nat | CExecArgv bytes u64 | CWrite u64 bytes | CChdir bytes | CGetcwd nat | CDup2 u64 u64 | CPipe
  | CReap u64 | CKill u64 u64 | CSetForeground u64

type_synonym 'w kern = "call \<Rightarrow> 'w \<Rightarrow> (u64 \<times> bytes) option \<times> 'w"
type_synonym ('a, 'w) prog = "'w \<Rightarrow> ('a option \<times> 'w) option"

definition ret :: "'a \<Rightarrow> ('a, 'w) prog" where
  "ret x w = Some (Some x, w)"

definition pbind :: "('a, 'w) prog \<Rightarrow> ('a \<Rightarrow> ('b, 'w) prog) \<Rightarrow> ('b, 'w) prog" where
  "pbind m f w = Option.bind (m w) (\<lambda>(r, w). case r of None \<Rightarrow> Some (None, w) | Some x \<Rightarrow> f x w)"

definition hang :: "('a, 'w) prog" where
  "hang w = None"

lemma pbind_mono [partial_function_mono]:
  assumes "\<And>w. mono_option (\<lambda>f. B f w)" "\<And>x w. mono_option (\<lambda>f. C f x w)"
  shows "mono_option (\<lambda>f. pbind (B f) (C f) w)"
  unfolding pbind_def
  by (intro bind_mono assms(1)) (auto intro!: monotoneI flat_ord_antisym assms(2) split: option.split
      simp: monotoneD [OF assms(2)] option.leq_refl)

definition invoke :: "'w kern \<Rightarrow> call \<Rightarrow> (u64 \<times> bytes, 'w) prog" where
  "invoke sys c w = Some (sys c w)"

text \<open>A call of which only the result matters.\<close>

definition sys_call :: "'w kern \<Rightarrow> call \<Rightarrow> (u64, 'w) prog" where
  "sys_call sys c = pbind (invoke sys c) (\<lambda>(r, _). ret r)"

text \<open>A call that fills a buffer.\<close>

definition sys_call_buf :: "'w kern \<Rightarrow> call \<Rightarrow> bytes \<Rightarrow> (u64 \<times> bytes, 'w) prog" where
  "sys_call_buf sys c b = pbind (invoke sys c) (\<lambda>(r, d). ret (r, take (length b) d @ drop (length d) b))"

fun each :: "('a \<Rightarrow> (unit, 'w) prog) \<Rightarrow> 'a list \<Rightarrow> (unit, 'w) prog" where
  "each f [] = ret ()"
| "each f (x # xs) = pbind (f x) (\<lambda>_. each f xs)"

section \<open>Strings\<close>

text \<open>UTF-8, as in \<open>str::as_bytes\<close> and \<open>str::from_utf8\<close>.\<close>

definition utf8 :: "ch \<Rightarrow> bytes" where
  "utf8 c =
     (if c < 0x80 then [ucast c]
      else if c < 0x800 then [0xC0 OR ucast (drop_bit 6 c), 0x80 OR ucast (c AND 0x3F)]
      else if c < 0x10000 then [0xE0 OR ucast (drop_bit 12 c), 0x80 OR ucast (drop_bit 6 c AND 0x3F), 0x80 OR ucast (c AND 0x3F)]
      else [0xF0 OR ucast (drop_bit 18 c), 0x80 OR ucast (drop_bit 12 c AND 0x3F), 0x80 OR ucast (drop_bit 6 c AND 0x3F), 0x80 OR ucast (c AND 0x3F)])"

definition as_bytes :: "chars \<Rightarrow> bytes" where
  "as_bytes s = concat (map utf8 s)"

definition continues :: "u8 \<Rightarrow> bool" where
  "continues b \<longleftrightarrow> b AND 0xC0 = 0x80"

fun from_utf8 :: "bytes \<Rightarrow> chars option" where
  "from_utf8 [] = Some []"
| "from_utf8 (b # bs) =
     (if b < 0x80 then map_option ((#) (ucast b)) (from_utf8 bs)
      else if 0xC2 \<le> b \<and> b \<le> 0xDF then (case bs of
          c # cs \<Rightarrow> if continues c
            then map_option ((#) (push_bit 6 (ucast (b AND 0x1F)) OR ucast (c AND 0x3F))) (from_utf8 cs) else None
        | _ \<Rightarrow> None)
      else if 0xE0 \<le> b \<and> b \<le> 0xEF then (case bs of
          c # d # cs \<Rightarrow> if continues c \<and> continues d \<and> (b = 0xE0 \<longrightarrow> 0xA0 \<le> c) \<and> (b = 0xED \<longrightarrow> c \<le> 0x9F)
            then map_option ((#) (push_bit 12 (ucast (b AND 0xF)) OR push_bit 6 (ucast (c AND 0x3F)) OR ucast (d AND 0x3F))) (from_utf8 cs) else None
        | _ \<Rightarrow> None)
      else if 0xF0 \<le> b \<and> b \<le> 0xF4 then (case bs of
          c # d # e # cs \<Rightarrow> if continues c \<and> continues d \<and> continues e \<and> (b = 0xF0 \<longrightarrow> 0x90 \<le> c) \<and> (b = 0xF4 \<longrightarrow> c \<le> 0x8F)
            then map_option ((#) (push_bit 18 (ucast (b AND 7)) OR push_bit 12 (ucast (c AND 0x3F)) OR push_bit 6 (ucast (d AND 0x3F)) OR ucast (e AND 0x3F))) (from_utf8 cs) else None
        | _ \<Rightarrow> None)
      else None)"

definition starts_with :: "chars \<Rightarrow> chars \<Rightarrow> bool" where
  "starts_with p s \<longleftrightarrow> take (length p) s = p"

function dec_digits :: "u64 \<Rightarrow> bytes \<Rightarrow> bytes" where
  "dec_digits n acc = (if 0 < n then dec_digits (n div 10) ((0x30 + ucast (n mod 10)) # acc) else acc)"
  by auto
termination
  by (relation "measure (\<lambda>(n, _). unat n)") (auto simp: word_less_nat_alt unat_div)

declare dec_digits.simps [simp del]

definition push_u64 :: "u64 \<Rightarrow> bytes" where
  "push_u64 n = (if n = 0 then [0x30] else dec_digits n [])"

text \<open>\<open>parse_u32\<close> of the shell, with the checked arithmetic.\<close>

fun u32_digits :: "u32 \<Rightarrow> bytes \<Rightarrow> u32 option" where
  "u32_digits v [] = Some v"
| "u32_digits v (b # bs) =
     (if b < 0x30 \<or> 0x39 < b then None
      else let x = unat v * 10 + unat (b - 0x30) in if x < 2 ^ 32 then u32_digits (of_nat x) bs else None)"

definition parse_u32 :: "chars \<Rightarrow> u32 option" where
  "parse_u32 s = (if as_bytes s = [] then None else u32_digits 0 (as_bytes s))"

text \<open>\<open>str::parse::<u32>\<close> of the standard library: an optional plus sign is allowed.\<close>

definition std_parse_u32 :: "chars \<Rightarrow> u32 option" where
  "std_parse_u32 s = parse_u32 (case s of c # t \<Rightarrow> if c = 0x2B then t else s | [] \<Rightarrow> s)"

definition parse_signal :: "chars \<Rightarrow> u64 option" where
  "parse_signal s =
     (if s = lit ''INT'' \<or> s = lit ''2'' then Some 2
      else if s = lit ''KILL'' \<or> s = lit ''9'' then Some 9
      else if s = lit ''TERM'' \<or> s = lit ''15'' then Some 15
      else if s = lit ''CONT'' \<or> s = lit ''18'' then Some 18
      else if s = lit ''STOP'' \<or> s = lit ''19'' then Some 19
      else if s = lit ''TSTP'' \<or> s = lit ''20'' then Some 20
      else map_option ucast (parse_u32 s))"

section \<open>The calls of the shell\<close>

definition WSTOPPED :: u64 where "WSTOPPED = push_bit 63 1"
definition SIGCONT_SIG :: u64 where "SIGCONT_SIG = 18"

definition write_char :: "'w kern \<Rightarrow> u8 \<Rightarrow> (unit, 'w) prog" where
  "write_char sys b = pbind (sys_call sys (CWriteChar b)) (\<lambda>_. ret ())"

definition print :: "'w kern \<Rightarrow> bytes \<Rightarrow> (unit, 'w) prog" where
  "print sys s = each (write_char sys) s"

definition emit :: "'w kern \<Rightarrow> bytes \<Rightarrow> (unit, 'w) prog" where
  "emit sys s = pbind (sys_call sys (CWrite 1 s)) (\<lambda>_. ret ())"

definition exit_prog :: "'w kern \<Rightarrow> u64 \<Rightarrow> ('a, 'w) prog" where
  "exit_prog sys code = pbind (sys_call sys (CExit code)) (\<lambda>_. hang)"

definition set_foreground :: "'w kern \<Rightarrow> u64 \<Rightarrow> (unit, 'w) prog" where
  "set_foreground sys pid = pbind (sys_call sys (CSetForeground pid)) (\<lambda>_. ret ())"

definition open_out :: "'w kern \<Rightarrow> bytes \<Rightarrow> bool \<Rightarrow> (u64, 'w) prog" where
  "open_out sys path append_mode = sys_call sys (COpen path (if append_mode then 3 else 1))"

definition pipe_fds :: "'w kern \<Rightarrow> ((u64 \<times> u64) option, 'w) prog" where
  "pipe_fds sys = pbind (sys_call_buf sys CPipe (replicate 16 0)) (\<lambda>(r, b).
     ret (if r = - 1 then None else Some (u64_from_le (take 8 b), u64_from_le (take 8 (drop 8 b)))))"

definition close_fd :: "'w kern \<Rightarrow> u64 \<Rightarrow> (unit, 'w) prog" where
  "close_fd sys fd = pbind (sys_call sys (CClose fd)) (\<lambda>_. ret ())"

definition message :: "'w kern \<Rightarrow> string \<Rightarrow> chars \<Rightarrow> (unit, 'w) prog" where
  "message sys m s = pbind (print sys (lit m)) (\<lambda>_. pbind (print sys (as_bytes s)) (\<lambda>_. write_char sys 0x0A))"

text \<open>The loop of \<open>cat\<close>; \<open>&buf[..n]\<close> panics beyond the 64 bytes.\<close>

partial_function (option) cat_loop :: "'w kern \<Rightarrow> u64 \<Rightarrow> bytes \<Rightarrow> 'w \<Rightarrow> (unit option \<times> 'w) option" where
  "cat_loop sys fd b w = pbind (sys_call_buf sys (CRead fd 64) b) (\<lambda>(n, b) w.
     if n = 0 then ret () w
     else case sub_slice b 0 (unat n) of None \<Rightarrow> hang w
       | Some s \<Rightarrow> pbind (print sys s) (\<lambda>_ w. cat_loop sys fd b w) w) w"

declare cat_loop.simps [code]

definition cat :: "'w kern \<Rightarrow> chars \<Rightarrow> (unit, 'w) prog" where
  "cat sys path = pbind (sys_call sys (COpen (as_bytes path) 0)) (\<lambda>fd.
     if fd = - 1 then message sys ''cat: cannot open '' path
     else pbind (cat_loop sys fd (replicate 64 0)) (\<lambda>_. close_fd sys fd))"

definition build_argv :: "chars list \<Rightarrow> (bytes \<times> u64) option" where
  "build_argv toks = (case toks of [] \<Rightarrow> None
     | cmd # args \<Rightarrow> Some ((if \<not> starts_with (lit ''/'') cmd then lit ''/bin/'' else []) @ as_bytes cmd @ [0]
         @ concat (map (\<lambda>t. as_bytes t @ [0]) args), of_nat (length toks)))"

text \<open>What the child does after its redirections: become the program, or report that there is none.\<close>

definition exec_or_exit :: "'w kern \<Rightarrow> bytes \<Rightarrow> u64 \<Rightarrow> chars \<Rightarrow> ('a, 'w) prog" where
  "exec_or_exit sys argv argc cmd = pbind (sys_call sys (CExecArgv argv argc)) (\<lambda>_.
     pbind (message sys ''ish: command not found: '' cmd) (\<lambda>_. exit_prog sys 127))"

definition redirect :: "'w kern \<Rightarrow> u64 \<Rightarrow> u64 \<Rightarrow> (unit, 'w) prog" where
  "redirect sys fd target = pbind (sys_call sys (CDup2 fd target)) (\<lambda>_. close_fd sys fd)"

definition redirect_in :: "'w kern \<Rightarrow> chars option \<Rightarrow> (unit, 'w) prog" where
  "redirect_in sys r = (case r of None \<Rightarrow> ret ()
     | Some path \<Rightarrow> pbind (sys_call sys (COpen (as_bytes path) 0)) (\<lambda>fd.
         if fd = - 1 then pbind (message sys ''ish: cannot open input: '' path) (\<lambda>_. exit_prog sys 1)
         else redirect sys fd 0))"

definition redirect_out :: "'w kern \<Rightarrow> (chars \<times> bool) option \<Rightarrow> (unit, 'w) prog" where
  "redirect_out sys r = (case r of None \<Rightarrow> ret ()
     | Some (path, append_mode) \<Rightarrow> pbind (open_out sys (as_bytes path) append_mode) (\<lambda>fd.
         if fd = - 1 then pbind (message sys ''ish: cannot open output: '' path) (\<lambda>_. exit_prog sys 1)
         else redirect sys fd 1))"

definition run_external_untracked :: "'w kern \<Rightarrow> chars list \<Rightarrow> chars option \<Rightarrow> (chars \<times> bool) option \<Rightarrow> bool \<Rightarrow> (unit, 'w) prog" where
  "run_external_untracked sys toks rin rout background = (case build_argv toks of None \<Rightarrow> hang
     | Some (argv, argc) \<Rightarrow> pbind (sys_call sys CFork) (\<lambda>cpid.
         if cpid = 0
         then pbind (redirect_in sys rin) (\<lambda>_. pbind (redirect_out sys rout) (\<lambda>_. exec_or_exit sys argv argc (hd toks)))
         else if \<not> background
         then pbind (set_foreground sys cpid) (\<lambda>_. pbind (sys_call sys (CWait cpid)) (\<lambda>_. set_foreground sys 0))
         else ret ()))"

text \<open>One stage of a pipeline in its process: an end of the pipe becomes a standard descriptor.\<close>

definition pipe_stage :: "'w kern \<Rightarrow> u64 \<Rightarrow> u64 \<Rightarrow> u64 \<Rightarrow> u64 \<Rightarrow> bytes \<Rightarrow> u64 \<Rightarrow> chars \<Rightarrow> ('a, 'w) prog" where
  "pipe_stage sys fd target rfd wfd argv argc cmd = pbind (sys_call sys (CDup2 fd target)) (\<lambda>_.
     pbind (close_fd sys rfd) (\<lambda>_. pbind (close_fd sys wfd) (\<lambda>_. exec_or_exit sys argv argc cmd)))"

definition run_pipeline :: "'w kern \<Rightarrow> chars list \<Rightarrow> chars list \<Rightarrow> (unit, 'w) prog" where
  "run_pipeline sys left right = (case (build_argv left, build_argv right) of
     (Some (lv, lc), Some (rv, rc)) \<Rightarrow> pbind (pipe_fds sys) (\<lambda>p. case p of
         None \<Rightarrow> print sys (lit ''ish: pipe failed'' @ [0x0A])
       | Some (rfd, wfd) \<Rightarrow> pbind (sys_call sys CFork) (\<lambda>wpid.
           if wpid = 0 then pipe_stage sys wfd 1 rfd wfd lv lc (hd left)
           else pbind (sys_call sys CFork) (\<lambda>rpid.
             if rpid = 0 then pipe_stage sys rfd 0 rfd wfd rv rc (hd right)
             else pbind (close_fd sys rfd) (\<lambda>_. pbind (close_fd sys wfd) (\<lambda>_.
               pbind (sys_call sys (CWait wpid)) (\<lambda>_. pbind (sys_call sys (CWait rpid)) (\<lambda>_. ret ())))))))
   | _ \<Rightarrow> hang)"

section \<open>Jobs\<close>

text \<open>\<open>SyscallProcessBackend\<close>.\<close>

record backend =
  be_pid :: u32
  be_exit_code :: u32
  be_foreground :: bool

datatype fg_outcome = FgExited u32 | FgStopped

definition backend_new :: backend where
  "backend_new = \<lparr>be_pid = 0, be_exit_code = 0, be_foreground = False\<rparr>"

definition do_spawn :: "'w kern \<Rightarrow> chars \<Rightarrow> chars list \<Rightarrow> bool \<Rightarrow> backend \<Rightarrow> ((chars + u32) \<times> backend, 'w) prog" where
  "do_spawn sys cmd args foreground be = (case build_argv (cmd # args) of None \<Rightarrow> hang
     | Some (argv, argc) \<Rightarrow> pbind (sys_call sys CFork) (\<lambda>cpid.
         if cpid = 0 then exec_or_exit sys argv argc cmd
         else let be = be\<lparr>be_pid := ucast cpid, be_foreground := foreground\<rparr> in
           pbind (if foreground then set_foreground sys cpid else ret ()) (\<lambda>_. ret (Inr (be_pid be), be))))"

definition be_try_reap :: "'w kern \<Rightarrow> backend \<Rightarrow> (u32 option \<times> backend, 'w) prog" where
  "be_try_reap sys be =
     (if be_pid be = 0 then ret (Some (be_exit_code be), be)
      else pbind (sys_call sys (CReap (ucast (be_pid be)))) (\<lambda>v.
        if v = 0 then ret (None, be)
        else let c = ucast (v AND 0xFFFFFFFF) in ret (Some c, be\<lparr>be_exit_code := c, be_pid := 0\<rparr>)))"

definition be_signal :: "'w kern \<Rightarrow> u64 \<Rightarrow> backend \<Rightarrow> (unit, 'w) prog" where
  "be_signal sys sig be =
     (if be_pid be \<noteq> 0 then pbind (sys_call sys (CKill (ucast (be_pid be)) sig)) (\<lambda>_. ret ()) else ret ())"

definition be_wait_foreground :: "'w kern \<Rightarrow> backend \<Rightarrow> (fg_outcome \<times> backend, 'w) prog" where
  "be_wait_foreground sys be =
     (if be_pid be = 0 then ret (FgExited (be_exit_code be), be)
      else pbind (sys_call sys (CWait (ucast (be_pid be)))) (\<lambda>st.
        pbind (if be_foreground be then set_foreground sys 0 else ret ()) (\<lambda>_.
          if st AND WSTOPPED \<noteq> 0 then ret (FgStopped, be)
          else let c = ucast (st AND 0xFFFFFFFF) in ret (FgExited c, be\<lparr>be_exit_code := c, be_pid := 0\<rparr>))))"

text \<open>The Frame system \<open>Job\<close>.\<close>

datatype job_state = JCreated | JForeground | JBackground | JStopped | JDone

record job =
  j_state :: job_state
  j_id :: u32
  j_cmd :: chars
  j_args :: "chars list"
  j_pid :: u32
  j_backend :: backend
  j_exit_code :: u32
  j_spawn_error :: chars

definition Job_create :: "u32 \<Rightarrow> job" where
  "Job_create i = \<lparr>j_state = JCreated, j_id = i, j_cmd = [], j_args = [], j_pid = 0, j_backend = backend_new,
     j_exit_code = 0, j_spawn_error = []\<rparr>"

definition job_done :: "job \<Rightarrow> bool" where
  "job_done j \<longleftrightarrow> j_state j = JDone"

definition job_state_name :: "job \<Rightarrow> chars" where
  "job_state_name j = (case j_state j of
       JCreated \<Rightarrow> lit ''Pending''
     | JForeground \<Rightarrow> lit ''Running''
     | JBackground \<Rightarrow> lit ''Running''
     | JStopped \<Rightarrow> lit ''Stopped''
     | JDone \<Rightarrow> if j_spawn_error j \<noteq> [] then lit ''Failed ('' @ j_spawn_error j @ lit '')'' else lit ''Done'')"

text \<open>\<open>args.join(" ")\<close>.\<close>

fun join_spaces :: "chars list \<Rightarrow> chars" where
  "join_spaces [] = []"
| "join_spaces [a] = a"
| "join_spaces (a # b # as) = a @ 0x20 # join_spaces (b # as)"

definition format_cmd :: "job \<Rightarrow> chars" where
  "format_cmd j = (if j_args j = [] then j_cmd j else j_cmd j @ 0x20 # join_spaces (j_args j))"

definition job_start :: "'w kern \<Rightarrow> bool \<Rightarrow> chars \<Rightarrow> chars list \<Rightarrow> job \<Rightarrow> (job, 'w) prog" where
  "job_start sys foreground cmd args j =
     (if j_state j = JCreated
      then let j = j\<lparr>j_cmd := cmd, j_args := args\<rparr> in
        pbind (do_spawn sys cmd args foreground (j_backend j)) (\<lambda>(r, be).
          let j = j\<lparr>j_backend := be\<rparr> in ret (case r of
            Inr pid \<Rightarrow> j\<lparr>j_pid := pid, j_state := (if foreground then JForeground else JBackground)\<rparr>
          | Inl msg \<Rightarrow> j\<lparr>j_spawn_error := msg, j_state := JDone\<rparr>))
      else ret j)"

definition job_spawn :: "'w kern \<Rightarrow> chars \<Rightarrow> chars list \<Rightarrow> job \<Rightarrow> (job, 'w) prog" where
  "job_spawn sys = job_start sys True"

definition job_spawn_detached :: "'w kern \<Rightarrow> chars \<Rightarrow> chars list \<Rightarrow> job \<Rightarrow> (job, 'w) prog" where
  "job_spawn_detached sys = job_start sys False"

definition job_try_reap :: "'w kern \<Rightarrow> job \<Rightarrow> (bool \<times> job, 'w) prog" where
  "job_try_reap sys j = pbind (be_try_reap sys (j_backend j)) (\<lambda>(r, be).
     let j = j\<lparr>j_backend := be\<rparr> in ret (case r of
       Some code \<Rightarrow> (True, j\<lparr>j_exit_code := code\<rparr>)
     | None \<Rightarrow> (False, j)))"

definition job_poll :: "'w kern \<Rightarrow> job \<Rightarrow> (job, 'w) prog" where
  "job_poll sys j =
     (if j_state j = JForeground \<or> j_state j = JBackground
      then pbind (job_try_reap sys j) (\<lambda>(gone, j). ret (if gone then j\<lparr>j_state := JDone\<rparr> else j))
      else ret j)"

definition job_await_rest :: "'w kern \<Rightarrow> job \<Rightarrow> (job, 'w) prog" where
  "job_await_rest sys j =
     (if j_state j = JForeground \<or> j_state j = JBackground
      then pbind (be_wait_foreground sys (j_backend j)) (\<lambda>(r, be).
        let j = j\<lparr>j_backend := be\<rparr> in ret (case r of
          FgExited code \<Rightarrow> j\<lparr>j_exit_code := code, j_state := JDone\<rparr>
        | FgStopped \<Rightarrow> j\<lparr>j_state := JStopped\<rparr>))
      else ret j)"

definition job_stop :: "'w kern \<Rightarrow> job \<Rightarrow> (job, 'w) prog" where
  "job_stop sys j =
     (if j_state j = JForeground \<or> j_state j = JBackground
      then pbind (be_signal sys 20 (j_backend j)) (\<lambda>_. ret (j\<lparr>j_state := JStopped\<rparr>)) else ret j)"

definition job_to_foreground :: "'w kern \<Rightarrow> job \<Rightarrow> (job, 'w) prog" where
  "job_to_foreground sys j = (case j_state j of
       JBackground \<Rightarrow> ret (j\<lparr>j_state := JForeground\<rparr>)
     | JStopped \<Rightarrow> pbind (be_signal sys SIGCONT_SIG (j_backend j)) (\<lambda>_. ret (j\<lparr>j_state := JForeground\<rparr>))
     | _ \<Rightarrow> ret j)"

definition job_to_background :: "'w kern \<Rightarrow> job \<Rightarrow> (job, 'w) prog" where
  "job_to_background sys j = (case j_state j of
       JForeground \<Rightarrow> ret (j\<lparr>j_state := JBackground\<rparr>)
     | JStopped \<Rightarrow> pbind (be_signal sys SIGCONT_SIG (j_backend j)) (\<lambda>_. ret (j\<lparr>j_state := JBackground\<rparr>))
     | _ \<Rightarrow> ret j)"

definition job_kill :: "'w kern \<Rightarrow> job \<Rightarrow> (job, 'w) prog" where
  "job_kill sys j =
     (if j_state j \<in> {JForeground, JBackground, JStopped}
      then pbind (if j_state j = JStopped then be_signal sys SIGCONT_SIG (j_backend j) else ret ()) (\<lambda>_.
        pbind (be_signal sys 9 (j_backend j)) (\<lambda>_.
        pbind (job_try_reap sys j) (\<lambda>(_, j). ret (j\<lparr>j_state := JDone\<rparr>))))
      else ret j)"

section \<open>Job control\<close>

record job_control =
  jc_running :: bool
  jc_jobs :: "job list"
  jc_next_id :: u32
  jc_foreground :: "u32 option"

definition JobControl_create :: job_control where
  "JobControl_create = \<lparr>jc_running = False, jc_jobs = [], jc_next_id = 1, jc_foreground = None\<rparr>"

text \<open>The searches: the first job with a property is changed.\<close>

fun on_first :: "(job \<Rightarrow> bool) \<Rightarrow> (job \<Rightarrow> (job, 'w) prog) \<Rightarrow> job list \<Rightarrow> (bool \<times> job list, 'w) prog" where
  "on_first P f [] = ret (False, [])"
| "on_first P f (j # js) =
     (if P j then pbind (f j) (\<lambda>j. ret (True, j # js))
      else pbind (on_first P f js) (\<lambda>(found, js). ret (found, j # js)))"

definition jc_spawn_foreground :: "'w kern \<Rightarrow> chars \<Rightarrow> chars list \<Rightarrow> job_control \<Rightarrow> (job_control, 'w) prog" where
  "jc_spawn_foreground sys cmd args c =
     (if jc_running c then ret c
      else pbind (job_spawn sys cmd args (Job_create (jc_next_id c))) (\<lambda>j.
        ret (c\<lparr>jc_running := True, jc_jobs := jc_jobs c @ [j], jc_foreground := Some (jc_next_id c)\<rparr>)))"

definition jc_spawn_background :: "'w kern \<Rightarrow> chars \<Rightarrow> chars list \<Rightarrow> job_control \<Rightarrow> (job_control, 'w) prog" where
  "jc_spawn_background sys cmd args c =
     (if jc_running c then ret c
      else pbind (job_spawn_detached sys cmd args (Job_create (jc_next_id c))) (\<lambda>j.
        ret (c\<lparr>jc_jobs := jc_jobs c @ [j], jc_next_id := jc_next_id c + 1\<rparr>)))"

definition jc_fg :: "'w kern \<Rightarrow> u32 \<Rightarrow> job_control \<Rightarrow> (job_control, 'w) prog" where
  "jc_fg sys i c =
     (if jc_running c then ret c
      else pbind (on_first (\<lambda>j. j_id j = i \<and> \<not> job_done j) (job_to_foreground sys) (jc_jobs c)) (\<lambda>(found, js).
        let c = c\<lparr>jc_jobs := js\<rparr> in
        ret (if found then c\<lparr>jc_running := True, jc_foreground := Some i\<rparr> else c)))"

definition jc_bg :: "'w kern \<Rightarrow> u32 \<Rightarrow> job_control \<Rightarrow> (job_control, 'w) prog" where
  "jc_bg sys i c =
     (if jc_running c then ret c
      else pbind (on_first (\<lambda>j. j_id j = i \<and> \<not> job_done j) (job_to_background sys) (jc_jobs c)) (\<lambda>(_, js).
        ret (c\<lparr>jc_jobs := js\<rparr>)))"

definition jc_kill_job :: "'w kern \<Rightarrow> u32 \<Rightarrow> job_control \<Rightarrow> (job_control, 'w) prog" where
  "jc_kill_job sys i c = pbind (on_first (\<lambda>j. j_id j = i) (job_kill sys) (jc_jobs c)) (\<lambda>(_, js).
     let c = c\<lparr>jc_jobs := js\<rparr> in
     ret (if jc_running c \<and> jc_foreground c = Some i then c\<lparr>jc_running := False, jc_foreground := None\<rparr> else c))"

definition jc_wait_for :: "'w kern \<Rightarrow> u32 \<Rightarrow> job_control \<Rightarrow> (job_control, 'w) prog" where
  "jc_wait_for sys i c = pbind (on_first (\<lambda>j. j_id j = i) (job_await_rest sys) (jc_jobs c)) (\<lambda>(_, js).
     ret (c\<lparr>jc_jobs := js\<rparr>))"

fun tick_jobs :: "'w kern \<Rightarrow> job list \<Rightarrow> (job list, 'w) prog" where
  "tick_jobs sys [] = ret []"
| "tick_jobs sys (j # js) = pbind (if job_done j then ret j else job_poll sys j) (\<lambda>j.
     pbind (tick_jobs sys js) (\<lambda>js. ret (j # js)))"

definition jc_tick :: "'w kern \<Rightarrow> job_control \<Rightarrow> (job_control, 'w) prog" where
  "jc_tick sys c = pbind (tick_jobs sys (jc_jobs c)) (\<lambda>js. ret (c\<lparr>jc_jobs := js\<rparr>))"

fun remove_first :: "u32 \<Rightarrow> job list \<Rightarrow> job list" where
  "remove_first i [] = []"
| "remove_first i (j # js) = (if j_id j = i then js else j # remove_first i js)"

definition jc_remove :: "u32 \<Rightarrow> job_control \<Rightarrow> job_control" where
  "jc_remove i c = (if jc_running c then c else c\<lparr>jc_jobs := remove_first i (jc_jobs c)\<rparr>)"

definition drive_foreground_to_idle :: "'w kern \<Rightarrow> job_control \<Rightarrow> (job_control, 'w) prog" where
  "drive_foreground_to_idle sys c = (case jc_foreground c of None \<Rightarrow> ret c
     | Some fid \<Rightarrow> pbind (on_first (\<lambda>j. j_id j = fid) (job_await_rest sys) (jc_jobs c)) (\<lambda>(found, js).
         ret (c\<lparr>jc_jobs := js, jc_next_id :=
           (case List.find (\<lambda>j. j_id j = fid) js of
              Some j \<Rightarrow> if job_state_name j = lit ''Stopped'' then jc_next_id c + 1 else jc_next_id c
            | None \<Rightarrow> jc_next_id c)\<rparr>)))"

definition jc_wait_foreground :: "'w kern \<Rightarrow> job_control \<Rightarrow> (job_control, 'w) prog" where
  "jc_wait_foreground sys c =
     (if jc_running c
      then pbind (drive_foreground_to_idle sys c) (\<lambda>c. ret (c\<lparr>jc_running := False, jc_foreground := None\<rparr>))
      else ret c)"

definition jc_stop_foreground :: "'w kern \<Rightarrow> job_control \<Rightarrow> (job_control, 'w) prog" where
  "jc_stop_foreground sys c =
     (if jc_running c
      then pbind (case jc_foreground c of None \<Rightarrow> ret (jc_jobs c)
             | Some fid \<Rightarrow> pbind (on_first (\<lambda>j. j_id j = fid \<and> \<not> job_done j) (job_stop sys) (jc_jobs c)) (\<lambda>(_, js). ret js)) (\<lambda>js.
        ret (c\<lparr>jc_running := False, jc_jobs := js, jc_foreground := None\<rparr>))
      else ret c)"

record job_summary =
  s_id :: u32
  s_pid :: u32
  s_state :: chars
  s_cmd :: chars
  s_exit_code :: u32

definition job_summaries :: "job_control \<Rightarrow> job_summary list" where
  "job_summaries c = map (\<lambda>j. \<lparr>s_id = j_id j, s_pid = j_pid j, s_state = job_state_name j, s_cmd = format_cmd j,
     s_exit_code = j_exit_code j\<rparr>) (jc_jobs c)"

section \<open>The environment of the shell\<close>

datatype command_kind = CmdBuiltin | CmdExternal | CmdFg "chars option"

definition finished :: "job_summary \<Rightarrow> bool" where
  "finished s \<longleftrightarrow> s_state s = lit ''Done'' \<or> starts_with (lit ''Failed'') (s_state s)"

definition live_pid :: "u32 \<Rightarrow> job_control \<Rightarrow> u32" where
  "live_pid i c = (case List.find (\<lambda>s. s_id s = i \<and> \<not> finished s) (job_summaries c) of Some s \<Rightarrow> s_pid s | None \<Rightarrow> 0)"

definition emit_job_line :: "'w kern \<Rightarrow> bytes \<Rightarrow> u32 \<Rightarrow> bytes \<Rightarrow> chars \<Rightarrow> bytes \<Rightarrow> (unit, 'w) prog" where
  "emit_job_line sys prefix i mid cmd suffix = emit sys (prefix @ push_u64 (ucast i) @ mid @ as_bytes cmd @ suffix)"

definition println :: "'w kern \<Rightarrow> chars \<Rightarrow> (unit, 'w) prog" where
  "println sys s = emit sys (as_bytes s @ [0x0A])"

definition print_prompt :: "'w kern \<Rightarrow> (unit, 'w) prog" where
  "print_prompt sys = print sys (lit ''frameos$ '')"

fun report_done :: "'w kern \<Rightarrow> job_summary list \<Rightarrow> job_control \<Rightarrow> (job_control, 'w) prog" where
  "report_done sys [] c = ret c"
| "report_done sys (s # ss) c =
     (if finished s
      then pbind (emit_job_line sys (lit ''['') (s_id s) (lit '']+ Done   '') (s_cmd s) [0x0A]) (\<lambda>_.
        report_done sys ss (jc_remove (s_id s) c))
      else report_done sys ss c)"

definition env_tick :: "'w kern \<Rightarrow> job_control \<Rightarrow> (job_control, 'w) prog" where
  "env_tick sys c = pbind (jc_tick sys c) (\<lambda>c. report_done sys (job_summaries c) c)"

definition env_classify :: "chars list \<Rightarrow> command_kind option" where
  "env_classify ws = (case ws of [] \<Rightarrow> None
     | w # args \<Rightarrow> Some (
         if w = lit ''fg'' then CmdFg (case args of [] \<Rightarrow> None | a # _ \<Rightarrow> Some a)
         else if w \<in> set (map lit [''help'', ''jobs'', ''bg'', ''kill'', ''cd'', ''pwd'', ''clear'', ''cat'']) then CmdBuiltin
         else CmdExternal))"

definition builtin_help :: "'w kern \<Rightarrow> (unit, 'w) prog" where
  "builtin_help sys = each (\<lambda>l. print sys (lit l @ [0x0A]))
     [''ish builtins: help, exit, cd [dir], pwd, clear, cat <path>..., jobs, fg [id], bg [id], kill %<job>|<pid>'',
      ''on disk in /bin: ls, echo, rm, cp, touch, wc, head, tail, grep, date, mkdir, rmdir, mv, ps, ...'',
      ''redirection (external cmds): cmd > file, cmd >> file, cmd < file'',
      ''pipes: cmd1 | cmd2 (connect cmd1'' @ [CHR 0x27] @ ''s stdout to cmd2'' @ [CHR 0x27] @ ''s stdin)'',
      ''background: cmd &   (jobs/fg/bg manage; Ctrl-Z stops the foreground job, Ctrl-C interrupts)'']"

definition job_line :: "job_summary \<Rightarrow> bytes" where
  "job_line s = lit ''['' @ push_u64 (ucast (s_id s)) @ lit ''] ''
     @ (if s_state s = lit ''Stopped'' then lit ''Stopped '' else if finished s then lit ''Done    '' else lit ''Running '')
     @ push_u64 (ucast (s_pid s)) @ [0x20] @ as_bytes (s_cmd s) @ [0x0A]"

definition strip_percent :: "chars \<Rightarrow> chars option" where
  "strip_percent s = (case s of c # t \<Rightarrow> if c = 0x25 then Some t else None | [] \<Rightarrow> None)"

definition highest_stopped :: "job_control \<Rightarrow> u32" where
  "highest_stopped c = fold (\<lambda>s best. if s_state s = lit ''Stopped'' \<and> best < s_id s then s_id s else best) (job_summaries c) 0"

definition builtin_bg :: "'w kern \<Rightarrow> chars list \<Rightarrow> job_control \<Rightarrow> (job_control, 'w) prog" where
  "builtin_bg sys args c =
     (let i = (case args of
           a # _ \<Rightarrow> (case parse_u32 (case strip_percent a of Some t \<Rightarrow> t | None \<Rightarrow> a) of Some n \<Rightarrow> n | None \<Rightarrow> 0)
         | [] \<Rightarrow> highest_stopped c);
          cmd = (case List.find (\<lambda>s. s_id s = i \<and> s_state s \<noteq> lit ''Done'') (job_summaries c) of Some s \<Rightarrow> s_cmd s | None \<Rightarrow> [])
      in if live_pid i c = 0 then pbind (print sys (lit ''bg: no such job'' @ [0x0A])) (\<lambda>_. ret c)
         else pbind (jc_bg sys i c) (\<lambda>c. pbind (emit_job_line sys (lit ''['') i (lit ''] '') cmd (lit '' &'' @ [0x0A])) (\<lambda>_. ret c)))"

definition kill_target :: "'w kern \<Rightarrow> chars list \<Rightarrow> job_control \<Rightarrow> (u64 option, 'w) prog" where
  "kill_target sys args c = (case args of
       [] \<Rightarrow> pbind (print sys (lit ''kill: usage: kill [-SIG] %<job> | <pid>'' @ [0x0A])) (\<lambda>_. ret None)
     | a # _ \<Rightarrow> (case strip_percent a of
           Some spec \<Rightarrow> (case parse_u32 spec of
               None \<Rightarrow> pbind (print sys (lit ''kill: bad job spec'' @ [0x0A])) (\<lambda>_. ret None)
             | Some n \<Rightarrow> if live_pid n c = 0
                 then pbind (print sys (lit ''kill: no such job'' @ [0x0A])) (\<lambda>_. ret None)
                 else ret (Some (ucast (live_pid n c))))
         | None \<Rightarrow> (case parse_u32 a of
               Some n \<Rightarrow> ret (Some (ucast n))
             | None \<Rightarrow> pbind (message sys ''kill: not a pid: '' a) (\<lambda>_. ret None))))"

definition builtin_kill :: "'w kern \<Rightarrow> chars list \<Rightarrow> job_control \<Rightarrow> (unit, 'w) prog" where
  "builtin_kill sys args c =
     (let go = (\<lambda>sig args. pbind (kill_target sys args c) (\<lambda>t. case t of None \<Rightarrow> ret ()
           | Some pid \<Rightarrow> pbind (sys_call sys (CKill pid sig)) (\<lambda>r.
               if r = - 1 then print sys (lit ''kill: no such process'' @ [0x0A]) else ret ())))
      in case args of
           a # as \<Rightarrow> if starts_with (lit ''-'') a
             then (case parse_signal (tl a) of
                 Some sig \<Rightarrow> go sig as
               | None \<Rightarrow> message sys ''kill: bad signal: '' a)
             else go 15 args
         | [] \<Rightarrow> go 15 [])"

definition builtin_cd :: "'w kern \<Rightarrow> chars list \<Rightarrow> (unit, 'w) prog" where
  "builtin_cd sys args = (let target = (case args of a # _ \<Rightarrow> a | [] \<Rightarrow> lit ''/'') in
     pbind (sys_call sys (CChdir (as_bytes target))) (\<lambda>r.
       if r = - 1 then message sys ''cd: no such directory: '' target else ret ()))"

definition builtin_pwd :: "'w kern \<Rightarrow> (unit, 'w) prog" where
  "builtin_pwd sys = pbind (sys_call_buf sys (CGetcwd 256) (replicate 256 0)) (\<lambda>(n, b).
     if n \<noteq> - 1 then (case sub_slice b 0 (unat n) of None \<Rightarrow> hang | Some s \<Rightarrow> emit sys (s @ [0x0A])) else ret ())"

definition env_run_builtin :: "'w kern \<Rightarrow> chars list \<Rightarrow> job_control \<Rightarrow> (job_control, 'w) prog" where
  "env_run_builtin sys ws c = (case ws of [] \<Rightarrow> hang
     | w # args \<Rightarrow>
         (let keep = (\<lambda>p. pbind p (\<lambda>_. ret c)) in
          if w = lit ''help'' then keep (builtin_help sys)
          else if w = lit ''jobs'' then keep (each (\<lambda>s. emit sys (job_line s)) (job_summaries c))
          else if w = lit ''bg'' then builtin_bg sys args c
          else if w = lit ''kill'' then keep (builtin_kill sys args c)
          else if w = lit ''cd'' then keep (builtin_cd sys args)
          else if w = lit ''pwd'' then keep (builtin_pwd sys)
          else if w = lit ''clear'' then keep (print sys (0x1B # lit ''[2J'' @ 0x1B # lit ''[H''))
          else if w = lit ''cat'' then keep (each (cat sys) args)
          else ret c))"

definition redir_of :: "command \<Rightarrow> (chars \<times> bool) option" where
  "redir_of cmd = map_option (\<lambda>f. (f, c_append cmd)) (c_out cmd)"

definition env_run_foreground_redirected :: "'w kern \<Rightarrow> command \<Rightarrow> (unit, 'w) prog" where
  "env_run_foreground_redirected sys cmd = run_external_untracked sys (c_words cmd) (c_in cmd) (redir_of cmd) False"

definition has_redir :: "command \<Rightarrow> bool" where
  "has_redir cmd \<longleftrightarrow> c_in cmd \<noteq> None \<or> c_out cmd \<noteq> None"

definition env_spawn_background :: "'w kern \<Rightarrow> command \<Rightarrow> job_control \<Rightarrow> (job_control, 'w) prog" where
  "env_spawn_background sys cmd c =
     (if has_redir cmd
      then pbind (run_external_untracked sys (c_words cmd) (c_in cmd) (redir_of cmd) True) (\<lambda>_. ret c)
      else case c_words cmd of [] \<Rightarrow> hang
        | w # args \<Rightarrow> pbind (jc_spawn_background sys w args c) (\<lambda>c.
            let i = (if jc_next_id c = 0 then 0 else jc_next_id c - 1);
                pid = (case List.find (\<lambda>s. s_id s = i) (job_summaries c) of Some s \<Rightarrow> s_pid s | None \<Rightarrow> 0)
            in pbind (emit sys (lit ''['' @ push_u64 (ucast i) @ lit ''] '' @ push_u64 (ucast pid) @ [0x0A])) (\<lambda>_. ret c)))"

definition env_spawn_foreground :: "'w kern \<Rightarrow> chars list \<Rightarrow> job_control \<Rightarrow> (job_control, 'w) prog" where
  "env_spawn_foreground sys ws c = (case ws of [] \<Rightarrow> hang | w # args \<Rightarrow> jc_spawn_foreground sys w args c)"

definition env_run_pipeline :: "'w kern \<Rightarrow> command list \<Rightarrow> (unit, 'w) prog" where
  "env_run_pipeline sys cs =
     (if 2 < length cs then println sys (lit ''ish: only 2-stage pipelines are supported'')
      else case cs of [a, b] \<Rightarrow> run_pipeline sys (c_words a) (c_words b) | _ \<Rightarrow> hang)"

definition env_wait_foreground :: "'w kern \<Rightarrow> job_control \<Rightarrow> (job_control, 'w) prog" where
  "env_wait_foreground sys c =
     (let fid = (case jc_foreground c of Some i \<Rightarrow> i | None \<Rightarrow> 0) in
      pbind (jc_wait_foreground sys c) (\<lambda>c.
        case List.find (\<lambda>s. s_id s = fid) (job_summaries c) of
          Some s \<Rightarrow> if s_state s = lit ''Stopped''
            then pbind (emit_job_line sys (lit ''['') fid (lit '']+ Stopped   '') (s_cmd s) [0x0A]) (\<lambda>_. ret c)
            else ret (jc_remove fid c)
        | None \<Rightarrow> ret (jc_remove fid c)))"

section \<open>The shell\<close>

datatype shell_state = Prompting | Exiting

record shell =
  sh_state :: shell_state
  sh_line :: chars
  sh_words :: "chars list"
  sh_pipeline :: "command list"
  sh_redir_out :: "chars option"
  sh_append :: bool
  sh_history :: "chars list"
  sh_jobs :: job_control

definition push_history :: "shell \<Rightarrow> shell" where
  "push_history sh = sh\<lparr>sh_history := sh_history sh @ [sh_line sh]\<rparr>"

definition enter_prompting :: "'w kern \<Rightarrow> shell \<Rightarrow> (shell, 'w) prog" where
  "enter_prompting sys sh = pbind (env_tick sys (sh_jobs sh)) (\<lambda>c.
     pbind (print_prompt sys) (\<lambda>_. ret (sh\<lparr>sh_jobs := c, sh_state := Prompting\<rparr>)))"

definition enter_running_builtin :: "'w kern \<Rightarrow> shell \<Rightarrow> (shell, 'w) prog" where
  "enter_running_builtin sys sh = pbind (env_run_builtin sys (sh_words sh) (sh_jobs sh)) (\<lambda>c.
     enter_prompting sys (push_history (sh\<lparr>sh_jobs := c, sh_redir_out := None\<rparr>)))"

definition enter_running_pipeline :: "'w kern \<Rightarrow> shell \<Rightarrow> (shell, 'w) prog" where
  "enter_running_pipeline sys sh = pbind (env_run_pipeline sys (sh_pipeline sh)) (\<lambda>_.
     enter_prompting sys (sh\<lparr>sh_pipeline := []\<rparr>))"

definition enter_running_foreground :: "'w kern \<Rightarrow> shell \<Rightarrow> (shell, 'w) prog" where
  "enter_running_foreground sys sh = pbind (env_wait_foreground sys (sh_jobs sh)) (\<lambda>c.
     enter_prompting sys (push_history (sh\<lparr>sh_jobs := c\<rparr>)))"

text \<open>The end of \<open>$Parsing\<close> for a single command, by its kind.\<close>

definition dispatch_external :: "'w kern \<Rightarrow> command \<Rightarrow> bool \<Rightarrow> shell \<Rightarrow> (shell, 'w) prog" where
  "dispatch_external sys cmd background sh =
     (if background
      then pbind (env_spawn_background sys cmd (sh_jobs sh)) (\<lambda>c. enter_prompting sys (push_history (sh\<lparr>sh_jobs := c\<rparr>)))
      else if has_redir cmd
      then pbind (env_run_foreground_redirected sys cmd) (\<lambda>_. enter_prompting sys (push_history sh))
      else pbind (env_spawn_foreground sys (c_words cmd) (sh_jobs sh)) (\<lambda>c. enter_running_foreground sys (sh\<lparr>sh_jobs := c\<rparr>)))"

definition dispatch_fg :: "'w kern \<Rightarrow> chars option \<Rightarrow> bool \<Rightarrow> shell \<Rightarrow> (shell, 'w) prog" where
  "dispatch_fg sys arg background sh =
     (if background then pbind (println sys (lit ''fg: cannot run fg in the background'')) (\<lambda>_. enter_prompting sys sh)
      else case Option.bind arg std_parse_u32 of
        Some i \<Rightarrow> pbind (jc_fg sys i (sh_jobs sh)) (\<lambda>c.
          let sh = sh\<lparr>sh_jobs := c\<rparr> in
          if jc_running c then enter_running_foreground sys (push_history sh)
          else pbind (println sys (lit ''fg: no such job: '' @ map ucast (push_u64 (ucast i)))) (\<lambda>_. enter_prompting sys sh))
      | None \<Rightarrow> pbind (println sys (lit ''fg: missing or invalid job id'')) (\<lambda>_. enter_prompting sys (push_history sh)))"

definition dispatch_builtin :: "'w kern \<Rightarrow> command \<Rightarrow> bool \<Rightarrow> shell \<Rightarrow> (shell, 'w) prog" where
  "dispatch_builtin sys cmd background sh =
     (if background then pbind (println sys (lit ''frame-os: background builtins are not supported'')) (\<lambda>_. enter_prompting sys sh)
      else enter_running_builtin sys (sh\<lparr>sh_words := c_words cmd, sh_redir_out := c_out cmd, sh_append := c_append cmd\<rparr>))"

definition enter_parsing :: "'w kern \<Rightarrow> shell \<Rightarrow> (shell, 'w) prog" where
  "enter_parsing sys sh = (case parse_line (sh_line sh) of
       Inl msg \<Rightarrow> pbind (println sys msg) (\<lambda>_. enter_prompting sys sh)
     | Inr (cs, background) \<Rightarrow>
         if cs = [] then enter_prompting sys sh
         else if 2 \<le> length cs then enter_running_pipeline sys (push_history (sh\<lparr>sh_pipeline := cs\<rparr>))
         else (case env_classify (c_words (hd cs)) of None \<Rightarrow> hang
           | Some CmdExternal \<Rightarrow> dispatch_external sys (hd cs) background sh
           | Some (CmdFg arg) \<Rightarrow> dispatch_fg sys arg background sh
           | Some CmdBuiltin \<Rightarrow> dispatch_builtin sys (hd cs) background sh))"

definition shell_line :: "'w kern \<Rightarrow> chars \<Rightarrow> shell \<Rightarrow> (shell, 'w) prog" where
  "shell_line sys input sh = (case sh_state sh of
       Exiting \<Rightarrow> ret sh
     | Prompting \<Rightarrow>
         if trim input = [] then pbind (print_prompt sys) (\<lambda>_. ret sh)
         else if trim input = lit ''exit'' \<or> trim input = lit ''quit'' then ret (sh\<lparr>sh_state := Exiting\<rparr>)
         else enter_parsing sys (sh\<lparr>sh_line := input\<rparr>))"

definition Shell_create :: "'w kern \<Rightarrow> (shell, 'w) prog" where
  "Shell_create sys = enter_prompting sys \<lparr>sh_state = Prompting, sh_line = [], sh_words = [], sh_pipeline = [],
     sh_redir_out = None, sh_append = False, sh_history = [], sh_jobs = JobControl_create\<rparr>"

text \<open>The loop of \<open>_start\<close>.\<close>

partial_function (option) ish_loop :: "'w kern \<Rightarrow> shell \<Rightarrow> bytes \<Rightarrow> 'w \<Rightarrow> (unit option \<times> 'w) option" where
  "ish_loop sys sh b w = pbind (sys_call_buf sys (CReadLine 256) b) (\<lambda>(n, b) w.
     case sub_slice b 0 (unat n) of None \<Rightarrow> hang w
     | Some l \<Rightarrow> pbind (shell_line sys (case from_utf8 l of Some s \<Rightarrow> s | None \<Rightarrow> []) sh) (\<lambda>sh w.
         if sh_state sh = Exiting then exit_prog sys 0 w else ish_loop sys sh b w) w) w"

declare ish_loop.simps [code]

definition ish_start :: "'w kern \<Rightarrow> (unit, 'w) prog" where
  "ish_start sys = pbind (print sys ([0x0A] @ lit ''Frame OS interactive shell (ish). Type '' @ [0x27] @ lit ''help'' @ [0x27] @ lit ''.'' @ [0x0A])) (\<lambda>_.
     pbind (Shell_create sys) (\<lambda>sh. ish_loop sys sh (replicate 256 0)))"

text \<open>The two other events of the system, which the ring-3 program does not send.\<close>

definition shell_interrupt :: "'w kern \<Rightarrow> shell \<Rightarrow> (shell, 'w) prog" where
  "shell_interrupt sys sh = (case sh_state sh of Exiting \<Rightarrow> ret sh | Prompting \<Rightarrow> pbind (print_prompt sys) (\<lambda>_. ret sh))"

definition shell_eof :: "shell \<Rightarrow> shell" where
  "shell_eof sh = sh\<lparr>sh_state := Exiting\<rparr>"

end
