(* ===== verification/IshInv.thy ===== *)
theory IshInv
  imports Ish
begin

text \<open>
  The job table of the shell, for every behaviour of the kernel: what holds each time the shell is
  back at its prompt.
\<close>

section \<open>Programs that return\<close>

definition returns :: "('a, 'w) prog \<Rightarrow> ('a \<Rightarrow> bool) \<Rightarrow> bool" where
  "returns m P \<longleftrightarrow> (\<forall>w x w'. m w = Some (Some x, w') \<longrightarrow> P x)"

named_theorems returns_rules \<open>what programs return\<close>

lemma returns_ret [returns_rules]: "P x \<Longrightarrow> returns (ret x) P"
  by (simp add: returns_def ret_def)

lemma returns_hang [returns_rules]: "returns hang P"
  by (simp add: returns_def hang_def)

lemma returns_bind: "returns m Q \<Longrightarrow> (\<And>x. Q x \<Longrightarrow> returns (f x) P) \<Longrightarrow> returns (pbind m f) P"
  by (fastforce simp: returns_def pbind_def Option.bind_eq_Some_conv split: option.splits prod.splits)

lemma returns_any [returns_rules]: "(\<And>x. returns (f x) P) \<Longrightarrow> returns (pbind m f) P"
  by (rule returns_bind [of m "\<lambda>_. True"]) (simp_all add: returns_def)

lemma returns_True [returns_rules]: "returns m (\<lambda>_. True)"
  by (simp add: returns_def)

lemma returns_mono: "returns m Q \<Longrightarrow> (\<And>x. Q x \<Longrightarrow> P x) \<Longrightarrow> returns m P"
  by (auto simp: returns_def)

lemma returns_exit [returns_rules]: "returns (exit_prog sys code) P"
  unfolding exit_prog_def by (intro returns_rules)

lemma returns_exec [returns_rules]: "returns (exec_or_exit sys argv argc cmd) P"
  unfolding exec_or_exit_def by (intro returns_rules)

section \<open>Jobs\<close>

text \<open>A job that was started and never failed to start.\<close>

definition job_ok :: "job \<Rightarrow> bool" where
  "job_ok j \<longleftrightarrow> j_state j \<noteq> JCreated \<and> j_spawn_error j = []"

lemma do_spawn_returns: "returns (do_spawn sys cmd args fg be) (\<lambda>(r, _). \<exists>pid. r = Inr pid)"
  unfolding do_spawn_def build_argv_def list.case option.case prod.case Let_def
  by (intro returns_any) (auto intro!: returns_rules simp: returns_ret)

lemma job_start_returns:
  "returns (job_start sys fg cmd args (Job_create i)) (\<lambda>j. j_id j = i \<and> job_ok j \<and> j_state j = (if fg then JForeground else JBackground))"
  unfolding job_start_def Let_def
  by (auto intro!: returns_bind [OF do_spawn_returns] returns_ret simp: Job_create_def job_ok_def)

lemma job_try_reap_returns:
  "returns (job_try_reap sys j) (\<lambda>(_, j'). j_id j' = j_id j \<and> j_state j' = j_state j \<and> j_spawn_error j' = j_spawn_error j)"
  unfolding job_try_reap_def Let_def by (auto intro!: returns_rules split: option.splits)

lemma job_poll_returns:
  "job_ok j \<Longrightarrow> returns (job_poll sys j) (\<lambda>j'. j_id j' = j_id j \<and> job_ok j'
     \<and> j_state j' = (if j_state j' = JDone then JDone else j_state j))"
  unfolding job_poll_def
  by (auto intro!: returns_bind [OF job_try_reap_returns] returns_ret simp: job_ok_def split: if_splits)

lemma job_await_returns:
  "job_ok j \<Longrightarrow> returns (job_await_rest sys j) (\<lambda>j'. j_id j' = j_id j \<and> job_ok j'
     \<and> (j_state j = JForeground \<longrightarrow> j_state j' \<in> {JDone, JStopped}) \<and> (j_state j \<in> {JDone, JStopped} \<longrightarrow> j' = j))"
  unfolding job_await_rest_def be_wait_foreground_def Let_def
  by (auto intro!: returns_rules simp: job_ok_def split: fg_outcome.splits)

lemma job_to_foreground_returns:
  "job_ok j \<Longrightarrow> returns (job_to_foreground sys j) (\<lambda>j'. j_id j' = j_id j \<and> job_ok j'
     \<and> j_state j' = (if j_state j = JDone then JDone else JForeground))"
  unfolding job_to_foreground_def be_signal_def
  by (auto intro!: returns_rules simp: job_ok_def split: job_state.split)

lemma job_to_background_returns:
  "job_ok j \<Longrightarrow> returns (job_to_background sys j) (\<lambda>j'. j_id j' = j_id j \<and> job_ok j'
     \<and> j_state j' = (if j_state j = JDone then JDone else JBackground))"
  unfolding job_to_background_def be_signal_def
  by (auto intro!: returns_rules simp: job_ok_def split: job_state.split)

section \<open>The job table\<close>

definition first_changed :: "(job \<Rightarrow> bool) \<Rightarrow> (job \<Rightarrow> job \<Rightarrow> bool) \<Rightarrow> job list \<Rightarrow> bool \<Rightarrow> job list \<Rightarrow> bool" where
  "first_changed P Q js found js' \<longleftrightarrow>
     (if found then \<exists>us j vs j'. js = us @ j # vs \<and> (\<forall>u\<in>set us. \<not> P u) \<and> P j \<and> Q j j' \<and> js' = us @ j' # vs
      else js' = js \<and> (\<forall>j\<in>set js. \<not> P j))"

lemma first_changed_here: "P j \<Longrightarrow> Q j j' \<Longrightarrow> first_changed P Q (j # js) True (j' # js)"
  unfolding first_changed_def if_True by (intro exI [of _ "[]"] exI [of _ j] exI [of _ js] exI [of _ j']) simp

lemma first_changed_later: "\<not> P j \<Longrightarrow> first_changed P Q js found js' \<Longrightarrow> first_changed P Q (j # js) found (j # js')"
  unfolding first_changed_def by (cases found) (fastforce intro: exI [of _ "j # _"])+

lemma first_changed_found:
  assumes "first_changed P Q js True js'"
  obtains us j vs j' where "js = us @ j # vs" "\<forall>u\<in>set us. \<not> P u" "P j" "Q j j'" "js' = us @ j' # vs"
  using assms unfolding first_changed_def if_True by blast

lemma on_first_returns:
  assumes "\<And>j. j \<in> set js \<Longrightarrow> P j \<Longrightarrow> returns (f j) (Q j)"
  shows "returns (on_first P f js) (\<lambda>(found, js'). first_changed P Q js found js')"
  using assms
proof (induction js)
  case Nil
  then show ?case by (simp add: returns_ret first_changed_def)
next
  case (Cons j js)
  have IH: "returns (on_first P f js) (\<lambda>(found, js'). first_changed P Q js found js')" using Cons by simp
  have f: "P j \<Longrightarrow> returns (f j) (Q j)" using Cons.prems by simp
  show ?case
    by (auto intro!: returns_bind [OF f] returns_bind [OF IH] returns_ret first_changed_here first_changed_later)
qed

definition idle_jobs :: "job_control \<Rightarrow> bool" where
  "idle_jobs c \<longleftrightarrow> \<not> jc_running c \<and> jc_foreground c = None \<and> distinct (map j_id (jc_jobs c)) \<and> 0 < jc_next_id c
     \<and> (\<forall>j\<in>set (jc_jobs c). job_ok j \<and> 0 < j_id j \<and> j_id j < jc_next_id c \<and> j_state j \<noteq> JForeground)"

definition foreground_jobs :: "job_control \<Rightarrow> bool" where
  "foreground_jobs c \<longleftrightarrow> jc_running c \<and> distinct (map j_id (jc_jobs c)) \<and> 0 < jc_next_id c
     \<and> (\<exists>us j vs. jc_jobs c = us @ j # vs \<and> jc_foreground c = Some (j_id j) \<and> job_ok j \<and> j_state j = JForeground
          \<and> 0 < j_id j \<and> j_id j \<le> jc_next_id c
          \<and> (\<forall>k\<in>set (us @ vs). job_ok k \<and> 0 < j_id k \<and> j_id k < jc_next_id c \<and> j_state k \<noteq> JForeground))"

lemma spawn_foreground_returns:
  assumes "idle_jobs c"
  shows "returns (jc_spawn_foreground sys cmd args c) (\<lambda>c'. foreground_jobs c' \<and> jc_next_id c' = jc_next_id c)"
proof -
  have "foreground_jobs (c\<lparr>jc_running := True, jc_jobs := jc_jobs c @ [j], jc_foreground := Some (jc_next_id c)\<rparr>)"
    if "j_id j = jc_next_id c" "job_ok j" "j_state j = JForeground" for j
    using assms that unfolding foreground_jobs_def idle_jobs_def by (intro conjI exI [of _ "jc_jobs c"] exI [of _ j] exI [of _ "[]"]) auto
  then show ?thesis using assms unfolding jc_spawn_foreground_def job_spawn_def idle_jobs_def
    by (auto intro!: returns_bind [OF job_start_returns] returns_ret)
qed

lemma unat_next: "(x :: u32) \<noteq> - 1 \<Longrightarrow> unat (x + 1) = unat x + 1"
  using unatSuc [of x] by (metis Suc_eq_plus1 add.commute eq_neg_iff_add_eq_0)

lemma less_next:
  assumes "(x :: u32) \<noteq> - 1"
  shows "y \<le> x \<Longrightarrow> y < x + 1" "0 < x + 1"
  using unat_next [OF assms] by (simp_all add: word_less_nat_alt word_le_nat_alt)

lemma spawn_background_returns:
  assumes "idle_jobs c" "jc_next_id c \<noteq> - 1"
  shows "returns (jc_spawn_background sys cmd args c) (\<lambda>c'. idle_jobs c' \<and> jc_next_id c' = jc_next_id c + 1)"
proof -
  note n = less_next [OF assms(2)]
  have "idle_jobs (c\<lparr>jc_jobs := jc_jobs c @ [j], jc_next_id := jc_next_id c + 1\<rparr>)"
    if "j_id j = jc_next_id c" "job_ok j" "j_state j = JBackground" for j
    using assms(1) that n unfolding idle_jobs_def by (auto simp: n less_imp_le)
  then show ?thesis using assms(1) unfolding jc_spawn_background_def job_spawn_detached_def idle_jobs_def
    by (auto intro!: returns_bind [OF job_start_returns] returns_ret)
qed

lemma bg_returns:
  assumes "idle_jobs c"
  shows "returns (jc_bg sys i c) (\<lambda>c'. idle_jobs c' \<and> jc_next_id c' = jc_next_id c)"
proof -
  let ?P = "\<lambda>j. j_id j = i \<and> \<not> job_done j"
  let ?Q = "\<lambda>j j'. j_id j' = j_id j \<and> job_ok j' \<and> j_state j' = (if j_state j = JDone then JDone else JBackground)"
  have q: "returns (on_first ?P (job_to_background sys) (jc_jobs c)) (\<lambda>(found, js'). first_changed ?P ?Q (jc_jobs c) found js')"
    by (rule on_first_returns, rule job_to_background_returns) (use assms in \<open>simp add: idle_jobs_def\<close>)
  have "idle_jobs (c\<lparr>jc_jobs := js\<rparr>)" if "first_changed ?P ?Q (jc_jobs c) found js" for found js
    using that assms unfolding first_changed_def idle_jobs_def by (auto split: if_splits)
  then show ?thesis using assms unfolding jc_bg_def idle_jobs_def [of c]
    by (auto intro!: returns_bind [OF q] returns_ret)
qed

lemma fg_returns:
  assumes "idle_jobs c"
  shows "returns (jc_fg sys i c) (\<lambda>c'. (if jc_running c' then foreground_jobs c' else idle_jobs c') \<and> jc_next_id c' = jc_next_id c)"
proof -
  let ?P = "\<lambda>j. j_id j = i \<and> \<not> job_done j"
  let ?Q = "\<lambda>j j'. j_id j' = j_id j \<and> job_ok j' \<and> j_state j' = (if j_state j = JDone then JDone else JForeground)"
  have q: "returns (on_first ?P (job_to_foreground sys) (jc_jobs c)) (\<lambda>(found, js'). first_changed ?P ?Q (jc_jobs c) found js')"
    by (rule on_first_returns, rule job_to_foreground_returns) (use assms in \<open>simp add: idle_jobs_def\<close>)
  have "foreground_jobs (c\<lparr>jc_jobs := js, jc_running := True, jc_foreground := Some i\<rparr>)" if found: "first_changed ?P ?Q (jc_jobs c) True js" for js
  proof -
    obtain us j vs j' where j: "jc_jobs c = us @ j # vs" "?P j" "?Q j j'" "js = us @ j' # vs"
      using found by (rule first_changed_found) (rule that)
    then show ?thesis using assms unfolding foreground_jobs_def idle_jobs_def
      by (intro conjI exI [of _ us] exI [of _ j'] exI [of _ vs]) (auto simp: job_done_def less_imp_le)
  qed
  moreover have "c\<lparr>jc_jobs := js\<rparr> = c" if "first_changed ?P ?Q (jc_jobs c) False js" for js
    using that unfolding first_changed_def by simp
  ultimately show ?thesis using assms unfolding jc_fg_def Let_def idle_jobs_def [of c]
    by (auto intro!: returns_bind [OF q] returns_ret) (use assms in \<open>auto simp: idle_jobs_def\<close>)
qed

lemma lit_names [simp]:
  "lit ''Running'' \<noteq> (lit ''Done'' :: chars)" "lit ''Stopped'' \<noteq> (lit ''Done'' :: chars)" "lit ''Running'' \<noteq> (lit ''Stopped'' :: chars)"
  "lit ''Done'' \<noteq> (lit ''Stopped'' :: chars)"
  "\<not> starts_with (lit ''Failed'') (lit ''Running'')" "\<not> starts_with (lit ''Failed'') (lit ''Stopped'')"
  by (simp_all add: lit_def starts_with_def)

lemma state_name_ok:
  assumes "job_ok j"
  shows "job_state_name j = lit ''Stopped'' \<longleftrightarrow> j_state j = JStopped" "job_state_name j = lit ''Done'' \<longleftrightarrow> j_state j = JDone"
    "starts_with (lit ''Failed'') (job_state_name j) \<longleftrightarrow> False"
  using assms by (cases "j_state j"; simp add: job_state_name_def job_ok_def lit_def starts_with_def)+

abbreviation summary :: "job \<Rightarrow> job_summary" where
  "summary j \<equiv> \<lparr>s_id = j_id j, s_pid = j_pid j, s_state = job_state_name j, s_cmd = format_cmd j, s_exit_code = j_exit_code j\<rparr>"

lemma finished_summary: "job_ok j \<Longrightarrow> finished (summary j) \<longleftrightarrow> j_state j = JDone"
  by (simp add: finished_def state_name_ok)

lemma find_split: "distinct (map j_id (us @ j # vs)) \<Longrightarrow> List.find (\<lambda>k. j_id k = j_id j) (us @ j # vs) = Some j"
  by (induction us) auto

lemma remove_split: "distinct (map j_id (us @ j # vs)) \<Longrightarrow> remove_first (j_id j) (us @ j # vs) = us @ vs"
  by (induction us) auto

lemma find_summary: "List.find (\<lambda>s. s_id s = i) (map summary js) = map_option summary (List.find (\<lambda>j. j_id j = i) js)"
  by (induction js) auto

lemma wait_foreground_returns:
  assumes c: "foreground_jobs c" and n: "jc_next_id c \<noteq> - 1"
  shows "returns (env_wait_foreground sys c) (\<lambda>c'. idle_jobs c' \<and> (jc_next_id c' = jc_next_id c \<or> jc_next_id c' = jc_next_id c + 1))"
proof -
  obtain us j vs where j: "jc_jobs c = us @ j # vs" "jc_foreground c = Some (j_id j)" "job_ok j" "j_state j = JForeground"
      "0 < j_id j" "j_id j \<le> jc_next_id c" and o: "\<forall>k\<in>set (us @ vs). job_ok k \<and> 0 < j_id k \<and> j_id k < jc_next_id c \<and> j_state k \<noteq> JForeground"
    and r: "jc_running c" "distinct (map j_id (jc_jobs c))" "0 < jc_next_id c" using c unfolding foreground_jobs_def by blast
  let ?P = "\<lambda>k. j_id k = j_id j" and ?Q = "\<lambda>k k'. j_id k' = j_id k \<and> job_ok k' \<and> (j_state k = JForeground \<longrightarrow> j_state k' \<in> {JDone, JStopped})"
  define up where "up = (\<lambda>k' :: job. if j_state k' = JStopped then jc_next_id c + 1 else jc_next_id c)"
  have q: "returns (on_first ?P (job_await_rest sys) (jc_jobs c)) (\<lambda>(found, js'). first_changed ?P ?Q (jc_jobs c) found js')"
    by (rule on_first_returns, rule returns_mono [OF job_await_returns]) (use j o in auto)
  have one: "\<exists>j'. js' = us @ j' # vs \<and> j_id j' = j_id j \<and> job_ok j' \<and> j_state j' \<in> {JDone, JStopped}"
    if ch: "first_changed ?P ?Q (jc_jobs c) found js'" for found js'
  proof -
    have "found" using ch j unfolding first_changed_def by (auto split: if_splits)
    then have "first_changed ?P ?Q (jc_jobs c) True js'" using ch by simp
    then obtain us' k vs' k' where k: "jc_jobs c = us' @ k # vs'" "\<forall>u\<in>set us'. \<not> ?P u" "?P k" "?Q k k'" "js' = us' @ k' # vs'"
      by (rule first_changed_found) (rule that)
    have "us' = us \<and> k = j \<and> vs' = vs"
    proof -
      have "List.find (\<lambda>l. j_id l = j_id k) (us' @ k # vs') = Some k" by (rule find_split) (use r k in simp)
      moreover have "List.find (\<lambda>l. j_id l = j_id j) (us @ j # vs) = Some j" by (rule find_split) (use r j in simp)
      ultimately have kj: "k = j" using k j by simp
      have "j \<notin> set us" "j \<notin> set vs" using r(2) j(1) by auto
      then show ?thesis using k(1) j(1) kj append_Cons_eq_iff [of j us vs us' vs'] by metis
    qed
    then show ?thesis using k(4,5) j(4) by auto
  qed
  have w: "returns (jc_wait_foreground sys c) (\<lambda>c'. \<exists>j'. j_id j' = j_id j \<and> job_ok j' \<and> j_state j' \<in> {JDone, JStopped}
      \<and> c' = c\<lparr>jc_jobs := us @ j' # vs, jc_next_id := up j', jc_running := False, jc_foreground := None\<rparr>)"
  proof -
    have d: "distinct (map j_id (us @ j' # vs))" if "j_id j' = j_id j" for j' using r(2) j(1) that by simp
    have "returns (drive_foreground_to_idle sys c) (\<lambda>c'. \<exists>j'. j_id j' = j_id j \<and> job_ok j' \<and> j_state j' \<in> {JDone, JStopped}
        \<and> c' = c\<lparr>jc_jobs := us @ j' # vs, jc_next_id := up j'\<rparr>)"
      unfolding drive_foreground_to_idle_def j(2) option.case
    proof (rule returns_bind [OF q], clarify, rule returns_ret)
      fix found js' assume "first_changed ?P ?Q (jc_jobs c) found js'"
      then obtain j' where j': "js' = us @ j' # vs" "j_id j' = j_id j" "job_ok j'" "j_state j' \<in> {JDone, JStopped}" using one by blast
      have "List.find ?P js' = Some j'" using find_split [OF d [OF j'(2)]] j'(1,2) by simp
      then show "\<exists>j'. j_id j' = j_id j \<and> job_ok j' \<and> j_state j' \<in> {JDone, JStopped}
        \<and> c\<lparr>jc_jobs := js', jc_next_id := (case List.find ?P js' of Some j \<Rightarrow> if job_state_name j = lit ''Stopped'' then jc_next_id c + 1 else jc_next_id c | None \<Rightarrow> jc_next_id c)\<rparr>
          = c\<lparr>jc_jobs := us @ j' # vs, jc_next_id := up j'\<rparr>"
        using j' by (intro exI [of _ j']) (simp add: state_name_ok(1) up_def)
    qed
    then show ?thesis unfolding jc_wait_foreground_def using r(1) by (auto intro!: returns_bind returns_ret)
  qed
  show ?thesis unfolding env_wait_foreground_def j(2) option.case Let_def
  proof (rule returns_bind [OF w])
    fix c' assume "\<exists>j'. j_id j' = j_id j \<and> job_ok j' \<and> j_state j' \<in> {JDone, JStopped}
      \<and> c' = c\<lparr>jc_jobs := us @ j' # vs, jc_next_id := up j', jc_running := False, jc_foreground := None\<rparr>"
    then obtain j' where j': "j_id j' = j_id j" "job_ok j'" "j_state j' \<in> {JDone, JStopped}"
      "c' = c\<lparr>jc_jobs := us @ j' # vs, jc_next_id := up j', jc_running := False, jc_foreground := None\<rparr>" by blast
    have d: "distinct (map j_id (us @ j' # vs))" using r(2) j(1) j'(1) by simp
    have js: "job_summaries c' = map summary (us @ j' # vs)" using j'(4) by (simp add: job_summaries_def)
    have f: "List.find (\<lambda>s. s_id s = j_id j) (job_summaries c') = Some (summary j')"
      unfolding js find_summary using find_split [OF d] unfolding j'(1) by (simp only: option.map j'(1))
    have rm: "remove_first (j_id j) (us @ j' # vs) = us @ vs" using remove_split [OF d] j'(1) by simp
    have st: "idle_jobs c'" if "j_state j' = JStopped"
      using that j' o j(5,6) d less_next [OF n] unfolding idle_jobs_def up_def by (auto simp: less_imp_le)
    have dn: "idle_jobs (jc_remove (j_id j) c')" if "j_state j' \<noteq> JStopped"
      using that j' o r(3) d rm unfolding idle_jobs_def jc_remove_def up_def by auto
    show "returns (case List.find (\<lambda>s. s_id s = j_id j) (job_summaries c') of
          Some s \<Rightarrow> if s_state s = lit ''Stopped''
            then pbind (emit_job_line sys (lit ''['') (j_id j) (lit '']+ Stopped   '') (s_cmd s) [0x0A]) (\<lambda>_. ret c')
            else ret (jc_remove (j_id j) c')
        | None \<Rightarrow> ret (jc_remove (j_id j) c'))
       (\<lambda>c'. idle_jobs c' \<and> (jc_next_id c' = jc_next_id c \<or> jc_next_id c' = jc_next_id c + 1))"
      using st dn j'(2,3,4) unfolding f option.case
      by (auto intro!: returns_any returns_ret simp: state_name_ok(1) up_def jc_remove_def)
  qed
qed

section \<open>The prompt\<close>

lemma remove_filter: "distinct (map j_id js) \<Longrightarrow> remove_first i js = filter (\<lambda>j. j_id j \<noteq> i) js"
proof (induction js)
  case (Cons j js)
  have "\<forall>k\<in>set js. j_id k \<noteq> j_id j" using Cons.prems by (auto simp: image_iff)
  then have "filter (\<lambda>k. j_id k \<noteq> j_id j) js = js" by (simp add: filter_id_conv)
  then show ?case using Cons by auto
qed simp

lemma report_done_returns:
  assumes "\<not> jc_running c" "distinct (map j_id (jc_jobs c))"
  shows "returns (report_done sys ss c)
    (\<lambda>c'. c' = c\<lparr>jc_jobs := filter (\<lambda>j. \<forall>s\<in>set ss. finished s \<longrightarrow> s_id s \<noteq> j_id j) (jc_jobs c)\<rparr>)"
  using assms
proof (induction ss arbitrary: c)
  case Nil
  then show ?case by (auto intro!: returns_ret)
next
  case (Cons s ss)
  show ?case
  proof (cases "finished s")
    case False
    then show ?thesis using Cons by simp
  next
    case True
    let ?c = "c\<lparr>jc_jobs := filter (\<lambda>j. j_id j \<noteq> s_id s) (jc_jobs c)\<rparr>"
    have c: "jc_remove (s_id s) c = ?c" using Cons.prems by (simp add: jc_remove_def remove_filter)
    have "distinct (map j_id (jc_jobs ?c))" using Cons.prems by (simp add: distinct_map_filter)
    then have "returns (report_done sys ss ?c) (\<lambda>c'. c' = ?c\<lparr>jc_jobs := filter (\<lambda>j. \<forall>s\<in>set ss. finished s \<longrightarrow> s_id s \<noteq> j_id j) (jc_jobs ?c)\<rparr>)"
      using Cons.prems by (intro Cons.IH) simp_all
    then show ?thesis using True c by (auto intro!: returns_any elim!: returns_mono simp: eq_commute [of "s_id s"] intro: arg_cong2 [of _ _ _ _ filter])
  qed
qed

definition prompt_jobs :: "job_control \<Rightarrow> bool" where
  "prompt_jobs c \<longleftrightarrow> idle_jobs c \<and> (\<forall>j\<in>set (jc_jobs c). j_state j = JBackground \<or> j_state j = JStopped)"

lemma tick_jobs_returns:
  assumes "\<forall>j\<in>set js. job_ok j \<and> j_state j \<noteq> JForeground"
  shows "returns (tick_jobs sys js) (\<lambda>js'. map j_id js' = map j_id js \<and> (\<forall>j\<in>set js'. job_ok j \<and> j_state j \<noteq> JForeground))"
  using assms
proof (induction js)
  case Nil
  then show ?case by (simp add: returns_ret)
next
  case (Cons j js)
  have one: "returns (if job_done j then ret j else job_poll sys j) (\<lambda>j'. j_id j' = j_id j \<and> job_ok j' \<and> j_state j' \<noteq> JForeground)"
  proof (cases "job_done j")
    case True
    then show ?thesis using Cons.prems by (simp add: returns_ret)
  next
    case False
    have "returns (job_poll sys j) (\<lambda>j'. j_id j' = j_id j \<and> job_ok j' \<and> j_state j' = (if j_state j' = JDone then JDone else j_state j))"
      using Cons.prems by (intro job_poll_returns) simp
    then show ?thesis using False Cons.prems by (auto elim!: returns_mono split: if_splits)
  qed
  have all: "returns (tick_jobs sys js) (\<lambda>js'. map j_id js' = map j_id js \<and> (\<forall>j\<in>set js'. job_ok j \<and> j_state j \<noteq> JForeground))"
    using Cons by simp
  show ?case unfolding tick_jobs.simps
    by (rule returns_bind [OF one], rule returns_bind [OF all], rule returns_ret) auto
qed

lemma env_tick_returns:
  assumes "idle_jobs c"
  shows "returns (env_tick sys c) (\<lambda>c'. prompt_jobs c' \<and> jc_next_id c' = jc_next_id c)"
proof -
  have ids: "j_id j \<in> j_id ` set (jc_jobs c)" if "map j_id js = map j_id (jc_jobs c)" "j \<in> set js" for j js
    using that by (metis image_eqI list.set_map)
  have t: "returns (jc_tick sys c) (\<lambda>c'. idle_jobs c' \<and> jc_next_id c' = jc_next_id c)"
    unfolding jc_tick_def
  proof (rule returns_bind [OF tick_jobs_returns], use assms in \<open>simp add: idle_jobs_def\<close>, rule returns_ret)
    fix js assume js: "map j_id js = map j_id (jc_jobs c) \<and> (\<forall>j\<in>set js. job_ok j \<and> j_state j \<noteq> JForeground)"
    have "0 < j_id j \<and> j_id j < jc_next_id c" if "j \<in> set js" for j
      using ids [OF _ that] js assms unfolding idle_jobs_def by fastforce
    then show "idle_jobs (c\<lparr>jc_jobs := js\<rparr>) \<and> jc_next_id (c\<lparr>jc_jobs := js\<rparr>) = jc_next_id c"
      using js assms unfolding idle_jobs_def by auto
  qed
  show ?thesis unfolding env_tick_def
  proof (rule returns_bind [OF t])
    fix d assume d: "idle_jobs d \<and> jc_next_id d = jc_next_id c"
    then have "returns (report_done sys (job_summaries d) d)
      (\<lambda>c'. c' = d\<lparr>jc_jobs := filter (\<lambda>j. \<forall>s\<in>set (job_summaries d). finished s \<longrightarrow> s_id s \<noteq> j_id j) (jc_jobs d)\<rparr>)"
      by (intro report_done_returns) (simp_all add: idle_jobs_def)
    moreover have "prompt_jobs (d\<lparr>jc_jobs := filter (\<lambda>j. \<forall>s\<in>set (job_summaries d). finished s \<longrightarrow> s_id s \<noteq> j_id j) (jc_jobs d)\<rparr>)"
    proof -
      have "j_state j = JBackground \<or> j_state j = JStopped"
        if j: "j \<in> set (jc_jobs d)" "\<forall>s\<in>set (job_summaries d). finished s \<longrightarrow> s_id s \<noteq> j_id j" for j
      proof -
        have "summary j \<in> set (job_summaries d)" using j(1) by (simp add: job_summaries_def)
        moreover have ok: "job_ok j" "j_state j \<noteq> JForeground" using d j(1) by (auto simp: idle_jobs_def)
        ultimately have "j_state j \<noteq> JDone" using j(2) finished_summary by force
        then show ?thesis using ok by (cases "j_state j") (auto simp: job_ok_def)
      qed
      then show ?thesis using d unfolding prompt_jobs_def idle_jobs_def by (auto simp: distinct_map_filter)
    qed
    ultimately show "returns (report_done sys (job_summaries d) d) (\<lambda>c'. prompt_jobs c' \<and> jc_next_id c' = jc_next_id c)"
      using d by (auto elim!: returns_mono)
  qed
qed

text \<open>After a line: the table of the prompt, with at most one more job number handed out.\<close>

definition after_line :: "u32 \<Rightarrow> shell \<Rightarrow> bool" where
  "after_line n sh \<longleftrightarrow> prompt_jobs (sh_jobs sh) \<and> (jc_next_id (sh_jobs sh) = n \<or> jc_next_id (sh_jobs sh) = n + 1)"

definition idle_from :: "u32 \<Rightarrow> job_control \<Rightarrow> bool" where
  "idle_from n c \<longleftrightarrow> idle_jobs c \<and> (jc_next_id c = n \<or> jc_next_id c = n + 1)"

lemma enter_prompting_returns: "idle_from n (sh_jobs sh) \<Longrightarrow> returns (enter_prompting sys sh) (after_line n)"
  unfolding enter_prompting_def idle_from_def
  by (rule returns_bind [OF env_tick_returns], simp) (auto intro!: returns_any returns_ret simp: after_line_def)

lemma idle_from_refl: "idle_jobs c \<Longrightarrow> idle_from (jc_next_id c) c"
  by (simp add: idle_from_def)

lemma push_history_jobs [simp]: "sh_jobs (push_history sh) = sh_jobs sh"
  by (simp add: push_history_def)

lemma run_builtin_returns:
  assumes "idle_jobs c"
  shows "returns (env_run_builtin sys ws c) (\<lambda>c'. idle_jobs c' \<and> jc_next_id c' = jc_next_id c)"
proof -
  have bg: "returns (builtin_bg sys args c) (\<lambda>c'. idle_jobs c' \<and> jc_next_id c' = jc_next_id c)" for args
    unfolding builtin_bg_def Let_def
    by (auto intro!: returns_any returns_ret returns_bind [OF bg_returns [OF assms]] simp: assms)
  have k: "returns (pbind p (\<lambda>_. ret c)) (\<lambda>c'. idle_jobs c' \<and> jc_next_id c' = jc_next_id c)" for p :: "('b, 'a) prog"
    using assms by (auto intro!: returns_any returns_ret)
  have r: "returns (ret c) (\<lambda>c'. idle_jobs c' \<and> jc_next_id c' = jc_next_id c)" using assms by (auto intro: returns_ret)
  show ?thesis unfolding env_run_builtin_def Let_def by (simp add: returns_hang bg k r split: list.split)
qed

lemma spawn_background_env_returns:
  assumes "idle_jobs c" "jc_next_id c \<noteq> - 1"
  shows "returns (env_spawn_background sys cmd c) (idle_from (jc_next_id c))"
  unfolding env_spawn_background_def Let_def
  using assms
  by (auto intro!: returns_any returns_ret returns_hang returns_bind [OF spawn_background_returns [OF assms]]
        simp: idle_from_def split: list.split)

lemma enter_running_foreground_returns:
  assumes "foreground_jobs (sh_jobs sh)" "jc_next_id (sh_jobs sh) \<noteq> - 1"
  shows "returns (enter_running_foreground sys sh) (after_line (jc_next_id (sh_jobs sh)))"
  unfolding enter_running_foreground_def
  by (rule returns_bind [OF wait_foreground_returns [OF assms]], rule enter_prompting_returns) (simp add: idle_from_def)

lemma dispatch_external_returns:
  assumes "idle_jobs (sh_jobs sh)" "jc_next_id (sh_jobs sh) \<noteq> - 1"
  shows "returns (dispatch_external sys cmd b sh) (after_line (jc_next_id (sh_jobs sh)))"
proof -
  have bg: "returns (pbind (env_spawn_background sys cmd (sh_jobs sh)) (\<lambda>c. enter_prompting sys (push_history (sh\<lparr>sh_jobs := c\<rparr>))))
      (after_line (jc_next_id (sh_jobs sh)))"
    by (rule returns_bind [OF spawn_background_env_returns [OF assms]], rule enter_prompting_returns) simp
  have rd: "returns (pbind (env_run_foreground_redirected sys cmd) (\<lambda>_. enter_prompting sys (push_history sh))) (after_line (jc_next_id (sh_jobs sh)))"
    by (rule returns_any, rule enter_prompting_returns) (use assms idle_from_refl in simp)
  have "returns (env_spawn_foreground sys (c_words cmd) (sh_jobs sh)) (\<lambda>c'. foreground_jobs c' \<and> jc_next_id c' = jc_next_id (sh_jobs sh))"
    unfolding env_spawn_foreground_def by (cases "c_words cmd") (simp_all add: returns_hang spawn_foreground_returns [OF assms(1)])
  then have fg: "returns (pbind (env_spawn_foreground sys (c_words cmd) (sh_jobs sh)) (\<lambda>c. enter_running_foreground sys (sh\<lparr>sh_jobs := c\<rparr>)))
      (after_line (jc_next_id (sh_jobs sh)))"
  proof (rule returns_bind)
    fix c assume "foreground_jobs c \<and> jc_next_id c = jc_next_id (sh_jobs sh)"
    then show "returns (enter_running_foreground sys (sh\<lparr>sh_jobs := c\<rparr>)) (after_line (jc_next_id (sh_jobs sh)))"
      using enter_running_foreground_returns [of "sh\<lparr>sh_jobs := c\<rparr>"] assms(2) by simp
  qed
  show ?thesis unfolding dispatch_external_def using bg rd fg by simp
qed

lemma dispatch_fg_returns:
  assumes "idle_jobs (sh_jobs sh)" "jc_next_id (sh_jobs sh) \<noteq> - 1"
  shows "returns (dispatch_fg sys arg b sh) (after_line (jc_next_id (sh_jobs sh)))"
proof -
  let ?n = "jc_next_id (sh_jobs sh)"
  have p: "returns (pbind m (\<lambda>_. enter_prompting sys (g sh))) (after_line ?n)" if "sh_jobs (g sh) = sh_jobs sh" for m :: "(unit, 'a) prog" and g
    by (rule returns_any, rule enter_prompting_returns) (use assms idle_from_refl that in simp)
  have i: "returns (pbind (jc_fg sys i (sh_jobs sh)) (\<lambda>c. let sh = sh\<lparr>sh_jobs := c\<rparr> in
          if jc_running c then enter_running_foreground sys (push_history sh)
          else pbind (println sys (lit ''fg: no such job: '' @ map ucast (push_u64 (ucast i)))) (\<lambda>_. enter_prompting sys sh))) (after_line ?n)" for i
  proof (rule returns_bind [OF fg_returns [OF assms(1)]])
    fix c assume c: "(if jc_running c then foreground_jobs c else idle_jobs c) \<and> jc_next_id c = ?n"
    show "returns (let sh = sh\<lparr>sh_jobs := c\<rparr> in
          if jc_running c then enter_running_foreground sys (push_history sh)
          else pbind (println sys (lit ''fg: no such job: '' @ map ucast (push_u64 (ucast i)))) (\<lambda>_. enter_prompting sys sh)) (after_line ?n)"
    proof (cases "jc_running c")
      case True
      then show ?thesis using c enter_running_foreground_returns [of "push_history (sh\<lparr>sh_jobs := c\<rparr>)" sys] assms(2) by (simp add: Let_def)
    next
      case False
      then show ?thesis using c by (auto intro!: returns_any enter_prompting_returns simp: Let_def idle_from_def)
    qed
  qed
  show ?thesis unfolding dispatch_fg_def using i p [of id] p [of push_history] by (simp split: option.split)
qed

lemma dispatch_builtin_returns:
  assumes "idle_jobs (sh_jobs sh)"
  shows "returns (dispatch_builtin sys cmd b sh) (after_line (jc_next_id (sh_jobs sh)))"
proof -
  have "returns (enter_running_builtin sys s) (after_line (jc_next_id (sh_jobs sh)))" if "sh_jobs s = sh_jobs sh" for s
    unfolding enter_running_builtin_def that
    by (rule returns_bind [OF run_builtin_returns [OF assms]], rule enter_prompting_returns) (simp add: idle_from_def)
  then show ?thesis unfolding dispatch_builtin_def
    using assms by (auto intro!: returns_any enter_prompting_returns idle_from_refl)
qed

lemma enter_parsing_returns:
  assumes "idle_jobs (sh_jobs sh)" "jc_next_id (sh_jobs sh) \<noteq> - 1"
  shows "returns (enter_parsing sys sh) (after_line (jc_next_id (sh_jobs sh)))"
proof -
  have e: "returns (enter_prompting sys s) (after_line (jc_next_id (sh_jobs sh)))" if "sh_jobs s = sh_jobs sh" for s
    by (rule enter_prompting_returns) (use assms idle_from_refl that in simp)
  have pl: "returns (enter_running_pipeline sys (push_history (sh\<lparr>sh_pipeline := cs\<rparr>))) (after_line (jc_next_id (sh_jobs sh)))" for cs
    unfolding enter_running_pipeline_def by (rule returns_any, rule e) simp
  show ?thesis unfolding enter_parsing_def
    using e pl dispatch_external_returns [OF assms] dispatch_fg_returns [OF assms] dispatch_builtin_returns [OF assms(1)]
    by (auto intro!: returns_any simp: returns_hang split: sum.split prod.split option.split command_kind.split)
qed

lemma shell_line_returns:
  assumes "prompt_jobs (sh_jobs sh)" "jc_next_id (sh_jobs sh) \<noteq> - 1"
  shows "returns (shell_line sys input sh) (after_line (jc_next_id (sh_jobs sh)))"
proof -
  have i: "idle_jobs (sh_jobs sh)" using assms by (simp add: prompt_jobs_def)
  have "returns (enter_parsing sys (sh\<lparr>sh_line := input\<rparr>)) (after_line (jc_next_id (sh_jobs sh)))"
    using enter_parsing_returns [of "sh\<lparr>sh_line := input\<rparr>" sys] i assms(2) by simp
  then show ?thesis unfolding shell_line_def
    using assms by (auto intro!: returns_any returns_ret simp: after_line_def split: shell_state.split)
qed

text \<open>The states of the shell at its prompt after \<open>n\<close> lines; between them the world may change in any way.\<close>

inductive ish_run :: "'w kern \<Rightarrow> nat \<Rightarrow> shell \<Rightarrow> bool" for sys where
  run_start: "Shell_create sys w = Some (Some sh, w') \<Longrightarrow> ish_run sys 0 sh"
| run_line: "ish_run sys n sh \<Longrightarrow> shell_line sys input sh w = Some (Some sh', w') \<Longrightarrow> ish_run sys (Suc n) sh'"

lemma JobControl_create_idle: "idle_jobs JobControl_create"
  by (simp add: idle_jobs_def JobControl_create_def)

lemma ish_run_jobs:
  assumes "ish_run sys n sh" "n < 2 ^ 32 - 2"
  shows "prompt_jobs (sh_jobs sh) \<and> unat (jc_next_id (sh_jobs sh)) \<le> n + 2"
  using assms
proof (induction rule: ish_run.induct)
  case (run_start w sh w')
  have "returns (Shell_create sys) (after_line (jc_next_id JobControl_create))"
    unfolding Shell_create_def by (rule enter_prompting_returns) (simp add: idle_from_def JobControl_create_idle)
  then have "after_line 1 sh" using run_start by (auto simp: returns_def JobControl_create_def)
  then show ?case by (auto simp: after_line_def)
next
  case (run_line n sh input w sh' w')
  then have IH: "prompt_jobs (sh_jobs sh)" "unat (jc_next_id (sh_jobs sh)) \<le> n + 2" by simp_all
  have m: "jc_next_id (sh_jobs sh) \<noteq> - 1"
  proof
    assume "jc_next_id (sh_jobs sh) = - 1"
    then have "unat (jc_next_id (sh_jobs sh)) = 2 ^ 32 - 1" by (simp add: unsigned_minus_1_eq_mask mask_eq_exp_minus_1)
    then show False using IH(2) run_line.prems by simp
  qed
  have "after_line (jc_next_id (sh_jobs sh)) sh'"
    using shell_line_returns [OF IH(1) m, of sys input] run_line.hyps(2) unfolding returns_def by blast
  then show ?case using IH(2) unat_next [OF m] by (auto simp: after_line_def)
qed

text \<open>
  C16: for every kernel and every sequence of lines (fewer than \<open>2 ^ 32 - 2\<close>) the job table at the prompt
  is sound: no job is in the foreground, job numbers are distinct, positive and below the next
  number, and every job left in the table runs in the background or is stopped; finished jobs are gone.
\<close>

theorem job_table_sound:
  assumes "ish_run sys n sh" "n < 2 ^ 32 - 2"
  shows "\<not> jc_running (sh_jobs sh) \<and> jc_foreground (sh_jobs sh) = None \<and> distinct (map j_id (jc_jobs (sh_jobs sh)))
     \<and> (\<forall>j\<in>set (jc_jobs (sh_jobs sh)). 0 < j_id j \<and> j_id j < jc_next_id (sh_jobs sh) \<and> (j_state j = JBackground \<or> j_state j = JStopped))"
  using ish_run_jobs [OF assms] unfolding prompt_jobs_def idle_jobs_def by blast

text \<open>A kernel on which \<open>fork\<close> gives the pid 7 and every child that is waited for stops.\<close>

definition seven_kern :: "unit kern" where
  "seven_kern c w = (Some (case c of CFork \<Rightarrow> 7 | CWait _ \<Rightarrow> WSTOPPED | _ \<Rightarrow> 0, []), w)"

definition fresh_shell :: shell where
  "fresh_shell = \<lparr>sh_state = Prompting, sh_line = [], sh_words = [], sh_pipeline = [], sh_redir_out = None, sh_append = False,
     sh_history = [], sh_jobs = JobControl_create\<rparr>"

definition seven_job :: job where
  "seven_job = \<lparr>j_state = JBackground, j_id = 1, j_cmd = lit ''a'', j_args = [], j_pid = 7,
     j_backend = \<lparr>be_pid = 7, be_exit_code = 0, be_foreground = False\<rparr>, j_exit_code = 0, j_spawn_error = []\<rparr>"

definition one_job_shell :: shell where
  "one_job_shell = fresh_shell\<lparr>sh_line := lit ''a &'', sh_history := [lit ''a &''],
     sh_jobs := \<lparr>jc_running = False, jc_jobs = [seven_job], jc_next_id = 2, jc_foreground = None\<rparr>\<rparr>"

lemma one_job_run: "ish_run seven_kern 1 one_job_shell"
proof -
  have "Shell_create seven_kern () = Some (Some fresh_shell, ())" by code_simp
  moreover have "shell_line seven_kern (lit ''a &'') fresh_shell () = Some (Some one_job_shell, ())" by code_simp
  ultimately have "ish_run seven_kern (Suc 0) one_job_shell" by (rule run_line [OF run_start])
  then show ?thesis by simp
qed

theorem job_table_sound_witness:
  "jc_foreground (sh_jobs one_job_shell) = None \<and> (\<exists>j. j \<in> set (jc_jobs (sh_jobs one_job_shell)) \<and> j_id j < jc_next_id (sh_jobs one_job_shell))"
proof -
  have "seven_job \<in> set (jc_jobs (sh_jobs one_job_shell))" by (simp add: one_job_shell_def)
  then show ?thesis using job_table_sound [OF one_job_run] by auto
qed

end
