(* ===== verification/Kernel.thy ===== *)
theory Kernel
  imports Elf ProcTable Clock Console
begin

text \<open>
  The state behind the system calls of \<open>kernel/src/usermode.rs\<close>, and the handlers that work on the
  caller's memory, descriptors and paths. The record \<open>kernel\<close> puts the statics of the modules side by
  side: the scheduler (with descriptor tables and file system inside), frames and page tables, the
  process table, the console, the loader, and the statics of \<open>usermode.rs\<close> itself. CR3 belongs to
  the scheduler's state, and \<open>mmu\<close> is the machine with it. User memory is what the processor sees
  through the address space that is loaded (\<open>umem\<close> at \<open>last_pml4\<close>); system calls run in the
  caller's space. What is outside the sources is a parameter of the state: the program the build
  bakes in, the CMOS chip, and whether the kernel heap has room for a buffer. \<open>None\<close> is a panic.
\<close>

section \<open>State\<close>

record dispatcher =
  d_executing :: bool
  d_result :: u64
  d_is_err :: bool

record kernel =
  k_sched :: sched
  k_mach :: machine
  k_procs :: proc_table
  k_cons :: cons
  k_elf :: elf_state
  k_disp :: dispatcher
  k_pending_exit :: u64
  k_pending_wait :: bool
  k_pending_wait_pid :: u32
  k_readline_buf :: u64
  k_readline_len :: u64
  k_pipe_fd :: u64
  k_pipe_buf :: u64
  k_pipe_len :: u64
  k_pending_exec :: u64
  k_exec_a0 :: u64
  k_exec_a1 :: u64
  k_exec_a2 :: u64
  k_user_elf :: bytes
  k_cmos :: cmos
  k_cmos_t :: nat
  k_heap_room :: "nat \<Rightarrow> bool"

definition U64_MAX :: u64 where "U64_MAX = - 1"
definition MAX_TABLE :: u32 where "MAX_TABLE = 64"
definition WSTOPPED_FLAG :: u64 where "WSTOPPED_FLAG = push_bit 63 1"
definition ARGV_BUF_SIZE :: nat where "ARGV_BUF_SIZE = 1024"
definition MAX_ARGS :: nat where "MAX_ARGS = 32"

abbreviation k_vfs :: "kernel \<Rightarrow> vfs" where
  "k_vfs k \<equiv> s_vfs (k_sched k)"

abbreviation k_cur :: "kernel \<Rightarrow> nat" where
  "k_cur k \<equiv> s_current (k_sched k)"

definition upd_sched :: "(sched \<Rightarrow> sched) \<Rightarrow> kernel \<Rightarrow> kernel" where
  "upd_sched f k = k\<lparr>k_sched := f (k_sched k)\<rparr>"

definition set_vfs :: "vfs \<Rightarrow> kernel \<Rightarrow> kernel" where
  "set_vfs v = upd_sched (\<lambda>s. s\<lparr>s_vfs := v\<rparr>)"

definition set_fs :: "fs \<Rightarrow> kernel \<Rightarrow> kernel" where
  "set_fs x k = set_vfs (k_vfs k\<lparr>vfs_fs := x\<rparr>) k"

definition mmu :: "kernel \<Rightarrow> machine" where
  "mmu k = (k_mach k)\<lparr>cr3 := s_cr3 (k_sched k)\<rparr>"

text \<open>The bytes at a user address, and a store to one.\<close>

definition user_bytes :: "u64 \<Rightarrow> nat \<Rightarrow> kernel \<Rightarrow> bytes" where
  "user_bytes p n k = mbytes (umem (k_sched k) (last_pml4 (k_sched k))) (unat p) n"

definition user_store :: "u64 \<Rightarrow> bytes \<Rightarrow> kernel \<Rightarrow> kernel" where
  "user_store p bs = upd_sched (upd_umem (\<lambda>m. mstore m (unat p) bs))"

definition user_store64 :: "u64 \<Rightarrow> u64 \<Rightarrow> kernel \<Rightarrow> kernel" where
  "user_store64 p w = upd_sched (upd_umem (\<lambda>m. wr64 m (unat p) w))"

definition or_max :: "nat option \<Rightarrow> u64" where
  "or_max r = (case r of Some n \<Rightarrow> of_nat n | None \<Rightarrow> U64_MAX)"

definition zero_or_max :: "bool \<Rightarrow> u64" where
  "zero_or_max ok = (if ok then 0 else U64_MAX)"

section \<open>Paths\<close>

definition copy_from_user :: "u64 \<Rightarrow> nat \<Rightarrow> bytes \<Rightarrow> kernel \<Rightarrow> nat \<times> bytes" where
  "copy_from_user p l out k = (let n = min l (length out) in (n, blit out 0 (user_bytes p n k)))"

definition caller_cwd :: "kernel \<Rightarrow> bytes" where
  "caller_cwd k = (let cwd = cwd_current 256 (k_sched k) in if cwd \<noteq> [] then cwd else [SLASH])"

text \<open>The canonical path of a user path, or \<open>None\<close>: the first \<open>n\<close> bytes of the 512-byte buffer of the handlers.\<close>

definition resolve_user_path :: "u64 \<Rightarrow> u64 \<Rightarrow> kernel \<Rightarrow> bytes option option" where
  "resolve_user_path p l k =
     (let (n, raw) = copy_from_user p (unat l) (replicate 256 0) k
      in if n = 0 then Some None
         else do {
           (r, out) \<leftarrow> resolve (caller_cwd k) (take n raw) (replicate 512 0);
           Some (map_option (\<lambda>n. take n out) r) })"

definition sys_open :: "u64 \<Rightarrow> u64 \<Rightarrow> trap_frame \<Rightarrow> kernel \<Rightarrow> (u64 \<times> kernel) option" where
  "sys_open a0 a1 f k = do {
     path \<leftarrow> resolve_user_path a0 a1 k;
     case path of
       None \<Rightarrow> Some (U64_MAX, k)
     | Some canon \<Rightarrow>
         (let flags = f_rdx f; app = (flags AND 2 \<noteq> 0); wr = (flags AND 1 \<noteq> 0 \<or> app)
          in do {
            (r, v) \<leftarrow> (if wr then open_write (k_cur k) canon app (k_vfs k) else open_read (k_cur k) canon (k_vfs k));
            Some (or_max r, set_vfs v k) }) }"

definition sys_stat :: "u64 \<Rightarrow> u64 \<Rightarrow> kernel \<Rightarrow> (u64 \<times> kernel) option" where
  "sys_stat a0 a1 k = do {
     path \<leftarrow> resolve_user_path a0 a1 k;
     case path of
       None \<Rightarrow> Some (U64_MAX, k)
     | Some canon \<Rightarrow> do {
         (r, x) \<leftarrow> namei canon (vfs_fs (k_vfs k));
         case r of
           None \<Rightarrow> Some (U64_MAX, set_fs x k)
         | Some ino \<Rightarrow> do {
             (isf, x) \<leftarrow> is_file ino x;
             if isf then do { (n, x) \<leftarrow> size_of ino x; Some (of_nat n, set_fs x k) } else Some (U64_MAX, set_fs x k) } } }"

text \<open>The handlers that call one operation of the file system on the canonical path.\<close>

definition path_call :: "(bytes \<Rightarrow> fs \<Rightarrow> (bool \<times> fs) option) \<Rightarrow> u64 \<Rightarrow> u64 \<Rightarrow> kernel \<Rightarrow> (u64 \<times> kernel) option" where
  "path_call op a0 a1 k = do {
     path \<leftarrow> resolve_user_path a0 a1 k;
     case path of
       None \<Rightarrow> Some (U64_MAX, k)
     | Some canon \<Rightarrow> do { (ok, x) \<leftarrow> op canon (vfs_fs (k_vfs k)); Some (zero_or_max ok, set_fs x k) } }"

definition sys_unlink :: "u64 \<Rightarrow> u64 \<Rightarrow> kernel \<Rightarrow> (u64 \<times> kernel) option" where
  "sys_unlink = path_call unlink"

definition sys_mkdir :: "u64 \<Rightarrow> u64 \<Rightarrow> kernel \<Rightarrow> (u64 \<times> kernel) option" where
  "sys_mkdir = path_call mkdir"

definition sys_rmdir :: "u64 \<Rightarrow> u64 \<Rightarrow> kernel \<Rightarrow> (u64 \<times> kernel) option" where
  "sys_rmdir = path_call rmdir"

definition sys_rename :: "u64 \<Rightarrow> u64 \<Rightarrow> trap_frame \<Rightarrow> kernel \<Rightarrow> (u64 \<times> kernel) option" where
  "sys_rename a0 a1 f k = do {
     src \<leftarrow> resolve_user_path a0 a1 k;
     case src of
       None \<Rightarrow> Some (U64_MAX, k)
     | Some csrc \<Rightarrow> do {
         dst \<leftarrow> resolve_user_path (f_rdx f) (f_r10 f) k;
         case dst of
           None \<Rightarrow> Some (U64_MAX, k)
         | Some cdst \<Rightarrow> do { (ok, x) \<leftarrow> rename csrc cdst (vfs_fs (k_vfs k)); Some (zero_or_max ok, set_fs x k) } } }"

definition sys_chdir :: "u64 \<Rightarrow> u64 \<Rightarrow> kernel \<Rightarrow> (u64 \<times> kernel) option" where
  "sys_chdir a0 a1 k = do {
     path \<leftarrow> resolve_user_path a0 a1 k;
     case path of
       None \<Rightarrow> Some (U64_MAX, k)
     | Some canon \<Rightarrow> do {
         (r, x) \<leftarrow> namei canon (vfs_fs (k_vfs k));
         case r of
           None \<Rightarrow> Some (U64_MAX, set_fs x k)
         | Some ino \<Rightarrow> do {
             (isd, x) \<leftarrow> is_dir ino x;
             let k = set_fs x k;
             if \<not> isd then Some (U64_MAX, k)
             else let (ok, s) = set_cwd_current canon (k_sched k) in Some (zero_or_max ok, k\<lparr>k_sched := s\<rparr>) } } }"

definition sys_getcwd :: "u64 \<Rightarrow> u64 \<Rightarrow> kernel \<Rightarrow> u64 \<times> kernel" where
  "sys_getcwd a0 a1 k =
     (let src = caller_cwd k
      in if unat a1 < length src then (U64_MAX, k) else (of_nat (length src), user_store a0 src k))"

definition sys_readdir :: "u64 \<Rightarrow> u64 \<Rightarrow> trap_frame \<Rightarrow> kernel \<Rightarrow> (u64 \<times> kernel) option" where
  "sys_readdir a0 a1 f k = do {
     path \<leftarrow> resolve_user_path a0 a1 k;
     case path of
       None \<Rightarrow> Some (U64_MAX, k)
     | Some canon \<Rightarrow>
         if unat (f_r10 f) = 0 then Some (U64_MAX, k)
         else do {
           (r, out, x) \<leftarrow> list_dir canon (user_bytes (f_rdx f) (unat (f_r10 f)) k) (vfs_fs (k_vfs k));
           Some (or_max r, user_store (f_rdx f) out (set_fs x k)) } }"

section \<open>Processes and signals\<close>

definition sys_kill :: "u64 \<Rightarrow> u64 \<Rightarrow> kernel \<Rightarrow> u64 \<times> kernel" where
  "sys_kill a0 a1 k = (let (ok, s) = send_signal (ucast a0) (ucast a1) (k_sched k) in (zero_or_max ok, k\<lparr>k_sched := s\<rparr>))"

definition sys_ps :: "u64 \<Rightarrow> u64 \<Rightarrow> kernel \<Rightarrow> u64 \<times> kernel" where
  "sys_ps a0 a1 k =
     (let recs = live_procs 8 (k_sched k); need = length recs * 12
      in if unat a1 < need then (U64_MAX, k)
         else (of_nat need, user_store a0 (concat (map (\<lambda>(pid, ppid, st). u32_to_le pid @ u32_to_le ppid @ u32_to_le (of_nat st)) recs)) k))"

definition reap_child :: "u32 \<Rightarrow> u64 \<Rightarrow> kernel \<Rightarrow> u32 \<times> kernel" where
  "reap_child pid pml4 k =
     (let (status, t) = reap_pid pid (k_procs k) in (status, k\<lparr>k_procs := t, k_mach := free_space pml4 (k_mach k)\<rparr>))"

text \<open>The loop of \<open>sys_reap_nohang\<close>: each round frees a slot of the thread table.\<close>

partial_function (option) reap_nohang_loop :: "u32 \<Rightarrow> u32 \<Rightarrow> kernel \<Rightarrow> (u64 \<times> kernel) option" where
  "reap_nohang_loop me t k = do {
     (r, s) \<leftarrow> reap_dead_child me (k_sched k);
     case r of
       None \<Rightarrow> Some (0, k\<lparr>k_sched := s\<rparr>)
     | Some (pid, pml4) \<Rightarrow>
         (let (status, k) = reap_child pid pml4 (k\<lparr>k_sched := s\<rparr>)
          in if t = 0 \<or> pid = t then Some (push_bit 32 (ucast pid) OR ucast status, k)
             else if \<not> child_reapable me t (k_sched k) then Some (0, k)
             else reap_nohang_loop me t k) }"

definition sys_reap_nohang :: "u64 \<Rightarrow> kernel \<Rightarrow> (u64 \<times> kernel) option" where
  "sys_reap_nohang target k =
     (let me = current_pid (k_sched k); t = ucast target
      in if \<not> child_reapable me t (k_sched k) then Some (0, k) else reap_nohang_loop me t k)"

text \<open>\<open>ProcessTable.spawn\<close> counts up its \<open>u32\<close> pid counter with overflow checks on: \<open>None\<close> is the panic.\<close>

definition spawn_checked :: "proc_table \<Rightarrow> (u32 \<times> proc_table) option" where
  "spawn_checked t =
     (case pt_st t of
        HasCapacity \<Rightarrow> do { _ \<leftarrow> checked_inc (next_pid t); Some (pt_spawn t) }
      | TableFull \<Rightarrow> Some (pt_spawn t))"

definition do_fork :: "trap_frame \<Rightarrow> kernel \<Rightarrow> (u64 \<times> kernel) option" where
  "do_fork f k = do {
     (child_pml4, m) \<leftarrow> fork_space (current_pml4 (mmu k)) (mmu k);
     (child_pid, t) \<leftarrow> spawn_checked (k_procs k);
     let parent_pid = current_pid (k_sched k);
     s \<leftarrow> spawn_user_from_frame child_pml4 (frame_words (f\<lparr>f_rax := 0\<rparr>)) child_pid parent_pid (k_sched k);
     let s = s\<lparr>umem := (umem s)(child_pml4 := umem s (last_pml4 s))\<rparr>;
     Some (ucast child_pid, k\<lparr>k_mach := m, k_procs := t, k_sched := s\<rparr>) }"

text \<open>\<open>do_exit\<close> and \<open>kill_current_user_process\<close>: the process is a zombie afterwards and never resumes.\<close>

definition do_exit :: "u32 \<Rightarrow> kernel \<Rightarrow> kernel" where
  "do_exit code k =
     k\<lparr>k_procs := exit_pid (current_pid (k_sched k)) code (k_procs k), k_sched := exit_current (k_sched k)\<rparr>"

definition kill_current_user_process :: "kernel \<Rightarrow> kernel" where
  "kill_current_user_process k =
     k\<lparr>k_procs := kill_pid (current_pid (k_sched k)) (k_procs k), k_sched := exit_current (k_sched k)\<rparr>"

section \<open>The program break\<close>

text \<open>
  The loops of \<open>do_brk\<close>: pages are mapped from the old break up; when no frame is left the pages
  mapped so far are undone; shrinking unmaps and frees.
\<close>

function unmap_range :: "u64 \<Rightarrow> u64 \<Rightarrow> machine \<Rightarrow> machine option" where
  "unmap_range va to s =
     (if va < to
      then let s = (case translate va s of Some phys \<Rightarrow> release_frame phys (unmap va s) | None \<Rightarrow> s)
           in if unat va + 4096 < 2 ^ 64 then unmap_range (va + PAGE) to s else None
      else Some s)"
  by auto
termination
proof (relation "measure (\<lambda>(va, to, s). 2 ^ 64 - unat va)", goal_cases)
  case (2 va)
  then show ?case using unat_add_checked [of va PAGE] by (simp add: PAGE_def)
qed simp

function map_range :: "u64 \<Rightarrow> u64 \<Rightarrow> u64 \<Rightarrow> u64 \<Rightarrow> machine \<Rightarrow> (bool \<times> machine) option" where
  "map_range pml4 cur va target s =
     (if va < target
      then (case alloc_frame (fr s) of
          (None, fr') \<Rightarrow> do { s \<leftarrow> unmap_range cur va (s\<lparr>fr := fr'\<rparr>); Some (False, s) }
        | (Some frame, fr') \<Rightarrow>
            (case map_in pml4 va frame (MF_USER OR MF_WRITABLE) (s\<lparr>fr := fr', pm := zero_frame frame (pm s)\<rparr>) of
               None \<Rightarrow> None
             | Some s \<Rightarrow> if unat va + 4096 < 2 ^ 64 then map_range pml4 cur (va + PAGE) target s else None))
      else Some (True, s))"
  by auto
termination
proof (relation "measure (\<lambda>(pml4, cur, va, target, s). 2 ^ 64 - unat va)", goal_cases)
  case (2 pml4 cur va)
  then show ?case using unat_add_checked [of va PAGE] by (simp add: PAGE_def)
qed simp

declare unmap_range.simps [simp del] map_range.simps [simp del]

definition do_brk :: "u64 \<Rightarrow> kernel \<Rightarrow> (u64 \<times> kernel) option" where
  "do_brk new_end k =
     (let cur = current_heap_brk (k_sched k)
      in if new_end = 0 then Some (cur, k)
         else do {
           e \<leftarrow> checked_add new_end PAGE;
           let target = (e - 1) AND NOT (PAGE - 1);
           let pml4 = current_pml4 (mmu k);
           if cur < target
           then do {
             (ok, m) \<leftarrow> map_range pml4 cur cur target (mmu k);
             let k = k\<lparr>k_mach := m\<rparr>;
             if \<not> ok then Some (cur, k)
             else Some (target, upd_sched (set_current_heap_brk target) (user_store cur (replicate (unat (target - cur)) 0) k)) }
           else do {
             m \<leftarrow> (if target < cur then unmap_range target cur (mmu k) else Some (mmu k));
             Some (target, upd_sched (set_current_heap_brk target) (k\<lparr>k_mach := m\<rparr>)) } })"

end
