(* ===== verification/Syscall.thy ===== *)
theory Syscall
  imports Kernel
begin

text \<open>
  The system calls of \<open>kernel/src/usermode.rs\<close>: \<open>exec\<close>, the table \<open>perform_syscall\<close>, the Frame system
  \<open>SyscallDispatcher\<close> (\<open>frame/syscall_dispatcher.frs\<close>), and \<open>syscall_dispatch\<close>, which runs what
  the handlers have deferred once the dispatcher is back in \<open>$Validating\<close>. A call that waits ends a
  step with what it waits for, and is continued by \<open>resume_syscall\<close> when its process runs again.
\<close>

section \<open>exec\<close>

definition exec_frame :: "u64 \<Rightarrow> u64 \<Rightarrow> trap_frame" where
  "exec_frame rip rsp = \<lparr>f_r15 = 0, f_r14 = 0, f_r13 = 0, f_r12 = 0, f_r11 = 0, f_r10 = 0, f_r9 = 0, f_r8 = 0, f_rbp = 0,
     f_rdi = 0, f_rsi = 0, f_rdx = 0, f_rcx = 0, f_rbx = 0, f_rax = 0, f_rip = rip, f_cs = 0x23, f_rflags = 0x202,
     f_rsp = rsp, f_ss = 0x1b\<rparr>"

text \<open>
  Loading an image into a new space and making it the caller's: \<open>None\<close> inside when the loader
  failed. The new space then shows what its tables map.
\<close>

definition load_image :: "bytes \<Rightarrow> kernel \<Rightarrow> (bool \<times> kernel) option" where
  "load_image elf k = do {
     (pml4, m) \<leftarrow> new_space (mmu k);
     (l, e, m) \<leftarrow> ElfLoader_create (prepare elf pml4 (k_elf k)) m;
     let k = k\<lparr>k_elf := e, k_mach := m\<rparr>;
     if is_failed l then Some (False, k)
     else let view = (\<lambda>a. case vread m pml4 (of_nat a) of Some b \<Rightarrow> b | None \<Rightarrow> 0)
          in Some (True, upd_sched (\<lambda>s. exec_into pml4 (s\<lparr>umem := (umem s)(pml4 := view)\<rparr>)) k) }"

definition exec_image :: "bytes \<Rightarrow> trap_frame \<Rightarrow> kernel \<Rightarrow> (u64 \<times> trap_frame \<times> kernel) option" where
  "exec_image elf f k = do {
     (ok, k) \<leftarrow> load_image elf k;
     Some (if ok then (0, exec_frame (entry_va (k_elf k)) (stack_top (k_elf k)), k) else (U64_MAX, f, k)) }"

text \<open>The argument pointers: each string of the block starts after the NUL that ends the one before.\<close>

function skip_string :: "mem \<Rightarrow> u64 \<Rightarrow> nat \<Rightarrow> nat \<Rightarrow> nat" where
  "skip_string m base n off = (if off < n \<and> m (unat (base + of_nat off)) \<noteq> 0 then skip_string m base n (off + 1) else off)"
  by auto
termination by (relation "measure (\<lambda>(m, base, n, off). n - off)") auto

declare skip_string.simps [simp del]

function argv_ptrs :: "mem \<Rightarrow> u64 \<Rightarrow> nat \<Rightarrow> nat \<Rightarrow> nat \<Rightarrow> nat \<Rightarrow> u64 list \<Rightarrow> u64 list" where
  "argv_ptrs m base n argc off idx ptrs =
     (if idx < argc \<and> off < n
      then argv_ptrs m base n argc (skip_string m base n off + 1) (idx + 1) (ptrs[idx := base + of_nat off]) else ptrs)"
  by auto
termination by (relation "measure (\<lambda>(m, base, n, argc, off, idx, ptrs). argc - idx)") auto

declare argv_ptrs.simps [simp del]

definition build_initial_stack :: "u64 \<Rightarrow> bytes \<Rightarrow> nat \<Rightarrow> mem \<Rightarrow> u64 \<times> mem" where
  "build_initial_stack top_va argv argc m =
     (let n = length argv;
          base = (top_va - of_nat n) AND NOT 7;
          m = mstore m (unat base) argv;
          ptrs = argv_ptrs m base n argc 0 0 (replicate MAX_ARGS 0);
          n_words = 1 + argc + 1 + 1 + 2;
          rsp = (base - of_nat n_words * 8) AND NOT 0xF
      in (rsp, store_words (unat rsp) (of_nat argc # take argc ptrs @ [0, 0, 0, 0]) m))"

definition exec_image_args :: "bytes \<Rightarrow> bytes \<Rightarrow> nat \<Rightarrow> trap_frame \<Rightarrow> kernel \<Rightarrow> (u64 \<times> trap_frame \<times> kernel) option" where
  "exec_image_args elf argv argc f k = do {
     (ok, k) \<leftarrow> load_image elf k;
     if \<not> ok then Some (U64_MAX, f, k)
     else let s = k_sched k;
              (rsp, m) = build_initial_stack (stack_top (k_elf k)) argv argc (umem s (last_pml4 s))
          in Some (0, exec_frame (entry_va (k_elf k)) rsp, upd_sched (upd_umem (\<lambda>_. m)) k) }"

definition read_exec_elf :: "u32 \<Rightarrow> kernel \<Rightarrow> (bytes option \<times> kernel) option" where
  "read_exec_elf ino k = do {
     (n, x) \<leftarrow> size_of ino (vfs_fs (k_vfs k));
     let k = set_fs x k;
     if \<not> k_heap_room k n then Some (None, k)
     else do { (l, out, x) \<leftarrow> read_file ino (replicate n 0) (vfs_fs (k_vfs k)); Some (Some (take l out), set_fs x k) } }"

text \<open>The image of the regular file at a path; \<open>None\<close> inside when there is none.\<close>

definition exec_file :: "bytes \<Rightarrow> kernel \<Rightarrow> (bytes option \<times> kernel) option" where
  "exec_file path k = do {
     (r, x) \<leftarrow> namei path (vfs_fs (k_vfs k));
     let k = set_fs x k;
     case r of
       None \<Rightarrow> Some (None, k)
     | Some ino \<Rightarrow> do {
         (isf, x) \<leftarrow> is_file ino (vfs_fs (k_vfs k));
         let k = set_fs x k;
         if \<not> isf then Some (None, k) else read_exec_elf ino k } }"

definition do_exec :: "u64 \<Rightarrow> trap_frame \<Rightarrow> kernel \<Rightarrow> (u64 \<times> trap_frame \<times> kernel) option" where
  "do_exec prog_id f k = (if prog_id = 0 then exec_image (k_user_elf k) f k else Some (U64_MAX, f, k))"

definition do_exec_path :: "u64 \<Rightarrow> u64 \<Rightarrow> trap_frame \<Rightarrow> kernel \<Rightarrow> (u64 \<times> trap_frame \<times> kernel) option" where
  "do_exec_path p l f k = do {
     let (n, path) = copy_from_user p (unat l) (replicate 256 0) k;
     (elf, k) \<leftarrow> exec_file (take n path) k;
     case elf of None \<Rightarrow> Some (U64_MAX, f, k) | Some elf \<Rightarrow> exec_image elf f k }"

definition do_exec_argv :: "u64 \<Rightarrow> u64 \<Rightarrow> u64 \<Rightarrow> trap_frame \<Rightarrow> kernel \<Rightarrow> (u64 \<times> trap_frame \<times> kernel) option" where
  "do_exec_argv p l argc f k =
     (let n = min (unat l) ARGV_BUF_SIZE; argc = min (unat argc) MAX_ARGS
      in if \<not> k_heap_room k n then Some (U64_MAX, f, k)
         else do {
           let argv = snd (copy_from_user p n (replicate n 0) k);
           (elf, k) \<leftarrow> exec_file (takeWhile (\<lambda>b. b \<noteq> 0) argv) k;
           case elf of None \<Rightarrow> Some (U64_MAX, f, k) | Some elf \<Rightarrow> exec_image_args elf argv argc f k })"

definition run_pending_exec :: "u64 \<Rightarrow> u64 \<Rightarrow> u64 \<Rightarrow> u64 \<Rightarrow> trap_frame \<Rightarrow> kernel \<Rightarrow> (u64 \<times> trap_frame \<times> kernel) option" where
  "run_pending_exec num a0 a1 a2 f k =
     (if num = 3 then do_exec a0 f k
      else if num = 8 then do_exec_path a0 a1 f k
      else if num = 11 then do_exec_argv a0 a1 a2 f k
      else Some (U64_MAX, f, k))"

definition record_pending_exec :: "u64 \<Rightarrow> u64 \<Rightarrow> u64 \<Rightarrow> u64 \<Rightarrow> kernel \<Rightarrow> kernel" where
  "record_pending_exec num a0 a1 a2 k = k\<lparr>k_exec_a0 := a0, k_exec_a1 := a1, k_exec_a2 := a2, k_pending_exec := num\<rparr>"

section \<open>The handlers\<close>

definition record_pending_pipe_read :: "u64 \<Rightarrow> u64 \<Rightarrow> u64 \<Rightarrow> kernel \<Rightarrow> kernel" where
  "record_pending_pipe_read fd p l k = k\<lparr>k_pipe_fd := fd, k_pipe_buf := p, k_pipe_len := l\<rparr>"

definition sys_read :: "u64 \<Rightarrow> u64 \<Rightarrow> trap_frame \<Rightarrow> kernel \<Rightarrow> (u64 \<times> kernel) option" where
  "sys_read a0 a1 f k =
     (let n = unat (f_rdx f)
      in if n = 0 then Some (0, k)
         else do {
           p \<leftarrow> is_pipe_read (k_cur k) (unat a0) (k_vfs k);
           if p then Some (0, record_pending_pipe_read a0 a1 (f_rdx f) k)
           else do {
             (r, out, v) \<leftarrow> vfs_read (k_cur k) (unat a0) (user_bytes a1 n k) (k_vfs k);
             Some (of_nat r, user_store a1 out (set_vfs v k)) } })"

definition sys_write :: "u64 \<Rightarrow> u64 \<Rightarrow> trap_frame \<Rightarrow> kernel \<Rightarrow> (u64 \<times> kernel) option" where
  "sys_write a0 a1 f k =
     (let n = unat (f_rdx f)
      in if n = 0 then Some (0, k)
         else do {
           (r, v) \<leftarrow> vfs_write (k_cur k) (unat a0) (user_bytes a1 n k) (k_vfs k);
           Some (of_nat r, set_vfs v k) })"

definition sys_pipe :: "u64 \<Rightarrow> kernel \<Rightarrow> (u64 \<times> kernel) option" where
  "sys_pipe a0 k = do {
     (r, v) \<leftarrow> make_pipe (k_cur k) (k_vfs k);
     let k = set_vfs v k;
     Some (case r of
        Some (r, w) \<Rightarrow> (0, user_store64 (a0 + 8) (of_nat w) (user_store64 a0 (of_nat r) k))
      | None \<Rightarrow> (U64_MAX, k)) }"

text \<open>The descriptor operations that return a number or \<open>None\<close>.\<close>

definition vfs_call :: "(nat \<Rightarrow> vfs \<Rightarrow> (nat option \<times> vfs) option) \<Rightarrow> kernel \<Rightarrow> (u64 \<times> kernel) option" where
  "vfs_call op k = do { (r, v) \<leftarrow> op (k_cur k) (k_vfs k); Some (or_max r, set_vfs v k) }"

definition perform_syscall :: "u64 \<Rightarrow> u64 \<Rightarrow> u64 \<Rightarrow> trap_frame \<Rightarrow> kernel \<Rightarrow> (u64 \<times> kernel) option" where
  "perform_syscall num a0 a1 f k =
     (if num = 0 then Some (1, set_vfs (k_vfs k\<lparr>console := console (k_vfs k) @ [ucast a0]\<rparr>) k)
      else if num = 1 then Some (0, k\<lparr>k_pending_exit := a0\<rparr>)
      else if num = 2 then do_fork f k
      else if num = 3 then Some (0, record_pending_exec 3 a0 0 0 k)
      else if num = 4 then Some (0, k\<lparr>k_pending_wait := True, k_pending_wait_pid := ucast a0\<rparr>)
      else if num = 5 then sys_open a0 a1 f k
      else if num = 6 then sys_read a0 a1 f k
      else if num = 7 then do { v \<leftarrow> vfs_close (k_cur k) (unat a0) (k_vfs k); Some (0, set_vfs v k) }
      else if num = 8 then Some (0, record_pending_exec 8 a0 a1 0 k)
      else if num = 9 then Some (0, k\<lparr>k_readline_buf := a0, k_readline_len := a1\<rparr>)
      else if num = 10 then do_brk a0 k
      else if num = 11 then Some (0, record_pending_exec 11 a0 a1 (f_rdx f) k)
      else if num = 12 then sys_write a0 a1 f k
      else if num = 13 then vfs_call (\<lambda>cur. seek cur (unat a0) (sint a1) (ucast (f_rdx f))) k
      else if num = 14 then vfs_call (\<lambda>cur. fstat_size cur (unat a0)) k
      else if num = 15 then sys_stat a0 a1 k
      else if num = 16 then vfs_call (\<lambda>cur. vfs_dup cur (unat a0)) k
      else if num = 17 then sys_unlink a0 a1 k
      else if num = 18 then do { (secs, t) \<leftarrow> epoch_secs (k_cmos k) (k_cmos_t k); Some (secs, k\<lparr>k_cmos_t := t\<rparr>) }
      else if num = 19 then sys_chdir a0 a1 k
      else if num = 20 then Some (sys_getcwd a0 a1 k)
      else if num = 21 then sys_readdir a0 a1 f k
      else if num = 22 then vfs_call (\<lambda>cur. vfs_dup2 cur (unat a0) (unat a1)) k
      else if num = 23 then sys_pipe a0 k
      else if num = 24 then sys_mkdir a0 a1 k
      else if num = 25 then sys_rmdir a0 a1 k
      else if num = 26 then sys_rename a0 a1 f k
      else if num = 27 then Some (sys_ps a0 a1 k)
      else if num = 28 then sys_reap_nohang a0 k
      else if num = 29 then Some (sys_kill a0 a1 k)
      else if num = 30 then
        (let s = set_signal_restorer (f_rdx f) (k_sched k); (prev, s) = set_signal_handler (ucast a0) a1 s
         in Some (prev, k\<lparr>k_sched := s\<rparr>))
      else if num = 32 then
        (let (prev, s) = set_signal_mask (ucast a0) (ucast a1) (k_sched k) in Some (ucast prev, k\<lparr>k_sched := s\<rparr>))
      else if num = 33 then Some (0, k\<lparr>k_cons := (k_cons k)\<lparr>c_foreground := ucast a0\<rparr>\<rparr>)
      else Some (U64_MAX, k))"

section \<open>The Frame system SyscallDispatcher\<close>

definition is_known_syscall :: "u64 \<Rightarrow> bool" where
  "is_known_syscall num \<longleftrightarrow> num \<le> 33"

definition disp_reject :: "u64 \<Rightarrow> kernel \<Rightarrow> kernel" where
  "disp_reject code k = k\<lparr>k_disp := \<lparr>d_executing = False, d_result = code, d_is_err = True\<rparr>\<rparr>"

definition disp_executing :: "u64 \<Rightarrow> u64 \<Rightarrow> u64 \<Rightarrow> trap_frame \<Rightarrow> kernel \<Rightarrow> kernel option" where
  "disp_executing num a0 a1 f k = do {
     (r, k) \<leftarrow> perform_syscall num a0 a1 f (k\<lparr>k_disp := (k_disp k)\<lparr>d_executing := True\<rparr>\<rparr>);
     Some (k\<lparr>k_disp := \<lparr>d_executing = False, d_result = r, d_is_err = False\<rparr>\<rparr>) }"

definition disp_request :: "u64 \<Rightarrow> u64 \<Rightarrow> u64 \<Rightarrow> trap_frame \<Rightarrow> kernel \<Rightarrow> kernel option" where
  "disp_request num a0 a1 f k =
     (if d_executing (k_disp k) then Some k
      else if is_known_syscall num then disp_executing num a0 a1 f k
      else Some (disp_reject 38 k))"

section \<open>The end of a system call\<close>

text \<open>How a step ends: the caller returns to user mode, is gone, or waits.\<close>

datatype outcome =
    Returned trap_frame
  | Exited
  | WaitChild trap_frame u32
  | WaitLine trap_frame u64 u64
  | WaitPipe trap_frame u64 u64 u64
  | StoppedIn trap_frame

type_synonym step_result = "(outcome \<times> kernel) option"

definition finish_exit :: "trap_frame \<Rightarrow> kernel \<Rightarrow> step_result" where
  "finish_exit f k =
     (if 0 \<le> sint (k_pending_exit k)
      then Some (Exited, do_exit (ucast (k_pending_exit k)) (k\<lparr>k_pending_exit := - 1\<rparr>))
      else Some (Returned f, k))"

definition finish_signals :: "trap_frame \<Rightarrow> kernel \<Rightarrow> step_result" where
  "finish_signals f k = do {
     (d, s) \<leftarrow> maybe_deliver_signal f (k_sched k);
     let k = k\<lparr>k_sched := s\<rparr>;
     case d of
       Resume f \<Rightarrow> finish_exit f k
     | ExitWith code \<Rightarrow> Some (Exited, do_exit code k)
     | Park f \<Rightarrow> Some (StoppedIn f, k) }"

definition do_pipe_read :: "u64 \<Rightarrow> u64 \<Rightarrow> u64 \<Rightarrow> trap_frame \<Rightarrow> kernel \<Rightarrow> step_result" where
  "do_pipe_read fd p l f k = do {
     (n, out, v) \<leftarrow> vfs_read (k_cur k) (unat fd) (user_bytes p (unat l) k) (k_vfs k);
     let k = user_store p out (set_vfs v k);
     if 0 < n then finish_signals (f\<lparr>f_rax := of_nat n\<rparr>) k
     else do {
       w \<leftarrow> pipe_writers_open (k_cur k) (unat fd) (k_vfs k);
       if \<not> w then finish_signals (f\<lparr>f_rax := 0\<rparr>) k else Some (WaitPipe f fd p l, k) } }"

definition finish_pipe :: "trap_frame \<Rightarrow> kernel \<Rightarrow> step_result" where
  "finish_pipe f k =
     (if k_pipe_fd k \<noteq> U64_MAX then do_pipe_read (k_pipe_fd k) (k_pipe_buf k) (k_pipe_len k) f (k\<lparr>k_pipe_fd := U64_MAX\<rparr>)
      else finish_signals f k)"

definition do_read_line :: "u64 \<Rightarrow> u64 \<Rightarrow> trap_frame \<Rightarrow> kernel \<Rightarrow> step_result" where
  "do_read_line p l f k =
     (let (r, out, c) = take_line (user_bytes p (unat l) k) (k_cons k)
      in case r of
           Some n \<Rightarrow> finish_pipe (f\<lparr>f_rax := of_nat n\<rparr>) (user_store p out (k\<lparr>k_cons := c\<rparr>))
         | None \<Rightarrow> Some (WaitLine f p l, k))"

definition finish_readline :: "trap_frame \<Rightarrow> kernel \<Rightarrow> step_result" where
  "finish_readline f k =
     (if k_readline_buf k \<noteq> 0 then do_read_line (k_readline_buf k) (k_readline_len k) f (k\<lparr>k_readline_buf := 0\<rparr>)
      else finish_pipe f k)"

text \<open>\<open>do_wait_loop\<close>: the wait of \<open>block_current_until\<close>, and what follows once a matching child has died, stopped or is gone.\<close>

definition wait_ready :: "u32 \<Rightarrow> u32 \<Rightarrow> sched \<Rightarrow> bool" where
  "wait_ready me target s \<longleftrightarrow> child_reapable me target s \<or> child_stopped me target s
     \<or> \<not> (if target = 0 then has_children me s else has_child me target s)"

definition wait_result :: "u32 \<Rightarrow> u32 \<Rightarrow> kernel \<Rightarrow> (u64 \<times> kernel) option" where
  "wait_result me target k =
     (if \<not> child_reapable me target (k_sched k) \<and> child_stopped me target (k_sched k) then Some (WSTOPPED_FLAG, k)
      else do {
        (r, s) \<leftarrow> (if target = 0 then reap_dead_child me (k_sched k) else reap_dead_pid me target (k_sched k));
        let k = k\<lparr>k_sched := s\<rparr>;
        Some (case r of
            Some (pid, pml4) \<Rightarrow> (let (status, k) = reap_child pid pml4 k in (scast status, k))
          | None \<Rightarrow> (U64_MAX, k)) })"

definition do_wait :: "u32 \<Rightarrow> trap_frame \<Rightarrow> kernel \<Rightarrow> step_result" where
  "do_wait target f k =
     (let me = current_pid (k_sched k); (go, s) = block_current_until (wait_ready me target) (k_sched k); k = k\<lparr>k_sched := s\<rparr>
      in if \<not> go then Some (WaitChild f target, k)
         else do { (r, k) \<leftarrow> wait_result me target k; finish_readline (f\<lparr>f_rax := r\<rparr>) k })"

definition finish_wait :: "trap_frame \<Rightarrow> kernel \<Rightarrow> step_result" where
  "finish_wait f k =
     (if k_pending_wait k then do_wait (k_pending_wait_pid k) f (k\<lparr>k_pending_wait := False\<rparr>) else finish_readline f k)"

definition finish_exec :: "trap_frame \<Rightarrow> kernel \<Rightarrow> step_result" where
  "finish_exec f k =
     (if 0 \<le> sint (k_pending_exec k)
      then do {
        (r, f, k) \<leftarrow> run_pending_exec (k_pending_exec k) (k_exec_a0 k) (k_exec_a1 k) (k_exec_a2 k) f (k\<lparr>k_pending_exec := - 1\<rparr>);
        finish_wait (f\<lparr>f_rax := r\<rparr>) k }
      else finish_wait f k)"

definition syscall_dispatch :: "trap_frame \<Rightarrow> kernel \<Rightarrow> step_result" where
  "syscall_dispatch f k =
     (if f_rax f = 31 then Some (Returned (sys_sigreturn f (k_sched k)), k)
      else do {
        k \<leftarrow> disp_request (f_rax f) (f_rdi f) (f_rsi f) f k;
        finish_exec (f\<lparr>f_rax := d_result (k_disp k)\<rparr>) k })"

text \<open>The waiting process runs again; a stopped one goes on with the signals that are left.\<close>

definition resume_syscall :: "outcome \<Rightarrow> kernel \<Rightarrow> step_result" where
  "resume_syscall w k =
     (case w of
        WaitChild f target \<Rightarrow> do_wait target f k
      | WaitLine f p l \<Rightarrow> do_read_line p l f k
      | WaitPipe f fd p l \<Rightarrow> do_pipe_read fd p l f k
      | StoppedIn f \<Rightarrow> finish_signals f k
      | _ \<Rightarrow> Some (w, k))"

section \<open>Starting a program\<close>

text \<open>
  \<open>init\<close> creates the dispatcher (the model registers it sets are left out), \<open>run\<close> the process table. \<open>run_one\<close> loads a
  program, admits it to a new scheduler, and reaps it once the scheduler is idle again; \<open>None\<close>
  inside is a failed load.
\<close>

definition N_SLOTS :: u32 where "N_SLOTS = 8"

definition usermode_init :: "kernel \<Rightarrow> kernel" where
  "usermode_init k = k\<lparr>k_disp := \<lparr>d_executing = False, d_result = 0, d_is_err = False\<rparr>\<rparr>"

definition run_init :: "kernel \<Rightarrow> kernel" where
  "run_init k = (usermode_init k)\<lparr>k_procs := pt_create MAX_TABLE\<rparr>"

definition run_one_start :: "bytes \<Rightarrow> kernel \<Rightarrow> (u32 option \<times> kernel) option" where
  "run_one_start elf k = do {
     (pml4, m) \<leftarrow> new_space (mmu k);
     (l, e, m) \<leftarrow> ElfLoader_create (prepare elf pml4 (k_elf k)) m;
     let k = k\<lparr>k_elf := e, k_mach := m\<rparr>;
     if is_failed l then Some (None, k)
     else let view = (\<lambda>a. case vread m pml4 (of_nat a) of Some b \<Rightarrow> b | None \<Rightarrow> 0)
          in do {
            (pid, t) \<leftarrow> spawn_checked (k_procs k);
            s \<leftarrow> spawn_user pml4 (entry_va e) (stack_top e) pid (sched_init N_SLOTS (k_sched k));
            Some (Some pid, k\<lparr>k_procs := t, k_sched := s\<lparr>umem := (umem s)(pml4 := view), s_active := True\<rparr>\<rparr>) } }"

definition run_one_reap :: "u32 \<Rightarrow> kernel \<Rightarrow> u32 \<times> kernel" where
  "run_one_reap pid k = (let (code, t) = reap_pid pid (k_procs k) in (code, k\<lparr>k_procs := t, k_sched := (k_sched k)\<lparr>s_active := False\<rparr>\<rparr>))"

end
