(* ===== verification/SyscallInv.thy ===== *)
theory SyscallInv
  imports Syscall SchedReach ElfInv
begin

text \<open>
  Every system call keeps the invariant of the kernel: the thread table, the descriptor tables with
  the pipe counts, the process table and the console stay well formed, the dispatcher is idle
  again when the call ends or waits, and no deferred request of one call is left for the next one.
\<close>

section \<open>The invariant\<close>

definition quiet :: "kernel \<Rightarrow> bool" where
  "quiet k \<longleftrightarrow> sint (k_pending_exec k) < 0 \<and> \<not> k_pending_wait k \<and> k_readline_buf k = 0 \<and> k_pipe_fd k = U64_MAX"

definition pids_below :: "kernel \<Rightarrow> bool" where
  "pids_below k \<longleftrightarrow> next_pid (k_procs k) \<noteq> 0 \<and> (\<forall>p \<in> set (map t_pid (tcbs (k_sched k))). unat p < unat (next_pid (k_procs k)))"

definition tables_inv :: "kernel \<Rightarrow> bool" where
  "tables_inv k \<longleftrightarrow> sched_ok (k_sched k) \<and> pt_ok (k_procs k) \<and> cons_ok (k_cons k) \<and> pids_below k"

definition kernel_ok :: "kernel \<Rightarrow> bool" where
  "kernel_ok k \<longleftrightarrow> tables_inv k \<and> quiet k \<and> \<not> d_executing (k_disp k)"

text \<open>The running process has not exited.\<close>

definition alive :: "kernel \<Rightarrow> bool" where
  "alive k \<longleftrightarrow> t_state (cur_tcb (k_sched k)) \<noteq> RDead"

definition kinv :: "kernel \<Rightarrow> bool" where
  "kinv k \<longleftrightarrow> tables_inv k \<and> alive k"

lemma kinv_fields [simp]:
  "kinv (k\<lparr>k_mach := m\<rparr>) = kinv k" "kinv (k\<lparr>k_elf := e\<rparr>) = kinv k" "kinv (k\<lparr>k_disp := d\<rparr>) = kinv k"
  "kinv (k\<lparr>k_pending_exit := x\<rparr>) = kinv k" "kinv (k\<lparr>k_pending_wait := b\<rparr>) = kinv k" "kinv (k\<lparr>k_pending_wait_pid := p\<rparr>) = kinv k"
  "kinv (k\<lparr>k_readline_buf := x\<rparr>) = kinv k" "kinv (k\<lparr>k_readline_len := x\<rparr>) = kinv k" "kinv (k\<lparr>k_pipe_fd := x\<rparr>) = kinv k"
  "kinv (k\<lparr>k_pipe_buf := x\<rparr>) = kinv k" "kinv (k\<lparr>k_pipe_len := x\<rparr>) = kinv k" "kinv (k\<lparr>k_pending_exec := x\<rparr>) = kinv k"
  "kinv (k\<lparr>k_exec_a0 := x\<rparr>) = kinv k" "kinv (k\<lparr>k_exec_a1 := x\<rparr>) = kinv k" "kinv (k\<lparr>k_exec_a2 := x\<rparr>) = kinv k"
  "kinv (k\<lparr>k_cmos_t := t\<rparr>) = kinv k"
  by (simp_all add: kinv_def tables_inv_def pids_below_def alive_def)

lemma kinvD:
  assumes "kinv k"
  shows "sched_ok (k_sched k)" and "vfs_ok (k_vfs k)" and "k_cur k < MAX_PROCS" and "cons_ok (k_cons k)" and "pt_ok (k_procs k)"
    and "t_state (cur_tcb (k_sched k)) \<noteq> RDead" and "pids_below k"
proof -
  show s: "sched_ok (k_sched k)" and "cons_ok (k_cons k)" "pt_ok (k_procs k)" "t_state (cur_tcb (k_sched k)) \<noteq> RDead" "pids_below k"
    using assms by (auto simp: kinv_def tables_inv_def alive_def)
  show "vfs_ok (k_vfs k)" using s by (simp add: sched_ok_def)
  have "s_current (k_sched k) < MAX_THREADS" using s by (simp add: sched_ok_def)
  then show "k_cur k < MAX_PROCS" by (simp add: max_threads_procs)
qed

text \<open>A change of the scheduler that keeps its invariant, the pids and the running process.\<close>

lemma kinv_sched:
  assumes k: "kinv k" and s: "sched_ok s" and p: "set (map t_pid (tcbs s)) \<subseteq> insert 0 (set (map t_pid (tcbs (k_sched k))))"
    and c: "t_state (cur_tcb s) \<noteq> RDead"
  shows "kinv (k\<lparr>k_sched := s\<rparr>)"
proof -
  have "next_pid (k_procs k) \<noteq> 0" using kinvD(7) [OF k] by (simp add: pids_below_def)
  then have "unat (0 :: u32) < unat (next_pid (k_procs k))" by (simp add: unat_gt_0)
  then have "pids_below (k\<lparr>k_sched := s\<rparr>)" using kinvD(7) [OF k] p unfolding pids_below_def by (auto simp del: set_map)
  then show ?thesis using k s c by (simp add: kinv_def tables_inv_def alive_def)
qed

lemma kinv_set_vfs: "kinv k \<Longrightarrow> vfs_ok v \<Longrightarrow> kinv (set_vfs v k)"
  unfolding set_vfs_def upd_sched_def by (rule kinv_sched) (auto simp: kinvD sched_ok_vfs)

lemma set_fs_fields [simp]: "k_cur (set_fs x k) = k_cur k" "k_cur (set_vfs v k) = k_cur k" "k_vfs (set_vfs v k) = v" "k_vfs (set_fs x k) = (k_vfs k)\<lparr>vfs_fs := x\<rparr>"
  by (simp_all add: set_fs_def set_vfs_def upd_sched_def)

lemma kinv_set_fs: "kinv k \<Longrightarrow> kinv (set_fs x k)"
  unfolding set_fs_def by (rule kinv_set_vfs) (simp_all add: kinvD)

lemma kinv_umem: "kinv (upd_sched (upd_umem g) k) = kinv k"
  by (simp add: upd_sched_def upd_umem_def kinv_def tables_inv_def pids_below_def alive_def sched_ok_def)

lemma kinv_store [simp]: "kinv (user_store p bs k) = kinv k" "kinv (user_store64 p w k) = kinv k"
  by (simp_all add: user_store_def user_store64_def kinv_umem)

section \<open>Pids and states under the operations of the scheduler\<close>

lemma pids_upd:
  assumes "\<And>t. t_pid (g t) = t_pid t"
  shows "map t_pid (tcbs (upd_tcb i g s)) = map t_pid (tcbs s)"
proof (rule nth_equalityI)
  show "map t_pid (tcbs (upd_tcb i g s)) ! j = map t_pid (tcbs s) ! j" if "j < length (map t_pid (tcbs (upd_tcb i g s)))" for j
    using assms that by (cases "j = i") (auto simp: upd_tcb_def)
qed (simp add: upd_tcb_def)

lemma pids_ops [simp]:
  "map t_pid (tcbs (snd (send_signal pid sig s))) = map t_pid (tcbs s)" "map t_pid (tcbs (wake_pid pid s)) = map t_pid (tcbs s)"
  "map t_pid (tcbs (exit_current s)) = map t_pid (tcbs s)" "map t_pid (tcbs (snd (set_signal_handler sig h s))) = map t_pid (tcbs s)"
  "map t_pid (tcbs (set_signal_restorer r s)) = map t_pid (tcbs s)" "map t_pid (tcbs (snd (set_signal_mask how msk s))) = map t_pid (tcbs s)"
  "map t_pid (tcbs (set_current_heap_brk b s)) = map t_pid (tcbs s)" "map t_pid (tcbs (snd (set_cwd_current path s))) = map t_pid (tcbs s)"
  "map t_pid (tcbs (exec_into p s)) = map t_pid (tcbs s)" "map t_pid (tcbs (snd (block_current_until ready s))) = map t_pid (tcbs s)"
  by (auto simp: send_signal_def wake_pid_def exit_current_def set_signal_handler_def set_signal_restorer_def set_signal_mask_def
      set_current_heap_brk_def set_cwd_current_def set_slot_cwd_eq exec_into_def set_fpu_def block_current_until_def Let_def pids_upd
      split: option.split)

lemma cur_upd:
  assumes "sched_ok s"
  shows "tcb_at (upd_tcb i g s) (s_current s) = (if i = s_current s then g (cur_tcb s) else cur_tcb s)"
  using sched_ok_bounds(1) [OF assms] by (auto simp: upd_tcb_def nth_list_update)

lemma alive_ops:
  assumes s: "sched_ok s" "t_state (cur_tcb s) \<noteq> RDead"
  shows "t_state (cur_tcb (snd (send_signal pid sig s))) \<noteq> RDead" "t_state (cur_tcb (snd (set_signal_handler sig h s))) \<noteq> RDead"
    "t_state (cur_tcb (set_signal_restorer r s)) \<noteq> RDead" "t_state (cur_tcb (snd (set_signal_mask how msk s))) \<noteq> RDead"
    "t_state (cur_tcb (set_current_heap_brk b s)) \<noteq> RDead" "t_state (cur_tcb (snd (set_cwd_current path s))) \<noteq> RDead"
    "t_state (cur_tcb (exec_into p s)) \<noteq> RDead" "t_state (cur_tcb (snd (block_current_until ready s))) \<noteq> RDead"
  by (simp_all add: send_signal_def set_signal_handler_def set_signal_restorer_def set_signal_mask_def
      set_current_heap_brk_def set_cwd_current_def set_slot_cwd_eq exec_into_def set_fpu_def block_current_until_def Let_def
      cur_upd s split: option.split)

text \<open>The operations that only change the control block of a process, in one lemma.\<close>

lemma kinv_ops:
  assumes k: "kinv k"
  shows "kinv (k\<lparr>k_sched := snd (send_signal pid sig (k_sched k))\<rparr>)" "kinv (k\<lparr>k_sched := snd (set_signal_handler sig h (k_sched k))\<rparr>)"
    "kinv (k\<lparr>k_sched := set_signal_restorer r (k_sched k)\<rparr>)" "kinv (k\<lparr>k_sched := snd (set_signal_mask how msk (k_sched k))\<rparr>)"
    "kinv (k\<lparr>k_sched := set_current_heap_brk b (k_sched k)\<rparr>)" "kinv (k\<lparr>k_sched := snd (set_cwd_current path (k_sched k))\<rparr>)"
    "kinv (k\<lparr>k_sched := exec_into p (k_sched k)\<rparr>)" "kinv (k\<lparr>k_sched := snd (block_current_until ready (k_sched k))\<rparr>)"
  by (rule kinv_sched [OF k]; use kinvD(1,6) [OF k] alive_ops in
      \<open>simp add: send_signal_ok set_signal_handler_ok set_signal_restorer_ok set_signal_mask_ok set_current_heap_brk_ok set_cwd_current_ok
        exec_into_ok block_current_until_ok subset_insertI del: set_map\<close>)+

section \<open>The handlers keep the invariant\<close>

lemma kinv_vfs_ops:
  assumes k: "kinv k"
  shows "open_read (k_cur k) path (k_vfs k) = Some (r, v) \<Longrightarrow> kinv (set_vfs v k)"
    "open_write (k_cur k) path app (k_vfs k) = Some (r, v) \<Longrightarrow> kinv (set_vfs v k)"
    "vfs_read (k_cur k) fd data (k_vfs k) = Some (n, data', v) \<Longrightarrow> kinv (set_vfs v k)"
    "vfs_write (k_cur k) fd data (k_vfs k) = Some (n, v) \<Longrightarrow> kinv (set_vfs v k)"
  using kinvD(2,3) [OF k] by (auto intro!: kinv_set_vfs [OF k] elim: open_read_ok open_write_ok vfs_read_ok vfs_write_ok)

lemma sys_open_inv: "kinv k \<Longrightarrow> sys_open a0 a1 f k = Some (r, k') \<Longrightarrow> kinv k'"
  by (auto simp: sys_open_def Let_def kinv_vfs_ops
      split: Option.bind_split_asm option.split_asm if_split_asm)

lemma sys_stat_inv: "kinv k \<Longrightarrow> sys_stat a0 a1 k = Some (r, k') \<Longrightarrow> kinv k'"
  by (auto simp: sys_stat_def intro!: kinv_set_fs split: Option.bind_split_asm option.split_asm if_split_asm)

lemma path_call_inv: "kinv k \<Longrightarrow> path_call op a0 a1 k = Some (r, k') \<Longrightarrow> kinv k'"
  by (auto simp: path_call_def intro!: kinv_set_fs split: Option.bind_split_asm option.split_asm)

lemma sys_rename_inv: "kinv k \<Longrightarrow> sys_rename a0 a1 f k = Some (r, k') \<Longrightarrow> kinv k'"
  by (auto simp: sys_rename_def intro!: kinv_set_fs split: Option.bind_split_asm option.split_asm)

lemma sys_chdir_inv:
  assumes k: "kinv k" and e: "sys_chdir a0 a1 k = Some (r, k')"
  shows "kinv k'"
proof -
  have c: "kinv (j\<lparr>k_sched := s\<rparr>)" if "kinv j" "set_cwd_current path (k_sched j) = (b, s)" for j path b s
    using kinv_ops(6) [OF that(1), of path] that(2) by simp
  show ?thesis using kinv_set_fs [OF k] k e
    by (auto simp: sys_chdir_def Let_def split: Option.bind_split_asm option.split_asm if_split_asm prod.split_asm intro: c)
qed

lemma sys_getcwd_inv: "kinv k \<Longrightarrow> kinv (snd (sys_getcwd a0 a1 k))"
  by (simp add: sys_getcwd_def Let_def)

lemma sys_readdir_inv: "kinv k \<Longrightarrow> sys_readdir a0 a1 f k = Some (r, k') \<Longrightarrow> kinv k'"
  by (auto simp: sys_readdir_def intro!: kinv_set_fs split: Option.bind_split_asm option.split_asm if_split_asm)

lemma sys_kill_inv: "kinv k \<Longrightarrow> kinv (snd (sys_kill a0 a1 k))"
  using kinv_ops(1) [of k "ucast a0" "ucast a1"] by (simp add: sys_kill_def Let_def split_beta)

lemma sys_ps_inv: "kinv k \<Longrightarrow> kinv (snd (sys_ps a0 a1 k))"
  by (simp add: sys_ps_def Let_def)

lemma sys_read_inv: "kinv k \<Longrightarrow> sys_read a0 a1 f k = Some (r, k') \<Longrightarrow> kinv k'"
  by (auto simp: sys_read_def Let_def record_pending_pipe_read_def kinv_vfs_ops
      split: Option.bind_split_asm if_split_asm)

lemma sys_write_inv: "kinv k \<Longrightarrow> sys_write a0 a1 f k = Some (r, k') \<Longrightarrow> kinv k'"
  by (auto simp: sys_write_def Let_def kinv_vfs_ops split: Option.bind_split_asm if_split_asm)

lemma sys_pipe_inv:
  assumes k: "kinv k" and e: "sys_pipe a0 k = Some (r, k')"
  shows "kinv k'"
  using k e vfs_step_oks(1) [OF kinvD(2,3) [OF k]]
  by (auto simp: sys_pipe_def Let_def intro!: kinv_set_vfs split: Option.bind_split_asm option.split_asm)

lemma vfs_call_inv:
  assumes k: "kinv k" and e: "vfs_call op k = Some (r, k')" and op: "\<And>r v. op (k_cur k) (k_vfs k) = Some (r, v) \<Longrightarrow> vfs_ok v"
  shows "kinv k'"
  using k e op by (auto simp: vfs_call_def intro!: kinv_set_vfs split: Option.bind_split_asm)

lemma do_brk_inv:
  assumes k: "kinv k" and e: "do_brk a k = Some (r, k')"
  shows "kinv k'"
proof -
  have b: "kinv (upd_sched (set_current_heap_brk b) j)" if "kinv j" for b j
    using kinv_ops(5) [OF that] by (simp add: upd_sched_def)
  show ?thesis using k e b by (auto simp: do_brk_def Let_def split: Option.bind_split_asm if_split_asm)
qed

section \<open>Reaping, fork and exit\<close>

lemma reap_slot_inv:
  assumes k: "kinv k" and i: "find_slot P [1..<s_n (k_sched k)] (tcbs (k_sched k)) = i" and P: "\<And>t. P t \<Longrightarrow> t_state t = RDead"
    and e: "reap_slot i (k_sched k) = Some (r, s)"
  shows "kinv (k\<lparr>k_sched := s\<rparr>)"
proof (rule kinv_sched [OF k])
  let ?s = "k_sched k"
  note D = kinvD [OF k]
  show "sched_ok s" by (rule reap_slot_ok [OF D(1) i P D(6) e])
  have s: "s = ?s \<or> (\<exists>j v. j \<noteq> s_current ?s \<and> s = upd_tcb j (\<lambda>_. TCB_INIT) (?s\<lparr>s_vfs := v\<rparr>))"
  proof (cases i)
    case (Some j)
    then have "j \<noteq> s_current ?s" using find_slot_Some [OF i [unfolded Some]] P D(6) by auto
    then show ?thesis using e Some by (auto simp: reap_slot_def split: Option.bind_split_asm)
  qed (use e in \<open>simp add: reap_slot_def\<close>)
  have u: "set (map t_pid ((tcbs ?s)[j := TCB_INIT])) \<subseteq> insert 0 (set (map t_pid (tcbs ?s)))" for j
    using set_update_subset_insert [of "tcbs ?s" j TCB_INIT] by (auto simp: TCB_INIT_def)
  show "set (map t_pid (tcbs s)) \<subseteq> insert 0 (set (map t_pid (tcbs ?s)))"
    using s
  proof
    assume "\<exists>j v. j \<noteq> s_current ?s \<and> s = upd_tcb j (\<lambda>_. TCB_INIT) (?s\<lparr>s_vfs := v\<rparr>)"
    then show ?thesis using u by (auto simp: upd_tcb_def simp del: set_map) blast
  qed auto
  show "t_state (cur_tcb s) \<noteq> RDead" using s D(6) by (auto simp: upd_tcb_def)
qed

lemma reap_dead_inv:
  assumes k: "kinv k"
  shows "reap_dead_child me (k_sched k) = Some (r, s) \<Longrightarrow> kinv (k\<lparr>k_sched := s\<rparr>)"
    and "reap_dead_pid me pid (k_sched k) = Some (r, s) \<Longrightarrow> kinv (k\<lparr>k_sched := s\<rparr>)"
  unfolding reap_dead_child_def reap_dead_pid_def by (rule reap_slot_inv [OF k refl]; auto)+

lemma reap_pid_next [simp]: "next_pid (snd (reap_pid pid t)) = next_pid t"
  by (auto simp: reap_pid_def reap_and_free_def Let_def split: table_state.split option.split prod.splits)

lemma kinv_procs: "kinv k \<Longrightarrow> pt_ok t \<Longrightarrow> next_pid t = next_pid (k_procs k) \<Longrightarrow> kinv (k\<lparr>k_procs := t\<rparr>)"
  by (simp add: kinv_def tables_inv_def pids_below_def alive_def)

lemma reap_child_inv:
  assumes "kinv k"
  shows "kinv (snd (reap_child pid pml4 k))"
proof -
  have "kinv (k\<lparr>k_procs := snd (reap_pid pid (k_procs k))\<rparr>)"
    by (rule kinv_procs) (use assms kinvD(5) [OF assms] reap_refines in auto)
  then have "kinv (k\<lparr>k_procs := snd (reap_pid pid (k_procs k))\<rparr>\<lparr>k_mach := free_space pml4 (k_mach k)\<rparr>)" by (simp only: kinv_fields)
  then show ?thesis by (simp add: reap_child_def split_beta)
qed

text \<open>Each round of the loop of \<open>sys_reap_nohang\<close> frees the slot of a dead child, so it ends.\<close>

definition dead_slots :: "kernel \<Rightarrow> nat" where
  "dead_slots k = length (filter (\<lambda>t. t_state t = RDead) (tcbs (k_sched k)))"

lemma filter_update_less: "j < length xs \<Longrightarrow> P (xs ! j) \<Longrightarrow> \<not> P x \<Longrightarrow> length (filter P (xs[j := x])) < length (filter P xs)"
proof (induction xs arbitrary: j)
  case (Cons y ys)
  then show ?case by (cases j) auto
qed simp

lemma reap_child_fields [simp]: "k_sched (snd (reap_child pid pml4 k)) = k_sched k"
  by (simp add: reap_child_def split_beta)

lemma reap_dead_child_total:
  assumes k: "kinv k"
  shows "\<exists>r s. reap_dead_child me (k_sched k) = Some (r, s) \<and> (r \<noteq> None \<longrightarrow> dead_slots (k\<lparr>k_sched := s\<rparr>) < dead_slots k)"
proof -
  let ?s = "k_sched k" and ?P = "\<lambda>t. t_parent_pid t = me \<and> t_state t = RDead"
  show ?thesis
  proof (cases "find_slot ?P [1..<s_n ?s] (tcbs ?s)")
    case (Some j)
    have j: "j < s_n ?s" "t_state (tcb_at ?s j) = RDead" using find_slot_Some [OF Some] by auto
    note B = sched_ok_bounds [OF kinvD(1) [OF k]]
    have l: "j < length (tcbs ?s)" "j < MAX_PROCS" using j(1) B(3,4) by (auto simp: max_threads_procs)
    obtain v where "clear_fds j (s_vfs ?s) = Some v" using clear_fds_ok [OF B(5) l(2)] by blast
    then show ?thesis using Some filter_update_less [of j "tcbs ?s" "\<lambda>t. t_state t = RDead" TCB_INIT] j l(1)
      by (simp add: reap_dead_child_def reap_slot_def dead_slots_def upd_tcb_def TCB_INIT_def)
  qed (simp add: reap_dead_child_def reap_slot_def)
qed

lemma reap_nohang_total:
  assumes "kinv k"
  shows "\<exists>r k'. reap_nohang_loop me t k = Some (r, k') \<and> kinv k'"
  using assms
proof (induction "dead_slots k" arbitrary: k rule: less_induct)
  case less
  obtain r s where e: "reap_dead_child me (k_sched k) = Some (r, s)" and d: "r \<noteq> None \<longrightarrow> dead_slots (k\<lparr>k_sched := s\<rparr>) < dead_slots k"
    using reap_dead_child_total [OF less.prems] by blast
  note s = reap_dead_inv(1) [OF less.prems e]
  show ?case
  proof (cases r)
    case (Some q)
    obtain st k1 where c: "reap_child (fst q) (snd q) (k\<lparr>k_sched := s\<rparr>) = (st, k1)" by (meson surj_pair)
    have k1: "kinv k1" using reap_child_inv [OF s] c by (metis snd_conv)
    have "k_sched k1 = s" using reap_child_fields [of "fst q" "snd q" "k\<lparr>k_sched := s\<rparr>"] unfolding c by simp
    then have "dead_slots k1 < dead_slots k" using d Some by (simp add: dead_slots_def)
    then show ?thesis using less.hyps k1 e Some c by (subst reap_nohang_loop.simps) (auto simp: split_beta)
  qed (use e s in \<open>subst reap_nohang_loop.simps, simp\<close>)
qed

lemma sys_reap_nohang_inv: "kinv k \<Longrightarrow> sys_reap_nohang a k = Some (r, k') \<Longrightarrow> kinv k'"
  using reap_nohang_total [of k "current_pid (k_sched k)" "ucast a"] by (auto simp: sys_reap_nohang_def Let_def split: if_split_asm)

text \<open>The pid of a child is fresh while the counter has not run through all 32-bit values.\<close>

lemma spawn_pid:
  assumes ok: "pt_ok t" and z: "next_pid t \<noteq> 0" and c: "spawn_checked t = Some (pid, t')"
  shows "pt_ok t'" and "pid = 0 \<and> t' = t \<or> pid = next_pid t \<and> unat (next_pid t') = unat (next_pid t) + 1"
proof (atomize (full), cases "pt_st t")
  case TableFull
  then show "pt_ok t' \<and> (pid = 0 \<and> t' = t \<or> pid = next_pid t \<and> unat (next_pid t') = unat (next_pid t) + 1)"
    using ok c by (simp add: spawn_checked_def pt_spawn_def)
next
  case HasCapacity
  then have e: "pt_spawn t = (pid, t')" and w: "next_pid t \<noteq> 0" "next_pid t \<noteq> - 1"
    using c z by (auto simp: spawn_checked_def checked_inc_def split: if_split_asm)
  have n: "unat (next_pid t + 1) = unat (next_pid t) + 1"
    using w(2) unatSuc [of "next_pid t"] by (metis add.commute add_eq_0_iff Suc_eq_plus1)
  have "pt_ok t'" using spawn_refines [OF ok w] e by simp
  moreover have "pid = next_pid t \<and> unat (next_pid t') = unat (next_pid t) + 1"
    using e n HasCapacity by (auto simp: pt_spawn_def Let_def split: if_split_asm)
  ultimately show "pt_ok t' \<and> (pid = 0 \<and> t' = t \<or> pid = next_pid t \<and> unat (next_pid t') = unat (next_pid t) + 1)" by blast
qed

lemma fork_tcbs:
  assumes s: "sched_ok s" and p: "pid \<noteq> parent" and e: "spawn_user_from_frame pml4 frame pid parent s = Some s'"
  shows "\<exists>n T. n \<noteq> s_current s \<and> t_pid T = pid \<and> tcbs s' = (tcbs s)[n := T] \<and> s_current s' = s_current s"
proof -
  obtain n s1 where a: "alloc_slot s = Some (n, s1)" using e by (auto simp: spawn_user_from_frame_def split: Option.bind_split_asm)
  obtain v where v: "fork_vfs n parent s = Some v" using fork_vfs_ok [OF s a] by blast
  have "s_current s1 = s_current s" using alloc_slot_ok [OF s a] by (metis sched.select_convs(3) sched.surjective sched.update_convs(2))
  then have "n \<noteq> s_current s" using alloc_slot_ok [OF s a] by simp
  moreover have "t_pid (fork_tcb pml4 n pid parent s) = pid" by (simp add: fork_tcb_def)
  moreover have "tcbs s' = (tcbs s)[n := fork_tcb pml4 n pid parent s]" "s_current s' = s_current s" using fork_eq [OF s a p v] e by auto
  ultimately show ?thesis by blast
qed

lemma do_fork_inv:
  assumes k: "kinv k" and u: "current_pid (k_sched k) \<noteq> 0" and e: "do_fork f k = Some (r, k')"
  shows "kinv k'"
proof -
  let ?s = "k_sched k" and ?t = "k_procs k"
  note D = kinvD [OF k]
  have b: "next_pid ?t \<noteq> 0" "\<forall>p \<in> set (map t_pid (tcbs ?s)). unat p < unat (next_pid ?t)" using D(7) by (auto simp: pids_below_def)
  obtain cp m pid t s where m: "fork_space (current_pml4 (mmu k)) (mmu k) = Some (cp, m)" and t: "spawn_checked ?t = Some (pid, t)"
    and s: "spawn_user_from_frame cp (frame_words (f\<lparr>f_rax := 0\<rparr>)) pid (current_pid ?s) ?s = Some s"
    and k': "k' = k\<lparr>k_mach := m, k_procs := t, k_sched := s\<lparr>umem := (umem s)(cp := umem s (last_pml4 s))\<rparr>\<rparr>"
    using e by (auto simp: do_fork_def Let_def split: Option.bind_split_asm prod.splits)
  note P = spawn_pid [OF D(5) b(1) t]
  have "current_pid ?s \<in> set (map t_pid (tcbs ?s))" using sched_ok_bounds(1) [OF D(1)] by (auto simp: current_pid_def)
  then have "unat (current_pid ?s) < unat (next_pid ?t)" using b(2) by blast
  then have p: "pid \<noteq> current_pid ?s" using P(2) u by auto
  obtain n T where T: "n \<noteq> s_current ?s" "t_pid T = pid" "tcbs s = (tcbs ?s)[n := T]" "s_current s = s_current ?s"
    using fork_tcbs [OF D(1) p s] by blast
  have "set (map t_pid (tcbs s)) \<subseteq> insert pid (set (map t_pid (tcbs ?s)))"
    using set_update_subset_insert [of "tcbs ?s" n T] T by auto
  moreover have "unat pid < unat (next_pid t)" "unat (next_pid ?t) \<le> unat (next_pid t)" "next_pid t \<noteq> 0"
    using P(2) b(1) by (auto simp: unat_gt_0)
  ultimately have "pids_below k'" using b(2) unfolding k' pids_below_def by (fastforce simp del: set_map)
  moreover have "sched_ok s" by (rule spawn_user_from_frame_ok [OF D(1) p s])
  moreover have "t_state (cur_tcb s) \<noteq> RDead" using T D(6) by simp
  ultimately show ?thesis using P(1) D(4) unfolding k' by (simp add: kinv_def tables_inv_def alive_def sched_ok_def)
qed

section \<open>The table of system calls\<close>

text \<open>
  A system call comes from a user process.
\<close>

definition from_user :: "kernel \<Rightarrow> bool" where
  "from_user k \<longleftrightarrow> current_pid (k_sched k) \<noteq> 0"

lemma descriptor_calls_inv:
  assumes k: "kinv k"
  shows "vfs_call (\<lambda>cur. seek cur fd off whence) k = Some (r, k') \<Longrightarrow> kinv k'"
    "vfs_call (\<lambda>cur. fstat_size cur fd) k = Some (r, k') \<Longrightarrow> kinv k'"
    "vfs_call (\<lambda>cur. vfs_dup2 cur fd fd') k = Some (r, k') \<Longrightarrow> kinv k'"
    "vfs_call (\<lambda>cur. vfs_dup cur fd) k = Some (r, k') \<Longrightarrow> kinv k'"
    "vfs_close (k_cur k) fd (k_vfs k) = Some v \<Longrightarrow> kinv (set_vfs v k)"
proof -
  note D = kinvD(2,3) [OF k]
  show "kinv k'" if "vfs_call (\<lambda>cur. seek cur fd off whence) k = Some (r, k')"
    by (rule vfs_call_inv [OF k that]) (auto intro: seek_ok D)
  show "kinv k'" if "vfs_call (\<lambda>cur. fstat_size cur fd) k = Some (r, k')"
    by (rule vfs_call_inv [OF k that])
      (use D in \<open>auto simp: fstat_size_def vfs_ok_tables index_tables split: Option.bind_split_asm option.split_asm slot.split_asm if_split_asm\<close>)
  show "kinv k'" if "vfs_call (\<lambda>cur. vfs_dup2 cur fd fd') k = Some (r, k')"
    by (rule vfs_call_inv [OF k that]) (use vfs_dup2_ok [OF D, of fd fd'] in auto)
  show "kinv k'" if "vfs_call (\<lambda>cur. vfs_dup cur fd) k = Some (r, k')"
    by (rule vfs_call_inv [OF k that]) (auto intro: vfs_dup_ok D)
  show "kinv (set_vfs v k)" if "vfs_close (k_cur k) fd (k_vfs k) = Some v"
    by (rule kinv_set_vfs [OF k]) (use vfs_close_ok [OF D, of fd] that in auto)
qed

lemma signal_calls_inv:
  assumes k: "kinv k"
  shows "set_signal_handler sig h (set_signal_restorer r (k_sched k)) = (x, s) \<Longrightarrow> kinv (k\<lparr>k_sched := s\<rparr>)"
    "set_signal_mask how msk (k_sched k) = (y, s) \<Longrightarrow> kinv (k\<lparr>k_sched := s\<rparr>)"
proof -
  show "kinv (k\<lparr>k_sched := s\<rparr>)" if "set_signal_handler sig h (set_signal_restorer r (k_sched k)) = (x, s)"
    using kinv_ops(2) [OF kinv_ops(3) [OF k, of r], of sig h] that by simp
  show "kinv (k\<lparr>k_sched := s\<rparr>)" if "set_signal_mask how msk (k_sched k) = (y, s)"
    using kinv_ops(4) [OF k, of how msk] that by simp
qed

lemma kinv_foreground [simp]: "kinv (k\<lparr>k_cons := (k_cons k)\<lparr>c_foreground := p\<rparr>\<rparr>) = kinv k"
  by (simp add: kinv_def tables_inv_def pids_below_def alive_def cons_ok_def)

lemma kinv_console [simp]: "kinv k \<Longrightarrow> kinv (set_vfs (k_vfs k\<lparr>console := bs\<rparr>) k)"
  by (rule kinv_set_vfs) (simp_all add: kinvD)

lemmas call_inv = sys_open_inv sys_stat_inv path_call_inv sys_rename_inv sys_chdir_inv sys_readdir_inv sys_read_inv sys_write_inv
  sys_pipe_inv do_brk_inv sys_reap_nohang_inv descriptor_calls_inv signal_calls_inv

lemma perform_eqs:
  shows "perform_syscall 0 a0 a1 f k = Some (1, set_vfs (k_vfs k\<lparr>console := console (k_vfs k) @ [ucast a0]\<rparr>) k)"
    "perform_syscall 1 a0 a1 f k = Some (0, k\<lparr>k_pending_exit := a0\<rparr>)"
    "perform_syscall 2 a0 a1 f k = do_fork f k"
    "perform_syscall 3 a0 a1 f k = Some (0, record_pending_exec 3 a0 0 0 k)"
    "perform_syscall 4 a0 a1 f k = Some (0, k\<lparr>k_pending_wait := True, k_pending_wait_pid := ucast a0\<rparr>)"
    "perform_syscall 5 a0 a1 f k = sys_open a0 a1 f k"
    "perform_syscall 6 a0 a1 f k = sys_read a0 a1 f k"
    "perform_syscall 7 a0 a1 f k = do { v \<leftarrow> vfs_close (k_cur k) (unat a0) (k_vfs k); Some (0, set_vfs v k) }"
    "perform_syscall 8 a0 a1 f k = Some (0, record_pending_exec 8 a0 a1 0 k)"
    "perform_syscall 9 a0 a1 f k = Some (0, k\<lparr>k_readline_buf := a0, k_readline_len := a1\<rparr>)"
    "perform_syscall 10 a0 a1 f k = do_brk a0 k"
    "perform_syscall 11 a0 a1 f k = Some (0, record_pending_exec 11 a0 a1 (f_rdx f) k)"
    "perform_syscall 12 a0 a1 f k = sys_write a0 a1 f k"
    "perform_syscall 13 a0 a1 f k = vfs_call (\<lambda>cur. seek cur (unat a0) (sint a1) (ucast (f_rdx f))) k"
    "perform_syscall 14 a0 a1 f k = vfs_call (\<lambda>cur. fstat_size cur (unat a0)) k"
    "perform_syscall 15 a0 a1 f k = sys_stat a0 a1 k"
    "perform_syscall 16 a0 a1 f k = vfs_call (\<lambda>cur. vfs_dup cur (unat a0)) k"
    "perform_syscall 17 a0 a1 f k = sys_unlink a0 a1 k"
    "perform_syscall 18 a0 a1 f k = do { (secs, t) \<leftarrow> epoch_secs (k_cmos k) (k_cmos_t k); Some (secs, k\<lparr>k_cmos_t := t\<rparr>) }"
    "perform_syscall 19 a0 a1 f k = sys_chdir a0 a1 k"
    "perform_syscall 20 a0 a1 f k = Some (sys_getcwd a0 a1 k)"
    "perform_syscall 21 a0 a1 f k = sys_readdir a0 a1 f k"
    "perform_syscall 22 a0 a1 f k = vfs_call (\<lambda>cur. vfs_dup2 cur (unat a0) (unat a1)) k"
    "perform_syscall 23 a0 a1 f k = sys_pipe a0 k"
    "perform_syscall 24 a0 a1 f k = sys_mkdir a0 a1 k"
    "perform_syscall 25 a0 a1 f k = sys_rmdir a0 a1 k"
    "perform_syscall 26 a0 a1 f k = sys_rename a0 a1 f k"
    "perform_syscall 27 a0 a1 f k = Some (sys_ps a0 a1 k)"
    "perform_syscall 28 a0 a1 f k = sys_reap_nohang a0 k"
    "perform_syscall 29 a0 a1 f k = Some (sys_kill a0 a1 k)"
    "perform_syscall 30 a0 a1 f k = (let s = set_signal_restorer (f_rdx f) (k_sched k); (prev, s) = set_signal_handler (ucast a0) a1 s in Some (prev, k\<lparr>k_sched := s\<rparr>))"
    "perform_syscall 32 a0 a1 f k = (let (prev, s) = set_signal_mask (ucast a0) (ucast a1) (k_sched k) in Some (ucast prev, k\<lparr>k_sched := s\<rparr>))"
    "perform_syscall 33 a0 a1 f k = Some (0, k\<lparr>k_cons := (k_cons k)\<lparr>c_foreground := ucast a0\<rparr>\<rparr>)"
  by (simp_all add: perform_syscall_def)

lemma perform_syscall_inv:
  assumes k: "kinv k" and c: "from_user k" and e: "perform_syscall num a0 a1 f k = Some (r, k')"
  shows "kinv k'"
proof -
  consider "num = 2" | "num = 16" | "num \<in> {20, 27, 29}" | "num \<in> {0, 1, 3, 4, 8, 9, 11, 18, 30, 32, 33}" | "num \<in> {5, 6, 7, 10, 12, 13, 14, 15}"
    | "num \<in> {17, 19, 21, 22, 23, 24, 25, 26, 28}"
    | "num \<notin> {0, 1, 2, 3, 4, 5, 6, 7, 8, 9, 10, 11, 12, 13, 14, 15, 16, 17, 18, 19, 20, 21, 22, 23, 24, 25, 26, 27, 28, 29, 30, 32, 33}"
    by blast
  then show ?thesis
  proof cases
    case 1
    then show ?thesis using e k c do_fork_inv by (auto simp: perform_eqs from_user_def)
  next
    case 2
    then show ?thesis using e k c descriptor_calls_inv(4) by (auto simp: perform_eqs from_user_def)
  next
    case 3
    then show ?thesis using e k sys_getcwd_inv [OF k] sys_ps_inv [OF k] sys_kill_inv [OF k] by (auto simp: perform_eqs) (metis snd_conv)+
  next
    case 4
    then show ?thesis using e k
      by (auto simp: perform_eqs record_pending_exec_def Let_def signal_calls_inv split: Option.bind_split_asm prod.split_asm)
  next
    case 5
    then show ?thesis using e
      by (elim insertE emptyE; simp add: perform_eqs split: Option.bind_split_asm) (erule call_inv [OF k] | clarify)+
  next
    case 6
    then show ?thesis using e
      by (elim insertE emptyE; simp add: perform_eqs sys_unlink_def sys_mkdir_def sys_rmdir_def) (erule call_inv [OF k])+
  qed (use e k in \<open>simp add: perform_syscall_def\<close>)
qed

section \<open>The deferred requests\<close>

lemma kinv_exec_into:
  assumes "kinv k"
  shows "kinv (upd_sched (\<lambda>s. exec_into p (s\<lparr>umem := m s\<rparr>)) k)"
proof -
  have "kinv (k\<lparr>k_sched := (k_sched k)\<lparr>umem := m (k_sched k)\<rparr>\<rparr>)"
    using assms by (simp add: kinv_def tables_inv_def pids_below_def alive_def sched_ok_def)
  from kinv_ops(7) [OF this, of p] show ?thesis by (simp add: upd_sched_def)
qed

lemma load_image_inv: "kinv k \<Longrightarrow> load_image elf k = Some (ok, k') \<Longrightarrow> kinv k'"
  by (auto simp: load_image_def Let_def intro!: kinv_exec_into split: Option.bind_split_asm if_split_asm)

lemma exec_file_inv: "kinv k \<Longrightarrow> exec_file path k = Some (r, k') \<Longrightarrow> kinv k'"
  by (auto simp: exec_file_def read_exec_elf_def Let_def intro!: kinv_set_fs split: Option.bind_split_asm option.split_asm if_split_asm)

lemma exec_image_inv:
  "kinv k \<Longrightarrow> exec_image elf f k = Some (r, f', k') \<Longrightarrow> kinv k'"
  "kinv k \<Longrightarrow> exec_image_args elf argv argc f k = Some (r, f', k') \<Longrightarrow> kinv k'"
  by (auto simp: exec_image_def exec_image_args_def Let_def kinv_umem dest: load_image_inv split: Option.bind_split_asm if_split_asm prod.splits)

lemma do_exec_inv:
  assumes k: "kinv k"
  shows "do_exec n f k = Some (r, f', k') \<Longrightarrow> kinv k'"
    and "do_exec_path p l f k = Some (r, f', k') \<Longrightarrow> kinv k'"
    and "do_exec_argv p l argc f k = Some (r, f', k') \<Longrightarrow> kinv k'"
proof -
  show "do_exec n f k = Some (r, f', k') \<Longrightarrow> kinv k'"
    using k exec_image_inv(1) by (auto simp: do_exec_def split: if_split_asm)
  show "do_exec_path p l f k = Some (r, f', k') \<Longrightarrow> kinv k'"
    by (auto simp: do_exec_path_def split: Option.bind_split_asm option.split_asm prod.splits
        dest!: exec_file_inv [OF k] intro: exec_image_inv(1))
  show "do_exec_argv p l argc f k = Some (r, f', k') \<Longrightarrow> kinv k'"
    using k by (auto simp: do_exec_argv_def Let_def split: Option.bind_split_asm option.split_asm if_split_asm
        dest!: exec_file_inv [OF k] intro: exec_image_inv(2))
qed

lemma run_pending_exec_inv: "kinv k \<Longrightarrow> run_pending_exec num a0 a1 a2 f k = Some (r, f', k') \<Longrightarrow> kinv k'"
  unfolding run_pending_exec_def by (auto split: if_split_asm intro: do_exec_inv)

section \<open>Signals at the end of a call\<close>

lemma delivery_pids: "delivery_frame s s' \<Longrightarrow> map t_pid (tcbs s') = map t_pid (tcbs s)"
proof -
  assume "delivery_frame s s'"
  then have "map tcb_core (tcbs s') = map tcb_core (tcbs s)" by (auto simp: delivery_frame_def)
  then have "map t_pid (map tcb_core (tcbs s')) = map t_pid (map tcb_core (tcbs s))" by simp
  then show ?thesis by (simp add: tcb_core_def comp_def)
qed

lemma first_effect_state: "sched_ok s \<Longrightarrow> t_state (cur_tcb (snd (first_effect ns s))) = t_state (cur_tcb s)"
proof (induction ns arbitrary: s)
  case (Cons n ns)
  have "t_state (cur_tcb (drop_pending n s)) = t_state (cur_tcb s)" by (simp add: drop_pending_def cur_upd [OF Cons.prems])
  then show ?case using Cons.IH [OF drop_pending_ok [OF Cons.prems]] by (simp add: Let_def)
qed simp

lemma stop_alive:
  assumes "sched_ok s"
  shows "t_state (cur_tcb (mark_current_stopped (notify_parent s))) \<noteq> RDead"
  unfolding mark_current_stopped_def using cur_upd [OF notify_parent_ok [OF assms]] by simp

lemma setup_signal_tcbs: "setup_signal_frame sig h r f s = Some (f', s') \<Longrightarrow> tcbs s' = tcbs s \<and> s_current s' = s_current s"
  by (auto simp: setup_signal_frame_def Let_def upd_umem_def split: Option.bind_split_asm)

lemma maybe_deliver_inv:
  assumes k: "kinv k" and m: "maybe_deliver_signal f (k_sched k) = Some (d, s)"
  shows "kinv (k\<lparr>k_sched := s\<rparr>)"
proof -
  let ?s = "k_sched k"
  note D = kinvD [OF k]
  obtain x s1 where x: "first_effect (deliverable ?s) ?s = (x, s1)" by (meson surj_pair)
  have e: "apply_effect f (x, s1) = Some (d, s)"
    using delivery_eqs(1) [OF sched_ok_bounds(1) [OF D(1)] sched_ok_pending [OF D(1)], of f] x m by simp
  have 1: "sched_ok s1" "delivery_frame ?s s1" "t_state (cur_tcb s1) \<noteq> RDead"
    using first_effect_ok [OF D(1), of "deliverable ?s"] first_effect_state [OF D(1), of "deliverable ?s"] D(6) by (simp_all add: x)
  have "delivery_frame s1 s"
    using e by (auto simp: apply_effect_def delivery_frame_refl stop_frame split: option.splits sig_action.splits prod.splits
        intro: setup_signal_frame_frame)
  then have "delivery_frame ?s s" by (rule delivery_frame_trans [OF 1(2)])
  moreover have "t_state (cur_tcb s) \<noteq> RDead"
    using e 1(3) stop_alive [OF 1(1)] setup_signal_tcbs
    by (fastforce simp: apply_effect_def split: option.splits sig_action.splits)
  ultimately show ?thesis
    using kinv_sched [OF k maybe_deliver_ok [OF D(1) m]] delivery_pids by auto
qed

section \<open>The end of a system call\<close>

text \<open>What every step leaves behind: the tables are well formed, and the running process has not died unless the step says so.\<close>

definition step_ok :: "outcome \<Rightarrow> kernel \<Rightarrow> bool" where
  "step_ok w k \<longleftrightarrow> tables_inv k \<and> (w \<noteq> Exited \<longrightarrow> alive k) \<and> quiet k \<and> \<not> d_executing (k_disp k)"

text \<open>The requests that the handlers leave for the end of the call, and the dispatcher.\<close>

definition pend :: "kernel \<Rightarrow> u64 \<times> bool \<times> u64 \<times> u64 \<times> dispatcher" where
  "pend k = (k_pending_exec k, k_pending_wait k, k_readline_buf k, k_pipe_fd k, k_disp k)"

lemma pend_simps [simp]:
  "pend (k\<lparr>k_sched := s\<rparr>) = pend k" "pend (k\<lparr>k_mach := m\<rparr>) = pend k" "pend (k\<lparr>k_procs := t\<rparr>) = pend k"
  "pend (k\<lparr>k_cons := c\<rparr>) = pend k" "pend (k\<lparr>k_elf := e\<rparr>) = pend k" "pend (k\<lparr>k_pending_exit := x\<rparr>) = pend k"
  "pend (set_vfs v k) = pend k" "pend (set_fs y k) = pend k" "pend (user_store p bs k) = pend k" "pend (upd_sched g k) = pend k"
  by (simp_all add: pend_def set_fs_def set_vfs_def user_store_def upd_sched_def)

definition idle :: "kernel \<Rightarrow> bool" where
  "idle k \<longleftrightarrow> quiet k \<and> \<not> d_executing (k_disp k)"

lemma idle_pend: "pend k = pend j \<Longrightarrow> idle k = idle j"
  by (simp add: pend_def idle_def quiet_def)

lemma pids_exit: "map t_pid (tcbs (exit_current s)) = map t_pid (tcbs s)"
  by simp

lemma on_pid_next: "next_pid (exit_pid pid code t) = next_pid t" "next_pid (kill_pid pid t) = next_pid t"
  by (simp_all add: exit_pid_def kill_pid_def)

lemma exit_tables:
  assumes k: "tables_inv k"
  shows "tables_inv (do_exit code k)" and "tables_inv (kill_current_user_process k)"
proof -
  have "pt_ok (exit_pid pid code (k_procs k))" "pt_ok (kill_pid pid (k_procs k))" for pid
    using k unfolding tables_inv_def exit_pid_def kill_pid_def by (auto simp: proc_exit_def proc_kill_def intro!: on_pid_ok)
  then show "tables_inv (do_exit code k)" "tables_inv (kill_current_user_process k)"
    using k exit_current_ok by (auto simp: tables_inv_def do_exit_def kill_current_user_process_def pids_below_def on_pid_next simp del: set_map)
qed

lemma step_okI: "kinv k \<Longrightarrow> idle k \<Longrightarrow> step_ok w k"
  by (simp add: step_ok_def kinv_def idle_def)

lemma exit_step_ok: "kinv k \<Longrightarrow> idle k \<Longrightarrow> step_ok Exited (do_exit code k)"
proof -
  assume k: "kinv k" "idle k"
  have "tables_inv (do_exit code k)" by (rule exit_tables) (use k in \<open>simp add: kinv_def\<close>)
  moreover have "idle (do_exit code k)" using k idle_pend [of "do_exit code k" k] by (simp add: do_exit_def)
  ultimately show ?thesis by (simp add: step_ok_def idle_def)
qed

lemma finish_exit_ok: "kinv k \<Longrightarrow> idle k \<Longrightarrow> \<exists>w k'. finish_exit f k = Some (w, k') \<and> step_ok w k'"
  using exit_step_ok [of "k\<lparr>k_pending_exit := - 1\<rparr>"] step_okI [of k] idle_pend [of "k\<lparr>k_pending_exit := - 1\<rparr>" k]
  by (simp add: finish_exit_def)

lemma finish_signals_ok:
  assumes k: "kinv k" "idle k" and e: "finish_signals f k = Some (w, k')"
  shows "step_ok w k'"
proof -
  obtain d s where d: "maybe_deliver_signal f (k_sched k) = Some (d, s)"
    using e by (auto simp: finish_signals_def split: Option.bind_split_asm)
  have s: "kinv (k\<lparr>k_sched := s\<rparr>)" by (rule maybe_deliver_inv [OF k(1) d])
  have i: "idle (k\<lparr>k_sched := s\<rparr>)" using k(2) idle_pend [of "k\<lparr>k_sched := s\<rparr>" k] by simp
  show ?thesis
  proof (cases d)
    case (Resume g)
    then show ?thesis using e finish_exit_ok [OF s i, of g] by (auto simp: finish_signals_def d)
  qed (use e exit_step_ok [OF s i] step_okI [OF s i] in \<open>auto simp: finish_signals_def d\<close>)
qed

lemma do_pipe_read_ok:
  assumes k: "kinv k" "idle k" and e: "do_pipe_read fd p l f k = Some (w, k')"
  shows "step_ok w k'"
proof -
  obtain n out v where r: "vfs_read (k_cur k) (unat fd) (user_bytes p (unat l) k) (k_vfs k) = Some (n, out, v)"
    using e by (auto simp: do_pipe_read_def split: Option.bind_split_asm)
  let ?k = "user_store p out (set_vfs v k)"
  have s: "kinv ?k" "idle ?k" using kinv_vfs_ops(3) [OF k(1) r] k(2) idle_pend [of ?k k] by simp_all
  show ?thesis using e step_okI [OF s]
    by (auto simp: do_pipe_read_def r Let_def split: Option.bind_split_asm if_split_asm intro: finish_signals_ok [OF s])
qed

lemma idle_quiet: "idle k \<longleftrightarrow> sint (k_pending_exec k) < 0 \<and> \<not> k_pending_wait k \<and> k_readline_buf k = 0 \<and> k_pipe_fd k = U64_MAX \<and> \<not> d_executing (k_disp k)"
  by (auto simp: idle_def quiet_def)

lemma finish_pipe_ok:
  assumes k: "kinv k" "idle (k\<lparr>k_pipe_fd := U64_MAX\<rparr>)" and e: "finish_pipe f k = Some (w, k')"
  shows "step_ok w k'"
proof (cases "k_pipe_fd k = U64_MAX")
  case True
  then have "idle k" using k(2) by (simp add: idle_quiet)
  then show ?thesis using finish_signals_ok [OF k(1), of f] e True by (simp add: finish_pipe_def)
next
  case False
  then show ?thesis using e do_pipe_read_ok [of "k\<lparr>k_pipe_fd := U64_MAX\<rparr>"] k by (simp add: finish_pipe_def)
qed

lemma do_read_line_ok:
  assumes k: "kinv k" "idle (k\<lparr>k_pipe_fd := U64_MAX\<rparr>)" and e: "do_read_line p l f k = Some (w, k')" and q: "k_pipe_fd k = U64_MAX"
  shows "step_ok w k'"
proof -
  obtain r out c where t: "take_line (user_bytes p (unat l) k) (k_cons k) = (r, out, c)" by (metis prod_cases3)
  have "cons_ok c" using take_line_refines [OF kinvD(4) [OF k(1)] t] by blast
  then have c: "kinv (k\<lparr>k_cons := c\<rparr>)" using k(1) by (simp add: kinv_def tables_inv_def pids_below_def alive_def)
  let ?k = "user_store p out (k\<lparr>k_cons := c\<rparr>)"
  have "kinv ?k" using c by simp
  moreover have "idle (?k\<lparr>k_pipe_fd := U64_MAX\<rparr>)" using k(2) by (simp add: idle_quiet user_store_def upd_sched_def)
  moreover have "idle k" using k(2) q by (simp add: idle_quiet)
  ultimately show ?thesis using e t finish_pipe_ok [of ?k] step_okI [OF k(1)] by (cases r) (auto simp: do_read_line_def)
qed

lemma finish_readline_ok:
  assumes k: "kinv k" and i: "sint (k_pending_exec k) < 0" "\<not> k_pending_wait k" "\<not> d_executing (k_disp k)"
    and x: "k_readline_buf k = 0 \<or> k_pipe_fd k = U64_MAX" and e: "finish_readline f k = Some (w, k')"
  shows "step_ok w k'"
proof (cases "k_readline_buf k = 0")
  case True
  then show ?thesis using e i k by (auto simp: finish_readline_def idle_quiet intro: finish_pipe_ok)
next
  case False
  then show ?thesis using e i k x do_read_line_ok [of "k\<lparr>k_readline_buf := 0\<rparr>"] by (simp add: finish_readline_def idle_quiet)
qed

section \<open>Requests left by the handlers\<close>

lemma pend_more [simp]: "pend (k\<lparr>k_cmos_t := t\<rparr>) = pend k" "pend (user_store64 p w k) = pend k" "pend (k\<lparr>k_pending_wait_pid := q\<rparr>) = pend k"
  "pend (snd (reap_child pid pml4 k)) = pend k"
  by (simp_all add: pend_def user_store64_def upd_sched_def reap_child_def split_beta)

lemma path_pend:
  "sys_open a0 a1 f k = Some (r, k') \<Longrightarrow> pend k' = pend k" "sys_stat a0 a1 k = Some (r, k') \<Longrightarrow> pend k' = pend k"
  "path_call op a0 a1 k = Some (r, k') \<Longrightarrow> pend k' = pend k" "sys_rename a0 a1 f k = Some (r, k') \<Longrightarrow> pend k' = pend k"
  "sys_chdir a0 a1 k = Some (r, k') \<Longrightarrow> pend k' = pend k" "sys_readdir a0 a1 f k = Some (r, k') \<Longrightarrow> pend k' = pend k"
  by (auto simp: sys_open_def sys_stat_def path_call_def sys_rename_def sys_chdir_def sys_readdir_def Let_def
      split: Option.bind_split_asm option.split_asm if_split_asm prod.split_asm)

lemma other_pend:
  "sys_write a0 a1 f k = Some (r, k') \<Longrightarrow> pend k' = pend k" "sys_pipe a0 k = Some (r, k') \<Longrightarrow> pend k' = pend k"
  "vfs_call op k = Some (r, k') \<Longrightarrow> pend k' = pend k" "do_brk a0 k = Some (r, k') \<Longrightarrow> pend k' = pend k"
  "do_fork f k = Some (r, k') \<Longrightarrow> pend k' = pend k"
  "pend (snd (sys_getcwd a0 a1 k)) = pend k" "pend (snd (sys_ps a0 a1 k)) = pend k" "pend (snd (sys_kill a0 a1 k)) = pend k"
proof -
  show "do_fork f k = Some (r, k') \<Longrightarrow> pend k' = pend k"
    by (auto simp: do_fork_def Let_def pend_def split: Option.bind_split_asm prod.split_asm)
qed (auto simp: sys_write_def sys_pipe_def vfs_call_def do_brk_def sys_getcwd_def sys_ps_def sys_kill_def Let_def split_beta
      split: Option.bind_split_asm option.split_asm if_split_asm)

lemma reap_nohang_pend:
  assumes "kinv k" and "reap_nohang_loop me t k = Some (r, k')"
  shows "pend k' = pend k"
  using assms
proof (induction "dead_slots k" arbitrary: k rule: less_induct)
  case less
  obtain x s where e: "reap_dead_child me (k_sched k) = Some (x, s)" and d: "x \<noteq> None \<longrightarrow> dead_slots (k\<lparr>k_sched := s\<rparr>) < dead_slots k"
    using reap_dead_child_total [OF less.prems(1)] by blast
  show ?case
  proof (cases x)
    case (Some q)
    obtain st k1 where c: "reap_child (fst q) (snd q) (k\<lparr>k_sched := s\<rparr>) = (st, k1)" by (meson surj_pair)
    have p: "pend k1 = pend k" and k1: "kinv k1"
      using reap_child_inv [OF reap_dead_inv(1) [OF less.prems(1) e]] pend_more(4) c by (metis snd_conv pend_simps(1))+
    have "k_sched k1 = s" using reap_child_fields [of "fst q" "snd q" "k\<lparr>k_sched := s\<rparr>"] unfolding c by simp
    then have "dead_slots k1 < dead_slots k" using d Some by (simp add: dead_slots_def)
    then have "reap_nohang_loop me t k1 = Some (r, k') \<Longrightarrow> pend k' = pend k" using less.hyps k1 p by simp
    then show ?thesis using less.prems(2) p e Some c by (subst (asm) reap_nohang_loop.simps) (auto simp: split_beta split: if_split_asm)
  qed (use e less.prems(2) in \<open>subst (asm) reap_nohang_loop.simps, auto\<close>)
qed

lemma sys_reap_nohang_pend: "kinv k \<Longrightarrow> sys_reap_nohang a k = Some (r, k') \<Longrightarrow> pend k' = pend k"
  by (auto simp: sys_reap_nohang_def Let_def intro: reap_nohang_pend split: if_split_asm)

text \<open>A call leaves at most one request.\<close>

definition one_request :: "kernel \<Rightarrow> bool" where
  "one_request k \<longleftrightarrow> (if k_pending_wait k then k_readline_buf k = 0 \<and> k_pipe_fd k = U64_MAX else k_readline_buf k = 0 \<or> k_pipe_fd k = U64_MAX)"

lemma one_request_pend: "pend k = pend j \<Longrightarrow> one_request k = one_request j"
  by (simp add: pend_def one_request_def)

lemma quiet_pend: "pend k = pend j \<Longrightarrow> quiet k = quiet j"
  by (simp add: pend_def quiet_def)

lemma quiet_one: "quiet k \<Longrightarrow> one_request k"
  by (simp add: quiet_def one_request_def)

lemma perform_one_request:
  assumes k: "kinv k" "quiet k" and e: "perform_syscall num a0 a1 f k = Some (r, k')"
  shows "one_request k' \<and> d_executing (k_disp k') = d_executing (k_disp k)"
proof -
  have P: ?thesis if "pend k' = pend k"
    using that one_request_pend [OF that] quiet_one [OF k(2)] by (simp add: pend_def)
  consider "num = 6" | "num \<in> {3, 4, 8, 9, 11}" | "num \<in> {20, 27, 29}" | "num \<in> {0, 1, 2, 5, 7, 10, 12, 13, 14, 15, 16}"
    | "num \<in> {17, 18, 19, 21, 22, 23, 24, 25, 26, 28, 30, 32, 33}"
    | "num \<notin> {0, 1, 2, 3, 4, 5, 6, 7, 8, 9, 10, 11, 12, 13, 14, 15, 16, 17, 18, 19, 20, 21, 22, 23, 24, 25, 26, 27, 28, 29, 30, 32, 33}"
    by blast
  then show ?thesis
  proof cases
    case 1
    then have "sys_read a0 a1 f k = Some (r, k')" using e by (simp add: perform_eqs)
    then have "pend k' = pend k \<or> (\<exists>p l. k' = record_pending_pipe_read a0 p l k)"
      by (auto simp: sys_read_def Let_def split: Option.bind_split_asm if_split_asm)
    then show ?thesis using P k(2) by (auto simp: record_pending_pipe_read_def one_request_def quiet_def)
  next
    case 2
    then show ?thesis using e k(2)
      by (elim insertE emptyE; simp add: perform_eqs) (auto simp: record_pending_exec_def quiet_def one_request_def)
  next
    case 3
    then show ?thesis using e other_pend(6,7,8) by (intro P) (auto simp: perform_eqs, (metis snd_conv)+)
  next
    case 4
    then show ?thesis using e
      by (intro P; elim insertE emptyE; simp add: perform_eqs split: Option.bind_split_asm)
        (erule path_pend other_pend(1-5) | clarsimp)+
  next
    case 5
    then show ?thesis using e
      by (intro P; elim insertE emptyE; simp add: perform_eqs sys_unlink_def sys_mkdir_def sys_rmdir_def Let_def split_beta
          split: Option.bind_split_asm) (erule path_pend other_pend(1-5) sys_reap_nohang_pend [OF k(1)] | clarsimp)+
  qed (intro P, use e in \<open>simp add: perform_syscall_def\<close>)
qed

lemma exec_pend: "run_pending_exec num a0 a1 a2 f k = Some (r, f', k') \<Longrightarrow> pend k' = pend k"
proof -
  have l: "load_image elf j = Some (ok, j') \<Longrightarrow> pend j' = pend j" for elf j ok j'
    by (auto simp: load_image_def Let_def split: Option.bind_split_asm if_split_asm)
  have i: "exec_image elf f j = Some (r, f', j') \<Longrightarrow> pend j' = pend j" "exec_image_args elf argv argc f j = Some (r, f', j') \<Longrightarrow> pend j' = pend j"
    for elf argv argc f j r f' j'
    by (auto simp: exec_image_def exec_image_args_def Let_def dest: l split: Option.bind_split_asm if_split_asm prod.splits)
  have x: "exec_file path j = Some (b, j') \<Longrightarrow> pend j' = pend j" for path j b j'
    by (auto simp: exec_file_def read_exec_elf_def Let_def split: Option.bind_split_asm option.split_asm if_split_asm)
  show "run_pending_exec num a0 a1 a2 f k = Some (r, f', k') \<Longrightarrow> pend k' = pend k"
    by (auto simp: run_pending_exec_def do_exec_def do_exec_path_def do_exec_argv_def Let_def dest!: i x
        split: if_split_asm Option.bind_split_asm option.split_asm prod.splits)
qed

lemma wait_result_ok:
  assumes k: "kinv k" and e: "wait_result me target k = Some (r, k')"
  shows "kinv k' \<and> pend k' = pend k"
proof (cases "\<not> child_reapable me target (k_sched k) \<and> child_stopped me target (k_sched k)")
  case False
  then obtain x s where x: "(if target = 0 then reap_dead_child me (k_sched k) else reap_dead_pid me target (k_sched k)) = Some (x, s)"
    using e by (auto simp: wait_result_def split: Option.bind_split_asm)
  have s: "kinv (k\<lparr>k_sched := s\<rparr>)" using x reap_dead_inv [OF k] by (auto split: if_split_asm)
  have "k' = k\<lparr>k_sched := s\<rparr> \<or> (\<exists>pid pml4. k' = snd (reap_child pid pml4 (k\<lparr>k_sched := s\<rparr>)))"
    using e False x by (cases x) (auto simp: wait_result_def Let_def split_beta)
  then show ?thesis using s reap_child_inv [OF s] by auto
qed (use e k in \<open>simp add: wait_result_def\<close>)

lemma do_wait_ok:
  assumes k: "kinv k" "idle k" and e: "do_wait target f k = Some (w, k')"
  shows "step_ok w k'"
proof -
  let ?me = "current_pid (k_sched k)"
  obtain go s where b: "block_current_until (wait_ready ?me target) (k_sched k) = (go, s)" by (meson surj_pair)
  have s: "kinv (k\<lparr>k_sched := s\<rparr>)" "idle (k\<lparr>k_sched := s\<rparr>)"
    using kinv_ops(8) [OF k(1), of "wait_ready ?me target"] b idle_pend [of "k\<lparr>k_sched := s\<rparr>" k] k(2) by simp_all
  show ?thesis
  proof (cases go)
    case True
    then obtain r j where r: "wait_result ?me target (k\<lparr>k_sched := s\<rparr>) = Some (r, j)" and f: "finish_readline (f\<lparr>f_rax := r\<rparr>) j = Some (w, k')"
      using e b by (auto simp: do_wait_def split: Option.bind_split_asm)
    have j: "kinv j" "idle j" using wait_result_ok [OF s(1) r] idle_pend [of j "k\<lparr>k_sched := s\<rparr>"] s(2) by auto
    show ?thesis by (rule finish_readline_ok [OF j(1) _ _ _ _ f]) (use j(2) in \<open>auto simp: idle_quiet\<close>)
  qed (use e b step_okI [OF s] in \<open>simp add: do_wait_def\<close>)
qed

lemma finish_wait_ok:
  assumes k: "kinv k" "one_request k" "sint (k_pending_exec k) < 0" "\<not> d_executing (k_disp k)" and e: "finish_wait f k = Some (w, k')"
  shows "step_ok w k'"
proof (cases "k_pending_wait k")
  case True
  then have "idle (k\<lparr>k_pending_wait := False\<rparr>)" using k by (simp add: idle_quiet one_request_def)
  then show ?thesis using True e k(1) do_wait_ok [of "k\<lparr>k_pending_wait := False\<rparr>"] by (simp add: finish_wait_def)
next
  case False
  then show ?thesis using e k finish_readline_ok [OF k(1)] by (simp add: finish_wait_def one_request_def)
qed

lemma finish_exec_ok:
  assumes k: "kinv k" "one_request k" "\<not> d_executing (k_disp k)" and e: "finish_exec f k = Some (w, k')"
  shows "step_ok w k'"
proof (cases "0 \<le> sint (k_pending_exec k)")
  case True
  let ?k = "k\<lparr>k_pending_exec := - 1\<rparr>"
  obtain r f' j where r: "run_pending_exec (k_pending_exec k) (k_exec_a0 k) (k_exec_a1 k) (k_exec_a2 k) f ?k = Some (r, f', j)"
    and w: "finish_wait (f'\<lparr>f_rax := r\<rparr>) j = Some (w, k')"
    using e True by (auto simp: finish_exec_def split: Option.bind_split_asm)
  have p: "pend j = pend ?k" by (rule exec_pend [OF r])
  then have "one_request j" using k(2) one_request_pend [OF p] by (simp add: one_request_def)
  moreover have "kinv j" by (rule run_pending_exec_inv [OF _ r]) (use k(1) in simp)
  ultimately show ?thesis using w p k(3) by (intro finish_wait_ok [OF _ _ _ _ w]) (auto simp: pend_def)
next
  case False
  then show ?thesis using e k finish_wait_ok [OF k(1,2)] by (simp add: finish_exec_def)
qed

section \<open>Whole system calls\<close>

lemma disp_request_ok:
  assumes k: "kinv k" "idle k" and c: "from_user k" and e: "disp_request num a0 a1 f k = Some k'"
  shows "kinv k' \<and> one_request k' \<and> \<not> d_executing (k_disp k')"
proof (cases "is_known_syscall num")
  case True
  let ?k = "k\<lparr>k_disp := (k_disp k)\<lparr>d_executing := True\<rparr>\<rparr>"
  obtain r j where r: "perform_syscall num a0 a1 f ?k = Some (r, j)" and k': "k' = j\<lparr>k_disp := \<lparr>d_executing = False, d_result = r, d_is_err = False\<rparr>\<rparr>"
    using e True k(2) by (auto simp: disp_request_def disp_executing_def idle_def split: Option.bind_split_asm)
  have q: "kinv ?k" "quiet ?k" "from_user ?k" using k c by (simp_all add: idle_def quiet_def from_user_def)
  have "kinv j" by (rule perform_syscall_inv [OF q(1,3) r])
  moreover have "one_request j" using perform_one_request [OF q(1,2) r] by blast
  ultimately show ?thesis by (simp add: k' one_request_def)
next
  case False
  then show ?thesis using e k quiet_one [of k] by (auto simp: disp_request_def disp_reject_def idle_def one_request_def quiet_def split: if_splits)
qed

lemma syscall_dispatch_ok:
  assumes k: "kinv k" "idle k" and c: "from_user k" and e: "syscall_dispatch f k = Some (w, k')"
  shows "step_ok w k'"
proof (cases "f_rax f = 31")
  case True
  then show ?thesis using e step_okI [OF k] by (auto simp: syscall_dispatch_def)
next
  case False
  then obtain j where j: "disp_request (f_rax f) (f_rdi f) (f_rsi f) f k = Some j" and w: "finish_exec (f\<lparr>f_rax := d_result (k_disp j)\<rparr>) j = Some (w, k')"
    using e by (auto simp: syscall_dispatch_def split: Option.bind_split_asm)
  show ?thesis using disp_request_ok [OF k c j] by (intro finish_exec_ok [OF _ _ _ w]) auto
qed

lemma resume_syscall_ok:
  assumes k: "kinv k" "idle k" and e: "resume_syscall w k = Some (w', k')"
  shows "step_ok w' k'"
proof (cases w)
  case (WaitLine f p l)
  have "idle (k\<lparr>k_pipe_fd := U64_MAX\<rparr>)" using k(2) by (simp add: idle_quiet)
  then show ?thesis using do_read_line_ok [OF k(1)] e k(2) by (simp add: resume_syscall_def WaitLine idle_quiet)
next
  case (StoppedIn f)
  then show ?thesis using finish_signals_ok [OF k, of f] e by (auto simp: resume_syscall_def)
qed (use e step_okI [OF k] do_wait_ok [OF k] do_pipe_read_ok [OF k] in \<open>auto simp: resume_syscall_def\<close>)

end
