(* ===== verification/KernelReach.thy ===== *)
theory KernelReach
  imports SyscallInv FsInv
begin

text \<open>
  The kernel as a transition system over system calls, the timer, the console, the disk and fatal
  page faults, its invariant, and what system calls do from end to end: exit and wait, exec,
  working directories, and the paths on which a call is dropped or an exit reaches the wrong process.
\<close>

section \<open>The kernel over time\<close>

text \<open>
  A state pairs the kernel with the system calls that wait, by the slot of their process. The
  steps: the running process makes a system call or its waiting call goes on, the timer
  interrupts, the console receives a byte, the disk wakes a process, and a fatal page fault kills
  the running process. A disk transfer completes inside its call.
\<close>

type_synonym system = "kernel \<times> (nat \<rightharpoonup> outcome)"

definition waiting :: "outcome \<Rightarrow> outcome option" where
  "waiting w = (case w of Returned f \<Rightarrow> None | Exited \<Rightarrow> None | _ \<Rightarrow> Some w)"

inductive kernel_step :: "system \<Rightarrow> system \<Rightarrow> bool" where
  ks_call: "t_state (cur_tcb (k_sched k)) = Runnable \<Longrightarrow> w (k_cur k) = None \<Longrightarrow> from_user k \<Longrightarrow>
    syscall_dispatch f k = Some (out, k') \<Longrightarrow> kernel_step (k, w) (k', w(k_cur k := waiting out))"
| ks_resume: "t_state (cur_tcb (k_sched k)) = Runnable \<Longrightarrow> w (k_cur k) = Some out \<Longrightarrow>
    resume_syscall out k = Some (out', k') \<Longrightarrow> kernel_step (k, w) (k', w(k_cur k := waiting out'))"
| ks_tick: "schedule rsp (k_sched k) = Some (r, s) \<Longrightarrow> kernel_step (k, w) (k\<lparr>k_sched := s\<rparr>, w)"
| ks_key: "feed b (k_cons k, k_sched k) = (c, s) \<Longrightarrow> kernel_step (k, w) (k\<lparr>k_cons := c, k_sched := s\<rparr>, w)"
| ks_disk: "kernel_step (k, w) (k\<lparr>k_sched := wake_pid pid (k_sched k)\<rparr>, w)"
| ks_fault: "t_state (cur_tcb (k_sched k)) = Runnable \<Longrightarrow> current_pid (k_sched k) \<noteq> 0 \<Longrightarrow>
    kernel_step (k, w) (kill_current_user_process k, w(k_cur k := None))"

text \<open>The state when the first program starts: empty descriptor tables, no file open, an empty console.\<close>

definition boot_kernel :: "kernel \<Rightarrow> bool" where
  "boot_kernel k \<longleftrightarrow> length (fpu_areas (k_sched k)) = MAX_THREADS \<and> k_vfs k = VFS_init (vfs_fs (k_vfs k)) \<and> k_cons k = Console_new \<and> quiet k"

inductive kernel_reach :: "system \<Rightarrow> bool" where
  kr_boot: "boot_kernel k \<Longrightarrow> run_one_start elf (run_init k) = Some (Some pid, k') \<Longrightarrow> kernel_reach (k', Map.empty)"
| kr_step: "kernel_reach x \<Longrightarrow> kernel_step x y \<Longrightarrow> kernel_reach y"

lemma preempt_pids:
  assumes s: "sched_ok s" and e: "preempt_signal rsp s = Some s'"
  shows "map t_pid (tcbs s') = map t_pid (tcbs s)"
proof -
  let ?f = "load_frame (kmem s) (unat rsp)"
  obtain x s1 where x: "first_effect (deliverable s) s = (x, s1)" by (meson surj_pair)
  have d: "deliver_on_preempt ?f s = preempt_effect ?f (x, s1)"
    using delivery_eqs(2) [OF sched_ok_bounds(1) [OF s] sched_ok_pending [OF s], of ?f] x by simp
  have 1: "sched_ok s1" "delivery_frame s s1" using first_effect_ok [OF s, of "deliverable s"] by (simp_all add: x)
  have "map t_pid (tcbs s2) = map t_pid (tcbs s)" if "preempt_effect ?f (x, s1) = Some (b, f', s2)" for b f' s2
    using preempt_effect_ok [OF 1(1) that] delivery_frame_trans [OF 1(2)] delivery_pids by blast
  then show ?thesis using e by (auto simp: preempt_signal_def Let_def d simp del: set_map map_eq_conv split: if_split_asm Option.bind_split_asm)
qed

lemma schedule_pids:
  assumes s: "sched_ok s" and e: "schedule rsp s = Some (r, s')"
  shows "map t_pid (tcbs s') = map t_pid (tcbs s)"
proof (cases "s_active s")
  case True
  let ?s = "upd_tcb (s_current s) (\<lambda>t. t\<lparr>t_rsp := rsp\<rparr>) (s\<lparr>s_ticks := s_ticks s + 1\<rparr>)"
  have ok: "sched_ok ?s" using s by (intro sched_ok_upd) (auto simp: tcb_ok_def sched_ok_def)
  obtain s1 where s1: "preempt_signal rsp ?s = Some s1" and s': "s' = context_switch (pick_next s1) s1"
    using e True by (auto simp: schedule_def Let_def split: Option.bind_split_asm)
  show ?thesis unfolding s' using preempt_pids [OF ok s1] by (simp add: pids_upd)
qed (use e in \<open>auto simp: schedule_def Let_def\<close>)

text \<open>The steps that only change the scheduler.\<close>

lemma kernel_ok_sched:
  assumes k: "kernel_ok k" and s: "sched_ok s" and p: "map t_pid (tcbs s) = map t_pid (tcbs (k_sched k))"
  shows "kernel_ok (k\<lparr>k_sched := s\<rparr>)"
  using assms by (simp add: kernel_ok_def tables_inv_def pids_below_def quiet_def del: set_map)

lemma spawn_user_pids:
  assumes s: "sched_ok s" and e: "spawn_user pml4 ip rsp pid s = Some s'" and z: "set (map t_pid (tcbs s)) \<subseteq> {0}"
  shows "set (map t_pid (tcbs s')) \<subseteq> {0, pid}"
proof -
  obtain n s1 where a: "alloc_slot s = Some (n, s1)" using e by (auto simp: spawn_user_def split: Option.bind_split_asm)
  have n: "n < length (tcbs s1)" using alloc_slot_ok [OF s a] sched_ok_bounds(3,4) [of s1] by auto
  obtain r m v where s': "s' = (set_fpu n (fpu_clean s1) ((set_slot_cwd n [SLASH]
      (upd_tcb n (\<lambda>t. t\<lparr>t_rsp := r, t_state := Runnable, t_pml4 := pml4, t_kstack_top := kstack_top_of n s1, t_pid := pid,
        t_heap_brk := USER_HEAP_BASE\<rparr>) (s1\<lparr>kmem := m\<rparr>)))\<lparr>s_vfs := v\<rparr>))\<lparr>s_fsm := task_ready (s_fsm s1)\<rparr>"
    using spawn_user_eq [OF s a, of ip rsp pml4 pid] e by auto
  define T where "T = tcb_at s' n"
  have "tcbs s' = (tcbs s1)[n := T]" "t_pid T = pid"
    using n by (simp_all add: T_def s' set_slot_cwd_eq set_fpu_def upd_tcb_def)
  moreover have "tcbs s1 = tcbs s" using alloc_slot_ok [OF s a] by (metis sched.select_convs(1) sched.surjective sched.update_convs(2))
  ultimately show ?thesis using set_update_subset_insert [of "tcbs s" n T] z by auto
qed

lemma boot_ok:
  assumes b: "boot_kernel k" and e: "run_one_start elf (run_init k) = Some (Some pid, k')"
  shows "kernel_ok k'"
proof -
  let ?k = "run_init k"
  obtain pml4 e' m t s um where t': "spawn_checked (pt_create MAX_TABLE) = Some (pid, t)"
    and s: "spawn_user pml4 (entry_va e') (stack_top e') pid (sched_init N_SLOTS (k_sched k)) = Some s"
    and k': "k' = ?k\<lparr>k_elf := e', k_mach := m, k_procs := t, k_sched := s\<lparr>umem := um, s_active := True\<rparr>\<rparr>"
    using e by (auto simp: run_one_start_def Let_def run_init_def usermode_init_def split: Option.bind_split_asm if_split_asm prod.split_asm)
  have i: "sched_ok (sched_init N_SLOTS (k_sched k))" using b sched_init_ok [of "k_sched k" "vfs_fs (k_vfs k)"] by (simp add: boot_kernel_def)
  have t: "pt_spawn (pt_create MAX_TABLE) = (pid, t)" using t' by (simp add: spawn_checked_def pt_create_def checked_inc_def)
  have ok: "sched_ok (s\<lparr>umem := um, s_active := True\<rparr>)" using spawn_user_ok [OF i s] by (simp add: sched_ok_def)
  have "set (map t_pid (tcbs (sched_init N_SLOTS (k_sched k)))) \<subseteq> {0}"
    using set_update_subset_insert [of "replicate MAX_THREADS TCB_INIT" 0]
    by (fastforce simp: sched_init_def init_boot_def Let_def set_fpu_def TCB_INIT_def)
  then have p: "set (map t_pid (tcbs s)) \<subseteq> {0, pid}" by (rule spawn_user_pids [OF i s])
  have "pt_ok (pt_create MAX_TABLE)" by (simp add: pt_ok_def pt_create_def MAX_TABLE_def)
  then have t': "pt_ok t" "pid = 1" "next_pid t = 2"
    using spawn_refines [of "pt_create MAX_TABLE"] t by (auto simp: pt_create_def MAX_TABLE_def pt_spawn_def Let_def)
  have "cons_ok Console_new" by (simp add: cons_ok_def Console_new_def RING_CAP_def LINE_CAP_def)
  then show ?thesis using ok t' p b
    by (auto simp: k' kernel_ok_def tables_inv_def pids_below_def quiet_def boot_kernel_def run_init_def usermode_init_def)
qed

lemma kernel_step_ok: "kernel_step x y \<Longrightarrow> kernel_ok (fst x) \<Longrightarrow> kernel_ok (fst y)"
proof (induction rule: kernel_step.induct)
  case (ks_call k w f out k')
  then show ?case using syscall_dispatch_ok [of k f out k'] by (auto simp: kernel_ok_def kinv_def alive_def idle_def step_ok_def)
next
  case (ks_resume k w out out' k')
  then show ?case using resume_syscall_ok [of k out out' k'] by (auto simp: kernel_ok_def kinv_def alive_def idle_def step_ok_def)
next
  case (ks_tick rsp k r s w)
  then have "sched_ok (k_sched k)" by (simp add: kernel_ok_def tables_inv_def)
  then show ?case using schedule_keeps_ok schedule_pids ks_tick.hyps kernel_ok_sched [OF ks_tick.prems [unfolded fst_conv]] by simp
next
  case (ks_key b k c s w)
  have ok: "sched_ok (k_sched k)" "cons_ok (k_cons k)" using ks_key.prems by (auto simp: kernel_ok_def tables_inv_def)
  note F = feed_refines [OF ok(2) ks_key.hyps]
  have "kernel_ok (k\<lparr>k_sched := s\<rparr>)" using ks_key.prems F send_signal_ok [OF ok(1)] ok(1) by (intro kernel_ok_sched) (auto split: if_split_asm)
  then show ?case using F by (simp add: kernel_ok_def tables_inv_def pids_below_def quiet_def)
next
  case (ks_disk k w pid)
  then have "sched_ok (k_sched k)" by (simp add: kernel_ok_def tables_inv_def)
  then show ?case using wake_pid_ok kernel_ok_sched [OF ks_disk.prems [unfolded fst_conv]] by simp
next
  case (ks_fault k w)
  then show ?case using exit_tables(2) [of k] by (auto simp: kernel_ok_def kill_current_user_process_def quiet_def)
qed

lemma kernel_reach_ok: "kernel_reach x \<Longrightarrow> kernel_ok (fst x)"
  by (induction rule: kernel_reach.induct) (auto simp: boot_ok dest: kernel_step_ok)

text \<open>
  C5: the kernel keeps its invariant over any sequence of system calls, timer and console interrupts, disk
  wake-ups and fatal faults from the start of the first program, as long as it does not panic (it
  can: when the pid counter overflows, on a signal handler without stack room, or in the file
  system). The thread table, the descriptor tables with the pipe counts (each count is the number of
  descriptors plus the references leaked by \<open>dup\<close> on a full table), the process table and the console
  stay well formed, every pid in use is below the next one, the dispatcher is idle whenever a process
  runs, and no deferred exec, wait, line or pipe request of one call is ever left for another. (A disk
  transfer completes inside its call here; see the finding on calls that arrive meanwhile.)
\<close>
theorem kernel_invariant:
  assumes "kernel_reach (k, w)"
  shows "kernel_ok k"
  using kernel_reach_ok [OF assms] by simp

section \<open>A running kernel\<close>

definition demo_kernel :: kernel where
  "demo_kernel = \<lparr>k_sched = boot_sched, k_mach = room_machine, k_procs = pt_create 0, k_cons = Console_new,
     k_elf = \<lparr>el_bytes = [], el_pml4 = 0, el_entry = 0, el_stack_top = 0, el_mapped = []\<rparr>,
     k_disp = \<lparr>d_executing = True, d_result = 0, d_is_err = False\<rparr>, k_pending_exit = - 1, k_pending_wait = False, k_pending_wait_pid = 0,
     k_readline_buf = 0, k_readline_len = 0, k_pipe_fd = U64_MAX, k_pipe_buf = 0, k_pipe_len = 0, k_pending_exec = - 1, k_exec_a0 = 0,
     k_exec_a1 = 0, k_exec_a2 = 0, k_user_elf = tiny_elf, k_cmos = (\<lambda>_ _. 0), k_cmos_t = 0, k_heap_room = (\<lambda>_. True)\<rparr>"

lemma demo_boot: "boot_kernel demo_kernel"
  by (simp add: boot_kernel_def demo_kernel_def boot_sched_def sched_init_def init_boot_def Let_def set_fpu_def MAX_THREADS_def quiet_def VFS_init_def)

lemma demo_mmu: "mmu (run_init demo_kernel) = room_machine"
  by (simp add: mmu_def run_init_def usermode_init_def demo_kernel_def boot_sched_def sched_init_def init_boot_def Let_def set_fpu_def room_machine_def)

lemma tiny_room: "4 * (sum_list (map seg_pages (loads tiny_elf tiny_header [0..<unat (h_phnum tiny_header)])) + 33) + 1 \<le> free_left room_machine"
  using room_machine_facts(3) by (simp add: tiny_loads seg_pages_def)

text \<open>The tiny program starts as process 1 in slot 1.\<close>

lemma demo_start:
  "\<exists>k. run_one_start tiny_elf (run_init demo_kernel) = Some (Some 1, k) \<and> s_n (k_sched k) = 2 \<and> s_current (k_sched k) = 0
     \<and> t_state (tcb_at (k_sched k) 1) = Runnable \<and> t_pid (tcb_at (k_sched k) 1) = 1 \<and> t_sig_pending (tcb_at (k_sched k) 1) = 0
     \<and> t_pid (tcb_at (k_sched k) 0) = 0 \<and> s_active (k_sched k) \<and> k_pending_exit k = - 1"
proof -
  let ?k = "run_init demo_kernel"
  have p: "pages_ok room_machine (current_pml4 room_machine)" using room_machine_facts(1,2) by simp
  obtain root s0 e' m where n: "new_space room_machine = Some (root, s0)"
    and l: "ElfLoader_create (prepare tiny_elf root (k_elf ?k)) s0 = Some (LDone, e', m)"
    using elf_load_spec [OF p tiny_valid_elf tiny_room, of "k_elf ?k"] by blast
  obtain t where t: "spawn_checked (k_procs ?k) = Some (1, t)"
    by (simp add: run_init_def spawn_checked_def checked_inc_def pt_spawn_def pt_create_def Let_def)
  let ?s = "sched_init N_SLOTS (k_sched ?k)"
  have i: "sched_ok ?s" using demo_boot sched_init_ok [of "k_sched demo_kernel" "vfs_fs (k_vfs demo_kernel)"]
    by (simp add: boot_kernel_def run_init_def usermode_init_def)
  have f: "s_n ?s = 1" "s_current ?s = 0" "length (tcbs ?s) = 8" "tcb_at ?s 0 = TCB_INIT\<lparr>t_state := Runnable\<rparr>"
    by (simp_all add: sched_init_def init_boot_def Let_def set_fpu_def MAX_THREADS_def)
  have a: "alloc_slot ?s = Some (1, ?s\<lparr>s_n := 2\<rparr>)" using f by (simp add: alloc_slot_def MAX_THREADS_def numeral_2_eq_2)
  obtain s where s: "spawn_user root (entry_va e') (stack_top e') 1 ?s = Some s" and
    "s_n s = 2" "s_current s = 0" "t_state (tcb_at s 1) = Runnable" "t_pid (tcb_at s 1) = 1" "tcb_at s 0 = tcb_at ?s 0"
    "t_sig_pending (tcb_at s 1) = 0"
    using spawn_user_eq [OF i a, of "entry_va e'" "stack_top e'" root 1] f alloc_slot_ok [OF i a]
    by (auto simp: set_slot_cwd_eq set_fpu_def upd_tcb_def TCB_INIT_def)
  moreover have "k_pending_exit ?k = - 1" by (simp add: run_init_def usermode_init_def demo_kernel_def)
  ultimately show ?thesis using n l f(4)
    by (subst run_one_start_def) (simp add: demo_mmu is_failed_def Let_def split_beta t TCB_INIT_def)
qed

lemma demo_running:
  "\<exists>k. kernel_reach (k, Map.empty) \<and> k_cur k = 1 \<and> t_state (cur_tcb (k_sched k)) = Runnable \<and> current_pid (k_sched k) = 1
     \<and> t_sig_pending (cur_tcb (k_sched k)) = 0 \<and> k_pending_exit k = - 1"
proof -
  obtain k where r: "run_one_start tiny_elf (run_init demo_kernel) = Some (Some 1, k)" and n: "s_n (k_sched k) = 2" "s_current (k_sched k) = 0"
    and t: "t_state (tcb_at (k_sched k) 1) = Runnable" "t_pid (tcb_at (k_sched k) 1) = 1" "t_sig_pending (tcb_at (k_sched k) 1) = 0"
    and z: "t_pid (tcb_at (k_sched k) 0) = 0" "s_active (k_sched k)" and x: "k_pending_exit k = - 1"
    using demo_start by blast
  have reach: "kernel_reach (k, Map.empty)" by (rule kr_boot [OF demo_boot r])
  have l: "0 < length (tcbs (k_sched k))"
    using boot_ok [OF demo_boot r] sched_ok_bounds(4) by (fastforce simp: kernel_ok_def tables_inv_def MAX_THREADS_def)
  let ?s = "upd_tcb 0 (\<lambda>t. t\<lparr>t_rsp := 0\<rparr>) ((k_sched k)\<lparr>s_ticks := s_ticks (k_sched k) + 1\<rparr>)"
  have at: "tcb_at ?s 1 = tcb_at (k_sched k) 1" "t_pid (tcb_at ?s 0) = 0" using z(1) l by (auto simp: upd_tcb_def nth_list_update)
  have "preempt_signal 0 ?s = Some ?s" using at n by (simp add: preempt_signal_def)
  moreover have "pick_next ?s = 1" using n t(1) at by (simp add: pick_next_def upt_rec)
  ultimately obtain r where s: "schedule 0 (k_sched k) = Some (r, context_switch 1 ?s)" using z(2) n by (simp add: schedule_def Let_def)
  have "kernel_reach (k\<lparr>k_sched := context_switch 1 ?s\<rparr>, Map.empty)" by (rule kr_step [OF reach ks_tick [OF s]])
  then show ?thesis using t x at by (intro exI [of _ "k\<lparr>k_sched := context_switch 1 ?s\<rparr>"]) (simp add: current_pid_def)
qed

theorem kernel_invariant_witness: "\<exists>k w. kernel_reach (k, w) \<and> k_cur k = 1 \<and> kernel_ok k"
  using demo_running kernel_invariant by blast

section \<open>Calls without signals or requests\<close>

lemma deliver_none:
  assumes s: "sched_ok s" and d: "deliverable s = []"
  shows "maybe_deliver_signal f s = Some (Resume f, s)"
  using delivery_eqs(1) [OF sched_ok_bounds(1) [OF s] sched_ok_pending [OF s]] d by (simp add: apply_effect_def)

lemma pending_none: "t_sig_pending (cur_tcb s) = 0 \<Longrightarrow> deliverable s = []"
  by (simp add: deliverable_def deliverable_bits_def)

lemma finish_calm:
  assumes k: "kinv k" "idle k" and d: "deliverable (k_sched k) = []"
  shows "finish_exec f k = finish_exit f k"
proof -
  have "k\<lparr>k_sched := k_sched k\<rparr> = k" by simp
  then show ?thesis using k(2) deliver_none [OF kinvD(1) [OF k(1)] d]
    by (simp add: finish_exec_def finish_wait_def finish_readline_def finish_pipe_def finish_signals_def idle_quiet)
qed

text \<open>A call that leaves no request, with no signal to deliver, ends with the exit test.\<close>

lemma call_calm:
  assumes k: "kinv k" "idle k" and c: "from_user k" and n: "f_rax f \<noteq> 31"
    and r: "disp_request (f_rax f) (f_rdi f) (f_rsi f) f k = Some j" and i: "quiet j" and d: "deliverable (k_sched j) = []"
  shows "syscall_dispatch f k = finish_exit (f\<lparr>f_rax := d_result (k_disp j)\<rparr>) j"
proof -
  have j: "kinv j" "idle j" using disp_request_ok [OF k c r] i by (auto simp: idle_def)
  show ?thesis using n r finish_calm [OF j d] by (simp add: syscall_dispatch_def)
qed

lemma disp_request_idle:
  "\<not> d_executing (k_disp k) \<Longrightarrow> num \<le> 33 \<Longrightarrow> disp_request num a0 a1 f k = (case perform_syscall num a0 a1 f (k\<lparr>k_disp := (k_disp k)\<lparr>d_executing := True\<rparr>\<rparr>) of
     None \<Rightarrow> None | Some (r, j) \<Rightarrow> Some (j\<lparr>k_disp := \<lparr>d_executing = False, d_result = r, d_is_err = False\<rparr>\<rparr>))"
  by (auto simp: disp_request_def is_known_syscall_def disp_executing_def split: option.split)

text \<open>The reaction of the dispatcher, for the result \<open>r\<close> of a call.\<close>

abbreviation answered :: "u64 \<Rightarrow> kernel \<Rightarrow> kernel" where
  "answered r k \<equiv> k\<lparr>k_disp := \<lparr>d_executing = False, d_result = r, d_is_err = False\<rparr>\<rparr>"

lemma kernel_ok_kinv: "kernel_ok k \<Longrightarrow> t_state (cur_tcb (k_sched k)) = Runnable \<Longrightarrow> kinv k \<and> idle k"
  by (simp add: kernel_ok_def kinv_def alive_def idle_def)

lemma reach_kinv: "kernel_reach (k, w) \<Longrightarrow> t_state (cur_tcb (k_sched k)) = Runnable \<Longrightarrow> kinv k \<and> idle k"
  using kernel_reach_ok kernel_ok_kinv by fastforce

section \<open>Exit\<close>

lemma exit_call:
  assumes k: "kinv k" "idle k" and f: "f_rax f = 1" and d: "first_effect (deliverable (k_sched k)) (k_sched k) = (x, s)"
  shows "syscall_dispatch f k = (let k' = answered 0 (k\<lparr>k_pending_exit := f_rdi f\<rparr>); f' = f\<lparr>f_rax := 0\<rparr> in
     case apply_effect f' (x, s) of
       None \<Rightarrow> None
     | Some (Resume g, s') \<Rightarrow> finish_exit g (k'\<lparr>k_sched := s'\<rparr>)
     | Some (ExitWith code, s') \<Rightarrow> Some (Exited, do_exit code (k'\<lparr>k_sched := s'\<rparr>))
     | Some (Park g, s') \<Rightarrow> Some (StoppedIn g, k'\<lparr>k_sched := s'\<rparr>))"
proof -
  let ?k = "answered 0 (k\<lparr>k_pending_exit := f_rdi f\<rparr>)"
  have "disp_request 1 (f_rdi f) (f_rsi f) f k = Some ?k"
    using k(2) by (simp add: disp_request_idle idle_def perform_eqs)
  moreover have "maybe_deliver_signal g (k_sched k) = apply_effect g (x, s)" for g
    using delivery_eqs(1) [OF sched_ok_bounds(1) sched_ok_pending, OF kinvD(1) kinvD(1), OF k(1) k(1)] d by simp
  ultimately show ?thesis using k(2) f
    by (auto simp: syscall_dispatch_def finish_exec_def finish_wait_def finish_readline_def finish_pipe_def finish_signals_def idle_quiet Let_def
        split: option.split prod.split delivery.split)
qed

lemma wait_reaps:
  assumes k: "kinv k" and r: "find_slot (\<lambda>t. t_parent_pid t = me \<and> t_pid t = pid \<and> t_state t = RDead) [1..<s_n (k_sched k)] (tcbs (k_sched k)) = Some c"
    and n: "child_reapable me pid (k_sched k)" "pid \<noteq> 0"
  shows "\<exists>v m. wait_result me pid k = Some (scast (fst (reap_pid pid (k_procs k))),
     k\<lparr>k_sched := upd_tcb c (\<lambda>_. TCB_INIT) ((k_sched k)\<lparr>s_vfs := v\<rparr>), k_procs := snd (reap_pid pid (k_procs k)), k_mach := m\<rparr>)"
proof -
  let ?s = "k_sched k"
  note B = sched_ok_bounds [OF kinvD(1) [OF k]]
  have c: "c < s_n ?s" "t_pid (tcb_at ?s c) = pid" using find_slot_Some [OF r] by auto
  then have "c < MAX_PROCS" using B(3) by (simp add: max_threads_procs)
  then obtain v where v: "clear_fds c (s_vfs ?s) = Some v" using clear_fds_ok [OF B(5)] by blast
  then have "reap_dead_pid me pid ?s = Some (Some (pid, t_pml4 (tcb_at ?s c)), upd_tcb c (\<lambda>_. TCB_INIT) (?s\<lparr>s_vfs := v\<rparr>))"
    unfolding reap_dead_pid_def r reap_slot_def using c by simp
  then show ?thesis using n by (auto simp: wait_result_def reap_child_def Let_def split_beta)
qed

lemma exit_ends:
  assumes k: "kinv k" "idle k" and f: "f_rax f = 1" "0 \<le> sint (f_rdi f)" and d: "deliverable (k_sched k) = []"
  shows "syscall_dispatch f k = Some (Exited, do_exit (ucast (f_rdi f)) ((answered 0 k)\<lparr>k_pending_exit := - 1\<rparr>))"
  using exit_call [OF k f(1), of None "k_sched k"] d f(2) by (simp add: apply_effect_def finish_exit_def)

lemma wait_returns:
  assumes k: "kinv k" "idle k" and x: "sint (k_pending_exit k) < 0" and me: "current_pid (k_sched k) = me"
    and r: "find_slot (\<lambda>t. t_parent_pid t = me \<and> t_pid t = pid \<and> t_state t = RDead) [1..<s_n (k_sched k)] (tcbs (k_sched k)) = Some c"
    and n: "child_reapable me pid (k_sched k)" "pid \<noteq> 0" and z: "t_sig_pending (cur_tcb (k_sched k)) = 0"
  shows "\<exists>k'. do_wait pid g k = Some (Returned (g\<lparr>f_rax := scast (fst (reap_pid pid (k_procs k)))\<rparr>), k')
     \<and> k_procs k' = snd (reap_pid pid (k_procs k)) \<and> tcb_at (k_sched k') c = TCB_INIT"
proof -
  let ?s = "k_sched k"
  obtain v m where wr: "wait_result me pid k = Some (scast (fst (reap_pid pid (k_procs k))),
     k\<lparr>k_sched := upd_tcb c (\<lambda>_. TCB_INIT) (?s\<lparr>s_vfs := v\<rparr>), k_procs := snd (reap_pid pid (k_procs k)), k_mach := m\<rparr>)"
    using wait_reaps [OF k(1) r n] by blast
  define j where "j = k\<lparr>k_sched := upd_tcb c (\<lambda>_. TCB_INIT) (?s\<lparr>s_vfs := v\<rparr>), k_procs := snd (reap_pid pid (k_procs k)), k_mach := m\<rparr>"
  have "kinv j" "pend j = pend k" using wait_result_ok [OF k(1) wr [folded j_def]] by auto
  then have j: "kinv j" "idle j" using k(2) idle_pend [of j k] by auto
  have c: "c \<noteq> s_current ?s" "c < length (tcbs ?s)"
    using find_slot_Some [OF r] kinvD(6) [OF k(1)] sched_ok_bounds(3,4) [OF kinvD(1) [OF k(1)]] by auto
  then have "deliverable (k_sched j) = []" using z by (intro pending_none) (simp add: j_def upd_tcb_def)
  then have "finish_exec h j = finish_exit h j" for h by (rule finish_calm [OF j])
  then have "finish_readline h j = Some (Returned h, j)" for h
    using j(2) x by (simp add: finish_exec_def finish_wait_def idle_quiet finish_exit_def j_def)
  moreover have "block_current_until (wait_ready me pid) ?s = (True, ?s)" using n by (simp add: block_current_until_def wait_ready_def)
  moreover have "k\<lparr>k_sched := ?s\<rparr> = k" by simp
  ultimately have "do_wait pid g k = Some (Returned (g\<lparr>f_rax := scast (fst (reap_pid pid (k_procs k)))\<rparr>), j)"
    using wr [folded j_def] me by (simp add: do_wait_def)
  moreover have "tcb_at (k_sched j) c = TCB_INIT" using c by (simp add: j_def upd_tcb_def)
  ultimately show ?thesis by (intro exI [of _ j]) (simp add: j_def)
qed

lemma parent_wait_returns:
  assumes s: "sched_ok (k_sched k)" and d: "pids_distinct (k_sched k)"
    and c: "k_cur k = c" "c \<noteq> 0" "t_pid (tcb_at (k_sched k) c) = pid" "pid \<noteq> 0"
    and q: "t_parent_pid (tcb_at (k_sched k) c) = q" "q \<noteq> 0" "j < s_n (k_sched k)" "j \<noteq> c" "t_pid (tcb_at (k_sched k) j) = q"
      "t_state (tcb_at (k_sched k) j) = RBlocked"
    and z: "t_sig_pending (tcb_at (k_sched k) j) = 0"
    and k1: "k_sched k1 = exit_current (k_sched k)" "tables_inv k1" "idle k1" "sint (k_pending_exit k1) < 0"
  shows "t_state (tcb_at (k_sched k1) j) = Runnable \<and> t_state (tcb_at (k_sched k1) c) = RDead
     \<and> (\<exists>k2. resume_syscall (WaitChild g pid) (k1\<lparr>k_sched := context_switch j (k_sched k1)\<rparr>)
            = Some (Returned (g\<lparr>f_rax := scast (fst (reap_pid pid (k_procs k1)))\<rparr>), k2)
         \<and> k_procs k2 = snd (reap_pid pid (k_procs k1)) \<and> tcb_at (k_sched k2) c = TCB_INIT)"
proof -
  let ?s = "k_sched k"
  note W = exit_wakes_parent [OF s d c q]
  have len: "c < length (tcbs ?s)" "j < length (tcbs ?s)" using sched_ok_bounds [OF s] c q by auto
  have at: "tcb_at (exit_current ?s) j = (tcb_at ?s j)\<lparr>t_state := Runnable\<rparr>" "tcb_at (exit_current ?s) c = (tcb_at ?s c)\<lparr>t_state := RDead\<rparr>"
    unfolding W(1) using len q by simp_all
  let ?s2 = "context_switch j (exit_current ?s)"
  define k2 where "k2 = k1\<lparr>k_sched := ?s2\<rparr>"
  have "sched_ok ?s2" using exit_current_ok [OF s] by (intro context_switch_ok) (use q W at in auto)
  then have kinv2: "kinv k2" using k1 at by (simp add: k2_def kinv_def tables_inv_def pids_below_def alive_def)
  have idle2: "idle k2" using k1(3) idle_pend [of k2 k1] by (simp add: k2_def)
  have "\<exists>k'. do_wait pid g k2 = Some (Returned (g\<lparr>f_rax := scast (fst (reap_pid pid (k_procs k2)))\<rparr>), k')
     \<and> k_procs k' = snd (reap_pid pid (k_procs k2)) \<and> tcb_at (k_sched k') c = TCB_INIT"
    by (rule wait_returns [OF kinv2 idle2, of q]) (use W at q z k1(4) c(4) in \<open>simp_all add: k2_def current_pid_def child_reapable_def\<close>)
  then show ?thesis using at k1(1) by (simp add: resume_syscall_def k2_def)
qed

text \<open>
  C7: the status of a process reaches its parent. When a process with no signal to take calls exit
  with a code that is not negative, its parent waits for it with no signal pending either, and no two
  processes share a pid, the process becomes a zombie and the parent runnable; when the parent runs again its wait returns the code, sign-extended from 32
  bits, and the process is gone from the process table and from the thread table.
\<close>
theorem exit_status_reaches_parent:
  assumes ok: "kernel_ok k" and d: "pids_distinct (k_sched k)"
    and c: "k_cur k = c" "c \<noteq> 0" "t_state (tcb_at (k_sched k) c) = Runnable" "t_pid (tcb_at (k_sched k) c) = pid" "pid \<noteq> 0"
    and q: "t_parent_pid (tcb_at (k_sched k) c) = q" "q \<noteq> 0" "j < s_n (k_sched k)" "j \<noteq> c" "t_pid (tcb_at (k_sched k) j) = q"
      "t_state (tcb_at (k_sched k) j) = RBlocked"
    and z: "t_sig_pending (tcb_at (k_sched k) c) = 0" "t_sig_pending (tcb_at (k_sched k) j) = 0"
    and pt: "pmap (k_procs k) pid = Some (PReady, x)" "next_pid (k_procs k) \<noteq> - 1" and f: "f_rax f = 1" "0 \<le> sint (f_rdi f)"
  shows "\<exists>k1 k2. syscall_dispatch f k = Some (Exited, k1) \<and> t_state (tcb_at (k_sched k1) j) = Runnable \<and> t_state (tcb_at (k_sched k1) c) = RDead
     \<and> resume_syscall (WaitChild g pid) (k1\<lparr>k_sched := context_switch j (k_sched k1)\<rparr>)
         = Some (Returned (g\<lparr>f_rax := scast (ucast (f_rdi f) :: u32)\<rparr>), k2)
     \<and> pmap (k_procs k2) pid = None \<and> tcb_at (k_sched k2) c = TCB_INIT"
proof -
  let ?code = "ucast (f_rdi f) :: u32"
  have k: "kinv k" "idle k" using kernel_ok_kinv [OF ok] c by auto
  note D = kinvD [OF k(1)]
  have "deliverable (k_sched k) = []" using z c by (intro pending_none) simp
  note call = exit_ends [OF k f this]
  define k1 where "k1 = do_exit ?code ((answered 0 k)\<lparr>k_pending_exit := - 1\<rparr>)"
  have k1: "k_sched k1 = exit_current (k_sched k)" "k_procs k1 = exit_pid pid ?code (k_procs k)" "sint (k_pending_exit k1) < 0" "idle k1"
    using c k(2) by (simp_all add: k1_def do_exit_def current_pid_def idle_quiet)
  have "tables_inv ((answered 0 k)\<lparr>k_pending_exit := - 1\<rparr>)" using k(1) by (simp add: kinv_def tables_inv_def pids_below_def)
  then have "tables_inv k1" unfolding k1_def by (rule exit_tables)
  note R = parent_wait_returns [OF D(1) d c(1,2,4,5) q z(2) k1(1) this k1(4,3), of g]
  have "pt_ok (k_procs k)" "next_pid (k_procs k) \<noteq> 0" using D(5,7) by (auto simp: pids_below_def)
  note E = exit_then_reap [OF this pt(2,1), of ?code]
  show ?thesis using call [folded k1_def] R E unfolding k1(2) by auto
qed

text \<open>A parent with pid 1 in slot 1 that waits, and its child with pid 2 in slot 2, which runs.\<close>

definition proc_tcb :: "u32 \<Rightarrow> u32 \<Rightarrow> run_state \<Rightarrow> u32 \<Rightarrow> tcb" where
  "proc_tcb pid parent st pending = TCB_INIT\<lparr>t_pid := pid, t_parent_pid := parent, t_state := st, t_sig_pending := pending, t_pml4 := 0x1000\<rparr>"

definition duo_sched :: "run_state \<Rightarrow> u32 \<Rightarrow> sched" where
  "duo_sched st pending = boot_sched\<lparr>tcbs := [TCB_INIT\<lparr>t_state := Runnable\<rparr>, proc_tcb 1 0 st 0, proc_tcb 2 1 Runnable pending] @ replicate 5 TCB_INIT,
     s_n := 3, s_current := 2\<rparr>"

definition duo_kernel :: "run_state \<Rightarrow> u32 \<Rightarrow> kernel" where
  "duo_kernel st pending = (run_init demo_kernel)\<lparr>k_sched := duo_sched st pending,
     k_procs := \<lparr>pt_st = HasCapacity, procs = [\<lparr>p_st = PReady, p_pid = 1, p_exit_code = 0\<rparr>, \<lparr>p_st = PReady, p_pid = 2, p_exit_code = 0\<rparr>],
       next_pid = 3, capacity = 64\<rparr>\<rparr>"

lemma duo_fields [simp]:
  "k_sched (duo_kernel st p) = duo_sched st p" "s_current (duo_sched st p) = 2" "s_n (duo_sched st p) = 3" "tcb_at (duo_sched st p) 2 = proc_tcb 2 1 Runnable p"
  "tcb_at (duo_sched st p) (Suc 0) = proc_tcb 1 0 st 0" "tcb_at (duo_sched st p) 0 = TCB_INIT\<lparr>t_state := Runnable\<rparr>" "k_pending_exit (duo_kernel st p) = - 1"
  "length (tcbs (duo_sched st p)) = 8" "next_pid (k_procs (duo_kernel st p)) = 3"
  by (simp_all add: duo_kernel_def duo_sched_def run_init_def usermode_init_def demo_kernel_def)

lemma proc_tcb_fields [simp]:
  "t_pid (proc_tcb pid parent st p) = pid" "t_parent_pid (proc_tcb pid parent st p) = parent" "t_state (proc_tcb pid parent st p) = st"
  "t_sig_pending (proc_tcb pid parent st p) = p" "t_sig_blocked (proc_tcb pid parent st p) = 0" "t_sig_handlers (proc_tcb pid parent st p) = replicate NSIG 0"
  by (simp_all add: proc_tcb_def TCB_INIT_def)

lemma duo_ok:
  assumes st: "st \<noteq> RFree" and p: "\<not> bit p 0"
  shows "kernel_ok (duo_kernel st p)"
proof -
  have t: "tcb_ok (proc_tcb 1 0 st 0)" "tcb_ok (proc_tcb 2 1 Runnable p)" "tcb_ok (TCB_INIT\<lparr>t_state := Runnable\<rparr>)" "tcb_ok TCB_INIT"
    using st p by (simp_all add: tcb_ok_def proc_tcb_def TCB_INIT_def)
  have v: "vfs_ok (s_vfs boot_sched)" "length (fpu_areas boot_sched) = 8"
    using vfs_ok_init by (simp_all add: boot_sched_def sched_init_def init_boot_def Let_def set_fpu_def)
  have "tcb_at (duo_sched st p) i = TCB_INIT" if "3 \<le> i" "i < 8" for i
  proof -
    have "i \<in> {3, 4, 5, 6, 7}" using that by auto
    then show ?thesis by (auto simp: duo_sched_def)
  qed
  then have s: "sched_ok (duo_sched st p)" using t v by (simp add: sched_ok_def MAX_THREADS_def) (auto simp: duo_sched_def)
  have "pt_ok (k_procs (duo_kernel st p))" by (simp add: duo_kernel_def pt_ok_def)
  moreover have "pids_below (duo_kernel st p)" by (simp add: pids_below_def) (auto simp: duo_sched_def TCB_INIT_def)
  moreover have "cons_ok (k_cons (duo_kernel st p))"
    by (simp add: duo_kernel_def run_init_def usermode_init_def demo_kernel_def cons_ok_def Console_new_def RING_CAP_def LINE_CAP_def)
  ultimately show ?thesis using s
    by (simp add: kernel_ok_def tables_inv_def) (simp add: quiet_def duo_kernel_def run_init_def usermode_init_def demo_kernel_def)
qed

lemma duo_distinct: "pids_distinct (duo_sched st p)"
proof -
  have "i = j" if "i < 3" "j < 3" "t_pid (tcb_at (duo_sched st p) i) \<noteq> 0" "t_pid (tcb_at (duo_sched st p) i) = t_pid (tcb_at (duo_sched st p) j)" for i j
  proof -
    have "i = 0 \<or> i = 1 \<or> i = 2" "j = 0 \<or> j = 1 \<or> j = 2" using that(1,2) by auto
    then show ?thesis using that(3,4) by (auto simp: TCB_INIT_def)
  qed
  then show ?thesis unfolding pids_distinct_def duo_fields by blast
qed

theorem exit_status_reaches_parent_witness:
  "\<exists>k1 k2. syscall_dispatch (user_frame\<lparr>f_rax := 1, f_rdi := 42\<rparr>) (duo_kernel RBlocked 0) = Some (Exited, k1)
     \<and> resume_syscall (WaitChild user_frame 2) (k1\<lparr>k_sched := context_switch 1 (k_sched k1)\<rparr>) = Some (Returned (user_frame\<lparr>f_rax := 42\<rparr>), k2)
     \<and> pmap (k_procs k2) 2 = None"
proof -
  have "pmap (k_procs (duo_kernel RBlocked 0)) 2 = Some (PReady, 0)" by (simp add: duo_kernel_def pmap_def)
  moreover have "scast (ucast (42 :: u64) :: u32) = (42 :: u64)" "(0 :: int) \<le> sint (42 :: u64)" by simp_all
  ultimately show ?thesis
    using exit_status_reaches_parent [OF duo_ok, of RBlocked 0 2 2 1 1 0 "user_frame\<lparr>f_rax := 1, f_rdi := 42\<rparr>" user_frame] duo_distinct by auto
qed

section \<open>Exit codes that get lost or go astray\<close>

lemma first_effect_other: "j \<noteq> s_current s \<Longrightarrow> tcb_at (snd (first_effect ns s)) j = tcb_at s j"
proof (induction ns arbitrary: s)
  case (Cons n ns)
  have "s_current (drop_pending n s) = s_current s" "tcb_at (drop_pending n s) j = tcb_at s j"
    using Cons.prems by (simp_all add: drop_pending_def upd_tcb_def)
  then show ?case using Cons.IH [of "drop_pending n s"] Cons.prems by (simp add: Let_def)
qed simp

lemma wake_pid_other: "t_state (tcb_at s j) \<noteq> RBlocked \<Longrightarrow> tcb_at (wake_pid p s) j = tcb_at s j"
proof (cases "find_slot (\<lambda>t. t_pid t = p \<and> t_state t = RBlocked) [0..<s_n s] (tcbs s)")
  case (Some i)
  assume "t_state (tcb_at s j) \<noteq> RBlocked"
  then have "i \<noteq> j" using find_slot_Some [OF Some] by auto
  then show ?thesis by (simp add: wake_pid_def Some upd_tcb_def)
qed (simp add: wake_pid_def)

lemma exit_current_other:
  assumes "j \<noteq> s_current s" and "t_state (tcb_at s j) = Runnable"
  shows "tcb_at (exit_current s) j = tcb_at s j" and "s_current (exit_current s) = s_current s" and "s_n (exit_current s) = s_n s"
proof -
  let ?s = "(upd_tcb (s_current s) (\<lambda>t. t\<lparr>t_state := RDead\<rparr>) s)\<lparr>s_fsm := task_unready (s_fsm s)\<rparr>"
  have j: "tcb_at ?s j = tcb_at s j" using assms(1) by (simp add: upd_tcb_def)
  then have "tcb_at (wake_pid p ?s) j = tcb_at s j" for p using wake_pid_other [of ?s j p] assms(2) by simp
  then show "tcb_at (exit_current s) j = tcb_at s j" using j by (simp add: exit_current_def Let_def)
  show "s_current (exit_current s) = s_current s" "s_n (exit_current s) = s_n s"
    by (simp_all add: exit_current_def Let_def wake_pid_def split: option.split)
qed

lemma write_char_call:
  assumes k: "kinv k" "idle k" and u: "current_pid (k_sched k) \<noteq> 0" and d: "deliverable (k_sched k) = []" and g: "f_rax g = 0"
  shows "\<exists>j. syscall_dispatch g k = finish_exit (g\<lparr>f_rax := 1\<rparr>) j \<and> k_pending_exit j = k_pending_exit k \<and> k_procs j = k_procs k
     \<and> current_pid (k_sched j) = current_pid (k_sched k)"
proof -
  define j where "j = answered 1 (set_vfs (k_vfs k\<lparr>console := console (k_vfs k) @ [ucast (f_rdi g)]\<rparr>) (k\<lparr>k_disp := (k_disp k)\<lparr>d_executing := True\<rparr>\<rparr>))"
  have r: "disp_request (f_rax g) (f_rdi g) (f_rsi g) g k = Some j"
    using k(2) g by (simp add: disp_request_idle idle_def perform_eqs j_def)
  have j: "quiet j" "k_sched j = (k_sched k)\<lparr>s_vfs := k_vfs k\<lparr>console := console (k_vfs k) @ [ucast (f_rdi g)]\<rparr>\<rparr>"
    using k(2) by (simp_all add: j_def quiet_def idle_def set_vfs_def upd_sched_def)
  moreover from this(2) have "deliverable (k_sched j) = []" using d by (simp add: deliverable_def deliverable_bits_def)
  moreover have "from_user k" using u g by (simp add: from_user_def)
  ultimately have "syscall_dispatch g k = finish_exit (g\<lparr>f_rax := d_result (k_disp j)\<rparr>) j"
    using g by (intro call_calm [OF k _ _ r]) simp_all
  then show ?thesis using j(2) by (intro exI [of _ j]) (simp add: j_def set_vfs_def upd_sched_def current_pid_def)
qed

text \<open>
  C38: an exit interrupted by a fatal signal kills another process. When a process calls exit while
  a signal whose action is to terminate is deliverable, it ends with the status of the signal, and
  the code of its own exit stays recorded in the kernel. The next process that completes any
  system call, here one that writes a character, exits with that code although it never called exit.
\<close>
theorem exit_signal_poisons:
  assumes ok: "kernel_ok k" and c: "t_state (cur_tcb (k_sched k)) = Runnable" and f: "f_rax f = 1" "0 \<le> sint (f_rdi f)"
    and d: "first_effect (deliverable (k_sched k)) (k_sched k) = (Some (sig, Terminate), s)"
    and j: "j < s_n (k_sched k)" "j \<noteq> k_cur k" "tcb_at (k_sched k) j = t" "t_state t = Runnable" "t_pid t \<noteq> 0" "t_sig_pending t = 0"
    and g: "f_rax g = 0"
  shows "\<exists>k1 k2. syscall_dispatch f k = Some (Exited, k1) \<and> k_procs k1 = exit_pid (current_pid (k_sched k)) (128 + sig) (k_procs k)
     \<and> syscall_dispatch g (k1\<lparr>k_sched := context_switch j (k_sched k1)\<rparr>) = Some (Exited, k2)
     \<and> k_procs k2 = exit_pid (t_pid t) (ucast (f_rdi f)) (k_procs k1)"
proof -
  let ?s = "k_sched k"
  have k: "kinv k" "idle k" using kernel_ok_kinv [OF ok c] by auto
  have s: "sched_ok s" "delivery_frame ?s s" "tcb_at s j = t"
    using first_effect_ok [OF kinvD(1) [OF k(1)], of "deliverable ?s"] first_effect_other [OF j(2), of "deliverable ?s"] d j(3) by simp_all
  note F = delivery_frame_fields [OF s(2)]
  have pid: "current_pid s = current_pid ?s"
    using delivery_pids [OF s(2)] F(2,3) sched_ok_bounds(1) [OF kinvD(1) [OF k(1)]] by (metis current_pid_def nth_map)
  define k0 where "k0 = (answered 0 (k\<lparr>k_pending_exit := f_rdi f\<rparr>))\<lparr>k_sched := s\<rparr>"
  define k1 where "k1 = do_exit (128 + sig) k0"
  have call: "syscall_dispatch f k = Some (Exited, k1)"
    using exit_call [OF k f(1) d] by (simp add: apply_effect_def k1_def k0_def)
  have "map t_pid (tcbs s) = map t_pid (tcbs ?s)" by (rule delivery_pids [OF s(2)])
  then have "tables_inv k0" using k(1) s(1) by (simp add: k0_def kinv_def tables_inv_def pids_below_def del: set_map)
  then have t1: "tables_inv k1" unfolding k1_def by (rule exit_tables)
  have E: "tcb_at (k_sched k1) j = t" "s_n (k_sched k1) = s_n ?s" "k_pending_exit k1 = f_rdi f"
    "k_procs k1 = exit_pid (current_pid ?s) (128 + sig) (k_procs k)"
    using exit_current_other [of j s] s(3) j F(1,2) pid by (simp_all add: k1_def k0_def do_exit_def)
  define k2 where "k2 = k1\<lparr>k_sched := context_switch j (k_sched k1)\<rparr>"
  have "sched_ok (context_switch j (k_sched k1))" using t1 E j by (intro context_switch_ok) (auto simp: tables_inv_def)
  then have "kinv k2" using t1 E(1) j(4) by (simp add: k2_def kinv_def tables_inv_def pids_below_def alive_def)
  moreover have "idle k2" using k(2) by (simp add: k2_def k1_def k0_def do_exit_def idle_quiet)
  moreover have p2: "current_pid (k_sched k2) = t_pid t" using E(1) by (simp add: k2_def current_pid_def)
  moreover have "deliverable (k_sched k2) = []" using E(1) j(6) by (intro pending_none) (simp add: k2_def)
  ultimately obtain j2 where "syscall_dispatch g k2 = finish_exit (g\<lparr>f_rax := 1\<rparr>) j2" "k_pending_exit j2 = f_rdi f" "k_procs j2 = k_procs k1"
    "current_pid (k_sched j2) = t_pid t"
    using write_char_call [of k2 g] g j(5) E(3) by (auto simp: k2_def)
  then show ?thesis using call E(4) f(2) by (auto simp: finish_exit_def do_exit_def k2_def)
qed

text \<open>The child has SIGTERM pending when it exits with code 7; the parent is the next to run.\<close>

theorem exit_signal_poisons_witness:
  "\<exists>k1 k2. syscall_dispatch (user_frame\<lparr>f_rax := 1, f_rdi := 7\<rparr>) (duo_kernel Runnable (sig_bit 15)) = Some (Exited, k1)
     \<and> syscall_dispatch (user_frame\<lparr>f_rax := 0\<rparr>) (k1\<lparr>k_sched := context_switch 1 (k_sched k1)\<rparr>) = Some (Exited, k2)
     \<and> k_procs k2 = exit_pid 1 7 (k_procs k1)"
proof -
  let ?s = "duo_sched Runnable (sig_bit 15)"
  have b: "bit (sig_bit 15) n \<longleftrightarrow> n = 15" for n using sig_bit_of_nat [of 15 n] by simp
  have "deliverable ?s = filter (\<lambda>n. n = 15) [1..<32]"
    unfolding deliverable_def by (rule filter_cong) (simp_all add: deliverable_bits_def b)
  then have "deliverable ?s = [15]" by (simp add: upt_rec)
  moreover have "action_of 15 (drop_pending 15 ?s) = Terminate"
    by (simp add: action_of_def Let_def signal_handler_def NSIG_def drop_pending_def upd_tcb_def SIG_IGN_def SIGCHLD_def SIGCONT_def SIGSTOP_def SIGTSTP_def)
  ultimately have d: "first_effect (deliverable ?s) ?s = (Some (15, Terminate), drop_pending 15 ?s)" by (simp add: Let_def)
  have ok: "kernel_ok (duo_kernel Runnable (sig_bit 15))" by (rule duo_ok) (simp_all add: b)
  from exit_signal_poisons [OF ok, of "user_frame\<lparr>f_rax := 1, f_rdi := 7\<rparr>" 15 "drop_pending 15 ?s" 1 "proc_tcb 1 0 Runnable 0" "user_frame\<lparr>f_rax := 0\<rparr>"]
  show ?thesis using d by auto
qed

text \<open>
  An exit with a negative code does not end the process. The kernel stores the code in a signed
  64-bit cell in which negative values mean that no exit is pending, and the C library passes the
  code sign-extended: the call returns 0 and the process goes on.
\<close>
theorem exit_negative_returns:
  assumes ok: "kernel_ok k" and c: "t_state (cur_tcb (k_sched k)) = Runnable" "t_sig_pending (cur_tcb (k_sched k)) = 0"
    and f: "f_rax f = 1" "f_rdi f = scast (code :: u32)" "sint code < 0"
  shows "\<exists>k'. syscall_dispatch f k = Some (Returned (f\<lparr>f_rax := 0\<rparr>), k') \<and> k_sched k' = k_sched k \<and> k_procs k' = k_procs k"
proof -
  have k: "kinv k" "idle k" using kernel_ok_kinv [OF ok c(1)] by auto
  have "signed_take_bit 63 (sint code) = sint code"
    using sint_greater_eq [of code] sint_less [of code] by (intro signed_take_bit_int_eq_self) simp_all
  then have "sint (f_rdi f) = sint code" unfolding f(2) by (simp add: signed_scast_eq)
  then have "sint (f_rdi f) < 0" using f(3) by simp
  moreover have "deliverable (k_sched k) = []" by (rule pending_none [OF c(2)])
  ultimately show ?thesis using exit_call [OF k f(1), of None "k_sched k"] by (simp add: apply_effect_def finish_exit_def)
qed

theorem exit_negative_returns_witness:
  "\<exists>k'. syscall_dispatch (user_frame\<lparr>f_rax := 1, f_rdi := - 1\<rparr>) (duo_kernel RBlocked 0) = Some (Returned (user_frame\<lparr>f_rax := 0, f_rdi := - 1\<rparr>), k')
     \<and> k_procs k' = k_procs (duo_kernel RBlocked 0)"
  using exit_negative_returns [OF duo_ok, of RBlocked 0 "user_frame\<lparr>f_rax := 1, f_rdi := - 1\<rparr>" "- 1"] by auto

section \<open>A busy dispatcher\<close>

text \<open>
  While the dispatcher is executing a call, every other call is dropped. The calls that use the disk run
  inside the dispatcher, and a transfer through the device blocks with interrupts on, so another
  process can make a system call meanwhile. Whatever it asks for, the state does not change, and it gets the result of
  the last completed call, whoever made that one.
\<close>
theorem busy_dispatcher_drops_call:
  assumes k: "tables_inv k" "quiet k" and b: "d_executing (k_disp k)" and c: "t_sig_pending (cur_tcb (k_sched k)) = 0" "sint (k_pending_exit k) < 0"
    and n: "f_rax f \<noteq> 31"
  shows "syscall_dispatch f k = Some (Returned (f\<lparr>f_rax := d_result (k_disp k)\<rparr>), k)"
proof -
  have "sched_ok (k_sched k)" using k(1) by (simp add: tables_inv_def)
  note D = deliver_none [OF this pending_none [OF c(1)]]
  have "k\<lparr>k_sched := k_sched k\<rparr> = k" by simp
  then show ?thesis using k(2) b c(2) n D
    by (simp add: syscall_dispatch_def disp_request_def finish_exec_def finish_wait_def finish_readline_def finish_pipe_def
        finish_signals_def finish_exit_def quiet_def)
qed

theorem busy_dispatcher_drops_call_witness:
  "syscall_dispatch (user_frame\<lparr>f_rax := 1, f_rdi := 0\<rparr>) ((duo_kernel RBlocked 0)\<lparr>k_disp := \<lparr>d_executing = True, d_result = 99, d_is_err = False\<rparr>\<rparr>)
     = Some (Returned (user_frame\<lparr>f_rax := 99, f_rdi := 0\<rparr>), (duo_kernel RBlocked 0)\<lparr>k_disp := \<lparr>d_executing = True, d_result = 99, d_is_err = False\<rparr>\<rparr>)"
proof -
  let ?k = "(duo_kernel RBlocked 0)\<lparr>k_disp := \<lparr>d_executing = True, d_result = 99, d_is_err = False\<rparr>\<rparr>"
  have "tables_inv ?k" "quiet ?k" using duo_ok [of RBlocked 0] by (simp_all add: kernel_ok_def tables_inv_def pids_below_def quiet_def)
  then show ?thesis using busy_dispatcher_drops_call [of ?k "user_frame\<lparr>f_rax := 1, f_rdi := 0\<rparr>"] by simp
qed

section \<open>The working directory\<close>

lemma resolve_user_path_canonical:
  assumes "resolve_user_path p l k = Some (Some canon)"
  shows "\<exists>st. canonical 512 (caller_cwd k) (user_bytes p (min (unat l) 256) k) = Some st \<and> canon = abs_path st"
proof -
  define n where "n = min (unat l) 256"
  have cf: "copy_from_user p (unat l) (replicate 256 0) k = (n, blit (replicate 256 0) 0 (user_bytes p n k))"
    by (simp add: copy_from_user_def n_def Let_def)
  have l: "length (user_bytes p n k) = n" "n \<le> 256" by (simp_all add: user_bytes_def n_def)
  then have t: "take n (blit (replicate 256 0) 0 (user_bytes p n k)) = user_bytes p n k" by (simp add: blit_def)
  have "n \<noteq> 0" using assms by (auto simp: resolve_user_path_def cf Let_def split: if_split_asm)
  then obtain m out where r: "resolve (caller_cwd k) (user_bytes p n k) (replicate 512 0) = Some (Some m, out)" and c: "canon = take m out"
    using assms by (auto simp: resolve_user_path_def cf Let_def t split: Option.bind_split_asm)
  show ?thesis using resolve_refines [of "caller_cwd k" "user_bytes p n k" "replicate 512 0"] r c
    by (auto simp: n_def split: option.split_asm if_split_asm)
qed

text \<open>
  Chdir and getcwd agree. The kernel reads at most the first 256 bytes of the path it is given and
  goes on with them (a longer path is cut, not refused). When chdir succeeds, the path read that way
  resolves to a directory, and getcwd afterwards writes its canonical form: absolute, without empty,
  \<open>.\<close> or \<open>..\<close> components, at most 256 bytes long. A buffer that is too small is refused.
\<close>
theorem chdir_getcwd:
  assumes ok: "kernel_ok k" and e: "sys_chdir a0 a1 k = Some (0, k1)"
  shows "\<exists>st ino x y. canonical 512 (caller_cwd k) (user_bytes a0 (min (unat a1) 256) k) = Some st \<and> list_all plain_comp st
     \<and> length (abs_path st) \<le> 256 \<and> namei (abs_path st) (vfs_fs (k_vfs k)) = Some (Some ino, x) \<and> is_dir ino x = Some (True, y)
     \<and> (\<forall>p l. \<exists>k2. sys_getcwd p l k1 = (if length (abs_path st) \<le> unat l then of_nat (length (abs_path st)) else U64_MAX, k2)
          \<and> (if length (abs_path st) \<le> unat l then user_bytes p (length (abs_path st)) k2 = abs_path st else k2 = k1))"
proof -
  have max: "U64_MAX \<noteq> 0" by (simp add: U64_MAX_def)
  obtain canon ino x y s where r: "resolve_user_path a0 a1 k = Some (Some canon)" and n: "namei canon (vfs_fs (k_vfs k)) = Some (Some ino, x)"
    and d: "is_dir ino x = Some (True, y)" and c: "set_cwd_current canon (k_sched (set_fs y k)) = (True, s)" and k1: "k1 = (set_fs y k)\<lparr>k_sched := s\<rparr>"
    using e max by (auto simp: sys_chdir_def Let_def zero_or_max_def split: Option.bind_split_asm option.split_asm if_split_asm prod.split_asm)
  obtain st where st: "canonical 512 (caller_cwd k) (user_bytes a0 (min (unat a1) 256) k) = Some st" and canon: "canon = abs_path st"
    using resolve_user_path_canonical [OF r] by blast
  have l: "length canon \<le> 256" and s: "s = set_slot_cwd (k_cur k) canon (k_sched (set_fs y k))"
    using c by (auto simp: set_cwd_current_def CWD_MAX_def split: if_split_asm)
  have ok': "sched_ok (k_sched k)" using ok by (simp add: kernel_ok_def tables_inv_def)
  have t: "length (t_cwd (cur_tcb (k_sched k))) = 256" "k_cur k < length (tcbs (k_sched k))"
    using sched_ok_bounds(1) [OF ok'] ok' by (auto simp: sched_ok_def tcb_ok_def CWD_MAX_def)
  have "cwd_current 256 s = canon"
    using t l unfolding s by (simp add: cwd_current_def cwd_of_slot_def set_slot_cwd_eq upd_tcb_def set_fs_def set_vfs_def upd_sched_def CWD_MAX_def blit_def)
  moreover have "canon \<noteq> []" by (simp add: canon abs_path_def)
  ultimately have cwd: "caller_cwd k1 = canon" by (simp add: caller_cwd_def k1)
  have g: "\<exists>k2. sys_getcwd p n k1 = (if length canon \<le> unat n then of_nat (length canon) else U64_MAX, k2)
      \<and> (if length canon \<le> unat n then user_bytes p (length canon) k2 = canon else k2 = k1)" for p n
    by (auto simp: sys_getcwd_def cwd user_bytes_def user_store_def upd_sched_def upd_umem_def)
  show ?thesis using st canonical_plain [OF st] l n d g unfolding canon by blast
qed

text \<open>A file system with a root directory, and a process whose memory is full of slashes.\<close>

lemma root_fs: "\<exists>s. write_inode ROOT_INODE (Inode_empty\<lparr>kind := T_DIR\<rparr>) (blank_fs 1024) = Some s \<and> (\<exists>y. is_dir ROOT_INODE s = Some (True, y))"
proof -
  have n: "inode_ok (Inode_empty\<lparr>kind := T_DIR\<rparr>)" by (simp add: inode_ok_def Inode_empty_def)
  have l: "unat ROOT_INODE < 128" by (simp add: ROOT_INODE_def)
  obtain s where s: "write_inode ROOT_INODE (Inode_empty\<lparr>kind := T_DIR\<rparr>) (blank_fs 1024) = Some s" "fs_ok s" "inode_at s ROOT_INODE = Inode_empty\<lparr>kind := T_DIR\<rparr>"
    by (rule write_inode_fs [OF blank_fs_ok l n]) (rule that)
  obtain s1 where "read_inode ROOT_INODE s = Some (inode_at s ROOT_INODE, s1)" using read_inode_fs [OF s(2) l] by blast
  then have "is_dir ROOT_INODE s = Some (True, s1)" using s(3) by (simp add: is_dir_def)
  then show ?thesis using s(1) by blast
qed

theorem chdir_getcwd_witness:
  "\<exists>k k1 k2. kernel_ok k \<and> sys_chdir 0 1 k = Some (0, k1) \<and> sys_getcwd 100 4 k1 = (1, k2) \<and> user_bytes 100 1 k2 = [SLASH]"
proof -
  obtain x y where x: "is_dir ROOT_INODE x = Some (True, y)" using root_fs by blast
  let ?d = "duo_kernel RBlocked 0"
  define k where "k = set_fs x (upd_sched (upd_umem (\<lambda>_ _. SLASH)) ?d)"
  have ok: "kernel_ok ?d" by (rule duo_ok) simp_all
  then have "kinv ?d" using kernel_ok_kinv by simp
  then have "kinv k" unfolding k_def by (intro kinv_set_fs) (simp add: kinv_umem)
  moreover have "pend k = pend ?d" by (simp add: k_def)
  then have "idle k" using ok idle_pend [of k ?d] by (simp add: kernel_ok_def idle_def)
  ultimately have ok: "kernel_ok k" by (simp add: kernel_ok_def kinv_def idle_def)
  have s: "cwd_current 256 (k_sched k) = []" "length (tcbs (k_sched k)) = 8" "k_cur k = 2"
    by (simp_all add: k_def set_fs_def set_vfs_def upd_sched_def upd_umem_def cwd_current_def cwd_of_slot_def proc_tcb_def TCB_INIT_def)
  then have cwd: "caller_cwd k = [SLASH]" by (simp add: caller_cwd_def)
  have u: "user_bytes 0 1 k = [SLASH]" by (simp add: k_def user_bytes_def set_fs_def set_vfs_def upd_sched_def upd_umem_def mbytes_def)
  have c: "canonical 512 [SLASH] [SLASH] = Some []" by (simp add: canonical_def path_comps_def is_absolute_def SLASH_def norm_comp_def)
  have "\<exists>out. resolve [SLASH] [SLASH] (replicate 512 0) = Some (Some 1, out) \<and> take 1 out = [SLASH]"
    using resolve_refines [of "[SLASH]" "[SLASH]" "replicate 512 0"] c by (auto simp: abs_path_def)
  then have "resolve_user_path 0 1 k = Some (Some [SLASH])"
    using u by (auto simp: resolve_user_path_def copy_from_user_def Let_def cwd blit_def)
  moreover have "namei [SLASH] x = Some (Some ROOT_INODE, x)" by (simp add: namei_def SLASH_def)
  moreover have "vfs_fs (k_vfs k) = x" by (simp add: k_def)
  moreover have "fst (set_cwd_current [SLASH] s) = True" for s by (simp add: set_cwd_current_def CWD_MAX_def)
  ultimately obtain k1 where e: "sys_chdir 0 1 k = Some (0, k1)"
    using x by (simp add: sys_chdir_def Let_def split_beta zero_or_max_def)
  have w: "user_bytes 0 (min (unat (1 :: u64)) 256) k = [SLASH]" using u by simp
  obtain st where st: "canonical 512 (caller_cwd k) (user_bytes 0 (min (unat (1 :: u64)) 256) k) = Some st"
    and g: "\<forall>p l. \<exists>k2. sys_getcwd p l k1 = (if length (abs_path st) \<le> unat l then of_nat (length (abs_path st)) else U64_MAX, k2)
          \<and> (if length (abs_path st) \<le> unat l then user_bytes p (length (abs_path st)) k2 = abs_path st else k2 = k1)"
    using chdir_getcwd [OF ok e] by blast
  have "abs_path st = [SLASH]" using st c unfolding w cwd by (simp add: abs_path_def)
  then show ?thesis using g [rule_format, of 100 4] ok e by auto
qed

end
