(* ===== verification/ExecStack.thy ===== *)
theory ExecStack
  imports KernelReach
begin

text \<open>
  \<open>exec\<close> from end to end: the new image becomes the memory of the process, and the initial stack
  that \<open>exec_argv\<close> builds has the layout that a C start-up routine expects.
\<close>

section \<open>The argument block\<close>

definition arg_block :: "bytes list \<Rightarrow> bytes" where
  "arg_block args = concat (map (\<lambda>a. a @ [0]) args)"

lemma arg_block_simps [simp]: "arg_block [] = []" "arg_block (a # args) = a @ 0 # arg_block args"
  by (simp_all add: arg_block_def)

text \<open>Where the argument \<open>i\<close> starts.\<close>

definition arg_off :: "bytes list \<Rightarrow> nat \<Rightarrow> nat" where
  "arg_off args i = length (arg_block (take i args))"

lemma arg_off_0 [simp]: "arg_off args 0 = 0" by (simp add: arg_off_def)

lemma arg_block_append: "arg_block (xs @ ys) = arg_block xs @ arg_block ys"
  by (simp add: arg_block_def)

lemma arg_off_Suc: "i < length args \<Longrightarrow> arg_off args (Suc i) = arg_off args i + length (args ! i) + 1"
  by (simp add: arg_off_def take_Suc_conv_app_nth arg_block_append)

lemma arg_block_split:
  assumes "i < length args"
  shows "arg_block args = arg_block (take i args) @ args ! i @ 0 # arg_block (drop (Suc i) args)"
  by (subst id_take_nth_drop [OF assms]) (simp add: arg_block_append)

lemma arg_off_bound: "i < length args \<Longrightarrow> arg_off args i + length (args ! i) < length (arg_block args)"
proof -
  assume "i < length args"
  from arg_cong [OF arg_block_split [OF this], of length] show ?thesis by (simp add: arg_off_def)
qed

lemma arg_block_nth:
  assumes "i < length args" "k \<le> length (args ! i)"
  shows "arg_block args ! (arg_off args i + k) = (args ! i @ [0]) ! k"
  by (subst arg_block_split [OF assms(1)]) (use assms(2) in \<open>auto simp: arg_off_def nth_append nth_Cons'\<close>)

section \<open>The scan for the arguments\<close>

lemma skip_string_to:
  assumes "off \<le> e" "e < n" "m (unat (base + of_nat e)) = 0" "\<And>k. off \<le> k \<Longrightarrow> k < e \<Longrightarrow> m (unat (base + of_nat k)) \<noteq> 0"
  shows "skip_string m base n off = e"
  using assms
proof (induction "e - off" arbitrary: off)
  case 0
  then show ?case by (subst skip_string.simps) simp
next
  case (Suc d)
  then have "skip_string m base n (off + 1) = e" by (intro Suc.hyps) auto
  then show ?case using Suc.prems Suc.hyps(2) by (subst skip_string.simps) simp
qed

lemma argv_ptrs_scan:
  assumes args: "\<And>a. a \<in> set args \<Longrightarrow> 0 \<notin> set a"
    and m: "\<And>k. k < length (arg_block args) \<Longrightarrow> m (unat (base + of_nat k)) = arg_block args ! k"
    and n: "n = length (arg_block args)" and i: "i \<le> length args" and l: "length args \<le> length ptrs"
  shows "argv_ptrs m base n (length args) (arg_off args i) i ptrs
     = take i ptrs @ map (\<lambda>j. base + of_nat (arg_off args j)) [i..<length args] @ drop (length args) ptrs"
  using i l
proof (induction "length args - i" arbitrary: i ptrs)
  case 0
  then show ?case by (subst argv_ptrs.simps) simp
next
  case (Suc d)
  then have i: "i < length args" by simp
  let ?e = "arg_off args i + length (args ! i)"
  have b: "?e < n" using arg_off_bound [OF i] n by simp
  have skip: "skip_string m base n (arg_off args i) = ?e"
  proof (rule skip_string_to)
    show "m (unat (base + of_nat ?e)) = 0" using m [of ?e] b arg_block_nth [OF i, of "length (args ! i)"] n by simp
    show "m (unat (base + of_nat k)) \<noteq> 0" if "arg_off args i \<le> k" "k < ?e" for k
    proof -
      have "m (unat (base + of_nat k)) = (args ! i @ [0]) ! (k - arg_off args i)"
        using m [of k] b n that arg_block_nth [OF i, of "k - arg_off args i"] by simp
      also have "\<dots> = args ! i ! (k - arg_off args i)" using that by (subst nth_append) auto
      finally show ?thesis using args [OF nth_mem [OF i]] that by (metis add_diff_inverse_nat linorder_not_less nat_add_left_cancel_less nth_mem)
    qed
  qed (use b in auto)
  have "argv_ptrs m base n (length args) (arg_off args i) i ptrs
      = argv_ptrs m base n (length args) (arg_off args (Suc i)) (Suc i) (ptrs[i := base + of_nat (arg_off args i)])"
    using i b skip by (subst argv_ptrs.simps) (simp add: arg_off_Suc)
  also have "\<dots> = take (Suc i) (ptrs[i := base + of_nat (arg_off args i)]) @ map (\<lambda>j. base + of_nat (arg_off args j)) [Suc i..<length args]
      @ drop (length args) (ptrs[i := base + of_nat (arg_off args i)])"
    by (rule Suc.hyps) (use Suc in auto)
  also have "\<dots> = take i ptrs @ map (\<lambda>j. base + of_nat (arg_off args j)) [i..<length args] @ drop (length args) ptrs"
    using i Suc.prems(2) by (simp add: take_Suc_conv_app_nth upt_conv_Cons)
  finally show ?case .
qed

section \<open>The layout\<close>

lemma low_octet:
  fixes a :: u64
  shows "unat (a AND NOT 7) = unat a - unat a mod 8"
proof -
  have "a AND NOT 7 = NOT (mask 3) AND a" by (simp add: mask_eq_exp_minus_1 and.commute)
  also have "\<dots> = push_bit 3 (drop_bit 3 a)" by (rule bit_word_eqI) (auto simp: bit_simps)
  also have "\<dots> = drop_bit 3 a * 8" by (simp add: push_bit_eq_mult)
  finally have e: "a AND NOT 7 = drop_bit 3 a * 8" .
  have d: "unat (drop_bit 3 a) = unat a div 8" by (simp add: unat_drop_bit_eq drop_bit_eq_div unat_div_distrib)
  have "unat a < 2 ^ LENGTH(64)" by (rule unsigned_less)
  moreover have "unat a div 8 * 8 \<le> unat a" by simp
  ultimately have "unat (drop_bit 3 a * 8) = unat a div 8 * 8" by (simp add: unat_word_ariths d)
  then show ?thesis unfolding e by (simp add: minus_mod_eq_div_mult)
qed

lemma unat_of_nat64: "k < 2 ^ 64 \<Longrightarrow> unat (of_nat k :: u64) = k"
  by (simp add: unat_of_nat take_bit_nat_eq_self)

lemma stack_addresses:
  fixes top_va :: u64
  assumes "n + 8 * w + 32 \<le> unat top_va" and "base = (top_va - of_nat n) AND NOT 7" and "rsp = (base - of_nat w * 8) AND NOT 0xF"
  shows "unat base + n \<le> unat top_va" and "unat rsp mod 16 = 0" and "unat rsp + 8 * w \<le> unat base"
    and "k \<le> n \<Longrightarrow> unat (base + of_nat k) = unat base + k"
proof -
  have t: "unat top_va < 2 ^ 64" using unat_lt2p [of top_va] by simp
  have n: "unat (of_nat n :: u64) = n" using assms(1) t by (intro unat_of_nat64) simp
  have "unat (top_va - of_nat n) = unat top_va - n" using assms(1) n by (simp add: unat_sub word_le_nat_alt)
  then have b: "unat base = (unat top_va - n) - (unat top_va - n) mod 8" unfolding assms(2) low_octet by simp
  moreover have "(unat top_va - n) mod 8 < 8" by simp
  ultimately have bb: "unat top_va - n < unat base + 8" "unat base \<le> unat top_va - n" by linarith+
  then show bn: "unat base + n \<le> unat top_va" using assms(1) by linarith
  have w: "unat (of_nat w * 8 :: u64) = 8 * w"
  proof -
    have "unat (of_nat (w * 8) :: u64) = w * 8" using assms(1) t by (intro unat_of_nat64) simp
    then show ?thesis by simp
  qed
  have "8 * w \<le> unat base" using bb assms(1) by linarith
  then have "unat (base - of_nat w * 8) = unat base - 8 * w" using w by (simp add: unat_sub word_le_nat_alt)
  then have r: "unat rsp = (unat base - 8 * w) - (unat base - 8 * w) mod 16" unfolding assms(3) low_nibble by simp
  then show "unat rsp + 8 * w \<le> unat base" using \<open>8 * w \<le> unat base\<close> by linarith
  show "unat rsp mod 16 = 0" unfolding r by (metis minus_mod_eq_mult_div mod_mult_self1_is_0)
  show "unat (base + of_nat k) = unat base + k" if "k \<le> n"
  proof -
    have "unat (of_nat k :: u64) = k" using that assms(1) t by (intro unat_of_nat64) simp
    then show ?thesis using bn that t by (simp add: unat_word_ariths)
  qed
qed

lemma stack_layout:
  assumes z: "\<And>a. a \<in> set args \<Longrightarrow> 0 \<notin> set a" and argc: "length args \<le> MAX_ARGS"
    and room: "length (arg_block args) + 8 * (length args + 5) + 32 \<le> unat top_va"
    and e: "build_initial_stack top_va (arg_block args) (length args) m = (rsp, m')"
  shows "unat rsp mod 16 = 0 \<and> rd64 m' (unat rsp) = of_nat (length args)
     \<and> (\<forall>i < length args. cstr m' (unat (rd64 m' (unat rsp + 8 * (i + 1)))) (args ! i))
     \<and> (\<forall>i < 4. rd64 m' (unat rsp + 8 * (length args + 1 + i)) = 0)
     \<and> (\<forall>a. a < unat rsp \<or> unat top_va \<le> a \<longrightarrow> m' a = m a)"
proof -
  let ?n = "length (arg_block args)" and ?w = "length args + 5"
  define base where "base = (top_va - of_nat ?n) AND NOT 7"
  define m1 where "m1 = mstore m (unat base) (arg_block args)"
  define ps where "ps = map (\<lambda>j. base + of_nat (arg_off args j)) [0..<length args]"
  define ws where "ws = of_nat (length args) # ps @ [0, 0, 0, 0 :: u64]"
  have "build_initial_stack top_va (arg_block args) (length args) m = ((base - of_nat ?w * 8) AND NOT 0xF,
      store_words (unat ((base - of_nat ?w * 8) AND NOT 0xF))
        (of_nat (length args) # take (length args) (argv_ptrs m1 base ?n (length args) 0 0 (replicate MAX_ARGS 0)) @ [0, 0, 0, 0]) m1)"
    by (simp add: build_initial_stack_def Let_def base_def m1_def add.commute)
  then have rsp: "rsp = (base - of_nat ?w * 8) AND NOT 0xF"
    and st: "m' = store_words (unat rsp) (of_nat (length args) # take (length args) (argv_ptrs m1 base ?n (length args) 0 0 (replicate MAX_ARGS 0)) @ [0, 0, 0, 0]) m1"
    using e by auto
  note A = stack_addresses [OF room base_def rsp]
  have "argv_ptrs m1 base ?n (length args) (arg_off args 0) 0 (replicate MAX_ARGS 0) = ps @ drop (length args) (replicate MAX_ARGS 0)"
    using argv_ptrs_scan [of args m1 base ?n 0 "replicate MAX_ARGS 0"] z argc A(4) by (simp add: m1_def ps_def)
  then have m': "m' = store_words (unat rsp) ws m1" using st by (simp add: ws_def ps_def)
  have lw: "length ws = ?w" by (simp add: ws_def ps_def)
  have rd: "rd64 m' (unat rsp + 8 * k) = ws ! k" if "k < ?w" for k unfolding m' using that lw by (intro rd_store_words) simp
  have up: "m' x = m1 x" if "unat base \<le> x" for x unfolding m' by (rule store_words_other) (use that A(3) lw in simp)
  have s: "cstr m' (unat (rd64 m' (unat rsp + 8 * (i + 1)))) (args ! i)" if i: "i < length args" for i
  proof -
    let ?o = "arg_off args i"
    have b: "?o + length (args ! i) < ?n" by (rule arg_off_bound [OF i])
    have p: "unat (rd64 m' (unat rsp + 8 * (i + 1))) = unat base + ?o" using rd [of "i + 1"] i A(4) [of ?o] b by (simp add: ws_def ps_def nth_append)
    have "m' (unat base + ?o + k) = (args ! i @ [0]) ! k" if "k \<le> length (args ! i)" for k
    proof -
      have "m1 (unat base + (?o + k)) = arg_block args ! (?o + k)" unfolding m1_def by (rule mstore_at) (use b that in simp)
      then show ?thesis using up arg_block_nth [OF i that] by (simp add: add.assoc)
    qed
    then show ?thesis unfolding p cstr_iff using z [OF nth_mem [OF i]] by (auto simp: nth_append list_eq_iff_nth_eq)
  qed
  have o: "m' a = m a" if "a < unat rsp \<or> unat top_va \<le> a" for a
  proof -
    have "m' a = m1 a" unfolding m' by (rule store_words_other) (use that A(1,3) lw in auto)
    also have "\<dots> = m a" unfolding m1_def by (rule mstore_other) (use that A(1,3) in auto)
    finally show ?thesis .
  qed
  have nul: "rd64 m' (unat rsp + 8 * (length args + 1 + i)) = 0" if "i < 4" for i
  proof -
    have "i = 0 \<or> i = 1 \<or> i = 2 \<or> i = 3" using that by linarith
    then have "ws ! (length args + 1 + i) = 0" by (auto simp: ws_def ps_def nth_append)
    then show ?thesis using rd [of "length args + 1 + i"] that by simp
  qed
  have "rd64 m' (unat rsp) = of_nat (length args)" using rd [of 0] by (simp add: ws_def)
  then show ?thesis using A(2) s nul o by blast
qed

text \<open>
  C37: the initial stack of a program has the layout its start-up code reads. With the arguments
  laid out one after the other, each ended by a NUL, the stack pointer is 16-byte aligned and
  points at the number of arguments, followed by a pointer to each argument, which is a C string
  with that content, and by null words for the end of the arguments, the environment and the
  auxiliary vector. Nothing outside the region from the stack pointer to the old top is written.
\<close>
theorem initial_stack_layout:
  assumes z: "\<And>a. a \<in> set args \<Longrightarrow> 0 \<notin> set a" and argc: "length args \<le> MAX_ARGS"
    and room: "length (arg_block args) + 8 * (length args + 5) + 32 \<le> unat top_va"
    and e: "build_initial_stack top_va (arg_block args) (length args) m = (rsp, m')"
  shows "unat rsp mod 16 = 0 \<and> rd64 m' (unat rsp) = of_nat (length args)
     \<and> (\<forall>i < length args. cstr m' (unat (rd64 m' (unat rsp + 8 * (i + 1)))) (args ! i))
     \<and> (\<forall>i < 4. rd64 m' (unat rsp + 8 * (length args + 1 + i)) = 0)
     \<and> (\<forall>a. a < unat rsp \<or> unat top_va \<le> a \<longrightarrow> m' a = m a)"
  by (rule stack_layout [OF assms])

text \<open>The arguments of \<open>cat x\<close>.\<close>

theorem initial_stack_layout_witness:
  "\<exists>rsp m'. build_initial_stack 0x2001FFF0 (arg_block [[99, 97, 116], [120]]) 2 (\<lambda>_. 1) = (rsp, m') \<and> rd64 m' (unat rsp) = 2
     \<and> cstr m' (unat (rd64 m' (unat rsp + 16))) [120] \<and> rd64 m' (unat rsp + 24) = 0"
proof -
  let ?args = "[[99, 97, 116], [120]] :: bytes list"
  obtain rsp m' where e: "build_initial_stack 0x2001FFF0 (arg_block ?args) (length ?args) (\<lambda>_. 1) = (rsp, m')" by (meson surj_pair)
  have z: "0 \<notin> set a" if "a \<in> set ?args" for a using that by auto
  have r: "length ?args \<le> MAX_ARGS" "length (arg_block ?args) + 8 * (length ?args + 5) + 32 \<le> unat (0x2001FFF0 :: u64)" by (simp_all add: MAX_ARGS_def)
  have "rd64 m' (unat rsp) = of_nat (length ?args) \<and> (\<forall>i < length ?args. cstr m' (unat (rd64 m' (unat rsp + 8 * (i + 1)))) (?args ! i))
      \<and> (\<forall>i < 4. rd64 m' (unat rsp + 8 * (length ?args + 1 + i)) = 0)"
    using initial_stack_layout [OF z r e] by blast
  then have "rd64 m' (unat rsp) = of_nat (length ?args)" "cstr m' (unat (rd64 m' (unat rsp + 8 * (1 + 1)))) (?args ! 1)"
    "rd64 m' (unat rsp + 8 * (length ?args + 1 + 0)) = 0" by (simp, metis One_nat_def length_Cons lessI list.size(3), blast intro: zero_less_numeral)
  then show ?thesis using e by (intro exI [of _ rsp] exI [of _ m']) (simp add: numeral_2_eq_2)
qed

section \<open>The new image\<close>

text \<open>
  C8: exec makes the program the memory of the process. Given a well-formed program and enough
  frames, the call succeeds; the process continues at the entry point with a fresh stack pointer
  and cleared registers, in an address space whose memory below the kernel half is the image of
  the program, with its default signal actions and an empty heap, while its pid, its descriptors
  and the other processes are unchanged.
\<close>
theorem exec_replaces_image:
  assumes ok: "kernel_ok k" and p: "pages_ok (mmu k) (current_pml4 (mmu k))" and v: "valid_elf b hdr"
    and room: "4 * (sum_list (map seg_pages (loads b hdr [0..<unat (h_phnum hdr)])) + 33) + 1 \<le> free_left (mmu k)"
  shows "\<exists>ip root k'. exec_image b f k = Some (0, exec_frame ip 0x2001FFF0, k') \<and> rd_u64 b 24 = Some (Some ip)
     \<and> s_cr3 (k_sched k') = root \<and> last_pml4 (k_sched k') = root
     \<and> (\<forall>a. low a \<longrightarrow> umem (k_sched k') root (unat a) = (case program_image b hdr (unat a) of Some x \<Rightarrow> x | None \<Rightarrow> 0))
     \<and> (let t = cur_tcb (k_sched k) in cur_tcb (k_sched k') = t\<lparr>t_pml4 := root, t_heap_brk := USER_HEAP_BASE, t_sig_handlers := replicate NSIG 0\<rparr>)
     \<and> k_vfs k' = k_vfs k \<and> (\<forall>i. i = k_cur k \<or> tcb_at (k_sched k') i = tcb_at (k_sched k) i)"
proof -
  obtain root s0 e' m where n: "new_space (mmu k) = Some (root, s0)" and l: "ElfLoader_create (prepare b root (k_elf k)) s0 = Some (LDone, e', m)"
    and ip: "rd_u64 b 24 = Some (Some (entry_va e'))" "stack_top e' = 0x2001FFF0"
    and img: "\<forall>a. low a \<longrightarrow> vread m root a = program_image b hdr (unat a)"
    using elf_load_spec [OF p v room, of "k_elf k"] by blast
  have s: "s_current (k_sched k) < length (tcbs (k_sched k))" using ok sched_ok_bounds(1) by (auto simp: kernel_ok_def tables_inv_def)
  define view where "view = (\<lambda>a. case vread m root (of_nat a) of Some b \<Rightarrow> b | None \<Rightarrow> 0)"
  define k' where "k' = upd_sched (\<lambda>s. exec_into root (s\<lparr>umem := (umem s)(root := view)\<rparr>)) (k\<lparr>k_elf := e', k_mach := m\<rparr>)"
  have "exec_image b f k = Some (0, exec_frame (entry_va e') 0x2001FFF0, k')"
    using n l ip(2) by (simp add: exec_image_def load_image_def is_failed_def Let_def k'_def view_def upd_sched_def)
  moreover have "umem (k_sched k') root (unat a) = (case program_image b hdr (unat a) of Some x \<Rightarrow> x | None \<Rightarrow> 0)" if "low a" for a
    using img that by (simp add: k'_def upd_sched_def exec_into_def Let_def set_fpu_def upd_tcb_def view_def)
  moreover have "s_cr3 (k_sched k') = root" "last_pml4 (k_sched k') = root" "k_vfs k' = k_vfs k"
    "cur_tcb (k_sched k') = (cur_tcb (k_sched k))\<lparr>t_pml4 := root, t_heap_brk := USER_HEAP_BASE, t_sig_handlers := replicate NSIG 0\<rparr>"
    "i \<noteq> k_cur k \<Longrightarrow> tcb_at (k_sched k') i = tcb_at (k_sched k) i" for i
    using s by (simp_all add: k'_def upd_sched_def exec_into_def Let_def set_fpu_def upd_tcb_def)
  ultimately show ?thesis using ip(1) unfolding Let_def by blast
qed

theorem exec_replaces_image_witness:
  "\<exists>ip root k'. exec_image tiny_elf user_frame (duo_kernel RBlocked 0) = Some (0, exec_frame ip 0x2001FFF0, k') \<and> last_pml4 (k_sched k') = root
     \<and> umem (k_sched k') root 0x10000001 = (case program_image tiny_elf tiny_header 0x10000001 of Some x \<Rightarrow> x | None \<Rightarrow> 0)"
proof -
  have m: "mmu (duo_kernel RBlocked 0) = room_machine"
    by (simp add: mmu_def duo_kernel_def duo_sched_def run_init_def usermode_init_def demo_kernel_def boot_sched_def sched_init_def init_boot_def
        Let_def set_fpu_def room_machine_def)
  have ok: "kernel_ok (duo_kernel RBlocked 0)" by (rule duo_ok) simp_all
  have l: "low 0x10000001" "unat (0x10000001 :: u64) = 0x10000001" by (simp_all add: low_def)
  have p: "pages_ok (mmu (duo_kernel RBlocked 0)) (current_pml4 (mmu (duo_kernel RBlocked 0)))" unfolding m using room_machine_facts(1,2) by simp
  from exec_replaces_image [OF ok p tiny_valid_elf tiny_room [folded m], of user_frame]
  obtain ip root k' where x: "exec_image tiny_elf user_frame (duo_kernel RBlocked 0) = Some (0, exec_frame ip 0x2001FFF0, k')" "last_pml4 (k_sched k') = root"
    "\<forall>a. low a \<longrightarrow> umem (k_sched k') root (unat a) = (case program_image tiny_elf tiny_header (unat a) of Some x \<Rightarrow> x | None \<Rightarrow> 0)" by blast
  then show ?thesis using x(3) [rule_format, OF l(1)] unfolding l(2) by blast
qed

end
