(* ===== verification/ShellKernel.thy ===== *)
theory ShellKernel
  imports IshInv ExecStack
begin

text \<open>
  The shell on the kernel: the words of a command arrive in the program, the processes of a pipeline
  hold the right ends of the pipe, and two results of the kernel that the shell misreads.
\<close>

section \<open>The words of a command\<close>

definition argv_strings :: "chars list \<Rightarrow> bytes list" where
  "argv_strings toks = ((if starts_with (lit ''/'') (hd toks) then [] else lit ''/bin/'') @ as_bytes (hd toks)) # map as_bytes (tl toks)"

lemma build_argv_block: "toks \<noteq> [] \<Longrightarrow> build_argv toks = Some (arg_block (argv_strings toks), of_nat (length toks))"
  by (cases toks) (simp_all add: build_argv_def argv_strings_def arg_block_def comp_def)

lemma length_argv_strings [simp]: "toks \<noteq> [] \<Longrightarrow> length (argv_strings toks) = length toks"
  by (cases toks) (simp_all add: argv_strings_def)

lemma utf8_nonzero: "c \<noteq> 0 \<Longrightarrow> 0 \<notin> set (utf8 c)"
proof -
  assume c: "c \<noteq> 0"
  have "ucast c \<noteq> (0 :: u8)" if "c < 0x80"
  proof
    assume "ucast c = (0 :: u8)"
    then have "unat (ucast c :: u8) = 0" by simp
    then have "unat c mod 256 = 0" by (simp add: unsigned_ucast_eq take_bit_eq_mod)
    moreover have "unat c < 128" using that by (simp add: word_less_nat_alt)
    ultimately have "unat c = 0" by simp
    then show False using c by (simp add: unsigned_eq_0_iff)
  qed
  then show ?thesis by (auto simp: utf8_def or_eq_0_iff)
qed

lemma argv_strings_nonzero:
  assumes "\<And>w. w \<in> set toks \<Longrightarrow> 0 \<notin> set w" "toks \<noteq> []" "a \<in> set (argv_strings toks)"
  shows "0 \<notin> set a"
proof -
  have "0 \<notin> set (as_bytes w)" if "w \<in> set toks" for w
  proof -
    have "0 \<notin> set (utf8 c)" if "c \<in> set w" for c by (rule utf8_nonzero) (use that assms(1) [OF \<open>w \<in> set toks\<close>] in auto)
    then show ?thesis by (simp add: as_bytes_def)
  qed
  moreover have "0 \<notin> set (lit ''/bin/'' :: bytes)" by (simp add: lit_def)
  ultimately show ?thesis using assms(2,3) by (cases toks) (auto simp: argv_strings_def split: if_splits)
qed

lemma takeWhile_block: "0 \<notin> set a \<Longrightarrow> takeWhile (\<lambda>b. b \<noteq> 0) (arg_block (a # as)) = a"
  by (simp add: takeWhile_append)

text \<open>
  C9: what is typed is what the program gets. For the words of a command, without NUL characters and
  at most 32, the call that the shell makes looks up \<open>/bin/\<close> and the first word, or the first word itself
  when it starts with a slash; and the initial stack that the kernel builds from the same block of
  bytes holds the number of words and pointers to C strings that are the path and the other words.
\<close>

theorem shell_words_reach_program:
  assumes ne: "toks \<noteq> []" and nz: "\<And>w. w \<in> set toks \<Longrightarrow> 0 \<notin> set w" and n: "length toks \<le> MAX_ARGS"
    and b: "build_argv toks = Some (argv, argc)"
    and u: "user_bytes p (length argv) k = argv" "length argv \<le> ARGV_BUF_SIZE" "k_heap_room k (length argv)"
    and room: "length argv + 8 * (length toks + 5) + 32 \<le> unat top_va"
    and e: "build_initial_stack top_va argv (unat argc) m = (rsp, m')"
  shows "do_exec_argv p (of_nat (length argv)) argc f k = do {
       (elf, k) \<leftarrow> exec_file (hd (argv_strings toks)) k;
       case elf of None \<Rightarrow> Some (U64_MAX, f, k) | Some elf \<Rightarrow> exec_image_args elf argv (length toks) f k }
     \<and> rd64 m' (unat rsp) = of_nat (length toks)
     \<and> (\<forall>i < length toks. cstr m' (unat (rd64 m' (unat rsp + 8 * (i + 1)))) (argv_strings toks ! i))"
proof -
  have av: "argv = arg_block (argv_strings toks)" "argc = of_nat (length toks)" using build_argv_block [OF ne] b by auto
  have nz': "0 \<notin> set a" if "a \<in> set (argv_strings toks)" for a using argv_strings_nonzero [OF nz ne that] .
  have ac: "unat argc = length toks" using av(2) n by (simp add: unat_of_nat64 MAX_ARGS_def)
  have al: "unat (of_nat (length argv) :: u64) = length argv" using u(2) by (intro unat_of_nat64) (simp add: ARGV_BUF_SIZE_def)
  have tw: "takeWhile (\<lambda>b. b \<noteq> 0) argv = hd (argv_strings toks)"
    unfolding av(1) using takeWhile_block nz' by (cases "argv_strings toks") (simp_all add: argv_strings_def)
  have cp: "snd (copy_from_user p (length argv) (replicate (length argv) 0) k) = argv"
    using u(1) by (simp add: copy_from_user_def Let_def blit_def)
  have "do_exec_argv p (of_nat (length argv)) argc f k = do {
       (elf, k) \<leftarrow> exec_file (hd (argv_strings toks)) k;
       case elf of None \<Rightarrow> Some (U64_MAX, f, k) | Some elf \<Rightarrow> exec_image_args elf argv (length toks) f k }"
    unfolding do_exec_argv_def Let_def al ac min_absorb1 [OF u(2)] min_absorb1 [OF n] cp tw using u(3) by simp
  moreover have "unat rsp mod 16 = 0 \<and> rd64 m' (unat rsp) = of_nat (length (argv_strings toks))
     \<and> (\<forall>i < length (argv_strings toks). cstr m' (unat (rd64 m' (unat rsp + 8 * (i + 1)))) (argv_strings toks ! i))
     \<and> (\<forall>i < 4. rd64 m' (unat rsp + 8 * (length (argv_strings toks) + 1 + i)) = 0)
     \<and> (\<forall>a. a < unat rsp \<or> unat top_va \<le> a \<longrightarrow> m' a = m a)"
    by (rule stack_layout) (use nz' n ne room e ac av in simp_all)
  ultimately show ?thesis using ne by auto
qed

theorem shell_words_reach_program_witness:
  "\<exists>argv argc rsp m'. build_argv [lit ''cat'', lit ''x y''] = Some (argv, argc) \<and> build_initial_stack 0x2001FFF0 argv (unat argc) (\<lambda>_. 1) = (rsp, m')
     \<and> rd64 m' (unat rsp) = 2 \<and> cstr m' (unat (rd64 m' (unat rsp + 8))) (lit ''/bin/cat'') \<and> cstr m' (unat (rd64 m' (unat rsp + 16))) (lit ''x y'')"
proof -
  let ?t = "[lit ''cat'', lit ''x y''] :: chars list"
  have s: "argv_strings ?t = [lit ''/bin/cat'', lit ''x y'']" by (simp add: argv_strings_def lit_def as_bytes_def utf8_def starts_with_def)
  define argv where "argv = arg_block (argv_strings ?t)"
  have b: "build_argv ?t = Some (argv, 2)" using build_argv_block [of ?t] by (simp add: argv_def)
  obtain rsp m' where e: "build_initial_stack 0x2001FFF0 argv (unat (2 :: u64)) (\<lambda>_. 1) = (rsp, m')" by (meson surj_pair)
  define k where "k = user_store 0x1000 argv demo_kernel"
  have k: "user_bytes 0x1000 (length argv) k = argv" "k_heap_room k (length argv)"
    by (simp_all add: k_def user_bytes_def user_store_def upd_sched_def upd_umem_def demo_kernel_def)
  have l: "length argv = 13" unfolding argv_def s by (simp add: lit_def)
  have "0 \<notin> set w" if "w \<in> set ?t" for w using that by (auto simp: lit_def)
  from shell_words_reach_program [OF _ this _ b k(1) _ k(2) _ e]
  have r: "rd64 m' (unat rsp) = of_nat (length ?t)"
    "\<forall>i < length ?t. cstr m' (unat (rd64 m' (unat rsp + 8 * (i + 1)))) (argv_strings ?t ! i)"
    by (simp_all add: l MAX_ARGS_def ARGV_BUF_SIZE_def)
  have "cstr m' (unat (rd64 m' (unat rsp + 8))) (lit ''/bin/cat'')" "cstr m' (unat (rd64 m' (unat rsp + 16))) (lit ''x y'')"
    using r(2) [rule_format, of 0] r(2) [rule_format, of 1] by (simp_all add: s)
  then show ?thesis using b e r(1) by (intro exI [of _ argv] exI [of _ 2] exI [of _ rsp] exI [of _ m']) simp
qed

section \<open>A program that faults\<close>

lemma kill_then_reap:
  assumes "pt_ok t" "pmap t pid = Some (PReady, c)"
  shows "fst (reap_pid pid (kill_pid pid t)) = - 1 \<and> pmap (snd (reap_pid pid (kill_pid pid t))) = (pmap t)(pid := None)"
proof -
  have ok: "pt_ok (kill_pid pid t)" unfolding kill_pid_def by (rule on_pid_ok [OF assms(1)]) (auto simp: proc_kill_def)
  have "pmap (kill_pid pid t) = spec_upd pid {PCreated, PReady, PBlocked} (\<lambda>_. (PZombie, - 1)) (pmap t)"
    unfolding kill_pid_def by (rule pmap_step) (auto simp: proc_kill_def)
  then have "pmap (kill_pid pid t) = (pmap t)(pid \<mapsto> (PZombie, - 1))" using assms(2) by (simp add: spec_upd_def)
  then show ?thesis using reap_refines [OF ok, of pid] by (simp add: spec_reap_def)
qed

text \<open>
  C40: a foreground program that is killed by a page fault is shown as stopped. The kernel ends the process with
  status -1, its parent's wait returns that status sign-extended to 64 bits and the process is gone;
  the shell tests bit 63 of the result, takes the job for stopped and keeps it in its table, with the
  pid of a process that does not exist.
\<close>

theorem faulted_job_kept_stopped:
  assumes ok: "kernel_ok k" and d: "pids_distinct (k_sched k)"
    and c: "k_cur k = c" "c \<noteq> 0" "t_state (tcb_at (k_sched k) c) = Runnable" "t_pid (tcb_at (k_sched k) c) = pid" "pid \<noteq> 0"
    and q: "t_parent_pid (tcb_at (k_sched k) c) = q" "q \<noteq> 0" "j < s_n (k_sched k)" "j \<noteq> c" "t_pid (tcb_at (k_sched k) j) = q"
      "t_state (tcb_at (k_sched k) j) = RBlocked"
    and z: "t_sig_pending (tcb_at (k_sched k) j) = 0" and x: "sint (k_pending_exit k) < 0"
    and pt: "pmap (k_procs k) pid = Some (PReady, code)"
    and jb: "j_state jb = JForeground" "be_pid (j_backend jb) = pid"
  shows "\<exists>g' k2. resume_syscall (WaitChild g pid) ((kill_current_user_process k)\<lparr>k_sched := context_switch j (exit_current (k_sched k))\<rparr>) = Some (Returned g', k2)
     \<and> pmap (k_procs k2) pid = None
     \<and> (\<forall>sys w w1 w2 b r. sys (CWait (ucast pid)) w = (Some (f_rax g', b), w1) \<longrightarrow> sys (CSetForeground 0) w1 = (Some r, w2) \<longrightarrow>
          job_await_rest sys jb w = Some (Some (jb\<lparr>j_state := JStopped\<rparr>), if be_foreground (j_backend jb) then w2 else w1))"
proof -
  have k: "kinv k" "idle k" using kernel_ok_kinv [OF ok] c by auto
  note D = kinvD [OF k(1)]
  define k1 where "k1 = kill_current_user_process k"
  have k1: "k_sched k1 = exit_current (k_sched k)" "k_procs k1 = kill_pid pid (k_procs k)" "sint (k_pending_exit k1) < 0" "idle k1"
    using c x k(2) idle_pend [of k1 k] by (simp_all add: k1_def kill_current_user_process_def current_pid_def)
  have "tables_inv k1" unfolding k1_def by (rule exit_tables) (use k(1) in \<open>simp add: kinv_def\<close>)
  note R = parent_wait_returns [OF D(1) d c(1,2,4,5) q z k1(1) this k1(4,3), of g]
  have E: "fst (reap_pid pid (k_procs k1)) = - 1" "pmap (snd (reap_pid pid (k_procs k1))) pid = None"
    unfolding k1(2) using kill_then_reap [OF D(5) pt] by auto
  then obtain k2 where k2: "resume_syscall (WaitChild g pid) (k1\<lparr>k_sched := context_switch j (exit_current (k_sched k))\<rparr>)
      = Some (Returned (g\<lparr>f_rax := - 1\<rparr>), k2)" "pmap (k_procs k2) pid = None" using R unfolding k1(1) by auto
  have "job_await_rest sys jb w = Some (Some (jb\<lparr>j_state := JStopped\<rparr>), if be_foreground (j_backend jb) then w2 else w1)"
    if "sys (CWait (ucast pid)) w = (Some (- 1, b), w1)" "sys (CSetForeground 0) w1 = (Some r, w2)" for sys :: "'a kern" and w b w1 w2 r
    using that jb c(5)
    by (simp add: job_await_rest_def be_wait_foreground_def set_foreground_def pbind_def sys_call_def invoke_def ret_def WSTOPPED_def Let_def split: prod.split)
  then show ?thesis using k2 unfolding k1_def by (intro exI [of _ "g\<lparr>f_rax := - 1\<rparr>"] exI [of _ k2]) simp
qed

text \<open>The foreground job with pid 2, its kernel and the shell's process with pid 1.\<close>

definition two_job :: job where
  "two_job = seven_job\<lparr>j_state := JForeground, j_pid := 2, j_backend := \<lparr>be_pid = 2, be_exit_code = 0, be_foreground = True\<rparr>\<rparr>"

theorem faulted_job_kept_stopped_witness:
  "\<exists>g' k2. resume_syscall (WaitChild user_frame 2) ((kill_current_user_process (duo_kernel RBlocked 0))\<lparr>k_sched := context_switch 1 (exit_current (duo_sched RBlocked 0))\<rparr>)
        = Some (Returned g', k2)
     \<and> pmap (k_procs k2) 2 = None \<and> job_await_rest (\<lambda>c w. (Some (f_rax g', []), w)) two_job () = Some (Some (two_job\<lparr>j_state := JStopped\<rparr>), ())"
proof -
  have "pmap (k_procs (duo_kernel RBlocked 0)) 2 = Some (PReady, 0)" by (simp add: duo_kernel_def pmap_def)
  then have "\<exists>g' k2. resume_syscall (WaitChild user_frame 2) ((kill_current_user_process (duo_kernel RBlocked 0))\<lparr>k_sched := context_switch 1 (exit_current (k_sched (duo_kernel RBlocked 0)))\<rparr>)
        = Some (Returned g', k2) \<and> pmap (k_procs k2) 2 = None
     \<and> (\<forall>sys w w1 w2 b r. sys (CWait (ucast (2 :: u32))) w = (Some (f_rax g', b), w1) \<longrightarrow> sys (CSetForeground 0) w1 = (Some r, w2) \<longrightarrow>
          job_await_rest sys two_job w = Some (Some (two_job\<lparr>j_state := JStopped\<rparr>), if be_foreground (j_backend two_job) then w2 else w1 :: unit))"
    by (intro faulted_job_kept_stopped [where c = 2 and q = 1 and code = 0, OF duo_ok]) (simp_all add: duo_distinct two_job_def)
  then obtain g' k2 where r: "resume_syscall (WaitChild user_frame 2) ((kill_current_user_process (duo_kernel RBlocked 0))\<lparr>k_sched := context_switch 1 (exit_current (duo_sched RBlocked 0))\<rparr>)
        = Some (Returned g', k2)" "pmap (k_procs k2) 2 = None"
    and a: "\<forall>sys w w1 w2 b r. sys (CWait (ucast (2 :: u32))) w = (Some (f_rax g', b), w1) \<longrightarrow> sys (CSetForeground 0) w1 = (Some r, w2) \<longrightarrow>
          job_await_rest sys two_job w = Some (Some (two_job\<lparr>j_state := JStopped\<rparr>), if be_foreground (j_backend two_job) then w2 else w1 :: unit)"
    unfolding duo_fields by blast
  have "job_await_rest (\<lambda>c w. (Some (f_rax g', []), w)) two_job () = Some (Some (two_job\<lparr>j_state := JStopped\<rparr>), ())"
    using a [rule_format, of "\<lambda>c w. (Some (f_rax g', []), w)" "()" "[]" "()" "(f_rax g', [])" "()"] by simp
  with r show ?thesis by blast
qed

section \<open>The calls of a program\<close>

text \<open>A kernel that replies by a rule and whose state is the list of the calls made so far.\<close>

definition logged :: "(call list \<Rightarrow> call \<Rightarrow> (u64 \<times> bytes) option) \<Rightarrow> call list kern" where
  "logged reply c cs = (reply cs c, cs @ [c])"

lemma sys_call_logged: "sys_call (logged rp) c cs = (case rp cs c of None \<Rightarrow> Some (None, cs @ [c]) | Some (r, _) \<Rightarrow> Some (Some r, cs @ [c]))"
  by (simp add: sys_call_def invoke_def logged_def pbind_def ret_def split: option.split prod.split)

lemma call_buf_logged:
  "sys_call_buf (logged rp) c b cs = (case rp cs c of None \<Rightarrow> Some (None, cs @ [c])
     | Some (r, d) \<Rightarrow> Some (Some (r, take (length b) d @ drop (length d) b), cs @ [c]))"
  by (simp add: sys_call_buf_def invoke_def logged_def pbind_def ret_def split: option.split prod.split)

text \<open>The replies in one of the processes of a pipeline: \<open>f1\<close> and \<open>f2\<close> are what the forks return there.\<close>

definition pipeline_reply :: "bytes \<Rightarrow> u64 \<Rightarrow> u64 \<Rightarrow> call list \<Rightarrow> call \<Rightarrow> (u64 \<times> bytes) option" where
  "pipeline_reply d f1 f2 cs c = (case c of
       CPipe \<Rightarrow> Some (0, d)
     | CFork \<Rightarrow> Some (if CFork \<in> set cs then f2 else f1, [])
     | CExecArgv _ _ \<Rightarrow> None
     | _ \<Rightarrow> Some (0, []))"

lemma pipeline_logs:
  assumes l: "build_argv left = Some (lv, lc)" and r: "build_argv right = Some (rv, rc)"
    and d: "length d = 16" "u64_from_le (take 8 d) = rfd" "u64_from_le (drop 8 d) = wfd"
  shows "f1 \<noteq> 0 \<Longrightarrow> f2 \<noteq> 0 \<Longrightarrow> run_pipeline (logged (pipeline_reply d f1 f2)) left right []
      = Some (Some (), [CPipe, CFork, CFork, CClose rfd, CClose wfd, CWait f1, CWait f2])"
    and "run_pipeline (logged (pipeline_reply d 0 f2)) left right []
      = Some (None, [CPipe, CFork, CDup2 wfd 1, CClose rfd, CClose wfd, CExecArgv lv lc])"
    and "f1 \<noteq> 0 \<Longrightarrow> run_pipeline (logged (pipeline_reply d f1 0)) left right []
      = Some (None, [CPipe, CFork, CFork, CDup2 rfd 0, CClose rfd, CClose wfd, CExecArgv rv rc])"
  by (simp_all add: run_pipeline_def l r pipe_fds_def pipe_stage_def exec_or_exit_def close_fd_def pbind_def sys_call_logged call_buf_logged
        pipeline_reply_def ret_def d)

section \<open>The ends of a pipe\<close>

text \<open>The calls that change the descriptors of a process, on the descriptor tables of the kernel.\<close>

definition fd_call :: "nat \<Rightarrow> call \<Rightarrow> vfs \<Rightarrow> vfs option" where
  "fd_call cur c v = (case c of
       CDup2 old new \<Rightarrow> map_option snd (vfs_dup2 cur (unat old) (unat new) v)
     | CClose fd \<Rightarrow> vfs_close cur (unat fd) v
     | _ \<Rightarrow> Some v)"

fun fd_calls :: "nat \<Rightarrow> call list \<Rightarrow> vfs \<Rightarrow> vfs option" where
  "fd_calls cur [] v = Some v"
| "fd_calls cur (c # cs) v = Option.bind (fd_call cur c v) (fd_calls cur cs)"

lemma fd_call_other [simp]:
  "fd_call cur CPipe v = Some v" "fd_call cur CFork v = Some v" "fd_call cur (CExecArgv x n) v = Some v" "fd_call cur (CWait q) v = Some v"
  by (simp_all add: fd_call_def)

abbreviation fds_of :: "vfs \<Rightarrow> nat \<Rightarrow> fd_table" where
  "fds_of v q \<equiv> tables v ! q"

lemma fd_close:
  assumes "vfs_inv L v" "cur < MAX_PROCS" "unat fd < MAX_OPEN"
  obtains v' where "fd_call cur (CClose fd) v = Some v'" "vfs_inv L v'" "tables v' = (tables v)[cur := (fds_of v cur)[unat fd := None]]"
  using vfs_close_keeps [OF assms(1,2), of "unat fd"] assms(3) by (auto simp: fd_call_def)

lemma fd_dup2:
  assumes "vfs_inv L v" "cur < MAX_PROCS" "unat new < MAX_OPEN" "unat old < MAX_OPEN" "fds_of v cur ! unat old = Some s"
  obtains v' where "fd_call cur (CDup2 old new) v = Some v'" "vfs_inv L v'" "tables v' = (tables v)[cur := (fds_of v cur)[unat new := Some s]]"
proof -
  have "length (fds_of v cur) = MAX_OPEN" using assms(1,2) tables_ok_nth by (auto simp: vfs_inv_def table_ok_def)
  then have "get_fd (fds_of v cur) (unat old) = Some s" using assms by (simp add: get_fd_def)
  then show ?thesis using vfs_dup2_keeps [OF assms(1,2), of "unat old" "unat new"] assms(3) that by (auto simp: fd_call_def)
qed

text \<open>A stage replaces a standard descriptor and closes both ends.\<close>

lemma stage_fds:
  assumes ok: "vfs_inv L v" "cur < MAX_PROCS" and fd: "unat rfd < MAX_OPEN" "unat wfd < MAX_OPEN" "unat target < MAX_OPEN"
    and e: "fd = rfd \<or> fd = wfd" "fds_of v cur ! unat fd = Some s" and t: "target \<noteq> rfd" "target \<noteq> wfd"
  shows "\<exists>v'. fd_calls cur [CDup2 fd target, CClose rfd, CClose wfd] v = Some v' \<and> vfs_inv L v'
     \<and> tables v' = (tables v)[cur := (fds_of v cur)[unat target := Some s, unat rfd := None, unat wfd := None]]"
proof -
  have cl: "cur < length (tables v)" using ok by (simp add: vfs_inv_def tables_ok_def)
  obtain v1 where v1: "fd_call cur (CDup2 fd target) v = Some v1" "vfs_inv L v1" "tables v1 = (tables v)[cur := (fds_of v cur)[unat target := Some s]]"
    by (rule fd_dup2 [OF ok fd(3) _ e(2)]) (use fd e(1) in auto)
  obtain v2 where v2: "fd_call cur (CClose rfd) v1 = Some v2" "vfs_inv L v2" "tables v2 = (tables v1)[cur := (fds_of v1 cur)[unat rfd := None]]"
    by (rule fd_close [OF v1(2) ok(2) fd(1)])
  obtain v3 where v3: "fd_call cur (CClose wfd) v2 = Some v3" "vfs_inv L v3" "tables v3 = (tables v2)[cur := (fds_of v2 cur)[unat wfd := None]]"
    by (rule fd_close [OF v2(2) ok(2) fd(2)])
  show ?thesis using v1 v2 v3 cl by simp
qed

lemma no_end: "cnt ts i x = 0 \<Longrightarrow> t \<in> set ts \<Longrightarrow> Some (PipeEnd i x) \<notin> set t"
  using cnt_pos_iff [of ts i x] by auto

lemma set_two_updates: "i \<noteq> j \<Longrightarrow> xs ! i = y \<Longrightarrow> xs ! j = z \<Longrightarrow> xs[i := a, j := b, i := y, j := z] = xs"
  by (metis list_update_id list_update_overwrite list_update_swap)

lemma stage_table:
  assumes "i \<noteq> j" "n \<noteq> i" "n \<noteq> j" "xs ! i = None" "xs ! j = None"
  shows "xs[i := a, j := b, n := c, i := None, j := None] = xs[n := c]"
proof (rule nth_equalityI)
  fix k assume "k < length (xs[i := a, j := b, n := c, i := None, j := None])"
  then show "xs[i := a, j := b, n := c, i := None, j := None] ! k = xs[n := c] ! k"
    using assms by (cases "k = i"; cases "k = j"; cases "k = n") simp_all
qed simp

text \<open>
  C10: the three processes of a pipeline hold exactly the right descriptors. Let the shell have its standard
  descriptors open and get the ends of a pipe, let the two children inherit its descriptors, and let every process make
  the descriptor calls that \<open>run_pipeline\<close> makes in it. All calls succeed; afterwards the only descriptor in the
  whole system for the write end is the standard output of the left program, the only one for the
  read end is the standard input of the right program, no reference to either end was leaked, and the shell's own table is
  as before. So the right program sees the end of file when the left one closes its output or exits.
\<close>

theorem pipeline_wiring:
  assumes ok: "vfs_inv L v" and ps: "p < MAX_PROCS" "a < MAX_PROCS" "b < MAX_PROCS" "distinct [p, a, b]"
    and std: "fds_of v p ! 0 \<noteq> None" "fds_of v p ! 1 \<noteq> None" and mk: "make_pipe p v = Some (Some (unat rfd, unat wfd), v1)"
    and d: "length d = 16" "u64_from_le (take 8 d) = rfd" "u64_from_le (drop 8 d) = wfd"
    and bl: "build_argv left = Some (lv, lc)" and br: "build_argv right = Some (rv, rc)" and f: "f1 \<noteq> 0" "f2 \<noteq> 0"
  shows "\<exists>pl al bl v' i. run_pipeline (logged (pipeline_reply d f1 f2)) left right [] = Some (Some (), pl)
     \<and> run_pipeline (logged (pipeline_reply d 0 f2)) left right [] = Some (None, al)
     \<and> run_pipeline (logged (pipeline_reply d f1 0)) left right [] = Some (None, bl)
     \<and> do { v2 \<leftarrow> clone_fds a p v1; v3 \<leftarrow> clone_fds b p v2; v4 \<leftarrow> fd_calls a al v3; v5 \<leftarrow> fd_calls b bl v4; fd_calls p pl v5 } = Some v'
     \<and> vfs_inv L v' \<and> L i False = 0 \<and> L i True = 0 \<and> fds_of v' p = fds_of v p
     \<and> (\<forall>q n. q < MAX_PROCS \<and> n < MAX_OPEN \<longrightarrow>
          (fds_of v' q ! n = Some (PipeEnd i True) \<longleftrightarrow> q = a \<and> n = 1) \<and> (fds_of v' q ! n = Some (PipeEnd i False) \<longleftrightarrow> q = b \<and> n = 0))"
proof -
  let ?r = "unat rfd" and ?w = "unat wfd" and ?t = "fds_of v p"
  note G = pipeline_logs [OF bl br d]
  obtain i where i: "?r < ?w" "?w < MAX_OPEN" "?t ! ?r = None" "?t ! ?w = None" "cnt (tables v) i False = 0" "cnt (tables v) i True = 0"
    and li: "L i False = 0" "L i True = 0" and t1: "tables v1 = (tables v)[p := ?t[?r := Some (PipeEnd i False), ?w := Some (PipeEnd i True)]]" and ok1: "vfs_inv L v1"
    using make_pipe_keeps [OF ok ps(1)] mk by auto
  define t' where "t' = ?t[?r := Some (PipeEnd i False), ?w := Some (PipeEnd i True)]"
  have len: "length (tables v) = MAX_PROCS" "length ?t = MAX_OPEN" using ok ps(1) tables_ok_nth by (auto simp: vfs_inv_def tables_ok_def table_ok_def)
  have rw: "2 \<le> ?r" "?r < MAX_OPEN" "(0 :: u64) \<noteq> rfd" "(0 :: u64) \<noteq> wfd" "(1 :: u64) \<noteq> rfd" "(1 :: u64) \<noteq> wfd"
  proof -
    have "?r \<noteq> 0" "?r \<noteq> 1" using std i(3) by metis+
    then show "2 \<le> ?r" by linarith
    then show "?r < MAX_OPEN" "(0 :: u64) \<noteq> rfd" "(0 :: u64) \<noteq> wfd" "(1 :: u64) \<noteq> rfd" "(1 :: u64) \<noteq> wfd" using i(1,2) by auto
  qed
  obtain v2 where v2: "clone_fds a p v1 = Some v2" "vfs_inv L v2" "tables v2 = (tables v1)[a := fds_of v1 p]"
    using clone_fds_keeps [OF ok1 ps(2,1)] ps(4) by auto
  obtain v3 where v3: "clone_fds b p v2 = Some v3" "vfs_inv L v3" "tables v3 = (tables v2)[b := fds_of v2 p]"
    using clone_fds_keeps [OF v2(2) ps(3,1)] ps(4) by auto
  have T3: "tables v3 = (tables v)[p := t', a := t', b := t']" using v2(3) v3(3) t1 ps len by (simp add: t'_def)
  have at: "t' ! ?r = Some (PipeEnd i False)" "t' ! ?w = Some (PipeEnd i True)" using i rw len by (auto simp: t'_def nth_list_update)
  have u: "unat (0 :: u64) = 0" "unat (1 :: u64) = 1" "0 < MAX_OPEN" "1 < MAX_OPEN" by (simp_all add: MAX_OPEN_def)
  define ta where "ta = ?t[1 := Some (PipeEnd i True)]"
  define tb where "tb = ?t[0 := Some (PipeEnd i False)]"
  have ta: "t'[1 := Some (PipeEnd i True), ?r := None, ?w := None] = ta"
    unfolding t'_def ta_def by (rule stage_table) (use i rw in auto)
  have tb: "t'[0 := Some (PipeEnd i False), ?r := None, ?w := None] = tb"
    unfolding t'_def tb_def by (rule stage_table) (use i rw in auto)
  have lt: "p < length (tables v)" "a < length (tables v)" "b < length (tables v)" using len ps by simp_all
  obtain v4 where v4: "fd_calls a [CDup2 wfd 1, CClose rfd, CClose wfd] v3 = Some v4" "vfs_inv L v4" "tables v4 = (tables v3)[a := ta]"
    using stage_fds [OF v3(2) ps(2) rw(2) i(2), of 1 wfd "PipeEnd i True"] rw(5,6) u T3 ps(4) lt at(2) ta by auto
  obtain v5 where v5: "fd_calls b [CDup2 rfd 0, CClose rfd, CClose wfd] v4 = Some v5" "vfs_inv L v5" "tables v5 = (tables v4)[b := tb]"
    using stage_fds [OF v4(2) ps(3) rw(2) i(2), of 0 rfd "PipeEnd i False"] rw(3,4) u v4(3) T3 ps(4) lt at(1) tb by auto
  have T5: "tables v5 = (tables v)[p := t', a := ta, b := tb]" using v5(3) v4(3) T3 ps(4) by (simp add: list_update_swap)
  obtain v6 where v6: "fd_call p (CClose rfd) v5 = Some v6" "vfs_inv L v6" "tables v6 = (tables v5)[p := (fds_of v5 p)[?r := None]]"
    by (rule fd_close [OF v5(2) ps(1) rw(2)])
  obtain v7 where v7: "fd_call p (CClose wfd) v6 = Some v7" "vfs_inv L v7" "tables v7 = (tables v6)[p := (fds_of v6 p)[?w := None]]"
    by (rule fd_close [OF v6(2) ps(1) i(2)])
  have "t'[?r := None, ?w := None] = ?t" unfolding t'_def using i by (intro set_two_updates) auto
  then have "tables v7 = (tables v)[p := t', a := ta, b := tb, p := ?t]" using v7(3) v6(3) T5 ps(4) lt by simp
  then have at7: "fds_of v7 q = (if q = a then ta else if q = b then tb else fds_of v q)" if "q < MAX_PROCS" for q
    using ps(4) lt len that by (auto simp: nth_list_update)
  have none: "fds_of v q ! n \<noteq> Some (PipeEnd i x)" if "q < MAX_PROCS" "n < MAX_OPEN" for q n x
  proof -
    have "length (fds_of v q) = MAX_OPEN" using ok that(1) tables_ok_nth by (auto simp: vfs_inv_def table_ok_def)
    moreover have "cnt (tables v) i x = 0" using i(5,6) by (cases x) simp_all
    ultimately show ?thesis using no_end [of "tables v" i x "fds_of v q"] that len(1) by (metis nth_mem)
  qed
  have ends: "(fds_of v7 q ! n = Some (PipeEnd i True) \<longleftrightarrow> q = a \<and> n = 1) \<and> (fds_of v7 q ! n = Some (PipeEnd i False) \<longleftrightarrow> q = b \<and> n = 0)"
    if "q < MAX_PROCS" "n < MAX_OPEN" for q n
    using none [OF that] none [OF ps(1) that(2)] at7 [OF that(1)] len(2) that(2) ps(4) u by (auto simp: ta_def tb_def nth_list_update)
  have "do { v2 \<leftarrow> clone_fds a p v1; v3 \<leftarrow> clone_fds b p v2; v4 \<leftarrow> fd_calls a [CPipe, CFork, CDup2 wfd 1, CClose rfd, CClose wfd, CExecArgv lv lc] v3;
      v5 \<leftarrow> fd_calls b [CPipe, CFork, CFork, CDup2 rfd 0, CClose rfd, CClose wfd, CExecArgv rv rc] v4;
      fd_calls p [CPipe, CFork, CFork, CClose rfd, CClose wfd, CWait f1, CWait f2] v5 } = Some v7"
    using v2(1) v3(1) v4(1) v5(1) v6(1) v7(1) by (auto simp: bind_eq_Some_conv)
  moreover have "fds_of v7 p = ?t" using at7 [OF ps(1)] ps(4) by simp
  ultimately show ?thesis using G(1) [OF f] G(2) [of f2] G(3) [OF f(1)] v7(2) li ends by blast
qed

text \<open>The first process on an empty file system, with its standard descriptors.\<close>

definition console_vfs :: vfs where
  "console_vfs = the (init_console_fds 1 (VFS_init (blank_fs 64)))"

lemma console_vfs_ok:
  "vfs_inv no_leaks console_vfs" "fds_of console_vfs 1 = [Some ConsoleIn, Some ConsoleOut, Some ConsoleOut] @ replicate (MAX_OPEN - 3) None" "\<exists>v. make_pipe 1 console_vfs = Some (Some (3, 4), v)"
proof -
  obtain v where v: "init_console_fds 1 (VFS_init (blank_fs 64)) = Some v" "vfs_inv no_leaks v"
      "tables v = (tables (VFS_init (blank_fs 64)))[1 := [Some ConsoleIn, Some ConsoleOut, Some ConsoleOut] @ replicate (MAX_OPEN - 3) None]"
    using init_console_fds_keeps [OF vfs_inv_init, of 1] by (auto simp: MAX_PROCS_def)
  show "vfs_inv no_leaks console_vfs" and t: "fds_of console_vfs 1 = [Some ConsoleIn, Some ConsoleOut, Some ConsoleOut] @ replicate (MAX_OPEN - 3) None"
    using v by (simp_all add: console_vfs_def VFS_init_def MAX_PROCS_def)
  have "clear_table (replicate n None) pool = Some (replicate n None, pool)" for n pool by (induction n) simp_all
  then have "pipes v = pipes (VFS_init (blank_fs 64))" using v(1)
    by (auto simp: init_console_fds_def clear_fds_def VFS_init_def index_def MAX_PROCS_def put_fd_def split: if_splits)
  moreover have "pipe_alloc (pipes (VFS_init (blank_fs 64))) = (Some 0, (pipes (VFS_init (blank_fs 64)))[0 := (pipes (VFS_init (blank_fs 64)) ! 0)\<lparr>head := 0, tail := 0, len := 0, fsm := Some Pipe_create\<rparr>])"
    by (simp add: VFS_init_def POOL_init_def MAX_PIPES_def pipe_alloc_def numeral_eq_Suc PipeBuf_empty_def)
  ultimately show "\<exists>v. make_pipe 1 console_vfs = Some (Some (3, 4), v)"
    using v(1) t by (simp add: make_pipe_def console_vfs_def index_def) (simp add: v(3) VFS_init_def MAX_PROCS_def MAX_OPEN_def numeral_eq_Suc)
qed

theorem pipeline_wiring_witness:
  "\<exists>v1. make_pipe 1 console_vfs = Some (Some (3, 4), v1)
     \<and> (\<exists>pl v' i. run_pipeline (logged (pipeline_reply [3, 0, 0, 0, 0, 0, 0, 0, 4, 0, 0, 0, 0, 0, 0, 0] 5 6)) [lit ''a''] [lit ''b''] [] = Some (Some (), pl)
     \<and> vfs_inv no_leaks v' \<and> fds_of v' 2 ! 1 = Some (PipeEnd i True) \<and> fds_of v' 3 ! 0 = Some (PipeEnd i False) \<and> fds_of v' 1 ! 4 = None)"
proof -
  let ?d = "[3, 0, 0, 0, 0, 0, 0, 0, 4, 0, 0, 0, 0, 0, 0, 0] :: bytes"
  obtain v1 where m: "make_pipe 1 console_vfs = Some (Some (unat (3 :: u64), unat (4 :: u64)), v1)" using console_vfs_ok(3) by auto
  have d: "u64_from_le (take 8 ?d) = 3" "u64_from_le (drop 8 ?d) = 4" by (simp_all add: u64_from_le_def)
  obtain lv lc rv rc where "build_argv [lit ''a''] = Some (lv, lc)" "build_argv [lit ''b''] = Some (rv, rc)" using build_argv_block by force
  note W = pipeline_wiring [OF console_vfs_ok(1) _ _ _ _ _ _ m _ d this, of 2 3 5 6]
  have s: "(1 :: nat) < MAX_PROCS" "(2 :: nat) < MAX_PROCS" "(3 :: nat) < MAX_PROCS" "(0 :: nat) < MAX_OPEN" "(1 :: nat) < MAX_OPEN" "(4 :: nat) < MAX_OPEN"
    by (simp_all add: MAX_PROCS_def MAX_OPEN_def)
  obtain pl v' i where p: "run_pipeline (logged (pipeline_reply ?d 5 6)) [lit ''a''] [lit ''b''] [] = Some (Some (), pl)" "vfs_inv no_leaks v'" "fds_of v' 1 = fds_of console_vfs 1"
    and e: "\<forall>q n. q < MAX_PROCS \<and> n < MAX_OPEN \<longrightarrow>
          (fds_of v' q ! n = Some (PipeEnd i True) \<longleftrightarrow> q = 2 \<and> n = 1) \<and> (fds_of v' q ! n = Some (PipeEnd i False) \<longleftrightarrow> q = 3 \<and> n = 0)"
    using W s console_vfs_ok(2) by auto
  have "fds_of v' 1 ! 4 = None" using p(3) console_vfs_ok(2) by (simp add: MAX_OPEN_def)
  moreover have "fds_of v' 2 ! 1 = Some (PipeEnd i True)" "fds_of v' 3 ! 0 = Some (PipeEnd i False)" using e s by blast+
  ultimately show ?thesis using m p by auto
qed

end
