(* ===== verification/Spec2Isabelle.thy ===== *)
theory Spec2Isabelle
  imports VfsInv FsInv FsNames FsPath NetInv Fork Qsort PrintfInv SchedReach ProcTable Clock Console ElfInv ShellKernel
begin

text \<open>
  Verification of Frame OS, a small x86_64 kernel with a file system, a network stack and a C
  library, in which the control logic of many parts is written as state machines in the Frame
  language (the \<open>.frs\<close> files under \<open>src/frame\<close> and \<open>src/libc/frame\<close>) and everything else in Rust.

  \<^bold>\<open>The parts and how they interact.\<close> A user process enters the kernel by a system call or an interrupt.
  The scheduler keeps one control block per process, with its address space, kernel stack, break,
  working directory and signal state; the timer interrupt delivers signals and switches to the next
  runnable process. Descriptors of a process refer to files, to the console or to ends of pipes;
  files live in an on-disk file system behind a write-through block cache. Address spaces are page
  tables built from frames of a physical allocator; the loader fills them from ELF images. A call runs
  inside the dispatcher, a state machine; what may block (exec, wait, reading a line or a pipe) and
  the end of the process are recorded there and done afterwards. The network layer classifies received frames,
  answers ARP and ICMP, reassembles fragmented datagrams and runs TCP connections. The C library
  offers strings, sorting, number parsing, \<open>printf\<close> and \<open>scanf\<close> to the programs. The interactive shell is a
  program that reads lines and starts, stops, resumes and connects others by system calls.

  \<^bold>\<open>Theories.\<close> Each opens with a note on what it holds and which files it models.

  \<^item> \<open>Prelude\<close>: machine integers as words, slices with Rust's bounds checks (\<open>None\<close> is a panic),
    little- and big-endian codecs, bitmaps and the locale \<open>bit_array\<close>, shared lemmas and collections.
    \<open>Fifo\<close>: the locale \<open>byte_fifo\<close>, a bounded byte queue, and what every interleaving of reads and writes
    does with it. \<open>Memory\<close>: byte-addressed memory with word accesses, blocks and C strings.
  \<^item> \<open>FsFormat\<close> (\<open>shared/src/fs.rs\<close>), \<open>BlockCache\<close> (\<open>ramdisk.rs\<close>, \<open>block_request.frs\<close>, the cache of
    \<open>kernel/src/fs.rs\<close>), \<open>FsCore\<close>, \<open>FsFile\<close>, \<open>FsDir\<close> (the rest of \<open>kernel/src/fs.rs\<close>, \<open>mount.frs\<close>): the codecs,
    inodes, bitmap, block map, file contents, directories. \<open>FsInv\<close>: allocation never hands out a block
    in use, inodes round trip, mounting. \<open>FsMap\<close>: the references of a file through the three tiers of its
    block map, none shared, all marked used (\<open>files_ok\<close>), and what growing a file keeps. \<open>FsContent\<close>: reading,
    writing and deleting as operations on byte sequences. \<open>FsNames\<close>: directories as lists of entries, and
    what creating a file binds. \<open>FsPath\<close>: path resolution refines the lexical
    normalisation of a component list. \<open>BlockCache\<close> has the locale \<open>block_store\<close>: reads through the
    cache see what a plain array of blocks would hold.
  \<^item> \<open>Pipe\<close> (\<open>pipe.rs\<close>, \<open>pipe.frs\<close>): ring buffers (an interpretation of \<open>byte_fifo\<close>) and reference counts.
    \<open>Vfs\<close> (\<open>vfs.rs\<close>, \<open>open_file.frs\<close>): descriptor tables. \<open>VfsInv\<close>: the reference counts of pipes equal
    the descriptors that exist plus the references that \<open>dup\<close> leaked on a full table, end of file, access
    modes.
  \<^item> \<open>Frames\<close> (\<open>frames.rs\<close>): the frame allocator. \<open>Paging\<close> (\<open>arch/x86_64/paging.rs\<close>): four-level page tables in
    physical memory. \<open>PagingInv\<close>: mapping and unmapping change one translation and nothing else.
    \<open>Fork\<close>: a forked address space maps the same pages to fresh copies.
  \<^item> \<open>Checksum\<close>, \<open>IpReasm\<close> (\<open>ip_reasm.rs\<close>, \<open>ip_reassembly.frs\<close>), \<open>Tcp\<close> (\<open>tcp.rs\<close>, \<open>tcp_connection.frs\<close>), \<open>Net\<close>
    (\<open>net.rs\<close>, \<open>rx_pipeline.frs\<close>, \<open>arp_resolver.frs\<close>, \<open>udp_socket.frs\<close>), with \<open>TcpInv\<close> and \<open>NetInv\<close>: reassembly is
    sound and complete, timers match connection states (on the client slot not after \<open>scale_stress\<close>, until
    the next \<open>connect\<close>; the flag of \<open>tcp_reach\<close>), segments touch only their connection, and
    no received frame makes the pipeline panic apart from the fragment header case proved as such.
    Parsers read a frame with bounds checks; total functions (\<open>seg_of\<close>, \<open>frag_of\<close>, \<open>range_of\<close>,
    \<open>echo_request\<close>) specify them.
  \<^item> \<open>IoSched\<close> (\<open>io_scheduler.frs\<close>), \<open>ProcTable\<close> (\<open>process.frs\<close>, \<open>process_table.frs\<close>), \<open>Sched\<close> (\<open>sched.rs\<close>,
    \<open>scheduler.frs\<close>), \<open>Signals\<close> (trap frames, signal delivery and the timer interrupt of \<open>usermode.rs\<close> and
    \<open>sched.rs\<close>). \<open>SchedInv\<close>: delivery, its return, and the
    panic when the user stack has no room for the signal frame. \<open>SchedReach\<close>: the invariant of the thread table
    over all operations, fairness, fork.
  \<^item> \<open>Clock\<close> (\<open>arch/x86_64/rtc.rs\<close>, \<open>libc/src/posix.rs\<close>): the CMOS clock and broken-down time round trip.
    \<open>Console\<close> (\<open>console.rs\<close>): the line discipline refines an edit line and a queue of lines.
  \<^item> \<open>Elf\<close> (\<open>elf.rs\<close>, \<open>elf_loader.frs\<close>): the program loader over page tables and frames. \<open>UserPages\<close>: what a
    user address space maps, and how mapping and unmapping change it. \<open>ElfInv\<close>: a loaded image holds
    the bytes of its segments, a zeroed stack and the signal trampoline, and what a failed load does.
  \<^item> \<open>Kernel\<close>, \<open>Syscall\<close> (\<open>usermode.rs\<close>, \<open>syscall_dispatcher.frs\<close>): the record \<open>kernel\<close> composes the scheduler,
    descriptors, file system, process table, console, clock and page tables with the statics of
    \<open>usermode.rs\<close>; one function per call, the dispatcher, the work after it, exec and program start.
    \<open>SyscallInv\<close>: what each call keeps. \<open>KernelReach\<close>: the step relation of the whole kernel (boot, calls,
    resumed calls, timer ticks, key strokes), its invariant, exit and wait, and how calls fail.
    \<open>ExecStack\<close>: the argument stack and the image a program starts with.
  \<^item> \<open>CString\<close>, \<open>Qsort\<close>, \<open>CStdlib\<close>, \<open>Printf\<close>, \<open>PrintfInv\<close> (\<open>libc/src/cstring.rs\<close>, \<open>cstdlib.rs\<close>, \<open>printf.rs\<close>,
    \<open>printf_scan.frs\<close>): strings, shell sort, number parsing, formatted output and input.
  \<^item> \<open>ShellParse\<close> (\<open>parser.frs\<close>, \<open>pipeline.frs\<close>): the scanner and the grammar of the command line; they accept
    exactly the lines of a reference grammar, and a pipeline written as a line is read back. \<open>Ish\<close>
    (\<open>user/src/ish.rs\<close>, \<open>job.frs\<close>, \<open>job_control.frs\<close>, \<open>shell.frs\<close>): the interactive shell. \<open>IshInv\<close>: its job table over
    every line. \<open>ShellKernel\<close>: the shell on the kernel model, where the words of a command arrive in
    the program and the processes of a pipeline hold the right descriptors.

  \<^bold>\<open>Correspondence.\<close> Statics of a module are one record, passed and returned; a Frame system is a
  datatype of its states, a record of its domain, and one function per event. Rust panics (index or
  slice out of range, \<open>unwrap\<close>) are \<open>None\<close> of an option; error results keep the source's values.
  Integers keep their width where they can wrap. The kernel is built with overflow checks: plain
  additions and subtractions that a user or a peer can drive out of range (the loader, \<open>brk\<close>, the signal frame, the pid
  counter of \<open>spawn_checked\<close>, the counters of echoed payloads, received datagrams and fragments) are
  panics on overflow; the tick counter of the timer is a natural number. Serial-line messages for diagnosis are left out.
  Interrupt masking makes the handlers atomic, so one operation is one step; interleavings are
  sequences of steps (\<open>vfs_step\<close>, \<open>sched_step\<close>, \<open>kernel_step\<close>, \<open>tcp_reach\<close>, \<open>reasm_run\<close>, \<open>io_run\<close>).
  A system call is one step unless it waits for a child, a line, a pipe or to be continued; a disk
  transfer completes inside its call, as with the RAM disk. The shell takes the kernel as an argument,
  a function from a call and the world to a reply; a program is a function of the world that
  returns, is replaced or exits, or never returns.

  \<^bold>\<open>Loops and fuel.\<close> Loops over tables are structural recursion; searches over block numbers are
  functions with a measure; loops that may not end (C strings without terminator, signal delivery on
  a table the index points out of, the clock's wait, the reaping loop) are partial functions into
  option, and the properties prove that they return; the read loop of the shell and its \<open>cat\<close> end only
  when the kernel's replies make them, and are partial functions too. No definition uses fuel.

  \<^bold>\<open>Not modelled.\<close> Device drivers (virtqueues, xHCI and the USB state machines, UART, PCI, interrupt
  controllers), boot and interrupt stubs in assembly, the multi-core demonstrations, the AArch64
  port, floating-point formatting (a parameter of the \<open>printf\<close> engine), running out of kernel or user heap inside
  Rust's collections, and the other user programs, the hosted
  shell and the build tools: they either act on hardware whose behaviour the sources do not contain or are
  programs above the interfaces verified here.
\<close>

end
